(* ===== verification/Prelude.thy ===== *)
theory Prelude
  imports Main "HOL-Library.Multiset" "HOL-Library.Finite_Map" "HOL-Library.Sublist" "HOL-Library.Word"
begin

text \<open>
  What the component theories share: the result type of code that throws or aborts, the
  numeric limits of the C++ types the code names, the model of a \<open>std::map\<close> used as a
  counted index, and generic lemmas on lists updated by index.
\<close>

named_theorems res_simps \<open>case rules of the result type\<close>
named_theorems list_upd \<open>reading a list after writes by index\<close>
named_theorems idx_simps \<open>the counted index\<close>

section \<open>Results\<close>

text \<open>
  A function that may throw returns \<open>'e + 'a\<close> (\<open>Inl\<close> is the exception), a function that may
  stop in \<open>GGML_ASSERT\<close> or \<open>GGML_ABORT\<close> returns \<open>'a option\<close> (\<open>None\<close> is the abort).
\<close>

fun bindR :: "'e + 'a \<Rightarrow> ('a \<Rightarrow> 'e + 'b) \<Rightarrow> 'e + 'b" where
  "bindR (Inl e) f = Inl e"
| "bindR (Inr x) f = f x"

definition throw_unless :: "bool \<Rightarrow> 'e \<Rightarrow> 'e + unit" where
  "throw_unless b e = (if b then Inr () else Inl e)"

lemma bindR_Inr [res_simps]: "bindR m f = Inr y \<longleftrightarrow> (\<exists>x. m = Inr x \<and> f x = Inr y)"
  by (cases m) auto

lemma bindR_Inl [res_simps]:
  "bindR m f = Inl e \<longleftrightarrow> m = Inl e \<or> (\<exists>x. m = Inr x \<and> f x = Inl e)"
  by (cases m) auto

lemma throw_unless_Inr [res_simps]: "throw_unless b e = Inr u \<longleftrightarrow> b"
  by (simp add: throw_unless_def)

lemma throw_unless_Inl [res_simps]: "throw_unless b e = Inl e' \<longleftrightarrow> \<not> b \<and> e' = e"
  by (auto simp: throw_unless_def)

lemma bindR_throw_unless [simp]: "bindR (throw_unless b e) f = (if b then f () else Inl e)"
  by (simp add: throw_unless_def)

fun mapR :: "('a \<Rightarrow> 'e + 'b) \<Rightarrow> 'a list \<Rightarrow> 'e + 'b list" where
  "mapR f [] = Inr []"
| "mapR f (x # xs) = bindR (f x) (\<lambda>y. bindR (mapR f xs) (\<lambda>ys. Inr (y # ys)))"

lemma mapR_Inr_iff:
  "mapR f xs = Inr ys \<longleftrightarrow> length ys = length xs \<and> (\<forall>i < length xs. f (xs ! i) = Inr (ys ! i))"
proof (induction xs arbitrary: ys)
  case (Cons x xs)
  show ?case
  proof (cases ys)
    case (Cons y ys')
    with Cons.IH [of ys'] show ?thesis
      by (auto simp: bindR_Inr nth_Cons split: nat.splits)
  qed (auto simp: bindR_Inr)
qed auto

lemma mapR_all_Inr: "(\<And>x. x \<in> set xs \<Longrightarrow> f x = Inr (g x)) \<Longrightarrow> mapR f xs = Inr (map g xs)"
  by (induction xs) auto

section \<open>Limits\<close>

definition INT32_MAX :: int where "INT32_MAX = 2147483647"
definition UINT16_MAX :: nat where "UINT16_MAX = 65535"
definition UINT64_MAX :: nat where "UINT64_MAX = 18446744073709551615"

text \<open>\<open>LLAMA_MAX_SEQ\<close> of src/src/llama-cparams.h.\<close>

definition LLAMA_MAX_SEQ :: nat where "LLAMA_MAX_SEQ = 256"

type_synonym llama_pos = int
type_synonym llama_seq_id = int
type_synonym llama_token = int

definition LLAMA_TOKEN_NULL :: llama_token where "LLAMA_TOKEN_NULL = -1"

text \<open>C++ integer division truncates towards zero.\<close>

definition trunc_div :: "int \<Rightarrow> int \<Rightarrow> int" where
  "trunc_div a b = sgn a * sgn b * (\<bar>a\<bar> div \<bar>b\<bar>)"

section \<open>Lists written by index\<close>

lemma nth_upd [list_upd]: "i < length xs \<Longrightarrow> (xs[i := x]) ! j = (if i = j then x else xs ! j)"
  by simp

lemma nth_list_update': "xs[i := y] ! j = (if i = j \<and> j < length xs then y else xs ! j)"
  by (cases "i = j") (auto simp: list_update_beyond not_less)

text \<open>The writes \<open>xs[is!k] := f k\<close> of a loop over distinct indices.\<close>

fun write_all :: "'a list \<Rightarrow> (nat \<times> 'a) list \<Rightarrow> 'a list" where
  "write_all xs [] = xs"
| "write_all xs ((i, x) # ws) = write_all (xs[i := x]) ws"

lemma length_write_all [simp]: "length (write_all xs ws) = length xs"
  by (induction xs ws rule: write_all.induct) auto

lemma write_all_other: "j \<notin> fst ` set ws \<Longrightarrow> write_all xs ws ! j = xs ! j"
  by (induction xs ws rule: write_all.induct) (auto simp: nth_list_update_neq)

lemma write_all_same:
  assumes "distinct (map fst ws)" "(j, y) \<in> set ws" "j < length xs"
  shows "write_all xs ws ! j = y"
  using assms
proof (induction xs ws rule: write_all.induct)
  case (2 xs i x ws)
  then show ?case
    by (cases "i = j") (auto simp: write_all_other rev_image_eqI)
qed simp

lemma write_all_append: "write_all xs (ws @ vs) = write_all (write_all xs ws) vs"
  by (induction xs ws rule: write_all.induct) auto

lemma sum_list_take_Suc:
  "j < length xs \<Longrightarrow> sum_list (take (Suc j) xs) = sum_list (take j xs) + (xs ! j :: 'a :: monoid_add)"
  by (simp add: take_Suc_conv_app_nth)

section \<open>Consecutive segments\<close>

text \<open>A list of sizes cuts the numbers below its sum into consecutive segments.\<close>

definition segment :: "nat list \<Rightarrow> nat \<Rightarrow> nat \<Rightarrow> bool" where
  "segment ns j k \<longleftrightarrow> sum_list (take j ns) \<le> k \<and> k < sum_list (take (Suc j) ns)"

lemma sum_list_take_mono: "i \<le> j \<Longrightarrow> sum_list (take i ns) \<le> sum_list (take j (ns :: nat list))"
proof -
  assume "i \<le> j"
  then have "take j ns = take i ns @ take (j - i) (drop i ns)"
    by (metis le_add_diff_inverse take_add)
  then show ?thesis by simp
qed

lemma sum_list_take_le: "sum_list (take i ns) \<le> sum_list (ns :: nat list)"
  by (metis append_take_drop_id le_add1 sum_list_append)

lemma segment_exists: "k < sum_list ns \<Longrightarrow> \<exists>j < length ns. segment ns j k"
proof (induction ns arbitrary: k)
  case (Cons n ns)
  show ?case
  proof (cases "k < n")
    case True
    then show ?thesis by (intro exI [of _ 0]) (simp add: segment_def)
  next
    case False
    with Cons.prems have "k - n < sum_list ns" by simp
    from Cons.IH [OF this] obtain j where "j < length ns" "segment ns j (k - n)" by blast
    with False show ?thesis by (intro exI [of _ "Suc j"]) (auto simp: segment_def)
  qed
qed simp

lemma segment_unique: "segment ns i k \<Longrightarrow> segment ns j k \<Longrightarrow> i = j"
proof (rule ccontr)
  assume a: "segment ns i k" "segment ns j k" "i \<noteq> j"
  then have "Suc i \<le> j \<or> Suc j \<le> i" by linarith
  with a sum_list_take_mono [of "Suc i" j ns] sum_list_take_mono [of "Suc j" i ns]
  show False by (auto simp: segment_def)
qed

end
