(* ===== verification/Expert_Placement.thy ===== *)
theory Expert_Placement
  imports Prelude Complex_Main
begin

text \<open>
  Hot-expert placement (src/src/llama-expert-placement.cpp, .h): loading and validating the
  JSON artifact against the model, recognising the routed-expert tensors, and building the
  per-member ownership tables with their audit.

  The parsed document is the datatype \<open>json\<close>; the accessors follow the library's rules (a
  missing key, a wrong kind of value and indexing a non-array raise \<open>json::exception\<close>, which
  the loader rethrows as \<open>PE_malformed\<close>). Messages are the constructors of \<open>place_error\<close> with
  the numbers the message prints. Log lines, the tensor allocation of the tables and the
  debug self-test (\<open>GGML_META_DEBUG\<close>, it only logs) are not modelled; what the tables hold is.
\<close>

section \<open>The parsed artifact\<close>

datatype json =
    JNull
  | JBool bool
  | JInt int
  | JReal rat
  | JStr string
  | JArr "json list"
  | JObj "(string \<times> json) list"

datatype place_error =
    PE_cannot_open
  | PE_invalid_json
  | PE_malformed
  | PE_n_layer_mismatch nat nat
  | PE_n_expert_mismatch nat nat
  | PE_layer_rows nat nat nat
  | PE_null_together nat
  | PE_perm_size nat nat nat
  | PE_not_bijection nat nat int
  | PE_counts_size nat nat nat
  | PE_negative_count nat int
  | PE_zero_count nat nat
  | PE_counts_sum nat int nat
  | PE_no_placement
  | PE_stoul_range
  | PE_no_owner nat nat
  | PE_remap_not_skip nat nat nat int
  | PE_slot_range nat nat nat int int
  | PE_mask nat nat nat rat
  | PE_owned_count nat nat int int
  | PE_alloc

type_synonym 'a placed_res = "place_error + 'a"

text \<open>Accessors of the JSON library, as the loader uses them.\<close>

definition wrap_u32 :: "int \<Rightarrow> nat" where "wrap_u32 z = nat (z mod 2 ^ 32)"

definition wrap_i32 :: "int \<Rightarrow> int" where "wrap_i32 z = (z + 2 ^ 31) mod 2 ^ 32 - 2 ^ 31"

definition trunc_rat :: "rat \<Rightarrow> int" where
  "trunc_rat q = (if q < 0 then - \<lfloor>- q\<rfloor> else \<lfloor>q\<rfloor>)"

fun json_int :: "json \<Rightarrow> int placed_res" where
  "json_int (JInt z) = Inr z"
| "json_int (JBool b) = Inr (if b then 1 else 0)"
| "json_int (JReal q) = Inr (trunc_rat q)"
| "json_int _ = Inl PE_malformed"

fun json_num :: "json \<Rightarrow> rat placed_res" where
  "json_num (JInt z) = Inr (of_int z)"
| "json_num (JBool b) = Inr (if b then 1 else 0)"
| "json_num (JReal q) = Inr q"
| "json_num _ = Inl PE_malformed"

fun json_at :: "json \<Rightarrow> string \<Rightarrow> json placed_res" where
  "json_at (JObj kvs) k = (case map_of kvs k of None \<Rightarrow> Inl PE_malformed | Some v \<Rightarrow> Inr v)"
| "json_at _ k = Inl PE_malformed"

fun json_find :: "json \<Rightarrow> string \<Rightarrow> json option" where
  "json_find (JObj kvs) k = map_of kvs k"
| "json_find _ k = None"

text \<open>\<open>j.value(k, default)\<close> for a string default.\<close>

fun json_value_str :: "json \<Rightarrow> string \<Rightarrow> string \<Rightarrow> string placed_res" where
  "json_value_str (JObj kvs) k d =
     (case map_of kvs k of None \<Rightarrow> Inr d | Some (JStr s) \<Rightarrow> Inr s | Some _ \<Rightarrow> Inl PE_malformed)"
| "json_value_str _ k d = Inl PE_malformed"

fun json_size :: "json \<Rightarrow> nat" where
  "json_size JNull = 0"
| "json_size (JArr xs) = length xs"
| "json_size (JObj kvs) = length kvs"
| "json_size _ = 1"

fun json_idx :: "json \<Rightarrow> nat \<Rightarrow> json placed_res" where
  "json_idx (JArr xs) i = (if i < length xs then Inr (xs ! i) else Inl PE_malformed)"
| "json_idx _ i = Inl PE_malformed"

fun json_i32s :: "json \<Rightarrow> int list placed_res" where
  "json_i32s (JArr xs) = mapR (\<lambda>x. bindR (json_int x) (\<lambda>z. Inr (wrap_i32 z))) xs"
| "json_i32s _ = Inl PE_malformed"

fun json_doubles :: "json \<Rightarrow> rat list placed_res" where
  "json_doubles (JArr xs) = mapR json_num xs"
| "json_doubles _ = Inl PE_malformed"

text \<open>What \<open>std::ifstream\<close> and \<open>json::parse\<close> give for the path.\<close>

datatype artifact_file = Cannot_open | Not_json | Parsed json

section \<open>The placement and its loader\<close>

record llama_expert_placement =
  model_name :: string
  pl_n_layer :: nat
  pl_n_expert :: nat
  perm :: "int list list"
  member_shares :: "rat list"
  counts :: "int list list"

definition layer_placed :: "llama_expert_placement \<Rightarrow> nat \<Rightarrow> bool" where
  "layer_placed pl il \<longleftrightarrow> il < length (perm pl) \<and> perm pl ! il \<noteq> []"

text \<open>The bijection check of a layer's permutation, with its \<open>seen\<close> bytes.\<close>

fun check_bijection :: "nat \<Rightarrow> nat \<Rightarrow> bool list \<Rightarrow> int list \<Rightarrow> unit placed_res" where
  "check_bijection il n_expert seen [] = Inr ()"
| "check_bijection il n_expert seen (e # es) =
     (if e < 0 \<or> nat e \<ge> n_expert \<or> seen ! nat e then Inl (PE_not_bijection il n_expert e)
      else check_bijection il n_expert (seen[nat e := True]) es)"

text \<open>The loop over the member counts: index \<open>j\<close> and the running \<open>sum\<close>.\<close>

fun check_counts :: "nat \<Rightarrow> nat \<Rightarrow> int \<Rightarrow> int list \<Rightarrow> int placed_res" where
  "check_counts il j s [] = Inr s"
| "check_counts il j s (c # cs) =
     (if c < 0 then Inl (PE_negative_count il c)
      else if c = 0 then Inl (PE_zero_count il j)
      else check_counts il (Suc j) (s + c) cs)"

text \<open>One layer of the load loop: \<open>None\<close> is the \<open>continue\<close> of an unplaced layer.\<close>

definition load_layer ::
  "nat \<Rightarrow> nat \<Rightarrow> nat \<Rightarrow> json \<Rightarrow> json \<Rightarrow> (int list \<times> int list) option placed_res" where
  "load_layer n_expert n_members il jp jc =
     bindR (throw_unless ((jp = JNull) = (jc = JNull)) (PE_null_together il)) (\<lambda>_.
     if jp = JNull then Inr None
     else
       bindR (json_i32s jp) (\<lambda>p.
       bindR (throw_unless (length p = n_expert) (PE_perm_size il (length p) n_expert)) (\<lambda>_.
       bindR (check_bijection il n_expert (replicate n_expert False) p) (\<lambda>_.
       bindR (json_i32s jc) (\<lambda>cnt.
       bindR (throw_unless (length cnt = n_members) (PE_counts_size il (length cnt) n_members)) (\<lambda>_.
       bindR (check_counts il 0 0 cnt) (\<lambda>sum.
       bindR (throw_unless (sum = int n_expert) (PE_counts_sum il sum n_expert)) (\<lambda>_.
       Inr (Some (p, cnt))))))))))"

fun load_layers ::
  "nat \<Rightarrow> nat \<Rightarrow> json \<Rightarrow> json \<Rightarrow> nat list \<Rightarrow> (int list \<times> int list) option list placed_res" where
  "load_layers n_expert n_members j_perm j_cnt [] = Inr []"
| "load_layers n_expert n_members j_perm j_cnt (il # ils) =
     bindR (json_idx j_perm il) (\<lambda>jp.
     bindR (json_idx j_cnt il) (\<lambda>jc.
     bindR (load_layer n_expert n_members il jp jc) (\<lambda>l.
     bindR (load_layers n_expert n_members j_perm j_cnt ils) (\<lambda>ls. Inr (l # ls)))))"

definition llama_expert_placement_load ::
  "artifact_file \<Rightarrow> nat \<Rightarrow> nat \<Rightarrow> nat \<Rightarrow> llama_expert_placement placed_res" where
  "llama_expert_placement_load file n_layer n_expert n_members =
     (case file of
        Cannot_open \<Rightarrow> Inl PE_cannot_open
      | Not_json \<Rightarrow> Inl PE_invalid_json
      | Parsed j \<Rightarrow>
          bindR (json_value_str j ''model'' '''') (\<lambda>name.
          bindR (bindR (json_at j ''n_layer'') json_int) (\<lambda>zl.
          bindR (bindR (json_at j ''n_expert'') json_int) (\<lambda>ze.
          bindR (throw_unless (wrap_u32 zl = n_layer) (PE_n_layer_mismatch (wrap_u32 zl) n_layer)) (\<lambda>_.
          bindR (throw_unless (wrap_u32 ze = n_expert) (PE_n_expert_mismatch (wrap_u32 ze) n_expert)) (\<lambda>_.
          bindR (case json_find j ''member_shares'' of None \<Rightarrow> Inr [] | Some ms \<Rightarrow> json_doubles ms) (\<lambda>shares.
          bindR (json_at j ''perm'') (\<lambda>j_perm.
          bindR (json_at j ''counts_per_layer'') (\<lambda>j_cnt.
          bindR (throw_unless (json_size j_perm = n_layer \<and> json_size j_cnt = n_layer)
                   (PE_layer_rows n_layer (json_size j_perm) (json_size j_cnt))) (\<lambda>_.
          bindR (load_layers n_expert n_members j_perm j_cnt [0..<n_layer]) (\<lambda>ls.
          bindR (throw_unless (\<exists>l \<in> set ls. l \<noteq> None) PE_no_placement) (\<lambda>_.
          bindR (case json_find j ''source_profile'' of None \<Rightarrow> Inr [] | Some sp \<Rightarrow> json_value_str sp ''path'' ''?'') (\<lambda>_.
          Inr \<lparr>model_name = name, pl_n_layer = wrap_u32 zl, pl_n_expert = wrap_u32 ze,
               perm = map (\<lambda>l. case l of None \<Rightarrow> [] | Some (p, c) \<Rightarrow> p) ls,
               member_shares = shares,
               counts = map (\<lambda>l. case l of None \<Rightarrow> [] | Some (p, c) \<Rightarrow> c) ls\<rparr>)))))))))))))"

section \<open>Which tensors are permuted\<close>

definition is_digit_c :: "char \<Rightarrow> bool" where
  "is_digit_c c \<longleftrightarrow> 48 \<le> (of_char c :: nat) \<and> (of_char c :: nat) \<le> 57"

definition digits_val :: "string \<Rightarrow> nat" where
  "digits_val ds = foldl (\<lambda>v c. 10 * v + (of_char c - 48)) 0 ds"

text \<open>
  The match of \<open>blk\.(\d+)\.ffn_(gate|up|gate_up|down)_exps\.weight\<close> against the whole name,
  with the first group.
\<close>

definition match_exps_weight :: "string \<Rightarrow> string option" where
  "match_exps_weight name =
     (let ds = takeWhile is_digit_c (drop 4 name); rest = dropWhile is_digit_c (drop 4 name)
      in if take 4 name = ''blk.'' \<and> ds \<noteq> [] \<and>
            (rest = ''.ffn_gate_exps.weight'' \<or> rest = ''.ffn_up_exps.weight'' \<or>
             rest = ''.ffn_gate_up_exps.weight'' \<or> rest = ''.ffn_down_exps.weight'')
         then Some ds else None)"

text \<open>\<open>None\<close> for the placement or the name is the null pointer; \<open>std::stoul\<close> may throw.\<close>

definition llama_expert_placement_layer_for ::
  "llama_expert_placement option \<Rightarrow> string option \<Rightarrow> int placed_res" where
  "llama_expert_placement_layer_for plo nameo =
     (case (plo, nameo) of
        (Some pl, Some name) \<Rightarrow>
          (case match_exps_weight name of
             None \<Rightarrow> Inr (-1)
           | Some ds \<Rightarrow>
               if digits_val ds > UINT64_MAX then Inl PE_stoul_range
               else let il = digits_val ds mod 2 ^ 32
                    in if layer_placed pl il then Inr (int il) else Inr (-1))
      | _ \<Rightarrow> Inr (-1))"

definition llama_expert_placement_perm_for ::
  "llama_expert_placement option \<Rightarrow> string option \<Rightarrow> int list option placed_res" where
  "llama_expert_placement_perm_for plo nameo =
     bindR (llama_expert_placement_layer_for plo nameo) (\<lambda>il.
       Inr (if il \<ge> 0 then map_option (\<lambda>pl. perm pl ! nat il) plo else None))"

section \<open>Ownership tables\<close>

definition LLAMA_EXPERT_SLOT_SKIP :: int where "LLAMA_EXPERT_SLOT_SKIP = -1"

text \<open>Original expert id to owning member: the loop over the members with its cursor \<open>pos\<close>.\<close>

fun member_of_loop :: "int list \<Rightarrow> int list \<Rightarrow> nat \<Rightarrow> nat \<Rightarrow> int list \<Rightarrow> int list" where
  "member_of_loop p [] pos m mo = mo"
| "member_of_loop p (c # cs) pos m mo =
     member_of_loop p cs (pos + nat c) (Suc m)
       (write_all mo (map (\<lambda>k. (nat (p ! (pos + k)), int m)) [0..<nat c]))"

definition member_of :: "int list \<Rightarrow> int list \<Rightarrow> int list" where
  "member_of p cnt = member_of_loop p cnt 0 0 (replicate (length p) (-1))"

text \<open>The audit's loop over the experts \<open>e\<close>, with the owned count.\<close>

fun audit_loop ::
  "nat \<Rightarrow> nat \<Rightarrow> int \<Rightarrow> int list \<Rightarrow> int list \<Rightarrow> rat list \<Rightarrow> nat list \<Rightarrow> int \<Rightarrow> int placed_res" where
  "audit_loop il j cnt_j mo remap_j mask_j [] n_owned = Inr n_owned"
| "audit_loop il j cnt_j mo remap_j mask_j (e # es) n_owned =
     (let owned = (mo ! e = int j); n_owned' = (if owned then n_owned + 1 else n_owned)
      in if mo ! e < 0 then Inl (PE_no_owner il e)
         else if \<not> owned \<and> remap_j ! e \<noteq> LLAMA_EXPERT_SLOT_SKIP
              then Inl (PE_remap_not_skip il j e (remap_j ! e))
         else if owned \<and> (remap_j ! e < 0 \<or> remap_j ! e \<ge> cnt_j)
              then Inl (PE_slot_range il j e (remap_j ! e) cnt_j)
         else if mask_j ! e \<noteq> (if owned then 1 else 0) then Inl (PE_mask il j e (mask_j ! e))
         else audit_loop il j cnt_j mo remap_j mask_j es n_owned')"

definition llama_expert_placement_audit_tables ::
  "nat \<Rightarrow> nat \<Rightarrow> int list \<Rightarrow> int list \<Rightarrow> int list \<Rightarrow> rat list \<Rightarrow> unit placed_res" where
  "llama_expert_placement_audit_tables il j p cnt remap_j mask_j =
     bindR (audit_loop il j (cnt ! j) (member_of p cnt) remap_j mask_j [0..<length p] 0) (\<lambda>n_owned.
       throw_unless (n_owned = cnt ! j) (PE_owned_count il j n_owned (cnt ! j)))"

text \<open>The contents of member \<open>j\<close>'s \<open>remap\<close> and \<open>mask\<close> tables for one layer.\<close>

definition first_pos :: "int list \<Rightarrow> nat \<Rightarrow> nat" where
  "first_pos cnt j = nat (sum_list (take j cnt))"

definition member_remap :: "nat \<Rightarrow> int list \<Rightarrow> int list \<Rightarrow> nat \<Rightarrow> int list" where
  "member_remap n_expert p cnt j =
     write_all (replicate n_expert LLAMA_EXPERT_SLOT_SKIP)
       (map (\<lambda>k. (nat (p ! k), int k - int (first_pos cnt j)))
            [first_pos cnt j..<first_pos cnt j + nat (cnt ! j)])"

definition member_mask :: "nat \<Rightarrow> int list \<Rightarrow> int list \<Rightarrow> nat \<Rightarrow> rat list" where
  "member_mask n_expert p cnt j =
     write_all (replicate n_expert 0)
       (map (\<lambda>k. (nat (p ! k), 1)) [first_pos cnt j..<first_pos cnt j + nat (cnt ! j)])"

text \<open>
  The tables of a placed layer: what is uploaded to each member, and the ownership registered
  with the meta backend. An audit failure throws out of the whole creation.
\<close>

record layer_tables =
  lt_members :: "(int list \<times> rat list) list"
  lt_ownership :: "int list"

definition create_layer_tables ::
  "nat \<Rightarrow> nat \<Rightarrow> nat \<Rightarrow> int list \<Rightarrow> int list \<Rightarrow> layer_tables placed_res" where
  "create_layer_tables n_expert n_members il p cnt =
     bindR (mapR (\<lambda>j. let r = member_remap n_expert p cnt j; m = member_mask n_expert p cnt j
                      in bindR (llama_expert_placement_audit_tables il j p cnt r m) (\<lambda>_. Inr (r, m)))
              [0..<n_members])
       (\<lambda>ms. Inr \<lparr>lt_members = ms, lt_ownership = member_of p cnt\<rparr>)"

text \<open>
  \<open>None\<close> is the \<open>GGML_ASSERT(n_placed > 0)\<close>; \<open>alloc_ok\<close> says whether the backend could
  allocate the tables (an unplaced layer keeps null table pointers).
\<close>

definition llama_expert_placement_create_tables ::
  "bool \<Rightarrow> llama_expert_placement \<Rightarrow> nat \<Rightarrow> layer_tables option list placed_res option" where
  "llama_expert_placement_create_tables alloc_ok pl n_members =
     (if \<not> (\<exists>il \<in> set [0..<pl_n_layer pl]. layer_placed pl il) then None
      else Some
        (bindR (throw_unless alloc_ok PE_alloc) (\<lambda>_.
           mapR (\<lambda>il. if layer_placed pl il
                      then bindR (create_layer_tables (pl_n_expert pl) n_members il (perm pl ! il) (counts pl ! il))
                             (\<lambda>t. Inr (Some t))
                      else Inr None)
             [0..<pl_n_layer pl])))"

section \<open>What a validated layer is\<close>

definition valid_layer :: "nat \<Rightarrow> nat \<Rightarrow> int list \<Rightarrow> int list \<Rightarrow> bool" where
  "valid_layer n_expert n_members p cnt \<longleftrightarrow>
     length p = n_expert \<and> distinct p \<and> set p \<subseteq> {0..<int n_expert} \<and>
     length cnt = n_members \<and> (\<forall>c \<in> set cnt. 1 \<le> c) \<and> sum_list cnt = int n_expert"

section \<open>Loading\<close>

lemma check_bijection_Inr:
  assumes "length seen = n"
  shows "check_bijection il n seen es = Inr () \<longleftrightarrow>
    distinct es \<and> set es \<subseteq> {0..<int n} \<and> (\<forall>e \<in> set es. \<not> seen ! nat e)"
  using assms
proof (induction il n seen es rule: check_bijection.induct)
  case (2 il n seen e es)
  show ?case
  proof (cases "e < 0 \<or> nat e \<ge> n \<or> seen ! nat e")
    case True
    then show ?thesis by auto
  next
    case False
    then have e: "0 \<le> e" "nat e < length seen" "\<not> seen ! nat e" using 2 by auto
    have "check_bijection il n seen (e # es) = check_bijection il n (seen[nat e := True]) es"
      using False by simp
    also have "\<dots> = Inr () \<longleftrightarrow> distinct es \<and> set es \<subseteq> {0..<int n} \<and> (\<forall>x \<in> set es. \<not> seen[nat e := True] ! nat x)"
      using "2.IH"[OF False] 2(2) by simp
    also have "\<dots> \<longleftrightarrow> distinct (e # es) \<and> set (e # es) \<subseteq> {0..<int n} \<and> (\<forall>x \<in> set (e # es). \<not> seen ! nat x)"
      using e 2(2) by (auto simp: nth_list_update subset_eq eq_nat_nat_iff)
    finally show ?thesis .
  qed
qed auto

lemma check_counts_Inr:
  "check_counts il j s cs = Inr r \<longleftrightarrow> (\<forall>c \<in> set cs. 1 \<le> c) \<and> r = s + sum_list cs"
  by (induction il j s cs rule: check_counts.induct) auto

lemma load_layer_valid:
  "load_layer n m il jp jc = Inr (Some (p, cnt)) \<Longrightarrow> valid_layer n m p cnt"
  by (auto simp: load_layer_def res_simps valid_layer_def check_bijection_Inr check_counts_Inr
      split: if_splits)


lemma mapR_int32: "(\<forall>x \<in> set xs. - (2 ^ 31) \<le> x \<and> x < 2 ^ 31) \<Longrightarrow> json_i32s (JArr (map JInt xs)) = Inr xs"
proof -
  assume a: "\<forall>x \<in> set xs. - (2 ^ 31) \<le> x \<and> x < 2 ^ 31"
  have "mapR (\<lambda>x. bindR (json_int x) (\<lambda>z. Inr (wrap_i32 z))) (map JInt xs) =
      (Inr (map (\<lambda>x. case x of JInt z \<Rightarrow> z | _ \<Rightarrow> 0) (map JInt xs)) :: int list placed_res)"
    using a by (intro mapR_all_Inr) (auto simp: wrap_i32_def)
  also have "map (\<lambda>x. case x of JInt z \<Rightarrow> z | _ \<Rightarrow> 0) (map JInt xs) = xs"
    by (simp add: comp_def)
  finally show ?thesis by simp
qed

lemma load_layer_accepts:
  assumes "\<forall>x \<in> set p. - (2 ^ 31) \<le> x \<and> x < 2 ^ 31" "\<forall>x \<in> set cnt. - (2 ^ 31) \<le> x \<and> x < 2 ^ 31"
    and "valid_layer n m p cnt"
  shows "load_layer n m il (JArr (map JInt p)) (JArr (map JInt cnt)) = Inr (Some (p, cnt))"
proof -
  have b: "check_bijection il n (replicate n False) p = Inr ()"
    using assms(3) by (fastforce simp: check_bijection_Inr valid_layer_def)
  have c: "check_counts il 0 0 cnt = Inr (int n)"
    using assms(3) by (auto simp: check_counts_Inr valid_layer_def)
  show ?thesis
    using assms(3) b c
    by (simp add: load_layer_def mapR_int32 [OF assms(1)] mapR_int32 [OF assms(2)] valid_layer_def
        del: json_i32s.simps)
qed

lemma load_layers_Inr:
  "load_layers n m jp jc ils = Inr ls \<longleftrightarrow> length ls = length ils \<and>
   (\<forall>i < length ils. \<exists>a b. json_idx jp (ils ! i) = Inr a \<and> json_idx jc (ils ! i) = Inr b \<and>
      load_layer n m (ils ! i) a b = Inr (ls ! i))"
proof (induction ils arbitrary: ls)
  case (Cons il ils)
  show ?case
  proof (cases ls)
    case (Cons l ls')
    with Cons.IH [of ls'] show ?thesis
      by (auto simp: res_simps All_less_Suc2) 
  qed (auto simp: res_simps)
qed auto

lemma load_valid:
  assumes "llama_expert_placement_load file nl ne nm = Inr pl"
  shows "pl_n_layer pl = nl" "pl_n_expert pl = ne" "length (perm pl) = nl" "length (counts pl) = nl"
    "il < nl \<Longrightarrow> perm pl ! il = [] \<and> counts pl ! il = [] \<or> valid_layer ne nm (perm pl ! il) (counts pl ! il)"
    "ne > 0 \<Longrightarrow> \<exists>il < nl. layer_placed pl il"
proof -
  obtain j ls jp jc where
    ls: "load_layers ne nm jp jc [0..<nl] = Inr ls" and some: "\<exists>l \<in> set ls. l \<noteq> None" and
    pl: "pl_n_layer pl = nl" "pl_n_expert pl = ne"
      "perm pl = map (\<lambda>l. case l of None \<Rightarrow> [] | Some (p, c) \<Rightarrow> p) ls"
      "counts pl = map (\<lambda>l. case l of None \<Rightarrow> [] | Some (p, c) \<Rightarrow> c) ls"
    using assms by (auto simp: llama_expert_placement_load_def res_simps split: artifact_file.splits if_splits) blast
  show "pl_n_layer pl = nl" "pl_n_expert pl = ne" using pl by auto
  have len: "length ls = nl" using ls by (simp add: load_layers_Inr)
  show "length (perm pl) = nl" "length (counts pl) = nl" using pl len by auto
  have each: "ls ! il = None \<or> (\<exists>p c. ls ! il = Some (p, c) \<and> valid_layer ne nm p c)" if il: "il < nl" for il
  proof -
    obtain a b where "load_layer ne nm il a b = Inr (ls ! il)"
      using ls il by (auto simp: load_layers_Inr)
    then show ?thesis by (cases "ls ! il") (auto intro: load_layer_valid)
  qed
  show "il < nl \<Longrightarrow> perm pl ! il = [] \<and> counts pl ! il = [] \<or> valid_layer ne nm (perm pl ! il) (counts pl ! il)"
    using each [of il] len pl by auto
  assume "ne > 0"
  obtain il where il: "il < nl" "ls ! il \<noteq> None" using some len by (auto simp: in_set_conv_nth)
  with each [of il] obtain p c where "ls ! il = Some (p, c)" "valid_layer ne nm p c" by auto
  with il len pl \<open>ne > 0\<close> show "\<exists>il < nl. layer_placed pl il"
    by (intro exI [of _ il]) (auto simp: layer_placed_def valid_layer_def)
qed

section \<open>Ownership\<close>

lemma member_of_loop_length [simp]: "length (member_of_loop p cs pos m mo) = length mo"
  by (induction p cs pos m mo rule: member_of_loop.induct) auto

lemma member_of_loop_nth:
  assumes "distinct p" "\<forall>x \<in> set p. 0 \<le> x \<and> nat x < length mo" "pos + sum_list (map nat cs) \<le> length p"
    "k < length p"
  shows "(k < pos \<longrightarrow> member_of_loop p cs pos m mo ! nat (p ! k) = mo ! nat (p ! k)) \<and>
    (pos \<le> k \<longrightarrow> j < length cs \<longrightarrow> segment (map nat cs) j (k - pos) \<longrightarrow>
     member_of_loop p cs pos m mo ! nat (p ! k) = int (m + j))"
  using assms
proof (induction p cs pos m mo arbitrary: j rule: member_of_loop.induct)
  case (2 p c cs pos m mo)
  let ?ws = "map (\<lambda>k. (nat (p ! (pos + k)), int m)) [0..<nat c]"
  let ?mo = "write_all mo ?ws"
  note dp = \<open>distinct p\<close> and k = \<open>k < length p\<close>
    and rng = \<open>\<forall>x \<in> set p. 0 \<le> x \<and> nat x < length mo\<close>
  have inj: "nat (p ! a) = nat (p ! b) \<longleftrightarrow> a = b" if "a < length p" "b < length p" for a b
    using that dp rng nth_eq_iff_index_eq [of p a b] by (metis eq_nat_nat_iff nth_mem)
  have len: "pos + nat c + sum_list (map nat cs) \<le> length p"
    using \<open>pos + sum_list (map nat (c # cs)) \<le> length p\<close> by simp
  have el: "\<forall>x \<in> set p. 0 \<le> x \<and> nat x < length ?mo" using rng by simp
  note IH = "2.IH" [OF dp el len k]
  have dist: "distinct (map fst ?ws)"
    using len by (auto simp: distinct_map inj_on_def inj)
  have below: "?mo ! nat (p ! k) = mo ! nat (p ! k)" if "k < pos"
    using that len k by (intro write_all_other) (auto simp: inj)
  have hit: "?mo ! nat (p ! k) = int m" if "pos \<le> k" "k < pos + nat c"
  proof (rule write_all_same [OF dist])
    have "k = pos + (k - pos)" using that by simp
    then show "(nat (p ! k), int m) \<in> set ?ws" using that by (auto intro!: image_eqI [of _ _ "k - pos"])
    show "nat (p ! k) < length mo" using rng k by simp
  qed
  have "member_of_loop p (c # cs) pos m mo ! nat (p ! k) = int (m + j)"
    if *: "pos \<le> k" "j < length (c # cs)" "segment (map nat (c # cs)) j (k - pos)"
  proof (cases j)
    case 0
    then have "k < pos + nat c" using * by (auto simp: segment_def)
    then show ?thesis using IH hit 0 * by simp
  next
    case (Suc j')
    then have "pos + nat c \<le> k" "segment (map nat cs) j' (k - (pos + nat c))"
      using * by (auto simp: segment_def)
    then show ?thesis using IH [of j'] Suc * by simp
  qed
  then show ?case using IH below by simp
qed (auto simp: segment_def)


lemma valid_layer_facts:
  assumes "valid_layer n m p cnt"
  shows "distinct p" "length p = n" "length cnt = m" "\<forall>x \<in> set p. 0 \<le> x \<and> nat x < n"
    "sum_list (map nat cnt) = n" "j < m \<Longrightarrow> 1 \<le> cnt ! j"
    "j \<le> m \<Longrightarrow> first_pos cnt j = sum_list (take j (map nat cnt))"
    "j < m \<Longrightarrow> first_pos cnt (Suc j) = first_pos cnt j + nat (cnt ! j)"
proof -
  have pos: "\<forall>c \<in> set cnt. 0 \<le> c" using assms by (force simp: valid_layer_def)
  have sum: "sum_list (map nat cs) = nat (sum_list cs) \<and> 0 \<le> sum_list cs" if "\<forall>c \<in> set cs. 0 \<le> c" for cs
    using that by (induction cs) (auto simp: nat_add_distrib)
  show "distinct p" "length p = n" "length cnt = m" "j < m \<Longrightarrow> 1 \<le> cnt ! j"
    using assms by (auto simp: valid_layer_def)
  show "\<forall>x \<in> set p. 0 \<le> x \<and> nat x < n"
    using assms by (fastforce simp: valid_layer_def subset_eq)
  show "sum_list (map nat cnt) = n" using sum [OF pos] assms by (simp add: valid_layer_def)
  have tk: "first_pos cnt j = sum_list (take j (map nat cnt))" for j
  proof -
    have "\<forall>c \<in> set (take j cnt). 0 \<le> c" using pos by (auto dest: in_set_takeD)
    from sum [OF this] show ?thesis by (simp add: first_pos_def take_map)
  qed
  then show "j \<le> m \<Longrightarrow> first_pos cnt j = sum_list (take j (map nat cnt))" by simp
  show "j < m \<Longrightarrow> first_pos cnt (Suc j) = first_pos cnt j + nat (cnt ! j)"
    using assms by (simp add: tk sum_list_take_Suc valid_layer_def)
qed

lemma valid_inj:
  assumes "valid_layer n m p cnt" "a < n" "b < n"
  shows "nat (p ! a) = nat (p ! b) \<longleftrightarrow> a = b"
  using assms(2,3) valid_layer_facts(1,2,4) [OF assms(1)] nth_eq_iff_index_eq [of p a b]
  by (metis eq_nat_nat_iff nth_mem)

lemma valid_bound:
  assumes "valid_layer n m p cnt" "j < m"
  shows "first_pos cnt j + nat (cnt ! j) \<le> n"
proof -
  note f = valid_layer_facts [OF assms(1)]
  show ?thesis
    using f(5) f(7) [of "Suc j"] f(8) [of j] assms(2) sum_list_take_le [of "Suc j" "map nat cnt"] by simp
qed

lemma valid_owner:
  assumes v: "valid_layer n m p cnt" and k: "k < n" and j: "j < m"
    and seg: "first_pos cnt j \<le> k" "k < first_pos cnt j + nat (cnt ! j)"
  shows "member_of p cnt ! nat (p ! k) = int j"
proof -
  note f = valid_layer_facts [OF v]
  have "segment (map nat cnt) j k"
    using seg f(7) [of j] f(7) [of "Suc j"] f(8) [of j] j by (simp add: segment_def)
  with member_of_loop_nth [OF f(1), of "replicate n (-1)" 0 cnt k 0 j] f k j show ?thesis
    by (simp add: member_of_def)
qed

lemma valid_position:
  assumes v: "valid_layer n m p cnt" and e: "e < n"
  obtains k j where "k < n" "nat (p ! k) = e" "j < m" "first_pos cnt j \<le> k"
    "k < first_pos cnt j + nat (cnt ! j)" "member_of p cnt ! e = int j"
proof -
  note f = valid_layer_facts [OF v]
  have sub: "set p \<subseteq> {0..<int n}" using v by (simp add: valid_layer_def)
  have "card (set p) = card {0..<int n}" using f(1,2) by (simp add: distinct_card)
  with sub have "set p = {0..<int n}" by (simp add: card_subset_eq)
  then have "int e \<in> set p" using e by simp
  then obtain k where k: "k < n" "p ! k = int e" using f(2) by (auto simp: in_set_conv_nth)
  then obtain j where j: "j < m" "segment (map nat cnt) j k"
    using segment_exists [of k "map nat cnt"] f(3,5) by auto
  have seg: "first_pos cnt j \<le> k" "k < first_pos cnt j + nat (cnt ! j)"
    using j f(7) [of j] f(7) [of "Suc j"] f(8) [of j] by (auto simp: segment_def)
  have "member_of p cnt ! e = int j"
    using valid_owner [OF v k(1) j(1) seg] k(2) by simp
  then show thesis using that k j(1) seg by auto
qed

lemma member_tables_nth:
  assumes v: "valid_layer n m p cnt" and j: "j < m" and k: "k < n"
  defines "owned \<equiv> first_pos cnt j \<le> k \<and> k < first_pos cnt j + nat (cnt ! j)"
  shows "member_remap n p cnt j ! nat (p ! k) =
      (if owned then int k - int (first_pos cnt j) else LLAMA_EXPERT_SLOT_SKIP)" (is ?r)
    and "member_mask n p cnt j ! nat (p ! k) = (if owned then 1 else 0)" (is ?m)
proof -
  note f = valid_layer_facts [OF v]
  note up = valid_bound [OF v j] and inj = valid_inj [OF v]
  have in_n: "nat (p ! k) < n" using f(2,4) k by simp
  have gen: "write_all (replicate n d) (map (\<lambda>k. (nat (p ! k), g k))
      [first_pos cnt j..<first_pos cnt j + nat (cnt ! j)]) ! nat (p ! k) = (if owned then g k else d)"
    for d :: 'a and g
  proof (cases owned)
    case True
    have "write_all (replicate n d) (map (\<lambda>k. (nat (p ! k), g k))
      [first_pos cnt j..<first_pos cnt j + nat (cnt ! j)]) ! nat (p ! k) = g k"
      using True in_n up by (intro write_all_same) (auto simp: distinct_map inj_on_def inj owned_def)
    with True show ?thesis by simp
  next
    case False
    with k up show ?thesis
      by (subst write_all_other) (auto simp: owned_def inj in_n)
  qed
  show ?r ?m unfolding member_remap_def member_mask_def by (simp_all add: gen)
qed

lemma audit_loop_ok:
  assumes "\<forall>e \<in> set es. 0 \<le> mo ! e \<and>
      (if mo ! e = int j then 0 \<le> r ! e \<and> r ! e < c \<and> mk ! e = 1
       else r ! e = LLAMA_EXPERT_SLOT_SKIP \<and> mk ! e = 0)"
  shows "audit_loop il j c mo r mk es n0 = Inr (n0 + int (length (filter (\<lambda>e. mo ! e = int j) es)))"
  using assms by (induction il j c mo r mk es n0 rule: audit_loop.induct) (auto simp: Let_def)

lemma audit_loop_Inr:
  assumes "audit_loop il j c mo r mk es n0 = Inr n1"
  shows "(\<forall>e \<in> set es. 0 \<le> mo ! e \<and>
      (if mo ! e = int j then 0 \<le> r ! e \<and> r ! e < c \<and> mk ! e = 1
       else r ! e = LLAMA_EXPERT_SLOT_SKIP \<and> mk ! e = 0)) \<and>
     n1 = n0 + int (length (filter (\<lambda>e. mo ! e = int j) es))"
  using assms
proof (induction il j c mo r mk es n0 rule: audit_loop.induct)
  case (2 il j c mo r mk e es n0)
  show ?case
  proof (cases "mo ! e = int j")
    case True
    with "2.prems" have "0 \<le> r ! e" "r ! e < c" "mk ! e = 1"
      "audit_loop il j c mo r mk es (n0 + 1) = Inr n1"
      by (simp_all split: if_split_asm)
    with "2.IH" [of True "n0 + 1"] True show ?thesis by simp
  next
    case False
    with "2.prems" have "0 \<le> mo ! e" "r ! e = LLAMA_EXPERT_SLOT_SKIP" "mk ! e = 0"
      "audit_loop il j c mo r mk es n0 = Inr n1"
      by (simp_all split: if_split_asm)
    with "2.IH" [of False n0] False show ?thesis by simp
  qed
qed simp

lemma owned_count:
  assumes v: "valid_layer n m p cnt" and j: "j < m"
  shows "int (length (filter (\<lambda>e. member_of p cnt ! e = int j) [0..<n])) = cnt ! j"
proof -
  note f = valid_layer_facts [OF v]
  let ?a = "first_pos cnt j" and ?b = "first_pos cnt j + nat (cnt ! j)"
  note up = valid_bound [OF v j]
  have inj: "inj_on (\<lambda>k. nat (p ! k)) {?a..<?b}"
  proof (rule inj_onI)
    fix a b assume "a \<in> {?a..<?b}" "b \<in> {?a..<?b}" "nat (p ! a) = nat (p ! b)"
    with up valid_inj [OF v, of a b] show "a = b" by simp
  qed
  have "{e. e < n \<and> member_of p cnt ! e = int j} = (\<lambda>k. nat (p ! k)) ` {?a..<?b}" (is "?L = ?R")
  proof
    show "?L \<subseteq> ?R"
    proof
      fix e assume "e \<in> ?L"
      then obtain k j' where "k < n" "nat (p ! k) = e" "first_pos cnt j' \<le> k"
        "k < first_pos cnt j' + nat (cnt ! j')" "member_of p cnt ! e = int j'"
        using valid_position [OF v] by blast
      with \<open>e \<in> ?L\<close> show "e \<in> ?R" by auto
    qed
    show "?R \<subseteq> ?L" using up f(2,4) valid_owner [OF v _ j] by auto
  qed
  then have "card {e. e < n \<and> member_of p cnt ! e = int j} = nat (cnt ! j)"
    by (simp add: card_image [OF inj])
  moreover have "card {e. e < n \<and> member_of p cnt ! e = int j} =
      length (filter (\<lambda>e. member_of p cnt ! e = int j) [0..<n])"
    by (subst distinct_length_filter) (auto intro!: arg_cong [of _ _ card])
  ultimately show ?thesis using f(6) [OF j] by simp
qed

lemma audit_accepts:
  assumes v: "valid_layer n m p cnt" and j: "j < m"
  shows "llama_expert_placement_audit_tables il j p cnt (member_remap n p cnt j) (member_mask n p cnt j) = Inr ()"
proof -
  note f = valid_layer_facts [OF v]
  have "0 \<le> member_of p cnt ! e \<and>
      (if member_of p cnt ! e = int j
       then 0 \<le> member_remap n p cnt j ! e \<and> member_remap n p cnt j ! e < cnt ! j \<and> member_mask n p cnt j ! e = 1
       else member_remap n p cnt j ! e = LLAMA_EXPERT_SLOT_SKIP \<and> member_mask n p cnt j ! e = 0)"
    if "e \<in> set [0..<n]" for e
  proof -
    from that have "e < n" by simp
    then obtain k j' where k: "k < n" "nat (p ! k) = e" "j' < m" "first_pos cnt j' \<le> k"
      "k < first_pos cnt j' + nat (cnt ! j')" "member_of p cnt ! e = int j'"
      by (rule valid_position [OF v])
    have "j' = j" if "first_pos cnt j \<le> k" "k < first_pos cnt j + nat (cnt ! j)"
      using valid_owner [OF v k(1) j that] k by simp
    with member_tables_nth [OF v j k(1)] k f(6) [OF j] show ?thesis by auto
  qed
  then show ?thesis
    using owned_count [OF v j] f(2)
    by (simp add: llama_expert_placement_audit_tables_def audit_loop_ok throw_unless_def)
qed

lemma create_layer_tables_Inr:
  assumes v: "valid_layer n m p cnt"
  shows "create_layer_tables n m il p cnt =
    Inr \<lparr>lt_members = map (\<lambda>j. (member_remap n p cnt j, member_mask n p cnt j)) [0..<m],
         lt_ownership = member_of p cnt\<rparr>"
proof -
  have "mapR (\<lambda>j. let r = member_remap n p cnt j; mk = member_mask n p cnt j
      in bindR (llama_expert_placement_audit_tables il j p cnt r mk) (\<lambda>_. Inr (r, mk))) [0..<m] =
    Inr (map (\<lambda>j. (member_remap n p cnt j, member_mask n p cnt j)) [0..<m])"
    by (intro mapR_all_Inr) (simp add: audit_accepts [OF v])
  then show ?thesis by (simp add: create_layer_tables_def)
qed

lemma valid_layer_example: "valid_layer 3 2 [2, 0, 1] [1, 2]"
  by (simp add: valid_layer_def)

section \<open>Properties\<close>


definition sample_artifact :: json where
  "sample_artifact = JObj [(''n_layer'', JInt 2), (''n_expert'', JInt 3),
     (''perm'', JArr [JNull, JArr [JInt 2, JInt 0, JInt 1]]),
     (''counts_per_layer'', JArr [JNull, JArr [JInt 1, JInt 2]])]"


text \<open>
  for numbers that fit an \<open>int32_t\<close>, a layer of the artifact is accepted exactly when
  its permutation is a bijection and its counts are a partition into positive shares.\<close>

lemma load_layer_exact:
  assumes "\<forall>x \<in> set p \<union> set cnt. - (2 ^ 31) \<le> x \<and> x < 2 ^ 31"
  shows "load_layer n m il (JArr (map JInt p)) (JArr (map JInt cnt)) = Inr (Some (p, cnt)) \<longleftrightarrow>
    valid_layer n m p cnt"
proof
  show "valid_layer n m p cnt"
    if "load_layer n m il (JArr (map JInt p)) (JArr (map JInt cnt)) = Inr (Some (p, cnt))"
    using that by (rule load_layer_valid)
  show "load_layer n m il (JArr (map JInt p)) (JArr (map JInt cnt)) = Inr (Some (p, cnt))"
    if "valid_layer n m p cnt"
    using assms that by (intro load_layer_accepts) auto
qed

lemma load_layer_exact_witness:
  "load_layer 3 2 0 (JArr (map JInt [2, 0, 1])) (JArr (map JInt [1, 2])) = Inr (Some ([2, 0, 1], [1, 2])) \<and>
   load_layer 3 2 0 (JArr (map JInt [2, 0, 2])) (JArr (map JInt [1, 2])) \<noteq> Inr (Some ([2, 0, 2], [1, 2]))"
  using load_layer_exact [of "[2, 0, 1]" "[1, 2]" 3 2 0] load_layer_exact [of "[2, 0, 2]" "[1, 2]" 3 2 0]
  by (simp add: valid_layer_example) (simp add: valid_layer_def)

text \<open>
  C26. for a validated layer the table construction never throws, and the members' tables
  partition the experts: an owned expert has mask 1, the local slot of its position in the
  member's permuted range, and this member registered as its owner; every other expert has
  mask 0 and the skip sentinel.\<close>

theorem placement_tables_partition:
  assumes v: "valid_layer n m p cnt"
  shows "\<exists>t. create_layer_tables n m il p cnt = Inr t \<and> length (lt_members t) = m \<and>
    (\<forall>e < n. \<exists>!j. j < m \<and> snd (lt_members t ! j) ! e = 1) \<and>
    (\<forall>e < n. \<forall>j < m. case lt_members t ! j of (r, mk) \<Rightarrow>
       if lt_ownership t ! e = int j
       then mk ! e = 1 \<and> 0 \<le> r ! e \<and> r ! e < cnt ! j \<and> p ! (first_pos cnt j + nat (r ! e)) = int e
       else mk ! e = 0 \<and> r ! e = LLAMA_EXPERT_SLOT_SKIP)"
proof -
  let ?t = "\<lparr>lt_members = map (\<lambda>j. (member_remap n p cnt j, member_mask n p cnt j)) [0..<m],
         lt_ownership = member_of p cnt\<rparr>"
  note f = valid_layer_facts [OF v]
  have owned: "if member_of p cnt ! e = int j
       then member_mask n p cnt j ! e = 1 \<and> 0 \<le> member_remap n p cnt j ! e \<and>
            member_remap n p cnt j ! e < cnt ! j \<and>
            p ! (first_pos cnt j + nat (member_remap n p cnt j ! e)) = int e
       else member_mask n p cnt j ! e = 0 \<and> member_remap n p cnt j ! e = LLAMA_EXPERT_SLOT_SKIP"
    if "e < n" "j < m" for e j
  proof -
    obtain k j' where k: "k < n" "nat (p ! k) = e" "j' < m" "first_pos cnt j' \<le> k"
      "k < first_pos cnt j' + nat (cnt ! j')" "member_of p cnt ! e = int j'"
      by (rule valid_position [OF v \<open>e < n\<close>])
    have "j' = j" if "first_pos cnt j \<le> k" "k < first_pos cnt j + nat (cnt ! j)"
      using valid_owner [OF v k(1) \<open>j < m\<close> that] k by simp
    moreover have "p ! k = int e" using k f(2,4) by (metis int_nat_eq nth_mem)
    moreover have "a + nat (int k - int a) = k" if "a \<le> k" for a using that by simp
    ultimately show ?thesis
      using member_tables_nth [OF v \<open>j < m\<close> k(1)] k f(6) [OF \<open>j < m\<close>] by auto
  qed
  have "\<exists>!j. j < m \<and> member_mask n p cnt j ! e = 1" if e: "e < n" for e
  proof -
    obtain j' where "j' < m" "member_of p cnt ! e = int j'"
      using valid_position [OF v e] by metis
    with owned [OF e] show ?thesis by (intro ex1I [of _ j']) (force split: if_splits)+
  qed
  with owned show ?thesis
    by (intro exI [of _ ?t]) (simp add: create_layer_tables_Inr [OF v] cong: conj_cong)
qed

theorem placement_tables_partition_witness:
  "\<exists>t. create_layer_tables 3 2 0 [2, 0, 1] [1, 2] = Inr t \<and>
     lt_members t = [([-1, -1, 0], [0, 0, 1]), ([0, 1, -1], [1, 1, 0])] \<and> lt_ownership t = [1, 1, 0]"
proof -
  have "create_layer_tables 3 2 0 [2, 0, 1] [1, 2] =
      Inr \<lparr>lt_members = [([-1, -1, 0], [0, 0, 1]), ([0, 1, -1], [1, 1, 0])], lt_ownership = [1, 1, 0]\<rparr>"
    by code_simp
  with placement_tables_partition [OF valid_layer_example, of 0] show ?thesis by auto
qed

text \<open>
  the audit accepts a member's tables for a validated layer exactly when the mask is the
  indicator of its ownership, its own experts have slots inside its count and every other
  expert is mapped to the skip sentinel; so it catches any table that routes a lane of an
  expert to a member that does not own it.\<close>

lemma placement_audit_exact:
  assumes v: "valid_layer n m p cnt" and j: "j < m"
  shows "llama_expert_placement_audit_tables il j p cnt r mk = Inr () \<longleftrightarrow>
    (\<forall>e < n. if member_of p cnt ! e = int j then 0 \<le> r ! e \<and> r ! e < cnt ! j \<and> mk ! e = 1
             else r ! e = LLAMA_EXPERT_SLOT_SKIP \<and> mk ! e = 0)" (is "?L \<longleftrightarrow> ?R")
proof
  assume ?L
  then obtain n1 where
    "audit_loop il j (cnt ! j) (member_of p cnt) r mk [0..<n] 0 = Inr n1"
    using valid_layer_facts(2) [OF v]
    by (auto simp: llama_expert_placement_audit_tables_def bindR_Inr)
  from audit_loop_Inr [OF this] show ?R by simp
next
  assume R: ?R
  have "0 \<le> member_of p cnt ! e" if "e < n" for e
    using valid_position [OF v that] by (metis of_nat_0_le_iff)
  with R show ?L
    using owned_count [OF v j] valid_layer_facts(2) [OF v]
    by (simp add: llama_expert_placement_audit_tables_def audit_loop_ok throw_unless_def)
qed

lemma placement_audit_exact_witness:
  "llama_expert_placement_audit_tables 0 1 [2, 0, 1] [1, 2] [0, 1, -1] [1, 1, 0] = Inr () \<and>
   llama_expert_placement_audit_tables 0 1 [2, 0, 1] [1, 2] [0, 1, 1] [1, 1, 0] \<noteq> Inr ()"
proof -
  have mo: "member_of [2, 0, 1] [1, 2] = [1, 1, 0]"
    by (simp add: member_of_def numeral_2_eq_2 numeral_3_eq_3)
  show ?thesis
    using placement_audit_exact [OF valid_layer_example, of 1 0 "[0, 1, -1]" "[1, 1, 0]"]
      placement_audit_exact [OF valid_layer_example, of 1 0 "[0, 1, 1]" "[1, 1, 0]"]
    by (simp add: mo LLAMA_EXPERT_SLOT_SKIP_def All_less_Suc2 numeral_3_eq_3)
qed

end
