(* ===== verification/Kv_Cells.thy ===== *)
theory Kv_Cells
  imports Prelude
begin

text \<open>
  The meta information of the KV cells (src/src/llama-kv-cells.h). The vectors of the class
  are lists of one length, the bitset of a cell is the set of its bits, \<open>used\<close> is the
  \<open>std::set\<close> of used cells and \<open>seq_pos s\<close> is the \<open>std::map\<close> that counts, per sequence, how
  often a position is present. \<open>llama_pos\<close> is an \<open>int\<close>; sequence ids inside the class are bit
  numbers (\<open>nat\<close>).

  The class checks its preconditions with \<open>assert\<close>, which a release build drops: the
  operations here are what such a build runs, and each lemma names the precondition it needs.
  The invariant \<open>cells_ok\<close> ties the two redundant indices to the cells; every operation
  keeps it, and under it \<open>seq_pos_min\<close>, \<open>seq_pos_max\<close> and the used-cell queries answer what the
  cells hold.
\<close>

section \<open>The counted index\<close>

type_synonym pos_index = "(int, nat) fmap"

text \<open>\<open>seq_pos[s][p]++\<close>, and the decrement that erases the entry when it reaches 0.\<close>

definition idx_inc :: "int \<Rightarrow> pos_index \<Rightarrow> pos_index" where
  "idx_inc p m = fmupd p (case fmlookup m p of None \<Rightarrow> 1 | Some n \<Rightarrow> Suc n) m"

definition idx_dec :: "int \<Rightarrow> pos_index \<Rightarrow> pos_index" where
  "idx_dec p m =
     (case fmlookup m p of
        None \<Rightarrow> m
      | Some n \<Rightarrow> if n - 1 = 0 then fmdrop p m else fmupd p (n - 1) m)"

definition idx_ok :: "pos_index \<Rightarrow> (int \<Rightarrow> nat) \<Rightarrow> bool" where
  "idx_ok m f \<longleftrightarrow> (\<forall>p. fmlookup m p = (if f p = 0 then None else Some (f p)))"

lemma idx_ok_inc [idx_simps]: "idx_ok m f \<Longrightarrow> idx_ok (idx_inc p m) (f(p := Suc (f p)))"
  by (auto simp: idx_ok_def idx_inc_def)

lemma idx_ok_dec [idx_simps]: "idx_ok m f \<Longrightarrow> 0 < f p \<Longrightarrow> idx_ok (idx_dec p m) (f(p := f p - 1))"
  by (auto simp: idx_ok_def idx_dec_def)

lemma idx_ok_unique: "idx_ok m f \<Longrightarrow> idx_ok m' f \<Longrightarrow> m = m'"
  by (auto simp: idx_ok_def intro: fmap_ext)

lemma idx_ok_dom: "idx_ok m f \<Longrightarrow> fmdom' m = {p. 0 < f p}"
  by (simp add: idx_ok_def set_eq_iff fmlookup_dom'_iff)

section \<open>State\<close>

record llama_kv_cell_ext =
  ext_x :: llama_pos
  ext_y :: llama_pos
  ext_tok :: llama_token

definition ext_default :: llama_kv_cell_ext where
  "ext_default = \<lparr>ext_x = 0, ext_y = 0, ext_tok = LLAMA_TOKEN_NULL\<rparr>"

definition is_2d_gt :: "llama_kv_cell_ext \<Rightarrow> llama_pos \<Rightarrow> llama_pos \<Rightarrow> bool" where
  "is_2d_gt e ox oy \<longleftrightarrow> ext_y e > oy \<or> (ext_y e = oy \<and> ext_x e > ox)"

record llama_kv_cells =
  kc_has_shift :: bool
  kc_used :: "nat set"
  kc_pos :: "llama_pos list"
  kc_ext :: "llama_kv_cell_ext list"
  kc_shift :: "llama_pos list"
  kc_seq :: "nat set list"
  kc_seq_pos :: "nat \<Rightarrow> pos_index"

definition cells_size :: "llama_kv_cells \<Rightarrow> nat" where
  "cells_size c = length (kc_pos c)"

definition cells_reset :: "llama_kv_cells \<Rightarrow> llama_kv_cells" where
  "cells_reset c =
     (let n = length (kc_pos c)
      in c\<lparr>kc_pos := replicate n (-1), kc_ext := replicate n ext_default,
           kc_shift := replicate n 0, kc_seq := replicate n {},
           kc_has_shift := False, kc_used := {},
           kc_seq_pos := (\<lambda>s. if s < LLAMA_MAX_SEQ then fmempty else kc_seq_pos c s)\<rparr>)"

definition cells_reset_shift :: "llama_kv_cells \<Rightarrow> llama_kv_cells" where
  "cells_reset_shift c = c\<lparr>kc_has_shift := False, kc_shift := map (\<lambda>_. 0) (kc_shift c)\<rparr>"

definition vec_resize :: "nat \<Rightarrow> 'a \<Rightarrow> 'a list \<Rightarrow> 'a list" where
  "vec_resize n d xs = take n xs @ replicate (n - length xs) d"

definition cells_resize :: "nat \<Rightarrow> llama_kv_cells \<Rightarrow> llama_kv_cells" where
  "cells_resize n c =
     cells_reset (c\<lparr>kc_pos := vec_resize n 0 (kc_pos c), kc_ext := vec_resize n ext_default (kc_ext c),
       kc_shift := vec_resize n 0 (kc_shift c), kc_seq := vec_resize n {} (kc_seq c)\<rparr>)"

text \<open>A default-constructed object.\<close>

definition cells_new :: llama_kv_cells where
  "cells_new = \<lparr>kc_has_shift = False, kc_used = {}, kc_pos = [], kc_ext = [], kc_shift = [],
     kc_seq = [], kc_seq_pos = (\<lambda>_. fmempty)\<rparr>"

section \<open>Queries\<close>

definition cells_is_empty :: "llama_kv_cells \<Rightarrow> nat \<Rightarrow> bool" where
  "cells_is_empty c i \<longleftrightarrow> kc_pos c ! i = -1"

definition cells_get_used :: "llama_kv_cells \<Rightarrow> nat" where
  "cells_get_used c = card (kc_used c)"

definition cells_used_min :: "llama_kv_cells \<Rightarrow> nat" where
  "cells_used_min c = (if kc_used c = {} then 0 else Min (kc_used c))"

definition cells_used_max_p1 :: "llama_kv_cells \<Rightarrow> nat" where
  "cells_used_max_p1 c = (if kc_used c = {} then 0 else Max (kc_used c) + 1)"

definition cells_get_has_shift :: "llama_kv_cells \<Rightarrow> bool" where
  "cells_get_has_shift c = kc_has_shift c"

definition cells_seq_count :: "llama_kv_cells \<Rightarrow> nat \<Rightarrow> nat" where
  "cells_seq_count c i = card (kc_seq c ! i)"

definition cells_seq_has :: "llama_kv_cells \<Rightarrow> nat \<Rightarrow> nat \<Rightarrow> bool" where
  "cells_seq_has c i s \<longleftrightarrow> s \<in> kc_seq c ! i"

definition cells_seq_get :: "llama_kv_cells \<Rightarrow> nat \<Rightarrow> int" where
  "cells_seq_get c i =
     (case find (\<lambda>s. s \<in> kc_seq c ! i) [0..<LLAMA_MAX_SEQ] of Some s \<Rightarrow> int s | None \<Rightarrow> -1)"

definition cells_seq_pos_min :: "llama_kv_cells \<Rightarrow> nat \<Rightarrow> llama_pos" where
  "cells_seq_pos_min c s =
     (if fmdom' (kc_seq_pos c s) = {} then -1 else Min (fmdom' (kc_seq_pos c s)))"

definition cells_seq_pos_max :: "llama_kv_cells \<Rightarrow> nat \<Rightarrow> llama_pos" where
  "cells_seq_pos_max c s =
     (if fmdom' (kc_seq_pos c s) = {} then -1 else Max (fmdom' (kc_seq_pos c s)))"

definition cells_pos_get :: "llama_kv_cells \<Rightarrow> nat \<Rightarrow> llama_pos" where
  "cells_pos_get c i = kc_pos c ! i"

definition cells_ext_get :: "llama_kv_cells \<Rightarrow> nat \<Rightarrow> llama_kv_cell_ext" where
  "cells_ext_get c i = kc_ext c ! i"

definition cells_get_shift :: "llama_kv_cells \<Rightarrow> nat \<Rightarrow> llama_pos" where
  "cells_get_shift c i = kc_shift c ! i"

definition cells_pos_in :: "llama_kv_cells \<Rightarrow> nat \<Rightarrow> llama_pos \<Rightarrow> llama_pos \<Rightarrow> bool" where
  "cells_pos_in c i p0 p1 \<longleftrightarrow> kc_pos c ! i \<ge> p0 \<and> kc_pos c ! i < p1"

text \<open>The calls \<open>f(s, pos, tok)\<close> that \<open>for_each_token_in\<close> makes, in order.\<close>

definition cells_for_each_token_in ::
  "llama_kv_cells \<Rightarrow> nat set \<Rightarrow> llama_pos \<Rightarrow> llama_pos \<Rightarrow> (nat \<times> llama_pos \<times> llama_token) list" where
  "cells_for_each_token_in c seqs p0 p1 =
     concat (map (\<lambda>i.
       if kc_pos c ! i < p0 \<or> kc_pos c ! i \<ge> p1 then []
       else let m = kc_seq c ! i \<inter> seqs
            in map (\<lambda>s. (s, kc_pos c ! i, ext_tok (kc_ext c ! i)))
                 (filter (\<lambda>s. s \<in> m) [0..<LLAMA_MAX_SEQ]))
       (sorted_list_of_set (kc_used c)))"

section \<open>Updates of the index, one cell at a time\<close>

definition cells_seq_pos_dec :: "nat \<Rightarrow> llama_pos \<Rightarrow> llama_kv_cells \<Rightarrow> llama_kv_cells" where
  "cells_seq_pos_dec s p c = c\<lparr>kc_seq_pos := (kc_seq_pos c)(s := idx_dec p (kc_seq_pos c s))\<rparr>"

definition cells_seq_pos_inc :: "nat \<Rightarrow> llama_pos \<Rightarrow> llama_kv_cells \<Rightarrow> llama_kv_cells" where
  "cells_seq_pos_inc s p c = c\<lparr>kc_seq_pos := (kc_seq_pos c)(s := idx_inc p (kc_seq_pos c s))\<rparr>"

definition cells_seq_pos_rm :: "nat \<Rightarrow> llama_kv_cells \<Rightarrow> llama_kv_cells" where
  "cells_seq_pos_rm i c =
     fold (\<lambda>s c. if s \<in> kc_seq c ! i then cells_seq_pos_dec s (kc_pos c ! i) c else c)
       [0..<LLAMA_MAX_SEQ] c"

definition cells_seq_pos_add :: "nat \<Rightarrow> llama_kv_cells \<Rightarrow> llama_kv_cells" where
  "cells_seq_pos_add i c =
     fold (\<lambda>s c. if s \<in> kc_seq c ! i then cells_seq_pos_inc s (kc_pos c ! i) c else c)
       [0..<LLAMA_MAX_SEQ] c"

section \<open>Operations\<close>

definition cells_rm :: "nat \<Rightarrow> llama_kv_cells \<Rightarrow> llama_kv_cells" where
  "cells_rm i c =
     (let c = cells_seq_pos_rm i c
      in c\<lparr>kc_seq := (kc_seq c)[i := {}], kc_pos := (kc_pos c)[i := -1],
           kc_ext := (kc_ext c)[i := ext_default], kc_shift := (kc_shift c)[i := 0],
           kc_used := kc_used c - {i}\<rparr>)"

definition cells_seq_rm :: "nat \<Rightarrow> nat \<Rightarrow> llama_kv_cells \<Rightarrow> llama_kv_cells \<times> bool" where
  "cells_seq_rm i s c =
     (let c = c\<lparr>kc_seq := (kc_seq c)[i := kc_seq c ! i - {s}]\<rparr>;
          c = cells_seq_pos_dec s (kc_pos c ! i) c
      in if kc_seq c ! i = {}
         then (c\<lparr>kc_pos := (kc_pos c)[i := -1], kc_ext := (kc_ext c)[i := ext_default],
                 kc_shift := (kc_shift c)[i := 0], kc_used := kc_used c - {i}\<rparr>, True)
         else (c, False))"

definition cells_seq_keep :: "nat \<Rightarrow> nat \<Rightarrow> llama_kv_cells \<Rightarrow> llama_kv_cells \<times> bool" where
  "cells_seq_keep i s c =
     (if s \<in> kc_seq c ! i then
        (let c = cells_seq_pos_rm i c;
             c = c\<lparr>kc_seq := (kc_seq c)[i := {s}]\<rparr>
         in (cells_seq_pos_inc s (kc_pos c ! i) c, False))
      else if kc_seq c ! i \<noteq> {} then
        (let c = cells_seq_pos_rm i c
         in (c\<lparr>kc_seq := (kc_seq c)[i := {}], kc_pos := (kc_pos c)[i := -1],
               kc_ext := (kc_ext c)[i := ext_default], kc_shift := (kc_shift c)[i := 0],
               kc_used := kc_used c - {i}\<rparr>, True))
      else (c, False))"

definition cells_seq_add :: "nat \<Rightarrow> nat \<Rightarrow> llama_kv_cells \<Rightarrow> llama_kv_cells" where
  "cells_seq_add i s c =
     cells_seq_pos_inc s (kc_pos c ! i) (c\<lparr>kc_seq := (kc_seq c)[i := insert s (kc_seq c ! i)]\<rparr>)"

definition cells_pos_set :: "nat \<Rightarrow> llama_pos \<Rightarrow> llama_kv_cells \<Rightarrow> llama_kv_cells" where
  "cells_pos_set i p c = c\<lparr>kc_pos := (kc_pos c)[i := p], kc_used := insert i (kc_used c)\<rparr>"

definition cells_ext_set :: "nat \<Rightarrow> llama_kv_cell_ext \<Rightarrow> llama_kv_cells \<Rightarrow> llama_kv_cells" where
  "cells_ext_set i e c = c\<lparr>kc_ext := (kc_ext c)[i := e]\<rparr>"

definition cells_pos_add :: "nat \<Rightarrow> llama_pos \<Rightarrow> llama_kv_cells \<Rightarrow> llama_kv_cells \<times> bool" where
  "cells_pos_add i d c =
     (let c = cells_seq_pos_rm i c;
          c = c\<lparr>kc_pos := (kc_pos c)[i := kc_pos c ! i + d], kc_shift := (kc_shift c)[i := kc_shift c ! i + d],
                kc_has_shift := True\<rparr>
      in if kc_pos c ! i < 0
         then (c\<lparr>kc_seq := (kc_seq c)[i := {}], kc_pos := (kc_pos c)[i := -1],
                 kc_shift := (kc_shift c)[i := 0], kc_used := kc_used c - {i}\<rparr>, True)
         else (cells_seq_pos_add i c, False))"

definition cells_pos_div :: "nat \<Rightarrow> int \<Rightarrow> llama_kv_cells \<Rightarrow> llama_kv_cells" where
  "cells_pos_div i d c =
     (let p_old = kc_pos c ! i;
          c = cells_seq_pos_rm i c;
          c = c\<lparr>kc_pos := (kc_pos c)[i := trunc_div (kc_pos c ! i) d]\<rparr>;
          c = c\<lparr>kc_shift := (kc_shift c)[i := kc_shift c ! i + (p_old - kc_pos c ! i)]\<rparr>;
          c = cells_seq_pos_add i c
      in c\<lparr>kc_has_shift := True\<rparr>)"

text \<open>Save and restore: \<open>cp\<close> of a range or of indices, and the two \<open>set\<close> loops over them.\<close>

definition cells_cp_idxs :: "nat list \<Rightarrow> llama_kv_cells \<Rightarrow> llama_kv_cells" where
  "cells_cp_idxs is c =
     (let res = cells_resize (length is) cells_new
      in res\<lparr>kc_pos := map (\<lambda>i. kc_pos c ! i) is, kc_ext := map (\<lambda>i. kc_ext c ! i) is,
             kc_seq := map (\<lambda>i. kc_seq c ! i) is\<rparr>)"

definition cells_cp :: "nat \<Rightarrow> nat \<Rightarrow> llama_kv_cells \<Rightarrow> llama_kv_cells" where
  "cells_cp i n c = cells_cp_idxs [i..<i + n] c"

definition cells_set1 :: "nat \<Rightarrow> llama_pos \<Rightarrow> llama_kv_cell_ext \<Rightarrow> nat set \<Rightarrow> llama_kv_cells \<Rightarrow> llama_kv_cells" where
  "cells_set1 idx p e S c =
     (let c = (if kc_pos c ! idx = -1 \<and> p \<noteq> -1 then c\<lparr>kc_used := insert idx (kc_used c)\<rparr> else c);
          c = (if kc_pos c ! idx \<noteq> -1 \<and> p = -1 then c\<lparr>kc_used := kc_used c - {idx}\<rparr> else c);
          c = (if kc_pos c ! idx \<noteq> -1 then cells_seq_pos_rm idx c else c);
          c = c\<lparr>kc_pos := (kc_pos c)[idx := p], kc_ext := (kc_ext c)[idx := e], kc_seq := (kc_seq c)[idx := S]\<rparr>
      in if kc_pos c ! idx \<noteq> -1 then cells_seq_pos_add idx c else c)"

definition cells_set_idxs :: "nat list \<Rightarrow> llama_kv_cells \<Rightarrow> llama_kv_cells \<Rightarrow> llama_kv_cells" where
  "cells_set_idxs is other c =
     fold (\<lambda>j c. cells_set1 (is ! j) (kc_pos other ! j) (kc_ext other ! j) (kc_seq other ! j) c)
       [0..<length (kc_pos other)] c"

definition cells_set :: "nat \<Rightarrow> llama_kv_cells \<Rightarrow> llama_kv_cells \<Rightarrow> llama_kv_cells" where
  "cells_set i other c =
     fold (\<lambda>j c. cells_set1 (i + j) (kc_pos other ! j) (kc_ext other ! j) (kc_seq other ! j) c)
       [0..<length (kc_pos other)] c"

section \<open>The invariant\<close>

text \<open>How many cells hold position \<open>p\<close> for sequence \<open>s\<close>.\<close>

definition cells_cnt :: "llama_kv_cells \<Rightarrow> nat \<Rightarrow> int \<Rightarrow> nat" where
  "cells_cnt c s p = (\<Sum>i < length (kc_pos c). of_bool (s \<in> kc_seq c ! i \<and> kc_pos c ! i = p))"

definition cells_shape :: "llama_kv_cells \<Rightarrow> bool" where
  "cells_shape c \<longleftrightarrow> length (kc_ext c) = length (kc_pos c) \<and> length (kc_shift c) = length (kc_pos c) \<and>
     length (kc_seq c) = length (kc_pos c)"

definition cells_index_ok :: "llama_kv_cells \<Rightarrow> bool" where
  "cells_index_ok c \<longleftrightarrow>
     (\<forall>s. if s < LLAMA_MAX_SEQ then idx_ok (kc_seq_pos c s) (cells_cnt c s) else kc_seq_pos c s = fmempty)"

definition cell_ok :: "llama_kv_cells \<Rightarrow> nat \<Rightarrow> bool" where
  "cell_ok c i \<longleftrightarrow> kc_pos c ! i \<ge> -1 \<and> (kc_pos c ! i = -1 \<longrightarrow> kc_seq c ! i = {}) \<and>
     kc_seq c ! i \<subseteq> {..<LLAMA_MAX_SEQ}"

definition cells_ok :: "llama_kv_cells \<Rightarrow> bool" where
  "cells_ok c \<longleftrightarrow> cells_shape c \<and> (\<forall>i < length (kc_pos c). cell_ok c i) \<and>
     kc_used c = {i. i < length (kc_pos c) \<and> kc_pos c ! i \<noteq> -1} \<and> cells_index_ok c"

lemma cells_okD:
  assumes "cells_ok c"
  shows "length (kc_ext c) = length (kc_pos c)" "length (kc_shift c) = length (kc_pos c)"
    "length (kc_seq c) = length (kc_pos c)"
    "i < length (kc_pos c) \<Longrightarrow> -1 \<le> kc_pos c ! i"
    "i < length (kc_pos c) \<Longrightarrow> kc_pos c ! i = -1 \<Longrightarrow> kc_seq c ! i = {}"
    "i < length (kc_pos c) \<Longrightarrow> kc_seq c ! i \<subseteq> {..<LLAMA_MAX_SEQ}"
    "kc_used c = {i. i < length (kc_pos c) \<and> kc_pos c ! i \<noteq> -1}"
    "s < LLAMA_MAX_SEQ \<Longrightarrow> idx_ok (kc_seq_pos c s) (cells_cnt c s)"
    "cells_shape c" "cells_index_ok c"
  using assms unfolding cells_ok_def cells_shape_def cells_index_ok_def cell_ok_def
  by (auto split: if_splits)

subsection \<open>The index updates in closed form\<close>

lemma fold_seq_pos:
  assumes "distinct ss" "\<And>s p c. g s p c = c\<lparr>kc_seq_pos := (kc_seq_pos c)(s := h p (kc_seq_pos c s))\<rparr>"
  shows "fold (\<lambda>s c. if s \<in> kc_seq c ! i then g s (kc_pos c ! i) c else c) ss c =
    c\<lparr>kc_seq_pos := (\<lambda>s. if s \<in> set ss \<and> s \<in> kc_seq c ! i then h (kc_pos c ! i) (kc_seq_pos c s) else kc_seq_pos c s)\<rparr>"
  using assms(1)
proof (induction ss arbitrary: c)
  case (Cons s ss)
  then show ?case
    by (auto simp: assms(2) fun_eq_iff intro!: llama_kv_cells.equality)
qed simp

lemma cells_seq_pos_rm_eq:
  "cells_seq_pos_rm i c = c\<lparr>kc_seq_pos := (\<lambda>s. if s < LLAMA_MAX_SEQ \<and> s \<in> kc_seq c ! i
      then idx_dec (kc_pos c ! i) (kc_seq_pos c s) else kc_seq_pos c s)\<rparr>"
  unfolding cells_seq_pos_rm_def
  by (subst fold_seq_pos [where h = idx_dec]) (auto simp: cells_seq_pos_dec_def)

lemma cells_seq_pos_add_eq:
  "cells_seq_pos_add i c = c\<lparr>kc_seq_pos := (\<lambda>s. if s < LLAMA_MAX_SEQ \<and> s \<in> kc_seq c ! i
      then idx_inc (kc_pos c ! i) (kc_seq_pos c s) else kc_seq_pos c s)\<rparr>"
  unfolding cells_seq_pos_add_def
  by (subst fold_seq_pos [where h = idx_inc]) (auto simp: cells_seq_pos_inc_def)

lemma cells_cnt_upd:
  assumes "i < length (kc_pos c)" "length (kc_seq c) = length (kc_pos c)"
    and "length (kc_pos c') = length (kc_pos c)"
    and "\<And>j. j < length (kc_pos c) \<Longrightarrow> j \<noteq> i \<Longrightarrow> kc_pos c' ! j = kc_pos c ! j \<and> kc_seq c' ! j = kc_seq c ! j"
  shows "cells_cnt c' s p + of_bool (s \<in> kc_seq c ! i \<and> kc_pos c ! i = p) =
    cells_cnt c s p + of_bool (s \<in> kc_seq c' ! i \<and> kc_pos c' ! i = p)"
proof -
  let ?n = "length (kc_pos c)"
  have split: "(\<Sum>j < ?n. f j) = f i + (\<Sum>j \<in> {..<?n} - {i}. f j)" for f :: "nat \<Rightarrow> nat"
    using assms(1) by (intro sum.remove) auto
  have "(\<Sum>j \<in> {..<?n} - {i}. of_bool (s \<in> kc_seq c' ! j \<and> kc_pos c' ! j = p)) =
      (\<Sum>j \<in> {..<?n} - {i}. of_bool (s \<in> kc_seq c ! j \<and> kc_pos c ! j = p) :: nat)"
    using assms(4) by (intro sum.cong) auto
  then show ?thesis
    unfolding cells_cnt_def assms(3) split by simp
qed

text \<open>
  A write of one cell: the index is right after it if the old entry of the cell has been
  taken out for its sequences and the new one put in.
\<close>

lemma cells_ok_write:
  assumes ok: "cells_ok c" and i: "i < length (kc_pos c)"
    and len: "length (kc_pos c') = length (kc_pos c)" "length (kc_seq c') = length (kc_pos c)"
      "length (kc_ext c') = length (kc_pos c)" "length (kc_shift c') = length (kc_pos c)"
    and others: "\<And>j. j < length (kc_pos c) \<Longrightarrow> j \<noteq> i \<Longrightarrow> kc_pos c' ! j = kc_pos c ! j \<and> kc_seq c' ! j = kc_seq c ! j"
    and new: "cell_ok c' i"
    and used: "kc_used c' = (if kc_pos c' ! i = -1 then kc_used c - {i} else insert i (kc_used c))"
    and idx: "\<And>s. kc_seq_pos c' s =
      (let m = (if s < LLAMA_MAX_SEQ \<and> s \<in> kc_seq c ! i then idx_dec (kc_pos c ! i) (kc_seq_pos c s) else kc_seq_pos c s)
       in if s < LLAMA_MAX_SEQ \<and> s \<in> kc_seq c' ! i then idx_inc (kc_pos c' ! i) m else m)"
  shows "cells_ok c'"
proof -
  note D = cells_okD [OF ok]
  have "idx_ok (kc_seq_pos c' s) (cells_cnt c' s)" if s: "s < LLAMA_MAX_SEQ" for s
  proof -
    let ?f = "cells_cnt c s" and ?p = "kc_pos c ! i" and ?q = "kc_pos c' ! i"
    have upd: "cells_cnt c' s p + of_bool (s \<in> kc_seq c ! i \<and> ?p = p) = ?f p + of_bool (s \<in> kc_seq c' ! i \<and> ?q = p)" for p
      using others i len D(3) by (intro cells_cnt_upd) auto
    have pos: "0 < ?f ?p" if "s \<in> kc_seq c ! i"
      using i that unfolding cells_cnt_def by (intro sum_pos2 [of _ i]) auto
    define g where "g = (if s \<in> kc_seq c ! i then ?f(?p := ?f ?p - 1) else ?f)"
    define m where "m = (if s \<in> kc_seq c ! i then idx_dec ?p (kc_seq_pos c s) else kc_seq_pos c s)"
    have "idx_ok m g"
      using D(8) [OF s] idx_ok_dec [OF D(8) [OF s], of ?p] pos by (simp add: g_def m_def)
    moreover have "kc_seq_pos c' s = (if s \<in> kc_seq c' ! i then idx_inc ?q m else m)"
      using s by (simp add: idx m_def Let_def)
    moreover have "cells_cnt c' s = (if s \<in> kc_seq c' ! i then g(?q := Suc (g ?q)) else g)"
    proof (rule ext)
      fix p
      show "cells_cnt c' s p = (if s \<in> kc_seq c' ! i then g(?q := Suc (g ?q)) else g) p"
        using upd [of p] pos
        by (cases "s \<in> kc_seq c ! i"; cases "s \<in> kc_seq c' ! i"; cases "?p = p"; cases "?q = p")
          (auto simp: g_def)
    qed
    ultimately show ?thesis by (auto intro: idx_ok_inc)
  qed
  moreover have "kc_seq_pos c' s = fmempty" if "\<not> s < LLAMA_MAX_SEQ" for s
    using that D(10) by (auto simp: idx cells_index_ok_def)
  ultimately have "cells_index_ok c'" by (auto simp: cells_index_ok_def)
  moreover have "cell_ok c' j" if "j < length (kc_pos c)" for j
    using that others [of j] new ok by (cases "j = i") (auto simp: cell_ok_def cells_ok_def)
  moreover have "kc_used c' = {j. j < length (kc_pos c') \<and> kc_pos c' ! j \<noteq> -1}"
  proof (rule set_eqI)
    fix j
    have "j < length (kc_pos c) \<Longrightarrow> j \<noteq> i \<Longrightarrow> kc_pos c' ! j = kc_pos c ! j" using others by blast
    then show "j \<in> kc_used c' \<longleftrightarrow> j \<in> {j. j < length (kc_pos c') \<and> kc_pos c' ! j \<noteq> -1}"
      using i len(1) by (cases "j = i"; cases "j < length (kc_pos c)") (simp_all add: used D(7))
  qed
  ultimately show ?thesis using len by (simp add: cells_ok_def cells_shape_def)
qed


lemma cells_cnt_pos:
  "i < length (kc_pos c) \<Longrightarrow> s \<in> kc_seq c ! i \<Longrightarrow> 0 < cells_cnt c s (kc_pos c ! i)"
  unfolding cells_cnt_def by (intro sum_pos2 [of _ i]) auto

lemma idx_inc_dec: "idx_ok m f \<Longrightarrow> 0 < f p \<Longrightarrow> idx_inc p (idx_dec p m) = m"
  by (rule fmap_ext) (auto simp: idx_ok_def idx_inc_def idx_dec_def)

lemma cells_inc_dec [simp]:
  assumes "cells_ok c" "i < length (kc_pos c)" "s \<in> kc_seq c ! i"
  shows "idx_inc (kc_pos c ! i) (idx_dec (kc_pos c ! i) (kc_seq_pos c s)) = kc_seq_pos c s"
proof -
  have "s < LLAMA_MAX_SEQ" using cells_okD(6) [OF assms(1,2)] assms(3) by auto
  from idx_inc_dec [OF cells_okD(8) [OF assms(1) this]] cells_cnt_pos [OF assms(2,3)]
  show ?thesis by blast
qed

subsection \<open>Every operation keeps the invariant\<close>

lemma cells_ok_new: "cells_ok cells_new"
  by (auto simp: cells_ok_def cells_new_def cells_shape_def cells_index_ok_def idx_ok_def cells_cnt_def)

lemma cells_ok_reset:
  assumes "\<forall>s \<ge> LLAMA_MAX_SEQ. kc_seq_pos c s = fmempty"
  shows "cells_ok (cells_reset c)"
  using assms
  by (auto simp: cells_ok_def cells_reset_def cells_shape_def cells_index_ok_def idx_ok_def cells_cnt_def
      cell_ok_def Let_def)

lemma cells_ok_resize: "cells_ok c \<Longrightarrow> cells_ok (cells_resize n c)"
  unfolding cells_resize_def
  by (rule cells_ok_reset) (auto simp: cells_ok_def cells_index_ok_def split: if_splits)

lemma cells_cnt_cong: "kc_pos c' = kc_pos c \<Longrightarrow> kc_seq c' = kc_seq c \<Longrightarrow> cells_cnt c' = cells_cnt c"
  by (simp add: fun_eq_iff cells_cnt_def)

lemma cells_ok_cong:
  assumes "cells_ok c" "kc_pos c' = kc_pos c" "kc_seq c' = kc_seq c" "kc_used c' = kc_used c"
    "kc_seq_pos c' = kc_seq_pos c" "length (kc_ext c') = length (kc_ext c)"
    "length (kc_shift c') = length (kc_shift c)"
  shows "cells_ok c'"
  using assms cells_cnt_cong [OF assms(2,3)]
  unfolding cells_ok_def cells_shape_def cells_index_ok_def cell_ok_def by simp

lemma cells_ok_reset_shift: "cells_ok c \<Longrightarrow> cells_ok (cells_reset_shift c)"
  by (rule cells_ok_cong) (auto simp: cells_reset_shift_def)

lemma cells_rm_fields [simp]:
  "kc_pos (cells_rm i c) = (kc_pos c)[i := -1]"
  "kc_seq (cells_rm i c) = (kc_seq c)[i := {}]"
  "kc_ext (cells_rm i c) = (kc_ext c)[i := ext_default]"
  "kc_shift (cells_rm i c) = (kc_shift c)[i := 0]"
  "kc_has_shift (cells_rm i c) = kc_has_shift c"
  "kc_used (cells_rm i c) = kc_used c - {i}"
  by (simp_all add: cells_rm_def cells_seq_pos_rm_eq Let_def)

lemma cells_ok_rm:
  assumes "cells_ok c" "i < length (kc_pos c)"
  shows "cells_ok (cells_rm i c)"
  using cells_okD [OF assms(1)] assms(2)
  by (intro cells_ok_write [OF assms]) (auto simp: cell_ok_def cells_rm_def cells_seq_pos_rm_eq Let_def)

lemma cells_seq_rm_fields [simp]:
  assumes "i < length (kc_seq c)"
  shows "kc_seq (fst (cells_seq_rm i s c)) = (kc_seq c)[i := kc_seq c ! i - {s}]"
  "kc_pos (fst (cells_seq_rm i s c)) = (if kc_seq c ! i - {s} = {} then (kc_pos c)[i := -1] else kc_pos c)"
  "kc_ext (fst (cells_seq_rm i s c)) = (if kc_seq c ! i - {s} = {} then (kc_ext c)[i := ext_default] else kc_ext c)"
  "kc_shift (fst (cells_seq_rm i s c)) = (if kc_seq c ! i - {s} = {} then (kc_shift c)[i := 0] else kc_shift c)"
  "kc_has_shift (fst (cells_seq_rm i s c)) = kc_has_shift c"
  "kc_used (fst (cells_seq_rm i s c)) = (if kc_seq c ! i - {s} = {} then kc_used c - {i} else kc_used c)"
  "kc_seq_pos (fst (cells_seq_rm i s c)) = (kc_seq_pos c)(s := idx_dec (kc_pos c ! i) (kc_seq_pos c s))"
  "snd (cells_seq_rm i s c) = (kc_seq c ! i - {s} = {})"
  using assms by (simp_all add: cells_seq_rm_def cells_seq_pos_dec_def Let_def)

lemma cells_ok_seq_rm:
  assumes ok: "cells_ok c" and i: "i < length (kc_pos c)" and s: "s \<in> kc_seq c ! i"
  shows "cells_ok (fst (cells_seq_rm i s c))"
proof -
  note D = cells_okD [OF ok]
  have p: "kc_pos c ! i \<noteq> -1" using D(5) [OF i] s by auto
  have l: "i < length (kc_seq c)" "length (kc_seq c) = length (kc_pos c)" using D(3) i by auto
  have sm: "t < LLAMA_MAX_SEQ" if "t \<in> kc_seq c ! i" for t using D(6) [OF i] that by auto
  show ?thesis
    using D i s p l sm by (intro cells_ok_write [OF ok i]) (auto simp: cell_ok_def ok Let_def)
qed

lemma cells_seq_add_fields [simp]:
  "kc_seq (cells_seq_add i s c) = (kc_seq c)[i := insert s (kc_seq c ! i)]"
  "kc_pos (cells_seq_add i s c) = kc_pos c"
  "kc_ext (cells_seq_add i s c) = kc_ext c"
  "kc_shift (cells_seq_add i s c) = kc_shift c"
  "kc_has_shift (cells_seq_add i s c) = kc_has_shift c"
  "kc_used (cells_seq_add i s c) = kc_used c"
  "kc_seq_pos (cells_seq_add i s c) = (kc_seq_pos c)(s := idx_inc (kc_pos c ! i) (kc_seq_pos c s))"
  by (simp_all add: cells_seq_add_def cells_seq_pos_inc_def)

lemma cells_ok_seq_add:
  assumes ok: "cells_ok c" and i: "i < length (kc_pos c)" and p: "kc_pos c ! i \<noteq> -1"
    and s: "s \<notin> kc_seq c ! i" "s < LLAMA_MAX_SEQ"
  shows "cells_ok (cells_seq_add i s c)"
proof -
  note D = cells_okD [OF ok]
  show ?thesis
    using D i s p by (intro cells_ok_write [OF ok i]) (auto simp: cell_ok_def ok Let_def)
qed

lemma cells_pos_set_fields [simp]:
  "kc_seq (cells_pos_set i p c) = kc_seq c"
  "kc_pos (cells_pos_set i p c) = (kc_pos c)[i := p]"
  "kc_ext (cells_pos_set i p c) = kc_ext c"
  "kc_shift (cells_pos_set i p c) = kc_shift c"
  "kc_has_shift (cells_pos_set i p c) = kc_has_shift c"
  "kc_used (cells_pos_set i p c) = insert i (kc_used c)"
  "kc_seq_pos (cells_pos_set i p c) = kc_seq_pos c"
  by (simp_all add: cells_pos_set_def)

lemma cells_ok_pos_set:
  assumes ok: "cells_ok c" and i: "i < length (kc_pos c)" and p: "kc_pos c ! i = -1" "0 \<le> p"
  shows "cells_ok (cells_pos_set i p c)"
  using cells_okD [OF ok] i p by (intro cells_ok_write [OF ok i]) (auto simp: cell_ok_def Let_def)

lemma cells_ext_set_fields [simp]:
  "kc_seq (cells_ext_set i e c) = kc_seq c"
  "kc_pos (cells_ext_set i e c) = kc_pos c"
  "kc_ext (cells_ext_set i e c) = (kc_ext c)[i := e]"
  "kc_shift (cells_ext_set i e c) = kc_shift c"
  "kc_has_shift (cells_ext_set i e c) = kc_has_shift c"
  "kc_used (cells_ext_set i e c) = kc_used c"
  "kc_seq_pos (cells_ext_set i e c) = kc_seq_pos c"
  by (simp_all add: cells_ext_set_def)

lemma cells_ok_ext_set: "cells_ok c \<Longrightarrow> cells_ok (cells_ext_set i e c)"
  by (rule cells_ok_cong) auto


lemma trunc_div_nonneg: "0 \<le> p \<Longrightarrow> 0 < d \<Longrightarrow> trunc_div p d = p div d"
  by (cases "p = 0") (auto simp: trunc_div_def)

lemma cells_pos_add_fields [simp]:
  assumes "i < length (kc_pos c)" "length (kc_shift c) = length (kc_pos c)"
  shows "kc_pos (fst (cells_pos_add i d c)) = (kc_pos c)[i := (if kc_pos c ! i + d < 0 then -1 else kc_pos c ! i + d)]"
  "kc_seq (fst (cells_pos_add i d c)) = (if kc_pos c ! i + d < 0 then (kc_seq c)[i := {}] else kc_seq c)"
  "kc_ext (fst (cells_pos_add i d c)) = kc_ext c"
  "kc_shift (fst (cells_pos_add i d c)) = (kc_shift c)[i := (if kc_pos c ! i + d < 0 then 0 else kc_shift c ! i + d)]"
  "kc_has_shift (fst (cells_pos_add i d c))"
  "kc_used (fst (cells_pos_add i d c)) = (if kc_pos c ! i + d < 0 then kc_used c - {i} else kc_used c)"
  "snd (cells_pos_add i d c) = (kc_pos c ! i + d < 0)"
  using assms by (simp_all add: cells_pos_add_def cells_seq_pos_rm_eq cells_seq_pos_add_eq Let_def)

lemma cells_ok_pos_add:
  assumes ok: "cells_ok c" and i: "i < length (kc_pos c)" and p: "kc_pos c ! i \<noteq> -1"
  shows "cells_ok (fst (cells_pos_add i d c))"
proof -
  note D = cells_okD [OF ok]
  have idx: "kc_seq_pos (fst (cells_pos_add i d c)) t =
      (let m = (if t < LLAMA_MAX_SEQ \<and> t \<in> kc_seq c ! i then idx_dec (kc_pos c ! i) (kc_seq_pos c t) else kc_seq_pos c t)
       in if t < LLAMA_MAX_SEQ \<and> t \<in> kc_seq (fst (cells_pos_add i d c)) ! i
          then idx_inc (kc_pos (fst (cells_pos_add i d c)) ! i) m else m)" for t
    using D i by (auto simp: cells_pos_add_def cells_seq_pos_rm_eq cells_seq_pos_add_eq Let_def)
  show ?thesis
    using D i p by (intro cells_ok_write [OF ok i _ _ _ _ _ _ _ idx]) (auto simp: cell_ok_def)
qed

lemma cells_pos_div_fields [simp]:
  assumes "i < length (kc_pos c)" "length (kc_shift c) = length (kc_pos c)"
  shows "kc_pos (cells_pos_div i d c) = (kc_pos c)[i := trunc_div (kc_pos c ! i) d]"
  "kc_seq (cells_pos_div i d c) = kc_seq c"
  "kc_ext (cells_pos_div i d c) = kc_ext c"
  "kc_shift (cells_pos_div i d c) = (kc_shift c)[i := kc_shift c ! i + (kc_pos c ! i - trunc_div (kc_pos c ! i) d)]"
  "kc_has_shift (cells_pos_div i d c)"
  "kc_used (cells_pos_div i d c) = kc_used c"
  using assms by (simp_all add: cells_pos_div_def cells_seq_pos_rm_eq cells_seq_pos_add_eq Let_def)

lemma cells_ok_pos_div:
  assumes ok: "cells_ok c" and i: "i < length (kc_pos c)" and p: "kc_pos c ! i \<noteq> -1" and d: "0 < d"
  shows "cells_ok (cells_pos_div i d c)"
proof -
  note D = cells_okD [OF ok]
  have idx: "kc_seq_pos (cells_pos_div i d c) t =
      (let m = (if t < LLAMA_MAX_SEQ \<and> t \<in> kc_seq c ! i then idx_dec (kc_pos c ! i) (kc_seq_pos c t) else kc_seq_pos c t)
       in if t < LLAMA_MAX_SEQ \<and> t \<in> kc_seq (cells_pos_div i d c) ! i
          then idx_inc (kc_pos (cells_pos_div i d c) ! i) m else m)" for t
    using D i by (auto simp: cells_pos_div_def cells_seq_pos_rm_eq cells_seq_pos_add_eq Let_def)
  have q: "0 \<le> trunc_div (kc_pos c ! i) d"
    using D(4) [OF i] p d by (simp add: trunc_div_nonneg pos_imp_zdiv_nonneg_iff)
  have "cell_ok (cells_pos_div i d c) i"
    using D q i by (auto simp: cell_ok_def)
  moreover have "kc_used c = insert i (kc_used c)" using D(7) i p by auto
  ultimately show ?thesis
    using D i p q by (intro cells_ok_write [OF ok i _ _ _ _ _ _ _ idx]) (auto simp del: insert_iff)
qed

lemma cells_seq_keep_fields:
  assumes "i < length (kc_seq c)"
  shows "kc_seq (fst (cells_seq_keep i s c)) = (kc_seq c)[i := kc_seq c ! i \<inter> {s}]"
  "kc_pos (fst (cells_seq_keep i s c)) =
     (if s \<notin> kc_seq c ! i \<and> kc_seq c ! i \<noteq> {} then (kc_pos c)[i := -1] else kc_pos c)"
  "kc_used (fst (cells_seq_keep i s c)) =
     (if s \<notin> kc_seq c ! i \<and> kc_seq c ! i \<noteq> {} then kc_used c - {i} else kc_used c)"
  "length (kc_ext (fst (cells_seq_keep i s c))) = length (kc_ext c)"
  "length (kc_shift (fst (cells_seq_keep i s c))) = length (kc_shift c)"
  "snd (cells_seq_keep i s c) = (s \<notin> kc_seq c ! i \<and> kc_seq c ! i \<noteq> {})"
  using assms
  by (auto simp: cells_seq_keep_def cells_seq_pos_inc_def cells_seq_pos_rm_eq Let_def list_update_same_conv [THEN iffD2])

lemma cells_ok_seq_keep:
  assumes ok: "cells_ok c" and i: "i < length (kc_pos c)"
  shows "cells_ok (fst (cells_seq_keep i s c))"
proof (cases "kc_seq c ! i = {}")
  case True
  then show ?thesis using ok by (simp add: cells_seq_keep_def)
next
  case False
  note D = cells_okD [OF ok]
  have l: "i < length (kc_seq c)" using D(3) i by simp
  have p: "kc_pos c ! i \<noteq> -1" using D(5) [OF i] False by auto
  have sm: "t < LLAMA_MAX_SEQ" if "t \<in> kc_seq c ! i" for t using D(6) [OF i] that by auto
  have idx: "kc_seq_pos (fst (cells_seq_keep i s c)) t =
      (let m = (if t < LLAMA_MAX_SEQ \<and> t \<in> kc_seq c ! i then idx_dec (kc_pos c ! i) (kc_seq_pos c t) else kc_seq_pos c t)
       in if t < LLAMA_MAX_SEQ \<and> t \<in> kc_seq (fst (cells_seq_keep i s c)) ! i
          then idx_inc (kc_pos (fst (cells_seq_keep i s c)) ! i) m else m)" for t
    using D l False sm
    by (auto simp: cells_seq_keep_fields cells_seq_keep_def cells_seq_pos_inc_def cells_seq_pos_rm_eq Let_def)
  show ?thesis
    using D i l p False sm
    by (intro cells_ok_write [OF ok i _ _ _ _ _ _ _ idx]) (auto simp: cell_ok_def cells_seq_keep_fields)
qed

lemma cells_set1_fields [simp]:
  "kc_pos (cells_set1 i p e S c) = (kc_pos c)[i := p]"
  "kc_seq (cells_set1 i p e S c) = (kc_seq c)[i := S]"
  "kc_ext (cells_set1 i p e S c) = (kc_ext c)[i := e]"
  "kc_shift (cells_set1 i p e S c) = kc_shift c"
  "kc_has_shift (cells_set1 i p e S c) = kc_has_shift c"
  by (simp_all add: cells_set1_def cells_seq_pos_rm_eq cells_seq_pos_add_eq Let_def)

lemma cells_ok_set1:
  assumes ok: "cells_ok c" and i: "i < length (kc_pos c)"
    and new: "-1 \<le> p" "p = -1 \<longrightarrow> S = {}" "S \<subseteq> {..<LLAMA_MAX_SEQ}"
  shows "cells_ok (cells_set1 i p e S c)"
proof -
  note D = cells_okD [OF ok]
  have l: "i < length (kc_seq c)" using D(3) i by simp
  have idx: "kc_seq_pos (cells_set1 i p e S c) t =
      (let m = (if t < LLAMA_MAX_SEQ \<and> t \<in> kc_seq c ! i then idx_dec (kc_pos c ! i) (kc_seq_pos c t) else kc_seq_pos c t)
       in if t < LLAMA_MAX_SEQ \<and> t \<in> kc_seq (cells_set1 i p e S c) ! i
          then idx_inc (kc_pos (cells_set1 i p e S c) ! i) m else m)" for t
    using D(5) [OF i] l i new by (auto simp: cells_set1_def cells_seq_pos_rm_eq cells_seq_pos_add_eq Let_def)
  have used: "kc_used (cells_set1 i p e S c) = (if p = -1 then kc_used c - {i} else insert i (kc_used c))"
    using D(7) i by (auto simp: cells_set1_def cells_seq_pos_rm_eq cells_seq_pos_add_eq Let_def)
  show ?thesis
    using D i l new by (intro cells_ok_write [OF ok i _ _ _ _ _ _ _ idx]) (auto simp: cell_ok_def used)
qed


subsection \<open>What the queries answer\<close>

lemma cells_cnt_pos_iff:
  "0 < cells_cnt c s p \<longleftrightarrow> (\<exists>i < length (kc_pos c). s \<in> kc_seq c ! i \<and> kc_pos c ! i = p)"
proof -
  have "cells_cnt c s p = 0 \<longleftrightarrow> (\<forall>i < length (kc_pos c). \<not> (s \<in> kc_seq c ! i \<and> kc_pos c ! i = p))"
    unfolding cells_cnt_def by (subst sum_nonneg_eq_0_iff) (auto simp del: sum_of_bool_eq)
  then show ?thesis by (simp add: zero_less_iff_neq_zero)
qed

definition seq_positions :: "llama_kv_cells \<Rightarrow> nat \<Rightarrow> llama_pos set" where
  "seq_positions c s = {kc_pos c ! i |i. i < length (kc_pos c) \<and> s \<in> kc_seq c ! i}"

lemma finite_seq_positions [simp]: "finite (seq_positions c s)"
  unfolding seq_positions_def by simp

lemma seq_pos_dom: "cells_ok c \<Longrightarrow> fmdom' (kc_seq_pos c s) = seq_positions c s"
proof (cases "s < LLAMA_MAX_SEQ")
  case True
  assume "cells_ok c"
  from idx_ok_dom [OF cells_okD(8) [OF this True]] show ?thesis
    by (auto simp: cells_cnt_pos_iff seq_positions_def)
next
  case False
  assume ok: "cells_ok c"
  have "s \<notin> kc_seq c ! i" if "i < length (kc_pos c)" for i
    using cells_okD(6) [OF ok that] False by auto
  then show ?thesis using False cells_okD(10) [OF ok] by (auto simp: cells_index_ok_def seq_positions_def)
qed

lemma seq_positions_nonneg: "cells_ok c \<Longrightarrow> p \<in> seq_positions c s \<Longrightarrow> 0 \<le> p"
proof -
  assume ok: "cells_ok c" and p: "p \<in> seq_positions c s"
  then obtain i where i: "i < length (kc_pos c)" "s \<in> kc_seq c ! i" "p = kc_pos c ! i"
    by (auto simp: seq_positions_def)
  with cells_okD(4,5) [OF ok i(1)] show ?thesis by force
qed

lemma cells_seq_pos_min_eq:
  "cells_ok c \<Longrightarrow> cells_seq_pos_min c s = (if seq_positions c s = {} then -1 else Min (seq_positions c s))"
  by (simp add: cells_seq_pos_min_def seq_pos_dom)

lemma cells_seq_pos_max_eq:
  "cells_ok c \<Longrightarrow> cells_seq_pos_max c s = (if seq_positions c s = {} then -1 else Max (seq_positions c s))"
  by (simp add: cells_seq_pos_max_def seq_pos_dom)

lemma cells_seq_pos_max_ge:
  "cells_ok c \<Longrightarrow> p \<in> seq_positions c s \<Longrightarrow> p \<le> cells_seq_pos_max c s"
  by (auto simp: cells_seq_pos_max_eq)

lemma cells_ok_used: "cells_ok c \<Longrightarrow> i < length (kc_pos c) \<Longrightarrow> i \<in> kc_used c \<longleftrightarrow> \<not> cells_is_empty c i"
  by (simp add: cells_okD(7) cells_is_empty_def)

lemma finite_used [simp]: "cells_ok c \<Longrightarrow> finite (kc_used c)"
  by (simp add: cells_okD(7))

subsection \<open>Save and restore\<close>

lemma cells_cp_idxs_fields [simp]:
  "kc_pos (cells_cp_idxs js c) = map (\<lambda>i. kc_pos c ! i) js"
  "kc_ext (cells_cp_idxs js c) = map (\<lambda>i. kc_ext c ! i) js"
  "kc_seq (cells_cp_idxs js c) = map (\<lambda>i. kc_seq c ! i) js"
  by (simp_all add: cells_cp_idxs_def Let_def)

lemma cells_set_idxs_fold_fields:
  "kc_pos (fold (\<lambda>j. cells_set1 (f j) (g j) (h j) (k j)) js c) = write_all (kc_pos c) (map (\<lambda>j. (f j, g j)) js)"
  "kc_seq (fold (\<lambda>j. cells_set1 (f j) (g j) (h j) (k j)) js c) = write_all (kc_seq c) (map (\<lambda>j. (f j, k j)) js)"
  "kc_ext (fold (\<lambda>j. cells_set1 (f j) (g j) (h j) (k j)) js c) = write_all (kc_ext c) (map (\<lambda>j. (f j, h j)) js)"
  "kc_shift (fold (\<lambda>j. cells_set1 (f j) (g j) (h j) (k j)) js c) = kc_shift c"
  "kc_has_shift (fold (\<lambda>j. cells_set1 (f j) (g j) (h j) (k j)) js c) = kc_has_shift c"
  by (induction js arbitrary: c) simp_all

lemma cells_ok_set_idxs_fold:
  assumes "cells_ok c" "\<forall>j \<in> set js. is ! j < length (kc_pos c)"
    and "\<forall>j \<in> set js. -1 \<le> kc_pos other ! j \<and> (kc_pos other ! j = -1 \<longrightarrow> kc_seq other ! j = {}) \<and>
      kc_seq other ! j \<subseteq> {..<LLAMA_MAX_SEQ}"
  shows "cells_ok (fold (\<lambda>j c. cells_set1 (is ! j) (kc_pos other ! j) (kc_ext other ! j) (kc_seq other ! j) c) js c)"
  using assms
proof (induction js arbitrary: c)
  case (Cons j js)
  have "cells_ok (cells_set1 (is ! j) (kc_pos other ! j) (kc_ext other ! j) (kc_seq other ! j) c)"
    using Cons.prems by (intro cells_ok_set1) auto
  from Cons.IH [OF this] Cons.prems show ?case by simp
qed simp

text \<open>Under the invariant the cells determine the two indices.\<close>

lemma cells_ok_eqI:
  assumes "cells_ok c" "cells_ok d" "kc_pos c = kc_pos d" "kc_seq c = kc_seq d" "kc_ext c = kc_ext d"
    "kc_shift c = kc_shift d" "kc_has_shift c = kc_has_shift d"
  shows "c = d"
proof -
  have "kc_seq_pos c = kc_seq_pos d"
  proof (rule ext)
    fix s show "kc_seq_pos c s = kc_seq_pos d s"
  proof (cases "s < LLAMA_MAX_SEQ")
    case True
    have "cells_cnt c s = cells_cnt d s" using cells_cnt_cong [OF assms(3,4)] by simp
    with cells_okD(8) [OF assms(1) True] cells_okD(8) [OF assms(2) True]
    show ?thesis by (auto intro: idx_ok_unique)
  next
    case False
    then show ?thesis using assms(1,2) by (auto simp: cells_ok_def cells_index_ok_def)
  qed
  qed
  moreover have "kc_used c = kc_used d" using cells_okD(7) assms by simp
  ultimately show ?thesis using assms(3-) by (intro llama_kv_cells.equality) simp_all
qed

lemma cells_restore:
  assumes c: "cells_ok c" and d: "cells_ok d"
    and js: "distinct js" "\<forall>i \<in> set js. i < length (kc_pos c)"
    and len: "length (kc_pos d) = length (kc_pos c)" "kc_shift d = kc_shift c" "kc_has_shift d = kc_has_shift c"
    and other: "\<forall>i < length (kc_pos c). i \<notin> set js \<longrightarrow>
      kc_pos d ! i = kc_pos c ! i \<and> kc_seq d ! i = kc_seq c ! i \<and> kc_ext d ! i = kc_ext c ! i"
  shows "cells_set_idxs js (cells_cp_idxs js c) d = c"
proof -
  note C = cells_okD [OF c] and D = cells_okD [OF d]
  let ?o = "cells_cp_idxs js c"
  let ?n = "length js"
  have w: "write_all xs (map (\<lambda>j. (js ! j, map ((!) ys) js ! j)) [0..<?n]) = ys"
    if "length xs = length ys" "\<forall>i \<in> set js. i < length ys" "\<forall>i < length ys. i \<notin> set js \<longrightarrow> xs ! i = ys ! i"
    for xs ys :: "'b list"
  proof (rule nth_equalityI)
    let ?ws = "map (\<lambda>j. (js ! j, map ((!) ys) js ! j)) [0..<?n]"
    have fst: "map fst ?ws = js" by (simp add: comp_def map_nth)
    fix i assume "i < length (write_all xs ?ws)"
    then have i: "i < length xs" by simp
    show "write_all xs ?ws ! i = ys ! i"
    proof (cases "i \<in> set js")
      case True
      then obtain j where "j < ?n" "js ! j = i" by (auto simp: in_set_conv_nth)
      then have "(i, ys ! i) \<in> set ?ws" by (auto simp: image_iff intro!: bexI [of _ j])
      then show ?thesis using js(1) fst i by (intro write_all_same) simp_all
    next
      case False
      then have "i \<notin> fst ` set ?ws" using fst by (metis list.set_map)
      then show ?thesis using that False i by (simp add: write_all_other)
    qed
  qed (simp add: that)
  have "cells_ok (cells_set_idxs js ?o d)"
    unfolding cells_set_idxs_def
  proof (rule cells_ok_set_idxs_fold [OF d])
    show "\<forall>j \<in> set [0..<length (kc_pos ?o)]. js ! j < length (kc_pos d)"
      using js(2) len(1) by simp
    show "\<forall>j \<in> set [0..<length (kc_pos ?o)]. -1 \<le> kc_pos ?o ! j \<and>
        (kc_pos ?o ! j = -1 \<longrightarrow> kc_seq ?o ! j = {}) \<and> kc_seq ?o ! j \<subseteq> {..<LLAMA_MAX_SEQ}"
      using C(4-6) js(2) by simp
  qed
  then show ?thesis
    using js len other C(1-3) D(1-3)
    by (intro cells_ok_eqI [OF _ c]) (simp_all add: cells_set_idxs_def cells_set_idxs_fold_fields w del: nth_map)
qed

lemma cells_ok_set_idxs:
  assumes c: "cells_ok c" and d: "cells_ok d"
    and js: "\<forall>i \<in> set js. i < length (kc_pos c)" and len: "length (kc_pos d) = length (kc_pos c)"
  shows "cells_ok (cells_set_idxs js (cells_cp_idxs js c) d)"
  unfolding cells_set_idxs_def
  using js len cells_okD(4-6) [OF c] by (intro cells_ok_set_idxs_fold [OF d]) simp_all


section \<open>Every object the class can be in\<close>

text \<open>
  The states an object reaches from its construction by calls that meet the \<open>assert\<close>s of the
  class. \<open>set\<close> restores what \<open>cp\<close> saved from such an object.
\<close>

inductive cells_reach :: "llama_kv_cells \<Rightarrow> bool" where
  reach_new: "cells_reach cells_new"
| reach_reset: "cells_reach c \<Longrightarrow> cells_reach (cells_reset c)"
| reach_resize: "cells_reach c \<Longrightarrow> cells_reach (cells_resize n c)"
| reach_reset_shift: "cells_reach c \<Longrightarrow> cells_reach (cells_reset_shift c)"
| reach_rm: "cells_reach c \<Longrightarrow> i < cells_size c \<Longrightarrow> kc_pos c ! i \<noteq> -1 \<Longrightarrow> cells_reach (cells_rm i c)"
| reach_seq_rm: "cells_reach c \<Longrightarrow> i < cells_size c \<Longrightarrow> s \<in> kc_seq c ! i \<Longrightarrow> kc_pos c ! i \<noteq> -1 \<Longrightarrow>
    cells_reach (fst (cells_seq_rm i s c))"
| reach_seq_keep: "cells_reach c \<Longrightarrow> i < cells_size c \<Longrightarrow> cells_reach (fst (cells_seq_keep i s c))"
| reach_seq_add: "cells_reach c \<Longrightarrow> i < cells_size c \<Longrightarrow> kc_pos c ! i \<noteq> -1 \<Longrightarrow> s \<notin> kc_seq c ! i \<Longrightarrow>
    s < LLAMA_MAX_SEQ \<Longrightarrow> cells_reach (cells_seq_add i s c)"
| reach_pos_set: "cells_reach c \<Longrightarrow> i < cells_size c \<Longrightarrow> kc_pos c ! i = -1 \<Longrightarrow> kc_seq c ! i = {} \<Longrightarrow> 0 \<le> p \<Longrightarrow>
    cells_reach (cells_pos_set i p c)"
| reach_ext_set: "cells_reach c \<Longrightarrow> i < cells_size c \<Longrightarrow> cells_reach (cells_ext_set i e c)"
| reach_pos_add: "cells_reach c \<Longrightarrow> i < cells_size c \<Longrightarrow> kc_pos c ! i \<noteq> -1 \<Longrightarrow>
    cells_reach (fst (cells_pos_add i d c))"
| reach_pos_div: "cells_reach c \<Longrightarrow> i < cells_size c \<Longrightarrow> kc_pos c ! i \<noteq> -1 \<Longrightarrow> 0 < k \<Longrightarrow>
    cells_reach (cells_pos_div i k c)"
| reach_set: "cells_reach c \<Longrightarrow> cells_reach b \<Longrightarrow> \<forall>i \<in> set js. i < cells_size b \<Longrightarrow> cells_size c = cells_size b \<Longrightarrow>
    cells_reach (cells_set_idxs js (cells_cp_idxs js b) c)"

inductive_cases cells_reach_newE: "cells_reach cells_new"

lemma cells_reach_ok: "cells_reach c \<Longrightarrow> cells_ok c"
proof (induction rule: cells_reach.induct)
  case (reach_reset c)
  then show ?case by (intro cells_ok_reset) (auto simp: cells_ok_def cells_index_ok_def split: if_splits)
qed (auto simp: cells_size_def cells_ok_new cells_ok_resize cells_ok_reset_shift cells_ok_rm cells_ok_seq_rm
    cells_ok_seq_keep cells_ok_seq_add cells_ok_pos_set cells_ok_ext_set cells_ok_pos_add cells_ok_pos_div
    cells_ok_set_idxs)

section \<open>Properties\<close>

text \<open>
  C7. In every state the class can reach, the incremental per-sequence index answers what a scan
  of the cells would: \<open>seq_pos_min\<close> and \<open>seq_pos_max\<close> are the least and greatest position held
  by a cell of the sequence, or -1 when no cell holds it, and the used set is exactly the
  non-empty cells, so \<open>used_max_p1\<close> bounds every used cell.
\<close>

theorem cells_queries_exact:
  assumes "cells_reach c"
  shows "cells_seq_pos_min c s = (if seq_positions c s = {} then -1 else Min (seq_positions c s)) \<and>
    cells_seq_pos_max c s = (if seq_positions c s = {} then -1 else Max (seq_positions c s)) \<and>
    cells_get_used c = card {i. i < cells_size c \<and> \<not> cells_is_empty c i} \<and>
    (\<forall>i < cells_size c. cells_used_max_p1 c \<le> i \<longrightarrow> cells_is_empty c i)"
proof -
  note ok = cells_reach_ok [OF assms]
  note D = cells_okD(7) [OF ok]
  have "cells_is_empty c i" if "i < cells_size c" "cells_used_max_p1 c \<le> i" for i
  proof (rule ccontr)
    assume "\<not> cells_is_empty c i"
    with that(1) D have "i \<in> kc_used c" by (simp add: cells_size_def cells_is_empty_def)
    with finite_used [OF ok] that(2) show False
      by (auto simp: cells_used_max_p1_def Suc_le_eq split: if_splits dest: Max_ge)
  qed
  moreover have "cells_get_used c = card {i. i < cells_size c \<and> \<not> cells_is_empty c i}"
    using D by (simp add: cells_get_used_def cells_size_def cells_is_empty_def)
  ultimately show ?thesis using cells_seq_pos_min_eq [OF ok] cells_seq_pos_max_eq [OF ok] by blast
qed

definition cells_demo :: llama_kv_cells where
  "cells_demo = cells_seq_add 1 2 (cells_pos_set 1 7 (cells_seq_add 0 2 (cells_pos_set 0 5 (cells_resize 3 cells_new))))"

lemma cells_demo_reach: "cells_reach cells_demo"
proof -
  let ?c = "cells_pos_set 0 5 (cells_resize 3 cells_new)"
  have "cells_reach ?c"
    by (intro cells_reach.intros) (simp_all add: cells_size_def cells_resize_def cells_reset_def cells_new_def vec_resize_def Let_def)
  then have "cells_reach (cells_pos_set 1 7 (cells_seq_add 0 2 ?c))"
    by (intro cells_reach.intros)
      (simp_all add: cells_size_def cells_resize_def cells_reset_def cells_new_def vec_resize_def Let_def LLAMA_MAX_SEQ_def)
  then show ?thesis
    unfolding cells_demo_def
    by (intro cells_reach.intros)
      (simp_all add: cells_size_def cells_resize_def cells_reset_def cells_new_def vec_resize_def Let_def LLAMA_MAX_SEQ_def)
qed

theorem cells_queries_exact_witness:
  "cells_seq_pos_min cells_demo 2 = (if seq_positions cells_demo 2 = {} then -1 else Min (seq_positions cells_demo 2)) \<and>
   seq_positions cells_demo 2 = {5, 7} \<and> cells_used_max_p1 cells_demo = 2"
proof -
  have f: "kc_pos cells_demo = [5, 7, -1]" "kc_seq cells_demo = [{2}, {2}, {}]" "kc_used cells_demo = {0, 1}"
    by (simp_all add: cells_demo_def cells_resize_def cells_reset_def cells_new_def vec_resize_def Let_def
        numeral_eq_Suc insert_commute)
  have "seq_positions cells_demo 2 = {5, 7}"
    by (force simp: seq_positions_def f less_Suc_eq)
  then show ?thesis
    using cells_queries_exact [OF cells_demo_reach, of 2] by (simp add: f cells_used_max_p1_def)
qed

text \<open>
  Saving cells with \<open>cp\<close> and writing them back with \<open>set\<close> undoes every change made to
  those cells in between: if the two objects agree outside the saved indices and on the shifts,
  the restored object is the original one, its used set and per-sequence index included.
\<close>

lemma cells_cp_set_restores:
  assumes "cells_reach c" "cells_reach d" "distinct js" "\<forall>i \<in> set js. i < cells_size c"
    and "cells_size d = cells_size c" "kc_shift d = kc_shift c" "kc_has_shift d = kc_has_shift c"
    and "\<forall>i < cells_size c. i \<notin> set js \<longrightarrow>
      kc_pos d ! i = kc_pos c ! i \<and> kc_seq d ! i = kc_seq c ! i \<and> kc_ext d ! i = kc_ext c ! i"
  shows "cells_set_idxs js (cells_cp_idxs js c) d = c"
  using assms by (intro cells_restore) (auto simp: cells_reach_ok cells_size_def)

lemma all_nat_less_3: "(\<forall>i < Suc (Suc (Suc 0)). P i) \<longleftrightarrow> P 0 \<and> P 1 \<and> P 2"
  by (auto simp: less_Suc_eq numeral_2_eq_2)

lemma cells_cp_set_restores_witness:
  "cells_set_idxs [1] (cells_cp_idxs [1] cells_demo) (cells_rm 1 cells_demo) = cells_demo"
proof -
  have f: "kc_pos cells_demo = [5, 7, -1]" "kc_shift cells_demo = [0, 0, 0]" "kc_seq cells_demo = [{2}, {2}, {}]"
    by (simp_all add: cells_demo_def cells_resize_def cells_reset_def cells_new_def vec_resize_def Let_def numeral_eq_Suc)
  have "cells_reach (cells_rm 1 cells_demo)"
    by (rule reach_rm [OF cells_demo_reach]) (simp_all add: f cells_size_def)
  from cells_cp_set_restores [OF cells_demo_reach this, of "[1]"] show ?thesis
    by (simp add: f cells_size_def nth_list_update all_nat_less_3)
qed

end
