(* ===== verification/Batch.thy ===== *)
theory Batch
  imports Prelude
begin

text \<open>
  The batch allocator (src/src/llama-batch.cpp, src/src/llama-batch.h): validation and completion
  of a user batch, and its split into micro-batches.

  A pointer of the C structs that may be null is an \<open>option\<close>, the array behind it a list; the
  floats of embeddings are only moved by \<open>memcpy\<close> and are modelled by their 32 bits. A
  \<open>std::bitset\<close> of sequences is the set of its bits, \<open>seq_set_map\<close> (an \<open>unordered_map\<close> read with
  \<open>operator[]\<close>) is a function with value \<open>[]\<close> on absent keys, \<open>seq_pos[s]\<close> the \<open>std::set\<close> of
  positions. \<open>init\<close> returns \<open>None\<close> where the code stops in \<open>GGML_ASSERT\<close> or dereferences a null
  pointer; otherwise the object and the boolean it returns.

  The memory the allocator asks for positions (\<open>llama_memory_i\<close>) is an argument: the pair of the
  functions \<open>seq_pos_min\<close> and \<open>seq_pos_max\<close>. What the allocator relies on is the locale
  \<open>seq_memory\<close>; the KV cache interprets it. Logging and \<open>ubatch_print\<close> are not modelled.
\<close>

section \<open>State\<close>

type_synonym float_bits = "32 word"
type_synonym seq_set = "nat set"

record llama_batch =
  b_n_tokens :: nat
  b_token :: "llama_token list option"
  b_embd :: "float_bits list option"
  b_pos :: "llama_pos list option"
  b_n_seq_id :: "nat list option"
  b_seq_id :: "llama_seq_id list list option"
  b_logits :: "int list option"

record llama_ubatch =
  ub_equal_seqs :: bool
  ub_n_tokens :: nat
  ub_n_seq_tokens :: nat
  ub_n_seqs :: nat
  ub_n_seqs_unq :: nat
  ub_n_pos :: nat
  ub_token :: "llama_token list option"
  ub_embd :: "float_bits list option"
  ub_pos :: "llama_pos list"
  ub_n_seq_id :: "nat list"
  ub_seq_id :: "nat list list"
  ub_seq_id_unq :: "nat list"
  ub_seq_idx :: "int list"
  ub_output :: "int list"

record llama_batch_allocr =
  ba_batch :: llama_batch
  ba_n_pos_per_embd :: nat
  ba_n_embd :: nat
  ba_n_seq_max :: nat
  ba_n_outputs :: nat
  ba_seq_id_unq :: "nat list"
  ba_seq_idx :: "int list"
  ba_has_cpl :: bool
  ba_seq_pos :: "nat \<Rightarrow> llama_pos set"
  ba_seq_cpl :: "nat \<Rightarrow> nat \<Rightarrow> bool"
  ba_seq_set :: "seq_set list"
  ba_seq_set_map :: "seq_set \<Rightarrow> nat list"
  ba_out_ids :: "nat list"
  ba_n_used :: nat
  ba_used :: "bool list"

type_synonym memory_pos = "(nat \<Rightarrow> llama_pos) \<times> (nat \<Rightarrow> llama_pos)"

definition batch_empty :: llama_batch where
  "batch_empty = \<lparr>b_n_tokens = 0, b_token = None, b_embd = None, b_pos = None, b_n_seq_id = None,
     b_seq_id = None, b_logits = None\<rparr>"

definition ubatch_empty :: llama_ubatch where
  "ubatch_empty = \<lparr>ub_equal_seqs = False, ub_n_tokens = 0, ub_n_seq_tokens = 0, ub_n_seqs = 0,
     ub_n_seqs_unq = 0, ub_n_pos = 0, ub_token = None, ub_embd = None, ub_pos = [], ub_n_seq_id = [],
     ub_seq_id = [], ub_seq_id_unq = [], ub_seq_idx = [], ub_output = []\<rparr>"

definition is_pos_2d :: "llama_ubatch \<Rightarrow> bool" where
  "is_pos_2d u \<longleftrightarrow> ub_n_pos u \<ge> 3"

definition batch_allocr_new :: "nat \<Rightarrow> llama_batch_allocr" where
  "batch_allocr_new n_pos = \<lparr>ba_batch = batch_empty, ba_n_pos_per_embd = n_pos, ba_n_embd = 0,
     ba_n_seq_max = 0, ba_n_outputs = 0, ba_seq_id_unq = [], ba_seq_idx = replicate LLAMA_MAX_SEQ (-1),
     ba_has_cpl = False, ba_seq_pos = (\<lambda>_. {}), ba_seq_cpl = (\<lambda>_ _. False), ba_seq_set = [],
     ba_seq_set_map = (\<lambda>_. []), ba_out_ids = [], ba_n_used = 0, ba_used = []\<rparr>"

definition batch_clear :: "llama_batch_allocr \<Rightarrow> llama_batch_allocr" where
  "batch_clear a = a\<lparr>ba_n_outputs := 0, ba_batch := batch_empty, ba_seq_id_unq := [],
     ba_seq_pos := (\<lambda>_. {}), ba_seq_cpl := (\<lambda>_ _. False), ba_seq_set := [],
     ba_seq_set_map := (\<lambda>_. []), ba_seq_idx := map (\<lambda>_. -1) (ba_seq_idx a)\<rparr>"

definition get_n_tokens :: "llama_batch_allocr \<Rightarrow> nat" where
  "get_n_tokens a = b_n_tokens (ba_batch a)"

definition split_reset :: "llama_batch_allocr \<Rightarrow> llama_batch_allocr" where
  "split_reset a = a\<lparr>ba_out_ids := [], ba_n_used := 0, ba_used := replicate (get_n_tokens a) False\<rparr>"

definition batch_seq_pos_min :: "llama_batch_allocr \<Rightarrow> nat \<Rightarrow> llama_pos" where
  "batch_seq_pos_min a s = (if ba_seq_pos a s = {} then -1 else Min (ba_seq_pos a s))"

definition batch_seq_pos_max :: "llama_batch_allocr \<Rightarrow> nat \<Rightarrow> llama_pos" where
  "batch_seq_pos_max a s = (if ba_seq_pos a s = {} then -1 else Max (ba_seq_pos a s))"

section \<open>Reading a batch\<close>

text \<open>\<open>seq_id[i][0..n_seq_id[i]]\<close> and \<open>seq_id[i][0]\<close> of a completed batch.\<close>

definition tok_seqs :: "llama_batch \<Rightarrow> nat \<Rightarrow> nat list" where
  "tok_seqs b i = map nat (take (the (b_n_seq_id b) ! i) (the (b_seq_id b) ! i))"

definition tok_seq0 :: "llama_batch \<Rightarrow> nat \<Rightarrow> nat" where
  "tok_seq0 b i = nat (the (b_seq_id b) ! i ! 0)"

section \<open>Validation of the input\<close>

definition tokens_valid :: "llama_batch \<Rightarrow> nat \<Rightarrow> bool" where
  "tokens_valid b n_vocab \<longleftrightarrow>
     (case b_token b of None \<Rightarrow> True
      | Some ts \<Rightarrow> list_all (\<lambda>i. \<not> (ts ! i < 0 \<or> ts ! i \<ge> int n_vocab)) [0..<b_n_tokens b])"

text \<open>The loop over \<open>seq_id\<close> reads \<open>n_seq_id\<close> without a null check.\<close>

definition seq_ids_valid :: "llama_batch \<Rightarrow> nat \<Rightarrow> bool option" where
  "seq_ids_valid b n_seq_max =
     (case b_seq_id b of None \<Rightarrow> Some True
      | Some ids \<Rightarrow>
          (case b_n_seq_id b of None \<Rightarrow> None
           | Some ns \<Rightarrow> Some (list_all (\<lambda>i. list_all (\<lambda>s. \<not> (ids ! i ! s < 0 \<or> ids ! i ! s \<ge> int n_seq_max))
                [0..<ns ! i]) [0..<b_n_tokens b])))"

section \<open>Completion of missing fields\<close>

definition fill_n_seq_id :: "llama_batch \<Rightarrow> llama_batch" where
  "fill_n_seq_id b = (case b_n_seq_id b of None \<Rightarrow> b\<lparr>b_n_seq_id := Some (replicate (b_n_tokens b) 1)\<rparr> | Some _ \<Rightarrow> b)"

definition fill_seq_id :: "llama_batch \<Rightarrow> llama_batch" where
  "fill_seq_id b = (case b_seq_id b of None \<Rightarrow> b\<lparr>b_seq_id := Some (replicate (b_n_tokens b) [0])\<rparr> | Some _ \<Rightarrow> b)"

definition start_pos :: "memory_pos option \<Rightarrow> nat \<Rightarrow> llama_pos" where
  "start_pos memory s = (case memory of None \<Rightarrow> 0 | Some (_, pos_max) \<Rightarrow> pos_max s + 1)"

fun gen_pos :: "llama_batch \<Rightarrow> (nat \<Rightarrow> llama_pos) \<Rightarrow> nat list \<Rightarrow> llama_pos list" where
  "gen_pos b p0 [] = []"
| "gen_pos b p0 (i # is) =
     (let p = p0 (tok_seq0 b i);
          p0' = fold (\<lambda>s p0. p0(s := p + 1)) (tok_seqs b i) p0
      in p # gen_pos b p0' is)"

definition fill_pos :: "memory_pos option \<Rightarrow> llama_batch \<Rightarrow> llama_batch" where
  "fill_pos memory b =
     (case b_pos b of Some _ \<Rightarrow> b
      | None \<Rightarrow> b\<lparr>b_pos := Some (gen_pos b (start_pos memory) [0..<b_n_tokens b])\<rparr>)"

definition fill_logits :: "bool \<Rightarrow> llama_batch \<Rightarrow> llama_batch" where
  "fill_logits output_all b =
     (let n = b_n_tokens b in
      case b_logits b of
        None \<Rightarrow>
          (if output_all then b\<lparr>b_logits := Some (replicate n 1)\<rparr>
           else b\<lparr>b_logits := Some ((replicate n 0)[n - 1 := 1])\<rparr>)
      | Some ls \<Rightarrow>
          (if output_all \<and> list_ex (\<lambda>i. ls ! i = 0) [0..<n]
           then b\<lparr>b_logits := Some (replicate n 1)\<rparr> else b))"

section \<open>Statistics of the batch\<close>

definition count_outputs :: "llama_batch \<Rightarrow> nat" where
  "count_outputs b = fold (\<lambda>i n. if the (b_logits b) ! i \<noteq> 0 then n + 1 else n) [0..<b_n_tokens b] 0"

definition couple_step :: "llama_batch \<Rightarrow> nat \<Rightarrow> nat \<Rightarrow> llama_batch_allocr \<Rightarrow> llama_batch_allocr" where
  "couple_step b i k a =
     (let s0 = tok_seq0 b i; s1 = tok_seqs b i ! k;
          a = a\<lparr>ba_seq_pos := (ba_seq_pos a)(s1 := insert (the (b_pos b) ! i) (ba_seq_pos a s1))\<rparr>
      in if k > 0
         then a\<lparr>ba_seq_cpl := (ba_seq_cpl a)(s1 := (ba_seq_cpl a s1)(s0 := True)), ba_has_cpl := True\<rparr>
         else a)"

definition couple_seqs :: "llama_batch \<Rightarrow> llama_batch_allocr \<Rightarrow> llama_batch_allocr" where
  "couple_seqs b a =
     fold (\<lambda>i. fold (couple_step b i) [0..<length (tok_seqs b i)]) [0..<b_n_tokens b]
       (a\<lparr>ba_has_cpl := False\<rparr>)"

definition seq_sets_step :: "llama_batch \<Rightarrow> nat \<Rightarrow> llama_batch_allocr \<Rightarrow> llama_batch_allocr" where
  "seq_sets_step b i a =
     (let cur = set (tok_seqs b i)
      in a\<lparr>ba_seq_set := ba_seq_set a @ [cur],
           ba_seq_set_map := (ba_seq_set_map a)(cur := ba_seq_set_map a cur @ [i])\<rparr>)"

text \<open>The numbering of the sequences that occur, used by \<open>init\<close> and \<open>ubatch_add\<close>.\<close>

definition unq_step :: "seq_set \<Rightarrow> nat \<Rightarrow> int list \<times> nat list \<Rightarrow> int list \<times> nat list" where
  "unq_step unq s = (\<lambda>(idx, ids). if s \<in> unq then (idx[s := int (length ids)], ids @ [s]) else (idx, ids))"

definition seq_sets :: "llama_batch \<Rightarrow> nat \<Rightarrow> llama_batch_allocr \<Rightarrow> llama_batch_allocr" where
  "seq_sets b n_seq_max a =
     (let a = fold (seq_sets_step b) [0..<b_n_tokens b] a;
          unq = \<Union> (set (map (\<lambda>i. set (tok_seqs b i)) [0..<b_n_tokens b]));
          (idx, ids) = fold (unq_step unq) [0..<n_seq_max] (ba_seq_idx a, ba_seq_id_unq a)
      in a\<lparr>ba_seq_idx := idx, ba_seq_id_unq := ids\<rparr>)"

section \<open>Consistency checks\<close>

definition mem_pos_max :: "memory_pos option \<Rightarrow> nat \<Rightarrow> llama_pos" where
  "mem_pos_max memory s = (case memory of None \<Rightarrow> -1 | Some (_, pos_max) \<Rightarrow> pos_max s)"

definition pos_consistent :: "memory_pos option \<Rightarrow> llama_batch_allocr \<Rightarrow> nat \<Rightarrow> bool" where
  "pos_consistent memory a s =
     (if ba_seq_pos a s = {} then True
      else let p0 = mem_pos_max memory s in
        if ba_n_pos_per_embd a > 1 then
          (case b_token (ba_batch a) of
             Some _ \<Rightarrow> \<not> (p0 \<ge> 0 \<and> p0 \<ge> batch_seq_pos_min a s)
           | None \<Rightarrow> \<not> (p0 \<ge> 0 \<and> p0 > batch_seq_pos_min a s))
        else if p0 \<ge> 0 \<and> batch_seq_pos_min a s \<noteq> p0 + 1 then False
        else \<not> (batch_seq_pos_max a s - batch_seq_pos_min a s + 1 > int (card (ba_seq_pos a s))))"

definition coupled_agree :: "memory_pos option \<Rightarrow> llama_batch_allocr \<Rightarrow> bool" where
  "coupled_agree memory a =
     (case memory of None \<Rightarrow> True
      | Some (pos_min, pos_max) \<Rightarrow>
          list_all (\<lambda>s0. list_all (\<lambda>s1.
            \<not> (ba_seq_cpl a s0 s1 \<and> (pos_min s0 \<noteq> pos_min s1 \<or> pos_max s0 \<noteq> pos_max s1)))
            [0..<ba_n_seq_max a]) [0..<ba_n_seq_max a])"

text \<open>The running intersection of the sequence sets and the last position, per sequence.\<close>

fun order_seqs :: "seq_set \<Rightarrow> llama_pos \<Rightarrow> nat list \<Rightarrow> (nat \<Rightarrow> seq_set) \<Rightarrow> (nat \<Rightarrow> llama_pos) \<Rightarrow>
    ((nat \<Rightarrow> seq_set) \<times> (nat \<Rightarrow> llama_pos)) option" where
  "order_seqs S p [] cs cp = Some (cs, cp)"
| "order_seqs S p (s # ss) cs cp =
     (let cs = cs(s := cs s \<inter> S)
      in if cs s = {} then None
         else if p < cp s then None
         else order_seqs S p ss cs (cp(s := p)))"

fun order_toks :: "llama_batch \<Rightarrow> seq_set list \<Rightarrow> nat list \<Rightarrow> (nat \<Rightarrow> seq_set) \<Rightarrow> (nat \<Rightarrow> llama_pos) \<Rightarrow> bool" where
  "order_toks b sets [] cs cp = True"
| "order_toks b sets (i # is) cs cp =
     (case order_seqs (sets ! i) (the (b_pos b) ! i) (tok_seqs b i) cs cp of
        None \<Rightarrow> False
      | Some (cs, cp) \<Rightarrow> order_toks b sets is cs cp)"

definition seqs_ordered :: "llama_batch_allocr \<Rightarrow> bool" where
  "seqs_ordered a =
     order_toks (ba_batch a) (ba_seq_set a) [0..<get_n_tokens a] (\<lambda>_. {..<LLAMA_MAX_SEQ}) (\<lambda>_. -1)"

section \<open>\<open>init\<close>\<close>

definition batch_init ::
  "llama_batch \<Rightarrow> nat \<Rightarrow> memory_pos option \<Rightarrow> nat \<Rightarrow> nat \<Rightarrow> bool \<Rightarrow> llama_batch_allocr \<Rightarrow>
   (llama_batch_allocr \<times> bool) option" where
  "batch_init inp n_vocab memory n_embd n_seq_max output_all a =
     (let a = (batch_clear a)\<lparr>ba_batch := inp\<rparr> in
      if b_n_tokens inp = 0 then None
      else if n_seq_max > LLAMA_MAX_SEQ then Some (a, False)
      else if \<not> tokens_valid inp n_vocab then Some (a, False)
      else case seq_ids_valid inp n_seq_max of
        None \<Rightarrow> None
      | Some False \<Rightarrow> Some (a, False)
      | Some True \<Rightarrow>
          (let b = fill_logits output_all (fill_pos memory (fill_seq_id (fill_n_seq_id inp)));
               a = a\<lparr>ba_batch := b, ba_n_embd := n_embd, ba_n_seq_max := n_seq_max,
                     ba_n_outputs := ba_n_outputs a + count_outputs b\<rparr>;
               a = seq_sets b n_seq_max (couple_seqs b a)
           in if \<not> list_all (pos_consistent memory a) [0..<n_seq_max] then Some (a, False)
              else if \<not> coupled_agree memory a then Some (a, False)
              else if \<not> seqs_ordered a then Some (a, False)
              else Some (split_reset a, True)))"

section \<open>Micro-batches\<close>

definition ubatch_pos :: "llama_batch \<Rightarrow> nat \<Rightarrow> nat list \<Rightarrow> llama_pos list" where
  "ubatch_pos b n_pos idxs =
     concat (map (\<lambda>j. map (\<lambda>i. the (b_pos b) ! ((if b_token b \<noteq> None then 0 else j * b_n_tokens b) + i)) idxs)
       [0..<n_pos])"

definition ubatch_add :: "nat list \<Rightarrow> nat \<Rightarrow> bool \<Rightarrow> llama_batch_allocr \<Rightarrow> llama_batch_allocr \<times> llama_ubatch" where
  "ubatch_add idxs n_seqs equal_seqs a =
     (let b = ba_batch a; n = length idxs;
          output = map (\<lambda>i. the (b_logits b) ! i) idxs;
          unq = \<Union> (set (map (\<lambda>i. set (tok_seqs b i)) idxs));
          (idx, ids) = fold (unq_step unq) [0..<ba_n_seq_max a] (replicate LLAMA_MAX_SEQ (-1), [])
      in (a\<lparr>ba_out_ids := ba_out_ids a @ filter (\<lambda>i. the (b_logits b) ! i \<noteq> 0) idxs\<rparr>,
          \<lparr>ub_equal_seqs = equal_seqs, ub_n_tokens = n, ub_n_seq_tokens = n div n_seqs, ub_n_seqs = n_seqs,
           ub_n_seqs_unq = length ids, ub_n_pos = ba_n_pos_per_embd a,
           ub_token = map_option (\<lambda>ts. map (\<lambda>i. ts ! i) idxs) (b_token b),
           ub_embd = map_option (\<lambda>e. concat (map (\<lambda>i. take (ba_n_embd a) (drop (i * ba_n_embd a) e)) idxs)) (b_embd b),
           ub_pos = ubatch_pos b (ba_n_pos_per_embd a) idxs,
           ub_n_seq_id = map (\<lambda>i. the (b_n_seq_id b) ! i) idxs,
           ub_seq_id = map (tok_seqs b) idxs,
           ub_seq_id_unq = ids, ub_seq_idx = idx, ub_output = output\<rparr>))"

definition ubatch_reserve :: "nat \<Rightarrow> nat \<Rightarrow> llama_batch_allocr \<Rightarrow> llama_batch_allocr \<times> llama_ubatch" where
  "ubatch_reserve n_seq_tokens n_seqs a =
     (let n = n_seq_tokens * n_seqs;
          (idx, ids) = fold (\<lambda>s (idx, ids). (idx[s := int s], ids @ [s])) [0..<n_seqs] (replicate LLAMA_MAX_SEQ (-1), [])
      in (split_reset (batch_clear a),
          \<lparr>ub_equal_seqs = True, ub_n_tokens = n, ub_n_seq_tokens = n_seq_tokens, ub_n_seqs = n_seqs,
           ub_n_seqs_unq = n_seqs, ub_n_pos = ba_n_pos_per_embd a, ub_token = Some (replicate n 0),
           ub_embd = None, ub_pos = replicate (n * ba_n_pos_per_embd a) 0, ub_n_seq_id = replicate n 0,
           ub_seq_id = replicate n [], ub_seq_id_unq = ids, ub_seq_idx = idx, ub_output = replicate n 0\<rparr>))"

section \<open>Splits\<close>

text \<open>\<open>used[i] = true; ++n_used\<close> and its undo.\<close>

definition use_tok :: "nat \<Rightarrow> llama_batch_allocr \<Rightarrow> llama_batch_allocr" where
  "use_tok i a = a\<lparr>ba_used := (ba_used a)[i := True], ba_n_used := ba_n_used a + 1\<rparr>"

definition unuse_tok :: "nat \<Rightarrow> llama_batch_allocr \<Rightarrow> llama_batch_allocr" where
  "unuse_tok i a = a\<lparr>ba_used := (ba_used a)[i := False], ba_n_used := ba_n_used a - 1\<rparr>"

fun first_unused :: "bool list \<Rightarrow> nat" where
  "first_unused [] = 0"
| "first_unused (u # us) = (if u then Suc (first_unused us) else 0)"

subsection \<open>\<open>split_simple\<close>\<close>

function simple_loop :: "nat \<Rightarrow> nat \<Rightarrow> nat list \<Rightarrow> llama_batch_allocr \<Rightarrow> nat list \<times> llama_batch_allocr" where
  "simple_loop n_ubatch cur idxs a =
     (let idxs = idxs @ [cur]; a' = use_tok cur a; cur = cur + 1
      in if cur \<ge> length (ba_used a) then (idxs, a')
         else if length idxs \<ge> n_ubatch then (idxs, a')
         else simple_loop n_ubatch cur idxs a')"
  by pat_completeness auto
termination
  by (relation "measure (\<lambda>(_, cur, _, a). length (ba_used a) - cur)") (auto simp: use_tok_def)

declare simple_loop.simps [simp del]

definition split_simple :: "nat \<Rightarrow> llama_batch_allocr \<Rightarrow> llama_batch_allocr \<times> llama_ubatch" where
  "split_simple n_ubatch a =
     (let cur = first_unused (ba_used a)
      in if cur \<ge> length (ba_used a) then (a, ubatch_empty)
         else let (idxs, a) = simple_loop n_ubatch cur [] a
              in ubatch_add idxs (length idxs) False a)"

subsection \<open>\<open>split_equal\<close>\<close>

text \<open>The sequence sets of the micro-batch, with the loop's \<open>last_seq_id\<close>.\<close>

fun pick_sets :: "llama_batch_allocr \<Rightarrow> nat \<Rightarrow> bool \<Rightarrow> nat list \<Rightarrow> seq_set list \<Rightarrow> int \<Rightarrow> seq_set list" where
  "pick_sets a n_ubatch sequential [] sets last_id = sets"
| "pick_sets a n_ubatch sequential (i # is) sets last_id =
     (if ba_used a ! i then pick_sets a n_ubatch sequential is sets last_id
      else
        let add = list_all (\<lambda>S. S \<inter> ba_seq_set a ! i = {}) sets;
            add = (if sequential then add \<and> (sets = [] \<or> int (tok_seq0 (ba_batch a) i) = last_id + 1) else add)
        in if add then
             (let sets = sets @ [ba_seq_set a ! i]; last_id = int (tok_seq0 (ba_batch a) i)
              in if length sets > n_ubatch then sets else pick_sets a n_ubatch sequential is sets last_id)
           else pick_sets a n_ubatch sequential is sets last_id)"

text \<open>The first unused token of a sequence set, as an index into its token list.\<close>

definition set_start :: "llama_batch_allocr \<Rightarrow> seq_set \<Rightarrow> nat" where
  "set_start a S = first_unused (map (\<lambda>i. ba_used a ! i) (ba_seq_set_map a S))"

record split_state =
  sp_cur :: "nat list"
  sp_idxs :: "nat list list"
  sp_a :: llama_batch_allocr

definition take_one :: "seq_set list \<Rightarrow> nat \<Rightarrow> split_state \<Rightarrow> split_state" where
  "take_one sets s st =
     (let i = ba_seq_set_map (sp_a st) (sets ! s) ! (sp_cur st ! s)
      in st\<lparr>sp_idxs := (sp_idxs st)[s := sp_idxs st ! s @ [i]], sp_a := use_tok i (sp_a st),
            sp_cur := (sp_cur st)[s := sp_cur st ! s + 1]\<rparr>)"

definition can_expand :: "seq_set list \<Rightarrow> split_state \<Rightarrow> bool" where
  "can_expand sets st =
     list_all (\<lambda>s. sp_cur st ! s < length (ba_seq_set_map (sp_a st) (sets ! s))) [0..<length sets]"

lemma fold_take_one_map:
  "ba_seq_set_map (sp_a (fold (take_one sets) ss st)) = ba_seq_set_map (sp_a st)"
  by (induction ss arbitrary: st) (simp_all add: take_one_def use_tok_def Let_def)

lemma fold_take_one_len: "length (sp_cur (fold (take_one sets) ss st)) = length (sp_cur st)"
  by (induction ss arbitrary: st) (simp_all add: take_one_def Let_def)

lemma fold_take_one_cur:
  "distinct ss \<Longrightarrow> s < length (sp_cur st) \<Longrightarrow>
   sp_cur (fold (take_one sets) ss st) ! s = (if s \<in> set ss then sp_cur st ! s + 1 else sp_cur st ! s)"
proof (induction ss arbitrary: st)
  case (Cons t ss)
  let ?st = "take_one sets t st"
  have "s < length (sp_cur ?st)" using Cons.prems by (simp add: take_one_def Let_def)
  from Cons.IH [OF _ this] Cons.prems show ?case
    by (cases "s = t") (auto simp: take_one_def Let_def)
qed simp

text \<open>
  The expansion loop: one token of every set per round. The measure is what is left of the
  first set; \<open>cur_idx\<close> has one entry per set.
\<close>

function equal_loop :: "seq_set list \<Rightarrow> nat \<Rightarrow> split_state \<Rightarrow> split_state" where
  "equal_loop sets n_ubatch st =
     (if sets = [] \<or> length (sp_cur st) \<noteq> length sets then st
      else if \<not> can_expand sets st then st
      else let st' = fold (take_one sets) [0..<length sets] st
           in if (length (sp_idxs st' ! 0) + 1) * length sets > n_ubatch then st'
              else equal_loop sets n_ubatch st')"
  by pat_completeness auto
termination
proof (relation "measure (\<lambda>(sets, _, st). length (ba_seq_set_map (sp_a st) (sets ! 0)) - sp_cur st ! 0)", goal_cases)
  case (2 sets n_ubatch st st')
  then have l: "0 < length sets" "0 < length (sp_cur st)" by auto
  then have "sp_cur st ! 0 < length (ba_seq_set_map (sp_a st) (sets ! 0))"
    using 2 by (simp add: can_expand_def list_all_iff)
  then show ?case
    using 2 l fold_take_one_cur [of "[0..<length sets]" 0 st sets] by (simp add: fold_take_one_map)
qed simp

declare equal_loop.simps [simp del]

definition n_remaining :: "seq_set list \<Rightarrow> split_state \<Rightarrow> nat \<Rightarrow> nat" where
  "n_remaining sets st s = length (ba_seq_set_map (sp_a st) (sets ! s)) - sp_cur st ! s"

definition keep_prefix :: "seq_set list \<Rightarrow> split_state \<Rightarrow> nat \<Rightarrow> nat" where
  "keep_prefix sets st n_keep_tail =
     length (takeWhile (\<lambda>s. \<not> (n_remaining sets st s \<noteq> 0 \<and> n_remaining sets st s < n_keep_tail)) [0..<length sets])"

text \<open>
  \<open>while (n_remaining(0) > 0)\<close> takes the rest of the first set; \<open>while (n_remaining(0) < n_keep_tail)\<close>
  gives tokens back.
\<close>

definition extend_seq :: "seq_set list \<Rightarrow> split_state \<Rightarrow> split_state" where
  "extend_seq sets st = (take_one sets 0 ^^ n_remaining sets st 0) st"

definition give_back :: "split_state \<Rightarrow> split_state" where
  "give_back st = st\<lparr>sp_a := unuse_tok (last (sp_idxs st ! 0)) (sp_a st),
     sp_idxs := (sp_idxs st)[0 := butlast (sp_idxs st ! 0)],
     sp_cur := (sp_cur st)[0 := sp_cur st ! 0 - 1]\<rparr>"

definition truncate_seq :: "seq_set list \<Rightarrow> nat \<Rightarrow> split_state \<Rightarrow> split_state" where
  "truncate_seq sets n_keep_tail st = (give_back ^^ (n_keep_tail - n_remaining sets st 0)) st"

text \<open>The \<open>n_keep_tail\<close> block; \<open>None\<close> is its \<open>GGML_ASSERT\<close>.\<close>

definition keep_tail :: "seq_set list \<Rightarrow> nat \<Rightarrow> nat \<Rightarrow> split_state \<Rightarrow> (split_state \<times> nat) option" where
  "keep_tail sets n_ubatch n_keep_tail st =
     (if n_keep_tail = 0 then Some (st, length sets)
      else if \<not> n_ubatch > n_keep_tail then None
      else
        let n_keep = keep_prefix sets st n_keep_tail;
            (st, n_keep) =
              (if n_keep = 0 then
                 (if length (sp_idxs st ! 0) + n_remaining sets st 0 \<le> n_ubatch
                  then extend_seq sets st else truncate_seq sets n_keep_tail st, 1)
               else (st, n_keep));
            st = fold (\<lambda>s st. st\<lparr>sp_a := fold unuse_tok (sp_idxs st ! s) (sp_a st)\<rparr>) [n_keep..<length sets] st
        in Some (st, n_keep))"

definition split_equal ::
  "nat \<Rightarrow> bool \<Rightarrow> nat \<Rightarrow> llama_batch_allocr \<Rightarrow> (llama_batch_allocr \<times> llama_ubatch) option" where
  "split_equal n_ubatch sequential n_keep_tail a =
     (if sequential \<and> ba_has_cpl a then Some (a, ubatch_empty)
      else
        let sets = pick_sets a n_ubatch sequential [0..<get_n_tokens a] [] (-1)
        in if sets = [] then Some (a, ubatch_empty)
           else
             let st = \<lparr>sp_cur = map (set_start a) sets, sp_idxs = replicate (length sets) [], sp_a = a\<rparr>;
                 st = equal_loop sets n_ubatch st
             in case keep_tail sets n_ubatch n_keep_tail st of
                  None \<Rightarrow> None
                | Some (st, n_keep) \<Rightarrow>
                    Some (ubatch_add (concat (take n_keep (sp_idxs st))) n_keep True (sp_a st)))"

subsection \<open>\<open>split_seq\<close>\<close>

text \<open>The inner \<open>do .. while\<close>: the next unused token whose set is a subset of the current set.\<close>

function next_subset :: "llama_batch_allocr \<Rightarrow> seq_set \<Rightarrow> nat \<Rightarrow> nat" where
  "next_subset a S cur =
     (let cur = cur + 1
      in if cur < get_n_tokens a \<and> (ba_used a ! cur \<or> S \<inter> ba_seq_set a ! cur \<noteq> ba_seq_set a ! cur)
         then next_subset a S cur else cur)"
  by pat_completeness auto
termination by (relation "measure (\<lambda>(a, _, cur). get_n_tokens a - cur)") auto

declare next_subset.simps [simp del]

lemma next_subset_gt: "cur < next_subset a S cur"
proof (induction a S cur rule: next_subset.induct)
  case (1 a S cur)
  from 1 [OF refl] show ?case by (subst next_subset.simps) (simp add: Let_def, blast dest: Suc_lessD)
qed

function seq_loop :: "nat \<Rightarrow> seq_set \<Rightarrow> nat \<Rightarrow> nat list \<Rightarrow> llama_batch_allocr \<Rightarrow> nat list \<times> llama_batch_allocr" where
  "seq_loop n_ubatch S cur idxs a =
     (let idxs = idxs @ [cur]; a = use_tok cur a
      in if length idxs \<ge> n_ubatch then (idxs, a)
         else let cur = next_subset a S cur
              in if cur \<ge> get_n_tokens a then (idxs, a)
                 else seq_loop n_ubatch (ba_seq_set a ! cur) cur idxs a)"
  by pat_completeness auto
termination
proof (relation "measure (\<lambda>(_, _, cur, _, a). get_n_tokens a - cur)", goal_cases)
  case (2 n_ubatch S cur idxs a idxs' a' cur')
  then show ?case using next_subset_gt [of cur a' S] by (auto simp: use_tok_def get_n_tokens_def)
qed simp

declare seq_loop.simps [simp del]

definition split_seq :: "nat \<Rightarrow> llama_batch_allocr \<Rightarrow> llama_batch_allocr \<times> llama_ubatch" where
  "split_seq n_ubatch a =
     (let cur = first_unused (ba_used a)
      in if cur \<ge> length (ba_used a) then (a, ubatch_empty)
         else let (idxs, a) = seq_loop n_ubatch (ba_seq_set a ! cur) cur [] a
              in ubatch_add idxs 1 True a)"

section \<open>What \<open>init\<close> computes\<close>

lemma couple_step_fields [simp]:
  "ba_batch (couple_step b i k a) = ba_batch a" "ba_n_pos_per_embd (couple_step b i k a) = ba_n_pos_per_embd a"
  "ba_n_embd (couple_step b i k a) = ba_n_embd a" "ba_n_seq_max (couple_step b i k a) = ba_n_seq_max a"
  "ba_n_outputs (couple_step b i k a) = ba_n_outputs a" "ba_seq_set (couple_step b i k a) = ba_seq_set a"
  "ba_seq_set_map (couple_step b i k a) = ba_seq_set_map a" "ba_seq_idx (couple_step b i k a) = ba_seq_idx a"
  "ba_seq_id_unq (couple_step b i k a) = ba_seq_id_unq a" "ba_out_ids (couple_step b i k a) = ba_out_ids a"
  "ba_n_used (couple_step b i k a) = ba_n_used a" "ba_used (couple_step b i k a) = ba_used a"
  "ba_seq_pos (couple_step b i k a) s =
     (if s = tok_seqs b i ! k then insert (the (b_pos b) ! i) (ba_seq_pos a s) else ba_seq_pos a s)"
  "ba_seq_cpl (couple_step b i k a) s t \<longleftrightarrow>
     ba_seq_cpl a s t \<or> (k > 0 \<and> s = tok_seqs b i ! k \<and> t = tok_seq0 b i)"
  "ba_has_cpl (couple_step b i k a) \<longleftrightarrow> ba_has_cpl a \<or> k > 0"
  by (auto simp: couple_step_def Let_def)

lemma couple_tok_fields:
  "ba_seq_pos (fold (couple_step b i) ks a) s =
     (if \<exists>k \<in> set ks. s = tok_seqs b i ! k then insert (the (b_pos b) ! i) (ba_seq_pos a s) else ba_seq_pos a s)"
  "ba_seq_cpl (fold (couple_step b i) ks a) s t \<longleftrightarrow>
     ba_seq_cpl a s t \<or> (\<exists>k \<in> set ks. k > 0 \<and> s = tok_seqs b i ! k \<and> t = tok_seq0 b i)"
  "ba_has_cpl (fold (couple_step b i) ks a) \<longleftrightarrow> ba_has_cpl a \<or> (\<exists>k \<in> set ks. k > 0)"
  by (induction ks arbitrary: a) auto

lemma fold_couple_step_same [simp]:
  "ba_batch (fold (couple_step b i) ks a) = ba_batch a" "ba_n_pos_per_embd (fold (couple_step b i) ks a) = ba_n_pos_per_embd a"
  "ba_n_embd (fold (couple_step b i) ks a) = ba_n_embd a" "ba_n_seq_max (fold (couple_step b i) ks a) = ba_n_seq_max a"
  "ba_n_outputs (fold (couple_step b i) ks a) = ba_n_outputs a" "ba_seq_set (fold (couple_step b i) ks a) = ba_seq_set a"
  "ba_seq_set_map (fold (couple_step b i) ks a) = ba_seq_set_map a" "ba_seq_idx (fold (couple_step b i) ks a) = ba_seq_idx a"
  "ba_seq_id_unq (fold (couple_step b i) ks a) = ba_seq_id_unq a" "ba_out_ids (fold (couple_step b i) ks a) = ba_out_ids a"
  "ba_n_used (fold (couple_step b i) ks a) = ba_n_used a" "ba_used (fold (couple_step b i) ks a) = ba_used a"
  by (induction ks arbitrary: a) simp_all

lemma fold_fold_couple_step_same [simp]:
  "ba_batch (fold (\<lambda>i. fold (couple_step b i) (f i)) is a) = ba_batch a" "ba_n_pos_per_embd (fold (\<lambda>i. fold (couple_step b i) (f i)) is a) = ba_n_pos_per_embd a"
  "ba_n_embd (fold (\<lambda>i. fold (couple_step b i) (f i)) is a) = ba_n_embd a" "ba_n_seq_max (fold (\<lambda>i. fold (couple_step b i) (f i)) is a) = ba_n_seq_max a"
  "ba_n_outputs (fold (\<lambda>i. fold (couple_step b i) (f i)) is a) = ba_n_outputs a" "ba_seq_set (fold (\<lambda>i. fold (couple_step b i) (f i)) is a) = ba_seq_set a"
  "ba_seq_set_map (fold (\<lambda>i. fold (couple_step b i) (f i)) is a) = ba_seq_set_map a" "ba_seq_idx (fold (\<lambda>i. fold (couple_step b i) (f i)) is a) = ba_seq_idx a"
  "ba_seq_id_unq (fold (\<lambda>i. fold (couple_step b i) (f i)) is a) = ba_seq_id_unq a" "ba_out_ids (fold (\<lambda>i. fold (couple_step b i) (f i)) is a) = ba_out_ids a"
  "ba_n_used (fold (\<lambda>i. fold (couple_step b i) (f i)) is a) = ba_n_used a" "ba_used (fold (\<lambda>i. fold (couple_step b i) (f i)) is a) = ba_used a"
  by (induction "is" arbitrary: a) simp_all

lemma couple_seqs_same [simp]:
  "ba_batch (couple_seqs b a) = ba_batch a" "ba_n_pos_per_embd (couple_seqs b a) = ba_n_pos_per_embd a"
  "ba_n_embd (couple_seqs b a) = ba_n_embd a" "ba_n_seq_max (couple_seqs b a) = ba_n_seq_max a"
  "ba_n_outputs (couple_seqs b a) = ba_n_outputs a" "ba_seq_set (couple_seqs b a) = ba_seq_set a"
  "ba_seq_set_map (couple_seqs b a) = ba_seq_set_map a" "ba_seq_idx (couple_seqs b a) = ba_seq_idx a"
  "ba_seq_id_unq (couple_seqs b a) = ba_seq_id_unq a" "ba_out_ids (couple_seqs b a) = ba_out_ids a"
  "ba_n_used (couple_seqs b a) = ba_n_used a" "ba_used (couple_seqs b a) = ba_used a"
  by (simp_all add: couple_seqs_def)

definition seq_toks :: "llama_batch \<Rightarrow> nat \<Rightarrow> nat set" where
  "seq_toks b s = {i. i < b_n_tokens b \<and> s \<in> set (tok_seqs b i)}"

lemma couple_seqs_pos:
  assumes "ba_seq_pos a s = {}"
  shows "ba_seq_pos (couple_seqs b a) s = (\<lambda>i. the (b_pos b) ! i) ` seq_toks b s"
proof -
  have *: "ba_seq_pos (fold (\<lambda>i. fold (couple_step b i) [0..<length (tok_seqs b i)]) is a) s =
     ba_seq_pos a s \<union> (\<lambda>i. the (b_pos b) ! i) ` {i \<in> set is. s \<in> set (tok_seqs b i)}" for a "is"
  proof (induction "is" arbitrary: a)
    case (Cons i "is")
    have "(\<exists>k \<in> set [0..<length (tok_seqs b i)]. s = tok_seqs b i ! k) \<longleftrightarrow> s \<in> set (tok_seqs b i)"
      by (auto simp: in_set_conv_nth)
    then show ?case by (auto simp: Cons.IH couple_tok_fields)
  qed simp
  show ?thesis unfolding couple_seqs_def using assms by (auto simp: * seq_toks_def)
qed

lemma couple_seqs_cpl:
  assumes "\<And>s t. \<not> ba_seq_cpl a s t"
  shows "ba_has_cpl (couple_seqs b a) \<longleftrightarrow> (\<exists>i < b_n_tokens b. 1 < length (tok_seqs b i))"
    and "ba_seq_cpl (couple_seqs b a) s t \<longleftrightarrow> (\<exists>i < b_n_tokens b. s \<in> set (tl (tok_seqs b i)) \<and> t = tok_seq0 b i)"
proof -
  have tl: "(\<exists>k \<in> set [0..<length xs]. 0 < k \<and> s = xs ! k \<and> P) \<longleftrightarrow> s \<in> set (tl xs) \<and> P" for xs and P
  proof (cases xs)
    case (Cons y ys)
    have "(\<exists>k < Suc n. 0 < k \<and> Q k) \<longleftrightarrow> (\<exists>m < n. Q (Suc m))" for n and Q :: "nat \<Rightarrow> bool"
      by (auto simp: gr0_conv_Suc)
    from this [of "length ys" "\<lambda>k. s = xs ! k \<and> P"]
    have "(\<exists>k < length xs. 0 < k \<and> s = xs ! k \<and> P) \<longleftrightarrow> (\<exists>m < length ys. s = ys ! m \<and> P)"
      by (simp add: Cons)
    moreover have "(\<exists>m < length ys. s = ys ! m \<and> P) \<longleftrightarrow> s \<in> set (tl xs) \<and> P"
      unfolding Cons list.sel in_set_conv_nth by blast
    ultimately show ?thesis by (simp add: Bex_def)
  qed simp
  have has: "ba_has_cpl (fold (\<lambda>i. fold (couple_step b i) [0..<length (tok_seqs b i)]) is a) \<longleftrightarrow>
     ba_has_cpl a \<or> (\<exists>i \<in> set is. 1 < length (tok_seqs b i))" for a "is"
  proof (induction "is" arbitrary: a)
    case (Cons i "is")
    have "(\<exists>k \<in> set [0..<length (tok_seqs b i)]. 0 < k) \<longleftrightarrow> 1 < length (tok_seqs b i)" by auto
    then show ?case by (auto simp: Cons.IH couple_tok_fields)
  qed simp
  have cpl: "ba_seq_cpl (fold (\<lambda>i. fold (couple_step b i) [0..<length (tok_seqs b i)]) is a) s t \<longleftrightarrow>
     ba_seq_cpl a s t \<or> (\<exists>i \<in> set is. s \<in> set (tl (tok_seqs b i)) \<and> t = tok_seq0 b i)" for a "is"
  proof (induction "is" arbitrary: a)
    case (Cons i "is")
    have "ba_seq_cpl (fold (couple_step b i) [0..<length (tok_seqs b i)] a) s t \<longleftrightarrow>
        ba_seq_cpl a s t \<or> (s \<in> set (tl (tok_seqs b i)) \<and> t = tok_seq0 b i)"
      by (simp only: couple_tok_fields tl)
    then show ?case by (auto simp: Cons.IH)
  qed simp
  show "ba_has_cpl (couple_seqs b a) \<longleftrightarrow> (\<exists>i < b_n_tokens b. 1 < length (tok_seqs b i))"
    unfolding couple_seqs_def by (auto simp: has)
  show "ba_seq_cpl (couple_seqs b a) s t \<longleftrightarrow> (\<exists>i < b_n_tokens b. s \<in> set (tl (tok_seqs b i)) \<and> t = tok_seq0 b i)"
    unfolding couple_seqs_def using assms by (auto simp: cpl)
qed

lemma seq_sets_fold:
  "ba_seq_set (fold (seq_sets_step b) is a) = ba_seq_set a @ map (\<lambda>i. set (tok_seqs b i)) is"
  "ba_seq_set_map (fold (seq_sets_step b) is a) S = ba_seq_set_map a S @ filter (\<lambda>i. set (tok_seqs b i) = S) is"
  by (induction "is" arbitrary: a) (simp_all add: seq_sets_step_def Let_def)

lemma seq_sets_fold_same [simp]:
  "ba_batch (fold (seq_sets_step b) is a) = ba_batch a"
  "ba_n_pos_per_embd (fold (seq_sets_step b) is a) = ba_n_pos_per_embd a"
  "ba_n_embd (fold (seq_sets_step b) is a) = ba_n_embd a"
  "ba_n_seq_max (fold (seq_sets_step b) is a) = ba_n_seq_max a"
  "ba_n_outputs (fold (seq_sets_step b) is a) = ba_n_outputs a"
  "ba_has_cpl (fold (seq_sets_step b) is a) = ba_has_cpl a"
  "ba_seq_pos (fold (seq_sets_step b) is a) = ba_seq_pos a"
  "ba_seq_cpl (fold (seq_sets_step b) is a) = ba_seq_cpl a"
  "ba_out_ids (fold (seq_sets_step b) is a) = ba_out_ids a"
  "ba_n_used (fold (seq_sets_step b) is a) = ba_n_used a"
  "ba_used (fold (seq_sets_step b) is a) = ba_used a"
  by (induction "is" arbitrary: a) (simp_all add: seq_sets_step_def Let_def)

lemma seq_sets_fields [simp]:
  "ba_batch (seq_sets b n a) = ba_batch a"
  "ba_n_pos_per_embd (seq_sets b n a) = ba_n_pos_per_embd a"
  "ba_n_embd (seq_sets b n a) = ba_n_embd a"
  "ba_n_seq_max (seq_sets b n a) = ba_n_seq_max a"
  "ba_n_outputs (seq_sets b n a) = ba_n_outputs a"
  "ba_has_cpl (seq_sets b n a) = ba_has_cpl a"
  "ba_seq_pos (seq_sets b n a) = ba_seq_pos a"
  "ba_seq_cpl (seq_sets b n a) = ba_seq_cpl a"
  "ba_out_ids (seq_sets b n a) = ba_out_ids a"
  "ba_n_used (seq_sets b n a) = ba_n_used a"
  "ba_used (seq_sets b n a) = ba_used a"
  "ba_seq_set (seq_sets b n a) = ba_seq_set a @ map (\<lambda>i. set (tok_seqs b i)) [0..<b_n_tokens b]"
  "ba_seq_set_map (seq_sets b n a) S = ba_seq_set_map a S @ filter (\<lambda>i. set (tok_seqs b i) = S) [0..<b_n_tokens b]"
  by (simp_all add: seq_sets_def Let_def case_prod_beta seq_sets_fold)

lemma order_seqs_Some:
  "order_seqs S p ss cs cp = Some (cs', cp') \<longleftrightarrow>
    (\<forall>s \<in> set ss. cs s \<inter> S \<noteq> {} \<and> cp s \<le> p) \<and>
    cs' = (\<lambda>s. if s \<in> set ss then cs s \<inter> S else cs s) \<and> cp' = (\<lambda>s. if s \<in> set ss then p else cp s)"
  by (induction ss arbitrary: cs cp) (auto simp: Let_def fun_eq_iff)

lemma order_toks_sound:
  assumes "order_toks b sets is cs cp"
  shows "(\<forall>i \<in> set is. \<forall>s \<in> set (tok_seqs b i). cp s \<le> the (b_pos b) ! i) \<and>
    sorted_wrt (\<lambda>i j. set (tok_seqs b i) \<inter> set (tok_seqs b j) \<noteq> {} \<longrightarrow> the (b_pos b) ! i \<le> the (b_pos b) ! j) is \<and>
    (\<forall>i \<in> set is. \<forall>s \<in> set (tok_seqs b i).
       cs s \<inter> (\<Inter>j \<in> {j \<in> set is. s \<in> set (tok_seqs b j)}. sets ! j) \<noteq> {})"
  using assms
proof (induction "is" arbitrary: cs cp)
  case (Cons i "is")
  let ?T = "\<lambda>i. set (tok_seqs b i)" and ?p = "\<lambda>i. the (b_pos b) ! i"
  let ?cs = "\<lambda>s. if s \<in> ?T i then cs s \<inter> sets ! i else cs s" and ?cp = "\<lambda>s. if s \<in> ?T i then ?p i else cp s"
  from Cons.prems have first: "\<forall>s \<in> ?T i. cs s \<inter> sets ! i \<noteq> {} \<and> cp s \<le> ?p i"
    and rest: "order_toks b sets is ?cs ?cp"
    by (auto simp: order_seqs_Some split: option.splits)
  note IH = Cons.IH [OF rest]
  have le: "?p i \<le> ?p j" if "j \<in> set is" "s \<in> ?T i" "s \<in> ?T j" for j s
    using IH that by fastforce
  have lo: "cp s \<le> ?p j" if "j \<in> set is" "s \<in> ?T j" for j s
    using IH that first le [OF that(1) _ that(2)] by (cases "s \<in> ?T i") fastforce+
  have "cs s \<inter> (\<Inter>j \<in> {j \<in> set (i # is). s \<in> ?T j}. sets ! j) \<noteq> {}" if s: "j \<in> set (i # is)" "s \<in> ?T j" for j s
  proof (cases "\<exists>k \<in> set is. s \<in> ?T k")
    case True
    then have "?cs s \<inter> (\<Inter>j \<in> {j \<in> set is. s \<in> ?T j}. sets ! j) \<noteq> {}" using IH by blast
    then show ?thesis by (cases "s \<in> ?T i") (auto simp: Collect_conv_if2 conj_disj_distribR Collect_disj_eq)
  next
    case False
    with s have "s \<in> ?T i" by auto
    with False have "{j \<in> set (i # is). s \<in> ?T j} = {i}" by auto
    then show ?thesis using first \<open>s \<in> ?T i\<close> by simp
  qed
  then show ?case using IH first le lo by (auto simp: disjoint_iff)
qed simp

lemma order_toks_complete:
  assumes "\<forall>i \<in> set is. \<forall>s \<in> set (tok_seqs b i). cp s \<le> the (b_pos b) ! i"
    and "sorted_wrt (\<lambda>i j. set (tok_seqs b i) \<inter> set (tok_seqs b j) \<noteq> {} \<longrightarrow> the (b_pos b) ! i \<le> the (b_pos b) ! j) is"
    and "\<forall>i \<in> set is. \<forall>s \<in> set (tok_seqs b i).
       cs s \<inter> (\<Inter>j \<in> {j \<in> set is. s \<in> set (tok_seqs b j)}. sets ! j) \<noteq> {}"
  shows "order_toks b sets is cs cp"
  using assms
proof (induction "is" arbitrary: cs cp)
  case (Cons i "is")
  let ?T = "\<lambda>i. set (tok_seqs b i)" and ?p = "\<lambda>i. the (b_pos b) ! i"
  let ?cs = "\<lambda>s. if s \<in> ?T i then cs s \<inter> sets ! i else cs s" and ?cp = "\<lambda>s. if s \<in> ?T i then ?p i else cp s"
  have C: "cs s \<inter> (\<Inter>j \<in> {j \<in> set (i # is). s \<in> ?T j}. sets ! j) \<noteq> {}" if "j \<in> set (i # is)" "s \<in> ?T j" for j s
    using Cons.prems(3) that by blast
  have first: "\<forall>s \<in> ?T i. cs s \<inter> sets ! i \<noteq> {} \<and> cp s \<le> ?p i"
  proof
    fix s assume s: "s \<in> ?T i"
    then have "(\<Inter>j \<in> {j \<in> set (i # is). s \<in> ?T j}. sets ! j) \<subseteq> sets ! i" by (intro INF_lower) auto
    then show "cs s \<inter> sets ! i \<noteq> {} \<and> cp s \<le> ?p i" using C [OF _ s] Cons.prems(1) s by auto
  qed
  have "order_toks b sets is ?cs ?cp"
  proof (rule Cons.IH)
    show "\<forall>j \<in> set is. \<forall>s \<in> ?T j. ?cp s \<le> ?p j" using Cons.prems(1,2) by auto
    show "sorted_wrt (\<lambda>i j. ?T i \<inter> ?T j \<noteq> {} \<longrightarrow> ?p i \<le> ?p j) is" using Cons.prems(2) by simp
    show "\<forall>j \<in> set is. \<forall>s \<in> ?T j. ?cs s \<inter> (\<Inter>j \<in> {j \<in> set is. s \<in> ?T j}. sets ! j) \<noteq> {}"
    proof (intro ballI)
      fix j s assume "j \<in> set is" "s \<in> ?T j"
      then have "cs s \<inter> (\<Inter>j \<in> {j \<in> set (i # is). s \<in> ?T j}. sets ! j) \<noteq> {}" using C by auto
      moreover have "cs s \<inter> (\<Inter>j \<in> {j \<in> set (i # is). s \<in> ?T j}. sets ! j) \<subseteq>
          ?cs s \<inter> (\<Inter>j \<in> {j \<in> set is. s \<in> ?T j}. sets ! j)"
        by auto
      ultimately show "?cs s \<inter> (\<Inter>j \<in> {j \<in> set is. s \<in> ?T j}. sets ! j) \<noteq> {}" by blast
    qed
  qed
  with first show ?case by (auto simp: order_seqs_Some split: option.splits)
qed simp

section \<open>The state after a successful \<open>init\<close>\<close>

definition completed :: "llama_batch \<Rightarrow> memory_pos option \<Rightarrow> bool \<Rightarrow> llama_batch" where
  "completed inp memory output_all = fill_logits output_all (fill_pos memory (fill_seq_id (fill_n_seq_id inp)))"

lemma completed_n_tokens [simp]: "b_n_tokens (completed inp memory oa) = b_n_tokens inp"
  "b_token (completed inp memory oa) = b_token inp"
  by (auto simp: completed_def fill_logits_def fill_pos_def fill_seq_id_def fill_n_seq_id_def Let_def split: option.splits)

lemma split_reset_same [simp]:
  "ba_batch (split_reset a) = ba_batch a"
  "ba_n_pos_per_embd (split_reset a) = ba_n_pos_per_embd a"
  "ba_n_embd (split_reset a) = ba_n_embd a"
  "ba_n_seq_max (split_reset a) = ba_n_seq_max a"
  "ba_n_outputs (split_reset a) = ba_n_outputs a"
  "ba_seq_set (split_reset a) = ba_seq_set a"
  "ba_seq_set_map (split_reset a) = ba_seq_set_map a"
  "ba_seq_idx (split_reset a) = ba_seq_idx a"
  "ba_seq_id_unq (split_reset a) = ba_seq_id_unq a"
  "ba_has_cpl (split_reset a) = ba_has_cpl a"
  "ba_seq_pos (split_reset a) = ba_seq_pos a"
  "ba_seq_cpl (split_reset a) = ba_seq_cpl a"
  by (simp_all add: split_reset_def)

lemma split_reset_checks [simp]:
  "pos_consistent memory (split_reset a) s = pos_consistent memory a s"
  "coupled_agree memory (split_reset a) = coupled_agree memory a"
  "seqs_ordered (split_reset a) = seqs_ordered a"
  unfolding pos_consistent_def coupled_agree_def seqs_ordered_def
    get_n_tokens_def batch_seq_pos_min_def batch_seq_pos_max_def split_reset_same
  by (rule refl)+

lemma batch_init_True:
  assumes "batch_init inp n_vocab memory n_embd n_seq_max oa a0 = Some (a, True)"
  shows "ba_batch a = completed inp memory oa" "ba_n_seq_max a = n_seq_max" "0 < b_n_tokens inp"
    "n_seq_max \<le> LLAMA_MAX_SEQ" "tokens_valid inp n_vocab" "seq_ids_valid inp n_seq_max = Some True"
    "ba_n_pos_per_embd a = ba_n_pos_per_embd a0" "ba_n_embd a = n_embd"
    "ba_seq_set a = map (\<lambda>i. set (tok_seqs (ba_batch a) i)) [0..<get_n_tokens a]"
    "ba_seq_set_map a S = filter (\<lambda>i. set (tok_seqs (ba_batch a) i) = S) [0..<get_n_tokens a]"
    "ba_seq_pos a s = (\<lambda>i. the (b_pos (ba_batch a)) ! i) ` seq_toks (ba_batch a) s"
    "ba_has_cpl a \<longleftrightarrow> (\<exists>i < get_n_tokens a. 1 < length (tok_seqs (ba_batch a) i))"
    "ba_seq_cpl a s t \<longleftrightarrow>
       (\<exists>i < get_n_tokens a. s \<in> set (tl (tok_seqs (ba_batch a) i)) \<and> t = tok_seq0 (ba_batch a) i)"
    "\<forall>s < n_seq_max. pos_consistent memory a s" "coupled_agree memory a" "seqs_ordered a"
    "ba_used a = replicate (get_n_tokens a) False" "ba_n_used a = 0" "ba_out_ids a = []"
proof -
  let ?b = "completed inp memory oa"
  let ?c = "(batch_clear a0)\<lparr>ba_batch := ?b, ba_n_embd := n_embd, ba_n_seq_max := n_seq_max,
      ba_n_outputs := ba_n_outputs (batch_clear a0) + count_outputs ?b\<rparr>"
  let ?a = "seq_sets ?b n_seq_max (couple_seqs ?b ?c)"
  have c0: "ba_seq_pos ?c s = {}" "\<not> ba_seq_cpl ?c s t" "ba_seq_set ?c = []" "ba_seq_set_map ?c S = []" for s t S
    by (simp_all add: batch_clear_def)
  have *: "a = split_reset ?a" and chk: "\<forall>s < n_seq_max. pos_consistent memory ?a s" "coupled_agree memory ?a"
      "seqs_ordered ?a"
    and inp: "0 < b_n_tokens inp" "n_seq_max \<le> LLAMA_MAX_SEQ" "tokens_valid inp n_vocab" "seq_ids_valid inp n_seq_max = Some True"
    using assms unfolding batch_init_def completed_def [symmetric]
    by (auto simp: Let_def list_all_iff split: if_splits option.splits bool.splits)
  have b: "ba_batch a = ?b" "get_n_tokens a = b_n_tokens ?b"
    by (simp_all add: * split_reset_def get_n_tokens_def)
  show "ba_batch a = completed inp memory oa" "ba_n_seq_max a = n_seq_max" "0 < b_n_tokens inp"
    "n_seq_max \<le> LLAMA_MAX_SEQ" "tokens_valid inp n_vocab" "seq_ids_valid inp n_seq_max = Some True"
    "ba_n_pos_per_embd a = ba_n_pos_per_embd a0" "ba_n_embd a = n_embd"
    "ba_used a = replicate (get_n_tokens a) False" "ba_n_used a = 0" "ba_out_ids a = []"
    "ba_seq_set a = map (\<lambda>i. set (tok_seqs (ba_batch a) i)) [0..<get_n_tokens a]"
    "ba_seq_set_map a S = filter (\<lambda>i. set (tok_seqs (ba_batch a) i) = S) [0..<get_n_tokens a]"
    using inp by (simp_all add: * split_reset_def get_n_tokens_def c0) (simp_all add: batch_clear_def)
  show "ba_seq_pos a s = (\<lambda>i. the (b_pos (ba_batch a)) ! i) ` seq_toks (ba_batch a) s"
    using couple_seqs_pos [OF c0(1), of ?b s] by (simp add: b) (simp add: * split_reset_def)
  show "ba_has_cpl a \<longleftrightarrow> (\<exists>i < get_n_tokens a. 1 < length (tok_seqs (ba_batch a) i))"
    "ba_seq_cpl a s t \<longleftrightarrow>
       (\<exists>i < get_n_tokens a. s \<in> set (tl (tok_seqs (ba_batch a) i)) \<and> t = tok_seq0 (ba_batch a) i)"
    using couple_seqs_cpl [OF c0(2), of ?b] by (simp_all add: b) (simp_all add: * split_reset_def)
  show "\<forall>s < n_seq_max. pos_consistent memory a s" "coupled_agree memory a" "seqs_ordered a"
    using chk by (simp_all only: * split_reset_checks)
qed


section \<open>Generated positions\<close>

text \<open>Every token belongs to exactly one sequence (no field, or one entry per token).\<close>

definition single_seq :: "llama_batch \<Rightarrow> bool" where
  "single_seq inp \<longleftrightarrow> (\<forall>i < b_n_tokens inp. length (tok_seqs (fill_seq_id (fill_n_seq_id inp)) i) = 1)"

definition seq_cnt :: "llama_batch \<Rightarrow> nat \<Rightarrow> nat \<Rightarrow> nat" where
  "seq_cnt b s k = card {j. j < k \<and> tok_seq0 b j = s}"

lemma seq_cnt_0 [simp]: "seq_cnt b s 0 = 0" by (simp add: seq_cnt_def)

lemma seq_cnt_Suc [simp]: "seq_cnt b s (Suc k) = (if tok_seq0 b k = s then Suc (seq_cnt b s k) else seq_cnt b s k)"
proof -
  have "{j. j < Suc k \<and> tok_seq0 b j = s} =
      (if tok_seq0 b k = s then insert k {j. j < k \<and> tok_seq0 b j = s} else {j. j < k \<and> tok_seq0 b j = s})"
    by (auto simp: less_Suc_eq)
  then show ?thesis by (simp add: seq_cnt_def)
qed

lemma seq_cnt_mono: "i \<le> j \<Longrightarrow> seq_cnt b s i \<le> seq_cnt b s j"
  by (induction j) (auto simp: le_Suc_eq)

lemma seq_cnt_image: "seq_cnt b s ` {i. i < n \<and> tok_seq0 b i = s} = {..<seq_cnt b s n}"
proof (induction n)
  case (Suc n)
  have "{i. i < Suc n \<and> tok_seq0 b i = s} =
      (if tok_seq0 b n = s then insert n {i. i < n \<and> tok_seq0 b i = s} else {i. i < n \<and> tok_seq0 b i = s})"
    by (auto simp: less_Suc_eq)
  then show ?case using Suc by (auto simp: lessThan_Suc)
qed simp

lemma tok_seqs_single: "length (tok_seqs b i) = 1 \<Longrightarrow> tok_seqs b i = [tok_seq0 b i]"
proof -
  assume l: "length (tok_seqs b i) = 1"
  then obtain x xs where ids: "the (b_seq_id b) ! i = x # xs"
    by (cases "the (b_seq_id b) ! i") (auto simp: tok_seqs_def)
  with l obtain n where "the (b_n_seq_id b) ! i = Suc n"
    by (cases "the (b_n_seq_id b) ! i") (auto simp: tok_seqs_def)
  with l ids show ?thesis by (auto simp: tok_seqs_def tok_seq0_def min_def split: if_splits)
qed

lemma gen_pos_nth:
  assumes "\<forall>i < m + k. tok_seqs b i = [tok_seq0 b i]" "\<forall>s. p0 s = st s + int (seq_cnt b s m)"
  shows "length (gen_pos b p0 [m..<m + k]) = k \<and>
    (\<forall>i < k. gen_pos b p0 [m..<m + k] ! i = st (tok_seq0 b (m + i)) + int (seq_cnt b (tok_seq0 b (m + i)) (m + i)))"
  using assms
proof (induction k arbitrary: m p0)
  case (Suc k)
  let ?s = "tok_seq0 b m"
  let ?q = "p0(?s := p0 ?s + 1)"
  have t: "tok_seqs b m = [?s]" using Suc.prems(1) by simp
  have q: "\<forall>s. ?q s = st s + int (seq_cnt b s (Suc m))" using Suc.prems(2) by simp
  have p1: "\<forall>i < Suc m + k. tok_seqs b i = [tok_seq0 b i]" using Suc.prems(1) by simp
  have IH: "length (gen_pos b ?q [Suc m..<Suc m + k]) = k"
    "\<And>i. i < k \<Longrightarrow> gen_pos b ?q [Suc m..<Suc m + k] ! i =
      st (tok_seq0 b (Suc m + i)) + int (seq_cnt b (tok_seq0 b (Suc m + i)) (Suc m + i))"
    using Suc.IH [OF p1 q] by blast+
  have eq: "gen_pos b p0 [m..<m + Suc k] = p0 ?s # gen_pos b ?q [Suc m..<Suc m + k]"
    using t by (subst upt_conv_Cons) (simp_all add: Let_def del: upt_Suc)
  show ?case
  proof (intro conjI allI impI)
    fix i assume "i < Suc k"
    then show "gen_pos b p0 [m..<m + Suc k] ! i = st (tok_seq0 b (m + i)) + int (seq_cnt b (tok_seq0 b (m + i)) (m + i))"
      using IH(2) [of "i - 1"] Suc.prems(2) unfolding eq by (cases i) simp_all
  qed (simp only: eq IH(1) list.size)
qed simp

lemma tok_seqs_fill [simp]:
  "tok_seqs (fill_logits oa b) = tok_seqs b" "tok_seqs (fill_pos memory b) = tok_seqs b"
  "tok_seq0 (fill_logits oa b) = tok_seq0 b" "tok_seq0 (fill_pos memory b) = tok_seq0 b"
  "b_pos (fill_logits oa b) = b_pos b"
  "b_n_tokens (fill_pos memory b) = b_n_tokens b" "b_n_tokens (fill_logits oa b) = b_n_tokens b"
  "b_n_tokens (fill_seq_id b) = b_n_tokens b" "b_n_tokens (fill_n_seq_id b) = b_n_tokens b"
  "b_pos (fill_seq_id b) = b_pos b" "b_pos (fill_n_seq_id b) = b_pos b"
  by (auto simp: fun_eq_iff tok_seqs_def tok_seq0_def fill_logits_def fill_pos_def fill_seq_id_def fill_n_seq_id_def Let_def
      split: option.splits)

lemma completed_pos:
  fixes memory :: "memory_pos option" and oa :: bool
  assumes "single_seq inp" "b_pos inp = None" "i < b_n_tokens inp"
  defines "b \<equiv> completed inp memory oa"
  shows "tok_seqs b i = [tok_seq0 b i]"
    "the (b_pos b) ! i = start_pos memory (tok_seq0 b i) + int (seq_cnt b (tok_seq0 b i) i)"
proof -
  let ?b = "fill_seq_id (fill_n_seq_id inp)"
  have one: "\<forall>i < b_n_tokens inp. tok_seqs ?b i = [tok_seq0 ?b i]"
    using assms(1) tok_seqs_single by (auto simp: single_seq_def)
  have eq: "tok_seqs b = tok_seqs ?b" "tok_seq0 b = tok_seq0 ?b" "seq_cnt b = seq_cnt ?b"
    by (simp_all add: b_def completed_def fun_eq_iff seq_cnt_def)
  show "tok_seqs b i = [tok_seq0 b i]" using one assms(3) by (simp add: eq)
  have "b_pos b = Some (gen_pos ?b (start_pos memory) [0..<b_n_tokens inp])"
    using assms(2) by (simp add: b_def completed_def fill_pos_def split: option.split)
  then show "the (b_pos b) ! i = start_pos memory (tok_seq0 b i) + int (seq_cnt b (tok_seq0 b i) i)"
    using gen_pos_nth [of 0 "b_n_tokens inp" ?b "start_pos memory" "start_pos memory"] one assms(3)
    by (simp add: eq)
qed


lemma completed_seq_pos:
  fixes memory :: "memory_pos option" and oa :: bool
  assumes "single_seq inp" "b_pos inp = None"
  defines "b \<equiv> completed inp memory oa"
  shows "(\<lambda>i. the (b_pos b) ! i) ` seq_toks b s = (\<lambda>k. start_pos memory s + int k) ` {..<seq_cnt b s (b_n_tokens b)}"
proof -
  note P = completed_pos [OF assms(1,2), of _ memory oa, folded b_def]
  have n: "b_n_tokens b = b_n_tokens inp" by (simp add: b_def)
  have toks: "seq_toks b s = {i. i < b_n_tokens b \<and> tok_seq0 b i = s}"
    using P(1) by (auto simp: seq_toks_def n)
  have "(\<lambda>i. the (b_pos b) ! i) ` seq_toks b s = (\<lambda>i. start_pos memory s + int (seq_cnt b s i)) ` seq_toks b s"
    using P(2) by (intro image_cong) (auto simp: toks n)
  then show ?thesis by (simp add: seq_cnt_image [symmetric] image_image toks)
qed

lemma Min_Max_shift:
  assumes "0 < n"
  shows "Min ((\<lambda>k. p + int k) ` {..<n}) = p" "Max ((\<lambda>k. p + int k) ` {..<n}) = p + int n - 1"
    "card ((\<lambda>k. p + int k) ` {..<n}) = n"
proof -
  show "Min ((\<lambda>k. p + int k) ` {..<n}) = p"
    using assms by (intro Min_eqI) (auto intro!: image_eqI [of _ _ 0])
  show "Max ((\<lambda>k. p + int k) ` {..<n}) = p + int n - 1"
    using assms by (intro Max_eqI) (auto intro!: image_eqI [of _ _ "n - 1"])
  show "card ((\<lambda>k. p + int k) ` {..<n}) = n" by (subst card_image) (auto simp: inj_on_def)
qed

lemma pos_consistent_shift:
  assumes pos: "ba_seq_pos a s = (\<lambda>k. st + int k) ` {..<n}"
    and st: "0 \<le> mem_pos_max memory s \<Longrightarrow> st = mem_pos_max memory s + 1"
  shows "pos_consistent memory a s"
proof (cases "n = 0")
  case False
  then have n: "0 < n" by simp
  have ne: "ba_seq_pos a s \<noteq> {}" using n by (auto simp: pos)
  have "batch_seq_pos_min a s = st" "batch_seq_pos_max a s = st + int n - 1" "card (ba_seq_pos a s) = n"
    using Min_Max_shift [OF n, of st] ne by (simp_all add: batch_seq_pos_min_def batch_seq_pos_max_def pos)
  then show ?thesis using st ne by (auto simp: pos_consistent_def Let_def split: option.split)
qed (simp add: pos_consistent_def pos)

lemma batch_init_accepts:
  assumes "single_seq inp" "b_pos inp = None" "0 < b_n_tokens inp" "n_seq_max \<le> LLAMA_MAX_SEQ"
    and ids: "\<forall>i < b_n_tokens inp. tok_seq0 (fill_seq_id (fill_n_seq_id inp)) i < LLAMA_MAX_SEQ"
    and "seq_ids_valid inp n_seq_max = Some v"
    and mem: "\<forall>s. -1 \<le> mem_pos_max memory s"
  shows "\<exists>a. batch_init inp n_vocab memory n_embd n_seq_max oa a0 = Some (a, tokens_valid inp n_vocab \<and> v)"
proof (cases "tokens_valid inp n_vocab \<and> v")
  case False
  then show ?thesis using assms by (auto simp: batch_init_def Let_def not_less split: bool.split)
next
  case True
  let ?b = "completed inp memory oa"
  let ?c = "(batch_clear a0)\<lparr>ba_batch := ?b, ba_n_embd := n_embd, ba_n_seq_max := n_seq_max,
      ba_n_outputs := ba_n_outputs (batch_clear a0) + count_outputs ?b\<rparr>"
  let ?a = "seq_sets ?b n_seq_max (couple_seqs ?b ?c)"
  let ?st = "start_pos memory"
  note P = completed_pos [OF assms(1,2), of _ memory oa]
  have c0: "ba_seq_pos ?c s = {}" "\<not> ba_seq_cpl ?c s t" "ba_seq_set ?c = []" for s t
    by (simp_all add: batch_clear_def)
  have n: "b_n_tokens ?b = b_n_tokens inp" by simp
  have pos: "ba_seq_pos ?a s = (\<lambda>k. ?st s + int k) ` {..<seq_cnt ?b s (b_n_tokens ?b)}" for s
    using couple_seqs_pos [OF c0(1), of ?b s] completed_seq_pos [OF assms(1,2), of memory oa s]
    by simp
  have "pos_consistent memory ?a s" for s
    by (rule pos_consistent_shift [OF pos]) (auto simp: mem_pos_max_def start_pos_def split: option.splits)
  moreover have "\<not> ba_seq_cpl ?a s t" for s t
  proof -
    have "\<not> (\<exists>i < b_n_tokens ?b. s \<in> set (tl (tok_seqs ?b i)) \<and> t = tok_seq0 ?b i)" using P(1) n by auto
    then show ?thesis using couple_seqs_cpl(2) [OF c0(2), of ?b s t] by simp
  qed
  then have "coupled_agree memory ?a" by (auto simp: coupled_agree_def list_all_iff split: option.split)
  moreover have "seqs_ordered ?a"
    unfolding seqs_ordered_def
  proof (rule order_toks_complete)
    have ge: "0 \<le> ?st s" for s using mem by (auto simp: mem_pos_max_def start_pos_def split: option.splits dest: spec [of _ s])
    have nt: "get_n_tokens ?a = b_n_tokens inp" "ba_batch ?a = ?b"
      by (simp_all add: get_n_tokens_def)
    show "\<forall>i \<in> set [0..<get_n_tokens ?a]. \<forall>s \<in> set (tok_seqs (ba_batch ?a) i). -1 \<le> the (b_pos (ba_batch ?a)) ! i"
      using P(2) ge unfolding nt by (auto intro: order_trans [of _ 0] add_nonneg_nonneg)
    show "sorted_wrt (\<lambda>i j. set (tok_seqs (ba_batch ?a) i) \<inter> set (tok_seqs (ba_batch ?a) j) \<noteq> {} \<longrightarrow>
        the (b_pos (ba_batch ?a)) ! i \<le> the (b_pos (ba_batch ?a)) ! j) [0..<get_n_tokens ?a]"
      using P unfolding nt by (auto simp: sorted_wrt_iff_nth_less seq_cnt_mono)
    have bc: "ba_seq_set (batch_clear a0) = []" by (simp add: batch_clear_def)
    have tok0: "tok_seq0 ?b i < LLAMA_MAX_SEQ" if "i < b_n_tokens inp" for i
      using ids that by (simp add: completed_def)
    have "tok_seq0 ?b i \<in> {..<LLAMA_MAX_SEQ} \<inter> (\<Inter>j \<in> {j \<in> set [0..<b_n_tokens inp]. tok_seq0 ?b i \<in> set (tok_seqs ?b j)}. ba_seq_set ?a ! j)"
      if "i < b_n_tokens inp" for i
      using tok0 [OF that] by (auto simp: bc)
    then show "\<forall>i \<in> set [0..<get_n_tokens ?a]. \<forall>s \<in> set (tok_seqs (ba_batch ?a) i).
        {..<LLAMA_MAX_SEQ} \<inter> (\<Inter>j \<in> {j \<in> set [0..<get_n_tokens ?a]. s \<in> set (tok_seqs (ba_batch ?a) j)}. ba_seq_set ?a ! j) \<noteq> {}"
      using P(1) unfolding nt by fastforce
  qed
  ultimately show ?thesis
    using True assms unfolding batch_init_def completed_def [symmetric]
    by (auto simp: Let_def list_all_iff not_less)
qed

text \<open>
  Completion always produces an acceptable batch: a batch without positions whose
  tokens have one sequence each passes every consistency check, whatever the memory already
  holds, so \<open>init\<close> returns true exactly when the tokens, sequence ids and limits are valid.
\<close>

lemma batch_init_completed_accepted:
  assumes "single_seq inp" "b_pos inp = None" "0 < b_n_tokens inp" "n_seq_max \<le> LLAMA_MAX_SEQ"
    and "\<forall>i < b_n_tokens inp. tok_seq0 (fill_seq_id (fill_n_seq_id inp)) i < LLAMA_MAX_SEQ"
    and "seq_ids_valid inp n_seq_max = Some v"
    and "\<forall>s. -1 \<le> mem_pos_max memory s"
  shows "\<exists>a. batch_init inp n_vocab memory n_embd n_seq_max oa a0 = Some (a, tokens_valid inp n_vocab \<and> v)"
  using assms by (rule batch_init_accepts)

definition demo_batch :: llama_batch where
  "demo_batch = \<lparr>b_n_tokens = 3, b_token = Some [5, 6, 7], b_embd = None, b_pos = None,
     b_n_seq_id = Some [1, 1, 1], b_seq_id = Some [[0], [1], [0]], b_logits = None\<rparr>"

definition demo_memory :: "memory_pos option" where
  "demo_memory = Some (\<lambda>_. 3, \<lambda>_. 9)"

lemma all_less_3: "(\<forall>i < (3 :: nat). Q i) \<longleftrightarrow> Q 0 \<and> Q 1 \<and> Q 2"
  by (auto simp: numeral_3_eq_3 less_Suc_eq numeral_2_eq_2)

lemma demo_batch_ok: "single_seq demo_batch" "b_pos demo_batch = None" "0 < b_n_tokens demo_batch"
  "\<forall>i < b_n_tokens demo_batch. tok_seq0 (fill_seq_id (fill_n_seq_id demo_batch)) i < LLAMA_MAX_SEQ"
  "seq_ids_valid demo_batch 2 = Some True" "\<forall>s. -1 \<le> mem_pos_max demo_memory s" "tokens_valid demo_batch 8"
  "2 \<le> LLAMA_MAX_SEQ"
  by (simp_all add: demo_batch_def single_seq_def fill_seq_id_def fill_n_seq_id_def tok_seqs_def tok_seq0_def
      all_less_3 LLAMA_MAX_SEQ_def demo_memory_def mem_pos_max_def tokens_valid_def)
    (simp_all add: seq_ids_valid_def upt_rec)

lemma batch_init_completed_accepted_witness:
  "\<exists>a. batch_init demo_batch 8 demo_memory 0 2 False (batch_allocr_new 1) = Some (a, True)"
  using batch_init_completed_accepted [OF demo_batch_ok(1-3,8,4-6), of 8 0 False "batch_allocr_new 1"]
  by (simp add: demo_batch_ok(7))

text \<open>
  C14. What a successful \<open>init\<close> guarantees: the tokens of every sequence have consecutive
  positions (one position per embedding), which continue the memory's last position when it has
  one; they never decrease along the batch; and the sequence sets of all tokens of a sequence
  have a sequence in common.
\<close>

theorem batch_init_consistent:
  assumes "batch_init inp n_vocab memory n_embd n_seq_max oa a0 = Some (a, True)"
    and "ba_n_pos_per_embd a0 \<le> 1" "s < n_seq_max" "seq_toks (ba_batch a) s \<noteq> {}"
  defines "b \<equiv> ba_batch a" and "P \<equiv> (\<lambda>i. the (b_pos (ba_batch a)) ! i) ` seq_toks (ba_batch a) s"
  shows "P = {Min P..Max P} \<and> (0 \<le> mem_pos_max memory s \<longrightarrow> Min P = mem_pos_max memory s + 1) \<and> -1 \<le> Min P \<and>
    (\<forall>i \<in> seq_toks b s. \<forall>j \<in> seq_toks b s. i \<le> j \<longrightarrow> the (b_pos b) ! i \<le> the (b_pos b) ! j) \<and>
    (\<exists>t. \<forall>i \<in> seq_toks b s. t \<in> set (tok_seqs b i))"
proof -
  note I = batch_init_True [OF assms(1)]
  have nt: "get_n_tokens a = b_n_tokens b" by (simp add: get_n_tokens_def b_def)
  have fin: "finite P" "P \<noteq> {}" using assms(4) by (auto simp: P_def seq_toks_def)
  have pc: "pos_consistent memory a s" using I(14) assms(3) by blast
  have Pa: "ba_seq_pos a s = P" by (simp add: I(11) P_def)
  from pc assms(2) I(7) fin have c: "0 \<le> mem_pos_max memory s \<Longrightarrow> Min P = mem_pos_max memory s + 1"
    "Max P - Min P + 1 \<le> int (card P)"
    by (auto simp: pos_consistent_def Let_def Pa batch_seq_pos_min_def batch_seq_pos_max_def split: if_splits)
  have sub: "P \<subseteq> {Min P..Max P}" using fin by auto
  moreover have "card {Min P..Max P} = nat (Max P - Min P + 1)" by simp
  then have "card {Min P..Max P} \<le> card P" using c(2) by linarith
  ultimately have eq: "P = {Min P..Max P}" by (intro card_seteq) auto
  note o = order_toks_sound [OF I(16) [unfolded seqs_ordered_def], unfolded nt, folded b_def]
  have o1: "-1 \<le> the (b_pos b) ! i" if "i < b_n_tokens b" "t \<in> set (tok_seqs b i)" for i t
    using conjunct1 [OF o] that by auto
  have o2: "the (b_pos b) ! i \<le> the (b_pos b) ! j"
    if "i < j" "j < b_n_tokens b" "t \<in> set (tok_seqs b i)" "t \<in> set (tok_seqs b j)" for i j t
    using conjunct1 [OF conjunct2 [OF o]] that by (auto simp: sorted_wrt_iff_nth_less disjoint_iff)
  have o3: "(\<Inter>j \<in> {j \<in> set [0..<b_n_tokens b]. t \<in> set (tok_seqs b j)}. ba_seq_set a ! j) \<noteq> {}"
    if "i < b_n_tokens b" "t \<in> set (tok_seqs b i)" for i t
  proof -
    have "i \<in> set [0..<b_n_tokens b]" using that(1) by simp
    with conjunct2 [OF conjunct2 [OF o]] that(2) show ?thesis by blast
  qed
  have "Min P \<in> P" using fin by simp
  then have "-1 \<le> Min P" using o1 unfolding P_def b_def [symmetric] seq_toks_def by auto
  moreover have "the (b_pos b) ! i \<le> the (b_pos b) ! j" if "i \<in> seq_toks b s" "j \<in> seq_toks b s" "i \<le> j" for i j
    using o2 [of i j s] that by (cases "i = j") (auto simp: seq_toks_def)
  moreover obtain i where i: "i \<in> seq_toks b s" using assms(4) by (auto simp: b_def)
  have "(\<Inter>j \<in> {j \<in> set [0..<b_n_tokens b]. s \<in> set (tok_seqs b j)}. ba_seq_set a ! j) \<noteq> {}"
    using o3 [of i s] i by (simp add: seq_toks_def)
  then have "\<exists>t. \<forall>i \<in> seq_toks b s. t \<in> set (tok_seqs b i)"
    unfolding I(9) by (auto simp: seq_toks_def nt [symmetric] b_def get_n_tokens_def)
  ultimately show ?thesis using eq c(1) by blast
qed


theorem batch_init_consistent_witness:
  "\<exists>a. batch_init demo_batch 8 demo_memory 0 2 False (batch_allocr_new 1) = Some (a, True) \<and>
     Min ((\<lambda>i. the (b_pos (ba_batch a)) ! i) ` seq_toks (ba_batch a) 0) = 10"
proof -
  obtain a where a: "batch_init demo_batch 8 demo_memory 0 2 False (batch_allocr_new 1) = Some (a, True)"
    using batch_init_accepts [OF demo_batch_ok(1-3,8,4-6), of 8 0 False "batch_allocr_new 1"]
    by (auto simp: demo_batch_ok(7))
  have "ba_batch a = completed demo_batch demo_memory False" by (rule batch_init_True(1) [OF a])
  then have "0 \<in> seq_toks (ba_batch a) 0"
    by (simp add: seq_toks_def) (simp add: completed_def demo_batch_def fill_seq_id_def fill_n_seq_id_def tok_seqs_def)
  then have "seq_toks (ba_batch a) 0 \<noteq> {}" by blast
  from batch_init_consistent [OF a _ _ this] show ?thesis
    using a by (auto simp: batch_allocr_new_def demo_memory_def mem_pos_max_def)
qed

end
