(* ===== verification/Kv_Cache.thy ===== *)
theory Kv_Cache
  imports Kv_Cells Batch
begin

text \<open>
  The KV cache (src/src/llama-kv-cache.cpp, src/src/llama-kv-cache.h): the per-stream cells and
  heads, the sequence operations of \<open>llama_memory_i\<close>, slot search, placement of a micro-batch,
  the dry run \<open>prepare\<close>, and the host-side inputs computed from the cells.

  Tensors and their buffers are not part of the state: \<open>update\<close> takes the outcome of the graph
  computation as arguments. \<open>kv_other\<close> is the cache whose cells are shared (\<open>other\<close>), with the
  two queries forwarded to it. A function that may stop in \<open>GGML_ASSERT\<close> or \<open>GGML_ABORT\<close>
  returns an \<open>option\<close>.
\<close>

section \<open>State\<close>

datatype llama_swa_type = SWA_TYPE_NONE | SWA_TYPE_STANDARD | SWA_TYPE_CHUNKED | SWA_TYPE_SYMMETRIC

definition is_masked_swa :: "nat \<Rightarrow> llama_swa_type \<Rightarrow> llama_pos \<Rightarrow> llama_pos \<Rightarrow> bool" where
  "is_masked_swa n_swa swa_type p0 p1 =
     (case swa_type of
        SWA_TYPE_NONE \<Rightarrow> False
      | SWA_TYPE_STANDARD \<Rightarrow> p1 - p0 \<ge> int n_swa
      | SWA_TYPE_CHUNKED \<Rightarrow> p0 < (p1 div int n_swa) * int n_swa
      | SWA_TYPE_SYMMETRIC \<Rightarrow>
          (let half = int (n_swa div 2); d = p1 - p0 in d < - half \<or> d > half))"

record llama_kv_cache =
  kv_v_trans :: bool
  kv_n_seq_max :: nat
  kv_n_stream :: nat
  kv_n_pad :: nat
  kv_n_swa :: nat
  kv_swa_type :: llama_swa_type
  kv_msa_strict_slots :: bool
  kv_other :: "memory_pos option"
  v_cells :: "llama_kv_cells list"
  v_heads :: "nat list"
  seq_to_stream :: "nat list"
  sc_info :: "(nat \<times> nat) list"
  kv_n_pos_per_embd :: nat
  kv_ple_n_heads :: nat
  kv_ple_image_token_id :: nat
  kv_ple_eos_token_id :: nat
  kv_n_embd_v_gqa_max :: nat
  kv_arch_step35 :: bool
  kv_rope_none :: bool
  kv_layer_k_idx :: "bool list"

record slot_info =
  si_s0 :: nat
  si_s1 :: nat
  si_strm :: "nat list"
  si_idxs :: "nat list list"

definition si_size :: "slot_info \<Rightarrow> nat" where
  "si_size si = length (si_idxs si ! 0)"

definition si_n_stream :: "slot_info \<Rightarrow> nat" where
  "si_n_stream si = length (si_strm si)"

definition si_head :: "slot_info \<Rightarrow> nat option" where
  "si_head si = (if length (si_idxs si) = 1 \<and> si_idxs si ! 0 \<noteq> [] then Some (si_idxs si ! 0 ! 0) else None)"

definition si_is_contiguous :: "slot_info \<Rightarrow> bool" where
  "si_is_contiguous si =
     (if si_idxs si = [] \<or> si_idxs si ! 0 = [] then True
      else if length (si_idxs si) > 1 then False
      else let h = si_idxs si ! 0 ! 0
           in list_all (\<lambda>i. si_idxs si ! 0 ! i = h + i) [0..<length (si_idxs si ! 0)])"

text \<open>The cells, heads and stream table that the constructor builds.\<close>

definition kv_init :: "bool \<Rightarrow> nat \<Rightarrow> nat \<Rightarrow> llama_kv_cache \<Rightarrow> llama_kv_cache" where
  "kv_init unified kv_size n_seq_max kv =
     (let n_stream = (if unified then 1 else n_seq_max)
      in kv\<lparr>kv_n_seq_max := n_seq_max, kv_n_stream := n_stream, v_heads := replicate n_stream 0,
           v_cells := replicate n_stream (cells_resize kv_size cells_new), sc_info := [],
           seq_to_stream := (if n_stream > 1 then [0..<n_stream] else replicate LLAMA_MAX_SEQ 0)\<rparr>)"

definition kv_clear :: "llama_kv_cache \<Rightarrow> llama_kv_cache" where
  "kv_clear kv =
     fold (\<lambda>s kv. kv\<lparr>v_cells := (v_cells kv)[s := cells_reset (v_cells kv ! s)], v_heads := (v_heads kv)[s := 0]\<rparr>)
       [0..<kv_n_stream kv] kv"

definition kv_seq_ok :: "llama_kv_cache \<Rightarrow> int \<Rightarrow> bool" where
  "kv_seq_ok kv s \<longleftrightarrow> s \<ge> 0 \<and> nat s < length (seq_to_stream kv)"

definition stream_of :: "llama_kv_cache \<Rightarrow> int \<Rightarrow> nat" where
  "stream_of kv s = seq_to_stream kv ! nat s"

section \<open>Sequence operations\<close>

definition lo_pos :: "llama_pos \<Rightarrow> llama_pos" where "lo_pos p = (if p < 0 then 0 else p)"
definition hi_pos :: "llama_pos \<Rightarrow> llama_pos" where "hi_pos p = (if p < 0 then INT32_MAX else p)"

text \<open>MSA: would the range leave later cells behind?\<close>

definition msa_rejects :: "llama_kv_cache \<Rightarrow> int \<Rightarrow> llama_pos \<Rightarrow> llama_pos \<Rightarrow> bool" where
  "msa_rejects kv seq_id p0 p1 =
     list_ex (\<lambda>sid.
       if seq_id \<ge> 0 \<and> int sid \<noteq> seq_id then False
       else
         let cells = v_cells kv ! (seq_to_stream kv ! sid);
             pmin = cells_seq_pos_min cells sid; pmax = cells_seq_pos_max cells sid
         in if pmin < 0 then False
            else (p0 \<le> pmax \<and> p1 > pmin) \<and> p1 \<le> pmax)
       [0..<length (seq_to_stream kv)]"

text \<open>The loops carry the cells and \<open>new_head\<close>; \<open>freed\<close> records the first emptied cell.\<close>

definition freed :: "nat \<Rightarrow> nat \<Rightarrow> bool \<Rightarrow> nat \<Rightarrow> nat" where
  "freed n i b nh = (if b \<and> nh = n then i else nh)"

definition seq_rm_cell :: "nat \<Rightarrow> llama_pos \<Rightarrow> llama_pos \<Rightarrow> nat \<Rightarrow> llama_kv_cells \<times> nat \<Rightarrow> llama_kv_cells \<times> nat" where
  "seq_rm_cell s p0 p1 i = (\<lambda>(c, nh).
     if \<not> cells_pos_in c i p0 p1 then (c, nh)
     else if cells_seq_has c i s
     then (case cells_seq_rm i s c of (c', b) \<Rightarrow> (c', freed (cells_size c) i b nh))
     else (c, nh))"

definition any_rm_cell :: "llama_pos \<Rightarrow> llama_pos \<Rightarrow> nat \<Rightarrow> llama_kv_cells \<times> nat \<Rightarrow> llama_kv_cells \<times> nat" where
  "any_rm_cell p0 p1 i = (\<lambda>(c, nh).
     if \<not> cells_pos_in c i p0 p1 then (c, nh)
     else (cells_rm i c, freed (cells_size c) i True nh))"

text \<open>A loop over the cells of stream \<open>st\<close> that may move the head back.\<close>

definition over_cells ::
  "(nat \<Rightarrow> llama_kv_cells \<times> nat \<Rightarrow> llama_kv_cells \<times> nat) \<Rightarrow> nat \<Rightarrow> llama_kv_cache \<Rightarrow> llama_kv_cache" where
  "over_cells f st kv =
     (let c = v_cells kv ! st;
          (c', new_head) = fold f [0..<cells_size c] (c, cells_size c);
          head = v_heads kv ! st
      in kv\<lparr>v_cells := (v_cells kv)[st := c'],
           v_heads := (if new_head \<noteq> cells_size c' \<and> new_head < head then (v_heads kv)[st := new_head] else v_heads kv)\<rparr>)"

definition kv_seq_rm :: "int \<Rightarrow> llama_pos \<Rightarrow> llama_pos \<Rightarrow> llama_kv_cache \<Rightarrow> (llama_kv_cache \<times> bool) option" where
  "kv_seq_rm seq_id p0 p1 kv =
     (if kv_other kv \<noteq> None then Some (kv, True)
      else if \<not> (seq_id = -1 \<or> kv_seq_ok kv seq_id) then None
      else
        let p0 = lo_pos p0; p1 = hi_pos p1
        in if p0 \<ge> p1 then Some (kv, True)
           else if kv_msa_strict_slots kv \<and> msa_rejects kv seq_id p0 p1 then Some (kv, False)
           else if seq_id \<ge> 0
           then Some (over_cells (seq_rm_cell (nat seq_id) p0 p1) (stream_of kv seq_id) kv, True)
           else Some (fold (over_cells (any_rm_cell p0 p1)) [0..<kv_n_stream kv] kv, True))"

definition seq_cp_cell :: "nat \<Rightarrow> nat \<Rightarrow> llama_pos \<Rightarrow> llama_pos \<Rightarrow> nat \<Rightarrow> llama_kv_cells \<Rightarrow> llama_kv_cells" where
  "seq_cp_cell src dst p0 p1 i c =
     (if \<not> cells_pos_in c i p0 p1 then c
      else if cells_seq_has c i src then cells_seq_add i dst c else c)"

text \<open>One cell of a copy between streams: the cell is rebuilt with its unshifted position.\<close>

definition seq_cp_stream_cell :: "nat \<Rightarrow> nat \<Rightarrow> llama_kv_cells \<Rightarrow> nat \<Rightarrow> llama_kv_cells \<Rightarrow> llama_kv_cells" where
  "seq_cp_stream_cell src dst from i c =
     (if cells_seq_has from i src then
        (let pos = cells_pos_get from i; shift = cells_get_shift from i;
             pos = (if shift \<noteq> 0 then pos - shift else pos);
             c = cells_seq_add i dst (cells_pos_set i pos c);
             c = (if shift \<noteq> 0 then fst (cells_pos_add i shift c) else c)
         in cells_ext_set i (cells_ext_get from i) c)
      else c)"

definition kv_get_size :: "llama_kv_cache \<Rightarrow> nat" where
  "kv_get_size kv = cells_size (v_cells kv ! (seq_to_stream kv ! 0))"

definition kv_seq_cp :: "int \<Rightarrow> int \<Rightarrow> llama_pos \<Rightarrow> llama_pos \<Rightarrow> llama_kv_cache \<Rightarrow> llama_kv_cache option" where
  "kv_seq_cp src dst p0 p1 kv =
     (if kv_other kv \<noteq> None then Some kv
      else if \<not> kv_seq_ok kv src \<or> \<not> kv_seq_ok kv dst then None
      else
        let s0 = stream_of kv src; s1 = stream_of kv dst
        in if s0 = s1 then
             (if src = dst then Some kv
              else
                let p0 = lo_pos p0; p1 = hi_pos p1; c = v_cells kv ! s0
                in Some (kv\<lparr>v_cells := (v_cells kv)[s0 := fold (seq_cp_cell (nat src) (nat dst) p0 p1) [0..<cells_size c] c]\<rparr>))
           else if (p0 > 0 \<and> p0 + 1 < int (kv_get_size kv)) \<or> (p1 > 0 \<and> p1 + 1 < int (kv_get_size kv)) then None
           else
             let from = v_cells kv ! s0; to = cells_reset (v_cells kv ! s1)
             in Some (kv\<lparr>sc_info := sc_info kv @ [(s0, s1)],
                        v_cells := (v_cells kv)[s1 := fold (seq_cp_stream_cell (nat src) (nat dst) from) [0..<cells_size from] to],
                        v_heads := (v_heads kv)[s1 := v_heads kv ! s0]\<rparr>))"

definition seq_keep_cell :: "nat \<Rightarrow> nat \<Rightarrow> llama_kv_cells \<times> nat \<Rightarrow> llama_kv_cells \<times> nat" where
  "seq_keep_cell s i = (\<lambda>(c, nh). case cells_seq_keep i s c of (c', b) \<Rightarrow> (c', freed (cells_size c) i b nh))"

definition kv_seq_keep :: "int \<Rightarrow> llama_kv_cache \<Rightarrow> llama_kv_cache option" where
  "kv_seq_keep seq_id kv =
     (if kv_other kv \<noteq> None then Some kv
      else if \<not> kv_seq_ok kv seq_id then None
      else Some (over_cells (seq_keep_cell (nat seq_id)) (stream_of kv seq_id) kv))"

definition seq_add_cell :: "nat \<Rightarrow> llama_pos \<Rightarrow> llama_pos \<Rightarrow> llama_pos \<Rightarrow> nat \<Rightarrow> llama_kv_cells \<times> nat \<Rightarrow> llama_kv_cells \<times> nat" where
  "seq_add_cell s p0 p1 shift i = (\<lambda>(c, nh).
     if \<not> cells_pos_in c i p0 p1 then (c, nh)
     else if cells_seq_has c i s
     then (case cells_pos_add i shift c of (c', b) \<Rightarrow> (c', freed (cells_size c) i b nh))
     else (c, nh))"

definition kv_seq_add :: "int \<Rightarrow> llama_pos \<Rightarrow> llama_pos \<Rightarrow> llama_pos \<Rightarrow> llama_kv_cache \<Rightarrow> llama_kv_cache option" where
  "kv_seq_add seq_id p0 p1 shift kv =
     (if kv_other kv \<noteq> None then Some kv
      else if \<not> kv_seq_ok kv seq_id then None
      else if kv_n_pos_per_embd kv \<noteq> 1 then None
      else if shift = 0 then Some kv
      else
        let p0 = lo_pos p0; p1 = hi_pos p1
        in if p0 = p1 then Some kv
           else
             let st = stream_of kv seq_id; c = v_cells kv ! st;
                 (c', new_head) = fold (seq_add_cell (nat seq_id) p0 p1 shift) [0..<cells_size c] (c, cells_size c)
             in Some (kv\<lparr>v_cells := (v_cells kv)[st := c'],
                        v_heads := (v_heads kv)[st := (if new_head \<noteq> cells_size c' then new_head else 0)]\<rparr>))"

definition seq_div_cell :: "nat \<Rightarrow> llama_pos \<Rightarrow> llama_pos \<Rightarrow> int \<Rightarrow> nat \<Rightarrow> llama_kv_cells \<Rightarrow> llama_kv_cells" where
  "seq_div_cell s p0 p1 d i c =
     (if \<not> cells_pos_in c i p0 p1 then c
      else if cells_seq_has c i s then cells_pos_div i d c else c)"

definition kv_seq_div :: "int \<Rightarrow> llama_pos \<Rightarrow> llama_pos \<Rightarrow> int \<Rightarrow> llama_kv_cache \<Rightarrow> llama_kv_cache option" where
  "kv_seq_div seq_id p0 p1 d kv =
     (if kv_other kv \<noteq> None then Some kv
      else if \<not> kv_seq_ok kv seq_id then None
      else if kv_n_pos_per_embd kv \<noteq> 1 then None
      else if d = 1 then Some kv
      else
        let p0 = lo_pos p0; p1 = hi_pos p1
        in if p0 = p1 then Some kv
           else
             let st = stream_of kv seq_id; c = v_cells kv ! st
             in Some (kv\<lparr>v_cells := (v_cells kv)[st := fold (seq_div_cell (nat seq_id) p0 p1 d) [0..<cells_size c] c]\<rparr>))"

definition kv_seq_pos_min :: "int \<Rightarrow> llama_kv_cache \<Rightarrow> llama_pos option" where
  "kv_seq_pos_min seq_id kv =
     (case kv_other kv of
        Some (pos_min, _) \<Rightarrow> Some (pos_min (nat seq_id))
      | None \<Rightarrow> if kv_seq_ok kv seq_id then Some (cells_seq_pos_min (v_cells kv ! stream_of kv seq_id) (nat seq_id)) else None)"

definition kv_seq_pos_max :: "int \<Rightarrow> llama_kv_cache \<Rightarrow> llama_pos option" where
  "kv_seq_pos_max seq_id kv =
     (case kv_other kv of
        Some (_, pos_max) \<Rightarrow> Some (pos_max (nat seq_id))
      | None \<Rightarrow> if kv_seq_ok kv seq_id then Some (cells_seq_pos_max (v_cells kv ! stream_of kv seq_id) (nat seq_id)) else None)"

section \<open>Queries\<close>

definition kv_get_can_shift :: "llama_kv_cache \<Rightarrow> bool" where
  "kv_get_can_shift kv =
     (if kv_arch_step35 kv then False
      else if kv_n_pos_per_embd kv > 1 then False
      else \<not> list_ex id (kv_layer_k_idx kv))"

definition kv_get_has_shift :: "llama_kv_cache \<Rightarrow> bool" where
  "kv_get_has_shift kv = list_ex (\<lambda>s. cells_get_has_shift (v_cells kv ! s)) [0..<kv_n_stream kv]"

unbundle bit_operations_syntax

definition ggml_pad :: "nat \<Rightarrow> nat \<Rightarrow> nat" where
  "ggml_pad x n = unat ((word_of_nat x + word_of_nat n - 1 :: 32 word) AND NOT (word_of_nat n - 1))"

definition kv_get_n_kv :: "slot_info \<Rightarrow> llama_kv_cache \<Rightarrow> nat" where
  "kv_get_n_kv si kv =
     (let n_pad_cur = max (kv_n_pad kv) 256
      in fold (\<lambda>s result.
           let cells = v_cells kv ! (si_strm si ! s)
           in max (min (cells_size cells) (max n_pad_cur (ggml_pad (cells_used_max_p1 cells) n_pad_cur))) result)
         [0..<si_n_stream si] 0)"

section \<open>Slot search\<close>

text \<open>
  A cell can be used if it is empty, or held by one sequence whose next token no longer sees it
  through the sliding window.
\<close>

definition can_use :: "llama_kv_cache \<Rightarrow> llama_kv_cells \<Rightarrow> nat \<Rightarrow> bool" where
  "can_use kv c idx \<longleftrightarrow> cells_is_empty c idx \<or>
     (cells_seq_count c idx = 1 \<and>
      is_masked_swa (kv_n_swa kv) (kv_swa_type kv) (cells_pos_get c idx)
        (cells_seq_pos_max c (nat (cells_seq_get c idx)) + 1))"

text \<open>\<open>for (i = 0; i < n_test; i++)\<close>: the state is the head, \<open>n_tested\<close> and the found indices.\<close>

fun test_cells :: "(nat \<Rightarrow> bool) \<Rightarrow> bool \<Rightarrow> nat \<Rightarrow> nat \<times> nat \<times> nat list \<Rightarrow> nat \<times> nat \<times> nat list" where
  "test_cells use cont 0 st = st"
| "test_cells use cont (Suc k) (head, tested, idxs) =
     (if use head then test_cells use cont k (head + 1, tested + 1, idxs @ [head])
      else if cont then (head + 1, tested + 1, idxs)
      else test_cells use cont k (head + 1, tested + 1, idxs))"

text \<open>
  The search loop of one stream: \<open>Some (Some idxs)\<close> is a slot, \<open>Some None\<close> the empty result,
  \<open>None\<close> the loop has run \<open>fuel\<close> rounds without an answer.
\<close>

fun find_loop :: "(nat \<Rightarrow> bool) \<Rightarrow> bool \<Rightarrow> nat \<Rightarrow> nat \<Rightarrow> nat \<Rightarrow> nat \<times> nat \<times> nat list \<Rightarrow> nat list option option" where
  "find_loop use cont n_cells n_tokens 0 st = None"
| "find_loop use cont n_cells n_tokens (Suc fuel) (head, tested, idxs) =
     (let n_test = (if cont then n_tokens else 1)
      in if head + n_test > n_cells then find_loop use cont n_cells n_tokens fuel (0, tested + (n_cells - head), idxs)
         else
           let (head, tested, idxs) = test_cells use cont n_test (head, tested, idxs)
           in if length idxs = n_tokens then Some (Some idxs)
              else
                let idxs = (if cont then [] else idxs)
                in if tested \<ge> n_cells then Some None
                   else find_loop use cont n_cells n_tokens fuel (head, tested, idxs))"

text \<open>MSA: the slot of a token is its position.\<close>

fun msa_slots :: "llama_kv_cells \<Rightarrow> bool \<Rightarrow> llama_pos list \<Rightarrow> nat list \<Rightarrow> nat list option" where
  "msa_slots c cont [] idxs = Some idxs"
| "msa_slots c cont (p # ps) idxs =
     (if p < 0 \<or> p \<ge> int (cells_size c) then None
      else
        let idx = nat p
        in if \<not> cells_is_empty c idx then None
           else if idxs \<noteq> [] \<and> (if cont then idx \<noteq> last idxs + 1 else idx \<le> last idxs) then None
           else msa_slots c cont ps (idxs @ [idx]))"

definition find_stream :: "llama_kv_cache \<Rightarrow> llama_ubatch \<Rightarrow> bool \<Rightarrow> nat \<Rightarrow> nat \<Rightarrow> nat list option option" where
  "find_stream kv ub cont n_tokens s =
     (let st = seq_to_stream kv ! (ub_seq_id_unq ub ! s); c = v_cells kv ! st
      in if n_tokens > cells_size c then Some None
         else if kv_msa_strict_slots kv
         then Some (msa_slots c cont (map (\<lambda>ii. ub_pos ub ! (s * n_tokens + ii)) [0..<n_tokens]) [])
         else
           let head = v_heads kv ! st;
               head = (if head > cells_get_used c + 2 * n_tokens then 0 else head)
           in find_loop (can_use kv c) cont (cells_size c) n_tokens (2 * cells_size c + 2) (head, 0, []))"

text \<open>
  The loop over the sequences of the micro-batch. The outer option is an abort (or a search that
  does not end), the inner one the empty \<open>slot_info\<close>.
\<close>

fun find_streams :: "llama_kv_cache \<Rightarrow> llama_ubatch \<Rightarrow> bool \<Rightarrow> nat \<Rightarrow> nat list \<Rightarrow> slot_info \<Rightarrow> slot_info option option" where
  "find_streams kv ub cont n_tokens [] res = Some (Some res)"
| "find_streams kv ub cont n_tokens (s # ss) res =
     (let seq_id = ub_seq_id_unq ub ! s; st = seq_to_stream kv ! seq_id
      in if kv_n_stream kv > 1 \<and>
            (ub_n_seq_id ub ! (s * n_tokens) \<noteq> 1 \<or> ub_seq_id ub ! (s * n_tokens) ! 0 \<noteq> seq_id) then None
         else case find_stream kv ub cont n_tokens s of
           None \<Rightarrow> None
         | Some None \<Rightarrow> Some None
         | Some (Some idxs) \<Rightarrow>
             find_streams kv ub cont n_tokens ss
               (res\<lparr>si_s0 := min (si_s0 res) st, si_s1 := max (si_s1 res) st,
                    si_strm := (si_strm res)[s := st], si_idxs := (si_idxs res)[s := idxs]\<rparr>))"

definition kv_find_slot :: "llama_ubatch \<Rightarrow> bool \<Rightarrow> llama_kv_cache \<Rightarrow> slot_info option option" where
  "kv_find_slot ub cont kv =
     (if kv_n_stream kv > 1 \<and> ub_n_tokens ub mod ub_n_seqs_unq ub \<noteq> 0 then None
      else
        let n_seqs = (if kv_n_stream kv > 1 then ub_n_seqs_unq ub else 1);
            n_tokens = (if kv_n_stream kv > 1 then ub_n_tokens ub div n_seqs else ub_n_tokens ub)
        in find_streams kv ub cont n_tokens [0..<n_seqs]
             \<lparr>si_s0 = LLAMA_MAX_SEQ, si_s1 = 0, si_strm = replicate n_seqs 0, si_idxs = replicate n_seqs []\<rparr>)"

section \<open>Placement of a micro-batch\<close>

definition cell_ext_of :: "llama_kv_cache \<Rightarrow> llama_ubatch \<Rightarrow> nat \<Rightarrow> llama_kv_cell_ext option" where
  "cell_ext_of kv ub i =
     (if is_pos_2d ub \<or> ub_token ub \<noteq> None \<or> kv_ple_n_heads kv > 0 then
        (let e = ext_default;
             e = (if is_pos_2d ub
                  then e\<lparr>ext_x := ub_pos ub ! (i + ub_n_tokens ub * 2), ext_y := ub_pos ub ! (i + ub_n_tokens ub)\<rparr> else e)
         in Some (case ub_token ub of
              Some ts \<Rightarrow> e\<lparr>ext_tok := ts ! i\<rparr>
            | None \<Rightarrow>
                if kv_ple_n_heads kv > 0
                then e\<lparr>ext_tok := int (if kv_ple_image_token_id kv \<noteq> 0 then kv_ple_image_token_id kv else kv_ple_eos_token_id kv)\<rparr>
                else e))
      else None)"

text \<open>The write of token \<open>i\<close> into cell \<open>idx\<close>, with the array \<open>seq_pos_max_rm\<close>.\<close>

definition place_token ::
  "llama_kv_cache \<Rightarrow> llama_ubatch \<Rightarrow> nat \<Rightarrow> nat \<Rightarrow> llama_kv_cells \<times> (nat \<Rightarrow> llama_pos) \<Rightarrow> llama_kv_cells \<times> (nat \<Rightarrow> llama_pos)" where
  "place_token kv ub i idx = (\<lambda>(c, rm).
     let (c, rm) =
           (if \<not> cells_is_empty c idx then
              (let s = nat (cells_seq_get c idx)
               in (cells_rm idx c, rm(s := max (rm s) (cells_pos_get c idx))))
            else (c, rm));
         c = cells_pos_set idx (ub_pos ub ! i) c;
         c = (case cell_ext_of kv ub i of Some e \<Rightarrow> cells_ext_set idx e c | None \<Rightarrow> c);
         c = fold (cells_seq_add idx) (take (ub_n_seq_id ub ! i) (ub_seq_id ub ! i)) c
     in (c, rm))"

fun apply_tokens ::
  "slot_info \<Rightarrow> llama_ubatch \<Rightarrow> (nat \<times> nat) list \<Rightarrow> llama_kv_cache \<times> (nat \<Rightarrow> llama_pos) \<Rightarrow>
   (llama_kv_cache \<times> (nat \<Rightarrow> llama_pos)) option" where
  "apply_tokens si ub [] st = Some st"
| "apply_tokens si ub ((s, ii) # ps) (kv, rm) =
     (let i = s * si_size si + ii; st = si_strm si ! s; idx = si_idxs si ! s ! ii
      in if kv_msa_strict_slots kv \<and> int idx \<noteq> ub_pos ub ! i then None
         else let (c, rm) = place_token kv ub i idx (v_cells kv ! st, rm)
              in apply_tokens si ub ps (kv\<lparr>v_cells := (v_cells kv)[st := c]\<rparr>, rm))"

text \<open>Purge of the positions below the overwritten ones, per sequence.\<close>

fun purge_seqs :: "(nat \<Rightarrow> llama_pos) \<Rightarrow> nat list \<Rightarrow> llama_kv_cache \<Rightarrow> llama_kv_cache option" where
  "purge_seqs rm [] kv = Some kv"
| "purge_seqs rm (s # ss) kv =
     (if rm s = -1 then purge_seqs rm ss kv
      else if \<not> s < length (seq_to_stream kv) then None
      else
        let c = v_cells kv ! (seq_to_stream kv ! s)
        in if cells_seq_pos_min c s \<le> rm s then
             (case kv_seq_rm (int s) (cells_seq_pos_min c s) (rm s + 1) kv of
                Some (kv, True) \<Rightarrow> purge_seqs rm ss kv
              | _ \<Rightarrow> None)
           else purge_seqs rm ss kv)"

definition move_heads :: "slot_info \<Rightarrow> llama_kv_cache \<Rightarrow> llama_kv_cache" where
  "move_heads si kv =
     fold (\<lambda>s kv. kv\<lparr>v_heads := (v_heads kv)[si_strm si ! s := last (si_idxs si ! s) + 1]\<rparr>) [0..<si_n_stream si] kv"

definition token_slots :: "slot_info \<Rightarrow> (nat \<times> nat) list" where
  "token_slots si = concat (map (\<lambda>s. map (\<lambda>ii. (s, ii)) [0..<si_size si]) [0..<si_n_stream si])"

definition kv_apply_ubatch :: "slot_info \<Rightarrow> llama_ubatch \<Rightarrow> llama_kv_cache \<Rightarrow> llama_kv_cache option" where
  "kv_apply_ubatch si ub kv =
     (if kv_other kv \<noteq> None then Some kv
      else case apply_tokens si ub (token_slots si) (kv, \<lambda>_. -1) of
        None \<Rightarrow> None
      | Some (kv, rm) \<Rightarrow> map_option (move_heads si) (purge_seqs rm [0..<LLAMA_MAX_SEQ] kv))"

section \<open>The dry run\<close>

record prep_state =
  ps_sinfo :: slot_info
  ps_heads_old :: "nat list"
  ps_cells :: "llama_kv_cells list"

fun prepare_loop ::
  "llama_ubatch list \<Rightarrow> llama_kv_cache \<Rightarrow> prep_state list \<Rightarrow> (llama_kv_cache \<times> prep_state list \<times> bool) option" where
  "prepare_loop [] kv states = Some (kv, states, True)"
| "prepare_loop (ub # ubs) kv states =
     (case kv_find_slot ub False kv of
        None \<Rightarrow> None
      | Some None \<Rightarrow> Some (kv, states, False)
      | Some (Some si) \<Rightarrow>
          (let st = \<lparr>ps_sinfo = si, ps_heads_old = v_heads kv,
                     ps_cells = map (\<lambda>s. cells_cp_idxs (si_idxs si ! s) (v_cells kv ! (si_strm si ! s))) [0..<si_n_stream si]\<rparr>
           in case kv_apply_ubatch si ub kv of
                None \<Rightarrow> None
              | Some kv \<Rightarrow> prepare_loop ubs kv (states @ [st])))"

text \<open>The head of stream \<open>strm[s]\<close> is set to entry \<open>s\<close> of the saved heads.\<close>

definition restore_state :: "prep_state \<Rightarrow> llama_kv_cache \<Rightarrow> llama_kv_cache" where
  "restore_state st kv =
     (let si = ps_sinfo st
      in fold (\<lambda>s kv. kv\<lparr>v_cells := (v_cells kv)[si_strm si ! s :=
                            cells_set_idxs (si_idxs si ! s) (ps_cells st ! s) (v_cells kv ! (si_strm si ! s))],
                       v_heads := (v_heads kv)[si_strm si ! s := ps_heads_old st ! s]\<rparr>)
           [0..<si_n_stream si] kv)"

definition kv_prepare :: "llama_ubatch list \<Rightarrow> llama_kv_cache \<Rightarrow> (llama_kv_cache \<times> slot_info list) option" where
  "kv_prepare ubs kv =
     (case prepare_loop ubs kv [] of
        None \<Rightarrow> None
      | Some (kv, states, success) \<Rightarrow>
          if \<not> (states \<noteq> [] \<or> \<not> success) then None
          else Some (fold restore_state (rev states) kv, if success then map ps_sinfo states else []))"

section \<open>Batches\<close>

text \<open>
  The \<open>while (true)\<close> loop of \<open>init_batch\<close>: the micro-batches until an empty one. The loop is
  given \<open>fuel\<close> rounds; \<open>None\<close> is an abort of the split or no end within the fuel.
\<close>

fun collect_ubatches ::
  "(llama_batch_allocr \<Rightarrow> (llama_batch_allocr \<times> llama_ubatch) option) \<Rightarrow> nat \<Rightarrow> llama_batch_allocr \<Rightarrow>
   (llama_batch_allocr \<times> llama_ubatch list) option" where
  "collect_ubatches split 0 a = None"
| "collect_ubatches split (Suc fuel) a =
     (case split a of
        None \<Rightarrow> None
      | Some (a, ub) \<Rightarrow>
          if ub_n_tokens ub = 0 then Some (a, [])
          else map_option (\<lambda>(a, ubs). (a, ub # ubs)) (collect_ubatches split fuel a))"

definition kv_split :: "llama_kv_cache \<Rightarrow> nat \<Rightarrow> llama_batch_allocr \<Rightarrow> (llama_batch_allocr \<times> llama_ubatch) option" where
  "kv_split kv n_ubatch a =
     (if kv_n_stream kv = 1 then Some (split_simple n_ubatch a) else split_equal n_ubatch True 0 a)"

datatype memory_context =
    Ctx_Failed_Prepare
  | Ctx_Batch "slot_info list" "llama_ubatch list"

definition kv_init_batch ::
  "llama_batch_allocr \<Rightarrow> nat \<Rightarrow> llama_kv_cache \<Rightarrow> (llama_kv_cache \<times> llama_batch_allocr \<times> memory_context) option" where
  "kv_init_batch balloc n_ubatch kv =
     (let balloc = split_reset balloc
      in case collect_ubatches (kv_split kv n_ubatch) (get_n_tokens balloc + 1) balloc of
           None \<Rightarrow> None
         | Some (balloc, ubatches) \<Rightarrow>
             if ba_n_used balloc < get_n_tokens balloc then Some (kv, balloc, Ctx_Failed_Prepare)
             else case kv_prepare ubatches kv of
               None \<Rightarrow> None
             | Some (kv, sinfos) \<Rightarrow>
                 Some (kv, balloc, if sinfos = [] then Ctx_Failed_Prepare else Ctx_Batch sinfos ubatches))"

text \<open>
  \<open>init_update\<close> moves the pending stream copies into the context; \<open>update\<close> performs them and the
  K-shift. The copies act on tensors only; \<open>alloc\<close> and \<open>compute\<close> are the outcomes of the graph.
\<close>

definition kv_init_update :: "llama_kv_cache \<Rightarrow> llama_kv_cache \<times> bool \<times> (nat \<times> nat) list" where
  "kv_init_update kv = (kv\<lparr>sc_info := []\<rparr>, kv_get_has_shift kv, sc_info kv)"

definition kv_update :: "bool \<Rightarrow> bool \<Rightarrow> bool \<Rightarrow> llama_kv_cache \<Rightarrow> (llama_kv_cache \<times> bool) option" where
  "kv_update do_shift alloc compute kv =
     (if kv_other kv \<noteq> None then Some (kv, True)
      else if do_shift then
        (if \<not> kv_get_can_shift kv then None
         else if \<not> kv_rope_none kv \<and> \<not> (alloc \<and> compute) then Some (kv, False)
         else Some (kv\<lparr>v_cells := map cells_reset_shift (v_cells kv)\<rparr>, \<not> kv_rope_none kv))
      else Some (kv, False))"

section \<open>Inputs computed from the cells\<close>

definition kv_set_input_k_idxs :: "slot_info \<Rightarrow> llama_kv_cache \<Rightarrow> nat list" where
  "kv_set_input_k_idxs si kv =
     concat (map (\<lambda>s. map (\<lambda>i. si_strm si ! s * kv_get_size kv + si_idxs si ! s ! i) [0..<si_size si]) [0..<si_n_stream si])"

definition kv_set_input_v_idxs :: "slot_info \<Rightarrow> llama_kv_cache \<Rightarrow> nat list" where
  "kv_set_input_v_idxs si kv =
     (if \<not> kv_v_trans kv then kv_set_input_k_idxs si kv
      else
        let kv_size = kv_get_size kv; n_embd = kv_n_embd_v_gqa_max kv
        in concat (map (\<lambda>s. concat (map (\<lambda>i. map (\<lambda>j. si_strm si ! s * kv_size * n_embd + j * kv_size + si_idxs si ! s ! i)
             [0..<n_embd]) [0..<si_size si])) [0..<si_n_stream si]))"

definition kv_set_input_k_shift :: "llama_kv_cache \<Rightarrow> llama_pos list" where
  "kv_set_input_k_shift kv =
     concat (map (\<lambda>s. let c = v_cells kv ! s
       in map (\<lambda>i. if cells_is_empty c i then 0 else cells_get_shift c i) [0..<cells_size c]) [0..<kv_n_stream kv])"

definition kv_has_cell_ext :: "llama_kv_cache \<Rightarrow> bool" where
  "kv_has_cell_ext kv \<longleftrightarrow> kv_n_pos_per_embd kv > 1 \<or> kv_ple_n_heads kv > 0"

text \<open>The \<open>n\<close> tokens before each token of the micro-batch; the history is keyed by the packed 64 bits.\<close>

definition hist_key :: "int \<Rightarrow> llama_pos \<Rightarrow> int" where
  "hist_key s p = (s mod 2 ^ 32) * 2 ^ 32 + p mod 2 ^ 32"

definition kv_token_hist :: "llama_ubatch \<Rightarrow> nat \<Rightarrow> llama_kv_cache \<Rightarrow> (int \<rightharpoonup> llama_token)" where
  "kv_token_hist ub n kv =
     (let ps = map (\<lambda>i. ub_pos ub ! i) [0..<ub_n_tokens ub];
          p_min = fold min ps INT32_MAX; p_max = fold max ps (- INT32_MAX - 1);
          seqs = set (map (\<lambda>s. ub_seq_id_unq ub ! s) [0..<ub_n_seqs_unq ub])
      in fold (\<lambda>s h. fold (\<lambda>(t, p, tok) h. h(hist_key (int t) p \<mapsto> tok))
             (cells_for_each_token_in (v_cells kv ! s) seqs (p_min - int n) p_max) h)
           [0..<kv_n_stream kv] Map.empty)"

definition kv_get_prev_tokens :: "llama_ubatch \<Rightarrow> nat \<Rightarrow> llama_kv_cache \<Rightarrow> llama_token list" where
  "kv_get_prev_tokens ub n kv =
     (if n = 0 then []
      else
        let hist = kv_token_hist ub n kv
        in concat (map (\<lambda>i. map (\<lambda>j.
             let p = ub_pos ub ! i - int (n - j)
             in if p < 0 then LLAMA_TOKEN_NULL
                else case hist (hist_key (int (ub_seq_id ub ! i ! 0)) p) of Some tok \<Rightarrow> tok | None \<Rightarrow> LLAMA_TOKEN_NULL)
             [0..<n]) [0..<ub_n_tokens ub]))"

end
