(* ===== verification/Kq_Mask.thy ===== *)
theory Kq_Mask
  imports Kv_Cache
begin

text \<open>
  The attention mask over the KV cells (\<open>set_input_kq_mask\<close> of src/src/llama-kv-cache.cpp). The
  template parameters \<open>causal, swa, is_2d, alibi\<close> are booleans; a mask entry is \<open>Keep\<close> (0),
  \<open>Drop\<close> (minus infinity) or the ALiBi distance. The destination row of token \<open>i\<close> is
  \<open>data ! i\<close>, a list of \<open>n_kv\<close> entries.

  For the tokens of one sequence the code copies the row of the first such token and recomputes
  only the cells recorded in \<open>idxs\<close>. The main theorem states that this shortcut gives, for every
  token and cell, the value of the direct definition \<open>mask_entry\<close>.
\<close>

section \<open>The mask of one cell\<close>

datatype mask_val = Keep | Drop | Dist int

record mask_cfg =
  mc_causal :: bool
  mc_swa :: bool
  mc_is_2d :: bool
  mc_alibi :: bool
  mc_n_swa :: nat
  mc_swa_type :: llama_swa_type

text \<open>The decision for cell \<open>j\<close> and token \<open>i\<close>: the body of the innermost loop.\<close>

definition mask_entry :: "mask_cfg \<Rightarrow> llama_ubatch \<Rightarrow> llama_kv_cells \<Rightarrow> nat \<Rightarrow> nat \<Rightarrow> mask_val" where
  "mask_entry m ub c i j =
     (let s = ub_seq_id ub ! i ! 0; p1 = ub_pos ub ! i;
          p1_x = (if mc_is_2d m then ub_pos ub ! (i + ub_n_tokens ub * 2) else 0);
          p1_y = (if mc_is_2d m then ub_pos ub ! (i + ub_n_tokens ub) else 0)
      in if cells_is_empty c j then Drop
         else if \<not> cells_seq_has c j s then Drop
         else
           let p0 = cells_pos_get c j
           in if mc_causal m \<and> p0 > p1 then Drop
              else if mc_causal m \<and> mc_is_2d m \<and> p0 = p1 \<and> is_2d_gt (cells_ext_get c j) p1_x p1_y then Drop
              else if mc_swa m \<and> is_masked_swa (mc_n_swa m) (mc_swa_type m) p0 p1 then Drop
              else if mc_alibi m then Dist (- \<bar>p0 - p1\<bar>)
              else Keep)"

section \<open>The loops\<close>

text \<open>The least position in the micro-batch, per sequence.\<close>

definition batch_pos_min :: "llama_ubatch \<Rightarrow> nat \<Rightarrow> llama_pos" where
  "batch_pos_min ub =
     fold (\<lambda>i m. let s = ub_seq_id ub ! i ! 0 in m(s := min (m s) (ub_pos ub ! i)))
       [0..<ub_n_tokens ub] (\<lambda>_. INT32_MAX)"

text \<open>The cells recorded for later tokens of the sequence while the first row is computed.\<close>

definition record_cell :: "mask_cfg \<Rightarrow> llama_ubatch \<Rightarrow> llama_kv_cells \<Rightarrow> nat \<Rightarrow> nat \<Rightarrow> bool" where
  "record_cell m ub c s j \<longleftrightarrow> \<not> cells_is_empty c j \<and> cells_seq_has c j s \<and>
     cells_pos_get c j + int (mc_n_swa m + 32) \<ge> batch_pos_min ub s"

text \<open>\<open>seq_srct\<close> and \<open>seq_idxs\<close>, with the destination rows.\<close>

record mask_state =
  ms_srct :: "nat \<rightharpoonup> nat"
  ms_idxs :: "nat \<Rightarrow> nat list"
  ms_data :: "mask_val list list"

definition mask_token ::
  "mask_cfg \<Rightarrow> llama_kv_cache \<Rightarrow> llama_ubatch \<Rightarrow> nat \<Rightarrow> nat \<Rightarrow> mask_state \<Rightarrow> mask_state" where
  "mask_token m kv ub n_kv i st =
     (let s = ub_seq_id ub ! i ! 0; c = v_cells kv ! (seq_to_stream kv ! s)
      in if mc_alibi m then
           st\<lparr>ms_data := (ms_data st)[i := fold (\<lambda>j row. row[j := mask_entry m ub c i j]) [0..<n_kv] (ms_data st ! i)]\<rparr>
         else case ms_srct st s of
           Some srct \<Rightarrow>
             (let row = ms_data st ! srct; idxs = ms_idxs st s
              in st\<lparr>ms_data := (ms_data st)[i :=
                   fold (\<lambda>jj row. let j = idxs ! jj in row[j := mask_entry m ub c i j])
                     [0..<min n_kv (length idxs)] row]\<rparr>)
         | None \<Rightarrow>
             st\<lparr>ms_srct := (ms_srct st)(s \<mapsto> i),
                ms_idxs := (ms_idxs st)(s := fold (\<lambda>j idxs. if record_cell m ub c s j then idxs @ [j] else idxs) [0..<n_kv] []),
                ms_data := (ms_data st)[i := fold (\<lambda>j row. row[j := mask_entry m ub c i j]) [0..<n_kv] (ms_data st ! i)]\<rparr>)"

text \<open>The bookkeeping starts empty for every stream of the micro-batch.\<close>

definition set_input_kq_mask_impl ::
  "mask_cfg \<Rightarrow> llama_kv_cache \<Rightarrow> llama_ubatch \<Rightarrow> nat \<Rightarrow> nat \<Rightarrow> nat \<Rightarrow> mask_val list list \<Rightarrow> mask_val list list" where
  "set_input_kq_mask_impl m kv ub n_kv n_stream n_tps data =
     fold (\<lambda>s data. ms_data (fold (\<lambda>ii. mask_token m kv ub n_kv (s * n_tps + ii)) [0..<n_tps]
         \<lparr>ms_srct = Map.empty, ms_idxs = (\<lambda>_. []), ms_data = data\<rparr>))
       [0..<n_stream] data"

text \<open>The dispatch over the template parameters; \<open>None\<close> is the failing assertion.\<close>

definition kv_set_input_kq_mask ::
  "bool \<Rightarrow> bool \<Rightarrow> llama_kv_cache \<Rightarrow> llama_ubatch \<Rightarrow> nat \<Rightarrow> nat \<Rightarrow> mask_val list list \<Rightarrow> mask_val list list option" where
  "kv_set_input_kq_mask causal_attn use_alibi kv ub n_kv n_stream data =
     (if ub_n_tokens ub mod n_stream \<noteq> 0 then None
      else Some (set_input_kq_mask_impl
        \<lparr>mc_causal = causal_attn, mc_swa = (kv_swa_type kv \<noteq> SWA_TYPE_NONE), mc_is_2d = is_pos_2d ub,
         mc_alibi = use_alibi, mc_n_swa = kv_n_swa kv, mc_swa_type = kv_swa_type kv\<rparr>
        kv ub n_kv n_stream (ub_n_tokens ub div n_stream) data))"

section \<open>Each row equals the direct definition\<close>

lemma fold_row: "fold (\<lambda>j row. row[j := f j]) js row = write_all row (map (\<lambda>j. (j, f j)) js)"
  by (induction js arbitrary: row) auto

lemma write_all_upt: "length row = n \<Longrightarrow> write_all row (map (\<lambda>j. (j, f j)) [0..<n]) = map f [0..<n]"
  by (rule nth_equalityI) (auto intro!: write_all_same simp: comp_def map_idI)

lemma fold_append_filter: "fold (\<lambda>j idxs. if P j then idxs @ [j] else idxs) js acc = acc @ filter P js"
  by (induction js arbitrary: acc) auto

text \<open>A cell that is not recorded gets the same value for every token of the sequence.\<close>

lemma mask_entry_unrecorded:
  assumes "\<not> record_cell m ub c s j" "\<not> mc_alibi m"
    and i: "ub_seq_id ub ! i ! 0 = s" "ub_seq_id ub ! i' ! 0 = s"
    and pos: "batch_pos_min ub s \<le> ub_pos ub ! i" "batch_pos_min ub s \<le> ub_pos ub ! i'"
    and n: "mc_swa m \<longrightarrow> 0 < mc_n_swa m"
  shows "mask_entry m ub c i j = mask_entry m ub c i' j"
proof (cases "cells_is_empty c j \<or> \<not> cells_seq_has c j s")
  case True
  then show ?thesis using i by (auto simp: mask_entry_def Let_def)
next
  case False
  let ?p0 = "cells_pos_get c j"
  have lt: "?p0 + int (mc_n_swa m + 32) < batch_pos_min ub s"
    using assms(1) False by (simp add: record_cell_def not_le)
  have swa: "is_masked_swa (mc_n_swa m) (mc_swa_type m) ?p0 p = (mc_swa_type m \<noteq> SWA_TYPE_NONE)"
    if p: "?p0 + int (mc_n_swa m + 32) < p" and n0: "0 < mc_n_swa m" for p
  proof (cases "mc_swa_type m")
    case SWA_TYPE_CHUNKED
    have "p mod int (mc_n_swa m) < int (mc_n_swa m)" using n0 by simp
    moreover have "p div int (mc_n_swa m) * int (mc_n_swa m) + p mod int (mc_n_swa m) = p" by simp
    ultimately have "?p0 < p div int (mc_n_swa m) * int (mc_n_swa m)" using p by linarith
    then show ?thesis by (simp add: is_masked_swa_def SWA_TYPE_CHUNKED)
  next
    case SWA_TYPE_SYMMETRIC
    have "int (mc_n_swa m div 2) \<le> int (mc_n_swa m)" by simp
    then show ?thesis using p by (simp add: is_masked_swa_def SWA_TYPE_SYMMETRIC Let_def)
  qed (use p in \<open>simp_all add: is_masked_swa_def\<close>)
  have l: "?p0 + int (mc_n_swa m + 32) < ub_pos ub ! i" "?p0 + int (mc_n_swa m + 32) < ub_pos ub ! i'"
    using lt pos by linarith+
  then have "?p0 < ub_pos ub ! i" "?p0 < ub_pos ub ! i'" by linarith+
  then show ?thesis
    using False i assms(2) swa [OF l(1)] swa [OF l(2)] n by (auto simp: mask_entry_def Let_def)
qed

lemma batch_pos_min_le:
  assumes "i < ub_n_tokens ub" "\<forall>i < ub_n_tokens ub. ub_pos ub ! i \<le> INT32_MAX"
  shows "batch_pos_min ub (ub_seq_id ub ! i ! 0) \<le> ub_pos ub ! i"
proof -
  let ?f = "\<lambda>i m. let s = ub_seq_id ub ! i ! 0 in m(s := min (m s) (ub_pos ub ! i))"
  have dec: "fold ?f is m s \<le> m s" for "is" and m :: "nat \<Rightarrow> int" and s
  proof (induction "is" arbitrary: m)
    case (Cons k "is")
    have "fold ?f is (?f k m) s \<le> ?f k m s" by (rule Cons.IH)
    also have "?f k m s \<le> m s" by (simp add: Let_def)
    finally show ?case by (simp only: fold_simps)
  qed simp
  have "i \<in> set is \<Longrightarrow> fold ?f is m (ub_seq_id ub ! i ! 0) \<le> ub_pos ub ! i" for "is" and m :: "nat \<Rightarrow> int"
  proof (induction "is" arbitrary: m)
    case (Cons k "is")
    show ?case
    proof (cases "i = k")
      case True
      have "fold ?f is (?f k m) (ub_seq_id ub ! i ! 0) \<le> ?f k m (ub_seq_id ub ! i ! 0)" by (rule dec)
      also have "\<dots> \<le> ub_pos ub ! i" using True by (simp add: Let_def)
      finally show ?thesis by (simp only: fold_simps)
    qed (use Cons in auto)
  qed simp
  then show ?thesis using assms(1) by (simp add: batch_pos_min_def)
qed

text \<open>The rows done so far, and what the bookkeeping knows about them.\<close>

definition ref_row :: "mask_cfg \<Rightarrow> llama_kv_cache \<Rightarrow> llama_ubatch \<Rightarrow> nat \<Rightarrow> nat \<Rightarrow> mask_val list" where
  "ref_row m kv ub n_kv i =
     map (mask_entry m ub (v_cells kv ! (seq_to_stream kv ! (ub_seq_id ub ! i ! 0))) i) [0..<n_kv]"

definition mask_inv ::
  "mask_cfg \<Rightarrow> llama_kv_cache \<Rightarrow> llama_ubatch \<Rightarrow> nat \<Rightarrow> nat set \<Rightarrow> mask_val list list \<Rightarrow> mask_state \<Rightarrow> bool" where
  "mask_inv m kv ub n_kv D data st \<longleftrightarrow> length (ms_data st) = length data \<and>
     (\<forall>i < length data. ms_data st ! i = (if i \<in> D then ref_row m kv ub n_kv i else data ! i)) \<and>
     (\<forall>s r. ms_srct st s = Some r \<longrightarrow> r \<in> D \<and> r < length data \<and> ub_seq_id ub ! r ! 0 = s \<and>
        ms_idxs st s = filter (record_cell m ub (v_cells kv ! (seq_to_stream kv ! s)) s) [0..<n_kv])"

lemma mask_token_inv:
  assumes inv: "mask_inv m kv ub n_kv D data st" and i: "i < length data" "i \<notin> D" "length (data ! i) = n_kv"
    and dat: "length data = ub_n_tokens ub"
    and pos: "\<forall>i < ub_n_tokens ub. ub_pos ub ! i \<le> INT32_MAX" and n: "mc_swa m \<longrightarrow> 0 < mc_n_swa m"
  shows "mask_inv m kv ub n_kv (insert i D) data (mask_token m kv ub n_kv i st)"
proof -
  let ?s = "ub_seq_id ub ! i ! 0"
  let ?c = "v_cells kv ! (seq_to_stream kv ! ?s)"
  have row: "ms_data st ! i = data ! i" and len: "length (ms_data st) = length data"
    using inv i by (simp_all add: mask_inv_def)
  have upd: "mask_inv m kv ub n_kv (insert i D) data (st\<lparr>ms_data := (ms_data st)[i := ref_row m kv ub n_kv i]\<rparr>)"
    using inv i by (auto simp: mask_inv_def nth_list_update)
  show ?thesis
  proof (cases "mc_alibi m")
    case True
    have "fold (\<lambda>j row. row[j := mask_entry m ub ?c i j]) [0..<n_kv] (ms_data st ! i) = ref_row m kv ub n_kv i"
      using i(3) by (simp add: fold_row row write_all_upt ref_row_def)
    then show ?thesis using True upd by (simp add: mask_token_def Let_def)
  next
    case na: False
    show ?thesis
    proof (cases "ms_srct st ?s")
      case None
      have r: "fold (\<lambda>j row. row[j := mask_entry m ub ?c i j]) [0..<n_kv] (ms_data st ! i) = ref_row m kv ub n_kv i"
        using i(3) by (simp add: fold_row row write_all_upt ref_row_def)
      show ?thesis
        using inv i na None unfolding mask_token_def Let_def
        by (simp add: r [unfolded row] fold_append_filter mask_inv_def nth_list_update)
    next
      case (Some r)
      define idxs where "idxs = filter (record_cell m ub ?c ?s) [0..<n_kv]"
      have st: "r \<in> D" "r < length data" "ub_seq_id ub ! r ! 0 = ?s" "ms_idxs st ?s = idxs"
        using inv Some by (auto simp: mask_inv_def idxs_def)
      have rr: "ms_data st ! r = ref_row m kv ub n_kv r" using inv st(1,2) by (simp add: mask_inv_def)
      have le: "length idxs \<le> n_kv" using length_filter_le [of "record_cell m ub ?c ?s" "[0..<n_kv]"] by (simp add: idxs_def)
      have "fold (\<lambda>jj row. let j = idxs ! jj in row[j := mask_entry m ub ?c i j]) [0..<length idxs] row =
          fold (\<lambda>j row. row[j := mask_entry m ub ?c i j]) idxs row" for row
        by (subst (3) map_nth [symmetric], subst fold_map) (simp add: comp_def Let_def)
      then have f: "fold (\<lambda>jj row. let j = idxs ! jj in row[j := mask_entry m ub ?c i j]) [0..<min n_kv (length idxs)] row =
          write_all row (map (\<lambda>j. (j, mask_entry m ub ?c i j)) idxs)" for row
        using le by (simp add: fold_row min_absorb2)
      have "write_all (ref_row m kv ub n_kv r) (map (\<lambda>j. (j, mask_entry m ub ?c i j)) idxs) = ref_row m kv ub n_kv i"
      proof (rule nth_equalityI)
        fix j assume "j < length (write_all (ref_row m kv ub n_kv r) (map (\<lambda>j. (j, mask_entry m ub ?c i j)) idxs))"
        then have j: "j < n_kv" by (simp add: ref_row_def)
        show "write_all (ref_row m kv ub n_kv r) (map (\<lambda>j. (j, mask_entry m ub ?c i j)) idxs) ! j = ref_row m kv ub n_kv i ! j"
        proof (cases "j \<in> set idxs")
          case True
          then have "write_all (ref_row m kv ub n_kv r) (map (\<lambda>j. (j, mask_entry m ub ?c i j)) idxs) ! j = mask_entry m ub ?c i j"
            using j by (intro write_all_same) (auto simp: idxs_def comp_def ref_row_def)
          then show ?thesis using j by (simp add: ref_row_def)
        next
          case False
          then have nr: "\<not> record_cell m ub ?c ?s j" using j by (simp add: idxs_def)
          have "batch_pos_min ub ?s \<le> ub_pos ub ! i" "batch_pos_min ub ?s \<le> ub_pos ub ! r"
            using batch_pos_min_le [of i ub] batch_pos_min_le [of r ub] i(1) st(2,3) dat pos by auto
          then have "mask_entry m ub ?c i j = mask_entry m ub ?c r j"
            using nr na st(3) n by (intro mask_entry_unrecorded) auto
          moreover have "write_all (ref_row m kv ub n_kv r) (map (\<lambda>j. (j, mask_entry m ub ?c i j)) idxs) ! j = ref_row m kv ub n_kv r ! j"
            using False by (intro write_all_other) (auto simp: image_iff)
          ultimately show ?thesis using j st(3) by (simp add: ref_row_def)
        qed
      qed (simp add: ref_row_def)
      then show ?thesis
        using upd na Some st(4) unfolding mask_token_def Let_def by (simp add: f [unfolded Let_def] rr)
    qed
  qed
qed

lemma mask_stream_inv:
  assumes dat: "length data = ub_n_tokens ub" "\<forall>row \<in> set data. length row = n_kv"
    and pos: "\<forall>i < ub_n_tokens ub. ub_pos ub ! i \<le> INT32_MAX" and n: "mc_swa m \<longrightarrow> 0 < mc_n_swa m"
    and b: "b + k \<le> length data"
  shows "mask_inv m kv ub n_kv {b..<b + k} data
    (fold (\<lambda>ii. mask_token m kv ub n_kv (b + ii)) [0..<k] \<lparr>ms_srct = Map.empty, ms_idxs = (\<lambda>_. []), ms_data = data\<rparr>)"
  using b
proof (induction k)
  case 0
  then show ?case by (simp add: mask_inv_def)
next
  case (Suc k)
  have l: "length (data ! (b + k)) = n_kv" using dat(2) Suc.prems by simp
  have e: "{b..<b + Suc k} = insert (b + k) {b..<b + k}" by auto
  show ?case
    unfolding e using mask_token_inv [OF Suc.IH _ _ l dat(1) pos n] Suc.prems by simp
qed

lemma mask_impl_rows:
  assumes dat: "length data = ub_n_tokens ub" "\<forall>row \<in> set data. length row = n_kv"
    and pos: "\<forall>i < ub_n_tokens ub. ub_pos ub ! i \<le> INT32_MAX" and n: "mc_swa m \<longrightarrow> 0 < mc_n_swa m"
    and b: "n_stream * n_tps \<le> length data"
  shows "length (set_input_kq_mask_impl m kv ub n_kv n_stream n_tps data) = length data \<and>
    (\<forall>i < length data. set_input_kq_mask_impl m kv ub n_kv n_stream n_tps data ! i =
       (if i < n_stream * n_tps then ref_row m kv ub n_kv i else data ! i))"
  using b
proof (induction n_stream)
  case 0
  then show ?case by (simp add: set_input_kq_mask_impl_def)
next
  case (Suc k)
  define d where "d = set_input_kq_mask_impl m kv ub n_kv k n_tps data"
  have IH: "length d = length data" "\<forall>i < length data. d ! i = (if i < k * n_tps then ref_row m kv ub n_kv i else data ! i)"
    using Suc by (simp_all add: d_def)
  have rows: "\<forall>row \<in> set d. length row = n_kv"
    using IH dat(2) by (auto simp: in_set_conv_nth ref_row_def) (metis nth_mem length_map length_upt minus_nat.diff_0)
  have b': "k * n_tps + n_tps \<le> length d" using Suc.prems IH(1) by (simp add: add.commute)
  have "set_input_kq_mask_impl m kv ub n_kv (Suc k) n_tps data =
      ms_data (fold (\<lambda>ii. mask_token m kv ub n_kv (k * n_tps + ii)) [0..<n_tps] \<lparr>ms_srct = Map.empty, ms_idxs = (\<lambda>_. []), ms_data = d\<rparr>)"
    by (simp add: set_input_kq_mask_impl_def d_def)
  then show ?case
    using mask_stream_inv [OF _ rows pos n b', of kv] IH dat(1) by (auto simp: mask_inv_def add.commute)
qed

section \<open>Properties\<close>

text \<open>
  C8. The attention mask computed with the per-sequence shortcut is the mask of the direct
  definition: whatever the template parameters, the row of token \<open>i\<close> holds for every cell the
  decision \<open>mask_entry\<close> taken from that token and that cell alone.
\<close>

theorem kq_mask_is_reference:
  assumes "length data = ub_n_tokens ub" "\<forall>row \<in> set data. length row = n_kv"
    and "\<forall>i < ub_n_tokens ub. ub_pos ub ! i \<le> INT32_MAX" "kv_swa_type kv \<noteq> SWA_TYPE_NONE \<longrightarrow> 0 < kv_n_swa kv"
    and "kv_set_input_kq_mask causal use_alibi kv ub n_kv n_stream data = Some res" "i < ub_n_tokens ub" "j < n_kv"
  defines "m \<equiv> \<lparr>mc_causal = causal, mc_swa = (kv_swa_type kv \<noteq> SWA_TYPE_NONE), mc_is_2d = is_pos_2d ub,
    mc_alibi = use_alibi, mc_n_swa = kv_n_swa kv, mc_swa_type = kv_swa_type kv\<rparr>"
  shows "res ! i ! j = mask_entry m ub (v_cells kv ! (seq_to_stream kv ! (ub_seq_id ub ! i ! 0))) i j"
proof -
  have d: "ub_n_tokens ub mod n_stream = 0" and res: "res = set_input_kq_mask_impl m kv ub n_kv n_stream (ub_n_tokens ub div n_stream) data"
    using assms(5) by (auto simp: kv_set_input_kq_mask_def m_def split: if_splits)
  have "n_stream * (ub_n_tokens ub div n_stream) = ub_n_tokens ub"
    using d by (metis add.right_neutral mult_div_mod_eq)
  then show ?thesis
    using mask_impl_rows [OF assms(1,2,3), of m n_stream "ub_n_tokens ub div n_stream" kv] assms(1,4,6,7)
    by (simp add: res m_def ref_row_def)
qed

text \<open>Two tokens of sequence 0 at positions 1 and 2 against cells with positions 0, 1 and 2.\<close>

definition mask_demo_kv :: llama_kv_cache where
  "mask_demo_kv = \<lparr>kv_v_trans = False, kv_n_seq_max = 1, kv_n_stream = 1, kv_n_pad = 1, kv_n_swa = 0,
     kv_swa_type = SWA_TYPE_NONE, kv_msa_strict_slots = False, kv_other = None,
     v_cells = [cells_set_idxs [0, 1, 2] (cells_new\<lparr>kc_pos := [0, 1, 2], kc_ext := [ext_default, ext_default, ext_default],
        kc_seq := [{0}, {0}, {0}]\<rparr>) (cells_resize 4 cells_new)],
     v_heads = [0], seq_to_stream = [0], sc_info = [], kv_n_pos_per_embd = 1, kv_ple_n_heads = 0,
     kv_ple_image_token_id = 0, kv_ple_eos_token_id = 0, kv_n_embd_v_gqa_max = 1, kv_arch_step35 = False,
     kv_rope_none = False, kv_layer_k_idx = []\<rparr>"

definition mask_demo_ub :: llama_ubatch where
  "mask_demo_ub = ubatch_empty\<lparr>ub_n_tokens := 2, ub_n_pos := 1, ub_pos := [1, 2], ub_n_seq_id := [1, 1],
     ub_seq_id := [[0], [0]]\<rparr>"

theorem kq_mask_is_reference_witness:
  "\<exists>res. kv_set_input_kq_mask True False mask_demo_kv mask_demo_ub 4 1 [replicate 4 Drop, replicate 4 Drop] = Some res \<and>
     res ! 0 ! 2 = Drop \<and> res ! 1 ! 2 = Keep"
proof -
  have u: "ub_n_tokens mask_demo_ub = 2" "ub_pos mask_demo_ub = [1, 2]" "\<not> is_pos_2d mask_demo_ub"
    "ub_seq_id mask_demo_ub = [[0], [0]]"
    by (simp_all add: mask_demo_ub_def is_pos_2d_def ubatch_empty_def)
  have k: "kv_swa_type mask_demo_kv = SWA_TYPE_NONE" "seq_to_stream mask_demo_kv = [0]"
    "kc_pos (v_cells mask_demo_kv ! 0) = [0, 1, 2, -1]" "kc_seq (v_cells mask_demo_kv ! 0) = [{0}, {0}, {0}, {}]"
    by (simp_all add: mask_demo_kv_def cells_set_idxs_def cells_set_idxs_fold_fields cells_resize_def cells_reset_def
        cells_new_def vec_resize_def Let_def numeral_eq_Suc)
  obtain res where res: "kv_set_input_kq_mask True False mask_demo_kv mask_demo_ub 4 1 [replicate 4 Drop, replicate 4 Drop] = Some res"
    by (simp add: kv_set_input_kq_mask_def)
  note ref = kq_mask_is_reference [OF _ _ _ _ res]
  have "\<forall>i < 2. [1, 2 :: int] ! i \<le> INT32_MAX" by (auto simp: INT32_MAX_def less_2_cases_iff)
  then have "res ! 0 ! 2 = Drop" "res ! 1 ! 2 = Keep"
    using ref [of 0 2] ref [of 1 2] u k
    by (simp_all add: mask_entry_def Let_def cells_is_empty_def cells_seq_has_def cells_pos_get_def)
  with res show ?thesis by blast
qed

end
