(* ===== verification/Seq_Memory.thy ===== *)
theory Seq_Memory
  imports Batch
begin

text \<open>
  The contract of \<open>llama_memory_i\<close> (src/src/llama-memory.h) that the batch allocator and the server
  rely on: a sequence has a greatest position, and removing the tail of a sequence leaves nothing
  at or after the cut. The KV cache and the recurrent memory provide it.
\<close>

locale seq_memory =
  fixes inv :: "'m \<Rightarrow> bool"
    and valid :: "'m \<Rightarrow> nat \<Rightarrow> bool"
    and pos_max :: "'m \<Rightarrow> nat \<Rightarrow> llama_pos"
    and rm_tail :: "nat \<Rightarrow> llama_pos \<Rightarrow> 'm \<Rightarrow> 'm option"
  assumes pos_max_ge: "inv m \<Longrightarrow> valid m s \<Longrightarrow> -1 \<le> pos_max m s"
    and rm_tail_inv: "inv m \<Longrightarrow> valid m s \<Longrightarrow> 0 \<le> p \<Longrightarrow> rm_tail s p m = Some m' \<Longrightarrow> inv m'"
    and rm_tail_valid: "inv m \<Longrightarrow> valid m s \<Longrightarrow> 0 \<le> p \<Longrightarrow> rm_tail s p m = Some m' \<Longrightarrow> valid m' t = valid m t"
    and rm_tail_below: "inv m \<Longrightarrow> valid m s \<Longrightarrow> 0 \<le> p \<Longrightarrow> p \<le> INT32_MAX \<Longrightarrow> pos_max m s < INT32_MAX \<Longrightarrow> rm_tail s p m = Some m' \<Longrightarrow> pos_max m' s < p"
    and rm_tail_le: "inv m \<Longrightarrow> valid m s \<Longrightarrow> 0 \<le> p \<Longrightarrow> rm_tail s p m = Some m' \<Longrightarrow> pos_max m' s \<le> pos_max m s"
begin

lemma start_nonneg: "inv m \<Longrightarrow> valid m s \<Longrightarrow> 0 \<le> start_pos (Some (f, pos_max m)) s"
  using pos_max_ge [of m s] by (simp add: start_pos_def)

text \<open>After a truncation at \<open>p\<close> the next generated position is at most \<open>p\<close>, and never later than before.\<close>

lemma restart_at_cut:
  assumes "inv m" "valid m s" "0 \<le> p" "p \<le> INT32_MAX" "pos_max m s < INT32_MAX" "rm_tail s p m = Some m'"
  shows "start_pos (Some (f', pos_max m')) s \<le> min p (start_pos (Some (f, pos_max m)) s)"
  using rm_tail_below [OF assms] rm_tail_le [OF assms(1-3,6)] by (simp add: start_pos_def)

lemma restart_zero:
  assumes "inv m" "valid m s" "pos_max m s < INT32_MAX" "rm_tail s 0 m = Some m'"
  shows "start_pos (Some (f', pos_max m')) s = 0"
proof -
  have "inv m'" "valid m' s"
    using rm_tail_inv [OF assms(1,2) order_refl assms(4)] rm_tail_valid [OF assms(1,2) order_refl assms(4)] assms(2) by auto
  from start_nonneg [OF this, of f'] restart_at_cut [OF assms(1,2) _ _ assms(3,4), of f' f'] show ?thesis
    by (simp add: INT32_MAX_def)
qed

end

end
