(* ===== verification/Kv_Seq_Ops.thy ===== *)
theory Kv_Seq_Ops
  imports Kv_Cache Seq_Memory
begin

text \<open>
  The sequence operations of the KV cache seen through the set of positions each sequence holds:
  the invariant \<open>kv_ok\<close>, the loops over the cells as pointwise maps of the cell views, and for
  each operation the positions it leaves.
\<close>

section \<open>Loops over the cells\<close>

text \<open>What a cell holds: its position and its sequences.\<close>

definition cell_view :: "llama_kv_cells \<Rightarrow> nat \<Rightarrow> llama_pos \<times> nat set" where
  "cell_view c i = (kc_pos c ! i, kc_seq c ! i)"

text \<open>A loop whose round \<open>i\<close> changes the view of element \<open>i\<close> only.\<close>

lemma fold_pointwise:
  assumes "I s" "k \<le> n"
    and step: "\<And>i s. i < n \<Longrightarrow> I s \<Longrightarrow> I (f i s) \<and> V (f i s) i = g i (V s i) \<and> (\<forall>j < n. j \<noteq> i \<longrightarrow> V (f i s) j = V s j)"
  shows "I (fold f [0..<k] s) \<and> (\<forall>j < n. V (fold f [0..<k] s) j = (if j < k then g j (V s j) else V s j))"
  using assms(2)
proof (induction k)
  case 0
  then show ?case using assms(1) by simp
next
  case (Suc k)
  then have "I (fold f [0..<k] s)" "\<forall>j < n. V (fold f [0..<k] s) j = (if j < k then g j (V s j) else V s j)" by simp_all
  with step [of k "fold f [0..<k] s"] Suc.prems show ?case by (auto simp: less_Suc_eq)
qed

definition loop_inv :: "nat \<Rightarrow> llama_kv_cells \<times> nat \<Rightarrow> bool" where
  "loop_inv n = (\<lambda>(c, nh). cells_ok c \<and> cells_size c = n \<and> nh \<le> n)"

lemma freed_le [simp]: "i < n \<Longrightarrow> nh \<le> n \<Longrightarrow> freed n i b nh \<le> n"
  by (simp add: freed_def)

lemma cell_viewD: "cells_ok c \<Longrightarrow> i < cells_size c \<Longrightarrow> s \<in> kc_seq c ! i \<Longrightarrow> 0 \<le> kc_pos c ! i \<and> kc_pos c ! i \<noteq> -1"
  using cells_okD(4,5) [of c i] by (force simp: cells_size_def)

definition rm_view :: "nat \<Rightarrow> llama_pos \<Rightarrow> llama_pos \<Rightarrow> llama_pos \<times> nat set \<Rightarrow> llama_pos \<times> nat set" where
  "rm_view s p0 p1 = (\<lambda>(p, S). if p0 \<le> p \<and> p < p1 \<and> s \<in> S then (if S = {s} then -1 else p, S - {s}) else (p, S))"

lemma seq_rm_cell_step:
  assumes "i < n" "loop_inv n st"
  shows "loop_inv n (seq_rm_cell s p0 p1 i st) \<and>
    cell_view (fst (seq_rm_cell s p0 p1 i st)) i = rm_view s p0 p1 (cell_view (fst st) i) \<and>
    (\<forall>j < n. j \<noteq> i \<longrightarrow> cell_view (fst (seq_rm_cell s p0 p1 i st)) j = cell_view (fst st) j)"
proof -
  obtain c nh where st: "st = (c, nh)" by (cases st)
  have ok: "cells_ok c" and n: "length (kc_pos c) = n" and nh: "nh \<le> n"
    using assms(2) by (simp_all add: loop_inv_def st cells_size_def)
  have l: "i < length (kc_seq c)" "i < length (kc_pos c)" using cells_okD(3) [OF ok] n assms(1) by simp_all
  show ?thesis
  proof (cases "cells_pos_in c i p0 p1 \<and> s \<in> kc_seq c ! i")
    case False
    then have "seq_rm_cell s p0 p1 i st = st"
      by (auto simp: seq_rm_cell_def st cells_seq_has_def)
    moreover have "rm_view s p0 p1 (cell_view c i) = cell_view c i"
      using False by (auto simp: rm_view_def cell_view_def cells_pos_in_def)
    ultimately show ?thesis using assms(2) by (simp add: st)
  next
    case True
    then have r: "seq_rm_cell s p0 p1 i st = (fst (cells_seq_rm i s c), freed n i (snd (cells_seq_rm i s c)) nh)"
      by (simp add: seq_rm_cell_def st cells_seq_has_def case_prod_beta cells_size_def n)
    have ok': "cells_ok (fst (cells_seq_rm i s c))" using cells_ok_seq_rm [OF ok l(2)] True by blast
    have "kc_seq c ! i - {s} = {} \<longleftrightarrow> kc_seq c ! i = {s}" using True by blast
    then show ?thesis
      using True l ok' assms(1) nh n unfolding r
      by (simp add: st loop_inv_def cells_size_def cell_view_def rm_view_def cells_pos_in_def)
  qed
qed

lemma any_rm_cell_step:
  assumes "i < n" "loop_inv n st" "0 \<le> p0"
  shows "loop_inv n (any_rm_cell p0 p1 i st) \<and>
    cell_view (fst (any_rm_cell p0 p1 i st)) i =
      (if p0 \<le> fst (cell_view (fst st) i) \<and> fst (cell_view (fst st) i) < p1 then (-1, {}) else cell_view (fst st) i) \<and>
    (\<forall>j < n. j \<noteq> i \<longrightarrow> cell_view (fst (any_rm_cell p0 p1 i st)) j = cell_view (fst st) j)"
proof -
  obtain c nh where st: "st = (c, nh)" by (cases st)
  have ok: "cells_ok c" and n: "length (kc_pos c) = n" and nh: "nh \<le> n"
    using assms(2) by (simp_all add: loop_inv_def st cells_size_def)
  have l: "i < length (kc_seq c)" "i < length (kc_pos c)" using cells_okD(3) [OF ok] n assms(1) by simp_all
  show ?thesis
    using cells_ok_rm [OF ok l(2)] l assms(1,2) nh n
    by (simp add: any_rm_cell_def st cells_pos_in_def loop_inv_def cells_size_def cell_view_def)
qed

lemma seq_keep_cell_step:
  assumes "i < n" "loop_inv n st"
  shows "loop_inv n (seq_keep_cell s i st) \<and>
    cell_view (fst (seq_keep_cell s i st)) i =
      (case cell_view (fst st) i of (p, S) \<Rightarrow> (if s \<notin> S \<and> S \<noteq> {} then -1 else p, S \<inter> {s})) \<and>
    (\<forall>j < n. j \<noteq> i \<longrightarrow> cell_view (fst (seq_keep_cell s i st)) j = cell_view (fst st) j)"
proof -
  obtain c nh where st: "st = (c, nh)" by (cases st)
  have ok: "cells_ok c" and n: "length (kc_pos c) = n" and nh: "nh \<le> n"
    using assms(2) by (simp_all add: loop_inv_def st cells_size_def)
  have l: "i < length (kc_seq c)" "i < length (kc_pos c)" using cells_okD(3) [OF ok] n assms(1) by simp_all
  show ?thesis
    using cells_ok_seq_keep [OF ok l(2)] l assms(1) nh n
    by (simp add: seq_keep_cell_def st case_prod_beta loop_inv_def cells_size_def cell_view_def cells_seq_keep_fields)
qed

lemma seq_add_cell_step:
  assumes "i < n" "loop_inv n st" "0 \<le> p0"
  shows "loop_inv n (seq_add_cell s p0 p1 d i st) \<and>
    cell_view (fst (seq_add_cell s p0 p1 d i st)) i =
      (case cell_view (fst st) i of (p, S) \<Rightarrow>
         if p0 \<le> p \<and> p < p1 \<and> s \<in> S then (if p + d < 0 then (-1, {}) else (p + d, S)) else (p, S)) \<and>
    (\<forall>j < n. j \<noteq> i \<longrightarrow> cell_view (fst (seq_add_cell s p0 p1 d i st)) j = cell_view (fst st) j)"
proof -
  obtain c nh where st: "st = (c, nh)" by (cases st)
  have ok: "cells_ok c" and n: "length (kc_pos c) = n" and nh: "nh \<le> n"
    using assms(2) by (simp_all add: loop_inv_def st cells_size_def)
  have l: "i < length (kc_seq c)" "i < length (kc_pos c)" "length (kc_shift c) = length (kc_pos c)"
    using cells_okD(2,3) [OF ok] n assms(1) by simp_all
  show ?thesis
  proof (cases "cells_pos_in c i p0 p1 \<and> s \<in> kc_seq c ! i")
    case False
    then show ?thesis using assms(2)
      by (auto simp: seq_add_cell_def st cells_seq_has_def cell_view_def cells_pos_in_def)
  next
    case True
    have p: "kc_pos c ! i \<noteq> -1" using cell_viewD [OF ok] True l by (auto simp: cells_size_def)
    have r: "seq_add_cell s p0 p1 d i st = (fst (cells_pos_add i d c), freed n i (snd (cells_pos_add i d c)) nh)"
      using True by (simp add: seq_add_cell_def st cells_seq_has_def case_prod_beta cells_size_def n)
    show ?thesis
      using True l cells_ok_pos_add [OF ok l(2) p] assms(1) nh n unfolding r
      by (simp add: st loop_inv_def cells_size_def cell_view_def cells_pos_in_def)
  qed
qed

section \<open>The invariant of the cache\<close>

definition kv_ok :: "llama_kv_cache \<Rightarrow> bool" where
  "kv_ok kv \<longleftrightarrow> kv_other kv = None \<and> 0 < kv_n_stream kv \<and> length (v_cells kv) = kv_n_stream kv \<and>
     length (v_heads kv) = kv_n_stream kv \<and> length (seq_to_stream kv) \<le> LLAMA_MAX_SEQ \<and>
     (\<forall>st \<in> set (seq_to_stream kv). st < kv_n_stream kv) \<and>
     (\<forall>st < kv_n_stream kv. cells_ok (v_cells kv ! st) \<and> v_heads kv ! st \<le> cells_size (v_cells kv ! st)) \<and>
     (\<exists>n. \<forall>st < kv_n_stream kv. cells_size (v_cells kv ! st) = n)"

lemma kv_okD:
  assumes "kv_ok kv"
  shows "kv_other kv = None" "length (v_cells kv) = kv_n_stream kv" "length (v_heads kv) = kv_n_stream kv"
    "kv_seq_ok kv s \<Longrightarrow> stream_of kv s < kv_n_stream kv" "st < kv_n_stream kv \<Longrightarrow> cells_ok (v_cells kv ! st)"
    "st < kv_n_stream kv \<Longrightarrow> st' < kv_n_stream kv \<Longrightarrow> cells_size (v_cells kv ! st) = cells_size (v_cells kv ! st')"
    "st < kv_n_stream kv \<Longrightarrow> v_heads kv ! st \<le> cells_size (v_cells kv ! st)"
    "t < length (seq_to_stream kv) \<Longrightarrow> seq_to_stream kv ! t < kv_n_stream kv" "0 < kv_n_stream kv"
    "kv_seq_ok kv s \<Longrightarrow> nat s < LLAMA_MAX_SEQ"
proof -
  note k = assms [unfolded kv_ok_def]
  show "kv_other kv = None" "length (v_cells kv) = kv_n_stream kv" "length (v_heads kv) = kv_n_stream kv"
    "st < kv_n_stream kv \<Longrightarrow> cells_ok (v_cells kv ! st)"
    "st < kv_n_stream kv \<Longrightarrow> v_heads kv ! st \<le> cells_size (v_cells kv ! st)" "0 < kv_n_stream kv"
    using k by blast+
  show t: "t < length (seq_to_stream kv) \<Longrightarrow> seq_to_stream kv ! t < kv_n_stream kv" for t
    using k nth_mem by blast
  show "kv_seq_ok kv s \<Longrightarrow> stream_of kv s < kv_n_stream kv" using t by (simp add: kv_seq_ok_def stream_of_def)
  show "kv_seq_ok kv s \<Longrightarrow> nat s < LLAMA_MAX_SEQ" using k by (auto simp: kv_seq_ok_def)
  show "st < kv_n_stream kv \<Longrightarrow> st' < kv_n_stream kv \<Longrightarrow> cells_size (v_cells kv ! st) = cells_size (v_cells kv ! st')"
    using k by metis
qed

text \<open>Replacing the cells and head of one stream.\<close>

lemma kv_ok_stream:
  assumes "kv_ok kv" "st < kv_n_stream kv" "cells_ok c" "cells_size c = cells_size (v_cells kv ! st)" "h \<le> cells_size c"
  shows "kv_ok (kv\<lparr>v_cells := (v_cells kv)[st := c], v_heads := (v_heads kv)[st := h]\<rparr>)"
proof -
  obtain n where n: "\<forall>st < kv_n_stream kv. cells_size (v_cells kv ! st) = n" using assms(1) by (auto simp: kv_ok_def)
  show ?thesis
    unfolding kv_ok_def
    using assms n by (intro conjI exI [of _ n]) (auto simp: kv_ok_def nth_list_update)
qed

lemma over_cells_eq:
  assumes "kv_ok kv" "st < kv_n_stream kv"
    and fold: "loop_inv (cells_size (v_cells kv ! st)) (fold f [0..<cells_size (v_cells kv ! st)] (v_cells kv ! st, cells_size (v_cells kv ! st)))"
  defines "c' \<equiv> fst (fold f [0..<cells_size (v_cells kv ! st)] (v_cells kv ! st, cells_size (v_cells kv ! st)))"
  shows "\<exists>h. over_cells f st kv = kv\<lparr>v_cells := (v_cells kv)[st := c'], v_heads := (v_heads kv)[st := h]\<rparr> \<and>
      h \<le> v_heads kv ! st \<and> cells_ok c' \<and> cells_size c' = cells_size (v_cells kv ! st)"
proof -
  let ?n = "cells_size (v_cells kv ! st)"
  obtain nh where f: "fold f [0..<?n] (v_cells kv ! st, ?n) = (c', nh)" by (metis c'_def prod.collapse)
  have p: "cells_ok c'" "cells_size c' = ?n" using fold f by (simp_all add: loop_inv_def)
  show ?thesis
    using p by (intro exI [of _ "if nh \<noteq> ?n \<and> nh < v_heads kv ! st then nh else v_heads kv ! st"])
      (auto simp: over_cells_def f list_update_id)
qed

lemma loop_inv_start: "kv_ok kv \<Longrightarrow> st < kv_n_stream kv \<Longrightarrow> loop_inv (cells_size (v_cells kv ! st)) (v_cells kv ! st, cells_size (v_cells kv ! st))"
  by (simp add: loop_inv_def kv_okD(5))


section \<open>Effect of the sequence operations on the positions\<close>

definition kv_positions :: "llama_kv_cache \<Rightarrow> nat \<Rightarrow> llama_pos set" where
  "kv_positions kv s = seq_positions (v_cells kv ! (seq_to_stream kv ! s)) s"

lemma seq_positions_view: "seq_positions c s = {p. \<exists>i < cells_size c. \<exists>S. cell_view c i = (p, S) \<and> s \<in> S}"
  by (auto simp: seq_positions_def cells_size_def cell_view_def)

lemma in_range_of: "cells_ok c \<Longrightarrow> p \<in> seq_positions c s \<Longrightarrow> 0 \<le> p"
  by (rule seq_positions_nonneg)

text \<open>One lemma for every operation that loops over the cells of one stream.\<close>

lemma over_cells_views:
  assumes ok: "kv_ok kv" and st: "st < kv_n_stream kv"
    and step: "\<And>i x. i < cells_size (v_cells kv ! st) \<Longrightarrow> loop_inv (cells_size (v_cells kv ! st)) x \<Longrightarrow>
      loop_inv (cells_size (v_cells kv ! st)) (f i x) \<and> cell_view (fst (f i x)) i = g i (cell_view (fst x) i) \<and>
      (\<forall>j < cells_size (v_cells kv ! st). j \<noteq> i \<longrightarrow> cell_view (fst (f i x)) j = cell_view (fst x) j)"
  shows "\<exists>c h. over_cells f st kv = kv\<lparr>v_cells := (v_cells kv)[st := c], v_heads := (v_heads kv)[st := h]\<rparr> \<and>
    kv_ok (over_cells f st kv) \<and> h \<le> v_heads kv ! st \<and> cells_ok c \<and> cells_size c = cells_size (v_cells kv ! st) \<and>
    (\<forall>i < cells_size c. cell_view c i = g i (cell_view (v_cells kv ! st) i))"
proof -
  let ?n = "cells_size (v_cells kv ! st)" and ?x = "(v_cells kv ! st, cells_size (v_cells kv ! st))"
  have F: "loop_inv ?n (fold f [0..<?n] ?x) \<and>
      (\<forall>j < ?n. cell_view (fst (fold f [0..<?n] ?x)) j = (if j < ?n then g j (cell_view (fst ?x) j) else cell_view (fst ?x) j))"
    by (rule fold_pointwise [where I = "loop_inv ?n" and V = "\<lambda>x. cell_view (fst x)" and n = ?n])
      (use loop_inv_start [OF ok st] step in auto)
  from over_cells_eq [OF ok st conjunct1 [OF F]] obtain h where
    h: "over_cells f st kv = kv\<lparr>v_cells := (v_cells kv)[st := fst (fold f [0..<?n] ?x)], v_heads := (v_heads kv)[st := h]\<rparr>"
    "h \<le> v_heads kv ! st" "cells_ok (fst (fold f [0..<?n] ?x))" "cells_size (fst (fold f [0..<?n] ?x)) = ?n" by blast
  have "h \<le> cells_size (fst (fold f [0..<?n] ?x))" using h(2,4) kv_okD(7) [OF ok st] by simp
  then have "kv_ok (over_cells f st kv)" unfolding h(1) using kv_ok_stream [OF ok st h(3,4)] by blast
  then show ?thesis using h F by (intro exI [of _ "fst (fold f [0..<?n] ?x)"] exI [of _ h]) simp
qed

lemma rm_view_positions:
  assumes "cells_size c' = cells_size c" "\<forall>i < cells_size c'. cell_view c' i = rm_view s p0 p1 (cell_view c i)"
  shows "seq_positions c' t = (if t = s then {p \<in> seq_positions c s. p < p0 \<or> p1 \<le> p} else seq_positions c t)"
proof -
  have "(\<exists>S'. rm_view s p0 p1 (q, S) = (p, S') \<and> t \<in> S') \<longleftrightarrow> p = q \<and> t \<in> S \<and> (t = s \<longrightarrow> p < p0 \<or> p1 \<le> p)" for q S p
    by (auto simp: rm_view_def)
  then have e: "(\<exists>S'. rm_view s p0 p1 v = (p, S') \<and> t \<in> S') \<longleftrightarrow> (\<exists>S. v = (p, S) \<and> t \<in> S \<and> (t = s \<longrightarrow> p < p0 \<or> p1 \<le> p))" for v p
    by (cases v) auto
  have "(\<exists>i < cells_size c. \<exists>S'. cell_view c' i = (p, S') \<and> t \<in> S') \<longleftrightarrow>
      (\<exists>i < cells_size c. \<exists>S. cell_view c i = (p, S) \<and> t \<in> S \<and> (t = s \<longrightarrow> p < p0 \<or> p1 \<le> p))" for p
    using assms(2) unfolding assms(1) by (simp add: e cong: conj_cong)
  then show ?thesis unfolding seq_positions_view assms(1) by auto
qed

lemma kv_seq_rm_views:
  assumes ok: "kv_ok kv" and s: "kv_seq_ok kv s" and rm: "kv_seq_rm s p0 p1 kv = Some (kv', True)"
  shows "kv_ok kv' \<and> seq_to_stream kv' = seq_to_stream kv \<and>
    (\<forall>st < kv_n_stream kv. cells_size (v_cells kv' ! st) = cells_size (v_cells kv ! st) \<and>
       (\<forall>i < cells_size (v_cells kv ! st). cell_view (v_cells kv' ! st) i =
         (if st = stream_of kv s then rm_view (nat s) (lo_pos p0) (hi_pos p1) (cell_view (v_cells kv ! st) i)
          else cell_view (v_cells kv ! st) i)))"
proof (cases "lo_pos p0 \<ge> hi_pos p1")
  case True
  have "kv' = kv" using rm True s kv_okD(1) [OF ok] by (auto simp: kv_seq_rm_def Let_def)
  moreover have "rm_view (nat s) (lo_pos p0) (hi_pos p1) v = v" for v using True by (cases v) (auto simp: rm_view_def)
  ultimately show ?thesis using ok by simp
next
  case False
  let ?st = "stream_of kv s"
  have kv': "kv' = over_cells (seq_rm_cell (nat s) (lo_pos p0) (hi_pos p1)) ?st kv"
    using rm False s kv_okD(1) [OF ok] by (auto simp: kv_seq_rm_def Let_def kv_seq_ok_def split: if_splits)
  have st: "?st < kv_n_stream kv" by (rule kv_okD(4) [OF ok s])
  from over_cells_views [OF ok st, of "seq_rm_cell (nat s) (lo_pos p0) (hi_pos p1)" "\<lambda>_. rm_view (nat s) (lo_pos p0) (hi_pos p1)"]
    seq_rm_cell_step
  obtain c h where c: "kv' = kv\<lparr>v_cells := (v_cells kv)[?st := c], v_heads := (v_heads kv)[?st := h]\<rparr>" "kv_ok kv'"
    "cells_size c = cells_size (v_cells kv ! ?st)"
    "\<forall>i < cells_size c. cell_view c i = rm_view (nat s) (lo_pos p0) (hi_pos p1) (cell_view (v_cells kv ! ?st) i)"
    unfolding kv' by blast
  then show ?thesis using st kv_okD(2) [OF ok] by (auto simp: nth_list_update)
qed


lemma seq_rm_positions:
  assumes ok: "kv_ok kv" and s: "kv_seq_ok kv s" and t: "t < length (seq_to_stream kv)"
    and rm: "kv_seq_rm s p0 p1 kv = Some (kv', True)"
  shows "kv_positions kv' t =
      (if int t = s then {p \<in> kv_positions kv t. p < lo_pos p0 \<or> hi_pos p1 \<le> p} else kv_positions kv t)"
proof -
  note V = kv_seq_rm_views [OF ok s rm]
  have lt: "seq_to_stream kv ! t < kv_n_stream kv" by (rule kv_okD(8) [OF ok t])
  show ?thesis
  proof (cases "seq_to_stream kv ! t = stream_of kv s")
    case True
    have ts: "int t = s \<longleftrightarrow> t = nat s" using s by (auto simp: kv_seq_ok_def)
    show ?thesis
      using rm_view_positions [of "v_cells kv' ! (seq_to_stream kv ! t)" "v_cells kv ! (seq_to_stream kv ! t)" "nat s" "lo_pos p0" "hi_pos p1" t]
        V lt True by (simp add: kv_positions_def ts)
  next
    case False
    then have "int t \<noteq> s" by (auto simp: stream_of_def)
    moreover have "seq_positions (v_cells kv' ! (seq_to_stream kv ! t)) t = seq_positions (v_cells kv ! (seq_to_stream kv ! t)) t"
      using V lt False by (simp add: seq_positions_view cong: conj_cong)
    ultimately show ?thesis using V by (simp add: kv_positions_def)
  qed
qed

lemma seq_keep_positions:
  assumes ok: "kv_ok kv" and s: "kv_seq_ok kv s" and t: "t < length (seq_to_stream kv)"
    and keep: "kv_seq_keep s kv = Some kv'"
  shows "kv_ok kv' \<and> kv_positions kv' t =
      (if seq_to_stream kv ! t = stream_of kv s \<and> int t \<noteq> s then {} else kv_positions kv t)"
proof -
  let ?st = "stream_of kv s"
  have kv': "kv' = over_cells (seq_keep_cell (nat s)) ?st kv"
    using keep s kv_okD(1) [OF ok] by (simp add: kv_seq_keep_def)
  have st: "?st < kv_n_stream kv" by (rule kv_okD(4) [OF ok s])
  from over_cells_views [OF ok st, of "seq_keep_cell (nat s)"
      "\<lambda>_ v. case v of (p, S) \<Rightarrow> (if nat s \<notin> S \<and> S \<noteq> {} then -1 else p, S \<inter> {nat s})"] seq_keep_cell_step
  obtain c h where c: "kv' = kv\<lparr>v_cells := (v_cells kv)[?st := c], v_heads := (v_heads kv)[?st := h]\<rparr>" "kv_ok kv'"
    "cells_size c = cells_size (v_cells kv ! ?st)"
    "\<forall>i < cells_size c. cell_view c i =
      (case cell_view (v_cells kv ! ?st) i of (p, S) \<Rightarrow> (if nat s \<notin> S \<and> S \<noteq> {} then -1 else p, S \<inter> {nat s}))"
    unfolding kv' by blast
  have e: "(\<exists>S'. (case v of (p, S) \<Rightarrow> (if nat s \<notin> S \<and> S \<noteq> {} then -1 else p, S \<inter> {nat s})) = (p, S') \<and> t \<in> S') \<longleftrightarrow>
      (\<exists>S. v = (p, S) \<and> t \<in> S \<and> t = nat s)" for v :: "llama_pos \<times> nat set" and p
    by (cases v) auto
  have pc: "seq_positions c t = (if t = nat s then seq_positions (v_cells kv ! ?st) t else {})"
    unfolding seq_positions_view using c(4) unfolding c(3) by (simp add: e cong: conj_cong)
  have ts: "int t = s \<longleftrightarrow> t = nat s" using s by (auto simp: kv_seq_ok_def)
  have lt: "seq_to_stream kv ! t < length (v_cells kv)" using kv_okD(8) [OF ok t] kv_okD(2) [OF ok] by simp
  have "kv_positions kv' t = (if seq_to_stream kv ! t = ?st \<and> int t \<noteq> s then {} else kv_positions kv t)"
  proof (cases "seq_to_stream kv ! t = ?st")
    case True
    then show ?thesis using lt st kv_okD(2) [OF ok] by (auto simp: kv_positions_def c(1) pc ts)
  next
    case False
    then show ?thesis using lt by (simp add: kv_positions_def c(1))
  qed
  then show ?thesis using c(2) by simp
qed

lemma shift_set:
  "{p. \<exists>q \<in> Q. (if lo \<le> q \<and> q < hi then p = q + d \<and> 0 \<le> p else p = q)} =
   {p \<in> Q. p < lo \<or> hi \<le> p} \<union> {p + d |p. p \<in> Q \<and> lo \<le> p \<and> p < hi \<and> 0 \<le> p + d}" for lo hi d :: int
proof (rule set_eqI)
  fix p
  have "(\<exists>q \<in> Q. (if lo \<le> q \<and> q < hi then p = q + d \<and> 0 \<le> p else p = q)) \<longleftrightarrow>
      (\<exists>q \<in> Q. lo \<le> q \<and> q < hi \<and> p = q + d \<and> 0 \<le> p) \<or> (\<exists>q \<in> Q. \<not> (lo \<le> q \<and> q < hi) \<and> p = q)"
    by (auto split: if_splits)
  also have "\<dots> \<longleftrightarrow> p \<in> {p \<in> Q. p < lo \<or> hi \<le> p} \<union> {p + d |p. p \<in> Q \<and> lo \<le> p \<and> p < hi \<and> 0 \<le> p + d}"
    by (auto simp: not_le not_less)
  finally show "p \<in> {p. \<exists>q \<in> Q. (if lo \<le> q \<and> q < hi then p = q + d \<and> 0 \<le> p else p = q)} \<longleftrightarrow>
      p \<in> {p \<in> Q. p < lo \<or> hi \<le> p} \<union> {p + d |p. p \<in> Q \<and> lo \<le> p \<and> p < hi \<and> 0 \<le> p + d}" by simp
qed

lemma seq_add_positions:
  assumes ok: "kv_ok kv" and s: "kv_seq_ok kv s" and d: "shift \<noteq> 0"
    and add: "kv_seq_add s p0 p1 shift kv = Some kv'"
  shows "kv_ok kv' \<and> kv_positions kv' (nat s) =
     (if lo_pos p0 = hi_pos p1 then kv_positions kv (nat s)
      else {p \<in> kv_positions kv (nat s). p < lo_pos p0 \<or> hi_pos p1 \<le> p} \<union>
       {p + shift |p. p \<in> kv_positions kv (nat s) \<and> lo_pos p0 \<le> p \<and> p < hi_pos p1 \<and> 0 \<le> p + shift})"
proof (cases "lo_pos p0 = hi_pos p1")
  case True
  then show ?thesis using add ok s d kv_okD(1) [OF ok] by (auto simp: kv_seq_add_def Let_def split: if_splits)
next
  case False
  let ?st = "stream_of kv s" and ?f = "seq_add_cell (nat s) (lo_pos p0) (hi_pos p1) shift"
  let ?c = "v_cells kv ! ?st"
  let ?n = "cells_size ?c"
  let ?g = "\<lambda>v. case v of (p, S) \<Rightarrow>
      if lo_pos p0 \<le> p \<and> p < hi_pos p1 \<and> nat s \<in> S then (if p + shift < 0 then (-1, {}) else (p + shift, S)) else (p, S)"
  have st: "?st < kv_n_stream kv" by (rule kv_okD(4) [OF ok s])
  have lo: "0 \<le> lo_pos p0" by (simp add: lo_pos_def)
  have F: "loop_inv ?n (fold ?f [0..<?n] (?c, ?n)) \<and>
      (\<forall>j < ?n. cell_view (fst (fold ?f [0..<?n] (?c, ?n))) j = (if j < ?n then ?g (cell_view (fst (?c, ?n)) j) else cell_view (fst (?c, ?n)) j))"
    by (rule fold_pointwise [where I = "loop_inv ?n" and V = "\<lambda>x. cell_view (fst x)" and n = ?n and g = "\<lambda>_. ?g"])
      (use loop_inv_start [OF ok st] seq_add_cell_step lo in auto)
  obtain c nh where f: "fold ?f [0..<?n] (?c, ?n) = (c, nh)" by fastforce
  have c: "cells_ok c" "cells_size c = ?n" "nh \<le> ?n" "\<forall>j < ?n. cell_view c j = ?g (cell_view ?c j)"
    using F by (auto simp: f loop_inv_def)
  have kv': "kv' = kv\<lparr>v_cells := (v_cells kv)[?st := c], v_heads := (v_heads kv)[?st := (if nh \<noteq> ?n then nh else 0)]\<rparr>"
    using add False s d kv_okD(1) [OF ok] by (simp add: kv_seq_add_def Let_def f c(2) split: if_splits)
  have "kv_ok kv'" unfolding kv' using c by (intro kv_ok_stream [OF ok st]) auto
  moreover have "nat s \<in> S' \<and> ?g v = (p, S') \<longleftrightarrow>
      (\<exists>q S. v = (q, S) \<and> nat s \<in> S \<and> S' = S \<and> (if lo_pos p0 \<le> q \<and> q < hi_pos p1 then p = q + shift \<and> 0 \<le> p else p = q))" for v p S'
    by (cases v) auto
  then have e: "(\<exists>S'. ?g v = (p, S') \<and> nat s \<in> S') \<longleftrightarrow>
      (\<exists>q S. v = (q, S) \<and> nat s \<in> S \<and> (if lo_pos p0 \<le> q \<and> q < hi_pos p1 then p = q + shift \<and> 0 \<le> p else p = q))" for v p
    by blast
  have "seq_positions c (nat s) = {p. \<exists>q \<in> seq_positions ?c (nat s).
      (if lo_pos p0 \<le> q \<and> q < hi_pos p1 then p = q + shift \<and> 0 \<le> p else p = q)}"
    unfolding seq_positions_view c(2) using c(4) by (simp add: e cong: conj_cong) blast
  moreover have "kv_positions kv' (nat s) = seq_positions c (nat s)" "kv_positions kv (nat s) = seq_positions ?c (nat s)"
    using st kv_okD(2) [OF ok] by (simp_all add: kv_positions_def kv' stream_of_def)
  ultimately show ?thesis using False by (simp add: shift_set)
qed


text \<open>A copy within a stream: the target must hold none of the copied cells yet (the \<open>assert\<close> of \<open>seq_add\<close>).\<close>

lemma seq_cp_positions:
  assumes ok: "kv_ok kv" and s: "kv_seq_ok kv src" "kv_seq_ok kv dst" and st: "stream_of kv src = stream_of kv dst"
    and fresh: "kv_positions kv (nat dst) = {}" and t: "t < length (seq_to_stream kv)"
    and cp: "kv_seq_cp src dst p0 p1 kv = Some kv'"
  shows "kv_ok kv' \<and> kv_positions kv' t =
     (if int t = dst \<and> src \<noteq> dst then {p \<in> kv_positions kv (nat src). lo_pos p0 \<le> p \<and> p < hi_pos p1} else kv_positions kv t)"
proof (cases "src = dst")
  case True
  then show ?thesis using cp ok s st kv_okD(1) [OF ok] by (simp add: kv_seq_cp_def Let_def)
next
  case False
  let ?st = "stream_of kv dst" and ?f = "seq_cp_cell (nat src) (nat dst) (lo_pos p0) (hi_pos p1)"
  let ?c = "v_cells kv ! ?st"
  let ?n = "cells_size ?c"
  let ?I = "\<lambda>c. cells_ok c \<and> cells_size c = ?n"
  let ?R = "\<lambda>(p, S). lo_pos p0 \<le> p \<and> p < hi_pos p1 \<and> nat src \<in> S"
  let ?g = "\<lambda>v. if ?R v then (fst v, insert (nat dst) (snd v)) else v"
  have lst: "?st < kv_n_stream kv" by (rule kv_okD(4) [OF ok s(2)])
  have ne: "nat src \<noteq> nat dst" using False s by (auto simp: kv_seq_ok_def)
  have okc: "?I ?c" using kv_okD(5) [OF ok lst] by simp
  have not_in: "nat dst \<notin> snd (cell_view ?c i)" if "i < ?n" for i
    using fresh that by (auto simp: kv_positions_def seq_positions_def stream_of_def cell_view_def cells_size_def)
  have F: "(\<lambda>c. ?I c \<and> (\<forall>j < ?n. k \<le> j \<longrightarrow> cell_view c j = cell_view ?c j)) (fold ?f [0..<k] ?c) \<and>
      (\<forall>j < ?n. cell_view (fold ?f [0..<k] ?c) j = (if j < k then ?g (cell_view ?c j) else cell_view ?c j))" if "k \<le> ?n" for k
    using that
  proof (induction k)
    case 0
    then show ?case using okc by simp
  next
    case (Suc k)
    define c where "c = fold ?f [0..<k] ?c"
    have IH: "cells_ok c" "cells_size c = ?n" "cell_view c k = cell_view ?c k"
      "\<forall>j < ?n. cell_view c j = (if j < k then ?g (cell_view ?c j) else cell_view ?c j)"
      using Suc by (simp_all add: c_def)
    have k: "k < length (kc_pos c)" "k < length (kc_seq c)" using IH(1,2) Suc.prems cells_okD(3) by (auto simp: cells_size_def)
    have step: "cells_ok (?f k c) \<and> cells_size (?f k c) = ?n \<and> cell_view (?f k c) k = ?g (cell_view ?c k) \<and>
        (\<forall>j < ?n. j \<noteq> k \<longrightarrow> cell_view (?f k c) j = cell_view c j)"
    proof (cases "?R (cell_view c k)")
      case True
      then have r: "?f k c = cells_seq_add k (nat dst) c"
        by (simp add: seq_cp_cell_def cells_pos_in_def cells_seq_has_def cell_view_def)
      have p: "kc_pos c ! k \<noteq> -1" using True by (auto simp: cell_view_def lo_pos_def split: if_splits)
      have "nat dst \<notin> kc_seq c ! k" using not_in [of k] Suc.prems IH(3) by (simp add: cell_view_def)
      then have "cells_ok (?f k c)" unfolding r using kv_okD(10) [OF ok s(2)] p k by (intro cells_ok_seq_add [OF IH(1)]) auto
      then show ?thesis using True k IH(2,3) unfolding r by (auto simp: cells_size_def cell_view_def)
    next
      case False
      then have "?f k c = c" by (auto simp: seq_cp_cell_def cells_pos_in_def cells_seq_has_def cell_view_def)
      then show ?thesis using False IH(1,2,3) by simp
    qed
    show ?case using step IH(4) Suc.prems by (simp add: c_def [symmetric]) (auto simp: less_Suc_eq)
  qed
  define c where "c = fold ?f [0..<?n] ?c"
  have c: "cells_ok c" "cells_size c = ?n" "\<forall>j < ?n. cell_view c j = ?g (cell_view ?c j)"
    using F [OF order_refl] by (simp_all add: c_def)
  have kv': "kv' = kv\<lparr>v_cells := (v_cells kv)[?st := c]\<rparr>"
    using cp False s st kv_okD(1) [OF ok] by (simp add: kv_seq_cp_def Let_def c_def)
  have "kv_ok (kv\<lparr>v_cells := (v_cells kv)[?st := c], v_heads := (v_heads kv)[?st := v_heads kv ! ?st]\<rparr>)"
    using c(1,2) kv_okD(7) [OF ok lst] by (intro kv_ok_stream [OF ok lst]) auto
  then have "kv_ok kv'" by (simp add: kv' list_update_id)
  moreover have "(\<exists>S'. ?g v = (p, S') \<and> t \<in> S') \<longleftrightarrow>
      (\<exists>S. v = (p, S) \<and> (t \<in> S \<or> (t = nat dst \<and> lo_pos p0 \<le> p \<and> p < hi_pos p1 \<and> nat src \<in> S)))" for v :: "llama_pos \<times> nat set" and p
    by (cases v) auto
  note e = this
  have pc: "seq_positions c t = seq_positions ?c t \<union>
      (if t = nat dst then {p \<in> seq_positions ?c (nat src). lo_pos p0 \<le> p \<and> p < hi_pos p1} else {})"
    unfolding seq_positions_view c(2) using c(3) by (simp add: e cong: conj_cong) blast
  have ts: "int t = dst \<longleftrightarrow> t = nat dst" using s by (auto simp: kv_seq_ok_def)
  have lt: "seq_to_stream kv ! t < length (v_cells kv)" using kv_okD(8) [OF ok t] kv_okD(2) [OF ok] by simp
  have "kv_positions kv' t =
     (if int t = dst \<and> src \<noteq> dst then {p \<in> kv_positions kv (nat src). lo_pos p0 \<le> p \<and> p < hi_pos p1} else kv_positions kv t)"
  proof (cases "seq_to_stream kv ! t = ?st")
    case True
    have "seq_to_stream kv ! nat src = ?st" using st by (simp add: stream_of_def)
    then show ?thesis using True lt fresh False by (auto simp: kv_positions_def kv' pc ts)
  next
    case False
    then have "t \<noteq> nat dst" by (auto simp: stream_of_def)
    then show ?thesis using lt False by (simp add: kv_positions_def kv' ts)
  qed
  ultimately show ?thesis by blast
qed


section \<open>Reachable caches\<close>

lemma kv_ok_init:
  assumes "kv_other kv = None" "0 < n_seq_max" "n_seq_max \<le> LLAMA_MAX_SEQ"
  shows "kv_ok (kv_init unified kv_size n_seq_max kv)"
proof -
  have "cells_ok (cells_resize kv_size cells_new)" by (intro cells_ok_resize cells_ok_new)
  then show ?thesis using assms by (auto simp: kv_ok_def kv_init_def Let_def)
qed

lemma kv_ok_clear: "kv_ok kv \<Longrightarrow> kv_ok (kv_clear kv)"
proof -
  let ?f = "\<lambda>s kv. kv\<lparr>v_cells := (v_cells kv)[s := cells_reset (v_cells kv ! s)], v_heads := (v_heads kv)[s := 0]\<rparr>"
  assume ok: "kv_ok kv"
  have "kv_ok (fold ?f [0..<k] kv) \<and> kv_n_stream (fold ?f [0..<k] kv) = kv_n_stream kv" if "k \<le> kv_n_stream kv" for k
    using that
  proof (induction k)
    case (Suc k)
    let ?kv = "fold ?f [0..<k] kv"
    have IH: "kv_ok ?kv" "kv_n_stream ?kv = kv_n_stream kv" using Suc by auto
    have k: "k < kv_n_stream ?kv" using Suc.prems IH(2) by simp
    have c: "cells_ok (v_cells ?kv ! k)" by (rule kv_okD(5) [OF IH(1) k])
    have "cells_ok (cells_reset (v_cells ?kv ! k))"
      using cells_okD(10) [OF c] by (intro cells_ok_reset) (auto simp: cells_index_ok_def)
    from kv_ok_stream [OF IH(1) k this, of 0] IH(2) show ?case
      by (simp add: cells_reset_def cells_size_def Let_def)
  qed (simp add: ok)
  from this [of "kv_n_stream kv"] show ?thesis by (simp add: kv_clear_def)
qed

lemma kv_ok_seq_rm:
  assumes ok: "kv_ok kv" and s: "s = -1 \<or> kv_seq_ok kv s" and rm: "kv_seq_rm s p0 p1 kv = Some (kv', b)"
  shows "kv_ok kv'"
proof (cases b)
  case False
  then show ?thesis using rm ok kv_okD(1) [OF ok] by (auto simp: kv_seq_rm_def Let_def split: if_splits)
next
  case True
  show ?thesis
  proof (cases "s = -1")
    case False
    then have "kv_seq_ok kv s" using s by blast
    with kv_seq_rm_views [OF ok this, of p0 p1 kv'] rm True show ?thesis by simp
  next
    case s: True
    let ?f = "over_cells (any_rm_cell (lo_pos p0) (hi_pos p1))"
    have "kv' = kv \<or> kv' = fold ?f [0..<kv_n_stream kv] kv"
      using rm True s kv_okD(1) [OF ok] by (auto simp: kv_seq_rm_def Let_def split: if_splits)
    moreover have "kv_ok (fold ?f [0..<k] kv) \<and> kv_n_stream (fold ?f [0..<k] kv) = kv_n_stream kv" if "k \<le> kv_n_stream kv" for k
      using that
    proof (induction k)
      case (Suc k)
      let ?kv = "fold ?f [0..<k] kv"
      have IH: "kv_ok ?kv" "kv_n_stream ?kv = kv_n_stream kv" using Suc by auto
      have k: "k < kv_n_stream ?kv" using Suc.prems IH(2) by simp
      have lo: "0 \<le> lo_pos p0" by (simp add: lo_pos_def)
      from over_cells_views [OF IH(1) k, of "any_rm_cell (lo_pos p0) (hi_pos p1)"
          "\<lambda>_ v. if lo_pos p0 \<le> fst v \<and> fst v < hi_pos p1 then (-1, {}) else v"] any_rm_cell_step [OF _ _ lo]
      have "kv_ok (?f k ?kv) \<and> kv_n_stream (?f k ?kv) = kv_n_stream ?kv" by force
      then show ?case using IH by simp
    qed (simp add: ok)
    ultimately show ?thesis using ok by auto
  qed
qed


section \<open>The KV cache provides the memory contract\<close>

definition kv_valid :: "llama_kv_cache \<Rightarrow> nat \<Rightarrow> bool" where
  "kv_valid kv s \<longleftrightarrow> s < length (seq_to_stream kv)"

definition kv_pos_max :: "llama_kv_cache \<Rightarrow> nat \<Rightarrow> llama_pos" where
  "kv_pos_max kv s = the (kv_seq_pos_max (int s) kv)"

definition kv_rm_tail :: "nat \<Rightarrow> llama_pos \<Rightarrow> llama_kv_cache \<Rightarrow> llama_kv_cache option" where
  "kv_rm_tail s p kv = (case kv_seq_rm (int s) p (-1) kv of Some (kv', True) \<Rightarrow> Some kv' | _ \<Rightarrow> None)"

lemma kv_validD: "kv_valid kv s \<Longrightarrow> kv_seq_ok kv (int s)"
  by (simp add: kv_valid_def kv_seq_ok_def)

lemma finite_kv_positions [simp]: "finite (kv_positions kv s)"
  by (simp add: kv_positions_def)

lemma kv_positions_nonneg: "kv_ok kv \<Longrightarrow> kv_valid kv s \<Longrightarrow> p \<in> kv_positions kv s \<Longrightarrow> 0 \<le> p"
  using seq_positions_nonneg [OF kv_okD(5) [OF _ kv_okD(8)]] by (simp add: kv_positions_def kv_valid_def)

lemma kv_pos_bounds:
  assumes "kv_ok kv" "kv_valid kv s"
  shows "kv_seq_pos_max (int s) kv = Some (if kv_positions kv s = {} then -1 else Max (kv_positions kv s))"
    "kv_seq_pos_min (int s) kv = Some (if kv_positions kv s = {} then -1 else Min (kv_positions kv s))"
proof -
  have "cells_ok (v_cells kv ! (seq_to_stream kv ! s))"
    using assms(2) by (intro kv_okD(5) [OF assms(1)] kv_okD(8) [OF assms(1)]) (simp add: kv_valid_def)
  from cells_seq_pos_max_eq [OF this] cells_seq_pos_min_eq [OF this] show
    "kv_seq_pos_max (int s) kv = Some (if kv_positions kv s = {} then -1 else Max (kv_positions kv s))"
    "kv_seq_pos_min (int s) kv = Some (if kv_positions kv s = {} then -1 else Min (kv_positions kv s))"
    using kv_okD(1) [OF assms(1)] kv_validD [OF assms(2)]
    by (simp_all add: kv_seq_pos_max_def kv_seq_pos_min_def stream_of_def kv_positions_def)
qed

lemma kv_pos_max_eq:
  "kv_ok kv \<Longrightarrow> kv_valid kv s \<Longrightarrow> kv_pos_max kv s = (if kv_positions kv s = {} then -1 else Max (kv_positions kv s))"
  by (simp add: kv_pos_max_def kv_pos_bounds)

lemma kv_rm_tailD:
  assumes ok: "kv_ok kv" "kv_valid kv s" "0 \<le> p" and rm: "kv_rm_tail s p kv = Some kv'"
  shows "kv_ok kv'" "kv_valid kv' t = kv_valid kv t" "kv_positions kv' s = {q \<in> kv_positions kv s. q < p \<or> INT32_MAX \<le> q}"
proof -
  have s: "kv_seq_ok kv (int s)" by (rule kv_validD [OF ok(2)])
  have r: "kv_seq_rm (int s) p (-1) kv = Some (kv', True)"
    using rm by (auto simp: kv_rm_tail_def split: option.splits prod.splits bool.splits)
  note V = kv_seq_rm_views [OF ok(1) s r]
  show "kv_ok kv'" "kv_valid kv' t = kv_valid kv t" using V by (simp_all add: kv_valid_def)
  show "kv_positions kv' s = {q \<in> kv_positions kv s. q < p \<or> INT32_MAX \<le> q}"
    using seq_rm_positions [OF ok(1) s _ r, of s] ok(2,3) by (simp add: kv_valid_def lo_pos_def hi_pos_def)
qed

interpretation kvm: seq_memory kv_ok kv_valid kv_pos_max kv_rm_tail
proof unfold_locales
  fix kv s assume a: "kv_ok kv" "kv_valid kv s"
  show "-1 \<le> kv_pos_max kv s"
  proof (cases "kv_positions kv s = {}")
    case False
    then have "Max (kv_positions kv s) \<in> kv_positions kv s" by simp
    then have "0 \<le> Max (kv_positions kv s)" by (rule kv_positions_nonneg [OF a])
    then show ?thesis by (simp add: kv_pos_max_eq [OF a])
  qed (simp add: kv_pos_max_eq [OF a])
next
  fix kv s p kv' assume a: "kv_ok kv" "kv_valid kv s" "0 \<le> p" "kv_rm_tail s p kv = Some kv'"
  note D = kv_rm_tailD [OF a]
  show "kv_ok kv'" by (rule D(1))
  show "\<And>t. kv_valid kv' t = kv_valid kv t" by (rule kv_rm_tailD(2) [OF a])
  have v: "kv_valid kv' s" using D(2) [of s] a(2) by simp
  show "kv_pos_max kv' s \<le> kv_pos_max kv s"
  proof (cases "kv_positions kv' s = {}")
    case True
    show ?thesis
    proof (cases "kv_positions kv s = {}")
      case False
      then have "Max (kv_positions kv s) \<in> kv_positions kv s" by simp
      then have "0 \<le> Max (kv_positions kv s)" by (rule kv_positions_nonneg [OF a(1,2)])
      then show ?thesis using True by (simp add: kv_pos_max_eq [OF a(1,2)] kv_pos_max_eq [OF D(1) v])
    qed (use True in \<open>simp add: kv_pos_max_eq [OF a(1,2)] kv_pos_max_eq [OF D(1) v]\<close>)
  next
    case False
    have sub: "kv_positions kv' s \<subseteq> kv_positions kv s" using D(3) by auto
    then have "kv_positions kv s \<noteq> {}" using False by auto
    then show ?thesis using Max_mono [OF sub False] False by (simp add: kv_pos_max_eq [OF a(1,2)] kv_pos_max_eq [OF D(1) v])
  qed
  assume p: "p \<le> INT32_MAX" "kv_pos_max kv s < INT32_MAX"
  show "kv_pos_max kv' s < p"
  proof (cases "kv_positions kv' s = {}")
    case False
    then have "Max (kv_positions kv' s) \<in> kv_positions kv' s" by simp
    then have q: "Max (kv_positions kv' s) \<in> kv_positions kv s" "Max (kv_positions kv' s) < p \<or> INT32_MAX \<le> Max (kv_positions kv' s)"
      using D(3) by auto
    then have "Max (kv_positions kv' s) \<le> Max (kv_positions kv s)" "kv_positions kv s \<noteq> {}" by auto
    moreover have "Max (kv_positions kv s) < INT32_MAX" using p(2) \<open>kv_positions kv s \<noteq> {}\<close> by (simp add: kv_pos_max_eq [OF a(1,2)] del: Max_less_iff)
    ultimately have "Max (kv_positions kv' s) < INT32_MAX" by linarith
    then show ?thesis using q(2) False by (simp add: kv_pos_max_eq [OF D(1) v] del: Max_less_iff)
  qed (use a(3) in \<open>simp add: kv_pos_max_eq [OF D(1) v]\<close>)
qed

section \<open>Properties\<close>

text \<open>
  C19. \<open>seq_rm\<close> of a sequence removes exactly its positions in the range (a negative \<open>p0\<close> is 0, a
  negative \<open>p1\<close> the largest position), leaves every other sequence of every stream alone and keeps
  the invariant; a refusal of the strict-slot mode changes nothing, and without that mode it is
  never refused.
\<close>

theorem kv_seq_rm_exact:
  assumes "kv_ok kv" "kv_seq_ok kv s"
  shows "\<exists>kv' b. kv_seq_rm s p0 p1 kv = Some (kv', b) \<and> kv_ok kv' \<and> (\<not> b \<longrightarrow> kv' = kv \<and> kv_msa_strict_slots kv) \<and>
    (b \<longrightarrow> (\<forall>t < length (seq_to_stream kv). kv_positions kv' t =
        (if int t = s then {p \<in> kv_positions kv t. p < lo_pos p0 \<or> hi_pos p1 \<le> p} else kv_positions kv t)))"
proof -
  obtain kv' b where r: "kv_seq_rm s p0 p1 kv = Some (kv', b)" and n: "\<not> b \<longrightarrow> kv' = kv \<and> kv_msa_strict_slots kv"
  proof -
    have "\<exists>kv' b. kv_seq_rm s p0 p1 kv = Some (kv', b) \<and> (\<not> b \<longrightarrow> kv' = kv \<and> kv_msa_strict_slots kv)"
      using assms kv_okD(1) [OF assms(1)] unfolding kv_seq_rm_def Let_def by auto
    then show ?thesis using that by blast
  qed
  have "kv_ok kv'" using kv_ok_seq_rm [OF assms(1) _ r] assms(2) by blast
  moreover have "\<forall>t < length (seq_to_stream kv). b \<longrightarrow> kv_positions kv' t =
        (if int t = s then {p \<in> kv_positions kv t. p < lo_pos p0 \<or> hi_pos p1 \<le> p} else kv_positions kv t)"
    using seq_rm_positions [OF assms] r by auto
  ultimately show ?thesis using r n by blast
qed

text \<open>One stream whose cells 0 and 1 hold positions 5 and 7 of sequence 2.\<close>

definition kv_demo :: llama_kv_cache where
  "kv_demo = \<lparr>kv_v_trans = False, kv_n_seq_max = 3, kv_n_stream = 1, kv_n_pad = 1, kv_n_swa = 0,
     kv_swa_type = SWA_TYPE_NONE, kv_msa_strict_slots = False, kv_other = None, v_cells = [cells_demo],
     v_heads = [2], seq_to_stream = [0, 0, 0], sc_info = [], kv_n_pos_per_embd = 1, kv_ple_n_heads = 0,
     kv_ple_image_token_id = 0, kv_ple_eos_token_id = 0, kv_n_embd_v_gqa_max = 1, kv_arch_step35 = False,
     kv_rope_none = False, kv_layer_k_idx = []\<rparr>"

lemma cells_demo_fields: "kc_pos cells_demo = [5, 7, -1]" "kc_seq cells_demo = [{2}, {2}, {}]" "kc_used cells_demo = {0, 1}"
  by (simp_all add: cells_demo_def cells_resize_def cells_reset_def cells_new_def vec_resize_def Let_def
      numeral_eq_Suc insert_commute)

lemma kv_demo_ok: "kv_ok kv_demo"
  using cells_reach_ok [OF cells_demo_reach]
  by (simp add: kv_ok_def kv_demo_def cells_size_def cells_demo_fields LLAMA_MAX_SEQ_def)

lemma kv_demo_seq: "kv_seq_ok kv_demo 2" "kv_seq_ok kv_demo 1" "stream_of kv_demo 2 = 0" "stream_of kv_demo 1 = 0"
  by (simp_all add: kv_seq_ok_def stream_of_def kv_demo_def)

lemma seq_positions_zip:
  "length (kc_seq c) = length (kc_pos c) \<Longrightarrow> seq_positions c s = fst ` {x \<in> set (zip (kc_pos c) (kc_seq c)). s \<in> snd x}"
  by (force simp: seq_positions_def set_zip image_iff)

lemma kv_demo_positions: "kv_positions kv_demo 2 = {5, 7}" "kv_positions kv_demo 1 = {}" "kv_positions kv_demo 0 = {}"
  by (auto simp: kv_positions_def kv_demo_def seq_positions_zip cells_demo_fields image_iff)

theorem kv_seq_rm_exact_witness:
  "\<exists>kv'. kv_seq_rm 2 6 (-1) kv_demo = Some (kv', True) \<and> kv_positions kv' 2 = {5}"
proof -
  from kv_seq_rm_exact [OF kv_demo_ok kv_demo_seq(1), of 6 "-1"] show ?thesis
  proof (elim exE conjE)
    fix kv' b assume r: "kv_seq_rm 2 6 (-1) kv_demo = Some (kv', b)" "\<not> b \<longrightarrow> kv' = kv_demo \<and> kv_msa_strict_slots kv_demo"
      "b \<longrightarrow> (\<forall>t < length (seq_to_stream kv_demo). kv_positions kv' t =
        (if int t = 2 then {p \<in> kv_positions kv_demo t. p < lo_pos 6 \<or> hi_pos (-1) \<le> p} else kv_positions kv_demo t))"
    have b: "b" using r(2) by (cases b) (simp_all add: kv_demo_def)
    have "2 < length (seq_to_stream kv_demo)" by (simp add: kv_demo_def)
    with spec [OF mp [OF r(3) b], of 2] have "kv_positions kv' 2 = {p \<in> kv_positions kv_demo 2. p < lo_pos 6 \<or> hi_pos (-1) \<le> p}" by simp
    also have "\<dots> = {5}" unfolding kv_demo_positions by (auto simp: lo_pos_def hi_pos_def INT32_MAX_def)
    finally have "kv_positions kv' 2 = {5}" .
    moreover have "b = True" using b by simp
    ultimately show ?thesis using r(1) by blast
  qed
qed

text \<open>
  \<open>seq_add\<close> with a non-empty range shifts exactly the positions of the sequence that lie in the
  range, drops those that would become negative and keeps the invariant. Every other position of
  the sequence stays.
\<close>

lemma kv_seq_add_exact:
  assumes "kv_ok kv" "kv_seq_ok kv s" "kv_n_pos_per_embd kv = 1" "shift \<noteq> 0" "lo_pos p0 \<noteq> hi_pos p1"
  shows "\<exists>kv'. kv_seq_add s p0 p1 shift kv = Some kv' \<and> kv_ok kv' \<and> kv_positions kv' (nat s) =
      {p \<in> kv_positions kv (nat s). p < lo_pos p0 \<or> hi_pos p1 \<le> p} \<union>
      {p + shift |p. p \<in> kv_positions kv (nat s) \<and> lo_pos p0 \<le> p \<and> p < hi_pos p1 \<and> 0 \<le> p + shift}"
proof -
  have "kv_seq_add s p0 p1 shift kv \<noteq> None"
    using assms kv_okD(1) [OF assms(1)] by (simp add: kv_seq_add_def Let_def split: prod.split)
  then obtain kv' where r: "kv_seq_add s p0 p1 shift kv = Some kv'" by blast
  from seq_add_positions [OF assms(1,2,4) r] assms(5) r show ?thesis by simp
qed

lemma kv_seq_add_exact_witness:
  "\<exists>kv'. kv_seq_add 2 6 (-1) (-1) kv_demo = Some kv' \<and> kv_positions kv' 2 = {5, 6}"
proof -
  have "kv_n_pos_per_embd kv_demo = 1" "lo_pos 6 \<noteq> hi_pos (-1)" by (simp_all add: kv_demo_def lo_pos_def hi_pos_def INT32_MAX_def)
  from kv_seq_add_exact [OF kv_demo_ok kv_demo_seq(1) this(1) _ this(2), of "-1"] obtain kv' where
    r: "kv_seq_add 2 6 (-1) (-1) kv_demo = Some kv'" "kv_positions kv' 2 =
      {p \<in> kv_positions kv_demo 2. p < lo_pos 6 \<or> hi_pos (-1) \<le> p} \<union>
      {p + -1 |p. p \<in> kv_positions kv_demo 2 \<and> lo_pos 6 \<le> p \<and> p < hi_pos (-1) \<and> 0 \<le> p + -1}" by auto
  have "kv_positions kv' 2 = {5, 6}"
    unfolding r(2) kv_demo_positions by (auto simp: lo_pos_def hi_pos_def INT32_MAX_def)
  then show ?thesis using r(1) by blast
qed

text \<open>
  Within a stream, \<open>seq_cp\<close> to a sequence that holds nothing gives it exactly the positions of
  the source in the range; the source and every other sequence keep theirs, and so does the
  invariant.
\<close>

lemma kv_seq_cp_exact:
  assumes "kv_ok kv" "kv_seq_ok kv src" "kv_seq_ok kv dst" "stream_of kv src = stream_of kv dst" "src \<noteq> dst"
    and "kv_positions kv (nat dst) = {}"
  shows "\<exists>kv'. kv_seq_cp src dst p0 p1 kv = Some kv' \<and> kv_ok kv' \<and> (\<forall>t < length (seq_to_stream kv). kv_positions kv' t =
     (if int t = dst then {p \<in> kv_positions kv (nat src). lo_pos p0 \<le> p \<and> p < hi_pos p1} else kv_positions kv t))"
proof -
  have "kv_seq_cp src dst p0 p1 kv \<noteq> None"
    using assms kv_okD(1) [OF assms(1)] by (simp add: kv_seq_cp_def Let_def)
  then obtain kv' where r: "kv_seq_cp src dst p0 p1 kv = Some kv'" by blast
  have "nat dst < length (seq_to_stream kv)" using assms(3) by (simp add: kv_seq_ok_def)
  from seq_cp_positions [OF assms(1-4,6) this r] have "kv_ok kv'" by blast
  moreover have "\<forall>t < length (seq_to_stream kv). kv_positions kv' t =
     (if int t = dst then {p \<in> kv_positions kv (nat src). lo_pos p0 \<le> p \<and> p < hi_pos p1} else kv_positions kv t)"
    using seq_cp_positions [OF assms(1-4,6) _ r] assms(5) by simp
  ultimately show ?thesis using r by blast
qed

lemma kv_seq_cp_exact_witness:
  "\<exists>kv'. kv_seq_cp 2 1 (-1) 6 kv_demo = Some kv' \<and> kv_positions kv' 1 = {5} \<and> kv_positions kv' 2 = {5, 7}"
proof -
  have e: "kv_positions kv_demo (nat 1) = {}" "(2 :: int) \<noteq> 1" by (simp_all add: kv_demo_positions [simplified])
  have "stream_of kv_demo 2 = stream_of kv_demo 1" by (simp add: kv_demo_seq)
  from kv_seq_cp_exact [OF kv_demo_ok kv_demo_seq(1,2) this e(2,1), of "-1" 6] obtain kv' where
    r: "kv_seq_cp 2 1 (-1) 6 kv_demo = Some kv'" "\<forall>t < length (seq_to_stream kv_demo). kv_positions kv' t =
     (if int t = 1 then {p \<in> kv_positions kv_demo (nat 2). lo_pos (-1) \<le> p \<and> p < hi_pos 6} else kv_positions kv_demo t)" by blast
  have "length (seq_to_stream kv_demo) = 3" by (simp add: kv_demo_def)
  then have "kv_positions kv' 1 = {p \<in> kv_positions kv_demo 2. lo_pos (-1) \<le> p \<and> p < hi_pos 6}" "kv_positions kv' 2 = kv_positions kv_demo 2"
    using r(2) by simp_all
  then show ?thesis using r(1) by (auto simp: kv_demo_positions lo_pos_def hi_pos_def)
qed

text \<open>
  C33. After the tail of a sequence is cut at \<open>p\<close>, the batch allocator that asks this cache numbers
  the sequence's next tokens from \<open>p\<close> on when position \<open>p - 1\<close> was held or \<open>p\<close> is 0, and never from
  a later position than \<open>p\<close>.
\<close>

theorem kv_truncate_continue:
  assumes "kv_ok kv" "kv_valid kv s" "0 \<le> p" "p \<le> INT32_MAX" "kv_pos_max kv s < INT32_MAX" "kv_rm_tail s p kv = Some kv'"
  shows "start_pos (Some (f, kv_pos_max kv')) s \<le> p \<and>
    (p = 0 \<or> p - 1 \<in> kv_positions kv s \<longrightarrow> start_pos (Some (f, kv_pos_max kv')) s = p)"
proof (intro conjI impI)
  show le: "start_pos (Some (f, kv_pos_max kv')) s \<le> p" using kvm.restart_at_cut [OF assms, of f] by simp
  note D = kv_rm_tailD [OF assms(1-3,6)]
  assume "p = 0 \<or> p - 1 \<in> kv_positions kv s"
  then show "start_pos (Some (f, kv_pos_max kv')) s = p"
  proof
    assume "p = 0"
    then show ?thesis using kvm.restart_zero [OF assms(1,2,5)] assms(6) by blast
  next
    assume "p - 1 \<in> kv_positions kv s"
    then have m: "p - 1 \<in> kv_positions kv' s" using D(3) by simp
    have "kv_valid kv' s" using D(2) [of s] assms(2) by simp
    from kv_pos_max_eq [OF D(1) this] m have "p - 1 \<le> kv_pos_max kv' s" by auto
    then show ?thesis using le by (simp add: start_pos_def)
  qed
qed

theorem kv_truncate_continue_witness:
  "\<exists>kv'. kv_rm_tail 2 6 kv_demo = Some kv' \<and> start_pos (Some (\<lambda>_. -1, kv_pos_max kv')) 2 = 6"
proof -
  obtain kv' where r: "kv_rm_tail 2 6 kv_demo = Some kv'"
    by (simp add: kv_rm_tail_def kv_seq_rm_def kv_demo_def kv_seq_ok_def lo_pos_def hi_pos_def INT32_MAX_def Let_def)
  have v: "kv_valid kv_demo 2" by (simp add: kv_valid_def kv_demo_def)
  have "kv_pos_max kv_demo 2 = 7" by (simp add: kv_pos_max_eq [OF kv_demo_ok v] kv_demo_positions)
  with kv_truncate_continue [OF kv_demo_ok v _ _ _ r, of "\<lambda>_. -1"] r show ?thesis
    by (simp add: kv_demo_positions INT32_MAX_def)
qed

end
