(* ===== verification/Kv_Slots.thy ===== *)
theory Kv_Slots
  imports Kv_Seq_Ops
begin

text \<open>
  Slots of the KV cache: \<open>find_slot\<close> finds a slot exactly when there is one, \<open>apply_ubatch\<close> on a slot
  of empty cells stores the micro-batch there and nothing else, and the dry run \<open>prepare\<close> puts
  back the cells it used.
\<close>


section \<open>Slot search\<close>

definition ring :: "nat \<Rightarrow> nat \<Rightarrow> nat list" where
  "ring n h = [h..<n] @ [0..<h]"

lemma ring_props: "h \<le> n \<Longrightarrow> length (ring n h) = n" "h \<le> n \<Longrightarrow> set (ring n h) = {..<n}" "h \<le> n \<Longrightarrow> distinct (ring n h)"
  by (auto simp: ring_def)

lemma ring_nth: "h \<le> n \<Longrightarrow> k < n \<Longrightarrow> ring n h ! k = (if k < n - h then h + k else k - (n - h))"
  by (auto simp: ring_def nth_append)

lemma find_loop_correct:
  assumes h: "h \<le> n" and k: "k < n" "length (filter use (take k (ring n h))) < m"
    and head: "head = ring n h ! k \<or> (k = n - h \<and> head = n)"
    and fuel: "2 * (n - k) + 1 + (if head = n then 1 else 0) \<le> fuel + 1"
  shows "(\<exists>k' \<le> n. find_loop use False n m fuel (head, k, filter use (take k (ring n h))) = Some (Some (filter use (take k' (ring n h)))) \<and>
        length (filter use (take k' (ring n h))) = m) \<or>
      (find_loop use False n m fuel (head, k, filter use (take k (ring n h))) = Some None \<and> length (filter use (ring n h)) < m)"
  using k head fuel
proof (induction fuel arbitrary: k head)
  case 0
  then show ?case by auto
next
  case (Suc fuel)
  let ?r = "ring n h"
  let ?xs = "filter use (take k ?r)"
  show ?case
  proof (cases "head = n")
    case True
    have lt: "?r ! k < n" using ring_props(1,2) [OF h] Suc.prems(1) by (metis lessThan_iff nth_mem)
    with True Suc.prems(3) have kk: "k = n - h" by auto
    have z: "?r ! k = 0" using ring_nth [OF h Suc.prems(1)] kk by simp
    have "find_loop use False n m (Suc fuel) (head, k, ?xs) = find_loop use False n m fuel (0, k, ?xs)"
      using True by (simp add: Let_def)
    moreover have "(\<exists>k' \<le> n. find_loop use False n m fuel (0, k, ?xs) = Some (Some (filter use (take k' ?r))) \<and>
        length (filter use (take k' ?r)) = m) \<or>
      (find_loop use False n m fuel (0, k, ?xs) = Some None \<and> length (filter use ?r) < m)"
      using Suc.prems True z by (intro Suc.IH) auto
    ultimately show ?thesis by simp
  next
    case False
    then have hd: "head = ?r ! k" using Suc.prems(3) by simp
    have lt: "head < n" using ring_props(1,2) [OF h] Suc.prems(1) unfolding hd by (metis lessThan_iff nth_mem)
    let ?ys = "filter use (take (Suc k) ?r)"
    have ys: "?ys = (if use head then ?xs @ [head] else ?xs)"
      using Suc.prems(1) ring_props(1) [OF h] by (simp add: take_Suc_conv_app_nth hd)
    have step: "find_loop use False n m (Suc fuel) (head, k, ?xs) =
        (if length ?ys = m then Some (Some ?ys) else if Suc k \<ge> n then Some None
         else find_loop use False n m fuel (Suc head, Suc k, ?ys))"
      using lt by (simp add: ys Let_def)
    show ?thesis
    proof (cases "length ?ys = m")
      case True
      then show ?thesis using step Suc.prems(1) by (intro disjI1 exI [of _ "Suc k"]) simp
    next
      case False
      have lm: "length ?ys < m" using False Suc.prems(2) by (auto simp: ys split: if_splits)
      show ?thesis
      proof (cases "Suc k \<ge> n")
        case True
        then have "take (Suc k) ?r = ?r" using ring_props(1) [OF h] by simp
        then show ?thesis using step False lm True by simp
      next
        case kn: False
        have nh: "Suc head = ?r ! Suc k \<or> (Suc k = n - h \<and> Suc head = n)"
          using ring_nth [OF h, of k] ring_nth [OF h, of "Suc k"] Suc.prems(1) kn h by (auto simp: hd)
        have "2 * (n - Suc k) + 1 + (if Suc head = n then 1 else 0) \<le> fuel + 1"
          using Suc.prems(1,4) by auto
        from Suc.IH [OF _ lm nh this] kn step False show ?thesis by simp
      qed
    qed
  qed
qed

text \<open>A slot for \<open>m\<close> tokens: \<open>m\<close> different usable cells.\<close>

definition is_slot :: "llama_kv_cache \<Rightarrow> llama_kv_cells \<Rightarrow> nat \<Rightarrow> nat list \<Rightarrow> bool" where
  "is_slot kv c m xs \<longleftrightarrow> distinct xs \<and> length xs = m \<and> (\<forall>i \<in> set xs. i < cells_size c \<and> can_use kv c i)"

definition usable :: "llama_kv_cache \<Rightarrow> llama_kv_cells \<Rightarrow> nat set" where
  "usable kv c = {i. i < cells_size c \<and> can_use kv c i}"

lemma is_slot_card: "is_slot kv c m xs \<Longrightarrow> m \<le> card (usable kv c)"
proof -
  assume sl: "is_slot kv c m xs"
  then have "set xs \<subseteq> usable kv c" "finite (usable kv c)" by (auto simp: is_slot_def usable_def)
  then have "card (set xs) \<le> card (usable kv c)" by (rule card_mono [rotated])
  then show ?thesis using sl by (simp add: is_slot_def distinct_card)
qed

lemma find_stream_exact:
  assumes ok: "kv_ok kv" and msa: "\<not> kv_msa_strict_slots kv" and m: "1 \<le> m"
    and s: "ub_seq_id_unq ub ! s < length (seq_to_stream kv)"
  defines "c \<equiv> v_cells kv ! (seq_to_stream kv ! (ub_seq_id_unq ub ! s))"
  shows "(\<exists>xs. find_stream kv ub False m s = Some (Some xs) \<and> is_slot kv c m xs) \<or>
    (find_stream kv ub False m s = Some None \<and> card (usable kv c) < m)"
proof (cases "m > cells_size c")
  case True
  have "card (usable kv c) \<le> card {..<cells_size c}" by (intro card_mono) (auto simp: usable_def)
  then show ?thesis using True by (simp add: find_stream_def Let_def c_def)
next
  case False
  let ?st = "seq_to_stream kv ! (ub_seq_id_unq ub ! s)" and ?n = "cells_size c" and ?use = "can_use kv c"
  define h where "h = (if v_heads kv ! ?st > cells_get_used c + 2 * m then 0 else v_heads kv ! ?st)"
  have n: "0 < ?n" using False m by simp
  have st: "?st < kv_n_stream kv" by (rule kv_okD(8) [OF ok s])
  have h: "h \<le> ?n" using kv_okD(7) [OF ok st] by (simp add: h_def c_def)
  have eq: "find_stream kv ub False m s = find_loop ?use False ?n m (2 * ?n + 2) (h, 0, [])"
    using False msa by (simp add: find_stream_def Let_def c_def h_def)
  have hd: "h = ring ?n h ! 0 \<or> (0 = ?n - h \<and> h = ?n)" using h n by (auto simp: ring_nth)
  have f: "2 * (?n - 0) + 1 + (if h = ?n then 1 else 0) \<le> 2 * ?n + 2 + 1" by simp
  have z: "length (filter ?use (take 0 (ring ?n h))) < m" using m by simp
  from find_loop_correct [OF h n z hd f]
  consider k where "k \<le> ?n" "find_stream kv ub False m s = Some (Some (filter ?use (take k (ring ?n h))))" "length (filter ?use (take k (ring ?n h))) = m"
    | "find_stream kv ub False m s = Some None" "length (filter ?use (ring ?n h)) < m"
    unfolding eq take_0 filter.simps by blast
  then show ?thesis
  proof cases
    case 1
    have "is_slot kv c m (filter ?use (take k (ring ?n h)))"
      using 1(3) ring_props(2,3) [OF h] by (auto simp: is_slot_def dest: in_set_takeD)
    then show ?thesis using 1(2) by blast
  next
    case 2
    have "usable kv c = set (filter ?use (ring ?n h))" using ring_props(2) [OF h] by (auto simp: usable_def)
    then have "card (usable kv c) = length (filter ?use (ring ?n h))"
      using ring_props(3) [OF h] by (simp add: distinct_card del: set_filter)
    then show ?thesis using 2 by simp
  qed
qed


text \<open>The streams of a slot, and when the micro-batch meets the assertions of \<open>find_slot\<close>.\<close>

definition ub_streams_ok :: "llama_kv_cache \<Rightarrow> llama_ubatch \<Rightarrow> nat \<Rightarrow> nat list \<Rightarrow> bool" where
  "ub_streams_ok kv ub m ss \<longleftrightarrow> (\<forall>s \<in> set ss. ub_seq_id_unq ub ! s < length (seq_to_stream kv) \<and>
     (kv_n_stream kv > 1 \<longrightarrow> ub_n_seq_id ub ! (s * m) = 1 \<and> ub_seq_id ub ! (s * m) ! 0 = ub_seq_id_unq ub ! s))"

abbreviation ub_cells :: "llama_kv_cache \<Rightarrow> llama_ubatch \<Rightarrow> nat \<Rightarrow> llama_kv_cells" where
  "ub_cells kv ub s \<equiv> v_cells kv ! (seq_to_stream kv ! (ub_seq_id_unq ub ! s))"

lemma find_streams_exact:
  assumes ok: "kv_ok kv" and msa: "\<not> kv_msa_strict_slots kv" and m: "1 \<le> m"
    and ub: "ub_streams_ok kv ub m ss" and ss: "distinct ss" "\<forall>s \<in> set ss. s < length (si_strm res)" "length (si_idxs res) = length (si_strm res)"
  shows "(\<exists>si. find_streams kv ub False m ss res = Some (Some si) \<and> length (si_strm si) = length (si_strm res) \<and>
       length (si_idxs si) = length (si_strm res) \<and>
       (\<forall>s < length (si_strm res). if s \<in> set ss
          then si_strm si ! s = seq_to_stream kv ! (ub_seq_id_unq ub ! s) \<and> is_slot kv (ub_cells kv ub s) m (si_idxs si ! s)
          else si_strm si ! s = si_strm res ! s \<and> si_idxs si ! s = si_idxs res ! s)) \<or>
    (find_streams kv ub False m ss res = Some None \<and> (\<exists>s \<in> set ss. card (usable kv (ub_cells kv ub s)) < m))"
  using ub ss
proof (induction ss arbitrary: res)
  case (Cons s ss)
  let ?st = "seq_to_stream kv ! (ub_seq_id_unq ub ! s)"
  have s: "ub_seq_id_unq ub ! s < length (seq_to_stream kv)" using Cons.prems(1) by (simp add: ub_streams_ok_def)
  have assert: "\<not> (kv_n_stream kv > 1 \<and> (ub_n_seq_id ub ! (s * m) \<noteq> 1 \<or> ub_seq_id ub ! (s * m) ! 0 \<noteq> ub_seq_id_unq ub ! s))"
    using Cons.prems(1) by (auto simp: ub_streams_ok_def)
  from find_stream_exact [OF ok msa m s] show ?case
  proof (elim disjE exE conjE)
    fix xs assume xs: "find_stream kv ub False m s = Some (Some xs)" "is_slot kv (ub_cells kv ub s) m xs"
    define res' where "res' = res\<lparr>si_s0 := min (si_s0 res) ?st, si_s1 := max (si_s1 res) ?st,
                    si_strm := (si_strm res)[s := ?st], si_idxs := (si_idxs res)[s := xs]\<rparr>"
    have eq: "find_streams kv ub False m (s # ss) res = find_streams kv ub False m ss res'"
      using assert xs(1) by (auto simp: Let_def res'_def)
    have "ub_streams_ok kv ub m ss" "distinct ss" "\<forall>s \<in> set ss. s < length (si_strm res')"
      "length (si_idxs res') = length (si_strm res')"
      using Cons.prems by (auto simp: ub_streams_ok_def res'_def)
    from Cons.IH [OF this] show ?thesis
    proof (elim disjE exE conjE)
      fix si assume si: "find_streams kv ub False m ss res' = Some (Some si)" "length (si_strm si) = length (si_strm res')"
        "length (si_idxs si) = length (si_strm res')"
        "\<forall>s < length (si_strm res'). if s \<in> set ss
          then si_strm si ! s = seq_to_stream kv ! (ub_seq_id_unq ub ! s) \<and> is_slot kv (ub_cells kv ub s) m (si_idxs si ! s)
          else si_strm si ! s = si_strm res' ! s \<and> si_idxs si ! s = si_idxs res' ! s"
      have l: "length (si_strm res') = length (si_strm res)" by (simp add: res'_def)
      have "if t \<in> set (s # ss) then si_strm si ! t = seq_to_stream kv ! (ub_seq_id_unq ub ! t) \<and> is_slot kv (ub_cells kv ub t) m (si_idxs si ! t)
          else si_strm si ! t = si_strm res ! t \<and> si_idxs si ! t = si_idxs res ! t" if t: "t < length (si_strm res)" for t
      proof (cases "t = s")
        case True
        then have "t \<notin> set ss" using Cons.prems(2) by auto
        then have "si_strm si ! s = ?st" "si_idxs si ! s = xs"
          using si(4) t True l Cons.prems(4) by (auto simp: res'_def)
        then show ?thesis using True xs(2) by simp
      next
        case False
        then show ?thesis using si(4) [rule_format, of t] t l by (simp add: res'_def)
      qed
      then show ?thesis using si l unfolding eq by (intro disjI1 exI [of _ si]) simp
    next
      assume "find_streams kv ub False m ss res' = Some None" "\<exists>s \<in> set ss. card (usable kv (ub_cells kv ub s)) < m"
      then show ?thesis unfolding eq by (intro disjI2) simp
    qed
  next
    assume "find_stream kv ub False m s = Some None" "card (usable kv (ub_cells kv ub s)) < m"
    then show ?thesis using assert by (intro disjI2) (auto simp: Let_def)
  qed
qed simp

text \<open>How many tokens per stream, and for how many streams, \<open>find_slot\<close> looks for cells.\<close>

definition slot_streams :: "llama_kv_cache \<Rightarrow> llama_ubatch \<Rightarrow> nat" where
  "slot_streams kv ub = (if kv_n_stream kv > 1 then ub_n_seqs_unq ub else 1)"

definition slot_tokens :: "llama_kv_cache \<Rightarrow> llama_ubatch \<Rightarrow> nat" where
  "slot_tokens kv ub = ub_n_tokens ub div slot_streams kv ub"

lemma find_slot_exact:
  assumes ok: "kv_ok kv" and msa: "\<not> kv_msa_strict_slots kv" and m: "1 \<le> slot_tokens kv ub"
    and ub: "ub_streams_ok kv ub (slot_tokens kv ub) [0..<slot_streams kv ub]"
    and d: "kv_n_stream kv > 1 \<longrightarrow> ub_n_tokens ub mod ub_n_seqs_unq ub = 0"
  shows "(\<exists>si. kv_find_slot ub False kv = Some (Some si) \<and> si_n_stream si = slot_streams kv ub \<and>
       length (si_idxs si) = slot_streams kv ub \<and>
       (\<forall>s < slot_streams kv ub. si_strm si ! s = seq_to_stream kv ! (ub_seq_id_unq ub ! s) \<and>
          is_slot kv (ub_cells kv ub s) (slot_tokens kv ub) (si_idxs si ! s))) \<or>
    (kv_find_slot ub False kv = Some None \<and> (\<exists>s < slot_streams kv ub. card (usable kv (ub_cells kv ub s)) < slot_tokens kv ub))"
proof -
  let ?n = "slot_streams kv ub" and ?m = "slot_tokens kv ub"
  let ?res = "\<lparr>si_s0 = LLAMA_MAX_SEQ, si_s1 = 0, si_strm = replicate ?n 0, si_idxs = replicate ?n []\<rparr>"
  have eq: "kv_find_slot ub False kv = find_streams kv ub False ?m [0..<?n] ?res"
    using d by (auto simp: kv_find_slot_def slot_streams_def slot_tokens_def Let_def)
  show ?thesis
    using find_streams_exact [OF ok msa m ub, of ?res] unfolding eq by (auto simp: si_n_stream_def)
qed



section \<open>Placing tokens into empty cells\<close>

lemma fold_seq_add_cell:
  assumes "cells_ok c" "i < length (kc_pos c)" "kc_pos c ! i \<noteq> -1" "distinct ids" "\<forall>s \<in> set ids. s < LLAMA_MAX_SEQ"
    "set ids \<inter> kc_seq c ! i = {}"
  shows "cells_ok (fold (cells_seq_add i) ids c) \<and>
    kc_seq (fold (cells_seq_add i) ids c) = (kc_seq c)[i := set ids \<union> kc_seq c ! i] \<and>
    kc_pos (fold (cells_seq_add i) ids c) = kc_pos c \<and> kc_ext (fold (cells_seq_add i) ids c) = kc_ext c \<and>
    kc_shift (fold (cells_seq_add i) ids c) = kc_shift c \<and> kc_has_shift (fold (cells_seq_add i) ids c) = kc_has_shift c"
  using assms
proof (induction ids arbitrary: c)
  case (Cons s ids)
  let ?c = "cells_seq_add i s c"
  have l: "i < length (kc_seq c)" using cells_okD(3) [OF Cons.prems(1)] Cons.prems(2) by simp
  have "cells_ok ?c" using Cons.prems by (intro cells_ok_seq_add) auto
  then have "cells_ok (fold (cells_seq_add i) ids ?c) \<and>
    kc_seq (fold (cells_seq_add i) ids ?c) = (kc_seq ?c)[i := set ids \<union> kc_seq ?c ! i] \<and>
    kc_pos (fold (cells_seq_add i) ids ?c) = kc_pos ?c \<and> kc_ext (fold (cells_seq_add i) ids ?c) = kc_ext ?c \<and>
    kc_shift (fold (cells_seq_add i) ids ?c) = kc_shift ?c \<and> kc_has_shift (fold (cells_seq_add i) ids ?c) = kc_has_shift ?c"
    using Cons.prems l by (intro Cons.IH) auto
  then show ?case using l by (simp add: Un_commute)
qed (simp add: list_update_id)

text \<open>What a placement leaves alone: everything but the cells of \<open>W\<close>.\<close>

definition only_cells :: "llama_kv_cells \<Rightarrow> llama_kv_cells \<Rightarrow> nat set \<Rightarrow> bool" where
  "only_cells c c' W \<longleftrightarrow> cells_ok c' \<and> length (kc_pos c') = length (kc_pos c) \<and> kc_shift c' = kc_shift c \<and>
     kc_has_shift c' = kc_has_shift c \<and>
     (\<forall>j < length (kc_pos c). j \<notin> W \<longrightarrow> kc_pos c' ! j = kc_pos c ! j \<and> kc_seq c' ! j = kc_seq c ! j \<and> kc_ext c' ! j = kc_ext c ! j)"

lemma only_cells_refl: "cells_ok c \<Longrightarrow> only_cells c c W"
  by (simp add: only_cells_def)

lemma only_cells_trans: "only_cells c c' W \<Longrightarrow> only_cells c' c'' W' \<Longrightarrow> only_cells c c'' (W \<union> W')"
  by (auto simp: only_cells_def)

definition tok_ok :: "llama_ubatch \<Rightarrow> nat \<Rightarrow> bool" where
  "tok_ok ub i \<longleftrightarrow> 0 \<le> ub_pos ub ! i \<and> distinct (take (ub_n_seq_id ub ! i) (ub_seq_id ub ! i)) \<and>
     (\<forall>s \<in> set (take (ub_n_seq_id ub ! i) (ub_seq_id ub ! i)). s < LLAMA_MAX_SEQ)"

lemma place_token_empty:
  assumes ok: "cells_ok c" and i: "idx < length (kc_pos c)" and e: "kc_pos c ! idx = -1" and t: "tok_ok ub i"
  shows "\<exists>c'. place_token kv ub i idx (c, rm) = (c', rm) \<and> only_cells c c' {idx} \<and>
    kc_pos c' ! idx = ub_pos ub ! i \<and> kc_seq c' ! idx = set (take (ub_n_seq_id ub ! i) (ub_seq_id ub ! i))"
proof -
  let ?ids = "take (ub_n_seq_id ub ! i) (ub_seq_id ub ! i)"
  define c1 where "c1 = cells_pos_set idx (ub_pos ub ! i) c"
  define c2 where "c2 = (case cell_ext_of kv ub i of Some e \<Rightarrow> cells_ext_set idx e c1 | None \<Rightarrow> c1)"
  have p: "0 \<le> ub_pos ub ! i" "ub_pos ub ! i \<noteq> -1" using t by (auto simp: tok_ok_def)
  have "cells_ok c1" unfolding c1_def using p(1) by (intro cells_ok_pos_set [OF ok i e])
  then have ok2: "cells_ok c2" by (simp add: c2_def cells_ok_ext_set split: option.split)
  have l: "idx < length (kc_seq c)" using cells_okD(3) [OF ok] i by simp
  have s: "kc_seq c ! idx = {}" using cells_okD(5) [OF ok i e] .
  have f2: "kc_pos c2 = (kc_pos c)[idx := ub_pos ub ! i]" "kc_seq c2 = kc_seq c" "kc_shift c2 = kc_shift c"
    "kc_has_shift c2 = kc_has_shift c" "\<forall>j. j \<noteq> idx \<longrightarrow> kc_ext c2 ! j = kc_ext c ! j"
    by (simp_all add: c2_def c1_def split: option.split)
  have "place_token kv ub i idx (c, rm) = (fold (cells_seq_add idx) ?ids c2, rm)"
    unfolding c2_def c1_def place_token_def using e by (simp add: cells_is_empty_def Let_def)
  moreover have "cells_ok (fold (cells_seq_add idx) ?ids c2) \<and>
    kc_seq (fold (cells_seq_add idx) ?ids c2) = (kc_seq c2)[idx := set ?ids \<union> kc_seq c2 ! idx] \<and>
    kc_pos (fold (cells_seq_add idx) ?ids c2) = kc_pos c2 \<and> kc_ext (fold (cells_seq_add idx) ?ids c2) = kc_ext c2 \<and>
    kc_shift (fold (cells_seq_add idx) ?ids c2) = kc_shift c2 \<and> kc_has_shift (fold (cells_seq_add idx) ?ids c2) = kc_has_shift c2"
    using ok2 i p t s f2 by (intro fold_seq_add_cell) (auto simp: tok_ok_def)
  ultimately show ?thesis using f2 i l s by (auto simp: only_cells_def)
qed

text \<open>A slot whose cells are empty and whose streams are different.\<close>

definition empty_slot :: "llama_kv_cache \<Rightarrow> slot_info \<Rightarrow> bool" where
  "empty_slot kv si \<longleftrightarrow> length (si_idxs si) = si_n_stream si \<and> distinct (si_strm si) \<and>
     (\<forall>s < si_n_stream si. si_strm si ! s < kv_n_stream kv \<and> distinct (si_idxs si ! s) \<and>
        length (si_idxs si ! s) = si_size si \<and>
        (\<forall>j \<in> set (si_idxs si ! s). j < cells_size (v_cells kv ! (si_strm si ! s)) \<and> kc_pos (v_cells kv ! (si_strm si ! s)) ! j = -1))"

text \<open>The cells of stream \<open>st\<close> written for the token slots \<open>ps\<close>.\<close>

definition written :: "slot_info \<Rightarrow> (nat \<times> nat) list \<Rightarrow> nat \<Rightarrow> nat set" where
  "written si ps st = {si_idxs si ! s ! ii |s ii. (s, ii) \<in> set ps \<and> si_strm si ! s = st}"

definition placed_only :: "llama_kv_cache \<Rightarrow> llama_kv_cache \<Rightarrow> (nat \<Rightarrow> nat set) \<Rightarrow> bool" where
  "placed_only kv kv' W \<longleftrightarrow> kv' = kv\<lparr>v_cells := v_cells kv'\<rparr> \<and> length (v_cells kv') = length (v_cells kv) \<and>
     (\<forall>st < kv_n_stream kv. only_cells (v_cells kv ! st) (v_cells kv' ! st) (W st))"

text \<open>The cells that hold their token's position and sequences.\<close>

definition filled :: "llama_kv_cache \<Rightarrow> slot_info \<Rightarrow> llama_ubatch \<Rightarrow> (nat \<times> nat) list \<Rightarrow> bool" where
  "filled kv si ub ps \<longleftrightarrow> (\<forall>(s, ii) \<in> set ps.
     kc_pos (v_cells kv ! (si_strm si ! s)) ! (si_idxs si ! s ! ii) = ub_pos ub ! (s * si_size si + ii) \<and>
     kc_seq (v_cells kv ! (si_strm si ! s)) ! (si_idxs si ! s ! ii) =
       set (take (ub_n_seq_id ub ! (s * si_size si + ii)) (ub_seq_id ub ! (s * si_size si + ii))))"

lemma apply_tokens_empty:
  assumes ok: "kv_ok kv" and msa: "\<not> kv_msa_strict_slots kv" and si: "empty_slot kv si"
    and ps: "set ps \<subseteq> {(s, ii). s < si_n_stream si \<and> ii < si_size si}" "distinct ps"
    and tok: "\<forall>(s, ii) \<in> set ps. tok_ok ub (s * si_size si + ii)"
    and kv1: "placed_only kv kv1 (written si qs)" "set qs \<inter> set ps = {}"
      "set qs \<subseteq> {(s, ii). s < si_n_stream si \<and> ii < si_size si}" "filled kv1 si ub qs"
  shows "\<exists>kv'. apply_tokens si ub ps (kv1, rm) = Some (kv', rm) \<and> placed_only kv kv' (written si (qs @ ps)) \<and>
    filled kv' si ub (qs @ ps)"
  using ps tok kv1
proof (induction ps arbitrary: kv1 qs)
  case Nil
  then show ?case by simp
next
  case (Cons x ps)
  obtain s ii where x: "x = (s, ii)" by fastforce
  let ?st = "si_strm si ! s" and ?idx = "si_idxs si ! s ! ii" and ?i = "s * si_size si + ii"
  have s: "s < si_n_stream si" "ii < si_size si" using Cons.prems(1) by (auto simp: x)
  have st: "?st < kv_n_stream kv" "length (si_idxs si ! s) = si_size si" "distinct (si_idxs si ! s)"
    using si s(1) by (auto simp: empty_slot_def)
  have idx: "?idx < length (kc_pos (v_cells kv ! ?st))" "kc_pos (v_cells kv ! ?st) ! ?idx = -1"
    using si s st(2) nth_mem [of ii "si_idxs si ! s"] by (auto simp: empty_slot_def cells_size_def)
  have c1: "only_cells (v_cells kv ! ?st) (v_cells kv1 ! ?st) (written si qs ?st)"
    using Cons.prems(4) st(1) by (simp add: placed_only_def)
  have nw: "?idx \<notin> written si qs ?st"
  proof
    assume "?idx \<in> written si qs ?st"
    then obtain s' ii' where q: "(s', ii') \<in> set qs" "si_strm si ! s' = ?st" "?idx = si_idxs si ! s' ! ii'"
      by (auto simp: written_def)
    have s': "s' < si_n_stream si" "ii' < si_size si" using q(1) Cons.prems(6) by auto
    have "s' = s" using q(2) s(1) s'(1) si by (auto simp: empty_slot_def si_n_stream_def nth_eq_iff_index_eq)
    moreover have "ii' = ii" using q(3) st(2,3) s(2) s'(2) \<open>s' = s\<close> by (auto simp: nth_eq_iff_index_eq)
    ultimately show False using q(1) Cons.prems(5) by (auto simp: x)
  qed
  have e: "cells_ok (v_cells kv1 ! ?st)" "?idx < length (kc_pos (v_cells kv1 ! ?st))" "kc_pos (v_cells kv1 ! ?st) ! ?idx = -1"
    using c1 idx nw by (auto simp: only_cells_def)
  obtain c' where c': "place_token kv1 ub ?i ?idx (v_cells kv1 ! ?st, rm) = (c', rm)" "only_cells (v_cells kv1 ! ?st) c' {?idx}"
    "kc_pos c' ! ?idx = ub_pos ub ! ?i" "kc_seq c' ! ?idx = set (take (ub_n_seq_id ub ! ?i) (ub_seq_id ub ! ?i))"
  proof -
    have "tok_ok ub ?i" using Cons.prems(3) by (simp add: x)
    from place_token_empty [OF e this] show thesis using that by blast
  qed
  obtain cs where cs: "kv1 = kv\<lparr>v_cells := cs\<rparr>" using Cons.prems(4) unfolding placed_only_def by blast
  let ?kv2 = "kv1\<lparr>v_cells := (v_cells kv1)[?st := c']\<rparr>"
  have "kv_msa_strict_slots kv1 = kv_msa_strict_slots kv"
    by (simp add: cs)
  then have step: "apply_tokens si ub (x # ps) (kv1, rm) = apply_tokens si ub ps (?kv2, rm)"
    using c'(1) msa by (simp add: x Let_def)
  have w: "written si (qs @ [x]) t = (if t = ?st then insert ?idx (written si qs t) else written si qs t)" for t
    by (auto simp: written_def x)
  have "placed_only kv ?kv2 (written si (qs @ [x]))"
    unfolding placed_only_def
  proof (intro conjI allI impI)
    show "?kv2 = kv\<lparr>v_cells := v_cells ?kv2\<rparr>" "length (v_cells ?kv2) = length (v_cells kv)"
      using Cons.prems(4) by (simp_all add: cs placed_only_def)
    fix t assume t: "t < kv_n_stream kv"
    have l: "t < length (v_cells kv1)" using t Cons.prems(4) kv_okD(2) [OF ok] by (simp add: placed_only_def)
    show "only_cells (v_cells kv ! t) (v_cells ?kv2 ! t) (written si (qs @ [x]) t)"
    proof (cases "t = ?st")
      case True
      then show ?thesis using only_cells_trans [OF c1 c'(2)] l by (simp add: w)
    next
      case False
      then show ?thesis using Cons.prems(4) t by (simp add: w placed_only_def)
    qed
  qed
  moreover have "filled ?kv2 si ub (qs @ [x])"
    unfolding filled_def
  proof (clarify, rename_tac s' ii')
    fix s' ii' assume q: "(s', ii') \<in> set (qs @ [x])"
    have l: "?st < length (v_cells kv1)" using st(1) Cons.prems(4) kv_okD(2) [OF ok] by (simp add: placed_only_def)
    let ?st' = "si_strm si ! s'" and ?j = "si_idxs si ! s' ! ii'" and ?k = "s' * si_size si + ii'"
    show "kc_pos (v_cells ?kv2 ! ?st') ! ?j = ub_pos ub ! ?k \<and>
      kc_seq (v_cells ?kv2 ! ?st') ! ?j = set (take (ub_n_seq_id ub ! ?k) (ub_seq_id ub ! ?k))"
    proof (cases "(s', ii') = x")
      case True
      then show ?thesis using c'(3,4) l by (auto simp: x)
    next
      case False
      then have q: "(s', ii') \<in> set qs" using q by simp
      have f: "kc_pos (v_cells kv1 ! ?st') ! ?j = ub_pos ub ! ?k \<and>
        kc_seq (v_cells kv1 ! ?st') ! ?j = set (take (ub_n_seq_id ub ! ?k) (ub_seq_id ub ! ?k))"
        using Cons.prems(7) q by (auto simp: filled_def)
      show ?thesis
      proof (cases "?st' = ?st")
        case True
        have "s' < si_n_stream si" "ii' < si_size si" using q Cons.prems(6) by auto
        then have "?j < cells_size (v_cells kv ! ?st')" using si nth_mem [of ii' "si_idxs si ! s'"] by (auto simp: empty_slot_def)
        then have "?j < length (kc_pos (v_cells kv1 ! ?st))" using c1 True by (simp add: only_cells_def cells_size_def)
        moreover have "?j \<noteq> ?idx" using nw q True by (auto simp: written_def)
        ultimately show ?thesis using c'(2) f True l by (simp add: only_cells_def)
      next
        case False
        then show ?thesis using f by simp
      qed
    qed
  qed
  ultimately show ?case
    using Cons.IH [of ?kv2 "qs @ [x]"] Cons.prems s unfolding step by (auto simp: x)
qed


lemma set_token_slots: "set (token_slots si) = {(s, ii). s < si_n_stream si \<and> ii < si_size si}"
  by (auto simp: token_slots_def)

lemma distinct_token_slots: "distinct (token_slots si)"
proof -
  have "distinct (concat (map (\<lambda>s. map (\<lambda>ii. (s, ii)) [0..<m]) [0..<n]))" for n m :: nat
    by (induction n) (auto simp: distinct_map inj_on_def)
  then show ?thesis by (simp add: token_slots_def)
qed

lemma purge_none: "purge_seqs (\<lambda>_. -1) ss kv = Some kv"
  by (induction ss) auto

text \<open>The loop of \<open>move_heads\<close> for arbitrary streams and heads.\<close>

lemma fold_heads:
  defines "mv \<equiv> \<lambda>f g. \<lambda>s kv. kv\<lparr>v_heads := (v_heads kv)[f s := g s :: nat]\<rparr>"
  shows "\<exists>h. fold (mv f g) ss kv = kv\<lparr>v_heads := h\<rparr> \<and> length h = length (v_heads kv) \<and>
    ((\<forall>st < length h. v_heads kv ! st \<le> N st) \<and> (\<forall>s \<in> set ss. g s \<le> N (f s)) \<longrightarrow> (\<forall>st < length h. h ! st \<le> N st))"
proof (induction ss arbitrary: kv)
  case Nil
  show ?case by (rule exI [of _ "v_heads kv"]) simp
next
  case (Cons s ss)
  let ?h1 = "(v_heads kv)[f s := g s]"
  from Cons.IH [of "kv\<lparr>v_heads := ?h1\<rparr>"] obtain h where
    "fold (mv f g) ss (kv\<lparr>v_heads := ?h1\<rparr>) = (kv\<lparr>v_heads := ?h1\<rparr>)\<lparr>v_heads := h\<rparr>"
    "length h = length (v_heads (kv\<lparr>v_heads := ?h1\<rparr>))"
    "(\<forall>st < length h. v_heads (kv\<lparr>v_heads := ?h1\<rparr>) ! st \<le> N st) \<and> (\<forall>s \<in> set ss. g s \<le> N (f s)) \<longrightarrow>
     (\<forall>st < length h. h ! st \<le> N st)" by blast
  then have h: "fold (mv f g) ss (kv\<lparr>v_heads := ?h1\<rparr>) = kv\<lparr>v_heads := h\<rparr>" "length h = length (v_heads kv)"
    "(\<forall>st < length h. ?h1 ! st \<le> N st) \<and> (\<forall>s \<in> set ss. g s \<le> N (f s)) \<longrightarrow> (\<forall>st < length h. h ! st \<le> N st)"
    by simp_all
  have "?h1 ! st \<le> N st" if "\<forall>st < length h. v_heads kv ! st \<le> N st" "g s \<le> N (f s)" "st < length h" for st
    using that h(2) by (cases "st = f s") auto
  then show ?case using h by (intro exI [of _ h]) (auto simp: mv_def)
qed

lemma move_heads_eq:
  "\<exists>h. move_heads si kv = kv\<lparr>v_heads := h\<rparr> \<and> length h = length (v_heads kv) \<and>
    ((\<forall>st < length h. v_heads kv ! st \<le> N st) \<and> (\<forall>s < si_n_stream si. last (si_idxs si ! s) + 1 \<le> N (si_strm si ! s)) \<longrightarrow>
     (\<forall>st < length h. h ! st \<le> N st))"
  using fold_heads [of "\<lambda>s. si_strm si ! s" "\<lambda>s. last (si_idxs si ! s) + 1" "[0..<si_n_stream si]" kv N]
  by (simp add: move_heads_def Ball_def)

text \<open>Placing a micro-batch into an empty slot never fails and writes only the slot's cells.\<close>

lemma apply_ubatch_empty:
  assumes ok: "kv_ok kv" and msa: "\<not> kv_msa_strict_slots kv" and si: "empty_slot kv si" and sz: "1 \<le> si_size si"
    and tok: "\<forall>i < si_n_stream si * si_size si. tok_ok ub i"
  shows "\<exists>kv'. kv_apply_ubatch si ub kv = Some kv' \<and> kv_ok kv' \<and> (\<exists>cs hs. kv' = kv\<lparr>v_cells := cs, v_heads := hs\<rparr>) \<and>
    (\<forall>st < kv_n_stream kv. only_cells (v_cells kv ! st) (v_cells kv' ! st) (written si (token_slots si) st)) \<and>
    filled kv' si ub (token_slots si)"
proof -
  have t: "\<forall>(s, ii) \<in> set (token_slots si). tok_ok ub (s * si_size si + ii)"
  proof (clarsimp simp: set_token_slots)
    fix s ii assume "s < si_n_stream si" "ii < si_size si"
    then have "s * si_size si + ii < Suc s * si_size si" by simp
    also have "\<dots> \<le> si_n_stream si * si_size si" using \<open>s < si_n_stream si\<close> by (intro mult_le_mono1) simp
    finally show "tok_ok ub (s * si_size si + ii)" using tok by blast
  qed
  have w0: "placed_only kv kv (written si [])"
    using kv_okD(5) [OF ok] by (simp add: placed_only_def only_cells_refl)
  obtain kv1 where kv1: "apply_tokens si ub (token_slots si) (kv, \<lambda>_. -1) = Some (kv1, \<lambda>_. -1)"
    "placed_only kv kv1 (written si (token_slots si))"
    "filled kv1 si ub (token_slots si)"
    using apply_tokens_empty [OF ok msa si _ distinct_token_slots t w0, of "\<lambda>_. -1"] set_token_slots by (auto simp: filled_def)
  obtain cs where cs: "kv1 = kv\<lparr>v_cells := cs\<rparr>" using kv1(2) unfolding placed_only_def by blast
  have app: "kv_apply_ubatch si ub kv = Some (move_heads si kv1)"
    using kv_okD(1) [OF ok] by (simp add: kv_apply_ubatch_def kv1(1) purge_none)
  have oc: "only_cells (v_cells kv ! st) (cs ! st) (written si (token_slots si) st)" if "st < kv_n_stream kv" for st
    using kv1(2) that by (simp add: placed_only_def cs)
  have len: "length cs = kv_n_stream kv" using kv1(2) kv_okD(2) [OF ok] by (simp add: placed_only_def cs)
  have sizes: "cells_size (cs ! st) = cells_size (v_cells kv ! st)" if "st < kv_n_stream kv" for st
    using oc [OF that] by (simp add: only_cells_def cells_size_def)
  obtain h where h: "move_heads si kv1 = kv1\<lparr>v_heads := h\<rparr>" "length h = length (v_heads kv1)"
    "(\<forall>st < length h. v_heads kv1 ! st \<le> cells_size (v_cells kv ! st)) \<and>
     (\<forall>s < si_n_stream si. last (si_idxs si ! s) + 1 \<le> cells_size (v_cells kv ! (si_strm si ! s))) \<longrightarrow>
     (\<forall>st < length h. h ! st \<le> cells_size (v_cells kv ! st))"
    using move_heads_eq [of si kv1 "\<lambda>st. cells_size (v_cells kv ! st)"] by blast
  have lh: "length h = kv_n_stream kv" using h(2) kv_okD(3) [OF ok] by (simp add: cs)
  have "last (si_idxs si ! s) + 1 \<le> cells_size (v_cells kv ! (si_strm si ! s))" if s: "s < si_n_stream si" for s
  proof -
    have "length (si_idxs si ! s) = si_size si" using si s by (simp add: empty_slot_def)
    then have "si_idxs si ! s \<noteq> []" using sz by auto
    then have "last (si_idxs si ! s) < cells_size (v_cells kv ! (si_strm si ! s))"
      using si s last_in_set by (auto simp: empty_slot_def)
    then show ?thesis by simp
  qed
  moreover have "\<forall>st < length h. v_heads kv1 ! st \<le> cells_size (v_cells kv ! st)"
    using kv_okD(7) [OF ok] lh by (simp add: cs)
  ultimately have hd: "\<forall>st < kv_n_stream kv. h ! st \<le> cells_size (v_cells kv ! st)" using h(3) lh by simp
  have eq: "move_heads si kv1 = kv\<lparr>v_cells := cs, v_heads := h\<rparr>" by (simp add: h(1)) (simp add: cs)
  obtain n where n: "\<forall>st < kv_n_stream kv. cells_size (v_cells kv ! st) = n" using ok by (auto simp: kv_ok_def)
  have okc: "\<forall>st < kv_n_stream kv. cells_ok (cs ! st) \<and> h ! st \<le> cells_size (cs ! st)"
    using oc hd sizes by (simp add: only_cells_def)
  have "kv_ok (move_heads si kv1)"
    unfolding eq kv_ok_def using ok okc len lh sizes n
    by (intro conjI exI [of _ n]) (simp_all add: kv_ok_def)
  moreover have "filled (move_heads si kv1) si ub (token_slots si)" using kv1(3) by (simp add: filled_def h(1))
  ultimately show ?thesis using app oc eq by (intro exI [of _ "move_heads si kv1"]) auto
qed



section \<open>The dry run\<close>

text \<open>A micro-batch that meets the assertions of \<open>find_slot\<close> and goes to different streams.\<close>

definition ub_fits :: "llama_kv_cache \<Rightarrow> llama_ubatch \<Rightarrow> bool" where
  "ub_fits kv ub \<longleftrightarrow> 1 \<le> slot_tokens kv ub \<and> ub_streams_ok kv ub (slot_tokens kv ub) [0..<slot_streams kv ub] \<and>
     (kv_n_stream kv > 1 \<longrightarrow> ub_n_tokens ub mod ub_n_seqs_unq ub = 0) \<and>
     distinct (map (\<lambda>s. seq_to_stream kv ! (ub_seq_id_unq ub ! s)) [0..<slot_streams kv ub]) \<and>
     (\<forall>i < ub_n_tokens ub. tok_ok ub i)"

lemma ub_fits_cong: "seq_to_stream kv' = seq_to_stream kv \<Longrightarrow> kv_n_stream kv' = kv_n_stream kv \<Longrightarrow> ub_fits kv' ub = ub_fits kv ub"
  by (simp add: ub_fits_def slot_tokens_def slot_streams_def ub_streams_ok_def)

lemma can_use_no_swa: "kv_swa_type kv = SWA_TYPE_NONE \<Longrightarrow> can_use kv c i \<longleftrightarrow> kc_pos c ! i = -1"
  by (simp add: can_use_def is_masked_swa_def cells_is_empty_def)

lemma find_slot_no_swa:
  assumes ok: "kv_ok kv" and msa: "\<not> kv_msa_strict_slots kv" and swa: "kv_swa_type kv = SWA_TYPE_NONE" and ub: "ub_fits kv ub"
  shows "kv_find_slot ub False kv = Some None \<or>
    (\<exists>si. kv_find_slot ub False kv = Some (Some si) \<and> empty_slot kv si \<and> 1 \<le> si_size si \<and>
      si_n_stream si * si_size si = ub_n_tokens ub)"
proof -
  have u: "1 \<le> slot_tokens kv ub" "ub_streams_ok kv ub (slot_tokens kv ub) [0..<slot_streams kv ub]"
    "kv_n_stream kv > 1 \<longrightarrow> ub_n_tokens ub mod ub_n_seqs_unq ub = 0"
    "distinct (map (\<lambda>s. seq_to_stream kv ! (ub_seq_id_unq ub ! s)) [0..<slot_streams kv ub])"
    using ub by (simp_all add: ub_fits_def)
  have n: "0 < slot_streams kv ub" using u(1) by (cases "slot_streams kv ub = 0") (auto simp: slot_tokens_def)
  from find_slot_exact [OF ok msa u(1,2,3)] show ?thesis
  proof (elim disjE exE conjE)
    fix si assume si: "kv_find_slot ub False kv = Some (Some si)" "si_n_stream si = slot_streams kv ub"
      "length (si_idxs si) = slot_streams kv ub"
      "\<forall>s < slot_streams kv ub. si_strm si ! s = seq_to_stream kv ! (ub_seq_id_unq ub ! s) \<and>
          is_slot kv (ub_cells kv ub s) (slot_tokens kv ub) (si_idxs si ! s)"
    have sz: "si_size si = slot_tokens kv ub" using si(4) n by (simp add: si_size_def is_slot_def)
    have "si_strm si = map (\<lambda>s. seq_to_stream kv ! (ub_seq_id_unq ub ! s)) [0..<slot_streams kv ub]"
      using si(2,4) by (intro nth_equalityI) (auto simp: si_n_stream_def)
    then have dist: "distinct (si_strm si)" using u(4) by simp
    have "empty_slot kv si"
      unfolding empty_slot_def
    proof (intro conjI allI impI)
      show "length (si_idxs si) = si_n_stream si" using si(2,3) by simp
      show "distinct (si_strm si)" by (rule dist)
      fix s assume s: "s < si_n_stream si"
      have sl: "si_strm si ! s = seq_to_stream kv ! (ub_seq_id_unq ub ! s)"
        "is_slot kv (v_cells kv ! (si_strm si ! s)) (slot_tokens kv ub) (si_idxs si ! s)"
        using si(2,4) s by simp_all
      show "si_strm si ! s < kv_n_stream kv"
        using u(2) s si(2) kv_okD(8) [OF ok] by (simp add: sl(1) ub_streams_ok_def)
      show "distinct (si_idxs si ! s)" "length (si_idxs si ! s) = si_size si"
        "\<forall>j \<in> set (si_idxs si ! s). j < cells_size (v_cells kv ! (si_strm si ! s)) \<and> kc_pos (v_cells kv ! (si_strm si ! s)) ! j = -1"
        using sl(2) by (simp_all add: is_slot_def sz can_use_no_swa [OF swa])
    qed
    moreover have "si_n_stream si * si_size si = ub_n_tokens ub"
      using u(3) by (auto simp: si(2) sz slot_tokens_def slot_streams_def)
    ultimately show ?thesis using si(1) u(1) sz by auto
  qed simp
qed

definition saved_state :: "slot_info \<Rightarrow> llama_kv_cache \<Rightarrow> prep_state" where
  "saved_state si kv = \<lparr>ps_sinfo = si, ps_heads_old = v_heads kv,
     ps_cells = map (\<lambda>s. cells_cp_idxs (si_idxs si ! s) (v_cells kv ! (si_strm si ! s))) [0..<si_n_stream si]\<rparr>"

lemma restore_saved:
  assumes ok: "kv_ok kv" and si: "empty_slot kv si"
    and len: "length cs = kv_n_stream kv" "length hs = kv_n_stream kv"
    and oc: "\<forall>st < kv_n_stream kv. only_cells (v_cells kv ! st) (cs ! st) (written si (token_slots si) st)"
  shows "\<exists>h. restore_state (saved_state si kv) (kv\<lparr>v_cells := cs, v_heads := hs\<rparr>) = kv\<lparr>v_heads := h\<rparr> \<and>
    length h = kv_n_stream kv \<and> (kv_n_stream kv = 1 \<longrightarrow> 0 < si_n_stream si \<longrightarrow> h = v_heads kv)"
proof -
  let ?S = "si_n_stream si" and ?strm = "\<lambda>s. si_strm si ! s"
  let ?f = "\<lambda>s kv'. kv'\<lparr>v_cells := (v_cells kv')[?strm s := cells_set_idxs (si_idxs si ! s) (ps_cells (saved_state si kv) ! s) (v_cells kv' ! ?strm s)],
                       v_heads := (v_heads kv')[?strm s := v_heads kv ! s]\<rparr>"
  have inj: "s = t" if "s < ?S" "t < ?S" "?strm s = ?strm t" for s t
    using si that by (auto simp: empty_slot_def si_n_stream_def nth_eq_iff_index_eq)
  have wr: "written si (token_slots si) (?strm s) = set (si_idxs si ! s)" if s: "s < ?S" for s
  proof -
    have "length (si_idxs si ! s) = si_size si" using si s by (simp add: empty_slot_def)
    then have l: "set (si_idxs si ! s) = {si_idxs si ! s ! ii |ii. ii < si_size si}" by (auto simp: set_conv_nth)
    show ?thesis
    proof (intro equalityI subsetI)
      fix j assume "j \<in> written si (token_slots si) (?strm s)"
      then obtain t ii where "j = si_idxs si ! t ! ii" "t < ?S" "ii < si_size si" "?strm t = ?strm s"
        by (auto simp: written_def set_token_slots)
      then show "j \<in> set (si_idxs si ! s)" using inj [of t s] s by (auto simp: l)
    next
      fix j assume "j \<in> set (si_idxs si ! s)"
      then show "j \<in> written si (token_slots si) (?strm s)"
        using s by (auto simp: l written_def set_token_slots)
    qed
  qed
  have one: "cells_set_idxs (si_idxs si ! s) (cells_cp_idxs (si_idxs si ! s) (v_cells kv ! ?strm s)) (cs ! ?strm s) = v_cells kv ! ?strm s"
    if s: "s < ?S" for s
  proof -
    have st: "?strm s < kv_n_stream kv" using si s by (simp add: empty_slot_def)
    have o: "only_cells (v_cells kv ! ?strm s) (cs ! ?strm s) (set (si_idxs si ! s))" using oc st unfolding wr [OF s, symmetric] by blast
    show ?thesis
      using o si s kv_okD(5) [OF ok st]
      by (intro cells_restore) (auto simp: only_cells_def empty_slot_def cells_size_def)
  qed
  have F: "\<exists>h. fold ?f [0..<n] (kv\<lparr>v_cells := cs, v_heads := hs\<rparr>) =
      kv\<lparr>v_cells := map (\<lambda>st. if st \<in> ?strm ` {..<n} then v_cells kv ! st else cs ! st) [0..<kv_n_stream kv], v_heads := h\<rparr> \<and>
      length h = kv_n_stream kv \<and> (kv_n_stream kv = 1 \<longrightarrow> 0 < n \<longrightarrow> h = v_heads kv)" if "n \<le> ?S" for n
    using that
  proof (induction n)
    case 0
    have "map (\<lambda>st. cs ! st) [0..<kv_n_stream kv] = cs" using map_nth [of cs] len(1) by simp
    then show ?case using len by (intro exI [of _ hs]) simp
  next
    case (Suc n)
    then obtain h where h: "fold ?f [0..<n] (kv\<lparr>v_cells := cs, v_heads := hs\<rparr>) =
      kv\<lparr>v_cells := map (\<lambda>st. if st \<in> ?strm ` {..<n} then v_cells kv ! st else cs ! st) [0..<kv_n_stream kv], v_heads := h\<rparr>"
      "length h = kv_n_stream kv" by auto
    let ?cs = "map (\<lambda>st. if st \<in> ?strm ` {..<n} then v_cells kv ! st else cs ! st) [0..<kv_n_stream kv]"
    have st: "?strm n < kv_n_stream kv" using si Suc.prems by (simp add: empty_slot_def)
    have "?strm n \<notin> ?strm ` {..<n}"
    proof
      assume "?strm n \<in> ?strm ` {..<n}"
      then obtain s where "s < n" "?strm n = ?strm s" by auto
      then show False using inj [of n s] Suc.prems by simp
    qed
    then have cn: "?cs ! ?strm n = cs ! ?strm n" using st by simp
    have pc: "ps_cells (saved_state si kv) ! n = cells_cp_idxs (si_idxs si ! n) (v_cells kv ! ?strm n)"
      using Suc.prems by (simp add: saved_state_def)
    have cells: "?cs[?strm n := v_cells kv ! ?strm n] =
        map (\<lambda>st. if st \<in> ?strm ` {..<Suc n} then v_cells kv ! st else cs ! st) [0..<kv_n_stream kv]"
    proof (rule nth_equalityI)
      fix j assume "j < length (?cs[?strm n := v_cells kv ! ?strm n])"
      then have j: "j < kv_n_stream kv" by simp
      show "?cs[?strm n := v_cells kv ! ?strm n] ! j =
          map (\<lambda>st. if st \<in> ?strm ` {..<Suc n} then v_cells kv ! st else cs ! st) [0..<kv_n_stream kv] ! j"
        using j by (cases "j = ?strm n") (simp_all add: lessThan_Suc)
    qed simp
    have "fold ?f [0..<Suc n] (kv\<lparr>v_cells := cs, v_heads := hs\<rparr>) =
        kv\<lparr>v_cells := ?cs[?strm n := v_cells kv ! ?strm n], v_heads := h[?strm n := v_heads kv ! n]\<rparr>"
      using one [of n] Suc.prems by (simp add: h(1) cn pc)
    moreover have "h[?strm n := v_heads kv ! n] = v_heads kv" if "kv_n_stream kv = 1"
    proof -
      have "?S \<le> 1"
      proof (rule ccontr)
        assume "\<not> ?S \<le> 1"
        then have "0 < ?S" "1 < ?S" by auto
        then have "?strm 0 = ?strm 1" using si that by (auto simp: empty_slot_def)
        then show False using inj [of 0 1] \<open>1 < ?S\<close> by simp
      qed
      then have "n = 0" using Suc.prems by simp
      moreover have "?strm n = 0" using st that by simp
      ultimately show ?thesis using h(2) that kv_okD(3) [OF ok] by (cases h; cases "v_heads kv") auto
    qed
    ultimately show ?case using h(2) by (intro exI [of _ "h[?strm n := v_heads kv ! n]"]) (simp only: cells, simp)
  qed
  have "restore_state (saved_state si kv) (kv\<lparr>v_cells := cs, v_heads := hs\<rparr>) = fold ?f [0..<?S] (kv\<lparr>v_cells := cs, v_heads := hs\<rparr>)"
    by (simp add: restore_state_def Let_def) (simp add: saved_state_def)
  moreover have "map (\<lambda>st. if st \<in> ?strm ` {..<?S} then v_cells kv ! st else cs ! st) [0..<kv_n_stream kv] = v_cells kv"
  proof (rule nth_equalityI)
    fix st assume "st < length (map (\<lambda>st. if st \<in> ?strm ` {..<?S} then v_cells kv ! st else cs ! st) [0..<kv_n_stream kv])"
    then have st: "st < kv_n_stream kv" by simp
    show "map (\<lambda>st. if st \<in> ?strm ` {..<?S} then v_cells kv ! st else cs ! st) [0..<kv_n_stream kv] ! st = v_cells kv ! st"
    proof (cases "st \<in> ?strm ` {..<?S}")
      case False
      then have "written si (token_slots si) st = {}" by (auto simp: written_def set_token_slots)
      with oc st have o: "only_cells (v_cells kv ! st) (cs ! st) {}" by fastforce
      note C = cells_okD(1-3) [OF kv_okD(5) [OF ok st]]
      have o': "cells_ok (cs ! st)" using o by (simp add: only_cells_def)
      note D = cells_okD(1-3) [OF o']
      have "cs ! st = v_cells kv ! st"
        using o C D by (intro cells_ok_eqI [OF o' kv_okD(5) [OF ok st]]) (auto simp: only_cells_def intro: nth_equalityI)
      then show ?thesis using st by simp
    qed (use st in simp)
  qed (simp add: kv_okD(2) [OF ok])
  ultimately show ?thesis using F [OF order_refl] by auto
qed


lemma kv_same: "\<exists>cs hs. kv = kv\<lparr>v_cells := cs, v_heads := hs\<rparr>" for kv :: llama_kv_cache
  by (rule exI [of _ "v_cells kv"], rule exI [of _ "v_heads kv"]) simp

lemma prepare_loop_restores:
  assumes "kv_ok kv" "\<not> kv_msa_strict_slots kv" "kv_swa_type kv = SWA_TYPE_NONE" "\<forall>ub \<in> set ubs. ub_fits kv ub"
  shows "\<exists>kv' new success h. prepare_loop ubs kv states = Some (kv', states @ new, success) \<and>
    fold restore_state (rev new) kv' = kv\<lparr>v_heads := h\<rparr> \<and> length h = kv_n_stream kv \<and>
    (kv_n_stream kv = 1 \<longrightarrow> h = v_heads kv) \<and> (success \<longleftrightarrow> length new = length ubs) \<and>
    (\<exists>cs hs. kv' = kv\<lparr>v_cells := cs, v_heads := hs\<rparr>)"
  using assms
proof (induction ubs arbitrary: kv states)
  case Nil
  show ?case
    using kv_okD(3) [OF Nil.prems(1)]
    by (intro exI [of _ kv] exI [of _ "[] :: prep_state list"] exI [of _ True] exI [of _ "v_heads kv"]) (simp add: kv_same)
next
  case (Cons ub ubs)
  from find_slot_no_swa [OF Cons.prems(1-3), of ub] Cons.prems(4)
  consider "kv_find_slot ub False kv = Some None"
    | si where "kv_find_slot ub False kv = Some (Some si)" "empty_slot kv si" "1 \<le> si_size si" "si_n_stream si * si_size si = ub_n_tokens ub"
    by auto
  then show ?case
  proof cases
    case 1
    then have "prepare_loop (ub # ubs) kv states = Some (kv, states @ [], False)" by simp
    then show ?thesis
      using kv_okD(3) [OF Cons.prems(1)]
      by (intro exI [of _ kv] exI [of _ "[] :: prep_state list"] exI [of _ False] exI [of _ "v_heads kv"]) (simp add: kv_same)
  next
    case 2
    have "\<forall>i < si_n_stream si * si_size si. tok_ok ub i" using Cons.prems(4) by (simp add: 2(4) ub_fits_def)
    from apply_ubatch_empty [OF Cons.prems(1,2) 2(2,3) this] obtain kv1 cs hs where
      kv1: "kv_apply_ubatch si ub kv = Some kv1" "kv_ok kv1" "kv1 = kv\<lparr>v_cells := cs, v_heads := hs\<rparr>"
      "\<forall>st < kv_n_stream kv. only_cells (v_cells kv ! st) (v_cells kv1 ! st) (written si (token_slots si) st)"
      by blast
    have fits: "\<forall>ub \<in> set ubs. ub_fits kv1 ub"
      using Cons.prems(4) ub_fits_cong [of kv1 kv] by (simp add: kv1(3))
    have "\<not> kv_msa_strict_slots kv1" "kv_swa_type kv1 = SWA_TYPE_NONE" using Cons.prems(2,3) by (simp_all add: kv1(3))
    from Cons.IH [OF kv1(2) this fits, of "states @ [saved_state si kv]"] obtain kv' new success h cs' hs' where
      IH: "prepare_loop ubs kv1 (states @ [saved_state si kv]) = Some (kv', (states @ [saved_state si kv]) @ new, success)"
      "fold restore_state (rev new) kv' = kv1\<lparr>v_heads := h\<rparr>" "length h = kv_n_stream kv1"
      "success \<longleftrightarrow> length new = length ubs" "kv' = kv1\<lparr>v_cells := cs', v_heads := hs'\<rparr>" by blast
    have loop: "prepare_loop (ub # ubs) kv states = Some (kv', states @ saved_state si kv # new, success)"
      using 2(1) kv1(1) IH(1) by (simp add: saved_state_def)
    have len: "length cs = kv_n_stream kv" "length h = kv_n_stream kv"
      using kv_okD(2) [OF kv1(2)] IH(3) by (simp_all add: kv1(3))
    have oc: "\<forall>st < kv_n_stream kv. only_cells (v_cells kv ! st) (cs ! st) (written si (token_slots si) st)"
      using kv1(4) by (simp add: kv1(3))
    have n0: "0 < si_n_stream si \<or> ub_n_tokens ub = 0" using 2(4) by (cases "si_n_stream si") auto
    have "1 \<le> slot_tokens kv ub" using Cons.prems(4) by (simp add: ub_fits_def)
    then have "ub_n_tokens ub \<noteq> 0" by (cases "ub_n_tokens ub") (simp_all add: slot_tokens_def)
    with n0 have S: "0 < si_n_stream si" by simp
    have "fold restore_state (rev (saved_state si kv # new)) kv' = restore_state (saved_state si kv) (kv\<lparr>v_cells := cs, v_heads := h\<rparr>)"
      by (simp add: IH(2)) (simp add: kv1(3))
    moreover obtain h' where "restore_state (saved_state si kv) (kv\<lparr>v_cells := cs, v_heads := h\<rparr>) = kv\<lparr>v_heads := h'\<rparr>"
      "length h' = kv_n_stream kv" "kv_n_stream kv = 1 \<longrightarrow> h' = v_heads kv"
      using restore_saved [OF Cons.prems(1) 2(2) len oc] S by auto
    moreover have "kv' = kv\<lparr>v_cells := cs', v_heads := hs'\<rparr>" by (simp add: IH(5) kv1(3))
    ultimately show ?thesis
      using loop IH(4)
      by (intro exI [of _ kv'] exI [of _ "saved_state si kv # new"] exI [of _ success] exI [of _ h']) auto
  qed
qed


section \<open>Reachable caches\<close>

text \<open>
  The states reached from the constructor by \<open>clear\<close>, the sequence operations and the placement of
  micro-batches into the slots found for them (full attention). A copy within a
  stream goes to a sequence that holds nothing, as the assertion of \<open>seq_add\<close> in the cells demands.
\<close>

inductive kv_reach :: "llama_kv_cache \<Rightarrow> bool" where
  kvr_init: "kv_other kv = None \<Longrightarrow> 0 < n_seq_max \<Longrightarrow> n_seq_max \<le> LLAMA_MAX_SEQ \<Longrightarrow>
    kv_reach (kv_init unified kv_size n_seq_max kv)"
| kvr_clear: "kv_reach kv \<Longrightarrow> kv_reach (kv_clear kv)"
| kvr_rm: "kv_reach kv \<Longrightarrow> s = -1 \<or> kv_seq_ok kv s \<Longrightarrow> kv_seq_rm s p0 p1 kv = Some (kv', b) \<Longrightarrow> kv_reach kv'"
| kvr_keep: "kv_reach kv \<Longrightarrow> kv_seq_ok kv s \<Longrightarrow> kv_seq_keep s kv = Some kv' \<Longrightarrow> kv_reach kv'"
| kvr_add: "kv_reach kv \<Longrightarrow> kv_seq_ok kv s \<Longrightarrow> kv_seq_add s p0 p1 d kv = Some kv' \<Longrightarrow> kv_reach kv'"
| kvr_cp: "kv_reach kv \<Longrightarrow> kv_seq_ok kv src \<Longrightarrow> kv_seq_ok kv dst \<Longrightarrow> stream_of kv src = stream_of kv dst \<Longrightarrow>
    kv_positions kv (nat dst) = {} \<Longrightarrow> kv_seq_cp src dst p0 p1 kv = Some kv' \<Longrightarrow> kv_reach kv'"
| kvr_place: "kv_reach kv \<Longrightarrow> \<not> kv_msa_strict_slots kv \<Longrightarrow> kv_swa_type kv = SWA_TYPE_NONE \<Longrightarrow> ub_fits kv ub \<Longrightarrow>
    kv_find_slot ub False kv = Some (Some si) \<Longrightarrow> kv_apply_ubatch si ub kv = Some kv' \<Longrightarrow> kv_reach kv'"

lemma kv_reach_ok: "kv_reach kv \<Longrightarrow> kv_ok kv"
proof (induction rule: kv_reach.induct)
  case (kvr_keep kv s kv')
  have "nat s < length (seq_to_stream kv)" using kvr_keep.hyps(2) by (simp add: kv_seq_ok_def)
  from seq_keep_positions [OF kvr_keep.IH kvr_keep.hyps(2) this kvr_keep.hyps(3)] show ?case by blast
next
  case (kvr_add kv s p0 p1 d kv')
  show ?case
  proof (cases "d = 0")
    case True
    then show ?thesis using kvr_add kv_okD(1) [OF kvr_add.IH] by (auto simp: kv_seq_add_def split: if_splits)
  qed (use seq_add_positions [OF kvr_add.IH kvr_add.hyps(2) _ kvr_add.hyps(3)] in blast)
next
  case (kvr_cp kv src dst p0 p1 kv')
  have "nat dst < length (seq_to_stream kv)" using kvr_cp.hyps(3) by (simp add: kv_seq_ok_def)
  from seq_cp_positions [OF kvr_cp.IH kvr_cp.hyps(2-5) this kvr_cp.hyps(6)] show ?case by blast
next
  case (kvr_place kv ub si kv')
  from find_slot_no_swa [OF kvr_place.IH kvr_place.hyps(2-4)] kvr_place.hyps(5)
  have si: "empty_slot kv si" "1 \<le> si_size si" "si_n_stream si * si_size si = ub_n_tokens ub" by auto
  have "\<forall>i < si_n_stream si * si_size si. tok_ok ub i" using kvr_place.hyps(4) by (simp add: si(3) ub_fits_def)
  from apply_ubatch_empty [OF kvr_place.IH kvr_place.hyps(2) si(1,2) this] kvr_place.hyps(6) show ?case by auto
qed (auto intro: kv_ok_init kv_ok_clear kv_ok_seq_rm)


section \<open>Properties\<close>



text \<open>
  C1. \<open>find_slot\<close> without the strict-slot mode answers a slot exactly when there is one: it returns
  one list of distinct usable cells per sequence of the micro-batch, in the sequence's own stream and
  as long as the sequence needs, or no slot when some stream has fewer usable cells. It always ends.
\<close>

theorem kv_find_slot_exact:
  assumes "kv_ok kv" "\<not> kv_msa_strict_slots kv" "1 \<le> slot_tokens kv ub"
    and "ub_streams_ok kv ub (slot_tokens kv ub) [0..<slot_streams kv ub]"
    and "kv_n_stream kv > 1 \<longrightarrow> ub_n_tokens ub mod ub_n_seqs_unq ub = 0"
  shows "case kv_find_slot ub False kv of
      None \<Rightarrow> False
    | Some None \<Rightarrow> \<exists>s < slot_streams kv ub. card (usable kv (ub_cells kv ub s)) < slot_tokens kv ub
    | Some (Some si) \<Rightarrow> si_n_stream si = slot_streams kv ub \<and> (\<forall>s < slot_streams kv ub.
        si_strm si ! s = seq_to_stream kv ! (ub_seq_id_unq ub ! s) \<and>
        is_slot kv (ub_cells kv ub s) (slot_tokens kv ub) (si_idxs si ! s) \<and>
        slot_tokens kv ub \<le> card (usable kv (ub_cells kv ub s)))"
  using find_slot_exact [OF assms] is_slot_card by (auto split: option.split)

definition ub_demo :: llama_ubatch where
  "ub_demo = ubatch_empty\<lparr>ub_n_tokens := 1, ub_n_seqs_unq := 1, ub_n_pos := 1, ub_pos := [8], ub_n_seq_id := [1],
     ub_seq_id := [[2]], ub_seq_id_unq := [2]\<rparr>"

lemma ub_demo_streams:
  "slot_streams kv_demo ub_demo = 1" "slot_tokens kv_demo ub_demo = 1"
  "ub_streams_ok kv_demo ub_demo (slot_tokens kv_demo ub_demo) [0..<slot_streams kv_demo ub_demo]"
  "kv_n_stream kv_demo > 1 \<longrightarrow> ub_n_tokens ub_demo mod ub_n_seqs_unq ub_demo = 0" "\<not> kv_msa_strict_slots kv_demo"
  "kv_swa_type kv_demo = SWA_TYPE_NONE" "kv_n_stream kv_demo = 1" "ub_n_tokens ub_demo = 1"
  by (simp_all add: slot_streams_def slot_tokens_def ub_streams_ok_def kv_demo_def ub_demo_def)

lemma kv_demo_usable: "usable kv_demo (ub_cells kv_demo ub_demo 0) = {2}"
  by (auto simp: usable_def can_use_no_swa ub_demo_streams(6) kv_demo_def ub_demo_def cells_size_def cells_demo_fields
      less_Suc_eq numeral_eq_Suc)

theorem kv_find_slot_exact_witness:
  "\<exists>si. kv_find_slot ub_demo False kv_demo = Some (Some si) \<and> si_idxs si ! 0 = [2]"
proof -
  have c: "card (usable kv_demo (ub_cells kv_demo ub_demo 0)) = 1" by (simp add: kv_demo_usable)
  have "1 \<le> slot_tokens kv_demo ub_demo" by (simp add: ub_demo_streams)
  from kv_find_slot_exact [OF kv_demo_ok ub_demo_streams(5) this ub_demo_streams(3,4)] c obtain si where
    si: "kv_find_slot ub_demo False kv_demo = Some (Some si)"
    "is_slot kv_demo (ub_cells kv_demo ub_demo 0) 1 (si_idxs si ! 0)"
    by (auto simp: ub_demo_streams split: option.splits)
  obtain x where x: "si_idxs si ! 0 = [x]" using si(2) by (auto simp: is_slot_def length_Suc_conv)
  then have "x \<in> usable kv_demo (ub_cells kv_demo ub_demo 0)" using si(2) by (simp add: is_slot_def usable_def)
  then show ?thesis using si(1) x by (auto simp: kv_demo_usable)
qed


lemma ub_demo_fits: "ub_fits kv_demo ub_demo"
  by (simp add: ub_fits_def ub_demo_streams(1,2,7,8) ub_streams_ok_def tok_ok_def)
    (simp add: ub_demo_def kv_demo_def LLAMA_MAX_SEQ_def)

lemma kv_demo_slot: "\<exists>si. kv_find_slot ub_demo False kv_demo = Some (Some si) \<and> si_idxs si ! 0 = [2] \<and> si_strm si ! 0 = 0 \<and>
    si_n_stream si = 1 \<and> si_size si = 1"
proof -
  have c: "card (usable kv_demo (ub_cells kv_demo ub_demo 0)) = 1" by (simp add: kv_demo_usable)
  have "1 \<le> slot_tokens kv_demo ub_demo" by (simp add: ub_demo_streams)
  from find_slot_exact [OF kv_demo_ok ub_demo_streams(5) this ub_demo_streams(3,4)] c obtain si where
    si: "kv_find_slot ub_demo False kv_demo = Some (Some si)" "si_n_stream si = 1"
    "si_strm si ! 0 = seq_to_stream kv_demo ! (ub_seq_id_unq ub_demo ! 0)"
    "is_slot kv_demo (ub_cells kv_demo ub_demo 0) 1 (si_idxs si ! 0)"
    by (auto simp: ub_demo_streams)
  obtain x where x: "si_idxs si ! 0 = [x]" using si(4) by (auto simp: is_slot_def length_Suc_conv)
  then have "x \<in> usable kv_demo (ub_cells kv_demo ub_demo 0)" using si(4) by (simp add: is_slot_def usable_def)
  then have "x = 2" by (simp only: kv_demo_usable singleton_iff)
  moreover have "seq_to_stream kv_demo ! (ub_seq_id_unq ub_demo ! 0) = 0" by (simp add: kv_demo_def ub_demo_def)
  ultimately show ?thesis using si(1-3) x by (intro exI [of _ si]) (simp add: si_size_def)
qed




text \<open>Two streams of two cells, heads 0 and 1; a micro-batch of one token of sequence 1.\<close>

definition kv2_demo :: llama_kv_cache where
  "kv2_demo = kv_demo\<lparr>kv_n_stream := 2, v_cells := [cells_resize 2 cells_new, cells_resize 2 cells_new], v_heads := [0, 1], seq_to_stream := [0, 1]\<rparr>"

definition ub2_demo :: llama_ubatch where
  "ub2_demo = ubatch_empty\<lparr>ub_n_tokens := 1, ub_n_seqs_unq := 1, ub_n_pos := 1, ub_pos := [0], ub_n_seq_id := [1],
     ub_seq_id := [[1]], ub_seq_id_unq := [1]\<rparr>"
lemma kv2_demo_slot: "kv_find_slot ub2_demo False kv2_demo = Some (Some \<lparr>si_s0 = 1, si_s1 = 1, si_strm = [1], si_idxs = [[1]]\<rparr>)"
  by (simp add: kv_find_slot_def kv2_demo_def kv_demo_def ub2_demo_def find_stream_def cells_size_def cells_resize_def
   cells_reset_def cells_new_def vec_resize_def Let_def can_use_def cells_is_empty_def cells_get_used_def LLAMA_MAX_SEQ_def numeral_eq_Suc)

lemma kv2_demo_apply: "\<exists>cs. kv_apply_ubatch \<lparr>si_s0 = 1, si_s1 = 1, si_strm = [1], si_idxs = [[1]]\<rparr> ub2_demo kv2_demo = Some (kv2_demo\<lparr>v_cells := cs, v_heads := [0, 2]\<rparr>)"
proof -
  have m: "kc_pos (v_cells kv2_demo ! 1) ! 1 = -1" "\<not> kv_msa_strict_slots kv2_demo"
    by (simp_all add: kv2_demo_def kv_demo_def cells_resize_def cells_reset_def cells_new_def vec_resize_def Let_def numeral_eq_Suc)
  define c where "c = fst (place_token kv2_demo ub2_demo 0 1 (v_cells kv2_demo ! 1, \<lambda>_. -1))"
  have "snd (place_token kv2_demo ub2_demo 0 1 (v_cells kv2_demo ! 1, \<lambda>_. -1)) = (\<lambda>_. -1)"
    using m(1) by (simp add: place_token_def Let_def cells_is_empty_def)
  then have "place_token kv2_demo ub2_demo 0 1 (v_cells kv2_demo ! 1, \<lambda>_. -1) = (c, \<lambda>_. -1)"
    unfolding c_def by (metis prod.collapse)
  then have e: "apply_tokens \<lparr>si_s0 = 1, si_s1 = 1, si_strm = [1], si_idxs = [[1]]\<rparr> ub2_demo [(0, 0)] (kv2_demo, \<lambda>_. -1) =
    Some (kv2_demo\<lparr>v_cells := (v_cells kv2_demo)[1 := c]\<rparr>, \<lambda>_. -1)"
    using m(2) by simp
  have t: "token_slots \<lparr>si_s0 = 1, si_s1 = 1, si_strm = [1], si_idxs = [[1]]\<rparr> = [(0, 0)]"
    by (simp add: token_slots_def si_size_def si_n_stream_def)
  have o: "kv_other kv2_demo = None" "v_heads kv2_demo = [0, 1]" by (simp_all add: kv2_demo_def kv_demo_def)
  show ?thesis unfolding kv_apply_ubatch_def t e
    by (auto simp: o purge_none move_heads_def si_n_stream_def numeral_2_eq_2)
qed
text \<open>
  With several streams the dry run does not put the heads back: the saved heads are indexed by
  the row of the slot, not by its stream. Here a micro-batch of stream 1 leaves the head of stream 1
  at the head of stream 0.
\<close>

lemma kv_prepare_head_misplaced:
  "\<exists>kv' sinfos. kv_prepare [ub2_demo] kv2_demo = Some (kv', sinfos) \<and> sinfos \<noteq> [] \<and> v_heads kv2_demo = [0, 1] \<and> v_heads kv' = [0, 0]"
proof -
  obtain cs where a: "kv_apply_ubatch \<lparr>si_s0 = 1, si_s1 = 1, si_strm = [1], si_idxs = [[1]]\<rparr> ub2_demo kv2_demo = Some (kv2_demo\<lparr>v_cells := cs, v_heads := [0, 2]\<rparr>)"
    using kv2_demo_apply by blast
  have "v_heads kv2_demo = [0, 1]" by (simp add: kv2_demo_def)
  then show ?thesis by (simp add: kv_prepare_def kv2_demo_slot a [simplified] restore_state_def si_n_stream_def Let_def)
qed

end
