(* ===== verification/Batch_Split.thy ===== *)
theory Batch_Split
  imports Batch
begin

text \<open>
  What the splits of a batch do (\<open>split_equal\<close>, \<open>split_simple\<close>, \<open>split_seq\<close> of
  src/src/llama-batch.cpp, defined in the theory of the batch allocator). \<open>allocr_ok\<close> is the
  state between splits: the counter agrees with the flags, and the used tokens of every sequence
  set are a prefix of its tokens. A non-empty \<open>split_equal\<close> takes the same number of next unused
  tokens from each of a list of disjoint sequence sets (\<open>emits\<close>).
\<close>

section \<open>The state between splits\<close>

definition allocr_ok :: "llama_batch_allocr \<Rightarrow> bool" where
  "allocr_ok a \<longleftrightarrow> length (ba_used a) = get_n_tokens a \<and> length (ba_seq_set a) = get_n_tokens a \<and>
     (\<forall>S. ba_seq_set_map a S = filter (\<lambda>i. ba_seq_set a ! i = S) [0..<get_n_tokens a]) \<and>
     (\<forall>S \<in> set (ba_seq_set a). S \<noteq> {}) \<and>
     ba_n_used a = card {i. i < get_n_tokens a \<and> ba_used a ! i} \<and>
     (\<forall>S. \<exists>k. \<forall>j < length (ba_seq_set_map a S). ba_used a ! (ba_seq_set_map a S ! j) \<longleftrightarrow> j < k)"

text \<open>The tokens of \<open>X\<close> marked as used, \<open>k\<close> of them.\<close>

definition mark :: "llama_batch_allocr \<Rightarrow> nat set \<Rightarrow> nat \<Rightarrow> llama_batch_allocr" where
  "mark a X k = a\<lparr>ba_used := map (\<lambda>i. ba_used a ! i \<or> i \<in> X) [0..<length (ba_used a)], ba_n_used := ba_n_used a + k\<rparr>"

lemma mark_same [simp]:
  "ba_batch (mark a X k) = ba_batch a" "ba_seq_set (mark a X k) = ba_seq_set a"
  "ba_seq_set_map (mark a X k) = ba_seq_set_map a" "get_n_tokens (mark a X k) = get_n_tokens a"
  "ba_n_used (mark a X k) = ba_n_used a + k" "length (ba_used (mark a X k)) = length (ba_used a)"
  "ba_out_ids (mark a X k) = ba_out_ids a" "ba_has_cpl (mark a X k) = ba_has_cpl a"
  "ba_n_seq_max (mark a X k) = ba_n_seq_max a" "ba_n_embd (mark a X k) = ba_n_embd a"
  "ba_n_pos_per_embd (mark a X k) = ba_n_pos_per_embd a"
  "i < length (ba_used a) \<Longrightarrow> ba_used (mark a X k) ! i \<longleftrightarrow> ba_used a ! i \<or> i \<in> X"
  by (simp_all add: mark_def get_n_tokens_def)

lemma mark_empty [simp]: "mark a {} 0 = a"
  by (simp add: mark_def map_nth)

lemma map_upt_update: "i < n \<Longrightarrow> (map f [0..<n])[i := v] = map (f(i := v)) [0..<n]"
  by (rule nth_equalityI) (simp_all add: nth_list_update)

lemma use_tok_mark: "i < length (ba_used a) \<Longrightarrow> use_tok i (mark a X k) = mark a (insert i X) (k + 1)"
proof -
  assume "i < length (ba_used a)"
  then have "(ba_used (mark a X k))[i := True] = ba_used (mark a (insert i X) (k + 1))"
    by (simp add: mark_def map_upt_update fun_upd_def)
  then show ?thesis by (simp add: use_tok_def mark_def)
qed

lemma unuse_tok_mark: "i < length (ba_used a) \<Longrightarrow> \<not> ba_used a ! i \<Longrightarrow> unuse_tok i (mark a X (Suc k)) = mark a (X - {i}) k"
proof -
  assume "i < length (ba_used a)" "\<not> ba_used a ! i"
  then have "(ba_used (mark a X (Suc k)))[i := False] = ba_used (mark a (X - {i}) k)"
    by (simp add: mark_def map_upt_update fun_upd_def)
  then show ?thesis by (simp add: unuse_tok_def mark_def)
qed

lemma fold_use_mark:
  "\<forall>i \<in> set is. i < length (ba_used a) \<Longrightarrow> fold use_tok is (mark a X k) = mark a (X \<union> set is) (k + length is)"
  by (induction "is" arbitrary: X k) (simp_all add: use_tok_mark Un_commute)

lemma fold_use: "\<forall>i \<in> set is. i < length (ba_used a) \<Longrightarrow> fold use_tok is a = mark a (set is) (length is)"
  using fold_use_mark [of "is" a "{}" 0] by simp

lemma fold_unuse_mark:
  "\<forall>i \<in> set is. i < length (ba_used a) \<and> \<not> ba_used a ! i \<Longrightarrow>
   fold unuse_tok is (mark a X (length is + k)) = mark a (X - set is) k"
proof (induction "is" arbitrary: X k)
  case (Cons i "is")
  have "unuse_tok i (mark a X (Suc (length is + k))) = mark a (X - {i}) (length is + k)"
    using Cons.prems by (intro unuse_tok_mark) auto
  moreover have "fold unuse_tok is (mark a (X - {i}) (length is + k)) = mark a (X - {i} - set is) k"
    using Cons.prems by (intro Cons.IH) auto
  moreover have "X - {i} - set is = X - set (i # is)" by auto
  ultimately show ?case by simp
qed simp

lemma allocr_okD:
  assumes "allocr_ok a"
  shows "length (ba_used a) = get_n_tokens a" "length (ba_seq_set a) = get_n_tokens a"
    "ba_seq_set_map a S = filter (\<lambda>i. ba_seq_set a ! i = S) [0..<get_n_tokens a]"
    "i < get_n_tokens a \<Longrightarrow> ba_seq_set a ! i \<noteq> {}"
    "ba_n_used a = card {i. i < get_n_tokens a \<and> ba_used a ! i}"
    "\<exists>k. \<forall>j < length (ba_seq_set_map a S). ba_used a ! (ba_seq_set_map a S ! j) \<longleftrightarrow> j < k"
proof -
  show "length (ba_used a) = get_n_tokens a" "length (ba_seq_set a) = get_n_tokens a"
    "ba_seq_set_map a S = filter (\<lambda>i. ba_seq_set a ! i = S) [0..<get_n_tokens a]"
    "ba_n_used a = card {i. i < get_n_tokens a \<and> ba_used a ! i}"
    using assms by (simp_all add: allocr_ok_def)
  show "ba_seq_set a ! i \<noteq> {}" if "i < get_n_tokens a" using assms that by (simp add: allocr_ok_def)
  show "\<exists>k. \<forall>j < length (ba_seq_set_map a S). ba_used a ! (ba_seq_set_map a S ! j) \<longleftrightarrow> j < k"
    using assms unfolding allocr_ok_def by blast
qed

lemma allocr_ok_mark:
  assumes ok: "allocr_ok a" and X: "X \<subseteq> {i. i < get_n_tokens a \<and> \<not> ba_used a ! i}"
    and prefix: "\<And>S k. \<forall>j < length (ba_seq_set_map a S). ba_used a ! (ba_seq_set_map a S ! j) \<longleftrightarrow> j < k \<Longrightarrow>
      \<exists>k'. \<forall>j < length (ba_seq_set_map a S). ba_used a ! (ba_seq_set_map a S ! j) \<or> ba_seq_set_map a S ! j \<in> X \<longleftrightarrow> j < k'"
  shows "allocr_ok (mark a X (card X))"
proof -
  have l: "length (ba_used a) = get_n_tokens a" using ok by (simp add: allocr_ok_def)
  have m: "ba_seq_set_map a S ! j < get_n_tokens a" if "j < length (ba_seq_set_map a S)" for S j
    using ok that nth_mem [OF that] by (auto simp: allocr_ok_def)
  have "{i. i < get_n_tokens a \<and> (ba_used a ! i \<or> i \<in> X)} = {i. i < get_n_tokens a \<and> ba_used a ! i} \<union> X"
    using X by auto
  moreover have "card ({i. i < get_n_tokens a \<and> ba_used a ! i} \<union> X) = card {i. i < get_n_tokens a \<and> ba_used a ! i} + card X"
    using X by (intro card_Un_disjoint) (auto intro: finite_subset [OF X])
  moreover have "{i. i < get_n_tokens a \<and> ba_used (mark a X (card X)) ! i} = {i. i < get_n_tokens a \<and> (ba_used a ! i \<or> i \<in> X)}"
    using l by auto
  ultimately have "ba_n_used (mark a X (card X)) = card {i. i < get_n_tokens a \<and> ba_used (mark a X (card X)) ! i}"
    using ok by (simp add: allocr_ok_def)
  moreover have "\<exists>k. \<forall>j < length (ba_seq_set_map a S). ba_used (mark a X (card X)) ! (ba_seq_set_map a S ! j) \<longleftrightarrow> j < k" for S
  proof -
    obtain k where "\<forall>j < length (ba_seq_set_map a S). ba_used a ! (ba_seq_set_map a S ! j) \<longleftrightarrow> j < k"
      using allocr_okD(6) [OF ok] by blast
    from prefix [OF this] show ?thesis using m l by auto
  qed
  ultimately show ?thesis using ok by (simp add: allocr_ok_def)
qed

lemma allocr_ok_out [simp]: "allocr_ok (a\<lparr>ba_out_ids := o'\<rparr>) = allocr_ok a"
  by (simp add: allocr_ok_def get_n_tokens_def)

section \<open>\<open>split_equal\<close>\<close>

lemma pick_sets_props:
  assumes "length sets \<le> n_ubatch" "sorted_wrt (\<lambda>S T. S \<inter> T = {}) sets"
    "\<forall>S \<in> set sets. \<exists>i \<in> J. \<not> ba_used a ! i \<and> ba_seq_set a ! i = S" "set is \<subseteq> J"
  shows "length (pick_sets a n_ubatch sequential is sets l) \<le> n_ubatch + 1 \<and>
    sorted_wrt (\<lambda>S T. S \<inter> T = {}) (pick_sets a n_ubatch sequential is sets l) \<and>
    (\<forall>S \<in> set (pick_sets a n_ubatch sequential is sets l). \<exists>i \<in> J. \<not> ba_used a ! i \<and> ba_seq_set a ! i = S) \<and>
    (sets \<noteq> [] \<or> (\<exists>i \<in> set is. \<not> ba_used a ! i) \<longrightarrow> pick_sets a n_ubatch sequential is sets l \<noteq> [])"
  using assms
proof (induction "is" arbitrary: sets l)
  case (Cons i "is")
  define add where "add \<longleftrightarrow> (let add = list_all (\<lambda>S. S \<inter> ba_seq_set a ! i = {}) sets
    in if sequential then add \<and> (sets = [] \<or> int (tok_seq0 (ba_batch a) i) = l + 1) else add)"
  have disj: "add \<Longrightarrow> \<forall>S \<in> set sets. S \<inter> ba_seq_set a ! i = {}" by (auto simp: add_def Let_def list_all_iff split: if_splits)
  have first: "sets = [] \<Longrightarrow> add" by (simp add: add_def)
  let ?sets = "sets @ [ba_seq_set a ! i]"
  have step: "pick_sets a n_ubatch sequential (i # is) sets l =
      (if \<not> ba_used a ! i \<and> add
       then (if length ?sets > n_ubatch then ?sets else pick_sets a n_ubatch sequential is ?sets (int (tok_seq0 (ba_batch a) i)))
       else pick_sets a n_ubatch sequential is sets l)"
    by (simp add: add_def Let_def)
  show ?case
  proof (cases "\<not> ba_used a ! i \<and> add")
    case False
    have IH: "length (pick_sets a n_ubatch sequential is sets l) \<le> n_ubatch + 1 \<and>
      sorted_wrt (\<lambda>S T. S \<inter> T = {}) (pick_sets a n_ubatch sequential is sets l) \<and>
      (\<forall>S \<in> set (pick_sets a n_ubatch sequential is sets l). \<exists>i \<in> J. \<not> ba_used a ! i \<and> ba_seq_set a ! i = S) \<and>
      (sets \<noteq> [] \<or> (\<exists>i \<in> set is. \<not> ba_used a ! i) \<longrightarrow> pick_sets a n_ubatch sequential is sets l \<noteq> [])"
      using Cons.prems by (intro Cons.IH) auto
    have e: "sets \<noteq> [] \<or> (\<exists>i \<in> set (i # is). \<not> ba_used a ! i) \<longrightarrow> sets \<noteq> [] \<or> (\<exists>i \<in> set is. \<not> ba_used a ! i)"
      using False first by auto
    have s: "pick_sets a n_ubatch sequential (i # is) sets l = pick_sets a n_ubatch sequential is sets l"
      using False by (simp only: step if_False)
    show ?thesis unfolding s using IH e by blast
  next
    case True
    have p: "sorted_wrt (\<lambda>S T. S \<inter> T = {}) ?sets" using Cons.prems(2) True disj by (auto simp: sorted_wrt_append)
    have m: "\<forall>S \<in> set ?sets. \<exists>i \<in> J. \<not> ba_used a ! i \<and> ba_seq_set a ! i = S" using Cons.prems(3,4) True by auto
    show ?thesis
    proof (cases "length ?sets > n_ubatch")
      case long: True
      have s: "pick_sets a n_ubatch sequential (i # is) sets l = ?sets" unfolding step using True long by simp
      show ?thesis unfolding s using p m Cons.prems(1) by simp
    next
      case False
      have s: "pick_sets a n_ubatch sequential (i # is) sets l =
          pick_sets a n_ubatch sequential is ?sets (int (tok_seq0 (ba_batch a) i))"
        unfolding step using True False by simp
      have "?sets \<noteq> []" by simp
      then show ?thesis unfolding s using Cons.IH [of ?sets "int (tok_seq0 (ba_batch a) i)"] False p m Cons.prems(4)
        by (simp del: append_is_Nil_conv)
    qed
  qed
qed simp


text \<open>
  The state of the expansion after \<open>rs ! s\<close> tokens of set \<open>s\<close> have been taken.
\<close>

definition taken :: "llama_batch_allocr \<Rightarrow> seq_set list \<Rightarrow> nat list \<Rightarrow> nat \<Rightarrow> nat list" where
  "taken a sets rs s = take (rs ! s) (drop (set_start a (sets ! s)) (ba_seq_set_map a (sets ! s)))"

definition taken_state :: "llama_batch_allocr \<Rightarrow> seq_set list \<Rightarrow> nat list \<Rightarrow> split_state" where
  "taken_state a sets rs =
     \<lparr>sp_cur = map (\<lambda>s. set_start a (sets ! s) + rs ! s) [0..<length sets],
      sp_idxs = map (taken a sets rs) [0..<length sets],
      sp_a = mark a (\<Union>s < length sets. set (taken a sets rs s)) (sum_list rs)\<rparr>"

text \<open>What is left of set \<open>s\<close>.\<close>

definition left_of :: "llama_batch_allocr \<Rightarrow> seq_set \<Rightarrow> nat" where
  "left_of a S = length (ba_seq_set_map a S) - set_start a S"

lemma first_unused_prefix:
  "\<forall>j < length us. us ! j \<longleftrightarrow> j < k \<Longrightarrow> k \<le> length us \<Longrightarrow> first_unused us = k"
proof (induction us arbitrary: k)
  case (Cons u us)
  show ?case
  proof (cases k)
    case 0
    then show ?thesis using Cons.prems(1) by (auto dest: spec [of _ 0])
  next
    case (Suc m)
    have "\<forall>j < length us. us ! j \<longleftrightarrow> j < m"
    proof (intro allI impI)
      fix j assume "j < length us"
      then show "us ! j \<longleftrightarrow> j < m" using Cons.prems(1) [rule_format, of "Suc j"] Suc by simp
    qed
    moreover have "u" using Cons.prems(1) [rule_format, of 0] Suc by simp
    ultimately show ?thesis using Cons.IH Cons.prems(2) Suc by simp
  qed
qed simp

lemma set_start_props:
  assumes ok: "allocr_ok a"
  shows "set_start a S \<le> length (ba_seq_set_map a S)"
    "j < length (ba_seq_set_map a S) \<Longrightarrow> ba_used a ! (ba_seq_set_map a S ! j) \<longleftrightarrow> j < set_start a S"
proof -
  obtain k0 where k0: "\<forall>j < length (ba_seq_set_map a S). ba_used a ! (ba_seq_set_map a S ! j) \<longleftrightarrow> j < k0"
    using allocr_okD(6) [OF ok] by blast
  define k where "k = min k0 (length (ba_seq_set_map a S))"
  have "\<forall>j < length (map (\<lambda>i. ba_used a ! i) (ba_seq_set_map a S)). map (\<lambda>i. ba_used a ! i) (ba_seq_set_map a S) ! j \<longleftrightarrow> j < k"
    using k0 by (simp add: k_def)
  from first_unused_prefix [OF this] have "set_start a S = k" by (simp add: set_start_def k_def)
  then show "set_start a S \<le> length (ba_seq_set_map a S)"
    "j < length (ba_seq_set_map a S) \<Longrightarrow> ba_used a ! (ba_seq_set_map a S ! j) \<longleftrightarrow> j < set_start a S"
    using k0 by (simp_all add: k_def)
qed

lemma map_entry:
  assumes ok: "allocr_ok a" and j: "j < length (ba_seq_set_map a S)"
  shows "ba_seq_set_map a S ! j < get_n_tokens a" "ba_seq_set a ! (ba_seq_set_map a S ! j) = S"
  using allocr_okD(3) [OF ok, of S] nth_mem [OF j] by auto

lemma map_distinct: "allocr_ok a \<Longrightarrow> distinct (ba_seq_set_map a S)" "allocr_ok a \<Longrightarrow> sorted (ba_seq_set_map a S)"
  by (simp_all add: allocr_okD(3) sorted_wrt_filter)

lemma in_map: "allocr_ok a \<Longrightarrow> i \<in> set (ba_seq_set_map a S) \<longleftrightarrow> i < get_n_tokens a \<and> ba_seq_set a ! i = S"
  by (auto simp: allocr_okD(3))

lemma take_one_taken:
  assumes ok: "allocr_ok a" and rs: "length rs = length sets" "s < length sets" "rs ! s < left_of a (sets ! s)"
  shows "take_one sets s (taken_state a sets rs) = taken_state a sets (rs[s := Suc (rs ! s)])"
proof -
  let ?S = "sets ! s" and ?rs = "rs[s := Suc (rs ! s)]"
  let ?i = "ba_seq_set_map a ?S ! (set_start a ?S + rs ! s)"
  have j: "set_start a ?S + rs ! s < length (ba_seq_set_map a ?S)" using rs(3) by (simp add: left_of_def)
  have i: "?i < length (ba_used a)" using map_entry(1) [OF ok j] allocr_okD(1) [OF ok] by simp
  have new: "taken a sets ?rs s = taken a sets rs s @ [?i]"
    using j rs by (simp add: taken_def take_Suc_conv_app_nth)
  have old: "taken a sets ?rs t = taken a sets rs t" if "t \<noteq> s" for t
    using that by (simp add: taken_def)
  have idxs: "(map (taken a sets rs) [0..<length sets])[s := taken a sets rs s @ [?i]] = map (taken a sets ?rs) [0..<length sets]"
    using rs(2) new old by (simp add: map_upt_update)
  have cur: "(map (\<lambda>s. set_start a (sets ! s) + rs ! s) [0..<length sets])[s := Suc (set_start a ?S + rs ! s)] =
      map (\<lambda>s. set_start a (sets ! s) + ?rs ! s) [0..<length sets]"
    using rs by (auto simp: map_upt_update)
  have set: "(\<Union>t < length sets. set (taken a sets ?rs t)) = insert ?i (\<Union>t < length sets. set (taken a sets rs t))"
  proof -
    have "(\<Union>t < length sets. set (taken a sets ?rs t)) =
        set (taken a sets ?rs s) \<union> (\<Union>t \<in> {..<length sets} - {s}. set (taken a sets ?rs t))"
      using rs(2) by auto
    also have "(\<Union>t \<in> {..<length sets} - {s}. set (taken a sets ?rs t)) = (\<Union>t \<in> {..<length sets} - {s}. set (taken a sets rs t))"
      using old by auto
    also have "set (taken a sets ?rs s) \<union> \<dots> = insert ?i (\<Union>t < length sets. set (taken a sets rs t))"
      using rs(2) new by auto
    finally show ?thesis .
  qed
  have sum: "sum_list ?rs = Suc (sum_list rs)" using rs by (simp add: sum_list_update)
  show ?thesis
    using rs(2) i idxs cur
    by (simp add: take_one_def taken_state_def Let_def use_tok_mark set sum)
qed


lemma fold_take_one_taken:
  assumes ok: "allocr_ok a" and "\<forall>s < length sets. r < left_of a (sets ! s)" "n \<le> length sets"
  shows "fold (take_one sets) [0..<n] (taken_state a sets (replicate (length sets) r)) =
    taken_state a sets (replicate n (Suc r) @ replicate (length sets - n) r)"
  using assms(3)
proof (induction n)
  case (Suc n)
  let ?rs = "replicate n (Suc r) @ replicate (length sets - n) r"
  have "?rs ! n = r" using Suc.prems by (simp add: nth_append)
  moreover have "?rs[n := Suc r] = replicate (Suc n) (Suc r) @ replicate (length sets - Suc n) r"
    using Suc.prems by (simp add: list_update_append Suc_diff_Suc [symmetric] replicate_app_Cons_same)
  ultimately show ?case
    using Suc take_one_taken [OF ok, of ?rs sets n] assms(2) by simp
qed simp

text \<open>
  The loop stops after the same number \<open>r\<close> of rounds for every set: at least one if every set
  has a token left, and no round starts once a further token per set would exceed \<open>n_ubatch\<close>.
\<close>

lemma equal_loop_taken:
  assumes ok: "allocr_ok a" and ne: "sets \<noteq> []" and r: "\<forall>s < length sets. r \<le> left_of a (sets ! s)"
    and inv: "r = 0 \<or> (r + 1) * length sets \<le> n_ubatch"
  shows "\<exists>r'. r \<le> r' \<and> equal_loop sets n_ubatch (taken_state a sets (replicate (length sets) r)) =
      taken_state a sets (replicate (length sets) r') \<and>
    (\<forall>s < length sets. r' \<le> left_of a (sets ! s)) \<and> (r' \<le> 1 \<or> r' * length sets \<le> n_ubatch) \<and>
    ((\<exists>s < length sets. r' = left_of a (sets ! s)) \<or> (r < r' \<and> (r' + 1) * length sets > n_ubatch))"
  using r inv
proof (induction "left_of a (sets ! 0) - r" arbitrary: r rule: less_induct)
  case less
  let ?m = "length sets"
  let ?st = "taken_state a sets (replicate ?m r)"
  have cur: "length (sp_cur ?st) = ?m" by (simp add: taken_state_def)
  have exp: "can_expand sets ?st \<longleftrightarrow> (\<forall>s < ?m. r < left_of a (sets ! s))"
    by (auto simp: can_expand_def list_all_iff taken_state_def left_of_def less_diff_conv add.commute)
  show ?case
  proof (cases "can_expand sets ?st")
    case False
    then have "equal_loop sets n_ubatch ?st = ?st" by (subst equal_loop.simps) simp
    moreover have "\<exists>s < ?m. r = left_of a (sets ! s)" using False less.prems(1) exp by (metis le_neq_implies_less)
    ultimately show ?thesis using less.prems by (intro exI [of _ r]) (auto intro: order_trans [OF mult_le_mono1])
  next
    case True
    then have lt: "\<forall>s < ?m. r < left_of a (sets ! s)" by (simp add: exp)
    let ?st' = "taken_state a sets (replicate ?m (Suc r))"
    have st': "fold (take_one sets) [0..<?m] ?st = ?st'"
      using fold_take_one_taken [OF ok lt order_refl] by simp
    have len: "length (sp_idxs ?st' ! 0) = Suc r"
      using ne lt by (auto simp: taken_state_def taken_def left_of_def)
    show ?thesis
    proof (cases "(Suc r + 1) * ?m > n_ubatch")
      case True': True
      then have "equal_loop sets n_ubatch ?st = ?st'"
        using True ne cur len by (subst equal_loop.simps) (simp add: st' Let_def)
      moreover have "Suc r \<le> 1 \<or> Suc r * ?m \<le> n_ubatch" using less.prems(2) by auto
      ultimately show ?thesis using lt True' by (intro exI [of _ "Suc r"]) (auto simp: Suc_le_eq)
    next
      case False
      have eq: "equal_loop sets n_ubatch ?st = equal_loop sets n_ubatch ?st'"
        using True False ne cur len by (subst equal_loop.simps) (simp add: st' Let_def)
      have "left_of a (sets ! 0) - Suc r < left_of a (sets ! 0) - r" using lt ne by auto
      moreover have "\<forall>s < ?m. Suc r \<le> left_of a (sets ! s)" using lt by (simp add: Suc_le_eq)
      moreover have "Suc r = 0 \<or> (Suc r + 1) * ?m \<le> n_ubatch" using False by simp
      ultimately obtain r' where "Suc r \<le> r'"
        "equal_loop sets n_ubatch ?st' = taken_state a sets (replicate ?m r')"
        "\<forall>s < ?m. r' \<le> left_of a (sets ! s)" "r' \<le> 1 \<or> r' * ?m \<le> n_ubatch"
        "(\<exists>s < ?m. r' = left_of a (sets ! s)) \<or> (Suc r < r' \<and> (r' + 1) * ?m > n_ubatch)"
        using less.hyps by blast
      then show ?thesis unfolding eq by (intro exI [of _ r']) auto
    qed
  qed
qed


lemma taken_in_map: "set (taken a sets rs s) \<subseteq> set (ba_seq_set_map a (sets ! s))"
  unfolding taken_def by (meson order_trans set_take_subset set_drop_subset)

lemma taken_unused:
  assumes ok: "allocr_ok a" and i: "i \<in> set (taken a sets rs s)"
  shows "i < get_n_tokens a" "\<not> ba_used a ! i" "ba_seq_set a ! i = sets ! s"
proof -
  show "i < get_n_tokens a" "ba_seq_set a ! i = sets ! s"
    using i taken_in_map [of a sets rs s] in_map [OF ok] by auto
  obtain j where j: "j < length (taken a sets rs s)" "i = taken a sets rs s ! j" using i by (metis in_set_conv_nth)
  let ?k = "set_start a (sets ! s) + j"
  have k: "?k < length (ba_seq_set_map a (sets ! s))" "i = ba_seq_set_map a (sets ! s) ! ?k"
    using j by (auto simp: taken_def)
  show "\<not> ba_used a ! i" using set_start_props(2) [OF ok k(1)] k(2) by simp
qed

lemma taken_distinct: "allocr_ok a \<Longrightarrow> distinct (taken a sets rs s)"
  by (simp add: taken_def map_distinct)

lemma length_taken: "rs ! s \<le> left_of a (sets ! s) \<Longrightarrow> length (taken a sets rs s) = rs ! s"
  by (simp add: taken_def left_of_def)

lemma taken_disjoint:
  "allocr_ok a \<Longrightarrow> distinct sets \<Longrightarrow> s < length sets \<Longrightarrow> t < length sets \<Longrightarrow> s \<noteq> t \<Longrightarrow>
   set (taken a sets rs s) \<inter> set (taken a sets rs' t) = {}"
  by (metis disjoint_iff nth_eq_iff_index_eq taken_unused(3))

lemma give_back_taken:
  assumes ok: "allocr_ok a" and d: "distinct sets" and rs: "length rs = length sets" "sets \<noteq> []"
    and r0: "0 < rs ! 0" "rs ! 0 \<le> left_of a (sets ! 0)"
  shows "give_back (taken_state a sets rs) = taken_state a sets (rs[0 := rs ! 0 - 1])"
proof -
  let ?rs = "rs[0 := rs ! 0 - 1]" and ?m = "length sets"
  have m: "0 < ?m" "0 < length rs" using rs by auto
  define xs where "xs = taken a sets rs 0"
  have l: "length xs = rs ! 0" using length_taken [of rs 0 a sets] r0(2) by (simp add: xs_def)
  then have ne: "xs \<noteq> []" using r0(1) by auto
  have dx: "distinct xs" using taken_distinct [OF ok] by (simp add: xs_def)
  have new: "taken a sets ?rs 0 = butlast xs"
    using m r0 by (simp add: xs_def taken_def butlast_take left_of_def)
  have old: "taken a sets ?rs t = taken a sets rs t" if "t \<noteq> 0" for t using that by (simp add: taken_def)
  let ?i = "last xs"
  have i: "?i \<in> set xs" using ne by simp
  have iu: "?i < length (ba_used a)" "\<not> ba_used a ! ?i"
    using taken_unused(1,2) [OF ok i [unfolded xs_def]] allocr_okD(1) [OF ok] by (simp_all add: xs_def)
  have bl: "set (butlast xs) = set xs - {?i}"
    using ne dx by (induction xs rule: rev_induct) auto
  have set: "(\<Union>t < ?m. set (taken a sets rs t)) - {?i} = (\<Union>t < ?m. set (taken a sets ?rs t))"
  proof -
    have split: "(\<Union>t < ?m. F t) = F 0 \<union> (\<Union>t \<in> {..<?m} - {0}. F t)" for F :: "nat \<Rightarrow> nat set"
      using m by auto
    have "?i \<notin> set (taken a sets rs t)" if "t \<in> {..<?m} - {0}" for t
      using taken_disjoint [OF ok d, of 0 t rs rs] i m that by (auto simp: xs_def)
    then show ?thesis unfolding split using old bl new by (auto simp: xs_def [symmetric])
  qed
  obtain q where q: "sum_list rs = Suc q" using r0(1) m(2) by (cases rs; cases "sum_list rs") auto
  have sum: "sum_list ?rs = q" using q m r0(1) by (simp add: sum_list_update)
  have idxs: "(map (taken a sets rs) [0..<?m])[0 := butlast xs] = map (taken a sets ?rs) [0..<?m]"
    using m new old by (auto simp: map_upt_update)
  have cur: "(map (\<lambda>s. set_start a (sets ! s) + rs ! s) [0..<?m])[0 := set_start a (sets ! 0) + rs ! 0 - 1] =
      map (\<lambda>s. set_start a (sets ! s) + ?rs ! s) [0..<?m]"
    using m r0(1) rs by (auto simp: map_upt_update)
  show ?thesis
    using m idxs cur iu
    by (simp add: give_back_def taken_state_def q sum [unfolded One_nat_def] unuse_tok_mark set xs_def [symmetric])
qed

lemma extend_taken:
  assumes ok: "allocr_ok a" and rs: "length rs = length sets" "sets \<noteq> []" and k: "rs ! 0 + k \<le> left_of a (sets ! 0)"
  shows "(take_one sets 0 ^^ k) (taken_state a sets rs) = taken_state a sets (rs[0 := rs ! 0 + k])"
  using k
proof (induction k)
  case 0
  then show ?case by (simp add: list_update_id)
next
  case (Suc k)
  let ?rs = "rs[0 := rs ! 0 + k]"
  have l: "0 < length rs" "0 < length sets" using rs by auto
  have "(take_one sets 0 ^^ Suc k) (taken_state a sets rs) = take_one sets 0 (taken_state a sets ?rs)"
    using Suc by simp
  also have "\<dots> = taken_state a sets (?rs[0 := Suc (?rs ! 0)])"
    using Suc.prems rs l by (intro take_one_taken [OF ok]) auto
  finally show ?case using l by simp
qed

lemma truncate_taken:
  assumes ok: "allocr_ok a" and d: "distinct sets" and rs: "length rs = length sets" "sets \<noteq> []"
    and k: "k \<le> rs ! 0" "rs ! 0 \<le> left_of a (sets ! 0)"
  shows "(give_back ^^ k) (taken_state a sets rs) = taken_state a sets (rs[0 := rs ! 0 - k])"
  using k
proof (induction k)
  case 0
  then show ?case by (simp add: list_update_id)
next
  case (Suc k)
  let ?rs = "rs[0 := rs ! 0 - k]"
  have l: "0 < length rs" "0 < length sets" using rs by auto
  have "(give_back ^^ Suc k) (taken_state a sets rs) = give_back (taken_state a sets ?rs)"
    using Suc by simp
  also have "\<dots> = taken_state a sets (?rs[0 := ?rs ! 0 - 1])"
    using Suc.prems rs l by (intro give_back_taken [OF ok d]) auto
  finally show ?case using l by simp
qed

lemma defer_taken:
  assumes ok: "allocr_ok a" and st: "sp_idxs st = map (taken a sets rs) [0..<length sets]"
    and ss: "\<forall>s \<in> set ss. s < length sets"
    and a: "sp_a st = mark a X (sum_list (map (\<lambda>s. length (taken a sets rs s)) ss) + c)"
  shows "fold (\<lambda>s st. st\<lparr>sp_a := fold unuse_tok (sp_idxs st ! s) (sp_a st)\<rparr>) ss st =
    st\<lparr>sp_a := mark a (X - (\<Union>s \<in> set ss. set (taken a sets rs s))) c\<rparr>"
  using st ss a
proof (induction ss arbitrary: st X)
  case (Cons s ss)
  let ?xs = "taken a sets rs s"
  have "fold unuse_tok ?xs (sp_a st) = mark a (X - set ?xs) (sum_list (map (\<lambda>s. length (taken a sets rs s)) ss) + c)"
    using fold_unuse_mark [of ?xs a X "sum_list (map (\<lambda>s. length (taken a sets rs s)) ss) + c"]
      taken_unused(1,2) [OF ok, of _ sets rs s] allocr_okD(1) [OF ok] Cons.prems(3)
    by (simp add: add.assoc)
  moreover have "sp_idxs st ! s = ?xs" using Cons.prems(1,2) by simp
  ultimately show ?case
    using Cons.IH [of "st\<lparr>sp_a := fold unuse_tok ?xs (sp_a st)\<rparr>" "X - set ?xs"] Cons.prems
    by (simp add: Diff_eq Int_assoc)
qed simp


definition tail_ok :: "llama_batch_allocr \<Rightarrow> seq_set list \<Rightarrow> nat list \<Rightarrow> nat \<Rightarrow> nat \<Rightarrow> bool" where
  "tail_ok a sets rs K s \<longleftrightarrow> left_of a (sets ! s) - rs ! s = 0 \<or> K \<le> left_of a (sets ! s) - rs ! s"

lemma keep_tail_taken:
  assumes ok: "allocr_ok a" and d: "distinct sets" and ne: "sets \<noteq> []"
    and r: "1 \<le> r" "\<forall>s < length sets. r \<le> left_of a (sets ! s)"
    and kt: "keep_tail sets n_ubatch K (taken_state a sets (replicate (length sets) r)) = Some (st', k)"
  shows "\<exists>rs. 1 \<le> k \<and> k \<le> length sets \<and> length rs = length sets \<and>
     (\<forall>s < length sets. 1 \<le> rs ! s \<and> rs ! s \<le> left_of a (sets ! s)) \<and>
     (\<forall>s < k. rs ! s = rs ! 0) \<and> (\<forall>s < k. tail_ok a sets rs K s) \<and>
     (rs = replicate (length sets) r \<or> k * rs ! 0 \<le> max n_ubatch r \<and> 1 < n_ubatch) \<and>
     sp_idxs st' = map (taken a sets rs) [0..<length sets] \<and>
     sp_a st' = mark a (\<Union>s < k. set (taken a sets rs s)) (k * rs ! 0)"
proof (cases "K = 0")
  case True
  let ?rs = "replicate (length sets) r"
  have "st' = taken_state a sets ?rs" "k = length sets" using kt True by (auto simp: keep_tail_def)
  then show ?thesis
    using r ne True by (intro exI [of _ ?rs]) (auto simp: taken_state_def tail_ok_def sum_list_replicate Suc_le_eq)
next
  case False
  let ?m = "length sets" and ?st = "taken_state a sets (replicate (length sets) r)"
  let ?rem = "\<lambda>s. left_of a (sets ! s) - r"
  have m: "0 < ?m" using ne by simp
  have nK: "K < n_ubatch" using kt False by (auto simp: keep_tail_def Let_def split: if_splits)
  have rem: "n_remaining sets ?st s = ?rem s" if "s < ?m" for s
    using that by (simp add: n_remaining_def taken_state_def left_of_def)
  define n where "n = keep_prefix sets ?st K"
  have nm: "n \<le> ?m" unfolding n_def keep_prefix_def by (metis length_takeWhile_le length_upt minus_nat.diff_0)
  have pre: "\<not> (?rem s \<noteq> 0 \<and> ?rem s < K)" if "s < n" for s
  proof -
    have "s < ?m" using that nm by simp
    moreover have "takeWhile (\<lambda>s. \<not> (n_remaining sets ?st s \<noteq> 0 \<and> n_remaining sets ?st s < K)) [0..<?m] ! s = s"
      using that nm by (subst takeWhile_nth) (simp_all add: n_def keep_prefix_def)
    moreover have "s \<in> set (takeWhile (\<lambda>s. \<not> (n_remaining sets ?st s \<noteq> 0 \<and> n_remaining sets ?st s < K)) [0..<?m])"
      using that calculation(2) by (metis keep_prefix_def n_def nth_mem)
    ultimately show ?thesis using rem by (auto dest!: set_takeWhileD)
  qed
  have n0: "?rem 0 \<noteq> 0 \<and> ?rem 0 < K" if "n = 0"
  proof -
    have "[0..<?m] = 0 # [1..<?m]" using m by (simp add: upt_conv_Cons)
    then show ?thesis using that rem [of 0] m by (auto simp: n_def keep_prefix_def split: if_splits)
  qed
  \<comment> \<open>the counts after the first set has been extended or truncated\<close>
  define rs where "rs = (if n = 0 then (replicate ?m r)[0 :=
      (if r + ?rem 0 \<le> n_ubatch then left_of a (sets ! 0) else r - (K - ?rem 0))] else replicate ?m r)"
  define k' where "k' = (if n = 0 then 1 else n)"
  have len: "length rs = ?m" by (simp add: rs_def)
  have len0: "length (sp_idxs ?st ! 0) = r"
    using m r(2) by (auto simp: taken_state_def length_taken)
  define st1 where "st1 = (if n = 0 then
      if length (sp_idxs ?st ! 0) + n_remaining sets ?st 0 \<le> n_ubatch then extend_seq sets ?st else truncate_seq sets K ?st
      else ?st)"
  have st1: "st1 = taken_state a sets rs"
  proof (cases "n = 0")
    case True
    have r0: "replicate ?m r ! 0 = r" "r \<le> left_of a (sets ! 0)" using m r(2) by auto
    show ?thesis
    proof (cases "r + ?rem 0 \<le> n_ubatch")
      case True': True
      have "extend_seq sets ?st = taken_state a sets ((replicate ?m r)[0 := r + ?rem 0])"
        unfolding extend_seq_def rem [OF m] using r0 ne by (subst extend_taken [OF ok]) auto
      then show ?thesis using True True' len0 rem [OF m] r0 by (simp add: st1_def rs_def)
    next
      case False
      have "truncate_seq sets K ?st = taken_state a sets ((replicate ?m r)[0 := r - (K - ?rem 0)])"
        unfolding truncate_seq_def rem [OF m]
        using r0 ne False nK by (subst truncate_taken [OF ok d]) auto
      then show ?thesis using True False len0 rem [OF m] by (simp add: st1_def rs_def)
    qed
  qed (simp add: st1_def rs_def)
  have kt': "k = k'" "st' = fold (\<lambda>s st. st\<lparr>sp_a := fold unuse_tok (sp_idxs st ! s) (sp_a st)\<rparr>) [k'..<?m] st1"
    using kt False nK unfolding keep_tail_def n_def [symmetric] st1_def k'_def
    by (auto simp: Let_def split: if_splits)
  have k1: "1 \<le> k'" "k' \<le> ?m" using nm m by (auto simp: k'_def Suc_le_eq)
  have bounds: "\<forall>s < ?m. 1 \<le> rs ! s \<and> rs ! s \<le> left_of a (sets ! s)"
  proof (intro allI impI)
    fix s assume s: "s < ?m"
    then have rl: "r \<le> left_of a (sets ! s)" using r(2) by simp
    show "1 \<le> rs ! s \<and> rs ! s \<le> left_of a (sets ! s)"
    proof (cases "n = 0 \<and> s = 0")
      case True
      then show ?thesis using n0 r rl s nK by (auto simp: rs_def nth_list_update)
    next
      case False
      then show ?thesis using r rl s by (auto simp: rs_def nth_list_update)
    qed
  qed
  have same: "\<forall>s < k'. rs ! s = rs ! 0" using nm m by (auto simp: rs_def k'_def)
  have tail: "\<forall>s < k'. tail_ok a sets rs K s"
  proof (cases "n = 0")
    case True
    then show ?thesis using n0 m r(2) nK by (auto simp: k'_def rs_def tail_ok_def)
  next
    case False
    have "?rem s = 0 \<or> K \<le> ?rem s" if "s < n" for s using pre [OF that] by linarith
    then show ?thesis using False nm by (simp add: k'_def rs_def tail_ok_def)
  qed
  have sz: "rs = replicate ?m r \<or> k' * rs ! 0 \<le> max n_ubatch r \<and> 1 < n_ubatch"
  proof (cases "n = 0")
    case True
    have "1 < n_ubatch" using False nK by linarith
    moreover have "rs ! 0 \<le> max n_ubatch r"
    proof (cases "r + ?rem 0 \<le> n_ubatch")
      case le: True
      have "r \<le> left_of a (sets ! 0)" using m r(2) by blast
      then have "left_of a (sets ! 0) \<le> n_ubatch" using le by linarith
      then show ?thesis using True le len m by (simp add: rs_def)
    next
      case False
      then show ?thesis using True len m by (simp add: rs_def)
    qed
    ultimately show ?thesis using True by (simp add: k'_def)
  qed (simp add: rs_def)
  have lens: "length (taken a sets rs s) = rs ! s" if "s < ?m" for s using bounds that by (simp add: length_taken)
  have sum: "sum_list rs = sum_list (map (\<lambda>s. length (taken a sets rs s)) [k'..<?m]) + k' * rs ! 0"
  proof -
    have "sum_list rs = sum_list (map (\<lambda>s. rs ! s) [0..<?m])" using map_nth [of rs] len by simp
    also have "[0..<?m] = [0..<k'] @ [k'..<?m]" using upt_add_eq_append [of 0 k' "?m - k'"] k1 by simp
    also have "sum_list (map (\<lambda>s. rs ! s) ([0..<k'] @ [k'..<?m])) = sum_list (map (\<lambda>s. rs ! 0) [0..<k']) + sum_list (map (\<lambda>s. rs ! s) [k'..<?m])"
    proof -
      have "map (\<lambda>s. rs ! s) [0..<k'] = map (\<lambda>s. rs ! 0) [0..<k']" 
      proof (rule map_cong [OF refl])
        fix s assume "s \<in> set [0..<k']"
        then have "s < k'" by simp
        then show "rs ! s = rs ! 0" using same by blast
      qed
      then show ?thesis by (simp only: map_append sum_list_append)
    qed
    also have "sum_list (map (\<lambda>s. rs ! s) [k'..<?m]) = sum_list (map (\<lambda>s. length (taken a sets rs s)) [k'..<?m])"
      using lens by (intro arg_cong [where f = sum_list] map_cong) auto
    finally show ?thesis by (simp add: sum_list_triv)
  qed
  have un: "(\<Union>s < ?m. set (taken a sets rs s)) - (\<Union>s \<in> set [k'..<?m]. set (taken a sets rs s)) = (\<Union>s < k'. set (taken a sets rs s))"
  proof -
    have "set (taken a sets rs s) \<inter> set (taken a sets rs t) = {}" if "s < k'" "t \<in> set [k'..<?m]" for s t
      using that k1 by (intro taken_disjoint [OF ok d]) auto
    then have *: "(\<Union>s < k'. set (taken a sets rs s)) \<inter> (\<Union>t \<in> set [k'..<?m]. set (taken a sets rs t)) = {}"
      by blast
    have "{..<?m} = {..<k'} \<union> set [k'..<?m]" using k1 by auto
    then have "(\<Union>s < ?m. set (taken a sets rs s)) =
        (\<Union>s < k'. set (taken a sets rs s)) \<union> (\<Union>t \<in> set [k'..<?m]. set (taken a sets rs t))" by (simp add: UN_Un)
    then show ?thesis using * by blast
  qed
  have "st' = st1\<lparr>sp_a := mark a (\<Union>s < k'. set (taken a sets rs s)) (k' * rs ! 0)\<rparr>"
    unfolding kt'(2) using defer_taken [OF ok, of st1 sets rs "[k'..<?m]" "\<Union>s < ?m. set (taken a sets rs s)" "k' * rs ! 0"]
    by (simp add: st1 taken_state_def sum un [simplified])
  then have res: "sp_idxs st' = map (taken a sets rs) [0..<?m]"
    "sp_a st' = mark a (\<Union>s < k'. set (taken a sets rs s)) (k' * rs ! 0)"
    by (simp_all add: st1 taken_state_def)
  show ?thesis unfolding kt'(1) by (intro exI [of _ rs] conjI; fact)
qed


text \<open>
  The micro-batch made from the token groups \<open>xss\<close>: unused tokens, each group the next \<open>q\<close> tokens
  of one sequence set, the sets of different groups disjoint; exactly these tokens become used.
\<close>

definition emits :: "llama_batch_allocr \<Rightarrow> nat list list \<Rightarrow> nat \<Rightarrow> llama_batch_allocr \<Rightarrow> bool" where
  "emits a xss q a' \<longleftrightarrow> xss \<noteq> [] \<and> 1 \<le> q \<and> distinct (concat xss) \<and>
     (\<forall>xs \<in> set xss. \<exists>S. S \<noteq> {} \<and> xs = take q (filter (\<lambda>i. \<not> ba_used a ! i \<and> ba_seq_set a ! i = S) [0..<get_n_tokens a]) \<and> length xs = q) \<and>
     sorted_wrt (\<lambda>xs ys. \<forall>i \<in> set xs. \<forall>j \<in> set ys. ba_seq_set a ! i \<inter> ba_seq_set a ! j = {}) xss \<and>
     length (ba_used a') = length (ba_used a) \<and>
     (\<forall>i < get_n_tokens a. ba_used a' ! i \<longleftrightarrow> ba_used a ! i \<or> i \<in> set (concat xss)) \<and>
     ba_n_used a' = ba_n_used a + length xss * q"

lemma filter_unused:
  assumes ok: "allocr_ok a"
  shows "drop (set_start a S) (ba_seq_set_map a S) = filter (\<lambda>i. \<not> ba_used a ! i \<and> ba_seq_set a ! i = S) [0..<get_n_tokens a]"
proof -
  let ?M = "ba_seq_set_map a S" and ?k = "set_start a S"
  have "filter (\<lambda>i. \<not> ba_used a ! i \<and> ba_seq_set a ! i = S) [0..<get_n_tokens a] = filter (\<lambda>i. \<not> ba_used a ! i) ?M"
    by (simp add: allocr_okD(3) [OF ok] conj_commute)
  also have "\<dots> = filter (\<lambda>i. \<not> ba_used a ! i) (take ?k ?M) @ filter (\<lambda>i. \<not> ba_used a ! i) (drop ?k ?M)"
    by (metis append_take_drop_id filter_append)
  also have "filter (\<lambda>i. \<not> ba_used a ! i) (take ?k ?M) = []"
  proof (rule filter_False, rule ballI)
    fix i assume "i \<in> set (take ?k ?M)"
    then obtain j where "j < ?k" "j < length ?M" "i = ?M ! j" by (auto simp: in_set_conv_nth)
    then show "\<not> \<not> ba_used a ! i" using set_start_props(2) [OF ok, of j S] by simp
  qed
  also have "filter (\<lambda>i. \<not> ba_used a ! i) (drop ?k ?M) = drop ?k ?M"
  proof (rule filter_True, rule ballI)
    fix i assume "i \<in> set (drop ?k ?M)"
    then obtain j where "j < length ?M - ?k" "i = ?M ! (?k + j)" by (auto simp: in_set_conv_nth)
    then show "\<not> ba_used a ! i" using set_start_props(2) [OF ok, of "?k + j" S] by simp
  qed
  finally show ?thesis by simp
qed

lemma sorted_wrt_disjoint_distinct:
  "sorted_wrt (\<lambda>S T. S \<inter> T = {}) sets \<Longrightarrow> \<forall>S \<in> set sets. S \<noteq> {} \<Longrightarrow> distinct sets"
  by (induction sets) auto

text \<open>Everything \<open>split_equal\<close> does when it does not return the empty micro-batch.\<close>

lemma split_equal_taken:
  assumes ok: "allocr_ok a" and sp: "split_equal n_ubatch sequential K a = Some (a', u)"
    and sc: "\<not> (sequential \<and> ba_has_cpl a)" and un: "\<exists>i < get_n_tokens a. \<not> ba_used a ! i"
  shows "\<exists>sets rs k. 1 \<le> k \<and> k \<le> length sets \<and> length rs = length sets \<and> length sets \<le> n_ubatch + 1 \<and>
     sorted_wrt (\<lambda>S T. S \<inter> T = {}) sets \<and> (\<forall>S \<in> set sets. S \<noteq> {}) \<and>
     (\<forall>s < length sets. 1 \<le> rs ! s \<and> rs ! s \<le> left_of a (sets ! s)) \<and> (\<forall>s < k. rs ! s = rs ! 0) \<and>
     (\<forall>s < k. tail_ok a sets rs K s) \<and> (k * rs ! 0 \<le> n_ubatch \<or> rs ! 0 = 1) \<and>
     (a', u) = ubatch_add (concat (map (taken a sets rs) [0..<k])) k True
       (mark a (\<Union>s < k. set (taken a sets rs s)) (k * rs ! 0))"
proof -
  define sets where "sets = pick_sets a n_ubatch sequential [0..<get_n_tokens a] [] (-1)"
  have P0: "length sets \<le> n_ubatch + 1 \<and> sorted_wrt (\<lambda>S T. S \<inter> T = {}) sets \<and>
    (\<forall>S \<in> set sets. \<exists>i \<in> {0..<get_n_tokens a}. \<not> ba_used a ! i \<and> ba_seq_set a ! i = S) \<and>
    (([] :: seq_set list) \<noteq> [] \<or> (\<exists>i \<in> set [0..<get_n_tokens a]. \<not> ba_used a ! i) \<longrightarrow> sets \<noteq> [])"
    unfolding sets_def by (rule pick_sets_props) simp_all
  have "\<exists>i \<in> set [0..<get_n_tokens a]. \<not> ba_used a ! i" using un by force
  with P0 have P: "length sets \<le> n_ubatch + 1" "sorted_wrt (\<lambda>S T. S \<inter> T = {}) sets"
    "\<forall>S \<in> set sets. \<exists>i \<in> {0..<get_n_tokens a}. \<not> ba_used a ! i \<and> ba_seq_set a ! i = S" "sets \<noteq> []"
    by blast+
  have nonempty: "\<forall>S \<in> set sets. S \<noteq> {}" 
  proof
    fix S assume "S \<in> set sets"
    then obtain i where "i < get_n_tokens a" "ba_seq_set a ! i = S" using P(3) by auto
    then show "S \<noteq> {}" using allocr_okD(4) [OF ok] by blast
  qed
  have d: "distinct sets" using sorted_wrt_disjoint_distinct [OF P(2) nonempty] .
  let ?m = "length sets"
  have left: "1 \<le> left_of a (sets ! s)" if s: "s < ?m" for s
  proof -
    obtain i where i: "i < get_n_tokens a" "\<not> ba_used a ! i" "ba_seq_set a ! i = sets ! s"
      using P(3) nth_mem [OF s] by auto
    then have "i \<in> set (drop (set_start a (sets ! s)) (ba_seq_set_map a (sets ! s)))"
      by (simp add: filter_unused [OF ok])
    then have "0 < length (drop (set_start a (sets ! s)) (ba_seq_set_map a (sets ! s)))"
      by (metis length_greater_0_conv length_pos_if_in_set)
    then show ?thesis by (simp add: left_of_def)
  qed
  have init: "\<lparr>sp_cur = map (set_start a) sets, sp_idxs = replicate ?m [], sp_a = a\<rparr> = taken_state a sets (replicate ?m 0)"
    by (auto simp: taken_state_def taken_def map_replicate_const sum_list_replicate intro!: nth_equalityI)
  obtain r where r: "equal_loop sets n_ubatch (taken_state a sets (replicate ?m 0)) = taken_state a sets (replicate ?m r)"
    "\<forall>s < ?m. r \<le> left_of a (sets ! s)" "r \<le> 1 \<or> r * ?m \<le> n_ubatch"
    "(\<exists>s < ?m. r = left_of a (sets ! s)) \<or> 0 < r"
    using equal_loop_taken [OF ok P(4), of 0 n_ubatch] by auto
  have r1: "1 \<le> r" using r(4) left by force
  from sp sc P(4) obtain st' k where kt: "keep_tail sets n_ubatch K (taken_state a sets (replicate ?m r)) = Some (st', k)"
    and res: "(a', u) = ubatch_add (concat (take k (sp_idxs st'))) k True (sp_a st')"
    by (auto simp: split_equal_def Let_def sets_def [symmetric] init r(1) split: option.splits)
  from keep_tail_taken [OF ok d P(4) r1 r(2) kt] obtain rs where
    rs: "1 \<le> k" "k \<le> ?m" "length rs = ?m" "\<forall>s < ?m. 1 \<le> rs ! s \<and> rs ! s \<le> left_of a (sets ! s)"
    "\<forall>s < k. rs ! s = rs ! 0" "\<forall>s < k. tail_ok a sets rs K s"
    "rs = replicate ?m r \<or> k * rs ! 0 \<le> max n_ubatch r \<and> 1 < n_ubatch"
    "sp_idxs st' = map (taken a sets rs) [0..<?m]"
    "sp_a st' = mark a (\<Union>s < k. set (taken a sets rs s)) (k * rs ! 0)" by blast
  have "take k (sp_idxs st') = map (taken a sets rs) [0..<k]" using rs(2) by (simp add: rs(8) take_map)
  moreover have "k * rs ! 0 \<le> n_ubatch \<or> rs ! 0 = 1"
  proof (cases "r = 1")
    case True
    then show ?thesis using rs(7) P(4) by (auto simp: max_def split: if_splits)
  next
    case False
    then have rm: "r * ?m \<le> n_ubatch" using r(3) r1 by auto
    have "0 < ?m" using P(4) by simp
    have "r \<le> r * ?m" using P(4) by (cases ?m) auto
    then have "r \<le> n_ubatch" using rm by linarith
    then have "max n_ubatch r = n_ubatch" by simp
    moreover have "k * r \<le> r * ?m" using mult_le_mono1 [OF rs(2), of r] by (simp only: mult.commute)
    then have "k * r \<le> n_ubatch" using rm by linarith
    moreover have "replicate ?m r ! 0 = r" using \<open>0 < ?m\<close> by simp
    ultimately show ?thesis using rs(7) by metis
  qed
  ultimately have "(a', u) = ubatch_add (concat (map (taken a sets rs) [0..<k])) k True
      (mark a (\<Union>s < k. set (taken a sets rs s)) (k * rs ! 0))" "k * rs ! 0 \<le> n_ubatch \<or> rs ! 0 = 1"
    using res by (simp_all add: rs(9))
  show ?thesis by (intro exI [of _ sets] exI [of _ rs] exI [of _ k] conjI; fact)
qed


lemma ubatch_add_mark [simp]:
  "snd (ubatch_add idxs n e (mark a X k)) = snd (ubatch_add idxs n e a)"
  "fst (ubatch_add idxs n e a) = a\<lparr>ba_out_ids := ba_out_ids a @ filter (\<lambda>i. the (b_logits (ba_batch a)) ! i \<noteq> 0) idxs\<rparr>"
  "ub_n_tokens (snd (ubatch_add idxs n e a)) = length idxs"
  by (simp_all add: ubatch_add_def Let_def case_prod_beta)

lemma length_concat_const: "\<forall>xs \<in> set xss. length xs = q \<Longrightarrow> length (concat xss) = length xss * q"
  by (induction xss) auto

lemma emits_ok:
  assumes ok: "allocr_ok a" and rs: "length rs = length sets" "1 \<le> k" "k \<le> length sets"
    "sorted_wrt (\<lambda>S T. S \<inter> T = {}) sets" "\<forall>S \<in> set sets. S \<noteq> {}"
    "\<forall>s < length sets. 1 \<le> rs ! s \<and> rs ! s \<le> left_of a (sets ! s)" and same: "\<forall>s < k. rs ! s = rs ! 0"
  defines "xss \<equiv> map (taken a sets rs) [0..<k]" and "a' \<equiv> mark a (\<Union>s < k. set (taken a sets rs s)) (k * rs ! 0)"
  shows "emits a xss (rs ! 0) a'" "allocr_ok a'" "length xss = k" "length (concat xss) = k * rs ! 0"
    "s < k \<Longrightarrow> length (filter (\<lambda>i. \<not> ba_used a' ! i \<and> ba_seq_set a' ! i = sets ! s) [0..<get_n_tokens a']) =
       left_of a (sets ! s) - rs ! s"
proof -
  let ?X = "\<Union>s < k. set (taken a sets rs s)"
  have d: "distinct sets" using sorted_wrt_disjoint_distinct rs(4,5) .
  have X: "?X \<subseteq> {i. i < get_n_tokens a \<and> \<not> ba_used a ! i}" using taken_unused(1,2) [OF ok] by blast
  have lens: "length (taken a sets rs s) = rs ! 0" if "s < k" for s
  proof -
    have "length (taken a sets rs s) = rs ! s" using rs(3,6) that by (intro length_taken) auto
    then show ?thesis using same that by metis
  qed
  have disj: "set (taken a sets rs s) \<inter> set (taken a sets rs t) = {}" if "s < k" "t < k" "s \<noteq> t" for s t
    using that rs(3) by (intro taken_disjoint [OF ok d]) auto
  show len: "length xss = k" by (simp add: xss_def)
  have "distinct (concat (map (taken a sets rs) [0..<j]))" if "j \<le> k" for j
    using that
  proof (induction j)
    case (Suc j)
    have "set (taken a sets rs s) \<inter> set (taken a sets rs j) = {}" if "s < j" for s
      using disj [of s j] that Suc.prems by simp
    then have "(\<Union>s < j. set (taken a sets rs s)) \<inter> set (taken a sets rs j) = {}" by blast
    then show ?case using Suc taken_distinct [OF ok, of sets rs j] by (simp add: atLeast0LessThan)
  qed simp
  then have dist: "distinct (concat xss)" by (simp add: xss_def)
  have set: "set (concat xss) = ?X" by (auto simp: xss_def)
  have "\<forall>xs \<in> set xss. length xs = rs ! 0" using lens by (auto simp: xss_def)
  then show cl: "length (concat xss) = k * rs ! 0" using length_concat_const len by metis
  have card: "card ?X = k * rs ! 0" using distinct_card [OF dist] set cl by simp
  have l: "length (ba_used a) = get_n_tokens a" by (rule allocr_okD(1) [OF ok])
  have grp: "taken a sets rs s = take (rs ! s) (filter (\<lambda>i. \<not> ba_used a ! i \<and> ba_seq_set a ! i = sets ! s) [0..<get_n_tokens a])" for s
    by (simp add: taken_def filter_unused [OF ok])
  have start: "ba_used a ! (ba_seq_set_map a S ! j) \<or> ba_seq_set_map a S ! j \<in> ?X \<longleftrightarrow>
      j < (if \<exists>s < k. sets ! s = S then set_start a S + rs ! (THE s. s < k \<and> sets ! s = S) else set_start a S)"
    if j: "j < length (ba_seq_set_map a S)" for S j
  proof (cases "\<exists>s < k. sets ! s = S")
    case True
    then obtain s where s: "s < k" "sets ! s = S" by blast
    then have the: "(THE s. s < k \<and> sets ! s = S) = s"
      using d rs(3) by (intro the_equality) (auto simp: nth_eq_iff_index_eq)
    have "ba_seq_set_map a S ! j \<in> ?X \<longleftrightarrow> ba_seq_set_map a S ! j \<in> set (taken a sets rs s)"
      using s taken_unused(3) [OF ok] map_entry(2) [OF ok j] d rs(3) by (auto simp: nth_eq_iff_index_eq)
    also have "\<dots> \<longleftrightarrow> set_start a S \<le> j \<and> j < set_start a S + rs ! s"
    proof
      assume "ba_seq_set_map a S ! j \<in> set (taken a sets rs s)"
      then obtain i where i: "i < rs ! s" "set_start a S + i < length (ba_seq_set_map a S)"
        "ba_seq_set_map a S ! (set_start a S + i) = ba_seq_set_map a S ! j"
        by (auto simp: taken_def in_set_conv_nth s)
      then have "set_start a S + i = j" using map_distinct(1) [OF ok, of S] j by (simp add: nth_eq_iff_index_eq)
      then show "set_start a S \<le> j \<and> j < set_start a S + rs ! s" using i by auto
    next
      assume jj: "set_start a S \<le> j \<and> j < set_start a S + rs ! s"
      then have "taken a sets rs s ! (j - set_start a S) = ba_seq_set_map a S ! j" "j - set_start a S < length (taken a sets rs s)"
        using j by (auto simp: taken_def s)
      then show "ba_seq_set_map a S ! j \<in> set (taken a sets rs s)" by (metis nth_mem)
    qed
    finally show ?thesis using set_start_props(2) [OF ok j] s the by auto
  next
    case False
    then have "ba_seq_set_map a S ! j \<notin> ?X" using taken_unused(3) [OF ok] map_entry(2) [OF ok j] by auto
    then show ?thesis using False set_start_props(2) [OF ok j] by auto
  qed
  have "allocr_ok (mark a ?X (card ?X))"
    by (rule allocr_ok_mark [OF ok X]) (use start in blast)
  then show ok': "allocr_ok a'" by (simp only: card a'_def)
  show "emits a xss (rs ! 0) a'"
    unfolding emits_def
  proof (intro conjI)
    have "0 < length sets" using rs(2,3) by linarith
    then show "1 \<le> rs ! 0" using rs(6) by blast
    show "xss \<noteq> []" using rs(2) by (simp add: xss_def)
    show "\<forall>xs \<in> set xss. \<exists>S. S \<noteq> {} \<and> xs = take (rs ! 0) (filter (\<lambda>i. \<not> ba_used a ! i \<and> ba_seq_set a ! i = S) [0..<get_n_tokens a]) \<and> length xs = rs ! 0"
    proof
      fix xs assume "xs \<in> set xss"
      then obtain s where s: "s < k" "xs = taken a sets rs s" by (auto simp: xss_def)
      have "rs ! s = rs ! 0" using same s(1) by blast
      then show "\<exists>S. S \<noteq> {} \<and> xs = take (rs ! 0) (filter (\<lambda>i. \<not> ba_used a ! i \<and> ba_seq_set a ! i = S) [0..<get_n_tokens a]) \<and> length xs = rs ! 0"
        using grp [of s] lens [OF s(1)] s(2) rs(3,5) s(1) by (intro exI [of _ "sets ! s"]) auto
    qed
    show "sorted_wrt (\<lambda>xs ys. \<forall>i \<in> set xs. \<forall>j \<in> set ys. ba_seq_set a ! i \<inter> ba_seq_set a ! j = {}) xss"
    proof -
      have "sets ! s \<inter> sets ! t = {}" if "s < t" "t < k" for s t
        using rs(3,4) that by (auto simp: sorted_wrt_iff_nth_less)
      then show ?thesis using taken_unused(3) [OF ok] by (auto simp: sorted_wrt_iff_nth_less xss_def)
    qed
    show "length (ba_used a') = length (ba_used a)" by (simp add: a'_def)
    show "\<forall>i < get_n_tokens a. ba_used a' ! i \<longleftrightarrow> ba_used a ! i \<or> i \<in> set (concat xss)"
      using l by (simp only: set) (simp add: a'_def)
    show "ba_n_used a' = ba_n_used a + length xss * rs ! 0" by (simp only: len) (simp add: a'_def)
  qed (rule dist)
  show "length (filter (\<lambda>i. \<not> ba_used a' ! i \<and> ba_seq_set a' ! i = sets ! s) [0..<get_n_tokens a']) = left_of a (sets ! s) - rs ! s"
    if s: "s < k"
  proof -
    let ?S = "sets ! s" and ?U = "filter (\<lambda>i. \<not> ba_used a ! i \<and> ba_seq_set a ! i = sets ! s) [0..<get_n_tokens a]"
    have "filter (\<lambda>i. \<not> ba_used a' ! i \<and> ba_seq_set a' ! i = ?S) [0..<get_n_tokens a'] =
        filter (\<lambda>i. i \<notin> set (taken a sets rs s)) ?U"
    proof -
      have "i \<in> ?X \<longleftrightarrow> i \<in> set (taken a sets rs s)" if "ba_seq_set a ! i = ?S" for i
        using taken_unused(3) [OF ok] that s d rs(3) by (auto simp: nth_eq_iff_index_eq)
      then show ?thesis using l by (auto simp: a'_def filter_filter intro!: filter_cong)
    qed
    also have "\<dots> = drop (rs ! s) ?U"
    proof -
      define T where "T = take (rs ! s) ?U"
      define D where "D = drop (rs ! s) ?U"
      have U: "T @ D = ?U" by (simp add: T_def D_def)
      have "distinct (T @ D)" unfolding U by simp
      then have "filter (\<lambda>i. i \<notin> set T) (T @ D) = D" by (auto simp: filter_empty_conv filter_id_conv disjoint_iff)
      then show ?thesis unfolding U by (simp add: grp T_def D_def)
    qed
    finally show ?thesis by (simp add: filter_unused [OF ok, symmetric] left_of_def)
  qed
qed


lemma split_equal_cases:
  assumes ok: "allocr_ok a" and sp: "split_equal n_ubatch sequential K a = Some (a', u)"
  shows "(a' = a \<and> u = ubatch_empty \<and> (sequential \<and> ba_has_cpl a \<or> (\<forall>i < get_n_tokens a. ba_used a ! i))) \<or>
    (allocr_ok a' \<and> \<not> (sequential \<and> ba_has_cpl a \<or> (\<forall>i < get_n_tokens a. ba_used a ! i)) \<and>
     (\<exists>xss q. emits a xss q a' \<and> u = snd (ubatch_add (concat xss) (length xss) True a) \<and>
      ba_out_ids a' = ba_out_ids a @ filter (\<lambda>i. the (b_logits (ba_batch a)) ! i \<noteq> 0) (concat xss) \<and>
      length xss \<le> n_ubatch + 1 \<and> (length xss * q \<le> n_ubatch \<or> q = 1) \<and> ub_n_tokens u = length xss * q \<and>
      (\<forall>xs \<in> set xss. \<forall>i \<in> set xs.
        let left = length (filter (\<lambda>j. \<not> ba_used a' ! j \<and> ba_seq_set a' ! j = ba_seq_set a ! i) [0..<get_n_tokens a'])
        in left = 0 \<or> K \<le> left)))"
proof (cases "sequential \<and> ba_has_cpl a \<or> (\<forall>i < get_n_tokens a. ba_used a ! i)")
  case True
  have "pick_sets a n_ubatch sequential [0..<get_n_tokens a] [] l = []" if "\<forall>i < get_n_tokens a. ba_used a ! i" for l
  proof -
    have "\<forall>i \<in> set is. ba_used a ! i \<Longrightarrow> pick_sets a n_ubatch sequential is [] l = []" for "is"
      by (induction "is") auto
    then show ?thesis using that by simp
  qed
  then show ?thesis using True sp by (cases "sequential \<and> ba_has_cpl a") (simp_all add: split_equal_def Let_def)
next
  case False
  then obtain sets rs k where
    T: "1 \<le> k" "k \<le> length sets" "length rs = length sets" "length sets \<le> n_ubatch + 1"
     "sorted_wrt (\<lambda>S T. S \<inter> T = {}) sets" "\<forall>S \<in> set sets. S \<noteq> {}"
     "\<forall>s < length sets. 1 \<le> rs ! s \<and> rs ! s \<le> left_of a (sets ! s)" "\<forall>s < k. rs ! s = rs ! 0"
     "\<forall>s < k. tail_ok a sets rs K s" "k * rs ! 0 \<le> n_ubatch \<or> rs ! 0 = 1"
     and eq: "(a', u) = ubatch_add (concat (map (taken a sets rs) [0..<k])) k True
       (mark a (\<Union>s < k. set (taken a sets rs s)) (k * rs ! 0))"
    using split_equal_taken [OF ok sp] by blast
  define xss where "xss = map (taken a sets rs) [0..<k]"
  define a1 where "a1 = mark a (\<Union>s < k. set (taken a sets rs s)) (k * rs ! 0)"
  note E = emits_ok [OF ok T(3,1,2,5,6,7,8), folded xss_def a1_def]
  have u: "u = snd (ubatch_add (concat xss) (length xss) True a)"
    and a': "a' = a1\<lparr>ba_out_ids := ba_out_ids a @ filter (\<lambda>i. the (b_logits (ba_batch a)) ! i \<noteq> 0) (concat xss)\<rparr>"
    using arg_cong [OF eq, of snd] arg_cong [OF eq, of fst] E(3) by (simp_all add: xss_def [symmetric] a1_def)
  have em: "emits a xss (rs ! 0) a'" using E(1) by (simp add: emits_def a')
  have tail: "let left = length (filter (\<lambda>j. \<not> ba_used a' ! j \<and> ba_seq_set a' ! j = ba_seq_set a ! i) [0..<get_n_tokens a'])
        in left = 0 \<or> K \<le> left" if "xs \<in> set xss" "i \<in> set xs" for xs i
  proof -
    obtain s where s: "s < k" "i \<in> set (taken a sets rs s)" using \<open>xs \<in> set xss\<close> \<open>i \<in> set xs\<close> by (auto simp: xss_def)
    then have "ba_seq_set a ! i = sets ! s" using taken_unused(3) [OF ok] by blast
    moreover have "get_n_tokens a' = get_n_tokens a1" "ba_used a' = ba_used a1" "ba_seq_set a' = ba_seq_set a1"
      by (simp_all add: a' get_n_tokens_def)
    moreover have "tail_ok a sets rs K s" using T(9) s(1) by blast
    ultimately show ?thesis using E(5) [OF s(1)] by (simp add: tail_ok_def Let_def)
  qed
  have "allocr_ok a'" using E(2) by (simp add: a')
  moreover have "ub_n_tokens u = length xss * rs ! 0" using E(3,4) by (simp add: u)
  moreover have "length xss \<le> n_ubatch + 1" using E(3) T(2,4) by linarith
  moreover have "length xss * rs ! 0 \<le> n_ubatch \<or> rs ! 0 = 1" using T(10) E(3) by simp
  moreover have "ba_out_ids a' = ba_out_ids a @ filter (\<lambda>i. the (b_logits (ba_batch a)) ! i \<noteq> 0) (concat xss)"
    by (simp add: a')
  ultimately show ?thesis using em u tail False by blast
qed

lemma allocr_ok_init:
  assumes "batch_init inp n_vocab memory n_embd n_seq_max oa a0 = Some (a, True)"
    and "\<forall>i < get_n_tokens a. tok_seqs (ba_batch a) i \<noteq> []"
  shows "allocr_ok a"
proof -
  note I = batch_init_True [OF assms(1)]
  have n0: "\<not> ba_used a ! i" if "i < get_n_tokens a" for i using that by (simp add: I(17))
  have "card {i. i < get_n_tokens a \<and> ba_used a ! i} = 0" using n0 by (simp add: card_eq_0_iff)
  moreover have "\<exists>k. \<forall>j < length (ba_seq_set_map a S). ba_used a ! (ba_seq_set_map a S ! j) \<longleftrightarrow> j < k" for S
  proof (rule exI [of _ 0], intro allI impI)
    fix j assume "j < length (ba_seq_set_map a S)"
    from nth_mem [OF this] have "ba_seq_set_map a S ! j < get_n_tokens a" by (simp add: I(10))
    from n0 [OF this] show "ba_used a ! (ba_seq_set_map a S ! j) \<longleftrightarrow> j < 0" by simp
  qed
  moreover have "ba_seq_set_map a S = filter (\<lambda>i. ba_seq_set a ! i = S) [0..<get_n_tokens a]" for S
    unfolding I(10) by (rule filter_cong) (simp_all add: I(9))
  moreover have "\<forall>S \<in> set (ba_seq_set a). S \<noteq> {}" using assms(2) by (auto simp: I(9))
  ultimately show ?thesis unfolding allocr_ok_def using I(9,17,18) by simp
qed

end
