(* ===== verification/Batch_Props.thy ===== *)
theory Batch_Props
  imports Batch_Split
begin

text \<open>
  The other two splits, \<open>split_simple\<close> and \<open>split_seq\<close>, in closed form, and the properties of the
  three splits of a batch.
\<close>

section \<open>\<open>split_simple\<close>\<close>

text \<open>An allocator whose first \<open>k\<close> tokens are used and the others not.\<close>

definition used_prefix :: "nat \<Rightarrow> llama_batch_allocr \<Rightarrow> bool" where
  "used_prefix k a \<longleftrightarrow> k \<le> get_n_tokens a \<and> ba_used a = replicate k True @ replicate (get_n_tokens a - k) False \<and> ba_n_used a = k"

definition take_prefix :: "nat \<Rightarrow> llama_batch_allocr \<Rightarrow> llama_batch_allocr" where
  "take_prefix e a = a\<lparr>ba_used := replicate e True @ replicate (get_n_tokens a - e) False, ba_n_used := e\<rparr>"

lemma take_prefix_same: "used_prefix k a \<Longrightarrow> take_prefix k a = a"
  by (simp add: used_prefix_def take_prefix_def)

lemma use_tok_prefix: "used_prefix k a \<Longrightarrow> k < get_n_tokens a \<Longrightarrow> use_tok k a = take_prefix (k + 1) a"
proof -
  assume p: "used_prefix k a" and k: "k < get_n_tokens a"
  have r: "replicate (get_n_tokens a - k) False = False # replicate (get_n_tokens a - Suc k) False"
    using k by (simp flip: replicate_Suc add: Suc_diff_Suc)
  have "(replicate k True @ False # ys)[k := True] = replicate (Suc k) True @ ys" for ys
    by (induction k) auto
  then show ?thesis using p by (simp add: use_tok_def take_prefix_def used_prefix_def r)
qed

lemma used_prefix_take: "e \<le> get_n_tokens a \<Longrightarrow> used_prefix e (take_prefix e a)"
  by (simp add: used_prefix_def take_prefix_def get_n_tokens_def)

lemma take_prefix_twice: "take_prefix e (take_prefix k a) = take_prefix e a"
  by (simp add: take_prefix_def get_n_tokens_def)

lemma take_prefix_fields [simp]:
  "ba_batch (take_prefix e a) = ba_batch a" "get_n_tokens (take_prefix e a) = get_n_tokens a"
  "ba_out_ids (take_prefix e a) = ba_out_ids a" "ba_n_used (take_prefix e a) = e"
  by (simp_all add: take_prefix_def get_n_tokens_def)

lemma simple_loop_eq:
  assumes "used_prefix cur a" "cur < get_n_tokens a"
  shows "simple_loop n_ubatch cur idxs a =
    (let e = min (get_n_tokens a) (cur + max 1 (n_ubatch - length idxs)) in (idxs @ [cur..<e], take_prefix e a))"
  using assms
proof (induction n_ubatch cur idxs a rule: simple_loop.induct)
  case (1 n_ubatch cur idxs a)
  let ?n = "get_n_tokens a" and ?a = "take_prefix (cur + 1) a"
  have l: "length (ba_used a) = ?n" using 1(2) by (simp add: used_prefix_def)
  have u: "use_tok cur a = ?a" using use_tok_prefix [OF 1(2,3)] .
  show ?case
  proof (cases "cur + 1 \<ge> ?n \<or> length (idxs @ [cur]) \<ge> n_ubatch")
    case True
    then have e: "min ?n (cur + max 1 (n_ubatch - length idxs)) = cur + 1" using 1(3) by auto
    show ?thesis
      unfolding simple_loop.simps [of n_ubatch cur idxs a] Let_def e using True l u by auto
  next
    case False
    have p: "used_prefix (cur + 1) ?a" using False by (intro used_prefix_take) simp
    have "simple_loop n_ubatch cur idxs a = simple_loop n_ubatch (cur + 1) (idxs @ [cur]) ?a"
      unfolding simple_loop.simps [of n_ubatch cur idxs a] Let_def using False l u by simp
    also have "\<dots> = (let e = min ?n (cur + 1 + max 1 (n_ubatch - length (idxs @ [cur])))
        in ((idxs @ [cur]) @ [cur + 1..<e], take_prefix e ?a))"
    proof -
      have "simple_loop n_ubatch (cur + 1) (idxs @ [cur]) ?a = (let e = min (get_n_tokens ?a) (cur + 1 + max 1 (n_ubatch - length (idxs @ [cur])))
        in ((idxs @ [cur]) @ [cur + 1..<e], take_prefix e ?a))"
        using False l u p by (intro 1(1) [OF refl refl refl, unfolded u]) auto
      then show ?thesis by (simp only: take_prefix_fields)
    qed
    also have "\<dots> = (let e = min ?n (cur + max 1 (n_ubatch - length idxs)) in (idxs @ [cur..<e], take_prefix e a))"
    proof -
      define E where "E = min ?n (cur + max 1 (n_ubatch - length idxs))"
      have "cur + 1 + max 1 (n_ubatch - length (idxs @ [cur])) = cur + max 1 (n_ubatch - length idxs)" using False by auto
      then have e: "min ?n (cur + 1 + max 1 (n_ubatch - length (idxs @ [cur]))) = E" by (simp only: E_def)
      have "cur < E" using 1(3) by (auto simp: E_def)
      then show ?thesis unfolding e E_def [symmetric] by (simp add: Let_def take_prefix_twice upt_conv_Cons)
    qed
    finally show ?thesis .
  qed
qed

lemma first_unused_replicate: "first_unused (replicate k True @ replicate m False) = k"
  by (induction k) (cases m, auto)

lemma split_simple_eq:
  assumes p: "used_prefix k a"
  shows "split_simple n_ubatch a =
    (if k = get_n_tokens a then (a, ubatch_empty)
     else let e = min (get_n_tokens a) (k + max 1 n_ubatch) in ubatch_add [k..<e] (e - k) False (take_prefix e a))"
proof -
  have f: "first_unused (ba_used a) = k" "length (ba_used a) = get_n_tokens a" "k \<le> get_n_tokens a"
    using p by (simp_all add: used_prefix_def first_unused_replicate)
  show ?thesis
    using f simple_loop_eq [OF p, of n_ubatch "[]"] by (auto simp: split_simple_def Let_def)
qed

section \<open>\<open>split_seq\<close>\<close>

lemma next_subset_props:
  "let c = next_subset a S cur in cur < c \<and>
     (c < get_n_tokens a \<longrightarrow> \<not> ba_used a ! c \<and> ba_seq_set a ! c \<subseteq> S) \<and>
     (\<forall>i. cur < i \<and> i < c \<and> i < get_n_tokens a \<longrightarrow> ba_used a ! i \<or> \<not> ba_seq_set a ! i \<subseteq> S)"
proof (induction a S cur rule: next_subset.induct)
  case (1 a S cur)
  show ?case
  proof (cases "cur + 1 < get_n_tokens a \<and> (ba_used a ! (cur + 1) \<or> S \<inter> ba_seq_set a ! (cur + 1) \<noteq> ba_seq_set a ! (cur + 1))")
    case True
    have eq: "next_subset a S cur = next_subset a S (cur + 1)"
      using True by (subst next_subset.simps) (simp add: Let_def)
    have "ba_used a ! (cur + 1) \<or> \<not> ba_seq_set a ! (cur + 1) \<subseteq> S" using True by blast
    with 1 [OF refl True] show ?thesis
      unfolding eq Let_def by (metis Suc_eq_plus1 Suc_lessD less_antisym not_less_eq)
  next
    case False
    have eq: "next_subset a S cur = cur + 1"
      using False by (subst next_subset.simps) (simp only: Let_def if_False)
    show ?thesis unfolding eq Let_def using False by auto
  qed
qed

text \<open>The tokens one \<open>split_seq\<close> call takes after \<open>cur\<close>: a chain of shrinking sequence sets.\<close>

definition chain :: "llama_batch_allocr \<Rightarrow> nat list \<Rightarrow> bool" where
  "chain a is \<longleftrightarrow> sorted_wrt (<) is \<and> (\<forall>i \<in> set is. i < get_n_tokens a \<and> \<not> ba_used a ! i) \<and>
     (\<forall>k. Suc k < length is \<longrightarrow> ba_seq_set a ! (is ! Suc k) \<subseteq> ba_seq_set a ! (is ! k) \<and>
       (\<forall>i. is ! k < i \<and> i < is ! Suc k \<longrightarrow> ba_used a ! i \<or> \<not> ba_seq_set a ! i \<subseteq> ba_seq_set a ! (is ! k)))"

lemma chain_snoc:
  assumes "chain a (is @ [i])" "i < j" "j < get_n_tokens a" "\<not> ba_used a ! j" "ba_seq_set a ! j \<subseteq> ba_seq_set a ! i"
    and "\<forall>m. i < m \<and> m < j \<longrightarrow> ba_used a ! m \<or> \<not> ba_seq_set a ! m \<subseteq> ba_seq_set a ! i"
  shows "chain a (is @ [i, j])"
  using assms by (auto simp: chain_def sorted_wrt_append nth_append less_Suc_eq)

lemma seq_loop_props:
  assumes "chain a0 (idxs @ [cur])" "S = ba_seq_set a0 ! cur" "length (ba_used a0) = get_n_tokens a0"
    and "a = mark a0 (set idxs) (length idxs)"
  shows "\<exists>is. seq_loop n_ubatch S cur idxs a = (is, mark a0 (set is) (length is)) \<and> chain a0 is \<and> is \<noteq> [] \<and>
    hd is = hd (idxs @ [cur]) \<and> length is \<le> max n_ubatch (Suc (length idxs))"
  using assms
proof (induction n_ubatch S cur idxs a rule: seq_loop.induct)
  case (1 n_ubatch S cur idxs a)
  let ?a = "use_tok cur a" and ?is = "idxs @ [cur]"
  have cur: "cur < get_n_tokens a0" "\<not> ba_used a0 ! cur" using 1(2) by (auto simp: chain_def)
  have a: "?a = mark a0 (set ?is) (length ?is)"
    using use_tok_mark [of cur a0] cur(1) 1(4) by (simp add: 1(5))
  let ?c = "next_subset ?a S cur"
  have g: "get_n_tokens ?a = get_n_tokens a0" "ba_seq_set ?a = ba_seq_set a0" by (simp_all add: a)
  show ?case
  proof (cases "length ?is \<ge> n_ubatch \<or> ?c \<ge> get_n_tokens ?a")
    case True
    then have "seq_loop n_ubatch S cur idxs a = (?is, ?a)"
      by (subst seq_loop.simps) (auto simp: Let_def)
    then show ?thesis using 1(2) a by (intro exI [of _ ?is]) auto
  next
    case False
    note P = next_subset_props [of ?a S cur, unfolded Let_def g]
    have c: "?c < get_n_tokens a0" using False by (simp add: g)
    have um: "ba_used ?a ! i \<longleftrightarrow> ba_used a0 ! i \<or> i \<in> set ?is" if "i < get_n_tokens a0" for i
      using that 1(4) by (simp add: a mark_def)
    have below: "i \<le> cur" if "i \<in> set ?is" for i using that 1(2) by (auto simp: chain_def sorted_wrt_append)
    have "chain a0 (idxs @ [cur, ?c])"
    proof (rule chain_snoc [OF 1(2)])
      show "cur < ?c" "?c < get_n_tokens a0" using P c by auto
      show "\<not> ba_used a0 ! ?c" using P c um by blast
      show "ba_seq_set a0 ! ?c \<subseteq> ba_seq_set a0 ! cur" using P c 1(3) by auto
      show "\<forall>m. cur < m \<and> m < ?c \<longrightarrow> ba_used a0 ! m \<or> \<not> ba_seq_set a0 ! m \<subseteq> ba_seq_set a0 ! cur"
      proof (intro allI impI)
        fix m assume m: "cur < m \<and> m < ?c"
        then have "m < get_n_tokens a0" "m \<notin> set ?is" using c below [of m] by auto
        then show "ba_used a0 ! m \<or> \<not> ba_seq_set a0 ! m \<subseteq> ba_seq_set a0 ! cur"
          using P m um 1(3) by auto
      qed
    qed
    then have ch: "chain a0 (?is @ [?c])" by simp
    have step: "seq_loop n_ubatch S cur idxs a = seq_loop n_ubatch (ba_seq_set ?a ! ?c) ?c ?is ?a"
      by (subst seq_loop.simps) (use False in \<open>simp add: Let_def\<close>)
    from False have "\<not> length ?is \<ge> n_ubatch" "\<not> ?c \<ge> get_n_tokens ?a" by auto
    from 1(1) [OF refl refl this(1) refl this(2) ch _ 1(4) a] show ?thesis
      unfolding step using False by (auto simp: g hd_append)
  qed
qed

lemma first_unused_props:
  "first_unused us \<le> length us" "first_unused us < length us \<Longrightarrow> \<not> us ! first_unused us"
  "i < first_unused us \<Longrightarrow> us ! i"
proof -
  show "first_unused us \<le> length us" "first_unused us < length us \<Longrightarrow> \<not> us ! first_unused us"
    by (induction us) auto
  show "i < first_unused us \<Longrightarrow> us ! i"
    by (induction us arbitrary: i) (auto simp: nth_Cons split: nat.split if_splits)
qed

lemma split_seq_eq:
  assumes ok: "length (ba_used a) = get_n_tokens a" and u: "first_unused (ba_used a) < get_n_tokens a"
  shows "\<exists>is. split_seq n_ubatch a = ubatch_add is 1 True (mark a (set is) (length is)) \<and> chain a is \<and> is \<noteq> [] \<and>
    hd is = first_unused (ba_used a) \<and> length is \<le> max 1 n_ubatch"
proof -
  let ?c = "first_unused (ba_used a)"
  have "chain a ([] @ [?c])" using u first_unused_props(2) [of "ba_used a"] ok by (simp add: chain_def)
  from seq_loop_props [OF this refl ok, of "a" n_ubatch] obtain "is" where
    "seq_loop n_ubatch (ba_seq_set a ! ?c) ?c [] a = (is, mark a (set is) (length is))" "chain a is" "is \<noteq> []"
    "hd is = ?c" "length is \<le> max 1 n_ubatch" by (auto simp: max.commute)
  then show ?thesis using u ok by (intro exI [of _ "is"]) (simp add: split_seq_def Let_def)
qed

section \<open>Properties\<close>

text \<open>Three tokens of the sequences 0, 1 and 0; none is used yet.\<close>

definition demo_allocr :: llama_batch_allocr where
  "demo_allocr = (batch_allocr_new 1)\<lparr>ba_batch := \<lparr>b_n_tokens = 3, b_token = Some [5, 6, 7], b_embd = None, b_pos = Some [10, 10, 11],
       b_n_seq_id = Some [1, 1, 1], b_seq_id = Some [[0], [1], [0]], b_logits = Some [0, 1, 1]\<rparr>,
     ba_n_seq_max := 2, ba_seq_set := [{0}, {1}, {0}],
     ba_seq_set_map := (\<lambda>S. filter (\<lambda>i. [{0}, {1}, {0}] ! i = S) [0, 1, 2]), ba_used := [False, False, False]\<rparr>"

lemma demo_allocr_fields [simp]:
  "get_n_tokens demo_allocr = 3" "ba_used demo_allocr = [False, False, False]" "ba_n_used demo_allocr = 0"
  "ba_seq_set demo_allocr = [{0}, {1}, {0}]" "ba_has_cpl demo_allocr = False"
  "ba_seq_set_map demo_allocr = (\<lambda>S. filter (\<lambda>i. [{0}, {1}, {0}] ! i = S) [0, 1, 2])"
  by (simp_all add: demo_allocr_def get_n_tokens_def batch_allocr_new_def)

lemma demo_allocr_ok: "allocr_ok demo_allocr"
proof -
  have u: "[0..<3] = [0, 1, 2 :: nat]" by (simp add: upt_rec numeral_eq_Suc)
  have "\<forall>i < 3. \<not> [False, False, False] ! i" by (simp add: all_less_3)
  then have "{i. i < 3 \<and> [False, False, False] ! i} = {}" by blast
  moreover have "\<exists>k. \<forall>j < length xs. [False, False, False] ! (xs ! j) \<longleftrightarrow> j < k" if "set xs \<subseteq> {0, 1, 2}" for xs :: "nat list"
  proof (rule exI [of _ 0], intro allI impI)
    fix j assume "j < length xs"
    then have "xs ! j \<in> {0, 1, 2}" using that nth_mem by blast
    then show "[False, False, False] ! (xs ! j) \<longleftrightarrow> j < 0" by auto
  qed
  moreover have "set (filter (\<lambda>i. [{0}, {1}, {0 :: nat}] ! i = S) [0, 1, 2 :: nat]) \<subseteq> {0, 1, 2}" for S by auto
  ultimately show ?thesis unfolding allocr_ok_def by (simp add: u)
qed

lemma split_equal_elim:
  assumes ok: "allocr_ok a" and sp: "split_equal n_ubatch sequential K a = Some (a', u)"
  obtains (nothing) "a' = a" "u = ubatch_empty" "sequential \<and> ba_has_cpl a \<or> (\<forall>i < get_n_tokens a. ba_used a ! i)"
  | (tokens) xss q where "allocr_ok a'" "\<not> (sequential \<and> ba_has_cpl a \<or> (\<forall>i < get_n_tokens a. ba_used a ! i))"
      "emits a xss q a'" "u = snd (ubatch_add (concat xss) (length xss) True a)" "length xss \<le> n_ubatch + 1"
      "length xss * q \<le> n_ubatch \<or> q = 1" "ub_n_tokens u = length xss * q"
      "\<forall>xs \<in> set xss. \<forall>i \<in> set xs.
        let left = length (filter (\<lambda>j. \<not> ba_used a' ! j \<and> ba_seq_set a' ! j = ba_seq_set a ! i) [0..<get_n_tokens a'])
        in left = 0 \<or> K \<le> left"
  using split_equal_cases [OF assms] that by blast

text \<open>
  C15. One \<open>split_equal\<close> call keeps the token accounting: from a consistent allocator it reaches a
  consistent one, and the micro-batch consists of unused tokens only: groups of \<open>q\<close> tokens, each
  group the next unused tokens of one sequence set in batch order, the sets of different groups
  disjoint. Exactly these tokens become used and \<open>n_used\<close> grows by their number. The micro-batch is
  empty only when nothing is left or a sequential split meets coupled sequences.
\<close>

theorem split_equal_accounting:
  assumes "allocr_ok a" "split_equal n_ubatch sequential K a = Some (a', u)"
  shows "allocr_ok a' \<and> ba_n_used a' = ba_n_used a + ub_n_tokens u \<and>
    (ub_n_tokens u = 0 \<longleftrightarrow> sequential \<and> ba_has_cpl a \<or> (\<forall>i < get_n_tokens a. ba_used a ! i)) \<and>
    (ub_n_tokens u \<noteq> 0 \<longrightarrow> (\<exists>xss q. emits a xss q a' \<and> u = snd (ubatch_add (concat xss) (length xss) True a)))"
proof (cases rule: split_equal_elim [OF assms])
  case 1
  then show ?thesis using assms(1) by (simp add: ubatch_empty_def)
next
  case (2 xss q)
  have "ub_n_tokens u \<noteq> 0" "ba_n_used a' = ba_n_used a + ub_n_tokens u" using 2(3,7) by (auto simp: emits_def)
  then show ?thesis using 2(1-4) by blast
qed

lemma demo_split: "\<exists>a' u. split_equal 2 False 0 demo_allocr = Some (a', u) \<and> ub_n_tokens u = 2"
  "\<exists>a' u. split_equal 1 False 0 demo_allocr = Some (a', u) \<and> ub_n_tokens u = 2"
proof -
  have "map_option (\<lambda>(_, u). ub_n_tokens u) (split_equal 2 False 0 demo_allocr) = Some 2" by code_simp
  then show "\<exists>a' u. split_equal 2 False 0 demo_allocr = Some (a', u) \<and> ub_n_tokens u = 2" by auto
  have "map_option (\<lambda>(_, u). ub_n_tokens u) (split_equal 1 False 0 demo_allocr) = Some 2" by code_simp
  then show "\<exists>a' u. split_equal 1 False 0 demo_allocr = Some (a', u) \<and> ub_n_tokens u = 2" by auto
qed

theorem split_equal_accounting_witness:
  "\<exists>a' u. split_equal 2 False 0 demo_allocr = Some (a', u) \<and> allocr_ok a' \<and> ba_n_used a' = 2"
proof -
  obtain a' u where s: "split_equal 2 False 0 demo_allocr = Some (a', u)" "ub_n_tokens u = 2" using demo_split(1) by blast
  from split_equal_accounting [OF demo_allocr_ok s(1)] s show ?thesis by simp
qed

text \<open>
  \<open>n_keep_tail\<close>: after a split every sequence set that gave tokens to the micro-batch has no
  token left or at least \<open>n_keep_tail\<close> of them, so a rollback window is never cut.
\<close>

lemma split_equal_keeps_tail:
  assumes "allocr_ok a" "split_equal n_ubatch sequential K a = Some (a', u)" "ub_n_tokens u \<noteq> 0"
  shows "\<exists>xss q. emits a xss q a' \<and> (\<forall>i \<in> set (concat xss).
    let left = length (filter (\<lambda>j. \<not> ba_used a' ! j \<and> ba_seq_set a' ! j = ba_seq_set a ! i) [0..<get_n_tokens a'])
    in left = 0 \<or> K \<le> left)"
proof (cases rule: split_equal_elim [OF assms(1,2)])
  case 1
  then show ?thesis using assms(3) by (simp add: ubatch_empty_def)
next
  case (2 xss q)
  show ?thesis
  proof (intro exI conjI ballI)
    show "emits a xss q a'" by (rule 2(3))
    fix i assume "i \<in> set (concat xss)"
    then obtain xs where "xs \<in> set xss" "i \<in> set xs" by auto
    then show "let left = length (filter (\<lambda>j. \<not> ba_used a' ! j \<and> ba_seq_set a' ! j = ba_seq_set a ! i) [0..<get_n_tokens a'])
      in left = 0 \<or> K \<le> left" using 2(8) by blast
  qed
qed

lemma split_equal_keeps_tail_witness:
  "\<exists>a' u xss q. split_equal 2 False 0 demo_allocr = Some (a', u) \<and> emits demo_allocr xss q a'"
proof -
  obtain a' u where s: "split_equal 2 False 0 demo_allocr = Some (a', u)" "ub_n_tokens u = 2" using demo_split(1) by blast
  then have "ub_n_tokens u \<noteq> 0" by simp
  from split_equal_keeps_tail [OF demo_allocr_ok s(1) this] s(1) show ?thesis by blast
qed

text \<open>
  C37. The size of a micro-batch of \<open>split_equal\<close>: at most \<open>n_ubatch\<close> tokens, except that a round of
  one token per sequence may have one more sequence than \<open>n_ubatch\<close>; the bound is reached, a limit
  of one token gives two.
\<close>

theorem split_equal_size:
  assumes "allocr_ok a" "split_equal n_ubatch sequential K a = Some (a', u)"
  shows "ub_n_tokens u \<le> n_ubatch \<or> (ub_n_tokens u = n_ubatch + 1 \<and> ub_n_seqs u = ub_n_tokens u)"
proof (cases rule: split_equal_elim [OF assms])
  case 1
  then show ?thesis by (simp add: ubatch_empty_def)
next
  case (2 xss q)
  have "ub_n_seqs u = length xss" by (simp add: 2(4) ubatch_add_def Let_def case_prod_beta)
  then show ?thesis using 2(5-7) by auto
qed

theorem split_equal_size_witness:
  "\<exists>a' u. split_equal 1 False 0 demo_allocr = Some (a', u) \<and> ub_n_tokens u = 2"
proof -
  obtain a' u where s: "split_equal 1 False 0 demo_allocr = Some (a', u)" "ub_n_tokens u = 2" using demo_split(2) by blast
  from split_equal_size [OF demo_allocr_ok s(1)] s show ?thesis by auto
qed

text \<open>
  \<open>split_seq\<close> takes a chain: the first unused token, then again and again the next unused token
  whose sequence set is contained in the last one's, at most \<open>n_ubatch\<close> (and at least one) of them;
  exactly these tokens become used.
\<close>

lemma split_seq_chain:
  assumes "allocr_ok a" "first_unused (ba_used a) < get_n_tokens a" "split_seq n_ubatch a = (a', u)"
  shows "\<exists>is. chain a is \<and> is \<noteq> [] \<and> hd is = first_unused (ba_used a) \<and> length is \<le> max 1 n_ubatch \<and>
    u = snd (ubatch_add is 1 True a) \<and> ba_n_used a' = ba_n_used a + length is \<and>
    (\<forall>i < get_n_tokens a. ba_used a' ! i \<longleftrightarrow> ba_used a ! i \<or> i \<in> set is)"
proof -
  note l = allocr_okD(1) [OF assms(1)]
  from split_seq_eq [OF l assms(2), of n_ubatch] obtain "is" where
    s: "split_seq n_ubatch a = ubatch_add is 1 True (mark a (set is) (length is))" "chain a is" "is \<noteq> []"
    "hd is = first_unused (ba_used a)" "length is \<le> max 1 n_ubatch" by blast
  have u: "u = snd (ubatch_add is 1 True a)"
    and a': "a' = fst (ubatch_add is 1 True (mark a (set is) (length is)))"
    using arg_cong [OF s(1), of snd] arg_cong [OF s(1), of fst] assms(3) by simp_all
  have "ba_n_used a' = ba_n_used a + length is" "\<forall>i < get_n_tokens a. ba_used a' ! i \<longleftrightarrow> ba_used a ! i \<or> i \<in> set is"
    using l by (simp_all add: a')
  then show ?thesis using s(2-5) u by blast
qed

lemma split_seq_chain_witness:
  "\<exists>is. chain demo_allocr is \<and> hd is = 0 \<and> length is \<le> 2"
proof -
  obtain a' u where s: "split_seq 2 demo_allocr = (a', u)" by fastforce
  from split_seq_chain [OF demo_allocr_ok _ s] show ?thesis by auto
qed

end
