(* ===== verification/Kv_Batches.thy ===== *)
theory Kv_Batches
  imports Kv_Slots Batch_Props
begin

text \<open>
  \<open>init_batch\<close> of a KV cache with one stream: the loop that splits the batch ends, its micro-batches
  put together are the batch, and what is left is the dry run.
\<close>

lemma ubatch_add_prefix:
  "snd (ubatch_add idxs n e (take_prefix k a)) = snd (ubatch_add idxs n e a)"
  "snd (ubatch_add idxs n e (a\<lparr>ba_out_ids := o'\<rparr>)) = snd (ubatch_add idxs n e a)"
  by (simp_all add: ubatch_add_def Let_def case_prod_beta take_prefix_def)

lemma used_prefix_out [simp]: "used_prefix k (a\<lparr>ba_out_ids := o'\<rparr>) = used_prefix k a"
  by (simp add: used_prefix_def get_n_tokens_def)

lemma collect_simple:
  assumes "used_prefix k a" "get_n_tokens a - k < fuel" "kv_n_stream kv = 1"
  shows "\<exists>a' xss. collect_ubatches (kv_split kv n_ubatch) fuel a =
      Some (a', map (\<lambda>xs. snd (ubatch_add xs (length xs) False a)) xss) \<and>
    concat xss = [k..<get_n_tokens a] \<and> (\<forall>xs \<in> set xss. xs \<noteq> [] \<and> length xs \<le> max 1 n_ubatch) \<and>
    ba_n_used a' = get_n_tokens a \<and> get_n_tokens a' = get_n_tokens a"
  using assms(1,2)
proof (induction fuel arbitrary: k a)
  case (Suc fuel)
  let ?n = "get_n_tokens a"
  have kn: "k \<le> ?n" "ba_n_used a = k" using Suc.prems(1) by (simp_all add: used_prefix_def)
  show ?case
  proof (cases "k = ?n")
    case True
    have "split_simple n_ubatch a = (a, ubatch_empty)" using split_simple_eq [OF Suc.prems(1), of n_ubatch] True by simp
    then show ?thesis
      using True kn assms(3) by (intro exI [of _ a] exI [of _ "[]"]) (simp add: kv_split_def ubatch_empty_def)
  next
    case False
    define e where "e = min ?n (k + max 1 n_ubatch)"
    have e: "k < e" "e \<le> ?n" "e - k \<le> max 1 n_ubatch" using False kn by (auto simp: e_def)
    define a1 where "a1 = fst (ubatch_add [k..<e] (e - k) False (take_prefix e a))"
    have sp: "split_simple n_ubatch a = (a1, snd (ubatch_add [k..<e] (e - k) False a))"
    proof -
      have "split_simple n_ubatch a = ubatch_add [k..<e] (e - k) False (take_prefix e a)"
        unfolding split_simple_eq [OF Suc.prems(1)] Let_def e_def by (rule if_not_P [OF False])
      then show ?thesis using ubatch_add_prefix(1) [of "[k..<e]" "e - k" False e a] by (simp add: a1_def prod_eq_iff del: ubatch_add_mark)
    qed
    have a1: "a1 = (take_prefix e a)\<lparr>ba_out_ids := ba_out_ids a1\<rparr>" by (simp add: a1_def)
    have g: "get_n_tokens a1 = ?n" by (subst a1) (simp add: get_n_tokens_def take_prefix_def)
    have p: "used_prefix e a1" by (subst a1) (use used_prefix_take [OF e(2)] in simp)
    have m: "snd (ubatch_add xs n e' a1) = snd (ubatch_add xs n e' a)" for xs n e'
      by (subst a1) (simp only: ubatch_add_prefix)
    have "get_n_tokens a1 - e < fuel" using Suc.prems(2) e by (simp add: g)
    from Suc.IH [OF p this] obtain a' xss where IH:
      "collect_ubatches (kv_split kv n_ubatch) fuel a1 = Some (a', map (\<lambda>xs. snd (ubatch_add xs (length xs) False a)) xss)"
      "concat xss = [e..<?n]" "\<forall>xs \<in> set xss. xs \<noteq> [] \<and> length xs \<le> max 1 n_ubatch" "ba_n_used a' = ?n" "get_n_tokens a' = ?n"
      by (auto simp: g m)
    have "collect_ubatches (kv_split kv n_ubatch) (Suc fuel) a =
        Some (a', map (\<lambda>xs. snd (ubatch_add xs (length xs) False a)) ([k..<e] # xss))"
      using e(1) assms(3) by (simp add: kv_split_def sp IH(1))
    moreover have "concat ([k..<e] # xss) = [k..<?n]" 
      using upt_add_eq_append [of k e "?n - e"] e by (simp add: IH(2))
    moreover have "\<forall>xs \<in> set ([k..<e] # xss). xs \<noteq> [] \<and> length xs \<le> max 1 n_ubatch" using IH(3) e by auto
    ultimately show ?thesis using IH(4,5) by blast
  qed
qed simp



end
