(* ===== verification/Recurrent.thy ===== *)
theory Recurrent
  imports Kv_Cache Seq_Memory
begin

text \<open>
  The memory of recurrent models (src/src/llama-memory-recurrent.cpp, llama-memory-recurrent.h): one
  cell holds the state of a whole sequence, \<open>tail\<close> of cell \<open>s\<close> is the cell of sequence \<open>s\<close>, and
  \<open>rs_idx\<close> the rollback snapshot of each sequence. Tensors and their buffers are left out. A failing
  \<open>GGML_ASSERT\<close> or an index past the cells is \<open>None\<close>.
\<close>

section \<open>State\<close>

record mem_cell =
  mc_pos :: llama_pos
  mc_src :: int
  mc_src0 :: int
  mc_tail :: int
  mc_seq :: "nat set"

definition mem_cell_new :: mem_cell where
  "mem_cell_new = \<lparr>mc_pos = -1, mc_src = -1, mc_src0 = -1, mc_tail = -1, mc_seq = {}\<rparr>"

record rec_mem =
  rm_head :: nat
  rm_used :: nat
  rm_n_rs_seq :: nat
  rm_rs_idx :: "nat list"
  rm_n :: nat
  rm_rs_z :: int
  rm_cells :: "mem_cell list"

abbreviation rm_size :: "rec_mem \<Rightarrow> nat" where
  "rm_size m \<equiv> length (rm_cells m)"

definition rec_has :: "int \<Rightarrow> mem_cell \<Rightarrow> bool" where
  "rec_has s c \<longleftrightarrow> 0 \<le> s \<and> nat s \<in> mc_seq c"

definition rec_empty :: "mem_cell \<Rightarrow> bool" where
  "rec_empty c \<longleftrightarrow> mc_seq c = {}"

definition rec_new :: "nat \<Rightarrow> nat \<Rightarrow> nat \<Rightarrow> rec_mem" where
  "rec_new mem_size n_seq_max n_rs_seq = \<lparr>rm_head = 0, rm_used = 0, rm_n_rs_seq = n_rs_seq,
     rm_rs_idx = replicate n_seq_max 0, rm_n = 0, rm_rs_z = -1, rm_cells = replicate mem_size mem_cell_new\<rparr>"

text \<open>A write to cell \<open>i\<close>, and the decrement of the \<open>uint32_t\<close> counter.\<close>

definition upd_cell :: "nat \<Rightarrow> (mem_cell \<Rightarrow> mem_cell) \<Rightarrow> rec_mem \<Rightarrow> rec_mem" where
  "upd_cell i f m = m\<lparr>rm_cells := (rm_cells m)[i := f (rm_cells m ! i)]\<rparr>"

definition dec32 :: "nat \<Rightarrow> nat" where
  "dec32 u = (if u = 0 then 2 ^ 32 - 1 else u - 1)"

definition rec_clear :: "rec_mem \<Rightarrow> rec_mem" where
  "rec_clear m =
     (fold (\<lambda>i. upd_cell i (\<lambda>c. c\<lparr>mc_pos := -1, mc_seq := {}, mc_src := -1, mc_tail := -1\<rparr>)) [0..<rm_size m] m)
       \<lparr>rm_head := 0, rm_used := 0, rm_rs_idx := map (\<lambda>_. 0) (rm_rs_idx m)\<rparr>"

definition set_rs_idx :: "int \<Rightarrow> nat \<Rightarrow> rec_mem \<Rightarrow> rec_mem" where
  "set_rs_idx s idx m =
     (if s < 0 \<or> nat s \<ge> length (rm_rs_idx m) then m
      else m\<lparr>rm_rs_idx := (rm_rs_idx m)[nat s := (if idx > rm_n_rs_seq m then rm_n_rs_seq m else idx)]\<rparr>)"

section \<open>Sequence operations\<close>

text \<open>One round of the loop of \<open>seq_rm\<close>, with \<open>new_head\<close>.\<close>

definition rec_rm_cell :: "int \<Rightarrow> llama_pos \<Rightarrow> llama_pos \<Rightarrow> nat \<Rightarrow> rec_mem \<times> nat \<Rightarrow> rec_mem \<times> nat" where
  "rec_rm_cell s p0 p1 i = (\<lambda>(m, nh).
     let c = rm_cells m ! i
     in if \<not> (mc_pos c \<ge> p0 \<and> mc_pos c < p1) then (m, nh)
        else if s < 0 \<or> rec_has s c then
          (let m = upd_cell i (\<lambda>c. c\<lparr>mc_seq := (if s < 0 then {} else mc_seq c - {nat s})\<rparr>) m
           in if rec_empty (rm_cells m ! i) then
                (let m = (if mc_pos (rm_cells m ! i) \<ge> 0 then m\<lparr>rm_used := dec32 (rm_used m)\<rparr> else m)
                 in (upd_cell i (\<lambda>c. c\<lparr>mc_pos := -1, mc_src := -1\<rparr>) m, if nh = rm_size m then i else nh))
              else (m, nh))
        else (m, nh))"

definition rec_rm_loop :: "int \<Rightarrow> llama_pos \<Rightarrow> llama_pos \<Rightarrow> rec_mem \<Rightarrow> rec_mem" where
  "rec_rm_loop s p0 p1 m =
     (let (m, nh) = fold (rec_rm_cell s p0 p1) [0..<rm_size m] (m, rm_size m)
      in if nh \<noteq> rm_size m \<and> nh < rm_head m then m\<lparr>rm_head := nh\<rparr> else m)"

text \<open>A partial removal rolls back by at most \<open>n_rs_seq\<close> tokens, or is refused.\<close>

definition rec_rollback :: "nat \<Rightarrow> nat \<Rightarrow> llama_pos \<Rightarrow> rec_mem \<Rightarrow> rec_mem \<times> bool" where
  "rec_rollback s t p0 m =
     (let rollback = mc_pos (rm_cells m ! t) - (p0 - 1)
      in if rollback \<ge> 1 \<and> rollback \<le> int (rm_n_rs_seq m)
         then (upd_cell t (\<lambda>c. c\<lparr>mc_pos := p0 - 1\<rparr>) (set_rs_idx (int s) (nat rollback) m), True)
         else (m, False))"

definition rec_seq_rm :: "int \<Rightarrow> llama_pos \<Rightarrow> llama_pos \<Rightarrow> rec_mem \<Rightarrow> rec_mem \<times> bool" where
  "rec_seq_rm seq_id p0 p1 m =
     (let p0 = lo_pos p0; p1 = hi_pos p1;
          m = (if p0 = 0 \<and> p1 = INT32_MAX then
                 (if seq_id \<ge> 0 then set_rs_idx seq_id 0 m else m\<lparr>rm_rs_idx := map (\<lambda>_. 0) (rm_rs_idx m)\<rparr>)
               else m)
      in if seq_id \<ge> int (rm_size m) then (m, False)
         else if 0 \<le> seq_id then
           (let tail = mc_tail (rm_cells m ! nat seq_id); pos = mc_pos (rm_cells m ! nat tail)
            in if tail \<ge> 0 \<and> 0 < p0 \<and> p0 \<le> pos \<and> p1 > pos then rec_rollback (nat seq_id) (nat tail) p0 m
               else
                 let m = (if tail \<ge> 0 \<and> p0 \<le> pos \<and> pos < p1 then upd_cell (nat seq_id) (\<lambda>c. c\<lparr>mc_tail := -1\<rparr>) m else m)
                 in (rec_rm_loop seq_id p0 p1 m, True))
         else if p0 \<noteq> p1 \<and> (p0 \<noteq> 0 \<or> p1 \<noteq> INT32_MAX) then (m, False)
         else (rec_rm_loop seq_id p0 p1 m, True))"

text \<open>The cell of a sequence loses it; an emptied cell is reset.\<close>

definition rec_detach :: "nat \<Rightarrow> rec_mem \<Rightarrow> rec_mem" where
  "rec_detach s m =
     (let t = mc_tail (rm_cells m ! s)
      in if t \<ge> 0 then
           (let m = upd_cell (nat t) (\<lambda>c. c\<lparr>mc_seq := mc_seq c - {s}\<rparr>) m;
                m = upd_cell s (\<lambda>c. c\<lparr>mc_tail := -1\<rparr>) m
            in if rec_empty (rm_cells m ! nat t)
               then (upd_cell (nat t) (\<lambda>c. c\<lparr>mc_pos := -1, mc_src := -1\<rparr>) m)\<lparr>rm_used := dec32 (rm_used m)\<rparr>
               else m)
         else m)"

definition rec_seq_cp :: "int \<Rightarrow> int \<Rightarrow> llama_pos \<Rightarrow> llama_pos \<Rightarrow> rec_mem \<Rightarrow> rec_mem" where
  "rec_seq_cp src dst p0 p1 m =
     (if src = dst then m
      else if 0 \<le> dst \<and> dst < int (rm_size m) \<and> 0 \<le> src \<and> src < int (rm_size m) then
        (let m = rec_detach (nat dst) m; t = mc_tail (rm_cells m ! nat src)
         in if t \<ge> 0
            then upd_cell (nat dst) (\<lambda>c. c\<lparr>mc_tail := t\<rparr>) (upd_cell (nat t) (\<lambda>c. c\<lparr>mc_seq := insert (nat dst) (mc_seq c)\<rparr>) m)
            else m)
      else m)"

definition rec_keep_cell :: "int \<Rightarrow> nat \<Rightarrow> rec_mem \<times> nat \<Rightarrow> rec_mem \<times> nat" where
  "rec_keep_cell s i = (\<lambda>(m, nh).
     let m = (if int i \<noteq> s then upd_cell i (\<lambda>c. c\<lparr>mc_tail := -1\<rparr>) m else m); c = rm_cells m ! i
     in if \<not> rec_has s c then
          (let m = (if mc_pos c \<ge> 0 then m\<lparr>rm_used := dec32 (rm_used m)\<rparr> else m)
           in (upd_cell i (\<lambda>c. c\<lparr>mc_pos := -1, mc_src := -1, mc_seq := {}\<rparr>) m, if nh = rm_size m then i else nh))
        else (upd_cell i (\<lambda>c. c\<lparr>mc_seq := {nat s}\<rparr>) m, nh))"

definition rec_seq_keep :: "int \<Rightarrow> rec_mem \<Rightarrow> rec_mem" where
  "rec_seq_keep s m =
     (let (m, nh) = fold (rec_keep_cell s) [0..<rm_size m] (m, rm_size m)
      in if nh \<noteq> rm_size m \<and> nh < rm_head m then m\<lparr>rm_head := nh\<rparr> else m)"

text \<open>\<open>seq_add\<close> and \<open>seq_div\<close> change the position of the tail cell only.\<close>

definition rec_change_pos :: "int \<Rightarrow> llama_pos \<Rightarrow> llama_pos \<Rightarrow> (llama_pos \<Rightarrow> llama_pos) \<Rightarrow> rec_mem \<Rightarrow> rec_mem" where
  "rec_change_pos s p0 p1 f m =
     (if 0 \<le> s \<and> s < int (rm_size m) then
        (let t = mc_tail (rm_cells m ! nat s); c = rm_cells m ! nat t
         in if t \<ge> 0 \<and> rec_has s c \<and> p0 \<le> mc_pos c \<and> mc_pos c < p1
            then upd_cell (nat t) (\<lambda>c. c\<lparr>mc_pos := f (mc_pos c)\<rparr>) m else m)
      else m)"

definition rec_seq_add :: "int \<Rightarrow> llama_pos \<Rightarrow> llama_pos \<Rightarrow> llama_pos \<Rightarrow> rec_mem \<Rightarrow> rec_mem" where
  "rec_seq_add s p0 p1 shift m =
     (if shift = 0 then m
      else let p0 = lo_pos p0; p1 = hi_pos p1
           in if p0 = p1 then m else rec_change_pos s p0 p1 (\<lambda>p. p + shift) m)"

definition rec_seq_div :: "int \<Rightarrow> llama_pos \<Rightarrow> llama_pos \<Rightarrow> int \<Rightarrow> rec_mem \<Rightarrow> rec_mem" where
  "rec_seq_div s p0 p1 d m =
     (if d = 1 then m
      else let p0 = lo_pos p0; p1 = hi_pos p1
           in if p0 = p1 then m else rec_change_pos s p0 p1 (\<lambda>p. trunc_div p d) m)"

definition rec_seq_pos_min :: "int \<Rightarrow> rec_mem \<Rightarrow> llama_pos" where
  "rec_seq_pos_min s m =
     (let r = fold (\<lambda>c r. if rec_has s c then min r (mc_pos c) else r) (rm_cells m) INT32_MAX
      in if r = INT32_MAX then -1 else r)"

definition rec_seq_pos_max :: "int \<Rightarrow> rec_mem \<Rightarrow> llama_pos" where
  "rec_seq_pos_max s m = fold (\<lambda>c r. if rec_has s c then max r (mc_pos c) else r) (rm_cells m) (-1)"

section \<open>Placement of a micro-batch\<close>

text \<open>Sequence ids of row \<open>s\<close>, whose first token is \<open>s * n_seq_tokens\<close>.\<close>

definition row_tok :: "llama_ubatch \<Rightarrow> nat \<Rightarrow> nat" where
  "row_tok ub s = s * ub_n_seq_tokens ub"

definition row_seqs :: "llama_ubatch \<Rightarrow> nat \<Rightarrow> nat list" where
  "row_seqs ub s = take (ub_n_seq_id ub ! row_tok ub s) (ub_seq_id ub ! row_tok ub s)"

definition row_seq0 :: "llama_ubatch \<Rightarrow> nat \<Rightarrow> nat" where
  "row_seq0 ub s = ub_seq_id ub ! row_tok ub s ! 0"

text \<open>
  The first pass over all sequence ids: \<open>False\<close> when an id is too big. The ids after the first
  of a row lose the cells they had.
\<close>

fun rec_admit :: "(nat \<times> nat) list \<Rightarrow> rec_mem \<Rightarrow> rec_mem \<times> bool" where
  "rec_admit [] m = (m, True)"
| "rec_admit ((j, s) # js) m =
     (if s \<ge> rm_size m then (m, False)
      else rec_admit js (if j > 0 then rec_detach s m else m))"

definition admit_ids :: "llama_ubatch \<Rightarrow> (nat \<times> nat) list" where
  "admit_ids ub = concat (map (\<lambda>s. enumerate 0 (row_seqs ub s)) [0..<ub_n_seqs ub])"

text \<open>The two searches for an empty cell: from a cell on, and after a cell.\<close>

fun next_empty_from :: "nat \<Rightarrow> mem_cell list \<Rightarrow> nat \<Rightarrow> nat" where
  "next_empty_from 0 cs e = e"
| "next_empty_from (Suc k) cs e =
     (let e = (if e \<ge> length cs then e - length cs else e)
      in if rec_empty (cs ! e) then e else next_empty_from k cs (e + 1))"

fun next_empty_after :: "nat \<Rightarrow> mem_cell list \<Rightarrow> nat \<Rightarrow> nat" where
  "next_empty_after 0 cs e = e"
| "next_empty_after (Suc k) cs e =
     (let e = (if e + 1 \<ge> length cs then e + 1 - length cs else e + 1)
      in if rec_empty (cs ! e) then e else next_empty_after k cs e)"

text \<open>One row gets its own cell: the state is the memory, \<open>next_empty_cell\<close>, \<open>min\<close> and \<open>max\<close>.\<close>

definition claim_row :: "llama_ubatch \<Rightarrow> nat \<Rightarrow> rec_mem \<times> nat \<times> int \<times> int \<Rightarrow> (rec_mem \<times> nat \<times> int \<times> int) option" where
  "claim_row ub s = (\<lambda>(m, e, mn, mx).
     let q = row_seq0 ub s; t = mc_tail (rm_cells m ! q); c = rm_cells m ! nat t
     in if t \<ge> 0 \<and> q \<notin> mc_seq c then None
        else if t \<ge> 0 \<and> card (mc_seq c) = 1 then Some (m, e, min mn t, max mx t)
        else if e \<ge> rm_size m \<or> \<not> rec_empty (rm_cells m ! e) then None
        else
          let m = (if t \<ge> 0 then
                     upd_cell e (\<lambda>d. d\<lparr>mc_pos := mc_pos c, mc_src := mc_src c, mc_seq := insert q (mc_seq d)\<rparr>)
                       (upd_cell (nat t) (\<lambda>d. d\<lparr>mc_seq := mc_seq d - {q}\<rparr>) m)
                   else m)
          in if t \<ge> 0 \<and> rec_empty (rm_cells m ! nat t) then None
             else
               let m = upd_cell q (\<lambda>d. d\<lparr>mc_tail := int e\<rparr>) m;
                   e' = (if s + 1 < ub_n_seqs ub then next_empty_after (rm_size m) (rm_cells m) e else e)
               in Some (m, e', min mn (int e), max mx (int e)))"

fun claim_rows :: "llama_ubatch \<Rightarrow> nat list \<Rightarrow> rec_mem \<times> nat \<times> int \<times> int \<Rightarrow> (rec_mem \<times> nat \<times> int \<times> int) option" where
  "claim_rows ub [] st = Some st"
| "claim_rows ub (s # ss) st =
     (case claim_row ub s st of None \<Rightarrow> None | Some st \<Rightarrow> claim_rows ub ss st)"

text \<open>Row \<open>s\<close> is swapped into cell \<open>min + s\<close>; every tail follows.\<close>

definition swap_tail :: "int \<Rightarrow> int \<Rightarrow> int \<Rightarrow> int" where
  "swap_tail src dst t = (if t = src then dst else if t = dst then src else t)"

definition swap_cells :: "nat \<Rightarrow> nat \<Rightarrow> rec_mem \<Rightarrow> rec_mem" where
  "swap_cells src dst m =
     (let d = rm_cells m ! dst; c = rm_cells m ! src;
          cs = (rm_cells m)[dst := d\<lparr>mc_pos := mc_pos c, mc_src := mc_src c, mc_seq := mc_seq c\<rparr>,
                            src := c\<lparr>mc_pos := mc_pos d, mc_src := mc_src d, mc_seq := mc_seq d\<rparr>]
      in m\<lparr>rm_cells := map (\<lambda>x. x\<lparr>mc_tail := swap_tail (int src) (int dst) (mc_tail x)\<rparr>) cs\<rparr>)"

fun gather_rows :: "llama_ubatch \<Rightarrow> nat \<Rightarrow> nat list \<Rightarrow> rec_mem \<Rightarrow> rec_mem option" where
  "gather_rows ub mn [] m = Some m"
| "gather_rows ub mn (s # ss) m =
     (let dst = s + mn; src = mc_tail (rm_cells m ! row_seq0 ub s)
      in if int dst = src then gather_rows ub mn ss m
         else if dst \<ge> rm_size m \<or> src < 0 \<or> src \<ge> int (rm_size m) then None
         else gather_rows ub mn ss (swap_cells (nat src) dst m))"

text \<open>The new positions and sequences of the rows.\<close>

definition place_row :: "llama_ubatch \<Rightarrow> nat \<Rightarrow> nat \<Rightarrow> rec_mem \<Rightarrow> rec_mem" where
  "place_row ub mn s m =
     (let i = row_tok ub s;
          m = upd_cell (s + mn) (\<lambda>c. c\<lparr>mc_pos := ub_pos ub ! (i + ub_n_seq_tokens ub - 1), mc_seq := {}\<rparr>) m
      in fold (\<lambda>q m. upd_cell q (\<lambda>c. c\<lparr>mc_tail := int (s + mn)\<rparr>)
                 (upd_cell (s + mn) (\<lambda>c. c\<lparr>mc_seq := insert q (mc_seq c)\<rparr>) m)) (row_seqs ub s) m)"

text \<open>The first cell of the range no cell copies from is the zeroed state.\<close>

definition find_rs_z :: "nat \<Rightarrow> nat \<Rightarrow> mem_cell list \<Rightarrow> int" where
  "find_rs_z mn mx cs =
     (case List.find (\<lambda>i. \<forall>c \<in> set cs. mc_src c \<noteq> int i) [mn..<mx + 1] of Some i \<Rightarrow> int i | None \<Rightarrow> -1)"

definition stage_src :: "int \<Rightarrow> nat \<Rightarrow> mem_cell \<Rightarrow> mem_cell" where
  "stage_src z i c = c\<lparr>mc_src0 := (if mc_src c < 0 then z else mc_src c), mc_src := int i\<rparr>"

definition rec_find_slot :: "llama_ubatch \<Rightarrow> rec_mem \<Rightarrow> (rec_mem \<times> bool) option" where
  "rec_find_slot ub m =
     (let n_seqs = ub_n_seqs ub;
          m = (if rm_head m > rm_used m + 2 * n_seqs then m\<lparr>rm_head := 0\<rparr> else m)
      in if \<not> ub_equal_seqs ub then None
         else case rec_admit (admit_ids ub) m of
           (m, False) \<Rightarrow> Some (m, False)
         | (m, True) \<Rightarrow>
             (let e = next_empty_from (rm_size m) (rm_cells m) (rm_head m)
              in case claim_rows ub [0..<n_seqs] (m, e, int (rm_size m) - 1, 0) of
                   None \<Rightarrow> None
                 | Some (m, _, mn, mx) \<Rightarrow>
                     (case gather_rows ub (nat mn) [0..<n_seqs] m of
                        None \<Rightarrow> None
                      | Some m \<Rightarrow>
                          (let m = fold (place_row ub (nat mn)) [0..<n_seqs] m;
                               z = find_rs_z (nat mn) (nat mx) (rm_cells m)
                           in if z < 0 \<and> (\<exists>i \<in> {nat mn..<nat mx + 1}. mc_src (rm_cells m ! i) < 0) then None
                              else
                                let m = fold (\<lambda>i. upd_cell i (stage_src z i)) [nat mn..<nat mx + 1] m;
                                    n = nat mx + 1 - nat mn
                                in Some (m\<lparr>rm_rs_z := z, rm_head := nat mn, rm_n := n,
                                           rm_used := length (filter (\<lambda>c. \<not> rec_empty c) (rm_cells m))\<rparr>,
                                         n \<ge> n_seqs)))))"

text \<open>\<open>prepare\<close> tries all micro-batches and puts the cells, the counter and the head back.\<close>

fun rec_try_slots :: "llama_ubatch list \<Rightarrow> rec_mem \<Rightarrow> (rec_mem \<times> bool) option" where
  "rec_try_slots [] m = Some (m, True)"
| "rec_try_slots (ub # ubs) m =
     (case rec_find_slot ub m of
        None \<Rightarrow> None
      | Some (m, False) \<Rightarrow> Some (m, False)
      | Some (m, True) \<Rightarrow> rec_try_slots ubs m)"

definition rec_prepare :: "llama_ubatch list \<Rightarrow> rec_mem \<Rightarrow> (rec_mem \<times> bool) option" where
  "rec_prepare ubs m =
     (case rec_try_slots ubs m of
        None \<Rightarrow> None
      | Some (m', success) \<Rightarrow> Some (m'\<lparr>rm_cells := rm_cells m, rm_used := rm_used m, rm_head := rm_head m\<rparr>, success))"

definition rec_split :: "rec_mem \<Rightarrow> bool \<Rightarrow> nat \<Rightarrow> llama_batch_allocr \<Rightarrow> (llama_batch_allocr \<times> llama_ubatch) option" where
  "rec_split m embd_all n_ubatch a =
     (if embd_all then Some (split_seq n_ubatch a)
      else split_equal n_ubatch True (if rm_n_rs_seq m > 0 then rm_n_rs_seq m + 1 else 0) a)"

text \<open>\<open>init_batch\<close>: the inner option is the context, or the failed status.\<close>

definition rec_init_batch ::
  "llama_batch_allocr \<Rightarrow> nat \<Rightarrow> bool \<Rightarrow> rec_mem \<Rightarrow> (rec_mem \<times> llama_batch_allocr \<times> llama_ubatch list option) option" where
  "rec_init_batch balloc n_ubatch embd_all m =
     (let balloc = split_reset balloc
      in case collect_ubatches (rec_split m embd_all n_ubatch) (get_n_tokens balloc + 1) balloc of
           None \<Rightarrow> None
         | Some (balloc, ubatches) \<Rightarrow>
             if ba_n_used balloc < get_n_tokens balloc then Some (m, balloc, None)
             else case rec_prepare ubatches m of
               None \<Rightarrow> None
             | Some (m, success) \<Rightarrow> Some (m, balloc, if success then Some ubatches else None))"

text \<open>The source row of the \<open>i\<close>-th used cell; reading it consumes the rollback index.\<close>

definition rec_s_copy :: "nat \<Rightarrow> rec_mem \<Rightarrow> rec_mem \<times> int" where
  "rec_s_copy i m =
     (let c = rm_cells m ! (i + rm_head m)
      in if rm_n_rs_seq m = 0 then (m, mc_src0 c)
         else if mc_seq c \<noteq> {} \<and> Min (mc_seq c) < length (rm_rs_idx m) then
           (let q = Min (mc_seq c)
            in (m\<lparr>rm_rs_idx := (rm_rs_idx m)[q := 0]\<rparr>, int (rm_rs_idx m ! q * rm_size m) + mc_src0 c))
         else (m, mc_src0 c))"

end
