(* ===== verification/Recurrent_Ops.thy ===== *)
theory Recurrent_Ops
  imports Recurrent
begin

text \<open>
  The sequence operations of the recurrent memory: the invariant \<open>tails_ok\<close> (the check of the debug
  build), its preservation, the contract \<open>seq_memory\<close>, and two states in which it is broken.
\<close>

section \<open>Tails and cells agree\<close>

definition ctail :: "mem_cell list \<Rightarrow> nat \<Rightarrow> int" where "ctail cs s = mc_tail (cs ! s)"
definition cseqs :: "mem_cell list \<Rightarrow> nat \<Rightarrow> nat set" where "cseqs cs i = mc_seq (cs ! i)"

text \<open>
  \<open>weak_tails cs A\<close>: each member of a cell has that cell as its tail, and each tail is a cell of its
  sequence, except that the sequences of \<open>A\<close> own a cell alone that may not list them yet.
\<close>

definition weak_tails :: "mem_cell list \<Rightarrow> nat set \<Rightarrow> bool" where
  "weak_tails cs A \<longleftrightarrow>
     (\<forall>i < length cs. \<forall>s \<in> cseqs cs i. s < length cs \<and> ctail cs s = int i) \<and>
     (\<forall>s < length cs. ctail cs s = -1 \<or>
        (0 \<le> ctail cs s \<and> ctail cs s < int (length cs) \<and> (s \<in> cseqs cs (nat (ctail cs s)) \<or> s \<in> A))) \<and>
     (\<forall>q \<in> A. q < length cs \<and> 0 \<le> ctail cs q \<and> cseqs cs (nat (ctail cs q)) \<subseteq> {q} \<and>
        (\<forall>s < length cs. s \<noteq> q \<longrightarrow> ctail cs s \<noteq> ctail cs q))"

abbreviation tails_ok :: "rec_mem \<Rightarrow> bool" where
  "tails_ok m \<equiv> weak_tails (rm_cells m) {}"

lemma weak_tailsD:
  assumes "weak_tails cs A"
  shows "i < length cs \<Longrightarrow> s \<in> cseqs cs i \<Longrightarrow> s < length cs \<and> ctail cs s = int i"
    "s < length cs \<Longrightarrow> ctail cs s \<noteq> -1 \<Longrightarrow> 0 \<le> ctail cs s \<and> ctail cs s < int (length cs) \<and> (s \<in> cseqs cs (nat (ctail cs s)) \<or> s \<in> A)"
    "q \<in> A \<Longrightarrow> q < length cs \<and> 0 \<le> ctail cs q \<and> cseqs cs (nat (ctail cs q)) \<subseteq> {q} \<and> (\<forall>s < length cs. s \<noteq> q \<longrightarrow> ctail cs s \<noteq> ctail cs q)"
  using assms unfolding weak_tails_def by blast+

lemma tails_okD:
  assumes "weak_tails cs {}"
  shows "i < length cs \<Longrightarrow> s \<in> cseqs cs i \<Longrightarrow> s < length cs \<and> ctail cs s = int i"
    "s < length cs \<Longrightarrow> ctail cs s < 0 \<Longrightarrow> ctail cs s = -1"
    "s < length cs \<Longrightarrow> 0 \<le> ctail cs s \<Longrightarrow> ctail cs s < int (length cs) \<and> s \<in> cseqs cs (nat (ctail cs s))"
  using weak_tailsD [OF assms] by force+

lemma tails_okI:
  assumes "\<And>i s. i < length cs \<Longrightarrow> s \<in> cseqs cs i \<Longrightarrow> s < length cs \<and> ctail cs s = int i"
    and "\<And>s. s < length cs \<Longrightarrow> ctail cs s = -1 \<or> (0 \<le> ctail cs s \<and> ctail cs s < int (length cs) \<and> s \<in> cseqs cs (nat (ctail cs s)))"
  shows "weak_tails cs {}"
  using assms unfolding weak_tails_def by blast

text \<open>The invariant reads the tails and the members only.\<close>

lemma weak_tails_cong:
  assumes "length cs' = length cs" "\<And>i. i < length cs \<Longrightarrow> ctail cs' i = ctail cs i" "\<And>i. i < length cs \<Longrightarrow> cseqs cs' i = cseqs cs i"
  shows "weak_tails cs' A = weak_tails cs A"
proof -
  have n: "0 \<le> ctail cs s \<Longrightarrow> ctail cs s < int (length cs) \<Longrightarrow> cseqs cs' (nat (ctail cs s)) = cseqs cs (nat (ctail cs s))" for s
    by (rule assms(3)) linarith
  have d: "(\<forall>q \<in> A. q < length cs \<and> 0 \<le> ctail cs q \<and> cseqs cs (nat (ctail cs q)) \<subseteq> {q} \<and> (\<forall>s < length cs. s \<noteq> q \<longrightarrow> ctail cs s \<noteq> ctail cs q)) =
     (\<forall>q \<in> A. q < length cs \<and> 0 \<le> ctail cs' q \<and> cseqs cs' (nat (ctail cs' q)) \<subseteq> {q} \<and> (\<forall>s < length cs. s \<noteq> q \<longrightarrow> ctail cs' s \<noteq> ctail cs' q))"
    if w: "\<forall>s < length cs. ctail cs s = -1 \<or> (0 \<le> ctail cs s \<and> ctail cs s < int (length cs) \<and> (s \<in> cseqs cs (nat (ctail cs s)) \<or> s \<in> A))"
  proof (rule ball_cong [OF refl], rule conj_cong [OF refl])
    fix q assume "q \<in> A" "q < length cs"
    then have "ctail cs' q = ctail cs q" "0 \<le> ctail cs q \<Longrightarrow> cseqs cs' (nat (ctail cs q)) = cseqs cs (nat (ctail cs q))"
      using assms(2) n w by auto
    then show "(0 \<le> ctail cs q \<and> cseqs cs (nat (ctail cs q)) \<subseteq> {q} \<and> (\<forall>s < length cs. s \<noteq> q \<longrightarrow> ctail cs s \<noteq> ctail cs q)) =
      (0 \<le> ctail cs' q \<and> cseqs cs' (nat (ctail cs' q)) \<subseteq> {q} \<and> (\<forall>s < length cs. s \<noteq> q \<longrightarrow> ctail cs' s \<noteq> ctail cs' q))"
      using assms(2) by auto
  qed
  have b: "(\<forall>s < length cs. ctail cs s = -1 \<or> (0 \<le> ctail cs s \<and> ctail cs s < int (length cs) \<and> (s \<in> cseqs cs (nat (ctail cs s)) \<or> s \<in> A))) =
    (\<forall>s < length cs. ctail cs' s = -1 \<or> (0 \<le> ctail cs' s \<and> ctail cs' s < int (length cs) \<and> (s \<in> cseqs cs' (nat (ctail cs' s)) \<or> s \<in> A)))"
    using assms(2) n by metis
  have a: "(\<forall>i < length cs. \<forall>s \<in> cseqs cs i. s < length cs \<and> ctail cs s = int i) = (\<forall>i < length cs. \<forall>s \<in> cseqs cs' i. s < length cs \<and> ctail cs' s = int i)"
    using assms(2,3) by metis
  show ?thesis unfolding weak_tails_def assms(1) using a b d by blast
qed

lemma upd_cell_cells [simp]:
  "rm_cells (upd_cell i f m) = (rm_cells m)[i := f (rm_cells m ! i)]" "rm_used (upd_cell i f m) = rm_used m"
  "rm_head (upd_cell i f m) = rm_head m" "rm_rs_idx (upd_cell i f m) = rm_rs_idx m" "rm_n_rs_seq (upd_cell i f m) = rm_n_rs_seq m"
  by (simp_all add: upd_cell_def)

lemma set_rs_idx_cells [simp]: "rm_cells (set_rs_idx s k m) = rm_cells m" "rm_n_rs_seq (set_rs_idx s k m) = rm_n_rs_seq m"
  by (simp_all add: set_rs_idx_def)

section \<open>The position of a sequence\<close>

definition rec_pos :: "mem_cell list \<Rightarrow> nat \<Rightarrow> llama_pos" where
  "rec_pos cs s = (if ctail cs s < 0 then -1 else mc_pos (cs ! nat (ctail cs s)))"

lemma fold_max_member:
  fixes P :: "'a \<Rightarrow> bool" and f :: "'a \<Rightarrow> int"
  shows "r \<le> fold (\<lambda>c r. if P c then max r (f c) else r) cs r \<and>
    (\<forall>c \<in> set cs. P c \<longrightarrow> f c \<le> fold (\<lambda>c r. if P c then max r (f c) else r) cs r) \<and>
    (fold (\<lambda>c r. if P c then max r (f c) else r) cs r = r \<or>
     (\<exists>c \<in> set cs. P c \<and> fold (\<lambda>c r. if P c then max r (f c) else r) cs r = f c))"
proof (induction cs arbitrary: r)
  case (Cons c cs)
  show ?case using Cons.IH [of "if P c then max r (f c) else r"] by (auto simp: max_def split: if_splits)
qed simp

lemma rec_pos_max_eq:
  assumes "weak_tails (rm_cells m) {}" "s < rm_size m"
  shows "rec_seq_pos_max (int s) m = max (-1) (rec_pos (rm_cells m) s)"
proof -
  let ?cs = "rm_cells m"
  note D = tails_okD [OF assms(1)]
  have h: "rec_has (int s) c \<longleftrightarrow> s \<in> mc_seq c" for c by (simp add: rec_has_def)
  let ?R = "rec_seq_pos_max (int s) m"
  have R: "-1 \<le> ?R" "\<forall>c \<in> set ?cs. s \<in> mc_seq c \<longrightarrow> mc_pos c \<le> ?R" "?R = -1 \<or> (\<exists>c \<in> set ?cs. s \<in> mc_seq c \<and> ?R = mc_pos c)"
    using fold_max_member [of "-1" "\<lambda>c. s \<in> mc_seq c" mc_pos ?cs] by (simp_all add: rec_seq_pos_max_def h)
  show ?thesis
  proof (cases "ctail ?cs s < 0")
    case True
    have "s \<notin> mc_seq c" if "c \<in> set ?cs" for c
      using that D(1) True by (auto simp: in_set_conv_nth cseqs_def)
    then show ?thesis using True R(3) by (auto simp: rec_pos_def)
  next
    case False
    let ?t = "nat (ctail ?cs s)"
    have t: "?t < length ?cs" "s \<in> mc_seq (?cs ! ?t)" using D(3) [OF assms(2)] False by (auto simp: cseqs_def)
    then have "mc_pos (?cs ! ?t) \<le> ?R" using R(2) by auto
    moreover have "mc_pos c = mc_pos (?cs ! ?t)" if "c \<in> set ?cs" "s \<in> mc_seq c" for c
      using that D(1) False by (auto simp: in_set_conv_nth cseqs_def)
    ultimately show ?thesis using R(1,3) False by (auto simp: rec_pos_def)
  qed
qed

section \<open>Removal\<close>

text \<open>What the loop of \<open>seq_rm\<close> leaves in each cell.\<close>

definition rm_cell_of :: "int \<Rightarrow> llama_pos \<Rightarrow> llama_pos \<Rightarrow> mem_cell \<Rightarrow> mem_cell" where
  "rm_cell_of s p0 p1 c =
     (if p0 \<le> mc_pos c \<and> mc_pos c < p1 \<and> (s < 0 \<or> rec_has s c) then
        (let c = c\<lparr>mc_seq := (if s < 0 then {} else mc_seq c - {nat s})\<rparr> in if mc_seq c = {} then c\<lparr>mc_pos := -1, mc_src := -1\<rparr> else c)
      else c)"

lemma rm_cell_of_nat:
  "rm_cell_of (int s) p0 p1 c =
     (if p0 \<le> mc_pos c \<and> mc_pos c < p1 \<and> s \<in> mc_seq c then
        (let c = c\<lparr>mc_seq := mc_seq c - {s}\<rparr> in if mc_seq c = {} then c\<lparr>mc_pos := -1, mc_src := -1\<rparr> else c)
      else c)"
  by (simp add: rm_cell_of_def rec_has_def)

lemma rec_rm_cell_cells:
  assumes "i < rm_size m"
  shows "rm_cells (fst (rec_rm_cell s p0 p1 i (m, nh))) = (rm_cells m)[i := rm_cell_of s p0 p1 (rm_cells m ! i)]"
  using assms by (simp add: rec_rm_cell_def Let_def rm_cell_of_def rec_empty_def Diff_eq_empty_iff [THEN iffD2])

lemma fold_rm_cells:
  "i \<le> rm_size m \<Longrightarrow> rm_cells (fst (fold (rec_rm_cell s p0 p1) [0..<i] (m, nh))) =
    map (rm_cell_of s p0 p1) (take i (rm_cells m)) @ drop i (rm_cells m)"
proof (induction i)
  case (Suc i)
  obtain m' nh' where st: "fold (rec_rm_cell s p0 p1) [0..<i] (m, nh) = (m', nh')" by fastforce
  have IH: "rm_cells m' = map (rm_cell_of s p0 p1) (take i (rm_cells m)) @ drop i (rm_cells m)"
    using Suc st by simp
  have i: "i < rm_size m" "i < rm_size m'" using Suc.prems by (simp_all add: IH)
  have "drop i (rm_cells m) = rm_cells m ! i # drop (Suc i) (rm_cells m)" using i(1) by (simp add: Cons_nth_drop_Suc)
  then show ?case
    using rec_rm_cell_cells [OF i(2), of s p0 p1 nh'] i(1)
    by (simp add: st IH nth_append list_update_append take_Suc_conv_app_nth)
qed simp

lemma rec_rm_loop_cells: "rm_cells (rec_rm_loop s p0 p1 m) = map (rm_cell_of s p0 p1) (rm_cells m)"
proof -
  obtain m' nh where st: "fold (rec_rm_cell s p0 p1) [0..<rm_size m] (m, rm_size m) = (m', nh)" by fastforce
  have "rm_cells m' = map (rm_cell_of s p0 p1) (rm_cells m)"
    using fold_rm_cells [of "rm_size m" m s p0 p1 "rm_size m"] st by simp
  then show ?thesis by (simp add: rec_rm_loop_def st)
qed

text \<open>The cells after a granted removal.\<close>

lemma rec_seq_rm_cells:
  assumes "rec_seq_rm (int s) p0 p1 m = (m', True)" "s < rm_size m"
  defines "t \<equiv> ctail (rm_cells m) s" and "p \<equiv> mc_pos (rm_cells m ! nat (ctail (rm_cells m) s))"
  shows "rm_cells m' =
    (if 0 \<le> t \<and> 0 < lo_pos p0 \<and> lo_pos p0 \<le> p \<and> p < hi_pos p1
     then (rm_cells m)[nat t := (rm_cells m ! nat t)\<lparr>mc_pos := lo_pos p0 - 1\<rparr>]
     else map (rm_cell_of (int s) (lo_pos p0) (hi_pos p1))
       (if 0 \<le> t \<and> lo_pos p0 \<le> p \<and> p < hi_pos p1 then (rm_cells m)[s := (rm_cells m ! s)\<lparr>mc_tail := -1\<rparr>] else rm_cells m))"
proof -
  have c: "rm_cells (if b then set_rs_idx (int s) 0 m else m) = rm_cells m" for b by simp
  show ?thesis
    using assms(1,2) unfolding rec_seq_rm_def Let_def t_def p_def ctail_def rec_rollback_def
    by (auto simp: rec_rm_loop_cells split: if_splits)
qed


section \<open>The invariant is kept\<close>

lemma detach_tails:
  assumes "weak_tails cs {}" "s < length cs" "0 \<le> ctail cs s" "length cs' = length cs" "ctail cs' s = -1"
    and "\<And>i. i < length cs \<Longrightarrow> i \<noteq> s \<Longrightarrow> ctail cs' i = ctail cs i"
    and "\<And>i. i < length cs \<Longrightarrow> cseqs cs' i = (if int i = ctail cs s then cseqs cs i - {s} else cseqs cs i)"
  shows "weak_tails cs' {}"
proof (rule tails_okI)
  note D = tails_okD [OF assms(1)]
  fix i r assume i: "i < length cs'" "r \<in> cseqs cs' i"
  then have r: "r \<in> cseqs cs i" "int i = ctail cs s \<Longrightarrow> r \<noteq> s" using assms(4,7) by (auto split: if_splits)
  have "r < length cs" "ctail cs r = int i" using D(1) i(1) r(1) assms(4) by auto
  then show "r < length cs' \<and> ctail cs' r = int i" using r(2) assms(4,6) by (metis)
next
  note D = tails_okD [OF assms(1)]
  fix r assume r: "r < length cs'"
  show "ctail cs' r = -1 \<or> (0 \<le> ctail cs' r \<and> ctail cs' r < int (length cs') \<and> r \<in> cseqs cs' (nat (ctail cs' r)))"
  proof (cases "r = s \<or> ctail cs r < 0")
    case True then show ?thesis using assms(4-6) D(2) r by (metis)
  next
    case False
    then have t: "ctail cs' r = ctail cs r" "ctail cs r < int (length cs)" "r \<in> cseqs cs (nat (ctail cs r))" "r \<noteq> s" "0 \<le> ctail cs r"
      using assms(4,6) D(3) r by auto
    moreover have "nat (ctail cs r) < length cs" using t by linarith
    ultimately show ?thesis using assms(4,7) by auto
  qed
qed

lemma attach_tails:
  assumes "weak_tails cs {}" "s < length cs" "ctail cs s < 0" "t < length cs" "length cs' = length cs" "ctail cs' s = int t"
    and "\<And>i. i < length cs \<Longrightarrow> i \<noteq> s \<Longrightarrow> ctail cs' i = ctail cs i"
    and "\<And>i. i < length cs \<Longrightarrow> cseqs cs' i = (if i = t then insert s (cseqs cs i) else cseqs cs i)"
  shows "weak_tails cs' {}"
proof (rule tails_okI)
  note D = tails_okD [OF assms(1)]
  fix i r assume i: "i < length cs'" "r \<in> cseqs cs' i"
  show "r < length cs' \<and> ctail cs' r = int i"
  proof (cases "r = s")
    case True
    have "s \<notin> cseqs cs i" using D(1) [of i s] i(1) assms(3,5) by auto
    then show ?thesis using True i assms(2,5,6,8) by (auto split: if_splits)
  next
    case False
    then have "r \<in> cseqs cs i" using i assms(5,8) by (auto split: if_splits)
    then show ?thesis using D(1) [of i r] i(1) assms(5,7) False by auto
  qed
next
  note D = tails_okD [OF assms(1)]
  fix r assume r: "r < length cs'"
  show "ctail cs' r = -1 \<or> (0 \<le> ctail cs' r \<and> ctail cs' r < int (length cs') \<and> r \<in> cseqs cs' (nat (ctail cs' r)))"
  proof (cases "r = s")
    case True then show ?thesis using assms(4-6,8) by simp
  next
    case False
    then have t: "ctail cs' r = ctail cs r" using assms(5,7) r by simp
    then show ?thesis using D(2,3) [of r] r assms(5,8) by (cases "ctail cs r < 0") (auto simp: nat_less_iff)
  qed
qed

lemma tails_new [simp]: "tails_ok (rec_new n k r)"
  by (rule tails_okI) (auto simp: rec_new_def ctail_def cseqs_def mem_cell_new_def)

lemma rec_clear_cells: "rm_cells (rec_clear m) = map (\<lambda>c. c\<lparr>mc_pos := -1, mc_seq := {}, mc_src := -1, mc_tail := -1\<rparr>) (rm_cells m)"
proof -
  let ?f = "\<lambda>c. c\<lparr>mc_pos := -1, mc_seq := {}, mc_src := -1, mc_tail := -1\<rparr>"
  have "k \<le> rm_size m \<Longrightarrow> rm_cells (fold (\<lambda>i. upd_cell i ?f) [0..<k] m) = map ?f (take k (rm_cells m)) @ drop k (rm_cells m)" for k
  proof (induction k)
    case (Suc k)
    have "drop k (rm_cells m) = rm_cells m ! k # drop (Suc k) (rm_cells m)" using Suc.prems by (simp add: Cons_nth_drop_Suc)
    then show ?case using Suc by (simp add: nth_append list_update_append take_Suc_conv_app_nth)
  qed simp
  from this [of "rm_size m"] show ?thesis by (simp add: rec_clear_def)
qed

lemma tails_clear: "tails_ok (rec_clear m)"
  by (rule tails_okI) (auto simp: rec_clear_cells ctail_def cseqs_def)

text \<open>A removal touches the tail cell and the tail of its sequence only.\<close>

lemma rm_cell_of_fields [simp]:
  "mc_tail (rm_cell_of (int s) a b c) = mc_tail c"
  "mc_seq (rm_cell_of (int s) a b c) = (if a \<le> mc_pos c \<and> mc_pos c < b then mc_seq c - {s} else mc_seq c)"
  by (auto simp: rm_cell_of_nat Let_def)

lemma tails_seq_rm:
  assumes ok: "tails_ok m" and s: "s < rm_size m" and rm: "rec_seq_rm (int s) p0 p1 m = (m', b)"
  shows "tails_ok m'"
proof (cases b)
  case False
  then have "rm_cells m' = rm_cells m"
    using rm s by (auto simp: rec_seq_rm_def rec_rollback_def Let_def split: if_splits)
  then show ?thesis using ok by simp
next
  case True
  let ?cs = "rm_cells m" and ?a = "lo_pos p0" and ?b = "hi_pos p1"
  let ?t = "ctail ?cs s" and ?p = "mc_pos (?cs ! nat (ctail ?cs s))"
  note D = tails_okD [OF ok]
  have rm': "rec_seq_rm (int s) p0 p1 m = (m', True)" using rm True by simp
  note C = rec_seq_rm_cells [OF rm' s]
  consider (roll) "0 \<le> ?t" "0 < ?a" "?a \<le> ?p" "?p < ?b"
    | (gone) "0 \<le> ?t" "\<not> 0 < ?a" "?a \<le> ?p" "?p < ?b" | (keep) "\<not> (0 \<le> ?t \<and> ?a \<le> ?p \<and> ?p < ?b)"
    by blast
  then show ?thesis
  proof cases
    case roll
    then have "rm_cells m' = ?cs[nat ?t := (?cs ! nat ?t)\<lparr>mc_pos := ?a - 1\<rparr>]" using C by simp
    moreover have "nat ?t < length ?cs" using D(3) [OF s roll(1)] roll(1) by (simp add: nat_less_iff)
    ultimately have "weak_tails (rm_cells m') {} = weak_tails ?cs {}"
      by (intro weak_tails_cong) (auto simp: ctail_def cseqs_def nth_list_update)
    then show ?thesis using ok by simp
  next
    case gone
    then have c: "rm_cells m' = map (rm_cell_of (int s) ?a ?b) (?cs[s := (?cs ! s)\<lparr>mc_tail := -1\<rparr>])" using C by simp
    show ?thesis
    proof (rule detach_tails [OF ok s gone(1)])
      fix i assume i: "i < length ?cs"
      have "s \<in> cseqs ?cs i \<Longrightarrow> int i = ?t" using D(1) i by simp
      moreover have "int i = ?t \<Longrightarrow> mc_pos (?cs ! i) = ?p" by (metis nat_int)
      ultimately show "cseqs (rm_cells m') i = (if int i = ?t then cseqs ?cs i - {s} else cseqs ?cs i)"
        using i s gone by (auto simp: c cseqs_def nth_list_update)
    qed (use s in \<open>auto simp: c ctail_def nth_list_update\<close>)
  next
    case keep
    then have c: "rm_cells m' = map (rm_cell_of (int s) ?a ?b) ?cs" using C by auto
    have "weak_tails (rm_cells m') {} = weak_tails ?cs {}"
    proof (rule weak_tails_cong)
      fix i assume i: "i < length ?cs"
      have "s \<in> cseqs ?cs i \<Longrightarrow> int i = ?t" using D(1) i by simp
      moreover have "int i = ?t \<Longrightarrow> mc_pos (?cs ! i) = ?p" by (metis nat_int)
      ultimately show "cseqs (rm_cells m') i = cseqs ?cs i" using i keep by (auto simp: c cseqs_def)
    qed (auto simp: c ctail_def)
    then show ?thesis using ok by simp
  qed
qed


lemma rec_detach_cells:
  assumes "tails_ok m" "s < rm_size m"
  defines "cs \<equiv> rm_cells m"
  shows "rm_cells (rec_detach s m) =
    (if ctail cs s < 0 then cs
     else (let cs' = cs[nat (ctail cs s) := (cs ! nat (ctail cs s))\<lparr>mc_seq := cseqs cs (nat (ctail cs s)) - {s}\<rparr>];
               cs' = cs'[s := (cs' ! s)\<lparr>mc_tail := -1\<rparr>]
           in if mc_seq (cs' ! nat (ctail cs s)) = {}
              then cs'[nat (ctail cs s) := (cs' ! nat (ctail cs s))\<lparr>mc_pos := -1, mc_src := -1\<rparr>] else cs'))"
  by (auto simp: rec_detach_def Let_def cs_def ctail_def cseqs_def rec_empty_def)

lemma rec_detach_size [simp]: "rm_size (rec_detach s m) = rm_size m"
  by (simp add: rec_detach_def Let_def)

lemma rec_detach_fields:
  assumes "tails_ok m" "s < rm_size m"
  shows "i < rm_size m \<Longrightarrow> ctail (rm_cells (rec_detach s m)) i = (if i = s then -1 else ctail (rm_cells m) i)"
    "i < rm_size m \<Longrightarrow> cseqs (rm_cells (rec_detach s m)) i = (if int i = ctail (rm_cells m) s then cseqs (rm_cells m) i - {s} else cseqs (rm_cells m) i)"
    "i < rm_size m \<Longrightarrow> cseqs (rm_cells m) i \<noteq> {s} \<Longrightarrow> mc_pos (rm_cells (rec_detach s m) ! i) = mc_pos (rm_cells m ! i)"
proof -
  let ?cs = "rm_cells m"
  note D = tails_okD [OF assms(1)]
  have t: "0 \<le> ctail ?cs s \<Longrightarrow> nat (ctail ?cs s) < length ?cs \<and> s \<in> cseqs ?cs (nat (ctail ?cs s))"
    using D(3) [OF assms(2)] by (simp add: nat_less_iff)
  show "i < rm_size m \<Longrightarrow> ctail (rm_cells (rec_detach s m)) i = (if i = s then -1 else ctail (rm_cells m) i)"
    using t assms(2) D(2) [OF assms(2)] unfolding rec_detach_cells [OF assms] Let_def
    by (auto simp: ctail_def nth_list_update)
  show "i < rm_size m \<Longrightarrow> cseqs (rm_cells (rec_detach s m)) i = (if int i = ctail (rm_cells m) s then cseqs (rm_cells m) i - {s} else cseqs (rm_cells m) i)"
    using t assms(2) unfolding rec_detach_cells [OF assms] Let_def
    by (auto simp: cseqs_def nth_list_update)
  show "i < rm_size m \<Longrightarrow> cseqs (rm_cells m) i \<noteq> {s} \<Longrightarrow> mc_pos (rm_cells (rec_detach s m) ! i) = mc_pos (rm_cells m ! i)"
    using t assms(2) unfolding rec_detach_cells [OF assms] Let_def
    by (auto simp: cseqs_def nth_list_update)
qed

lemma tails_detach:
  assumes "tails_ok m" "s < rm_size m"
  shows "tails_ok (rec_detach s m)"
proof (cases "ctail (rm_cells m) s < 0")
  case True then show ?thesis using assms(1) rec_detach_cells [OF assms] by simp
next
  case False
  then show ?thesis
    using detach_tails [OF assms, of "rm_cells (rec_detach s m)"] rec_detach_fields(1,2) [OF assms] assms(2) by simp
qed

lemma rec_detach_pos:
  assumes "tails_ok m" "s < rm_size m" "r < rm_size m"
  shows "rec_pos (rm_cells (rec_detach s m)) r = (if r = s then -1 else rec_pos (rm_cells m) r)"
proof -
  note D = tails_okD [OF assms(1)] and F = rec_detach_fields [OF assms(1,2)]
  have "mc_pos (rm_cells (rec_detach s m) ! nat (ctail (rm_cells m) r)) = mc_pos (rm_cells m ! nat (ctail (rm_cells m) r))"
    if "0 \<le> ctail (rm_cells m) r" "r \<noteq> s"
    using D(3) [OF assms(3) that(1)] that by (intro F(3)) (auto simp: nat_less_iff)
  then show ?thesis using F(1) [OF assms(3)] by (simp add: rec_pos_def)
qed


lemma attach_cells:
  assumes ok: "tails_ok m" and s: "s < rm_size m" "ctail (rm_cells m) s < 0" and t: "t < rm_size m"
  defines "m' \<equiv> upd_cell s (\<lambda>c. c\<lparr>mc_tail := int t\<rparr>) (upd_cell t (\<lambda>c. c\<lparr>mc_seq := insert s (mc_seq c)\<rparr>) m)"
  shows "tails_ok m'" "r < rm_size m \<Longrightarrow> rec_pos (rm_cells m') r = (if r = s then mc_pos (rm_cells m ! t) else rec_pos (rm_cells m) r)"
proof -
  have f: "ctail (rm_cells m') i = (if i = s then int t else ctail (rm_cells m) i)"
    "mc_pos (rm_cells m' ! i) = mc_pos (rm_cells m ! i)"
    "cseqs (rm_cells m') i = (if i = t then insert s (cseqs (rm_cells m) i) else cseqs (rm_cells m) i)" if "i < rm_size m" for i
    using s t that by (auto simp: m'_def ctail_def cseqs_def nth_list_update)
  have len: "rm_size m' = rm_size m" by (simp add: m'_def)
  show "tails_ok m'" by (rule attach_tails [OF ok s t]) (simp_all add: f s len)
  note D = tails_okD [OF ok]
  show "rec_pos (rm_cells m') r = (if r = s then mc_pos (rm_cells m ! t) else rec_pos (rm_cells m) r)" if "r < rm_size m"
    using f(1) [OF that] f(2) [of "nat (ctail (rm_cells m) r)"] f(2) [OF t] D(3) [OF that]
    by (auto simp: rec_pos_def nat_less_iff)
qed

text \<open>A copy: the target sequence takes the position of the source.\<close>

lemma rec_cp_props:
  assumes ok: "tails_ok m" and "src \<noteq> dst" "src < rm_size m" "dst < rm_size m"
  shows "tails_ok (rec_seq_cp (int src) (int dst) p0 p1 m)"
    "r < rm_size m \<Longrightarrow> rec_pos (rm_cells (rec_seq_cp (int src) (int dst) p0 p1 m)) r =
      (if r = dst then rec_pos (rm_cells m) src else rec_pos (rm_cells m) r)"
proof -
  let ?m = "rec_detach dst m"
  let ?t = "ctail (rm_cells ?m) src"
  have d: "tails_ok ?m" "ctail (rm_cells ?m) dst < 0" "rm_size ?m = rm_size m"
    "\<And>r. r < rm_size m \<Longrightarrow> rec_pos (rm_cells ?m) r = (if r = dst then -1 else rec_pos (rm_cells m) r)"
    using tails_detach [OF ok assms(4)] rec_detach_fields(1) [OF ok assms(4)] rec_detach_pos [OF ok assms(4)] assms(4) by auto
  have e: "rec_seq_cp (int src) (int dst) p0 p1 m =
    (if ?t \<ge> 0 then upd_cell dst (\<lambda>c. c\<lparr>mc_tail := int (nat ?t)\<rparr>) (upd_cell (nat ?t) (\<lambda>c. c\<lparr>mc_seq := insert dst (mc_seq c)\<rparr>) ?m) else ?m)"
    using assms(2-4) by (simp add: rec_seq_cp_def Let_def ctail_def)
  have t: "0 \<le> ?t \<Longrightarrow> nat ?t < rm_size ?m" using tails_okD(3) [OF d(1), of src] assms(3) by (simp add: nat_less_iff)
  have p: "?t < 0 \<Longrightarrow> rec_pos (rm_cells ?m) src = -1" "0 \<le> ?t \<Longrightarrow> rec_pos (rm_cells ?m) src = mc_pos (rm_cells ?m ! nat ?t)"
    by (simp_all add: rec_pos_def)
  have e1: "\<not> 0 \<le> ?t \<Longrightarrow> rec_seq_cp (int src) (int dst) p0 p1 m = ?m" using e by simp
  have e2: "0 \<le> ?t \<Longrightarrow> rec_seq_cp (int src) (int dst) p0 p1 m =
    upd_cell dst (\<lambda>c. c\<lparr>mc_tail := int (nat ?t)\<rparr>) (upd_cell (nat ?t) (\<lambda>c. c\<lparr>mc_seq := insert dst (mc_seq c)\<rparr>) ?m)"
    using e by simp
  have s: "dst < rm_size ?m" using assms(4) d(3) by simp
  show "tails_ok (rec_seq_cp (int src) (int dst) p0 p1 m)"
  proof (cases "0 \<le> ?t")
    case True
    show ?thesis unfolding e2 [OF True] by (rule attach_cells(1) [OF d(1) s d(2) t [OF True]])
  qed (simp add: e1 d(1))
  show "rec_pos (rm_cells (rec_seq_cp (int src) (int dst) p0 p1 m)) r =
      (if r = dst then rec_pos (rm_cells m) src else rec_pos (rm_cells m) r)" if r: "r < rm_size m"
  proof (cases "0 \<le> ?t")
    case True
    have "rec_pos (rm_cells (rec_seq_cp (int src) (int dst) p0 p1 m)) r =
      (if r = dst then mc_pos (rm_cells ?m ! nat ?t) else rec_pos (rm_cells ?m) r)"
      unfolding e2 [OF True] by (rule attach_cells(2) [OF d(1) s d(2) t [OF True]]) (simp add: d(3) r)
    then show ?thesis using p(2) [OF True] d(4) [OF r] d(4) [OF assms(3)] assms(2) by simp
  next
    case False
    then show ?thesis using e1 p(1) d(4) [OF r] d(4) [OF assms(3)] assms(2) by simp
  qed
qed


section \<open>Positions left by a removal\<close>

lemma rollback_some: "rec_rollback s t p m = (m', True) \<Longrightarrow> rm_n_rs_seq m \<noteq> 0"
  unfolding rec_rollback_def Let_def by (cases "rm_n_rs_seq m = 0") (simp_all split: if_split_asm)

text \<open>A removal that starts inside a sequence is a rollback.\<close>

lemma rec_seq_rm_roll:
  assumes "s < rm_size m" "0 \<le> ctail (rm_cells m) s" "0 < lo_pos p0"
    "lo_pos p0 \<le> mc_pos (rm_cells m ! nat (ctail (rm_cells m) s))" "mc_pos (rm_cells m ! nat (ctail (rm_cells m) s)) < hi_pos p1"
  shows "rec_seq_rm (int s) p0 p1 m = rec_rollback s (nat (ctail (rm_cells m) s)) (lo_pos p0) m"
proof -
  have "lo_pos p0 \<noteq> 0" using assms(3) by simp
  then show ?thesis using assms unfolding rec_seq_rm_def Let_def ctail_def by simp
qed

lemma rec_seq_rm_pos:
  assumes ok: "tails_ok m" and s: "s < rm_size m" and rm: "rec_seq_rm (int s) p0 p1 m = (m', True)"
    and r: "r < rm_size m"
    and alone: "0 \<le> ctail (rm_cells m) s \<Longrightarrow> rm_n_rs_seq m = 0 \<or> mc_seq (rm_cells m ! nat (ctail (rm_cells m) s)) = {s}"
  shows "rec_pos (rm_cells m') r =
    (let p = rec_pos (rm_cells m) r; a = lo_pos p0; b = hi_pos p1
     in if r \<noteq> s \<or> ctail (rm_cells m) s < 0 \<or> p < a \<or> p \<ge> b then p else if a = 0 then -1 else a - 1)"
proof -
  let ?cs = "rm_cells m" and ?a = "lo_pos p0" and ?b = "hi_pos p1"
  let ?t = "ctail ?cs s" and ?p = "mc_pos (?cs ! nat (ctail ?cs s))"
  note D = tails_okD [OF ok]
  note C = rec_seq_rm_cells [OF rm s]
  have a0: "0 \<le> ?a" by (simp add: lo_pos_def)
  have tb: "0 \<le> ?t \<Longrightarrow> nat ?t < length ?cs" using D(3) [OF s] by (simp add: nat_less_iff)
  have other: "ctail ?cs r \<noteq> ?t" if "r \<noteq> s" "0 \<le> ?t" "mc_seq (?cs ! nat ?t) = {s}"
  proof
    assume e: "ctail ?cs r = ?t"
    then have "r \<in> cseqs ?cs (nat ?t)" using D(3) [OF r] that(2) by simp
    then show False using that(1,3) by (simp add: cseqs_def)
  qed
  consider (roll) "0 \<le> ?t" "0 < ?a" "?a \<le> ?p" "?p < ?b"
    | (gone) "0 \<le> ?t" "\<not> 0 < ?a" "?a \<le> ?p" "?p < ?b" | (keep) "\<not> (0 \<le> ?t \<and> ?a \<le> ?p \<and> ?p < ?b)"
    by blast
  then show ?thesis
  proof cases
    case roll
    have "rm_n_rs_seq m \<noteq> 0" by (rule rollback_some [OF trans [OF rec_seq_rm_roll [OF s roll, symmetric] rm]])
    then have sole: "mc_seq (?cs ! nat ?t) = {s}" using alone [OF roll(1)] by simp
    have c: "rm_cells m' = ?cs[nat ?t := (?cs ! nat ?t)\<lparr>mc_pos := ?a - 1\<rparr>]" using C roll by simp
    have q: "ctail (rm_cells m') r = ctail ?cs r" using tb [OF roll(1)] by (simp add: c ctail_def nth_list_update)
    show ?thesis
    proof (cases "r = s")
      case True
      then have "rec_pos (rm_cells m') r = ?a - 1" using q tb [OF roll(1)] roll(1) by (simp add: rec_pos_def c)
      then show ?thesis using True roll by (simp add: rec_pos_def Let_def)
    next
      case False
      then have "0 \<le> ctail ?cs r \<Longrightarrow> nat ?t \<noteq> nat (ctail ?cs r)" using other [OF False roll(1) sole] roll(1) by auto
      then have "rec_pos (rm_cells m') r = rec_pos ?cs r" using q by (simp add: rec_pos_def c)
      then show ?thesis using False by (simp add: Let_def)
    qed
  next
    case gone
    then have c: "rm_cells m' = map (rm_cell_of (int s) ?a ?b) (?cs[s := (?cs ! s)\<lparr>mc_tail := -1\<rparr>])" using C by simp
    have q: "ctail (rm_cells m') r = (if r = s then -1 else ctail ?cs r)" using r s by (simp add: c ctail_def nth_list_update)
    show ?thesis
    proof (cases "r = s")
      case True
      then show ?thesis using q gone a0 by (simp add: rec_pos_def Let_def)
    next
      case False
      let ?i = "nat (ctail ?cs r)"
      have "mc_pos (rm_cells m' ! ?i) = mc_pos (?cs ! ?i)" if i: "0 \<le> ctail ?cs r"
      proof -
        have "?i < length ?cs" "r \<in> mc_seq (?cs ! ?i)" using D(3) [OF r i] i by (auto simp: nat_less_iff cseqs_def)
        then show ?thesis using s False by (auto simp: c nth_list_update rm_cell_of_nat Let_def)
      qed
      then show ?thesis using q False by (simp add: rec_pos_def Let_def)
    qed
  next
    case keep
    then have c: "rm_cells m' = map (rm_cell_of (int s) ?a ?b) ?cs" using C by auto
    have id: "rm_cell_of (int s) ?a ?b (?cs ! i) = ?cs ! i" if i: "i < length ?cs" for i
    proof (cases "s \<in> cseqs ?cs i")
      case True
      then have "int i = ?t" using D(1) [OF i] by simp
      then have "0 \<le> ?t" "?p = mc_pos (?cs ! i)" by (auto dest: sym)
      then show ?thesis using keep by (auto simp: rm_cell_of_nat)
    qed (simp add: rm_cell_of_nat cseqs_def)
    have "rm_cells m' = ?cs" unfolding c by (rule nth_equalityI) (simp_all add: id)
    then show ?thesis using keep by (auto simp: rec_pos_def Let_def)
  qed
qed


section \<open>Keeping one sequence, shifting positions\<close>

definition keep_cell_of :: "nat \<Rightarrow> nat \<Rightarrow> mem_cell \<Rightarrow> mem_cell" where
  "keep_cell_of s i c =
     (let c = (if i \<noteq> s then c\<lparr>mc_tail := -1\<rparr> else c)
      in if s \<in> mc_seq c then c\<lparr>mc_seq := {s}\<rparr> else c\<lparr>mc_pos := -1, mc_src := -1, mc_seq := {}\<rparr>)"

lemma rec_keep_cell_cells:
  assumes "i < rm_size m"
  shows "rm_cells (fst (rec_keep_cell (int s) i (m, nh))) = (rm_cells m)[i := keep_cell_of s i (rm_cells m ! i)]"
  using assms by (simp add: rec_keep_cell_def Let_def keep_cell_of_def rec_has_def)

lemma rec_keep_cells:
  "rm_cells (rec_seq_keep (int s) m) = map (\<lambda>i. keep_cell_of s i (rm_cells m ! i)) [0..<rm_size m]"
proof -
  have "i \<le> rm_size m \<Longrightarrow> rm_cells (fst (fold (rec_keep_cell (int s)) [0..<i] (m, nh))) =
    map (\<lambda>i. keep_cell_of s i (rm_cells m ! i)) [0..<i] @ drop i (rm_cells m)" for i nh
  proof (induction i)
    case (Suc i)
    obtain m' nh' where st: "fold (rec_keep_cell (int s)) [0..<i] (m, nh) = (m', nh')" by fastforce
    have IH: "rm_cells m' = map (\<lambda>i. keep_cell_of s i (rm_cells m ! i)) [0..<i] @ drop i (rm_cells m)" using Suc st by simp
    have i: "i < rm_size m" "i < rm_size m'" using Suc.prems by (simp_all add: IH)
    have "drop i (rm_cells m) = rm_cells m ! i # drop (Suc i) (rm_cells m)" using i(1) by (simp add: Cons_nth_drop_Suc)
    then show ?case using rec_keep_cell_cells [OF i(2), of s nh'] i(1)
      by (simp add: st IH nth_append list_update_append)
  qed simp
  moreover obtain m' nh where st: "fold (rec_keep_cell (int s)) [0..<rm_size m] (m, rm_size m) = (m', nh)" by fastforce
  ultimately have "rm_cells m' = map (\<lambda>i. keep_cell_of s i (rm_cells m ! i)) [0..<rm_size m]"
    by (metis append_Nil2 drop_all fst_conv order_refl)
  then show ?thesis by (simp add: rec_seq_keep_def st)
qed

lemma rec_keep_props:
  assumes ok: "tails_ok m"
  shows "tails_ok (rec_seq_keep (int s) m)"
    "r < rm_size m \<Longrightarrow> rec_pos (rm_cells (rec_seq_keep (int s) m)) r = (if r = s then rec_pos (rm_cells m) s else -1)"
proof -
  note D = tails_okD [OF ok]
  let ?cs = "rm_cells (rec_seq_keep (int s) m)"
  have f: "ctail ?cs i = (if i = s then ctail (rm_cells m) i else -1)"
    "cseqs ?cs i = (if s \<in> cseqs (rm_cells m) i then {s} else {})"
    "s \<in> cseqs (rm_cells m) i \<Longrightarrow> mc_pos (?cs ! i) = mc_pos (rm_cells m ! i)" if "i < rm_size m" for i
    using that by (auto simp: rec_keep_cells keep_cell_of_def Let_def ctail_def cseqs_def)
  have len: "rm_size (rec_seq_keep (int s) m) = rm_size m" by (simp add: rec_keep_cells)
  show "tails_ok (rec_seq_keep (int s) m)"
  proof (rule tails_okI, goal_cases)
    case (1 i r)
    then have "r = s" "s \<in> cseqs (rm_cells m) i" "i < rm_size m" using f(2) [of i] len by (auto split: if_splits)
    then show ?case using D(1) [of i s] f(1) [of s] len by auto
  next
    case (2 r)
    then have r: "r < rm_size m" using len by simp
    show ?case
    proof (cases "r = s \<and> 0 \<le> ctail (rm_cells m) r")
      case True
      then have "ctail (rm_cells m) r < int (rm_size m)" "r \<in> cseqs (rm_cells m) (nat (ctail (rm_cells m) r))" "nat (ctail (rm_cells m) r) < rm_size m"
        using D(3) [OF r] by (auto simp: nat_less_iff)
      then show ?thesis using True f(1) [OF r] f(2) [of "nat (ctail (rm_cells m) r)"] len by auto
    next
      case False then show ?thesis using f(1) [OF r] D(2) [OF r] by auto
    qed
  qed
  show "rec_pos ?cs r = (if r = s then rec_pos (rm_cells m) s else -1)" if r: "r < rm_size m"
    using f(1) [OF r] f(3) [of "nat (ctail (rm_cells m) r)"] D(3) [OF r] by (auto simp: rec_pos_def nat_less_iff)
qed

text \<open>A shift or a division changes the position of the tail cell.\<close>

lemma rec_change_props:
  assumes ok: "tails_ok m"
  shows "tails_ok (rec_change_pos s p0 p1 f m)"
proof -
  have "weak_tails (rm_cells (rec_change_pos s p0 p1 f m)) {} = weak_tails (rm_cells m) {}"
    by (rule weak_tails_cong) (auto simp: rec_change_pos_def Let_def ctail_def cseqs_def nth_list_update' split: if_splits)
  then show ?thesis using ok by simp
qed

lemma tails_add: "tails_ok m \<Longrightarrow> tails_ok (rec_seq_add s p0 p1 d m)"
  by (simp add: rec_seq_add_def Let_def rec_change_props)

lemma tails_div: "tails_ok m \<Longrightarrow> tails_ok (rec_seq_div s p0 p1 d m)"
  by (simp add: rec_seq_div_def Let_def rec_change_props)


section \<open>The contract of a memory\<close>

definition rec_valid :: "rec_mem \<Rightarrow> nat \<Rightarrow> bool" where
  "rec_valid m s \<longleftrightarrow> s < rm_size m"

definition rec_pos_max :: "rec_mem \<Rightarrow> nat \<Rightarrow> llama_pos" where
  "rec_pos_max m s = rec_seq_pos_max (int s) m"

text \<open>Removal of a tail; \<open>None\<close> when it is refused.\<close>

definition rec_rm_tail :: "nat \<Rightarrow> llama_pos \<Rightarrow> rec_mem \<Rightarrow> rec_mem option" where
  "rec_rm_tail s p m = (case rec_seq_rm (int s) p (-1) m of (m', ok) \<Rightarrow> if ok then Some m' else None)"

lemma rec_seq_rm_size: "rec_seq_rm (int s) p0 p1 m = (m', b) \<Longrightarrow> s < rm_size m \<Longrightarrow> rm_size m' = rm_size m"
proof (cases b)
  case True
  assume "rec_seq_rm (int s) p0 p1 m = (m', b)" "s < rm_size m"
  with rec_seq_rm_cells [of s p0 p1 m m'] True show ?thesis by simp
qed (auto simp: rec_seq_rm_def rec_rollback_def Let_def split: if_splits)

text \<open>The position of the sequence itself after a granted removal, shared cell or not.\<close>

lemma rec_seq_rm_own:
  assumes ok: "tails_ok m" and s: "s < rm_size m" and rm: "rec_seq_rm (int s) p (-1) m = (m', True)" and p: "0 \<le> p"
  shows "rec_pos (rm_cells m') s =
    (if ctail (rm_cells m) s < 0 \<or> rec_pos (rm_cells m) s < p \<or> INT32_MAX \<le> rec_pos (rm_cells m) s then rec_pos (rm_cells m) s else p - 1)"
proof -
  let ?cs = "rm_cells m"
  let ?t = "ctail ?cs s" and ?q = "mc_pos (?cs ! nat (ctail ?cs s))"
  note D = tails_okD [OF ok]
  have lo: "lo_pos p = p" "hi_pos (-1) = INT32_MAX" using p by (simp_all add: lo_pos_def hi_pos_def)
  note C = rec_seq_rm_cells [OF rm s, unfolded lo]
  have tb: "0 \<le> ?t \<Longrightarrow> nat ?t < length ?cs" using D(3) [OF s] by (simp add: nat_less_iff)
  show ?thesis
  proof (cases "0 \<le> ?t \<and> p \<le> ?q \<and> ?q < INT32_MAX")
    case True
    then show ?thesis using C tb s p by (auto simp: rec_pos_def ctail_def nth_list_update')
  next
    case False
    have "rm_cells m' = map (rm_cell_of (int s) p INT32_MAX) ?cs" using C False by auto
    moreover have "rm_cell_of (int s) p INT32_MAX (?cs ! nat ?t) = ?cs ! nat ?t" if "0 \<le> ?t"
      using False that by (auto simp: rm_cell_of_nat)
    ultimately show ?thesis using False tb s by (auto simp: rec_pos_def ctail_def)
  qed
qed

lemma rec_rm_tail_cases:
  assumes "tails_ok m" "rec_valid m s" "0 \<le> p" "rec_rm_tail s p m = Some m'"
  shows "tails_ok m'" "rm_size m' = rm_size m"
    "rec_pos_max m' s = max (-1) (if ctail (rm_cells m) s < 0 \<or> rec_pos (rm_cells m) s < p \<or> INT32_MAX \<le> rec_pos (rm_cells m) s then rec_pos (rm_cells m) s else p - 1)"
    "rec_pos_max m s = max (-1) (rec_pos (rm_cells m) s)"
proof -
  have s: "s < rm_size m" using assms(2) by (simp add: rec_valid_def)
  have rm: "rec_seq_rm (int s) p (-1) m = (m', True)"
    using assms(4) by (cases "rec_seq_rm (int s) p (-1) m") (simp add: rec_rm_tail_def split: if_splits)
  show t: "tails_ok m'" by (rule tails_seq_rm [OF assms(1) s rm])
  show z: "rm_size m' = rm_size m" by (rule rec_seq_rm_size [OF rm s])
  show "rec_pos_max m s = max (-1) (rec_pos (rm_cells m) s)" unfolding rec_pos_max_def by (rule rec_pos_max_eq [OF assms(1) s])
  have "rec_pos_max m' s = max (-1) (rec_pos (rm_cells m') s)" unfolding rec_pos_max_def by (rule rec_pos_max_eq [OF t]) (simp add: z s)
  then show "rec_pos_max m' s = max (-1) (if ctail (rm_cells m) s < 0 \<or> rec_pos (rm_cells m) s < p \<or> INT32_MAX \<le> rec_pos (rm_cells m) s then rec_pos (rm_cells m) s else p - 1)"
    using rec_seq_rm_own [OF assms(1) s rm assms(3)] by simp
qed

interpretation recm: seq_memory tails_ok rec_valid rec_pos_max rec_rm_tail
proof
  fix m s assume "tails_ok m" "rec_valid m s"
  then show "-1 \<le> rec_pos_max m s" by (simp add: rec_pos_max_def rec_valid_def rec_pos_max_eq)
next
  fix m s p m' assume a: "tails_ok m" "rec_valid m s" "0 \<le> p" "rec_rm_tail s p m = Some m'"
  note R = rec_rm_tail_cases [OF a]
  show "tails_ok m'" by (rule R(1))
  show "rec_valid m' t = rec_valid m t" for t by (simp add: rec_valid_def R(2))
  have neg: "ctail (rm_cells m) s < 0 \<Longrightarrow> rec_pos (rm_cells m) s = -1" by (simp add: rec_pos_def)
  show "rec_pos_max m' s \<le> rec_pos_max m s" using R(3,4) neg a(3) by auto
  show "rec_pos_max m' s < p" if "p \<le> INT32_MAX" "rec_pos_max m s < INT32_MAX" using R(3,4) neg a(3) that by auto
qed

end
