(* ===== verification/Recurrent_Slots.thy ===== *)
theory Recurrent_Slots
  imports Recurrent_Ops
begin

text \<open>
  The slot search of the recurrent memory: claiming a cell per row, moving the rows together, placing
  them, and choosing the zeroed state. A search on a consistent memory never fails an assertion.
\<close>

section \<open>Free cells\<close>

text \<open>Empty cells that no claimed sequence owns.\<close>

definition free_cells :: "mem_cell list \<Rightarrow> nat set \<Rightarrow> nat set" where
  "free_cells cs A = {i. i < length cs \<and> cseqs cs i = {} \<and> (\<forall>q \<in> A. ctail cs q \<noteq> int i)}"

lemma seqs_finite:
  assumes "weak_tails cs A" "i < length cs"
  shows "finite (cseqs cs i)"
  by (rule finite_subset [of _ "{..<length cs}"]) (use weak_tailsD(1) [OF assms] in auto)

text \<open>A sequence that does not own a cell leaves a cell free.\<close>

lemma free_cell_exists:
  assumes w: "weak_tails cs A" and q: "q < length cs" "q \<notin> A"
    and own: "ctail cs q = -1 \<or> cseqs cs (nat (ctail cs q)) \<noteq> {q}"
  shows "free_cells cs A \<noteq> {}"
proof
  assume none: "free_cells cs A = {}"
  note W = weak_tailsD [OF w]
  have "\<exists>s < length cs. ctail cs s = int i" if i: "i < length cs" for i
  proof (cases "cseqs cs i = {}")
    case True
    then obtain r where "r \<in> A" "ctail cs r = int i" using none i by (auto simp: free_cells_def)
    then show ?thesis using W(3) by blast
  qed (use W(1) [OF i] in blast)
  then obtain g where g: "\<And>i. i < length cs \<Longrightarrow> g i < length cs \<and> ctail cs (g i) = int i" by metis
  have "inj_on g {..<length cs}" by (rule inj_onI) (metis g lessThan_iff of_nat_eq_iff)
  moreover have "g ` {..<length cs} \<subseteq> {..<length cs}" using g by auto
  ultimately have onto: "g ` {..<length cs} = {..<length cs}" by (simp add: endo_inj_surj)
  have sur: "\<exists>i < length cs. g i = r" if "r < length cs" for r
  proof -
    have "r \<in> g ` {..<length cs}" using onto that by simp
    then show ?thesis by blast
  qed
  have only: "r = q" if "r < length cs" "ctail cs r = ctail cs q" for r
  proof -
    from sur [OF that(1)] sur [OF q(1)] obtain i j where "i < length cs" "g i = r" "j < length cs" "g j = q" by blast
    then show ?thesis using g [of i] g [of j] that(2) by simp
  qed
  obtain i where i: "i < length cs" "g i = q" using sur [OF q(1)] by blast
  then have t: "ctail cs q = int i" using g [OF i(1)] by simp
  then have "q \<in> cseqs cs i" using W(2) [OF q(1)] q(2) by auto
  moreover have "r = q" if "r \<in> cseqs cs i" for r using W(1) [OF i(1) that] t by (intro only) simp_all
  ultimately have "cseqs cs i = {q}" by blast
  then show False using own t by simp
qed

section \<open>The searches for an empty cell\<close>

lemma wrap_mod: "n \<le> e \<Longrightarrow> (e - n + x) mod n = (e + x) mod (n :: nat)"
proof -
  assume "n \<le> e"
  then have "e + x = n + (e - n + x)" by simp
  then show ?thesis by (metis mod_add_self1)
qed

lemma next_empty_from_found:
  assumes "e < 2 * length cs" "d < k" "rec_empty (cs ! ((e + d) mod length cs))" "\<And>d'. d' < d \<Longrightarrow> \<not> rec_empty (cs ! ((e + d') mod length cs))"
  shows "next_empty_from k cs e = (e + d) mod length cs"
  using assms
proof (induction k arbitrary: e d)
  case (Suc k)
  let ?e = "if e \<ge> length cs then e - length cs else e"
  have n: "?e < length cs" "(?e + x) mod length cs = (e + x) mod length cs" for x
    using Suc.prems(1) wrap_mod [of "length cs" e x] by auto
  show ?case
  proof (cases d)
    case 0
    then show ?thesis using Suc.prems(3) n(1) n(2) [of 0] by (simp add: Let_def)
  next
    case (Suc d')
    have "\<not> rec_empty (cs ! ?e)" using Suc.prems(4) [of 0] n(1) n(2) [of 0] Suc by simp
    moreover have "next_empty_from k cs (?e + 1) = (?e + 1 + d') mod length cs"
    proof (rule Suc.IH)
      show "rec_empty (cs ! ((?e + 1 + d') mod length cs))" using Suc.prems(3) n(2) [of "1 + d'"] Suc by (simp add: add.assoc)
      show "\<not> rec_empty (cs ! ((?e + 1 + x) mod length cs))" if "x < d'" for x
        using Suc.prems(4) [of "Suc x"] n(2) [of "1 + x"] that Suc by (simp add: add.assoc)
    qed (use Suc.prems(2) Suc n(1) in linarith)+
    ultimately show ?thesis using n(2) [of "1 + d'"] Suc by (simp add: Let_def add.assoc)
  qed
qed simp

lemma next_empty_after_found:
  assumes "e < length cs" "d < k" "rec_empty (cs ! ((e + 1 + d) mod length cs))" "\<And>d'. d' < d \<Longrightarrow> \<not> rec_empty (cs ! ((e + 1 + d') mod length cs))"
  shows "next_empty_after k cs e = (e + 1 + d) mod length cs"
  using assms
proof (induction k arbitrary: e d)
  case (Suc k)
  let ?e = "if e + 1 \<ge> length cs then e + 1 - length cs else e + 1"
  have n: "?e < length cs" "(?e + x) mod length cs = (e + 1 + x) mod length cs" for x
    using Suc.prems(1) wrap_mod [of "length cs" "e + 1" x] by auto
  show ?case
  proof (cases d)
    case 0
    then show ?thesis using Suc.prems(3) n(1) n(2) [of 0] by (simp add: Let_def)
  next
    case (Suc d')
    have "\<not> rec_empty (cs ! ?e)" using Suc.prems(4) [of 0] n(1) n(2) [of 0] Suc by simp
    moreover have "next_empty_after k cs ?e = (?e + 1 + d') mod length cs"
    proof (rule Suc.IH)
      show "rec_empty (cs ! ((?e + 1 + d') mod length cs))" using Suc.prems(3) n(2) [of "1 + d'"] Suc by (simp add: add.assoc)
      show "\<not> rec_empty (cs ! ((?e + 1 + x) mod length cs))" if "x < d'" for x
        using Suc.prems(4) [of "Suc x"] n(2) [of "1 + x"] that Suc by (simp add: add.assoc)
    qed (use Suc.prems(2) Suc n(1) in linarith)+
    ultimately show ?thesis using n(2) [of "1 + d'"] Suc by (simp add: Let_def add.assoc)
  qed
qed simp


section \<open>The rows of a micro-batch\<close>

lemma distinct_concat_rows:
  assumes "distinct (concat (map f [0..<n]))" "s < s'" "s' < n"
  shows "set (f s) \<inter> set (f s') = {}"
proof -
  have e: "[0..<n] = [0..<s] @ s # [Suc s..<s'] @ s' # [Suc s'..<n]"
    using assms(2,3) upt_add_eq_append [of 0 s "n - s"] upt_add_eq_append [of "Suc s" s' "n - s'"]
    by (simp add: upt_conv_Cons)
  show ?thesis using assms(1) unfolding e by auto
qed

definition rows_ok :: "llama_ubatch \<Rightarrow> nat \<Rightarrow> bool" where
  "rows_ok ub n \<longleftrightarrow> ub_equal_seqs ub \<and> 0 < ub_n_seqs ub \<and> (\<forall>s < ub_n_seqs ub. row_seqs ub s \<noteq> []) \<and>
     distinct (concat (map (row_seqs ub) [0..<ub_n_seqs ub])) \<and> (\<forall>s < ub_n_seqs ub. \<forall>q \<in> set (row_seqs ub s). q < n)"

lemma rows_okD:
  assumes "rows_ok ub n"
  shows "0 < ub_n_seqs ub" "ub_equal_seqs ub"
    "s < ub_n_seqs ub \<Longrightarrow> row_seqs ub s \<noteq> []"
    "s < ub_n_seqs ub \<Longrightarrow> distinct (row_seqs ub s)"
    "s < ub_n_seqs ub \<Longrightarrow> q \<in> set (row_seqs ub s) \<Longrightarrow> q < n"
    "s < ub_n_seqs ub \<Longrightarrow> s' < ub_n_seqs ub \<Longrightarrow> q \<in> set (row_seqs ub s) \<Longrightarrow> q \<in> set (row_seqs ub s') \<Longrightarrow> s = s'"
    "s < ub_n_seqs ub \<Longrightarrow> row_seq0 ub s \<in> set (row_seqs ub s)"
    "s < ub_n_seqs ub \<Longrightarrow> row_seqs ub s = row_seq0 ub s # tl (row_seqs ub s)"
proof -
  note A = assms [unfolded rows_ok_def]
  have d: "distinct (concat (map (row_seqs ub) [0..<ub_n_seqs ub]))" using A by simp
  show "0 < ub_n_seqs ub" "ub_equal_seqs ub" "s < ub_n_seqs ub \<Longrightarrow> row_seqs ub s \<noteq> []"
    "s < ub_n_seqs ub \<Longrightarrow> q \<in> set (row_seqs ub s) \<Longrightarrow> q < n" using A by auto
  show "s < ub_n_seqs ub \<Longrightarrow> distinct (row_seqs ub s)" using d by (auto simp: distinct_concat_iff)
  have neq: "s < s' \<Longrightarrow> s' < ub_n_seqs ub \<Longrightarrow> set (row_seqs ub s) \<inter> set (row_seqs ub s') = {}" for s s'
    using distinct_concat_rows [OF d, of s s'] by simp
  show "s < ub_n_seqs ub \<Longrightarrow> s' < ub_n_seqs ub \<Longrightarrow> q \<in> set (row_seqs ub s) \<Longrightarrow> q \<in> set (row_seqs ub s') \<Longrightarrow> s = s'"
    using neq [of s s'] neq [of s' s] by (cases s s' rule: linorder_cases) auto
  show h: "s < ub_n_seqs ub \<Longrightarrow> row_seqs ub s = row_seq0 ub s # tl (row_seqs ub s)"
    using A by (cases "ub_n_seq_id ub ! row_tok ub s"; cases "ub_seq_id ub ! row_tok ub s") (auto simp: row_seqs_def row_seq0_def)
  show "s < ub_n_seqs ub \<Longrightarrow> row_seq0 ub s \<in> set (row_seqs ub s)" using h by (metis list.set_intros(1))
qed


section \<open>What a sequence sees\<close>

text \<open>Position and source of the state of a sequence.\<close>

definition view :: "mem_cell list \<Rightarrow> nat \<Rightarrow> (llama_pos \<times> int) option" where
  "view cs r = (if ctail cs r < 0 then None else Some (mc_pos (cs ! nat (ctail cs r)), mc_src (cs ! nat (ctail cs r))))"

text \<open>Outside \<open>R\<close> a cell has no source or is its own.\<close>

definition src_ok :: "mem_cell list \<Rightarrow> nat set \<Rightarrow> bool" where
  "src_ok cs R \<longleftrightarrow> (\<forall>i < length cs. i \<notin> R \<longrightarrow> mc_src (cs ! i) = -1 \<or> mc_src (cs ! i) = int i)"

lemma view_pos: "view cs r = view cs' r' \<Longrightarrow> rec_pos cs r = rec_pos cs' r'"
  by (auto simp: view_def rec_pos_def split: if_splits)

lemma rec_detach_src:
  assumes "tails_ok m" "s < rm_size m" "i < rm_size m"
  shows "cseqs (rm_cells m) i \<noteq> {s} \<Longrightarrow> mc_src (rm_cells (rec_detach s m) ! i) = mc_src (rm_cells m ! i)"
    "mc_src (rm_cells (rec_detach s m) ! i) \<in> {-1, mc_src (rm_cells m ! i)}"
proof -
  have t: "0 \<le> ctail (rm_cells m) s \<Longrightarrow> nat (ctail (rm_cells m) s) < rm_size m \<and> s \<in> cseqs (rm_cells m) (nat (ctail (rm_cells m) s))"
    using tails_okD(3) [OF assms(1,2)] by (simp add: nat_less_iff)
  show "cseqs (rm_cells m) i \<noteq> {s} \<Longrightarrow> mc_src (rm_cells (rec_detach s m) ! i) = mc_src (rm_cells m ! i)"
    using t assms(2,3) unfolding rec_detach_cells [OF assms(1,2)] Let_def by (auto simp: cseqs_def nth_list_update')
  show "mc_src (rm_cells (rec_detach s m) ! i) \<in> {-1, mc_src (rm_cells m ! i)}"
    using assms(2,3) unfolding rec_detach_cells [OF assms(1,2)] Let_def by (auto simp: nth_list_update')
qed

lemma detach_src_ok:
  assumes "tails_ok m" "s < rm_size m" "src_ok (rm_cells m) R"
  shows "src_ok (rm_cells (rec_detach s m)) R"
  unfolding src_ok_def
proof (intro allI impI)
  fix i assume i: "i < rm_size (rec_detach s m)" "i \<notin> R"
  then have "mc_src (rm_cells m ! i) = -1 \<or> mc_src (rm_cells m ! i) = int i" using assms(3) by (simp add: src_ok_def)
  then show "mc_src (rm_cells (rec_detach s m) ! i) = -1 \<or> mc_src (rm_cells (rec_detach s m) ! i) = int i"
    using rec_detach_src(2) [OF assms(1,2), of i] i(1) by auto
qed

lemma rec_detach_view:
  assumes "tails_ok m" "s < rm_size m" "r < rm_size m"
  shows "view (rm_cells (rec_detach s m)) r = (if r = s then None else view (rm_cells m) r)"
proof (cases "r = s \<or> ctail (rm_cells m) r < 0")
  case True
  then show ?thesis using rec_detach_fields(1) [OF assms] by (auto simp: view_def)
next
  case False
  let ?i = "nat (ctail (rm_cells m) r)"
  have i: "?i < rm_size m" "r \<in> cseqs (rm_cells m) ?i" using tails_okD(3) [OF assms(1,3)] False by (auto simp: nat_less_iff)
  then have "cseqs (rm_cells m) ?i \<noteq> {s}" using False by auto
  then show ?thesis
    using rec_detach_fields(1) [OF assms] rec_detach_fields(3) [OF assms(1,2) i(1)] rec_detach_src(1) [OF assms(1,2) i(1)] False
    by (simp add: view_def)
qed

text \<open>The first pass: the later ids of each row lose their cells.\<close>

lemma rec_admit_ok:
  assumes "tails_ok m" "src_ok (rm_cells m) {}" "\<forall>(j, s) \<in> set js. s < rm_size m"
  shows "\<exists>m'. rec_admit js m = (m', True) \<and> tails_ok m' \<and> src_ok (rm_cells m') {} \<and> rm_size m' = rm_size m \<and> rm_head m' = rm_head m \<and>
    (\<forall>r < rm_size m. view (rm_cells m') r = (if \<exists>j > 0. (j, r) \<in> set js then None else view (rm_cells m) r))"
  using assms
proof (induction js arbitrary: m)
  case (Cons a js)
  obtain j s where a: "a = (j, s)" by (cases a)
  let ?m = "if j > 0 then rec_detach s m else m"
  have s: "s < rm_size m" using Cons.prems(3) a by auto
  have hd: "rm_head (rec_detach s m) = rm_head m" by (simp add: rec_detach_def Let_def)
  have ok: "tails_ok ?m" "rm_size ?m = rm_size m" "rm_head ?m = rm_head m" using Cons.prems(1) tails_detach [OF Cons.prems(1) s] hd by auto
  have sr: "src_ok (rm_cells ?m) {}"
    using Cons.prems(2) detach_src_ok [OF Cons.prems(1) s] by simp
  have v: "view (rm_cells ?m) r = (if 0 < j \<and> r = s then None else view (rm_cells m) r)" if "r < rm_size m" for r
    using rec_detach_view [OF Cons.prems(1) s that] by auto
  have "\<exists>m'. rec_admit js ?m = (m', True) \<and> tails_ok m' \<and> src_ok (rm_cells m') {} \<and> rm_size m' = rm_size ?m \<and> rm_head m' = rm_head ?m \<and>
    (\<forall>r < rm_size ?m. view (rm_cells m') r = (if \<exists>j > 0. (j, r) \<in> set js then None else view (rm_cells ?m) r))"
    using Cons.prems(3) by (intro Cons.IH [OF ok(1) sr]) (auto simp: ok(2))
  then obtain m' where m': "rec_admit js ?m = (m', True)" "tails_ok m'" "src_ok (rm_cells m') {}" "rm_size m' = rm_size ?m" "rm_head m' = rm_head ?m"
    "\<forall>r < rm_size ?m. view (rm_cells m') r = (if \<exists>j > 0. (j, r) \<in> set js then None else view (rm_cells ?m) r)" by blast
  have "rec_admit (a # js) m = (m', True)" using m'(1) s by (simp add: a)
  moreover have "view (rm_cells m') r = (if \<exists>k > 0. (k, r) \<in> set (a # js) then None else view (rm_cells m) r)" if r: "r < rm_size m" for r
  proof -
    have ex: "(\<exists>k > 0. (k, r) \<in> set (a # js)) \<longleftrightarrow> (0 < j \<and> r = s) \<or> (\<exists>k > 0. (k, r) \<in> set js)" by (auto simp: a)
    have "view (rm_cells m') r = (if \<exists>k > 0. (k, r) \<in> set js then None else view (rm_cells ?m) r)"
      using m'(6) r ok(2) by simp
    moreover define E where "E \<longleftrightarrow> (\<exists>k > 0. (k, r) \<in> set js)"
    ultimately show ?thesis unfolding ex v [OF r] E_def [symmetric] by auto
  qed
  ultimately show ?case using m'(2-5) ok(2,3) by auto
qed simp

lemma admit_ids_set:
  "(j, q) \<in> set (admit_ids ub) \<longleftrightarrow> (\<exists>s < ub_n_seqs ub. j < length (row_seqs ub s) \<and> q = row_seqs ub s ! j)"
  by (auto simp: admit_ids_def in_set_enumerate_eq)


section \<open>Claiming a cell per row\<close>

lemma cyc_inj:
  assumes "(h + x) mod n = (h + y) mod (n :: nat)" "x < n" "y < n"
  shows "x = y"
proof -
  have "x = y" if "x \<le> y" "(h + x) mod n = (h + y) mod n" "y < n" for x y
  proof -
    have "n dvd (h + y) - (h + x)" using that by (metis add_le_cancel_left mod_eq_dvd_iff_nat)
    then show ?thesis using that by (auto dest: dvd_imp_le)
  qed
  then show ?thesis using assms by (cases "x \<le> y") (metis nat_le_linear)+
qed

lemma cyc_surj:
  assumes "j < (n :: nat)"
  shows "\<exists>d < n. (h + d) mod n = j"
proof (intro exI conjI)
  show "(j + (n - h mod n)) mod n < n" using assms by simp
  have "(h + (j + (n - h mod n)) mod n) mod n = (h mod n + (j + (n - h mod n))) mod n" by (simp add: mod_simps)
  also have "h mod n + (j + (n - h mod n)) = j + n"
    using mod_less_divisor [of n h] assms by linarith
  finally show "(h + (j + (n - h mod n)) mod n) mod n = j" using assms by simp
qed

text \<open>\<open>next_empty_cell\<close> is the first free cell in cyclic order, or no cell is free.\<close>

definition search_ok :: "mem_cell list \<Rightarrow> nat set \<Rightarrow> nat \<Rightarrow> bool" where
  "search_ok cs A e \<longleftrightarrow> free_cells cs A = {} \<or>
     (\<exists>h d. d < length cs \<and> e = (h + d) mod length cs \<and> e \<in> free_cells cs A \<and>
        (\<forall>d' < d. (h + d') mod length cs \<notin> free_cells cs A) \<and>
        (\<forall>d'. d \<le> d' \<longrightarrow> d' < length cs \<longrightarrow> cseqs cs ((h + d') mod length cs) = {} \<longrightarrow> (h + d') mod length cs \<in> free_cells cs A))"

lemma search_start:
  assumes "h < 2 * length cs"
  shows "search_ok cs {} (next_empty_from (length cs) cs h)"
proof (cases "free_cells cs {} = {}")
  case False
  let ?n = "length cs"
  define P where "P d \<longleftrightarrow> d < ?n \<and> cseqs cs ((h + d) mod ?n) = {}" for d
  have n: "0 < ?n" using assms by (cases cs) auto
  obtain j where j: "j < ?n" "cseqs cs j = {}" using False by (auto simp: free_cells_def)
  obtain d0 where "d0 < ?n" "(h + d0) mod ?n = j" using cyc_surj [OF j(1)] by blast
  then have "P d0" using j by (simp add: P_def)
  then have L: "P (LEAST d. P d)" "\<And>d'. d' < (LEAST d. P d) \<Longrightarrow> \<not> P d'"
    using LeastI [of P] not_less_Least [of _ P] by blast+
  define y where "y = (LEAST d. P d)"
  have y: "y < ?n" "cseqs cs ((h + y) mod ?n) = {}" "\<And>z. z < y \<Longrightarrow> cseqs cs ((h + z) mod ?n) \<noteq> {}"
    using L by (auto simp: P_def y_def)
  have e: "next_empty_from ?n cs h = (h + y) mod ?n"
    by (rule next_empty_from_found [OF assms]) (use y in \<open>auto simp: rec_empty_def cseqs_def\<close>)
  have fr: "(h + x) mod ?n \<in> free_cells cs {} \<longleftrightarrow> cseqs cs ((h + x) mod ?n) = {}" for x
    using n by (simp add: free_cells_def)
  show ?thesis unfolding search_ok_def e
    by (rule disjI2, rule exI [of _ h], rule exI [of _ y]) (use y in \<open>auto simp: fr\<close>)
qed (simp add: search_ok_def)

lemma search_next:
  assumes ok: "search_ok cs A e" and e: "e \<in> free_cells cs A" and len: "length cs' = length cs"
    and free: "free_cells cs' A' = free_cells cs A - {e}"
    and keep: "\<And>i. i < length cs \<Longrightarrow> i \<noteq> e \<Longrightarrow> cseqs cs' i = {} \<Longrightarrow> cseqs cs i = {}"
  shows "search_ok cs' A' (next_empty_after (length cs) cs' e)"
proof (cases "free_cells cs' A' = {}")
  case False
  let ?n = "length cs"
  obtain h d where hd: "d < ?n" "e = (h + d) mod ?n" "\<And>d'. d' < d \<Longrightarrow> (h + d') mod ?n \<notin> free_cells cs A"
    "\<And>d'. d \<le> d' \<Longrightarrow> d' < ?n \<Longrightarrow> cseqs cs ((h + d') mod ?n) = {} \<Longrightarrow> (h + d') mod ?n \<in> free_cells cs A"
    using ok e by (auto simp: search_ok_def)
  have n: "0 < ?n" using hd(1) by linarith
  define P where "P x \<longleftrightarrow> d < x \<and> x < ?n \<and> cseqs cs' ((h + x) mod ?n) = {}" for x
  obtain j where j: "j \<in> free_cells cs A" "j \<noteq> e" "j < ?n" "cseqs cs' j = {}" using False free len by (auto simp: free_cells_def)
  obtain x where x: "x < ?n" "(h + x) mod ?n = j" using cyc_surj [OF j(3)] by blast
  have "\<not> x < d" "x \<noteq> d" using hd(2,3) x j(1,2) by auto
  then have "P x" using x j(4) by (simp add: P_def)
  then have L: "P (LEAST d. P d)" "\<And>d'. d' < (LEAST d. P d) \<Longrightarrow> \<not> P d'"
    using LeastI [of P] not_less_Least [of _ P] by blast+
  define y where "y = (LEAST d. P d)"
  have y: "d < y" "y < ?n" "cseqs cs' ((h + y) mod ?n) = {}" "\<And>z. d < z \<Longrightarrow> z < y \<Longrightarrow> cseqs cs' ((h + z) mod ?n) \<noteq> {}"
    using L by (auto simp: P_def y_def)
  have shift: "(e + 1 + z) mod ?n = (h + (d + 1 + z)) mod ?n" for z
    by (simp only: hd(2) add.assoc mod_add_left_eq)
  have nx: "next_empty_after ?n cs' e = (e + 1 + (y - d - 1)) mod length cs'"
  proof (rule next_empty_after_found)
    show "e < length cs'" using hd(2) n len by simp
    show "y - d - 1 < ?n" using y(2) by simp
    show "rec_empty (cs' ! ((e + 1 + (y - d - 1)) mod length cs'))"
      using y(1,3) shift [of "y - d - 1"] len by (simp add: rec_empty_def cseqs_def)
    show "\<not> rec_empty (cs' ! ((e + 1 + z) mod length cs'))" if "z < y - d - 1" for z
      using y(4) [of "d + 1 + z"] shift [of z] that len by (simp add: rec_empty_def cseqs_def)
  qed
  have at: "(e + 1 + (y - d - 1)) mod length cs' = (h + y) mod ?n" using shift [of "y - d - 1"] y(1) len by simp
  have ne: "(h + z) mod ?n \<noteq> e" if "z \<noteq> d" "z < ?n" for z using cyc_inj [of h z ?n d] that hd(1,2) by blast
  have later: "(h + z) mod ?n \<in> free_cells cs' A'" if "y \<le> z" "z < ?n" "cseqs cs' ((h + z) mod ?n) = {}" for z
  proof -
    have "z \<noteq> d" using that(1) y(1) by simp
    then have "(h + z) mod ?n \<noteq> e" using ne that(2) by blast
    then show ?thesis using keep [of "(h + z) mod ?n"] hd(4) [of z] that y(1) n free by simp
  qed
  have before: "(h + z) mod ?n \<notin> free_cells cs' A'" if "z < y" for z
  proof (cases "z \<le> d")
    case True then show ?thesis using hd(2,3) free by (cases "z = d") auto
  next
    case False then show ?thesis using y(4) [of z] that len n by (auto simp: free_cells_def)
  qed
  show ?thesis unfolding search_ok_def nx at
    by (rule disjI2, rule exI [of _ h], rule exI [of _ y]) (use y(2,3) later [of y] later before len in auto)
qed (simp add: search_ok_def)


text \<open>Sequence \<open>q\<close> moves to the free cell \<open>e\<close>, from a cell it shares or from none.\<close>

lemma claim_tails:
  assumes w: "weak_tails cs A" and q: "q < length cs" "q \<notin> A" and e: "e \<in> free_cells cs A" and len: "length cs' = length cs"
    and t: "\<And>r. r < length cs \<Longrightarrow> ctail cs' r = (if r = q then int e else ctail cs r)"
    and s: "\<And>i. i < length cs \<Longrightarrow> i \<noteq> e \<Longrightarrow> cseqs cs' i = cseqs cs i - {q}" "cseqs cs' e \<subseteq> {q}"
    and shared: "\<And>i. i < length cs \<Longrightarrow> cseqs cs i \<noteq> {q}"
  shows "weak_tails cs' (insert q A)" "free_cells cs' (insert q A) = free_cells cs A - {e}"
proof -
  note W = weak_tailsD [OF w]
  have e': "e < length cs" "cseqs cs e = {}" "\<And>r. r \<in> A \<Longrightarrow> ctail cs r \<noteq> int e" using e by (auto simp: free_cells_def)
  have no_e: "ctail cs r \<noteq> int e" if "r < length cs" for r using W(2) [OF that] e'(2,3) by fastforce
  have A: "r < length cs" if "r \<in> A" for r using W(3) [OF that] by simp
  have at: "cseqs cs' (nat (ctail cs r)) = cseqs cs (nat (ctail cs r)) - {q}" "nat (ctail cs r) < length cs" "nat (ctail cs r) \<noteq> e"
    if "r < length cs" "0 \<le> ctail cs r" for r
    using s(1) [of "nat (ctail cs r)"] W(2) [OF that(1)] no_e [OF that(1)] that(2) by (auto simp: nat_less_iff)
  show "weak_tails cs' (insert q A)" unfolding weak_tails_def len
  proof (intro conjI allI impI ballI)
    fix i r assume i: "i < length cs" "r \<in> cseqs cs' i"
    show "r < length cs" "ctail cs' r = int i"
      using i s W(1) [OF i(1)] t q(1) by (cases "i = e"; fastforce)+
  next
    fix r assume r: "r < length cs"
    show "ctail cs' r = -1 \<or> 0 \<le> ctail cs' r \<and> ctail cs' r < int (length cs) \<and> (r \<in> cseqs cs' (nat (ctail cs' r)) \<or> r \<in> insert q A)"
      using t [OF r] W(2) [OF r] at [OF r] e'(1) by (cases "r = q") auto
  next
    fix r assume r: "r \<in> insert q A"
    show "r < length cs" using r q A by auto
    show "0 \<le> ctail cs' r" using r t q(1) A W(3) by (cases "r = q") auto
    show "cseqs cs' (nat (ctail cs' r)) \<subseteq> {r}"
      using r t q(1) A W(3) s(2) at by (cases "r = q") auto
    fix x assume x: "x < length cs" "x \<noteq> r"
    show "ctail cs' x \<noteq> ctail cs' r"
    proof (cases "r = q")
      case True then show ?thesis using x t q(1) no_e by auto
    next
      case False
      then have r': "r \<in> A" "r < length cs" using r A by auto
      show ?thesis using t [OF x(1)] t [OF r'(2)] False W(3) [OF r'(1)] x no_e [OF r'(2)] by (cases "x = q") auto
    qed
  qed
  have "i \<in> free_cells cs' (insert q A) \<longleftrightarrow> i \<in> free_cells cs A - {e}" for i
  proof (cases "i < length cs \<and> i \<noteq> e")
    case True
    then have "cseqs cs' i = {} \<longleftrightarrow> cseqs cs i = {}" using s(1) [of i] shared [of i] by auto
    moreover have "(\<forall>r \<in> insert q A. ctail cs' r \<noteq> int i) \<longleftrightarrow> (\<forall>r \<in> A. ctail cs r \<noteq> int i)" using True t q A by auto
    ultimately show ?thesis using True len by (simp add: free_cells_def)
  next
    case False
    then show ?thesis using t [OF q(1)] len by (auto simp: free_cells_def)
  qed
  then show "free_cells cs' (insert q A) = free_cells cs A - {e}" by blast
qed


definition claimed :: "llama_ubatch \<Rightarrow> nat \<Rightarrow> nat set" where
  "claimed ub k = row_seq0 ub ` {..<k}"

definition owned :: "mem_cell list \<Rightarrow> nat set \<Rightarrow> nat set" where
  "owned cs A = {i. \<exists>q \<in> A. ctail cs q = int i}"

definition claim_inv :: "llama_ubatch \<Rightarrow> mem_cell list \<Rightarrow> nat \<Rightarrow> mem_cell list \<Rightarrow> nat \<Rightarrow> int \<Rightarrow> int \<Rightarrow> bool" where
  "claim_inv ub cs0 k cs e mn mx \<longleftrightarrow>
     weak_tails cs (claimed ub k) \<and> length cs = length cs0 \<and>
     (\<forall>q \<in> claimed ub k. mn \<le> ctail cs q \<and> ctail cs q \<le> mx) \<and>
     0 \<le> mn \<and> mn < int (length cs) \<and> 0 \<le> mx \<and> mx < int (length cs) \<and>
     src_ok cs (owned cs (claimed ub k)) \<and>
     (\<forall>r < length cs. r \<notin> claimed ub k \<or> 0 \<le> ctail cs0 r \<longrightarrow> view cs r = view cs0 r) \<and>
     (k < ub_n_seqs ub \<longrightarrow> search_ok cs (claimed ub k) e)"

lemma claimed_Suc: "claimed ub (Suc k) = insert (row_seq0 ub k) (claimed ub k)"
  by (auto simp: claimed_def less_Suc_eq)

lemma claimed_new:
  assumes "rows_ok ub n" "k < ub_n_seqs ub"
  shows "row_seq0 ub k < n" "row_seq0 ub k \<notin> claimed ub k"
proof -
  note R = rows_okD [OF assms(1)]
  show "row_seq0 ub k < n" using R(5,7) assms(2) by blast
  show "row_seq0 ub k \<notin> claimed ub k"
  proof
    assume "row_seq0 ub k \<in> claimed ub k"
    then obtain j where "j < k" "row_seq0 ub k = row_seq0 ub j" by (auto simp: claimed_def)
    then show False using R(6) [of k j "row_seq0 ub k"] R(7) [of k] R(7) [of j] assms(2) by simp
  qed
qed

text \<open>The row owns its cell already.\<close>

lemma claim_own:
  assumes inv: "claim_inv ub cs0 k cs e mn mx" and ok: "rows_ok ub (length cs0)" and k: "k < ub_n_seqs ub"
    and own: "0 \<le> ctail cs (row_seq0 ub k)" "cseqs cs (nat (ctail cs (row_seq0 ub k))) = {row_seq0 ub k}"
  shows "claim_inv ub cs0 (Suc k) cs e (min mn (ctail cs (row_seq0 ub k))) (max mx (ctail cs (row_seq0 ub k)))"
proof -
  let ?q = "row_seq0 ub k" and ?A = "claimed ub k"
  note I = inv [unfolded claim_inv_def]
  have w: "weak_tails cs ?A" and len: "length cs = length cs0" using I by auto
  note W = weak_tailsD [OF w]
  have q: "?q < length cs" "?q \<notin> ?A" using claimed_new [OF ok k] len by auto
  have t: "ctail cs ?q < int (length cs)" using W(2) [OF q(1)] own(1) by simp
  have sole: "ctail cs s \<noteq> ctail cs ?q" if "s < length cs" "s \<noteq> ?q" for s
  proof
    assume e: "ctail cs s = ctail cs ?q"
    then have "s \<in> cseqs cs (nat (ctail cs ?q)) \<or> s \<in> ?A" using W(2) [OF that(1)] own(1) by auto
    moreover have "s \<notin> ?A" using W(3) [of s] q(1) that(2) e by (metis)
    ultimately show False using own(2) that(2) by simp
  qed
  have "weak_tails cs (insert ?q ?A)" using w q(1) own sole unfolding weak_tails_def by auto
  moreover have fr: "free_cells cs (insert ?q ?A) = free_cells cs ?A" using own by (auto simp: free_cells_def)
  moreover have "search_ok cs ?A e" using I k by blast
  then have "search_ok cs (insert ?q ?A) e" unfolding search_ok_def fr .
  moreover have "src_ok cs (owned cs (insert ?q ?A))" using I by (auto simp: src_ok_def owned_def)
  ultimately show ?thesis using I own(1) t by (auto simp: claim_inv_def claimed_Suc)
qed

text \<open>The row gets the free cell \<open>e\<close>; a shared state is referenced, not moved.\<close>

lemma claim_new:
  assumes inv: "claim_inv ub cs0 k cs e mn mx" and ok: "rows_ok ub (length cs0)" and k: "k < ub_n_seqs ub"
    and e: "e \<in> free_cells cs (claimed ub k)" and len': "length cs' = length cs"
    and t: "\<And>r. r < length cs \<Longrightarrow> ctail cs' r = (if r = row_seq0 ub k then int e else ctail cs r)"
    and s: "\<And>i. i < length cs \<Longrightarrow> i \<noteq> e \<Longrightarrow> cseqs cs' i = cseqs cs i - {row_seq0 ub k}" "cseqs cs' e \<subseteq> {row_seq0 ub k}"
    and shared: "\<And>i. i < length cs \<Longrightarrow> cseqs cs i \<noteq> {row_seq0 ub k}"
    and other: "\<And>i. i < length cs \<Longrightarrow> i \<noteq> e \<Longrightarrow> mc_pos (cs' ! i) = mc_pos (cs ! i) \<and> mc_src (cs' ! i) = mc_src (cs ! i)"
    and copy: "0 \<le> ctail cs (row_seq0 ub k) \<Longrightarrow> Some (mc_pos (cs' ! e), mc_src (cs' ! e)) = view cs (row_seq0 ub k)"
  shows "claim_inv ub cs0 (Suc k) cs' (next_empty_after (length cs) cs' e) (min mn (int e)) (max mx (int e))"
proof -
  let ?q = "row_seq0 ub k" and ?A = "claimed ub k"
  note I = inv [unfolded claim_inv_def]
  have w: "weak_tails cs ?A" and len: "length cs = length cs0" using I by auto
  note W = weak_tailsD [OF w]
  have q: "?q < length cs" "?q \<notin> ?A" using claimed_new [OF ok k] len by auto
  have e': "e < length cs" using e by (simp add: free_cells_def)
  note C = claim_tails [OF w q e len' t s shared]
  have A: "r < length cs" if "r \<in> ?A" for r using W(3) [OF that] by simp
  have sr: "src_ok cs' (owned cs' (insert ?q ?A))" unfolding src_ok_def
  proof (intro allI impI)
    fix i assume i: "i < length cs'" "i \<notin> owned cs' (insert ?q ?A)"
    then have ne: "i \<noteq> e" using t [OF q(1)] by (auto simp: owned_def)
    have "i \<notin> owned cs ?A"
    proof
      assume "i \<in> owned cs ?A"
      then obtain r where r: "r \<in> ?A" "ctail cs r = int i" by (auto simp: owned_def)
      then have "ctail cs' r = int i" using t [OF A [OF r(1)]] q(2) by auto
      then show False using i(2) r(1) by (auto simp: owned_def)
    qed
    then show "mc_src (cs' ! i) = -1 \<or> mc_src (cs' ! i) = int i" using I other [of i] ne i(1) len' by (auto simp: src_ok_def)
  qed
  have view': "view cs' r = view cs r" if "r < length cs" "r \<noteq> ?q" for r
  proof (cases "ctail cs r < 0")
    case True then show ?thesis using t [OF that(1)] that(2) by (simp add: view_def)
  next
    case False
    have "nat (ctail cs r) < length cs" using W(2) [OF that(1)] False by (simp add: nat_less_iff)
    moreover have "nat (ctail cs r) \<noteq> e"
    proof
      assume "nat (ctail cs r) = e"
      then show False using W(2) [OF that(1)] False e by (auto simp: free_cells_def)
    qed
    ultimately show ?thesis using other [of "nat (ctail cs r)"] t [OF that(1)] that(2) False by (simp add: view_def)
  qed
  have "view cs' ?q = view cs ?q" if "0 \<le> ctail cs0 ?q"
  proof -
    have v: "view cs ?q = view cs0 ?q" using I q by blast
    then have "0 \<le> ctail cs ?q" using that by (auto simp: view_def split: if_splits)
    then show ?thesis using copy t [OF q(1)] by (simp add: view_def)
  qed
  then have vw: "view cs' r = view cs0 r" if "r < length cs" "r \<notin> insert ?q ?A \<or> 0 \<le> ctail cs0 r" for r
    using view' [OF that(1)] I that q by (cases "r = ?q") auto
  have "search_ok cs' (insert ?q ?A) (next_empty_after (length cs) cs' e)"
  proof (rule search_next [OF _ e len' C(2)])
    show "search_ok cs ?A e" using I k by blast
    show "cseqs cs i = {}" if "i < length cs" "i \<noteq> e" "cseqs cs' i = {}" for i using s(1) [OF that(1,2)] shared [OF that(1)] that(3) by auto
  qed (use s shared in auto)
  then show ?thesis unfolding claim_inv_def claimed_Suc
    using C(1) len' len sr vw I t q A e' by auto
qed


lemma claim_inv_last: "claim_inv ub cs0 k cs e mn mx \<Longrightarrow> \<not> k < ub_n_seqs ub \<Longrightarrow> claim_inv ub cs0 k cs e' mn mx"
  by (simp add: claim_inv_def)

text \<open>The cells after a new claim.\<close>

definition new_claim :: "nat \<Rightarrow> nat \<Rightarrow> mem_cell list \<Rightarrow> mem_cell list" where
  "new_claim q e cs =
     (let t = ctail cs q; c = cs ! nat t;
          cs' = (if t \<ge> 0 then (cs[nat t := c\<lparr>mc_seq := mc_seq c - {q}\<rparr>])[e := (cs ! e)\<lparr>mc_pos := mc_pos c, mc_src := mc_src c, mc_seq := insert q (mc_seq (cs ! e))\<rparr>] else cs)
      in cs'[q := (cs' ! q)\<lparr>mc_tail := int e\<rparr>])"

lemma new_claim_inv:
  assumes inv: "claim_inv ub cs0 k cs e mn mx" and ok: "rows_ok ub (length cs0)" and k: "k < ub_n_seqs ub"
    and e: "e \<in> free_cells cs (claimed ub k)"
    and no: "ctail cs (row_seq0 ub k) = -1 \<or> cseqs cs (nat (ctail cs (row_seq0 ub k))) \<noteq> {row_seq0 ub k}"
  defines "cs' \<equiv> new_claim (row_seq0 ub k) e cs"
  shows "claim_inv ub cs0 (Suc k) cs' (next_empty_after (length cs) cs' e) (min mn (int e)) (max mx (int e))"
    "0 \<le> ctail cs (row_seq0 ub k) \<Longrightarrow> nat (ctail cs (row_seq0 ub k)) \<noteq> e \<and> mc_seq (cs' ! nat (ctail cs (row_seq0 ub k))) \<noteq> {}"
proof -
  let ?q = "row_seq0 ub k"
  let ?t = "ctail cs ?q"
  note I = inv [unfolded claim_inv_def]
  have w: "weak_tails cs (claimed ub k)" and len: "length cs = length cs0" using I by auto
  note W = weak_tailsD [OF w]
  have q: "?q < length cs" "?q \<notin> claimed ub k" using claimed_new [OF ok k] len by auto
  have e': "e < length cs" "mc_seq (cs ! e) = {}" using e by (auto simp: free_cells_def cseqs_def)
  have t: "nat ?t < length cs" "?q \<in> mc_seq (cs ! nat ?t)" "nat ?t \<noteq> e" if "0 \<le> ?t"
    using W(2) [OF q(1)] q(2) that e' by (auto simp: nat_less_iff cseqs_def)
  have qin: "?q \<in> mc_seq (cs ! i) \<Longrightarrow> 0 \<le> ?t \<and> i = nat ?t" if "i < length cs" for i
    using W(1) [OF that] by (auto simp: cseqs_def)
  have sq: "mc_seq (cs' ! i) = (if i = e \<and> 0 \<le> ?t then {?q} else mc_seq (cs ! i) - {?q})" if "i < length cs" for i
    using qin [OF that] t e' q that unfolding cs'_def new_claim_def Let_def by (cases "0 \<le> ?t") (auto simp: nth_list_update')
  show "claim_inv ub cs0 (Suc k) cs' (next_empty_after (length cs) cs' e) (min mn (int e)) (max mx (int e))"
  proof (rule claim_new [OF inv ok k e])
    show "length cs' = length cs" by (simp add: cs'_def new_claim_def Let_def)
    show "ctail cs' r = (if r = ?q then int e else ctail cs r)" if "r < length cs" for r
      using that q e' unfolding cs'_def new_claim_def Let_def by (auto simp: ctail_def nth_list_update')
    show "cseqs cs' i = cseqs cs i - {?q}" if "i < length cs" "i \<noteq> e" for i
      using sq [OF that(1)] that(2) by (simp add: cseqs_def)
    show "cseqs cs' e \<subseteq> {?q}" using sq [OF e'(1)] e'(2) by (auto simp: cseqs_def)
    show "cseqs cs i \<noteq> {?q}" if "i < length cs" for i using no qin [OF that] by (auto simp: cseqs_def)
    show "mc_pos (cs' ! i) = mc_pos (cs ! i) \<and> mc_src (cs' ! i) = mc_src (cs ! i)" if "i < length cs" "i \<noteq> e" for i
      using that unfolding cs'_def new_claim_def Let_def by (simp add: nth_list_update')
    show "Some (mc_pos (cs' ! e), mc_src (cs' ! e)) = view cs ?q" if "0 \<le> ?t"
      using that e' t unfolding cs'_def new_claim_def Let_def view_def by (simp add: nth_list_update')
  qed
  show "nat ?t \<noteq> e \<and> mc_seq (cs' ! nat ?t) \<noteq> {}" if "0 \<le> ?t"
    using sq [OF t(1) [OF that]] t [OF that] no that by (auto simp: cseqs_def)
qed

lemma claim_row_step:
  assumes inv: "claim_inv ub cs0 k (rm_cells m) e mn mx" and ok: "rows_ok ub (length cs0)" and k: "k < ub_n_seqs ub"
  shows "\<exists>m' e' mn' mx'. claim_row ub k (m, e, mn, mx) = Some (m', e', mn', mx') \<and> claim_inv ub cs0 (Suc k) (rm_cells m') e' mn' mx'"
proof -
  let ?q = "row_seq0 ub k" and ?cs = "rm_cells m"
  let ?t = "ctail ?cs ?q"
  note I = inv [unfolded claim_inv_def]
  have w: "weak_tails ?cs (claimed ub k)" and len: "length ?cs = length cs0" using I by auto
  note W = weak_tailsD [OF w]
  have q: "?q < length ?cs" "?q \<notin> claimed ub k" using claimed_new [OF ok k] len by auto
  have t: "nat ?t < length ?cs" "?q \<in> mc_seq (?cs ! nat ?t)" if "0 \<le> ?t"
    using W(2) [OF q(1)] q(2) that by (auto simp: nat_less_iff cseqs_def)
  have tm: "mc_tail (?cs ! ?q) = ?t" by (simp add: ctail_def)
  have card: "card (mc_seq (?cs ! nat ?t)) = 1 \<longleftrightarrow> cseqs ?cs (nat ?t) = {?q}" if "0 \<le> ?t"
    using t(2) [OF that] by (auto simp: card_1_singleton_iff cseqs_def)
  show ?thesis
  proof (cases "0 \<le> ?t \<and> cseqs ?cs (nat ?t) = {?q}")
    case True
    then have "claim_row ub k (m, e, mn, mx) = Some (m, e, min mn ?t, max mx ?t)"
      using t card by (simp add: claim_row_def Let_def tm)
    then show ?thesis using claim_own [OF inv ok k] True by blast
  next
    case False
    have no: "?t = -1 \<or> cseqs ?cs (nat ?t) \<noteq> {?q}" using False W(2) [OF q(1)] by auto
    have "free_cells ?cs (claimed ub k) \<noteq> {}" by (rule free_cell_exists [OF w q no])
    then have e: "e \<in> free_cells ?cs (claimed ub k)" using I k by (auto simp: search_ok_def)
    then have e': "e < length ?cs" "rec_empty (?cs ! e)" by (auto simp: free_cells_def rec_empty_def cseqs_def)
    let ?cs' = "new_claim ?q e ?cs"
    note N = new_claim_inv [OF inv ok k e no]
    let ?m = "m\<lparr>rm_cells := ?cs'\<rparr>"
    have m': "upd_cell ?q (\<lambda>d. d\<lparr>mc_tail := int e\<rparr>)
      (if ?t \<ge> 0 then upd_cell e (\<lambda>d. d\<lparr>mc_pos := mc_pos (?cs ! nat ?t), mc_src := mc_src (?cs ! nat ?t), mc_seq := insert ?q (mc_seq d)\<rparr>)
                       (upd_cell (nat ?t) (\<lambda>d. d\<lparr>mc_seq := mc_seq d - {?q}\<rparr>) m)
       else m) = ?m"
      using N(2) by (simp add: upd_cell_def new_claim_def Let_def)
    have ne: "0 \<le> ?t \<Longrightarrow> \<not> rec_empty (rm_cells (upd_cell e (\<lambda>d. d\<lparr>mc_pos := mc_pos (?cs ! nat ?t), mc_src := mc_src (?cs ! nat ?t), mc_seq := insert ?q (mc_seq d)\<rparr>)
                       (upd_cell (nat ?t) (\<lambda>d. d\<lparr>mc_seq := mc_seq d - {?q}\<rparr>) m)) ! nat ?t)"
      using N(2) t no by (auto simp: rec_empty_def cseqs_def)
    have "claim_row ub k (m, e, mn, mx) =
      Some (?m, (if k + 1 < ub_n_seqs ub then next_empty_after (rm_size m) ?cs' e else e), min mn (int e), max mx (int e))"
      using e' t card no False ne m' len N(2) unfolding claim_row_def Let_def prod.case tm
      by (auto simp: new_claim_def Let_def)
    then show ?thesis using N(1) claim_inv_last [OF N(1)] by (cases "k + 1 < ub_n_seqs ub") auto
  qed
qed


lemma claim_rows_ok:
  assumes "claim_inv ub cs0 k (rm_cells m) e mn mx" "rows_ok ub (length cs0)" "k \<le> ub_n_seqs ub"
  shows "\<exists>m' e' mn' mx'. claim_rows ub [k..<ub_n_seqs ub] (m, e, mn, mx) = Some (m', e', mn', mx') \<and>
    claim_inv ub cs0 (ub_n_seqs ub) (rm_cells m') e' mn' mx'"
  using assms
proof (induction "ub_n_seqs ub - k" arbitrary: k m e mn mx)
  case (Suc x)
  then have k: "k < ub_n_seqs ub" by simp
  from claim_row_step [OF Suc.prems(1,2) k] obtain m' e' mn' mx' where
    c: "claim_row ub k (m, e, mn, mx) = Some (m', e', mn', mx')" "claim_inv ub cs0 (Suc k) (rm_cells m') e' mn' mx'" by blast
  from Suc.hyps(1) [OF _ c(2) Suc.prems(2)] Suc.hyps(2) k show ?case by (simp add: upt_conv_Cons c(1))
qed simp

section \<open>Moving the rows together\<close>

definition swap_ix :: "nat \<Rightarrow> nat \<Rightarrow> nat \<Rightarrow> nat" where
  "swap_ix a b i = (if i = a then b else if i = b then a else i)"

lemma swap_cells_fields:
  assumes "a < rm_size m" "b < rm_size m" "a \<noteq> b"
  shows "rm_size (swap_cells a b m) = rm_size m"
    "r < rm_size m \<Longrightarrow> ctail (rm_cells (swap_cells a b m)) r = swap_tail (int a) (int b) (ctail (rm_cells m) r)"
    "i < rm_size m \<Longrightarrow> cseqs (rm_cells (swap_cells a b m)) i = cseqs (rm_cells m) (swap_ix a b i)"
    "i < rm_size m \<Longrightarrow> mc_pos (rm_cells (swap_cells a b m) ! i) = mc_pos (rm_cells m ! swap_ix a b i)"
    "i < rm_size m \<Longrightarrow> mc_src (rm_cells (swap_cells a b m) ! i) = mc_src (rm_cells m ! swap_ix a b i)"
  using assms by (auto simp: swap_cells_def Let_def ctail_def cseqs_def swap_ix_def nth_list_update')

lemma swap_ix_props [simp]:
  "swap_ix a b (swap_ix a b i) = i" "a < n \<Longrightarrow> b < n \<Longrightarrow> swap_ix a b i < n \<longleftrightarrow> i < (n :: nat)"
  "swap_tail (int a) (int b) (int i) = int (swap_ix a b i)"
  by (auto simp: swap_ix_def swap_tail_def)

lemma swap_ix_inj: "swap_ix a b i = swap_ix a b j \<longleftrightarrow> i = j"
  by (auto simp: swap_ix_def split: if_splits)

lemma swap_tail_neg [simp]: "t < 0 \<Longrightarrow> swap_tail (int a) (int b) t = t"
  by (simp add: swap_tail_def)

lemma swap_view:
  assumes "a < rm_size m" "b < rm_size m" "a \<noteq> b" "r < rm_size m" "ctail (rm_cells m) r < int (rm_size m)"
  shows "view (rm_cells (swap_cells a b m)) r = view (rm_cells m) r"
proof (cases "ctail (rm_cells m) r < 0")
  case True then show ?thesis using swap_cells_fields(2) [OF assms(1-3) assms(4)] by (simp add: view_def)
next
  case False
  then obtain i where i: "ctail (rm_cells m) r = int i" "i < rm_size m" using assms(5) by (metis not_less of_nat_less_iff zero_le_imp_eq_int)
  then have "swap_ix a b i < rm_size m" using assms(1,2) by simp
  then show ?thesis
    using swap_cells_fields(2) [OF assms(1-3) assms(4)] swap_cells_fields(4,5) [OF assms(1-3), of "swap_ix a b i"] i by (simp add: view_def)
qed

lemma swap_tails:
  assumes ab: "a < rm_size m" "b < rm_size m" "a \<noteq> b" and w: "weak_tails (rm_cells m) A"
  shows "weak_tails (rm_cells (swap_cells a b m)) A"
proof -
  note W = weak_tailsD [OF w] and F = swap_cells_fields [OF ab]
  have nn: "swap_tail (int a) (int b) t = -1 \<longleftrightarrow> t = -1" for t by (auto simp: swap_tail_def)
  have cell: "\<exists>i < rm_size m. ctail (rm_cells m) r = int i" if "r < rm_size m" "ctail (rm_cells m) r \<noteq> -1" for r
    using W(2) [OF that] by (metis of_nat_less_iff zero_le_imp_eq_int)
  show ?thesis unfolding weak_tails_def F(1)
  proof (intro conjI allI impI ballI)
    fix i r assume i: "i < rm_size m" "r \<in> cseqs (rm_cells (swap_cells a b m)) i"
    then have "r < rm_size m" "ctail (rm_cells m) r = int (swap_ix a b i)"
      using W(1) [of "swap_ix a b i" r] ab F(3) [OF i(1)] by auto
    then show "r < rm_size m" "ctail (rm_cells (swap_cells a b m)) r = int i" using F(2) by auto
  next
    fix r assume r: "r < rm_size m"
    let ?t = "ctail (rm_cells (swap_cells a b m)) r"
    show "?t = -1 \<or> 0 \<le> ?t \<and> ?t < int (rm_size m) \<and> (r \<in> cseqs (rm_cells (swap_cells a b m)) (nat ?t) \<or> r \<in> A)"
    proof (cases "ctail (rm_cells m) r = -1")
      case True then show ?thesis using F(2) [OF r] nn by simp
    next
      case False
      from cell [OF r False] obtain i where i: "i < rm_size m" "ctail (rm_cells m) r = int i" by blast
      then have "?t = int (swap_ix a b i)" "swap_ix a b i < rm_size m" using F(2) [OF r] ab by auto
      then show ?thesis using F(3) [of "swap_ix a b i"] W(2) [OF r] i by auto
    qed
  next
    fix q assume q: "q \<in> A"
    have q': "q < rm_size m" "ctail (rm_cells m) q \<noteq> -1" using W(3) [OF q] by auto
    from cell [OF q'] obtain i where i: "i < rm_size m" "ctail (rm_cells m) q = int i" by blast
    have t: "ctail (rm_cells (swap_cells a b m)) q = int (swap_ix a b i)" "swap_ix a b i < rm_size m" using F(2) [OF q'(1)] i ab by auto
    show "q < rm_size m" by (rule q'(1))
    show "0 \<le> ctail (rm_cells (swap_cells a b m)) q" by (simp add: t)
    show "cseqs (rm_cells (swap_cells a b m)) (nat (ctail (rm_cells (swap_cells a b m)) q)) \<subseteq> {q}"
      using F(3) [OF t(2)] W(3) [OF q] i t by simp
    fix s assume s: "s < rm_size m" "s \<noteq> q"
    show "ctail (rm_cells (swap_cells a b m)) s \<noteq> ctail (rm_cells (swap_cells a b m)) q"
    proof (cases "ctail (rm_cells m) s = -1")
      case True then show ?thesis using F(2) [OF s(1)] t nn by simp
    next
      case False
      from cell [OF s(1) False] obtain j where j: "j < rm_size m" "ctail (rm_cells m) s = int j" by blast
      have "ctail (rm_cells m) s \<noteq> ctail (rm_cells m) q" using W(3) [OF q] s by blast
      then show ?thesis using F(2) [OF s(1)] t j i by (simp add: swap_ix_inj)
    qed
  qed
qed

end
