(* ===== verification/Recurrent_Find.thy ===== *)
theory Recurrent_Find
  imports Recurrent_Slots
begin

text \<open>
  \<open>find_slot\<close> and \<open>prepare\<close> of the recurrent memory: what a search leaves for every sequence, the
  states reached by the operations, and the removal that the cells survive but the search does not.
\<close>

section \<open>The gathered rows\<close>

definition gather_inv :: "llama_ubatch \<Rightarrow> mem_cell list \<Rightarrow> nat \<Rightarrow> nat \<Rightarrow> nat \<Rightarrow> mem_cell list \<Rightarrow> bool" where
  "gather_inv ub cs0 mn mx k cs \<longleftrightarrow>
     weak_tails cs (claimed ub (ub_n_seqs ub)) \<and> length cs = length cs0 \<and> mx < length cs \<and>
     (\<forall>q \<in> claimed ub (ub_n_seqs ub). int mn \<le> ctail cs q \<and> ctail cs q \<le> int mx) \<and>
     (\<forall>s < k. ctail cs (row_seq0 ub s) = int (mn + s)) \<and> src_ok cs {mn..mx} \<and>
     (\<forall>r < length cs. view cs r = view cs0 r)"

lemma row_claimed: "s < ub_n_seqs ub \<Longrightarrow> row_seq0 ub s \<in> claimed ub (ub_n_seqs ub)"
  by (simp add: claimed_def)

lemma row_seq0_inj:
  assumes "rows_ok ub n" "s < ub_n_seqs ub" "s' < ub_n_seqs ub" "row_seq0 ub s = row_seq0 ub s'"
  shows "s = s'"
  using rows_okD(6) [OF assms(1-3)] rows_okD(7) [OF assms(1,2)] rows_okD(7) [OF assms(1,3)] assms(4) by metis

text \<open>The claimed cells are distinct, so the range has room for all rows.\<close>

lemma rows_fit:
  assumes w: "weak_tails cs (claimed ub (ub_n_seqs ub))" and ok: "rows_ok ub (length cs)"
    and b: "\<forall>q \<in> claimed ub (ub_n_seqs ub). int mn \<le> ctail cs q \<and> ctail cs q \<le> int mx"
  shows "mn + ub_n_seqs ub \<le> mx + 1"
proof -
  let ?f = "\<lambda>s. nat (ctail cs (row_seq0 ub s))"
  note W = weak_tailsD(3) [OF w]
  have "inj_on ?f {..<ub_n_seqs ub}"
  proof (rule inj_onI)
    fix s s' assume s: "s \<in> {..<ub_n_seqs ub}" "s' \<in> {..<ub_n_seqs ub}" "?f s = ?f s'"
    have c: "row_seq0 ub s \<in> claimed ub (ub_n_seqs ub)" "row_seq0 ub s' \<in> claimed ub (ub_n_seqs ub)" using s by (auto simp: row_claimed)
    have "ctail cs (row_seq0 ub s) = ctail cs (row_seq0 ub s')" using s(3) W [OF c(1)] W [OF c(2)] by (simp add: eq_nat_nat_iff)
    then have "row_seq0 ub s = row_seq0 ub s'" using W [OF c(1)] W [OF c(2)] by metis
    then show "s = s'" using row_seq0_inj [OF ok] s by auto
  qed
  moreover have "?f ` {..<ub_n_seqs ub} \<subseteq> {mn..mx}" 
  proof
    fix i assume "i \<in> ?f ` {..<ub_n_seqs ub}"
    then obtain s where "s < ub_n_seqs ub" "i = ?f s" by blast
    then show "i \<in> {mn..mx}" using b row_claimed [of s ub] by force
  qed
  ultimately have "ub_n_seqs ub \<le> card {mn..mx}" by (metis card_image card_lessThan card_mono finite_atLeastAtMost)
  then show ?thesis using rows_okD(1) [OF ok] by simp
qed

lemma gather_step:
  assumes inv: "gather_inv ub cs0 mn mx k (rm_cells m)" and ok: "rows_ok ub (length cs0)" and k: "k < ub_n_seqs ub"
    and a: "ctail (rm_cells m) (row_seq0 ub k) = int a" "a \<noteq> k + mn"
  shows "a < rm_size m" "k + mn < rm_size m" "gather_inv ub cs0 mn mx (Suc k) (rm_cells (swap_cells a (k + mn) m))"
proof -
  let ?cs = "rm_cells m" and ?C = "claimed ub (ub_n_seqs ub)" and ?b = "k + mn"
  let ?cs' = "rm_cells (swap_cells a ?b m)"
  note I = inv [unfolded gather_inv_def]
  have w: "weak_tails ?cs ?C" and len: "length ?cs = length cs0" and mx: "mx < length ?cs" using I by auto
  have b: "\<forall>q \<in> ?C. int mn \<le> ctail ?cs q \<and> ctail ?cs q \<le> int mx" using I by blast
  note W = weak_tailsD [OF w]
  have fit: "mn + ub_n_seqs ub \<le> mx + 1" using rows_fit [OF w _ b] ok len by simp
  have ab: "mn \<le> a" "a \<le> mx" "mn \<le> ?b" "?b \<le> mx" using b row_claimed [OF k] a(1) fit k by fastforce+
  then show l: "a < rm_size m" "?b < rm_size m" using mx by auto
  note F = swap_cells_fields [OF l a(2)]
  have ix: "swap_ix a ?b i \<in> {mn..mx} \<longleftrightarrow> i \<in> {mn..mx}" for i using ab by (auto simp: swap_ix_def)
  have tl: "\<exists>i. i \<in> {mn..mx} \<and> ctail ?cs q = int i \<and> ctail ?cs' q = int (swap_ix a ?b i)" if q: "q \<in> ?C" for q
  proof -
    obtain i where i: "ctail ?cs q = int i" using W(3) [OF q] zero_le_imp_eq_int by blast
    have "ctail ?cs' q = int (swap_ix a ?b i)" using F(2) [of q] W(3) [OF q] unfolding i swap_ix_props(3) by blast
    then show ?thesis using i b q by auto
  qed
  have rng: "int mn \<le> ctail ?cs' q \<and> ctail ?cs' q \<le> int mx" if "q \<in> ?C" for q
    using tl [OF that] ix by (metis atLeastAtMost_iff of_nat_le_iff)
  have at: "ctail ?cs' (row_seq0 ub s) = int (mn + s)" if "s < Suc k" for s
  proof (cases "s = k")
    case True
    have "row_seq0 ub k < rm_size m" using W(3) [OF row_claimed [OF k]] by simp
    then have "ctail ?cs' (row_seq0 ub k) = int (swap_ix a ?b a)" using F(2) unfolding a(1) [symmetric] by (metis a(1) swap_ix_props(3))
    then show ?thesis using True by (simp add: swap_ix_def)
  next
    case False
    then have s: "s < k" "s < ub_n_seqs ub" using that k by auto
    have e: "ctail ?cs (row_seq0 ub s) = int (mn + s)" using I s(1) by blast
    have r: "row_seq0 ub s < rm_size m" using W(3) [OF row_claimed [OF s(2)]] by simp
    have "row_seq0 ub s \<noteq> row_seq0 ub k" using row_seq0_inj [OF ok s(2) k] s(1) by auto
    then have "ctail ?cs (row_seq0 ub s) \<noteq> int a" using W(3) [OF row_claimed [OF k]] r a(1) by metis
    then have "mn + s \<noteq> a" using e by auto
    then have "swap_ix a ?b (mn + s) = mn + s" using s(1) by (simp add: swap_ix_def)
    then show ?thesis using F(2) [OF r] unfolding e swap_ix_props(3) by simp
  qed
  have sr: "src_ok ?cs' {mn..mx}" unfolding src_ok_def F(1)
  proof (intro allI impI)
    fix i assume i: "i < rm_size m" "i \<notin> {mn..mx}"
    have "swap_ix a ?b i = i" using i ab by (auto simp: swap_ix_def)
    then show "mc_src (?cs' ! i) = -1 \<or> mc_src (?cs' ! i) = int i" using F(5) [OF i(1)] I i by (simp add: src_ok_def)
  qed
  have vw: "view ?cs' r = view cs0 r" if r: "r < rm_size m" for r
  proof -
    have "ctail ?cs r < int (rm_size m)" using W(2) [OF r] by (cases "ctail ?cs r = -1") auto
    then show ?thesis using swap_view [OF l a(2) r] I r by simp
  qed
  show "gather_inv ub cs0 mn mx (Suc k) ?cs'"
    unfolding gather_inv_def F(1) using swap_tails [OF l a(2) w] len mx rng at sr vw by blast
qed

lemma gather_rows_ok:
  assumes "gather_inv ub cs0 mn mx k (rm_cells m)" "rows_ok ub (length cs0)" "k \<le> ub_n_seqs ub"
  shows "\<exists>m'. gather_rows ub mn [k..<ub_n_seqs ub] m = Some m' \<and> gather_inv ub cs0 mn mx (ub_n_seqs ub) (rm_cells m')"
  using assms
proof (induction "ub_n_seqs ub - k" arbitrary: k m)
  case (Suc x)
  then have k: "k < ub_n_seqs ub" by simp
  note I = Suc.prems(1) [unfolded gather_inv_def]
  have w: "weak_tails (rm_cells m) (claimed ub (ub_n_seqs ub))" using I by blast
  obtain a where a: "ctail (rm_cells m) (row_seq0 ub k) = int a" using weak_tailsD(3) [OF w row_claimed [OF k]] zero_le_imp_eq_int by blast
  show ?case
  proof (cases "a = k + mn")
    case True
    then have "gather_inv ub cs0 mn mx (Suc k) (rm_cells m)" using Suc.prems(1) a by (auto simp: gather_inv_def less_Suc_eq)
    from Suc.hyps(1) [OF _ this Suc.prems(2)] Suc.hyps(2) k show ?thesis using a True by (simp add: upt_conv_Cons ctail_def Let_def)
  next
    case False
    note G = gather_step [OF Suc.prems(1,2) k a False]
    have "gather_rows ub mn [k..<ub_n_seqs ub] m = gather_rows ub mn [Suc k..<ub_n_seqs ub] (swap_cells a (k + mn) m)"
      using G(1,2) a False k by (simp add: upt_conv_Cons ctail_def Let_def)
    with Suc.hyps(1) [OF _ G(3) Suc.prems(2)] Suc.hyps(2) k show ?thesis by simp
  qed
qed simp


section \<open>Placing the rows\<close>

definition row_last :: "llama_ubatch \<Rightarrow> nat \<Rightarrow> llama_pos" where
  "row_last ub s = ub_pos ub ! (row_tok ub s + ub_n_seq_tokens ub - 1)"

lemma fold_members:
  fixes m :: rec_mem
  assumes "d < rm_size m"
  defines "F \<equiv> \<lambda>qs. fold (\<lambda>q m. upd_cell q (\<lambda>c. c\<lparr>mc_tail := int d\<rparr>) (upd_cell d (\<lambda>c. c\<lparr>mc_seq := insert q (mc_seq c)\<rparr>) m)) qs m"
  shows "rm_size (F qs) = rm_size m \<and>
    (\<forall>r < rm_size m. ctail (rm_cells (F qs)) r = (if r \<in> set qs then int d else ctail (rm_cells m) r)) \<and>
    (\<forall>i < rm_size m. cseqs (rm_cells (F qs)) i = (if i = d then set qs \<union> cseqs (rm_cells m) i else cseqs (rm_cells m) i)) \<and>
    (\<forall>i < rm_size m. mc_pos (rm_cells (F qs) ! i) = mc_pos (rm_cells m ! i) \<and> mc_src (rm_cells (F qs) ! i) = mc_src (rm_cells m ! i))"
proof (induction qs rule: rev_induct)
  case Nil show ?case by (simp add: F_def)
next
  case (snoc q qs)
  have e: "F (qs @ [q]) = upd_cell q (\<lambda>c. c\<lparr>mc_tail := int d\<rparr>) (upd_cell d (\<lambda>c. c\<lparr>mc_seq := insert q (mc_seq c)\<rparr>) (F qs))"
    by (simp add: F_def)
  show ?case using snoc assms(1) unfolding e by (auto simp: ctail_def cseqs_def nth_list_update')
qed

lemma place_row_fields:
  assumes "s + mn < rm_size m"
  shows "rm_size (place_row ub mn s m) = rm_size m"
    "r < rm_size m \<Longrightarrow> ctail (rm_cells (place_row ub mn s m)) r = (if r \<in> set (row_seqs ub s) then int (s + mn) else ctail (rm_cells m) r)"
    "i < rm_size m \<Longrightarrow> cseqs (rm_cells (place_row ub mn s m)) i = (if i = s + mn then set (row_seqs ub s) else cseqs (rm_cells m) i)"
    "i < rm_size m \<Longrightarrow> mc_pos (rm_cells (place_row ub mn s m) ! i) = (if i = s + mn then row_last ub s else mc_pos (rm_cells m ! i))"
    "i < rm_size m \<Longrightarrow> mc_src (rm_cells (place_row ub mn s m) ! i) = mc_src (rm_cells m ! i)"
proof -
  let ?m = "upd_cell (s + mn) (\<lambda>c. c\<lparr>mc_pos := row_last ub s, mc_seq := {}\<rparr>) m"
  have b: "s + mn < rm_size ?m" using assms by simp
  note F = fold_members [OF b, of "row_seqs ub s"]
  have e: "place_row ub mn s m = fold (\<lambda>q m. upd_cell q (\<lambda>c. c\<lparr>mc_tail := int (s + mn)\<rparr>)
    (upd_cell (s + mn) (\<lambda>c. c\<lparr>mc_seq := insert q (mc_seq c)\<rparr>) m)) (row_seqs ub s) ?m"
    by (simp add: place_row_def Let_def row_last_def)
  have g: "rm_size ?m = rm_size m" "ctail (rm_cells ?m) r = ctail (rm_cells m) r" if "r < rm_size m" for r
    using that by (auto simp: ctail_def nth_list_update')
  show "rm_size (place_row ub mn s m) = rm_size m" using F unfolding e by simp
  show "r < rm_size m \<Longrightarrow> ctail (rm_cells (place_row ub mn s m)) r = (if r \<in> set (row_seqs ub s) then int (s + mn) else ctail (rm_cells m) r)"
    using F g(2) unfolding e by simp
  show "i < rm_size m \<Longrightarrow> cseqs (rm_cells (place_row ub mn s m)) i = (if i = s + mn then set (row_seqs ub s) else cseqs (rm_cells m) i)"
    using F assms unfolding e by (auto simp: cseqs_def nth_list_update')
  show "i < rm_size m \<Longrightarrow> mc_pos (rm_cells (place_row ub mn s m) ! i) = (if i = s + mn then row_last ub s else mc_pos (rm_cells m ! i))"
    "i < rm_size m \<Longrightarrow> mc_src (rm_cells (place_row ub mn s m) ! i) = mc_src (rm_cells m ! i)"
    using F assms unfolding e by (auto simp: nth_list_update')
qed


definition in_rows :: "llama_ubatch \<Rightarrow> nat \<Rightarrow> bool" where
  "in_rows ub r \<longleftrightarrow> (\<exists>s < ub_n_seqs ub. r \<in> set (row_seqs ub s))"

definition place_inv :: "llama_ubatch \<Rightarrow> mem_cell list \<Rightarrow> nat \<Rightarrow> nat \<Rightarrow> mem_cell list \<Rightarrow> bool" where
  "place_inv ub cs0 mn k cs \<longleftrightarrow>
     weak_tails cs (row_seq0 ub ` {k..<ub_n_seqs ub}) \<and> length cs = length cs0 \<and>
     (\<forall>s \<in> {k..<ub_n_seqs ub}. ctail cs (row_seq0 ub s) = int (s + mn) \<and> (\<forall>q \<in> set (tl (row_seqs ub s)). ctail cs q = -1)) \<and>
     (\<forall>s < k. (\<forall>q \<in> set (row_seqs ub s). ctail cs q = int (s + mn)) \<and> cseqs cs (s + mn) = set (row_seqs ub s) \<and> mc_pos (cs ! (s + mn)) = row_last ub s) \<and>
     (\<forall>i < length cs. mc_src (cs ! i) = mc_src (cs0 ! i)) \<and>
     (\<forall>r < length cs. \<not> in_rows ub r \<longrightarrow> view cs r = view cs0 r)"

lemma place_step:
  assumes inv: "place_inv ub cs0 mn k (rm_cells m)" and ok: "rows_ok ub (length cs0)" and k: "k < ub_n_seqs ub"
    and fit: "mn + ub_n_seqs ub \<le> length cs0"
  shows "place_inv ub cs0 mn (Suc k) (rm_cells (place_row ub mn k m))"
proof -
  let ?cs = "rm_cells m" and ?d = "k + mn" and ?q = "row_seq0 ub k" and ?S = "set (row_seqs ub k)"
  let ?A = "row_seq0 ub ` {k..<ub_n_seqs ub}" and ?cs' = "rm_cells (place_row ub mn k m)"
  note I = inv [unfolded place_inv_def] and R = rows_okD [OF ok]
  have w: "weak_tails ?cs ?A" and len: "length ?cs = length cs0" using I by auto
  note W = weak_tailsD [OF w]
  have d: "?d < rm_size m" using fit k len by simp
  note F = place_row_fields [OF d, where ub = ub]
  have q: "ctail ?cs ?q = int ?d" "?q \<in> ?A" "?q < rm_size m" using I k R(5) [OF k R(7) [OF k]] len by auto
  have S: "r \<in> ?S \<Longrightarrow> r < rm_size m" for r using R(5) [OF k] len by simp
  have Sq: "r = ?q \<or> ctail ?cs r = -1" if "r \<in> ?S" for r
    using that R(8) [OF k] I k by (metis atLeastLessThan_iff order_refl set_ConsD)
  have alone: "ctail ?cs r \<noteq> int ?d" if "r < rm_size m" "r \<noteq> ?q" for r using W(3) [OF q(2)] q(1) that by metis
  have rest: "row_seq0 ub ` {Suc k..<ub_n_seqs ub} = ?A - {?q}"
  proof -
    have "{k..<ub_n_seqs ub} = insert k {Suc k..<ub_n_seqs ub}" using k by auto
    moreover have "?q \<notin> row_seq0 ub ` {Suc k..<ub_n_seqs ub}" using row_seq0_inj [OF ok k] by fastforce
    ultimately show ?thesis by auto
  qed
  have offS: "r \<notin> ?S" if "s < ub_n_seqs ub" "s \<noteq> k" "r \<in> set (row_seqs ub s)" for r s using R(6) [OF that(1) k that(3)] that(2) by blast
  have elsewhere: "nat (ctail ?cs r) \<noteq> ?d \<and> nat (ctail ?cs r) < rm_size m" if "r < rm_size m" "r \<noteq> ?q" "ctail ?cs r \<noteq> -1" for r
    using W(2) [OF that(1,3)] alone [OF that(1,2)] by auto
  have "weak_tails ?cs' (?A - {?q})" unfolding weak_tails_def F(1)
  proof (intro conjI allI impI ballI)
    fix i r assume i: "i < rm_size m" "r \<in> cseqs ?cs' i"
    have "r < rm_size m \<and> ctail ?cs' r = int i"
    proof (cases "i = ?d")
      case True then show ?thesis using i F(2,3) S by auto
    next
      case False
      then have r: "r < rm_size m" "ctail ?cs r = int i" using i F(3) W(1) by auto
      then have "r \<notin> ?S" using Sq [of r] q(1) False by fastforce
      then show ?thesis using r F(2) by simp
    qed
    then show "r < rm_size m" "ctail ?cs' r = int i" by auto
  next
    fix r assume r: "r < rm_size m"
    show "ctail ?cs' r = -1 \<or> 0 \<le> ctail ?cs' r \<and> ctail ?cs' r < int (rm_size m) \<and> (r \<in> cseqs ?cs' (nat (ctail ?cs' r)) \<or> r \<in> ?A - {?q})"
    proof (cases "r \<in> ?S")
      case True then show ?thesis using F(2) [OF r] F(3) [OF d] d by (simp add: nat_int_add)
    next
      case False
      then have ne: "r \<noteq> ?q" using R(7) [OF k] by auto
      show ?thesis
      proof (cases "ctail ?cs r = -1")
        case True then show ?thesis using F(2) [OF r] False by simp
      next
        case nz: False
        then show ?thesis using F(2) [OF r] False F(3) [of "nat (ctail ?cs r)"] elsewhere [OF r ne nz] W(2) [OF r nz] ne by auto
      qed
    qed
  next
    fix r assume r: "r \<in> ?A - {?q}"
    then have "r \<in> row_seq0 ub ` {Suc k..<ub_n_seqs ub}" unfolding rest .
    then obtain s where "s \<in> {Suc k..<ub_n_seqs ub}" "r = row_seq0 ub s" by blast
    then have s: "k < s" "s < ub_n_seqs ub" "r = row_seq0 ub s" by auto
    have W3: "r < rm_size m" "0 \<le> ctail ?cs r" "cseqs ?cs (nat (ctail ?cs r)) \<subseteq> {r}" "\<forall>x < rm_size m. x \<noteq> r \<longrightarrow> ctail ?cs x \<noteq> ctail ?cs r"
      using W(3) [of r] r by auto
    have rS: "r \<notin> ?S" using offS [OF s(2) _ R(7) [OF s(2)]] s by simp
    have t: "ctail ?cs' r = ctail ?cs r" using F(2) [OF W3(1)] rS by simp
    show "r < rm_size m" "0 \<le> ctail ?cs' r" using W3 t by auto
    show "cseqs ?cs' (nat (ctail ?cs' r)) \<subseteq> {r}"
      using F(3) [of "nat (ctail ?cs r)"] elsewhere [OF W3(1)] r W3(2,3) t by auto
    fix x assume x: "x < rm_size m" "x \<noteq> r"
    show "ctail ?cs' x \<noteq> ctail ?cs' r" using F(2) [OF x(1)] t W3(4) x alone [OF W3(1)] r by (cases "x \<in> ?S") auto
  qed
  moreover have "ctail ?cs' (row_seq0 ub s) = int (s + mn) \<and> (\<forall>q \<in> set (tl (row_seqs ub s)). ctail ?cs' q = -1)" if s: "s \<in> {Suc k..<ub_n_seqs ub}" for s
  proof -
    have sn: "s < ub_n_seqs ub" "s \<noteq> k" using s by auto
    have same: "ctail ?cs' r = ctail ?cs r" if "r \<in> set (row_seqs ub s)" for r
      using F(2) [of r] offS [OF sn that] R(5) [OF sn(1) that] len by simp
    have "s \<in> {k..<ub_n_seqs ub}" using s by simp
    then have old: "ctail ?cs (row_seq0 ub s) = int (s + mn)" "\<forall>q \<in> set (tl (row_seqs ub s)). ctail ?cs q = -1" using I by blast+
    have "\<forall>q \<in> set (tl (row_seqs ub s)). ctail ?cs' q = -1"
      using old(2) same R(8) [OF sn(1)] by (metis list.set_intros(2))
    then show ?thesis using old(1) same [OF R(7) [OF sn(1)]] by simp
  qed
  moreover have "(\<forall>q \<in> set (row_seqs ub s). ctail ?cs' q = int (s + mn)) \<and> cseqs ?cs' (s + mn) = set (row_seqs ub s) \<and> mc_pos (?cs' ! (s + mn)) = row_last ub s"
    if s: "s < Suc k" for s
  proof (cases "s = k")
    case True then show ?thesis using F(2-4) S d by simp
  next
    case False
    then have s': "s < k" "s < ub_n_seqs ub" "s \<noteq> k" "s + mn < rm_size m" "s + mn \<noteq> ?d" using s k d by auto
    have "ctail ?cs' q = int (s + mn)" if q: "q \<in> set (row_seqs ub s)" for q
      using F(2) [of q] offS [OF s'(2,3) q] R(5) [OF s'(2) q] len I s'(1) q by simp
    then show ?thesis using F(3) [OF s'(4)] F(4) [OF s'(4)] I s'(1,5) by simp
  qed
  moreover have "view ?cs' r = view cs0 r" if r: "r < rm_size m" "\<not> in_rows ub r" for r
  proof -
    have ne: "r \<notin> ?S" "r \<noteq> ?q" using r(2) k R(7) [OF k] by (auto simp: in_rows_def)
    have "view ?cs' r = view ?cs r"
      using F(2) [OF r(1)] F(4,5) [of "nat (ctail ?cs r)"] elsewhere [OF r(1) ne(2)] ne(1)
      by (cases "ctail ?cs r = -1") (auto simp: view_def)
    then show ?thesis using I r by simp
  qed
  ultimately show ?thesis unfolding place_inv_def rest F(1) using F(5) I len by simp
qed

lemma place_rows_ok:
  assumes "place_inv ub cs0 mn k (rm_cells m)" "rows_ok ub (length cs0)" "k \<le> ub_n_seqs ub" "mn + ub_n_seqs ub \<le> length cs0"
  shows "place_inv ub cs0 mn (ub_n_seqs ub) (rm_cells (fold (place_row ub mn) [k..<ub_n_seqs ub] m))"
  using assms
proof (induction "ub_n_seqs ub - k" arbitrary: k m)
  case (Suc x)
  then have k: "k < ub_n_seqs ub" by simp
  from Suc.hyps(1) [OF _ place_step [OF Suc.prems(1,2) k Suc.prems(4)] Suc.prems(2)] Suc.hyps(2) Suc.prems(4) k
  show ?case by (simp add: upt_conv_Cons)
qed simp


section \<open>The zeroed state\<close>

lemma find_rs_z_ok:
  assumes sr: "src_ok cs {mn..mx}" and mx: "mx < length cs" and i0: "i0 \<in> {mn..mx}" "mc_src (cs ! i0) < 0"
  shows "0 \<le> find_rs_z mn mx cs"
proof (rule ccontr)
  assume "\<not> 0 \<le> find_rs_z mn mx cs"
  then have "List.find (\<lambda>i. \<forall>c \<in> set cs. mc_src c \<noteq> int i) [mn..<mx + 1] = None"
    by (auto simp: find_rs_z_def split: option.splits)
  then have none: "\<exists>c \<in> set cs. mc_src c = int i" if "i \<in> {mn..mx}" for i using that by (auto simp: find_None_iff)
  have "\<exists>j \<in> {mn..mx}. mc_src (cs ! j) = int i" if i: "i \<in> {mn..mx}" for i
  proof -
    obtain j where j: "j < length cs" "mc_src (cs ! j) = int i" using none [OF i] by (auto simp: in_set_conv_nth)
    have "j \<in> {mn..mx}" using sr j i by (auto simp: src_ok_def)
    then show ?thesis using j by blast
  qed
  then obtain g where g: "\<And>i. i \<in> {mn..mx} \<Longrightarrow> g i \<in> {mn..mx} \<and> mc_src (cs ! g i) = int i" by metis
  have "inj_on g {mn..mx}" by (rule inj_onI) (metis g of_nat_eq_iff)
  moreover have "g ` {mn..mx} \<subseteq> {mn..mx}" using g by blast
  ultimately have "g ` {mn..mx} = {mn..mx}" by (simp add: endo_inj_surj)
  then obtain i where "i \<in> {mn..mx}" "i0 = g i" using i0(1) by (metis imageE)
  then have "mc_src (cs ! i0) = int i" using g by simp
  then show False using i0(2) by simp
qed

lemma stage_cells:
  fixes mn :: nat and z :: int
  assumes "k \<le> rm_size m"
  defines "m' \<equiv> fold (\<lambda>i. upd_cell i (stage_src z i)) [mn..<k] m"
  shows "rm_size m' = rm_size m \<and> (\<forall>i < rm_size m. rm_cells m' ! i = (if i \<in> {mn..<k} then stage_src z i (rm_cells m ! i) else rm_cells m ! i))"
  using assms(1) unfolding m'_def
proof (induction k)
  case (Suc k)
  then show ?case by (cases "mn \<le> k") (auto simp: nth_list_update')
qed simp

lemma stage_fields [simp]:
  "mc_tail (stage_src z i c) = mc_tail c" "mc_seq (stage_src z i c) = mc_seq c" "mc_pos (stage_src z i c) = mc_pos c"
  "mc_src (stage_src z i c) = int i" "mc_src0 (stage_src z i c) = (if mc_src c < 0 then z else mc_src c)"
  by (simp_all add: stage_src_def)

section \<open>A search on a consistent memory\<close>

definition rec_ok :: "rec_mem \<Rightarrow> bool" where
  "rec_ok m \<longleftrightarrow> tails_ok m \<and> src_ok (rm_cells m) {} \<and> (rm_size m = 0 \<or> rm_head m < rm_size m)"

text \<open>What \<open>find_slot\<close> leaves: the rows in consecutive cells from the head, the other sequences as they were.\<close>

definition rows_placed :: "llama_ubatch \<Rightarrow> rec_mem \<Rightarrow> rec_mem \<Rightarrow> bool" where
  "rows_placed ub m m' \<longleftrightarrow> rm_size m' = rm_size m \<and> rm_head m' + ub_n_seqs ub \<le> rm_size m \<and>
     (\<forall>s < ub_n_seqs ub. mc_seq (rm_cells m' ! (rm_head m' + s)) = set (row_seqs ub s) \<and>
        (\<forall>q \<in> set (row_seqs ub s). mc_tail (rm_cells m' ! q) = int (rm_head m' + s) \<and> rec_seq_pos_max (int q) m' = max (-1) (row_last ub s))) \<and>
     (\<forall>s < ub_n_seqs ub. let q = row_seq0 ub s; t = mc_tail (rm_cells m ! q) in
        0 \<le> t \<longrightarrow> 0 \<le> mc_src (rm_cells m ! nat t) \<longrightarrow> mc_src0 (rm_cells m' ! (rm_head m' + s)) = mc_src (rm_cells m ! nat t)) \<and>
     (\<forall>r < rm_size m. \<not> in_rows ub r \<longrightarrow> rec_seq_pos_max (int r) m' = rec_seq_pos_max (int r) m)"


lemma tails_stage:
  assumes "rm_size m' = rm_size m" "\<And>i. i < rm_size m \<Longrightarrow> mc_tail (rm_cells m' ! i) = mc_tail (rm_cells m ! i) \<and> mc_seq (rm_cells m' ! i) = mc_seq (rm_cells m ! i)"
  shows "weak_tails (rm_cells m') A = weak_tails (rm_cells m) A"
  by (rule weak_tails_cong) (use assms in \<open>auto simp: ctail_def cseqs_def\<close>)

lemma claim_start:
  assumes "tails_ok m" "src_ok (rm_cells m) {}" "0 < rm_size m" "rm_head m < rm_size m"
  shows "claim_inv ub (rm_cells m) 0 (rm_cells m) (next_empty_from (rm_size m) (rm_cells m) (rm_head m)) (int (rm_size m) - 1) 0"
  using assms search_start [of "rm_head m" "rm_cells m"] by (auto simp: claim_inv_def claimed_def owned_def)

lemma claims_gathered:
  assumes c: "claim_inv ub cs0 (ub_n_seqs ub) cs e mn mx" and ok: "rows_ok ub (length cs0)"
  shows "gather_inv ub cs (nat mn) (nat mx) 0 cs" "nat mn + ub_n_seqs ub \<le> nat mx + 1"
proof -
  note I = c [unfolded claim_inv_def]
  have b: "\<forall>q \<in> claimed ub (ub_n_seqs ub). int (nat mn) \<le> ctail cs q \<and> ctail cs q \<le> int (nat mx)" using I by simp
  have w: "weak_tails cs (claimed ub (ub_n_seqs ub))" and ok': "rows_ok ub (length cs)" using I ok by auto
  have "owned cs (claimed ub (ub_n_seqs ub)) \<subseteq> {nat mn..nat mx}"
  proof
    fix i assume "i \<in> owned cs (claimed ub (ub_n_seqs ub))"
    then obtain q where "q \<in> claimed ub (ub_n_seqs ub)" "ctail cs q = int i" by (auto simp: owned_def)
    then have "int (nat mn) \<le> int i \<and> int i \<le> int (nat mx)" using b by metis
    then show "i \<in> {nat mn..nat mx}" unfolding of_nat_le_iff by simp
  qed
  moreover have "src_ok cs (owned cs (claimed ub (ub_n_seqs ub)))" using I by blast
  ultimately have "src_ok cs {nat mn..nat mx}" unfolding src_ok_def by blast
  then show "gather_inv ub cs (nat mn) (nat mx) 0 cs" using I b unfolding gather_inv_def by auto
  show "nat mn + ub_n_seqs ub \<le> nat mx + 1" by (rule rows_fit [OF w ok' b])
qed

lemma gathered_placed:
  assumes g: "gather_inv ub cs1 mn mx (ub_n_seqs ub) cs" and ok: "rows_ok ub (length cs1)"
    and others: "\<And>s q. s < ub_n_seqs ub \<Longrightarrow> q \<in> set (tl (row_seqs ub s)) \<Longrightarrow> view cs1 q = None"
  shows "place_inv ub cs mn 0 cs"
proof -
  note I = g [unfolded gather_inv_def]
  have w: "weak_tails cs (claimed ub (ub_n_seqs ub))" using I by blast
  have cl: "claimed ub (ub_n_seqs ub) = row_seq0 ub ` {0..<ub_n_seqs ub}" by (auto simp: claimed_def)
  have "ctail cs q = -1" if s: "s < ub_n_seqs ub" "q \<in> set (tl (row_seqs ub s))" for s q
  proof -
    have "q \<in> set (row_seqs ub s)" using s rows_okD(3) [OF ok s(1)] by (auto dest: list.set_sel(2))
    then have q: "q < length cs" using rows_okD(5) [OF ok s(1)] I by simp
    then have "view cs q = None" using others [OF s] I by simp
    then have "ctail cs q < 0" by (simp add: view_def split: if_splits)
    then show ?thesis using weak_tailsD(2) [OF w q] by linarith
  qed
  then show ?thesis using I w unfolding place_inv_def cl by (auto simp: add.commute)
qed


text \<open>The first id of a row is admitted once, as a first id.\<close>

lemma first_id:
  assumes "rows_ok ub n" "s < ub_n_seqs ub" "(j, row_seq0 ub s) \<in> set (admit_ids ub)"
  shows "j = 0"
proof -
  note R = rows_okD [OF assms(1)]
  obtain s' where s': "s' < ub_n_seqs ub" "j < length (row_seqs ub s')" "row_seq0 ub s = row_seqs ub s' ! j" using assms(3) by (auto simp: admit_ids_set)
  then have "s = s'" using R(6) [OF assms(2) s'(1) R(7) [OF assms(2)]] by simp
  then have "row_seqs ub s ! j = row_seqs ub s ! 0" using s'(3) R(8) [OF assms(2)] by (metis nth_Cons_0)
  then show ?thesis using R(4) [OF assms(2)] s'(2) \<open>s = s'\<close> R(3) [OF assms(2)] by (simp add: nth_eq_iff_index_eq)
qed

text \<open>The first pass on the rows.\<close>

lemma admit_rows:
  assumes ok: "tails_ok m" "src_ok (rm_cells m) {}" and rows: "rows_ok ub (rm_size m)"
  shows "\<exists>m'. rec_admit (admit_ids ub) m = (m', True) \<and> tails_ok m' \<and> src_ok (rm_cells m') {} \<and> rm_size m' = rm_size m \<and> rm_head m' = rm_head m \<and>
    (\<forall>s < ub_n_seqs ub. view (rm_cells m') (row_seq0 ub s) = view (rm_cells m) (row_seq0 ub s) \<and>
       (\<forall>q \<in> set (tl (row_seqs ub s)). view (rm_cells m') q = None)) \<and>
    (\<forall>r < rm_size m. \<not> in_rows ub r \<longrightarrow> view (rm_cells m') r = view (rm_cells m) r)"
proof -
  note R = rows_okD [OF rows]
  let ?E = "\<lambda>r. \<exists>j > 0. (j, r) \<in> set (admit_ids ub)"
  have ids: "\<forall>(j, s) \<in> set (admit_ids ub). s < rm_size m" using R(5) by (auto simp: admit_ids_set)
  from rec_admit_ok [OF ok ids] obtain m1 where
    m1: "rec_admit (admit_ids ub) m = (m1, True)" "tails_ok m1" "src_ok (rm_cells m1) {}" "rm_size m1 = rm_size m" "rm_head m1 = rm_head m"
    and v: "\<forall>r < rm_size m. view (rm_cells m1) r = (if ?E r then None else view (rm_cells m) r)" by blast
  have sub: "q \<in> set (row_seqs ub s)" if "s < ub_n_seqs ub" "q \<in> set (tl (row_seqs ub s))" for s q
    using list.set_sel(2) [OF R(3) [OF that(1)] that(2)] .
  have late: "?E q" if s: "s < ub_n_seqs ub" "q \<in> set (tl (row_seqs ub s))" for s q
  proof -
    obtain j where j: "j < length (tl (row_seqs ub s))" "q = tl (row_seqs ub s) ! j" using s(2) by (metis in_set_conv_nth)
    then have "(Suc j, q) \<in> set (admit_ids ub)" using s(1) by (auto simp: admit_ids_set nth_tl)
    then show ?thesis by blast
  qed
  have first: "\<not> ?E (row_seq0 ub s)" if s: "s < ub_n_seqs ub" for s
    using first_id [OF rows s] by blast
  have none: "\<not> ?E r" if "\<not> in_rows ub r" for r using that by (auto simp: in_rows_def admit_ids_set)
  have "view (rm_cells m1) (row_seq0 ub s) = view (rm_cells m) (row_seq0 ub s)" if s: "s < ub_n_seqs ub" for s
    unfolding v [rule_format, OF R(5) [OF s R(7) [OF s]]] by (simp only: first [OF s] if_False)
  moreover have "view (rm_cells m1) q = None" if s: "s < ub_n_seqs ub" "q \<in> set (tl (row_seqs ub s))" for s q
    unfolding v [rule_format, OF R(5) [OF s(1) sub [OF s]]] by (simp only: late [OF s] if_True)
  moreover have "view (rm_cells m1) r = view (rm_cells m) r" if "r < rm_size m" "\<not> in_rows ub r" for r
    unfolding v [rule_format, OF that(1)] by (simp only: none [OF that(2)] if_False)
  ultimately show ?thesis using m1 by blast
qed

text \<open>Claiming and gathering: the memory before the rows are placed.\<close>

lemma claim_gather:
  assumes ok: "tails_ok m" "src_ok (rm_cells m) {}" "rm_head m < rm_size m" and rows: "rows_ok ub (rm_size m)"
    and late: "\<forall>s < ub_n_seqs ub. \<forall>q \<in> set (tl (row_seqs ub s)). view (rm_cells m) q = None"
  shows "\<exists>m2 e mn mx m3.
    claim_rows ub [0..<ub_n_seqs ub] (m, next_empty_from (rm_size m) (rm_cells m) (rm_head m), int (rm_size m) - 1, 0) = Some (m2, e, mn, mx) \<and>
    gather_rows ub (nat mn) [0..<ub_n_seqs ub] m2 = Some m3 \<and> place_inv ub (rm_cells m3) (nat mn) 0 (rm_cells m3) \<and>
    src_ok (rm_cells m3) {nat mn..nat mx} \<and> rm_size m3 = rm_size m \<and> nat mx < rm_size m \<and> nat mn + ub_n_seqs ub \<le> nat mx + 1 \<and>
    (\<forall>r < rm_size m. r \<notin> claimed ub (ub_n_seqs ub) \<or> 0 \<le> ctail (rm_cells m) r \<longrightarrow> view (rm_cells m3) r = view (rm_cells m) r)"
proof -
  note R = rows_okD [OF rows]
  let ?n = "ub_n_seqs ub"
  have "0 < rm_size m" using ok(3) by linarith
  from claim_rows_ok [OF claim_start [OF ok(1,2) this ok(3)] rows] obtain m2 e mn mx where
    m2: "claim_rows ub [0..<?n] (m, next_empty_from (rm_size m) (rm_cells m) (rm_head m), int (rm_size m) - 1, 0) = Some (m2, e, mn, mx)"
      "claim_inv ub (rm_cells m) ?n (rm_cells m2) e mn mx" by blast
  note G = claims_gathered [OF m2(2) rows]
  have l2: "rm_size m2 = rm_size m" using m2(2) by (simp add: claim_inv_def)
  have rows2: "rows_ok ub (length (rm_cells m2))" using rows l2 by simp
  from gather_rows_ok [OF G(1) rows2] obtain m3 where
    m3: "gather_rows ub (nat mn) [0..<?n] m2 = Some m3" "gather_inv ub (rm_cells m2) (nat mn) (nat mx) ?n (rm_cells m3)" by blast
  have l3: "rm_size m3 = rm_size m" "nat mx < rm_size m" "src_ok (rm_cells m3) {nat mn..nat mx}" using m3(2) l2 by (simp_all add: gather_inv_def)
  have view2: "view (rm_cells m2) r = view (rm_cells m) r" if "r < rm_size m" "r \<notin> claimed ub ?n \<or> 0 \<le> ctail (rm_cells m) r" for r
    using m2(2) that l2 by (simp add: claim_inv_def)
  have P: "place_inv ub (rm_cells m3) (nat mn) 0 (rm_cells m3)"
  proof (rule gathered_placed [OF m3(2) rows2])
    fix s q assume s: "s < ?n" "q \<in> set (tl (row_seqs ub s))"
    have q: "q \<in> set (row_seqs ub s)" by (rule list.set_sel(2) [OF R(3) [OF s(1)] s(2)])
    have "q \<notin> claimed ub ?n"
    proof
      assume "q \<in> claimed ub ?n"
      then obtain s' where s': "s' < ?n" "q = row_seq0 ub s'" by (auto simp: claimed_def)
      then have "s = s'" using R(6) [OF s(1) s'(1) q] R(7) [OF s'(1)] by simp
      then show False using R(4) [OF s(1)] R(8) [OF s(1)] s(2) s'(2) by (metis distinct.simps(2))
    qed
    then show "view (rm_cells m2) q = None" using view2 [OF R(5) [OF s(1) q]] late s by simp
  qed
  have "\<forall>r < rm_size m. r \<notin> claimed ub ?n \<or> 0 \<le> ctail (rm_cells m) r \<longrightarrow> view (rm_cells m3) r = view (rm_cells m) r"
    using m3(2) view2 l2 l3(1) by (simp add: gather_inv_def)
  then show ?thesis using m2(1) m3(1) P l3 G(2) by blast
qed


text \<open>Placing and staging: the memory after the search, with the rows at \<open>mn\<close>.\<close>

lemma place_stage:
  assumes P0: "place_inv ub cs0 mn 0 cs0" "rm_cells m3 = cs0" and sr: "src_ok cs0 {mn..mx}" and rows: "rows_ok ub (length cs0)"
    and mx: "mx < length cs0" "mn + ub_n_seqs ub \<le> mx + 1"
  defines "m4 \<equiv> fold (place_row ub mn) [0..<ub_n_seqs ub] m3"
  defines "z \<equiv> find_rs_z mn mx (rm_cells m4)"
  defines "cs \<equiv> rm_cells (fold (\<lambda>i. upd_cell i (stage_src z i)) [mn..<mx + 1] m4)"
  shows "\<not> (z < 0 \<and> (\<exists>i \<in> {mn..<mx + 1}. mc_src (rm_cells m4 ! i) < 0))"
    "weak_tails cs {}" "src_ok cs {}" "length cs = length cs0"
    "s < ub_n_seqs ub \<Longrightarrow> mc_seq (cs ! (mn + s)) = set (row_seqs ub s) \<and> mc_pos (cs ! (mn + s)) = row_last ub s"
    "s < ub_n_seqs ub \<Longrightarrow> q \<in> set (row_seqs ub s) \<Longrightarrow> mc_tail (cs ! q) = int (mn + s)"
    "s < ub_n_seqs ub \<Longrightarrow> 0 \<le> mc_src (cs0 ! (mn + s)) \<Longrightarrow> mc_src0 (cs ! (mn + s)) = mc_src (cs0 ! (mn + s))"
    "r < length cs0 \<Longrightarrow> \<not> in_rows ub r \<Longrightarrow> rec_pos cs r = rec_pos cs0 r"
proof -
  let ?n = "ub_n_seqs ub" and ?cs4 = "rm_cells m4"
  have fit: "mn + ?n \<le> length cs0" using mx by linarith
  have "place_inv ub cs0 mn ?n ?cs4" unfolding m4_def by (rule place_rows_ok) (use P0 rows fit in auto)
  note P = this [unfolded place_inv_def]
  have l4: "length ?cs4 = length cs0" and w4: "weak_tails ?cs4 {}" using P by auto
  have src4: "src_ok ?cs4 {mn..mx}" using P sr by (simp add: src_ok_def)
  show "\<not> (z < 0 \<and> (\<exists>i \<in> {mn..<mx + 1}. mc_src (?cs4 ! i) < 0))"
    using find_rs_z_ok [OF src4] l4 mx(1) by (fastforce simp: z_def)
  have "mx + 1 \<le> rm_size m4" using mx(1) l4 by simp
  from stage_cells [OF this, of z mn]
  have S: "length cs = length cs0" "\<And>i. i < length cs0 \<Longrightarrow> cs ! i = (if i \<in> {mn..<mx + 1} then stage_src z i (?cs4 ! i) else ?cs4 ! i)"
    using l4 by (auto simp: cs_def)
  then have f: "mc_tail (cs ! i) = mc_tail (?cs4 ! i)" "mc_seq (cs ! i) = mc_seq (?cs4 ! i)" "mc_pos (cs ! i) = mc_pos (?cs4 ! i)"
    if "i < length cs0" for i using that by auto
  show "length cs = length cs0" by (rule S(1))
  show "weak_tails cs {}" using weak_tails_cong [of cs ?cs4 "{}"] f S(1) l4 w4 by (simp add: ctail_def cseqs_def)
  show "src_ok cs {}" using src4 S l4 by (auto simp: src_ok_def)
  have at: "\<forall>q \<in> set (row_seqs ub s). ctail ?cs4 q = int (s + mn)" "cseqs ?cs4 (s + mn) = set (row_seqs ub s)"
    "mc_pos (?cs4 ! (s + mn)) = row_last ub s" "s + mn < length cs0" "s + mn \<in> {mn..<mx + 1}" if "s < ?n" for s
    using P that fit mx by auto
  show "mc_seq (cs ! (mn + s)) = set (row_seqs ub s) \<and> mc_pos (cs ! (mn + s)) = row_last ub s" if "s < ?n"
    using at(2-4) [OF that] f by (simp add: cseqs_def add.commute)
  show "mc_tail (cs ! q) = int (mn + s)" if "s < ?n" "q \<in> set (row_seqs ub s)"
    using at(1) [OF that(1)] that(2) f(1) [OF rows_okD(5) [OF rows that]] by (simp add: ctail_def)
  show "mc_src0 (cs ! (mn + s)) = mc_src (cs0 ! (mn + s))" if "s < ?n" "0 \<le> mc_src (cs0 ! (mn + s))"
    using S(2) [OF at(4) [OF that(1)]] at(4,5) [OF that(1)] P l4 that(2) by (simp add: add.commute)
  show "rec_pos cs r = rec_pos cs0 r" if r: "r < length cs0" "\<not> in_rows ub r"
  proof -
    have "view ?cs4 r = view cs0 r" using P r l4 by simp
    then have "rec_pos ?cs4 r = rec_pos cs0 r" by (rule view_pos)
    moreover have "rec_pos cs r = rec_pos ?cs4 r"
      using f(1) [OF r(1)] f(3) [of "nat (ctail ?cs4 r)"] tails_okD(3) [OF w4, of r] r(1) l4
      by (auto simp: rec_pos_def ctail_def nat_less_iff)
    ultimately show ?thesis by simp
  qed
qed


lemma find_slot_ok:
  assumes ok: "rec_ok m" and rows: "rows_ok ub (rm_size m)"
  shows "\<exists>m'. rec_find_slot ub m = Some (m', True) \<and> rec_ok m' \<and> rows_placed ub m m'"
proof -
  note R = rows_okD [OF rows]
  let ?n = "ub_n_seqs ub"
  have size: "0 < rm_size m" using R(5) [OF R(1) R(7) [OF R(1)]] by linarith
  have ok0: "tails_ok m" "src_ok (rm_cells m) {}" "rm_head m < rm_size m" using ok size by (auto simp: rec_ok_def)
  define m0 where "m0 = (if rm_head m > rm_used m + 2 * ?n then m\<lparr>rm_head := 0\<rparr> else m)"
  have m0: "rm_cells m0 = rm_cells m" "rm_head m0 < rm_size m" using ok0(3) size by (auto simp: m0_def)
  from admit_rows [of m0 ub] obtain m1 where m1: "rec_admit (admit_ids ub) m0 = (m1, True)" "tails_ok m1" "src_ok (rm_cells m1) {}"
      "rm_size m1 = rm_size m" "rm_head m1 = rm_head m0"
    and v0: "\<forall>s < ?n. view (rm_cells m1) (row_seq0 ub s) = view (rm_cells m) (row_seq0 ub s) \<and> (\<forall>q \<in> set (tl (row_seqs ub s)). view (rm_cells m1) q = None)"
    and v1: "\<forall>r < rm_size m. \<not> in_rows ub r \<longrightarrow> view (rm_cells m1) r = view (rm_cells m) r"
    unfolding m0(1) using ok0 rows by blast
  have h1: "rm_head m1 < rm_size m1" and rows1: "rows_ok ub (rm_size m1)" using m0(2) m1(4,5) rows by simp_all
  have late: "\<forall>s < ?n. \<forall>q \<in> set (tl (row_seqs ub s)). view (rm_cells m1) q = None" using v0 by blast
  from claim_gather [OF m1(2,3) h1 rows1 late] obtain m2 e mn' mx' m3 where
    m2: "claim_rows ub [0..<?n] (m1, next_empty_from (rm_size m1) (rm_cells m1) (rm_head m1), int (rm_size m1) - 1, 0) = Some (m2, e, mn', mx')"
      "gather_rows ub (nat mn') [0..<?n] m2 = Some m3" "place_inv ub (rm_cells m3) (nat mn') 0 (rm_cells m3)"
    and m3: "src_ok (rm_cells m3) {nat mn'..nat mx'}" "rm_size m3 = rm_size m1" "nat mx' < rm_size m1" "nat mn' + ?n \<le> nat mx' + 1"
      "\<forall>r < rm_size m1. r \<notin> claimed ub ?n \<or> 0 \<le> ctail (rm_cells m1) r \<longrightarrow> view (rm_cells m3) r = view (rm_cells m1) r" by blast
  define mn mx where "mn = nat mn'" and "mx = nat mx'"
  define m4 where "m4 = fold (place_row ub mn) [0..<?n] m3"
  define z where "z = find_rs_z mn mx (rm_cells m4)"
  define m5 where "m5 = fold (\<lambda>i. upd_cell i (stage_src z i)) [mn..<mx + 1] m4"
  define m' where "m' = m5\<lparr>rm_rs_z := z, rm_head := mn, rm_n := mx + 1 - mn, rm_used := length (filter (\<lambda>c. \<not> rec_empty c) (rm_cells m5))\<rparr>"
  have rows3: "rows_ok ub (rm_size m3)" and mx: "mx < rm_size m3" "mn + ?n \<le> mx + 1" using rows1 m3 by (simp_all add: mn_def mx_def)
  note PS = place_stage [OF m2(3) refl m3(1) rows3, folded mn_def mx_def, OF mx, folded m4_def, folded z_def, folded m5_def]
  have find: "rec_find_slot ub m = Some (m', True)"
    using R(2) mx(2) PS(1) unfolding rec_find_slot_def Let_def m0_def [symmetric] m1(1) prod.case bool.case m2(1) option.case
      mn_def [symmetric] mx_def [symmetric] m2(2) [folded mn_def] m4_def [symmetric] z_def [symmetric] m5_def [symmetric] m'_def by simp
  have c': "rm_cells m' = rm_cells m5" "rm_head m' = mn" by (simp_all add: m'_def)
  have len: "rm_size m3 = rm_size m" "rm_size m5 = rm_size m" using m3(2) m1(4) PS(4) by simp_all
  have t': "tails_ok m'" using PS(2) by (simp add: c')
  have pos: "rec_seq_pos_max (int r) m' = max (-1) (rec_pos (rm_cells m5) r)" if "r < rm_size m" for r
    using rec_pos_max_eq [OF t'] that len c' by simp
  have "rows_placed ub m m'" unfolding rows_placed_def c'
  proof (intro conjI allI impI ballI)
    show "rm_size m5 = rm_size m" by (rule len)
    show "mn + ?n \<le> rm_size m" using mx len by simp
  next
    fix s assume s: "s < ?n"
    show "mc_seq (rm_cells m5 ! (mn + s)) = set (row_seqs ub s)" using PS(5) [OF s] by simp
    fix q assume q: "q \<in> set (row_seqs ub s)"
    show t: "mc_tail (rm_cells m5 ! q) = int (mn + s)" by (rule PS(6) [OF s q])
    show "rec_seq_pos_max (int q) m' = max (-1) (row_last ub s)"
      using pos [OF R(5) [OF s q]] PS(5) [OF s] t by (simp add: rec_pos_def ctail_def nat_int_add)
  next
    fix s assume s: "s < ?n"
    let ?q = "row_seq0 ub s" and ?t = "mc_tail (rm_cells m ! row_seq0 ub s)"
    have q: "?q < rm_size m1" using R(5) [OF s R(7) [OF s]] m1(4) by simp
    have "mc_src0 (rm_cells m5 ! (mn + s)) = mc_src (rm_cells m ! nat ?t)" if t: "0 \<le> ?t" "0 \<le> mc_src (rm_cells m ! nat ?t)"
    proof -
      have v: "view (rm_cells m1) ?q = Some (mc_pos (rm_cells m ! nat ?t), mc_src (rm_cells m ! nat ?t))"
        using t v0 s by (simp add: view_def ctail_def)
      then have "0 \<le> ctail (rm_cells m1) ?q" by (auto simp: view_def split: if_splits)
      then have "view (rm_cells m3) ?q = view (rm_cells m1) ?q" using m3(5) q by blast
      moreover have "ctail (rm_cells m3) ?q = int (mn + s)" using m2(3) s by (simp add: place_inv_def mn_def)
      ultimately have "mc_src (rm_cells m3 ! (mn + s)) = mc_src (rm_cells m ! nat ?t)" using v by (simp add: view_def nat_int_add)
      then show ?thesis using PS(7) [OF s] t(2) by simp
    qed
    then show "let q = ?q; t = mc_tail (rm_cells m ! q) in 0 \<le> t \<longrightarrow> 0 \<le> mc_src (rm_cells m ! nat t) \<longrightarrow>
      mc_src0 (rm_cells m5 ! (mn + s)) = mc_src (rm_cells m ! nat t)" by (simp add: Let_def)
  next
    fix r assume r: "r < rm_size m" "\<not> in_rows ub r"
    have "r \<notin> claimed ub ?n" using r(2) R(7) by (auto simp: claimed_def in_rows_def)
    then have "view (rm_cells m3) r = view (rm_cells m) r" using m3(5) v1 r m1(4) by simp
    then have "rec_pos (rm_cells m3) r = rec_pos (rm_cells m) r" by (rule view_pos)
    then show "rec_seq_pos_max (int r) m' = rec_seq_pos_max (int r) m"
      using pos [OF r(1)] rec_pos_max_eq [OF ok0(1) r(1)] PS(8) [of r] r len by simp
  qed
  moreover have "rec_ok m'" using t' PS(3) mx len R(1) by (auto simp: rec_ok_def c')
  ultimately show ?thesis using find by blast
qed


section \<open>The states the memory reaches\<close>

lemma rec_ok_sub:
  assumes "rec_ok m" "tails_ok m'" "rm_size m' = rm_size m" "rm_head m' \<le> rm_head m"
    and "\<And>i. i < rm_size m \<Longrightarrow> mc_src (rm_cells m' ! i) = -1 \<or> mc_src (rm_cells m' ! i) = mc_src (rm_cells m ! i)"
  shows "rec_ok m'"
proof -
  have "src_ok (rm_cells m') {}" unfolding src_ok_def
  proof (intro allI impI)
    fix i assume "i < rm_size m'"
    then show "mc_src (rm_cells m' ! i) = -1 \<or> mc_src (rm_cells m' ! i) = int i"
      using assms(1,3) assms(5) [of i] by (auto simp: rec_ok_def src_ok_def)
  qed
  then show ?thesis using assms(1-4) unfolding rec_ok_def by linarith
qed

lemma rec_ok_new [simp]: "rec_ok (rec_new n k r)"
  using tails_new [of n k r] by (auto simp: rec_ok_def src_ok_def rec_new_def mem_cell_new_def)

lemma rec_ok_clear: "rec_ok m \<Longrightarrow> rec_ok (rec_clear m)"
proof (rule rec_ok_sub [OF _ tails_clear])
  show "rm_head (rec_clear m) \<le> rm_head m" by (simp add: rec_clear_def)
qed (auto simp: rec_clear_cells)

lemma rec_seq_rm_head:
  assumes "rec_seq_rm (int s) p0 p1 m = (m', b)"
  shows "rm_head m' \<le> rm_head m"
proof -
  have cell: "rm_head (fst (rec_rm_cell s p0 p1 i x)) = rm_head (fst x)" for s p0 p1 i x
    by (cases x) (simp add: rec_rm_cell_def Let_def)
  have fold: "rm_head (fst (fold (rec_rm_cell s p0 p1) is x)) = rm_head (fst x)" for s p0 p1 "is" x
    by (induction "is" arbitrary: x) (simp_all add: cell)
  have loop: "rm_head (rec_rm_loop s p0 p1 m) \<le> rm_head m" for s p0 p1 and m
    using fold [of s p0 p1 "[0..<rm_size m]" "(m, rm_size m)"]
    by (cases "fold (rec_rm_cell s p0 p1) [0..<rm_size m] (m, rm_size m)") (simp add: rec_rm_loop_def)
  have rs: "rm_head (set_rs_idx s k m) = rm_head m" for s k m by (simp add: set_rs_idx_def)
  have m0: "rm_head (if c then set_rs_idx (int s) 0 m else m) = rm_head m" for c by (simp add: rs)
  have tl: "rm_head (if c then upd_cell i f m else m) = rm_head m" for c i f and m by simp
  show ?thesis
    using assms loop [of "int s" "lo_pos p0" "hi_pos p1"] unfolding rec_seq_rm_def Let_def rec_rollback_def
    by (auto simp: rs split: if_splits) (metis loop upd_cell_cells(3) rs)+
qed


lemma rec_ok_seq_rm:
  assumes ok: "rec_ok m" and s: "s < rm_size m" and rm: "rec_seq_rm (int s) p0 p1 m = (m', b)"
  shows "rec_ok m'"
proof (rule rec_ok_sub [OF ok])
  have t: "tails_ok m" using ok by (simp add: rec_ok_def)
  show "tails_ok m'" by (rule tails_seq_rm [OF t s rm])
  show "rm_size m' = rm_size m" by (rule rec_seq_rm_size [OF rm s])
  show "rm_head m' \<le> rm_head m" by (rule rec_seq_rm_head [OF rm])
  fix i assume i: "i < rm_size m"
  show "mc_src (rm_cells m' ! i) = -1 \<or> mc_src (rm_cells m' ! i) = mc_src (rm_cells m ! i)"
  proof (cases b)
    case True
    then have "rec_seq_rm (int s) p0 p1 m = (m', True)" using rm by simp
    from rec_seq_rm_cells [OF this s] show ?thesis using i by (auto simp: rm_cell_of_nat Let_def nth_list_update' split: if_splits)
  next
    case False
    then have "rm_cells m' = rm_cells m" using rm s by (auto simp: rec_seq_rm_def rec_rollback_def Let_def split: if_splits)
    then show ?thesis by simp
  qed
qed

lemma detach_head: "rm_head (rec_detach s m) = rm_head m"
  by (simp add: rec_detach_def Let_def)

lemma rec_ok_cp: "rec_ok m \<Longrightarrow> rec_ok (rec_seq_cp src dst p0 p1 m)"
proof (cases "src \<noteq> dst \<and> 0 \<le> dst \<and> dst < int (rm_size m) \<and> 0 \<le> src \<and> src < int (rm_size m)")
  case True
  assume ok: "rec_ok m"
  then have t: "tails_ok m" by (simp add: rec_ok_def)
  obtain a b where ab: "src = int a" "dst = int b" "a \<noteq> b" "a < rm_size m" "b < rm_size m" using True by (metis of_nat_less_iff zero_le_imp_eq_int)
  note d = rec_detach_src(2) [OF t ab(5)]
  show ?thesis
  proof (rule rec_ok_sub [OF ok])
    show "tails_ok (rec_seq_cp src dst p0 p1 m)" using rec_cp_props(1) [OF t ab(3-5)] ab(1,2) by simp
    show "rm_size (rec_seq_cp src dst p0 p1 m) = rm_size m" "rm_head (rec_seq_cp src dst p0 p1 m) \<le> rm_head m"
      by (simp_all add: rec_seq_cp_def Let_def detach_head)
    show "mc_src (rm_cells (rec_seq_cp src dst p0 p1 m) ! i) = -1 \<or> mc_src (rm_cells (rec_seq_cp src dst p0 p1 m) ! i) = mc_src (rm_cells m ! i)"
      if "i < rm_size m" for i using d [OF that] by (auto simp: rec_seq_cp_def Let_def nth_list_update' ab)
  qed
qed (auto simp: rec_seq_cp_def)

lemma rec_ok_keep: "rec_ok m \<Longrightarrow> rec_ok (rec_seq_keep (int s) m)"
proof (rule rec_ok_sub)
  assume ok: "rec_ok m"
  then show "tails_ok (rec_seq_keep (int s) m)" by (intro rec_keep_props) (simp add: rec_ok_def)
  have cell: "rm_head (fst (rec_keep_cell s i x)) = rm_head (fst x)" for s i x by (cases x) (simp add: rec_keep_cell_def Let_def)
  have "rm_head (fst (fold (rec_keep_cell (int s)) is x)) = rm_head (fst x)" for "is" x
    by (induction "is" arbitrary: x) (simp_all add: cell)
  from this [of "[0..<rm_size m]" "(m, rm_size m)"] show "rm_head (rec_seq_keep (int s) m) \<le> rm_head m"
    by (cases "fold (rec_keep_cell (int s)) [0..<rm_size m] (m, rm_size m)") (simp add: rec_seq_keep_def)
qed (auto simp: rec_keep_cells keep_cell_of_def Let_def)

lemma rec_ok_change:
  assumes "rec_ok m"
  shows "rec_ok (rec_change_pos s p0 p1 f m)"
  by (rule rec_ok_sub [OF assms rec_change_props]) (use assms in \<open>auto simp: rec_ok_def rec_change_pos_def Let_def nth_list_update'\<close>)

lemma rec_ok_add: "rec_ok m \<Longrightarrow> rec_ok (rec_seq_add s p0 p1 d m)"
  by (simp add: rec_seq_add_def Let_def rec_ok_change)

lemma rec_ok_div: "rec_ok m \<Longrightarrow> rec_ok (rec_seq_div s p0 p1 d m)"
  by (simp add: rec_seq_div_def Let_def rec_ok_change)

inductive rec_reach :: "rec_mem \<Rightarrow> bool" where
  new: "rec_reach (rec_new n k r)"
| clear: "rec_reach m \<Longrightarrow> rec_reach (rec_clear m)"
| rm: "rec_reach m \<Longrightarrow> s < rm_size m \<Longrightarrow> rec_reach (fst (rec_seq_rm (int s) p0 p1 m))"
| cp: "rec_reach m \<Longrightarrow> rec_reach (rec_seq_cp src dst p0 p1 m)"
| keep: "rec_reach m \<Longrightarrow> rec_reach (rec_seq_keep (int s) m)"
| add: "rec_reach m \<Longrightarrow> rec_reach (rec_seq_add i p0 p1 d m)"
| div: "rec_reach m \<Longrightarrow> rec_reach (rec_seq_div i p0 p1 d m)"
| find: "rec_reach m \<Longrightarrow> rows_ok ub (rm_size m) \<Longrightarrow> rec_find_slot ub m = Some (m', b) \<Longrightarrow> rec_reach m'"

lemma rec_reach_ok: "rec_reach m \<Longrightarrow> rec_ok m"
proof (induction rule: rec_reach.induct)
  case (rm m s p0 p1)
  then show ?case by (cases "rec_seq_rm (int s) p0 p1 m") (auto intro: rec_ok_seq_rm)
next
  case (find m ub m' b)
  then show ?case using find_slot_ok [of m ub] by auto
qed (simp_all add: rec_ok_clear rec_ok_cp rec_ok_keep rec_ok_add rec_ok_div)

end
