(* ===== verification/Recurrent_Props.thy ===== *)
theory Recurrent_Props
  imports Recurrent_Find
begin

text \<open>
  The properties of the recurrent memory: queries, slot search, removal, restart after a truncation,
  the dry run, and two removals that hurt a sequence that was not asked for.
\<close>

section \<open>A concrete memory\<close>

text \<open>Two cells; sequence 0 has one cell with position 9, four rollback snapshots.\<close>

definition rec_demo_ub :: "nat \<Rightarrow> llama_pos \<Rightarrow> llama_ubatch" where
  "rec_demo_ub q p = ubatch_empty\<lparr>ub_equal_seqs := True, ub_n_tokens := 1, ub_n_seq_tokens := 1, ub_n_seqs := 1,
     ub_pos := [p], ub_n_seq_id := [1], ub_seq_id := [[q]]\<rparr>"

definition rec_demo :: rec_mem where
  "rec_demo = \<lparr>rm_head = 0, rm_used = 1, rm_n_rs_seq = 4, rm_rs_idx = [0, 0], rm_n = 1, rm_rs_z = 0,
     rm_cells = [\<lparr>mc_pos = 9, mc_src = 0, mc_src0 = 0, mc_tail = 0, mc_seq = {0}\<rparr>, mem_cell_new]\<rparr>"

lemma rec_demo_find: "rec_find_slot (rec_demo_ub 0 9) (rec_new 2 2 4) = Some (rec_demo, True)"
  by code_simp

lemma rec_demo_rows: "q < 2 \<Longrightarrow> rows_ok (rec_demo_ub q p) 2"
  by (simp add: rows_ok_def rec_demo_ub_def row_seqs_def row_tok_def)

lemma rec_demo_reach: "rec_reach rec_demo"
proof (rule rec_reach.find)
  show "rec_reach (rec_new 2 2 4)" by (rule rec_reach.new)
  show "rows_ok (rec_demo_ub 0 9) (rm_size (rec_new 2 2 4))" using rec_demo_rows [of 0 9] by (simp add: rec_new_def)
  show "rec_find_slot (rec_demo_ub 0 9) (rec_new 2 2 4) = Some (rec_demo, True)" by (rule rec_demo_find)
qed

section \<open>Admission and frames\<close>

text \<open>On any memory the first pass keeps the tails of the first ids and adds no member.\<close>

lemma rec_detach_raw:
  "rm_size (rec_detach s m) = rm_size m" "q \<noteq> s \<Longrightarrow> mc_tail (rm_cells (rec_detach s m) ! q) = mc_tail (rm_cells m ! q)"
  "mc_seq (rm_cells (rec_detach s m) ! i) \<subseteq> mc_seq (rm_cells m ! i)"
  by (auto simp: rec_detach_def Let_def nth_list_update' split: if_splits)

lemma rec_admit_raw:
  assumes "\<forall>(j, s) \<in> set js. s < rm_size m"
  shows "\<exists>m'. rec_admit js m = (m', True) \<and> (\<forall>i. mc_seq (rm_cells m' ! i) \<subseteq> mc_seq (rm_cells m ! i)) \<and>
    (\<forall>q. (\<forall>j > 0. (j, q) \<notin> set js) \<longrightarrow> mc_tail (rm_cells m' ! q) = mc_tail (rm_cells m ! q))"
  using assms
proof (induction js arbitrary: m)
  case (Cons a js)
  obtain j s where a: "a = (j, s)" by (cases a)
  let ?m = "if j > 0 then rec_detach s m else m"
  have "\<forall>(j, s) \<in> set js. s < rm_size ?m" using Cons.prems by (auto simp: rec_detach_raw(1))
  from Cons.IH [OF this] obtain m' where m': "rec_admit js ?m = (m', True)" "\<forall>i. mc_seq (rm_cells m' ! i) \<subseteq> mc_seq (rm_cells ?m ! i)"
    "\<forall>q. (\<forall>j > 0. (j, q) \<notin> set js) \<longrightarrow> mc_tail (rm_cells m' ! q) = mc_tail (rm_cells ?m ! q)" by blast
  have "mc_seq (rm_cells m' ! i) \<subseteq> mc_seq (rm_cells m ! i)" for i
  proof -
    have "mc_seq (rm_cells ?m ! i) \<subseteq> mc_seq (rm_cells m ! i)" using rec_detach_raw(3) [of s m i] by simp
    then show ?thesis using m'(2) by blast
  qed
  moreover have "mc_tail (rm_cells m' ! q) = mc_tail (rm_cells m ! q)" if "\<forall>j > 0. (j, q) \<notin> set (a # js)" for q
    using m'(3) that rec_detach_raw(2) [of q s m] by (cases "j > 0") (auto simp: a)
  ultimately show ?case using m'(1) Cons.prems by (auto simp: a)
qed simp

text \<open>No step of the search touches the rollback indices.\<close>

definition rec_frame :: "rec_mem \<Rightarrow> rec_mem \<Rightarrow> bool" where
  "rec_frame m m' \<longleftrightarrow> rm_rs_idx m' = rm_rs_idx m \<and> rm_n_rs_seq m' = rm_n_rs_seq m"

lemma rec_frame_simps [simp]:
  "rec_frame m m" "rec_frame m (upd_cell i f m') = rec_frame m m'" "rec_frame m (m'\<lparr>rm_used := u\<rparr>) = rec_frame m m'"
  "rec_frame m (m'\<lparr>rm_head := u\<rparr>) = rec_frame m m'" "rec_frame m (m'\<lparr>rm_rs_z := z\<rparr>) = rec_frame m m'" "rec_frame m (m'\<lparr>rm_n := u\<rparr>) = rec_frame m m'"
  by (simp_all add: rec_frame_def)

lemma frame_fold: "(\<And>x m'. rec_frame m (f x m') = rec_frame m m') \<Longrightarrow> rec_frame m (fold f xs m') = rec_frame m m'"
  by (induction xs arbitrary: m') auto

lemma frame_detach [simp]: "rec_frame m (rec_detach s m') = rec_frame m m'"
  by (simp add: rec_detach_def Let_def)

lemma frame_admit: "rec_admit js m0 = (m', b) \<Longrightarrow> rec_frame m m0 \<Longrightarrow> rec_frame m m'"
  by (induction js m0 rule: rec_admit.induct) (auto split: if_splits)

lemma frame_claim: "claim_row ub s (m0, e, mn, mx) = Some (m', e', mn', mx') \<Longrightarrow> rec_frame m m0 \<Longrightarrow> rec_frame m m'"
  unfolding claim_row_def Let_def prod.case by (auto split: if_split_asm)

lemma frame_claims: "claim_rows ub ss st = Some st' \<Longrightarrow> rec_frame m (fst st) \<Longrightarrow> rec_frame m (fst st')"
proof (induction ss arbitrary: st)
  case (Cons s ss)
  obtain m0 e mn mx where st: "st = (m0, e, mn, mx)" by (cases st)
  obtain m1 e1 mn1 mx1 where c: "claim_row ub s st = Some (m1, e1, mn1, mx1)" "claim_rows ub ss (m1, e1, mn1, mx1) = Some st'"
    using Cons.prems(1) by (auto split: option.splits)
  show ?case using Cons.IH [OF c(2)] frame_claim [OF c(1) [unfolded st], of m] Cons.prems(2) by (simp add: st)
qed simp

lemma frame_gather: "gather_rows ub mn ss m0 = Some m' \<Longrightarrow> rec_frame m m0 \<Longrightarrow> rec_frame m m'"
  by (induction ss arbitrary: m0) (auto simp: Let_def swap_cells_def rec_frame_def split: if_splits)

lemma frame_place: "rec_frame m (place_row ub mn s m') = rec_frame m m'"
  by (simp add: place_row_def Let_def frame_fold)

lemma frame_find_slot: "rec_find_slot ub m = Some (m', b) \<Longrightarrow> rec_frame m m'"
proof -
  assume f: "rec_find_slot ub m = Some (m', b)"
  let ?m = "if rm_head m > rm_used m + 2 * ub_n_seqs ub then m\<lparr>rm_head := 0\<rparr> else m"
  obtain m1 ok where a: "rec_admit (admit_ids ub) ?m = (m1, ok)" by fastforce
  have f1: "rec_frame m m1" by (rule frame_admit [OF a]) simp
  show ?thesis
  proof (cases ok)
    case False then show ?thesis using f a f1 by (simp add: rec_find_slot_def Let_def split: if_splits)
  next
    case True
    obtain m2 e mn mx where c: "claim_rows ub [0..<ub_n_seqs ub] (m1, next_empty_from (rm_size m1) (rm_cells m1) (rm_head m1), int (rm_size m1) - 1, 0) = Some (m2, e, mn, mx)"
      using f unfolding rec_find_slot_def Let_def a prod.case by (auto simp: True split: if_split_asm option.splits)
    obtain m3 where g: "gather_rows ub (nat mn) [0..<ub_n_seqs ub] m2 = Some m3"
      using f unfolding rec_find_slot_def Let_def a prod.case by (auto simp: True c split: if_split_asm option.splits)
    have "rec_frame m m3" by (rule frame_gather [OF g]) (use frame_claims [OF c, of m] f1 in simp)
    then show ?thesis
      using f unfolding rec_find_slot_def Let_def a prod.case
      by (auto simp: True c g frame_fold frame_place split: if_split_asm)
  qed
qed

section \<open>Properties\<close>

lemma fold_min_same:
  fixes P :: "'a \<Rightarrow> bool" and f :: "'a \<Rightarrow> int"
  assumes "\<forall>c \<in> set cs. P c \<longrightarrow> f c = v"
  shows "fold (\<lambda>c r. if P c then min r (f c) else r) cs r = (if \<exists>c \<in> set cs. P c then min r v else r)"
  using assms by (induction cs arbitrary: r) (auto simp: min_def)

lemma rec_pos_min_eq:
  assumes t: "tails_ok m" and s: "s < rm_size m"
  shows "rec_seq_pos_min (int s) m =
    (if ctail (rm_cells m) s < 0 \<or> INT32_MAX \<le> rec_pos (rm_cells m) s then -1 else rec_pos (rm_cells m) s)"
proof -
  note D = tails_okD [OF t]
  let ?cs = "rm_cells m" and ?t = "ctail (rm_cells m) s"
  have h: "rec_has (int s) c \<longleftrightarrow> s \<in> mc_seq c" for c by (simp add: rec_has_def)
  have v: "\<forall>c \<in> set ?cs. s \<in> mc_seq c \<longrightarrow> mc_pos c = mc_pos (?cs ! nat ?t)"
    using D(1) by (auto simp: in_set_conv_nth cseqs_def)
  have e: "(\<exists>c \<in> set ?cs. s \<in> mc_seq c) \<longleftrightarrow> \<not> ?t < 0"
  proof
    assume "\<exists>c \<in> set ?cs. s \<in> mc_seq c"
    then show "\<not> ?t < 0" using D(1) by (auto simp: in_set_conv_nth cseqs_def)
  next
    assume "\<not> ?t < 0"
    then have "nat ?t < length ?cs" "s \<in> mc_seq (?cs ! nat ?t)" using D(3) [OF s] by (auto simp: nat_less_iff cseqs_def)
    then show "\<exists>c \<in> set ?cs. s \<in> mc_seq c" by auto
  qed
  show ?thesis using fold_min_same [OF v, of INT32_MAX] e
    by (auto simp: rec_seq_pos_min_def h rec_pos_def min_def Let_def)
qed









text \<open>
  Truncating a sequence of the recurrent memory at \<open>p\<close>, when it is granted, makes the batch
  allocator continue at a position not after \<open>p\<close> and not after the position it would have used
  before; a truncation at 0 restarts the sequence at 0.
\<close>

lemma rec_truncate_continue:
  assumes "rec_reach m" "s < rm_size m" "0 \<le> p" "p \<le> INT32_MAX" "rec_pos_max m s < INT32_MAX" "rec_rm_tail s p m = Some m'"
  shows "start_pos (Some (f, rec_pos_max m')) s \<le> min p (start_pos (Some (f, rec_pos_max m)) s) \<and>
    (p = 0 \<longrightarrow> start_pos (Some (f, rec_pos_max m')) s = 0)"
proof -
  have ok: "tails_ok m" "rec_valid m s" using rec_reach_ok [OF assms(1)] assms(2) by (simp_all add: rec_ok_def rec_valid_def)
  show ?thesis using recm.restart_at_cut [OF ok assms(3-6), of f f] recm.restart_zero [OF ok assms(5), of m' f] assms(6) by auto
qed

lemma rec_truncate_continue_witness:
  "\<exists>m'. rec_rm_tail 0 7 rec_demo = Some m' \<and> start_pos (Some (\<lambda>_. -1, rec_pos_max m')) 0 \<le> 7"
proof -
  obtain m' where m': "rec_rm_tail 0 7 rec_demo = Some m'"
    by (simp add: rec_rm_tail_def rec_seq_rm_def rec_rollback_def rec_demo_def Let_def lo_pos_def hi_pos_def INT32_MAX_def)
  have "rec_pos_max rec_demo 0 < INT32_MAX"
    by (simp add: rec_pos_max_def rec_demo_def rec_seq_pos_max_def rec_has_def mem_cell_new_def INT32_MAX_def)
  with rec_truncate_continue [OF rec_demo_reach _ _ _ this m', of "\<lambda>_. -1"] m' show ?thesis
    by (auto simp: rec_demo_def INT32_MAX_def)
qed

text \<open>
  A rollback reaches past its sequence: when two sequences share a cell, as \<open>seq_cp\<close> leaves them,
  rolling one back takes the position of the other back as well, while the rollback snapshot is
  recorded for the first only.
\<close>

lemma rec_rollback_shared:
  assumes "rec_reach m" "s < rm_size m" "r < rm_size m" "r \<noteq> s" "r < length (rm_rs_idx m)"
    and "0 \<le> mc_tail (rm_cells m ! s)" "mc_tail (rm_cells m ! r) = mc_tail (rm_cells m ! s)"
    and "0 < p0" "p0 \<le> rec_pos (rm_cells m) s" "rec_pos (rm_cells m) s < INT32_MAX"
    and "rec_pos (rm_cells m) s - p0 + 1 \<le> int (rm_n_rs_seq m)"
  shows "\<exists>m'. rec_seq_rm (int s) p0 (-1) m = (m', True) \<and> rec_seq_pos_max (int r) m' = p0 - 1 \<and>
    rec_seq_pos_max (int r) m = rec_pos (rm_cells m) s \<and> rm_rs_idx m' ! r = rm_rs_idx m ! r"
proof -
  let ?cs = "rm_cells m"
  have t: "tails_ok m" using rec_reach_ok [OF assms(1)] by (simp add: rec_ok_def)
  have tc: "mc_tail (?cs ! i) = ctail ?cs i" for i by (simp add: ctail_def)
  have lo: "lo_pos p0 = p0" "hi_pos (-1) = INT32_MAX" using assms(8) by (simp_all add: lo_pos_def hi_pos_def)
  have p: "mc_pos (?cs ! nat (ctail ?cs s)) = rec_pos ?cs s" using assms(6) by (simp add: rec_pos_def tc)
  have "rec_seq_rm (int s) p0 (-1) m = rec_rollback s (nat (ctail ?cs s)) p0 m"
    using rec_seq_rm_roll [OF assms(2), of p0 "-1"] assms(6,8-10) by (simp add: lo tc p)
  then obtain m' where rm: "rec_seq_rm (int s) p0 (-1) m = (m', True)" and m': "rm_cells m' = ?cs[nat (ctail ?cs s) := (?cs ! nat (ctail ?cs s))\<lparr>mc_pos := p0 - 1\<rparr>]"
      "rm_rs_idx m' ! r = rm_rs_idx m ! r"
    using assms(4,8,9,11) by (auto simp: rec_rollback_def Let_def p set_rs_idx_def)
  have b: "nat (ctail ?cs s) < rm_size m" using tails_okD(3) [OF t assms(2)] assms(6) by (simp add: tc nat_less_iff)
  have "ctail (rm_cells m') r = ctail ?cs r" unfolding m' by (simp add: ctail_def nth_list_update')
  then have "rec_pos (rm_cells m') r = p0 - 1" using assms(6,7) b by (simp add: rec_pos_def m' tc)
  moreover have "rec_pos ?cs r = rec_pos ?cs s" using assms(7) by (simp add: rec_pos_def tc)
  ultimately show ?thesis
    using rec_pos_max_eq [OF tails_seq_rm [OF t assms(2) rm], of r] rec_pos_max_eq [OF t assms(3)] assms(3,8,9) rm m' by simp
qed

lemma rec_rollback_shared_witness:
  "\<exists>m'. rec_seq_rm 1 7 (-1) (rec_seq_cp 0 1 (-1) (-1) rec_demo) = (m', True) \<and> rec_seq_pos_max 0 m' = 6"
proof -
  have cp: "rec_seq_cp 0 1 (-1) (-1) rec_demo = rec_demo\<lparr>rm_cells := [\<lparr>mc_pos = 9, mc_src = 0, mc_src0 = 0, mc_tail = 0, mc_seq = {0, 1}\<rparr>,
    mem_cell_new\<lparr>mc_tail := 0\<rparr>]\<rparr>"
    by code_simp
  have "rec_reach (rec_seq_cp 0 1 (-1) (-1) rec_demo)" by (rule rec_reach.cp [OF rec_demo_reach])
  from rec_rollback_shared [OF this, of 1 0 7] show ?thesis unfolding cp
    by (auto simp: rec_demo_def mem_cell_new_def rec_pos_def ctail_def INT32_MAX_def)
qed


text \<open>
  The removal of everything from every sequence empties the cells but leaves the tails: the next
  slot search for a sequence that had a position fails the assertion that its tail cell has it.
\<close>

lemma rec_rm_all_aborts:
  assumes "rec_reach m" "rows_ok ub (rm_size m)"
    and "0 \<le> rec_pos (rm_cells m) (row_seq0 ub 0)" "rec_pos (rm_cells m) (row_seq0 ub 0) < INT32_MAX"
  shows "\<exists>m'. rec_seq_rm (-1) (-1) (-1) m = (m', True) \<and> rec_find_slot ub m' = None"
proof -
  note R = rows_okD [OF assms(2)]
  let ?q = "row_seq0 ub 0"
  let ?t = "nat (ctail (rm_cells m) ?q)"
  have ok: "tails_ok m" using rec_reach_ok [OF assms(1)] by (simp add: rec_ok_def)
  have q: "?q < rm_size m" by (rule R(5) [OF R(1) R(7) [OF R(1)]])
  have t: "0 \<le> ctail (rm_cells m) ?q" "?t < rm_size m" "0 \<le> mc_pos (rm_cells m ! ?t)" "mc_pos (rm_cells m ! ?t) < INT32_MAX"
    using assms(3,4) tails_okD(3) [OF ok q] by (auto simp: rec_pos_def nat_less_iff split: if_splits)
  obtain m1 where m1: "rec_seq_rm (-1) (-1) (-1) m = (m1, True)" "rm_cells m1 = map (rm_cell_of (-1) 0 INT32_MAX) (rm_cells m)"
    by (simp add: rec_seq_rm_def lo_pos_def hi_pos_def rec_rm_loop_cells)
  let ?m1 = "if rm_head m1 > rm_used m1 + 2 * ub_n_seqs ub then m1\<lparr>rm_head := 0\<rparr> else m1"
  have ids: "\<forall>(j, s) \<in> set (admit_ids ub). s < rm_size ?m1" using R(5) m1(2) by (auto simp: admit_ids_set)
  from rec_admit_raw [OF this] obtain m2 where m2: "rec_admit (admit_ids ub) ?m1 = (m2, True)"
    "\<forall>i. mc_seq (rm_cells m2 ! i) \<subseteq> mc_seq (rm_cells ?m1 ! i)"
    "\<forall>q. (\<forall>j > 0. (j, q) \<notin> set (admit_ids ub)) \<longrightarrow> mc_tail (rm_cells m2 ! q) = mc_tail (rm_cells ?m1 ! q)" by blast
  have "(j, ?q) \<notin> set (admit_ids ub)" if "j > 0" for j using first_id [OF assms(2) R(1)] that by blast
  then have "mc_tail (rm_cells m2 ! ?q) = ctail (rm_cells m) ?q" using m2(3) q by (simp add: m1(2) ctail_def rm_cell_of_def Let_def)
  moreover have "mc_seq (rm_cells ?m1 ! ?t) = {}" using t by (simp add: m1(2) rm_cell_of_def Let_def)
  then have "mc_seq (rm_cells m2 ! ?t) = {}" using m2(2) by blast
  ultimately have "claim_row ub 0 (m2, e, mn, mx) = None" for e mn mx
    using t(1) by (simp add: claim_row_def Let_def)
  then have "claim_rows ub [0..<ub_n_seqs ub] (m2, e, mn, mx) = None" for e mn mx using R(1) by (simp add: upt_conv_Cons)
  then have "rec_find_slot ub m1 = None" using m2(1) by (simp add: rec_find_slot_def Let_def)
  then show ?thesis using m1(1) by blast
qed

lemma rec_rm_all_aborts_witness:
  "rec_find_slot (rec_demo_ub 0 10) (fst (rec_seq_rm (-1) (-1) (-1) rec_demo)) = None"
proof -
  have u: "rows_ok (rec_demo_ub 0 10) (rm_size rec_demo)" using rec_demo_rows [of 0 10] by (simp add: rec_demo_def numeral_2_eq_2)
  have "row_seq0 (rec_demo_ub 0 10) 0 = 0" by (simp add: row_seq0_def row_tok_def rec_demo_ub_def)
  then show ?thesis using rec_rm_all_aborts [OF rec_demo_reach u] by (auto simp: rec_demo_def rec_pos_def ctail_def INT32_MAX_def)
qed

text \<open>
  The dry run of the recurrent memory over micro-batches with distinct sequences succeeds and
  leaves the memory as it was, but for \<open>n\<close> and \<open>rs_z\<close>, which keep the values of the last search.
\<close>

lemma rec_prepare_restores:
  assumes "rec_reach m" "\<forall>ub \<in> set ubs. rows_ok ub (rm_size m)"
  shows "\<exists>n z. rec_prepare ubs m = Some (m\<lparr>rm_n := n, rm_rs_z := z\<rparr>, True)"
proof -
  have "\<exists>m'. rec_try_slots ubs m0 = Some (m', True) \<and> rec_frame m m'"
    if "rec_reach m0" "rm_size m0 = rm_size m" "rec_frame m m0" for m0
    using assms(2) that
  proof (induction ubs arbitrary: m0)
    case (Cons ub ubs)
    from Cons.prems(1,3) have u: "rows_ok ub (rm_size m0)" by simp
    from find_slot_ok [OF rec_reach_ok [OF Cons.prems(2)] u] obtain m1 where m1: "rec_find_slot ub m0 = Some (m1, True)" "rows_placed ub m0 m1" by blast
    have "rec_frame m m1" using frame_find_slot [OF m1(1)] Cons.prems(4) by (simp add: rec_frame_def)
    then show ?case
      using Cons.IH [of m1] Cons.prems rec_reach.find [OF Cons.prems(2) u m1(1)] m1 by (simp add: rows_placed_def)
  qed simp
  from this [OF assms(1)] obtain m' where m': "rec_try_slots ubs m = Some (m', True)" "rec_frame m m'" by auto
  have "m'\<lparr>rm_cells := rm_cells m, rm_used := rm_used m, rm_head := rm_head m\<rparr> = m\<lparr>rm_n := rm_n m', rm_rs_z := rm_rs_z m'\<rparr>"
    using m'(2) by (simp add: rec_frame_def rec_mem.equality)
  then show ?thesis using m'(1) by (auto simp: rec_prepare_def)
qed

lemma rec_prepare_restores_witness:
  "\<exists>n z. rec_prepare [rec_demo_ub 1 3, rec_demo_ub 0 10] rec_demo = Some (rec_demo\<lparr>rm_n := n, rm_rs_z := z\<rparr>, True)"
  using rec_demo_rows [of 1 3] rec_demo_rows [of 0 10]
  by (intro rec_prepare_restores [OF rec_demo_reach]) (simp add: rec_demo_def numeral_2_eq_2)

end
