(* ===== verification/Grammar_Utf8.thy ===== *)
theory Grammar_Utf8
  imports Prelude
begin

text \<open>
  The UTF-8 decoder of the grammar (src/src/llama-grammar.cpp, lines 18 to 92): the pieces of a token
  stream end anywhere, so an unfinished character is carried from piece to piece. Bytes and
  \<open>uint32_t\<close> values are naturals, with the wrap-around of the shift written out; a mask
  \<open>(1 << k) - 1\<close> is a remainder. Reading past the end of a string gives its terminating 0.
\<close>

type_synonym byte = nat
type_synonym uint32 = nat

record llama_partial_utf8 =
  pu_value :: uint32
  pu_n_remain :: int

definition utf8_push :: "uint32 \<Rightarrow> byte \<Rightarrow> uint32" where
  "utf8_push v b = (v * 64 + b mod 64) mod 2 ^ 32"

section \<open>One character of a grammar text\<close>

definition utf8_len :: "byte \<Rightarrow> nat" where
  "utf8_len b = [1, 1, 1, 1, 1, 1, 1, 1, 1, 1, 1, 1, 2, 2, 3, 4] ! (b div 16)"

fun utf8_more :: "nat \<Rightarrow> byte list \<Rightarrow> uint32 \<Rightarrow> uint32 \<times> byte list" where
  "utf8_more (Suc k) (b # bs) v = (if b = 0 then (v, b # bs) else utf8_more k bs (utf8_push v b))"
| "utf8_more k bs v = (v, bs)"

text \<open>The caller has seen that the text is not at its end.\<close>

definition decode_utf8_char :: "byte list \<Rightarrow> uint32 \<times> byte list" where
  "decode_utf8_char src =
     (let first_byte = hd src; len = utf8_len first_byte
      in utf8_more (len - 1) (tl src) (first_byte mod 2 ^ (8 - len)))"

section \<open>A piece of a token stream\<close>

definition utf8_remain :: "byte \<Rightarrow> int" where
  "utf8_remain b = [1, 1, 1, 1, 1, 1, 1, 1, 0, 0, 0, 0, 2, 2, 3, 4] ! (b div 16) - 1"

text \<open>The continuation of a carried character; \<open>None\<close> on a byte that is no continuation.\<close>

fun utf8_continue :: "byte list \<Rightarrow> uint32 \<Rightarrow> int \<Rightarrow> (byte list \<times> uint32 \<times> int) option" where
  "utf8_continue [] v n = Some ([], v, n)"
| "utf8_continue (b # bs) v n =
     (if b = 0 \<or> n \<le> 0 then Some (b # bs, v, n)
      else if b div 64 \<noteq> 2 then None
      else utf8_continue bs (utf8_push v b) (n - 1))"

fun utf8_follow :: "byte list \<Rightarrow> uint32 \<Rightarrow> int \<Rightarrow> byte list \<times> uint32 \<times> int" where
  "utf8_follow [] v n = ([], v, n)"
| "utf8_follow (b # bs) v n = (if b = 0 \<or> n \<le> 0 then (b # bs, v, n) else utf8_follow bs (utf8_push v b) (n - 1))"

lemma utf8_follow_length: "length (fst (utf8_follow bs v n)) \<le> length bs"
  by (induction bs v n rule: utf8_follow.induct) auto

text \<open>The main loop; the third and fourth argument are \<open>value\<close> and \<open>n_remain\<close>, the last one the code points.\<close>

function utf8_loop :: "byte list \<Rightarrow> uint32 \<Rightarrow> int \<Rightarrow> uint32 list \<Rightarrow> uint32 list \<times> llama_partial_utf8" where
  "utf8_loop [] v n cps = (cps @ [0], \<lparr>pu_value = v, pu_n_remain = n\<rparr>)"
| "utf8_loop (b # bs) v n cps =
     (if b = 0 then (cps @ [0], \<lparr>pu_value = v, pu_n_remain = n\<rparr>)
      else
        let n = utf8_remain b
        in if n < 0 then ([0], \<lparr>pu_value = 0, pu_n_remain = n\<rparr>)
           else (case utf8_follow bs (b mod 2 ^ nat (7 - n)) n of
                   (bs', v, n) \<Rightarrow> utf8_loop bs' v n (if n = 0 then cps @ [v] else cps)))"
  by pat_completeness auto

termination
proof (relation "measure (\<lambda>(bs, _). length bs)", goal_cases)
  case (2 b bs v n cps x z y)
  then show ?case using utf8_follow_length [of bs "b mod 2 ^ nat (7 - x)" x] by (simp add: less_Suc_eq_le) (metis fst_conv)
qed simp

definition decode_utf8 :: "byte list \<Rightarrow> llama_partial_utf8 \<Rightarrow> uint32 list \<times> llama_partial_utf8" where
  "decode_utf8 src partial_start =
     (case utf8_continue src (pu_value partial_start) (pu_n_remain partial_start) of
        None \<Rightarrow> ([0], \<lparr>pu_value = 0, pu_n_remain = -1\<rparr>)
      | Some (pos, value, n_remain) \<Rightarrow>
          utf8_loop pos value n_remain (if pu_n_remain partial_start > 0 \<and> n_remain = 0 then [value] else []))"


section \<open>Streams of encoded characters\<close>

text \<open>The encoding of a code point (RFC 3629), the reference of the decoder.\<close>

definition utf8_enc :: "uint32 \<Rightarrow> byte list" where
  "utf8_enc c =
     (if c < 0x80 then [c]
      else if c < 0x800 then [192 + c div 64, 128 + c mod 64]
      else if c < 0x10000 then [224 + c div 4096, 128 + c div 64 mod 64, 128 + c mod 64]
      else [240 + c div 262144, 128 + c div 4096 mod 64, 128 + c div 64 mod 64, 128 + c mod 64])"

definition code_point :: "uint32 \<Rightarrow> bool" where
  "code_point c \<longleftrightarrow> 0 < c \<and> c < 0x110000"

abbreviation utf8_pushes :: "byte list \<Rightarrow> uint32 \<Rightarrow> uint32" where
  "utf8_pushes bs v \<equiv> foldl utf8_push v bs"

text \<open>What the decoder uses of an encoded character.\<close>

definition encodes :: "uint32 \<Rightarrow> byte \<Rightarrow> byte list \<Rightarrow> bool" where
  "encodes c b rest \<longleftrightarrow> b \<noteq> 0 \<and> utf8_remain b = int (length rest) \<and>
     utf8_pushes rest (b mod 2 ^ (7 - length rest)) = c \<and> (\<forall>x \<in> set rest. x \<noteq> 0 \<and> x div 64 = 2)"

lemma remain_lead:
  "b < 128 \<Longrightarrow> utf8_remain b = 0" "x < 32 \<Longrightarrow> utf8_remain (192 + x) = 1" "x < 16 \<Longrightarrow> utf8_remain (224 + x) = 2" "x < 16 \<Longrightarrow> utf8_remain (240 + x) = 3"
proof -
  show "utf8_remain b = 0" if "b < 128"
  proof -
    have "b div 16 \<in> {0, 1, 2, 3, 4, 5, 6, 7}" using that by auto
    then show ?thesis unfolding utf8_remain_def by (elim insertE emptyE) simp_all
  qed
  show "utf8_remain (192 + x) = 1" if "x < 32"
  proof -
    have "(192 + x) div 16 \<in> {12, 13}" using that by auto
    then show ?thesis unfolding utf8_remain_def by (elim insertE emptyE) simp_all
  qed
  show "utf8_remain (224 + x) = 2" if "x < 16" using that by (simp add: utf8_remain_def)
  show "utf8_remain (240 + x) = 3" if "x < 16" using that by (simp add: utf8_remain_def)
qed

lemma add_mult_mod: "y < (m :: nat) \<Longrightarrow> (k * m + y) mod m = y" "y < m \<Longrightarrow> (k * m + y) div m = k"
  by simp_all

lemmas byte_ops = add_mult_mod [of _ 64 2, simplified] add_mult_mod [of _ 64 3, simplified] add_mult_mod [of _ 32 7, simplified] add_mult_mod [of _ 16 15, simplified]

lemma push_low: "v < 2 ^ 26 \<Longrightarrow> utf8_push v (128 + x mod 64) = v * 64 + x mod 64"
  by (simp add: utf8_push_def byte_ops)

lemma split64: "c div 64 * 64 + c mod 64 = (c :: nat)" "c div 4096 * 64 + c div 64 mod 64 = c div 64"
  "c div 262144 * 64 + c div 4096 mod 64 = c div 4096"
  using div_mult_mod_eq [of "c div 64" 64] div_mult_mod_eq [of "c div 4096" 64]
  by (simp_all add: div_mult2_eq [symmetric])

lemma push_back:
  assumes "c < 0x110000"
  shows "utf8_push (c div 64) (128 + c mod 64) = c" "utf8_push (c div 4096) (128 + c div 64 mod 64) = c div 64"
    "utf8_push (c div 262144) (128 + c div 4096 mod 64) = c div 4096"
proof -
  have "c div 64 < 2 ^ 26" "c div 4096 < 2 ^ 26" "c div 262144 < 2 ^ 26" using assms by (simp_all add: div_less_iff_less_mult)
  then show "utf8_push (c div 64) (128 + c mod 64) = c" "utf8_push (c div 4096) (128 + c div 64 mod 64) = c div 64"
    "utf8_push (c div 262144) (128 + c div 4096 mod 64) = c div 4096"
    by (simp_all only: push_low split64)
qed

lemma utf8_enc_encodes:
  assumes "code_point c"
  shows "\<exists>b rest. utf8_enc c = b # rest \<and> encodes c b rest"
proof -
  consider "c < 0x80" | "0x80 \<le> c" "c < 0x800" | "0x800 \<le> c" "c < 0x10000" | "0x10000 \<le> c" "c < 0x110000"
    using assms by (fastforce simp: code_point_def)
  then show ?thesis
  proof cases
    case 1
    then show ?thesis using assms by (simp add: utf8_enc_def encodes_def remain_lead code_point_def)
  next
    case 2
    then have "c div 64 < 32" by (simp add: div_less_iff_less_mult)
    then show ?thesis using 2 by (simp add: utf8_enc_def encodes_def byte_ops push_back remain_lead)
  next
    case 3
    then have "c div 4096 < 16" by (simp add: div_less_iff_less_mult)
    then show ?thesis using 3 by (simp add: utf8_enc_def encodes_def byte_ops push_back remain_lead)
  next
    case 4
    then have "c div 262144 < 16" by (simp add: div_less_iff_less_mult)
    then show ?thesis using 4 by (simp add: utf8_enc_def encodes_def byte_ops push_back remain_lead)
  qed
qed


section \<open>Decoding in pieces\<close>

text \<open>The state \<open>p\<close> has the code points \<open>ds\<close> to come from the bytes \<open>bs\<close>, the first of them begun.\<close>

definition owes :: "llama_partial_utf8 \<Rightarrow> uint32 list \<Rightarrow> byte list \<Rightarrow> bool" where
  "owes p ds bs \<longleftrightarrow> (pu_n_remain p = 0 \<and> bs = concat (map utf8_enc ds)) \<or>
     (\<exists>c cs b pre q. ds = c # cs \<and> utf8_enc c = b # pre @ q \<and> q \<noteq> [] \<and> pu_n_remain p = int (length q) \<and>
        pu_value p = utf8_pushes pre (b mod 2 ^ (7 - length (pre @ q))) \<and> bs = q @ concat (map utf8_enc cs))"

definition cont_bytes :: "byte list \<Rightarrow> bool" where
  "cont_bytes bs \<longleftrightarrow> (\<forall>x \<in> set bs. x \<noteq> 0 \<and> x div 64 = 2)"

lemma follow_all: "cont_bytes q \<Longrightarrow> utf8_follow (q @ bs) v (int (length q)) = (bs, utf8_pushes q v, 0)"
proof (induction q arbitrary: v)
  case Nil then show ?case by (cases bs) simp_all
qed (simp add: cont_bytes_def)

lemma follow_some: "cont_bytes q \<Longrightarrow> int (length q) \<le> n \<Longrightarrow> utf8_follow q v n = ([], utf8_pushes q v, n - int (length q))"
  by (induction q arbitrary: v n) (auto simp: cont_bytes_def algebra_simps)

lemma continue_all: "cont_bytes q \<Longrightarrow> utf8_continue (q @ bs) v (int (length q)) = Some (bs, utf8_pushes q v, 0)"
proof (induction q arbitrary: v)
  case Nil then show ?case by (cases bs) simp_all
qed (simp add: cont_bytes_def)

lemma continue_some: "cont_bytes q \<Longrightarrow> int (length q) \<le> n \<Longrightarrow> utf8_continue q v n = Some ([], utf8_pushes q v, n - int (length q))"
  by (induction q arbitrary: v n) (auto simp: cont_bytes_def algebra_simps)

text \<open>Two ways to cut \<open>xs @ ys\<close>.\<close>

lemma cut_cases:
  assumes "a @ b = xs @ ys"
  obtains a' where "a = xs @ a'" "ys = a' @ b" | x where "x \<noteq> []" "xs = a @ x" "b = x @ ys"
proof -
  from assms obtain us where "(a = xs @ us \<and> us @ b = ys) \<or> (a @ us = xs \<and> b = us @ ys)" by (auto simp: append_eq_append_conv2)
  then show thesis using that by (cases "us = []") auto
qed

lemma nat7: "nat (7 - int n) = 7 - n"
  by linarith

text \<open>The main loop on a prefix of a stream.\<close>

lemma utf8_loop_owes:
  assumes "\<forall>c \<in> set ds. code_point c" "a @ b = concat (map utf8_enc ds)"
  shows "\<exists>done ds'. ds = done @ ds' \<and> fst (utf8_loop a v 0 cps) = cps @ done @ [0] \<and> owes (snd (utf8_loop a v 0 cps)) ds' b"
  using assms
proof (induction ds arbitrary: a v cps)
  case Nil then show ?case by (simp add: owes_def)
next
  case (Cons c ds)
  obtain l rest where c: "utf8_enc c = l # rest" "encodes c l rest" using utf8_enc_encodes Cons.prems(1) by force
  have rest: "cont_bytes rest" and l: "l \<noteq> 0" "utf8_remain l = int (length rest)" and val: "utf8_pushes rest (l mod 2 ^ (7 - length rest)) = c"
    using c(2) by (auto simp: encodes_def cont_bytes_def)
  show ?case
  proof (cases a)
    case Nil
    then show ?thesis using Cons.prems(2) by (intro exI [of _ "[]"] exI [of _ "c # ds"]) (simp add: owes_def)
  next
    case (Cons x a')
    then have x: "x = l" and cut: "a' @ b = rest @ concat (map utf8_enc ds)" using Cons.prems(2) c(1) by auto
    show ?thesis
    proof (rule cut_cases [OF cut])
      fix a'' assume a'': "a' = rest @ a''" "concat (map utf8_enc ds) = a'' @ b"
      have e: "utf8_loop a v 0 cps = utf8_loop a'' c 0 (cps @ [c])"
        using l val follow_all [OF rest, of a'' "l mod 2 ^ (7 - length rest)"] by (simp add: Cons x a''(1) Let_def nat7)
      from Cons.IH [of a'' c "cps @ [c]"] Cons.prems(1) a''(2) obtain d ds' where
        "ds = d @ ds'" "fst (utf8_loop a'' c 0 (cps @ [c])) = (cps @ [c]) @ d @ [0]" "owes (snd (utf8_loop a'' c 0 (cps @ [c]))) ds' b" by auto
      then show ?thesis unfolding e by (intro exI [of _ "c # d"] exI [of _ ds']) simp
    next
      fix q assume q: "q \<noteq> []" "rest = a' @ q" "b = q @ concat (map utf8_enc ds)"
      have "cont_bytes a'" using rest q(2) by (simp add: cont_bytes_def)
      then have "utf8_follow a' (l mod 2 ^ (7 - length rest)) (int (length rest)) = ([], utf8_pushes a' (l mod 2 ^ (7 - length rest)), int (length q))"
        using follow_some [of a' "int (length rest)" "l mod 2 ^ (7 - length rest)"] q(2) by simp
      then have "utf8_loop a v 0 cps = (cps @ [0], \<lparr>pu_value = utf8_pushes a' (l mod 2 ^ (7 - length rest)), pu_n_remain = int (length q)\<rparr>)"
        using l q(1) by (simp add: Cons x Let_def nat7)
      then show ?thesis using q c(1)
        by (intro exI [of _ "[]"] exI [of _ "c # ds"]) (auto simp: owes_def)
    qed
  qed
qed

lemma decode_owes:
  assumes ok: "\<forall>c \<in> set ds. code_point c" and ow: "owes p ds (a @ b)"
  shows "\<exists>done ds'. ds = done @ ds' \<and> fst (decode_utf8 a p) = done @ [0] \<and> owes (snd (decode_utf8 a p)) ds' b"
proof -
  consider (clean) "pu_n_remain p = 0" "a @ b = concat (map utf8_enc ds)"
    | (mid) c cs l pre q where "ds = c # cs" "utf8_enc c = l # pre @ q" "q \<noteq> []" "pu_n_remain p = int (length q)"
        "pu_value p = utf8_pushes pre (l mod 2 ^ (7 - length (pre @ q)))" "a @ b = q @ concat (map utf8_enc cs)"
    using ow by (auto simp: owes_def)
  then show ?thesis
  proof cases
    case clean
    have "utf8_continue a (pu_value p) 0 = Some (a, pu_value p, 0)" by (cases a) simp_all
    then show ?thesis using utf8_loop_owes [OF ok clean(2), of "pu_value p" "[]"] clean(1) by (simp add: decode_utf8_def)
  next
    case mid
    have "encodes c l (pre @ q)" using utf8_enc_encodes [of c] ok mid(1,2) by auto
    then have q: "cont_bytes q" and val: "utf8_pushes q (pu_value p) = c" using mid(5) by (auto simp: encodes_def cont_bytes_def)
    show ?thesis
    proof (rule cut_cases [OF mid(6)])
      fix a' assume a': "a = q @ a'" "concat (map utf8_enc cs) = a' @ b"
      have "decode_utf8 a p = utf8_loop a' c 0 [c]"
        using continue_all [OF q, of a' "pu_value p"] mid(3,4) val by (simp add: decode_utf8_def a'(1))
      moreover obtain d ds' where "cs = d @ ds'" "fst (utf8_loop a' c 0 [c]) = [c] @ d @ [0]" "owes (snd (utf8_loop a' c 0 [c])) ds' b"
        using utf8_loop_owes [of cs a' b c "[c]"] ok mid(1) a'(2) by auto
      ultimately show ?thesis using mid(1) by (intro exI [of _ "c # d"] exI [of _ ds']) simp
    next
      fix x assume x: "x \<noteq> []" "q = a @ x" "b = x @ concat (map utf8_enc cs)"
      have a: "cont_bytes a" using q x(2) by (simp add: cont_bytes_def)
      have "decode_utf8 a p = ([0], \<lparr>pu_value = utf8_pushes a (pu_value p), pu_n_remain = int (length x)\<rparr>)"
        using continue_some [OF a, of "pu_n_remain p" "pu_value p"] mid(4) x(1,2) by (simp add: decode_utf8_def)
      then show ?thesis using x mid(1,2,5)
        by (intro exI [of _ "[]"] exI [of _ ds])
          (auto simp: owes_def add.assoc intro!: disjI2 exI [of _ "pre @ a"])
    qed
  qed
qed

fun decode_pieces :: "byte list list \<Rightarrow> llama_partial_utf8 \<Rightarrow> uint32 list \<times> llama_partial_utf8" where
  "decode_pieces [] p = ([], p)"
| "decode_pieces (a # as) p =
     (case decode_utf8 a p of (cps, p) \<Rightarrow> (case decode_pieces as p of (cps', p) \<Rightarrow> (butlast cps @ cps', p)))"

text \<open>
  C31. However a stream of valid UTF-8 is cut into pieces, also inside a character, decoding the pieces
  one after the other with the carried state gives exactly the encoded code points and no rest.
\<close>

theorem utf8_pieces_roundtrip:
  assumes "\<forall>c \<in> set cs. code_point c" "concat pieces = concat (map utf8_enc cs)"
  shows "fst (decode_pieces pieces \<lparr>pu_value = 0, pu_n_remain = 0\<rparr>) = cs \<and>
    pu_n_remain (snd (decode_pieces pieces \<lparr>pu_value = 0, pu_n_remain = 0\<rparr>)) = 0"
proof -
  have ne: "utf8_enc c \<noteq> []" for c by (simp add: utf8_enc_def)
  have "owes p cs (concat pieces) \<Longrightarrow> fst (decode_pieces pieces p) = cs \<and> pu_n_remain (snd (decode_pieces pieces p)) = 0" for p
    using assms(1)
  proof (induction pieces arbitrary: p cs)
    case Nil then show ?case by (auto simp: owes_def ne concat_eq_Nil_conv)
  next
    case (Cons a pieces)
    have "owes p cs (a @ concat pieces)" using Cons.prems(1) by simp
    from decode_owes [OF Cons.prems(2) this] obtain d ds where
      d: "cs = d @ ds" "fst (decode_utf8 a p) = d @ [0]" "owes (snd (decode_utf8 a p)) ds (concat pieces)" by blast
    from Cons.IH [OF d(3)] Cons.prems(2) d(1) have "fst (decode_pieces pieces (snd (decode_utf8 a p))) = ds \<and>
      pu_n_remain (snd (decode_pieces pieces (snd (decode_utf8 a p)))) = 0" by auto
    then show ?case using d(1,2) by (auto split: prod.splits)
  qed
  then show ?thesis using assms(2) by (simp add: owes_def)
qed

theorem utf8_pieces_roundtrip_witness:
  "fst (decode_pieces [[97, 0xE2, 0x82], [], [0xAC, 98, 0xF0], [0x9F, 0x98], [0x80]] \<lparr>pu_value = 0, pu_n_remain = 0\<rparr>) = [97, 0x20AC, 98, 0x1F600]"
  using utf8_pieces_roundtrip [of "[97, 0x20AC, 98, 0x1F600]" "[[97, 0xE2, 0x82], [], [0xAC, 98, 0xF0], [0x9F, 0x98], [0x80]]"]
  by (simp add: code_point_def utf8_enc_def)

end
