(* ===== verification/Grammar.thy ===== *)
theory Grammar
  imports Grammar_Utf8
begin

text \<open>
  The grammar engine (src/src/llama-grammar.cpp, llama-grammar.h): rules as element vectors, a set of
  pushdown stacks that is advanced by every accepted code point, the rejection of candidate tokens,
  the check for left recursion and the construction. A pointer into a rule is its rule and index; a
  stack has its top (the back of the vector) first. The vocabulary and the regular expressions are
  arguments.

  Results: \<open>None\<close> when a loop does not end, \<open>Inl\<close> an abort, an access past the rules or a thrown
  error, \<open>Inr\<close> a value. An element read past its rule is an end; rules end with one.
\<close>

section \<open>Rules, stacks, results\<close>

datatype llama_gretype =
  GRETYPE_END | GRETYPE_ALT | GRETYPE_RULE_REF | GRETYPE_CHAR | GRETYPE_CHAR_NOT
| GRETYPE_CHAR_RNG_UPPER | GRETYPE_CHAR_ALT | GRETYPE_CHAR_ANY | GRETYPE_TOKEN | GRETYPE_TOKEN_NOT

record llama_grammar_element =
  ge_type :: llama_gretype
  ge_value :: uint32

type_synonym llama_grammar_rule = "llama_grammar_element list"
type_synonym llama_grammar_rules = "llama_grammar_rule list"
type_synonym gpos = "nat \<times> nat"
type_synonym llama_grammar_stack = "gpos list"
type_synonym llama_grammar_stacks = "llama_grammar_stack list"

datatype gerror = G_ABORT | G_BOUNDS | G_EMPTY_STACKS

type_synonym 'a gres = "(gerror + 'a) option"

abbreviation ok_res :: "'a \<Rightarrow> ('e + 'a) option" where "ok_res x \<equiv> Some (Inr x)"
abbreviation err_res :: "'e \<Rightarrow> ('e + 'a) option" where "err_res e \<equiv> Some (Inl e)"

definition gbind :: "('e + 'a) option \<Rightarrow> ('a \<Rightarrow> ('e + 'b) option) \<Rightarrow> ('e + 'b) option" where
  "gbind r f = (case r of None \<Rightarrow> None | Some (Inl e) \<Rightarrow> err_res e | Some (Inr x) \<Rightarrow> f x)"

fun gfold :: "('x \<Rightarrow> 's \<Rightarrow> ('e + 's) option) \<Rightarrow> 'x list \<Rightarrow> 's \<Rightarrow> ('e + 's) option" where
  "gfold f [] s = ok_res s"
| "gfold f (x # xs) s = gbind (f x s) (gfold f xs)"

definition end_elem :: llama_grammar_element where
  "end_elem = \<lparr>ge_type = GRETYPE_END, ge_value = 0\<rparr>"

definition rule_at :: "llama_grammar_rules \<Rightarrow> nat \<Rightarrow> llama_grammar_rule" where
  "rule_at rules r = (if r < length rules then rules ! r else [])"

definition elem_at :: "llama_grammar_rules \<Rightarrow> gpos \<Rightarrow> llama_grammar_element" where
  "elem_at rules p = (case p of (r, i) \<Rightarrow> if i < length (rule_at rules r) then rule_at rules r ! i else end_elem)"

definition is_end_of_sequence :: "llama_grammar_element \<Rightarrow> bool" where
  "is_end_of_sequence e \<longleftrightarrow> ge_type e = GRETYPE_END \<or> ge_type e = GRETYPE_ALT"

abbreviation pos_next :: "gpos \<Rightarrow> gpos" where "pos_next p \<equiv> (fst p, snd p + 1)"

text \<open>A position is pushed unless it ends its sequence.\<close>

definition push_pos :: "llama_grammar_rules \<Rightarrow> gpos \<Rightarrow> llama_grammar_stack \<Rightarrow> llama_grammar_stack" where
  "push_pos rules p st = (if is_end_of_sequence (elem_at rules p) then st else p # st)"

section \<open>Matching\<close>

fun head_type :: "llama_grammar_element list \<Rightarrow> llama_gretype" where
  "head_type [] = GRETYPE_END"
| "head_type (e # _) = ge_type e"

text \<open>The do-while loop over a character class: the result and the number of elements passed.\<close>

fun match_loop :: "llama_grammar_element list \<Rightarrow> uint32 \<Rightarrow> bool \<Rightarrow> nat \<Rightarrow> bool \<times> nat" where
  "match_loop [] chr found k = (found, k)"
| "match_loop [e] chr found k = (found \<or> ge_type e = GRETYPE_CHAR_ANY \<or> ge_value e = chr, k + 1)"
| "match_loop (e # e2 # es) chr found k =
     (if ge_type e2 = GRETYPE_CHAR_RNG_UPPER then
        (let found = (found \<or> (ge_value e \<le> chr \<and> chr \<le> ge_value e2))
         in if head_type es = GRETYPE_CHAR_ALT then match_loop es chr found (k + 2) else (found, k + 2))
      else
        (let found = (if ge_type e = GRETYPE_CHAR_ANY then True else found \<or> ge_value e = chr)
         in if ge_type e2 = GRETYPE_CHAR_ALT then match_loop (e2 # es) chr found (k + 1) else (found, k + 1)))"

definition is_positive_char :: "llama_grammar_element \<Rightarrow> bool" where
  "is_positive_char e \<longleftrightarrow> ge_type e = GRETYPE_CHAR \<or> ge_type e = GRETYPE_CHAR_ANY"

definition llama_grammar_match_char :: "llama_grammar_rules \<Rightarrow> gpos \<Rightarrow> uint32 \<Rightarrow> (bool \<times> gpos) gres" where
  "llama_grammar_match_char rules p chr =
     (let e = elem_at rules p; pos = is_positive_char e
      in if \<not> (pos \<or> ge_type e = GRETYPE_CHAR_NOT) then err_res G_ABORT
         else (case match_loop (drop (snd p) (rule_at rules (fst p))) chr False 0 of
                 (found, k) \<Rightarrow> ok_res (found = pos, (fst p, snd p + k))))"

fun partial_loop :: "llama_grammar_element list \<Rightarrow> uint32 \<Rightarrow> uint32 \<Rightarrow> bool \<Rightarrow> bool" where
  "partial_loop [] low high pos = (\<not> pos)"
| "partial_loop [e] low high pos =
     (if ge_type e = GRETYPE_CHAR_ANY then True
      else if low \<le> ge_value e \<and> ge_value e \<le> high then pos else \<not> pos)"
| "partial_loop (e # e2 # es) low high pos =
     (if ge_type e2 = GRETYPE_CHAR_RNG_UPPER then
        (if ge_value e \<le> high \<and> low \<le> ge_value e2 then pos
         else if head_type es = GRETYPE_CHAR_ALT then partial_loop es low high pos else \<not> pos)
      else if ge_type e = GRETYPE_CHAR_ANY then True
      else if low \<le> ge_value e \<and> ge_value e \<le> high then pos
      else if ge_type e2 = GRETYPE_CHAR_ALT then partial_loop (e2 # es) low high pos else \<not> pos)"

text \<open>
  The code points an unfinished character can still become: \<open>low\<close> is a multiple of \<open>2 ^ (6 * n)\<close>, so
  the bitwise or with \<open>2 ^ (6 * n) - 1\<close> is a sum.
\<close>

definition partial_range :: "llama_partial_utf8 \<Rightarrow> uint32 \<times> uint32" where
  "partial_range p =
     (let n = nat (pu_n_remain p);
          low = pu_value p * 2 ^ (6 * n) mod 2 ^ 32;
          high = low + (2 ^ (6 * n) - 1);
          low = (if low = 0 then (if n = 2 then 2 ^ 11 else if n = 3 then 2 ^ 16 else low) else low)
      in (low, high))"

definition llama_grammar_match_partial_char :: "llama_grammar_rules \<Rightarrow> gpos \<Rightarrow> llama_partial_utf8 \<Rightarrow> bool gres" where
  "llama_grammar_match_partial_char rules p partial_utf8 =
     (let e = elem_at rules p; pos = is_positive_char e
      in if \<not> (pos \<or> ge_type e = GRETYPE_CHAR_NOT) then err_res G_ABORT
         else if pu_n_remain partial_utf8 < 0 \<or> (pu_n_remain partial_utf8 = 1 \<and> pu_value partial_utf8 < 2) then ok_res False
         else (case partial_range partial_utf8 of
                 (low, high) \<Rightarrow> ok_res (partial_loop (drop (snd p) (rule_at rules (fst p))) low high pos)))"

definition is_token_elem :: "llama_grammar_element \<Rightarrow> bool" where
  "is_token_elem e \<longleftrightarrow> ge_type e = GRETYPE_TOKEN \<or> ge_type e = GRETYPE_TOKEN_NOT"

definition llama_grammar_match_token :: "llama_grammar_rules \<Rightarrow> gpos \<Rightarrow> llama_token \<Rightarrow> bool gres" where
  "llama_grammar_match_token rules p token =
     (let e = elem_at rules p
      in if ge_type e = GRETYPE_TOKEN then ok_res (int (ge_value e) = token mod 2 ^ 32)
         else if ge_type e = GRETYPE_TOKEN_NOT then ok_res (int (ge_value e) \<noteq> token mod 2 ^ 32)
         else err_res G_ABORT)"

section \<open>Stacks\<close>

text \<open>The first elements of the alternatives of a rule, scanned to its end.\<close>

fun scan_alts :: "llama_grammar_element list \<Rightarrow> nat \<Rightarrow> nat \<Rightarrow> nat list option" where
  "scan_alts [] k start = None"
| "scan_alts (e # es) k start =
     (if ge_type e = GRETYPE_END then Some [start]
      else if ge_type e = GRETYPE_ALT then map_option ((#) start) (scan_alts es (k + 1) (k + 1))
      else scan_alts es (k + 1) start)"

definition alt_starts :: "llama_grammar_rules \<Rightarrow> nat \<Rightarrow> nat list option" where
  "alt_starts rules r = (if r < length rules then scan_alts (rules ! r) 0 0 else None)"

text \<open>The stacks a rule reference at the top is replaced by, in the order they are pushed.\<close>

definition expand_ref :: "llama_grammar_rules \<Rightarrow> gpos \<Rightarrow> llama_grammar_stack \<Rightarrow> llama_grammar_stacks option" where
  "expand_ref rules p rest =
     map_option (map (\<lambda>start. push_pos rules (ge_value (elem_at rules p), start) (push_pos rules (pos_next p) rest)))
       (alt_starts rules (ge_value (elem_at rules p)))"

definition add_stack :: "llama_grammar_stack \<Rightarrow> llama_grammar_stacks \<Rightarrow> llama_grammar_stacks" where
  "add_stack s ss = (if s \<in> set ss then ss else ss @ [s])"

definition is_terminal :: "llama_grammar_element \<Rightarrow> bool" where
  "is_terminal e \<longleftrightarrow> ge_type e \<in> {GRETYPE_CHAR, GRETYPE_CHAR_NOT, GRETYPE_CHAR_ANY, GRETYPE_TOKEN, GRETYPE_TOKEN_NOT}"

partial_function (option) advance_loop ::
  "llama_grammar_rules \<Rightarrow> llama_grammar_stacks \<Rightarrow> llama_grammar_stacks \<Rightarrow> llama_grammar_stacks \<Rightarrow> llama_grammar_stacks gres" where
  "advance_loop rules todo seen new_stacks =
     (case todo of
        [] \<Rightarrow> ok_res new_stacks
      | cur # todo \<Rightarrow>
          if cur \<in> set seen then advance_loop rules todo seen new_stacks
          else (case cur of
            [] \<Rightarrow> advance_loop rules todo (cur # seen) (add_stack cur new_stacks)
          | p # rest \<Rightarrow>
              if ge_type (elem_at rules p) = GRETYPE_RULE_REF then
                (case expand_ref rules p rest of
                   None \<Rightarrow> err_res G_BOUNDS
                 | Some nexts \<Rightarrow> advance_loop rules (rev nexts @ todo) (cur # seen) new_stacks)
              else if is_terminal (elem_at rules p) then
                advance_loop rules todo (cur # seen) (add_stack cur new_stacks)
              else err_res G_ABORT))"

definition llama_grammar_advance_stack ::
  "llama_grammar_rules \<Rightarrow> llama_grammar_stack \<Rightarrow> llama_grammar_stacks \<Rightarrow> llama_grammar_stacks gres" where
  "llama_grammar_advance_stack rules stack new_stacks = advance_loop rules [stack] [] new_stacks"

definition llama_grammar_accept_chr ::
  "llama_grammar_rules \<Rightarrow> llama_grammar_stack \<Rightarrow> uint32 \<Rightarrow> llama_grammar_stacks \<Rightarrow> llama_grammar_stacks gres" where
  "llama_grammar_accept_chr rules stack chr new_stacks =
     (case stack of
        [] \<Rightarrow> ok_res new_stacks
      | p # rest \<Rightarrow>
          if is_token_elem (elem_at rules p) then ok_res new_stacks
          else gbind (llama_grammar_match_char rules p chr) (\<lambda>(ok, after).
            if ok then llama_grammar_advance_stack rules (push_pos rules after rest) new_stacks
            else ok_res new_stacks))"

definition llama_grammar_accept :: "llama_grammar_rules \<Rightarrow> uint32 \<Rightarrow> llama_grammar_stacks \<Rightarrow> llama_grammar_stacks gres" where
  "llama_grammar_accept rules chr stacks =
     gfold (\<lambda>stack new_stacks. llama_grammar_accept_chr rules stack chr new_stacks) stacks []"


section \<open>Rejection of candidates\<close>

text \<open>\<open>code_points\<close> points into the decoded text of the token, which ends in 0.\<close>

record llama_grammar_candidate =
  gc_index :: nat
  gc_text :: "uint32 list"
  gc_off :: nat
  gc_partial_utf8 :: llama_partial_utf8
  gc_id :: llama_token

type_synonym llama_grammar_candidates = "llama_grammar_candidate list"

definition cand_chr :: "llama_grammar_candidate \<Rightarrow> uint32" where
  "cand_chr tok = gc_text tok ! gc_off tok"

definition reject_token_step :: "llama_grammar_rules \<Rightarrow> gpos \<Rightarrow> llama_grammar_candidate \<Rightarrow> llama_grammar_candidates \<Rightarrow> llama_grammar_candidates gres" where
  "reject_token_step rules p tok rejects =
     (if cand_chr tok = 0 then ok_res (if pu_n_remain (gc_partial_utf8 tok) \<noteq> 0 then rejects @ [tok] else rejects)
      else gbind (llama_grammar_match_token rules p (gc_id tok)) (\<lambda>ok. ok_res (if ok then rejects else rejects @ [tok])))"

text \<open>One candidate at a character class: rejected, or passed on behind its first code point.\<close>

definition reject_char_step ::
  "llama_grammar_rules \<Rightarrow> gpos \<Rightarrow> llama_grammar_candidate \<Rightarrow> llama_grammar_candidates \<times> llama_grammar_candidates \<Rightarrow> (llama_grammar_candidates \<times> llama_grammar_candidates) gres" where
  "reject_char_step rules p tok = (\<lambda>(rejects, next_candidates).
     if cand_chr tok = 0 then
       (if pu_n_remain (gc_partial_utf8 tok) \<noteq> 0 then
          gbind (llama_grammar_match_partial_char rules p (gc_partial_utf8 tok))
            (\<lambda>ok. ok_res (if ok then rejects else rejects @ [tok], next_candidates))
        else ok_res (rejects, next_candidates))
     else gbind (llama_grammar_match_char rules p (cand_chr tok)) (\<lambda>(ok, _).
       ok_res (if ok then (rejects, next_candidates @ [tok\<lparr>gc_off := gc_off tok + 1\<rparr>]) else (rejects @ [tok], next_candidates))))"

definition reject_with ::
  "(llama_grammar_stack \<Rightarrow> llama_grammar_candidates \<Rightarrow> llama_grammar_candidates gres) \<Rightarrow> llama_grammar_stacks \<Rightarrow> llama_grammar_candidates \<Rightarrow> llama_grammar_candidates gres" where
  "reject_with f stacks candidates =
     (if stacks = [] then err_res G_ABORT else if candidates = [] then ok_res [] else gfold f stacks candidates)"

text \<open>The first argument bounds the depth: every level consumes a code point of each candidate.\<close>

fun llama_grammar_reject_candidates_for_stack ::
  "nat \<Rightarrow> llama_grammar_rules \<Rightarrow> llama_grammar_stack \<Rightarrow> llama_grammar_candidates \<Rightarrow> llama_grammar_candidates gres" where
  "llama_grammar_reject_candidates_for_stack 0 rules stack candidates = None"
| "llama_grammar_reject_candidates_for_stack (Suc fuel) rules stack candidates =
     (case stack of
        [] \<Rightarrow> ok_res (filter (\<lambda>tok. cand_chr tok \<noteq> 0 \<or> pu_n_remain (gc_partial_utf8 tok) \<noteq> 0) candidates)
      | p # rest \<Rightarrow>
          if is_token_elem (elem_at rules p) then gfold (reject_token_step rules p) candidates []
          else
            gbind (gfold (reject_char_step rules p) candidates ([], [])) (\<lambda>(rejects, next_candidates).
            gbind (llama_grammar_match_char rules p 0) (\<lambda>(_, after).
            gbind (llama_grammar_advance_stack rules (push_pos rules after rest) []) (\<lambda>next_stacks.
            gbind (reject_with (llama_grammar_reject_candidates_for_stack fuel rules) next_stacks next_candidates)
              (\<lambda>next_rejects. ok_res (rejects @ map (\<lambda>tok. tok\<lparr>gc_off := gc_off tok - 1\<rparr>) next_rejects))))))"

definition llama_grammar_reject_candidates ::
  "nat \<Rightarrow> llama_grammar_rules \<Rightarrow> llama_grammar_stacks \<Rightarrow> llama_grammar_candidates \<Rightarrow> llama_grammar_candidates gres" where
  "llama_grammar_reject_candidates fuel rules stacks candidates =
     reject_with (llama_grammar_reject_candidates_for_stack fuel rules) stacks candidates"

section \<open>Left recursion\<close>

record lr_state =
  lr_visited :: "bool list"
  lr_in_progress :: "bool list"
  lr_may_be_empty :: "bool list"

text \<open>The first pass over a rule: an alternative without elements.\<close>

fun has_empty_alt :: "llama_grammar_rule \<Rightarrow> bool \<Rightarrow> bool" where
  "has_empty_alt [] at_rule_start = False"
| "has_empty_alt (e # es) at_rule_start =
     (if is_end_of_sequence e then (if at_rule_start then True else has_empty_alt es True)
      else has_empty_alt es False)"

text \<open>The second pass, with the recursive call as an argument.\<close>

fun left_loop :: "(nat \<Rightarrow> lr_state \<Rightarrow> (bool \<times> lr_state) option) \<Rightarrow> llama_grammar_rule \<Rightarrow> bool \<Rightarrow> lr_state \<Rightarrow> (bool \<times> lr_state) option" where
  "left_loop f [] recurse st = Some (False, st)"
| "left_loop f (e # es) recurse st =
     (if ge_type e = GRETYPE_RULE_REF \<and> recurse then
        (case f (ge_value e) st of
           None \<Rightarrow> None
         | Some (True, st) \<Rightarrow> Some (True, st)
         | Some (False, st) \<Rightarrow> left_loop f es (lr_may_be_empty st ! ge_value e) st)
      else left_loop f es (is_end_of_sequence e) st)"

text \<open>The first argument bounds the depth: each nested call has one more rule in progress.\<close>

fun llama_grammar_detect_left_recursion :: "nat \<Rightarrow> llama_grammar_rules \<Rightarrow> nat \<Rightarrow> lr_state \<Rightarrow> (bool \<times> lr_state) option" where
  "llama_grammar_detect_left_recursion 0 rules rule_index st = None"
| "llama_grammar_detect_left_recursion (Suc fuel) rules rule_index st =
     (if lr_in_progress st ! rule_index then Some (True, st)
      else
        let st = st\<lparr>lr_in_progress := (lr_in_progress st)[rule_index := True]\<rparr>;
            st = (if has_empty_alt (rule_at rules rule_index) True
                  then st\<lparr>lr_may_be_empty := (lr_may_be_empty st)[rule_index := True]\<rparr> else st)
        in case left_loop (llama_grammar_detect_left_recursion fuel rules) (rule_at rules rule_index) True st of
             None \<Rightarrow> None
           | Some (True, st) \<Rightarrow> Some (True, st)
           | Some (False, st) \<Rightarrow>
               Some (False, st\<lparr>lr_in_progress := (lr_in_progress st)[rule_index := False],
                              lr_visited := (lr_visited st)[rule_index := True]\<rparr>))"

text \<open>The loop over all rules; \<open>True\<close> when a left recursion is reported.\<close>

fun check_left_recursion :: "llama_grammar_rules \<Rightarrow> nat list \<Rightarrow> lr_state \<Rightarrow> bool option" where
  "check_left_recursion rules [] st = Some False"
| "check_left_recursion rules (i # is) st =
     (if lr_visited st ! i then check_left_recursion rules is st
      else case llama_grammar_detect_left_recursion (length rules + 1) rules i st of
             None \<Rightarrow> None
           | Some (True, st) \<Rightarrow> Some True
           | Some (False, st) \<Rightarrow> check_left_recursion rules is st)"

definition lr_init :: "llama_grammar_rules \<Rightarrow> lr_state" where
  "lr_init rules = \<lparr>lr_visited = replicate (length rules) False, lr_in_progress = replicate (length rules) False,
     lr_may_be_empty = replicate (length rules) False\<rparr>"

section \<open>Construction\<close>

record 'r llama_grammar_trigger_pattern =
  tp_pattern :: "byte list"
  tp_regex :: 'r

record 'r llama_grammar =
  g_rules :: llama_grammar_rules
  g_stacks :: llama_grammar_stacks
  g_partial_utf8 :: llama_partial_utf8
  g_lazy :: bool
  g_awaiting_trigger :: bool
  g_trigger_buffer :: "byte list"
  g_trigger_buffer_positions :: "(llama_token \<times> nat \<times> nat) list"
  g_trigger_tokens :: "llama_token list"
  g_trigger_patterns :: "'r llama_grammar_trigger_pattern list"

text \<open>A rule is copied up to its end; \<open>None\<close> when the scan leaves the rule.\<close>

fun copy_rule :: "llama_grammar_rule \<Rightarrow> llama_grammar_rule option" where
  "copy_rule [] = None"
| "copy_rule (e # es) = (if ge_type e = GRETYPE_END then Some [end_elem] else map_option ((#) e) (copy_rule es))"

fun copy_rules :: "llama_grammar_rules \<Rightarrow> llama_grammar_rules option" where
  "copy_rules [] = Some []"
| "copy_rules (r # rs) = (case copy_rule r of None \<Rightarrow> None | Some r \<Rightarrow> map_option ((#) r) (copy_rules rs))"

definition refs_defined :: "llama_grammar_rules \<Rightarrow> bool" where
  "refs_defined rules \<longleftrightarrow>
     (\<forall>rule \<in> set rules. \<forall>e \<in> set rule. ge_type e = GRETYPE_RULE_REF \<longrightarrow> ge_value e < length rules \<and> rules ! ge_value e \<noteq> [])"

text \<open>The initial stacks: one per alternative of the start rule, advanced to its terminals.\<close>

definition initial_stacks :: "llama_grammar_rules \<Rightarrow> nat \<Rightarrow> llama_grammar_stacks gres" where
  "initial_stacks rules start_rule =
     (case alt_starts rules start_rule of
        None \<Rightarrow> err_res G_BOUNDS
      | Some starts \<Rightarrow> gfold (\<lambda>i stacks. llama_grammar_advance_stack rules (push_pos rules (start_rule, i) []) stacks) starts [])"

definition new_grammar :: "llama_grammar_rules \<Rightarrow> llama_grammar_stacks \<Rightarrow> bool \<Rightarrow> llama_token list \<Rightarrow> 'r llama_grammar_trigger_pattern list \<Rightarrow> 'r llama_grammar" where
  "new_grammar rules stacks lazy trigger_tokens trigger_patterns =
     \<lparr>g_rules = rules, g_stacks = stacks, g_partial_utf8 = \<lparr>pu_value = 0, pu_n_remain = 0\<rparr>, g_lazy = lazy,
      g_awaiting_trigger = lazy, g_trigger_buffer = [], g_trigger_buffer_positions = [],
      g_trigger_tokens = trigger_tokens, g_trigger_patterns = trigger_patterns\<rparr>"

text \<open>From element arrays: the inner \<open>None\<close> is the null grammar of an undefined rule or a left recursion.\<close>

definition llama_grammar_init_rules :: "llama_grammar_rules \<Rightarrow> nat \<Rightarrow> 'r llama_grammar option gres" where
  "llama_grammar_init_rules rules start_rule =
     (case copy_rules rules of
        None \<Rightarrow> err_res G_BOUNDS
      | Some rules \<Rightarrow>
          if \<not> refs_defined rules then ok_res None
          else case check_left_recursion rules [0..<length rules] (lr_init rules) of
                 None \<Rightarrow> None
               | Some True \<Rightarrow> ok_res None
               | Some False \<Rightarrow> gbind (initial_stacks rules start_rule) (\<lambda>stacks. ok_res (Some (new_grammar rules stacks False [] []))))"


section \<open>Accepting text and tokens\<close>

definition accept_codes :: "llama_grammar_rules \<Rightarrow> uint32 list \<Rightarrow> llama_grammar_stacks \<Rightarrow> llama_grammar_stacks gres" where
  "accept_codes rules cps stacks = gfold (llama_grammar_accept rules) cps stacks"

definition llama_grammar_accept_str :: "'r llama_grammar \<Rightarrow> byte list \<Rightarrow> 'r llama_grammar gres" where
  "llama_grammar_accept_str g piece =
     (case decode_utf8 piece (g_partial_utf8 g) of
        (code_points, partial) \<Rightarrow>
          gbind (accept_codes (g_rules g) (butlast code_points) (g_stacks g)) (\<lambda>stacks.
            if stacks = [] then err_res G_EMPTY_STACKS
            else ok_res (g\<lparr>g_stacks := stacks, g_partial_utf8 := partial\<rparr>)))"

text \<open>The code points of one token from one stack; the loop stops when no stack survives.\<close>

fun accept_text :: "llama_grammar_rules \<Rightarrow> uint32 list \<Rightarrow> llama_grammar_stacks \<Rightarrow> llama_grammar_stacks gres" where
  "accept_text rules [] current = ok_res current"
| "accept_text rules (c # cs) current =
     gbind (gfold (\<lambda>stack next. llama_grammar_accept_chr rules stack c next) current [])
       (\<lambda>current. if current = [] then ok_res [] else accept_text rules cs current)"

definition accept_token_step ::
  "llama_grammar_rules \<Rightarrow> llama_token \<Rightarrow> uint32 list \<Rightarrow> llama_grammar_stack \<Rightarrow> llama_grammar_stacks \<Rightarrow> llama_grammar_stacks gres" where
  "accept_token_step rules token cps stack stacks_new =
     (case stack of
        [] \<Rightarrow> ok_res stacks_new
      | p # rest \<Rightarrow>
          if is_token_elem (elem_at rules p) then
            gbind (llama_grammar_match_token rules p token) (\<lambda>ok.
              if ok then llama_grammar_advance_stack rules (push_pos rules (pos_next p) rest) stacks_new
              else ok_res stacks_new)
          else gbind (accept_text rules cps [stack]) (\<lambda>current. ok_res (fold add_stack current stacks_new)))"

definition llama_grammar_accept_token :: "'r llama_grammar \<Rightarrow> llama_token \<Rightarrow> byte list \<Rightarrow> 'r llama_grammar gres" where
  "llama_grammar_accept_token g token piece =
     (case decode_utf8 piece (g_partial_utf8 g) of
        (code_points, partial) \<Rightarrow>
          gbind (gfold (accept_token_step (g_rules g) token (butlast code_points)) (g_stacks g) []) (\<lambda>stacks.
            if stacks = [] then err_res G_EMPTY_STACKS
            else ok_res (g\<lparr>g_stacks := stacks, g_partial_utf8 := partial\<rparr>)))"

text \<open>
  A trigger pattern, over the results of \<open>std::regex_match\<close> and \<open>std::regex_search\<close>: position and
  length of each group, the whole match first.
\<close>

type_synonym 'r regex_run = "'r \<Rightarrow> byte list \<Rightarrow> (nat \<times> nat) list option"

definition find_start_pos :: "(nat \<times> nat) list \<Rightarrow> nat" where
  "find_start_pos m =
     (case List.find (\<lambda>(pos, len). len > 0) (tl m) of Some (pos, len) \<Rightarrow> pos | None \<Rightarrow> fst (hd m))"

definition trigger_find :: "'r regex_run \<Rightarrow> 'r regex_run \<Rightarrow> 'r llama_grammar_trigger_pattern \<Rightarrow> byte list \<Rightarrow> nat option" where
  "trigger_find rx_match rx_search tp input =
     (let pattern = tp_pattern tp;
          whole = (if pattern \<noteq> [] \<and> hd pattern = 94 \<and> last pattern = 36 then rx_match (tp_regex tp) input else None)
      in case whole of
           Some m \<Rightarrow> Some (find_start_pos m)
         | None \<Rightarrow> map_option find_start_pos (rx_search (tp_regex tp) input))"

text \<open>The first pattern that is found, with its start.\<close>

fun first_trigger :: "('p \<Rightarrow> nat option) \<Rightarrow> 'p list \<Rightarrow> nat option" where
  "first_trigger f [] = None"
| "first_trigger f (p # ps) = (case f p of Some start \<Rightarrow> Some start | None \<Rightarrow> first_trigger f ps)"

text \<open>Replay of the buffered tokens that reach past the start of the match.\<close>

definition replay_step :: "byte list \<Rightarrow> nat \<Rightarrow> llama_token \<times> nat \<times> nat \<Rightarrow> 'r llama_grammar \<Rightarrow> 'r llama_grammar gres" where
  "replay_step buffer start = (\<lambda>(tok, tok_start, tok_end) g.
     if tok_end \<le> start then ok_res g
     else
       let piece_start = (if tok_start < start then start else tok_start)
       in llama_grammar_accept_token g tok (take (tok_end - piece_start) (drop piece_start buffer)))"

definition llama_grammar_accept_impl ::
  "'r regex_run \<Rightarrow> 'r regex_run \<Rightarrow> (llama_token \<Rightarrow> byte list) \<Rightarrow> (llama_token \<Rightarrow> bool) \<Rightarrow> llama_token \<Rightarrow> 'r llama_grammar \<Rightarrow> 'r llama_grammar gres" where
  "llama_grammar_accept_impl rx_match rx_search token_to_piece is_eog token g =
     (let piece = token_to_piece token
      in if g_awaiting_trigger g then
           (if token \<in> set (g_trigger_tokens g) then
              llama_grammar_accept_token (g\<lparr>g_awaiting_trigger := False, g_trigger_buffer := []\<rparr>) token piece
            else
              let n = length (g_trigger_buffer g);
                  g = g\<lparr>g_trigger_buffer_positions := g_trigger_buffer_positions g @ [(token, n, n + length piece)],
                       g_trigger_buffer := g_trigger_buffer g @ piece\<rparr>
              in case first_trigger (\<lambda>tp. trigger_find rx_match rx_search tp (g_trigger_buffer g)) (g_trigger_patterns g) of
                   None \<Rightarrow> ok_res g
                 | Some start \<Rightarrow>
                     gbind (gfold (replay_step (g_trigger_buffer g) start) (g_trigger_buffer_positions g) (g\<lparr>g_awaiting_trigger := False\<rparr>))
                       (\<lambda>g. ok_res (g\<lparr>g_trigger_buffer := [], g_trigger_buffer_positions := []\<rparr>)))
         else if is_eog token then (if [] \<in> set (g_stacks g) then ok_res g else err_res G_ABORT)
         else llama_grammar_accept_token g token piece)"

section \<open>Masking the candidates\<close>

record 'f llama_token_data =
  td_id :: llama_token
  td_logit :: 'f
  td_p :: 'f

text \<open>Token \<open>i\<close> of the array: banned at once, or a candidate for the grammar.\<close>

definition apply_token ::
  "(llama_token \<Rightarrow> byte list) \<Rightarrow> (llama_token \<Rightarrow> bool) \<Rightarrow> 'r llama_grammar \<Rightarrow> 'f \<Rightarrow> nat \<Rightarrow> 'f llama_token_data list \<times> llama_grammar_candidates \<Rightarrow> 'f llama_token_data list \<times> llama_grammar_candidates" where
  "apply_token token_to_piece is_eog g neg_inf i = (\<lambda>(ds, cands).
     let id = td_id (ds ! i); piece = token_to_piece id; ban = ds[i := (ds ! i)\<lparr>td_logit := neg_inf\<rparr>]
     in if is_eog id then (if [] \<in> set (g_stacks g) then ds else ban, cands)
        else if piece = [] \<or> hd piece = 0 then (ban, cands)
        else (case decode_utf8 piece (g_partial_utf8 g) of
                (cps, partial) \<Rightarrow> (ds, cands @ [\<lparr>gc_index = i, gc_text = cps, gc_off = 0, gc_partial_utf8 = partial, gc_id = id\<rparr>])))"

definition llama_grammar_apply_impl ::
  "nat \<Rightarrow> (llama_token \<Rightarrow> byte list) \<Rightarrow> (llama_token \<Rightarrow> bool) \<Rightarrow> 'f \<Rightarrow> 'r llama_grammar \<Rightarrow> 'f llama_token_data list \<Rightarrow> 'f llama_token_data list gres" where
  "llama_grammar_apply_impl fuel token_to_piece is_eog neg_inf g data =
     (if g_awaiting_trigger g then ok_res data
      else (case fold (apply_token token_to_piece is_eog g neg_inf) [0..<length data] (data, []) of
              (ds, cands) \<Rightarrow>
                gbind (llama_grammar_reject_candidates fuel (g_rules g) (g_stacks g) cands) (\<lambda>rejects.
                  ok_res (fold (\<lambda>tok ds. ds[gc_index tok := (ds ! gc_index tok)\<lparr>td_logit := neg_inf\<rparr>]) rejects ds))))"

end
