(* ===== verification/Grammar_Lang.thy ===== *)
theory Grammar_Lang
  imports Grammar
begin

text \<open>
  The language of a grammar, and what the engine computes of it: rules denote context-free
  productions over sets of code points, a stack denotes what is left to be derived, \<open>advance_stack\<close>
  computes the stacks reachable by expanding references, and \<open>accept\<close> the derivative by a code point.
\<close>

lemmas gbind_simps [simp] = gbind_def

lemma gbind_ok: "gbind r f = ok_res y \<longleftrightarrow> (\<exists>x. r = ok_res x \<and> f x = ok_res y)"
  by (auto split: option.splits sum.splits)

section \<open>Productions\<close>

datatype gitem = Chars "uint32 set" | Ref nat | Tok "uint32 set"

text \<open>The code points of a character class and its number of elements.\<close>

fun class_set :: "llama_grammar_element list \<Rightarrow> uint32 set" where
  "class_set [] = {}"
| "class_set [e] = (if ge_type e = GRETYPE_CHAR_ANY then UNIV else {ge_value e})"
| "class_set (e # e2 # es) =
     (if ge_type e2 = GRETYPE_CHAR_RNG_UPPER then
        {ge_value e..ge_value e2} \<union> (if head_type es = GRETYPE_CHAR_ALT then class_set es else {})
      else (if ge_type e = GRETYPE_CHAR_ANY then UNIV else {ge_value e}) \<union>
        (if ge_type e2 = GRETYPE_CHAR_ALT then class_set (e2 # es) else {}))"

fun class_len :: "llama_grammar_element list \<Rightarrow> nat" where
  "class_len [] = 0"
| "class_len [e] = 1"
| "class_len (e # e2 # es) =
     (if ge_type e2 = GRETYPE_CHAR_RNG_UPPER then 2 + (if head_type es = GRETYPE_CHAR_ALT then class_len es else 0)
      else 1 + (if ge_type e2 = GRETYPE_CHAR_ALT then class_len (e2 # es) else 0))"

lemma class_len_pos: "es \<noteq> [] \<Longrightarrow> 0 < class_len es"
  by (induction es rule: class_len.induct) auto

lemma match_loop_class: "match_loop es chr found k = (found \<or> chr \<in> class_set es, k + class_len es)"
  by (induction es chr found k rule: match_loop.induct) (auto simp: Let_def)

function items_of :: "llama_grammar_element list \<Rightarrow> gitem list option" where
  "items_of [] = None"
| "items_of (e # es) =
     (if is_end_of_sequence e then Some []
      else if ge_type e = GRETYPE_RULE_REF then map_option ((#) (Ref (ge_value e))) (items_of es)
      else if ge_type e = GRETYPE_TOKEN then map_option ((#) (Tok {ge_value e})) (items_of es)
      else if ge_type e = GRETYPE_TOKEN_NOT then map_option ((#) (Tok (- {ge_value e}))) (items_of es)
      else if ge_type e = GRETYPE_CHAR_NOT then
        map_option ((#) (Chars (- class_set (e # es)))) (items_of (drop (class_len (e # es)) (e # es)))
      else if is_positive_char e then
        map_option ((#) (Chars (class_set (e # es)))) (items_of (drop (class_len (e # es)) (e # es)))
      else None)"
  by pat_completeness auto

termination
  by (relation "measure length") (use class_len_pos in \<open>auto simp: drop_Cons' not_less\<close>)

declare items_of.simps(2) [simp del]

definition pos_parse :: "llama_grammar_rules \<Rightarrow> gpos \<Rightarrow> gitem list option" where
  "pos_parse rules p = items_of (drop (snd p) (rule_at rules (fst p)))"

definition pos_items :: "llama_grammar_rules \<Rightarrow> gpos \<Rightarrow> gitem list" where
  "pos_items rules p = the (pos_parse rules p)"

definition prods :: "llama_grammar_rules \<Rightarrow> nat \<Rightarrow> gitem list set" where
  "prods rules v = {pos_items rules (v, i) | i. \<exists>starts. alt_starts rules v = Some starts \<and> i \<in> set starts}"

text \<open>Rules whose alternatives are sequences of well-formed items with defined references.\<close>

definition wf_rules :: "llama_grammar_rules \<Rightarrow> bool" where
  "wf_rules rules \<longleftrightarrow>
     (\<forall>v < length rules. \<exists>starts. alt_starts rules v = Some starts \<and> (\<forall>i \<in> set starts. pos_parse rules (v, i) \<noteq> None)) \<and>
     (\<forall>rule \<in> set rules. \<forall>e \<in> set rule. ge_type e = GRETYPE_RULE_REF \<longrightarrow> ge_value e < length rules)"

section \<open>The language\<close>

inductive gen :: "(nat \<Rightarrow> gitem list set) \<Rightarrow> gitem list \<Rightarrow> uint32 list \<Rightarrow> bool" for G where
  gen_nil: "gen G [] []"
| gen_chr: "c \<in> S \<Longrightarrow> gen G items w \<Longrightarrow> gen G (Chars S # items) (c # w)"
| gen_ref: "alt \<in> G v \<Longrightarrow> gen G alt u \<Longrightarrow> gen G items w \<Longrightarrow> gen G (Ref v # items) (u @ w)"

inductive_cases gen_nilE: "gen G [] w"
inductive_cases gen_chrE: "gen G (Chars S # items) w"
inductive_cases gen_tokE: "gen G (Tok S # items) w"

text \<open>Derivations with their number of expansions.\<close>

inductive genn :: "(nat \<Rightarrow> gitem list set) \<Rightarrow> nat \<Rightarrow> gitem list \<Rightarrow> uint32 list \<Rightarrow> bool" for G where
  genn_nil: "genn G 0 [] []"
| genn_chr: "c \<in> S \<Longrightarrow> genn G n items w \<Longrightarrow> genn G n (Chars S # items) (c # w)"
| genn_ref: "alt \<in> G v \<Longrightarrow> genn G n alt u \<Longrightarrow> genn G m items w \<Longrightarrow> genn G (Suc (n + m)) (Ref v # items) (u @ w)"

inductive_cases genn_refE: "genn G n (Ref v # items) w"

lemma gen_genn: "gen G items w \<longleftrightarrow> (\<exists>n. genn G n items w)"
proof
  show "gen G items w \<Longrightarrow> \<exists>n. genn G n items w"
    by (induction rule: gen.induct) (blast intro: genn.intros)+
  have "genn G n items w \<Longrightarrow> gen G items w" for n
    by (induction rule: genn.induct) (blast intro: gen.intros)+
  then show "\<exists>n. genn G n items w \<Longrightarrow> gen G items w" by blast
qed

lemma genn_append: "genn G n xs u \<Longrightarrow> genn G m ys w \<Longrightarrow> genn G (n + m) (xs @ ys) (u @ w)"
proof (induction rule: genn.induct)
  case (genn_ref alt v n u k items w')
  have "genn G (Suc (n + (k + m))) (Ref v # (items @ ys)) (u @ (w' @ w))"
    by (rule genn.genn_ref [OF genn_ref.hyps(1,2) genn_ref.IH(2) [OF genn_ref.prems]])
  then show ?case by (simp add: add.assoc)
qed (auto intro: genn.intros)

text \<open>Expanding the first reference removes one expansion.\<close>

lemma genn_expand: "genn G n (Ref v # items) w \<Longrightarrow> \<exists>alt \<in> G v. \<exists>k < n. genn G k (alt @ items) w"
proof (erule genn_refE)
  fix alt k u m w'
  assume "n = Suc (k + m)" "w = u @ w'" "alt \<in> G v" "genn G k alt u" "genn G m items w'"
  note d = this
  have "genn G (k + m) (alt @ items) w" unfolding d(2) by (rule genn_append [OF d(4,5)])
  moreover have "k + m < n" using d(1) by simp
  ultimately show ?thesis using d(3) by blast
qed

lemma gen_append: "gen G xs u \<Longrightarrow> gen G ys w \<Longrightarrow> gen G (xs @ ys) (u @ w)"
  by (meson gen_genn genn_append)

lemma gen_split: "gen G (xs @ ys) w \<Longrightarrow> \<exists>u v. w = u @ v \<and> gen G xs u \<and> gen G ys v"
proof (induction xs arbitrary: w)
  case Nil then show ?case by (intro exI [of _ "[]"] exI [of _ w]) (simp add: gen_nil)
next
  case (Cons x xs)
  from Cons.prems have "gen G (x # (xs @ ys)) w" by simp
  then show ?case
  proof cases
    case (gen_chr c S w')
    from Cons.IH [OF gen_chr(4)] obtain u v where "w' = u @ v" "gen G xs u" "gen G ys v" by blast
    then show ?thesis using gen_chr by (intro exI [of _ "c # u"] exI [of _ v]) (auto intro: gen.gen_chr)
  next
    case (gen_ref alt v a w')
    from Cons.IH [OF gen_ref(5)] obtain u v' where "w' = u @ v'" "gen G xs u" "gen G ys v'" by blast
    then show ?thesis using gen_ref by (intro exI [of _ "a @ u"] exI [of _ v']) (auto intro: gen.gen_ref)
  qed
qed

lemma gen_expand: "gen G (Ref v # items) w \<longleftrightarrow> (\<exists>alt \<in> G v. gen G (alt @ items) w)"
proof
  show "gen G (Ref v # items) w \<Longrightarrow> \<exists>alt \<in> G v. gen G (alt @ items) w" using genn_expand gen_genn by metis
  show "\<exists>alt \<in> G v. gen G (alt @ items) w \<Longrightarrow> gen G (Ref v # items) w" by (auto dest!: gen_split intro: gen_ref)
qed


section \<open>Stacks\<close>

definition stack_items :: "llama_grammar_rules \<Rightarrow> llama_grammar_stack \<Rightarrow> gitem list" where
  "stack_items rules s = concat (map (pos_items rules) s)"

definition wf_stack :: "llama_grammar_rules \<Rightarrow> llama_grammar_stack \<Rightarrow> bool" where
  "wf_stack rules s \<longleftrightarrow> (\<forall>p \<in> set s. fst p < length rules \<and> pos_parse rules p \<noteq> None \<and> \<not> is_end_of_sequence (elem_at rules p))"

definition stopped :: "llama_grammar_rules \<Rightarrow> llama_grammar_stack \<Rightarrow> bool" where
  "stopped rules s \<longleftrightarrow> s = [] \<or> is_terminal (elem_at rules (hd s))"

inductive estep :: "llama_grammar_rules \<Rightarrow> llama_grammar_stack \<Rightarrow> llama_grammar_stack \<Rightarrow> bool" for rules where
  expand: "ge_type (elem_at rules p) = GRETYPE_RULE_REF \<Longrightarrow> expand_ref rules p rest = Some ss \<Longrightarrow> s \<in> set ss \<Longrightarrow> estep rules (p # rest) s"

inductive_simps estep_Cons: "estep rules (p # rest) s"
inductive_simps estep_Nil [simp]: "estep rules [] s"

abbreviation reaches :: "llama_grammar_rules \<Rightarrow> llama_grammar_stack \<Rightarrow> llama_grammar_stack \<Rightarrow> bool" where
  "reaches rules \<equiv> (estep rules)\<^sup>*\<^sup>*"

lemma drop_elem:
  assumes "i < length (rule_at rules r)"
  shows "drop i (rule_at rules r) = elem_at rules (r, i) # drop (i + 1) (rule_at rules r)"
  using assms by (simp add: elem_at_def Cons_nth_drop_Suc)

lemma parse_in_rule: "pos_parse rules (r, i) \<noteq> None \<Longrightarrow> i < length (rule_at rules r)"
  by (cases "i < length (rule_at rules r)") (auto simp: pos_parse_def)

definition class_at :: "llama_grammar_rules \<Rightarrow> gpos \<Rightarrow> uint32 set" where
  "class_at rules p = (let S = class_set (drop (snd p) (rule_at rules (fst p)))
                       in if ge_type (elem_at rules p) = GRETYPE_CHAR_NOT then - S else S)"

definition class_end :: "llama_grammar_rules \<Rightarrow> gpos \<Rightarrow> gpos" where
  "class_end rules p = (fst p, snd p + class_len (drop (snd p) (rule_at rules (fst p))))"

abbreviation is_char_start :: "llama_grammar_element \<Rightarrow> bool" where
  "is_char_start e \<equiv> is_positive_char e \<or> ge_type e = GRETYPE_CHAR_NOT"

lemma match_char_eq:
  "is_char_start (elem_at rules p) \<Longrightarrow> llama_grammar_match_char rules p c = ok_res (c \<in> class_at rules p, class_end rules p)"
  by (auto simp: llama_grammar_match_char_def match_loop_class class_at_def class_end_def Let_def is_positive_char_def)

text \<open>The items of a position, by the type of its element.\<close>

definition token_set :: "llama_grammar_element \<Rightarrow> uint32 set" where
  "token_set e = (if ge_type e = GRETYPE_TOKEN then {ge_value e} else - {ge_value e})"

lemma pos_parse_eq:
  assumes "snd p < length (rule_at rules (fst p))"
  defines "e \<equiv> elem_at rules p"
  shows "pos_parse rules p =
    (if is_end_of_sequence e then Some []
     else if ge_type e = GRETYPE_RULE_REF then map_option ((#) (Ref (ge_value e))) (pos_parse rules (pos_next p))
     else if is_token_elem e then map_option ((#) (Tok (token_set e))) (pos_parse rules (pos_next p))
     else if is_char_start e then map_option ((#) (Chars (class_at rules p))) (pos_parse rules (class_end rules p))
     else None)"
proof -
  obtain r i where p: "p = (r, i)" by (cases p)
  let ?es = "drop i (rule_at rules r)"
  have d: "?es = e # drop (Suc i) (rule_at rules r)" using drop_elem [of i rules r] assms(1) by (simp add: p e_def)
  have next_pos: "pos_parse rules (pos_next p) = items_of (drop (Suc i) (rule_at rules r))" by (simp add: pos_parse_def p)
  have end_pos: "pos_parse rules (class_end rules p) = items_of (drop (class_len ?es) ?es)" by (simp add: pos_parse_def p class_end_def add.commute)
  have cls: "class_at rules p = (if ge_type e = GRETYPE_CHAR_NOT then - class_set ?es else class_set ?es)" by (simp add: class_at_def p e_def)
  have "pos_parse rules p = items_of ?es" by (simp add: pos_parse_def p)
  also have "\<dots> = (if is_end_of_sequence e then Some []
      else if ge_type e = GRETYPE_RULE_REF then map_option ((#) (Ref (ge_value e))) (pos_parse rules (pos_next p))
      else if ge_type e = GRETYPE_TOKEN then map_option ((#) (Tok {ge_value e})) (pos_parse rules (pos_next p))
      else if ge_type e = GRETYPE_TOKEN_NOT then map_option ((#) (Tok (- {ge_value e}))) (pos_parse rules (pos_next p))
      else if ge_type e = GRETYPE_CHAR_NOT then map_option ((#) (Chars (- class_set ?es))) (pos_parse rules (class_end rules p))
      else if is_positive_char e then map_option ((#) (Chars (class_set ?es))) (pos_parse rules (class_end rules p))
      else None)"
    unfolding next_pos end_pos by (rule items_of.simps(2) [of e "drop (Suc i) (rule_at rules r)", folded d])
  finally show ?thesis by (auto simp: cls is_token_elem_def token_set_def is_positive_char_def)
qed

lemma pos_parse_in: "pos_parse rules p \<noteq> None \<Longrightarrow> snd p < length (rule_at rules (fst p))"
  using parse_in_rule [of rules "fst p" "snd p"] by simp

lemma parse_end:
  assumes "pos_parse rules p \<noteq> None" "is_end_of_sequence (elem_at rules p)"
  shows "pos_items rules p = []"
  using pos_parse_eq [OF pos_parse_in [OF assms(1)]] assms(2) by (simp add: pos_items_def)

lemma parse_ref:
  assumes "pos_parse rules p \<noteq> None" "ge_type (elem_at rules p) = GRETYPE_RULE_REF"
  shows "pos_parse rules (pos_next p) \<noteq> None" "pos_items rules p = Ref (ge_value (elem_at rules p)) # pos_items rules (pos_next p)"
proof -
  have "\<not> is_end_of_sequence (elem_at rules p)" using assms(2) by (simp add: is_end_of_sequence_def)
  then have m: "pos_parse rules p = map_option ((#) (Ref (ge_value (elem_at rules p)))) (pos_parse rules (pos_next p))"
    using pos_parse_eq [OF pos_parse_in [OF assms(1)]] assms(2) by simp
  show "pos_parse rules (pos_next p) \<noteq> None" using m assms(1) by auto
  then show "pos_items rules p = Ref (ge_value (elem_at rules p)) # pos_items rules (pos_next p)" using m by (auto simp: pos_items_def)
qed

lemma parse_token:
  assumes "pos_parse rules p \<noteq> None" "is_token_elem (elem_at rules p)"
  shows "pos_parse rules (pos_next p) \<noteq> None" "pos_items rules p = Tok (token_set (elem_at rules p)) # pos_items rules (pos_next p)"
proof -
  have "\<not> is_end_of_sequence (elem_at rules p)" "ge_type (elem_at rules p) \<noteq> GRETYPE_RULE_REF"
    using assms(2) by (auto simp: is_end_of_sequence_def is_token_elem_def)
  then have m: "pos_parse rules p = map_option ((#) (Tok (token_set (elem_at rules p)))) (pos_parse rules (pos_next p))"
    using pos_parse_eq [OF pos_parse_in [OF assms(1)]] assms(2) by simp
  show "pos_parse rules (pos_next p) \<noteq> None" using m assms(1) by auto
  then show "pos_items rules p = Tok (token_set (elem_at rules p)) # pos_items rules (pos_next p)" using m by (auto simp: pos_items_def)
qed

lemma parse_class:
  assumes "pos_parse rules p \<noteq> None" "is_char_start (elem_at rules p)"
  shows "pos_parse rules (class_end rules p) \<noteq> None" "pos_items rules p = Chars (class_at rules p) # pos_items rules (class_end rules p)"
proof -
  have "\<not> is_end_of_sequence (elem_at rules p)" "ge_type (elem_at rules p) \<noteq> GRETYPE_RULE_REF" "\<not> is_token_elem (elem_at rules p)"
    using assms(2) by (auto simp: is_end_of_sequence_def is_positive_char_def is_token_elem_def)
  then have m: "pos_parse rules p = map_option ((#) (Chars (class_at rules p))) (pos_parse rules (class_end rules p))"
    using pos_parse_eq [OF pos_parse_in [OF assms(1)]] assms(2) by simp
  show "pos_parse rules (class_end rules p) \<noteq> None" using m assms(1) by auto
  then show "pos_items rules p = Chars (class_at rules p) # pos_items rules (class_end rules p)" using m by (auto simp: pos_items_def)
qed

lemma elem_cases:
  assumes "pos_parse rules p \<noteq> None" "\<not> is_end_of_sequence (elem_at rules p)"
  obtains "ge_type (elem_at rules p) = GRETYPE_RULE_REF" | "is_token_elem (elem_at rules p)" | "is_char_start (elem_at rules p)"
  using pos_parse_eq [OF pos_parse_in [OF assms(1)]] assms that by (auto split: if_splits)


section \<open>Expansion of references\<close>

abbreviation slang :: "llama_grammar_rules \<Rightarrow> llama_grammar_stack \<Rightarrow> uint32 list \<Rightarrow> bool" where
  "slang rules s w \<equiv> gen (prods rules) (stack_items rules s) w"

lemma stack_items_simps [simp]: "stack_items rules [] = []" "stack_items rules (p # s) = pos_items rules p @ stack_items rules s"
  by (simp_all add: stack_items_def)

lemma wf_stack_simps [simp]:
  "wf_stack rules []"
  "wf_stack rules (p # s) \<longleftrightarrow> fst p < length rules \<and> pos_parse rules p \<noteq> None \<and> \<not> is_end_of_sequence (elem_at rules p) \<and> wf_stack rules s"
  by (auto simp: wf_stack_def)

lemma push_items: "pos_parse rules p \<noteq> None \<Longrightarrow> stack_items rules (push_pos rules p st) = pos_items rules p @ stack_items rules st"
  by (auto simp: push_pos_def parse_end)

lemma push_wf: "pos_parse rules p \<noteq> None \<Longrightarrow> fst p < length rules \<Longrightarrow> wf_stack rules st \<Longrightarrow> wf_stack rules (push_pos rules p st)"
  by (simp add: push_pos_def)

lemma elem_in_rule: "snd p < length (rule_at rules (fst p)) \<Longrightarrow> elem_at rules p \<in> set (rule_at rules (fst p))"
  by (cases p) (simp add: elem_at_def)

lemma scan_alts_nonempty: "scan_alts es k st = Some starts \<Longrightarrow> starts \<noteq> []"
  by (induction es arbitrary: k st starts) (auto split: if_splits)

lemma ref_alts:
  assumes "wf_rules rules" "wf_stack rules (p # rest)" "ge_type (elem_at rules p) = GRETYPE_RULE_REF"
  shows "ge_value (elem_at rules p) < length rules"
    "\<exists>starts. alt_starts rules (ge_value (elem_at rules p)) = Some starts \<and> starts \<noteq> [] \<and>
      (\<forall>i \<in> set starts. pos_parse rules (ge_value (elem_at rules p), i) \<noteq> None)"
proof -
  have "elem_at rules p \<in> set (rule_at rules (fst p))" using assms(2) by (intro elem_in_rule pos_parse_in) simp
  then have "elem_at rules p \<in> set (rules ! fst p)" "rules ! fst p \<in> set rules" using assms(2) by (auto simp: rule_at_def)
  then show v: "ge_value (elem_at rules p) < length rules" using assms(1,3) by (auto simp: wf_rules_def)
  from assms(1) v obtain starts where st: "alt_starts rules (ge_value (elem_at rules p)) = Some starts"
    "\<forall>i \<in> set starts. pos_parse rules (ge_value (elem_at rules p), i) \<noteq> None" unfolding wf_rules_def by blast
  moreover have "starts \<noteq> []" using st(1) by (auto simp: alt_starts_def split: if_splits dest: scan_alts_nonempty)
  ultimately show "\<exists>starts. alt_starts rules (ge_value (elem_at rules p)) = Some starts \<and> starts \<noteq> [] \<and>
      (\<forall>i \<in> set starts. pos_parse rules (ge_value (elem_at rules p), i) \<noteq> None)" by blast
qed

lemma expand_ref_ok:
  assumes wf: "wf_rules rules" and st: "wf_stack rules (p # rest)" and ref: "ge_type (elem_at rules p) = GRETYPE_RULE_REF"
  defines "v \<equiv> ge_value (elem_at rules p)"
  shows "\<exists>ss. expand_ref rules p rest = Some ss \<and> ss \<noteq> [] \<and> (\<forall>s \<in> set ss. wf_stack rules s) \<and>
    stack_items rules ` set ss = (\<lambda>alt. alt @ pos_items rules (pos_next p) @ stack_items rules rest) ` prods rules v"
proof -
  from ref_alts [OF assms(1-3)] obtain starts where v: "v < length rules" "alt_starts rules v = Some starts" "starts \<noteq> []"
    and par: "\<forall>i \<in> set starts. pos_parse rules (v, i) \<noteq> None" unfolding v_def by blast
  have "pos_parse rules p \<noteq> None" using st by simp
  note nx = parse_ref(1) [OF this ref]
  let ?rest = "push_pos rules (pos_next p) rest"
  let ?f = "\<lambda>i. push_pos rules (v, i) ?rest"
  have ex: "expand_ref rules p rest = Some (map ?f starts)" using v(2) by (simp add: expand_ref_def v_def)
  have rest: "wf_stack rules ?rest" "stack_items rules ?rest = pos_items rules (pos_next p) @ stack_items rules rest"
    using push_wf [OF nx] push_items [OF nx] st by simp_all
  have wf': "\<forall>i \<in> set starts. wf_stack rules (?f i)" using par v(1) rest(1) by (auto intro: push_wf)
  have it: "stack_items rules (?f i) = pos_items rules (v, i) @ pos_items rules (pos_next p) @ stack_items rules rest" if "i \<in> set starts" for i
    using push_items [of rules "(v, i)" ?rest] par rest(2) that by simp
  have "prods rules v = pos_items rules ` (\<lambda>i. (v, i)) ` set starts" using v(2) by (auto simp: prods_def)
  then have "stack_items rules ` set (map ?f starts) = (\<lambda>alt. alt @ pos_items rules (pos_next p) @ stack_items rules rest) ` prods rules v"
    using it by (auto simp: image_image)
  then show ?thesis using ex v(3) wf' by (intro exI [of _ "map ?f starts"]) auto
qed

lemma estep_wf: "wf_rules rules \<Longrightarrow> wf_stack rules s \<Longrightarrow> estep rules s t \<Longrightarrow> wf_stack rules t"
proof (cases s)
  case (Cons p rest)
  assume a: "wf_rules rules" "wf_stack rules s" "estep rules s t"
  then obtain ss where ss: "ge_type (elem_at rules p) = GRETYPE_RULE_REF" "expand_ref rules p rest = Some ss" "t \<in> set ss"
    using Cons by (auto simp: estep_Cons)
  have "wf_stack rules (p # rest)" using a(2) Cons by simp
  from expand_ref_ok [OF a(1) this ss(1)] ss(2,3) show ?thesis by auto
qed simp

lemma reaches_wf: "reaches rules s t \<Longrightarrow> wf_rules rules \<Longrightarrow> wf_stack rules s \<Longrightarrow> wf_stack rules t"
  by (induction rule: rtranclp_induct) (auto intro: estep_wf)

lemma estep_items:
  assumes "wf_rules rules" "wf_stack rules (p # rest)" "ge_type (elem_at rules p) = GRETYPE_RULE_REF"
  shows "stack_items rules ` {s. estep rules (p # rest) s} =
    (\<lambda>alt. alt @ pos_items rules (pos_next p) @ stack_items rules rest) ` prods rules (ge_value (elem_at rules p))"
proof -
  from expand_ref_ok [OF assms] obtain ss where ss: "expand_ref rules p rest = Some ss"
    "stack_items rules ` set ss = (\<lambda>alt. alt @ pos_items rules (pos_next p) @ stack_items rules rest) ` prods rules (ge_value (elem_at rules p))" by blast
  have "{s. estep rules (p # rest) s} = set ss" using ss(1) assms(3) by (auto simp: estep_Cons)
  then show ?thesis using ss(2) by simp
qed

text \<open>The words of a stack are those of the stopped stacks it reaches.\<close>

lemma stopped_or_ref:
  assumes "wf_stack rules s"
  shows "stopped rules s \<or> (\<exists>p rest. s = p # rest \<and> ge_type (elem_at rules p) = GRETYPE_RULE_REF)"
proof (cases s)
  case (Cons p rest)
  then have "pos_parse rules p \<noteq> None" "\<not> is_end_of_sequence (elem_at rules p)" using assms by auto
  then show ?thesis
    by (rule elem_cases) (auto simp: Cons stopped_def is_terminal_def is_token_elem_def is_positive_char_def)
qed (simp add: stopped_def)

lemma reach_lang_to: "wf_rules rules \<Longrightarrow> wf_stack rules s \<Longrightarrow> slang rules s w \<Longrightarrow> \<exists>t. reaches rules s t \<and> stopped rules t \<and> slang rules t w"
proof -
  assume wf: "wf_rules rules"
  have "wf_stack rules s \<Longrightarrow> genn (prods rules) n (stack_items rules s) w \<Longrightarrow> \<exists>t. reaches rules s t \<and> stopped rules t \<and> slang rules t w" for n
  proof (induction n arbitrary: s rule: less_induct)
    case (less n)
    show ?case
    proof (cases "stopped rules s")
      case True then show ?thesis using less.prems(2) gen_genn by blast
    next
      case False
      then obtain p rest where s: "s = p # rest" "ge_type (elem_at rules p) = GRETYPE_RULE_REF" using stopped_or_ref [OF less.prems(1)] by blast
      have wp: "wf_stack rules (p # rest)" using less.prems(1) s by simp
      have items: "stack_items rules s = Ref (ge_value (elem_at rules p)) # pos_items rules (pos_next p) @ stack_items rules rest"
        using parse_ref(2) [of rules p] wp s by simp
      from genn_expand [OF less.prems(2) [unfolded items]] obtain alt k where
        k: "alt \<in> prods rules (ge_value (elem_at rules p))" "k < n" "genn (prods rules) k (alt @ pos_items rules (pos_next p) @ stack_items rules rest) w" by auto
      have "alt @ pos_items rules (pos_next p) @ stack_items rules rest \<in> stack_items rules ` {s. estep rules (p # rest) s}"
        using k(1) unfolding estep_items [OF wf wp s(2)] by blast
      then obtain t where t: "estep rules (p # rest) t" "stack_items rules t = alt @ pos_items rules (pos_next p) @ stack_items rules rest" by auto
      from less.IH [OF k(2) estep_wf [OF wf wp t(1)]] k(3) t(2) obtain u where "reaches rules t u" "stopped rules u" "slang rules u w" by auto
      then show ?thesis using t(1) s(1) by (meson converse_rtranclp_into_rtranclp)
    qed
  qed
  then show "wf_stack rules s \<Longrightarrow> slang rules s w \<Longrightarrow> \<exists>t. reaches rules s t \<and> stopped rules t \<and> slang rules t w"
    using gen_genn by blast
qed

lemma estep_lang: "wf_rules rules \<Longrightarrow> wf_stack rules s \<Longrightarrow> estep rules s t \<Longrightarrow> slang rules t w \<Longrightarrow> slang rules s w"
proof (cases s)
  case (Cons p rest)
  assume a: "wf_rules rules" "wf_stack rules s" "estep rules s t" "slang rules t w"
  then have wp: "wf_stack rules (p # rest)" "ge_type (elem_at rules p) = GRETYPE_RULE_REF" using Cons by (auto simp: estep_Cons)
  have "stack_items rules t \<in> (\<lambda>alt. alt @ pos_items rules (pos_next p) @ stack_items rules rest) ` prods rules (ge_value (elem_at rules p))"
    using a(3) unfolding estep_items [OF a(1) wp, symmetric] Cons by blast
  then have "gen (prods rules) (Ref (ge_value (elem_at rules p)) # pos_items rules (pos_next p) @ stack_items rules rest) w"
    using a(4) unfolding gen_expand by auto
  then show ?thesis using parse_ref(2) [of rules p] wp Cons by simp
qed simp

lemma reach_lang:
  assumes "wf_rules rules" "wf_stack rules s"
  shows "slang rules s w \<longleftrightarrow> (\<exists>t. reaches rules s t \<and> stopped rules t \<and> slang rules t w)"
proof
  have "reaches rules s t \<Longrightarrow> slang rules t w \<Longrightarrow> slang rules s w" for t
    by (induction rule: rtranclp_induct) (use assms estep_lang reaches_wf in blast)+
  then show "\<exists>t. reaches rules s t \<and> stopped rules t \<and> slang rules t w \<Longrightarrow> slang rules s w" by blast
qed (rule reach_lang_to [OF assms])

end
