(* ===== verification/Grammar_Advance.thy ===== *)
theory Grammar_Advance
  imports Grammar_Lang
begin

text \<open>
  What \<open>llama_grammar_advance_stack\<close> computes: the stopped stacks reachable by expanding references,
  and when its loop ends.
\<close>

section \<open>Reachable stacks\<close>

definition reach_from :: "llama_grammar_rules \<Rightarrow> llama_grammar_stack set \<Rightarrow> llama_grammar_stack set" where
  "reach_from rules T = {s. \<exists>t \<in> T. reaches rules t s}"

definition stops_of :: "llama_grammar_rules \<Rightarrow> llama_grammar_stack set \<Rightarrow> llama_grammar_stack set" where
  "stops_of rules T = {s \<in> reach_from rules T. stopped rules s}"

lemma reach_from_simps [simp]:
  "reach_from rules {} = {}"
  "reach_from rules (S \<union> T) = reach_from rules S \<union> reach_from rules T"
  by (auto simp: reach_from_def)

lemma stops_of_Un [simp]: "stops_of rules {} = {}" "stops_of rules (S \<union> T) = stops_of rules S \<union> stops_of rules T"
  by (auto simp: stops_of_def)

lemma in_reach_from: "t \<in> T \<Longrightarrow> t \<in> reach_from rules T"
  by (auto simp: reach_from_def)

lemma reach_from_step: "s \<in> reach_from rules T \<Longrightarrow> estep rules s t \<Longrightarrow> t \<in> reach_from rules T"
  unfolding reach_from_def by (blast intro: rtranclp.rtrancl_into_rtrancl)

text \<open>The visited stacks: their successors are visited or pending, the stopped ones are in the result.\<close>

definition seen_closed :: "llama_grammar_rules \<Rightarrow> llama_grammar_stack set \<Rightarrow> llama_grammar_stack set \<Rightarrow> bool" where
  "seen_closed rules S T \<longleftrightarrow> (\<forall>s \<in> S. \<forall>t. estep rules s t \<longrightarrow> t \<in> S \<union> T)"

lemma seen_closed_escape:
  assumes "seen_closed rules S T" "s \<in> S" "reaches rules s t"
  shows "t \<in> S \<or> t \<in> reach_from rules T"
  using assms(3,1,2) by (induction rule: rtranclp_induct) (auto simp: seen_closed_def intro: in_reach_from reach_from_step)

lemma reach_from_seen:
  assumes "seen_closed rules S T"
  shows "reach_from rules (S \<union> T) = S \<union> reach_from rules T"
proof
  show "reach_from rules (S \<union> T) \<subseteq> S \<union> reach_from rules T"
    using seen_closed_escape [OF assms] by (auto simp: reach_from_def)
  show "S \<union> reach_from rules T \<subseteq> reach_from rules (S \<union> T)" by (auto intro: in_reach_from)
qed

lemma stopped_no_step: "stopped rules s \<Longrightarrow> \<not> estep rules s t"
  by (cases s) (auto simp: stopped_def estep_Cons is_terminal_def)

lemma reach_from_stopped: "stopped rules s \<Longrightarrow> reach_from rules {s} = {s}"
  using stopped_no_step by (auto simp: reach_from_def elim: converse_rtranclpE)

lemma rtranclp_unfold_left: "r\<^sup>*\<^sup>* x y \<longleftrightarrow> y = x \<or> (\<exists>z. r x z \<and> r\<^sup>*\<^sup>* z y)"
  by (auto elim: converse_rtranclpE intro: converse_rtranclp_into_rtranclp)

lemma reach_from_ref:
  assumes "ge_type (elem_at rules p) = GRETYPE_RULE_REF" "expand_ref rules p rest = Some ss"
  shows "reach_from rules {p # rest} = insert (p # rest) (reach_from rules (set ss))"
proof -
  have "estep rules (p # rest) s \<longleftrightarrow> s \<in> set ss" for s using assms by (simp add: estep_Cons)
  then have "reaches rules (p # rest) x \<longleftrightarrow> x = p # rest \<or> (\<exists>t \<in> set ss. reaches rules t x)" for x
    by (subst rtranclp_unfold_left) auto
  then show ?thesis by (auto simp: reach_from_def)
qed

lemma set_add_stack [simp]: "set (add_stack s ss) = insert s (set ss)"
  by (auto simp: add_stack_def)

lemma distinct_add_stack: "distinct ss \<Longrightarrow> distinct (add_stack s ss)"
  by (auto simp: add_stack_def)

text \<open>One iteration: a stack already visited, a stopped stack, or a reference.\<close>

lemma advance_Nil: "advance_loop rules [] seen new = ok_res new"
  by (simp add: advance_loop.simps)

lemma advance_seen: "s \<in> set seen \<Longrightarrow> advance_loop rules (s # todo) seen new = advance_loop rules todo seen new"
  by (simp add: advance_loop.simps)

lemma advance_stopped:
  "s \<notin> set seen \<Longrightarrow> stopped rules s \<Longrightarrow> advance_loop rules (s # todo) seen new = advance_loop rules todo (s # seen) (add_stack s new)"
  by (subst advance_loop.simps) (auto simp: stopped_def is_terminal_def split: list.split)

lemma advance_ref:
  "(p # rest) \<notin> set seen \<Longrightarrow> ge_type (elem_at rules p) = GRETYPE_RULE_REF \<Longrightarrow> expand_ref rules p rest = Some ss \<Longrightarrow>
   advance_loop rules ((p # rest) # todo) seen new = advance_loop rules (rev ss @ todo) ((p # rest) # seen) new"
  by (subst advance_loop.simps) simp

section \<open>The loop\<close>

text \<open>Induction over the iterations of a loop that ends; on well-formed stacks none of them fails.\<close>

lemma advance_induct:
  assumes wf: "wf_rules rules" and run: "advance_loop rules todo seen new = Some r" and todo: "\<forall>s \<in> set todo. wf_stack rules s"
    and nil: "\<And>seen new. P [] seen new new"
    and dup: "\<And>s todo seen new new'. s \<in> set seen \<Longrightarrow> P todo seen new new' \<Longrightarrow> P (s # todo) seen new new'"
    and stop: "\<And>s todo seen new new'. s \<notin> set seen \<Longrightarrow> wf_stack rules s \<Longrightarrow> stopped rules s \<Longrightarrow>
      P todo (s # seen) (add_stack s new) new' \<Longrightarrow> P (s # todo) seen new new'"
    and ref: "\<And>p rest ss todo seen new new'. p # rest \<notin> set seen \<Longrightarrow> ge_type (elem_at rules p) = GRETYPE_RULE_REF \<Longrightarrow>
      expand_ref rules p rest = Some ss \<Longrightarrow> P (rev ss @ todo) ((p # rest) # seen) new new' \<Longrightarrow> P ((p # rest) # todo) seen new new'"
  shows "\<exists>new'. r = Inr new' \<and> P todo seen new new'"
proof -
  let ?P = "\<lambda>gs todo seen new r. gs = rules \<longrightarrow> (\<forall>s \<in> set todo. wf_stack rules s) \<longrightarrow> (\<exists>new'. r = Inr new' \<and> P todo seen new new')"
  have "?P rules todo seen new r"
  proof (rule advance_loop.raw_induct [of ?P, OF _ run], intro impI)
    fix loop gs todo seen new r
    assume ih: "\<And>gs todo seen new r. loop gs todo seen new = Some r \<Longrightarrow> ?P gs todo seen new r"
      and gs: "gs = rules" and wt: "\<forall>s \<in> set todo. wf_stack rules s"
      and eq: "(case todo of [] \<Rightarrow> ok_res new | cur # todo \<Rightarrow>
          if cur \<in> set seen then loop gs todo seen new
          else (case cur of [] \<Rightarrow> loop gs todo (cur # seen) (add_stack cur new)
          | p # rest \<Rightarrow>
              if ge_type (elem_at gs p) = GRETYPE_RULE_REF then
                (case expand_ref gs p rest of None \<Rightarrow> err_res G_BOUNDS | Some nexts \<Rightarrow> loop gs (rev nexts @ todo) (cur # seen) new)
              else if is_terminal (elem_at gs p) then loop gs todo (cur # seen) (add_stack cur new)
              else err_res G_ABORT)) = Some r"
    have IH: "loop rules todo seen new = Some r \<Longrightarrow> \<forall>s \<in> set todo. wf_stack rules s \<Longrightarrow> \<exists>new'. r = Inr new' \<and> P todo seen new new'"
      for todo seen new r using ih by blast
    show "\<exists>new'. r = Inr new' \<and> P todo seen new new'"
    proof (cases todo)
      case Nil then show ?thesis using eq nil by auto
    next
      case (Cons s todo')
      have ws: "wf_stack rules s" "\<forall>s \<in> set todo'. wf_stack rules s" using wt Cons by auto
      consider "s \<in> set seen" | "s \<notin> set seen" "stopped rules s"
        | p rest where "s \<notin> set seen" "s = p # rest" "ge_type (elem_at rules p) = GRETYPE_RULE_REF"
        using stopped_or_ref [OF ws(1)] by blast
      then show ?thesis
      proof cases
        case 1
        then have "loop rules todo' seen new = Some r" using eq by (simp add: gs Cons)
        from IH [OF this ws(2)] show ?thesis using dup [OF 1] Cons by blast
      next
        case 2
        then have "loop rules todo' (s # seen) (add_stack s new) = Some r" using eq
          by (auto simp: gs Cons stopped_def is_terminal_def split: list.splits)
        from IH [OF this ws(2)] show ?thesis using stop [OF 2(1) ws(1) 2(2)] Cons by blast
      next
        case 3
        from ws(1) 3 have wp: "wf_stack rules (p # rest)" by simp
        from expand_ref_ok [OF wf wp 3(3)] obtain ss where ss: "expand_ref rules p rest = Some ss" "\<forall>s \<in> set ss. wf_stack rules s" by blast
        have "loop rules (rev ss @ todo') (s # seen) new = Some r" using eq 3 ss(1) by (simp add: gs Cons)
        moreover have "\<forall>s \<in> set (rev ss @ todo'). wf_stack rules s" using ss(2) ws(2) by auto
        ultimately show ?thesis using IH ref [of p rest seen ss todo' new] 3 ss(1) Cons by blast
      qed
    qed
  qed
  then show ?thesis using todo by blast
qed
lemma seen_closed_add:
  "seen_closed rules S (insert s T) \<Longrightarrow> (\<And>t. estep rules s t \<Longrightarrow> t \<in> U) \<Longrightarrow> T \<subseteq> U \<Longrightarrow> seen_closed rules (insert s S) U"
  unfolding seen_closed_def by blast

lemma seen_closed_dup: "seen_closed rules S (insert s T) \<Longrightarrow> s \<in> S \<Longrightarrow> seen_closed rules S T"
  unfolding seen_closed_def by blast

lemma reach_from_insert: "reach_from rules (insert s T) = reach_from rules {s} \<union> reach_from rules T"
  using reach_from_simps(2) [of rules "{s}" T] by simp

lemma stops_of_insert: "stops_of rules (insert s T) = stops_of rules {s} \<union> stops_of rules T"
  using stops_of_Un(2) [of rules "{s}" T] by simp

text \<open>Everything reachable from a visited stack is visited or reachable from a pending one.\<close>

lemma stops_of_seen:
  assumes "seen_closed rules S T" "s \<in> S"
  shows "stops_of rules {s} \<subseteq> {s \<in> S. stopped rules s} \<union> stops_of rules T"
proof -
  have "reach_from rules {s} \<subseteq> S \<union> reach_from rules T"
    using reach_from_seen [OF assms(1)] assms(2) by (auto simp: reach_from_def)
  then show ?thesis by (auto simp: stops_of_def)
qed

definition advance_post :: "llama_grammar_rules \<Rightarrow> llama_grammar_stacks \<Rightarrow> llama_grammar_stacks \<Rightarrow> llama_grammar_stacks \<Rightarrow> llama_grammar_stacks \<Rightarrow> bool" where
  "advance_post rules todo seen new new' \<longleftrightarrow>
     (seen_closed rules (set seen) (set todo) \<longrightarrow> (\<forall>s \<in> set seen. stopped rules s \<longrightarrow> s \<in> set new) \<longrightarrow>
        set new' = set new \<union> stops_of rules (set todo) \<and> finite (reach_from rules (set todo)) \<and> (distinct new \<longrightarrow> distinct new'))"

lemma advance_post_dup:
  assumes s: "s \<in> set seen" and ih: "advance_post rules todo seen new new'"
  shows "advance_post rules (s # todo) seen new new'"
  unfolding advance_post_def
proof (intro impI)
  assume c: "seen_closed rules (set seen) (set (s # todo))" and n: "\<forall>s \<in> set seen. stopped rules s \<longrightarrow> s \<in> set new"
  have c': "seen_closed rules (set seen) (set todo)" using c s seen_closed_dup by simp
  have p: "set new' = set new \<union> stops_of rules (set todo)" "finite (reach_from rules (set todo))" "distinct new \<longrightarrow> distinct new'"
    using ih c' n by (auto simp: advance_post_def)
  have st: "stops_of rules {s} \<subseteq> set new'" using stops_of_seen [OF c' s] n p(1) by auto
  have "reach_from rules {s} \<subseteq> set seen \<union> reach_from rules (set todo)"
    using reach_from_seen [OF c'] s by (auto simp: reach_from_def)
  moreover have "finite (set seen \<union> reach_from rules (set todo))" using p(2) by simp
  ultimately have "finite (reach_from rules {s})" by (rule finite_subset)
  moreover have "set new \<union> (stops_of rules {s} \<union> stops_of rules (set todo)) = set new'" using st p(1) by auto
  ultimately show "set new' = set new \<union> stops_of rules (set (s # todo)) \<and> finite (reach_from rules (set (s # todo))) \<and> (distinct new \<longrightarrow> distinct new')"
    using p(2,3) reach_from_insert [of rules s "set todo"] stops_of_insert [of rules s "set todo"] by simp
qed

lemma advance_post_stop:
  assumes s: "stopped rules s" and ih: "advance_post rules todo (s # seen) (add_stack s new) new'"
  shows "advance_post rules (s # todo) seen new new'"
  unfolding advance_post_def
proof (intro impI)
  assume c: "seen_closed rules (set seen) (set (s # todo))" and n: "\<forall>s \<in> set seen. stopped rules s \<longrightarrow> s \<in> set new"
  have "seen_closed rules (set (s # seen)) (set todo)" using seen_closed_add [of rules "set seen" s "set todo"] c stopped_no_step [OF s] by auto
  then have p: "set new' = insert s (set new) \<union> stops_of rules (set todo)" "finite (reach_from rules (set todo))" "distinct new \<longrightarrow> distinct new'"
    using ih n by (auto simp: advance_post_def distinct_add_stack)
  have "stops_of rules {s} = {s}" using s by (auto simp: stops_of_def reach_from_stopped)
  then show "set new' = set new \<union> stops_of rules (set (s # todo)) \<and> finite (reach_from rules (set (s # todo))) \<and> (distinct new \<longrightarrow> distinct new')"
    using p reach_from_stopped [OF s] by (simp add: reach_from_insert [of rules s "set todo"] stops_of_insert [of rules s "set todo"])
qed

lemma advance_post_ref:
  assumes r: "ge_type (elem_at rules p) = GRETYPE_RULE_REF" "expand_ref rules p rest = Some ss"
    and ih: "advance_post rules (rev ss @ todo) ((p # rest) # seen) new new'"
  shows "advance_post rules ((p # rest) # todo) seen new new'"
  unfolding advance_post_def
proof (intro impI)
  let ?s = "p # rest"
  have ns: "\<not> stopped rules ?s" using r(1) by (simp add: stopped_def is_terminal_def)
  assume c: "seen_closed rules (set seen) (set (?s # todo))" and n: "\<forall>s \<in> set seen. stopped rules s \<longrightarrow> s \<in> set new"
  have "seen_closed rules (set (?s # seen)) (set (rev ss @ todo))"
    using seen_closed_add [of rules "set seen" ?s "set todo" "set ss \<union> set todo"] c r by (auto simp: estep_Cons)
  then have q: "set new' = set new \<union> stops_of rules (set ss \<union> set todo)" "finite (reach_from rules (set ss \<union> set todo))" "distinct new \<longrightarrow> distinct new'"
    using ih n ns by (auto simp: advance_post_def)
  have "reach_from rules {?s} = insert ?s (reach_from rules (set ss))" by (rule reach_from_ref [OF r])
  moreover from this have "stops_of rules {?s} = stops_of rules (set ss)" using ns by (auto simp: stops_of_def)
  ultimately show "set new' = set new \<union> stops_of rules (set (?s # todo)) \<and> finite (reach_from rules (set (?s # todo))) \<and> (distinct new \<longrightarrow> distinct new')"
    using q by (simp add: reach_from_insert [of rules ?s "set todo"] stops_of_insert [of rules ?s "set todo"] Un_assoc)
qed

lemma advance_result:
  assumes wf: "wf_rules rules" and run: "advance_loop rules todo seen new = Some r" and todo: "\<forall>s \<in> set todo. wf_stack rules s"
  shows "\<exists>new'. r = Inr new' \<and> advance_post rules todo seen new new'"
  by (rule advance_induct [OF assms, where P = "advance_post rules"])
    (auto intro: advance_post_dup advance_post_stop advance_post_ref simp: advance_post_def [of _ "[]"])

text \<open>With finitely many reachable stacks the loop ends.\<close>

lemma advance_ends:
  assumes wf: "wf_rules rules" and fin: "finite R" and closed: "\<forall>s \<in> R. \<forall>t. estep rules s t \<longrightarrow> t \<in> R"
  shows "set todo \<subseteq> R \<Longrightarrow> \<forall>s \<in> set todo. wf_stack rules s \<Longrightarrow> \<exists>r. advance_loop rules todo seen new = Some r"
proof (induction "(card (R - set seen), length todo)" arbitrary: todo seen new rule: wf_induct [OF wf_lex_prod [OF wf_less_than wf_less_than]])
  case (1 todo seen new)
  have IH: "\<exists>r. advance_loop rules todo' seen' new' = Some r"
    if "card (R - set seen') < card (R - set seen) \<or> card (R - set seen') = card (R - set seen) \<and> length todo' < length todo"
      "set todo' \<subseteq> R" "\<forall>s \<in> set todo'. wf_stack rules s" for todo' seen' new'
    using 1(1) that by auto
  show ?case
  proof (cases todo)
    case Nil then show ?thesis by (simp add: advance_Nil)
  next
    case (Cons s todo')
    have s: "s \<in> R" "wf_stack rules s" and t: "set todo' \<subseteq> R" "\<forall>s \<in> set todo'. wf_stack rules s" using 1(2,3) Cons by auto
    show ?thesis
    proof (cases "s \<in> set seen")
      case True then show ?thesis using IH [OF _ t] by (simp add: Cons advance_seen)
    next
      case False
      have less: "card (R - set (s # seen)) < card (R - set seen)" using fin s(1) False by (intro psubset_card_mono) auto
      show ?thesis
      proof (cases "stopped rules s")
        case True then show ?thesis using IH [OF _ t, of "s # seen"] less False by (simp add: Cons advance_stopped)
      next
        case ns: False
        then obtain p rest where p: "s = p # rest" "ge_type (elem_at rules p) = GRETYPE_RULE_REF" using stopped_or_ref [OF s(2)] by blast
        have wp: "wf_stack rules (p # rest)" using s(2) p(1) by simp
        from expand_ref_ok [OF wf wp p(2)] obtain ss where ss: "expand_ref rules p rest = Some ss" "\<forall>s \<in> set ss. wf_stack rules s" by blast
        have "set ss \<subseteq> R" using closed s(1) p ss(1) by (auto simp: estep_Cons)
        then have "set (rev ss @ todo') \<subseteq> R" "\<forall>s \<in> set (rev ss @ todo'). wf_stack rules s" using t ss(2) by auto
        from IH [OF _ this, of "s # seen"] less show ?thesis using ss(1) p False by (simp add: Cons advance_ref)
      qed
    qed
  qed
qed

section \<open>The advance of a stack\<close>

lemma advance_stack_ok:
  assumes wf: "wf_rules rules" "wf_stack rules s" and fin: "finite {t. reaches rules s t}"
  shows "\<exists>new'. llama_grammar_advance_stack rules s new = ok_res new' \<and>
    set new' = set new \<union> {t. reaches rules s t \<and> stopped rules t} \<and> (distinct new \<longrightarrow> distinct new')"
proof -
  have "\<exists>r. advance_loop rules [s] [] new = Some r"
    by (rule advance_ends [OF wf(1) fin]) (use wf(2) in \<open>auto intro: rtranclp.rtrancl_into_rtrancl\<close>)
  then obtain r where r: "advance_loop rules [s] [] new = Some r" by blast
  from advance_result [OF wf(1) r] wf(2) obtain new' where "r = Inr new'" "advance_post rules [s] [] new new'" by auto
  then show ?thesis using r by (auto simp: llama_grammar_advance_stack_def advance_post_def seen_closed_def stops_of_def reach_from_def)
qed

lemma advance_stack_finite:
  assumes wf: "wf_rules rules" "wf_stack rules s" and run: "llama_grammar_advance_stack rules s new = Some r"
  shows "finite {t. reaches rules s t}"
proof -
  from advance_result [OF wf(1) run [unfolded llama_grammar_advance_stack_def]] wf(2)
  obtain new' where "advance_post rules [s] [] new new'" by auto
  then show ?thesis by (simp add: advance_post_def seen_closed_def reach_from_def)
qed

text \<open>
  C28. \<open>llama_grammar_advance_stack\<close> on a well-formed stack: when finitely many stacks are reachable by
  expanding the references at the top, it ends without an error and has added exactly the reachable
  stacks that are empty or have a terminal at the top, each once; with infinitely many it never ends.
\<close>

theorem advance_stack_exact:
  assumes "wf_rules rules" "wf_stack rules s"
  shows "if finite {t. reaches rules s t}
    then \<exists>new'. llama_grammar_advance_stack rules s new = ok_res new' \<and>
      set new' = set new \<union> {t. reaches rules s t \<and> stopped rules t} \<and> (distinct new \<longrightarrow> distinct new')
    else llama_grammar_advance_stack rules s new = None"
proof (cases "finite {t. reaches rules s t}")
  case True
  then show ?thesis using advance_stack_ok [OF assms] by (simp only: if_True)
next
  case False
  then have "llama_grammar_advance_stack rules s new = None" using advance_stack_finite [OF assms] by (cases "llama_grammar_advance_stack rules s new") auto
  then show ?thesis using False by (simp only: if_False)
qed

definition demo_rules :: llama_grammar_rules where
  "demo_rules = [[\<lparr>ge_type = GRETYPE_RULE_REF, ge_value = 1\<rparr>, \<lparr>ge_type = GRETYPE_CHAR, ge_value = 98\<rparr>, end_elem],
                 [\<lparr>ge_type = GRETYPE_CHAR, ge_value = 97\<rparr>, \<lparr>ge_type = GRETYPE_ALT, ge_value = 0\<rparr>, end_elem]]"

lemma demo_wf: "wf_rules demo_rules" "wf_stack demo_rules [(0, 0)]"
  by (simp_all add: wf_rules_def demo_rules_def alt_starts_def pos_parse_def rule_at_def items_of.simps is_end_of_sequence_def end_elem_def
      less_Suc_eq elem_at_def is_positive_char_def)

theorem advance_stack_exact_witness:
  "set [[(1, 0), (0, 1)], [(0, 1)]] = set [] \<union> {t. reaches demo_rules [(0, 0)] t \<and> stopped demo_rules t}"
proof -
  have run: "llama_grammar_advance_stack demo_rules [(0, 0)] [] = ok_res [[(0, 1)], [(1, 0), (0, 1)]]"
    by (simp add: llama_grammar_advance_stack_def advance_loop.simps demo_rules_def elem_at_def rule_at_def expand_ref_def alt_starts_def
        end_elem_def push_pos_def is_end_of_sequence_def add_stack_def is_terminal_def)
  have fin: "finite {t. reaches demo_rules [(0, 0)] t}" by (rule advance_stack_finite [OF demo_wf run])
  show ?thesis using advance_stack_exact [OF demo_wf, of "[]"] run by (auto simp: fin)
qed

end
