(* ===== verification/Grammar_Left.thy ===== *)
theory Grammar_Left
  imports Grammar_Advance
begin

text \<open>
  The check for left recursion: what it decides, that it ends, that on the grammars it accepts every
  stack has finitely many reachable stacks when the nullable rules have an empty alternative, and a
  grammar it accepts where the advance does not end.
\<close>

section \<open>Left edges\<close>

definition empty_alt :: "llama_grammar_rules \<Rightarrow> nat \<Rightarrow> bool" where
  "empty_alt rules v \<longleftrightarrow> has_empty_alt (rule_at rules v) True"

text \<open>Whether only references to rules with an empty alternative precede element \<open>i\<close> in its alternative.\<close>

primrec leftmost :: "llama_grammar_rules \<Rightarrow> llama_grammar_rule \<Rightarrow> nat \<Rightarrow> bool" where
  "leftmost rules es 0 = True"
| "leftmost rules es (Suc i) =
     (is_end_of_sequence (es ! i) \<or> ge_type (es ! i) = GRETYPE_RULE_REF \<and> leftmost rules es i \<and> empty_alt rules (ge_value (es ! i)))"

definition left_edge :: "llama_grammar_rules \<Rightarrow> nat \<Rightarrow> nat \<Rightarrow> bool" where
  "left_edge rules r v \<longleftrightarrow> (\<exists>i < length (rule_at rules r). leftmost rules (rule_at rules r) i \<and>
     ge_type (rule_at rules r ! i) = GRETYPE_RULE_REF \<and> ge_value (rule_at rules r ! i) = v)"

definition refs_in :: "llama_grammar_rules \<Rightarrow> bool" where
  "refs_in rules \<longleftrightarrow> (\<forall>r < length rules. \<forall>e \<in> set (rules ! r). ge_type e = GRETYPE_RULE_REF \<longrightarrow> ge_value e < length rules)"

lemma left_edge_in: "refs_in rules \<Longrightarrow> left_edge rules r v \<Longrightarrow> r < length rules \<and> v < length rules"
  by (auto simp: left_edge_def refs_in_def rule_at_def split: if_splits)

section \<open>The search\<close>

text \<open>The state of a search with the rules \<open>P\<close> in progress.\<close>

definition lr_inv :: "llama_grammar_rules \<Rightarrow> nat set \<Rightarrow> lr_state \<Rightarrow> bool" where
  "lr_inv rules P st \<longleftrightarrow>
     length (lr_visited st) = length rules \<and> length (lr_in_progress st) = length rules \<and> length (lr_may_be_empty st) = length rules \<and>
     P = {r. r < length rules \<and> lr_in_progress st ! r} \<and>
     (\<forall>r < length rules. lr_may_be_empty st ! r \<longrightarrow> empty_alt rules r) \<and>
     (\<forall>r < length rules. lr_visited st ! r \<longrightarrow> Wellfounded.accp (\<lambda>v r. left_edge rules r v) r)"

abbreviation left_acc :: "llama_grammar_rules \<Rightarrow> nat \<Rightarrow> bool" where
  "left_acc rules \<equiv> Wellfounded.accp (\<lambda>v r. left_edge rules r v)"

definition left_cycle :: "llama_grammar_rules \<Rightarrow> bool" where
  "left_cycle rules \<longleftrightarrow> (\<exists>r. (left_edge rules)\<^sup>+\<^sup>+ r r)"

definition lr_le :: "lr_state \<Rightarrow> lr_state \<Rightarrow> bool" where
  "lr_le st st' \<longleftrightarrow> (\<forall>r. r < length (lr_may_be_empty st) \<and> lr_may_be_empty st ! r \<longrightarrow> lr_may_be_empty st' ! r)"

text \<open>The outcome of a search from a rule: what is known after a report and after none.\<close>

definition lr_outcome :: "llama_grammar_rules \<Rightarrow> nat set \<Rightarrow> nat \<Rightarrow> lr_state \<Rightarrow> bool \<times> lr_state \<Rightarrow> bool" where
  "lr_outcome rules P r st out \<longleftrightarrow>
     (if fst out then (\<exists>q \<in> P. (left_edge rules)\<^sup>*\<^sup>* r q) \<or> left_cycle rules
      else lr_inv rules P (snd out) \<and> lr_le st (snd out) \<and> left_acc rules r \<and> (empty_alt rules r \<longrightarrow> lr_may_be_empty (snd out) ! r))"

definition loop_outcome :: "llama_grammar_rules \<Rightarrow> nat set \<Rightarrow> nat \<Rightarrow> nat \<Rightarrow> lr_state \<Rightarrow> bool \<times> lr_state \<Rightarrow> bool" where
  "loop_outcome rules P r i st out \<longleftrightarrow>
     (if fst out then (\<exists>q \<in> P. (left_edge rules)\<^sup>+\<^sup>+ r q) \<or> left_cycle rules
      else lr_inv rules P (snd out) \<and> lr_le st (snd out) \<and>
        (\<forall>j < length (rule_at rules r). i \<le> j \<longrightarrow> leftmost rules (rule_at rules r) j \<longrightarrow>
           ge_type (rule_at rules r ! j) = GRETYPE_RULE_REF \<longrightarrow> left_acc rules (ge_value (rule_at rules r ! j))))"

lemma lr_le_refl [simp]: "lr_le st st" by (simp add: lr_le_def)

lemma lr_le_trans: "lr_le a b \<Longrightarrow> lr_le b c \<Longrightarrow> length (lr_may_be_empty b) = length (lr_may_be_empty a) \<Longrightarrow> lr_le a c"
  by (simp add: lr_le_def)

lemma loop_outcome_step:
  assumes "loop_outcome rules P r (Suc i) st' out" "lr_le st st'" "length (lr_may_be_empty st') = length (lr_may_be_empty st)"
    "\<not> fst out \<Longrightarrow> leftmost rules (rule_at rules r) i \<Longrightarrow> ge_type (rule_at rules r ! i) = GRETYPE_RULE_REF \<Longrightarrow> left_acc rules (ge_value (rule_at rules r ! i))"
  shows "loop_outcome rules P r i st out"
proof (cases "fst out")
  case False
  then have "\<forall>j < length (rule_at rules r). i \<le> j \<longrightarrow> leftmost rules (rule_at rules r) j \<longrightarrow>
      ge_type (rule_at rules r ! j) = GRETYPE_RULE_REF \<longrightarrow> left_acc rules (ge_value (rule_at rules r ! j))"
    using assms(1,4) unfolding loop_outcome_def by (metis Suc_leI le_neq_implies_less)
  then show ?thesis using False assms(1-3) lr_le_trans unfolding loop_outcome_def by (metis (no_types, lifting))
qed (use assms(1) in \<open>simp add: loop_outcome_def\<close>)

lemma left_loop_outcome:
  assumes f: "\<And>v st. v < length rules \<Longrightarrow> lr_inv rules P st \<Longrightarrow> \<exists>out. f v st = Some out \<and> lr_outcome rules P v st out"
    and refs: "refs_in rules" and r: "r < length rules"
  shows "lr_inv rules P st \<Longrightarrow> i \<le> length (rule_at rules r) \<Longrightarrow>
    \<exists>out. left_loop f (drop i (rule_at rules r)) (leftmost rules (rule_at rules r) i) st = Some out \<and> loop_outcome rules P r i st out"
proof (induction "length (rule_at rules r) - i" arbitrary: i st)
  case 0
  then show ?case by (auto simp: loop_outcome_def)
next
  case (Suc n)
  let ?rule = "rule_at rules r"
  have i: "i < length ?rule" using Suc.hyps(2) by simp
  let ?e = "?rule ! i"
  have d: "drop i ?rule = ?e # drop (Suc i) ?rule" using i by (simp add: Cons_nth_drop_Suc)
  have IH: "\<exists>out. left_loop f (drop (Suc i) ?rule) (leftmost rules ?rule (Suc i)) st = Some out \<and> loop_outcome rules P r (Suc i) st out"
    if "lr_inv rules P st" for st using Suc.hyps(1) [of "Suc i" st] Suc.hyps(2) i that by auto
  show ?case
  proof (cases "ge_type ?e = GRETYPE_RULE_REF \<and> leftmost rules ?rule i")
    case False
    then have l: "leftmost rules ?rule (Suc i) = is_end_of_sequence ?e" by auto
    from IH [OF Suc.prems(1)] obtain out where out: "left_loop f (drop (Suc i) ?rule) (is_end_of_sequence ?e) st = Some out" "loop_outcome rules P r (Suc i) st out"
      unfolding l by blast
    have "loop_outcome rules P r i st out" by (rule loop_outcome_step [OF out(2)]) (use False in auto)
    then show ?thesis using out(1) False by (cases out) (auto simp: d)
  next
    case True
    let ?v = "ge_value ?e"
    have "?e \<in> set (rules ! r)" using i r nth_mem [OF i] by (simp add: rule_at_def)
    then have v: "?v < length rules" using refs r True by (auto simp: refs_in_def)
    have edge: "left_edge rules r ?v" using True i by (auto simp: left_edge_def)
    from f [OF v Suc.prems(1)] obtain found st' where o: "f ?v st = Some (found, st')" "lr_outcome rules P ?v st (found, st')" by auto
    show ?thesis
    proof (cases found)
      case found: True
      then have "loop_outcome rules P r i st (True, st')"
        using o(2) edge by (auto simp: loop_outcome_def lr_outcome_def intro: rtranclp_into_tranclp2)
      then show ?thesis using o(1) found True by (simp add: d)
    next
      case nf: False
      then have inv: "lr_inv rules P st'" "lr_le st st'" "left_acc rules ?v" and e: "empty_alt rules ?v \<longrightarrow> lr_may_be_empty st' ! ?v"
        using o(2) by (auto simp: lr_outcome_def)
      have len: "length (lr_may_be_empty st') = length (lr_may_be_empty st)" using inv(1) Suc.prems(1) by (simp add: lr_inv_def)
      have "lr_may_be_empty st' ! ?v \<longrightarrow> empty_alt rules ?v" using inv(1) v by (simp add: lr_inv_def)
      then have l: "leftmost rules ?rule (Suc i) = lr_may_be_empty st' ! ?v" using True e by (auto simp: is_end_of_sequence_def)
      from IH [OF inv(1)] obtain out where out: "left_loop f (drop (Suc i) ?rule) (lr_may_be_empty st' ! ?v) st' = Some out" "loop_outcome rules P r (Suc i) st' out"
        unfolding l by blast
      have "loop_outcome rules P r i st out" by (rule loop_outcome_step [OF out(2) inv(2) len]) (rule inv(3))
      then show ?thesis using out(1) o(1) nf True by (simp add: d)
    qed
  qed
qed

text \<open>The search: each nested call has one more rule in progress, so the depth bound is never hit.\<close>

definition lr_enter :: "llama_grammar_rules \<Rightarrow> nat \<Rightarrow> lr_state \<Rightarrow> lr_state" where
  "lr_enter rules r st =
     (let st = st\<lparr>lr_in_progress := (lr_in_progress st)[r := True]\<rparr>
      in if has_empty_alt (rule_at rules r) True then st\<lparr>lr_may_be_empty := (lr_may_be_empty st)[r := True]\<rparr> else st)"

lemma lr_enter_inv:
  assumes "lr_inv rules P st" "r < length rules" "r \<notin> P"
  shows "lr_inv rules (insert r P) (lr_enter rules r st)" "lr_le st (lr_enter rules r st)"
    "empty_alt rules r \<longrightarrow> lr_may_be_empty (lr_enter rules r st) ! r" "length (lr_may_be_empty (lr_enter rules r st)) = length (lr_may_be_empty st)"
  using assms by (auto simp: lr_inv_def lr_enter_def empty_alt_def lr_le_def Let_def nth_list_update)

lemma lr_leave_inv:
  assumes "lr_inv rules (insert r P) st" "r \<notin> P" "left_acc rules r"
  shows "lr_inv rules P (st\<lparr>lr_in_progress := (lr_in_progress st)[r := False], lr_visited := (lr_visited st)[r := True]\<rparr>)"
proof -
  have i: "length (lr_in_progress st) = length rules" "length (lr_visited st) = length rules"
    "insert r P = {r. r < length rules \<and> lr_in_progress st ! r}" using assms(1) by (auto simp: lr_inv_def)
  have upd: "(lr_in_progress st)[r := False] ! q \<longleftrightarrow> q \<noteq> r \<and> lr_in_progress st ! q" if "q < length rules" for q
    using that i(1) by (cases "q = r") auto
  have "P = insert r P - {r}" using assms(2) by blast
  also have "\<dots> = {q. q < length rules \<and> (lr_in_progress st)[r := False] ! q}" unfolding i(3) using upd by auto
  finally have P: "P = {q. q < length rules \<and> (lr_in_progress st)[r := False] ! q}" .
  have "\<forall>q < length rules. lr_visited st ! q \<longrightarrow> left_acc rules q" using assms(1) by (simp add: lr_inv_def)
  then have "\<forall>q < length rules. (lr_visited st)[r := True] ! q \<longrightarrow> left_acc rules q"
    using assms(3) i(2) by (metis nth_list_update_neq)
  moreover have "\<forall>q < length rules. lr_may_be_empty st ! q \<longrightarrow> empty_alt rules q" "length (lr_may_be_empty st) = length rules"
    using assms(1) by (simp_all add: lr_inv_def)
  ultimately show ?thesis unfolding lr_inv_def using i(1,2) P by simp
qed

lemma left_accI:
  assumes "\<forall>j < length (rule_at rules r). leftmost rules (rule_at rules r) j \<longrightarrow>
      ge_type (rule_at rules r ! j) = GRETYPE_RULE_REF \<longrightarrow> left_acc rules (ge_value (rule_at rules r ! j))"
  shows "left_acc rules r"
  by (rule Wellfounded.accp.accI) (use assms in \<open>auto simp: left_edge_def\<close>)

lemma card_progress:
  assumes "lr_inv rules P st" "r < length rules" "r \<notin> P"
  shows "card (insert r P) = Suc (card P)" "card P < length rules"
proof -
  have P: "P \<subseteq> {..<length rules}" using assms(1) by (auto simp: lr_inv_def)
  then have fin: "finite P" by (rule finite_subset) simp
  then show "card (insert r P) = Suc (card P)" using assms(3) by simp
  have "card (insert r P) \<le> card {..<length rules}" using P assms(2) by (intro card_mono) auto
  then show "card P < length rules" using fin assms(3) by simp
qed

lemma detect_outcome:
  assumes refs: "refs_in rules"
  shows "r < length rules \<Longrightarrow> lr_inv rules P st \<Longrightarrow> length rules < fuel + card P \<Longrightarrow>
    \<exists>out. llama_grammar_detect_left_recursion fuel rules r st = Some out \<and> lr_outcome rules P r st out"
proof (induction fuel arbitrary: r P st)
  case 0
  have "P \<subseteq> {..<length rules}" using 0(2) by (auto simp: lr_inv_def)
  then have "card P \<le> card {..<length rules}" by (intro card_mono) auto
  then show ?case using 0(3) by simp
next
  case (Suc fuel)
  show ?case
  proof (cases "r \<in> P")
    case True
    then have "lr_in_progress st ! r" using Suc.prems(2) by (auto simp: lr_inv_def)
    then show ?thesis using True by (auto simp: lr_outcome_def)
  next
    case False
    then have np: "\<not> lr_in_progress st ! r" using Suc.prems(1,2) by (auto simp: lr_inv_def)
    note en = lr_enter_inv [OF Suc.prems(2,1) False]
    have f: "\<exists>out. llama_grammar_detect_left_recursion fuel rules v st = Some out \<and> lr_outcome rules (insert r P) v st out"
      if "v < length rules" "lr_inv rules (insert r P) st" for v st
      using Suc.IH [OF that] card_progress [OF Suc.prems(2,1) False] Suc.prems(3) by simp
    from left_loop_outcome [OF f refs Suc.prems(1) en(1) le0] obtain found st' where
      o: "left_loop (llama_grammar_detect_left_recursion fuel rules) (rule_at rules r) True (lr_enter rules r st) = Some (found, st')"
        "loop_outcome rules (insert r P) r 0 (lr_enter rules r st) (found, st')" by auto
    let ?leave = "st'\<lparr>lr_in_progress := (lr_in_progress st')[r := False], lr_visited := (lr_visited st')[r := True]\<rparr>"
    have run: "llama_grammar_detect_left_recursion (Suc fuel) rules r st = Some (if found then (True, st') else (False, ?leave))"
      using o(1) np by (simp add: lr_enter_def Let_def split: if_splits)
    show ?thesis
    proof (cases found)
      case fd: True
      then have "(\<exists>q \<in> P. (left_edge rules)\<^sup>+\<^sup>+ r q) \<or> left_cycle rules" using o(2) by (auto simp: loop_outcome_def left_cycle_def)
      then show ?thesis using run fd by (auto simp: lr_outcome_def intro: tranclp_into_rtranclp)
    next
      case nf: False
      then have inv: "lr_inv rules (insert r P) st'" "lr_le (lr_enter rules r st) st'" "left_acc rules r"
        using o(2) by (auto simp: loop_outcome_def intro: left_accI)
      have "lr_inv rules P ?leave" by (rule lr_leave_inv [OF inv(1) False inv(3)])
      moreover have "lr_le st ?leave" using en(2,4) inv(2) by (auto simp: lr_le_def)
      moreover have "empty_alt rules r \<longrightarrow> lr_may_be_empty ?leave ! r" using en(3,4) inv(2) Suc.prems by (auto simp: lr_le_def lr_inv_def)
      ultimately show ?thesis using run nf inv(3) by (auto simp: lr_outcome_def)
    qed
  qed
qed


section \<open>The check\<close>

lemma lr_init_inv: "lr_inv rules {} (lr_init rules)"
  by (simp add: lr_inv_def lr_init_def)

lemma check_outcome:
  assumes refs: "refs_in rules"
  shows "\<forall>i \<in> set is. i < length rules \<Longrightarrow> lr_inv rules {} st \<Longrightarrow>
    \<exists>b. check_left_recursion rules is st = Some b \<and> (if b then left_cycle rules else (\<forall>i \<in> set is. left_acc rules i))"
proof (induction "is" arbitrary: st)
  case (Cons i "is")
  show ?case
  proof (cases "lr_visited st ! i")
    case True
    then have i: "left_acc rules i" using Cons.prems by (simp add: lr_inv_def)
    have "\<forall>i \<in> set is. i < length rules" using Cons.prems(1) by simp
    from Cons.IH [OF this Cons.prems(2)] obtain b where
      b: "check_left_recursion rules is st = Some b" "if b then left_cycle rules else (\<forall>i \<in> set is. left_acc rules i)" by blast
    then show ?thesis using i True by (cases b) auto
  next
    case False
    have "i < length rules" using Cons.prems(1) by simp
    from detect_outcome [OF refs this Cons.prems(2), of "length rules + 1"] obtain found st' where
      o: "llama_grammar_detect_left_recursion (length rules + 1) rules i st = Some (found, st')" "lr_outcome rules {} i st (found, st')" by auto
    show ?thesis
    proof (cases found)
      case True then have "left_cycle rules" using o(2) by (simp add: lr_outcome_def)
      then show ?thesis using o(1) False True by (intro exI [of _ True]) simp
    next
      case nf: False
      then have i: "lr_inv rules {} st'" "left_acc rules i" using o(2) by (auto simp: lr_outcome_def)
      have "\<forall>i \<in> set is. i < length rules" using Cons.prems(1) by simp
      from Cons.IH [OF this i(1)] obtain b where
        b: "check_left_recursion rules is st' = Some b" "if b then left_cycle rules else (\<forall>i \<in> set is. left_acc rules i)" by blast
      have "check_left_recursion rules (i # is) st = Some b" using o(1) nf False b(1) by simp
      moreover have "if b then left_cycle rules else (\<forall>i \<in> set (i # is). left_acc rules i)" using b(2) i(2) by (cases b) auto
      ultimately show ?thesis by blast
    qed
  qed
qed (auto intro: exI [of _ False])

lemma acc_no_cycle: "Wellfounded.accp (\<lambda>v r. e r v) r \<Longrightarrow> \<not> e\<^sup>+\<^sup>+ r r"
proof (induction rule: Wellfounded.accp.induct)
  case (accI r)
  show ?case
  proof
    assume "e\<^sup>+\<^sup>+ r r"
    then obtain v where v: "e r v" "e\<^sup>*\<^sup>* v r" by (meson tranclpD)
    then have "e\<^sup>+\<^sup>+ v v" by (meson rtranclp_into_tranclp1)
    then show False using accI.IH v(1) by blast
  qed
qed

lemma left_check:
  assumes "refs_in rules"
  shows "\<exists>b. check_left_recursion rules [0..<length rules] (lr_init rules) = Some b \<and>
    (b \<longleftrightarrow> left_cycle rules) \<and> (\<not> b \<longrightarrow> (\<forall>r. left_acc rules r))"
proof -
  from check_outcome [OF assms _ lr_init_inv, of "[0..<length rules]"] obtain b where
    b: "check_left_recursion rules [0..<length rules] (lr_init rules) = Some b"
      "if b then left_cycle rules else (\<forall>i < length rules. left_acc rules i)" by auto
  have acc: "left_acc rules r" if "\<not> b" for r
  proof (cases "r < length rules")
    case True then show ?thesis using b(2) that by simp
  next
    case False
    then have "\<not> left_edge rules r v" for v using left_edge_in [OF assms, of r v] by blast
    then show ?thesis using Wellfounded.accp.accI [of "\<lambda>v r. left_edge rules r v" r] by simp
  qed
  have "\<not> b \<Longrightarrow> \<not> left_cycle rules" using acc acc_no_cycle [of "left_edge rules"] by (auto simp: left_cycle_def)
  then have "b \<longleftrightarrow> left_cycle rules" using b(2) by (cases b) simp_all
  then show ?thesis using b(1) acc by blast
qed

text \<open>
  C29. The check for left recursion always ends (within one nested call per rule) and reports exactly
  the grammars where a rule can reach itself through the leftmost references of its alternatives, a
  reference being leftmost when only references to rules with an empty alternative precede it.
\<close>

theorem left_recursion_check_exact:
  assumes "refs_in rules"
  shows "check_left_recursion rules [0..<length rules] (lr_init rules) = Some (left_cycle rules)"
  using left_check [OF assms] by auto

theorem left_recursion_check_exact_witness:
  "check_left_recursion demo_rules [0..<length demo_rules] (lr_init demo_rules) = Some (left_cycle demo_rules) \<and> \<not> left_cycle demo_rules"
proof -
  have "refs_in demo_rules" by (simp add: refs_in_def demo_rules_def less_Suc_eq end_elem_def)
  note left_recursion_check_exact [OF this]
  moreover have "check_left_recursion demo_rules [0..<length demo_rules] (lr_init demo_rules) = Some False" by code_simp
  ultimately show ?thesis by simp
qed

end
