(* ===== verification/Grammar_Ends.thy ===== *)
theory Grammar_Ends
  imports Grammar_Left
begin

text \<open>
  When the advance of a stack ends: on the grammars the check for left recursion accepts, provided
  every rule that derives the empty text has an alternative without elements; without that proviso
  the check lets a grammar pass on which it does not end.
\<close>

section \<open>Expansion below a prefix\<close>

abbreviation stack_acc :: "llama_grammar_rules \<Rightarrow> llama_grammar_stack \<Rightarrow> bool" where
  "stack_acc rules \<equiv> Wellfounded.accp (\<lambda>t s. estep rules s t)"

lemma stack_accI: "(\<And>t. estep rules s t \<Longrightarrow> stack_acc rules t) \<Longrightarrow> stack_acc rules s"
  by (rule Wellfounded.accp.accI)

lemma stack_acc_Nil [simp]: "stack_acc rules []"
  by (rule stack_accI) simp

lemma push_pos_append: "push_pos rules p (X @ rest) = push_pos rules p X @ rest"
  by (simp add: push_pos_def)

lemma estep_append:
  assumes "estep rules (X @ rest) t" "X \<noteq> []"
  shows "\<exists>Y. t = Y @ rest \<and> estep rules X Y"
proof -
  obtain p X' where X: "X = p # X'" using assms(2) by (cases X) auto
  show ?thesis using assms(1) by (auto simp: X estep_Cons expand_ref_def push_pos_append)
qed

lemma stack_acc_append: "stack_acc rules X \<Longrightarrow> (reaches rules X [] \<longrightarrow> stack_acc rules rest) \<Longrightarrow> stack_acc rules (X @ rest)"
proof (induction rule: Wellfounded.accp.induct)
  case (accI X)
  show ?case
  proof (cases "X = []")
    case True then show ?thesis using accI.prems by simp
  next
    case False
    show ?thesis
    proof (rule stack_accI)
      fix t assume "estep rules (X @ rest) t"
      from estep_append [OF this False] obtain Y where Y: "t = Y @ rest" "estep rules X Y" by blast
      have "reaches rules Y [] \<longrightarrow> stack_acc rules rest" using accI.prems Y(2) by (auto intro: converse_rtranclp_into_rtranclp)
      then show "stack_acc rules t" using accI.IH [OF Y(2)] Y(1) by simp
    qed
  qed
qed

lemma stack_acc_finite: "stack_acc rules s \<Longrightarrow> finite {t. reaches rules s t}"
proof (induction rule: Wellfounded.accp.induct)
  case (accI s)
  have "finite {t. estep rules s t}"
  proof (cases s)
    case (Cons p rest)
    then have "{t. estep rules s t} \<subseteq> (case expand_ref rules p rest of None \<Rightarrow> {} | Some ss \<Rightarrow> set ss)" by (auto simp: estep_Cons)
    then show ?thesis by (rule finite_subset) (simp split: option.split)
  qed simp
  moreover have "{t. reaches rules s t} = insert s (\<Union>u \<in> {t. estep rules s t}. {t. reaches rules u t})"
    using rtranclp_unfold_left [of "estep rules" s] by auto
  ultimately show ?case using accI.IH by simp
qed

section \<open>Positions of a rule\<close>

definition starts_acc :: "llama_grammar_rules \<Rightarrow> nat \<Rightarrow> bool" where
  "starts_acc rules v \<longleftrightarrow> (\<forall>starts. alt_starts rules v = Some starts \<longrightarrow> (\<forall>j \<in> set starts. stack_acc rules (push_pos rules (v, j) [])))"

definition nullable :: "llama_grammar_rules \<Rightarrow> nat \<Rightarrow> bool" where
  "nullable rules v \<longleftrightarrow> gen (prods rules) [Ref v] []"

lemma start_null:
  assumes "wf_rules rules" "v < length rules" "alt_starts rules v = Some starts" "j \<in> set starts" "reaches rules (push_pos rules (v, j) []) []"
  shows "nullable rules v"
proof -
  have par: "pos_parse rules (v, j) \<noteq> None" using assms(1-4) by (auto simp: wf_rules_def)
  have "wf_stack rules (push_pos rules (v, j) [])" by (rule push_wf [OF par]) (use assms(2) in simp_all)
  moreover have "stopped rules []" "slang rules [] []" by (simp_all add: stopped_def gen_nil)
  ultimately have "slang rules (push_pos rules (v, j) []) []" using reach_lang [OF assms(1)] assms(5) by blast
  then have "gen (prods rules) (pos_items rules (v, j)) []" using push_items [OF par, of "[]"] by simp
  moreover have "pos_items rules (v, j) \<in> prods rules v" using assms(3,4) by (auto simp: prods_def)
  ultimately show ?thesis unfolding nullable_def by (auto simp: gen_expand intro!: bexI [of _ "pos_items rules (v, j)"])
qed

lemma ref_elem:
  assumes "wf_rules rules" "r < length rules" "pos_parse rules (r, i) \<noteq> None" "ge_type (elem_at rules (r, i)) = GRETYPE_RULE_REF"
  shows "ge_value (elem_at rules (r, i)) < length rules"
proof -
  have "wf_stack rules [(r, i)]" using assms(2-4) by (simp add: is_end_of_sequence_def)
  from ref_alts(1) [OF assms(1) this assms(4)] show ?thesis .
qed

text \<open>Positions along a rule, as far as the rules referenced there are expanded to nothing.\<close>

lemma stack_acc_pos:
  assumes wf: "wf_rules rules" and r: "r < length rules"
    and starts: "\<And>i. L i \<Longrightarrow> i < length (rule_at rules r) \<Longrightarrow> ge_type (elem_at rules (r, i)) = GRETYPE_RULE_REF \<Longrightarrow>
      starts_acc rules (ge_value (elem_at rules (r, i)))"
    and next_pos: "\<And>i. L i \<Longrightarrow> ge_type (elem_at rules (r, i)) = GRETYPE_RULE_REF \<Longrightarrow> nullable rules (ge_value (elem_at rules (r, i))) \<Longrightarrow> L (Suc i)"
  shows "L i \<Longrightarrow> pos_parse rules (r, i) \<noteq> None \<Longrightarrow> stack_acc rules (push_pos rules (r, i) [])"
proof (induction "length (rule_at rules r) - i" arbitrary: i rule: less_induct)
  case less
  have i: "i < length (rule_at rules r)" using parse_in_rule [OF less.prems(2)] .
  let ?e = "elem_at rules (r, i)"
  show ?case
  proof (cases "ge_type ?e = GRETYPE_RULE_REF")
    case False
    then have "\<not> estep rules (push_pos rules (r, i) []) t" for t by (auto simp: push_pos_def estep_Cons)
    then show ?thesis using stack_accI [of rules "push_pos rules (r, i) []"] by blast
  next
    case True
    note par = parse_ref(1) [OF less.prems(2) True]
    have push: "push_pos rules (r, i) [] = [(r, i)]" using True by (simp add: push_pos_def is_end_of_sequence_def)
    have v: "ge_value ?e < length rules" by (rule ref_elem [OF wf r less.prems(2) True])
    show ?thesis
      unfolding push
    proof (rule stack_accI)
      fix t assume "estep rules [(r, i)] t"
      then obtain starts' j where j: "alt_starts rules (ge_value ?e) = Some starts'" "j \<in> set starts'"
        "t = push_pos rules (ge_value ?e, j) (push_pos rules (r, Suc i) [])"
        by (auto simp: estep_Cons expand_ref_def)
      have t: "t = push_pos rules (ge_value ?e, j) [] @ push_pos rules (r, Suc i) []"
        using push_pos_append [of rules "(ge_value ?e, j)" "[]" "push_pos rules (r, Suc i) []"] j(3) by simp
      show "stack_acc rules t"
        unfolding t
      proof (rule stack_acc_append, goal_cases)
        case 1 then show ?case using starts [OF less.prems(1) i True] j(1,2) by (auto simp: starts_acc_def)
      next
        case 2
        show ?case
        proof
          assume "reaches rules (push_pos rules (ge_value ?e, j) []) []"
          from start_null [OF wf v j(1,2) this] have "L (Suc i)" by (rule next_pos [OF less.prems(1) True])
          then show "stack_acc rules (push_pos rules (r, Suc i) [])" using less.hyps [of "Suc i"] i par by auto
        qed
      qed
    qed
  qed
qed

lemma scan_alts_start: "scan_alts es k st = Some starts \<Longrightarrow> j \<in> set starts \<Longrightarrow> j = st \<or> (\<exists>m < length es. j = k + m + 1 \<and> ge_type (es ! m) = GRETYPE_ALT)"
proof (induction es arbitrary: k st starts)
  case (Cons e es)
  have later: ?case if "\<exists>m < length es. j = k + 1 + m + 1 \<and> ge_type (es ! m) = GRETYPE_ALT"
  proof -
    from that obtain m where "m < length es" "j = k + 1 + m + 1" "ge_type (es ! m) = GRETYPE_ALT" by blast
    then have "Suc m < length (e # es) \<and> j = k + Suc m + 1 \<and> ge_type ((e # es) ! Suc m) = GRETYPE_ALT" by simp
    then show ?thesis by blast
  qed
  consider "ge_type e = GRETYPE_END" | "ge_type e = GRETYPE_ALT" | "ge_type e \<noteq> GRETYPE_END" "ge_type e \<noteq> GRETYPE_ALT" by blast
  then show ?case
  proof cases
    case 1 then show ?thesis using Cons.prems by auto
  next
    case 2
    then obtain starts' where st: "scan_alts es (k + 1) (k + 1) = Some starts'" "starts = st # starts'" using Cons.prems(1) by auto
    show ?thesis
    proof (cases "j = st \<or> j = k + 1")
      case True then show ?thesis using 2 by auto
    next
      case False
      then have "j \<in> set starts'" using Cons.prems(2) st(2) by auto
      from Cons.IH [OF st(1) this] False show ?thesis by (intro later) simp
    qed
  next
    case 3
    then have "scan_alts es (k + 1) st = Some starts" using Cons.prems(1) by simp
    from Cons.IH [OF this Cons.prems(2)] show ?thesis using later by blast
  qed
qed simp

lemma start_leftmost: "alt_starts rules v = Some starts \<Longrightarrow> j \<in> set starts \<Longrightarrow> leftmost rules (rule_at rules v) j"
proof -
  assume "alt_starts rules v = Some starts" "j \<in> set starts"
  then have "j = 0 \<or> (\<exists>m. j = Suc m \<and> ge_type (rule_at rules v ! m) = GRETYPE_ALT)"
    using scan_alts_start [of "rules ! v" 0 0 starts j] by (auto simp: alt_starts_def rule_at_def split: if_splits)
  then show ?thesis by (auto simp: is_end_of_sequence_def)
qed

section \<open>Checked grammars\<close>

lemma wf_refs_in: "wf_rules rules \<Longrightarrow> refs_in rules"
  by (auto simp: wf_rules_def refs_in_def)

lemma elem_ref:
  assumes "ge_type (elem_at rules (r, i)) = GRETYPE_RULE_REF"
  shows "r < length rules" "i < length (rule_at rules r)" "elem_at rules (r, i) = rule_at rules r ! i"
  using assms by (auto simp: elem_at_def rule_at_def end_elem_def split: if_splits)

lemma elem_ref_in:
  assumes "wf_rules rules" "ge_type (elem_at rules (r, i)) = GRETYPE_RULE_REF"
  shows "ge_value (elem_at rules (r, i)) < length rules"
  using elem_ref [OF assms(2)] assms wf_refs_in [OF assms(1)] by (auto simp: refs_in_def rule_at_def)

text \<open>Rules that derive the empty text do so by an alternative without elements.\<close>

definition explicit_empty :: "llama_grammar_rules \<Rightarrow> bool" where
  "explicit_empty rules \<longleftrightarrow> (\<forall>v < length rules. nullable rules v \<longrightarrow> empty_alt rules v)"

lemma starts_accI:
  assumes wf: "wf_rules rules" and ex: "explicit_empty rules"
  shows "left_acc rules v \<Longrightarrow> v < length rules \<Longrightarrow> starts_acc rules v"
proof (induction rule: Wellfounded.accp.induct)
  case (accI v)
  let ?L = "leftmost rules (rule_at rules v)"
  have edge: "left_edge rules v (ge_value (elem_at rules (v, i)))" if "?L i" "ge_type (elem_at rules (v, i)) = GRETYPE_RULE_REF" for i
    using elem_ref [OF that(2)] that by (auto simp: left_edge_def)
  have "starts_acc rules (ge_value (elem_at rules (v, i)))"
    if "?L i" "i < length (rule_at rules v)" "ge_type (elem_at rules (v, i)) = GRETYPE_RULE_REF" for i
    using accI.IH edge [OF that(1,3)] elem_ref_in [OF wf that(3)] by blast
  moreover have "?L (Suc i)"
    if "?L i" "ge_type (elem_at rules (v, i)) = GRETYPE_RULE_REF" "nullable rules (ge_value (elem_at rules (v, i)))" for i
    using that elem_ref_in [OF wf that(2)] elem_ref(3) [OF that(2)] ex by (simp add: explicit_empty_def)
  ultimately have "stack_acc rules (push_pos rules (v, j) [])" if "?L j" "pos_parse rules (v, j) \<noteq> None" for j
    using stack_acc_pos [OF wf accI.prems, of ?L j] that by blast
  then show ?case using wf accI.prems start_leftmost unfolding starts_acc_def wf_rules_def by fastforce
qed

lemma wf_stack_acc:
  assumes wf: "wf_rules rules" and ex: "explicit_empty rules" and acc: "\<forall>r. left_acc rules r"
  shows "wf_stack rules s \<Longrightarrow> stack_acc rules s"
proof (induction s)
  case (Cons p rest)
  obtain r i where p: "p = (r, i)" by (cases p)
  have "starts_acc rules (ge_value (elem_at rules (r, i)))" if "ge_type (elem_at rules (r, i)) = GRETYPE_RULE_REF" for i
    using starts_accI [OF wf ex] acc elem_ref_in [OF wf that] by blast
  then have "stack_acc rules (push_pos rules (r, i) [])"
    using stack_acc_pos [OF wf, of r "\<lambda>_. True" i] Cons.prems p by auto
  then have "stack_acc rules [p]" using Cons.prems p by (simp add: push_pos_def)
  then have "stack_acc rules ([p] @ rest)" by (rule stack_acc_append) (use Cons in auto)
  then show ?case by simp
qed simp

lemma checked_finite:
  assumes wf: "wf_rules rules" and ex: "explicit_empty rules"
    and chk: "check_left_recursion rules [0..<length rules] (lr_init rules) = Some False" and st: "wf_stack rules s"
  shows "finite {t. reaches rules s t}"
proof -
  have "\<forall>r. left_acc rules r" using left_check [OF wf_refs_in [OF wf]] chk by auto
  from wf_stack_acc [OF wf ex this st] show ?thesis by (rule stack_acc_finite)
qed

text \<open>
  C34. Soundness of the check for left recursion: on well-formed rules that pass it, and where every
  rule that derives the empty text has an alternative without elements, every advance of a
  well-formed stack ends, without an error.
\<close>

theorem left_recursion_check_sound:
  assumes "wf_rules rules" "explicit_empty rules" "wf_stack rules s"
    and "check_left_recursion rules [0..<length rules] (lr_init rules) = Some False"
  shows "\<exists>new'. llama_grammar_advance_stack rules s new = ok_res new'"
  using advance_stack_ok [OF assms(1,3) checked_finite [OF assms(1,2,4,3)]] by blast

lemma demo_explicit: "explicit_empty demo_rules"
proof -
  have st: "alt_starts demo_rules 0 = Some [0]" "alt_starts demo_rules 1 = Some [0, 2]" by code_simp+
  have "empty_alt demo_rules 1" by code_simp
  moreover have "\<not> nullable demo_rules 0"
  proof
    assume "nullable demo_rules 0"
    then have "gen (prods demo_rules) (pos_items demo_rules (0, 0)) []" unfolding nullable_def gen_expand by (auto simp: prods_def st)
    moreover have "pos_items demo_rules (0, 0) = [Ref 1] @ [Chars {98}]"
      by (simp add: pos_items_def pos_parse_def demo_rules_def rule_at_def items_of.simps is_end_of_sequence_def end_elem_def is_positive_char_def)
    ultimately have "gen (prods demo_rules) ([Ref 1] @ [Chars {98}]) []" by metis
    from gen_split [OF this] show False by (auto elim: gen_chrE)
  qed
  ultimately show ?thesis by (auto simp: explicit_empty_def demo_rules_def less_Suc_eq)
qed

theorem left_recursion_check_sound_witness:
  "\<exists>new'. llama_grammar_advance_stack demo_rules [(0, 0)] [] = ok_res new'"
proof -
  have "check_left_recursion demo_rules [0..<length demo_rules] (lr_init demo_rules) = Some False" by code_simp
  from left_recursion_check_sound [OF demo_wf(1) demo_explicit demo_wf(2) this, of "[]"] show ?thesis .
qed

section \<open>A grammar the check lets pass\<close>

text \<open>
  The rules of \<^verbatim>\<open>root ::= a root "x" | "y"\<close>, \<^verbatim>\<open>a ::= b\<close>, \<^verbatim>\<open>b ::= "c" |\<close>: \<open>a\<close> derives the empty text
  only through \<open>b\<close>.
\<close>

definition hidden_rules :: llama_grammar_rules where
  "hidden_rules =
     [[\<lparr>ge_type = GRETYPE_RULE_REF, ge_value = 1\<rparr>, \<lparr>ge_type = GRETYPE_RULE_REF, ge_value = 0\<rparr>, \<lparr>ge_type = GRETYPE_CHAR, ge_value = 120\<rparr>,
       \<lparr>ge_type = GRETYPE_ALT, ge_value = 0\<rparr>, \<lparr>ge_type = GRETYPE_CHAR, ge_value = 121\<rparr>, end_elem],
      [\<lparr>ge_type = GRETYPE_RULE_REF, ge_value = 2\<rparr>, end_elem],
      [\<lparr>ge_type = GRETYPE_CHAR, ge_value = 99\<rparr>, \<lparr>ge_type = GRETYPE_ALT, ge_value = 0\<rparr>, end_elem]]"

lemma hidden_wf: "wf_rules hidden_rules"
  by (simp add: wf_rules_def hidden_rules_def alt_starts_def pos_parse_def rule_at_def items_of.simps is_end_of_sequence_def end_elem_def
      less_Suc_eq is_positive_char_def)

lemmas hidden_eval = hidden_rules_def elem_at_def rule_at_def end_elem_def expand_ref_def alt_starts_def push_pos_def is_end_of_sequence_def

lemma hidden_steps:
  "estep hidden_rules ((0, 0) # s) ((1, 0) # (0, 1) # s)" "estep hidden_rules ((1, 0) # s) ((2, 0) # s)"
  "estep hidden_rules ((0, 1) # s) ((0, 0) # (0, 2) # s)"
  "estep hidden_rules ((1, 0) # s) t \<longleftrightarrow> t = (2, 0) # s \<or> t = s"
  by (auto simp: estep_Cons hidden_eval)

lemma hidden_grows: "reaches hidden_rules ((0, 0) # s) ((0, 0) # (0, 2) # s)"
proof -
  have "estep hidden_rules ((1, 0) # (0, 1) # s) ((0, 1) # s)" using hidden_steps(4) by blast
  then show ?thesis by (meson hidden_steps(1,3) converse_rtranclp_into_rtranclp rtranclp.rtrancl_refl)
qed

lemma hidden_reaches: "reaches hidden_rules [(0, 0)] ((0, 0) # replicate n (0, 2))"
proof (induction n)
  case (Suc n)
  then show ?case using hidden_grows [of "replicate n (0, 2)"] by (simp add: rtranclp_trans)
qed simp

lemma hidden_infinite: "infinite {t. reaches hidden_rules [(0, 0)] t}"
proof
  assume "finite {t. reaches hidden_rules [(0, 0)] t}"
  moreover have "range (\<lambda>n. (0, 0) # replicate n (0, 2)) \<subseteq> {t. reaches hidden_rules [(0, 0)] t}" using hidden_reaches by auto
  moreover have "inj (\<lambda>n. (0::nat, 0::nat) # replicate n (0::nat, 2::nat))" by (auto intro!: injI dest: arg_cong [where f = length])
  ultimately show False by (meson finite_imageD finite_subset infinite_UNIV_nat)
qed

text \<open>
  C35. The check for left recursion misses it where a leftmost rule derives the empty text only through
  another rule: it passes these well-formed rules, and the construction of the grammar never returns.
\<close>

theorem left_recursion_check_incomplete:
  "wf_rules hidden_rules \<and> check_left_recursion hidden_rules [0..<length hidden_rules] (lr_init hidden_rules) = Some False \<and>
   llama_grammar_init_rules hidden_rules 0 = (None :: 'r llama_grammar option gres)"
proof -
  have chk: "check_left_recursion hidden_rules [0..<length hidden_rules] (lr_init hidden_rules) = Some False" by code_simp
  have "copy_rules hidden_rules = Some hidden_rules" "refs_defined hidden_rules" "alt_starts hidden_rules 0 = Some [0, 4]" by code_simp+
  note ev = this
  have "wf_stack hidden_rules [(0, 0)]"
    by (simp add: pos_parse_def hidden_rules_def rule_at_def items_of.simps is_end_of_sequence_def end_elem_def elem_at_def is_positive_char_def)
  then have "llama_grammar_advance_stack hidden_rules [(0, 0)] [] = None"
    using advance_stack_finite [OF hidden_wf] hidden_infinite by (cases "llama_grammar_advance_stack hidden_rules [(0, 0)] []") blast+
  moreover have "push_pos hidden_rules (0, 0) [] = [(0, 0)]" by code_simp
  ultimately have "initial_stacks hidden_rules 0 = None" by (simp add: initial_stacks_def ev)
  then show ?thesis using hidden_wf chk ev by (simp add: llama_grammar_init_rules_def)
qed

end
