(* ===== verification/Grammar_Accept.thy ===== *)
theory Grammar_Accept
  imports Grammar_Ends
begin

text \<open>
  Accepting code points: the stacks after a text denote what may follow it in the language of the
  grammar; a text is complete exactly when one of them is empty.
\<close>

section \<open>Derivatives\<close>

abbreviation stacks_lang :: "llama_grammar_rules \<Rightarrow> llama_grammar_stack set \<Rightarrow> uint32 list \<Rightarrow> bool" where
  "stacks_lang rules S w \<equiv> (\<exists>s \<in> S. slang rules s w)"

definition stacks_ok :: "llama_grammar_rules \<Rightarrow> llama_grammar_stack set \<Rightarrow> bool" where
  "stacks_ok rules S \<longleftrightarrow> (\<forall>s \<in> S. wf_stack rules s \<and> stopped rules s)"

text \<open>Rules on which every expansion of a well-formed stack ends, and the rules that are known to.\<close>

definition ends_rules :: "llama_grammar_rules \<Rightarrow> bool" where
  "ends_rules rules \<longleftrightarrow> wf_rules rules \<and> (\<forall>s. wf_stack rules s \<longrightarrow> stack_acc rules s)"

definition checked_rules :: "llama_grammar_rules \<Rightarrow> bool" where
  "checked_rules rules \<longleftrightarrow> wf_rules rules \<and> explicit_empty rules \<and>
     check_left_recursion rules [0..<length rules] (lr_init rules) = Some False"

lemma checked_ends: "checked_rules rules \<Longrightarrow> ends_rules rules"
  using left_check [OF wf_refs_in] wf_stack_acc by (auto simp: checked_rules_def ends_rules_def)

lemma ends_stops:
  assumes "wf_rules rules"
  shows "stack_acc rules s \<Longrightarrow> wf_stack rules s \<Longrightarrow> \<exists>t. reaches rules s t \<and> stopped rules t"
proof (induction rule: Wellfounded.accp.induct)
  case (accI s)
  show ?case
  proof (cases "stopped rules s")
    case False
    then obtain p rest where s: "s = p # rest" "ge_type (elem_at rules p) = GRETYPE_RULE_REF" using stopped_or_ref [OF accI.prems] by blast
    then have wp: "wf_stack rules (p # rest)" using accI.prems by simp
    from expand_ref_ok [OF assms wp s(2)] obtain ss where ss: "expand_ref rules p rest = Some ss" "ss \<noteq> []" by blast
    then have "estep rules s (hd ss)" using s by (simp add: estep_Cons)
    then show ?thesis using accI.IH estep_wf [OF assms accI.prems] by (meson converse_rtranclp_into_rtranclp)
  qed blast
qed

lemma advance_lang:
  assumes "ends_rules rules" "wf_stack rules s" "stacks_ok rules (set new)"
  shows "\<exists>new'. llama_grammar_advance_stack rules s new = ok_res new' \<and> stacks_ok rules (set new') \<and>
    (\<forall>w. stacks_lang rules (set new') w \<longleftrightarrow> stacks_lang rules (set new) w \<or> slang rules s w)"
proof -
  have wf: "wf_rules rules" and fin: "finite {t. reaches rules s t}" using assms(1,2) stack_acc_finite by (auto simp: ends_rules_def)
  from advance_stack_ok [OF wf assms(2) fin, of new] obtain new' where
    n: "llama_grammar_advance_stack rules s new = ok_res new'" "set new' = set new \<union> {t. reaches rules s t \<and> stopped rules t}" by blast
  have "stacks_ok rules (set new')" using assms(2,3) n(2) reaches_wf [OF _ wf] by (auto simp: stacks_ok_def)
  moreover have "stacks_lang rules (set new') w \<longleftrightarrow> stacks_lang rules (set new) w \<or> slang rules s w" for w
    unfolding reach_lang [OF wf assms(2)] n(2) by blast
  ultimately show ?thesis using n(1) by blast
qed

text \<open>The words of a stopped stack by their first code point.\<close>

lemma stopped_cases:
  assumes "wf_stack rules s" "stopped rules s"
  obtains "s = []" | p rest where "s = p # rest" "is_token_elem (elem_at rules p)"
    | p rest where "s = p # rest" "is_char_start (elem_at rules p)" "\<not> is_token_elem (elem_at rules p)"
  using assms by (cases s) (auto simp: stopped_def is_terminal_def is_token_elem_def is_positive_char_def)

lemma lang_token: "wf_stack rules (p # rest) \<Longrightarrow> is_token_elem (elem_at rules p) \<Longrightarrow> \<not> slang rules (p # rest) w"
  using parse_token(2) [of rules p] by (auto elim: gen_tokE)

lemma lang_class_Nil: "wf_stack rules (p # rest) \<Longrightarrow> is_char_start (elem_at rules p) \<Longrightarrow> \<not> slang rules (p # rest) []"
  using parse_class(2) [of rules p] by (auto elim: gen_chrE)

lemma lang_empty:
  assumes "wf_stack rules s" "stopped rules s"
  shows "slang rules s [] \<longleftrightarrow> s = []"
  using assms
proof (cases rule: stopped_cases)
  case 1 then show ?thesis by (simp add: gen_nil)
next
  case (2 p rest) then show ?thesis using lang_token [of rules p rest "[]"] assms(1) by simp
next
  case (3 p rest) then show ?thesis using lang_class_Nil [of rules p rest] assms(1) by simp
qed

lemma lang_class:
  assumes "wf_stack rules (p # rest)" "is_char_start (elem_at rules p)"
  shows "wf_stack rules (push_pos rules (class_end rules p) rest)"
    "slang rules (p # rest) (c # w) \<longleftrightarrow> c \<in> class_at rules p \<and> slang rules (push_pos rules (class_end rules p) rest) w"
proof -
  have par: "pos_parse rules (class_end rules p) \<noteq> None" "pos_items rules p = Chars (class_at rules p) # pos_items rules (class_end rules p)"
    using parse_class [of rules p] assms by simp_all
  show "wf_stack rules (push_pos rules (class_end rules p) rest)" by (rule push_wf [OF par(1)]) (use assms in \<open>auto simp: class_end_def\<close>)
  show "slang rules (p # rest) (c # w) \<longleftrightarrow> c \<in> class_at rules p \<and> slang rules (push_pos rules (class_end rules p) rest) w"
    using push_items [OF par(1), of rest] by (auto simp: par(2) elim: gen_chrE intro: gen_chr)
qed

section \<open>Accepting\<close>

lemma accept_chr_lang:
  assumes "ends_rules rules" "wf_stack rules s" "stopped rules s" "stacks_ok rules (set new)"
  shows "\<exists>new'. llama_grammar_accept_chr rules s c new = ok_res new' \<and> stacks_ok rules (set new') \<and>
    (\<forall>w. stacks_lang rules (set new') w \<longleftrightarrow> stacks_lang rules (set new) w \<or> slang rules s (c # w))"
  using assms(2,3)
proof (cases rule: stopped_cases)
  case 1
  then show ?thesis using assms(4) by (auto simp: llama_grammar_accept_chr_def elim: gen_nilE)
next
  case (2 p rest)
  then show ?thesis using assms(2,4) lang_token [of rules p rest] by (auto simp: llama_grammar_accept_chr_def)
next
  case (3 p rest)
  have wp: "wf_stack rules (p # rest)" using assms(2) 3(1) by simp
  note cl = lang_class [OF wp 3(2)]
  have acc: "llama_grammar_accept_chr rules s c new =
      (if c \<in> class_at rules p then llama_grammar_advance_stack rules (push_pos rules (class_end rules p) rest) new else ok_res new)"
    using match_char_eq [OF 3(2)] 3 by (simp add: llama_grammar_accept_chr_def)
  show ?thesis
  proof (cases "c \<in> class_at rules p")
    case True
    from advance_lang [OF assms(1) cl(1) assms(4)] obtain new' where
      "llama_grammar_advance_stack rules (push_pos rules (class_end rules p) rest) new = ok_res new'" "stacks_ok rules (set new')"
      "\<forall>w. stacks_lang rules (set new') w \<longleftrightarrow> stacks_lang rules (set new) w \<or> slang rules (push_pos rules (class_end rules p) rest) w" by blast
    moreover have "slang rules s (c # w) \<longleftrightarrow> slang rules (push_pos rules (class_end rules p) rest) w" for w using cl(2) True 3(1) by simp
    ultimately show ?thesis using True by (intro exI [of _ new']) (simp add: acc)
  next
    case False
    then have "\<not> slang rules s (c # w)" for w using cl(2) 3(1) by simp
    then show ?thesis using assms(4) False by (intro exI [of _ new]) (simp add: acc)
  qed
qed

lemma accept_fold_lang:
  assumes "ends_rules rules"
  shows "stacks_ok rules (set ss) \<Longrightarrow> stacks_ok rules (set new) \<Longrightarrow>
    \<exists>new'. gfold (\<lambda>s new. llama_grammar_accept_chr rules s c new) ss new = ok_res new' \<and> stacks_ok rules (set new') \<and>
      (\<forall>w. stacks_lang rules (set new') w \<longleftrightarrow> stacks_lang rules (set new) w \<or> stacks_lang rules (set ss) (c # w))"
proof (induction ss arbitrary: new)
  case (Cons s ss)
  have s: "wf_stack rules s" "stopped rules s" and ss: "stacks_ok rules (set ss)" using Cons.prems(1) by (auto simp: stacks_ok_def)
  from accept_chr_lang [OF assms s Cons.prems(2)] obtain new1 where
    n1: "llama_grammar_accept_chr rules s c new = ok_res new1" "stacks_ok rules (set new1)"
      "\<forall>w. stacks_lang rules (set new1) w \<longleftrightarrow> stacks_lang rules (set new) w \<or> slang rules s (c # w)" by blast
  from Cons.IH [OF ss n1(2)] obtain new' where
    "gfold (\<lambda>s new. llama_grammar_accept_chr rules s c new) ss new1 = ok_res new'" "stacks_ok rules (set new')"
      "\<forall>w. stacks_lang rules (set new') w \<longleftrightarrow> stacks_lang rules (set new1) w \<or> stacks_lang rules (set ss) (c # w)" by blast
  then show ?case using n1(1,3) by (intro exI [of _ new']) auto
qed auto

lemma accept_lang:
  assumes "ends_rules rules" "stacks_ok rules (set ss)"
  shows "\<exists>new'. llama_grammar_accept rules c ss = ok_res new' \<and> stacks_ok rules (set new') \<and>
    (\<forall>w. stacks_lang rules (set new') w \<longleftrightarrow> stacks_lang rules (set ss) (c # w))"
  using accept_fold_lang [OF assms, of "[]" c] by (simp add: llama_grammar_accept_def stacks_ok_def)

lemma accept_codes_lang:
  assumes "ends_rules rules"
  shows "stacks_ok rules (set ss) \<Longrightarrow>
    \<exists>new'. accept_codes rules cps ss = ok_res new' \<and> stacks_ok rules (set new') \<and>
      (\<forall>w. stacks_lang rules (set new') w \<longleftrightarrow> stacks_lang rules (set ss) (cps @ w))"
proof (induction cps arbitrary: ss)
  case Nil then show ?case by (simp add: accept_codes_def)
next
  case (Cons c cps)
  from accept_lang [OF assms Cons.prems, of c] obtain n1 where
    n1: "llama_grammar_accept rules c ss = ok_res n1" "stacks_ok rules (set n1)" "\<forall>w. stacks_lang rules (set n1) w \<longleftrightarrow> stacks_lang rules (set ss) (c # w)"
    by blast
  from Cons.IH [OF n1(2)] n1(1,3) show ?case by (auto simp: accept_codes_def)
qed

section \<open>The initial stacks\<close>

lemma gfold_advance_lang:
  assumes "ends_rules rules" "v < length rules"
  shows "\<forall>i \<in> set is. pos_parse rules (v, i) \<noteq> None \<Longrightarrow> stacks_ok rules (set new) \<Longrightarrow>
    \<exists>new'. gfold (\<lambda>i stacks. llama_grammar_advance_stack rules (push_pos rules (v, i) []) stacks) is new = ok_res new' \<and> stacks_ok rules (set new') \<and>
      (\<forall>w. stacks_lang rules (set new') w \<longleftrightarrow> stacks_lang rules (set new) w \<or> (\<exists>i \<in> set is. gen (prods rules) (pos_items rules (v, i)) w))"
proof (induction "is" arbitrary: new)
  case (Cons i "is")
  have par: "pos_parse rules (v, i) \<noteq> None" and pars: "\<forall>i \<in> set is. pos_parse rules (v, i) \<noteq> None" using Cons.prems(1) by auto
  have "wf_stack rules (push_pos rules (v, i) [])" by (rule push_wf [OF par]) (use assms(2) in simp_all)
  from advance_lang [OF assms(1) this Cons.prems(2)] push_items [OF par, of "[]"] obtain n1 where
    n1: "llama_grammar_advance_stack rules (push_pos rules (v, i) []) new = ok_res n1" "stacks_ok rules (set n1)"
      "\<forall>w. stacks_lang rules (set n1) w \<longleftrightarrow> stacks_lang rules (set new) w \<or> gen (prods rules) (pos_items rules (v, i)) w" by auto
  from Cons.IH [OF pars n1(2)] n1(1,3) show ?case by auto
qed simp

lemma initial_lang:
  assumes "ends_rules rules" "start < length rules"
  shows "\<exists>ss. initial_stacks rules start = ok_res ss \<and> stacks_ok rules (set ss) \<and>
    (\<forall>w. stacks_lang rules (set ss) w \<longleftrightarrow> gen (prods rules) [Ref start] w)"
proof -
  have "wf_rules rules" using assms(1) by (simp add: ends_rules_def)
  then obtain starts where st: "alt_starts rules start = Some starts" "\<forall>i \<in> set starts. pos_parse rules (start, i) \<noteq> None"
    using assms(2) by (auto simp: wf_rules_def)
  have "stacks_ok rules (set [])" by (simp add: stacks_ok_def)
  from gfold_advance_lang [OF assms st(2) this] obtain ss where
    ss: "gfold (\<lambda>i stacks. llama_grammar_advance_stack rules (push_pos rules (start, i) []) stacks) starts [] = ok_res ss" "stacks_ok rules (set ss)"
      "\<forall>w. stacks_lang rules (set ss) w \<longleftrightarrow> (\<exists>i \<in> set starts. gen (prods rules) (pos_items rules (start, i)) w)" by auto
  have "gen (prods rules) [Ref start] w \<longleftrightarrow> (\<exists>i \<in> set starts. gen (prods rules) (pos_items rules (start, i)) w)" for w
    unfolding gen_expand prods_def using st(1) by auto
  then show ?thesis using ss st(1) by (auto simp: initial_stacks_def)
qed

section \<open>The language of a grammar\<close>

lemma accept_all_lang:
  assumes "ends_rules rules" "start < length rules"
  shows "\<exists>ss. gbind (initial_stacks rules start) (accept_codes rules cps) = ok_res ss \<and> stacks_ok rules (set ss) \<and>
    (\<forall>w. stacks_lang rules (set ss) w \<longleftrightarrow> gen (prods rules) [Ref start] (cps @ w))"
proof -
  from initial_lang [OF assms] obtain s0 where s0: "initial_stacks rules start = ok_res s0" "stacks_ok rules (set s0)"
    "\<forall>w. stacks_lang rules (set s0) w \<longleftrightarrow> gen (prods rules) [Ref start] w" by blast
  from accept_codes_lang [OF assms(1) s0(2), of cps] s0(1,3) show ?thesis by auto
qed

text \<open>
  C4. The engine accepts the language of the grammar: on well-formed rules that pass the check for left
  recursion and whose nullable rules have an empty alternative, the stacks after any text from the
  initial ones are computed without error, what they generate is exactly what completes the text in
  the language of the start rule, and one of them is empty exactly when the text is in the language.
\<close>

theorem grammar_accepts_language:
  assumes "checked_rules rules" "start < length rules"
  shows "\<exists>ss. gbind (initial_stacks rules start) (accept_codes rules cps) = ok_res ss \<and>
    ([] \<in> set ss \<longleftrightarrow> gen (prods rules) [Ref start] cps) \<and>
    (\<forall>w. (\<exists>s \<in> set ss. gen (prods rules) (stack_items rules s) w) \<longleftrightarrow> gen (prods rules) [Ref start] (cps @ w))"
proof -
  from accept_all_lang [OF checked_ends [OF assms(1)] assms(2), of cps] obtain ss where
    ss: "gbind (initial_stacks rules start) (accept_codes rules cps) = ok_res ss" "stacks_ok rules (set ss)"
      "\<forall>w. stacks_lang rules (set ss) w \<longleftrightarrow> gen (prods rules) [Ref start] (cps @ w)" by blast
  have "stacks_lang rules (set ss) [] \<longleftrightarrow> [] \<in> set ss" using ss(2) lang_empty by (auto simp: stacks_ok_def)
  then have "[] \<in> set ss \<longleftrightarrow> gen (prods rules) [Ref start] cps" using ss(3) by simp
  then show ?thesis using ss(1,3) by blast
qed

lemma demo_checked: "checked_rules demo_rules"
proof -
  have "check_left_recursion demo_rules [0..<length demo_rules] (lr_init demo_rules) = Some False" by code_simp
  then show ?thesis using demo_wf(1) demo_explicit by (simp add: checked_rules_def)
qed

theorem grammar_accepts_language_witness:
  "gen (prods demo_rules) [Ref 0] [97, 98] \<and> \<not> gen (prods demo_rules) [Ref 0] [97]"
proof -
  have "alt_starts demo_rules 0 = Some [0]" "push_pos demo_rules (0, 0) [] = [(0, 0)]" by code_simp+
  then have "initial_stacks demo_rules 0 = ok_res [[(0, 1)], [(1, 0), (0, 1)]]"
    by (simp add: initial_stacks_def llama_grammar_advance_stack_def advance_loop.simps demo_rules_def elem_at_def rule_at_def expand_ref_def alt_starts_def
        end_elem_def push_pos_def is_end_of_sequence_def add_stack_def is_terminal_def)
  moreover have "accept_codes demo_rules [97, 98] [[(0, 1)], [(1, 0), (0, 1)]] = ok_res [[]]" "accept_codes demo_rules [97] [[(0, 1)], [(1, 0), (0, 1)]] = ok_res [[(0, 1)]]"
    by (simp_all add: accept_codes_def llama_grammar_accept_def llama_grammar_accept_chr_def llama_grammar_match_char_def is_token_elem_def is_positive_char_def
        llama_grammar_advance_stack_def advance_loop.simps demo_rules_def elem_at_def rule_at_def end_elem_def push_pos_def is_end_of_sequence_def add_stack_def is_terminal_def)
  moreover have "0 < length demo_rules" by (simp add: demo_rules_def)
  note grammar_accepts_language [OF demo_checked this, of "[97, 98]"] grammar_accepts_language [OF demo_checked this, of "[97]"]
  ultimately show ?thesis by simp
qed

end
