(* ===== verification/Grammar_Reject.thy ===== *)
theory Grammar_Reject
  imports Grammar_Accept
begin

text \<open>
  The mask: which candidates \<open>llama_grammar_reject_candidates\<close> rejects, stated per candidate; how the mask
  and the acceptance of a token agree, and where they do not.
\<close>

section \<open>One candidate\<close>

text \<open>The stopped stacks behind a code point.\<close>

definition chr_step :: "llama_grammar_rules \<Rightarrow> llama_grammar_stack \<Rightarrow> uint32 \<Rightarrow> llama_grammar_stack set" where
  "chr_step rules s c = (case s of [] \<Rightarrow> {}
     | p # rest \<Rightarrow> if is_char_start (elem_at rules p) \<and> c \<in> class_at rules p
         then {t. reaches rules (push_pos rules (class_end rules p) rest) t \<and> stopped rules t} else {})"

text \<open>Whether the rest of a candidate fits a stopped stack: it is consumed, or meets its own token.\<close>

primrec fits :: "llama_grammar_rules \<Rightarrow> llama_grammar_candidate \<Rightarrow> uint32 list \<Rightarrow> llama_grammar_stack \<Rightarrow> bool" where
  "fits rules tok [] s \<longleftrightarrow> pu_n_remain (gc_partial_utf8 tok) = 0 \<or>
     (\<exists>p rest. s = p # rest \<and> is_char_start (elem_at rules p) \<and> llama_grammar_match_partial_char rules p (gc_partial_utf8 tok) = ok_res True)"
| "fits rules tok (c # cs) s \<longleftrightarrow>
     (\<exists>p rest. s = p # rest \<and> is_token_elem (elem_at rules p) \<and> llama_grammar_match_token rules p (gc_id tok) = ok_res True) \<or>
     (\<exists>t \<in> chr_step rules s c. fits rules tok cs t)"

text \<open>The code points of a candidate that are left, and the candidates whose text ends in its only 0.\<close>

definition cand_rest :: "llama_grammar_candidate \<Rightarrow> uint32 list" where
  "cand_rest tok = butlast (drop (gc_off tok) (gc_text tok))"

definition cand_ok :: "llama_grammar_candidate \<Rightarrow> bool" where
  "cand_ok tok \<longleftrightarrow> gc_off tok < length (gc_text tok) \<and> last (gc_text tok) = 0 \<and> 0 \<notin> set (butlast (gc_text tok))"

definition fits_stack :: "llama_grammar_rules \<Rightarrow> llama_grammar_stack \<Rightarrow> llama_grammar_candidate \<Rightarrow> bool" where
  "fits_stack rules s tok = fits rules tok (cand_rest tok) s"

lemma fits_off [simp]: "fits rules (tok\<lparr>gc_off := n\<rparr>) cs s = fits rules tok cs s"
  by (induction cs arbitrary: s) auto

lemma cand_rest_cases:
  assumes "cand_ok tok"
  shows "cand_chr tok = 0 \<and> cand_rest tok = [] \<or>
    cand_chr tok \<noteq> 0 \<and> cand_rest tok = cand_chr tok # cand_rest (tok\<lparr>gc_off := gc_off tok + 1\<rparr>) \<and> cand_ok (tok\<lparr>gc_off := gc_off tok + 1\<rparr>)"
proof -
  let ?t = "gc_text tok" and ?n = "gc_off tok"
  have n: "?n < length ?t" and l: "last ?t = 0" and z: "0 \<notin> set (butlast ?t)" using assms by (auto simp: cand_ok_def)
  have d: "drop ?n ?t = ?t ! ?n # drop (Suc ?n) ?t" using n by (simp add: Cons_nth_drop_Suc)
  show ?thesis
  proof (cases "Suc ?n = length ?t")
    case True
    then have "?t ! ?n = last ?t" by (metis diff_Suc_1 last_conv_nth length_0_conv nat.distinct(1))
    then show ?thesis using l True by (simp add: cand_chr_def cand_rest_def d)
  next
    case False
    then have s: "Suc ?n < length ?t" using n by simp
    have "?t ! ?n = butlast ?t ! ?n" using s by (simp add: nth_butlast)
    then have "?t ! ?n \<in> set (butlast ?t)" using s by (simp add: nth_mem)
    then have "?t ! ?n \<noteq> 0" using z by metis
    moreover have "cand_rest tok = ?t ! ?n # cand_rest (tok\<lparr>gc_off := ?n + 1\<rparr>)" using s by (simp add: cand_rest_def d)
    ultimately show ?thesis using s l z by (simp add: cand_chr_def cand_ok_def)
  qed
qed

lemma cand_rest_length: "cand_ok tok \<Longrightarrow> length (cand_rest tok) = length (gc_text tok) - gc_off tok - 1"
  by (simp add: cand_rest_def)

section \<open>One stack\<close>

text \<open>What a filter over the candidates that needs the results of checks computes.\<close>

lemma gfold_filter:
  assumes "\<And>x acc. x \<in> set xs \<Longrightarrow> f x acc = ok_res (if P x then acc else acc @ [x])"
  shows "gfold f xs acc = ok_res (acc @ filter (\<lambda>x. \<not> P x) xs)"
  using assms by (induction xs arbitrary: acc) auto

lemma gfold_partition:
  assumes "\<And>x a b. x \<in> set xs \<Longrightarrow> f x (a, b) = ok_res (if P x then (a, b) else if Q x then (a, b @ [g x]) else (a @ [x], b))"
  shows "gfold f xs (a, b) = ok_res (a @ filter (\<lambda>x. \<not> P x \<and> \<not> Q x) xs, b @ map g (filter (\<lambda>x. \<not> P x \<and> Q x) xs))"
  using assms by (induction xs arbitrary: a b) auto

lemma match_token_ok: "is_token_elem (elem_at rules p) \<Longrightarrow> \<exists>ok. llama_grammar_match_token rules p t = ok_res ok"
  by (auto simp: is_token_elem_def llama_grammar_match_token_def Let_def)

lemma match_partial_ok: "is_char_start (elem_at rules p) \<Longrightarrow> \<exists>ok. llama_grammar_match_partial_char rules p pu = ok_res ok"
  by (auto simp: llama_grammar_match_partial_char_def Let_def split: prod.split)

lemma chr_step_simps [simp]: "chr_step rules [] c = {}"
  by (simp add: chr_step_def)

lemma chr_step_token: "is_token_elem (elem_at rules p) \<Longrightarrow> chr_step rules (p # rest) c = {}"
  by (auto simp: chr_step_def is_token_elem_def is_positive_char_def)

lemma reject_empty_stack:
  assumes "\<forall>tok \<in> set cands. cand_ok tok"
  shows "filter (\<lambda>tok. cand_chr tok \<noteq> 0 \<or> pu_n_remain (gc_partial_utf8 tok) \<noteq> 0) cands = filter (\<lambda>tok. \<not> fits_stack rules [] tok) cands"
proof (rule filter_cong [OF refl])
  fix tok assume "tok \<in> set cands"
  then have "cand_ok tok" using assms by blast
  from cand_rest_cases [OF this] show "(cand_chr tok \<noteq> 0 \<or> pu_n_remain (gc_partial_utf8 tok) \<noteq> 0) = (\<not> fits_stack rules [] tok)"
    by (auto simp: fits_stack_def)
qed

lemma reject_token_stack:
  assumes "\<forall>tok \<in> set cands. cand_ok tok" "is_token_elem (elem_at rules p)"
  shows "gfold (reject_token_step rules p) cands [] = ok_res (filter (\<lambda>tok. \<not> fits_stack rules (p # rest) tok) cands)"
proof -
  have "gfold (reject_token_step rules p) cands [] = ok_res ([] @ filter (\<lambda>tok. \<not> fits_stack rules (p # rest) tok) cands)"
  proof (rule gfold_filter)
    fix tok acc assume "tok \<in> set cands"
    then have ok: "cand_ok tok" using assms(1) by blast
    have nc: "\<not> is_char_start (elem_at rules p)" using assms(2) by (auto simp: is_token_elem_def is_positive_char_def)
    from match_token_ok [OF assms(2)] obtain b where "llama_grammar_match_token rules p (gc_id tok) = ok_res b" by blast
    then show "reject_token_step rules p tok acc = ok_res (if fits_stack rules (p # rest) tok then acc else acc @ [tok])"
      using cand_rest_cases [OF ok] assms(2) nc by (auto simp: reject_token_step_def fits_stack_def chr_step_token)
  qed
  then show ?thesis by simp
qed

definition kept_here :: "llama_grammar_rules \<Rightarrow> llama_grammar_stack \<Rightarrow> llama_grammar_candidate \<Rightarrow> bool" where
  "kept_here rules s tok \<longleftrightarrow> cand_rest tok = [] \<and> fits_stack rules s tok"

definition passed_on :: "llama_grammar_rules \<Rightarrow> gpos \<Rightarrow> llama_grammar_candidate \<Rightarrow> bool" where
  "passed_on rules p tok \<longleftrightarrow> cand_rest tok \<noteq> [] \<and> cand_chr tok \<in> class_at rules p"

lemma reject_char_stack:
  assumes "\<forall>tok \<in> set cands. cand_ok tok" "is_char_start (elem_at rules p)"
  shows "gfold (reject_char_step rules p) cands ([], []) =
    ok_res (filter (\<lambda>tok. \<not> kept_here rules (p # rest) tok \<and> \<not> passed_on rules p tok) cands,
            map (\<lambda>tok. tok\<lparr>gc_off := gc_off tok + 1\<rparr>) (filter (\<lambda>tok. \<not> kept_here rules (p # rest) tok \<and> passed_on rules p tok) cands))"
proof -
  have "gfold (reject_char_step rules p) cands ([], []) =
    ok_res ([] @ filter (\<lambda>tok. \<not> kept_here rules (p # rest) tok \<and> \<not> passed_on rules p tok) cands,
            [] @ map (\<lambda>tok. tok\<lparr>gc_off := gc_off tok + 1\<rparr>) (filter (\<lambda>tok. \<not> kept_here rules (p # rest) tok \<and> passed_on rules p tok) cands))"
  proof (rule gfold_partition)
    fix tok a b assume "tok \<in> set cands"
    then have "cand_ok tok" using assms(1) by blast
    note cs = cand_rest_cases [OF this]
    from match_partial_ok [OF assms(2)] obtain m where m: "llama_grammar_match_partial_char rules p (gc_partial_utf8 tok) = ok_res m" by blast
    show "reject_char_step rules p tok (a, b) =
        ok_res (if kept_here rules (p # rest) tok then (a, b)
          else if passed_on rules p tok then (a, b @ [tok\<lparr>gc_off := gc_off tok + 1\<rparr>]) else (a @ [tok], b))"
    proof (cases "cand_chr tok = 0")
      case True
      then have "cand_rest tok = []" using cs by blast
      then show ?thesis using True m assms(2) by (auto simp: reject_char_step_def kept_here_def passed_on_def fits_stack_def)
    next
      case False
      then have "cand_rest tok \<noteq> []" using cs by auto
      then show ?thesis using False match_char_eq [OF assms(2)] by (simp add: reject_char_step_def kept_here_def passed_on_def)
    qed
  qed
  then show ?thesis by simp
qed

lemma fits_passed_on:
  assumes "cand_ok tok" "passed_on rules p tok" "is_char_start (elem_at rules p)"
  shows "fits_stack rules (p # rest) tok \<longleftrightarrow>
    (\<exists>t. reaches rules (push_pos rules (class_end rules p) rest) t \<and> stopped rules t \<and> fits_stack rules t (tok\<lparr>gc_off := gc_off tok + 1\<rparr>))"
proof -
  have nt: "\<not> is_token_elem (elem_at rules p)" using assms(3) by (auto simp: is_token_elem_def is_positive_char_def)
  have "cand_rest tok = cand_chr tok # cand_rest (tok\<lparr>gc_off := gc_off tok + 1\<rparr>)"
    using cand_rest_cases [OF assms(1)] assms(2) by (auto simp: passed_on_def)
  then show ?thesis using assms(2,3) nt by (auto simp: fits_stack_def chr_step_def passed_on_def)
qed

lemma fits_here:
  assumes "cand_ok tok" "\<not> kept_here rules (p # rest) tok" "\<not> passed_on rules p tok" "is_char_start (elem_at rules p)"
  shows "\<not> fits_stack rules (p # rest) tok"
proof -
  have nt: "\<not> is_token_elem (elem_at rules p)" using assms(4) by (auto simp: is_token_elem_def is_positive_char_def)
  show ?thesis
  proof (cases "cand_rest tok = []")
    case True then show ?thesis using assms(2) by (simp add: kept_here_def)
  next
    case False
    then have "cand_rest tok = cand_chr tok # cand_rest (tok\<lparr>gc_off := gc_off tok + 1\<rparr>)" "cand_chr tok \<notin> class_at rules p"
      using cand_rest_cases [OF assms(1)] assms(3) by (auto simp: passed_on_def)
    then show ?thesis using nt by (auto simp: fits_stack_def chr_step_def)
  qed
qed

section \<open>All candidates\<close>

definition rejects_exactly :: "llama_grammar_rules \<Rightarrow> llama_grammar_stack set \<Rightarrow> llama_grammar_candidates \<Rightarrow> llama_grammar_candidates gres \<Rightarrow> bool" where
  "rejects_exactly rules S cands res \<longleftrightarrow> (\<exists>r. res = ok_res r \<and> set r = {tok \<in> set cands. \<forall>s \<in> S. \<not> fits_stack rules s tok})"

definition cands_below :: "nat \<Rightarrow> llama_grammar_candidates \<Rightarrow> bool" where
  "cands_below n cands \<longleftrightarrow> 0 < n \<and> (\<forall>tok \<in> set cands. cand_ok tok \<and> length (cand_rest tok) < n)"

lemma reject_stacks:
  assumes f: "\<And>s cands. s \<in> set ss \<Longrightarrow> cands_below n cands \<Longrightarrow> rejects_exactly rules {s} cands (f s cands)"
  shows "cands_below n cands \<Longrightarrow> rejects_exactly rules (set ss) cands (gfold f ss cands)"
  using f
proof (induction ss arbitrary: cands)
  case (Cons s ss)
  from Cons.prems(2) [of s] Cons.prems(1) obtain r where r: "f s cands = ok_res r" "set r = {tok \<in> set cands. \<not> fits_stack rules s tok}"
    by (auto simp: rejects_exactly_def)
  have "cands_below n r" using Cons.prems(1) r(2) by (auto simp: cands_below_def)
  from Cons.IH [OF this] Cons.prems(2) obtain r' where "gfold f ss r = ok_res r'" "set r' = {tok \<in> set r. \<forall>s \<in> set ss. \<not> fits_stack rules s tok}"
    by (auto simp: rejects_exactly_def)
  then show ?case using r by (auto simp: rejects_exactly_def)
qed (auto simp: rejects_exactly_def)

lemma reject_with_stacks:
  assumes "\<And>s cands. s \<in> set ss \<Longrightarrow> cands_below n cands \<Longrightarrow> rejects_exactly rules {s} cands (f s cands)"
    and "cands \<noteq> [] \<Longrightarrow> cands_below n cands" "ss \<noteq> []"
  shows "rejects_exactly rules (set ss) cands (reject_with f ss cands)"
proof (cases "cands = []")
  case True then show ?thesis using assms(3) by (simp add: reject_with_def rejects_exactly_def)
next
  case False
  then show ?thesis using reject_stacks [OF assms(1) assms(2) [OF False]] assms(3) by (simp add: reject_with_def)
qed

lemma off_back [simp]: "tok\<lparr>gc_off := gc_off tok + 1\<rparr>\<lparr>gc_off := gc_off (tok\<lparr>gc_off := gc_off tok + 1\<rparr>) - 1\<rparr> = (tok :: llama_grammar_candidate)"
  by simp

lemma reject_class_stack:
  assumes ends: "ends_rules rules" and wp: "wf_stack rules (p # rest)" and cl: "is_char_start (elem_at rules p)"
    and below: "cands_below (Suc n) cands"
    and f: "\<And>s cands. wf_stack rules s \<Longrightarrow> stopped rules s \<Longrightarrow> cands_below n cands \<Longrightarrow>
      rejects_exactly rules {s} cands (llama_grammar_reject_candidates_for_stack n rules s cands)"
  shows "rejects_exactly rules {p # rest} cands (llama_grammar_reject_candidates_for_stack (Suc n) rules (p # rest) cands)"
proof -
  let ?s' = "push_pos rules (class_end rules p) rest" and ?on = "\<lambda>tok. tok\<lparr>gc_off := gc_off tok + 1\<rparr>"
  have wf: "wf_rules rules" using ends by (simp add: ends_rules_def)
  note w' = lang_class(1) [OF wp cl]
  have fin: "finite {t. reaches rules ?s' t}" and acc: "stack_acc rules ?s'" using ends w' stack_acc_finite by (auto simp: ends_rules_def)
  from advance_stack_ok [OF wf w' fin, of "[]"] obtain ss where ss: "llama_grammar_advance_stack rules ?s' [] = ok_res ss"
    "set ss = {t. reaches rules ?s' t \<and> stopped rules t}" by auto
  have ne: "ss \<noteq> []" using ends_stops [OF wf acc w'] ss(2) by auto
  define rej where "rej = filter (\<lambda>tok. \<not> kept_here rules (p # rest) tok \<and> \<not> passed_on rules p tok) cands"
  define nxt where "nxt = filter (\<lambda>tok. \<not> kept_here rules (p # rest) tok \<and> passed_on rules p tok) cands"
  have ok: "\<forall>tok \<in> set cands. cand_ok tok" using below by (simp add: cands_below_def)
  have below': "cands_below n (map ?on nxt)" if "map ?on nxt \<noteq> []"
  proof -
    have step: "cand_ok (?on tok) \<and> Suc (length (cand_rest (?on tok))) < Suc n" if "tok \<in> set nxt" for tok
      using that below cand_rest_cases [of tok] by (auto simp: cands_below_def nxt_def passed_on_def)
    moreover from that obtain tok where "tok \<in> set nxt" by (cases nxt) auto
    ultimately show ?thesis by (fastforce simp: cands_below_def)
  qed
  from reject_with_stacks [OF _ below' ne, of rules "llama_grammar_reject_candidates_for_stack n rules"] f ss(2) reaches_wf [OF _ wf w']
  obtain r where r: "reject_with (llama_grammar_reject_candidates_for_stack n rules) ss (map ?on nxt) = ok_res r"
    "set r = {tok \<in> set (map ?on nxt). \<forall>s \<in> set ss. \<not> fits_stack rules s tok}" by (auto simp: rejects_exactly_def)
  have nt: "\<not> is_token_elem (elem_at rules p)" using cl by (auto simp: is_token_elem_def is_positive_char_def)
  have run: "llama_grammar_reject_candidates_for_stack (Suc n) rules (p # rest) cands = ok_res (rej @ map (\<lambda>tok. tok\<lparr>gc_off := gc_off tok - 1\<rparr>) r)"
    using reject_char_stack [OF ok cl, of rest] match_char_eq [OF cl, of 0] nt ss(1) r(1) by (simp add: rej_def nxt_def)
  have "set r = ?on ` {tok \<in> set nxt. \<not> fits_stack rules (p # rest) tok}"
    unfolding r(2) ss(2) using fits_passed_on [OF _ _ cl, of _ rest] ok by (auto simp: nxt_def)
  then have "(\<lambda>tok. tok\<lparr>gc_off := gc_off tok - 1\<rparr>) ` set r = {tok \<in> set nxt. \<not> fits_stack rules (p # rest) tok}" by (simp add: image_image)
  moreover have "set rej \<union> {tok \<in> set nxt. \<not> fits_stack rules (p # rest) tok} = {tok \<in> set cands. \<not> fits_stack rules (p # rest) tok}"
    using fits_here [OF _ _ _ cl, of _ rest] ok by (auto simp: rej_def nxt_def kept_here_def)
  ultimately show ?thesis using run by (simp add: rejects_exactly_def)
qed

lemma reject_for_stack:
  assumes ends: "ends_rules rules"
  shows "wf_stack rules s \<Longrightarrow> stopped rules s \<Longrightarrow> cands_below n cands \<Longrightarrow>
    rejects_exactly rules {s} cands (llama_grammar_reject_candidates_for_stack n rules s cands)"
proof (induction n arbitrary: s cands)
  case 0
  then show ?case by (simp add: cands_below_def)
next
  case (Suc n)
  have ok: "\<forall>tok \<in> set cands. cand_ok tok" using Suc.prems(3) by (simp add: cands_below_def)
  from Suc.prems(1,2) show ?case
  proof (cases rule: stopped_cases)
    case 1
    then show ?thesis using reject_empty_stack [OF ok, of rules] by (simp add: rejects_exactly_def)
  next
    case (2 p rest)
    then show ?thesis using reject_token_stack [OF ok 2(2), of rest] by (simp add: rejects_exactly_def)
  next
    case (3 p rest)
    have "wf_stack rules (p # rest)" using Suc.prems(1) 3(1) by simp
    from reject_class_stack [OF ends this 3(2) Suc.prems(3) Suc.IH] show ?thesis using 3(1) by simp
  qed
qed

section \<open>Mask and acceptance\<close>

fun code_set :: "llama_grammar_rules \<Rightarrow> llama_grammar_stack set \<Rightarrow> uint32 list \<Rightarrow> llama_grammar_stack set" where
  "code_set rules S [] = S"
| "code_set rules S (c # cs) = code_set rules (\<Union>s \<in> S. chr_step rules s c) cs"

lemma chr_step_ok:
  assumes "wf_rules rules" "wf_stack rules s"
  shows "stacks_ok rules (chr_step rules s c)"
proof (cases s)
  case (Cons p rest)
  have "wf_stack rules t" if "is_char_start (elem_at rules p)" "reaches rules (push_pos rules (class_end rules p) rest) t" for t
    using lang_class(1) [of rules p rest] reaches_wf [OF that(2) assms(1)] assms(2) that(1) Cons by blast
  then show ?thesis by (auto simp: stacks_ok_def chr_step_def Cons)
qed (simp add: stacks_ok_def)

lemma accept_chr_set:
  assumes "ends_rules rules" "wf_stack rules s" "stopped rules s"
  shows "\<exists>new'. llama_grammar_accept_chr rules s c new = ok_res new' \<and> set new' = set new \<union> chr_step rules s c"
  using assms(2,3)
proof (cases rule: stopped_cases)
  case (3 p rest)
  have wp: "wf_stack rules (p # rest)" using assms(2) 3(1) by simp
  note w' = lang_class(1) [OF wp 3(2)]
  have wf: "wf_rules rules" and fin: "finite {t. reaches rules (push_pos rules (class_end rules p) rest) t}"
    using assms(1) w' stack_acc_finite by (auto simp: ends_rules_def)
  from advance_stack_ok [OF wf w' fin, of new] obtain new' where
    "llama_grammar_advance_stack rules (push_pos rules (class_end rules p) rest) new = ok_res new'"
    "set new' = set new \<union> {t. reaches rules (push_pos rules (class_end rules p) rest) t \<and> stopped rules t}" by blast
  then show ?thesis using match_char_eq [OF 3(2), of c] 3 by (simp add: llama_grammar_accept_chr_def chr_step_def)
qed (auto simp: llama_grammar_accept_chr_def chr_step_token)

lemma accept_fold_set:
  assumes "ends_rules rules"
  shows "stacks_ok rules (set ss) \<Longrightarrow>
    \<exists>new'. gfold (\<lambda>s new. llama_grammar_accept_chr rules s c new) ss new = ok_res new' \<and> set new' = set new \<union> (\<Union>s \<in> set ss. chr_step rules s c)"
proof (induction ss arbitrary: new)
  case (Cons s ss)
  have "wf_stack rules s" "stopped rules s" "stacks_ok rules (set ss)" using Cons.prems by (auto simp: stacks_ok_def)
  from accept_chr_set [OF assms this(1,2), of c new] obtain n1 where
    n1: "llama_grammar_accept_chr rules s c new = ok_res n1" "set n1 = set new \<union> chr_step rules s c" by blast
  from Cons.IH [OF \<open>stacks_ok rules (set ss)\<close>, of n1] n1 show ?case by (auto simp: Un_assoc)
qed simp

lemma accept_codes_set:
  assumes "ends_rules rules"
  shows "stacks_ok rules (set ss) \<Longrightarrow> \<exists>new'. accept_codes rules cps ss = ok_res new' \<and> set new' = code_set rules (set ss) cps"
proof (induction cps arbitrary: ss)
  case (Cons c cps)
  from accept_fold_set [OF assms Cons.prems, of c "[]"] obtain n1 where
    n1: "llama_grammar_accept rules c ss = ok_res n1" "set n1 = (\<Union>s \<in> set ss. chr_step rules s c)" by (auto simp: llama_grammar_accept_def)
  have "stacks_ok rules (set n1)" using chr_step_ok Cons.prems assms n1(2) by (fastforce simp: stacks_ok_def ends_rules_def)
  from Cons.IH [OF this] n1 show ?case by (auto simp: accept_codes_def)
qed (simp add: accept_codes_def)

definition no_tokens :: "llama_grammar_rules \<Rightarrow> bool" where
  "no_tokens rules \<longleftrightarrow> (\<forall>rule \<in> set rules. \<forall>e \<in> set rule. \<not> is_token_elem e)"

lemma no_tokens_elem: "no_tokens rules \<Longrightarrow> \<not> is_token_elem (elem_at rules p)"
  by (cases p) (auto simp: no_tokens_def elem_at_def rule_at_def end_elem_def is_token_elem_def dest: nth_mem)

lemma fits_code_set:
  assumes "no_tokens rules" "pu_n_remain (gc_partial_utf8 tok) = 0"
  shows "(\<exists>s \<in> S. fits rules tok cs s) \<longleftrightarrow> code_set rules S cs \<noteq> {}"
proof (induction cs arbitrary: S)
  case Nil then show ?case using assms(2) by auto
next
  case (Cons c cs)
  have "(\<exists>s \<in> S. fits rules tok (c # cs) s) \<longleftrightarrow> (\<exists>t \<in> (\<Union>s \<in> S. chr_step rules s c). fits rules tok cs t)"
    using no_tokens_elem [OF assms(1)] by auto
  then show ?case unfolding Cons by simp
qed

text \<open>
  C5. The mask is exact: from stopped stacks of checked rules, with a depth above the longest candidate,
  \<open>llama_grammar_reject_candidates\<close> fails no assertion and rejects exactly the candidates that fit no
  stack; without token elements a candidate that ends on a whole character is rejected exactly when
  accepting its code points leaves no stack.
\<close>

theorem grammar_mask_exact:
  assumes "checked_rules rules" "stacks_ok rules (set ss)" "ss \<noteq> []" "cands_below fuel cands"
  shows "\<exists>r. llama_grammar_reject_candidates fuel rules ss cands = ok_res r \<and>
    set r = {tok \<in> set cands. \<forall>s \<in> set ss. \<not> fits rules tok (cand_rest tok) s} \<and>
    (no_tokens rules \<longrightarrow> (\<forall>tok \<in> set cands. pu_n_remain (gc_partial_utf8 tok) = 0 \<longrightarrow>
       (tok \<in> set r \<longleftrightarrow> accept_codes rules (cand_rest tok) ss = ok_res [])))"
proof -
  note ends = checked_ends [OF assms(1)]
  have "rejects_exactly rules (set ss) cands (reject_with (llama_grammar_reject_candidates_for_stack fuel rules) ss cands)"
    by (rule reject_with_stacks [OF reject_for_stack [OF ends]]) (use assms in \<open>auto simp: stacks_ok_def\<close>)
  then obtain r where r: "llama_grammar_reject_candidates fuel rules ss cands = ok_res r"
    "set r = {tok \<in> set cands. \<forall>s \<in> set ss. \<not> fits rules tok (cand_rest tok) s}"
    by (auto simp: rejects_exactly_def llama_grammar_reject_candidates_def fits_stack_def)
  have "tok \<in> set r \<longleftrightarrow> accept_codes rules (cand_rest tok) ss = ok_res []"
    if "no_tokens rules" "tok \<in> set cands" "pu_n_remain (gc_partial_utf8 tok) = 0" for tok
  proof -
    from accept_codes_set [OF ends assms(2), of "cand_rest tok"] obtain new' where
      "accept_codes rules (cand_rest tok) ss = ok_res new'" "set new' = code_set rules (set ss) (cand_rest tok)" by blast
    then have "accept_codes rules (cand_rest tok) ss = ok_res [] \<longleftrightarrow> code_set rules (set ss) (cand_rest tok) = {}" by auto
    then show ?thesis using fits_code_set [OF that(1,3), of "set ss" "cand_rest tok"] that(2) r(2) by blast
  qed
  then show ?thesis using r by blast
qed

definition demo_cand :: "uint32 list \<Rightarrow> llama_grammar_candidate" where
  "demo_cand cps = \<lparr>gc_index = 0, gc_text = cps @ [0], gc_off = 0, gc_partial_utf8 = \<lparr>pu_value = 0, pu_n_remain = 0\<rparr>, gc_id = 7\<rparr>"

theorem grammar_mask_exact_witness:
  "\<exists>r. llama_grammar_reject_candidates 3 demo_rules [[(0, 1)]] [demo_cand [97], demo_cand [98]] = ok_res r \<and> set r = {demo_cand [97]}"
proof -
  have ok: "stacks_ok demo_rules (set [[(0, 1)]])"
    by (simp add: stacks_ok_def stopped_def demo_rules_def elem_at_def rule_at_def is_terminal_def pos_parse_def items_of.simps is_end_of_sequence_def end_elem_def is_positive_char_def)
  have below: "cands_below 3 [demo_cand [97], demo_cand [98]]" by (simp add: cands_below_def demo_cand_def cand_ok_def cand_rest_def)
  have nt: "no_tokens demo_rules" by (simp add: no_tokens_def demo_rules_def is_token_elem_def end_elem_def)
  have "accept_codes demo_rules [97] [[(0, 1)]] = ok_res []" "accept_codes demo_rules [98] [[(0, 1)]] = ok_res [[]]"
    by (simp_all add: accept_codes_def llama_grammar_accept_def llama_grammar_accept_chr_def llama_grammar_match_char_def is_token_elem_def is_positive_char_def
        llama_grammar_advance_stack_def advance_loop.simps demo_rules_def elem_at_def rule_at_def end_elem_def push_pos_def is_end_of_sequence_def add_stack_def is_terminal_def)
  then show ?thesis using grammar_mask_exact [OF demo_checked ok _ below] nt by (force simp: demo_cand_def cand_rest_def)
qed

end
