(* ===== verification/Grammar_Tokens.thy ===== *)
theory Grammar_Tokens
  imports Grammar_Reject
begin

text \<open>
  Grammars with token elements: a token the mask keeps whose acceptance throws; and the trigger of a
  lazy grammar.
\<close>

section \<open>A token element after characters\<close>

text \<open>The rule of \<^verbatim>\<open>root ::= "a" <[5]>\<close>, and token 5 with the text \<^verbatim>\<open>ab\<close>.\<close>

definition mixed_rules :: llama_grammar_rules where
  "mixed_rules = [[\<lparr>ge_type = GRETYPE_CHAR, ge_value = 97\<rparr>, \<lparr>ge_type = GRETYPE_TOKEN, ge_value = 5\<rparr>, end_elem]]"

definition mixed_piece :: "llama_token \<Rightarrow> byte list" where
  "mixed_piece t = (if t = 5 then [97, 98] else [])"

definition mixed_grammar :: "unit llama_grammar" where
  "mixed_grammar = new_grammar mixed_rules [[(0, 0)]] False [] []"

lemmas mixed_eval = mixed_rules_def elem_at_def rule_at_def end_elem_def push_pos_def is_end_of_sequence_def add_stack_def is_terminal_def
  is_token_elem_def is_positive_char_def

text \<open>
  C36. The mask and the acceptance of a token disagree where a token element follows characters: the
  mask keeps a token whose first character matches and whose id is the element's, although its text
  goes on behind that character; accepting this token then throws on an empty set of stacks.
\<close>

theorem token_mask_divergence:
  "llama_grammar_init_rules mixed_rules 0 = ok_res (Some mixed_grammar) \<and>
   llama_grammar_apply_impl 3 mixed_piece (\<lambda>t. False) ninf mixed_grammar [\<lparr>td_id = 5, td_logit = l, td_p = pr\<rparr>] =
     ok_res [\<lparr>td_id = 5, td_logit = l, td_p = pr\<rparr>] \<and>
   llama_grammar_accept_impl rx_match rx_search mixed_piece (\<lambda>t. False) 5 mixed_grammar = err_res G_EMPTY_STACKS"
proof (intro conjI)
  have "copy_rules mixed_rules = Some mixed_rules" "refs_defined mixed_rules" "alt_starts mixed_rules 0 = Some [0]"
    "check_left_recursion mixed_rules [0..<length mixed_rules] (lr_init mixed_rules) = Some False" by code_simp+
  moreover have "llama_grammar_advance_stack mixed_rules (push_pos mixed_rules (0, 0) []) [] = ok_res [[(0, 0)]]"
    by (simp add: llama_grammar_advance_stack_def advance_loop.simps mixed_eval)
  ultimately show "llama_grammar_init_rules mixed_rules 0 = ok_res (Some mixed_grammar)"
    by (simp add: llama_grammar_init_rules_def initial_stacks_def mixed_grammar_def)
  have dec: "decode_utf8 [97, 98] \<lparr>pu_value = 0, pu_n_remain = 0\<rparr> = ([97, 98, 0], \<lparr>pu_value = 98, pu_n_remain = 0\<rparr>)" by code_simp
  show "llama_grammar_apply_impl 3 mixed_piece (\<lambda>t. False) ninf mixed_grammar [\<lparr>td_id = 5, td_logit = l, td_p = pr\<rparr>] =
     ok_res [\<lparr>td_id = 5, td_logit = l, td_p = pr\<rparr>]"
    by (simp add: llama_grammar_apply_impl_def mixed_grammar_def new_grammar_def apply_token_def mixed_piece_def dec numeral_3_eq_3
        llama_grammar_reject_candidates_def reject_with_def reject_char_step_def reject_token_step_def cand_chr_def
        llama_grammar_match_char_def llama_grammar_match_token_def llama_grammar_advance_stack_def advance_loop.simps mixed_eval)
  show "llama_grammar_accept_impl rx_match rx_search mixed_piece (\<lambda>t. False) 5 mixed_grammar = err_res G_EMPTY_STACKS"
    by (simp add: llama_grammar_accept_impl_def mixed_grammar_def new_grammar_def mixed_piece_def dec llama_grammar_accept_token_def
        accept_token_step_def llama_grammar_accept_chr_def llama_grammar_match_char_def llama_grammar_advance_stack_def advance_loop.simps mixed_eval)
qed

end
