(* ===== verification/Grammar_Parser.thy ===== *)
theory Grammar_Parser
  imports Grammar_Tokens "HOL-Library.AList"
begin

text \<open>
  The parser of grammar texts (src/src/llama-grammar.cpp, lines 94 to 229 and 415 to 719) and the
  construction from a text (1207 to 1311). A text is the list of its bytes before the terminating 0,
  a pointer the list of the bytes that are left. A thrown exception is a value of \<open>perror\<close>; the
  tokenizer of the vocabulary is an argument.
\<close>

datatype perror =
  P_HEX | P_NAME | P_INT | P_RANGE | P_ESCAPE | P_EOF | P_TOKEN | P_NO_VOCAB | P_NO_ITEM | P_TOO_MANY
| P_EXPECT | P_UNDEFINED | P_ASSERT

type_synonym 'a pres = "(perror + 'a) option"

abbreviation peek :: "byte list \<Rightarrow> byte" where
  "peek s \<equiv> (case s of [] \<Rightarrow> 0 | c # _ \<Rightarrow> c)"

section \<open>Lexical elements\<close>

definition is_digit_char :: "byte \<Rightarrow> bool" where
  "is_digit_char c \<longleftrightarrow> 48 \<le> c \<and> c \<le> 57"

definition is_word_char :: "byte \<Rightarrow> bool" where
  "is_word_char c \<longleftrightarrow> (97 \<le> c \<and> c \<le> 122) \<or> (65 \<le> c \<and> c \<le> 90) \<or> c = 45 \<or> is_digit_char c"

definition hex_digit :: "byte \<Rightarrow> nat option" where
  "hex_digit c =
     (if 97 \<le> c \<and> c \<le> 102 then Some (c - 97 + 10)
      else if 65 \<le> c \<and> c \<le> 70 then Some (c - 65 + 10)
      else if 48 \<le> c \<and> c \<le> 57 then Some (c - 48) else None)"

fun parse_hex :: "nat \<Rightarrow> byte list \<Rightarrow> uint32 \<Rightarrow> perror + uint32 \<times> byte list" where
  "parse_hex 0 src value = Inr (value, src)"
| "parse_hex (Suc k) [] value = Inl P_HEX"
| "parse_hex (Suc k) (c # src) value =
     (case hex_digit c of None \<Rightarrow> Inl P_HEX | Some d \<Rightarrow> parse_hex k src ((value * 16 mod 2 ^ 32 + d) mod 2 ^ 32))"

function parse_space :: "byte list \<Rightarrow> bool \<Rightarrow> byte list" where
  "parse_space [] newline_ok = []"
| "parse_space (c # src) newline_ok =
     (if c = 35 then parse_space (dropWhile (\<lambda>c. c \<noteq> 13 \<and> c \<noteq> 10) src) newline_ok
      else if c = 32 \<or> c = 9 \<or> newline_ok \<and> (c = 13 \<or> c = 10) then parse_space src newline_ok
      else c # src)"
  by pat_completeness auto

termination
  by (relation "measure (\<lambda>(src, _). length src)") (auto simp: less_Suc_eq_le length_dropWhile_le)

definition parse_name :: "byte list \<Rightarrow> perror + byte list \<times> byte list" where
  "parse_name src = (if takeWhile is_word_char src = [] then Inl P_NAME else Inr (takeWhile is_word_char src, dropWhile is_word_char src))"

definition parse_int :: "byte list \<Rightarrow> perror + byte list \<times> byte list" where
  "parse_int src = (if takeWhile is_digit_char src = [] then Inl P_INT else Inr (takeWhile is_digit_char src, dropWhile is_digit_char src))"

text \<open>\<open>std::stoul\<close> and \<open>std::stoull\<close> on digits: 64 bits, an exception beyond.\<close>

definition stoull :: "byte list \<Rightarrow> perror + nat" where
  "stoull ds = (let v = fold (\<lambda>c v. v * 10 + (c - 48)) ds 0 in if v < 2 ^ 64 then Inr v else Inl P_RANGE)"

definition parse_char :: "byte list \<Rightarrow> perror + uint32 \<times> byte list" where
  "parse_char src =
     (case src of
        [] \<Rightarrow> Inl P_EOF
      | c # rest \<Rightarrow>
          if c = 92 then
            (case rest of
               [] \<Rightarrow> Inl P_ESCAPE
             | e # rest \<Rightarrow>
                 if e = 120 then parse_hex 2 rest 0
                 else if e = 117 then parse_hex 4 rest 0
                 else if e = 85 then parse_hex 8 rest 0
                 else if e = 116 then Inr (9, rest)
                 else if e = 114 then Inr (13, rest)
                 else if e = 110 then Inr (10, rest)
                 else if e \<in> {92, 34, 91, 93} then Inr (e, rest)
                 else Inl P_ESCAPE)
          else Inr (decode_utf8_char src))"

text \<open>
  The vocabulary is the tokenizer, from a text to the tokens, or absent. A token is \<open><[id]>\<close> or a text
  in angle brackets that the vocabulary makes one token of.
\<close>

type_synonym vocab = "(byte list \<Rightarrow> llama_token list) option"

definition parse_token :: "vocab \<Rightarrow> byte list \<Rightarrow> perror + uint32 \<times> byte list" where
  "parse_token vocab src =
     (if peek src \<noteq> 60 then Inl P_EXPECT
      else if peek (tl src) = 91 then
        bindR (parse_int (tl (tl src))) (\<lambda>(ds, pos).
        bindR (stoull ds) (\<lambda>v.
          if peek pos \<noteq> 93 \<or> peek (tl pos) \<noteq> 62 then Inl P_EXPECT
          else Inr (v mod 2 ^ 32, tl (tl pos))))
      else
        (case vocab of
           None \<Rightarrow> Inl P_NO_VOCAB
         | Some tokenize \<Rightarrow>
             let text = takeWhile (\<lambda>c. c \<noteq> 62) src; pos = dropWhile (\<lambda>c. c \<noteq> 62) src
             in if pos = [] then Inl P_EXPECT
                else (case tokenize (text @ [62]) of
                        [t] \<Rightarrow> Inr (nat (t mod 2 ^ 32), tl pos)
                      | _ \<Rightarrow> Inl P_TOKEN)))"

section \<open>Symbols and rules\<close>

record parser_state =
  ps_symbol_ids :: "(byte list \<times> nat) list"
  ps_rules :: llama_grammar_rules

definition get_symbol_id :: "byte list \<Rightarrow> parser_state \<Rightarrow> nat \<times> parser_state" where
  "get_symbol_id name ps =
     (let next_id = length (ps_symbol_ids ps)
      in case map_of (ps_symbol_ids ps) name of
           Some i \<Rightarrow> (i, ps)
         | None \<Rightarrow> (next_id, ps\<lparr>ps_symbol_ids := ps_symbol_ids ps @ [(name, next_id)]\<rparr>))"

text \<open>\<open>std::to_string\<close> of an unsigned number.\<close>

fun to_string :: "nat \<Rightarrow> byte list" where
  "to_string n = (if n < 10 then [48 + n] else to_string (n div 10) @ [48 + n mod 10])"

declare to_string.simps [simp del]

definition generate_symbol_id :: "byte list \<Rightarrow> parser_state \<Rightarrow> nat \<times> parser_state" where
  "generate_symbol_id base_name ps =
     (let next_id = length (ps_symbol_ids ps)
      in (next_id, ps\<lparr>ps_symbol_ids := AList.update (base_name @ [95] @ to_string next_id) next_id (ps_symbol_ids ps)\<rparr>))"

definition add_rule :: "nat \<Rightarrow> llama_grammar_rule \<Rightarrow> parser_state \<Rightarrow> parser_state" where
  "add_rule rule_id rule ps =
     (let rules = ps_rules ps;
          rules = (if length rules \<le> rule_id then rules @ replicate (rule_id + 1 - length rules) [] else rules)
      in ps\<lparr>ps_rules := rules[rule_id := rule]\<rparr>)"

section \<open>Repetitions\<close>

abbreviation no_limit :: nat where "no_limit \<equiv> 2 ^ 64 - 1"

text \<open>The loop that adds the rules of the optional repetitions: \<open>n\<close> rounds are left, \<open>last_id\<close> is the last rule.\<close>

fun rec_rules :: "nat \<Rightarrow> byte list \<Rightarrow> bool \<Rightarrow> llama_grammar_rule \<Rightarrow> bool \<Rightarrow> nat \<Rightarrow> parser_state \<Rightarrow> nat \<times> parser_state" where
  "rec_rules 0 rule_name no_max prev_rule first last_id ps = (last_id, ps)"
| "rec_rules (Suc n) rule_name no_max prev_rule first last_id ps =
     (case generate_symbol_id rule_name ps of
        (rec_rule_id, ps) \<Rightarrow>
          let ref = \<lparr>ge_type = GRETYPE_RULE_REF, ge_value = (if no_max then rec_rule_id else last_id)\<rparr>;
              rec_rule = prev_rule @ (if \<not> first \<or> no_max then [ref] else []) @ [\<lparr>ge_type = GRETYPE_ALT, ge_value = 0\<rparr>, end_elem]
          in rec_rules n rule_name no_max prev_rule False rec_rule_id (add_rule rec_rule_id rec_rule ps))"

text \<open>What a sequence is parsed into: the rule, the start of the last symbol, the rules behind it.\<close>

record seq_state =
  sq_rule :: llama_grammar_rule
  sq_last :: nat
  sq_n_prev :: nat

definition handle_repetitions :: "byte list \<Rightarrow> nat \<Rightarrow> nat \<Rightarrow> seq_state \<Rightarrow> parser_state \<Rightarrow> perror + seq_state \<times> parser_state" where
  "handle_repetitions rule_name min_times max_times sq ps =
     (let no_max = (max_times = no_limit); rule = sq_rule sq
      in if sq_last sq = length rule then Inl P_NO_ITEM
         else
           let prev_rule = drop (sq_last sq) rule;
               total_rules = (if \<not> no_max \<and> max_times > 0 then max_times else if min_times > 0 then min_times else 1);
               n_prev = sq_n_prev sq * total_rules mod 2 ^ 64
           in if n_prev \<ge> 2000 then Inl P_TOO_MANY
              else
                let rule = (if min_times = 0 then take (sq_last sq) rule else rule @ concat (replicate (min_times - 1) prev_rule));
                    n_opt = (if no_max then 1 else nat ((int max_times - int min_times) mod 2 ^ 64))
                in case rec_rules n_opt rule_name no_max prev_rule True 0 ps of
                     (last_rec, ps) \<Rightarrow>
                       let rule = (if n_opt > 0 then rule @ [\<lparr>ge_type = GRETYPE_RULE_REF, ge_value = last_rec\<rparr>] else rule)
                       in if n_prev < 1 then Inl P_ASSERT
                          else Inr (sq\<lparr>sq_rule := rule, sq_n_prev := n_prev\<rparr>, ps))"

section \<open>Sequences and alternates\<close>

lemma parse_hex_length: "parse_hex k src v = Inr (c, src') \<Longrightarrow> length src' \<le> length src"
  by (induction k src v rule: parse_hex.induct) (auto split: option.splits)

lemma utf8_more_length: "length (snd (utf8_more k bs v)) \<le> length bs"
  by (induction k bs v rule: utf8_more.induct) auto

lemma decode_char_length: "src \<noteq> [] \<Longrightarrow> length (snd (decode_utf8_char src)) < length src"
  using utf8_more_length [of _ "tl src"] by (cases src) (simp_all add: decode_utf8_char_def Let_def less_Suc_eq_le)

lemma parse_char_length:
  assumes "parse_char src = Inr (c, src')"
  shows "length src' < length src"
proof (cases src)
  case Nil then show ?thesis using assms by (simp add: parse_char_def)
next
  case (Cons d rest)
  show ?thesis
  proof (cases "d = 92")
    case False
    then have "decode_utf8_char src = (c, src')" using assms Cons by (simp add: parse_char_def)
    then show ?thesis using decode_char_length [of src] Cons by simp
  next
    case True
    show ?thesis
    proof (cases rest)
      case Nil then show ?thesis using assms Cons True by (simp add: parse_char_def)
    next
      case (Cons e rest')
      then show ?thesis using assms \<open>src = d # rest\<close> True by (auto simp: parse_char_def split: if_splits dest!: parse_hex_length)
    qed
  qed
qed

text \<open>The text of a literal, behind its opening quote, and of a character class, behind its bracket.\<close>

function literal_loop :: "byte list \<Rightarrow> llama_grammar_rule \<Rightarrow> perror + byte list \<times> llama_grammar_rule" where
  "literal_loop src rule =
     (if peek src = 34 then Inr (tl src, rule)
      else if src = [] then Inl P_EOF
      else (case parse_char src of
              Inl e \<Rightarrow> Inl e
            | Inr (c, src) \<Rightarrow> literal_loop src (rule @ [\<lparr>ge_type = GRETYPE_CHAR, ge_value = c\<rparr>])))"
  by pat_completeness auto

termination
proof (relation "measure (\<lambda>(src, _). length src)", goal_cases)
  case (2 src rule x c src')
  then have "parse_char src = Inr (c, src')" by simp
  from parse_char_length [OF this] show ?case by simp
qed simp

function class_loop :: "byte list \<Rightarrow> llama_grammar_rule \<Rightarrow> nat \<Rightarrow> llama_gretype \<Rightarrow> perror + byte list \<times> llama_grammar_rule" where
  "class_loop src rule last_sym_start start_type =
     (if peek src = 93 then Inr (tl src, rule)
      else if src = [] then Inl P_EOF
      else (case parse_char src of
              Inl e \<Rightarrow> Inl e
            | Inr (c, pos) \<Rightarrow>
                let rule = rule @ [\<lparr>ge_type = (if last_sym_start < length rule then GRETYPE_CHAR_ALT else start_type), ge_value = c\<rparr>]
                in if peek pos = 45 \<and> peek (tl pos) \<noteq> 93 then
                     (if tl pos = [] then Inl P_EOF
                      else (case parse_char (tl pos) of
                              Inl e \<Rightarrow> Inl e
                            | Inr (c2, pos) \<Rightarrow> class_loop pos (rule @ [\<lparr>ge_type = GRETYPE_CHAR_RNG_UPPER, ge_value = c2\<rparr>]) last_sym_start start_type))
                   else class_loop pos rule last_sym_start start_type))"
  by pat_completeness auto

termination
proof (relation "measure (\<lambda>(src, _). length src)", goal_cases)
  case (2 src rule last_sym_start start_type a c pos rule' b c2 pos2)
  then have "parse_char src = Inr (c, pos)" "parse_char (tl pos) = Inr (c2, pos2)" by simp_all
  from parse_char_length [OF this(1)] parse_char_length [OF this(2)] show ?case by simp
next
  case (3 src rule last_sym_start start_type a c pos rule')
  then have "parse_char src = Inr (c, pos)" by simp
  from parse_char_length [OF this] show ?case by simp
qed simp

declare literal_loop.simps [simp del] class_loop.simps [simp del]

definition new_symbol :: "llama_grammar_rule \<Rightarrow> seq_state \<Rightarrow> seq_state" where
  "new_symbol rule sq = sq\<lparr>sq_rule := rule, sq_last := length (sq_rule sq), sq_n_prev := 1\<rparr>"

text \<open>The bounds of a repetition, from its brace on.\<close>

definition parse_bounds :: "byte list \<Rightarrow> bool \<Rightarrow> perror + nat \<times> nat \<times> byte list" where
  "parse_bounds src is_nested =
     (let pos = parse_space (tl src) is_nested
      in if \<not> is_digit_char (peek pos) then Inl P_EXPECT
         else bindR (parse_int pos) (\<lambda>(ds, pos).
              bindR (stoull ds) (\<lambda>min_times.
                let pos = parse_space pos is_nested
                in bindR
                     (if peek pos = 125 then Inr (min_times, parse_space (tl pos) is_nested)
                      else if peek pos = 44 then
                        let pos = parse_space (tl pos) is_nested
                        in bindR (if is_digit_char (peek pos)
                                  then bindR (parse_int pos) (\<lambda>(ds, pos). bindR (stoull ds) (\<lambda>v. Inr (v, parse_space pos is_nested)))
                                  else Inr (no_limit, pos))
                             (\<lambda>(max_times, pos). if peek pos = 125 then Inr (max_times, parse_space (tl pos) is_nested) else Inl P_EXPECT)
                      else Inl P_EXPECT)
                     (\<lambda>(max_times, pos).
                        if min_times > 2000 \<or> (max_times \<noteq> no_limit \<and> max_times > 2000) then Inl P_TOO_MANY
                        else Inr (min_times, max_times, pos)))))"

text \<open>One item of a sequence other than a group; \<open>None\<close> when the sequence ends.\<close>

definition parse_item :: "vocab \<Rightarrow> byte list \<Rightarrow> bool \<Rightarrow> byte list \<Rightarrow> seq_state \<Rightarrow> parser_state \<Rightarrow> (perror + byte list \<times> seq_state \<times> parser_state) option" where
  "parse_item vocab rule_name is_nested src sq ps =
     (let c = peek src; rule = sq_rule sq;
          rep = (\<lambda>min_times max_times pos. bindR (handle_repetitions rule_name min_times max_times sq ps) (\<lambda>(sq, ps). Inr (pos, sq, ps)));
          rest = parse_space (tl src) is_nested
      in if c = 34 then
           Some (bindR (literal_loop (tl src) rule) (\<lambda>(pos, rule). Inr (parse_space pos is_nested, new_symbol rule sq, ps)))
         else if c = 91 then
           (let inverse = (peek (tl src) = 94)
            in Some (bindR (class_loop (if inverse then tl (tl src) else tl src) rule (length rule) (if inverse then GRETYPE_CHAR_NOT else GRETYPE_CHAR))
                 (\<lambda>(pos, rule). Inr (parse_space pos is_nested, new_symbol rule sq, ps))))
         else if c = 60 \<or> c = 33 then
           Some (bindR (parse_token vocab (if c = 33 then tl src else src)) (\<lambda>(v, pos).
             Inr (parse_space pos is_nested,
                  new_symbol (rule @ [\<lparr>ge_type = (if c = 33 then GRETYPE_TOKEN_NOT else GRETYPE_TOKEN), ge_value = v\<rparr>]) sq, ps)))
         else if is_word_char c then
           Some (bindR (parse_name src) (\<lambda>(name, pos).
             case get_symbol_id name ps of
               (ref_rule_id, ps) \<Rightarrow> Inr (parse_space pos is_nested, new_symbol (rule @ [\<lparr>ge_type = GRETYPE_RULE_REF, ge_value = ref_rule_id\<rparr>]) sq, ps)))
         else if c = 46 then Some (Inr (rest, new_symbol (rule @ [\<lparr>ge_type = GRETYPE_CHAR_ANY, ge_value = 0\<rparr>]) sq, ps))
         else if c = 42 then Some (rep 0 no_limit rest)
         else if c = 43 then Some (rep 1 no_limit rest)
         else if c = 63 then Some (rep 0 1 rest)
         else if c = 123 then Some (bindR (parse_bounds src is_nested) (\<lambda>(min_times, max_times, pos). rep min_times max_times pos))
         else None)"

definition start_sequence :: "llama_grammar_rule \<Rightarrow> seq_state" where
  "start_sequence rule = \<lparr>sq_rule = rule, sq_last = length rule, sq_n_prev = 1\<rparr>"

text \<open>
  The loop over the items of a sequence, with the parser of a group as an argument; the first
  argument bounds the rounds, of which each consumes a byte.
\<close>

type_synonym group_parser = "nat \<Rightarrow> byte list \<Rightarrow> parser_state \<Rightarrow> (byte list \<times> parser_state) pres"

primrec sequence_loop :: "nat \<Rightarrow> group_parser \<Rightarrow> vocab \<Rightarrow> byte list \<Rightarrow> bool \<Rightarrow> byte list \<Rightarrow> seq_state \<Rightarrow> parser_state \<Rightarrow> (byte list \<times> llama_grammar_rule \<times> parser_state) pres" where
  "sequence_loop 0 parse_group vocab rule_name is_nested src sq ps = None"
| "sequence_loop (Suc fuel) parse_group vocab rule_name is_nested src sq ps =
     (if peek src = 40 then
        (case generate_symbol_id rule_name ps of
           (sub_rule_id, ps') \<Rightarrow>
             gbind (parse_group sub_rule_id (parse_space (tl src) True) ps') (\<lambda>(pos, ps'').
               if peek pos \<noteq> 41 then err_res P_EXPECT
               else sequence_loop fuel parse_group vocab rule_name is_nested (parse_space (tl pos) is_nested)
                      \<lparr>sq_rule = sq_rule sq @ [\<lparr>ge_type = GRETYPE_RULE_REF, ge_value = sub_rule_id\<rparr>], sq_last = length (sq_rule sq),
                       sq_n_prev = max 1 (length (ps_symbol_ids ps'') - length (ps_symbol_ids ps))\<rparr> ps''))
      else
        (case parse_item vocab rule_name is_nested src sq ps of
           None \<Rightarrow> ok_res (src, sq_rule sq, ps)
         | Some (Inl e) \<Rightarrow> err_res e
         | Some (Inr (pos, sq, ps)) \<Rightarrow> sequence_loop fuel parse_group vocab rule_name is_nested pos sq ps))"

text \<open>The loop over the alternates behind the first, with the parser of a sequence as an argument.\<close>

type_synonym sequence_parser = "byte list \<Rightarrow> llama_grammar_rule \<Rightarrow> parser_state \<Rightarrow> (byte list \<times> llama_grammar_rule \<times> parser_state) pres"

primrec alternates_loop :: "nat \<Rightarrow> sequence_parser \<Rightarrow> nat \<Rightarrow> byte list \<Rightarrow> llama_grammar_rule \<Rightarrow> parser_state \<Rightarrow> (byte list \<times> parser_state) pres" where
  "alternates_loop 0 parse_sequence rule_id src rule ps = None"
| "alternates_loop (Suc fuel) parse_sequence rule_id src rule ps =
     (if peek src = 124 then
        gbind (parse_sequence (parse_space (tl src) True) (rule @ [\<lparr>ge_type = GRETYPE_ALT, ge_value = 0\<rparr>]) ps)
          (\<lambda>(pos, rule, ps). alternates_loop fuel parse_sequence rule_id pos rule ps)
      else ok_res (src, add_rule rule_id (rule @ [end_elem]) ps))"

text \<open>A rule or a group; the first argument bounds the depth of nested groups.\<close>

primrec parse_alternates :: "nat \<Rightarrow> vocab \<Rightarrow> byte list \<Rightarrow> nat \<Rightarrow> bool \<Rightarrow> byte list \<Rightarrow> parser_state \<Rightarrow> (byte list \<times> parser_state) pres" where
  "parse_alternates 0 vocab rule_name rule_id is_nested src ps = None"
| "parse_alternates (Suc fuel) vocab rule_name rule_id is_nested src ps =
     (let parse_group = (\<lambda>sub_rule_id src ps. parse_alternates fuel vocab rule_name sub_rule_id True src ps);
          parse_sequence = (\<lambda>src rule ps. sequence_loop (length src + 1) parse_group vocab rule_name is_nested src (start_sequence rule) ps)
      in gbind (parse_sequence src [] ps) (\<lambda>(pos, rule, ps). alternates_loop (length pos + 1) parse_sequence rule_id pos rule ps))"

section \<open>Rules and texts\<close>

definition parse_rule :: "nat \<Rightarrow> vocab \<Rightarrow> byte list \<Rightarrow> parser_state \<Rightarrow> (byte list \<times> parser_state) pres" where
  "parse_rule fuel vocab src ps =
     (case parse_name src of
        Inl e \<Rightarrow> err_res e
      | Inr (name, pos) \<Rightarrow>
          let pos = parse_space pos False
          in case get_symbol_id name ps of
               (rule_id, ps) \<Rightarrow>
                 if take 3 pos \<noteq> [58, 58, 61] then err_res P_EXPECT
                 else gbind (parse_alternates fuel vocab name rule_id False (parse_space (drop 3 pos) True) ps) (\<lambda>(pos, ps).
                   if peek pos = 13 then ok_res (parse_space (if peek (tl pos) = 10 then tl (tl pos) else tl pos) True, ps)
                   else if peek pos = 10 then ok_res (parse_space (tl pos) True, ps)
                   else if pos \<noteq> [] then err_res P_EXPECT
                   else ok_res (parse_space pos True, ps)))"

fun parse_rules :: "nat \<Rightarrow> vocab \<Rightarrow> byte list \<Rightarrow> parser_state \<Rightarrow> parser_state pres" where
  "parse_rules 0 vocab src ps = None"
| "parse_rules (Suc fuel) vocab src ps =
     (if src = [] then ok_res ps
      else gbind (parse_rule (length src + 1) vocab src ps) (\<lambda>(pos, ps). parse_rules fuel vocab pos ps))"

definition validate_rules :: "parser_state \<Rightarrow> bool" where
  "validate_rules ps \<longleftrightarrow>
     (\<forall>rule \<in> set (ps_rules ps). rule \<noteq> [] \<and>
        (\<forall>e \<in> set rule. ge_type e = GRETYPE_RULE_REF \<longrightarrow>
           (ge_value e \<ge> length (ps_rules ps) \<or> ps_rules ps ! ge_value e = []) \<longrightarrow>
           ge_value e \<notin> snd ` set (ps_symbol_ids ps)))"

text \<open>
  The result of \<open>parse\<close> and the parser. After an exception the rules are empty; the symbols of a failed
  parse, which nothing reads, are left out.
\<close>

definition grammar_parse :: "vocab \<Rightarrow> byte list \<Rightarrow> (bool \<times> parser_state) option" where
  "grammar_parse vocab src =
     (let src' = parse_space src True; ps = \<lparr>ps_symbol_ids = [], ps_rules = []\<rparr>
      in case parse_rules (length src' + 1) vocab src' ps of
           None \<Rightarrow> None
         | Some (Inl e) \<Rightarrow> Some (False, ps)
         | Some (Inr ps) \<Rightarrow> if validate_rules ps then Some (True, ps) else Some (False, ps\<lparr>ps_rules := []\<rparr>))"

text \<open>The construction from a text; the regular expressions are compiled by an argument.\<close>

definition llama_grammar_init_impl ::
  "(byte list \<Rightarrow> 'r) \<Rightarrow> vocab \<Rightarrow> byte list \<Rightarrow> byte list \<Rightarrow> bool \<Rightarrow> byte list list \<Rightarrow> llama_token list \<Rightarrow> 'r llama_grammar option gres" where
  "llama_grammar_init_impl compile vocab grammar_str grammar_root lazy trigger_patterns trigger_tokens =
     (case grammar_parse vocab grammar_str of
        None \<Rightarrow> None
      | Some (parsed, ps) \<Rightarrow>
          if \<not> parsed \<or> ps_rules ps = [] then ok_res None
          else (case map_of (ps_symbol_ids ps) grammar_root of
                  None \<Rightarrow> ok_res None
                | Some start_rule_index \<Rightarrow>
                    (case copy_rules (ps_rules ps) of
                       None \<Rightarrow> err_res G_BOUNDS
                     | Some rules \<Rightarrow>
                         (case check_left_recursion rules [0..<length rules] (lr_init rules) of
                            None \<Rightarrow> None
                          | Some True \<Rightarrow> ok_res None
                          | Some False \<Rightarrow>
                              gbind (initial_stacks rules start_rule_index) (\<lambda>stacks.
                                ok_res (Some (new_grammar rules stacks lazy trigger_tokens
                                  (map (\<lambda>p. \<lparr>tp_pattern = p, tp_regex = compile p\<rparr>) trigger_patterns))))))))"

end
