(* ===== verification/Grammar_Parse_Ok.thy ===== *)
theory Grammar_Parse_Ok
  imports Grammar_Parser
begin

text \<open>
  What the parser builds: it always ends, and the rules of a text it accepts are well formed, with every
  reference to a defined rule.
\<close>

section \<open>Rule bodies\<close>

text \<open>The states of a character class behind its first element: whether an upper bound may follow.\<close>

fun class_run :: "bool \<Rightarrow> llama_grammar_element list \<Rightarrow> bool option" where
  "class_run b [] = Some b"
| "class_run b (e # es) =
     (if ge_type e = GRETYPE_CHAR_ALT then class_run True es
      else if ge_type e = GRETYPE_CHAR_RNG_UPPER \<and> b then class_run False es else None)"

lemma class_run_append: "class_run b (xs @ ys) = Option.bind (class_run b xs) (\<lambda>b. class_run b ys)"
  by (induction b xs rule: class_run.induct) auto

inductive body :: "llama_grammar_rule \<Rightarrow> bool" where
  body_nil: "body []"
| body_one: "ge_type e \<in> {GRETYPE_ALT, GRETYPE_RULE_REF, GRETYPE_TOKEN, GRETYPE_TOKEN_NOT, GRETYPE_CHAR_ANY} \<Longrightarrow> body es \<Longrightarrow> body (e # es)"
| body_class: "ge_type e \<in> {GRETYPE_CHAR, GRETYPE_CHAR_NOT} \<Longrightarrow> class_run True g \<noteq> None \<Longrightarrow> body es \<Longrightarrow> body (e # g @ es)"

lemma body_append: "body xs \<Longrightarrow> body ys \<Longrightarrow> body (xs @ ys)"
  by (induction rule: body.induct) (auto intro: body.intros)

lemma body_single: "ge_type e \<in> {GRETYPE_ALT, GRETYPE_RULE_REF, GRETYPE_TOKEN, GRETYPE_TOKEN_NOT, GRETYPE_CHAR_ANY} \<Longrightarrow> body [e]"
  by (simp add: body_one body_nil)

lemma body_char: "ge_type e \<in> {GRETYPE_CHAR, GRETYPE_CHAR_NOT} \<Longrightarrow> class_run True g \<noteq> None \<Longrightarrow> body (e # g)"
  using body_class [OF _ _ body_nil, of e g] by simp

lemma body_concat: "(\<And>x. x \<in> set xs \<Longrightarrow> body x) \<Longrightarrow> body (concat xs)"
  by (induction xs) (auto intro: body_nil body_append)

lemma class_run_types: "class_run b g \<noteq> None \<Longrightarrow> \<forall>e \<in> set g. ge_type e \<in> {GRETYPE_CHAR_ALT, GRETYPE_CHAR_RNG_UPPER}"
  by (induction b g rule: class_run.induct) (auto split: if_splits)

lemma body_no_end: "body b \<Longrightarrow> e \<in> set b \<Longrightarrow> ge_type e \<noteq> GRETYPE_END"
proof (induction rule: body.induct)
  case (body_class e' g es)
  then show ?case using class_run_types [OF body_class.hyps(2)] by fastforce
qed auto

lemma class_len_run:
  "class_run b g \<noteq> None \<Longrightarrow> (b \<or> g = [] \<or> ge_type (hd g) = GRETYPE_CHAR_ALT) \<Longrightarrow> rest \<noteq> [] \<Longrightarrow>
   ge_type (hd rest) \<noteq> GRETYPE_CHAR_ALT \<Longrightarrow> ge_type (hd rest) \<noteq> GRETYPE_CHAR_RNG_UPPER \<Longrightarrow> class_len (e # g @ rest) = Suc (length g)"
proof (induction "length g" arbitrary: b e g rule: less_induct)
  case less
  show ?case
  proof (cases g)
    case Nil
    then show ?thesis using less.prems by (cases rest) auto
  next
    case (Cons e2 g2)
    show ?thesis
    proof (cases "ge_type e2 = GRETYPE_CHAR_RNG_UPPER")
      case False
      then have a: "ge_type e2 = GRETYPE_CHAR_ALT" "class_run True g2 \<noteq> None" using less.prems(1) Cons by (auto split: if_splits)
      have "class_len (e2 # g2 @ rest) = Suc (length g2)" using less.hyps [of g2 True e2] a(2) less.prems Cons by simp
      then show ?thesis using a(1) Cons by simp
    next
      case True
      then have r: "class_run False g2 \<noteq> None" using less.prems(1) Cons by (auto split: if_splits)
      show ?thesis
      proof (cases g2)
        case Nil
        then show ?thesis using True Cons less.prems by (cases rest) auto
      next
        case c2: (Cons e3 g3)
        then have "ge_type e3 = GRETYPE_CHAR_ALT" "class_run True g3 \<noteq> None" using r by (auto split: if_splits)
        moreover from this have "class_len (e3 # g3 @ rest) = Suc (length g3)" using less.hyps [of g3 True e3] less.prems Cons c2 by simp
        ultimately show ?thesis using True Cons c2 by simp
      qed
    qed
  qed
qed

lemma body_head: "body b \<Longrightarrow> ge_type (hd (b @ [end_elem])) \<noteq> GRETYPE_CHAR_ALT \<and> ge_type (hd (b @ [end_elem])) \<noteq> GRETYPE_CHAR_RNG_UPPER"
  by (cases rule: body.cases) (auto simp: end_elem_def)

lemma body_items: "body b \<Longrightarrow> items_of (b @ [end_elem]) \<noteq> None"
proof (induction rule: body.induct)
  case body_nil then show ?case by (simp add: items_of.simps is_end_of_sequence_def end_elem_def)
next
  case (body_one e es)
  have ALT: "class_len (e # es @ [end_elem]) = 1"
    using class_len_run [of True "[]" "es @ [end_elem]" e] body_head [OF body_one.hyps(2)] by simp
  then show ?case using body_one.hyps(1) body_one.IH
    by (auto simp: items_of.simps(2) is_end_of_sequence_def is_positive_char_def)
next
  case (body_class e g es)
  have "class_len (e # g @ es @ [end_elem]) = Suc (length g)"
    using class_len_run [of True g "es @ [end_elem]" e] body_class.hyps(2) body_head [OF body_class.hyps(3)] by simp
  then have "drop (class_len (e # g @ es @ [end_elem])) (e # g @ es @ [end_elem]) = es @ [end_elem]" by simp
  then show ?case using body_class.hyps(1) body_class.IH
    by (auto simp: items_of.simps(2) is_end_of_sequence_def is_positive_char_def simp del: drop_append class_len.simps)
qed

lemma body_drop: "body b \<Longrightarrow> m < length b \<Longrightarrow> ge_type (b ! m) = GRETYPE_ALT \<Longrightarrow> body (drop (Suc m) b)"
proof (induction arbitrary: m rule: body.induct)
  case (body_one e es) then show ?case by (cases m) auto
next
  case (body_class e g es)
  have "m > length g"
  proof (rule ccontr)
    assume "\<not> m > length g"
    then have "(e # g @ es) ! m \<in> set (e # g)" by (auto simp: nth_Cons nth_append split: nat.split)
    then have "ge_type ((e # g @ es) ! m) \<noteq> GRETYPE_ALT" using body_class.hyps(1) class_run_types [OF body_class.hyps(2)] by fastforce
    then show False using body_class.prems(2) by simp
  qed
  then have "(e # g @ es) ! m = es ! (m - Suc (length g))" "m - Suc (length g) < length es" using body_class.prems(1) by (auto simp: nth_append nth_Cons')
  moreover have "drop (Suc m) (e # g @ es) = drop (Suc (m - Suc (length g))) es" using \<open>m > length g\<close> by (simp add: Suc_diff_Suc)
  ultimately show ?case using body_class.IH body_class.prems(2) by simp
qed simp

lemma scan_body: "(\<And>e. e \<in> set b \<Longrightarrow> ge_type e \<noteq> GRETYPE_END) \<Longrightarrow> \<exists>starts. scan_alts (b @ [end_elem]) k st = Some starts"
proof (induction b arbitrary: k st)
  case Nil then show ?case by (simp add: end_elem_def)
next
  case (Cons e b)
  obtain starts where "scan_alts (b @ [end_elem]) (k + 1) (k + 1) = Some starts" using Cons by fastforce
  moreover obtain starts' where "scan_alts (b @ [end_elem]) (k + 1) st = Some starts'" using Cons by fastforce
  ultimately show ?case using Cons.prems [of e] by simp
qed

lemma body_starts:
  assumes "body b"
  shows "\<exists>starts. scan_alts (b @ [end_elem]) 0 0 = Some starts \<and> (\<forall>j \<in> set starts. items_of (drop j (b @ [end_elem])) \<noteq> None)"
proof -
  from scan_body [of b 0 0] body_no_end [OF assms] obtain starts where st: "scan_alts (b @ [end_elem]) 0 0 = Some starts" by blast
  have "items_of (drop j (b @ [end_elem])) \<noteq> None" if "j \<in> set starts" for j
  proof (cases "j = 0")
    case True then show ?thesis using body_items [OF assms] by simp
  next
    case False
    with scan_alts_start [OF st that] obtain m where m: "m < Suc (length b)" "j = Suc m" "ge_type ((b @ [end_elem]) ! m) = GRETYPE_ALT" by auto
    then have "m < length b" by (cases "m = length b") (auto simp: end_elem_def)
    then have "body (drop j b)" using body_drop [OF assms, of m] m by (simp add: nth_append)
    moreover have "drop j (b @ [end_elem]) = drop j b @ [end_elem]" using \<open>m < length b\<close> m(2) by simp
    ultimately show ?thesis using body_items by simp
  qed
  then show ?thesis using st by blast
qed

section \<open>The parser state\<close>

abbreviation word :: "byte list \<Rightarrow> bool" where
  "word k \<equiv> (\<forall>c \<in> set k. is_word_char c)"

definition refs_below :: "nat \<Rightarrow> llama_grammar_rule \<Rightarrow> bool" where
  "refs_below n es \<longleftrightarrow> (\<forall>e \<in> set es. ge_type e = GRETYPE_RULE_REF \<longrightarrow> ge_value e < n)"

definition rule_ok :: "nat \<Rightarrow> llama_grammar_rule \<Rightarrow> bool" where
  "rule_ok n rule \<longleftrightarrow> (\<exists>b. rule = b @ [end_elem] \<and> body b \<and> refs_below n b)"

abbreviation n_syms :: "parser_state \<Rightarrow> nat" where "n_syms ps \<equiv> length (ps_symbol_ids ps)"

definition ps_ok :: "parser_state \<Rightarrow> bool" where
  "ps_ok ps \<longleftrightarrow> map snd (ps_symbol_ids ps) = [0..<n_syms ps] \<and>
     (\<forall>k \<in> fst ` set (ps_symbol_ids ps). word k \<or> (\<exists>b j. k = b @ [95] @ to_string j \<and> word b \<and> j < n_syms ps)) \<and>
     (\<forall>rule \<in> set (ps_rules ps). rule = [] \<or> rule_ok (n_syms ps) rule)"

lemma refs_below_simps [simp]:
  "refs_below n []" "refs_below n (e # es) \<longleftrightarrow> (ge_type e = GRETYPE_RULE_REF \<longrightarrow> ge_value e < n) \<and> refs_below n es"
  "refs_below n (xs @ ys) \<longleftrightarrow> refs_below n xs \<and> refs_below n ys" "refs_below n (concat xss) \<longleftrightarrow> (\<forall>xs \<in> set xss. refs_below n xs)"
  by (auto simp: refs_below_def)

lemma refs_below_mono: "refs_below n es \<Longrightarrow> n \<le> m \<Longrightarrow> refs_below m es"
  by (auto simp: refs_below_def)

lemma rule_ok_mono: "rule_ok n rule \<Longrightarrow> n \<le> m \<Longrightarrow> rule_ok m rule"
  by (auto simp: rule_ok_def intro: refs_below_mono)

lemma to_string_value: "fold (\<lambda>c v. v * 10 + (c - 48)) (to_string n) 0 = n"
proof (induction n rule: to_string.induct)
  case (1 n)
  show ?case
  proof (cases "n < 10")
    case True then show ?thesis by (simp add: to_string.simps [of n])
  next
    case False
    then have "to_string n = to_string (n div 10) @ [48 + n mod 10]" by (simp add: to_string.simps [of n])
    then show ?thesis using 1 [OF False] by simp
  qed
qed

lemma to_string_digits: "c \<in> set (to_string n) \<Longrightarrow> is_digit_char c"
proof (induction n rule: to_string.induct)
  case (1 n)
  then show ?case by (auto simp: to_string.simps [of n] is_digit_char_def split: if_splits)
qed

lemma symbol_id_eq:
  assumes "b @ [95] @ to_string j = b' @ [95] @ to_string n" "word b" "word b'"
  shows "j = n"
proof -
  have no: "95 \<notin> set (to_string m)" for m using to_string_digits by (fastforce simp: is_digit_char_def)
  have "takeWhile (\<lambda>c. c \<noteq> 95) (c @ [95] @ to_string m) = c" if "word c" for c m
  proof -
    have "\<forall>x \<in> set c. x \<noteq> 95" using that by (auto simp: is_word_char_def is_digit_char_def)
    then show ?thesis by (simp add: takeWhile_append2)
  qed
  then have "b = b'" using assms by metis
  then have "to_string j = to_string n" using assms(1) by simp
  then show ?thesis using to_string_value by metis
qed

lemma update_fresh: "k \<notin> fst ` set al \<Longrightarrow> AList.update k v al = al @ [(k, v)]"
  by (induction al) auto

lemma fresh_symbol:
  assumes "ps_ok ps" "word base"
  shows "base @ [95] @ to_string (n_syms ps) \<notin> fst ` set (ps_symbol_ids ps)"
proof
  assume "base @ [95] @ to_string (n_syms ps) \<in> fst ` set (ps_symbol_ids ps)"
  then have "word (base @ [95] @ to_string (n_syms ps)) \<or>
      (\<exists>b j. base @ [95] @ to_string (n_syms ps) = b @ [95] @ to_string j \<and> word b \<and> j < n_syms ps)" using assms(1) unfolding ps_ok_def by blast
  moreover have "\<not> word (base @ [95] @ to_string (n_syms ps))" by (simp add: is_word_char_def is_digit_char_def)
  ultimately show False using symbol_id_eq assms(2) by (metis less_irrefl)
qed

text \<open>A step of the parser: well formed again, with no symbol lost.\<close>

definition ps_step :: "parser_state \<Rightarrow> parser_state \<Rightarrow> bool" where
  "ps_step ps ps' \<longleftrightarrow> ps_ok ps' \<and> n_syms ps \<le> n_syms ps'"

lemma ps_step_trans: "ps_step a b \<Longrightarrow> ps_step b c \<Longrightarrow> ps_step a c"
  by (simp add: ps_step_def)

lemma ps_ok_add_symbol:
  assumes "ps_ok ps" "word k \<or> (\<exists>b. k = b @ [95] @ to_string (n_syms ps) \<and> word b)"
  shows "ps_step ps (ps\<lparr>ps_symbol_ids := ps_symbol_ids ps @ [(k, n_syms ps)]\<rparr>)"
  using assms by (fastforce simp: ps_step_def ps_ok_def intro: rule_ok_mono less_SucI)

lemma generate_ok:
  assumes "ps_ok ps" "word base" "generate_symbol_id base ps = (i, ps')"
  shows "ps_step ps ps'" "i < n_syms ps'" "n_syms ps' = Suc (n_syms ps)"
proof -
  have ps': "i = n_syms ps" "ps' = ps\<lparr>ps_symbol_ids := ps_symbol_ids ps @ [(base @ [95] @ to_string (n_syms ps), n_syms ps)]\<rparr>"
    using assms(3) update_fresh [OF fresh_symbol [OF assms(1,2)]] by (auto simp: generate_symbol_id_def Let_def)
  show "ps_step ps ps'" unfolding ps'(2) by (rule ps_ok_add_symbol) (use assms in auto)
  show "i < n_syms ps'" "n_syms ps' = Suc (n_syms ps)" using ps' by simp_all
qed

lemma get_symbol_ok:
  assumes "ps_ok ps" "word name" "get_symbol_id name ps = (i, ps')"
  shows "ps_step ps ps'" "i < n_syms ps'"
proof -
  have "ps_step ps ps' \<and> i < n_syms ps'"
  proof (cases "map_of (ps_symbol_ids ps) name")
    case None
    then have "ps' = ps\<lparr>ps_symbol_ids := ps_symbol_ids ps @ [(name, n_syms ps)]\<rparr>" "i = n_syms ps"
      using assms(3) by (auto simp: get_symbol_id_def Let_def)
    then show ?thesis using ps_ok_add_symbol [OF assms(1)] assms(2) by auto
  next
    case (Some j)
    then have "(name, i) \<in> set (ps_symbol_ids ps)" "ps' = ps" using assms(3) by (auto simp: get_symbol_id_def Let_def dest: map_of_SomeD)
    then have "i \<in> set (map snd (ps_symbol_ids ps))" by force
    then have "i < n_syms ps" using assms(1) by (simp add: ps_ok_def del: set_map)
    then show ?thesis using assms(1) \<open>ps' = ps\<close> by (simp add: ps_step_def)
  qed
  then show "ps_step ps ps'" "i < n_syms ps'" by simp_all
qed

lemma add_rule_ok: "ps_ok ps \<Longrightarrow> rule_ok (n_syms ps) rule \<Longrightarrow> ps_step ps (add_rule i rule ps)"
  by (auto simp: ps_ok_def ps_step_def add_rule_def Let_def dest!: set_update_subset_insert [THEN subsetD] split: if_splits)

section \<open>Sequences\<close>

definition sq_ok :: "nat \<Rightarrow> seq_state \<Rightarrow> bool" where
  "sq_ok n sq \<longleftrightarrow> body (take (sq_last sq) (sq_rule sq)) \<and> body (drop (sq_last sq) (sq_rule sq)) \<and>
     sq_last sq \<le> length (sq_rule sq) \<and> refs_below n (sq_rule sq)"

lemma sq_ok_body: "sq_ok n sq \<Longrightarrow> body (sq_rule sq)"
  using body_append [of "take (sq_last sq) (sq_rule sq)" "drop (sq_last sq) (sq_rule sq)"] by (simp add: sq_ok_def)

lemma sq_ok_mono: "sq_ok n sq \<Longrightarrow> n \<le> m \<Longrightarrow> sq_ok m sq"
  by (auto simp: sq_ok_def intro: refs_below_mono)

lemma sq_ok_new: "sq_ok n sq \<Longrightarrow> body es \<Longrightarrow> refs_below m es \<Longrightarrow> n \<le> m \<Longrightarrow> sq_ok m (new_symbol (sq_rule sq @ es) sq)"
  using sq_ok_body by (auto simp: sq_ok_def new_symbol_def intro: refs_below_mono)

lemma refs_below_take_drop: "refs_below n es \<Longrightarrow> refs_below n (take k es) \<and> refs_below n (drop k es)"
  by (auto simp: refs_below_def dest: in_set_takeD in_set_dropD)

text \<open>The added rules of a repetition.\<close>

lemma rec_rules_ok:
  assumes "word nm" "body prev"
  shows "ps_ok ps \<Longrightarrow> refs_below (n_syms ps) prev \<Longrightarrow> (first \<or> last_id < n_syms ps) \<Longrightarrow> rec_rules n nm no_max prev first last_id ps = (l, ps') \<Longrightarrow>
    ps_step ps ps' \<and> (0 < n \<longrightarrow> l < n_syms ps') \<and> n_syms ps' = n_syms ps + n"
proof (induction n arbitrary: first last_id ps)
  case 0 then show ?case by (simp add: ps_step_def)
next
  case (Suc n)
  obtain i ps1 where g: "generate_symbol_id nm ps = (i, ps1)" by fastforce
  note go = generate_ok [OF Suc.prems(1) assms(1) g]
  define ref where "ref = \<lparr>ge_type = GRETYPE_RULE_REF, ge_value = (if no_max then i else last_id)\<rparr>"
  define b where "b = prev @ (if \<not> first \<or> no_max then [ref] else []) @ [\<lparr>ge_type = GRETYPE_ALT, ge_value = 0\<rparr>]"
  have "body b" unfolding b_def ref_def by (intro body_append assms(2)) (auto intro: body_single body_nil)
  moreover have "refs_below (n_syms ps1) b" using Suc.prems(2,3) go(2,3) by (auto simp: b_def ref_def intro: refs_below_mono)
  ultimately have "rule_ok (n_syms ps1) (b @ [end_elem])" by (auto simp: rule_ok_def)
  then have st: "ps_step ps1 (add_rule i (b @ [end_elem]) ps1)" using go(1) by (intro add_rule_ok) (simp_all add: ps_step_def)
  define ps2 where "ps2 = add_rule i (b @ [end_elem]) ps1"
  have n2: "n_syms ps2 = Suc (n_syms ps)" using go(3) by (simp add: ps2_def add_rule_def Let_def)
  have run: "rec_rules n nm no_max prev False i ps2 = (l, ps')"
    using Suc.prems(4) unfolding rec_rules.simps g prod.case Let_def ps2_def b_def ref_def by (simp only: append_assoc append_Cons append_Nil)
  have st2: "ps_step ps ps2" using ps_step_trans [OF go(1) st] by (simp add: ps2_def)
  have ih: "ps_step ps2 ps' \<and> (0 < n \<longrightarrow> l < n_syms ps') \<and> n_syms ps' = n_syms ps2 + n"
    by (rule Suc.IH [OF _ _ _ run]) (use st2 go(2,3) n2 Suc.prems(2) in \<open>auto simp: ps_step_def intro: refs_below_mono\<close>)
  have "n = 0 \<Longrightarrow> l = i \<and> ps' = ps2" using run by auto
  then have "l < n_syms ps'" using ih go(2,3) n2 by (cases "n = 0") auto
  then show ?case using ps_step_trans [OF st2] ih n2 by auto
qed

lemma handle_repetitions_ok:
  assumes "ps_ok ps" "sq_ok (n_syms ps) sq" "word nm" "handle_repetitions nm mn mx sq ps = Inr (sq', ps')"
  shows "ps_step ps ps'" "sq_ok (n_syms ps') sq'"
proof -
  let ?rule = "sq_rule sq" and ?n_opt = "if mx = no_limit then 1 else nat ((int mx - int mn) mod 2 ^ 64)"
  define prev where "prev = drop (sq_last sq) ?rule"
  define rule where "rule = (if mn = 0 then take (sq_last sq) ?rule else ?rule @ concat (replicate (mn - 1) prev))"
  obtain l ps1 where rr: "rec_rules ?n_opt nm (mx = no_limit) prev True 0 ps = (l, ps1)" by fastforce
  have ps': "ps' = ps1" and sq': "sq_last sq' = sq_last sq"
    "sq_rule sq' = (if ?n_opt > 0 then rule @ [\<lparr>ge_type = GRETYPE_RULE_REF, ge_value = l\<rparr>] else rule)"
    using assms(4) rr by (auto simp: handle_repetitions_def Let_def prev_def rule_def split: if_splits prod.splits)
  have prev: "body prev" "refs_below (n_syms ps) prev" using assms(2) refs_below_take_drop by (auto simp: sq_ok_def prev_def)
  from rec_rules_ok [OF assms(3) prev(1) assms(1) prev(2) _ rr] have st: "ps_step ps ps1" "0 < ?n_opt \<longrightarrow> l < n_syms ps1" by auto
  show "ps_step ps ps'" using st(1) ps' by simp
  have cc: "body (concat (replicate k prev))" "refs_below (n_syms ps) (concat (replicate k prev))" for k using prev by (auto intro: body_concat)
  have le: "sq_last sq \<le> length rule" using assms(2) by (simp add: rule_def sq_ok_def)
  have tk: "take (sq_last sq) rule = take (sq_last sq) ?rule" using assms(2) by (simp add: rule_def sq_ok_def)
  have dr: "body (drop (sq_last sq) rule)" using cc(1) prev(1) assms(2) by (auto simp: rule_def sq_ok_def prev_def intro: body_append body_nil)
  have rf: "refs_below (n_syms ps) rule" using assms(2) cc(2) refs_below_take_drop by (auto simp: rule_def sq_ok_def)
  have "sq_ok (n_syms ps1) (sq\<lparr>sq_rule := rule\<rparr>)" using tk dr le refs_below_mono [OF rf] st(1) assms(2) by (auto simp: sq_ok_def ps_step_def)
  then show "sq_ok (n_syms ps') sq'"
    unfolding ps' sq_ok_def sq' using le st(2) by (auto intro!: body_append body_single)
qed

lemma literal_loop_ok:
  "literal_loop src rule = Inr (pos, rule') \<Longrightarrow> \<exists>es. rule' = rule @ es \<and> body es \<and> refs_below 0 es \<and> length pos < length src"
proof (induction src rule rule: literal_loop.induct)
  case (1 src rule)
  show ?case
  proof (cases "peek src = 34")
    case True
    then show ?thesis using 1(2) by (auto simp: literal_loop.simps [of src] body_nil split: list.splits)
  next
    case False
    then have ne: "src \<noteq> []" using 1(2) by (auto simp: literal_loop.simps [of src])
    then obtain c src1 where pc: "parse_char src = Inr (c, src1)"
      and rec: "literal_loop src1 (rule @ [\<lparr>ge_type = GRETYPE_CHAR, ge_value = c\<rparr>]) = Inr (pos, rule')"
      using 1(2) False by (auto simp: literal_loop.simps [of src] split: sum.splits)
    from 1(1) [OF False ne pc refl rec] obtain es where
      es: "rule' = (rule @ [\<lparr>ge_type = GRETYPE_CHAR, ge_value = c\<rparr>]) @ es" "body es" "refs_below 0 es" "length pos < length src1" by blast
    have "body ([\<lparr>ge_type = GRETYPE_CHAR, ge_value = c\<rparr>] @ es)" by (intro body_append es(2) body_char) simp_all
    then show ?thesis using es parse_char_length [OF pc] by (intro exI [of _ "\<lparr>ge_type = GRETYPE_CHAR, ge_value = c\<rparr> # es"]) auto
  qed
qed

definition class_group :: "llama_grammar_rule \<Rightarrow> bool" where
  "class_group gs \<longleftrightarrow> gs = [] \<or> (\<exists>e g. gs = e # g \<and> ge_type e \<in> {GRETYPE_CHAR, GRETYPE_CHAR_NOT} \<and> class_run True g \<noteq> None)"

lemma class_group_body: "class_group gs \<Longrightarrow> body gs \<and> refs_below 0 gs"
proof -
  assume "class_group gs"
  then consider "gs = []" | e g where "gs = e # g" "ge_type e \<in> {GRETYPE_CHAR, GRETYPE_CHAR_NOT}" "class_run True g \<noteq> None"
    unfolding class_group_def by blast
  then show ?thesis
  proof cases
    case 1 then show ?thesis by (simp add: body_nil)
  next
    case 2
    have "refs_below 0 g" using class_run_types [OF 2(3)] by (fastforce simp: refs_below_def)
    then show ?thesis using 2 body_char [OF 2(2,3)] by auto
  qed
qed

lemma class_group_push:
  fixes c c2 :: uint32
  assumes "class_group gs" "ty \<in> {GRETYPE_CHAR, GRETYPE_CHAR_NOT}"
  defines "x \<equiv> \<lparr>ge_type = (if gs \<noteq> [] then GRETYPE_CHAR_ALT else ty), ge_value = c\<rparr>"
  shows "class_group (gs @ [x])" "class_group (gs @ [x, \<lparr>ge_type = GRETYPE_CHAR_RNG_UPPER, ge_value = c2\<rparr>])"
proof -
  have "class_group (gs @ [x]) \<and> class_group (gs @ [x, \<lparr>ge_type = GRETYPE_CHAR_RNG_UPPER, ge_value = c2\<rparr>])"
  proof (cases gs)
    case Nil then show ?thesis using assms(2) by (auto simp: class_group_def x_def)
  next
    case (Cons e g)
    then have "ge_type e \<in> {GRETYPE_CHAR, GRETYPE_CHAR_NOT}" "class_run True g \<noteq> None" using assms(1) by (auto simp: class_group_def)
    then show ?thesis using Cons by (auto simp: class_group_def x_def class_run_append)
  qed
  then show "class_group (gs @ [x])" "class_group (gs @ [x, \<lparr>ge_type = GRETYPE_CHAR_RNG_UPPER, ge_value = c2\<rparr>])" by simp_all
qed

lemma peek_ne: "peek s = c \<Longrightarrow> c \<noteq> 0 \<Longrightarrow> s \<noteq> []"
  by auto

lemma class_loop_ok:
  "class_loop src rule n ty = Inr (pos, rule') \<Longrightarrow> ty \<in> {GRETYPE_CHAR, GRETYPE_CHAR_NOT} \<Longrightarrow> rule = pre @ gs \<Longrightarrow> n = length pre \<Longrightarrow> class_group gs \<Longrightarrow>
   \<exists>gs'. rule' = pre @ gs' \<and> class_group gs' \<and> length pos < length src"
proof (induction src rule n ty arbitrary: gs rule: class_loop.induct)
  case (1 src rule n ty)
  show ?case
  proof (cases "peek src = 93")
    case True
    then have "src \<noteq> []" by (auto split: list.splits)
    then show ?thesis using 1(3,5,7) True by (auto simp: class_loop.simps [of src])
  next
    case False
    then have ne: "src \<noteq> []" using 1(3) by (auto simp: class_loop.simps [of src])
    then obtain c p1 where pc: "parse_char src = Inr (c, p1)" using 1(3) False by (auto simp: class_loop.simps [of src] split: sum.splits)
    define x where "x = \<lparr>ge_type = (if n < length rule then GRETYPE_CHAR_ALT else ty), ge_value = c\<rparr>"
    have x: "\<lparr>ge_type = (if gs \<noteq> [] then GRETYPE_CHAR_ALT else ty), ge_value = c\<rparr> = x" using 1(5,6) by (simp add: x_def)
    note grp = class_group_push [OF 1(7,4), of c, unfolded x]
    show ?thesis
    proof (cases "peek p1 = 45 \<and> peek (tl p1) \<noteq> 93")
      case up: True
      then have ne2: "tl p1 \<noteq> []" using 1(3) False ne pc by (auto simp: class_loop.simps [of src] Let_def)
      then obtain c2 p2 where pc2: "parse_char (tl p1) = Inr (c2, p2)"
        using 1(3) False ne pc up by (auto simp: class_loop.simps [of src] Let_def split: sum.splits)
      let ?u = "\<lparr>ge_type = GRETYPE_CHAR_RNG_UPPER, ge_value = c2\<rparr>"
      have rec: "class_loop p2 ((rule @ [x]) @ [?u]) n ty = Inr (pos, rule')"
        using 1(3) False ne pc up ne2 pc2 by (simp add: class_loop.simps [of src] Let_def x_def)
      have "\<exists>gs'. rule' = pre @ gs' \<and> class_group gs' \<and> length pos < length p2"
        by (rule 1(1) [OF False ne pc refl refl up ne2 pc2 refl rec [unfolded x_def] 1(4), of "gs @ [x, ?u]"]) (use 1(5,6) grp(2) in \<open>simp_all add: x_def\<close>)
      then show ?thesis using parse_char_length [OF pc] parse_char_length [OF pc2] by fastforce
    next
      case nup: False
      have rec: "class_loop p1 (rule @ [x]) n ty = Inr (pos, rule')"
        using 1(3) False ne pc nup by (simp add: class_loop.simps [of src] Let_def x_def)
      have "\<exists>gs'. rule' = pre @ gs' \<and> class_group gs' \<and> length pos < length p1"
        by (rule 1(2) [OF False ne pc refl refl nup rec [unfolded x_def] 1(4), of "gs @ [x]"]) (use 1(5,6) grp(1) in \<open>simp_all add: x_def\<close>)
      then show ?thesis using parse_char_length [OF pc] by fastforce
    qed
  qed
qed

lemma parse_space_length: "length (parse_space src nl) \<le> length src"
proof (induction src nl rule: parse_space.induct)
  case (2 c src nl)
  have "length (dropWhile (\<lambda>c. c \<noteq> 13 \<and> c \<noteq> 10) src) \<le> length src" by (rule length_dropWhile_le)
  then show ?case using 2 by (auto intro: le_SucI order_trans)
qed simp

lemma parse_name_ok: "parse_name src = Inr (name, pos) \<Longrightarrow> word name \<and> length pos < length src"
  using length_append [of "takeWhile is_word_char src" "dropWhile is_word_char src"]
  by (auto simp: parse_name_def dest: set_takeWhileD split: if_splits)

lemma parse_int_length: "parse_int src = Inr (ds, pos) \<Longrightarrow> length pos < length src"
  using length_append [of "takeWhile is_digit_char src" "dropWhile is_digit_char src"]
  by (auto simp: parse_int_def split: if_splits)

lemma parse_token_length:
  assumes "parse_token vocab src = Inr (v, pos)"
  shows "length pos < length src"
proof -
  have ne: "src \<noteq> []" using assms by (auto simp: parse_token_def)
  have d: "length (dropWhile (\<lambda>c. c \<noteq> 62) src) \<le> length src" by (rule length_dropWhile_le)
  show ?thesis
  proof (cases "peek (tl src) = 91")
    case True
    then obtain ds pos1 where "parse_int (tl (tl src)) = Inr (ds, pos1)" "pos = tl (tl pos1)"
      using assms by (auto simp: parse_token_def bindR_Inr split: if_splits)
    then show ?thesis using parse_int_length [of "tl (tl src)" ds pos1] by simp
  next
    case False
    then have "dropWhile (\<lambda>c. c \<noteq> 62) src \<noteq> []" "pos = tl (dropWhile (\<lambda>c. c \<noteq> 62) src)"
      using assms by (auto simp: parse_token_def Let_def split: if_splits option.splits list.splits)
    then show ?thesis using d by (cases "dropWhile (\<lambda>c. c \<noteq> 62) src") auto
  qed
qed

end
