(* ===== verification/Grammar_Parse_Props.thy ===== *)
theory Grammar_Parse_Props
  imports Grammar_Parse_Ok
begin

text \<open>
  The loops of the parser end and keep its invariants; an accepted text gives well-formed rules.
\<close>

section \<open>Items\<close>

text \<open>A result that has consumed bytes and kept the invariants.\<close>

definition item_ok :: "byte list \<Rightarrow> parser_state \<Rightarrow> byte list \<times> seq_state \<times> parser_state \<Rightarrow> bool" where
  "item_ok src ps out = (case out of (pos, sq, ps') \<Rightarrow> length pos < length src \<and> ps_step ps ps' \<and> sq_ok (n_syms ps') sq)"

lemma space_less: "length src < n \<Longrightarrow> length (parse_space src nl) < n"
  using parse_space_length [of src nl] by simp

lemma tl_space_less: "src \<noteq> [] \<Longrightarrow> length (parse_space (tl src) nl) < length src"
  by (rule space_less) (cases src, simp_all)

lemma parse_bounds_length:
  assumes "parse_bounds src nl = Inr (mn, mx, pos)"
  shows "length pos < length src"
proof -
  define p0 where "p0 = parse_space (tl src) nl"
  from assms obtain ds p1 v where p1: "parse_int p0 = Inr (ds, p1)" "stoull ds = Inr v"
    by (auto simp: parse_bounds_def Let_def bindR_Inr p0_def split: if_splits)
  have l1: "length (parse_space p1 nl) < length src"
    using parse_int_length [OF p1(1)] parse_space_length [of p1 nl] parse_space_length [of "tl src" nl] by (cases src) (simp_all add: p0_def)
  define p2 where "p2 = parse_space p1 nl"
  show ?thesis
  proof (cases "peek p2 = 125")
    case True
    then have "pos = parse_space (tl p2) nl" using assms p1
      by (auto simp: parse_bounds_def Let_def bindR_Inr p0_def p2_def split: if_splits)
    then show ?thesis using parse_space_length [of "tl p2" nl] l1 by (simp add: p2_def)
  next
    case False
    define p3 where "p3 = parse_space (tl p2) nl"
    from assms p1 False obtain p4 where p4: "p4 = p3 \<or> (\<exists>ds' p. parse_int p3 = Inr (ds', p) \<and> p4 = parse_space p nl)" "pos = parse_space (tl p4) nl"
      by (auto simp: parse_bounds_def Let_def bindR_Inr p0_def p2_def p3_def split: if_splits)
    have "length p3 \<le> length p2" using parse_space_length [of "tl p2" nl] by (simp add: p3_def)
    moreover have "length p4 \<le> length p3" using p4(1) parse_int_length parse_space_length by (metis less_imp_le order.trans order.refl)
    moreover have "length pos \<le> length p4" using parse_space_length [of "tl p4" nl] p4(2) by simp
    ultimately show ?thesis using l1 by (simp add: p2_def)
  qed
qed

lemma item_new:
  assumes "ps_step ps ps'" "sq_ok (n_syms ps) sq" "body es" "refs_below (n_syms ps') es" "length pos < length src"
  shows "item_ok src ps (parse_space pos nl, new_symbol (sq_rule sq @ es) sq, ps')"
  using assms sq_ok_new [of "n_syms ps" sq es "n_syms ps'"] space_less [OF assms(5)] by (simp add: item_ok_def ps_step_def)

lemma item_rep:
  assumes "ps_ok ps" "sq_ok (n_syms ps) sq" "word nm" "length pos < length src"
    "bindR (handle_repetitions nm mn mx sq ps) (\<lambda>(sq, ps). Inr (pos, sq, ps)) = Inr out"
  shows "item_ok src ps out"
proof -
  from assms(5) obtain sq' ps' where "handle_repetitions nm mn mx sq ps = Inr (sq', ps')" "out = (pos, sq', ps')" by (auto simp: bindR_Inr)
  then show ?thesis using handle_repetitions_ok [OF assms(1-3)] assms(4) by (simp add: item_ok_def)
qed

lemma ps_step_refl: "ps_ok ps \<Longrightarrow> ps_step ps ps"
  by (simp add: ps_step_def)

lemma parse_item_ok:
  assumes ps: "ps_ok ps" and sq: "sq_ok (n_syms ps) sq" and nm: "word nm"
    and item: "parse_item vocab nm nl src sq ps = Some (Inr out)"
  shows "item_ok src ps out"
proof -
  have ne: "src \<noteq> []" using item by (auto simp: parse_item_def Let_def is_word_char_def is_digit_char_def)
  note ref = ps_step_refl [OF ps]
  have tl: "length (tl src) < length src" using ne by simp
  note spc = tl_space_less [OF ne, of nl]
  note rep = item_rep [OF ps sq nm spc]
  have one: "ge_type e \<in> {GRETYPE_TOKEN, GRETYPE_TOKEN_NOT, GRETYPE_CHAR_ANY} \<Longrightarrow> body [e] \<and> refs_below n [e]" for e n
    by (auto intro: body_single)
  consider "peek src = 34" | "peek src = 91" | "peek src = 60 \<or> peek src = 33" | "is_word_char (peek src)" | "peek src = 46"
    | "peek src = 42" | "peek src = 43" | "peek src = 63" | "peek src = 123"
    using item by (auto simp: parse_item_def Let_def split: if_splits)
  then show ?thesis
  proof cases
    case 1
    then obtain pos rule where l: "literal_loop (tl src) (sq_rule sq) = Inr (pos, rule)" "out = (parse_space pos nl, new_symbol rule sq, ps)"
      using item by (auto simp: parse_item_def Let_def bindR_Inr)
    from literal_loop_ok [OF l(1)] obtain es where es: "rule = sq_rule sq @ es" "body es" "refs_below 0 es" "length pos < length (tl src)" by blast
    show ?thesis unfolding l(2) es(1) by (rule item_new [OF ref sq es(2) refs_below_mono [OF es(3)]]) (use es(4) tl in auto)
  next
    case 2
    define s1 where "s1 = (if peek (tl src) = 94 then tl (tl src) else tl src)"
    from 2 item obtain pos rule where l: "class_loop s1 (sq_rule sq) (length (sq_rule sq)) (if peek (tl src) = 94 then GRETYPE_CHAR_NOT else GRETYPE_CHAR) = Inr (pos, rule)"
      "out = (parse_space pos nl, new_symbol rule sq, ps)" by (auto simp: parse_item_def Let_def bindR_Inr s1_def)
    have "\<exists>gs. rule = sq_rule sq @ gs \<and> class_group gs \<and> length pos < length s1"
      by (rule class_loop_ok [OF l(1), of "sq_rule sq" "[]"]) (simp_all add: class_group_def)
    then obtain gs where gs: "rule = sq_rule sq @ gs" "class_group gs" "length pos < length s1" by blast
    have "length s1 \<le> length (tl src)" by (auto simp: s1_def)
    then show ?thesis unfolding l(2) gs(1)
      by (intro item_new [OF ref sq]) (use class_group_body [OF gs(2)] gs(3) tl in \<open>auto intro: refs_below_mono\<close>)
  next
    case 3
    define s1 where "s1 = (if peek src = 33 then tl src else src)"
    define ty where "ty = (if peek src = 33 then GRETYPE_TOKEN_NOT else GRETYPE_TOKEN)"
    from 3 item obtain v pos where l: "parse_token vocab s1 = Inr (v, pos)"
      "out = (parse_space pos nl, new_symbol (sq_rule sq @ [\<lparr>ge_type = ty, ge_value = v\<rparr>]) sq, ps)"
      by (auto simp: parse_item_def Let_def bindR_Inr s1_def ty_def)
    have b: "body [\<lparr>ge_type = ty, ge_value = v\<rparr>]" "refs_below (n_syms ps) [\<lparr>ge_type = ty, ge_value = v\<rparr>]" by (auto simp: ty_def intro: body_single)
    have "length s1 \<le> length src" by (simp add: s1_def)
    then show ?thesis unfolding l(2) by (intro item_new [OF ref sq b]) (use parse_token_length [OF l(1)] in simp)
  next
    case 4
    then have "peek src \<noteq> 34" "peek src \<noteq> 91" "peek src \<noteq> 60" "peek src \<noteq> 33" by (auto simp: is_word_char_def is_digit_char_def)
    then have it: "parse_item vocab nm nl src sq ps = Some (bindR (parse_name src) (\<lambda>(name, pos). case get_symbol_id name ps of
        (i, ps) \<Rightarrow> Inr (parse_space pos nl, new_symbol (sq_rule sq @ [\<lparr>ge_type = GRETYPE_RULE_REF, ge_value = i\<rparr>]) sq, ps)))"
      using 4 by (simp only: parse_item_def Let_def if_True if_False simp_thms)
    from it item obtain name pos where l1: "parse_name src = Inr (name, pos)" by (cases "parse_name src") auto
    obtain i ps' where l2: "get_symbol_id name ps = (i, ps')" by fastforce
    have l: "parse_name src = Inr (name, pos)" "get_symbol_id name ps = (i, ps')"
      "out = (parse_space pos nl, new_symbol (sq_rule sq @ [\<lparr>ge_type = GRETYPE_RULE_REF, ge_value = i\<rparr>]) sq, ps')"
      using it item l1 l2 by auto
    have n: "word name" "length pos < length src" using parse_name_ok [OF l(1)] by auto
    note g = get_symbol_ok [OF ps n(1) l(2)]
    show ?thesis unfolding l(3) by (rule item_new [OF g(1) sq]) (use g(2) n(2) in \<open>auto intro: body_single\<close>)
  next
    case 5
    then have "out = (parse_space (tl src) nl, new_symbol (sq_rule sq @ [\<lparr>ge_type = GRETYPE_CHAR_ANY, ge_value = 0\<rparr>]) sq, ps)"
      using item by (auto simp: parse_item_def Let_def is_word_char_def is_digit_char_def)
    then show ?thesis by (simp only:) (rule item_new [OF ref sq _ _ tl], auto intro: body_single)
  next
    case 6 then show ?thesis using item by (intro rep) (auto simp: parse_item_def Let_def is_word_char_def is_digit_char_def)
  next
    case 7 then show ?thesis using item by (intro rep) (auto simp: parse_item_def Let_def is_word_char_def is_digit_char_def)
  next
    case 8 then show ?thesis using item by (intro rep) (auto simp: parse_item_def Let_def is_word_char_def is_digit_char_def)
  next
    case 9
    then obtain mn mx pos where "parse_bounds src nl = Inr (mn, mx, pos)"
      "bindR (handle_repetitions nm mn mx sq ps) (\<lambda>(sq, ps). Inr (pos, sq, ps)) = Inr out"
      using item by (auto simp: parse_item_def Let_def is_word_char_def is_digit_char_def bindR_Inr)
    then show ?thesis using item_rep [OF ps sq nm] parse_bounds_length by blast
  qed
qed

section \<open>Loops\<close>

text \<open>A group parser that ends on texts shorter than a bound and keeps the invariants.\<close>

definition group_ok :: "nat \<Rightarrow> group_parser \<Rightarrow> bool" where
  "group_ok n f \<longleftrightarrow> (\<forall>i src ps. length src < n \<longrightarrow> ps_ok ps \<longrightarrow> (\<exists>r. f i src ps = Some r \<and>
     (\<forall>pos ps'. r = Inr (pos, ps') \<longrightarrow> length pos \<le> length src \<and> ps_step ps ps')))"

definition rule_parsed :: "nat \<Rightarrow> parser_state \<Rightarrow> (byte list \<times> llama_grammar_rule \<times> parser_state) pres \<Rightarrow> bool" where
  "rule_parsed n ps res \<longleftrightarrow> (\<exists>r. res = Some r \<and>
     (\<forall>pos rule ps'. r = Inr (pos, rule, ps') \<longrightarrow> length pos \<le> n \<and> ps_step ps ps' \<and> body rule \<and> refs_below (n_syms ps') rule))"

lemma rule_parsed_step:
  assumes "rule_parsed m ps' res" "ps_step ps ps'" "m \<le> n"
  shows "rule_parsed n ps res"
proof -
  from assms(1) obtain r where r: "res = Some r"
    "\<forall>pos rule ps''. r = Inr (pos, rule, ps'') \<longrightarrow> length pos \<le> m \<and> ps_step ps' ps'' \<and> body rule \<and> refs_below (n_syms ps'') rule"
    unfolding rule_parsed_def by blast
  have "length pos \<le> n \<and> ps_step ps ps'' \<and> body rule \<and> refs_below (n_syms ps'') rule" if "r = Inr (pos, rule, ps'')" for pos rule ps''
    using r(2) [rule_format, OF that] assms(2,3) ps_step_trans le_trans by blast
  then show ?thesis using r(1) unfolding rule_parsed_def by blast
qed

lemma sequence_loop_ok:
  assumes nm: "word nm"
  shows "length src < fuel \<Longrightarrow> group_ok (length src) f \<Longrightarrow> ps_ok ps \<Longrightarrow> sq_ok (n_syms ps) sq \<Longrightarrow>
    rule_parsed (length src) ps (sequence_loop fuel f vocab nm nl src sq ps)"
proof (induction fuel arbitrary: src sq ps)
  case (Suc fuel)
  note ref = ps_step_refl [OF Suc.prems(3)]
  have smaller: "group_ok m f" if "m \<le> length src" for m using Suc.prems(2) that by (auto simp: group_ok_def)
  show ?case
  proof (cases "peek src = 40")
    case True
    then have ne: "src \<noteq> []" by auto
    obtain i ps1 where g: "generate_symbol_id nm ps = (i, ps1)" by fastforce
    note go = generate_ok [OF Suc.prems(3) nm g]
    have "length (parse_space (tl src) True) < length src" by (rule tl_space_less [OF ne])
    then obtain r where r: "f i (parse_space (tl src) True) ps1 = Some r"
      "\<forall>pos ps'. r = Inr (pos, ps') \<longrightarrow> length pos \<le> length (parse_space (tl src) True) \<and> ps_step ps1 ps'"
      using Suc.prems(2) go(1) unfolding group_ok_def ps_step_def by blast
    show ?thesis
    proof (cases "\<exists>pos ps2. r = Inr (pos, ps2) \<and> peek pos = 41")
      case False
      then have "sequence_loop (Suc fuel) f vocab nm nl src sq ps = err_res P_EXPECT \<or> (\<exists>e. sequence_loop (Suc fuel) f vocab nm nl src sq ps = err_res e)"
        using True g r(1) by (cases r) auto
      then show ?thesis by (auto simp: rule_parsed_def)
    next
      case 2: True
      then obtain pos ps2 where p: "r = Inr (pos, ps2)" "peek pos = 41" by blast
      then have pl: "length pos < length src" "ps_step ps1 ps2" "pos \<noteq> []"
        using r(2) tl_space_less [OF ne, of True] by auto
      define sq2 where "sq2 = \<lparr>sq_rule = sq_rule sq @ [\<lparr>ge_type = GRETYPE_RULE_REF, ge_value = i\<rparr>], sq_last = length (sq_rule sq),
        sq_n_prev = max 1 (n_syms ps2 - n_syms ps)\<rparr>"
      have st: "ps_step ps ps2" using go(1) pl(2) by (rule ps_step_trans)
      have rf: "refs_below (n_syms ps2) (sq_rule sq)" "i < n_syms ps2"
        using Suc.prems(4) st go(2) pl(2) by (auto simp: sq_ok_def ps_step_def intro: refs_below_mono)
      have sq2: "sq_ok (n_syms ps2) sq2" using sq_ok_body [OF Suc.prems(4)] rf by (auto simp: sq_ok_def sq2_def intro: body_single)
      have less: "length (parse_space (tl pos) nl) < length src" using tl_space_less [OF pl(3), of nl] pl(1) by simp
      have "rule_parsed (length (parse_space (tl pos) nl)) ps2 (sequence_loop fuel f vocab nm nl (parse_space (tl pos) nl) sq2 ps2)"
        using Suc.prems(1) less st sq2 smaller by (intro Suc.IH) (auto simp: ps_step_def)
      moreover have "sequence_loop (Suc fuel) f vocab nm nl src sq ps = sequence_loop fuel f vocab nm nl (parse_space (tl pos) nl) sq2 ps2"
        using True g r(1) p by (simp add: sq2_def)
      ultimately show ?thesis using rule_parsed_step [OF _ st] less by simp
    qed
  next
    case np: False
    show ?thesis
    proof (cases "parse_item vocab nm nl src sq ps")
      case None
      then show ?thesis using np ref sq_ok_body [OF Suc.prems(4)] Suc.prems(4) by (simp add: rule_parsed_def sq_ok_def)
    next
      case (Some res)
      show ?thesis
      proof (cases res)
        case (Inl e) then show ?thesis using np Some by (simp add: rule_parsed_def)
      next
        case (Inr out)
        obtain pos sq' ps' where out: "out = (pos, sq', ps')" by (cases out)
        have io: "length pos < length src" "ps_step ps ps'" "sq_ok (n_syms ps') sq'"
          using parse_item_ok [OF Suc.prems(3,4) nm, of vocab nl src out] Some Inr out by (auto simp: item_ok_def)
        have "rule_parsed (length pos) ps' (sequence_loop fuel f vocab nm nl pos sq' ps')"
          using Suc.prems(1) io smaller by (intro Suc.IH) (auto simp: ps_step_def)
        then show ?thesis using rule_parsed_step [OF _ io(2)] io(1) np Some Inr out by simp
      qed
    qed
  qed
qed simp

definition sequence_ok :: "nat \<Rightarrow> sequence_parser \<Rightarrow> bool" where
  "sequence_ok n f \<longleftrightarrow> (\<forall>src rule ps. length src \<le> n \<longrightarrow> ps_ok ps \<longrightarrow> body rule \<longrightarrow> refs_below (n_syms ps) rule \<longrightarrow>
     rule_parsed (length src) ps (f src rule ps))"

lemma alternates_loop_ok:
  "length src < fuel \<Longrightarrow> sequence_ok (length src) f \<Longrightarrow> ps_ok ps \<Longrightarrow> body rule \<Longrightarrow> refs_below (n_syms ps) rule \<Longrightarrow>
   \<exists>r. alternates_loop fuel f i src rule ps = Some r \<and> (\<forall>pos ps'. r = Inr (pos, ps') \<longrightarrow> length pos \<le> length src \<and> ps_step ps ps')"
proof (induction fuel arbitrary: src rule ps)
  case (Suc fuel)
  show ?case
  proof (cases "peek src = 124")
    case False
    have "rule_ok (n_syms ps) (rule @ [end_elem])" using Suc.prems(4,5) by (auto simp: rule_ok_def)
    then show ?thesis using False add_rule_ok [OF Suc.prems(3)] by simp
  next
    case True
    then have ne: "src \<noteq> []" by auto
    let ?p = "parse_space (tl src) True" and ?r = "rule @ [\<lparr>ge_type = GRETYPE_ALT, ge_value = 0\<rparr>]"
    have less: "length ?p < length src" by (rule tl_space_less [OF ne])
    have "rule_parsed (length ?p) ps (f ?p ?r ps)"
      by (rule Suc.prems(2) [unfolded sequence_ok_def, rule_format])
        (use Suc.prems less in \<open>auto intro!: body_append body_single\<close>)
    then obtain res where res: "f ?p ?r ps = Some res"
      "\<forall>pos rule ps'. res = Inr (pos, rule, ps') \<longrightarrow> length pos \<le> length ?p \<and> ps_step ps ps' \<and> body rule \<and> refs_below (n_syms ps') rule"
      by (auto simp: rule_parsed_def)
    show ?thesis
    proof (cases res)
      case (Inl e) then show ?thesis using True res(1) by simp
    next
      case (Inr out)
      obtain pos rule' ps' where out: "out = (pos, rule', ps')" by (cases out)
      have o: "length pos \<le> length ?p" "ps_step ps ps'" "body rule'" "refs_below (n_syms ps') rule'" using res(2) Inr out by auto
      have "\<exists>r. alternates_loop fuel f i pos rule' ps' = Some r \<and> (\<forall>pos' ps''. r = Inr (pos', ps'') \<longrightarrow> length pos' \<le> length pos \<and> ps_step ps' ps'')"
        using Suc.prems(1,2) less o by (intro Suc.IH) (auto simp: sequence_ok_def ps_step_def)
      then obtain r where r: "alternates_loop fuel f i pos rule' ps' = Some r"
        "\<forall>pos' ps''. r = Inr (pos', ps'') \<longrightarrow> length pos' \<le> length pos \<and> ps_step ps' ps''" by blast
      have "alternates_loop (Suc fuel) f i src rule ps = Some r" using True res(1) Inr out r(1) by simp
      moreover have "length pos \<le> length src" using o(1) less by simp
      ultimately show ?thesis using r(2) o(2) by (meson le_trans ps_step_trans)
    qed
  qed
qed simp

lemma parse_alternates_ok:
  assumes nm: "word nm"
  shows "length src < fuel \<Longrightarrow> ps_ok ps \<Longrightarrow>
    \<exists>r. parse_alternates fuel vocab nm i nl src ps = Some r \<and> (\<forall>pos ps'. r = Inr (pos, ps') \<longrightarrow> length pos \<le> length src \<and> ps_step ps ps')"
proof (induction fuel arbitrary: i nl src ps)
  case (Suc fuel)
  define grp where "grp = (\<lambda>i src ps. parse_alternates fuel vocab nm i True src ps)"
  define sqp where "sqp = (\<lambda>src rule ps. sequence_loop (length src + 1) grp vocab nm nl src (start_sequence rule) ps)"
  have grp: "group_ok fuel grp" using Suc.IH by (simp add: group_ok_def grp_def)
  have sqp: "sequence_ok fuel sqp"
    unfolding sequence_ok_def sqp_def
  proof (intro allI impI)
    fix src :: "byte list" and rule ps
    assume a: "length src \<le> fuel" "ps_ok ps" "body rule" "refs_below (n_syms ps) rule"
    have "group_ok (length src) grp" using grp a(1) by (auto simp: group_ok_def)
    moreover have "sq_ok (n_syms ps) (start_sequence rule)" using a(3,4) by (simp add: sq_ok_def start_sequence_def body_nil)
    ultimately show "rule_parsed (length src) ps (sequence_loop (length src + 1) grp vocab nm nl src (start_sequence rule) ps)"
      using a(2) by (intro sequence_loop_ok [OF nm]) simp_all
  qed
  have le: "length src \<le> fuel" using Suc.prems(1) by simp
  then have "rule_parsed (length src) ps (sqp src [] ps)" using sqp Suc.prems(2) by (simp add: sequence_ok_def body_nil)
  then obtain res where res: "sqp src [] ps = Some res"
    "\<forall>pos rule ps'. res = Inr (pos, rule, ps') \<longrightarrow> length pos \<le> length src \<and> ps_step ps ps' \<and> body rule \<and> refs_below (n_syms ps') rule"
    by (auto simp: rule_parsed_def)
  have run: "parse_alternates (Suc fuel) vocab nm i nl src ps =
      gbind (sqp src [] ps) (\<lambda>(pos, rule, ps). alternates_loop (length pos + 1) sqp i pos rule ps)"
    unfolding parse_alternates.simps Let_def grp_def sqp_def ..
  show ?case
  proof (cases res)
    case (Inl e) then show ?thesis using run res(1) by simp
  next
    case (Inr out)
    obtain pos rule ps' where out: "out = (pos, rule, ps')" by (cases out)
    have o: "length pos \<le> length src" "ps_step ps ps'" "body rule" "refs_below (n_syms ps') rule" using res(2) Inr out by auto
    have "sequence_ok (length pos) sqp" using sqp o(1) le by (auto simp: sequence_ok_def)
    from alternates_loop_ok [OF _ this, of "length pos + 1" ps' rule i] o obtain r where
      r: "alternates_loop (length pos + 1) sqp i pos rule ps' = Some r" "\<forall>pos' ps''. r = Inr (pos', ps'') \<longrightarrow> length pos' \<le> length pos \<and> ps_step ps' ps''"
      by (auto simp: ps_step_def)
    have "parse_alternates (Suc fuel) vocab nm i nl src ps = Some r" using run res(1) Inr out r(1) by simp
    then show ?thesis using r(2) o(1,2) by (meson le_trans ps_step_trans)
  qed
qed simp

end
