(* ===== verification/Grammar_Text.thy ===== *)
theory Grammar_Text
  imports Grammar_Parse_Props
begin

text \<open>
  Whole texts: the parser returns on every text, with well-formed rules or none; a repetition whose
  maximum is below its minimum.
\<close>

section \<open>Rules\<close>

lemma parse_rule_ok:
  assumes "ps_ok ps" "length src < fuel"
  shows "\<exists>r. parse_rule fuel vocab src ps = Some r \<and> (\<forall>pos ps'. r = Inr (pos, ps') \<longrightarrow> length pos < length src \<and> ps_step ps ps')"
proof (cases "parse_name src")
  case (Inl e) then show ?thesis by (simp add: parse_rule_def)
next
  case (Inr out)
  then obtain name p0 where nm: "parse_name src = Inr (name, p0)" by (cases out) auto
  note n = parse_name_ok [OF nm]
  obtain i ps1 where g: "get_symbol_id name ps = (i, ps1)" by fastforce
  have st: "ps_step ps ps1" using get_symbol_ok [OF assms(1) _ g] n by blast
  let ?p1 = "parse_space p0 False"
  have l1: "length ?p1 < length src" using n by (intro space_less) simp
  show ?thesis
  proof (cases "take 3 ?p1 = [58, 58, 61]")
    case False then show ?thesis using nm g by (simp add: parse_rule_def Let_def)
  next
    case True
    let ?p2 = "parse_space (drop 3 ?p1) True"
    have l2: "length ?p2 < length src" using l1 by (intro space_less) simp
    from parse_alternates_ok [of name ?p2 fuel ps1 vocab i False] n l2 assms(2) st obtain r where
      r: "parse_alternates fuel vocab name i False ?p2 ps1 = Some r" "\<forall>pos ps'. r = Inr (pos, ps') \<longrightarrow> length pos \<le> length ?p2 \<and> ps_step ps1 ps'"
      by (auto simp: ps_step_def)
    define fin where "fin = (\<lambda>(pos, ps :: parser_state).
        if peek pos = 13 then ok_res (parse_space (if peek (tl pos) = 10 then tl (tl pos) else tl pos) True, ps)
        else if peek pos = 10 then ok_res (parse_space (tl pos) True, ps)
        else if pos \<noteq> [] then err_res P_EXPECT else ok_res (parse_space pos True, ps))"
    have run: "parse_rule fuel vocab src ps = gbind (Some r) fin" using nm g True r(1) by (simp add: parse_rule_def Let_def fin_def)
    have fin: "\<exists>r'. fin (pos, ps') = Some r' \<and> (\<forall>q ps''. r' = Inr (q, ps'') \<longrightarrow> length q \<le> length pos \<and> ps'' = ps')" for pos ps'
    proof -
      have "length (parse_space (if peek (tl pos) = 10 then tl (tl pos) else tl pos) True) \<le> length pos"
        using parse_space_length [of "if peek (tl pos) = 10 then tl (tl pos) else tl pos" True] by (auto split: if_splits)
      moreover have "length (parse_space (tl pos) True) \<le> length pos" using parse_space_length [of "tl pos" True] by simp
      ultimately show ?thesis using parse_space_length [of pos True] by (auto simp: fin_def)
    qed
    show ?thesis
    proof (cases r)
      case (Inl e) then show ?thesis using run by simp
    next
      case (Inr out)
      obtain pos ps' where out: "out = (pos, ps')" by (cases out)
      have o: "length pos \<le> length ?p2" "ps_step ps1 ps'" using r(2) Inr out by auto
      from fin [of pos ps'] obtain r' where r': "fin (pos, ps') = Some r'" "\<forall>q ps''. r' = Inr (q, ps'') \<longrightarrow> length q \<le> length pos \<and> ps'' = ps'" by blast
      have "parse_rule fuel vocab src ps = Some r'" using run Inr out r'(1) by simp
      moreover have "length q < length src \<and> ps_step ps ps''" if "r' = Inr (q, ps'')" for q ps''
        using r'(2) that ps_step_trans [OF st o(2)] o(1) l2 by fastforce
      ultimately show ?thesis by blast
    qed
  qed
qed

lemma parse_rules_ok:
  "ps_ok ps \<Longrightarrow> length src < fuel \<Longrightarrow> \<exists>r. parse_rules fuel vocab src ps = Some r \<and> (\<forall>ps'. r = Inr ps' \<longrightarrow> ps_ok ps')"
proof (induction fuel arbitrary: src ps)
  case (Suc fuel)
  show ?case
  proof (cases "src = []")
    case True then show ?thesis using Suc.prems(1) by simp
  next
    case False
    from parse_rule_ok [OF Suc.prems(1), of src "length src + 1" vocab] obtain r where
      r: "parse_rule (length src + 1) vocab src ps = Some r" "\<forall>pos ps'. r = Inr (pos, ps') \<longrightarrow> length pos < length src \<and> ps_step ps ps'" by auto
    show ?thesis
    proof (cases r)
      case (Inl e) then show ?thesis using False r(1) by simp
    next
      case (Inr out)
      obtain pos ps' where out: "out = (pos, ps')" by (cases out)
      have o: "length pos < fuel" "ps_ok ps'" using r(2) Inr out Suc.prems(2) by (auto simp: ps_step_def)
      from Suc.IH [OF o(2,1)] show ?thesis using False r(1) Inr out by simp
    qed
  qed
qed simp

section \<open>Accepted texts\<close>

lemma ps_ok_start: "ps_ok \<lparr>ps_symbol_ids = [], ps_rules = []\<rparr>"
  by (simp add: ps_ok_def)

lemma validated_rules:
  assumes "ps_ok ps" "validate_rules ps" "rule \<in> set (ps_rules ps)"
  shows "rule_ok (length (ps_rules ps)) rule"
    "\<forall>e \<in> set rule. ge_type e = GRETYPE_RULE_REF \<longrightarrow> ge_value e < length (ps_rules ps) \<and> ps_rules ps ! ge_value e \<noteq> []"
proof -
  have ne: "rule \<noteq> []" using assms(2,3) by (auto simp: validate_rules_def)
  then have "rule_ok (n_syms ps) rule" using assms(1,3) by (auto simp: ps_ok_def)
  then obtain b where b: "rule = b @ [end_elem]" "body b" "refs_below (n_syms ps) b" by (auto simp: rule_ok_def)
  have ids: "snd ` set (ps_symbol_ids ps) = {0..<n_syms ps}" using assms(1) unfolding ps_ok_def by (metis set_map set_upt)
  have val: "\<forall>e \<in> set rule. ge_type e = GRETYPE_RULE_REF \<longrightarrow> (ge_value e \<ge> length (ps_rules ps) \<or> ps_rules ps ! ge_value e = []) \<longrightarrow> ge_value e \<notin> {0..<n_syms ps}"
    using assms(2,3) unfolding validate_rules_def ids by blast
  have "\<forall>e \<in> set rule. ge_type e = GRETYPE_RULE_REF \<longrightarrow> ge_value e < n_syms ps"
    using b(1,3) by (auto simp: refs_below_def end_elem_def)
  then show r: "\<forall>e \<in> set rule. ge_type e = GRETYPE_RULE_REF \<longrightarrow> ge_value e < length (ps_rules ps) \<and> ps_rules ps ! ge_value e \<noteq> []"
    using val by (metis atLeastLessThan_iff le0 not_le)
  then show "rule_ok (length (ps_rules ps)) rule" using b(1,2) by (auto simp: rule_ok_def refs_below_def)
qed

lemma copy_rule_body: "(\<And>e. e \<in> set b \<Longrightarrow> ge_type e \<noteq> GRETYPE_END) \<Longrightarrow> copy_rule (b @ [end_elem]) = Some (b @ [end_elem])"
  by (induction b) (auto simp: end_elem_def)

lemma copy_rules_ok: "(\<And>rule. rule \<in> set rules \<Longrightarrow> rule_ok n rule) \<Longrightarrow> copy_rules rules = Some rules"
proof (induction rules)
  case (Cons r rs)
  obtain b where "r = b @ [end_elem]" "body b" using Cons.prems [of r] by (auto simp: rule_ok_def)
  then have "copy_rule r = Some r" using copy_rule_body body_no_end by blast
  then show ?case using Cons by simp
qed simp

lemma wf_of_rule_ok:
  assumes "\<forall>rule \<in> set rules. rule_ok (length rules) rule"
  shows "wf_rules rules"
proof -
  have "\<exists>starts. alt_starts rules v = Some starts \<and> (\<forall>i \<in> set starts. pos_parse rules (v, i) \<noteq> None)" if "v < length rules" for v
  proof -
    have "rules ! v \<in> set rules" using that by simp
    then obtain b where b: "rules ! v = b @ [end_elem]" "body b" using assms unfolding rule_ok_def by blast
    from body_starts [OF b(2)] show ?thesis using that b(1) by (simp add: alt_starts_def pos_parse_def rule_at_def)
  qed
  moreover have "\<forall>rule \<in> set rules. \<forall>e \<in> set rule. ge_type e = GRETYPE_RULE_REF \<longrightarrow> ge_value e < length rules"
    using assms by (fastforce simp: rule_ok_def refs_below_def end_elem_def)
  ultimately show ?thesis by (simp add: wf_rules_def)
qed

lemma grammar_parse_ok:
  "\<exists>ok ps. grammar_parse vocab src = Some (ok, ps) \<and>
     (if ok then wf_rules (ps_rules ps) \<and> refs_defined (ps_rules ps) \<and> copy_rules (ps_rules ps) = Some (ps_rules ps) else ps_rules ps = [])"
proof -
  let ?s = "parse_space src True"
  from parse_rules_ok [OF ps_ok_start, of ?s "length ?s + 1" vocab] obtain r where
    r: "parse_rules (length ?s + 1) vocab ?s \<lparr>ps_symbol_ids = [], ps_rules = []\<rparr> = Some r" "\<forall>ps'. r = Inr ps' \<longrightarrow> ps_ok ps'" by auto
  show ?thesis
  proof (cases r)
    case (Inl e) then show ?thesis using r(1) by (intro exI [of _ False]) (simp add: grammar_parse_def)
  next
    case (Inr ps)
    then have ok: "ps_ok ps" using r(2) by blast
    show ?thesis
    proof (cases "validate_rules ps")
      case False then show ?thesis using r(1) Inr by (intro exI [of _ False]) (simp add: grammar_parse_def)
    next
      case True
      note v = validated_rules [OF ok True]
      have "wf_rules (ps_rules ps)" using v(1) by (intro wf_of_rule_ok) blast
      moreover have "copy_rules (ps_rules ps) = Some (ps_rules ps)" using v(1) by (rule copy_rules_ok)
      moreover have "refs_defined (ps_rules ps)" using v(2) by (auto simp: refs_defined_def)
      ultimately show ?thesis using r(1) Inr True by (intro exI [of _ True]) (simp add: grammar_parse_def)
    qed
  qed
qed


text \<open>The text \<^verbatim>\<open>a::=.\<close>.\<close>

definition demo_text :: "byte list" where
  "demo_text = [97, 58, 58, 61, 46]"


section \<open>A maximum below the minimum\<close>


text \<open>The repetition of \<^verbatim>\<open>"a"{3,1}\<close>.\<close>

definition demo_seq :: seq_state where
  "demo_seq = \<lparr>sq_rule = [\<lparr>ge_type = GRETYPE_CHAR, ge_value = 97\<rparr>], sq_last = 0, sq_n_prev = 1\<rparr>"


end
