(* ===== verification/Moe_Cache.thy ===== *)
theory Moe_Cache
  imports Expert_Placement
begin

text \<open>
  The cache of routed experts (src/src/llama-moe-cache.cpp, llama-moe-cache.h): per layer a pool of
  device slots for experts of the host, tables that send every expert to exactly one of two chains,
  a step between graph executions that publishes, evicts and schedules, and a worker thread that
  copies. An expert is one value of type \<open>'d\<close>, from creation on the triple of its slabs in the up, gate and down tensors.
\<close>

section \<open>State\<close>

record moe_params =
  mp_budget_mib :: int
  mp_reserve_mib :: int
  mp_max_batch :: int
  mp_min_slots :: int
  mp_inserts :: int
  mp_step_mib :: int
  mp_hot_uses :: int
  mp_static_fill :: int
  mp_force_cpu :: bool

record 'd moe_layer =
  ml_il :: int
  ml_n_expert :: nat
  ml_n_slots :: nat
  ml_slab :: nat
  ml_src :: "'d list"
  ml_pool :: "'d list"
  ml_gpu_table :: "int list"
  ml_cpu_table :: "int list"
  ml_slot_expert :: "int list"
  ml_expert_slot :: "int list"
  ml_slot_last_use :: "nat list"
  ml_slot_hits :: "nat list"
  ml_slot_in_flight :: "bool list"
  ml_miss_count :: "nat list"
  ml_expert_pending :: "bool list"
  ml_obs :: "int list"
  ml_obs_cap :: nat

record moe_job =
  mj_layer :: nat
  mj_expert :: nat
  mj_slot :: nat

text \<open>The batch the worker is copying is its local variable; the counters are those of the log.\<close>

record 'd moe_cache =
  mc_params :: moe_params
  mc_layers :: "'d moe_layer list"
  mc_todo :: "moe_job list"
  mc_batch :: "moe_job list"
  mc_done :: "moe_job list"
  mc_n_steps :: nat
  mc_n_hits :: nat
  mc_n_misses :: nat
  mc_n_fills :: nat
  mc_n_evict :: nat
  mc_n_obs_dropped :: nat

text \<open>An \<open>int32_t\<close> cast to \<open>size_t\<close>.\<close>

definition size_of_int :: "int \<Rightarrow> nat" where "size_of_int i = nat (i mod 2 ^ 64)"

section \<open>Creation\<close>

text \<open>What creation asks of a layer of the model: its expert tensors, their router and its device.\<close>

record 'd moe_source =
  ms_separate :: bool
  ms_host :: bool
  ms_has_data :: bool
  ms_quantized :: bool
  ms_router :: bool
  ms_router_host :: bool
  ms_router_split :: bool
  ms_slab :: nat
  ms_up :: "'d list"
  ms_gate :: "'d list"
  ms_down :: "'d list"

text \<open>The cacheable layers; \<open>None\<close> when the model was loaded without data.\<close>

fun moe_candidates :: "nat \<Rightarrow> moe_params \<Rightarrow> nat \<Rightarrow> 'd moe_source list \<Rightarrow> (nat \<times> 'd moe_source) list option" where
  "moe_candidates n_expert mp il [] = Some []"
| "moe_candidates n_expert mp il (m # ms) =
     (if \<not> ms_separate m then moe_candidates n_expert mp (il + 1) ms
      else if \<not> ms_host m then moe_candidates n_expert mp (il + 1) ms
      else if \<not> ms_has_data m then None
      else if \<not> ms_quantized m then moe_candidates n_expert mp (il + 1) ms
      else if length (ms_up m) \<noteq> n_expert \<or> length (ms_gate m) \<noteq> n_expert \<or> length (ms_down m) \<noteq> n_expert then moe_candidates n_expert mp (il + 1) ms
      else if \<not> ms_router m then moe_candidates n_expert mp (il + 1) ms
      else if ms_router_host m \<and> \<not> mp_force_cpu mp then moe_candidates n_expert mp (il + 1) ms
      else if \<not> ms_router_host m \<and> ms_router_split m then moe_candidates n_expert mp (il + 1) ms
      else map_option ((#) (il, m)) (moe_candidates n_expert mp (il + 1) ms))"

text \<open>The bytes for the pools; \<open>free_mem\<close> is the free memory of the device, absent without one.\<close>

definition moe_budget :: "moe_params \<Rightarrow> nat option \<Rightarrow> nat option" where
  "moe_budget mp free_mem =
     (let budget_bytes = (if mp_budget_mib mp > 0 then nat (mp_budget_mib mp) * 1024 * 1024 else 0);
          reserve = size_of_int (mp_reserve_mib mp) * 1024 * 1024 mod 2 ^ 64
      in case (if mp_force_cpu mp then None else free_mem) of
           Some free \<Rightarrow>
             let avail = (if free > reserve then free - reserve else 0);
                 budget = (if mp_budget_mib mp < 0 then avail else if budget_bytes > avail then avail else budget_bytes)
             in if budget = 0 then None else Some budget
         | None \<Rightarrow> if mp_budget_mib mp < 0 then None else if budget_bytes = 0 then None else Some budget_bytes)"

definition moe_n_slots :: "nat \<Rightarrow> nat \<Rightarrow> nat \<Rightarrow> nat" where
  "moe_n_slots per_layer slab n_expert = min (if slab \<noteq> 0 then per_layer div slab else 0) n_expert"

text \<open>An allocated layer; the contents of the slots are unspecified, here \<open>garbage\<close>.\<close>

definition alloc_layer :: "moe_params \<Rightarrow> nat \<Rightarrow> nat \<Rightarrow> 'd \<times> 'd \<times> 'd \<Rightarrow> 'd \<times> 'd \<times> 'd \<Rightarrow> nat \<times> 'd moe_source \<Rightarrow> ('d \<times> 'd \<times> 'd) moe_layer" where
  "alloc_layer mp n_expert n_slots garbage zero c =
     \<lparr>ml_il = int (fst c), ml_n_expert = n_expert, ml_n_slots = n_slots, ml_slab = ms_slab (snd c), ml_src = zip (ms_up (snd c)) (zip (ms_gate (snd c)) (ms_down (snd c))),
      ml_pool = replicate n_slots garbage @ [zero], ml_gpu_table = replicate n_expert 0, ml_cpu_table = replicate n_expert 0,
      ml_slot_expert = replicate n_slots (-1), ml_expert_slot = replicate n_expert (-1),
      ml_slot_last_use = replicate n_slots 0, ml_slot_hits = replicate n_slots 0, ml_slot_in_flight = replicate n_slots False,
      ml_miss_count = replicate n_expert 0, ml_expert_pending = replicate n_expert False,
      ml_obs = [], ml_obs_cap = size_of_int (mp_max_batch mp) * 64 * 8 mod 2 ^ 64\<rparr>"

text \<open>The bookkeeping of a filled slot: the expert it held is no longer resident.\<close>

definition set_resident :: "nat \<Rightarrow> nat \<Rightarrow> 'd moe_layer \<Rightarrow> 'd moe_layer" where
  "set_resident e s l =
     (let es = ml_expert_slot l;
          es = (if ml_slot_expert l ! s \<ge> 0 then es[nat (ml_slot_expert l ! s) := -1] else es)
      in l\<lparr>ml_slot_expert := (ml_slot_expert l)[s := int e], ml_expert_slot := es[e := int s]\<rparr>)"

definition copy_slot :: "nat \<Rightarrow> nat \<Rightarrow> 'd moe_layer \<Rightarrow> 'd moe_layer" where
  "copy_slot e s l = l\<lparr>ml_pool := (ml_pool l)[s := ml_src l ! e]\<rparr>"

definition fill_slot :: "nat \<Rightarrow> nat \<Rightarrow> 'd moe_layer \<Rightarrow> 'd moe_layer" where
  "fill_slot e s l = set_resident e s (copy_slot e s l)"

definition flush_tables :: "'d moe_layer \<Rightarrow> 'd moe_layer" where
  "flush_tables l =
     l\<lparr>ml_gpu_table := map (\<lambda>e. if ml_expert_slot l ! e \<ge> 0 then ml_expert_slot l ! e else LLAMA_EXPERT_SLOT_SKIP) [0..<ml_n_expert l],
       ml_cpu_table := map (\<lambda>e. if ml_expert_slot l ! e \<ge> 0 then LLAMA_EXPERT_SLOT_SKIP else int e) [0..<ml_n_expert l]\<rparr>"

definition create_layer :: "moe_params \<Rightarrow> nat \<Rightarrow> nat \<Rightarrow> 'd \<times> 'd \<times> 'd \<Rightarrow> 'd \<times> 'd \<times> 'd \<Rightarrow> nat \<times> 'd moe_source \<Rightarrow> ('d \<times> 'd \<times> 'd) moe_layer" where
  "create_layer mp n_expert n_slots garbage zero c =
     flush_tables (fold (\<lambda>e. fill_slot e e) [0..<nat (min (mp_static_fill mp) (int n_slots))] (alloc_layer mp n_expert n_slots garbage zero c))"

text \<open>\<open>alloc_ok\<close>: the pool of a layer could be allocated and its upload backend initialised.\<close>

definition moe_create :: "moe_params \<Rightarrow> nat \<Rightarrow> nat option \<Rightarrow> (nat \<Rightarrow> bool) \<Rightarrow> 'd \<times> 'd \<times> 'd \<Rightarrow> 'd \<times> 'd \<times> 'd \<Rightarrow> 'd moe_source list \<Rightarrow> ('d \<times> 'd \<times> 'd) moe_cache option" where
  "moe_create mp n_expert free_mem alloc_ok garbage zero ms =
     (if mp_budget_mib mp = 0 \<or> n_expert = 0 then None
      else case moe_candidates n_expert mp 0 ms of
             None \<Rightarrow> None
           | Some cands \<Rightarrow>
               if cands = [] then None
               else (case moe_budget mp free_mem of
                       None \<Rightarrow> None
                     | Some budget \<Rightarrow>
                         let per_layer = budget div length cands;
                             slots = (\<lambda>c. moe_n_slots per_layer (ms_slab (snd c)) n_expert);
                             layers = map (\<lambda>c. create_layer mp n_expert (slots c) garbage zero c)
                                        (filter (\<lambda>c. int (slots c) \<ge> mp_min_slots mp \<and> alloc_ok (fst c)) cands)
                         in if layers = [] then None
                            else Some \<lparr>mc_params = mp, mc_layers = layers, mc_todo = [], mc_batch = [], mc_done = [], mc_n_steps = 0,
                                       mc_n_hits = 0, mc_n_misses = 0, mc_n_fills = 0, mc_n_evict = 0, mc_n_obs_dropped = 0\<rparr>))"

section \<open>Observations\<close>

fun find_il :: "int \<Rightarrow> 'd moe_layer list \<Rightarrow> nat option" where
  "find_il il [] = None"
| "find_il il (l # ls) = (if ml_il l = il then Some 0 else map_option Suc (find_il il ls))"

text \<open>The routed ids of a graph: the layer, whether the scheduler has a backend for the tensor, the ids.\<close>

definition observe_one :: "int \<times> bool \<times> int list \<Rightarrow> 'd moe_cache \<Rightarrow> 'd moe_cache" where
  "observe_one = (\<lambda>(il, has_backend, ids) mc.
     case find_il il (mc_layers mc) of
       None \<Rightarrow> mc
     | Some i \<Rightarrow>
         let l = mc_layers mc ! i
         in if length (ml_obs l) + length ids > ml_obs_cap l \<or> \<not> has_backend then mc\<lparr>mc_n_obs_dropped := mc_n_obs_dropped mc + 1\<rparr>
            else mc\<lparr>mc_layers := (mc_layers mc)[i := l\<lparr>ml_obs := ml_obs l @ ids\<rparr>]\<rparr>)"

definition moe_observe :: "(int \<times> bool \<times> int list) list \<Rightarrow> 'd moe_cache \<Rightarrow> 'd moe_cache" where
  "moe_observe ids mc = fold observe_one ids mc"

section \<open>The step\<close>

text \<open>Publication of one finished upload.\<close>

definition publish_layer :: "nat \<Rightarrow> nat \<Rightarrow> nat \<Rightarrow> 'd moe_layer \<Rightarrow> 'd moe_layer" where
  "publish_layer n_steps e s l =
     (set_resident e s l)
       \<lparr>ml_slot_in_flight := (ml_slot_in_flight l)[s := False], ml_expert_pending := (ml_expert_pending l)[e := False],
        ml_slot_last_use := (ml_slot_last_use l)[s := n_steps], ml_slot_hits := (ml_slot_hits l)[s := 0],
        ml_miss_count := (ml_miss_count l)[e := 0]\<rparr>"

definition publish_job :: "nat \<Rightarrow> moe_job \<Rightarrow> 'd moe_layer list \<Rightarrow> 'd moe_layer list" where
  "publish_job n_steps j ls = ls[mj_layer j := publish_layer n_steps (mj_expert j) (mj_slot j) (ls ! mj_layer j)]"

text \<open>One observed id: the layer, the candidates of the layer, hits and misses.\<close>

definition consume_id :: "nat \<Rightarrow> int \<Rightarrow> 'd moe_layer \<times> nat list \<times> nat \<times> nat \<Rightarrow> 'd moe_layer \<times> nat list \<times> nat \<times> nat" where
  "consume_id n_steps e = (\<lambda>(l, cand, hits, misses).
     if e < 0 \<or> e \<ge> int (ml_n_expert l) then (l, cand, hits, misses)
     else
       let s = ml_expert_slot l ! nat e
       in if s \<ge> 0 then
            (l\<lparr>ml_slot_last_use := (ml_slot_last_use l)[nat s := n_steps],
               ml_slot_hits := (if ml_slot_hits l ! nat s < UINT16_MAX then (ml_slot_hits l)[nat s := ml_slot_hits l ! nat s + 1] else ml_slot_hits l)\<rparr>,
             cand, hits + 1, misses)
          else
            (l\<lparr>ml_miss_count := (if ml_miss_count l ! nat e < UINT16_MAX then (ml_miss_count l)[nat e := ml_miss_count l ! nat e + 1] else ml_miss_count l)\<rparr>,
             if \<not> ml_expert_pending l ! nat e \<and> nat e \<notin> set cand then cand @ [nat e] else cand, hits, misses + 1))"

text \<open>
  The observations of a layer; the candidates most demanded first. The order of equal demands, which
  \<open>std::sort\<close> leaves open, is that of the first miss here.
\<close>

definition consume_layer :: "nat \<Rightarrow> 'd moe_layer \<Rightarrow> 'd moe_layer \<times> nat list \<times> nat \<times> nat" where
  "consume_layer n_steps l =
     (case fold (consume_id n_steps) (ml_obs l) (l, [], 0, 0) of
        (l, cand, hits, misses) \<Rightarrow>
          let l = l\<lparr>ml_obs := []\<rparr>;
              l = (if n_steps mod 64 = 0 then l\<lparr>ml_slot_hits := map (\<lambda>h. h div 2) (ml_slot_hits l)\<rparr> else l)
          in (l, sort_key (\<lambda>e. - int (ml_miss_count l ! e)) cand, hits, misses))"

text \<open>The first free slot, and the victim among the slots in use.\<close>

definition free_slot :: "'d moe_layer \<Rightarrow> nat option" where
  "free_slot l = List.find (\<lambda>s. ml_slot_expert l ! s < 0 \<and> \<not> ml_slot_in_flight l ! s) [0..<ml_n_slots l]"

definition older :: "nat \<Rightarrow> nat \<Rightarrow> (nat \<times> nat) option \<Rightarrow> (nat \<times> nat) option" where
  "older t s best = (case best of None \<Rightarrow> (if t < UINT64_MAX then Some (t, s) else None) | Some (t', s') \<Rightarrow> if t < t' then Some (t, s) else Some (t', s'))"

definition scan_slot :: "moe_params \<Rightarrow> nat \<Rightarrow> 'd moe_layer \<Rightarrow> nat \<Rightarrow> (nat \<times> nat) option \<times> (nat \<times> nat) option \<Rightarrow> (nat \<times> nat) option \<times> (nat \<times> nat) option" where
  "scan_slot mp n_steps l s = (\<lambda>(cold, any).
     if ml_slot_in_flight l ! s \<or> ml_slot_last_use l ! s = n_steps then (cold, any)
     else (if int (ml_slot_hits l ! s) \<le> mp_hot_uses mp then older (ml_slot_last_use l ! s) s cold else cold,
           older (ml_slot_last_use l ! s) s any))"

definition victim_slot :: "moe_params \<Rightarrow> nat \<Rightarrow> 'd moe_layer \<Rightarrow> nat option" where
  "victim_slot mp n_steps l =
     (case fold (scan_slot mp n_steps l) [0..<ml_n_slots l] (None, None) of
        (cold, any) \<Rightarrow> map_option snd (if cold \<noteq> None then cold else any))"

definition evict_slot :: "nat \<Rightarrow> 'd moe_layer \<Rightarrow> 'd moe_layer" where
  "evict_slot s l = l\<lparr>ml_expert_slot := (ml_expert_slot l)[nat (ml_slot_expert l ! s) := -1], ml_slot_expert := (ml_slot_expert l)[s := -1]\<rparr>"

definition start_upload :: "nat \<Rightarrow> nat \<Rightarrow> 'd moe_layer \<Rightarrow> 'd moe_layer" where
  "start_upload e s l = l\<lparr>ml_slot_in_flight := (ml_slot_in_flight l)[s := True], ml_expert_pending := (ml_expert_pending l)[e := True]\<rparr>"

text \<open>
  The loop over the candidates of a layer in one round: the layer, the candidates left, the slot and
  expert of the upload if one is scheduled, and whether a slot was evicted.
\<close>

fun admit :: "moe_params \<Rightarrow> nat \<Rightarrow> 'd moe_layer \<Rightarrow> nat list \<Rightarrow> 'd moe_layer \<times> nat list \<times> (nat \<times> nat) option \<times> bool" where
  "admit mp n_steps l [] = (l, [], None, False)"
| "admit mp n_steps l (e # cand) =
     (case free_slot l of
        Some s \<Rightarrow> (start_upload e s l, cand, Some (e, s), False)
      | None \<Rightarrow>
          if ml_miss_count l ! e < 2 then admit mp n_steps l cand
          else (case victim_slot mp n_steps l of
                  None \<Rightarrow> (l, [], None, False)
                | Some s \<Rightarrow> (start_upload e s (evict_slot s l), cand, Some (e, s), True)))"

record 'd sched_state =
  ss_layers :: "'d moe_layer list"
  ss_cands :: "nat list list"
  ss_dirty :: "bool list"
  ss_bytes :: nat
  ss_jobs :: "moe_job list"
  ss_evict :: nat

definition sched_layer :: "moe_params \<Rightarrow> nat \<Rightarrow> nat \<Rightarrow> 'd sched_state \<Rightarrow> 'd sched_state" where
  "sched_layer mp n_steps i ss =
     (case admit mp n_steps (ss_layers ss ! i) (ss_cands ss ! i) of
        (l, cand, job, evicted) \<Rightarrow>
          ss\<lparr>ss_layers := (ss_layers ss)[i := l], ss_cands := (ss_cands ss)[i := cand],
             ss_dirty := (if evicted then (ss_dirty ss)[i := True] else ss_dirty ss),
             ss_evict := ss_evict ss + (if evicted then 1 else 0),
             ss_bytes := ss_bytes ss + (if job = None then 0 else ml_slab l),
             ss_jobs := ss_jobs ss @ (case job of None \<Rightarrow> [] | Some (e, s) \<Rightarrow> [\<lparr>mj_layer = i, mj_expert = e, mj_slot = s\<rparr>])\<rparr>)"

fun sched_round :: "moe_params \<Rightarrow> nat \<Rightarrow> nat \<Rightarrow> nat list \<Rightarrow> 'd sched_state \<Rightarrow> 'd sched_state" where
  "sched_round mp n_steps step_cap [] ss = ss"
| "sched_round mp n_steps step_cap (i # is) ss =
     (if ss_bytes ss \<ge> step_cap then ss
      else if ss_bytes ss + ml_slab (ss_layers ss ! i) > step_cap then ss
      else sched_round mp n_steps step_cap is (sched_layer mp n_steps i ss))"

fun sched_rounds :: "nat \<Rightarrow> moe_params \<Rightarrow> nat \<Rightarrow> nat \<Rightarrow> 'd sched_state \<Rightarrow> 'd sched_state" where
  "sched_rounds 0 mp n_steps step_cap ss = ss"
| "sched_rounds (Suc r) mp n_steps step_cap ss =
     (if ss_bytes ss \<ge> step_cap then ss
      else sched_rounds r mp n_steps step_cap (sched_round mp n_steps step_cap [0..<length (ss_layers ss)] ss))"

text \<open>The first two parts of a step: the finished uploads are published, then the observations consumed.\<close>

definition step_observed :: "nat \<Rightarrow> 'd moe_cache \<Rightarrow> ('d moe_layer \<times> nat list \<times> nat \<times> nat) list" where
  "step_observed n_steps mc = map (consume_layer n_steps) (fold (publish_job n_steps) (mc_done mc) (mc_layers mc))"

text \<open>The uploads are scheduled round-robin over the layers, within the bytes of a step.\<close>

definition step_cap :: "moe_params \<Rightarrow> nat" where
  "step_cap mp = size_of_int (mp_step_mib mp) * 1024 * 1024 mod 2 ^ 64"

definition step_schedule :: "nat \<Rightarrow> 'd moe_cache \<Rightarrow> 'd sched_state" where
  "step_schedule n_steps mc =
     sched_rounds (nat (mp_inserts (mc_params mc))) (mc_params mc) n_steps (step_cap (mc_params mc))
       \<lparr>ss_layers = map fst (step_observed n_steps mc), ss_cands = map (\<lambda>c. fst (snd c)) (step_observed n_steps mc),
        ss_dirty = map (\<lambda>i. \<exists>j \<in> set (mc_done mc). mj_layer j = i) [0..<length (mc_layers mc)], ss_bytes = 0, ss_jobs = [], ss_evict = 0\<rparr>"

definition flush_dirty :: "'d sched_state \<Rightarrow> 'd moe_layer list" where
  "flush_dirty ss = map (\<lambda>i. if ss_dirty ss ! i then flush_tables (ss_layers ss ! i) else ss_layers ss ! i) [0..<length (ss_layers ss)]"

text \<open>A step without its logging: the tables of the changed layers are written, then the uploads handed over.\<close>

definition step_clock :: "'d moe_cache \<Rightarrow> nat" where
  "step_clock mc = (mc_n_steps mc + 1) mod 2 ^ 64"

definition moe_step :: "'d moe_cache \<Rightarrow> 'd moe_cache" where
  "moe_step mc =
     (let obs = step_observed (step_clock mc) mc; ss = step_schedule (step_clock mc) mc
      in mc\<lparr>mc_n_steps := step_clock mc, mc_done := [], mc_layers := flush_dirty ss, mc_todo := mc_todo mc @ ss_jobs ss,
            mc_n_hits := mc_n_hits mc + sum_list (map (\<lambda>c. fst (snd (snd c))) obs),
            mc_n_misses := mc_n_misses mc + sum_list (map (\<lambda>c. snd (snd (snd c))) obs),
            mc_n_fills := mc_n_fills mc + length (mc_done mc), mc_n_evict := mc_n_evict mc + ss_evict ss\<rparr>)"

section \<open>The worker\<close>

definition worker_take :: "'d moe_cache \<Rightarrow> 'd moe_cache" where
  "worker_take mc = mc\<lparr>mc_batch := mc_todo mc, mc_todo := []\<rparr>"

text \<open>While a copy runs its slot has any contents; after the synchronisation those of the expert.\<close>

definition worker_torn :: "moe_job \<Rightarrow> 'd \<Rightarrow> 'd moe_cache \<Rightarrow> 'd moe_cache" where
  "worker_torn j d mc = mc\<lparr>mc_layers := (mc_layers mc)[mj_layer j := (mc_layers mc ! mj_layer j)\<lparr>ml_pool := (ml_pool (mc_layers mc ! mj_layer j))[mj_slot j := d]\<rparr>]\<rparr>"

definition copy_job :: "moe_job \<Rightarrow> 'd moe_layer list \<Rightarrow> 'd moe_layer list" where
  "copy_job j ls = ls[mj_layer j := copy_slot (mj_expert j) (mj_slot j) (ls ! mj_layer j)]"

definition worker_finish :: "'d moe_cache \<Rightarrow> 'd moe_cache" where
  "worker_finish mc = mc\<lparr>mc_layers := fold copy_job (mc_batch mc) (mc_layers mc), mc_batch := [], mc_done := mc_done mc @ mc_batch mc\<rparr>"

section \<open>The graph\<close>

text \<open>
  One lane of the graph, routed to expert \<open>e\<close>: the ids of both chains through the tables, each chain
  on its own tensors, the two outputs added. \<open>ffn\<close> is the feed-forward of an expert on the
  input of the lane; a negative id leaves the lane of a chain zero.
\<close>

definition chain_out :: "('d \<Rightarrow> 'x :: monoid_add) \<Rightarrow> 'd list \<Rightarrow> int \<Rightarrow> 'x" where
  "chain_out ffn ws i = (if i < 0 then 0 else ffn (ws ! nat i))"

definition moe_lane :: "('d \<Rightarrow> 'x :: monoid_add) \<Rightarrow> 'd moe_layer \<Rightarrow> nat \<Rightarrow> 'x" where
  "moe_lane ffn l e = chain_out ffn (ml_src l) (ml_cpu_table l ! e) + chain_out ffn (ml_pool l) (ml_gpu_table l ! e)"

section \<open>Executions\<close>

text \<open>
  The cache and whether a graph is in flight. The main thread runs graphs and observes their ids when
  they have been synchronised, and steps only between graphs; the worker runs at any time.
\<close>

inductive moe_trans :: "'d moe_cache \<times> bool \<Rightarrow> 'd moe_cache \<times> bool \<Rightarrow> bool" where
  graph_start: "moe_trans (mc, False) (mc, True)"
| graph_end: "moe_trans (mc, True) (moe_observe ids mc, False)"
| main_step: "moe_trans (mc, False) (moe_step mc, False)"
| take: "mc_batch mc = [] \<Longrightarrow> mc_todo mc \<noteq> [] \<Longrightarrow> moe_trans (mc, g) (worker_take mc, g)"
| torn: "j \<in> set (mc_batch mc) \<Longrightarrow> moe_trans (mc, g) (worker_torn j d mc, g)"
| finish: "mc_batch mc \<noteq> [] \<Longrightarrow> moe_trans (mc, g) (worker_finish mc, g)"

definition moe_reach :: "'d moe_cache \<Rightarrow> 'd moe_cache \<times> bool \<Rightarrow> bool" where
  "moe_reach mc0 st \<longleftrightarrow> moe_trans\<^sup>*\<^sup>* (mc0, False) st"

end
