(* ===== verification/Moe_Layer.thy ===== *)
theory Moe_Layer
  imports Moe_Cache
begin

text \<open>
  The invariant of one layer of the cache of routed experts: every operation of the step and of the worker keeps it.
\<close>

section \<open>Uploads of a layer\<close>

definition jobs_on :: "nat \<Rightarrow> moe_job list \<Rightarrow> (nat \<times> nat) list" where
  "jobs_on i js = map (\<lambda>j. (mj_expert j, mj_slot j)) (filter (\<lambda>j. mj_layer j = i) js)"

lemma jobs_on_simps [simp]:
  "jobs_on i [] = []"
  "jobs_on i (j # js) = (if mj_layer j = i then (mj_expert j, mj_slot j) # jobs_on i js else jobs_on i js)"
  "jobs_on i (js @ ks) = jobs_on i js @ jobs_on i ks"
  by (auto simp: jobs_on_def)

lemma jobs_on_mem: "j \<in> set js \<Longrightarrow> mj_layer j = i \<Longrightarrow> (mj_expert j, mj_slot j) \<in> set (jobs_on i js)"
  by (auto simp: jobs_on_def)

section \<open>The invariant of a layer\<close>

definition moe_shape :: "'d moe_layer \<Rightarrow> bool" where
  "moe_shape l \<longleftrightarrow> length (ml_src l) = ml_n_expert l \<and> length (ml_pool l) = ml_n_slots l + 1 \<and>
     length (ml_slot_expert l) = ml_n_slots l \<and> length (ml_expert_slot l) = ml_n_expert l \<and>
     length (ml_slot_last_use l) = ml_n_slots l \<and> length (ml_slot_hits l) = ml_n_slots l \<and>
     length (ml_slot_in_flight l) = ml_n_slots l \<and> length (ml_miss_count l) = ml_n_expert l \<and>
     length (ml_expert_pending l) = ml_n_expert l"

text \<open>The two maps of residency are inverse to each other.\<close>

definition moe_links :: "'d moe_layer \<Rightarrow> bool" where
  "moe_links l \<longleftrightarrow>
     (\<forall>s < ml_n_slots l. ml_slot_expert l ! s = -1 \<or> (\<exists>e < ml_n_expert l. ml_slot_expert l ! s = int e)) \<and>
     (\<forall>e < ml_n_expert l. ml_expert_slot l ! e = -1 \<or> (\<exists>s < ml_n_slots l. ml_expert_slot l ! e = int s)) \<and>
     (\<forall>s < ml_n_slots l. \<forall>e < ml_n_expert l. ml_slot_expert l ! s = int e \<longleftrightarrow> ml_expert_slot l ! e = int s)"

definition moe_contents :: "'d moe_layer \<Rightarrow> bool" where
  "moe_contents l \<longleftrightarrow> (\<forall>e < ml_n_expert l. \<forall>s < ml_n_slots l. ml_expert_slot l ! e = int s \<longrightarrow> ml_pool l ! s = ml_src l ! e)"

text \<open>The uploads \<open>J\<close> under way: distinct experts, none resident, into distinct slots, none in use.\<close>

definition moe_uploads :: "'d moe_layer \<Rightarrow> (nat \<times> nat) list \<Rightarrow> bool" where
  "moe_uploads l J \<longleftrightarrow> distinct (map fst J) \<and> distinct (map snd J) \<and>
     (\<forall>(e, s) \<in> set J. e < ml_n_expert l \<and> s < ml_n_slots l \<and> ml_slot_expert l ! s = -1 \<and> ml_expert_slot l ! e = -1) \<and>
     (\<forall>s < ml_n_slots l. ml_slot_in_flight l ! s \<longleftrightarrow> s \<in> snd ` set J) \<and>
     (\<forall>e < ml_n_expert l. ml_expert_pending l ! e \<longleftrightarrow> e \<in> fst ` set J)"

definition moe_copied :: "'d moe_layer \<Rightarrow> (nat \<times> nat) list \<Rightarrow> bool" where
  "moe_copied l D \<longleftrightarrow> (\<forall>(e, s) \<in> set D. ml_pool l ! s = ml_src l ! e)"

text \<open>A layer whose uploads are \<open>D\<close>, copied and not yet published, and \<open>R\<close>, not yet copied.\<close>

definition layer_inv :: "'d moe_layer \<Rightarrow> (nat \<times> nat) list \<Rightarrow> (nat \<times> nat) list \<Rightarrow> bool" where
  "layer_inv l D R \<longleftrightarrow> moe_shape l \<and> moe_links l \<and> moe_contents l \<and> moe_uploads l (D @ R) \<and> moe_copied l D"

lemmas layer_inv_defs = layer_inv_def moe_shape_def moe_links_def moe_contents_def moe_uploads_def moe_copied_def

text \<open>What the invariant of a layer reads of it.\<close>

definition moe_core :: "'d moe_layer \<Rightarrow> nat \<times> nat \<times> 'd list \<times> 'd list \<times> int list \<times> int list \<times> bool list \<times> bool list \<times> nat \<times> nat \<times> nat" where
  "moe_core l = (ml_n_expert l, ml_n_slots l, ml_src l, ml_pool l, ml_slot_expert l, ml_expert_slot l,
     ml_slot_in_flight l, ml_expert_pending l, length (ml_slot_last_use l), length (ml_slot_hits l), length (ml_miss_count l))"

lemma layer_inv_core: "moe_core l' = moe_core l \<Longrightarrow> layer_inv l' D R = layer_inv l D R"
  by (simp add: layer_inv_defs moe_core_def)

lemma links_iff:
  "moe_links l \<Longrightarrow> s < ml_n_slots l \<Longrightarrow> e < ml_n_expert l \<Longrightarrow> ml_slot_expert l ! s = int e \<longleftrightarrow> ml_expert_slot l ! e = int s"
  by (simp add: moe_links_def)

lemma links_range:
  "moe_links l \<Longrightarrow> s < ml_n_slots l \<Longrightarrow> ml_slot_expert l ! s = -1 \<or> (\<exists>e < ml_n_expert l. ml_slot_expert l ! s = int e)"
  "moe_links l \<Longrightarrow> e < ml_n_expert l \<Longrightarrow> ml_expert_slot l ! e = -1 \<or> (\<exists>s < ml_n_slots l. ml_expert_slot l ! e = int s)"
  by (simp_all add: moe_links_def)

text \<open>The links after a write of both maps.\<close>

lemma links_write:
  assumes "moe_links l" "moe_shape l" "ml_n_slots l' = ml_n_slots l" "ml_n_expert l' = ml_n_expert l" "s < ml_n_slots l" "e < ml_n_expert l"
    and w: "ml_slot_expert l' = (ml_slot_expert l)[s := x]" "ml_expert_slot l' = (ml_expert_slot l)[e := y]"
    and xy: "x = -1 \<and> y = -1 \<and> ml_slot_expert l ! s = int e \<or> x = int e \<and> y = int s \<and> ml_slot_expert l ! s = -1 \<and> ml_expert_slot l ! e = -1"
  shows "moe_links l'"
proof -
  have len: "length (ml_slot_expert l) = ml_n_slots l" "length (ml_expert_slot l) = ml_n_expert l" using assms(2) by (simp_all add: moe_shape_def)
  have iff: "ml_slot_expert l' ! s' = int e' \<longleftrightarrow> ml_expert_slot l' ! e' = int s'" if "s' < ml_n_slots l" "e' < ml_n_expert l" for s' e'
  proof -
    note k = links_iff [OF assms(1) that] links_iff [OF assms(1,5) that(2)] links_iff [OF assms(1) that(1) assms(6)] links_iff [OF assms(1,5,6)]
    show ?thesis using that xy k unfolding w
      by (cases "s' = s"; cases "e' = e") (auto simp: len nth_list_update')
  qed
  have "ml_slot_expert l' ! s' = -1 \<or> (\<exists>e' < ml_n_expert l. ml_slot_expert l' ! s' = int e')" if "s' < ml_n_slots l" for s'
    using links_range(1) [OF assms(1) that] xy assms(5,6) unfolding w by (auto simp: len nth_list_update')
  moreover have "ml_expert_slot l' ! e' = -1 \<or> (\<exists>s' < ml_n_slots l. ml_expert_slot l' ! e' = int s')" if "e' < ml_n_expert l" for e'
    using links_range(2) [OF assms(1) that] xy assms(5,6) unfolding w by (auto simp: len nth_list_update')
  ultimately show ?thesis using iff unfolding moe_links_def assms(3,4) by blast
qed

lemma in_snd: "(a, b) \<in> S \<Longrightarrow> b \<in> snd ` S"
  by force

lemma in_fst: "(a, b) \<in> S \<Longrightarrow> a \<in> fst ` S"
  by force

section \<open>The operations on one layer\<close>

lemma publish_layer_inv:
  assumes "layer_inv l ((e, s) # D) R"
  shows "layer_inv (publish_layer n e s l) D R"
proof -
  have r: "e < ml_n_expert l" "s < ml_n_slots l" "ml_slot_expert l ! s = -1" "ml_expert_slot l ! e = -1" "ml_pool l ! s = ml_src l ! e"
    "e \<notin> fst ` set (D @ R)" "s \<notin> snd ` set (D @ R)"
    using assms by (auto simp: layer_inv_defs)
  have sh: "moe_shape l" and li: "moe_links l" and co: "moe_contents l" and up: "moe_uploads l ((e, s) # D @ R)" and cp: "moe_copied l ((e, s) # D)"
    using assms by (auto simp: layer_inv_def)
  let ?l = "publish_layer n e s l"
  have "moe_shape ?l" using sh r by (simp add: publish_layer_def set_resident_def Let_def moe_shape_def)
  moreover have "moe_links ?l"
    by (rule links_write [OF li sh, of _ s e "int e" "int s"]) (use r in \<open>simp_all add: publish_layer_def set_resident_def Let_def\<close>)
  moreover have "moe_contents ?l" using sh co r links_range(2) [OF li]
    by (auto simp: publish_layer_def set_resident_def Let_def moe_contents_def moe_shape_def nth_list_update')
  moreover have "moe_uploads ?l (D @ R)" using sh up r
    by (auto simp: publish_layer_def set_resident_def Let_def moe_uploads_def moe_shape_def nth_list_update' dest: in_fst in_snd)
  moreover have "moe_copied ?l D" using cp by (auto simp: moe_copied_def publish_layer_def set_resident_def Let_def)
  ultimately show ?thesis by (simp add: layer_inv_def)
qed

lemma copy_slot_inv:
  assumes "layer_inv l D ((e, s) # R)"
  shows "layer_inv (copy_slot e s l) (D @ [(e, s)]) R"
proof -
  have s: "s < length (ml_pool l)" "s \<notin> snd ` set D" using assms by (auto simp: layer_inv_defs)
  then have "moe_copied (copy_slot e s l) (D @ [(e, s)])"
    using assms by (auto simp: layer_inv_def moe_copied_def copy_slot_def nth_list_update' dest: in_snd)
  moreover have "moe_contents (copy_slot e s l)"
    using assms by (auto simp: layer_inv_defs copy_slot_def nth_list_update')
  moreover have "moe_shape (copy_slot e s l) \<and> moe_links (copy_slot e s l) \<and> moe_uploads (copy_slot e s l) (D @ (e, s) # R)"
    using assms by (simp add: layer_inv_def moe_shape_def moe_links_def moe_uploads_def copy_slot_def)
  ultimately show ?thesis by (simp add: layer_inv_def)
qed

lemma torn_slot_inv:
  assumes "layer_inv l D R" "(e, s) \<in> set R"
  shows "layer_inv (l\<lparr>ml_pool := (ml_pool l)[s := d]\<rparr>) D R"
proof -
  have "s \<in> snd ` set R" using assms by (auto dest: in_snd)
  then have s: "s \<notin> snd ` set D" using assms by (auto simp: layer_inv_def moe_uploads_def)
  have s': "ml_slot_expert l ! s = -1" "s < ml_n_slots l" using assms by (auto simp: layer_inv_def moe_uploads_def)
  have "(a, s) \<notin> set D" for a using s in_snd by metis
  then have "moe_copied (l\<lparr>ml_pool := (ml_pool l)[s := d]\<rparr>) D"
    using assms by (auto simp: layer_inv_def moe_copied_def nth_list_update' dest: in_snd)
  moreover have "moe_contents (l\<lparr>ml_pool := (ml_pool l)[s := d]\<rparr>)"
    using assms s' by (auto simp: layer_inv_def moe_contents_def moe_links_def nth_list_update')
  ultimately show ?thesis using assms
    by (simp add: layer_inv_def moe_shape_def moe_links_def moe_uploads_def)
qed

lemma evict_slot_inv:
  assumes "layer_inv l D R" "s < ml_n_slots l" "ml_slot_expert l ! s = int e"
  shows "layer_inv (evict_slot s l) D R"
proof -
  have sh: "moe_shape l" and li: "moe_links l" and co: "moe_contents l" and up: "moe_uploads l (D @ R)" and cp: "moe_copied l D"
    using assms(1) by (auto simp: layer_inv_def)
  have r: "e < ml_n_expert l" "ml_expert_slot l ! e = int s" using li assms(2,3) by (auto simp: moe_links_def)
  let ?l = "evict_slot s l"
  have ev: "ml_slot_expert ?l = (ml_slot_expert l)[s := -1]" "ml_expert_slot ?l = (ml_expert_slot l)[e := -1]"
    "ml_n_slots ?l = ml_n_slots l" "ml_n_expert ?l = ml_n_expert l"
    using assms(3) by (simp_all add: evict_slot_def)
  have "moe_links ?l" by (rule links_write [OF li sh ev(3,4) assms(2) r(1) ev(1,2)]) (simp add: assms(3))
  moreover have "moe_shape ?l" using sh by (simp add: evict_slot_def moe_shape_def)
  moreover have "moe_contents ?l" using sh co by (auto simp: evict_slot_def moe_contents_def moe_shape_def nth_list_update')
  moreover have "moe_uploads ?l (D @ R)" using sh up r assms(2,3)
    by (auto simp: evict_slot_def moe_uploads_def moe_shape_def nth_list_update')
  moreover have "moe_copied ?l D" using cp by (simp add: moe_copied_def evict_slot_def)
  ultimately show ?thesis by (simp add: layer_inv_def)
qed

lemma uploads_fresh:
  "moe_uploads l J \<Longrightarrow> s < ml_n_slots l \<Longrightarrow> \<not> ml_slot_in_flight l ! s \<Longrightarrow> s \<notin> snd ` set J"
  "moe_uploads l J \<Longrightarrow> e < ml_n_expert l \<Longrightarrow> \<not> ml_expert_pending l ! e \<Longrightarrow> e \<notin> fst ` set J"
  by (simp_all add: moe_uploads_def)

lemma start_upload_inv:
  assumes "layer_inv l D R" "s < ml_n_slots l" "e < ml_n_expert l" "ml_slot_expert l ! s = -1" "ml_expert_slot l ! e = -1"
    "\<not> ml_slot_in_flight l ! s" "\<not> ml_expert_pending l ! e"
  shows "layer_inv (start_upload e s l) D (R @ [(e, s)])"
proof -
  have sh: "moe_shape l" and li: "moe_links l" and co: "moe_contents l" and up: "moe_uploads l (D @ R)" and cp: "moe_copied l D"
    using assms(1) by (auto simp: layer_inv_def)
  have f: "s \<notin> snd ` set (D @ R)" "e \<notin> fst ` set (D @ R)" using uploads_fresh up assms by blast+
  have "moe_shape (start_upload e s l) \<and> moe_links (start_upload e s l) \<and> moe_contents (start_upload e s l) \<and> moe_copied (start_upload e s l) D"
    using sh li co cp by (simp add: start_upload_def moe_shape_def moe_links_def moe_contents_def moe_copied_def)
  moreover have "moe_uploads (start_upload e s l) (D @ R @ [(e, s)])"
    using sh up f assms(2-) by (auto simp: start_upload_def moe_uploads_def moe_shape_def nth_list_update' dest: in_snd in_fst)
  ultimately show ?thesis by (simp add: layer_inv_def)
qed

lemma flush_tables_core [simp]: "moe_core (flush_tables l) = moe_core l"
  by (simp add: moe_core_def flush_tables_def)

lemma flush_tables_idem [simp]: "flush_tables (flush_tables l) = flush_tables l"
  by (simp add: flush_tables_def)

end
