(* ===== verification/Moe_Inv.thy ===== *)
theory Moe_Inv
  imports Moe_Layer
begin

text \<open>
  The invariant of the cache of routed experts, and its preservation by the step, by the worker and by
  the observations.
\<close>

section \<open>The invariant of the cache\<close>

definition layers_inv :: "'d moe_layer list \<Rightarrow> moe_job list \<Rightarrow> moe_job list \<Rightarrow> bool" where
  "layers_inv ls D R \<longleftrightarrow> (\<forall>j \<in> set (D @ R). mj_layer j < length ls) \<and>
     (\<forall>i < length ls. layer_inv (ls ! i) (jobs_on i D) (jobs_on i R))"

definition tables_ok :: "'d moe_layer \<Rightarrow> bool" where
  "tables_ok l \<longleftrightarrow> flush_tables l = l"

definition moe_inv :: "'d moe_cache \<Rightarrow> bool" where
  "moe_inv mc \<longleftrightarrow> layers_inv (mc_layers mc) (mc_done mc) (mc_batch mc @ mc_todo mc) \<and> list_all tables_ok (mc_layers mc)"

text \<open>What no operation changes, and the tables.\<close>

definition moe_static :: "'d moe_layer \<Rightarrow> int \<times> nat \<times> nat \<times> nat \<times> 'd list" where
  "moe_static l = (ml_il l, ml_n_expert l, ml_n_slots l, ml_slab l, ml_src l)"

definition moe_tabs :: "'d moe_layer \<Rightarrow> nat \<times> int list \<times> int list \<times> int list" where
  "moe_tabs l = (ml_n_expert l, ml_expert_slot l, ml_gpu_table l, ml_cpu_table l)"

lemma tables_ok_iff:
  "tables_ok l \<longleftrightarrow> ml_gpu_table l = map (\<lambda>e. if ml_expert_slot l ! e \<ge> 0 then ml_expert_slot l ! e else LLAMA_EXPERT_SLOT_SKIP) [0..<ml_n_expert l] \<and>
     ml_cpu_table l = map (\<lambda>e. if ml_expert_slot l ! e \<ge> 0 then LLAMA_EXPERT_SLOT_SKIP else int e) [0..<ml_n_expert l]"
  by (cases l) (auto simp: tables_ok_def flush_tables_def)

lemma tables_ok_cong: "moe_tabs l = moe_tabs l' \<Longrightarrow> tables_ok l = tables_ok l'"
proof -
  assume "moe_tabs l = moe_tabs l'"
  then have "ml_n_expert l = ml_n_expert l'" "ml_expert_slot l = ml_expert_slot l'" "ml_gpu_table l = ml_gpu_table l'" "ml_cpu_table l = ml_cpu_table l'"
    by (simp_all add: moe_tabs_def)
  then show ?thesis unfolding tables_ok_iff by (simp only:)
qed

lemma tables_ok_flush [simp]: "tables_ok (flush_tables l)"
  by (simp add: tables_ok_def)

lemma flush_layer_inv [simp]: "layer_inv (flush_tables l) D R = layer_inv l D R"
  by (rule layer_inv_core) simp

lemma flush_tables_static [simp]: "moe_static (flush_tables l) = moe_static l"
  by (simp add: moe_static_def flush_tables_def)

lemma map_update_same: "f x = f (xs ! i) \<Longrightarrow> map f (xs[i := x]) = map f xs"
  by (cases "i < length xs") (simp_all add: map_update list_update_same_conv list_update_beyond)

section \<open>Publication and copies\<close>

lemma publish_job_inv:
  assumes "layers_inv ls (j # D) R"
  shows "layers_inv (publish_job n j ls) D R"
proof -
  have "layer_inv (publish_job n j ls ! i) (jobs_on i D) (jobs_on i R)" if "i < length ls" for i
    using assms that publish_layer_inv [of "ls ! i" "mj_expert j" "mj_slot j"]
    by (cases "mj_layer j = i") (auto simp: layers_inv_def publish_job_def)
  with assms show ?thesis by (auto simp: layers_inv_def publish_job_def)
qed

lemma publish_all_inv: "layers_inv ls D R \<Longrightarrow> layers_inv (fold (publish_job n) D ls) [] R"
  by (induction D arbitrary: ls) (auto dest: publish_job_inv)

lemma publish_job_simps [simp]:
  "length (publish_job n j ls) = length ls"
  "mj_layer j \<noteq> i \<Longrightarrow> publish_job n j ls ! i = ls ! i"
  "map moe_static (publish_job n j ls) = map moe_static ls"
  by (simp_all add: publish_job_def map_update_same) (simp add: publish_layer_def set_resident_def Let_def moe_static_def map_update_same)

lemma publish_all_other: "(\<forall>j \<in> set D. mj_layer j \<noteq> i) \<Longrightarrow> fold (publish_job n) D ls ! i = ls ! i"
  by (induction D arbitrary: ls) auto

lemma publish_all_static: "map moe_static (fold (publish_job n) D ls) = map moe_static ls"
  by (induction D arbitrary: ls) auto

lemma copy_job_inv:
  assumes "layers_inv ls D (j # R)"
  shows "layers_inv (copy_job j ls) (D @ [j]) R"
proof -
  have "layer_inv (copy_job j ls ! i) (jobs_on i (D @ [j])) (jobs_on i R)" if "i < length ls" for i
    using assms that copy_slot_inv [of "ls ! i" "jobs_on i D" "mj_expert j" "mj_slot j"]
    by (cases "mj_layer j = i") (auto simp: layers_inv_def copy_job_def)
  with assms show ?thesis by (auto simp: layers_inv_def copy_job_def)
qed

lemma copy_all_inv: "layers_inv ls D (B @ T) \<Longrightarrow> layers_inv (fold copy_job B ls) (D @ B) T"
proof (induction B arbitrary: ls D)
  case (Cons j B)
  from Cons.IH [of "copy_job j ls" "D @ [j]"] copy_job_inv [of ls D j "B @ T"] Cons.prems show ?case by simp
qed simp

lemma copy_job_same:
  "length (copy_job j ls) = length ls"
  "map moe_static (copy_job j ls) = map moe_static ls"
  "map moe_tabs (copy_job j ls) = map moe_tabs ls"
  by (simp_all add: copy_job_def copy_slot_def moe_static_def moe_tabs_def map_update_same)

lemma copy_all_same:
  "map moe_static (fold copy_job B ls) = map moe_static ls" "map moe_tabs (fold copy_job B ls) = map moe_tabs ls"
  by (induction B arbitrary: ls) (auto simp: copy_job_same)

lemma tables_all_cong: "map moe_tabs ls = map moe_tabs ls' \<Longrightarrow> list_all tables_ok ls = list_all tables_ok ls'"
proof -
  assume a: "map moe_tabs ls = map moe_tabs ls'"
  then have "length ls = length ls'" by (metis length_map)
  moreover have "moe_tabs (ls ! i) = moe_tabs (ls' ! i)" if "i < length ls" for i using a that calculation by (metis nth_map)
  ultimately show ?thesis by (simp add: list_all_length tables_ok_cong [of "ls ! _" "ls' ! _"])
qed

lemma torn_layers_inv:
  assumes "layers_inv ls D R" "j \<in> set R"
  shows "layers_inv (ls[mj_layer j := (ls ! mj_layer j)\<lparr>ml_pool := (ml_pool (ls ! mj_layer j))[mj_slot j := d]\<rparr>]) D R"
proof -
  have "layer_inv (ls ! mj_layer j) (jobs_on (mj_layer j) D) (jobs_on (mj_layer j) R)" "mj_layer j < length ls"
    using assms by (auto simp: layers_inv_def)
  from torn_slot_inv [OF this(1) jobs_on_mem [OF assms(2) refl]] this(2) assms(1) show ?thesis
    by (auto simp: layers_inv_def nth_list_update')
qed

section \<open>The observations of a step\<close>

definition cands_fresh :: "'d moe_layer \<Rightarrow> nat list \<Rightarrow> bool" where
  "cands_fresh l c \<longleftrightarrow> distinct c \<and> (\<forall>e \<in> set c. e < ml_n_expert l \<and> ml_expert_slot l ! e < 0 \<and> \<not> ml_expert_pending l ! e)"

lemma cands_fresh_core: "moe_core l' = moe_core l \<Longrightarrow> cands_fresh l' c = cands_fresh l c"
  by (simp add: cands_fresh_def moe_core_def)

lemma consume_id_same:
  "moe_core (fst (consume_id n e (l, c, h, m))) = moe_core l"
  "moe_static (fst (consume_id n e (l, c, h, m))) = moe_static l"
  "moe_tabs (fst (consume_id n e (l, c, h, m))) = moe_tabs l"
  by (auto simp: consume_id_def Let_def moe_core_def moe_static_def moe_tabs_def)

lemma consume_id_cand: "cands_fresh l c \<Longrightarrow> cands_fresh l (fst (snd (consume_id n e (l, c, h, m))))"
  by (auto simp: consume_id_def Let_def cands_fresh_def)

lemma consume_fold:
  "cands_fresh l c \<Longrightarrow> fold (consume_id n) es (l, c, h, m) = (l', c', h', m') \<Longrightarrow>
   moe_core l' = moe_core l \<and> moe_static l' = moe_static l \<and> moe_tabs l' = moe_tabs l \<and> cands_fresh l' c'"
proof (induction es arbitrary: l c h m)
  case (Cons e es)
  obtain l1 c1 h1 m1 where 1: "consume_id n e (l, c, h, m) = (l1, c1, h1, m1)" by (metis prod_cases4)
  have same: "moe_core l1 = moe_core l" "moe_static l1 = moe_static l" "moe_tabs l1 = moe_tabs l"
    using consume_id_same [of n e l c h m] 1 by auto
  have "cands_fresh l1 c1" using consume_id_cand [OF Cons.prems(1), of n e h m] 1 cands_fresh_core [OF same(1)] by simp
  from Cons.IH [OF this] Cons.prems(2) 1 same show ?case by simp
qed auto

lemma consume_layer_inv:
  assumes "consume_layer n l = (l', c, h, m)"
  shows "moe_core l' = moe_core l" "moe_static l' = moe_static l" "moe_tabs l' = moe_tabs l" "cands_fresh l' c"
proof -
  obtain l1 c1 h1 m1 where 1: "fold (consume_id n) (ml_obs l) (l, [], 0, 0) = (l1, c1, h1, m1)" by (metis prod_cases4)
  have "cands_fresh l []" by (simp add: cands_fresh_def)
  note f = consume_fold [OF this 1]
  show core: "moe_core l' = moe_core l" and "moe_static l' = moe_static l" and "moe_tabs l' = moe_tabs l"
    using f assms 1 by (auto simp: consume_layer_def Let_def moe_core_def moe_static_def moe_tabs_def split: if_splits)
  have "moe_core l' = moe_core l1" using core f by simp
  moreover have "c = sort_key (\<lambda>e. - int (ml_miss_count l' ! e)) c1"
    using assms 1 by (auto simp: consume_layer_def Let_def split: if_splits)
  ultimately show "cands_fresh l' c" using f cands_fresh_core [of l' l1 c1] by (simp add: cands_fresh_def)
qed

section \<open>The schedule of a step\<close>

lemma free_slot_Some: "free_slot l = Some s \<Longrightarrow> s < ml_n_slots l \<and> ml_slot_expert l ! s < 0 \<and> \<not> ml_slot_in_flight l ! s"
  by (auto simp: free_slot_def find_Some_iff)

lemma free_slot_None: "free_slot l = None \<Longrightarrow> s < ml_n_slots l \<Longrightarrow> \<not> ml_slot_in_flight l ! s \<Longrightarrow> 0 \<le> ml_slot_expert l ! s"
  by (rule ccontr) (auto simp: free_slot_def find_None_iff)

definition slot_choice :: "nat \<Rightarrow> 'd moe_layer \<Rightarrow> (nat \<times> nat) option \<Rightarrow> bool" where
  "slot_choice n l b \<longleftrightarrow> (\<forall>t s. b = Some (t, s) \<longrightarrow> s < ml_n_slots l \<and> \<not> ml_slot_in_flight l ! s \<and> ml_slot_last_use l ! s \<noteq> n)"

lemma scan_slot_choice:
  "\<forall>s \<in> set ss. s < ml_n_slots l \<Longrightarrow> slot_choice n l c \<Longrightarrow> slot_choice n l a \<Longrightarrow>
   fold (scan_slot mp n l) ss (c, a) = (c', a') \<Longrightarrow> slot_choice n l c' \<and> slot_choice n l a'"
proof (induction ss arbitrary: c a)
  case (Cons s ss)
  obtain c1 a1 where 1: "scan_slot mp n l s (c, a) = (c1, a1)" by (metis surj_pair)
  have "slot_choice n l c1" "slot_choice n l a1"
    using Cons.prems 1 by (auto simp: scan_slot_def older_def slot_choice_def split: if_splits option.splits prod.splits)
  with Cons.IH [of c1 a1] Cons.prems 1 show ?case by simp
qed auto

lemma victim_slot_Some:
  assumes "victim_slot mp n l = Some s"
  shows "s < ml_n_slots l" "\<not> ml_slot_in_flight l ! s" "ml_slot_last_use l ! s \<noteq> n"
proof -
  obtain c a where f: "fold (scan_slot mp n l) [0..<ml_n_slots l] (None, None) = (c, a)" by (metis surj_pair)
  have "slot_choice n l c \<and> slot_choice n l a" by (rule scan_slot_choice [OF _ _ _ f]) (auto simp: slot_choice_def)
  with assms f show "s < ml_n_slots l" "\<not> ml_slot_in_flight l ! s" "ml_slot_last_use l ! s \<noteq> n"
    by (auto simp: victim_slot_def slot_choice_def split: if_splits)
qed

lemma start_upload_same [simp]:
  "moe_static (start_upload e s l) = moe_static l" "moe_tabs (start_upload e s l) = moe_tabs l"
  by (simp_all add: start_upload_def moe_static_def moe_tabs_def)

lemma evict_slot_static [simp]: "moe_static (evict_slot s l) = moe_static l"
  by (simp add: evict_slot_def moe_static_def)

lemma cands_fresh_start: "cands_fresh l (e # c) \<Longrightarrow> cands_fresh (start_upload e s l) c"
  by (auto simp: cands_fresh_def start_upload_def nth_list_update')

lemma cands_fresh_evict: "cands_fresh l c \<Longrightarrow> cands_fresh (evict_slot s l) c"
  by (auto simp: cands_fresh_def evict_slot_def nth_list_update')

lemma layer_inv_free:
  "layer_inv l D R \<Longrightarrow> s < ml_n_slots l \<Longrightarrow> ml_slot_expert l ! s < 0 \<Longrightarrow> ml_slot_expert l ! s = -1"
  "layer_inv l D R \<Longrightarrow> e < ml_n_expert l \<Longrightarrow> ml_expert_slot l ! e < 0 \<Longrightarrow> ml_expert_slot l ! e = -1"
  "layer_inv l D R \<Longrightarrow> s < ml_n_slots l \<Longrightarrow> 0 \<le> ml_slot_expert l ! s \<Longrightarrow> \<exists>e < ml_n_expert l. ml_slot_expert l ! s = int e"
  unfolding layer_inv_def by (force dest: links_range)+

lemma admit_inv:
  "layer_inv l D R \<Longrightarrow> cands_fresh l c \<Longrightarrow> admit mp n l c = (l', c', job, ev) \<Longrightarrow>
   layer_inv l' D (R @ (case job of None \<Rightarrow> [] | Some p \<Rightarrow> [p])) \<and> cands_fresh l' c' \<and> moe_static l' = moe_static l \<and> (\<not> ev \<longrightarrow> moe_tabs l' = moe_tabs l)"
proof (induction mp n l c rule: admit.induct)
  case (2 mp n l e c)
  have e: "e < ml_n_expert l" "ml_expert_slot l ! e = -1" "\<not> ml_expert_pending l ! e"
    using 2(3) layer_inv_free(2) [OF 2(2)] by (auto simp: cands_fresh_def)
  have c: "cands_fresh l c" using 2(3) by (simp add: cands_fresh_def)
  show ?case
  proof (cases "free_slot l")
    case (Some s)
    note s = free_slot_Some [OF Some]
    have "layer_inv (start_upload e s l) D (R @ [(e, s)])"
      using s e layer_inv_free(1) [OF 2(2)] by (intro start_upload_inv [OF 2(2)]) auto
    with Some 2(4) cands_fresh_start [OF 2(3)] show ?thesis by auto
  next
    case None
    show ?thesis
    proof (cases "ml_miss_count l ! e < 2")
      case True
      with 2(1) [OF None True 2(2) c] None 2(4) show ?thesis by simp
    next
      case False
      show ?thesis
      proof (cases "victim_slot mp n l")
        case N: None
        with None False 2(2,4) show ?thesis by (auto simp: cands_fresh_def)
      next
        case S: (Some s)
        note s = victim_slot_Some [OF S]
        obtain x where x: "ml_slot_expert l ! s = int x" "x < ml_n_expert l"
          using layer_inv_free(3) [OF 2(2) s(1) free_slot_None [OF None s(1,2)]] by blast
        note i = evict_slot_inv [OF 2(2) s(1) x(1)]
        have len: "s < length (ml_slot_expert l)" using 2(2) s by (simp add: layer_inv_def moe_shape_def)
        have "layer_inv (start_upload e s (evict_slot s l)) D (R @ [(e, s)])"
          using s e len by (intro start_upload_inv [OF i]) (auto simp: evict_slot_def nth_list_update')
        with None False S 2(4) cands_fresh_start [OF cands_fresh_evict [OF 2(3)]] show ?thesis by auto
      qed
    qed
  qed
qed (auto simp: cands_fresh_def)

text \<open>The state of the schedule: \<open>R\<close> are the uploads handed over in earlier steps.\<close>

definition sched_inv :: "moe_job list \<Rightarrow> 'd sched_state \<Rightarrow> bool" where
  "sched_inv R ss \<longleftrightarrow> layers_inv (ss_layers ss) [] (R @ ss_jobs ss) \<and>
     length (ss_cands ss) = length (ss_layers ss) \<and> length (ss_dirty ss) = length (ss_layers ss) \<and>
     (\<forall>i < length (ss_layers ss). cands_fresh (ss_layers ss ! i) (ss_cands ss ! i)) \<and>
     (\<forall>i < length (ss_layers ss). ss_dirty ss ! i \<or> tables_ok (ss_layers ss ! i))"

lemma sched_layer_inv:
  assumes "sched_inv R ss" "i < length (ss_layers ss)"
  shows "sched_inv R (sched_layer mp n i ss)" "map moe_static (ss_layers (sched_layer mp n i ss)) = map moe_static (ss_layers ss)"
    "length (ss_layers (sched_layer mp n i ss)) = length (ss_layers ss)"
proof -
  obtain l' c' job ev where a: "admit mp n (ss_layers ss ! i) (ss_cands ss ! i) = (l', c', job, ev)" by (metis prod_cases4)
  let ?new = "case job of None \<Rightarrow> [] | Some (e, s) \<Rightarrow> [\<lparr>mj_layer = i, mj_expert = e, mj_slot = s\<rparr>]"
  let ?ss = "sched_layer mp n i ss"
  have S: "layer_inv (ss_layers ss ! i) [] (jobs_on i (R @ ss_jobs ss))" "cands_fresh (ss_layers ss ! i) (ss_cands ss ! i)"
    using assms by (auto simp: sched_inv_def layers_inv_def)
  note A = admit_inv [OF S a]
  have ss: "ss_layers ?ss = (ss_layers ss)[i := l']" "ss_cands ?ss = (ss_cands ss)[i := c']" "ss_jobs ?ss = ss_jobs ss @ ?new"
    "ss_dirty ?ss = (if ev then (ss_dirty ss)[i := True] else ss_dirty ss)"
    by (simp_all add: sched_layer_def a)
  show "length (ss_layers ?ss) = length (ss_layers ss)" by (simp add: ss)
  show "map moe_static (ss_layers ?ss) = map moe_static (ss_layers ss)" using A unfolding ss by (simp add: map_update_same)
  have "jobs_on k (R @ ss_jobs ss @ ?new) = jobs_on k (R @ ss_jobs ss) @ (if k = i then (case job of None \<Rightarrow> [] | Some p \<Rightarrow> [p]) else [])" for k
    by (auto split: option.split)
  then have "layer_inv (ss_layers ?ss ! k) [] (jobs_on k (R @ ss_jobs ?ss))" if "k < length (ss_layers ss)" for k
    using that A assms unfolding ss by (auto simp: sched_inv_def layers_inv_def)
  moreover have "\<forall>j \<in> set (R @ ss_jobs ?ss). mj_layer j < length (ss_layers ?ss)"
    using assms unfolding ss by (auto simp: sched_inv_def layers_inv_def split: option.splits)
  ultimately have "layers_inv (ss_layers ?ss) [] (R @ ss_jobs ?ss)" by (simp add: layers_inv_def ss)
  moreover have "ss_dirty ?ss ! k \<or> tables_ok (ss_layers ?ss ! k)" if "k < length (ss_layers ss)" for k
    using that A assms tables_ok_cong [of l' "ss_layers ss ! i"] unfolding ss by (auto simp: sched_inv_def nth_list_update')
  moreover have "cands_fresh (ss_layers ?ss ! k) (ss_cands ?ss ! k)" if "k < length (ss_layers ss)" for k
    using that A assms unfolding ss by (auto simp: sched_inv_def nth_list_update')
  ultimately show "sched_inv R ?ss" using assms by (simp add: sched_inv_def ss)
qed

lemma sched_round_inv:
  "sched_inv R ss \<Longrightarrow> \<forall>i \<in> set is. i < length (ss_layers ss) \<Longrightarrow>
   sched_inv R (sched_round mp n cap is ss) \<and> map moe_static (ss_layers (sched_round mp n cap is ss)) = map moe_static (ss_layers ss)"
proof (induction mp n cap "is" ss rule: sched_round.induct)
  case (2 mp n cap i "is" ss)
  then show ?case using sched_layer_inv [OF 2(2), of i mp n] by auto
qed simp

lemma sched_rounds_inv:
  "sched_inv R ss \<Longrightarrow>
   sched_inv R (sched_rounds r mp n cap ss) \<and> map moe_static (ss_layers (sched_rounds r mp n cap ss)) = map moe_static (ss_layers ss)"
proof (induction r arbitrary: ss)
  case (Suc r)
  from sched_round_inv [OF Suc.prems, of "[0..<length (ss_layers ss)]" mp n cap] Suc.IH Suc.prems show ?case by simp
qed simp

section \<open>The step\<close>

lemma moe_step_fields:
  "mc_params (moe_step mc) = mc_params mc" "mc_n_steps (moe_step mc) = step_clock mc"
  "mc_done (moe_step mc) = []" "mc_batch (moe_step mc) = mc_batch mc" "mc_todo (moe_step mc) = mc_todo mc @ ss_jobs (step_schedule (step_clock mc) mc)"
  "mc_layers (moe_step mc) = flush_dirty (step_schedule (step_clock mc) mc)"
  by (simp_all add: moe_step_def Let_def)

lemma length_publish_all [simp]: "length (fold (publish_job n) D ls) = length ls"
  by (induction D arbitrary: ls) auto

lemma consume_layer_same:
  "moe_core (fst (consume_layer n l)) = moe_core l" "moe_static (fst (consume_layer n l)) = moe_static l"
  "moe_tabs (fst (consume_layer n l)) = moe_tabs l" "cands_fresh (fst (consume_layer n l)) (fst (snd (consume_layer n l)))"
  using consume_layer_inv [of n l] by (metis prod.collapse)+

lemma step_start_inv:
  fixes mc :: "'d moe_cache" and n :: nat
  assumes "moe_inv mc"
  defines "s0 \<equiv> \<lparr>ss_layers = map fst (step_observed n mc), ss_cands = map (\<lambda>c. fst (snd c)) (step_observed n mc),
    ss_dirty = map (\<lambda>i. \<exists>j \<in> set (mc_done mc). mj_layer j = i) [0..<length (mc_layers mc)], ss_bytes = 0, ss_jobs = [], ss_evict = 0\<rparr>"
  shows "sched_inv (mc_batch mc @ mc_todo mc) s0" "map moe_static (ss_layers s0) = map moe_static (mc_layers mc)"
proof -
  define ls where "ls = fold (publish_job n) (mc_done mc) (mc_layers mc)"
  have len: "length ls = length (mc_layers mc)" by (simp add: ls_def)
  have L: "layers_inv ls [] (mc_batch mc @ mc_todo mc)" using assms(1) publish_all_inv unfolding ls_def moe_inv_def by blast
  have ss: "ss_layers s0 = map (\<lambda>l. fst (consume_layer n l)) ls" "ss_cands s0 = map (\<lambda>l. fst (snd (consume_layer n l))) ls"
    "ss_dirty s0 = map (\<lambda>i. \<exists>j \<in> set (mc_done mc). mj_layer j = i) [0..<length ls]" "ss_jobs s0 = []"
    by (simp_all add: s0_def step_observed_def ls_def [symmetric] comp_def len)
  show "map moe_static (ss_layers s0) = map moe_static (mc_layers mc)"
    using publish_all_static unfolding ss by (simp add: consume_layer_same comp_def ls_def)
  have "(\<exists>j \<in> set (mc_done mc). mj_layer j = i) \<or> tables_ok (ls ! i)" if "i < length ls" for i
  proof (cases "\<exists>j \<in> set (mc_done mc). mj_layer j = i")
    case False
    then have "ls ! i = mc_layers mc ! i" unfolding ls_def by (intro publish_all_other) blast
    then show ?thesis using assms(1) that len by (simp add: moe_inv_def list_all_length)
  qed simp
  then show "sched_inv (mc_batch mc @ mc_todo mc) s0" using L
    unfolding sched_inv_def ss
    by (auto simp: layers_inv_def consume_layer_same layer_inv_core [OF consume_layer_same(1)] tables_ok_cong [OF consume_layer_same(3)])
qed

lemma step_schedule_inv:
  assumes "moe_inv mc"
  shows "sched_inv (mc_batch mc @ mc_todo mc) (step_schedule n mc)" "map moe_static (ss_layers (step_schedule n mc)) = map moe_static (mc_layers mc)"
  using sched_rounds_inv [OF step_start_inv(1) [OF assms]] step_start_inv(2) [OF assms, of n] unfolding step_schedule_def by auto

lemma moe_step_inv:
  assumes "moe_inv mc"
  shows "moe_inv (moe_step mc)" "map moe_static (mc_layers (moe_step mc)) = map moe_static (mc_layers mc)"
proof -
  define ss where "ss = step_schedule (step_clock mc) mc"
  have e: "sched_inv (mc_batch mc @ mc_todo mc) ss" "map moe_static (ss_layers ss) = map moe_static (mc_layers mc)"
    using step_schedule_inv [OF assms, of "step_clock mc"] unfolding ss_def by auto
  have n: "length (flush_dirty ss) = length (ss_layers ss)" "flush_dirty ss ! i = (if ss_dirty ss ! i then flush_tables (ss_layers ss ! i) else ss_layers ss ! i)" if "i < length (ss_layers ss)" for i
    using that by (simp_all add: flush_dirty_def)
  have "layer_inv (flush_dirty ss ! i) [] R = layer_inv (ss_layers ss ! i) [] R" if "i < length (ss_layers ss)" for i R
    by (simp add: n [OF that])
  then have "layers_inv (flush_dirty ss) [] (mc_batch mc @ mc_todo mc @ ss_jobs ss)"
    using e(1) unfolding sched_inv_def layers_inv_def by (simp add: flush_dirty_def)
  moreover have "tables_ok (flush_dirty ss ! i)" if "i < length (flush_dirty ss)" for i
    using e(1) that n [of i] unfolding sched_inv_def by (auto simp: flush_dirty_def)
  ultimately show "moe_inv (moe_step mc)" unfolding moe_inv_def moe_step_fields ss_def [symmetric] by (simp add: list_all_length)
  have len: "length (flush_dirty ss) = length (ss_layers ss)" by (simp add: flush_dirty_def)
  have "map moe_static (flush_dirty ss) = map moe_static (ss_layers ss)"
  proof (rule nth_equalityI)
    fix i assume "i < length (map moe_static (flush_dirty ss))"
    then have "i < length (ss_layers ss)" by (simp add: len)
    then show "map moe_static (flush_dirty ss) ! i = map moe_static (ss_layers ss) ! i" by (simp add: len n(2))
  qed (simp add: len)
  then show "map moe_static (mc_layers (moe_step mc)) = map moe_static (mc_layers mc)"
    using e(2) unfolding moe_step_fields ss_def [symmetric] by simp
qed

section \<open>Creation\<close>

lemma candidates_Cons:
  "moe_candidates n_expert mp il (m # ms) = Some cs \<Longrightarrow>
   \<exists>cs'. moe_candidates n_expert mp (il + 1) ms = Some cs' \<and>
     (cs = cs' \<or> cs = (il, m) # cs' \<and> length (ms_up m) = n_expert \<and> length (ms_gate m) = n_expert \<and> length (ms_down m) = n_expert)"
  by (simp split: if_splits) blast

lemma candidates_counts:
  "moe_candidates n_expert mp il ms = Some cs \<Longrightarrow> c \<in> set cs \<Longrightarrow>
   length (ms_up (snd c)) = n_expert \<and> length (ms_gate (snd c)) = n_expert \<and> length (ms_down (snd c)) = n_expert"
proof (induction ms arbitrary: il cs)
  case (Cons m ms)
  from candidates_Cons [OF Cons.prems(1)] Cons.IH Cons.prems(2) show ?case by fastforce
qed simp

lemma fill_slot_inv:
  assumes "layer_inv l [] []" "k < ml_n_slots l" "k < ml_n_expert l" "ml_slot_expert l ! k = -1" "ml_expert_slot l ! k = -1"
  shows "layer_inv (fill_slot k k l) [] []"
proof -
  have sh: "moe_shape l" and li: "moe_links l" and co: "moe_contents l" and up: "moe_uploads l []" using assms(1) by (auto simp: layer_inv_def)
  let ?l = "fill_slot k k l"
  have f: "ml_slot_expert ?l = (ml_slot_expert l)[k := int k]" "ml_expert_slot ?l = (ml_expert_slot l)[k := int k]"
    "ml_n_slots ?l = ml_n_slots l" "ml_n_expert ?l = ml_n_expert l" "ml_pool ?l = (ml_pool l)[k := ml_src l ! k]" "ml_src ?l = ml_src l"
    using assms by (simp_all add: fill_slot_def set_resident_def copy_slot_def Let_def)
  have "moe_links ?l" by (rule links_write [OF li sh f(3,4) assms(2,3) f(1,2)]) (use assms in simp)
  moreover have "moe_shape ?l" using sh unfolding moe_shape_def f by (simp add: fill_slot_def set_resident_def copy_slot_def Let_def)
  moreover have "moe_contents ?l"
    using sh co assms(2-4) links_iff [OF li assms(2)] unfolding moe_contents_def moe_shape_def f by (auto simp: nth_list_update')
  moreover have "moe_uploads ?l []" using up unfolding moe_uploads_def f by (simp add: fill_slot_def set_resident_def copy_slot_def Let_def)
  ultimately show ?thesis by (simp add: layer_inv_def moe_copied_def)
qed

lemma fill_slots_inv:
  assumes "layer_inv l [] []" "k \<le> ml_n_slots l" "ml_n_slots l \<le> ml_n_expert l" "\<forall>s < ml_n_slots l. ml_slot_expert l ! s = -1"
    "\<forall>e < ml_n_expert l. ml_expert_slot l ! e = -1"
  shows "layer_inv (fold (\<lambda>e. fill_slot e e) [0..<k] l) [] [] \<and> moe_static (fold (\<lambda>e. fill_slot e e) [0..<k] l) = moe_static l \<and>
     (\<forall>s \<ge> k. s < ml_n_slots l \<longrightarrow> ml_slot_expert (fold (\<lambda>e. fill_slot e e) [0..<k] l) ! s = -1 \<and> ml_expert_slot (fold (\<lambda>e. fill_slot e e) [0..<k] l) ! s = -1)"
  using assms(2)
proof (induction k)
  case 0
  then show ?case using assms by simp
next
  case (Suc k)
  define m where "m = fold (\<lambda>e. fill_slot e e) [0..<k] l"
  have IH: "layer_inv m [] []" "moe_static m = moe_static l" "\<And>s. k \<le> s \<Longrightarrow> s < ml_n_slots l \<Longrightarrow> ml_slot_expert m ! s = -1 \<and> ml_expert_slot m ! s = -1"
    using Suc unfolding m_def by auto
  have n: "ml_n_slots m = ml_n_slots l" "ml_n_expert m = ml_n_expert l" using IH(2) by (simp_all add: moe_static_def)
  have "layer_inv (fill_slot k k m) [] []" by (rule fill_slot_inv) (use IH(1) IH(3) [of k] n Suc.prems assms in auto)
  moreover have "moe_static (fill_slot k k m) = moe_static m" by (simp add: moe_static_def fill_slot_def set_resident_def copy_slot_def Let_def)
  moreover have "ml_slot_expert (fill_slot k k m) ! s = -1 \<and> ml_expert_slot (fill_slot k k m) ! s = -1" if "Suc k \<le> s" "s < ml_n_slots l" for s
    using IH(3) [of k] IH(3) [of s] that by (simp add: fill_slot_def set_resident_def copy_slot_def Let_def)
  ultimately show ?case using IH(2) by (simp add: m_def)
qed

lemma create_layer_inv:
  assumes "length (ms_up (snd c)) = n" "length (ms_gate (snd c)) = n" "length (ms_down (snd c)) = n" "k \<le> n"
  shows "layer_inv (create_layer mp n k garbage zero c) [] []" "tables_ok (create_layer mp n k garbage zero c)"
proof -
  let ?l = "alloc_layer mp n k garbage zero c"
  have "layer_inv ?l [] []"
    using assms by (simp add: layer_inv_def moe_shape_def moe_links_def moe_contents_def moe_uploads_def moe_copied_def alloc_layer_def)
  from fill_slots_inv [OF this, of "nat (min (mp_static_fill mp) (int k))"] assms(4)
  have "layer_inv (fold (\<lambda>e. fill_slot e e) [0..<nat (min (mp_static_fill mp) (int k))] ?l) [] []"
    by (simp add: alloc_layer_def)
  then show "layer_inv (create_layer mp n k garbage zero c) [] []" by (simp add: create_layer_def)
qed (simp add: create_layer_def)

lemma moe_create_inv: "moe_create mp n_expert free alloc_ok garbage zero ms = Some mc \<Longrightarrow> moe_inv mc"
proof -
  assume c: "moe_create mp n_expert free alloc_ok garbage zero ms = Some mc"
  then obtain cs per where cs: "moe_candidates n_expert mp 0 ms = Some cs" and
    mc: "mc_layers mc = map (\<lambda>c. create_layer mp n_expert (moe_n_slots per (ms_slab (snd c)) n_expert) garbage zero c)
           (filter (\<lambda>c. int (moe_n_slots per (ms_slab (snd c)) n_expert) \<ge> mp_min_slots mp \<and> alloc_ok (fst c)) cs)"
      "mc_done mc = []" "mc_batch mc = []" "mc_todo mc = []"
    by (auto simp: moe_create_def Let_def split: if_splits option.splits)
  have l: "layer_inv l [] [] \<and> tables_ok l" if "l \<in> set (mc_layers mc)" for l
  proof -
    from that mc(1) obtain c where "c \<in> set cs" "l = create_layer mp n_expert (moe_n_slots per (ms_slab (snd c)) n_expert) garbage zero c" by auto
    with candidates_counts [OF cs this(1)] create_layer_inv [of c n_expert "moe_n_slots per (ms_slab (snd c)) n_expert" mp garbage zero] show ?thesis
      by (simp add: moe_n_slots_def)
  qed
  then show "moe_inv mc" unfolding moe_inv_def layers_inv_def mc(2-4) by (auto simp: list_all_iff)
qed

section \<open>Reachable states\<close>

lemma find_il_less: "find_il il ls = Some i \<Longrightarrow> i < length ls \<and> ml_il (ls ! i) = il"
  by (induction il ls arbitrary: i rule: find_il.induct) (auto split: if_splits)

lemma observe_one_inv:
  "moe_inv mc \<Longrightarrow> moe_inv (observe_one x mc) \<and> map moe_static (mc_layers (observe_one x mc)) = map moe_static (mc_layers mc)"
proof -
  assume i: "moe_inv mc"
  obtain il hb ids where x: "x = (il, hb, ids)" by (metis prod_cases3)
  let ?f = "\<lambda>l. l\<lparr>ml_obs := ml_obs l @ ids\<rparr>"
  have c: "moe_core (?f l) = moe_core l" "moe_static (?f l) = moe_static l" "moe_tabs (?f l) = moe_tabs l" for l :: "'a moe_layer"
    by (simp_all add: moe_core_def moe_static_def moe_tabs_def)
  have "moe_inv (mc\<lparr>mc_layers := (mc_layers mc)[k := ?f (mc_layers mc ! k)]\<rparr>)" if "k < length (mc_layers mc)" for k
    using i that unfolding moe_inv_def layers_inv_def
    by (auto simp: list_all_length nth_list_update' layer_inv_core [OF c(1)] tables_ok_cong [OF c(3)])
  moreover have "moe_inv (mc\<lparr>mc_n_obs_dropped := n\<rparr>)" for n using i by (simp add: moe_inv_def)
  ultimately show ?thesis using i find_il_less [of il "mc_layers mc"]
    by (cases "find_il il (mc_layers mc)") (simp_all add: x observe_one_def Let_def map_update_same c)
qed

lemma moe_observe_inv:
  "moe_inv mc \<Longrightarrow> moe_inv (moe_observe xs mc) \<and> map moe_static (mc_layers (moe_observe xs mc)) = map moe_static (mc_layers mc)"
  unfolding moe_observe_def
proof (induction xs arbitrary: mc)
  case (Cons x xs)
  from observe_one_inv [OF Cons.prems, of x] Cons.IH [of "observe_one x mc"] show ?case by simp
qed simp

lemma worker_inv:
  assumes "moe_inv mc"
  shows "mc_batch mc = [] \<Longrightarrow> moe_inv (worker_take mc) \<and> map moe_static (mc_layers (worker_take mc)) = map moe_static (mc_layers mc)"
    "j \<in> set (mc_batch mc) \<Longrightarrow> moe_inv (worker_torn j d mc) \<and> map moe_static (mc_layers (worker_torn j d mc)) = map moe_static (mc_layers mc)"
    "moe_inv (worker_finish mc) \<and> map moe_static (mc_layers (worker_finish mc)) = map moe_static (mc_layers mc)"
proof -
  show "mc_batch mc = [] \<Longrightarrow> moe_inv (worker_take mc) \<and> map moe_static (mc_layers (worker_take mc)) = map moe_static (mc_layers mc)" using assms by (simp add: moe_inv_def worker_take_def)
  have "map moe_tabs (mc_layers (worker_torn j d mc)) = map moe_tabs (mc_layers mc)"
    "map moe_static (mc_layers (worker_torn j d mc)) = map moe_static (mc_layers mc)"
    by (simp_all add: worker_torn_def map_update_same moe_tabs_def moe_static_def)
  with tables_all_cong [OF this(1)] show "j \<in> set (mc_batch mc) \<Longrightarrow> moe_inv (worker_torn j d mc) \<and> map moe_static (mc_layers (worker_torn j d mc)) = map moe_static (mc_layers mc)"
    using assms torn_layers_inv [of "mc_layers mc" "mc_done mc" "mc_batch mc @ mc_todo mc" j d] unfolding moe_inv_def by (simp add: worker_torn_def)
  show "moe_inv (worker_finish mc) \<and> map moe_static (mc_layers (worker_finish mc)) = map moe_static (mc_layers mc)"
    using assms copy_all_inv [of "mc_layers mc" "mc_done mc" "mc_batch mc" "mc_todo mc"] tables_all_cong [OF copy_all_same(2), of "mc_batch mc" "mc_layers mc"]
    unfolding moe_inv_def by (simp add: worker_finish_def copy_all_same)
qed

inductive_cases moe_transE: "moe_trans (mc, g) st"

lemma moe_trans_inv:
  "moe_trans st st' \<Longrightarrow> moe_inv (fst st) \<Longrightarrow>
   moe_inv (fst st') \<and> map moe_static (mc_layers (fst st')) = map moe_static (mc_layers (fst st))"
proof (induction rule: moe_trans.induct)
  case (take mc g)
  then show ?case using worker_inv(1) [of mc] by simp
next
  case (torn j mc g d)
  then show ?case using worker_inv(2) [of mc j d] by simp
next
  case (finish mc g)
  then show ?case using worker_inv(3) [of mc] by simp
qed (simp_all add: moe_observe_inv moe_step_inv)

lemma moe_reach_inv:
  assumes "moe_reach mc0 (mc, g)" "moe_inv mc0"
  shows "moe_inv mc \<and> map moe_static (mc_layers mc) = map moe_static (mc_layers mc0)"
proof -
  have "moe_trans\<^sup>*\<^sup>* (mc0, False) st \<Longrightarrow> moe_inv (fst st) \<and> map moe_static (mc_layers (fst st)) = map moe_static (mc_layers mc0)" for st
    by (induction rule: rtranclp_induct) (use assms(2) moe_trans_inv in \<open>simp, metis\<close>)
  with assms(1) show ?thesis by (force simp: moe_reach_def)
qed

section \<open>What a graph computes\<close>

lemma lane_exact:
  assumes "moe_inv mc" "i < length (mc_layers mc)" "e < ml_n_expert (mc_layers mc ! i)"
  shows "moe_lane ffn (mc_layers mc ! i) e = ffn (ml_src (mc_layers mc ! i) ! e)"
proof -
  let ?l = "mc_layers mc ! i"
  have t: "tables_ok ?l" and L: "moe_links ?l" "moe_contents ?l"
    using assms by (auto simp: moe_inv_def list_all_length layers_inv_def layer_inv_def)
  from links_range(2) [OF L(1) assms(3)] show ?thesis
  proof
    assume "ml_expert_slot ?l ! e = -1"
    with t assms(3) show ?thesis by (simp add: tables_ok_iff moe_lane_def chain_out_def LLAMA_EXPERT_SLOT_SKIP_def)
  next
    assume "\<exists>s < ml_n_slots ?l. ml_expert_slot ?l ! e = int s"
    then obtain s where "s < ml_n_slots ?l" "ml_expert_slot ?l ! e = int s" by blast
    with t L(2) assms(3) show ?thesis by (simp add: tables_ok_iff moe_lane_def chain_out_def LLAMA_EXPERT_SLOT_SKIP_def moe_contents_def)
  qed
qed

end
