(* ===== verification/Moe_Step.thy ===== *)
theory Moe_Step
  imports Moe_Inv
begin

text \<open>
  The lemmas about one step of the cache of routed experts: which experts stay, which uploads are
  published, the bounds of the schedule and the choice of the victim.
\<close>

section \<open>Experts that stay\<close>

text \<open>A slot that holds an expert and was used in the current step.\<close>

definition in_use :: "nat \<Rightarrow> nat \<Rightarrow> nat \<Rightarrow> 'd moe_layer \<Rightarrow> bool" where
  "in_use n e s l \<longleftrightarrow> ml_expert_slot l ! e = int s \<and> s < length (ml_slot_last_use l) \<and> ml_slot_last_use l ! s = n"

lemma in_use_publish:
  assumes "in_use n e s l" "layer_inv l ((e', s') # D) R" "e < ml_n_expert l"
  shows "in_use n e s (publish_layer n e' s' l)"
proof -
  have "e' \<noteq> e" using assms by (auto simp: layer_inv_defs in_use_def)
  moreover have "ml_slot_expert l ! s' = -1" using assms by (auto simp: layer_inv_defs)
  ultimately show ?thesis using assms(1) by (auto simp: in_use_def publish_layer_def set_resident_def Let_def nth_list_update')
qed

lemma published_in_use:
  assumes "layer_inv l ((e, s) # D) R"
  shows "in_use n e s (publish_layer n e s l)"
proof -
  have "e < length (ml_expert_slot l)" "s < length (ml_slot_last_use l)" "ml_slot_expert l ! s = -1" using assms by (auto simp: layer_inv_defs)
  then show ?thesis by (simp add: in_use_def publish_layer_def set_resident_def Let_def)
qed

lemma in_use_consume_id: "in_use n e s l \<Longrightarrow> in_use n e s (fst (consume_id n x (l, c, h, m)))"
  by (auto simp: in_use_def consume_id_def Let_def nth_list_update')

lemma in_use_consume_fold: "in_use n e s l \<Longrightarrow> in_use n e s (fst (fold (consume_id n) xs (l, c, h, m)))"
proof (induction xs arbitrary: l c h m)
  case (Cons x xs)
  obtain l1 c1 h1 m1 where 1: "consume_id n x (l, c, h, m) = (l1, c1, h1, m1)" by (metis prod_cases4)
  with in_use_consume_id [OF Cons.prems, of x c h m] Cons.IH [of l1 c1 h1 m1] show ?case by simp
qed simp

lemma observed_in_use:
  assumes "int e \<in> set xs" "e < ml_n_expert l" "ml_expert_slot l ! e = int s" "s < length (ml_slot_last_use l)"
  shows "in_use n e s (fst (fold (consume_id n) xs (l, c, h, m)))"
  using assms
proof (induction xs arbitrary: l c h m)
  case (Cons x xs)
  obtain l1 c1 h1 m1 where 1: "consume_id n x (l, c, h, m) = (l1, c1, h1, m1)" by (metis prod_cases4)
  note same = consume_id_same [of n x l c h m, unfolded 1]
  show ?case
  proof (cases "x = int e")
    case True
    then have "in_use n e s l1" using 1 Cons.prems by (auto simp: consume_id_def in_use_def Let_def)
    from in_use_consume_fold [OF this, of xs c1 h1 m1] 1 show ?thesis by simp
  next
    case False
    with Cons.prems same Cons.IH [of l1 c1 h1 m1] 1 show ?thesis by (simp add: moe_core_def)
  qed
qed simp

lemma consume_layer_last_use:
  "in_use n e s (fst (consume_layer n l)) = in_use n e s (fst (fold (consume_id n) (ml_obs l) (l, [], 0, 0)))"
  by (simp add: consume_layer_def in_use_def Let_def split: prod.split)

lemma in_use_admit:
  "in_use n e s l \<Longrightarrow> layer_inv l D R \<Longrightarrow> e < ml_n_expert l \<Longrightarrow> cands_fresh l c \<Longrightarrow> admit mp n l c = (l', c', job, ev) \<Longrightarrow> in_use n e s l'"
proof (induction mp n l c rule: admit.induct)
  case (2 mp n l x c)
  have c: "cands_fresh l c" using 2(5) by (simp add: cands_fresh_def)
  show ?case
  proof (cases "free_slot l")
    case (Some t)
    with 2(2,6) show ?thesis by (auto simp: in_use_def start_upload_def)
  next
    case None
    show ?thesis
    proof (cases "ml_miss_count l ! x < 2 \<or> victim_slot mp n l = None")
      case True
      with 2(1) [OF None _ 2(2,3,4) c] None 2(2,6) show ?thesis by (auto split: if_splits)
    next
      case False
      then obtain t where t: "victim_slot mp n l = Some t" and "\<not> ml_miss_count l ! x < 2" by auto
      with None 2(6) have l': "l' = start_upload x t (evict_slot t l)" by auto
      note v = victim_slot_Some [OF t]
      have "t \<noteq> s" using v(3) 2(2) by (auto simp: in_use_def)
      obtain y where y: "ml_slot_expert l ! t = int y" "y < ml_n_expert l"
        using layer_inv_free(3) [OF 2(3) v(1) free_slot_None [OF None v(1,2)]] by blast
      then have "ml_expert_slot l ! y = int t" using 2(3) v(1) by (auto simp: layer_inv_def links_iff)
      then have "y \<noteq> e" using \<open>t \<noteq> s\<close> 2(2) by (auto simp: in_use_def)
      with 2(2) y(1) show ?thesis unfolding l' by (auto simp: in_use_def start_upload_def evict_slot_def)
    qed
  qed
qed auto

lemma in_use_sched_layer:
  assumes "sched_inv R ss" "k < length (ss_layers ss)" "i < length (ss_layers ss)" "e < ml_n_expert (ss_layers ss ! i)" "in_use n e s (ss_layers ss ! i)"
  shows "in_use n e s (ss_layers (sched_layer mp n k ss) ! i)"
proof -
  obtain l' c' job ev where a: "admit mp n (ss_layers ss ! k) (ss_cands ss ! k) = (l', c', job, ev)" by (metis prod_cases4)
  have "layer_inv (ss_layers ss ! k) [] (jobs_on k (R @ ss_jobs ss))" "cands_fresh (ss_layers ss ! k) (ss_cands ss ! k)"
    using assms(1,2) by (auto simp: sched_inv_def layers_inv_def)
  note k = this
  have "ss_layers (sched_layer mp n k ss) = (ss_layers ss)[k := l']" by (simp add: sched_layer_def a)
  with in_use_admit [OF _ k(1) _ k(2) a, of e s] assms show ?thesis by (cases "k = i") simp_all
qed

lemma static_nth: "map moe_static ls = map moe_static ls' \<Longrightarrow> i < length ls \<Longrightarrow> moe_static (ls ! i) = moe_static (ls' ! i)"
  by (metis length_map nth_map)

lemma in_use_sched_round:
  "sched_inv R ss \<Longrightarrow> \<forall>k \<in> set is. k < length (ss_layers ss) \<Longrightarrow> i < length (ss_layers ss) \<Longrightarrow> e < ml_n_expert (ss_layers ss ! i) \<Longrightarrow>
   in_use n e s (ss_layers ss ! i) \<Longrightarrow> in_use n e s (ss_layers (sched_round mp n cap is ss) ! i)"
proof (induction mp n cap "is" ss rule: sched_round.induct)
  case (2 mp n cap k "is" ss)
  note S = sched_layer_inv [OF 2(2), of k mp n]
  have "e < ml_n_expert (ss_layers (sched_layer mp n k ss) ! i)"
    using static_nth [OF S(2), of i] S(3) 2(3-5) by (simp add: moe_static_def)
  with 2 S in_use_sched_layer [OF 2(2), of k i e n s mp] show ?case by simp
qed simp

lemma in_use_sched_rounds:
  "sched_inv R ss \<Longrightarrow> i < length (ss_layers ss) \<Longrightarrow> e < ml_n_expert (ss_layers ss ! i) \<Longrightarrow>
   in_use n e s (ss_layers ss ! i) \<Longrightarrow> in_use n e s (ss_layers (sched_rounds r mp n cap ss) ! i)"
proof (induction r arbitrary: ss)
  case (Suc r)
  let ?ss = "sched_round mp n cap [0..<length (ss_layers ss)] ss"
  have S: "sched_inv R ?ss" "map moe_static (ss_layers ?ss) = map moe_static (ss_layers ss)"
    using sched_round_inv [OF Suc.prems(1), of "[0..<length (ss_layers ss)]" mp n cap] by auto
  have len: "length (ss_layers ?ss) = length (ss_layers ss)" using S(2) by (metis length_map)
  have "in_use n e s (ss_layers ?ss ! i)" using in_use_sched_round [OF Suc.prems(1) _ Suc.prems(2-4), of "[0..<length (ss_layers ss)]" mp cap] by simp
  moreover have "e < ml_n_expert (ss_layers ?ss ! i)" using static_nth [OF S(2), of i] len Suc.prems by (simp add: moe_static_def)
  ultimately have "in_use n e s (ss_layers (sched_rounds r mp n cap ?ss) ! i)" using Suc.IH [OF S(1)] len Suc.prems(2) by simp
  with Suc.prems(4) show ?case by simp
qed simp

lemma step_layer_in_use:
  assumes "moe_inv mc" "i < length (mc_layers mc)" "e < ml_n_expert (mc_layers mc ! i)"
    "in_use (step_clock mc) e s (fst (consume_layer (step_clock mc) (fold (publish_job (step_clock mc)) (mc_done mc) (mc_layers mc) ! i)))"
  shows "ml_expert_slot (mc_layers (moe_step mc) ! i) ! e = int s" "ml_gpu_table (mc_layers (moe_step mc) ! i) ! e = int s"
    "ml_cpu_table (mc_layers (moe_step mc) ! i) ! e = LLAMA_EXPERT_SLOT_SKIP"
proof -
  define n where "n = step_clock mc"
  define s0 where "s0 = \<lparr>ss_layers = map fst (step_observed n mc), ss_cands = map (\<lambda>c. fst (snd c)) (step_observed n mc),
    ss_dirty = map (\<lambda>i. \<exists>j \<in> set (mc_done mc). mj_layer j = i) [0..<length (mc_layers mc)], ss_bytes = 0, ss_jobs = [], ss_evict = 0\<rparr>"
  have len: "length (ss_layers s0) = length (mc_layers mc)" by (simp add: s0_def step_observed_def)
  note S = step_start_inv [OF assms(1), of n, folded s0_def]
  have "in_use n e s (ss_layers s0 ! i)" using assms(2,4) by (simp add: s0_def n_def [symmetric] step_observed_def)
  moreover have "e < ml_n_expert (ss_layers s0 ! i)" using static_nth [OF S(2), of i] assms(2,3) len by (simp add: moe_static_def)
  ultimately have u: "in_use n e s (ss_layers (step_schedule n mc) ! i)"
    using in_use_sched_rounds [OF S(1), of i e n s] assms(2) len unfolding step_schedule_def s0_def [symmetric] by simp
  have "length (ss_layers (step_schedule n mc)) = length (mc_layers mc)" using step_schedule_inv(2) [OF assms(1), of n] by (metis length_map)
  with u assms(2) show r: "ml_expert_slot (mc_layers (moe_step mc) ! i) ! e = int s"
    unfolding moe_step_fields n_def [symmetric] by (simp add: flush_dirty_def flush_tables_def in_use_def)
  note M = moe_step_inv [OF assms(1)]
  have len': "length (mc_layers (moe_step mc)) = length (mc_layers mc)" using M(2) by (metis length_map)
  then have "tables_ok (mc_layers (moe_step mc) ! i)" "e < ml_n_expert (mc_layers (moe_step mc) ! i)"
    using M(1) assms(2,3) static_nth [OF M(2), of i] by (simp_all add: moe_inv_def list_all_length moe_static_def)
  with r show "ml_gpu_table (mc_layers (moe_step mc) ! i) ! e = int s" "ml_cpu_table (mc_layers (moe_step mc) ! i) ! e = LLAMA_EXPERT_SLOT_SKIP"
    by (simp_all add: tables_ok_iff)
qed

lemma uploads_range:
  "moe_uploads l J \<Longrightarrow> (e, s) \<in> set J \<Longrightarrow> e < ml_n_expert l"
  "moe_uploads l J \<Longrightarrow> (e, s) \<in> set J \<Longrightarrow> ml_expert_slot l ! e = -1"
  by (auto simp: moe_uploads_def)

text \<open>Publication keeps what is resident and observed; the published experts are in use.\<close>

lemma publish_resident:
  "layers_inv ls D R \<Longrightarrow> i < length ls \<Longrightarrow> e < ml_n_expert (ls ! i) \<Longrightarrow> ml_expert_slot (ls ! i) ! e = int s \<Longrightarrow>
   ml_expert_slot (fold (publish_job n) D ls ! i) ! e = int s \<and> ml_obs (fold (publish_job n) D ls ! i) = ml_obs (ls ! i)"
proof (induction D arbitrary: ls)
  case (Cons j D)
  have "ml_expert_slot (publish_job n j ls ! i) ! e = int s \<and> ml_obs (publish_job n j ls ! i) = ml_obs (ls ! i)"
  proof (cases "mj_layer j = i")
    case True
    then have "layer_inv (ls ! i) ((mj_expert j, mj_slot j) # jobs_on i D) (jobs_on i R)" using Cons.prems(1,2) by (auto simp: layers_inv_def)
    then have "ml_slot_expert (ls ! i) ! mj_slot j = -1" "ml_expert_slot (ls ! i) ! mj_expert j = -1" by (auto simp: layer_inv_defs)
    then show ?thesis using True Cons.prems by (auto simp: publish_job_def publish_layer_def set_resident_def Let_def nth_list_update')
  qed (use Cons.prems in simp)
  moreover have "e < ml_n_expert (publish_job n j ls ! i)"
    using static_nth [OF publish_job_simps(3) [of n j ls], of i] Cons.prems(2,3) by (simp add: moe_static_def)
  ultimately show ?case using Cons.IH [OF publish_job_inv [OF Cons.prems(1)]] Cons.prems(2) by simp
qed simp

lemma in_use_publish_all:
  "layers_inv ls D R \<Longrightarrow> i < length ls \<Longrightarrow> e < ml_n_expert (ls ! i) \<Longrightarrow> in_use n e s (ls ! i) \<or> (\<exists>j \<in> set D. mj_layer j = i \<and> mj_expert j = e \<and> mj_slot j = s) \<Longrightarrow>
   in_use n e s (fold (publish_job n) D ls ! i)"
proof (induction D arbitrary: ls)
  case (Cons j D)
  have L: "layer_inv (ls ! i) ((mj_expert j, mj_slot j) # jobs_on i D) (jobs_on i R)" if "mj_layer j = i"
    using Cons.prems(1,2) that by (auto simp: layers_inv_def)
  have "in_use n e s (publish_job n j ls ! i)" if "in_use n e s (ls ! i)"
    using that Cons.prems(2,3) in_use_publish [OF that L] by (cases "mj_layer j = i") (auto simp: publish_job_def)
  moreover have "in_use n e s (publish_job n j ls ! i)" if "mj_layer j = i" "mj_expert j = e" "mj_slot j = s"
    using that Cons.prems(2) published_in_use [OF L [OF that(1)], of n] by (auto simp: publish_job_def)
  moreover have "e < ml_n_expert (publish_job n j ls ! i)"
    using static_nth [OF publish_job_simps(3) [of n j ls], of i] Cons.prems(2,3) by (simp add: moe_static_def)
  ultimately show ?case using Cons.IH [OF publish_job_inv [OF Cons.prems(1)]] Cons.prems(2,4) by auto
qed auto

lemma step_publishes:
  assumes "moe_inv mc" "j \<in> set (mc_done mc)"
  shows "ml_gpu_table (mc_layers (moe_step mc) ! mj_layer j) ! mj_expert j = int (mj_slot j)"
    "ml_cpu_table (mc_layers (moe_step mc) ! mj_layer j) ! mj_expert j = LLAMA_EXPERT_SLOT_SKIP"
proof -
  let ?i = "mj_layer j"
  have L: "layers_inv (mc_layers mc) (mc_done mc) (mc_batch mc @ mc_todo mc)" using assms(1) by (simp add: moe_inv_def)
  then have i: "?i < length (mc_layers mc)" using assms(2) by (auto simp: layers_inv_def)
  have e: "mj_expert j < ml_n_expert (mc_layers mc ! ?i)"
  proof (rule uploads_range(1) [where s = "mj_slot j"])
    show "moe_uploads (mc_layers mc ! ?i) (jobs_on ?i (mc_done mc) @ jobs_on ?i (mc_batch mc @ mc_todo mc))"
      using L i by (simp add: layers_inv_def layer_inv_def)
  qed (use jobs_on_mem [OF assms(2) refl] in simp)
  have "in_use n (mj_expert j) (mj_slot j) (fold (publish_job n) (mc_done mc) (mc_layers mc) ! ?i)" for n
    using in_use_publish_all [OF L i e] assms(2) by blast
  then have "in_use n (mj_expert j) (mj_slot j) (fst (consume_layer n (fold (publish_job n) (mc_done mc) (mc_layers mc) ! ?i)))" for n
    unfolding consume_layer_last_use by (rule in_use_consume_fold)
  from step_layer_in_use(2,3) [OF assms(1) i e this]
  show "ml_gpu_table (mc_layers (moe_step mc) ! ?i) ! mj_expert j = int (mj_slot j)" "ml_cpu_table (mc_layers (moe_step mc) ! ?i) ! mj_expert j = LLAMA_EXPERT_SLOT_SKIP" .
qed

lemma step_keeps_hits:
  assumes "moe_inv mc" "i < length (mc_layers mc)" "e < ml_n_expert (mc_layers mc ! i)" "int e \<in> set (ml_obs (mc_layers mc ! i))"
    "ml_expert_slot (mc_layers mc ! i) ! e = int s"
  shows "ml_gpu_table (mc_layers (moe_step mc) ! i) ! e = int s"
proof -
  define n where "n = step_clock mc"
  define ls where "ls = fold (publish_job n) (mc_done mc) (mc_layers mc)"
  have L: "layers_inv (mc_layers mc) (mc_done mc) (mc_batch mc @ mc_todo mc)" using assms(1) by (simp add: moe_inv_def)
  note P = publish_resident [OF L assms(2,3,5), of n, folded ls_def]
  have st: "map moe_static ls = map moe_static (mc_layers mc)" unfolding ls_def by (rule publish_all_static)
  have len: "length ls = length (mc_layers mc)" by (simp add: ls_def)
  have e: "e < ml_n_expert (ls ! i)" using static_nth [OF st, of i] assms(2,3) len by (simp add: moe_static_def)
  have LL: "layer_inv (ls ! i) [] (jobs_on i (mc_batch mc @ mc_todo mc))" using publish_all_inv [OF L, of n] assms(2) len by (simp add: layers_inv_def ls_def)
  then have "s < length (ml_slot_last_use (ls ! i))" using P e links_range(2) [of "ls ! i" e] by (auto simp: layer_inv_def moe_shape_def)
  then have "in_use n e s (fst (consume_layer n (ls ! i)))"
    unfolding consume_layer_last_use using observed_in_use [OF _ e, of "ml_obs (ls ! i)" s n] P assms(4) by simp
  with step_layer_in_use(2) [OF assms(1-3)] show ?thesis unfolding n_def ls_def by blast
qed

section \<open>The bounds of a step\<close>

lemma admit_slab: "admit mp n l c = (l', c', job, ev) \<Longrightarrow> ml_slab l' = ml_slab l"
  by (induction mp n l c rule: admit.induct) (auto simp: start_upload_def evict_slot_def split: option.splits if_splits)

definition bytes_inv :: "nat list \<Rightarrow> nat \<Rightarrow> 'd sched_state \<Rightarrow> bool" where
  "bytes_inv slabs cap ss \<longleftrightarrow> map ml_slab (ss_layers ss) = slabs \<and> ss_bytes ss \<le> cap \<and>
     ss_bytes ss = (\<Sum>j \<leftarrow> ss_jobs ss. slabs ! mj_layer j) \<and> (\<forall>j \<in> set (ss_jobs ss). mj_layer j < length slabs)"

definition n_jobs :: "nat \<Rightarrow> moe_job list \<Rightarrow> nat" where
  "n_jobs i js = length (filter (\<lambda>j. mj_layer j = i) js)"

lemma sched_layer_jobs:
  "n_jobs i (ss_jobs (sched_layer mp n k ss)) \<le> n_jobs i (ss_jobs ss) + (if i = k then 1 else 0)"
  by (auto simp: sched_layer_def n_jobs_def split: prod.splits option.splits)

lemma sched_layer_bytes:
  assumes "bytes_inv slabs cap ss" "k < length slabs" "ss_bytes ss + ml_slab (ss_layers ss ! k) \<le> cap"
  shows "bytes_inv slabs cap (sched_layer mp n k ss)"
proof -
  obtain l' c' job ev where a: "admit mp n (ss_layers ss ! k) (ss_cands ss ! k) = (l', c', job, ev)" by (metis prod_cases4)
  have k: "ml_slab l' = slabs ! k" "ml_slab (ss_layers ss ! k) = slabs ! k" using admit_slab [OF a] assms(1,2) by (auto simp: bytes_inv_def)
  then have m: "map ml_slab ((ss_layers ss)[k := l']) = slabs" using assms(1) by (simp add: bytes_inv_def map_update_same)
  have f: "ss_layers (sched_layer mp n k ss) = (ss_layers ss)[k := l']" "ss_bytes (sched_layer mp n k ss) = ss_bytes ss + (if job = None then 0 else ml_slab l')"
    "ss_jobs (sched_layer mp n k ss) = ss_jobs ss @ (case job of None \<Rightarrow> [] | Some (e, s) \<Rightarrow> [\<lparr>mj_layer = k, mj_expert = e, mj_slot = s\<rparr>])"
    by (simp_all add: sched_layer_def a)
  from m assms k show ?thesis unfolding bytes_inv_def f by (cases job) (simp_all split: prod.split)
qed

lemma sched_round_bytes:
  "bytes_inv slabs cap ss \<Longrightarrow> \<forall>k \<in> set is. k < length slabs \<Longrightarrow> distinct is \<Longrightarrow>
   bytes_inv slabs cap (sched_round mp n cap is ss) \<and>
   n_jobs i (ss_jobs (sched_round mp n cap is ss)) \<le> n_jobs i (ss_jobs ss) + (if i \<in> set is then 1 else 0)"
proof (induction mp n cap "is" ss rule: sched_round.induct)
  case (2 mp n cap k "is" ss)
  show ?case
  proof (cases "cap \<le> ss_bytes ss \<or> cap < ss_bytes ss + ml_slab (ss_layers ss ! k)")
    case False
    then have "bytes_inv slabs cap (sched_layer mp n k ss)" using 2(2,3) by (intro sched_layer_bytes) auto
    from 2(1) [OF _ _ this] 2(3,4) False sched_layer_jobs [of i mp n k ss] show ?thesis by (auto split: if_splits)
  qed (use 2 in auto)
qed simp

lemma sched_rounds_bytes:
  "bytes_inv slabs cap ss \<Longrightarrow>
   bytes_inv slabs cap (sched_rounds r mp n cap ss) \<and> n_jobs i (ss_jobs (sched_rounds r mp n cap ss)) \<le> n_jobs i (ss_jobs ss) + r"
proof (induction r arbitrary: ss)
  case (Suc r)
  let ?ss = "sched_round mp n cap [0..<length (ss_layers ss)] ss"
  have "\<forall>k \<in> set [0..<length (ss_layers ss)]. k < length slabs" using Suc.prems by (auto simp: bytes_inv_def)
  note R = sched_round_bytes [OF Suc.prems this distinct_upt, of mp n i]
  then have "n_jobs i (ss_jobs ?ss) \<le> n_jobs i (ss_jobs ss) + 1" by (auto split: if_splits)
  with R Suc.IH [of ?ss] Suc.prems show ?case by auto
qed simp

lemma moe_step_jobs:
  "\<exists>js. mc_todo (moe_step mc) = mc_todo mc @ js \<and>
     (\<Sum>j \<leftarrow> js. ml_slab (mc_layers mc ! mj_layer j)) \<le> step_cap (mc_params mc) \<and>
     (\<forall>i. n_jobs i js \<le> nat (mp_inserts (mc_params mc)))"
proof -
  define n where "n = step_clock mc"
  define s0 where "s0 = \<lparr>ss_layers = map fst (step_observed n mc), ss_cands = map (\<lambda>c. fst (snd c)) (step_observed n mc),
    ss_dirty = map (\<lambda>i. \<exists>j \<in> set (mc_done mc). mj_layer j = i) [0..<length (mc_layers mc)], ss_bytes = 0, ss_jobs = [], ss_evict = 0\<rparr>"
  let ?slabs = "map ml_slab (mc_layers mc)" and ?ss = "step_schedule n mc"
  have "map moe_static (ss_layers s0) = map moe_static (mc_layers mc)"
    by (simp add: s0_def step_observed_def comp_def consume_layer_same publish_all_static)
  then have "map (\<lambda>(_, _, _, b, _). b) (map moe_static (ss_layers s0)) = map (\<lambda>(_, _, _, b, _). b) (map moe_static (mc_layers mc))"
    by (rule arg_cong)
  then have "map ml_slab (ss_layers s0) = ?slabs" by (simp add: moe_static_def comp_def)
  then have "bytes_inv ?slabs (step_cap (mc_params mc)) s0" by (simp add: bytes_inv_def) (simp add: s0_def)
  note B = sched_rounds_bytes [OF this, of "nat (mp_inserts (mc_params mc))" "mc_params mc" n, folded s0_def]
  have "n_jobs i (ss_jobs s0) = 0" for i by (simp add: s0_def n_jobs_def)
  with B have c: "n_jobs i (ss_jobs ?ss) \<le> nat (mp_inserts (mc_params mc))" and b: "bytes_inv ?slabs (step_cap (mc_params mc)) ?ss" for i
    unfolding step_schedule_def s0_def [symmetric] by (metis add_0)+
  have "(\<Sum>j \<leftarrow> ss_jobs ?ss. ml_slab (mc_layers mc ! mj_layer j)) = (\<Sum>j \<leftarrow> ss_jobs ?ss. ?slabs ! mj_layer j)"
    using b by (intro arg_cong [of _ _ sum_list] map_cong) (auto simp: bytes_inv_def)
  with b c show ?thesis unfolding moe_step_fields n_def [symmetric] by (auto simp: bytes_inv_def)
qed

text \<open>
  A round starts at the first layer in every step and stops at the first upload that does not fit: with a
  cap for one upload only, the later layers get none as long as the first one has a candidate to admit.
\<close>

lemma sched_round_full: "\<forall>k \<in> set is. cap < ss_bytes ss + ml_slab (ss_layers ss ! k) \<Longrightarrow> sched_round mp n cap is ss = ss"
  by (cases "is") auto

lemma first_layer_starves:
  assumes "ss_layers ss \<noteq> []" "ss_bytes ss = 0" "ml_slab (ss_layers ss ! 0) \<le> cap" "0 < cap"
    and full: "\<forall>k < length (ss_layers ss). cap < ml_slab (ss_layers ss ! 0) + ml_slab (ss_layers ss ! k)"
    and job: "admit mp n (ss_layers ss ! 0) (ss_cands ss ! 0) = (l, c, Some (e, s), ev)"
  shows "sched_rounds (Suc r) mp n cap ss = sched_layer mp n 0 ss"
proof -
  let ?s = "sched_layer mp n 0 ss"
  have sl: "ml_slab l = ml_slab (ss_layers ss ! 0)" by (rule admit_slab [OF job])
  have f: "ss_layers ?s = (ss_layers ss)[0 := l]" "ss_bytes ?s = ml_slab l" using assms(2) by (simp_all add: sched_layer_def job)
  have "cap < ss_bytes ?s + ml_slab (ss_layers ?s ! k)" if "k < length (ss_layers ss)" for k
    using full that assms(1) sl by (cases k) (auto simp: f)
  then have stay: "\<forall>k \<in> set ks. k < length (ss_layers ss) \<Longrightarrow> sched_round mp n cap ks ?s = ?s" for ks
    by (intro sched_round_full) auto
  have u: "[0..<length (ss_layers ss)] = 0 # [1..<length (ss_layers ss)]" using assms(1) by (simp add: upt_conv_Cons)
  have "sched_round mp n cap [0..<length (ss_layers ss)] ss = ?s" unfolding u using assms(2-4) stay [of "[1..<length (ss_layers ss)]"] by simp
  moreover have "sched_rounds r mp n cap ?s = ?s" for r
  proof (induction r)
    case (Suc r)
    then show ?case using stay [of "[0..<length (ss_layers ?s)]"] by (simp add: f)
  qed simp
  ultimately show ?thesis using assms(2,4) by simp
qed

section \<open>The victim\<close>

definition evictable :: "nat \<Rightarrow> 'd moe_layer \<Rightarrow> nat set" where
  "evictable n l = {s. s < ml_n_slots l \<and> \<not> ml_slot_in_flight l ! s \<and> ml_slot_last_use l ! s \<noteq> n}"

definition cold_slots :: "moe_params \<Rightarrow> nat \<Rightarrow> 'd moe_layer \<Rightarrow> nat set" where
  "cold_slots mp n l = {s \<in> evictable n l. int (ml_slot_hits l ! s) \<le> mp_hot_uses mp}"

text \<open>The least recently used slot of a set, the first of them.\<close>

definition is_lru :: "'d moe_layer \<Rightarrow> nat set \<Rightarrow> nat \<Rightarrow> bool" where
  "is_lru l S s \<longleftrightarrow> s \<in> S \<and> (\<forall>t \<in> S. ml_slot_last_use l ! s < ml_slot_last_use l ! t \<or> ml_slot_last_use l ! s = ml_slot_last_use l ! t \<and> s \<le> t)"

definition best_slot :: "'d moe_layer \<Rightarrow> nat set \<Rightarrow> (nat \<times> nat) option \<Rightarrow> bool" where
  "best_slot l S b \<longleftrightarrow> (case b of None \<Rightarrow> S = {} | Some (t, s) \<Rightarrow> t = ml_slot_last_use l ! s \<and> is_lru l S s)"

lemma best_slot_older:
  assumes "best_slot l S b" "\<forall>t \<in> S. t < k" "ml_slot_last_use l ! k < UINT64_MAX"
  shows "best_slot l (insert k S) (older (ml_slot_last_use l ! k) k b)"
proof (cases b)
  case (Some p)
  then obtain t s where p: "b = Some (t, s)" by (cases p) auto
  with assms(1) have "t = ml_slot_last_use l ! s" "is_lru l S s" by (auto simp: best_slot_def)
  with p assms(2) show ?thesis by (auto simp: best_slot_def older_def is_lru_def dest: less_trans)
qed (use assms in \<open>auto simp: best_slot_def older_def is_lru_def\<close>)

lemma is_lru_unique: "is_lru l S s \<Longrightarrow> is_lru l S t \<Longrightarrow> s = t"
  by (force simp: is_lru_def)

lemma scan_best:
  assumes "\<forall>s < ml_n_slots l. ml_slot_last_use l ! s < UINT64_MAX" "k \<le> ml_n_slots l"
  shows "best_slot l (cold_slots mp n l \<inter> {..<k}) (fst (fold (scan_slot mp n l) [0..<k] (None, None))) \<and>
     best_slot l (evictable n l \<inter> {..<k}) (snd (fold (scan_slot mp n l) [0..<k] (None, None)))"
  using assms(2)
proof (induction k)
  case (Suc k)
  obtain c a where f: "fold (scan_slot mp n l) [0..<k] (None, None) = (c, a)" by (metis surj_pair)
  have B: "best_slot l (cold_slots mp n l \<inter> {..<k}) c" "best_slot l (evictable n l \<inter> {..<k}) a" using Suc f by auto
  have k: "ml_slot_last_use l ! k < UINT64_MAX" using assms(1) Suc.prems by simp
  note o = best_slot_older [OF B(1) _ k] best_slot_older [OF B(2) _ k]
  have "scan_slot mp n l k (c, a) =
      (if k \<in> cold_slots mp n l then older (ml_slot_last_use l ! k) k c else c, if k \<in> evictable n l then older (ml_slot_last_use l ! k) k a else a)"
    using Suc.prems by (simp add: scan_slot_def evictable_def cold_slots_def)
  moreover have "S \<inter> {..<Suc k} = (if k \<in> S then insert k (S \<inter> {..<k}) else S \<inter> {..<k})" for S :: "nat set"
    by (auto simp: less_Suc_eq)
  ultimately show ?case using f B o by simp
qed (simp add: best_slot_def)

lemma victim_slot_exact:
  assumes "\<forall>s < ml_n_slots l. ml_slot_last_use l ! s < UINT64_MAX"
  shows "victim_slot mp n l = Some s \<longleftrightarrow> is_lru l (if cold_slots mp n l = {} then evictable n l else cold_slots mp n l) s"
proof -
  obtain c a where f: "fold (scan_slot mp n l) [0..<ml_n_slots l] (None, None) = (c, a)" by (metis surj_pair)
  have "cold_slots mp n l \<inter> {..<ml_n_slots l} = cold_slots mp n l" "evictable n l \<inter> {..<ml_n_slots l} = evictable n l"
    by (auto simp: cold_slots_def evictable_def)
  with scan_best [OF assms order_refl, of mp n] f have B: "best_slot l (cold_slots mp n l) c" "best_slot l (evictable n l) a" by auto
  have "map_option snd b = Some s \<longleftrightarrow> is_lru l S s" if "best_slot l S b" for b S
    using that is_lru_unique [of l S] by (cases b) (auto simp: best_slot_def is_lru_def)
  moreover have "c = None \<longleftrightarrow> cold_slots mp n l = {}" using B(1) by (cases c) (auto simp: best_slot_def is_lru_def)
  ultimately show ?thesis using B f by (auto simp: victim_slot_def)
qed

end
