(* ===== verification/Moe_Props.thy ===== *)
theory Moe_Props
  imports Moe_Step
begin

text \<open>
  The properties of the cache of routed experts, over the runs that start from a created cache.
\<close>

section \<open>The sources of the layers\<close>

lemma candidates_nth:
  "moe_candidates n_expert mp il ms = Some cs \<Longrightarrow> c \<in> set cs \<Longrightarrow> il \<le> fst c \<and> fst c < il + length ms \<and> snd c = ms ! (fst c - il)"
proof (induction ms arbitrary: il cs)
  case (Cons m ms)
  from candidates_Cons [OF Cons.prems(1)] obtain cs' where cs': "moe_candidates n_expert mp (il + 1) ms = Some cs'" "cs = cs' \<or> cs = (il, m) # cs'" by blast
  show ?case
  proof (cases "c \<in> set cs'")
    case True
    from Cons.IH [OF cs'(1) True] have IH: "il + 1 \<le> fst c" "fst c < il + 1 + length ms" "snd c = ms ! (fst c - (il + 1))" by auto
    then obtain d where "fst c = il + 1 + d" by (metis le_Suc_ex)
    with IH show ?thesis by simp
  next
    case False
    with cs'(2) Cons.prems(2) have "c = (il, m)" by auto
    then show ?thesis by simp
  qed
qed simp

lemma fill_slot_static: "moe_static (fill_slot e s l) = moe_static l"
  by (simp add: moe_static_def fill_slot_def set_resident_def copy_slot_def Let_def)

lemma create_layer_static:
  "ml_il (create_layer mp n k garbage zero c) = int (fst c)" "ml_n_expert (create_layer mp n k garbage zero c) = n"
  "ml_src (create_layer mp n k garbage zero c) = zip (ms_up (snd c)) (zip (ms_gate (snd c)) (ms_down (snd c)))"
proof -
  have "moe_static (fold (\<lambda>e. fill_slot e e) es l) = moe_static l" for es and l :: "('a \<times> 'a \<times> 'a) moe_layer"
    by (induction es arbitrary: l) (simp_all add: fill_slot_static)
  then have "moe_static (create_layer mp n k garbage zero c) = moe_static (alloc_layer mp n k garbage zero c)" by (simp add: create_layer_def)
  then show "ml_il (create_layer mp n k garbage zero c) = int (fst c)" "ml_n_expert (create_layer mp n k garbage zero c) = n"
    "ml_src (create_layer mp n k garbage zero c) = zip (ms_up (snd c)) (zip (ms_gate (snd c)) (ms_down (snd c)))"
    by (simp_all add: moe_static_def alloc_layer_def)
qed

lemma create_sources:
  assumes "moe_create mp n_expert free alloc_ok garbage zero ms = Some mc" "l \<in> set (mc_layers mc)"
  obtains m where "nat (ml_il l) < length ms" "m = ms ! nat (ml_il l)" "ml_n_expert l = n_expert"
    "ml_src l = zip (ms_up m) (zip (ms_gate m) (ms_down m))" "length (ms_up m) = n_expert" "length (ms_gate m) = n_expert" "length (ms_down m) = n_expert"
proof -
  from assms(1) obtain cs per where cs: "moe_candidates n_expert mp 0 ms = Some cs" and
    mc: "mc_layers mc = map (\<lambda>c. create_layer mp n_expert (moe_n_slots per (ms_slab (snd c)) n_expert) garbage zero c)
           (filter (\<lambda>c. int (moe_n_slots per (ms_slab (snd c)) n_expert) \<ge> mp_min_slots mp \<and> alloc_ok (fst c)) cs)"
    by (auto simp: moe_create_def Let_def split: if_splits option.splits)
  from assms(2) obtain c where c: "c \<in> set cs" "l = create_layer mp n_expert (moe_n_slots per (ms_slab (snd c)) n_expert) garbage zero c"
    unfolding mc by auto
  show ?thesis
    by (rule that [of "snd c"]) (use candidates_nth [OF cs c(1)] candidates_counts [OF cs c(1)] in \<open>simp_all add: c(2) create_layer_static\<close>)
qed

lemma reach_layer:
  assumes "moe_create mp n_expert free alloc_ok garbage zero ms = Some mc0" "moe_reach mc0 (mc, g)" "i < length (mc_layers mc)"
  obtains m where "nat (ml_il (mc_layers mc ! i)) < length ms" "m = ms ! nat (ml_il (mc_layers mc ! i))" "ml_n_expert (mc_layers mc ! i) = n_expert"
    "\<And>e. e < n_expert \<Longrightarrow> ml_src (mc_layers mc ! i) ! e = (ms_up m ! e, ms_gate m ! e, ms_down m ! e)"
proof -
  note R = moe_reach_inv [OF assms(2) moe_create_inv [OF assms(1)]]
  have len: "length (mc_layers mc) = length (mc_layers mc0)" using R by (metis length_map)
  have st: "moe_static (mc_layers mc ! i) = moe_static (mc_layers mc0 ! i)" using static_nth R assms(3) by blast
  have "mc_layers mc0 ! i \<in> set (mc_layers mc0)" using assms(3) len by simp
  from create_sources [OF assms(1) this] obtain m where m: "nat (ml_il (mc_layers mc0 ! i)) < length ms" "m = ms ! nat (ml_il (mc_layers mc0 ! i))"
    "ml_n_expert (mc_layers mc0 ! i) = n_expert" "ml_src (mc_layers mc0 ! i) = zip (ms_up m) (zip (ms_gate m) (ms_down m))"
    "length (ms_up m) = n_expert" "length (ms_gate m) = n_expert" "length (ms_down m) = n_expert" by blast
  have "ml_src (mc_layers mc ! i) ! e = (ms_up m ! e, ms_gate m ! e, ms_down m ! e)" if "e < n_expert" for e
    using st m(4-7) that by (simp add: moe_static_def)
  with st m(1-3) show ?thesis by (intro that [of m]) (simp_all add: moe_static_def)
qed

section \<open>A graph in flight\<close>

lemma table_slot:
  assumes "moe_inv mc" "i < length (mc_layers mc)" "e < ml_n_expert (mc_layers mc ! i)" "0 \<le> ml_gpu_table (mc_layers mc ! i) ! e"
  shows "ml_pool (mc_layers mc ! i) ! nat (ml_gpu_table (mc_layers mc ! i) ! e) = ml_src (mc_layers mc ! i) ! e"
proof -
  let ?l = "mc_layers mc ! i"
  have t: "tables_ok ?l" and L: "moe_links ?l" "moe_contents ?l"
    using assms by (auto simp: moe_inv_def list_all_length layers_inv_def layer_inv_def)
  with assms(3,4) links_range(2) [OF L(1) assms(3)] show ?thesis
    by (auto simp: tables_ok_iff LLAMA_EXPERT_SLOT_SKIP_def moe_contents_def)
qed

text \<open>The transitions while a graph runs leave the tables and the slots they name alone.\<close>

lemma worker_graph_stable:
  assumes "moe_inv mc" "moe_trans (mc, True) (mc', True)" "i < length (mc_layers mc)" "e < ml_n_expert (mc_layers mc ! i)"
  shows "ml_gpu_table (mc_layers mc' ! i) = ml_gpu_table (mc_layers mc ! i)" "ml_cpu_table (mc_layers mc' ! i) = ml_cpu_table (mc_layers mc ! i)"
    "0 \<le> ml_gpu_table (mc_layers mc ! i) ! e \<Longrightarrow>
     ml_pool (mc_layers mc' ! i) ! nat (ml_gpu_table (mc_layers mc ! i) ! e) = ml_pool (mc_layers mc ! i) ! nat (ml_gpu_table (mc_layers mc ! i) ! e)"
proof -
  have "map moe_tabs (mc_layers mc') = map moe_tabs (mc_layers mc)"
    using assms(2) by (cases rule: moe_trans.cases) (simp_all add: worker_take_def worker_torn_def worker_finish_def copy_all_same map_update_same moe_tabs_def)
  then have tb: "moe_tabs (mc_layers mc' ! i) = moe_tabs (mc_layers mc ! i)" and len: "length (mc_layers mc') = length (mc_layers mc)"
    using assms(3) by (metis length_map nth_map)+
  then show t: "ml_gpu_table (mc_layers mc' ! i) = ml_gpu_table (mc_layers mc ! i)" "ml_cpu_table (mc_layers mc' ! i) = ml_cpu_table (mc_layers mc ! i)"
    by (simp_all add: moe_tabs_def)
  note I = moe_trans_inv [OF assms(2), simplified, OF assms(1)]
  have st: "moe_static (mc_layers mc' ! i) = moe_static (mc_layers mc ! i)" using I assms(3) len static_nth by metis
  have "e < ml_n_expert (mc_layers mc' ! i)" using st assms(4) by (simp add: moe_static_def)
  with table_slot [OF assms(1,3,4)] table_slot [of mc' i e] I len assms(3) t(1) st
  show "0 \<le> ml_gpu_table (mc_layers mc ! i) ! e \<Longrightarrow>
     ml_pool (mc_layers mc' ! i) ! nat (ml_gpu_table (mc_layers mc ! i) ! e) = ml_pool (mc_layers mc ! i) ! nat (ml_gpu_table (mc_layers mc ! i) ! e)"
    by (simp add: moe_static_def)
qed

section \<open>The properties\<close>

text \<open>A cache of one layer of three experts with two slots, the first of them filled at creation.\<close>

definition example_params :: moe_params where
  "example_params = \<lparr>mp_budget_mib = 1, mp_reserve_mib = 0, mp_max_batch = 8, mp_min_slots = 1, mp_inserts = 1, mp_step_mib = 1,
     mp_hot_uses = 4, mp_static_fill = 1, mp_force_cpu = True\<rparr>"

definition example_source :: "nat moe_source" where
  "example_source = \<lparr>ms_separate = True, ms_host = True, ms_has_data = True, ms_quantized = True, ms_router = True, ms_router_host = True,
     ms_router_split = False, ms_slab = 524288, ms_up = [10, 11, 12], ms_gate = [20, 21, 22], ms_down = [30, 31, 32]\<rparr>"

definition example_cache :: "(nat \<times> nat \<times> nat) moe_cache" where
  "example_cache = the (moe_create example_params 3 None (\<lambda>_. True) (0, 0, 0) (0, 0, 0) [example_source])"

lemma example_create: "moe_create example_params 3 None (\<lambda>_. True) (0, 0, 0) (0, 0, 0) [example_source] = Some example_cache"
  by (simp add: example_cache_def moe_create_def example_params_def example_source_def moe_budget_def moe_n_slots_def)

definition example_layer :: "(nat \<times> nat \<times> nat) moe_layer" where
  "example_layer = \<lparr>ml_il = 0, ml_n_expert = 3, ml_n_slots = 2, ml_slab = 524288, ml_src = [(10, 20, 30), (11, 21, 31), (12, 22, 32)],
     ml_pool = [(10, 20, 30), (0, 0, 0), (0, 0, 0)], ml_gpu_table = [0, -1, -1], ml_cpu_table = [-1, 1, 2], ml_slot_expert = [0, -1],
     ml_expert_slot = [0, -1, -1], ml_slot_last_use = [0, 0], ml_slot_hits = [0, 0], ml_slot_in_flight = [False, False],
     ml_miss_count = [0, 0, 0], ml_expert_pending = [False, False, False], ml_obs = [], ml_obs_cap = 4096\<rparr>"

lemma example_cache_eq:
  "example_cache = \<lparr>mc_params = example_params, mc_layers = [example_layer], mc_todo = [], mc_batch = [], mc_done = [], mc_n_steps = 0,
     mc_n_hits = 0, mc_n_misses = 0, mc_n_fills = 0, mc_n_evict = 0, mc_n_obs_dropped = 0\<rparr>"
  by (simp add: example_cache_def moe_create_def example_params_def example_source_def moe_budget_def moe_n_slots_def create_layer_def
      alloc_layer_def fill_slot_def set_resident_def copy_slot_def flush_tables_def example_layer_def LLAMA_EXPERT_SLOT_SKIP_def
      size_of_int_def upt_rec) (simp add: numeral_2_eq_2 numeral_3_eq_3)

text \<open>A graph has routed its rows to the first two experts.\<close>

definition example_run :: "(nat \<times> nat \<times> nat) moe_cache" where
  "example_run = moe_observe [(0, True, [0, 1])] example_cache"

lemma example_run_reach: "moe_reach example_cache (example_run, False)"
proof -
  have "moe_trans (example_cache, False) (example_cache, True)" "moe_trans (example_cache, True) (example_run, False)"
    unfolding example_run_def by (rule graph_start, rule graph_end)
  then show ?thesis unfolding moe_reach_def by (meson converse_rtranclp_into_rtranclp rtranclp.rtrancl_refl)
qed

lemma example_run_layers: "mc_layers example_run = [example_layer\<lparr>ml_obs := [0, 1]\<rparr>]"
  by (simp add: example_run_def moe_observe_def observe_one_def example_cache_eq example_layer_def)

lemma example_step_reach: "moe_reach example_cache (moe_step example_run, False)"
  using example_run_reach main_step [of example_run] unfolding moe_reach_def by (rule rtranclp.rtrancl_into_rtrancl)

lemma example_todo: "mc_todo (moe_step example_run) = [\<lparr>mj_layer = 0, mj_expert = 1, mj_slot = 1\<rparr>]"
proof -
  have f: "mc_todo example_run = []" "mc_done example_run = []" "mc_params example_run = example_params" "mc_n_steps example_run = 0"
    by (simp_all add: example_run_def moe_observe_def observe_one_def example_cache_eq example_layer_def)
  have "ss_jobs (step_schedule 1 example_run) = [\<lparr>mj_layer = 0, mj_expert = 1, mj_slot = 1\<rparr>]"
    by (simp add: step_schedule_def step_observed_def example_run_layers f example_layer_def consume_layer_def consume_id_def UINT16_MAX_def
        example_params_def step_cap_def size_of_int_def sched_layer_def free_slot_def start_upload_def Let_def upt_rec)
  then show ?thesis unfolding moe_step_fields f step_clock_def by simp
qed

text \<open>
  C10. In every state a run of the main thread and of the worker can reach, the two chains of a graph
  together compute every lane with the weights of the model's own expert: the tables send each expert of
  each cached layer to exactly one chain, and a slot they name holds that expert, whatever copies are
  queued, half done or finished.
\<close>

theorem moe_lane_exact:
  assumes "moe_create mp n_expert free alloc_ok garbage zero ms = Some mc0" "moe_reach mc0 (mc, g)" "i < length (mc_layers mc)" "e < n_expert"
  shows "moe_lane ffn (mc_layers mc ! i) e =
    (let m = ms ! nat (ml_il (mc_layers mc ! i)) in ffn (ms_up m ! e, ms_gate m ! e, ms_down m ! e))"
proof -
  obtain m where m: "m = ms ! nat (ml_il (mc_layers mc ! i))" "ml_n_expert (mc_layers mc ! i) = n_expert"
    "ml_src (mc_layers mc ! i) ! e = (ms_up m ! e, ms_gate m ! e, ms_down m ! e)"
    using reach_layer [OF assms(1-3)] assms(4) by metis
  have "moe_inv mc" using moe_reach_inv [OF assms(2) moe_create_inv [OF assms(1)]] by blast
  from lane_exact [OF this assms(3), of e ffn] m assms(4) show ?thesis by (simp add: Let_def)
qed

theorem moe_lane_exact_witness:
  "moe_lane (\<lambda>(u, g, d). u + g + d) (mc_layers (moe_step example_run) ! 0) 0 = (60 :: nat) \<and> length (mc_layers (moe_step example_run)) = 1"
proof -
  have "map moe_static (mc_layers (moe_step example_run)) = map moe_static (mc_layers example_cache)"
    using moe_reach_inv [OF example_step_reach moe_create_inv [OF example_create]] by blast
  then have l: "moe_static (mc_layers (moe_step example_run) ! 0) = moe_static example_layer" and n: "length (mc_layers (moe_step example_run)) = 1"
    by (auto simp: example_cache_eq)
  have "0 < length (mc_layers (moe_step example_run))" "0 < (3 :: nat)" by (simp_all add: n)
  from moe_lane_exact [OF example_create example_step_reach this, of "\<lambda>(u, g, d). u + g + d"] l n show ?thesis
    by (simp add: moe_static_def example_layer_def example_source_def)
qed

text \<open>
  A step schedules at most \<open>inserts\<close> uploads for a layer and uploads of at most \<open>step_mib\<close> MiB in
  all, and hands them over behind the uploads already queued.
\<close>

lemma moe_step_bounded:
  "\<exists>js. mc_todo (moe_step mc) = mc_todo mc @ js \<and>
     (\<Sum>j \<leftarrow> js. ml_slab (mc_layers mc ! mj_layer j)) \<le> step_cap (mc_params mc) \<and>
     (\<forall>i. length (filter (\<lambda>j. mj_layer j = i) js) \<le> nat (mp_inserts (mc_params mc)))"
  using moe_step_jobs [of mc] unfolding n_jobs_def .



text \<open>
  C27. A step evicts nothing that is hot: an expert whose ids the last graphs routed to its slot is still
  in that slot after the step.
\<close>

theorem moe_hits_stay:
  assumes "moe_create mp n_expert free alloc_ok garbage zero ms = Some mc0" "moe_reach mc0 (mc, False)" "i < length (mc_layers mc)" "e < n_expert"
    "int e \<in> set (ml_obs (mc_layers mc ! i))" "ml_gpu_table (mc_layers mc ! i) ! e = int s"
  shows "ml_gpu_table (mc_layers (moe_step mc) ! i) ! e = int s"
proof -
  have I: "moe_inv mc" using moe_reach_inv [OF assms(2) moe_create_inv [OF assms(1)]] by blast
  have n: "ml_n_expert (mc_layers mc ! i) = n_expert" using reach_layer [OF assms(1-3)] by metis
  have "tables_ok (mc_layers mc ! i)" using I assms(3) by (simp add: moe_inv_def list_all_length)
  then have "ml_expert_slot (mc_layers mc ! i) ! e = int s"
    using assms(4,6) n by (auto simp: tables_ok_iff LLAMA_EXPERT_SLOT_SKIP_def split: if_splits)
  from step_keeps_hits [OF I assms(3) _ assms(5) this] assms(4) n show ?thesis by simp
qed

theorem moe_hits_stay_witness: "ml_gpu_table (mc_layers (moe_step example_run) ! 0) ! 0 = 0"
  using moe_hits_stay [OF example_create example_run_reach, of 0 0 0] by (simp add: example_run_layers example_layer_def)

text \<open>
  The victim of a full pool is the least recently used of the slots that are neither the target of an
  upload nor used in this step, the first one among equals; slots with more hits than \<open>hot_uses\<close> are
  considered only when every such slot is hot, and there is no victim exactly when there is no such slot.
\<close>

lemma victim_slot_lru:
  assumes "\<forall>s < ml_n_slots l. ml_slot_last_use l ! s < UINT64_MAX"
  shows "victim_slot mp n l = Some s \<longleftrightarrow> is_lru l (if cold_slots mp n l = {} then evictable n l else cold_slots mp n l) s"
  by (rule victim_slot_exact [OF assms])

lemma victim_slot_lru_witness: "victim_slot example_params 1 example_layer = Some 0"
proof -
  have "evictable 1 example_layer = {0, 1}" "cold_slots example_params 1 example_layer = {0, 1}"
    by (auto simp: evictable_def cold_slots_def example_layer_def example_params_def nth_Cons' less_2_cases_iff)
  then have "is_lru example_layer (if cold_slots example_params 1 example_layer = {} then evictable 1 example_layer else cold_slots example_params 1 example_layer) 0"
    by (simp add: is_lru_def example_layer_def)
  moreover have "\<forall>s < ml_n_slots example_layer. ml_slot_last_use example_layer ! s < UINT64_MAX"
    by (simp add: example_layer_def UINT64_MAX_def nth_Cons')
  ultimately show ?thesis using victim_slot_lru [of example_layer example_params 1 0] by blast
qed

end
