(* ===== verification/Trie_Match.thy ===== *)
theory Trie_Match
  imports Grammar_Utf8
begin

text \<open>
  The trie, the Aho-Corasick automaton (src/common/trie.cpp, trie.h) with the UTF-8 routines they use
  (src/common/unicode.cpp), and the token matcher on top of them (src/common/reasoning-budget.cpp). Node
  numbers, bytes and code points are naturals; a \<open>std::map\<close> is an association list sorted by key.
\<close>

section \<open>UTF-8\<close>

datatype utf8_parse_result = SUCCESS uint32 nat | INCOMPLETE | INVALID

definition is_cont :: "byte \<Rightarrow> bool" where
  "is_cont b \<longleftrightarrow> b div 64 = 2"

definition common_utf8_sequence_length :: "byte \<Rightarrow> nat" where
  "common_utf8_sequence_length b = [1, 1, 1, 1, 1, 1, 1, 1, 1, 1, 1, 1, 2, 2, 3, 4] ! (b div 16)"

text \<open>The bits of the first byte are tested from the top: \<open>0x80\<close>, \<open>0x40\<close>, \<open>0x20\<close>, \<open>0x10\<close>, \<open>0x08\<close>.\<close>

definition common_parse_utf8_codepoint :: "byte list \<Rightarrow> nat \<Rightarrow> utf8_parse_result" where
  "common_parse_utf8_codepoint input offset =
     (if offset \<ge> length input then INCOMPLETE
      else
        let b = input ! offset; c = (\<lambda>k. input ! (offset + k))
        in if b < 128 then SUCCESS b 1
           else if b div 64 mod 2 = 0 then INVALID
           else if b div 32 mod 2 = 0 then
             (if offset + 1 \<ge> length input then INCOMPLETE
              else if \<not> is_cont (c 1) then INVALID
              else SUCCESS (b mod 32 * 64 + c 1 mod 64) 2)
           else if b div 16 mod 2 = 0 then
             (if offset + 2 \<ge> length input then INCOMPLETE
              else if \<not> is_cont (c 1) \<or> \<not> is_cont (c 2) then INVALID
              else SUCCESS (b mod 16 * 4096 + c 1 mod 64 * 64 + c 2 mod 64) 3)
           else if b div 8 mod 2 = 0 then
             (if offset + 3 \<ge> length input then INCOMPLETE
              else if \<not> is_cont (c 1) \<or> \<not> is_cont (c 2) \<or> \<not> is_cont (c 3) then INVALID
              else SUCCESS (b mod 8 * 262144 + c 1 mod 64 * 4096 + c 2 mod 64 * 64 + c 3 mod 64) 4)
           else INVALID)"

text \<open>The last byte that is no continuation, among the last four, decides.\<close>

definition common_utf8_is_complete :: "byte list \<Rightarrow> bool" where
  "common_utf8_is_complete s =
     (if s = [] then True
      else case List.find (\<lambda>i. \<not> is_cont (s ! (length s - i))) [1..<Suc (min 4 (length s))] of
             None \<Rightarrow> False
           | Some i \<Rightarrow>
               let c = s ! (length s - i); expected = (if c \<ge> 240 then 4 else if c \<ge> 224 then 3 else if c \<ge> 192 then 2 else 1)
               in i \<ge> (expected :: nat))"

text \<open>\<open>None\<close> is the exception on an invalid code point.\<close>

definition common_unicode_cpt_to_utf8 :: "uint32 \<Rightarrow> byte list option" where
  "common_unicode_cpt_to_utf8 cpt =
     (if cpt \<le> 0x7f then Some [cpt]
      else if 0x80 \<le> cpt \<and> cpt \<le> 0x7ff then Some [192 + cpt div 64 mod 32, 128 + cpt mod 64]
      else if 0x800 \<le> cpt \<and> cpt \<le> 0xffff then Some [224 + cpt div 4096 mod 16, 128 + cpt div 64 mod 64, 128 + cpt mod 64]
      else if 0x10000 \<le> cpt \<and> cpt \<le> 0x10ffff then
        Some [240 + cpt div 262144 mod 8, 128 + cpt div 4096 mod 64, 128 + cpt div 64 mod 64, 128 + cpt mod 64]
      else None)"

fun common_unicode_cpts_to_utf8 :: "uint32 list \<Rightarrow> byte list option" where
  "common_unicode_cpts_to_utf8 [] = Some []"
| "common_unicode_cpts_to_utf8 (c # cs) =
     Option.bind (common_unicode_cpt_to_utf8 c) (\<lambda>bs. map_option ((@) bs) (common_unicode_cpts_to_utf8 cs))"

lemma parse_consumes: "common_parse_utf8_codepoint input offset = SUCCESS cp n \<Longrightarrow> 0 < n \<and> offset + n \<le> length input"
  by (auto simp: common_parse_utf8_codepoint_def Let_def split: if_splits)

section \<open>The trie\<close>

record trie_node =
  tn_children :: "(uint32 \<times> nat) list"
  tn_pattern :: int

record common_trie =
  tr_nodes :: "trie_node list"
  tr_n_patterns :: int

definition empty_node :: trie_node where
  "empty_node = \<lparr>tn_children = [], tn_pattern = -1\<rparr>"

definition new_trie :: common_trie where
  "new_trie = \<lparr>tr_nodes = [empty_node], tr_n_patterns = 0\<rparr>"

fun map_insert :: "uint32 \<Rightarrow> nat \<Rightarrow> (uint32 \<times> nat) list \<Rightarrow> (uint32 \<times> nat) list" where
  "map_insert ch v [] = [(ch, v)]"
| "map_insert ch v ((c, u) # cs) =
     (if ch < c then (ch, v) # (c, u) # cs else if ch = c then (c, v) # cs else (c, u) # map_insert ch v cs)"

definition child :: "trie_node list \<Rightarrow> nat \<Rightarrow> uint32 \<Rightarrow> nat option" where
  "child nodes u ch = map_of (tn_children (nodes ! u)) ch"

definition add_child :: "nat \<Rightarrow> uint32 \<Rightarrow> trie_node list \<Rightarrow> trie_node list" where
  "add_child u ch nodes =
     (let nodes' = nodes @ [empty_node]
      in nodes'[u := (nodes' ! u)\<lparr>tn_children := map_insert ch (length nodes) (tn_children (nodes' ! u))\<rparr>])"

text \<open>The loop of \<open>insert\<close>: the node reached and the nodes.\<close>

fun trie_path :: "uint32 list \<Rightarrow> nat \<Rightarrow> trie_node list \<Rightarrow> nat \<times> trie_node list" where
  "trie_path [] current nodes = (current, nodes)"
| "trie_path (ch # chs) current nodes =
     (case child nodes current ch of
        None \<Rightarrow> trie_path chs (length nodes) (add_child current ch nodes)
      | Some v \<Rightarrow> trie_path chs v nodes)"

definition trie_insert :: "uint32 list \<Rightarrow> common_trie \<Rightarrow> int \<times> common_trie" where
  "trie_insert symbols t =
     (case trie_path symbols 0 (tr_nodes t) of
        (current, nodes) \<Rightarrow>
          if tn_pattern (nodes ! current) < 0
          then (tr_n_patterns t, \<lparr>tr_nodes = nodes[current := (nodes ! current)\<lparr>tn_pattern := tr_n_patterns t\<rparr>], tr_n_patterns = tr_n_patterns t + 1\<rparr>)
          else (tn_pattern (nodes ! current), t\<lparr>tr_nodes := nodes\<rparr>))"

text \<open>The code points of a word, up to the first byte sequence that does not decode.\<close>

function word_symbols :: "byte list \<Rightarrow> nat \<Rightarrow> uint32 list" where
  "word_symbols word pos =
     (case common_parse_utf8_codepoint word pos of SUCCESS cp n \<Rightarrow> cp # word_symbols word (pos + n) | _ \<Rightarrow> [])"
  by pat_completeness auto

termination
  by (relation "measure (\<lambda>(word, pos). length word - pos)") (auto dest: parse_consumes)

definition trie_insert_string :: "byte list \<Rightarrow> common_trie \<Rightarrow> int \<times> common_trie" where
  "trie_insert_string word t = trie_insert (word_symbols word 0) t"

definition trie_of_strings :: "byte list list \<Rightarrow> common_trie" where
  "trie_of_strings words = fold (\<lambda>w t. snd (trie_insert_string w t)) words new_trie"

datatype match_result = NO_MATCH | PARTIAL_MATCH | COMPLETE_MATCH

function check_loop :: "trie_node list \<Rightarrow> byte list \<Rightarrow> nat \<Rightarrow> nat \<Rightarrow> match_result" where
  "check_loop nodes sv pos current =
     (case common_parse_utf8_codepoint sv pos of
        SUCCESS cp n \<Rightarrow>
          (case child nodes current cp of
             None \<Rightarrow> NO_MATCH
           | Some v \<Rightarrow> if tn_pattern (nodes ! v) \<ge> 0 then COMPLETE_MATCH else check_loop nodes sv (pos + n) v)
      | _ \<Rightarrow> if current \<noteq> 0 then PARTIAL_MATCH else NO_MATCH)"
  by pat_completeness auto

termination
  by (relation "measure (\<lambda>(nodes, sv, pos, current). length sv - pos)") (auto dest: parse_consumes)

definition check_at :: "common_trie \<Rightarrow> byte list \<Rightarrow> nat \<Rightarrow> match_result" where
  "check_at t sv start_pos = check_loop (tr_nodes t) sv start_pos 0"

section \<open>The automaton\<close>

record common_aho_corasick =
  ac_nodes :: "trie_node list"
  ac_fail :: "nat list"
  ac_order :: "nat list"
  ac_match :: "int list"

text \<open>The walk along the failure links to a node with a transition; \<open>None\<close> is a walk without end.\<close>

partial_function (option) fail_walk :: "trie_node list \<Rightarrow> nat list \<Rightarrow> uint32 \<Rightarrow> nat \<Rightarrow> nat option" where
  "fail_walk nodes fl ch f = (if f \<noteq> 0 \<and> child nodes f ch = None then fail_walk nodes fl ch (fl ! f) else Some f)"

text \<open>The failure links of the children of \<open>u\<close>, in key order.\<close>

fun link_children :: "trie_node list \<Rightarrow> nat \<Rightarrow> (uint32 \<times> nat) list \<Rightarrow> nat list \<Rightarrow> nat list option" where
  "link_children nodes u [] fl = Some fl"
| "link_children nodes u ((ch, v) # cs) fl =
     (if u \<noteq> 0 then
        Option.bind (fail_walk nodes fl ch (fl ! u))
          (\<lambda>f. link_children nodes u cs (fl[v := (case child nodes f ch of Some x \<Rightarrow> if x \<noteq> v then x else 0 | None \<Rightarrow> 0)]))
      else link_children nodes u cs fl)"

partial_function (option) ac_bfs :: "trie_node list \<Rightarrow> nat list \<Rightarrow> nat list \<Rightarrow> nat list \<Rightarrow> (nat list \<times> nat list) option" where
  "ac_bfs nodes queue order fl =
     (if queue = [] then Some (order, fl)
      else Option.bind (link_children nodes (hd queue) (tn_children (nodes ! hd queue)) fl)
             (\<lambda>fl. ac_bfs nodes (tl queue @ map snd (tn_children (nodes ! hd queue))) (order @ [hd queue]) fl))"

definition match_node :: "trie_node list \<Rightarrow> nat list \<Rightarrow> nat \<Rightarrow> int list \<Rightarrow> int list" where
  "match_node nodes fl u m =
     m[u := (if tn_pattern (nodes ! u) \<ge> 0 then tn_pattern (nodes ! u) else if u \<noteq> 0 then m ! (fl ! u) else -1)]"

definition aho_corasick :: "common_trie \<Rightarrow> common_aho_corasick option" where
  "aho_corasick t =
     map_option (\<lambda>(order, fl).
         \<lparr>ac_nodes = tr_nodes t, ac_fail = fl, ac_order = order,
          ac_match = fold (match_node (tr_nodes t) fl) order (replicate (length (tr_nodes t)) (-1))\<rparr>)
       (ac_bfs (tr_nodes t) [0] [] (replicate (length (tr_nodes t)) 0))"

definition ac_alphabet :: "common_aho_corasick \<Rightarrow> uint32 set" where
  "ac_alphabet ac = (\<Union>node \<in> set (ac_nodes ac). fst ` set (tn_children node))"

definition ac_is_terminal :: "common_aho_corasick \<Rightarrow> nat \<Rightarrow> bool" where
  "ac_is_terminal ac s \<longleftrightarrow> ac_match ac ! s \<ge> 0"

definition ac_next :: "common_aho_corasick \<Rightarrow> nat \<Rightarrow> uint32 \<Rightarrow> nat option" where
  "ac_next ac state ch =
     map_option (\<lambda>s. case child (ac_nodes ac) s ch of Some v \<Rightarrow> v | None \<Rightarrow> 0) (fail_walk (ac_nodes ac) (ac_fail ac) ch state)"

section \<open>The token matcher\<close>

record token_matcher =
  tm_seqs :: "llama_token list list"
  tm_ac :: common_aho_corasick
  tm_state :: nat

definition collect_seqs :: "llama_token list list \<Rightarrow> llama_token list list" where
  "collect_seqs seqs = fold (\<lambda>seq res. if seq \<noteq> [] \<and> seq \<notin> set res then res @ [seq] else res) seqs []"

text \<open>A token cast to \<open>uint32_t\<close>.\<close>

definition token_symbol :: "llama_token \<Rightarrow> uint32" where
  "token_symbol t = nat (t mod 2 ^ 32)"

definition build_trie :: "llama_token list list \<Rightarrow> common_trie" where
  "build_trie seqs = fold (\<lambda>seq t. snd (trie_insert (map token_symbol seq) t)) seqs new_trie"

definition new_matcher :: "llama_token list list \<Rightarrow> token_matcher option" where
  "new_matcher seqs =
     map_option (\<lambda>ac. \<lparr>tm_seqs = collect_seqs seqs, tm_ac = ac, tm_state = 0\<rparr>) (aho_corasick (build_trie (collect_seqs seqs)))"

definition matcher_advance :: "llama_token \<Rightarrow> token_matcher \<Rightarrow> (int \<times> token_matcher) option" where
  "matcher_advance token tm =
     map_option (\<lambda>s. let p = ac_match (tm_ac tm) ! s in (p, tm\<lparr>tm_state := (if p \<ge> 0 then 0 else s)\<rparr>))
       (ac_next (tm_ac tm) (tm_state tm) (token_symbol token))"

definition matcher_reset :: "token_matcher \<Rightarrow> token_matcher" where
  "matcher_reset tm = tm\<lparr>tm_state := 0\<rparr>"

end
