(* ===== verification/Aho_Trie.thy ===== *)
theory Aho_Trie
  imports Trie_Match
begin

text \<open>
  The nodes of a trie are the prefixes of its patterns: \<open>L\<close> gives the word of each node.
\<close>

section \<open>Children\<close>

lemma map_of_map_insert [simp]: "map_of (map_insert ch v cs) = (map_of cs)(ch \<mapsto> v)"
  by (induction ch v cs rule: map_insert.induct) auto

lemma map_insert_keys: "fst ` set (map_insert ch v cs) = insert ch (fst ` set cs)"
  by (induction ch v cs rule: map_insert.induct) auto

lemma map_insert_sorted: "sorted_wrt (<) (map fst cs) \<Longrightarrow> sorted_wrt (<) (map fst (map_insert ch v cs))"
proof (induction ch v cs rule: map_insert.induct)
  case (2 ch v c u cs)
  have "\<forall>x \<in> set (map fst (map_insert ch v cs)). c < x" if "c < ch"
    using that 2(2) map_insert_keys [of ch v cs] by auto
  with 2 show ?case by (auto intro: less_trans)
qed simp

section \<open>Words of nodes\<close>

definition trie_ok :: "trie_node list \<Rightarrow> uint32 list list \<Rightarrow> bool" where
  "trie_ok nodes L \<longleftrightarrow> length L = length nodes \<and> L \<noteq> [] \<and> L ! 0 = [] \<and> distinct L \<and>
     (\<forall>u < length nodes. sorted_wrt (<) (map fst (tn_children (nodes ! u)))) \<and>
     (\<forall>u < length nodes. \<forall>ch v. child nodes u ch = Some v \<longleftrightarrow> v < length nodes \<and> L ! v = L ! u @ [ch]) \<and>
     (\<forall>v < length nodes. v \<noteq> 0 \<longrightarrow> (\<exists>u < length nodes. \<exists>ch. L ! v = L ! u @ [ch]))"

lemma trie_ok_new: "trie_ok (tr_nodes new_trie) [[]]"
  by (auto simp: trie_ok_def new_trie_def empty_node_def child_def)

lemma trie_ok_child: "trie_ok nodes L \<Longrightarrow> u < length nodes \<Longrightarrow> child nodes u ch = Some v \<longleftrightarrow> v < length nodes \<and> L ! v = L ! u @ [ch]"
  by (simp add: trie_ok_def)

lemma trie_ok_no_child:
  assumes "trie_ok nodes L" "u < length nodes" "child nodes u ch = None"
  shows "L ! u @ [ch] \<notin> set L"
proof
  assume "L ! u @ [ch] \<in> set L"
  then obtain v where "v < length nodes" "L ! v = L ! u @ [ch]" using assms(1) by (metis in_set_conv_nth trie_ok_def)
  with trie_ok_child [OF assms(1,2), of ch v] assms(3) show False by simp
qed

lemma trie_ok_inj: "trie_ok nodes L \<Longrightarrow> u < length nodes \<Longrightarrow> v < length nodes \<Longrightarrow> L ! u = L ! v \<longleftrightarrow> u = v"
  by (simp add: trie_ok_def nth_eq_iff_index_eq)

lemma trie_ok_root: "trie_ok nodes L \<Longrightarrow> u < length nodes \<Longrightarrow> L ! u = [] \<longleftrightarrow> u = 0"
  using trie_ok_inj [of nodes L u 0] by (auto simp: trie_ok_def)

lemma trie_ok_parent:
  assumes "trie_ok nodes L" "v < length nodes" "L ! v = w @ [ch]"
  obtains u where "u < length nodes" "L ! u = w" "child nodes u ch = Some v"
proof -
  have "v \<noteq> 0" using trie_ok_root [OF assms(1,2)] assms(3) by auto
  then obtain u c where "u < length nodes" "L ! v = L ! u @ [c]" using assms(1,2) by (auto simp: trie_ok_def)
  with that [of u] assms trie_ok_child [OF assms(1), of u ch v] show ?thesis by simp
qed

section \<open>Insertion\<close>

lemma add_child_nodes:
  assumes "u < length nodes"
  shows "length (add_child u ch nodes) = length nodes + 1"
    "x < length nodes \<Longrightarrow> tn_pattern (add_child u ch nodes ! x) = tn_pattern (nodes ! x)"
    "add_child u ch nodes ! length nodes = empty_node"
    "x < length nodes \<Longrightarrow> tn_children (add_child u ch nodes ! x) = (if x = u then map_insert ch (length nodes) (tn_children (nodes ! u)) else tn_children (nodes ! x))"
  using assms by (auto simp: add_child_def Let_def nth_append nth_list_update')

lemma add_child_child:
  assumes "u < length nodes" "x < length nodes"
  shows "child (add_child u ch nodes) x c = (if x = u \<and> c = ch then Some (length nodes) else child nodes x c)"
  using assms by (simp add: child_def add_child_nodes)

lemma add_child_ok:
  assumes "trie_ok nodes L" "u < length nodes" "child nodes u ch = None"
  shows "trie_ok (add_child u ch nodes) (L @ [L ! u @ [ch]])"
proof -
  let ?n = "length nodes" and ?N = "add_child u ch nodes" and ?L = "L @ [L ! u @ [ch]]"
  have new: "L ! u @ [ch] \<notin> set L" by (rule trie_ok_no_child [OF assms])
  have len: "length L = ?n" and lenN: "length ?N = ?n + 1" using assms(1,2) by (simp_all add: trie_ok_def add_child_nodes)
  have L: "?L ! x = L ! x" if "x < ?n" for x using that len by (simp add: nth_append)
  have Ln: "?L ! ?n = L ! u @ [ch]" using len by (metis nth_append_length)
  have mem: "L ! x \<in> set L" if "x < ?n" for x using that len by simp
  have c: "child ?N x c = Some v \<longleftrightarrow> v < ?n + 1 \<and> ?L ! v = ?L ! x @ [c]" if x: "x < ?n + 1" for x c v
  proof (cases "x = ?n")
    case True
    have "?L ! y \<noteq> ?L ! ?n @ [c]" if "y < ?n + 1" for y
    proof (cases "y = ?n")
      case True
      then show ?thesis by simp
    next
      case False
      then have v: "y < ?n" using that by simp
      show ?thesis
      proof
        assume "?L ! y = ?L ! ?n @ [c]"
        then have "L ! y = (L ! u @ [ch]) @ [c]" using L [OF v] Ln by simp
        then obtain p where "p < ?n" "L ! p = L ! u @ [ch]" by (rule trie_ok_parent [OF assms(1) v])
        with new mem show False by metis
      qed
    qed
    moreover have "child ?N ?n c = None" using assms(2) by (simp add: child_def add_child_nodes empty_node_def)
    ultimately show ?thesis using True by auto
  next
    case False
    then have x': "x < ?n" using x by simp
    show ?thesis
    proof (cases "x = u \<and> c = ch")
      case True
      then have "child ?N x c = Some ?n" using add_child_child [OF assms(2) x'] by simp
      moreover have "?L ! y = L ! u @ [ch] \<longleftrightarrow> y = ?n" if "y < ?n + 1" for y
        using that L mem new Ln by (metis less_SucE Suc_eq_plus1)
      ultimately show ?thesis using True L [OF assms(2)] by auto
    next
      case False
      then have "child ?N x c = child nodes x c" using add_child_child [OF assms(2) x'] by auto
      moreover have "?L ! ?n \<noteq> L ! x @ [c]" using False Ln trie_ok_inj [OF assms(1) x' assms(2)] by auto
      moreover have "v < ?n + 1 \<longleftrightarrow> v < ?n \<or> v = ?n" by auto
      ultimately show ?thesis using trie_ok_child [OF assms(1) x', of c v] L [OF x'] L by metis
    qed
  qed
  have par: "\<exists>p < ?n + 1. \<exists>c. ?L ! v = ?L ! p @ [c]" if "v < ?n + 1" "v \<noteq> 0" for v
  proof (cases "v = ?n")
    case True
    then show ?thesis using L [OF assms(2)] Ln assms(2) by (intro exI [of _ u]) auto
  next
    case False
    then have "v < ?n" using that by simp
    from this that(2) assms(1) obtain p c where "p < ?n" "L ! v = L ! p @ [c]" unfolding trie_ok_def by blast
    with L L [OF \<open>v < ?n\<close>] show ?thesis by (intro exI [of _ p]) auto
  qed
  have sorted: "sorted_wrt (<) (map fst (tn_children (?N ! x)))" if "x < ?n + 1" for x
    using that assms map_insert_sorted add_child_nodes(3,4) [OF assms(2)]
    by (cases "x = ?n") (auto simp: empty_node_def trie_ok_def)
  have "?L ! 0 = []" "distinct ?L" using new assms(1,2) by (auto simp: trie_ok_def nth_append)
  then show ?thesis unfolding trie_ok_def lenN using c par sorted len by simp
qed

text \<open>The patterns, in the order of their numbers.\<close>

definition pats_ok :: "trie_node list \<Rightarrow> uint32 list list \<Rightarrow> uint32 list list \<Rightarrow> bool" where
  "pats_ok nodes L pats \<longleftrightarrow> distinct pats \<and> set pats \<subseteq> set L \<and>
     (\<forall>u < length nodes. tn_pattern (nodes ! u) = -1 \<and> L ! u \<notin> set pats \<or>
        (\<exists>i < length pats. tn_pattern (nodes ! u) = int i \<and> pats ! i = L ! u))"

lemma trie_path_ok:
  "trie_ok nodes L \<Longrightarrow> pats_ok nodes L pats \<Longrightarrow> u < length nodes \<Longrightarrow> trie_path w u nodes = (v, nodes') \<Longrightarrow>
   \<exists>E. trie_ok nodes' (L @ E) \<and> pats_ok nodes' (L @ E) pats \<and> v < length nodes' \<and> (L @ E) ! v = L ! u @ w \<and> (\<forall>x \<in> set E. prefix x (L ! u @ w))"
proof (induction w u nodes arbitrary: L rule: trie_path.induct)
  case (2 ch w u nodes)
  show ?case
  proof (cases "child nodes u ch")
    case None
    let ?L = "L @ [L ! u @ [ch]]"
    have ok: "trie_ok (add_child u ch nodes) ?L" by (rule add_child_ok [OF 2(3,5) None])
    have n: "length L = length nodes" "L ! u @ [ch] \<notin> set L" using 2(3) trie_ok_no_child [OF 2(3,5) None] by (auto simp: trie_ok_def)
    have p: "pats_ok (add_child u ch nodes) ?L pats"
      unfolding pats_ok_def
    proof (intro conjI allI impI)
      fix x assume "x < length (add_child u ch nodes)"
      then consider "x < length nodes" | "x = length nodes" using add_child_nodes(1) [OF 2(5)] by fastforce
      then show "tn_pattern (add_child u ch nodes ! x) = -1 \<and> ?L ! x \<notin> set pats \<or>
          (\<exists>i < length pats. tn_pattern (add_child u ch nodes ! x) = int i \<and> pats ! i = ?L ! x)"
      proof cases
        case 1
        then show ?thesis using 2(4) n add_child_nodes(2) [OF 2(5) 1] by (simp add: pats_ok_def nth_append)
      next
        case b: 2
        then show ?thesis using 2(4) n add_child_nodes(3) [OF 2(5)] by (auto simp: pats_ok_def empty_node_def nth_append)
      qed
    qed (use 2(4) in \<open>auto simp: pats_ok_def\<close>)
    have "trie_path w (length nodes) (add_child u ch nodes) = (v, nodes')" using 2(6) None by simp
    from 2(1) [OF None ok p _ this] add_child_nodes(1) [OF 2(5)]
    obtain E where E: "trie_ok nodes' (?L @ E)" "pats_ok nodes' (?L @ E) pats" "v < length nodes'" "(?L @ E) ! v = ?L ! length nodes @ w"
      "\<forall>x \<in> set E. prefix x (?L ! length nodes @ w)" by auto
    have "?L ! length nodes = L ! u @ [ch]" using n(1) by (metis nth_append_length)
    with E show ?thesis by (intro exI [of _ "(L ! u @ [ch]) # E"]) simp
  next
    case (Some x)
    with 2(6) have "trie_path w x nodes = (v, nodes')" by simp
    moreover have "x < length nodes" "L ! x = L ! u @ [ch]" using trie_ok_child [OF 2(3,5)] Some by auto
    ultimately show ?thesis using 2(2) [OF Some 2(3,4)] by auto
  qed
qed (intro exI [of _ "[]"], simp)

lemma trie_insert_ok:
  assumes "trie_ok (tr_nodes t) L" "pats_ok (tr_nodes t) L pats" "tr_n_patterns t = int (length pats)" "trie_insert w t = (p, t')"
  shows "\<exists>L'. trie_ok (tr_nodes t') L' \<and> pats_ok (tr_nodes t') L' (if w \<in> set pats then pats else pats @ [w]) \<and>
     tr_n_patterns t' = int (length (if w \<in> set pats then pats else pats @ [w])) \<and> (\<forall>x \<in> set L'. x \<in> set L \<or> prefix x w)"
proof -
  obtain v nodes where path: "trie_path w 0 (tr_nodes t) = (v, nodes)" by (metis surj_pair)
  have "0 < length (tr_nodes t)" "L ! 0 = []" using assms(1) by (auto simp: trie_ok_def)
  from trie_path_ok [OF assms(1,2) this(1) path] this(2)
  obtain E where "trie_ok nodes (L @ E)" "pats_ok nodes (L @ E) pats" "v < length nodes" "(L @ E) ! v = w" "\<forall>x \<in> set E. prefix x w" by auto
  then obtain K where K: "trie_ok nodes K" "pats_ok nodes K pats" "v < length nodes" "K ! v = w" "\<forall>x \<in> set K. x \<in> set L \<or> prefix x w"
    by (metis Un_iff set_append)
  have wK: "w \<in> set K" using K(1,3,4) by (auto simp: trie_ok_def in_set_conv_nth)
  show ?thesis
  proof (cases "tn_pattern (nodes ! v) < 0")
    case True
    then have w: "w \<notin> set pats" using K(2-4) by (force simp: pats_ok_def)
    let ?N = "nodes[v := (nodes ! v)\<lparr>tn_pattern := tr_n_patterns t\<rparr>]"
    have t': "t' = \<lparr>tr_nodes = ?N, tr_n_patterns = tr_n_patterns t + 1\<rparr>" using assms(4) path True by (auto simp: trie_insert_def)
    have "tn_children (?N ! x) = tn_children (nodes ! x)" for x by (simp add: nth_list_update')
    then have "trie_ok ?N K" using K(1) by (simp add: trie_ok_def child_def)
    moreover have "tn_pattern (?N ! x) = -1 \<and> K ! x \<notin> set (pats @ [w]) \<or> (\<exists>i < length (pats @ [w]). tn_pattern (?N ! x) = int i \<and> (pats @ [w]) ! i = K ! x)"
      if "x < length nodes" for x
    proof (cases "x = v")
      case True
      then show ?thesis using K(3,4) assms(3) by (intro disjI2 exI [of _ "length pats"]) simp
    next
      case False
      then have "K ! x \<noteq> w" using trie_ok_inj [OF K(1) that K(3)] K(4) by simp
      with K(2) that False show ?thesis by (fastforce simp: pats_ok_def nth_append)
    qed
    then have "pats_ok ?N K (pats @ [w])" using K(2) w wK unfolding pats_ok_def by simp
    ultimately show ?thesis using w t' assms(3) K(5) by auto
  next
    case False
    then have "tn_pattern (nodes ! v) \<noteq> -1" by auto
    with K(2,3) obtain i where "i < length pats" "pats ! i = K ! v" unfolding pats_ok_def by blast
    with K(4) have "w \<in> set pats" by (metis nth_mem)
    moreover have "t' = t\<lparr>tr_nodes := nodes\<rparr>" using assms(4) path False by (auto simp: trie_insert_def)
    ultimately show ?thesis using K assms(3) by auto
  qed
qed

end
