(* ===== verification/Aho_Links.thy ===== *)
theory Aho_Links
  imports Aho_Trie
begin

text \<open>
  The failure links: the link of a node is the node of the longest proper suffix of its word, and a walk
  along the links finds the longest suffix with a transition.
\<close>

section \<open>Links and walks\<close>

text \<open>The links of the nodes in \<open>S\<close> are right.\<close>

definition link_of :: "uint32 list list \<Rightarrow> nat \<Rightarrow> nat \<Rightarrow> bool" where
  "link_of L v f \<longleftrightarrow> f < length L \<and> strict_suffix (L ! f) (L ! v) \<and> (\<forall>y < length L. strict_suffix (L ! y) (L ! v) \<longrightarrow> suffix (L ! y) (L ! f))"

definition links_ok :: "uint32 list list \<Rightarrow> nat set \<Rightarrow> nat list \<Rightarrow> bool" where
  "links_ok L S fl \<longleftrightarrow> (\<forall>v \<in> S. v \<noteq> 0 \<longrightarrow> link_of L v (fl ! v))"

text \<open>The nodes whose word is at most as long as that of \<open>u\<close>.\<close>

definition upto_len :: "uint32 list list \<Rightarrow> nat \<Rightarrow> nat set" where
  "upto_len L u = {x. x < length L \<and> length (L ! x) \<le> length (L ! u)}"

lemma link_shorter: "link_of L v f \<Longrightarrow> length (L ! f) < length (L ! v)"
  by (simp add: link_of_def suffix_length_less)

lemma fail_walk_ok:
  assumes T: "trie_ok nodes L"
  shows "f < length nodes \<Longrightarrow> links_ok L (upto_len L f) fl \<Longrightarrow>
    \<exists>g. fail_walk nodes fl ch f = Some g \<and> g < length nodes \<and> suffix (L ! g) (L ! f) \<and> (g = 0 \<or> child nodes g ch \<noteq> None) \<and>
      (\<forall>y < length nodes. suffix (L ! y) (L ! f) \<longrightarrow> child nodes y ch \<noteq> None \<longrightarrow> suffix (L ! y) (L ! g))"
proof (induction "length (L ! f)" arbitrary: f rule: less_induct)
  case less
  have len: "length L = length nodes" using T by (simp add: trie_ok_def)
  show ?case
  proof (cases "f \<noteq> 0 \<and> child nodes f ch = None")
    case False
    then have "fail_walk nodes fl ch f = Some f" by (subst fail_walk.simps) auto
    with False less.prems(1) show ?thesis by auto
  next
    case True
    let ?f = "fl ! f"
    have link: "link_of L f ?f" using less.prems True len by (auto simp: links_ok_def upto_len_def)
    have sub: "upto_len L ?f \<subseteq> upto_len L f" using link_shorter [OF link] by (auto simp: upto_len_def)
    have "?f < length nodes" "links_ok L (upto_len L ?f) fl" using link less.prems(2) sub len by (auto simp: link_of_def links_ok_def)
    from less.hyps [OF link_shorter [OF link] this] obtain g where
      g: "fail_walk nodes fl ch ?f = Some g" "g < length nodes" "suffix (L ! g) (L ! ?f)" "g = 0 \<or> child nodes g ch \<noteq> None"
        "\<forall>y < length nodes. suffix (L ! y) (L ! ?f) \<longrightarrow> child nodes y ch \<noteq> None \<longrightarrow> suffix (L ! y) (L ! g)" by blast
    have "suffix (L ! g) (L ! f)" using g(3) link by (auto simp: link_of_def strict_suffix_def intro: suffix_order.order_trans)
    moreover have "suffix (L ! y) (L ! g)" if y: "y < length nodes" "suffix (L ! y) (L ! f)" "child nodes y ch \<noteq> None" for y
    proof -
      have "y \<noteq> f" using True y(3) by auto
      then have "strict_suffix (L ! y) (L ! f)" using y(2) trie_ok_inj [OF T y(1) less.prems(1)] by (simp add: strict_suffix_def)
      then have "suffix (L ! y) (L ! ?f)" using link y(1) len by (simp add: link_of_def)
      with g(5) y show ?thesis by blast
    qed
    moreover have "fail_walk nodes fl ch f = fail_walk nodes fl ch ?f" using True by (subst fail_walk.simps) simp
    ultimately show ?thesis using g(1,2,4) by auto
  qed
qed

text \<open>The transition after the walk leads to the longest suffix of the extended word.\<close>

definition goto :: "trie_node list \<Rightarrow> nat \<Rightarrow> uint32 \<Rightarrow> nat" where
  "goto nodes g ch = (case child nodes g ch of Some v \<Rightarrow> v | None \<Rightarrow> 0)"

lemma walk_goto:
  assumes T: "trie_ok nodes L" and f: "f < length nodes" "links_ok L (upto_len L f) fl"
  shows "\<exists>g. fail_walk nodes fl ch f = Some g \<and> goto nodes g ch < length nodes \<and> suffix (L ! goto nodes g ch) (L ! f @ [ch]) \<and>
    (\<forall>y < length nodes. suffix (L ! y) (L ! f @ [ch]) \<longrightarrow> suffix (L ! y) (L ! goto nodes g ch))"
proof -
  from fail_walk_ok [OF T f, of ch] obtain g where
    g: "fail_walk nodes fl ch f = Some g" "g < length nodes" "suffix (L ! g) (L ! f)" "g = 0 \<or> child nodes g ch \<noteq> None"
      "\<forall>y < length nodes. suffix (L ! y) (L ! f) \<longrightarrow> child nodes y ch \<noteq> None \<longrightarrow> suffix (L ! y) (L ! g)" by blast
  have n: "0 < length nodes" using f by auto
  have r: "L ! 0 = []" using T by (simp add: trie_ok_def)
  have y: "suffix (L ! y) (L ! goto nodes g ch)" if y: "y < length nodes" "suffix (L ! y) (L ! f @ [ch])" for y
  proof (cases "L ! y" rule: rev_cases)
    case (snoc z c)
    with y(2) have z: "L ! y = z @ [ch]" "suffix z (L ! f)" by auto
    obtain x where x: "x < length nodes" "L ! x = z" "child nodes x ch = Some y" by (rule trie_ok_parent [OF T y(1) z(1)])
    then have zg: "suffix z (L ! g)" using g(5) z(2) by auto
    obtain v where v: "child nodes g ch = Some v"
    proof (cases "child nodes g ch")
      case None
      then have "L ! g = []" using g(4) r by auto
      with zg have "L ! x = L ! g" using x(2) by simp
      then have "x = g" using trie_ok_inj [OF T x(1) g(2)] by simp
      with x(3) None show ?thesis by simp
    qed
    with trie_ok_child [OF T g(2), of ch v] z(1) zg show ?thesis by (simp add: goto_def)
  qed simp
  have "goto nodes g ch < length nodes \<and> suffix (L ! goto nodes g ch) (L ! f @ [ch])"
    using n r trie_ok_child [OF T g(2), of ch] g(3) by (cases "child nodes g ch") (auto simp: goto_def)
  with g(1) y show ?thesis by blast
qed

section \<open>The links of the children of a node\<close>

lemma children_mem:
  assumes "trie_ok nodes L" "u < length nodes"
  shows "(ch, v) \<in> set (tn_children (nodes ! u)) \<longleftrightarrow> child nodes u ch = Some v"
proof -
  have "distinct (map fst (tn_children (nodes ! u)))" using assms by (auto simp: trie_ok_def strict_sorted_iff)
  then show ?thesis by (simp add: child_def)
qed

lemma children_distinct:
  assumes "trie_ok nodes L" "u < length nodes"
  shows "distinct (map snd (tn_children (nodes ! u)))"
proof -
  have "distinct (map fst (tn_children (nodes ! u)))" using assms by (auto simp: trie_ok_def strict_sorted_iff)
  then have d: "distinct (tn_children (nodes ! u))" by (simp add: distinct_map)
  have "inj_on snd (set (tn_children (nodes ! u)))"
  proof (rule inj_onI)
    fix x y assume xy: "x \<in> set (tn_children (nodes ! u))" "y \<in> set (tn_children (nodes ! u))" "snd x = snd y"
    obtain c v d where "x = (c, v)" "y = (d, v)" using xy(3) by (metis prod.collapse)
    with xy children_mem [OF assms] trie_ok_child [OF assms] show "x = y" by (metis append1_eq_conv)
  qed
  with d show ?thesis by (simp add: distinct_map)
qed

lemma link_root_child:
  assumes "trie_ok nodes L" "child nodes 0 ch = Some v"
  shows "link_of L v 0"
proof -
  have n: "0 < length nodes" and r: "L ! 0 = []" and len: "length L = length nodes" using assms(1) by (auto simp: trie_ok_def)
  have v: "L ! v = [ch]" using trie_ok_child [OF assms(1) n, of ch v] assms(2) r by simp
  have "strict_suffix w [ch] \<longleftrightarrow> w = []" for w by (auto simp: strict_suffix_def suffix_Cons)
  then show ?thesis using n r v len by (simp add: link_of_def)
qed

lemma link_child:
  assumes T: "trie_ok nodes L" and u: "u < length nodes" "u \<noteq> 0" "link_of L u f" and v: "child nodes u ch = Some v"
    and g: "g < length nodes" "suffix (L ! g) (L ! f @ [ch])" "\<forall>y < length nodes. suffix (L ! y) (L ! f @ [ch]) \<longrightarrow> suffix (L ! y) (L ! g)"
  shows "link_of L v g" "g \<noteq> v"
proof -
  have len: "length L = length nodes" using T by (simp add: trie_ok_def)
  have Lv: "L ! v = L ! u @ [ch]" using trie_ok_child [OF T u(1), of ch v] v by simp
  have st: "strict_suffix (L ! f @ [ch]) (L ! v)" using u(3) unfolding Lv by (auto simp: link_of_def strict_suffix_def)
  have sg: "strict_suffix (L ! g) (L ! v)" using g(2) st by (rule suffix_order.le_less_trans)
  then show "g \<noteq> v" by (auto simp: strict_suffix_def)
  have "suffix (L ! y) (L ! g)" if y: "y < length nodes" "strict_suffix (L ! y) (L ! v)" for y
  proof (cases "L ! y" rule: rev_cases)
    case (snoc z c)
    with y(2) Lv have z: "L ! y = z @ [ch]" "strict_suffix z (L ! u)" by (auto simp: strict_suffix_def)
    obtain x where x: "x < length nodes" "L ! x = z" by (rule trie_ok_parent [OF T y(1) z(1)])
    then have "suffix z (L ! f)" using u(3) z(2) len by (auto simp: link_of_def)
    then have "suffix (L ! y) (L ! f @ [ch])" using z(1) by simp
    with g(3) y(1) show ?thesis by blast
  qed simp
  with sg g(1) len show "link_of L v g" by (simp add: link_of_def)
qed

lemma link_children_ok:
  assumes T: "trie_ok nodes L" and u: "u < length nodes"
  shows "length fl = length nodes \<Longrightarrow> links_ok L (upto_len L u) fl \<Longrightarrow> \<forall>(ch, v) \<in> set cs. child nodes u ch = Some v \<Longrightarrow> distinct (map snd cs) \<Longrightarrow>
    u = 0 \<longrightarrow> (\<forall>v \<in> snd ` set cs. fl ! v = 0) \<Longrightarrow>
    \<exists>fl'. link_children nodes u cs fl = Some fl' \<and> length fl' = length nodes \<and> (\<forall>x. x \<notin> snd ` set cs \<longrightarrow> fl' ! x = fl ! x) \<and>
      (\<forall>v \<in> snd ` set cs. link_of L v (fl' ! v))"
proof (induction cs arbitrary: fl)
  case (Cons c cs)
  obtain ch v where c: "c = (ch, v)" by (cases c)
  have cv: "child nodes u ch = Some v" "v \<notin> snd ` set cs" using Cons.prems(3,4) c by auto
  have v: "v < length nodes" "L ! v = L ! u @ [ch]" using trie_ok_child [OF T u, of ch v] cv(1) by auto
  show ?case
  proof (cases "u = 0")
    case True
    with Cons.IH [of fl] Cons.prems obtain fl' where fl': "link_children nodes u cs fl = Some fl'" "length fl' = length nodes"
      "\<forall>x. x \<notin> snd ` set cs \<longrightarrow> fl' ! x = fl ! x" "\<forall>v \<in> snd ` set cs. link_of L v (fl' ! v)" by auto
    have "fl' ! v = 0" using fl'(3) cv(2) Cons.prems(5) True c by auto
    then have "link_of L v (fl' ! v)" using link_root_child [OF T] cv(1) True by simp
    with fl' True c show ?thesis by auto
  next
    case False
    let ?f = "fl ! u"
    have len: "length L = length nodes" using T by (simp add: trie_ok_def)
    have lu: "link_of L u ?f" using Cons.prems(2) u False len by (auto simp: links_ok_def upto_len_def)
    have f: "?f < length nodes" "links_ok L (upto_len L ?f) fl"
      using lu link_shorter [OF lu] Cons.prems(2) len by (auto simp: link_of_def links_ok_def upto_len_def)
    obtain w where w: "fail_walk nodes fl ch ?f = Some w" and g: "goto nodes w ch < length nodes" "suffix (L ! goto nodes w ch) (L ! ?f @ [ch])"
      "\<forall>y < length nodes. suffix (L ! y) (L ! ?f @ [ch]) \<longrightarrow> suffix (L ! y) (L ! goto nodes w ch)"
      using walk_goto [OF T f, of ch] by blast
    note lv = link_child [OF T u False lu cv(1) g]
    let ?fl = "fl[v := goto nodes w ch]"
    have eq: "link_children nodes u (c # cs) fl = link_children nodes u cs ?fl"
      using lv(2) w False unfolding goto_def c by (cases "child nodes w ch") auto
    have "v \<notin> upto_len L u" using v by (simp add: upto_len_def)
    then have "links_ok L (upto_len L u) ?fl" using Cons.prems(2) by (auto simp: links_ok_def nth_list_update')
    with Cons.IH [of ?fl] Cons.prems(1,3,4) False obtain fl' where fl': "link_children nodes u cs ?fl = Some fl'" "length fl' = length nodes"
      "\<forall>x. x \<notin> snd ` set cs \<longrightarrow> fl' ! x = ?fl ! x" "\<forall>v \<in> snd ` set cs. link_of L v (fl' ! v)" by auto
    have "fl' ! v = goto nodes w ch" using fl'(3) cv(2) v(1) Cons.prems(1) by simp
    then show ?thesis using fl' lv(1) eq c by (intro exI [of _ fl']) auto
  qed
qed simp

end
