(* ===== verification/Aho_Build.thy ===== *)
theory Aho_Build
  imports Aho_Links
begin

text \<open>
  The breadth-first search sets every link and ends, and the patterns found along the links are the
  longest ones that end at a node.
\<close>

section \<open>The search\<close>

definition bfs_inv :: "trie_node list \<Rightarrow> uint32 list list \<Rightarrow> nat list \<Rightarrow> nat list \<Rightarrow> nat list \<Rightarrow> bool" where
  "bfs_inv nodes L P Q fl \<longleftrightarrow> length fl = length nodes \<and> distinct (P @ Q) \<and> set (P @ Q) \<subseteq> {..<length nodes} \<and>
     sorted (map (\<lambda>x. length (L ! x)) (P @ Q)) \<and> (\<forall>x \<in> set Q. length (L ! x) \<le> length (L ! hd Q) + 1) \<and> 0 \<in> set (P @ Q) \<and>
     (\<forall>u < length nodes. \<forall>ch v. child nodes u ch = Some v \<longrightarrow> (v \<in> set (P @ Q) \<longleftrightarrow> u \<in> set P)) \<and>
     links_ok L (set (P @ Q)) fl \<and> (\<forall>v < length nodes. v \<notin> set (P @ Q) \<longrightarrow> fl ! v = 0)"

lemma bfs_inv_start: "trie_ok nodes L \<Longrightarrow> bfs_inv nodes L [] [0] (replicate (length nodes) 0)"
proof -
  assume T: "trie_ok nodes L"
  then have "L ! 0 = []" "0 < length nodes" by (auto simp: trie_ok_def)
  moreover have "v \<noteq> 0" if "u < length nodes" "child nodes u ch = Some v" for u ch v
    using trie_ok_child [OF T that(1), of ch v] that(2) calculation(1) by (cases v) auto
  ultimately show ?thesis by (auto simp: bfs_inv_def links_ok_def)
qed

text \<open>No node at the length of the head of the queue is missing.\<close>

lemma bfs_covers:
  assumes T: "trie_ok nodes L" and I: "bfs_inv nodes L P (u # Q) fl"
  shows "upto_len L u \<subseteq> set (P @ u # Q)"
proof
  fix x assume "x \<in> upto_len L u"
  then have x: "x < length nodes" "length (L ! x) \<le> length (L ! u)" using T by (auto simp: upto_len_def trie_ok_def)
  then show "x \<in> set (P @ u # Q)"
  proof (induction "length (L ! x)" arbitrary: x rule: less_induct)
    case less
    show ?case
    proof (cases "L ! x" rule: rev_cases)
      case Nil
      then have "x = 0" using trie_ok_root [OF T less.prems(1)] by simp
      then show ?thesis using I by (auto simp: bfs_inv_def)
    next
      case (snoc w c)
      obtain p where p: "p < length nodes" "L ! p = w" "child nodes p c = Some x" by (rule trie_ok_parent [OF T less.prems(1) snoc])
      have l: "length (L ! p) < length (L ! x)" "length (L ! p) < length (L ! u)" using p(2) snoc less.prems(2) by simp_all
      from less.hyps [OF l(1) p(1)] l(2) have "p \<in> set (P @ u # Q)" by simp
      moreover have "length (L ! u) \<le> length (L ! q)" if "q \<in> set (u # Q)" for q
        using I that unfolding bfs_inv_def by (auto simp: sorted_append)
      ultimately have "p \<in> set P" using l(2) by fastforce
      with I p show ?thesis unfolding bfs_inv_def by blast
    qed
  qed
qed

lemma bfs_step:
  assumes T: "trie_ok nodes L" and I: "bfs_inv nodes L P (u # Q) fl"
  shows "\<exists>fl'. link_children nodes u (tn_children (nodes ! u)) fl = Some fl' \<and>
    bfs_inv nodes L (P @ [u]) (Q @ map snd (tn_children (nodes ! u))) fl'"
proof -
  let ?cs = "tn_children (nodes ! u)" and ?S = "set (P @ u # Q)"
  have u: "u < length nodes" and len: "length L = length nodes" and lf: "length fl = length nodes" and nu: "u \<notin> set P"
    using T I by (auto simp: bfs_inv_def trie_ok_def)
  have sP: "sorted (map (\<lambda>x. length (L ! x)) P)" and sQ: "sorted (map (\<lambda>x. length (L ! x)) Q)"
    and PQ: "\<And>x y. x \<in> set P \<Longrightarrow> y \<in> set (u # Q) \<Longrightarrow> length (L ! x) \<le> length (L ! y)"
    and uQ: "\<And>x. x \<in> set Q \<Longrightarrow> length (L ! u) \<le> length (L ! x)"
    and hQ: "\<And>x. x \<in> set Q \<Longrightarrow> length (L ! x) \<le> length (L ! u) + 1"
    using I unfolding bfs_inv_def by (auto simp: sorted_append)
  have cm: "(ch, v) \<in> set ?cs \<longleftrightarrow> child nodes u ch = Some v" for ch v by (rule children_mem [OF T u])
  have cv: "v < length nodes" "length (L ! v) = length (L ! u) + 1" "v \<notin> ?S" if "v \<in> snd ` set ?cs" for v
  proof -
    from that obtain ch where c: "child nodes u ch = Some v" using cm by force
    then show "v < length nodes" "length (L ! v) = length (L ! u) + 1" using trie_ok_child [OF T u, of ch v] by auto
    show "v \<notin> ?S" using I nu u c unfolding bfs_inv_def by blast
  qed
  have lo: "links_ok L (upto_len L u) fl" using I bfs_covers [OF T I] unfolding bfs_inv_def links_ok_def by blast
  have out: "\<And>v. v < length nodes \<Longrightarrow> v \<notin> ?S \<Longrightarrow> fl ! v = 0" and lS: "links_ok L ?S fl" using I unfolding bfs_inv_def by simp_all
  have z: "u = 0 \<longrightarrow> (\<forall>v \<in> snd ` set ?cs. fl ! v = 0)" by (intro impI ballI out cv)
  from link_children_ok [OF T u lf lo _ children_distinct [OF T u] z] cm
  obtain fl' where fl': "link_children nodes u ?cs fl = Some fl'" "length fl' = length nodes" "\<forall>x. x \<notin> snd ` set ?cs \<longrightarrow> fl' ! x = fl ! x"
    "\<forall>v \<in> snd ` set ?cs. link_of L v (fl' ! v)" by blast
  have S': "set ((P @ [u]) @ Q @ map snd ?cs) = ?S \<union> snd ` set ?cs" by auto
  have sc: "sorted (map (\<lambda>x. length (L ! x)) (map snd ?cs))"
    using cv(2) by (simp add: sorted_iff_nth_mono)
  have "length (L ! x) \<le> length (L ! u) + 1" if "x \<in> set P" for x using PQ [OF that, of u] by simp
  then have "sorted (map (\<lambda>x. length (L ! x)) ((P @ [u]) @ Q @ map snd ?cs))"
    using sP sQ sc PQ uQ hQ cv(2) by (simp add: sorted_append image_iff) fastforce
  moreover have "\<forall>x \<in> set (Q @ map snd ?cs). length (L ! x) \<le> length (L ! hd (Q @ map snd ?cs)) + 1"
  proof
    fix x assume x: "x \<in> set (Q @ map snd ?cs)"
    have b: "length (L ! u) \<le> length (L ! y) \<and> length (L ! y) \<le> length (L ! u) + 1" if "y \<in> set (Q @ map snd ?cs)" for y
      using that uQ hQ cv(2) by fastforce
    from x have "hd (Q @ map snd ?cs) \<in> set (Q @ map snd ?cs)" by (intro hd_in_set) auto
    with b b [OF x] show "length (L ! x) \<le> length (L ! hd (Q @ map snd ?cs)) + 1" by fastforce
  qed
  moreover have "distinct ((P @ [u]) @ Q @ map snd ?cs)" using I cv(3) children_distinct [OF T u] by (auto simp: bfs_inv_def)
  moreover have "v \<in> ?S \<union> snd ` set ?cs \<longleftrightarrow> x \<in> set (P @ [u])" if "x < length nodes" "child nodes x ch = Some v" for x ch v
  proof (cases "x = u")
    case True
    then have "v \<in> snd ` set ?cs" using cm that(2) by force
    with True show ?thesis by simp
  next
    case False
    have "v \<notin> snd ` set ?cs"
    proof
      assume "v \<in> snd ` set ?cs"
      then obtain c where "child nodes u c = Some v" using cm by force
      then have "L ! u @ [c] = L ! x @ [ch]" using trie_ok_child [OF T u] trie_ok_child [OF T that(1)] that(2) by metis
      with False trie_ok_inj [OF T u that(1)] show False by simp
    qed
    with I that False show ?thesis unfolding bfs_inv_def by auto
  qed
  moreover have "links_ok L (?S \<union> snd ` set ?cs) fl'"
    unfolding links_ok_def
  proof (intro ballI impI)
    fix v assume v: "v \<in> ?S \<union> snd ` set ?cs" "v \<noteq> 0"
    show "link_of L v (fl' ! v)"
    proof (cases "v \<in> snd ` set ?cs")
      case False
      with v lS fl'(3) show ?thesis by (auto simp: links_ok_def)
    qed (use fl'(4) in blast)
  qed
  moreover have "\<forall>v < length nodes. v \<notin> ?S \<union> snd ` set ?cs \<longrightarrow> fl' ! v = 0" using out fl'(3) by simp
  moreover have "set ((P @ [u]) @ Q @ map snd ?cs) \<subseteq> {..<length nodes}" "0 \<in> ?S" using I cv(1) unfolding S' bfs_inv_def by auto
  ultimately have "bfs_inv nodes L (P @ [u]) (Q @ map snd ?cs) fl'" unfolding bfs_inv_def S' using fl'(2) by blast
  with fl'(1) show ?thesis by blast
qed

lemma ac_bfs_ok:
  assumes T: "trie_ok nodes L"
  shows "bfs_inv nodes L P Q fl \<Longrightarrow> \<exists>order fl'. ac_bfs nodes Q P fl = Some (order, fl') \<and> bfs_inv nodes L order [] fl'"
proof (induction "length nodes - length P" arbitrary: P Q fl rule: less_induct)
  case less
  show ?case
  proof (cases Q)
    case Nil
    then show ?thesis using less.prems by (subst ac_bfs.simps) auto
  next
    case (Cons u Q')
    have "card (set (P @ Q)) = length P + length Q" using less.prems unfolding bfs_inv_def by (metis distinct_card length_append)
    moreover have "card (set (P @ Q)) \<le> length nodes"
      using less.prems card_mono [of "{..<length nodes}" "set (P @ Q)"] by (simp add: bfs_inv_def)
    ultimately have m: "length nodes - length (P @ [u]) < length nodes - length P" using Cons by simp
    obtain fl' where fl': "link_children nodes u (tn_children (nodes ! u)) fl = Some fl'" "bfs_inv nodes L (P @ [u]) (Q' @ map snd (tn_children (nodes ! u))) fl'"
      using bfs_step [OF T, of P u Q' fl] less.prems Cons by blast
    from less.hyps [OF m fl'(2)] fl'(1) Cons show ?thesis by (subst ac_bfs.simps) simp
  qed
qed

lemma bfs_all:
  assumes T: "trie_ok nodes L" and I: "bfs_inv nodes L P [] fl"
  shows "set P = {..<length nodes}" "links_ok L {..<length nodes} fl"
proof -
  have "v \<in> set P" if "v < length nodes" for v
    using that
  proof (induction "length (L ! v)" arbitrary: v rule: less_induct)
    case less
    show ?case
    proof (cases "L ! v" rule: rev_cases)
      case Nil
      then show ?thesis using trie_ok_root [OF T less.prems] I by (auto simp: bfs_inv_def)
    next
      case (snoc w c)
      obtain p where p: "p < length nodes" "L ! p = w" "child nodes p c = Some v" by (rule trie_ok_parent [OF T less.prems snoc])
      with less.hyps [of p] snoc I show ?thesis by (auto simp: bfs_inv_def)
    qed
  qed
  then show "set P = {..<length nodes}" using I by (auto simp: bfs_inv_def)
  with I show "links_ok L {..<length nodes} fl" by (simp add: bfs_inv_def)
qed

section \<open>The longest pattern at a node\<close>

text \<open>The number of the longest pattern that ends the word \<open>w\<close>, or -1.\<close>

definition longest_pattern :: "'a list list \<Rightarrow> 'a list \<Rightarrow> int \<Rightarrow> bool" where
  "longest_pattern pats w p \<longleftrightarrow>
     p = -1 \<and> (\<forall>x \<in> set pats. \<not> suffix x w) \<or>
     (\<exists>i < length pats. p = int i \<and> suffix (pats ! i) w \<and> (\<forall>x \<in> set pats. suffix x w \<longrightarrow> length x \<le> length (pats ! i)))"

lemma match_fold:
  assumes T: "trie_ok nodes L" and P: "pats_ok nodes L pats" and ln: "links_ok L {..<length nodes} fl" and r: "[] \<notin> set pats"
  shows "distinct us \<Longrightarrow> set us \<subseteq> {..<length nodes} \<Longrightarrow> sorted (map (\<lambda>x. length (L ! x)) us) \<Longrightarrow>
    \<forall>u \<in> set us. u \<noteq> 0 \<longrightarrow> upto_len L (fl ! u) \<subseteq> S \<union> set us \<Longrightarrow> length m = length nodes \<Longrightarrow> S \<subseteq> {..<length nodes} \<Longrightarrow> S \<inter> set us = {} \<Longrightarrow>
    \<forall>u \<in> S. longest_pattern pats (L ! u) (m ! u) \<Longrightarrow>
    \<forall>u \<in> S \<union> set us. longest_pattern pats (L ! u) (fold (match_node nodes fl) us m ! u)"
proof (induction us arbitrary: m S)
  case (Cons u us)
  have u: "u < length nodes" using Cons.prems by simp
  have len: "length L = length nodes" using T by (simp add: trie_ok_def)
  let ?m = "match_node nodes fl u m"
  have new: "longest_pattern pats (L ! u) (?m ! u)"
  proof -
    have m: "?m ! u = (if tn_pattern (nodes ! u) \<ge> 0 then tn_pattern (nodes ! u) else if u \<noteq> 0 then m ! (fl ! u) else -1)"
      using u Cons.prems(5) by (simp add: match_node_def)
    consider i where "i < length pats" "tn_pattern (nodes ! u) = int i" "pats ! i = L ! u" | "tn_pattern (nodes ! u) = -1" "L ! u \<notin> set pats"
      using P u unfolding pats_ok_def by blast
    then show ?thesis
    proof cases
      case (1 i)
      then show ?thesis unfolding m longest_pattern_def using suffix_length_le by (intro disjI2 exI [of _ i]) auto
    next
      case 2
      show ?thesis
      proof (cases "u = 0")
        case True
        then have "L ! u = []" using T by (simp add: trie_ok_def)
        moreover have "x \<noteq> []" if "x \<in> set pats" for x using that r by auto
        ultimately show ?thesis using 2 True unfolding m longest_pattern_def by simp
      next
        case False
        have lk: "link_of L u (fl ! u)" using ln u False by (simp add: links_ok_def)
        have "fl ! u \<in> upto_len L (fl ! u)" using lk by (simp add: upto_len_def link_of_def)
        then have "fl ! u \<in> S \<union> set (u # us)" using Cons.prems(4) False by auto
        moreover have "fl ! u \<notin> set (u # us)" using Cons.prems(3) link_shorter [OF lk] by fastforce
        ultimately have "longest_pattern pats (L ! (fl ! u)) (m ! (fl ! u))" using Cons.prems(8) by blast
        moreover have "suffix x (L ! u) \<longleftrightarrow> suffix x (L ! (fl ! u))" if x: "x \<in> set pats" for x
        proof
          assume s: "suffix x (L ! u)"
          obtain y where y: "y < length L" "L ! y = x" using x P by (metis in_set_conv_nth pats_ok_def subsetD)
          have "x \<noteq> L ! u" using 2(2) x by auto
          with s y lk show "suffix x (L ! (fl ! u))" unfolding link_of_def strict_suffix_def by blast
        next
          assume "suffix x (L ! (fl ! u))"
          with lk show "suffix x (L ! u)" unfolding link_of_def strict_suffix_def by (blast intro: suffix_order.order_trans)
        qed
        ultimately have "longest_pattern pats (L ! u) (m ! (fl ! u))"
          unfolding longest_pattern_def by (metis nth_mem)
        with 2(1) False m show ?thesis by simp
      qed
    qed
  qed
  have old: "longest_pattern pats (L ! x) (?m ! x)" if "x \<in> S" for x
    using that Cons.prems(7,8) by (auto simp: match_node_def nth_list_update')
  have "\<forall>x \<in> insert u S \<union> set us. longest_pattern pats (L ! x) (fold (match_node nodes fl) us ?m ! x)"
  proof (rule Cons.IH)
    show "\<forall>x \<in> set us. x \<noteq> 0 \<longrightarrow> upto_len L (fl ! x) \<subseteq> insert u S \<union> set us" using Cons.prems(4) by auto
    show "length ?m = length nodes" using Cons.prems(5) by (simp add: match_node_def)
  qed (use Cons.prems u old new in auto)
  then show ?case by simp
qed auto

section \<open>The automaton\<close>

definition automaton_ok :: "uint32 list list \<Rightarrow> uint32 list list \<Rightarrow> common_aho_corasick \<Rightarrow> bool" where
  "automaton_ok pats L ac \<longleftrightarrow> trie_ok (ac_nodes ac) L \<and> links_ok L {..<length (ac_nodes ac)} (ac_fail ac) \<and> set pats \<subseteq> set L \<and>
     (\<forall>u < length (ac_nodes ac). longest_pattern pats (L ! u) (ac_match ac ! u))"

lemma aho_corasick_ok:
  assumes T: "trie_ok (tr_nodes t) L" and P: "pats_ok (tr_nodes t) L pats" and r: "[] \<notin> set pats"
  shows "\<exists>ac. aho_corasick t = Some ac \<and> automaton_ok pats L ac"
proof -
  let ?N = "tr_nodes t"
  obtain order fl where b: "ac_bfs ?N [0] [] (replicate (length ?N) 0) = Some (order, fl)" "bfs_inv ?N L order [] fl"
    using ac_bfs_ok [OF T bfs_inv_start [OF T]] by blast
  note all = bfs_all [OF T b(2)]
  let ?m = "fold (match_node ?N fl) order (replicate (length ?N) (-1))"
  have len: "length L = length ?N" using T by (simp add: trie_ok_def)
  have "\<forall>u \<in> {} \<union> set order. longest_pattern pats (L ! u) (?m ! u)"
  proof (rule match_fold [OF T P all(2) r])
    show "\<forall>u \<in> set order. u \<noteq> 0 \<longrightarrow> upto_len L (fl ! u) \<subseteq> {} \<union> set order" unfolding all(1) by (auto simp: upto_len_def len)
  qed (use b(2) in \<open>auto simp: bfs_inv_def\<close>)
  then have "automaton_ok pats L \<lparr>ac_nodes = ?N, ac_fail = fl, ac_order = order, ac_match = ?m\<rparr>"
    using T P all unfolding automaton_ok_def pats_ok_def by simp
  with b(1) show ?thesis by (simp add: aho_corasick_def)
qed

text \<open>The state after the word \<open>w\<close>: the longest suffix of \<open>w\<close> in the trie.\<close>

definition state_of :: "uint32 list list \<Rightarrow> uint32 list \<Rightarrow> nat \<Rightarrow> bool" where
  "state_of L w u \<longleftrightarrow> u < length L \<and> suffix (L ! u) w \<and> (\<forall>y < length L. suffix (L ! y) w \<longrightarrow> suffix (L ! y) (L ! u))"

lemma state_of_Nil: "trie_ok nodes L \<Longrightarrow> state_of L [] 0"
  by (auto simp: state_of_def trie_ok_def)

lemma ac_next_ok:
  assumes A: "automaton_ok pats L ac" and s: "state_of L w u"
  shows "\<exists>v. ac_next ac u ch = Some v \<and> state_of L (w @ [ch]) v"
proof -
  have T: "trie_ok (ac_nodes ac) L" and ln: "links_ok L {..<length (ac_nodes ac)} (ac_fail ac)" and len: "length L = length (ac_nodes ac)"
    using A by (auto simp: automaton_ok_def trie_ok_def)
  have u: "u < length (ac_nodes ac)" using s len by (simp add: state_of_def)
  have "links_ok L (upto_len L u) (ac_fail ac)" using ln len by (auto simp: links_ok_def upto_len_def)
  from walk_goto [OF T u this, of ch] obtain g where
    g: "fail_walk (ac_nodes ac) (ac_fail ac) ch u = Some g" "goto (ac_nodes ac) g ch < length L" "suffix (L ! goto (ac_nodes ac) g ch) (L ! u @ [ch])"
      "\<forall>y < length L. suffix (L ! y) (L ! u @ [ch]) \<longrightarrow> suffix (L ! y) (L ! goto (ac_nodes ac) g ch)" unfolding len by blast
  let ?v = "goto (ac_nodes ac) g ch"
  have "suffix (L ! u @ [ch]) (w @ [ch])" using s by (simp add: state_of_def)
  then have "suffix (L ! ?v) (w @ [ch])" using g(3) suffix_order.order_trans by blast
  moreover have "suffix (L ! y) (L ! ?v)" if y: "y < length L" "suffix (L ! y) (w @ [ch])" for y
  proof (cases "L ! y" rule: rev_cases)
    case (snoc z c)
    with y(2) have z: "L ! y = z @ [ch]" "suffix z w" by auto
    obtain x where x: "x < length (ac_nodes ac)" "L ! x = z" by (rule trie_ok_parent [OF T y(1) [unfolded len] z(1)])
    then have "suffix z (L ! u)" using s z(2) len by (auto simp: state_of_def)
    then have "suffix (L ! y) (L ! u @ [ch])" using z(1) by simp
    with g(4) y(1) show ?thesis by blast
  qed simp
  moreover have "ac_next ac u ch = Some ?v" using g(1) by (simp add: ac_next_def goto_def)
  ultimately show ?thesis using g(2) by (auto simp: state_of_def)
qed

lemma match_ok:
  assumes A: "automaton_ok pats L ac" and s: "state_of L w u"
  shows "longest_pattern pats w (ac_match ac ! u)"
proof -
  have "u < length (ac_nodes ac)" using A s by (auto simp: automaton_ok_def state_of_def trie_ok_def)
  then have m: "longest_pattern pats (L ! u) (ac_match ac ! u)" using A by (simp add: automaton_ok_def)
  have "suffix x (L ! u) \<longleftrightarrow> suffix x w" if "x \<in> set pats" for x
  proof -
    from that A obtain y where "y < length L" "L ! y = x" by (metis automaton_ok_def in_set_conv_nth subsetD)
    with s show ?thesis unfolding state_of_def by (blast intro: suffix_order.order_trans)
  qed
  with m show ?thesis unfolding longest_pattern_def by (metis nth_mem)
qed

end
