(* ===== verification/Token_Matcher.thy ===== *)
theory Token_Matcher
  imports Aho_Build
begin

text \<open>
  The token matcher reports after every token the longest of its sequences that ends there, counted
  from its last report or reset.
\<close>

section \<open>Construction\<close>

lemma collect_snoc:
  "collect_seqs (seqs @ [s]) = (if s \<noteq> [] \<and> s \<notin> set (collect_seqs seqs) then collect_seqs seqs @ [s] else collect_seqs seqs)"
  by (simp add: collect_seqs_def)

lemma collect_seqs_ok: "distinct (collect_seqs seqs) \<and> [] \<notin> set (collect_seqs seqs) \<and> set (collect_seqs seqs) = set seqs - {[]}"
  by (induction seqs rule: rev_induct) (auto simp: collect_snoc, auto simp: collect_seqs_def)

lemma token_symbol_inj: "inj_on token_symbol {t. - (2 ^ 31) \<le> t \<and> t < 2 ^ 31}"
proof (rule inj_onI)
  fix s t :: int
  assume b: "s \<in> {t. - (2 ^ 31) \<le> t \<and> t < 2 ^ 31}" "t \<in> {t. - (2 ^ 31) \<le> t \<and> t < 2 ^ 31}" "token_symbol s = token_symbol t"
  then have "s mod 2 ^ 32 = t mod 2 ^ 32" by (simp add: token_symbol_def)
  then have "(2 ^ 32) dvd (s - t)" by (simp add: mod_eq_dvd_iff)
  moreover have "\<bar>s - t\<bar> < 2 ^ 32" using b(1,2) by auto
  ultimately show "s = t" by (metis abs_of_nonneg dvd_imp_le_int eq_iff_diff_eq_0 linorder_not_le zero_le_numeral zero_le_power)
qed

definition int32_tokens :: "llama_token list \<Rightarrow> bool" where
  "int32_tokens ts \<longleftrightarrow> set ts \<subseteq> {t. - (2 ^ 31) \<le> t \<and> t < 2 ^ 31}"

lemma map_symbol_eq: "int32_tokens xs \<Longrightarrow> int32_tokens ys \<Longrightarrow> map token_symbol xs = map token_symbol ys \<longleftrightarrow> xs = ys"
  using inj_on_map_eq_map [of token_symbol xs ys] token_symbol_inj unfolding int32_tokens_def
  by (metis (no_types, lifting) inj_on_subset le_sup_iff)

lemma build_trie_ok:
  assumes "\<forall>s \<in> set seqs. int32_tokens s" "distinct seqs"
  shows "\<exists>L. trie_ok (tr_nodes (build_trie seqs)) L \<and> pats_ok (tr_nodes (build_trie seqs)) L (map (map token_symbol) seqs) \<and>
    tr_n_patterns (build_trie seqs) = int (length seqs)"
  using assms
proof (induction seqs rule: rev_induct)
  case Nil
  have "pats_ok (tr_nodes new_trie) [[]] []" by (simp add: pats_ok_def new_trie_def empty_node_def)
  with trie_ok_new show ?case by (intro exI [of _ "[[]]"]) (simp add: build_trie_def new_trie_def)
next
  case (snoc s seqs)
  then obtain L where L: "trie_ok (tr_nodes (build_trie seqs)) L" "pats_ok (tr_nodes (build_trie seqs)) L (map (map token_symbol) seqs)"
    "tr_n_patterns (build_trie seqs) = int (length (map (map token_symbol) seqs))" by auto
  have "map token_symbol s \<notin> set (map (map token_symbol) seqs)"
    using snoc.prems map_symbol_eq by fastforce
  moreover obtain p t' where "trie_insert (map token_symbol s) (build_trie seqs) = (p, t')" by (metis surj_pair)
  ultimately show ?case using trie_insert_ok [OF L, of "map token_symbol s"] by (auto simp: build_trie_def)
qed

section \<open>Runs\<close>

text \<open>The matcher and the tokens since its last report or reset.\<close>

inductive matcher_reach :: "llama_token list list \<Rightarrow> token_matcher \<Rightarrow> llama_token list \<Rightarrow> bool" for seqs where
  start: "new_matcher seqs = Some tm \<Longrightarrow> matcher_reach seqs tm []"
| advance: "matcher_reach seqs tm h \<Longrightarrow> int32_tokens [t] \<Longrightarrow> matcher_advance t tm = Some (p, tm') \<Longrightarrow>
    matcher_reach seqs tm' (if p \<ge> 0 then [] else h @ [t])"
| reset: "matcher_reach seqs tm h \<Longrightarrow> matcher_reach seqs (matcher_reset tm) []"

definition matcher_inv :: "llama_token list list \<Rightarrow> token_matcher \<Rightarrow> llama_token list \<Rightarrow> bool" where
  "matcher_inv seqs tm h \<longleftrightarrow> tm_seqs tm = collect_seqs seqs \<and> int32_tokens h \<and>
     (\<exists>L. automaton_ok (map (map token_symbol) (collect_seqs seqs)) L (tm_ac tm) \<and> state_of L (map token_symbol h) (tm_state tm))"

lemma new_matcher_ok:
  assumes "\<forall>s \<in> set seqs. int32_tokens s"
  shows "\<exists>tm. new_matcher seqs = Some tm \<and> matcher_inv seqs tm []"
proof -
  note c = collect_seqs_ok [of seqs]
  have "\<forall>s \<in> set (collect_seqs seqs). int32_tokens s" using c assms by auto
  from build_trie_ok [OF this] c obtain L where L: "trie_ok (tr_nodes (build_trie (collect_seqs seqs))) L"
    "pats_ok (tr_nodes (build_trie (collect_seqs seqs))) L (map (map token_symbol) (collect_seqs seqs))" by blast
  have "[] \<notin> set (map (map token_symbol) (collect_seqs seqs))" using c by auto
  from aho_corasick_ok [OF L this] obtain ac where "aho_corasick (build_trie (collect_seqs seqs)) = Some ac"
    "automaton_ok (map (map token_symbol) (collect_seqs seqs)) L ac" by blast
  moreover have "state_of L [] 0" by (rule state_of_Nil [OF L(1)])
  ultimately show ?thesis by (auto simp: new_matcher_def matcher_inv_def int32_tokens_def)
qed

text \<open>What the matcher reports on tokens is what the automaton reports on symbols.\<close>

lemma suffix_symbols:
  assumes "int32_tokens s" "int32_tokens h"
  shows "suffix (map token_symbol s) (map token_symbol h) \<longleftrightarrow> suffix s h"
proof
  assume "suffix (map token_symbol s) (map token_symbol h)"
  then obtain ys where "map token_symbol h = ys @ map token_symbol s" by (auto simp: suffix_def)
  then obtain y z where yz: "h = y @ z" "map token_symbol z = map token_symbol s" by (metis map_eq_append_conv)
  have "int32_tokens z" using assms(2) yz(1) by (simp add: int32_tokens_def)
  with yz map_symbol_eq [of z s] assms(1) show "suffix s h" by (auto simp: suffix_def)
qed (auto simp: suffix_def)

lemma longest_symbols:
  assumes "\<forall>s \<in> set seqs. int32_tokens s" "int32_tokens h"
  shows "longest_pattern (map (map token_symbol) seqs) (map token_symbol h) p \<longleftrightarrow> longest_pattern seqs h p"
proof -
  have "suffix (map token_symbol s) (map token_symbol h) \<longleftrightarrow> suffix s h" if "s \<in> set seqs" for s
    using suffix_symbols assms that by blast
  then show ?thesis unfolding longest_pattern_def by auto
qed

lemma matcher_advance_ok:
  assumes S: "\<forall>s \<in> set seqs. int32_tokens s" and I: "matcher_inv seqs tm h" and t: "int32_tokens [t]"
  shows "\<exists>p tm'. matcher_advance t tm = Some (p, tm') \<and> longest_pattern (tm_seqs tm) (h @ [t]) p \<and> matcher_inv seqs tm' (if p \<ge> 0 then [] else h @ [t])"
proof -
  obtain L where L: "automaton_ok (map (map token_symbol) (collect_seqs seqs)) L (tm_ac tm)" "state_of L (map token_symbol h) (tm_state tm)"
    and h: "int32_tokens h" and c: "tm_seqs tm = collect_seqs seqs" using I by (auto simp: matcher_inv_def)
  from ac_next_ok [OF L, of "token_symbol t"] obtain v where v: "ac_next (tm_ac tm) (tm_state tm) (token_symbol t) = Some v"
    "state_of L (map token_symbol (h @ [t])) v" by auto
  let ?p = "ac_match (tm_ac tm) ! v" and ?tm = "tm\<lparr>tm_state := (if ac_match (tm_ac tm) ! v \<ge> 0 then 0 else v)\<rparr>"
  have ht: "int32_tokens (h @ [t])" using h t by (simp add: int32_tokens_def)
  have "\<forall>s \<in> set (collect_seqs seqs). int32_tokens s" using collect_seqs_ok [of seqs] S by auto
  from longest_symbols [OF this ht] match_ok [OF L(1) v(2)] have "longest_pattern (tm_seqs tm) (h @ [t]) ?p" by (simp add: c)
  moreover have "matcher_advance t tm = Some (?p, ?tm)" using v(1) by (simp add: matcher_advance_def Let_def)
  moreover have "state_of L [] 0" using L(1) state_of_Nil by (auto simp: automaton_ok_def)
  then have "matcher_inv seqs ?tm (if ?p \<ge> 0 then [] else h @ [t])" using L(1) v(2) ht c by (auto simp: matcher_inv_def int32_tokens_def)
  ultimately show ?thesis by blast
qed

lemma matcher_reset_ok: "matcher_inv seqs tm h \<Longrightarrow> matcher_inv seqs (matcher_reset tm) []"
  using state_of_Nil by (auto simp: matcher_inv_def matcher_reset_def int32_tokens_def automaton_ok_def)

lemma matcher_reach_inv:
  "matcher_reach seqs tm h \<Longrightarrow> \<forall>s \<in> set seqs. int32_tokens s \<Longrightarrow> matcher_inv seqs tm h"
proof (induction rule: matcher_reach.induct)
  case (start tm)
  with new_matcher_ok [of seqs] show ?case by auto
next
  case (advance tm h t p tm')
  with matcher_advance_ok [of seqs tm h t] show ?case by auto
qed (auto intro: matcher_reset_ok)

end
