(* ===== verification/Reasoning_Budget.thy ===== *)
theory Reasoning_Budget
  imports Token_Matcher
begin

text \<open>
  The sampler that limits the tokens of a reasoning block (src/common/reasoning-budget.cpp): a state
  machine over the accepted tokens that counts down a budget, may force a warning on the way and forces
  the end of the block when the budget is used up.
\<close>

section \<open>State\<close>

datatype common_reasoning_budget_state = RB_IDLE | RB_COUNTING | RB_FORCING | RB_WAITING_UTF8 | RB_WARNING | RB_DONE

text \<open>The vocabulary is the function from tokens to their bytes, absent for a null pointer.\<close>

record common_reasoning_budget_ctx =
  rb_vocab :: "(llama_token \<Rightarrow> byte list) option"
  rb_start_matcher :: token_matcher
  rb_end_matcher :: token_matcher
  rb_forced_tokens :: "llama_token list"
  rb_budget :: int
  rb_remaining :: int
  rb_state :: common_reasoning_budget_state
  rb_force_pos :: nat
  rb_end_match :: int
  rb_warn_tokens :: "llama_token list"
  rb_warn_at :: int
  rb_warn_pos :: nat
  rb_warn_fired :: bool

definition warn_armed :: "common_reasoning_budget_ctx \<Rightarrow> bool" where
  "warn_armed ctx \<longleftrightarrow> \<not> rb_warn_fired ctx \<and> rb_warn_at ctx \<ge> 0 \<and> rb_warn_tokens ctx \<noteq> []"

definition reset_end :: "common_reasoning_budget_ctx \<Rightarrow> common_reasoning_budget_ctx" where
  "reset_end ctx = ctx\<lparr>rb_end_matcher := matcher_reset (rb_end_matcher ctx)\<rparr>"

text \<open>The transition to the forced end.\<close>

definition start_forcing :: "common_reasoning_budget_ctx \<Rightarrow> common_reasoning_budget_ctx" where
  "start_forcing ctx = ctx\<lparr>rb_state := RB_FORCING, rb_force_pos := 0\<rparr>"

section \<open>Accepting a token\<close>

definition accept_idle :: "llama_token \<Rightarrow> common_reasoning_budget_ctx \<Rightarrow> common_reasoning_budget_ctx option" where
  "accept_idle token ctx =
     map_option (\<lambda>(p, tm).
         let ctx = ctx\<lparr>rb_start_matcher := tm\<rparr>
         in if p \<ge> 0 then
              let ctx = ctx\<lparr>rb_state := RB_COUNTING, rb_remaining := rb_budget ctx, rb_warn_pos := 0, rb_warn_fired := False\<rparr>
              in if rb_remaining ctx \<le> 0 then start_forcing ctx else ctx
            else ctx)
       (matcher_advance token (rb_start_matcher ctx))"

definition accept_done :: "llama_token \<Rightarrow> common_reasoning_budget_ctx \<Rightarrow> common_reasoning_budget_ctx option" where
  "accept_done token ctx =
     map_option (\<lambda>(p, tm).
         let ctx = ctx\<lparr>rb_start_matcher := tm\<rparr>
         in if p \<ge> 0 then
              let ctx = (reset_end (ctx\<lparr>rb_state := RB_COUNTING, rb_remaining := rb_budget ctx\<rparr>))
                          \<lparr>rb_end_match := -1, rb_warn_pos := 0, rb_warn_fired := False\<rparr>
              in if rb_remaining ctx \<le> 0 then start_forcing ctx else ctx
            else ctx)
       (matcher_advance token (rb_start_matcher ctx))"

text \<open>A token of the model's own reasoning that does not end the block.\<close>

definition count_token :: "llama_token \<Rightarrow> common_reasoning_budget_ctx \<Rightarrow> common_reasoning_budget_ctx" where
  "count_token token ctx =
     (let utf8_complete = (case rb_vocab ctx of None \<Rightarrow> True | Some piece \<Rightarrow> common_utf8_is_complete (piece token))
      in if rb_state ctx = RB_WAITING_UTF8 then (if utf8_complete then reset_end (start_forcing ctx) else ctx)
         else
           let ctx = ctx\<lparr>rb_remaining := rb_remaining ctx - 1\<rparr>
           in if rb_remaining ctx \<le> 0 then
                (if utf8_complete then reset_end (start_forcing ctx) else reset_end (ctx\<lparr>rb_state := RB_WAITING_UTF8\<rparr>))
              else if warn_armed ctx \<and> rb_remaining ctx \<le> rb_warn_at ctx \<and> utf8_complete then
                reset_end (ctx\<lparr>rb_state := RB_WARNING, rb_warn_pos := 0, rb_warn_fired := True\<rparr>)
              else ctx)"

definition accept_counting :: "llama_token \<Rightarrow> common_reasoning_budget_ctx \<Rightarrow> common_reasoning_budget_ctx option" where
  "accept_counting token ctx =
     map_option (\<lambda>(p, tm).
         let ctx = ctx\<lparr>rb_end_matcher := tm\<rparr>
         in if p \<ge> 0 then ctx\<lparr>rb_state := RB_DONE, rb_end_match := p\<rparr> else count_token token ctx)
       (matcher_advance token (rb_end_matcher ctx))"

definition accept_warning :: "common_reasoning_budget_ctx \<Rightarrow> common_reasoning_budget_ctx" where
  "accept_warning ctx =
     (let ctx = ctx\<lparr>rb_warn_pos := rb_warn_pos ctx + 1\<rparr>
      in if rb_warn_pos ctx \<ge> length (rb_warn_tokens ctx) then reset_end (ctx\<lparr>rb_state := RB_COUNTING\<rparr>) else ctx)"

definition accept_forcing :: "llama_token \<Rightarrow> common_reasoning_budget_ctx \<Rightarrow> common_reasoning_budget_ctx option" where
  "accept_forcing token ctx =
     map_option (\<lambda>(p, tm).
         let ctx = ctx\<lparr>rb_end_matcher := tm, rb_force_pos := rb_force_pos ctx + 1\<rparr>
         in if rb_force_pos ctx \<ge> length (rb_forced_tokens ctx) then ctx\<lparr>rb_state := RB_DONE, rb_end_match := p\<rparr> else ctx)
       (matcher_advance token (rb_end_matcher ctx))"

definition common_reasoning_budget_accept :: "llama_token \<Rightarrow> common_reasoning_budget_ctx \<Rightarrow> common_reasoning_budget_ctx option" where
  "common_reasoning_budget_accept token ctx =
     (case rb_state ctx of
        RB_IDLE \<Rightarrow> accept_idle token ctx
      | RB_COUNTING \<Rightarrow> accept_counting token ctx
      | RB_WAITING_UTF8 \<Rightarrow> accept_counting token ctx
      | RB_WARNING \<Rightarrow> Some (accept_warning ctx)
      | RB_FORCING \<Rightarrow> accept_forcing token ctx
      | RB_DONE \<Rightarrow> accept_done token ctx)"

section \<open>Masking, reset and construction\<close>

text \<open>A candidate is a token with its logit; \<open>ninf\<close> is the logit of an excluded token.\<close>

definition common_reasoning_budget_apply :: "'l \<Rightarrow> common_reasoning_budget_ctx \<Rightarrow> (llama_token \<times> 'l) list \<Rightarrow> (llama_token \<times> 'l) list" where
  "common_reasoning_budget_apply ninf ctx cur =
     (if rb_state ctx \<noteq> RB_FORCING \<and> rb_state ctx \<noteq> RB_WARNING then cur
      else
        let warning = (rb_state ctx = RB_WARNING);
            sq = (if warning then rb_warn_tokens ctx else rb_forced_tokens ctx);
            pos = (if warning then rb_warn_pos ctx else rb_force_pos ctx)
        in if pos \<ge> length sq then cur else map (\<lambda>(i, l). (i, if i \<noteq> sq ! pos then ninf else l)) cur)"

definition common_reasoning_budget_reset :: "common_reasoning_budget_ctx \<Rightarrow> common_reasoning_budget_ctx" where
  "common_reasoning_budget_reset ctx =
     ctx\<lparr>rb_state := RB_IDLE, rb_remaining := rb_budget ctx, rb_start_matcher := matcher_reset (rb_start_matcher ctx),
         rb_end_matcher := matcher_reset (rb_end_matcher ctx), rb_force_pos := 0, rb_end_match := -1, rb_warn_pos := 0, rb_warn_fired := False\<rparr>"

definition common_reasoning_budget_init ::
  "(llama_token \<Rightarrow> byte list) option \<Rightarrow> llama_token list list \<Rightarrow> llama_token list list \<Rightarrow> llama_token list \<Rightarrow> int \<Rightarrow>
   common_reasoning_budget_state \<Rightarrow> llama_token list \<Rightarrow> int \<Rightarrow> common_reasoning_budget_ctx option" where
  "common_reasoning_budget_init vocab start_seqs end_seqs forced_tokens budget initial_state warn_tokens warn_at =
     Option.bind (new_matcher start_seqs) (\<lambda>sm. map_option (\<lambda>em.
       \<lparr>rb_vocab = vocab, rb_start_matcher = sm, rb_end_matcher = em, rb_forced_tokens = forced_tokens, rb_budget = budget,
        rb_remaining = budget, rb_state = (if initial_state = RB_COUNTING \<and> budget \<le> 0 then RB_FORCING else initial_state),
        rb_force_pos = 0, rb_end_match = -1, rb_warn_tokens = warn_tokens, rb_warn_at = warn_at, rb_warn_pos = 0, rb_warn_fired = False\<rparr>)
       (new_matcher end_seqs))"

definition common_reasoning_budget_force :: "common_reasoning_budget_ctx \<Rightarrow> bool \<times> common_reasoning_budget_ctx" where
  "common_reasoning_budget_force ctx = (if rb_state ctx \<noteq> RB_COUNTING then (False, ctx) else (True, reset_end (start_forcing ctx)))"

definition common_reasoning_budget_get_end_match :: "common_reasoning_budget_ctx \<Rightarrow> llama_token list option" where
  "common_reasoning_budget_get_end_match ctx =
     (if rb_end_match ctx < 0 then None else Some (tm_seqs (rb_end_matcher ctx) ! nat (rb_end_match ctx)))"

end
