(* ===== verification/Reasoning_Props.thy ===== *)
theory Reasoning_Props
  imports Reasoning_Budget
begin

text \<open>
  The runs of the reasoning budget: how many tokens a block takes, what is forced at its end and what a
  warning costs.
\<close>

section \<open>Runs\<close>

text \<open>The context and the number of tokens counted in the current block.\<close>

inductive rb_reach :: "common_reasoning_budget_ctx \<Rightarrow> common_reasoning_budget_ctx \<Rightarrow> nat \<Rightarrow> bool" for ctx0 where
  init: "rb_reach ctx0 ctx0 0"
| accept: "rb_reach ctx0 ctx k \<Longrightarrow> int32_tokens [t] \<Longrightarrow> common_reasoning_budget_accept t ctx = Some ctx' \<Longrightarrow>
    rb_reach ctx0 ctx' (if rb_state ctx = RB_IDLE \<or> rb_state ctx = RB_DONE then 0 else if rb_state ctx = RB_COUNTING then k + 1 else k)"
| reset: "rb_reach ctx0 ctx k \<Longrightarrow> rb_reach ctx0 (common_reasoning_budget_reset ctx) 0"
| force: "rb_reach ctx0 ctx k \<Longrightarrow> rb_reach ctx0 (snd (common_reasoning_budget_force ctx)) k"

definition matcher_sound :: "token_matcher \<Rightarrow> bool" where
  "matcher_sound tm \<longleftrightarrow> (\<exists>seqs h. (\<forall>s \<in> set seqs. int32_tokens s) \<and> matcher_inv seqs tm h)"

definition rb_static :: "common_reasoning_budget_ctx \<Rightarrow> (llama_token \<Rightarrow> byte list) option \<times> llama_token list \<times> int \<times> llama_token list \<times> int" where
  "rb_static ctx = (rb_vocab ctx, rb_forced_tokens ctx, rb_budget ctx, rb_warn_tokens ctx, rb_warn_at ctx)"

text \<open>The part of the invariant on the counters.\<close>

definition rb_counts :: "common_reasoning_budget_ctx \<Rightarrow> nat \<Rightarrow> bool" where
  "rb_counts ctx k \<longleftrightarrow> int k \<le> max 0 (rb_budget ctx) \<and>
     (case rb_state ctx of
        RB_COUNTING \<Rightarrow> rb_remaining ctx = rb_budget ctx - int k \<and> 0 < rb_remaining ctx
      | RB_WARNING \<Rightarrow> rb_remaining ctx = rb_budget ctx - int k \<and> 0 < rb_remaining ctx \<and> rb_warn_fired ctx \<and> rb_warn_pos ctx < length (rb_warn_tokens ctx)
      | RB_FORCING \<Rightarrow> rb_force_pos ctx < length (rb_forced_tokens ctx) \<or> rb_forced_tokens ctx = [] \<and> rb_force_pos ctx = 0
      | _ \<Rightarrow> True)"

definition rb_inv :: "common_reasoning_budget_ctx \<Rightarrow> common_reasoning_budget_ctx \<Rightarrow> nat \<Rightarrow> bool" where
  "rb_inv ctx0 ctx k \<longleftrightarrow> rb_static ctx = rb_static ctx0 \<and> rb_counts ctx k \<and> matcher_sound (rb_start_matcher ctx) \<and> matcher_sound (rb_end_matcher ctx)"

lemma matcher_sound_advance:
  assumes "matcher_sound tm" "int32_tokens [t]"
  shows "\<exists>p tm'. matcher_advance t tm = Some (p, tm') \<and> matcher_sound tm'"
proof -
  from assms(1) obtain seqs h where "\<forall>s \<in> set seqs. int32_tokens s" "matcher_inv seqs tm h" by (auto simp: matcher_sound_def)
  with matcher_advance_ok [OF this assms(2)] show ?thesis unfolding matcher_sound_def by blast
qed

lemma matcher_sound_reset: "matcher_sound tm \<Longrightarrow> matcher_sound (matcher_reset tm)"
  unfolding matcher_sound_def using matcher_reset_ok by blast

lemma reset_end_simps [simp]:
  "rb_vocab (reset_end c) = rb_vocab c" "rb_start_matcher (reset_end c) = rb_start_matcher c" "rb_end_matcher (reset_end c) = matcher_reset (rb_end_matcher c)"
  "rb_forced_tokens (reset_end c) = rb_forced_tokens c" "rb_budget (reset_end c) = rb_budget c" "rb_remaining (reset_end c) = rb_remaining c"
  "rb_state (reset_end c) = rb_state c" "rb_force_pos (reset_end c) = rb_force_pos c" "rb_end_match (reset_end c) = rb_end_match c"
  "rb_warn_tokens (reset_end c) = rb_warn_tokens c" "rb_warn_at (reset_end c) = rb_warn_at c" "rb_warn_pos (reset_end c) = rb_warn_pos c"
  "rb_warn_fired (reset_end c) = rb_warn_fired c"
  by (simp_all add: reset_end_def)

lemma start_forcing_simps [simp]:
  "rb_vocab (start_forcing c) = rb_vocab c" "rb_start_matcher (start_forcing c) = rb_start_matcher c" "rb_end_matcher (start_forcing c) = rb_end_matcher c"
  "rb_forced_tokens (start_forcing c) = rb_forced_tokens c" "rb_budget (start_forcing c) = rb_budget c" "rb_remaining (start_forcing c) = rb_remaining c"
  "rb_state (start_forcing c) = RB_FORCING" "rb_force_pos (start_forcing c) = 0" "rb_end_match (start_forcing c) = rb_end_match c"
  "rb_warn_tokens (start_forcing c) = rb_warn_tokens c" "rb_warn_at (start_forcing c) = rb_warn_at c" "rb_warn_pos (start_forcing c) = rb_warn_pos c"
  "rb_warn_fired (start_forcing c) = rb_warn_fired c"
  by (simp_all add: start_forcing_def)

lemmas rb_inv_defs = rb_inv_def rb_counts_def rb_static_def

lemma accept_idle_ok:
  assumes "rb_inv ctx0 ctx k" "int32_tokens [t]"
  shows "\<exists>ctx'. accept_idle t ctx = Some ctx' \<and> (rb_state ctx = RB_IDLE \<longrightarrow> rb_inv ctx0 ctx' 0)"
proof -
  obtain p tm where m: "matcher_advance t (rb_start_matcher ctx) = Some (p, tm)" "matcher_sound tm"
    using matcher_sound_advance [of "rb_start_matcher ctx" t] assms by (auto simp: rb_inv_def)
  with assms(1) show ?thesis by (auto simp: accept_idle_def rb_inv_defs Let_def)
qed

lemma accept_done_ok:
  assumes "rb_inv ctx0 ctx k" "int32_tokens [t]"
  shows "\<exists>ctx'. accept_done t ctx = Some ctx' \<and> (rb_state ctx = RB_DONE \<longrightarrow> rb_inv ctx0 ctx' 0)"
proof -
  obtain p tm where m: "matcher_advance t (rb_start_matcher ctx) = Some (p, tm)" "matcher_sound tm"
    using matcher_sound_advance [of "rb_start_matcher ctx" t] assms by (auto simp: rb_inv_def)
  with assms(1) show ?thesis by (auto simp: accept_done_def rb_inv_defs Let_def intro: matcher_sound_reset)
qed

lemma count_token_ok:
  assumes "rb_inv ctx0 ctx k" "rb_state ctx = RB_COUNTING \<or> rb_state ctx = RB_WAITING_UTF8"
  shows "rb_inv ctx0 (count_token t ctx) (if rb_state ctx = RB_COUNTING then k + 1 else k)"
  using assms by (auto simp: count_token_def rb_inv_defs Let_def warn_armed_def intro: matcher_sound_reset)

lemma accept_counting_ok:
  assumes "rb_inv ctx0 ctx k" "int32_tokens [t]" "rb_state ctx = RB_COUNTING \<or> rb_state ctx = RB_WAITING_UTF8"
  shows "\<exists>ctx'. accept_counting t ctx = Some ctx' \<and> rb_inv ctx0 ctx' (if rb_state ctx = RB_COUNTING then k + 1 else k)"
proof -
  obtain p tm where m: "matcher_advance t (rb_end_matcher ctx) = Some (p, tm)" "matcher_sound tm"
    using matcher_sound_advance [of "rb_end_matcher ctx" t] assms by (auto simp: rb_inv_def)
  let ?c = "ctx\<lparr>rb_end_matcher := tm\<rparr>"
  have I: "rb_inv ctx0 ?c k" using assms(1) m(2) by (cases "rb_state ctx") (auto simp: rb_inv_defs)
  have "rb_inv ctx0 (?c\<lparr>rb_state := RB_DONE, rb_end_match := p\<rparr>) (if rb_state ctx = RB_COUNTING then k + 1 else k)"
    using assms(1,3) m(2) by (auto simp: rb_inv_defs)
  with count_token_ok [OF I, of t] assms(3) m(1) show ?thesis by (cases "rb_state ctx = RB_COUNTING") (simp_all add: accept_counting_def Let_def)
qed

lemma accept_warning_ok: "rb_inv ctx0 ctx k \<Longrightarrow> rb_state ctx = RB_WARNING \<Longrightarrow> rb_inv ctx0 (accept_warning ctx) k"
  by (auto simp: accept_warning_def rb_inv_defs Let_def intro: matcher_sound_reset)

lemma accept_forcing_ok:
  assumes "rb_inv ctx0 ctx k" "int32_tokens [t]" "rb_state ctx = RB_FORCING"
  shows "\<exists>ctx'. accept_forcing t ctx = Some ctx' \<and> rb_inv ctx0 ctx' k"
proof -
  obtain p tm where m: "matcher_advance t (rb_end_matcher ctx) = Some (p, tm)" "matcher_sound tm"
    using matcher_sound_advance [of "rb_end_matcher ctx" t] assms by (auto simp: rb_inv_def)
  with assms(1,3) show ?thesis by (auto simp: accept_forcing_def rb_inv_defs Let_def)
qed

lemma rb_accept_ok:
  assumes "rb_inv ctx0 ctx k" "int32_tokens [t]"
  shows "\<exists>ctx'. common_reasoning_budget_accept t ctx = Some ctx' \<and>
    rb_inv ctx0 ctx' (if rb_state ctx = RB_IDLE \<or> rb_state ctx = RB_DONE then 0 else if rb_state ctx = RB_COUNTING then k + 1 else k)"
  using accept_idle_ok [OF assms] accept_done_ok [OF assms] accept_counting_ok [OF assms] accept_forcing_ok [OF assms] accept_warning_ok [OF assms(1)]
  unfolding common_reasoning_budget_accept_def by (cases "rb_state ctx") auto

lemma rb_reset_ok: "rb_inv ctx0 ctx k \<Longrightarrow> rb_inv ctx0 (common_reasoning_budget_reset ctx) 0"
  by (auto simp: common_reasoning_budget_reset_def rb_inv_defs intro: matcher_sound_reset)

lemma rb_force_ok: "rb_inv ctx0 ctx k \<Longrightarrow> rb_inv ctx0 (snd (common_reasoning_budget_force ctx)) k"
proof (cases "rb_state ctx = RB_COUNTING")
  case True
  assume "rb_inv ctx0 ctx k"
  then have "rb_inv ctx0 (reset_end (start_forcing ctx)) k" by (auto simp: rb_inv_defs intro: matcher_sound_reset)
  with True show ?thesis by (simp add: common_reasoning_budget_force_def)
qed (simp add: common_reasoning_budget_force_def)

lemma rb_init_ok:
  assumes "common_reasoning_budget_init vocab ss es forced budget st warn at = Some ctx" "\<forall>s \<in> set ss \<union> set es. int32_tokens s"
    "st = RB_IDLE \<or> st = RB_COUNTING"
  shows "rb_inv ctx ctx 0" "rb_budget ctx = budget" "rb_forced_tokens ctx = forced" "rb_warn_tokens ctx = warn" "rb_warn_at ctx = at"
proof -
  from assms(1) obtain sm em where m: "new_matcher ss = Some sm" "new_matcher es = Some em" by (auto simp: common_reasoning_budget_init_def bind_eq_Some_conv)
  then have "matcher_sound sm" "matcher_sound em" using new_matcher_ok [of ss] new_matcher_ok [of es] assms(2) unfolding matcher_sound_def by (metis UnCI option.inject)+
  with m assms(1,3) show "rb_inv ctx ctx 0" "rb_budget ctx = budget" "rb_forced_tokens ctx = forced" "rb_warn_tokens ctx = warn" "rb_warn_at ctx = at"
    by (auto simp: common_reasoning_budget_init_def rb_inv_defs split: if_splits)
qed

lemma rb_reach_inv: "rb_reach ctx0 ctx k \<Longrightarrow> rb_inv ctx0 ctx0 0 \<Longrightarrow> rb_inv ctx0 ctx k"
proof (induction rule: rb_reach.induct)
  case (accept ctx k t ctx')
  with rb_accept_ok [of ctx0 ctx k t] show ?case by auto
qed (auto intro: rb_reset_ok rb_force_ok)

section \<open>Forced tokens\<close>

fun rb_accepts :: "llama_token list \<Rightarrow> common_reasoning_budget_ctx \<Rightarrow> common_reasoning_budget_ctx option" where
  "rb_accepts [] ctx = Some ctx"
| "rb_accepts (t # ts) ctx = Option.bind (common_reasoning_budget_accept t ctx) (rb_accepts ts)"

lemma rb_accepts_snoc: "rb_accepts (ts @ [t]) ctx = Option.bind (rb_accepts ts ctx) (common_reasoning_budget_accept t)"
proof (induction ts arbitrary: ctx)
  case (Cons u ts)
  then show ?case by (cases "common_reasoning_budget_accept u ctx") simp_all
next
  case (Nil ctx)
  show ?case by (cases "common_reasoning_budget_accept t ctx") simp_all
qed

text \<open>What \<open>apply\<close> leaves of the candidates while the token \<open>f\<close> is forced.\<close>

definition only_token :: "'l \<Rightarrow> llama_token \<Rightarrow> (llama_token \<times> 'l) list \<Rightarrow> (llama_token \<times> 'l) list" where
  "only_token ninf f cur = map (\<lambda>(i, l). (i, if i = f then l else ninf)) cur"

lemma apply_forcing:
  "rb_state ctx = RB_FORCING \<Longrightarrow> rb_force_pos ctx < length (rb_forced_tokens ctx) \<Longrightarrow>
   common_reasoning_budget_apply ninf ctx cur = only_token ninf (rb_forced_tokens ctx ! rb_force_pos ctx) cur"
  by (auto simp: common_reasoning_budget_apply_def only_token_def)

lemma apply_warning:
  "rb_state ctx = RB_WARNING \<Longrightarrow> rb_warn_pos ctx < length (rb_warn_tokens ctx) \<Longrightarrow>
   common_reasoning_budget_apply ninf ctx cur = only_token ninf (rb_warn_tokens ctx ! rb_warn_pos ctx) cur"
  by (auto simp: common_reasoning_budget_apply_def only_token_def)

lemma forcing_run:
  assumes "rb_inv ctx0 ctx k" "rb_state ctx = RB_FORCING" "rb_force_pos ctx = 0"
  shows "int32_tokens ts \<Longrightarrow> length ts < length (rb_forced_tokens ctx) \<Longrightarrow>
    \<exists>ctx'. rb_accepts ts ctx = Some ctx' \<and> rb_inv ctx0 ctx' k \<and> rb_state ctx' = RB_FORCING \<and> rb_force_pos ctx' = length ts"
proof (induction ts rule: rev_induct)
  case Nil
  then show ?case using assms by simp
next
  case (snoc t ts)
  then obtain c where c: "rb_accepts ts ctx = Some c" "rb_inv ctx0 c k" "rb_state c = RB_FORCING" "rb_force_pos c = length ts"
    by (auto simp: int32_tokens_def)
  have f: "rb_forced_tokens c = rb_forced_tokens ctx" using c(2) assms(1) by (simp add: rb_inv_def rb_static_def)
  have "int32_tokens [t]" using snoc.prems by (simp add: int32_tokens_def)
  from accept_forcing_ok [OF c(2) this c(3)] obtain c' where c': "accept_forcing t c = Some c'" "rb_inv ctx0 c' k" by blast
  have "rb_state c' = RB_FORCING \<and> rb_force_pos c' = length ts + 1"
    using c'(1) c(3,4) snoc.prems f by (auto simp: accept_forcing_def Let_def)
  then show ?case using c c' by (simp add: rb_accepts_snoc common_reasoning_budget_accept_def)
qed

lemma warning_run:
  "rb_inv ctx0 ctx k \<Longrightarrow> rb_state ctx = RB_WARNING \<Longrightarrow> rb_warn_pos ctx = 0 \<Longrightarrow> length ts < length (rb_warn_tokens ctx) \<Longrightarrow>
    \<exists>ctx'. rb_accepts ts ctx = Some ctx' \<and> rb_inv ctx0 ctx' k \<and> rb_state ctx' = RB_WARNING \<and> rb_warn_pos ctx' = length ts \<and> rb_remaining ctx' = rb_remaining ctx"
proof (induction ts rule: rev_induct)
  case (snoc t ts)
  then obtain c where c: "rb_accepts ts ctx = Some c" "rb_inv ctx0 c k" "rb_state c = RB_WARNING" "rb_warn_pos c = length ts" "rb_remaining c = rb_remaining ctx"
    by auto
  have w: "rb_warn_tokens c = rb_warn_tokens ctx" using c(2) snoc.prems(1) by (simp add: rb_inv_def rb_static_def)
  have "rb_state (accept_warning c) = RB_WARNING \<and> rb_warn_pos (accept_warning c) = length ts + 1 \<and> rb_remaining (accept_warning c) = rb_remaining c"
    using c(3,4) snoc.prems(4) w by (auto simp: accept_warning_def Let_def)
  then show ?case using c accept_warning_ok [OF c(2,3)] by (simp add: rb_accepts_snoc common_reasoning_budget_accept_def)
qed simp

section \<open>The properties\<close>

text \<open>
  C16. The matcher of start and end sequences: on every token it returns, and what it returns is the
  number of the longest of its sequences that ends at this token within the tokens since its last report
  or reset, and -1 when there is none.
\<close>

theorem matcher_reports_longest:
  assumes "\<forall>s \<in> set seqs. int32_tokens s" "matcher_reach seqs tm h" "int32_tokens [t]"
  shows "\<exists>p tm'. matcher_advance t tm = Some (p, tm') \<and> longest_pattern (collect_seqs seqs) (h @ [t]) p"
  using matcher_advance_ok [OF assms(1) matcher_reach_inv [OF assms(2,1)] assms(3)] matcher_reach_inv [OF assms(2,1)]
  unfolding matcher_inv_def by metis

theorem matcher_reports_longest_witness:
  "\<exists>tm tm1 tm2. new_matcher [[1], [2, 1]] = Some tm \<and> matcher_advance 2 tm = Some (-1, tm1) \<and> matcher_advance 1 tm1 = Some (1, tm2)"
proof -
  have S: "\<forall>s \<in> set [[1], [2, 1]]. int32_tokens s" and t: "int32_tokens [1]" "int32_tokens [2]" by (simp_all add: int32_tokens_def)
  have c: "collect_seqs [[1], [2, 1]] = [[1], [2, 1]]" by (simp add: collect_seqs_def)
  obtain tm where tm: "new_matcher [[1], [2, 1]] = Some tm" using new_matcher_ok [OF S] by blast
  have R: "matcher_reach [[1], [2, 1]] tm []" using tm by (rule start)
  obtain p tm1 where 1: "matcher_advance 2 tm = Some (p, tm1)" "longest_pattern [[1], [2, 1]] [2 :: llama_token] p"
    using matcher_reports_longest [OF S R t(2)] c by auto
  have p: "p = -1" using 1(2) by (auto simp: longest_pattern_def suffix_Cons less_Suc_eq)
  have R1: "matcher_reach [[1], [2, 1]] tm1 [2]" using advance [OF R t(2) 1(1)] p by simp
  obtain q tm2 where 2: "matcher_advance 1 tm1 = Some (q, tm2)" "longest_pattern [[1], [2, 1]] [2, 1 :: llama_token] q"
    using matcher_reports_longest [OF S R1 t(1)] c by auto
  have "q = 1" using 2(2) by (auto simp: longest_pattern_def suffix_Cons less_Suc_eq)
  with tm 1(1) 2(1) p show ?thesis by blast
qed

text \<open>
  C22. However the sampler is run, every token is accepted, a reasoning block counts at most \<open>budget\<close>
  tokens, and while it counts or warns the remaining budget is what is left of it, and positive.
\<close>

theorem reasoning_budget_bound:
  assumes "common_reasoning_budget_init vocab ss es forced budget st warn at = Some ctx0" "\<forall>s \<in> set ss \<union> set es. int32_tokens s"
    "st = RB_IDLE \<or> st = RB_COUNTING" "rb_reach ctx0 ctx k"
  shows "int k \<le> max 0 budget \<and>
    (rb_state ctx = RB_COUNTING \<or> rb_state ctx = RB_WARNING \<longrightarrow> rb_remaining ctx = budget - int k \<and> 0 < rb_remaining ctx) \<and>
    (int32_tokens [t] \<longrightarrow> common_reasoning_budget_accept t ctx \<noteq> None)"
proof -
  note I = rb_init_ok [OF assms(1-3)]
  have R: "rb_inv ctx0 ctx k" by (rule rb_reach_inv [OF assms(4) I(1)])
  then have "rb_budget ctx = budget" using I(2) by (simp add: rb_inv_def rb_static_def)
  with R rb_accept_ok [OF R, of t] show ?thesis by (auto simp: rb_inv_def rb_counts_def)
qed

lemma example_budget:
  "\<exists>ctx. common_reasoning_budget_init None [[1]] [[2]] [5, 2] budget RB_COUNTING [9] 2 = Some ctx \<and> rb_reach ctx ctx 0 \<and>
     rb_state ctx = (if budget \<le> 0 then RB_FORCING else RB_COUNTING) \<and> rb_force_pos ctx = 0 \<and> rb_remaining ctx = budget \<and>
     new_matcher [[2]] = Some (rb_end_matcher ctx) \<and> warn_armed ctx \<and> rb_warn_at ctx = 2 \<and> rb_vocab ctx = None"
proof -
  have S: "\<forall>s \<in> set [[1]]. int32_tokens s" "\<forall>s \<in> set [[2]]. int32_tokens s" by (simp_all add: int32_tokens_def)
  obtain sm em where "new_matcher [[1]] = Some sm" "new_matcher [[2]] = Some em" using new_matcher_ok [OF S(1)] new_matcher_ok [OF S(2)] by blast
  then show ?thesis by (simp add: common_reasoning_budget_init_def rb_reach.init warn_armed_def)
qed

theorem reasoning_budget_bound_witness:
  "\<exists>ctx. common_reasoning_budget_init None [[1]] [[2]] [5, 2] 3 RB_COUNTING [9] 2 = Some ctx \<and> common_reasoning_budget_accept 4 ctx \<noteq> None"
proof -
  obtain ctx where c: "common_reasoning_budget_init None [[1]] [[2]] [5, 2] 3 RB_COUNTING [9] 2 = Some ctx" "rb_reach ctx ctx 0" using example_budget by blast
  have "\<forall>s \<in> set [[1]] \<union> set [[2]]. int32_tokens s" "int32_tokens [4]" by (simp_all add: int32_tokens_def)
  with reasoning_budget_bound [OF c(1) this(1) _ c(2), of 4] c(1) show ?thesis by auto
qed

text \<open>
  C25. Once the end of a block is forced, exactly the tokens of the forced sequence can be sampled, one
  after the other: at each of its positions every other candidate is excluded, and after as many tokens
  as it has the block is done.
\<close>

theorem forced_end_sequence:
  assumes "common_reasoning_budget_init vocab ss es forced budget st warn at = Some ctx0" "\<forall>s \<in> set ss \<union> set es. int32_tokens s"
    "st = RB_IDLE \<or> st = RB_COUNTING" "rb_reach ctx0 ctx k" "rb_state ctx = RB_FORCING" "rb_force_pos ctx = 0" "int32_tokens ts"
    "length ts \<le> length forced" "forced \<noteq> []"
  shows "\<exists>ctx'. rb_accepts ts ctx = Some ctx' \<and>
    (if length ts < length forced then common_reasoning_budget_apply ninf ctx' cur = only_token ninf (forced ! length ts) cur
     else rb_state ctx' = RB_DONE \<and> common_reasoning_budget_apply ninf ctx' cur = cur)"
proof -
  note I = rb_init_ok [OF assms(1-3)]
  have R: "rb_inv ctx0 ctx k" by (rule rb_reach_inv [OF assms(4) I(1)])
  have f: "rb_forced_tokens ctx = forced" using R I(3) by (simp add: rb_inv_def rb_static_def)
  show ?thesis
  proof (cases "length ts < length forced")
    case True
    with forcing_run [OF R assms(5,6,7)] f obtain c where c: "rb_accepts ts ctx = Some c" "rb_inv ctx0 c k" "rb_state c = RB_FORCING" "rb_force_pos c = length ts" by auto
    have "rb_forced_tokens c = forced" using c(2) I(3) by (simp add: rb_inv_def rb_static_def)
    with c True show ?thesis by (simp add: apply_forcing)
  next
    case False
    with assms(8,9) obtain us t where ts: "ts = us @ [t]" "length us + 1 = length forced" by (cases ts rule: rev_cases) auto
    from ts assms(7) have us: "int32_tokens us" "int32_tokens [t]" by (auto simp: int32_tokens_def)
    with forcing_run [OF R assms(5,6), of us] f ts obtain c where c: "rb_accepts us ctx = Some c" "rb_inv ctx0 c k" "rb_state c = RB_FORCING" "rb_force_pos c = length us" by auto
    have fc: "rb_forced_tokens c = forced" using c(2) I(3) by (simp add: rb_inv_def rb_static_def)
    obtain c' where c': "accept_forcing t c = Some c'" using accept_forcing_ok [OF c(2) us(2) c(3)] by blast
    then have "rb_state c' = RB_DONE" using c(4) ts(2) fc by (auto simp: accept_forcing_def Let_def)
    with c c' ts False show ?thesis by (simp add: rb_accepts_snoc common_reasoning_budget_accept_def common_reasoning_budget_apply_def)
  qed
qed

theorem forced_end_sequence_witness:
  "\<exists>ctx ctx'. common_reasoning_budget_init None [[1]] [[2]] [5, 2] 0 RB_COUNTING [9] 2 = Some ctx \<and> rb_accepts [5] ctx = Some ctx' \<and>
     common_reasoning_budget_apply (0 :: nat) ctx' [(2, 7), (5, 8)] = [(2, 7), (5, 0)]"
proof -
  obtain ctx where c: "common_reasoning_budget_init None [[1]] [[2]] [5, 2] 0 RB_COUNTING [9] 2 = Some ctx" "rb_reach ctx ctx 0"
    "rb_state ctx = RB_FORCING" "rb_force_pos ctx = 0" using example_budget [of 0] by auto
  have "\<forall>s \<in> set [[1]] \<union> set [[2]]. int32_tokens s" "int32_tokens [5]" by (simp_all add: int32_tokens_def)
  with forced_end_sequence [OF c(1) this(1) _ c(2-4) this(2), of "0 :: nat" "[(2, 7), (5, 8)]"] c(1) show ?thesis by (auto simp: only_token_def)
qed

text \<open>
  A warning is forced in full and costs nothing: at each of its positions every other candidate is
  excluded, and after it the block counts on with the same remaining budget, and does not warn again.
\<close>

lemma warning_is_free:
  assumes "common_reasoning_budget_init vocab ss es forced budget st warn at = Some ctx0" "\<forall>s \<in> set ss \<union> set es. int32_tokens s"
    "st = RB_IDLE \<or> st = RB_COUNTING" "rb_reach ctx0 ctx k" "rb_state ctx = RB_WARNING" "rb_warn_pos ctx = 0" "length ts \<le> length warn"
  shows "\<exists>ctx'. rb_accepts ts ctx = Some ctx' \<and> rb_remaining ctx' = rb_remaining ctx \<and> \<not> warn_armed ctx' \<and>
    (if length ts < length warn then common_reasoning_budget_apply ninf ctx' cur = only_token ninf (warn ! length ts) cur
     else rb_state ctx' = RB_COUNTING)"
proof -
  note I = rb_init_ok [OF assms(1-3)]
  have R: "rb_inv ctx0 ctx k" by (rule rb_reach_inv [OF assms(4) I(1)])
  have w: "rb_warn_tokens ctx = warn" "warn \<noteq> []" using R I(4) assms(5) by (auto simp: rb_inv_def rb_static_def rb_counts_def)
  show ?thesis
  proof (cases "length ts < length warn")
    case True
    with warning_run [OF R assms(5,6)] w obtain c where c: "rb_accepts ts ctx = Some c" "rb_inv ctx0 c k" "rb_state c = RB_WARNING" "rb_warn_pos c = length ts"
      "rb_remaining c = rb_remaining ctx" by blast
    have "rb_warn_tokens c = warn" "rb_warn_fired c" using c(2,3) I(4) by (simp_all add: rb_inv_def rb_static_def rb_counts_def)
    with c True show ?thesis by (simp add: apply_warning warn_armed_def)
  next
    case False
    with assms(7) w(2) obtain us t where ts: "ts = us @ [t]" "length us + 1 = length warn" by (cases ts rule: rev_cases) auto
    with warning_run [OF R assms(5,6), of us] w obtain c where c: "rb_accepts us ctx = Some c" "rb_inv ctx0 c k" "rb_state c = RB_WARNING" "rb_warn_pos c = length us"
      "rb_remaining c = rb_remaining ctx" by auto
    have "rb_warn_tokens c = warn" "rb_warn_fired c" using c(2,3) I(4) by (simp_all add: rb_inv_def rb_static_def rb_counts_def)
    then have "rb_state (accept_warning c) = RB_COUNTING" "rb_warn_fired (accept_warning c)" "rb_remaining (accept_warning c) = rb_remaining c"
      using c(4) ts(2) by (auto simp: accept_warning_def Let_def)
    with c ts False show ?thesis by (simp add: rb_accepts_snoc common_reasoning_budget_accept_def warn_armed_def)
  qed
qed

lemma warning_is_free_witness:
  "\<exists>ctx ctx1 ctx2. common_reasoning_budget_init None [[1]] [[2]] [5, 2] 3 RB_COUNTING [9] 2 = Some ctx \<and>
     common_reasoning_budget_accept 4 ctx = Some ctx1 \<and> rb_accepts [9] ctx1 = Some ctx2 \<and> rb_state ctx2 = RB_COUNTING \<and> rb_remaining ctx2 = 2"
proof -
  obtain ctx where c: "common_reasoning_budget_init None [[1]] [[2]] [5, 2] 3 RB_COUNTING [9] 2 = Some ctx" "rb_reach ctx ctx 0"
    "rb_state ctx = RB_COUNTING" "rb_remaining ctx = 3" "new_matcher [[2]] = Some (rb_end_matcher ctx)" "warn_armed ctx" "rb_warn_at ctx = 2" "rb_vocab ctx = None"
    using example_budget [of 3] by auto
  have S: "\<forall>s \<in> set [[1]] \<union> set [[2]]. int32_tokens s" "\<forall>s \<in> set [[2]]. int32_tokens s" "int32_tokens [4]" by (simp_all add: int32_tokens_def)
  have I: "matcher_inv [[2]] (rb_end_matcher ctx) []" using c(5) matcher_reach_inv [OF start S(2)] by simp
  then have "tm_seqs (rb_end_matcher ctx) = [[2]]" by (simp add: matcher_inv_def collect_seqs_def)
  with matcher_advance_ok [OF S(2) I S(3)] obtain p tm where m: "matcher_advance 4 (rb_end_matcher ctx) = Some (p, tm)" "longest_pattern [[2]] [4 :: llama_token] p"
    by auto
  have "p = -1" using m(2) by (auto simp: longest_pattern_def suffix_Cons)
  then obtain ctx1 where a: "common_reasoning_budget_accept 4 ctx = Some ctx1" "rb_state ctx1 = RB_WARNING" "rb_warn_pos ctx1 = 0" "rb_remaining ctx1 = 2"
    using c m(1) by (auto simp: common_reasoning_budget_accept_def accept_counting_def count_token_def Let_def warn_armed_def)
  have "rb_reach ctx ctx1 1" using accept [OF c(2) S(3) a(1)] c(3) by simp
  from warning_is_free [OF c(1) S(1) _ this a(2,3), of "[9]" "0 :: nat" "[]"] a c(1) show ?thesis by auto
qed

end
