(* ===== verification/Trie_Check.thy ===== *)
theory Trie_Check
  imports Token_Matcher
begin

text \<open>
  Texts: the UTF-8 routines are inverse to each other, and the trie of a set of words finds the words at
  a position of a text.
\<close>

section \<open>UTF-8\<close>

lemma cont_byte: "is_cont (128 + x mod 64)" "(128 + x mod 64) mod 64 = x mod 64"
  using mod_mult_self2 [of "x mod 64" 64 2] by (simp_all add: is_cont_def add.commute)

lemma lead_byte:
  "x < 32 \<Longrightarrow> (192 + x) div 64 = 3" "x < 32 \<Longrightarrow> (192 + x) div 32 = 6" "x < 32 \<Longrightarrow> (192 + x) mod 32 = x"
  "x < 16 \<Longrightarrow> (224 + x) div 64 = 3" "x < 16 \<Longrightarrow> (224 + x) div 32 = 7" "x < 16 \<Longrightarrow> (224 + x) div 16 = 14" "x < 16 \<Longrightarrow> (224 + x) mod 16 = x"
  "x < 8 \<Longrightarrow> (240 + x) div 64 = 3" "x < 8 \<Longrightarrow> (240 + x) div 32 = 7" "x < 8 \<Longrightarrow> (240 + x) div 16 = 15" "x < 8 \<Longrightarrow> (240 + x) div 8 = 30"
  "x < 8 \<Longrightarrow> (240 + x) mod 8 = (x :: nat)"
  using mod_mult_self2 [of x 32 6] mod_mult_self2 [of x 16 14] mod_mult_self2 [of x 8 30]
  by (auto intro!: div_nat_eqI simp: add.commute)

lemma digits:
  fixes c :: nat
  shows "c < 2048 \<Longrightarrow> c div 64 mod 32 * 64 + c mod 64 = c"
    "c < 65536 \<Longrightarrow> c div 4096 mod 16 * 4096 + c div 64 mod 64 * 64 + c mod 64 = c"
    "c < 2097152 \<Longrightarrow> c div 262144 mod 8 * 262144 + c div 4096 mod 64 * 4096 + c div 64 mod 64 * 64 + c mod 64 = c"
proof -
  have d: "c div 64 div 64 = c div 4096" "c div 4096 div 64 = c div 262144" by (simp_all add: div_mult2_eq [symmetric])
  have e: "c div 64 * 64 + c mod 64 = c" "c div 4096 * 64 + c div 64 mod 64 = c div 64" "c div 262144 * 64 + c div 4096 mod 64 = c div 4096"
    using div_mult_mod_eq [of c 64] div_mult_mod_eq [of "c div 64" 64] div_mult_mod_eq [of "c div 4096" 64] unfolding d .
  show "c div 64 mod 32 * 64 + c mod 64 = c" if "c < 2048"
  proof -
    from that have "c div 64 mod 32 = c div 64" by simp
    with e(1) show ?thesis by linarith
  qed
  show "c div 4096 mod 16 * 4096 + c div 64 mod 64 * 64 + c mod 64 = c" if "c < 65536"
  proof -
    from that have "c div 4096 mod 16 = c div 4096" by simp
    with e(1,2) show ?thesis by linarith
  qed
  show "c div 262144 mod 8 * 262144 + c div 4096 mod 64 * 4096 + c div 64 mod 64 * 64 + c mod 64 = c" if "c < 2097152"
  proof -
    from that have "c div 262144 mod 8 = c div 262144" by simp
    with e show ?thesis by linarith
  qed
qed

lemma parse_encoded:
  assumes "common_unicode_cpt_to_utf8 c = Some bs"
  shows "common_parse_utf8_codepoint (pre @ bs @ rest) (length pre) = SUCCESS c (length bs)"
proof -
  let ?in = "pre @ bs @ rest" and ?o = "length pre"
  have n: "?in ! (?o + k) = (bs @ rest) ! k" for k by (simp add: nth_append)
  have n0: "?in ! ?o = (bs @ rest) ! 0" using n [of 0] by simp
  consider "c < 128" "bs = [c]"
    | "128 \<le> c" "c < 2048" "bs = [192 + c div 64 mod 32, 128 + c mod 64]"
    | "2048 \<le> c" "c < 65536" "bs = [224 + c div 4096 mod 16, 128 + c div 64 mod 64, 128 + c mod 64]"
    | "65536 \<le> c" "c < 2097152" "bs = [240 + c div 262144 mod 8, 128 + c div 4096 mod 64, 128 + c div 64 mod 64, 128 + c mod 64]"
    using assms by (simp add: common_unicode_cpt_to_utf8_def split: if_splits)
  then show ?thesis
  proof cases
    case 1
    then show ?thesis unfolding common_parse_utf8_codepoint_def Let_def n0 by simp
  next
    case 2
    then show ?thesis unfolding common_parse_utf8_codepoint_def Let_def n n0 using digits(1) [of c] by (simp add: cont_byte lead_byte)
  next
    case 3
    then show ?thesis unfolding common_parse_utf8_codepoint_def Let_def n n0 using digits(2) [of c] by (simp add: cont_byte lead_byte)
  next
    case 4
    then show ?thesis unfolding common_parse_utf8_codepoint_def Let_def n n0 using digits(3) [of c] by (simp add: cont_byte lead_byte)
  qed
qed

lemma word_symbols_step: "common_parse_utf8_codepoint w pos = SUCCESS c n \<Longrightarrow> word_symbols w pos = c # word_symbols w (pos + n)"
  by (subst word_symbols.simps) simp

lemma word_symbols_end: "word_symbols (pre @ []) (length pre) = []"
  by (subst word_symbols.simps) (simp add: common_parse_utf8_codepoint_def)

lemma word_symbols_encoded:
  "common_unicode_cpts_to_utf8 cs = Some w \<Longrightarrow> word_symbols (pre @ w) (length pre) = cs"
proof (induction cs arbitrary: pre w)
  case Nil
  then show ?case using word_symbols_end [of pre] by simp
next
  case (Cons c cs)
  then obtain bs w' where b: "common_unicode_cpt_to_utf8 c = Some bs" "common_unicode_cpts_to_utf8 cs = Some w'" "w = bs @ w'"
    by (auto simp: bind_eq_Some_conv)
  from word_symbols_step [OF parse_encoded [OF b(1), of pre w']] Cons.IH [OF b(2), of "pre @ bs"] b(3) show ?case by simp
qed

section \<open>Words of a trie\<close>

text \<open>The nodes are exactly the prefixes of the patterns.\<close>

definition word_trie :: "uint32 list list \<Rightarrow> uint32 list list \<Rightarrow> common_trie \<Rightarrow> bool" where
  "word_trie pats L t \<longleftrightarrow> trie_ok (tr_nodes t) L \<and> pats_ok (tr_nodes t) L pats \<and> tr_n_patterns t = int (length pats) \<and>
     (\<forall>x \<in> set L. x = [] \<or> (\<exists>p \<in> set pats. prefix x p))"

lemma word_trie_insert:
  assumes "word_trie pats L t"
  shows "\<exists>L'. word_trie (if w \<in> set pats then pats else pats @ [w]) L' (snd (trie_insert w t))"
proof -
  obtain p t' where i: "trie_insert w t = (p, t')" by (metis surj_pair)
  from assms have "trie_ok (tr_nodes t) L" "pats_ok (tr_nodes t) L pats" "tr_n_patterns t = int (length pats)" by (auto simp: word_trie_def)
  from trie_insert_ok [OF this i] obtain L' where L': "trie_ok (tr_nodes t') L'" "pats_ok (tr_nodes t') L' (if w \<in> set pats then pats else pats @ [w])"
    "tr_n_patterns t' = int (length (if w \<in> set pats then pats else pats @ [w]))" "\<forall>x \<in> set L'. x \<in> set L \<or> prefix x w" by blast
  have "\<forall>x \<in> set L'. x = [] \<or> (\<exists>p \<in> set (if w \<in> set pats then pats else pats @ [w]). prefix x p)"
    using L'(4) assms by (fastforce simp: word_trie_def)
  with L' i show ?thesis by (auto simp: word_trie_def)
qed

lemma word_trie_strings: "\<exists>pats L. word_trie pats L (trie_of_strings ws) \<and> set pats = (\<lambda>w. word_symbols w 0) ` set ws"
proof (induction ws rule: rev_induct)
  case Nil
  have "pats_ok (tr_nodes new_trie) [[]] []" by (simp add: pats_ok_def new_trie_def empty_node_def)
  with trie_ok_new have "word_trie [] [[]] (trie_of_strings [])" by (simp add: word_trie_def trie_of_strings_def new_trie_def)
  then show ?case by force
next
  case (snoc w ws)
  then obtain pats L where p: "word_trie pats L (trie_of_strings ws)" "set pats = (\<lambda>w. word_symbols w 0) ` set ws" by blast
  from word_trie_insert [OF p(1), of "word_symbols w 0"] obtain L' where
    "word_trie (if word_symbols w 0 \<in> set pats then pats else pats @ [word_symbols w 0]) L' (trie_of_strings (ws @ [w]))"
    by (auto simp: trie_of_strings_def trie_insert_string_def)
  moreover have "set (if word_symbols w 0 \<in> set pats then pats else pats @ [word_symbols w 0]) = (\<lambda>w. word_symbols w 0) ` set (ws @ [w])"
    using p(2) by auto
  ultimately show ?case by blast
qed

section \<open>The search at a position\<close>

text \<open>What \<open>check_at\<close> answers for the code points \<open>w\<close> of a text.\<close>

definition match_spec :: "uint32 list set \<Rightarrow> uint32 list \<Rightarrow> match_result" where
  "match_spec W w =
     (if \<exists>p \<in> W. p \<noteq> [] \<and> prefix p w then COMPLETE_MATCH
      else if w \<noteq> [] \<and> (\<exists>p \<in> W. prefix w p) then PARTIAL_MATCH
      else NO_MATCH)"

lemma trie_ok_prefix:
  assumes "trie_ok nodes L"
  shows "x \<in> set L \<Longrightarrow> prefix y x \<Longrightarrow> y \<in> set L"
proof (induction x rule: rev_induct)
  case Nil
  then show ?case by simp
next
  case (snoc c x)
  from snoc.prems(1) assms obtain v where v: "v < length nodes" "L ! v = x @ [c]" by (auto simp: in_set_conv_nth trie_ok_def)
  obtain u where "u < length nodes" "L ! u = x" by (rule trie_ok_parent [OF assms v])
  then have "x \<in> set L" using assms by (auto simp: trie_ok_def in_set_conv_nth)
  with snoc show ?case by (auto simp: prefix_snoc)
qed

lemma check_loop_exact:
  assumes W: "word_trie pats L t"
  shows "u < length (tr_nodes t) \<Longrightarrow> \<not> (\<exists>p \<in> set pats. p \<noteq> [] \<and> prefix p (L ! u)) \<Longrightarrow>
    check_loop (tr_nodes t) sv pos u = match_spec (set pats) (L ! u @ word_symbols sv pos)"
proof (induction "tr_nodes t" sv pos u rule: check_loop.induct)
  case (1 sv pos u)
  let ?N = "tr_nodes t"
  have T: "trie_ok ?N L" and P: "pats_ok ?N L pats" and pre: "\<And>x. x \<in> set L \<Longrightarrow> x = [] \<or> (\<exists>p \<in> set pats. prefix x p)"
    using W by (auto simp: word_trie_def)
  have len: "length L = length ?N" using T by (simp add: trie_ok_def)
  have "L ! u = [] \<or> (\<exists>p \<in> set pats. prefix (L ! u) p)" using pre [of "L ! u"] 1(2) len by simp
  then have fin: "match_spec (set pats) (L ! u) = (if u \<noteq> 0 then PARTIAL_MATCH else NO_MATCH)"
    using 1(3) trie_ok_root [OF T 1(2)] unfolding match_spec_def by auto
  show ?case
  proof (cases "common_parse_utf8_codepoint sv pos")
    case (SUCCESS c n)
    note ws = word_symbols_step [OF SUCCESS]
    have pL: "\<And>p. p \<in> set pats \<Longrightarrow> p \<in> set L" using P by (auto simp: pats_ok_def)
    let ?w = "(L ! u @ [c]) @ word_symbols sv (pos + n)"
    have below: "prefix p (L ! u) \<or> prefix (L ! u @ [c]) p" if "prefix p ?w" for p
      using that prefix_same_cases [of p ?w "L ! u @ [c]"] by (auto simp: prefix_snoc)
    show ?thesis
    proof (cases "child ?N u c")
      case None
      have no: "\<not> prefix (L ! u @ [c]) p" if "p \<in> set pats" for p
        using trie_ok_prefix [OF T pL [OF that]] trie_ok_no_child [OF T 1(2) None] by blast
      have "\<not> prefix ?w p" if "p \<in> set pats" for p using no [OF that] append_prefixD by blast
      with no below 1(3) have "match_spec (set pats) ?w = NO_MATCH" unfolding match_spec_def by auto
      moreover have "check_loop ?N sv pos u = NO_MATCH" using SUCCESS None by (subst check_loop.simps) simp
      ultimately show ?thesis using ws by simp
    next
      case (Some v)
      have v: "v < length ?N" "L ! v = L ! u @ [c]" using trie_ok_child [OF T 1(2), of c v] Some by auto
      show ?thesis
      proof (cases "tn_pattern (?N ! v) \<ge> 0")
        case True
        then have "tn_pattern (?N ! v) \<noteq> -1" by simp
        then have "L ! v \<in> set pats" using P v(1) unfolding pats_ok_def by (metis nth_mem)
        then have "match_spec (set pats) ?w = COMPLETE_MATCH" using v(2) unfolding match_spec_def by (auto intro!: bexI [of _ "L ! v"])
        moreover have "check_loop ?N sv pos u = COMPLETE_MATCH" using SUCCESS Some True by (subst check_loop.simps) simp
        ultimately show ?thesis using ws by simp
      next
        case False
        then have "L ! v \<notin> set pats" using P v(1) unfolding pats_ok_def by force
        then have "\<not> (\<exists>p \<in> set pats. p \<noteq> [] \<and> prefix p (L ! v))" using 1(3) v(2) by (auto simp: prefix_snoc)
        from 1(1) [OF SUCCESS Some False v(1) this] have "check_loop ?N sv (pos + n) v = match_spec (set pats) ?w" using v(2) by simp
        moreover have "check_loop ?N sv pos u = check_loop ?N sv (pos + n) v" using SUCCESS Some False by (subst check_loop.simps) simp
        ultimately show ?thesis using ws by simp
      qed
    qed
  next
    case INCOMPLETE
    then have "check_loop ?N sv pos u = (if u \<noteq> 0 then PARTIAL_MATCH else NO_MATCH)" "word_symbols sv pos = []"
      by (subst check_loop.simps word_symbols.simps, simp)+
    with fin show ?thesis by simp
  next
    case INVALID
    then have "check_loop ?N sv pos u = (if u \<noteq> 0 then PARTIAL_MATCH else NO_MATCH)" "word_symbols sv pos = []"
      by (subst check_loop.simps word_symbols.simps, simp)+
    with fin show ?thesis by simp
  qed
qed

section \<open>The properties\<close>

text \<open>
  Decoding inverts encoding: the code points a trie reads from an encoded text are those that were
  encoded.
\<close>

lemma symbols_roundtrip:
  assumes "common_unicode_cpts_to_utf8 cs = Some w"
  shows "word_symbols w 0 = cs"
  using word_symbols_encoded [OF assms, of "[]"] by simp

lemma symbols_roundtrip_witness: "word_symbols [226, 130, 172, 65] 0 = [8364, 65]"
  by (rule symbols_roundtrip) (simp add: common_unicode_cpt_to_utf8_def)

text \<open>
  C32. The search at a position of a text answers for the code points from there on: a complete match
  when one of the words starts them, a partial match when they end inside a word, and no match otherwise.
\<close>

theorem check_at_exact:
  "check_at (trie_of_strings ws) sv pos = match_spec ((\<lambda>w. word_symbols w 0) ` set ws) (word_symbols sv pos)"
proof -
  obtain pats L where p: "word_trie pats L (trie_of_strings ws)" "set pats = (\<lambda>w. word_symbols w 0) ` set ws" using word_trie_strings by blast
  then have "0 < length (tr_nodes (trie_of_strings ws))" "L ! 0 = []" by (auto simp: word_trie_def trie_ok_def)
  with check_loop_exact [OF p(1), of 0 sv pos] p(2) show ?thesis by (simp add: check_at_def)
qed

end
