(* ===== verification/State_Io.thy ===== *)
theory State_Io
  imports Prelude
begin

text \<open>
  The byte streams of the state save and restore: the interfaces of src/src/llama-io.h and the
  implementations over a host buffer and over a file in src/src/llama-context.cpp.

  A save never looks at what the stream answers, so it is the list of its \<open>write\<close> and
  \<open>write_tensor\<close> calls, and an implementation runs such a list. A restore is a computation on
  the state it changes paired with the reader; it returns a value, throws, or stops in
  \<open>GGML_ASSERT\<close>. The contents of the tensors are byte lists, named by a type of the client.
  Integers are written in the memory order of a little-endian host.
\<close>

section \<open>Bytes\<close>

type_synonym octet = "8 word"

fun le_bytes :: "nat \<Rightarrow> nat \<Rightarrow> octet list" where
  "le_bytes 0 n = []"
| "le_bytes (Suc k) n = word_of_nat n # le_bytes k (n div 256)"

fun le_nat :: "octet list \<Rightarrow> nat" where
  "le_nat [] = 0"
| "le_nat (b # bs) = unat b + 256 * le_nat bs"

definition u32_bytes :: "nat \<Rightarrow> octet list" where "u32_bytes n = le_bytes 4 n"
definition u64_bytes :: "nat \<Rightarrow> octet list" where "u64_bytes n = le_bytes 8 n"
definition i32_bytes :: "int \<Rightarrow> octet list" where "i32_bytes i = le_bytes 4 (nat (i mod 2 ^ 32))"
definition i32_of :: "nat \<Rightarrow> int" where "i32_of n = (if n < 2 ^ 31 then int n else int n - 2 ^ 32)"

definition is_i32 :: "int \<Rightarrow> bool" where "is_i32 i \<longleftrightarrow> - (2 ^ 31) \<le> i \<and> i < 2 ^ 31"

lemma length_le_bytes [simp]: "length (le_bytes k n) = k"
  by (induction k arbitrary: n) auto

lemma le_nat_bytes [simp]: "le_nat (le_bytes k n) = n mod 256 ^ k"
  by (induction k arbitrary: n) (simp_all add: unat_of_nat mod_mult2_eq)

lemma length_u32_bytes [simp]: "length (u32_bytes n) = 4" by (simp add: u32_bytes_def)
lemma length_u64_bytes [simp]: "length (u64_bytes n) = 8" by (simp add: u64_bytes_def)
lemma length_i32_bytes [simp]: "length (i32_bytes i) = 4" by (simp add: i32_bytes_def)

lemma u32_roundtrip: "n < 2 ^ 32 \<Longrightarrow> le_nat (u32_bytes n) = n"
  by (simp add: u32_bytes_def)

lemma u64_roundtrip: "n < 2 ^ 64 \<Longrightarrow> le_nat (u64_bytes n) = n"
  by (simp add: u64_bytes_def)

lemma i32_roundtrip: "is_i32 i \<Longrightarrow> i32_of (le_nat (i32_bytes i)) = i"
proof -
  assume i: "is_i32 i"
  have l: "nat (i mod 2 ^ 32) < 2 ^ 32" by (simp add: nat_less_iff)
  show ?thesis
  proof (cases "0 \<le> i")
    case True
    with i have "i mod 2 ^ 32 = i" by (intro mod_pos_pos_trivial) (auto simp: is_i32_def)
    with True i l show ?thesis by (simp add: i32_of_def i32_bytes_def is_i32_def nat_less_iff)
  next
    case False
    with i have "(i + 2 ^ 32) mod 2 ^ 32 = i + 2 ^ 32" by (intro mod_pos_pos_trivial) (auto simp: is_i32_def)
    then have "i mod 2 ^ 32 = i + 2 ^ 32" by simp
    with False i l show ?thesis by (simp add: i32_of_def i32_bytes_def is_i32_def nat_less_iff)
  qed
qed

section \<open>Tensors\<close>

type_synonym 't tensors = "'t \<Rightarrow> octet list"

text \<open>\<open>ggml_backend_tensor_get\<close> and \<open>ggml_backend_tensor_set\<close> on the bytes of a tensor.\<close>

definition slice :: "octet list \<Rightarrow> nat \<Rightarrow> nat \<Rightarrow> octet list" where
  "slice t off n = take n (drop off t)"

definition put :: "nat \<Rightarrow> octet list \<Rightarrow> octet list \<Rightarrow> octet list" where
  "put off bs t = take off t @ bs @ drop (off + length bs) t"

lemma length_slice [simp]: "off + n \<le> length t \<Longrightarrow> length (slice t off n) = n"
  by (simp add: slice_def)

lemma length_put [simp]: "off + length bs \<le> length t \<Longrightarrow> length (put off bs t) = length t"
  by (simp add: put_def)

lemma slice_append: "slice t a (m + n) = slice t a m @ slice t (a + m) n"
  by (simp add: slice_def take_add add.commute)

lemma slice_put_same: "off + length bs \<le> length t \<Longrightarrow> slice (put off bs t) off (length bs) = bs"
  by (simp add: slice_def put_def)

lemma slice_put_other:
  assumes "off + length bs \<le> length t" "a + n \<le> off \<or> off + length bs \<le> a"
  shows "slice (put off bs t) a n = slice t a n"
  using assms(2)
proof
  assume a: "a + n \<le> off"
  then have "drop a (put off bs t) = drop a (take off t) @ bs @ drop (off + length bs) t" using assms(1)
    by (simp add: put_def)
  moreover have "n \<le> off - a" "off - a \<le> length t - a" using a assms(1) by auto
  ultimately show ?thesis by (simp add: slice_def drop_take min_absorb1 min_absorb2)
next
  assume a: "off + length bs \<le> a"
  with assms(1) have "drop a (put off bs t) = drop a t" by (simp add: put_def)
  then show ?thesis by (simp add: slice_def)
qed

lemma slice_slice: "a + n \<le> m \<Longrightarrow> slice (slice t off m) a n = slice t (off + a) n"
  by (simp add: slice_def drop_take min_def add.commute)

section \<open>Writers\<close>

datatype 't io_op =
    Io_Write "octet list"
  | Io_Write_Tensor 't nat nat

text \<open>\<open>write_string\<close>.\<close>

definition io_write_string :: "octet list \<Rightarrow> 't io_op list" where
  "io_write_string s = [Io_Write (u32_bytes (length s)), Io_Write s]"

text \<open>\<open>llama_io_write_dummy\<close> counts; \<open>llama_io_write_file\<close> copies at once.\<close>

fun dummy_write :: "bool \<Rightarrow> 't io_op \<Rightarrow> nat \<Rightarrow> nat" where
  "dummy_write skip_tensors (Io_Write bs) n = n + length bs"
| "dummy_write skip_tensors (Io_Write_Tensor t off sz) n = (if skip_tensors then n else n + sz)"

fun file_write :: "'t tensors \<Rightarrow> 't io_op \<Rightarrow> octet list \<Rightarrow> octet list" where
  "file_write T (Io_Write bs) out = out @ bs"
| "file_write T (Io_Write_Tensor t off sz) out = out @ slice (T t) off sz"

text \<open>\<open>llama_io_write_host\<close>: tensor writes are kept and done by the destructor.\<close>

datatype exc =
    EndOfBuffer
  | WrongArch
  | WrongMagic
  | StreamMismatch
  | MirrorStreams
  | MirrorNotEmpty
  | RestoreFailed

record 't host_writer =
  hw_buf :: "octet list"
  hw_ptr :: nat
  hw_buf_size :: nat
  hw_size_written :: nat
  hw_winfos :: "('t \<times> nat \<times> nat \<times> nat) list"

definition host_writer_new :: "octet list \<Rightarrow> 't host_writer" where
  "host_writer_new buf = \<lparr>hw_buf = buf, hw_ptr = 0, hw_buf_size = length buf, hw_size_written = 0, hw_winfos = []\<rparr>"

definition hw_advance :: "nat \<Rightarrow> 't host_writer \<Rightarrow> 't host_writer" where
  "hw_advance n w = w\<lparr>hw_ptr := hw_ptr w + n, hw_size_written := hw_size_written w + n, hw_buf_size := hw_buf_size w - n\<rparr>"

fun host_write :: "'t io_op \<Rightarrow> 't host_writer \<Rightarrow> exc + 't host_writer" where
  "host_write (Io_Write bs) w =
     (if length bs > hw_buf_size w then Inl EndOfBuffer
      else Inr (hw_advance (length bs) (w\<lparr>hw_buf := put (hw_ptr w) bs (hw_buf w)\<rparr>)))"
| "host_write (Io_Write_Tensor t off sz) w =
     (if sz > hw_buf_size w then Inl EndOfBuffer
      else Inr (hw_advance sz (w\<lparr>hw_winfos := hw_winfos w @ [(t, hw_ptr w, sz, off)]\<rparr>)))"

text \<open>The run of a list of calls stops at the first that throws; the second component is the exception.\<close>

fun host_run :: "'t io_op list \<Rightarrow> 't host_writer \<Rightarrow> 't host_writer \<times> exc option" where
  "host_run [] w = (w, None)"
| "host_run (op # ops) w =
     (case host_write op w of Inl e \<Rightarrow> (w, Some e) | Inr w \<Rightarrow> host_run ops w)"

definition host_writer_destroy :: "'t tensors \<Rightarrow> 't host_writer \<Rightarrow> octet list" where
  "host_writer_destroy T w = fold (\<lambda>(t, ptr, sz, off) buf. put ptr (slice (T t) off sz) buf) (hw_winfos w) (hw_buf w)"

text \<open>The size and the bytes of a list of calls.\<close>

definition io_size :: "'t io_op list \<Rightarrow> nat" where
  "io_size ops = fold (dummy_write False) ops 0"

definition io_bytes :: "'t tensors \<Rightarrow> 't io_op list \<Rightarrow> octet list" where
  "io_bytes T ops = fold (file_write T) ops []"

lemma io_size_fold: "fold (dummy_write False) ops n = n + io_size ops"
proof -
  have "fold (dummy_write False) ops (m + k) = m + fold (dummy_write False) ops k" for m k
  proof (induction ops arbitrary: k)
    case (Cons op ops)
    have "dummy_write False op (m + k) = m + dummy_write False op k" by (cases op) simp_all
    then show ?case by (simp add: Cons.IH)
  qed simp
  from this [of n 0] show ?thesis by (simp add: io_size_def)
qed

lemma io_bytes_fold: "fold (file_write T) ops out = out @ io_bytes T ops"
proof -
  have "fold (file_write T) ops (out @ bs) = out @ fold (file_write T) ops bs" for out bs
  proof (induction ops arbitrary: bs)
    case (Cons op ops)
    have "file_write T op (out @ bs) = out @ file_write T op bs" by (cases op) simp_all
    then show ?case by (simp add: Cons.IH)
  qed simp
  from this [of out "[]"] show ?thesis by (simp add: io_bytes_def)
qed

lemma io_size_simps [simp]:
  "io_size [] = 0" "io_size (Io_Write bs # ops) = length bs + io_size ops"
  "io_size (Io_Write_Tensor t off n # ops) = n + io_size ops" "io_size (ops @ ops') = io_size ops + io_size ops'"
  using io_size_fold [of ops "length bs"] io_size_fold [of ops n] io_size_fold [of ops' "io_size ops"]
  by (simp_all add: io_size_def)

lemma io_bytes_simps [simp]:
  "io_bytes T [] = []" "io_bytes T (Io_Write bs # ops) = bs @ io_bytes T ops"
  "io_bytes T (Io_Write_Tensor t off n # ops) = slice (T t) off n @ io_bytes T ops"
  "io_bytes T (ops @ ops') = io_bytes T ops @ io_bytes T ops'"
  using io_bytes_fold [of T ops bs] io_bytes_fold [of T ops "slice (T t) off n"] io_bytes_fold [of T ops' "io_bytes T ops"]
  by (simp_all add: io_bytes_def)

lemma io_bytes_concat: "io_bytes T (concat (map f xs)) = concat (map (\<lambda>x. io_bytes T (f x)) xs)"
  by (induction xs) auto

text \<open>All tensor accesses are inside the tensors.\<close>

fun op_in :: "'t tensors \<Rightarrow> 't io_op \<Rightarrow> bool" where
  "op_in T (Io_Write bs) = True"
| "op_in T (Io_Write_Tensor t off n) = (off + n \<le> length (T t))"

lemma length_io_bytes: "list_all (op_in T) ops \<Longrightarrow> length (io_bytes T ops) = io_size ops"
proof (induction ops)
  case (Cons op ops)
  then show ?case by (cases op) simp_all
qed simp

text \<open>A save into a buffer: its contents afterwards, and the size returned, 0 after an exception.\<close>

definition host_save :: "'t tensors \<Rightarrow> 't io_op list \<Rightarrow> octet list \<Rightarrow> octet list \<times> nat" where
  "host_save T ops buf =
     (case host_run ops (host_writer_new buf) of
        (w, e) \<Rightarrow> (host_writer_destroy T w, case e of None \<Rightarrow> hw_size_written w | Some _ \<Rightarrow> 0))"

lemma put_Nil [simp]: "p \<le> length t \<Longrightarrow> put p [] t = t"
  by (simp add: put_def)

lemma put_put: "p + length a + length b \<le> length t \<Longrightarrow> put (p + length a) b (put p a t) = put p (a @ b) t"
  by (simp add: put_def ac_simps)

lemma put_commute:
  assumes "q + length x \<le> p" "p + length y \<le> length t"
  shows "put q x (put p y t) = put p y (put q x t)"
proof -
  define r1 r2 r3 where r: "r1 = drop q t" "r2 = drop (length x) r1" "r3 = drop (p - (q + length x)) r2"
  define a b c d e where w: "a = take q t" "b = take (length x) r1" "c = take (p - (q + length x)) r2"
    "d = take (length y) r3" "e = drop (length y) r3"
  have s: "t = a @ r1" "r1 = b @ r2" "r2 = c @ r3" "r3 = d @ e"
    unfolding w r by (simp_all only: append_take_drop_id)
  have l: "length a = q" "length b = length x" "length c = p - (q + length x)" "length d = length y"
    using assms by (simp_all add: w r)
  have t: "t = a @ b @ c @ d @ e" by (metis s)
  moreover have "p = length (a @ b @ c)" using assms(1) l by simp
  ultimately show ?thesis using l by (simp add: put_def)
qed

lemma destroy_write:
  assumes "\<forall>(t, q, n, off) \<in> set ws. q + n \<le> p \<and> off + n \<le> length (T t)" "p + length bs \<le> length buf"
  shows "fold (\<lambda>(t, ptr, sz, off) buf. put ptr (slice (T t) off sz) buf) ws (put p bs buf) =
    put p bs (fold (\<lambda>(t, ptr, sz, off) buf. put ptr (slice (T t) off sz) buf) ws buf) \<and>
    length (fold (\<lambda>(t, ptr, sz, off) buf. put ptr (slice (T t) off sz) buf) ws buf) = length buf"
  using assms
proof (induction ws arbitrary: buf)
  case (Cons a ws)
  obtain t q n off where a: "a = (t, q, n, off)" by (cases a) auto
  with Cons.prems have q: "q + n \<le> p" "off + n \<le> length (T t)" by auto
  let ?b = "put q (slice (T t) off n) buf"
  have l: "length ?b = length buf" using q Cons.prems(2) by simp
  with Cons.IH [of ?b] Cons.prems have "p + length bs \<le> length ?b" by simp
  with Cons.IH [of ?b] Cons.prems(1) l show ?case
    using q Cons.prems(2) by (simp add: a put_commute)
qed simp

definition hw_ok :: "'t tensors \<Rightarrow> 't host_writer \<Rightarrow> bool" where
  "hw_ok T w \<longleftrightarrow> hw_ptr w + hw_buf_size w = length (hw_buf w) \<and>
     (\<forall>(t, q, n, off) \<in> set (hw_winfos w). q + n \<le> hw_ptr w \<and> off + n \<le> length (T t))"

lemma host_write_ok:
  assumes "hw_ok T w" "op_in T op" "io_size [op] \<le> hw_buf_size w"
  shows "\<exists>w'. host_write op w = Inr w' \<and> hw_ok T w' \<and> hw_ptr w' = hw_ptr w + io_size [op] \<and>
    hw_buf_size w' = hw_buf_size w - io_size [op] \<and> hw_size_written w' = hw_size_written w + io_size [op] \<and>
    length (host_writer_destroy T w) = length (hw_buf w) \<and> length (hw_buf w') = length (hw_buf w) \<and>
    host_writer_destroy T w' = put (hw_ptr w) (io_bytes T [op]) (host_writer_destroy T w)"
proof (cases op)
  case (Io_Write bs)
  with assms have "hw_ptr w + length bs \<le> length (hw_buf w)" by (simp add: hw_ok_def)
  with destroy_write [of "hw_winfos w" "hw_ptr w" T bs "hw_buf w"] assms Io_Write show ?thesis
    by (fastforce simp: hw_ok_def hw_advance_def host_writer_destroy_def)
next
  case (Io_Write_Tensor t off n)
  with destroy_write [of "hw_winfos w" "hw_ptr w" T "[]" "hw_buf w"] assms show ?thesis
    by (fastforce simp: hw_ok_def hw_advance_def host_writer_destroy_def)
qed

lemma host_run_ok:
  assumes "hw_ok T w" "list_all (op_in T) ops" "io_size ops \<le> hw_buf_size w"
  shows "\<exists>w'. host_run ops w = (w', None) \<and> hw_size_written w' = hw_size_written w + io_size ops \<and>
    host_writer_destroy T w' = put (hw_ptr w) (io_bytes T ops) (host_writer_destroy T w)"
  using assms
proof (induction ops arbitrary: w)
  case Nil
  have "length (host_writer_destroy T w) = length (hw_buf w)"
    using host_write_ok [of T w "Io_Write []"] Nil by simp
  with Nil show ?case by (auto simp: hw_ok_def)
next
  case (Cons op ops)
  have op: "io_size (op # ops) = io_size [op] + io_size ops" "io_bytes T (op # ops) = io_bytes T [op] @ io_bytes T ops"
    "length (io_bytes T [op]) = io_size [op]"
    using Cons.prems(2) length_io_bytes [of T "[op]"] by (cases op; simp)+
  with Cons.prems have "io_size [op] \<le> hw_buf_size w" "op_in T op" by auto
  from host_write_ok [OF Cons.prems(1) this(2,1)] obtain w' where w': "host_write op w = Inr w'" "hw_ok T w'"
    "hw_ptr w' = hw_ptr w + io_size [op]" "hw_buf_size w' = hw_buf_size w - io_size [op]"
    "hw_size_written w' = hw_size_written w + io_size [op]" "length (host_writer_destroy T w) = length (hw_buf w)"
    "host_writer_destroy T w' = put (hw_ptr w) (io_bytes T [op]) (host_writer_destroy T w)" by blast
  have "io_size ops \<le> hw_buf_size w'" using Cons.prems(3) op(1) w'(4) by simp
  from Cons.IH [OF w'(2) _ this] Cons.prems(2) obtain w'' where w'': "host_run ops w' = (w'', None)"
    "hw_size_written w'' = hw_size_written w' + io_size ops"
    "host_writer_destroy T w'' = put (hw_ptr w') (io_bytes T ops) (host_writer_destroy T w')" by auto
  have "hw_ptr w + length (io_bytes T [op]) + length (io_bytes T ops) \<le> length (host_writer_destroy T w)"
    using Cons.prems op(1,3) w'(6) length_io_bytes [of T ops] by (simp add: hw_ok_def)
  from put_put [OF this] w' w'' op show ?case by simp
qed

lemma host_run_short: "io_size ops > hw_buf_size w \<Longrightarrow> snd (host_run ops w) = Some EndOfBuffer"
proof (induction ops arbitrary: w)
  case (Cons op ops)
  then show ?case by (cases op) (simp_all add: hw_advance_def)
qed simp

text \<open>
  A buffer of the counted size or more receives the bytes, a smaller one is an error.
\<close>

lemma host_save_exact:
  assumes "list_all (op_in T) ops"
  shows "io_size ops \<le> length buf \<Longrightarrow> host_save T ops buf = (put 0 (io_bytes T ops) buf, io_size ops)"
    and "length buf < io_size ops \<Longrightarrow> snd (host_save T ops buf) = 0"
proof -
  have w: "hw_ok T (host_writer_new buf :: 'a host_writer)" "hw_buf_size (host_writer_new buf :: 'a host_writer) = length buf"
    "hw_ptr (host_writer_new buf :: 'a host_writer) = 0" "hw_size_written (host_writer_new buf :: 'a host_writer) = 0"
    "host_writer_destroy T (host_writer_new buf) = buf"
    by (simp_all add: host_writer_new_def hw_ok_def host_writer_destroy_def)
  show "io_size ops \<le> length buf \<Longrightarrow> host_save T ops buf = (put 0 (io_bytes T ops) buf, io_size ops)"
    using host_run_ok [OF w(1) assms] w(2-5) by (auto simp: host_save_def)
  show "length buf < io_size ops \<Longrightarrow> snd (host_save T ops buf) = 0"
    using host_run_short [of "host_writer_new buf" ops] w(2) by (auto simp: host_save_def split: prod.splits)
qed

section \<open>Readers\<close>

datatype 'a outcome = Ret 'a | Throw exc | Abort

text \<open>
  \<open>llama_io_read_host\<close>: the bytes ahead, the tensor reads kept for the destructor with the
  bytes they will copy, and the count of bytes read.
\<close>

record 't host_reader =
  hr_in :: "octet list"
  hr_rinfos :: "('t \<times> nat \<times> octet list) list"
  hr_size_read :: nat

type_synonym ('a, 's, 't) io_m = "'s \<times> 't host_reader \<Rightarrow> 'a outcome \<times> 's \<times> 't host_reader"

definition retS :: "'a \<Rightarrow> ('a, 's, 't) io_m" where "retS x = (\<lambda>st. (Ret x, st))"
definition throwS :: "exc \<Rightarrow> ('a, 's, 't) io_m" where "throwS e = (\<lambda>st. (Throw e, st))"
definition abortS :: "('a, 's, 't) io_m" where "abortS = (\<lambda>st. (Abort, st))"

definition bindS :: "('a, 's, 't) io_m \<Rightarrow> ('a \<Rightarrow> ('b, 's, 't) io_m) \<Rightarrow> ('b, 's, 't) io_m" where
  "bindS m f = (\<lambda>st. case m st of (Ret x, st) \<Rightarrow> f x st | (Throw e, st) \<Rightarrow> (Throw e, st) | (Abort, st) \<Rightarrow> (Abort, st))"

text \<open>\<open>try { m } catch (...) { h }\<close>.\<close>

definition catchS :: "('a, 's, 't) io_m \<Rightarrow> ('a, 's, 't) io_m \<Rightarrow> ('a, 's, 't) io_m" where
  "catchS m h = (\<lambda>st. case m st of (Ret x, st) \<Rightarrow> (Ret x, st) | (Throw e, st) \<Rightarrow> h st | (Abort, st) \<Rightarrow> (Abort, st))"

definition getS :: "('s \<Rightarrow> 'a) \<Rightarrow> ('a, 's, 't) io_m" where "getS f = (\<lambda>(s, r). (Ret (f s), s, r))"
definition modifyS :: "('s \<Rightarrow> 's) \<Rightarrow> (unit, 's, 't) io_m" where "modifyS f = (\<lambda>(s, r). (Ret (), f s, r))"

text \<open>\<open>if (!b) { return e; }\<close> before the rest of a function.\<close>

definition return_unless :: "bool \<Rightarrow> 'a \<Rightarrow> ('a, 's, 't) io_m \<Rightarrow> ('a, 's, 't) io_m" where
  "return_unless b e m = (if b then m else retS e)"

definition assertS :: "bool \<Rightarrow> ('a, 's, 't) io_m \<Rightarrow> ('a, 's, 't) io_m" where
  "assertS b m = (if b then m else abortS)"

text \<open>A loop whose body may \<open>return false\<close>.\<close>

fun all_ok :: "('b \<Rightarrow> (bool, 's, 't) io_m) \<Rightarrow> 'b list \<Rightarrow> (bool, 's, 't) io_m" where
  "all_ok f [] = retS True"
| "all_ok f (x # xs) = bindS (f x) (\<lambda>ok. return_unless ok False (all_ok f xs))"

definition io_read :: "nat \<Rightarrow> (octet list, 's, 't) io_m" where
  "io_read n = (\<lambda>(s, r).
     if n > length (hr_in r) then (Throw EndOfBuffer, s, r)
     else (Ret (take n (hr_in r)), s, r\<lparr>hr_in := drop n (hr_in r), hr_size_read := hr_size_read r + n\<rparr>))"

definition io_read_tensor :: "'t \<Rightarrow> nat \<Rightarrow> nat \<Rightarrow> (unit, 's, 't) io_m" where
  "io_read_tensor t off n = (\<lambda>(s, r).
     if n > length (hr_in r) then (Throw EndOfBuffer, s, r)
     else (Ret (), s, r\<lparr>hr_in := drop n (hr_in r), hr_rinfos := hr_rinfos r @ [(t, off, take n (hr_in r))],
             hr_size_read := hr_size_read r + n\<rparr>))"

definition host_reader_new :: "octet list \<Rightarrow> 't host_reader" where
  "host_reader_new src = \<lparr>hr_in = src, hr_rinfos = [], hr_size_read = 0\<rparr>"

text \<open>The destructor: all tensor reads are done, also after an exception.\<close>

definition tensor_set :: "'t \<times> nat \<times> octet list \<Rightarrow> 't tensors \<Rightarrow> 't tensors" where
  "tensor_set = (\<lambda>(t, off, bs) T. T(t := put off bs (T t)))"

definition host_reader_destroy :: "'t host_reader \<Rightarrow> 't tensors \<Rightarrow> 't tensors" where
  "host_reader_destroy r T = fold tensor_set (hr_rinfos r) T"

definition io_read_u32 :: "(nat, 's, 't) io_m" where "io_read_u32 = bindS (io_read 4) (\<lambda>b. retS (le_nat b))"
definition io_read_u64 :: "(nat, 's, 't) io_m" where "io_read_u64 = bindS (io_read 8) (\<lambda>b. retS (le_nat b))"
definition io_read_i32 :: "(int, 's, 't) io_m" where "io_read_i32 = bindS (io_read 4) (\<lambda>b. retS (i32_of (le_nat b)))"

definition io_read_string :: "(octet list, 's, 't) io_m" where
  "io_read_string = bindS io_read_u32 io_read"

subsection \<open>Consuming what was written\<close>

text \<open>
  From state \<open>s\<close>, with the bytes \<open>bs\<close> ahead, the computation takes exactly these, returns
  \<open>x\<close> in the state \<open>s'\<close> and has asked for the tensor reads \<open>rs\<close>.
\<close>

definition consumes ::
  "('a, 's, 't) io_m \<Rightarrow> octet list \<Rightarrow> 's \<Rightarrow> 'a \<Rightarrow> 's \<Rightarrow> ('t \<times> nat \<times> octet list) list \<Rightarrow> bool" where
  "consumes m bs s x s' rs \<longleftrightarrow>
     (\<forall>rest rs0 k. m (s, \<lparr>hr_in = bs @ rest, hr_rinfos = rs0, hr_size_read = k\<rparr>) =
        (Ret x, s', \<lparr>hr_in = rest, hr_rinfos = rs0 @ rs, hr_size_read = k + length bs\<rparr>))"

named_theorems consumes_intros \<open>consuming of the composed computations\<close>

lemma consumes_ret [consumes_intros]: "consumes (retS x) [] s x s []"
  by (simp add: consumes_def retS_def)

lemma consumes_bind [consumes_intros]:
  "consumes m bs s x s' rs \<Longrightarrow> consumes (f x) bs' s' y s'' rs' \<Longrightarrow> consumes (bindS m f) (bs @ bs') s y s'' (rs @ rs')"
  by (simp add: consumes_def bindS_def add.assoc)

lemma consumes_bind_silent:
  "consumes m [] s x s' [] \<Longrightarrow> consumes (f x) bs' s' y s'' rs' \<Longrightarrow> consumes (bindS m f) bs' s y s'' rs'"
  by (simp add: consumes_def bindS_def)

lemma consumes_get: "consumes (getS f) [] s (f s) s []"
  by (simp add: consumes_def getS_def)

lemma consumes_modify: "consumes (modifyS f) [] s () (f s) []"
  by (simp add: consumes_def modifyS_def)

lemma consumes_return_unless [consumes_intros]: "b \<Longrightarrow> consumes m bs s x s' rs \<Longrightarrow> consumes (return_unless b e m) bs s x s' rs"
  by (simp add: return_unless_def)

lemma consumes_assert [consumes_intros]: "b \<Longrightarrow> consumes m bs s x s' rs \<Longrightarrow> consumes (assertS b m) bs s x s' rs"
  by (simp add: assertS_def)

lemma consumes_catch [consumes_intros]: "consumes m bs s x s' rs \<Longrightarrow> consumes (catchS m h) bs s x s' rs"
  by (simp add: consumes_def catchS_def)

lemma consumes_read: "length bs = n \<Longrightarrow> consumes (io_read n) bs s bs s []"
  by (simp add: consumes_def io_read_def)

lemma consumes_u32: "n < 2 ^ 32 \<Longrightarrow> consumes io_read_u32 (u32_bytes n) s n s []"
  by (simp add: consumes_def io_read_u32_def bindS_def retS_def io_read_def u32_roundtrip)

lemma consumes_u64: "n < 2 ^ 64 \<Longrightarrow> consumes io_read_u64 (u64_bytes n) s n s []"
  by (simp add: consumes_def io_read_u64_def bindS_def retS_def io_read_def u64_roundtrip)

lemma consumes_i32: "is_i32 i \<Longrightarrow> consumes io_read_i32 (i32_bytes i) s i s []"
  by (simp add: consumes_def io_read_i32_def bindS_def retS_def io_read_def i32_roundtrip)

lemma consumes_string: "length str < 2 ^ 32 \<Longrightarrow> consumes io_read_string (u32_bytes (length str) @ str) s str s []"
  by (simp add: consumes_def io_read_string_def io_read_u32_def bindS_def retS_def io_read_def u32_roundtrip add.assoc)

lemma consumes_tensor: "length bs = n \<Longrightarrow> consumes (io_read_tensor t off n) bs s () s [(t, off, bs)]"
  by (simp add: consumes_def io_read_tensor_def)

lemma consumes_all_ok:
  assumes "\<And>i. i < length xs \<Longrightarrow> consumes (f (xs ! i)) (bs i) (st i) True (st (Suc i)) (rs i)"
  shows "consumes (all_ok f xs) (concat (map bs [0..<length xs])) (st 0) True (st (length xs))
    (concat (map rs [0..<length xs]))"
  using assms
proof (induction xs arbitrary: bs st rs)
  case (Cons x xs)
  have "consumes (all_ok f xs) (concat (map (\<lambda>i. bs (Suc i)) [0..<length xs])) (st (Suc 0)) True (st (Suc (length xs)))
      (concat (map (\<lambda>i. rs (Suc i)) [0..<length xs]))"
    using Cons.prems by (intro Cons.IH [of "\<lambda>i. bs (Suc i)" "\<lambda>i. st (Suc i)" "\<lambda>i. rs (Suc i)"]) force
  moreover have "consumes (f x) (bs 0) (st 0) True (st (Suc 0)) (rs 0)" using Cons.prems [of 0] by simp
  ultimately show ?case
    by (auto simp: upt_conv_Cons map_Suc_upt [symmetric] comp_def simp del: upt_Suc intro!: consumes_intros)
qed (simp add: consumes_ret)

subsection \<open>The effect of the tensor reads\<close>

definition apart :: "'t \<times> nat \<times> octet list \<Rightarrow> 't \<times> nat \<times> octet list \<Rightarrow> bool" where
  "apart = (\<lambda>(t, off, bs) (t', off', bs'). t \<noteq> t' \<or> off + length bs \<le> off' \<or> off' + length bs' \<le> off)"

definition rfit :: "'t tensors \<Rightarrow> 't \<times> nat \<times> octet list \<Rightarrow> bool" where
  "rfit T = (\<lambda>(t, off, bs). off + length bs \<le> length (T t))"

lemma tensor_set_length: "rfit T r \<Longrightarrow> length (tensor_set r T u) = length (T u)"
  by (cases r) (auto simp: tensor_set_def rfit_def)

lemma rfit_tensor_set: "rfit T r \<Longrightarrow> rfit (tensor_set r T) = rfit T"
  unfolding rfit_def using tensor_set_length [of T r] by (simp add: rfit_def)

lemma tensor_sets_length: "\<forall>r \<in> set rs. rfit T r \<Longrightarrow> length (fold tensor_set rs T u) = length (T u)"
  by (induction rs arbitrary: T) (simp_all add: rfit_tensor_set tensor_set_length)

text \<open>Reads that keep apart from a region leave it; one of a set of separate reads arrives.\<close>

lemma tensor_set_other:
  assumes "rfit T r" "apart r (u, a, bs)"
  shows "slice (tensor_set r T u) a (length bs) = slice (T u) a (length bs)"
  using assms by (cases r) (auto simp: tensor_set_def rfit_def apart_def intro!: slice_put_other)

lemma tensor_sets_other:
  assumes "\<forall>r \<in> set rs. rfit T r" "\<forall>r \<in> set rs. apart r (u, a, bs)"
  shows "slice (fold tensor_set rs T u) a (length bs) = slice (T u) a (length bs)"
  using assms by (induction rs arbitrary: T) (simp_all add: rfit_tensor_set tensor_set_other)

lemma apart_sym: "apart r r' \<Longrightarrow> apart r' r"
  by (auto simp: apart_def)

lemma tensor_sets_same:
  assumes "\<forall>r \<in> set rs. rfit T r" "sorted_wrt apart rs" "(u, a, bs) \<in> set rs"
  shows "slice (fold tensor_set rs T u) a (length bs) = bs"
  using assms
proof (induction rs arbitrary: T)
  case (Cons r rs)
  then show ?case
  proof (cases "(u, a, bs) \<in> set rs")
    case False
    with Cons.prems(3) have r: "r = (u, a, bs)" by auto
    have "\<forall>q \<in> set rs. apart q r" using Cons.prems(2) apart_sym by fastforce
    with tensor_sets_other [of rs "tensor_set r T" u a bs] Cons.prems(1)
    have "slice (fold tensor_set rs (tensor_set r T) u) a (length bs) = slice (tensor_set r T u) a (length bs)"
      by (simp add: r rfit_tensor_set)
    also have "\<dots> = bs" using Cons.prems(1) by (simp add: r rfit_def tensor_set_def slice_put_same)
    finally show ?thesis by simp
  qed (simp add: rfit_tensor_set)
qed simp

end
