(* ===== verification/Kv_State.thy ===== *)
theory Kv_State
  imports State_Io Kv_Cache
begin

text \<open>
  Saving and restoring the KV cache: \<open>state_write\<close>, \<open>state_read_sinfo\<close> and their parts in
  src/src/llama-kv-cache.cpp, and the calls of \<open>llama_context\<close> around them.

  A layer is what the format depends on: the types and row sizes of its tensors. The tensors of
  layer \<open>l\<close> and stream \<open>s\<close> are named by \<open>(l, s)\<close>. Sizes and offsets of type \<open>size_t\<close> are
  natural numbers; those the code computes in \<open>uint32_t\<close> are reduced modulo \<open>2 ^ 32\<close>.
\<close>

section \<open>Layers\<close>

record k_idx_info =
  ki_type :: int
  ki_size_row :: nat
  ki_nbytes :: nat

record v_info =
  vi_type :: int
  vi_size_row :: nat
  vi_size_el :: nat
  vi_n_embd_gqa :: nat

record kv_layer =
  kl_k_type :: int
  kl_k_size_row :: nat
  kl_k_idx :: "k_idx_info option"
  kl_v :: "v_info option"

datatype kv_tensor = K_Stream nat nat | K_Idx_Stream nat nat | V_Stream nat nat

definition size_k_idx_bytes :: "kv_layer list \<Rightarrow> nat" where
  "size_k_idx_bytes layers =
     fold (\<lambda>l n. case kl_k_idx l of Some ki \<Rightarrow> n + ki_nbytes ki | None \<Rightarrow> n) layers 0"

section \<open>Writing\<close>

text \<open>Is cell \<open>i\<close> saved, and the ranges of the saved cells: count, start of the open range, ranges.\<close>

definition save_cell :: "llama_kv_cache \<Rightarrow> llama_kv_cells \<Rightarrow> int \<Rightarrow> nat \<Rightarrow> bool" where
  "save_cell kv c seq_id i \<longleftrightarrow> \<not> cells_is_empty c i \<and> (seq_id = -1 \<or> cells_seq_has c i (nat seq_id)) \<and>
     (seq_id \<noteq> -1 \<longrightarrow>
       \<not> is_masked_swa (kv_n_swa kv) (kv_swa_type kv) (cells_pos_get c i) (cells_seq_pos_max c (nat seq_id)))"

definition range_step ::
  "nat \<Rightarrow> (nat \<Rightarrow> bool) \<Rightarrow> nat \<Rightarrow> nat \<times> nat \<times> (nat \<times> nat) list \<Rightarrow> nat \<times> nat \<times> (nat \<times> nat) list" where
  "range_step n add_cell i = (\<lambda>(count, start, data).
     if add_cell i then (count + 1, if start = n then i else start, data)
     else if start \<noteq> n then (count, n, data @ [(start, i)])
     else (count, start, data))"

definition cell_ranges :: "nat \<Rightarrow> (nat \<Rightarrow> bool) \<Rightarrow> nat \<times> (nat \<times> nat) list" where
  "cell_ranges n add_cell =
     (let (count, start, data) = fold (range_step n add_cell) [0..<n] (0, n, [])
      in (count, if start \<noteq> n then data @ [(start, n)] else data))"

definition over_ranges :: "(nat \<times> nat \<Rightarrow> 'a list) \<Rightarrow> (nat \<times> nat) list \<Rightarrow> 'a list" where
  "over_ranges f cr = concat (map f cr)"

definition ext_bytes :: "llama_kv_cell_ext \<Rightarrow> octet list" where
  "ext_bytes e = i32_bytes (ext_x e) @ i32_bytes (ext_y e) @ i32_bytes (ext_tok e)"

definition cell_seq_ids :: "llama_kv_cache \<Rightarrow> llama_kv_cells \<Rightarrow> int \<Rightarrow> nat \<Rightarrow> nat list" where
  "cell_seq_ids kv c seq_id i =
     filter (\<lambda>cur. (int cur = seq_id \<or> seq_id = -1) \<and> cells_seq_has c i cur) [0..<kv_n_seq_max kv]"

definition write_cell_meta :: "llama_kv_cache \<Rightarrow> llama_kv_cells \<Rightarrow> int \<Rightarrow> nat \<Rightarrow> kv_tensor io_op list" where
  "write_cell_meta kv c seq_id i =
     (let seq_ids = cell_seq_ids kv c seq_id i
      in [Io_Write (i32_bytes (cells_pos_get c i)), Io_Write (u32_bytes (length seq_ids))] @
         (if kv_n_pos_per_embd kv > 1 then [Io_Write (ext_bytes (cells_ext_get c i))] else []) @
         map (\<lambda>s. Io_Write (i32_bytes (int s))) seq_ids)"

definition state_write_meta :: "llama_kv_cache \<Rightarrow> nat \<Rightarrow> (nat \<times> nat) list \<Rightarrow> int \<Rightarrow> kv_tensor io_op list" where
  "state_write_meta kv strm cr seq_id =
     over_ranges (\<lambda>(a, b). concat (map (write_cell_meta kv (v_cells kv ! strm) seq_id) [a..<b])) cr"

text \<open>The rows of a range are written at once.\<close>

definition write_rows :: "kv_tensor \<Rightarrow> nat \<Rightarrow> (nat \<times> nat) list \<Rightarrow> kv_tensor io_op list" where
  "write_rows t size_row = over_ranges (\<lambda>(a, b). [Io_Write_Tensor t (a * size_row) ((b - a) * size_row)])"

definition write_k :: "nat \<Rightarrow> (nat \<times> nat) list \<Rightarrow> nat \<times> kv_layer \<Rightarrow> kv_tensor io_op list" where
  "write_k strm cr = (\<lambda>(l, layer).
     [Io_Write (i32_bytes (kl_k_type layer)), Io_Write (u64_bytes (kl_k_size_row layer))] @
     write_rows (K_Stream l strm) (kl_k_size_row layer) cr)"

definition write_k_idx :: "nat \<Rightarrow> (nat \<times> nat) list \<Rightarrow> nat \<times> kv_layer \<Rightarrow> kv_tensor io_op list" where
  "write_k_idx strm cr = (\<lambda>(l, layer).
     case kl_k_idx layer of
       None \<Rightarrow> [Io_Write (u32_bytes 0)]
     | Some ki \<Rightarrow>
         [Io_Write (u32_bytes 1), Io_Write (i32_bytes (ki_type ki)), Io_Write (u64_bytes (ki_size_row ki))] @
         write_rows (K_Idx_Stream l strm) (ki_size_row ki) cr)"

definition write_v :: "nat \<Rightarrow> (nat \<times> nat) list \<Rightarrow> nat \<times> kv_layer \<Rightarrow> kv_tensor io_op list" where
  "write_v strm cr = (\<lambda>(l, layer).
     case kl_v layer of
       None \<Rightarrow> []
     | Some vi \<Rightarrow>
         [Io_Write (i32_bytes (vi_type vi)), Io_Write (u64_bytes (vi_size_row vi))] @
         write_rows (V_Stream l strm) (vi_size_row vi) cr)"

text \<open>
  The transposed layout: element \<open>j\<close> of cell \<open>i\<close> is at index \<open>i + j * kv_size\<close>. The byte
  offset is computed in \<open>uint32_t\<close>.
\<close>

definition v_src_offset :: "nat \<Rightarrow> nat \<Rightarrow> nat \<Rightarrow> nat \<Rightarrow> nat" where
  "v_src_offset kv_size size_el j a = (a + j * kv_size) * size_el mod 2 ^ 32"

definition write_v_trans :: "nat \<Rightarrow> nat \<Rightarrow> (nat \<times> nat) list \<Rightarrow> nat \<times> kv_layer \<Rightarrow> kv_tensor io_op list" where
  "write_v_trans kv_size strm cr = (\<lambda>(l, layer).
     case kl_v layer of
       None \<Rightarrow> []
     | Some vi \<Rightarrow>
         [Io_Write (i32_bytes (vi_type vi)), Io_Write (u32_bytes (vi_size_el vi)), Io_Write (u32_bytes (vi_n_embd_gqa vi))] @
         concat (map (\<lambda>j. over_ranges (\<lambda>(a, b).
             [Io_Write_Tensor (V_Stream l strm) (v_src_offset kv_size (vi_size_el vi) j a) ((b - a) * vi_size_el vi)]) cr)
           [0..<vi_n_embd_gqa vi]))"

definition numbered :: "'a list \<Rightarrow> (nat \<times> 'a) list" where
  "numbered xs = zip [0..<length xs] xs"

definition kv_write_data :: "llama_kv_cache \<Rightarrow> kv_layer list \<Rightarrow> nat \<Rightarrow> (nat \<times> nat) list \<Rightarrow> kv_tensor io_op list" where
  "kv_write_data kv layers strm cr =
     [Io_Write (u32_bytes (if kv_v_trans kv then 1 else 0)), Io_Write (u32_bytes (length layers))] @
     concat (map (write_k strm cr) (numbered layers)) @
     (if size_k_idx_bytes layers > 0
      then Io_Write (u32_bytes 1) # concat (map (write_k_idx strm cr) (numbered layers)) else []) @
     (if \<not> kv_v_trans kv then concat (map (write_v strm cr) (numbered layers))
      else concat (map (write_v_trans (cells_size (v_cells kv ! strm)) strm cr) (numbered layers)))"

text \<open>One stream; \<open>None\<close> is the failed check of the cell count.\<close>

definition write_stream :: "llama_kv_cache \<Rightarrow> kv_layer list \<Rightarrow> int \<Rightarrow> nat \<Rightarrow> kv_tensor io_op list option" where
  "write_stream kv layers seq_id s =
     (let c = v_cells kv ! s;
          (cell_count, cr) = cell_ranges (cells_size c) (save_cell kv c seq_id)
      in if cell_count \<noteq> sum_list (map (\<lambda>(a, b). b - a) cr) then None
         else Some (Io_Write (u32_bytes cell_count) #
           (if cell_count = 0 then [] else state_write_meta kv s cr seq_id @ kv_write_data kv layers s cr)))"

fun all_some :: "'a option list \<Rightarrow> 'a list option" where
  "all_some [] = Some []"
| "all_some (x # xs) = (case x of None \<Rightarrow> None | Some y \<Rightarrow> map_option ((#) y) (all_some xs))"

definition kv_state_write :: "llama_kv_cache \<Rightarrow> kv_layer list \<Rightarrow> int \<Rightarrow> kv_tensor io_op list option" where
  "kv_state_write kv layers seq_id =
     (if kv_other kv \<noteq> None then Some []
      else map_option (\<lambda>ops. Io_Write (u32_bytes (kv_n_stream kv)) # concat ops)
        (all_some (map (write_stream kv layers seq_id) [0..<kv_n_stream kv])))"

section \<open>Reading the data\<close>

type_synonym 'a kv_io = "('a, llama_kv_cache, kv_tensor) io_m"

text \<open>
  The rows of the restored cells: one read of the block if the cells are contiguous, else one
  read per cell. \<open>off i\<close> is the offset of the row of cell \<open>i\<close>.
\<close>

fun read_each :: "kv_tensor \<Rightarrow> (nat \<Rightarrow> nat) \<Rightarrow> nat \<Rightarrow> nat list \<Rightarrow> unit kv_io" where
  "read_each t off size_row [] = retS ()"
| "read_each t off size_row (i # is) = bindS (io_read_tensor t (off i) size_row) (\<lambda>_. read_each t off size_row is)"

definition read_rows :: "kv_tensor \<Rightarrow> (nat \<Rightarrow> nat) \<Rightarrow> nat \<Rightarrow> nat \<Rightarrow> slot_info \<Rightarrow> bool kv_io" where
  "read_rows t off size_row cell_count si =
     (if cell_count = 0 then retS True
      else if si_is_contiguous si
      then (case si_head si of
              None \<Rightarrow> abortS
            | Some h \<Rightarrow> bindS (io_read_tensor t (off h) (cell_count * size_row)) (\<lambda>_. retS True))
      else bindS (read_each t off size_row (map (\<lambda>i. si_idxs si ! 0 ! i) [0..<cell_count])) (\<lambda>_. retS True))"

definition read_k :: "nat \<Rightarrow> nat \<Rightarrow> slot_info \<Rightarrow> nat \<times> kv_layer \<Rightarrow> bool kv_io" where
  "read_k strm cell_count si = (\<lambda>(l, layer).
     bindS io_read_i32 (\<lambda>type_ref. return_unless (kl_k_type layer = type_ref) False
     (bindS io_read_u64 (\<lambda>size_row_ref. return_unless (kl_k_size_row layer = size_row_ref) False
     (read_rows (K_Stream l strm) (\<lambda>i. i * kl_k_size_row layer) (kl_k_size_row layer) cell_count si)))))"

definition read_k_idx :: "nat \<Rightarrow> nat \<Rightarrow> slot_info \<Rightarrow> nat \<times> kv_layer \<Rightarrow> bool kv_io" where
  "read_k_idx strm cell_count si = (\<lambda>(l, layer).
     bindS io_read_u32 (\<lambda>has. return_unless (has = (if kl_k_idx layer \<noteq> None then 1 else 0)) False
     (case kl_k_idx layer of
        None \<Rightarrow> retS True
      | Some ki \<Rightarrow>
          bindS io_read_i32 (\<lambda>type_ref. return_unless (type_ref = ki_type ki) False
          (bindS io_read_u64 (\<lambda>size_row_ref. return_unless (size_row_ref = ki_size_row ki) False
          (read_rows (K_Idx_Stream l strm) (\<lambda>i. i * ki_size_row ki) (ki_size_row ki) cell_count si)))))))"

definition read_v :: "nat \<Rightarrow> nat \<Rightarrow> slot_info \<Rightarrow> nat \<times> kv_layer \<Rightarrow> bool kv_io" where
  "read_v strm cell_count si = (\<lambda>(l, layer).
     case kl_v layer of
       None \<Rightarrow> retS True
     | Some vi \<Rightarrow>
         bindS io_read_i32 (\<lambda>type_ref. return_unless (vi_type vi = type_ref) False
         (bindS io_read_u64 (\<lambda>size_row_ref. return_unless (vi_size_row vi = size_row_ref) False
         (read_rows (V_Stream l strm) (\<lambda>i. i * vi_size_row vi) (vi_size_row vi) cell_count si)))))"

text \<open>Here the index is computed in \<open>uint32_t\<close>, the offset in \<open>size_t\<close>.\<close>

definition v_dst_offset :: "nat \<Rightarrow> nat \<Rightarrow> nat \<Rightarrow> nat \<Rightarrow> nat" where
  "v_dst_offset kv_size size_el j i = (i + j * kv_size) mod 2 ^ 32 * size_el"

definition read_v_trans :: "nat \<Rightarrow> nat \<Rightarrow> nat \<Rightarrow> slot_info \<Rightarrow> nat \<times> kv_layer \<Rightarrow> bool kv_io" where
  "read_v_trans kv_size strm cell_count si = (\<lambda>(l, layer).
     case kl_v layer of
       None \<Rightarrow> retS True
     | Some vi \<Rightarrow>
         bindS io_read_i32 (\<lambda>type_ref. return_unless (vi_type vi = type_ref) False
         (bindS io_read_u32 (\<lambda>size_el_ref. return_unless (vi_size_el vi = size_el_ref) False
         (bindS io_read_u32 (\<lambda>n_embd_ref. return_unless (vi_n_embd_gqa vi = n_embd_ref) False
         (all_ok (\<lambda>j. read_rows (V_Stream l strm) (v_dst_offset kv_size (vi_size_el vi) j) (vi_size_el vi) cell_count si)
            [0..<vi_n_embd_gqa vi])))))))"

definition kv_read_data :: "kv_layer list \<Rightarrow> nat \<Rightarrow> nat \<Rightarrow> slot_info \<Rightarrow> bool kv_io" where
  "kv_read_data layers strm cell_count si =
     bindS (getS (\<lambda>kv. (kv_v_trans kv, cells_size (v_cells kv ! strm)))) (\<lambda>(v_trans, kv_size).
     bindS io_read_u32 (\<lambda>v_trans_ref.
     bindS io_read_u32 (\<lambda>n_layer.
     return_unless (n_layer = length layers) False
     (return_unless (cell_count \<le> kv_size) False
     (return_unless (v_trans = (v_trans_ref \<noteq> 0)) False
     (bindS (all_ok (read_k strm cell_count si) (numbered layers)) (\<lambda>ok. return_unless ok False
     (bindS (if size_k_idx_bytes layers > 0
        then bindS io_read_u32 (\<lambda>has. return_unless (has = 1) False
          (all_ok (read_k_idx strm cell_count si) (numbered layers)))
        else retS True) (\<lambda>ok. return_unless ok False
     (if \<not> v_trans then all_ok (read_v strm cell_count si) (numbered layers)
      else all_ok (read_v_trans kv_size strm cell_count si) (numbered layers)))))))))))"

section \<open>Reading the cells\<close>

definition io_read_ext :: "llama_kv_cell_ext kv_io" where
  "io_read_ext =
     bindS io_read_i32 (\<lambda>x. bindS io_read_i32 (\<lambda>y. bindS io_read_i32 (\<lambda>tok.
       retS \<lparr>ext_x = x, ext_y = y, ext_tok = tok\<rparr>)))"

text \<open>One sequence: the cells become a micro-batch of one token per cell.\<close>

definition read_token :: "nat \<Rightarrow> int \<Rightarrow> nat \<Rightarrow> llama_ubatch \<Rightarrow> llama_ubatch option kv_io" where
  "read_token n_pos dest i ub =
     bindS io_read_i32 (\<lambda>pos.
     bindS io_read_u32 (\<lambda>n_seq_id.
     return_unless (n_seq_id = 1) None
     (bindS (if n_pos > 1
        then bindS io_read_ext (\<lambda>e. retS (ub\<lparr>ub_pos := (ub_pos ub)[i + ub_n_tokens ub := ext_y e, i + ub_n_tokens ub * 2 := ext_x e]\<rparr>))
        else retS ub) (\<lambda>ub.
     bindS io_read_i32 (\<lambda>_.
     retS (Some (ub\<lparr>ub_pos := (ub_pos ub)[i := pos], ub_n_seq_id := (ub_n_seq_id ub)[i := n_seq_id],
                    ub_seq_id := (ub_seq_id ub)[i := [nat dest]]\<rparr>)))))))"

fun read_tokens :: "nat \<Rightarrow> int \<Rightarrow> nat list \<Rightarrow> llama_ubatch \<Rightarrow> llama_ubatch option kv_io" where
  "read_tokens n_pos dest [] ub = retS (Some ub)"
| "read_tokens n_pos dest (i # is) ub =
     bindS (read_token n_pos dest i ub) (\<lambda>r. case r of None \<Rightarrow> retS None | Some ub \<Rightarrow> read_tokens n_pos dest is ub)"

text \<open>An operation of the cache that may abort.\<close>

definition liftS :: "(llama_kv_cache \<Rightarrow> (llama_kv_cache \<times> 'a) option) \<Rightarrow> 'a kv_io" where
  "liftS f = (\<lambda>(kv, r). case f kv of None \<Rightarrow> (Abort, kv, r) | Some (kv, x) \<Rightarrow> (Ret x, kv, r))"

text \<open>The layout taken over from the mirrored cache, if it fits.\<close>

definition mirror_mismatch :: "nat \<Rightarrow> slot_info \<Rightarrow> bool" where
  "mirror_mismatch cell_count si \<longleftrightarrow> si_idxs si = [] \<or> si_n_stream si \<noteq> 1 \<or> length (si_idxs si ! 0) \<noteq> cell_count"

definition mirror_slot :: "nat \<Rightarrow> nat \<Rightarrow> slot_info \<Rightarrow> llama_kv_cache \<Rightarrow> slot_info option" where
  "mirror_slot strm cell_count si kv =
     (if mirror_mismatch cell_count si then None
      else
        let si = si\<lparr>si_s0 := strm, si_s1 := strm, si_strm := (si_strm si)[0 := strm]\<rparr>; c = v_cells kv ! strm
        in if list_all (\<lambda>i. let idx = si_idxs si ! 0 ! i in idx < cells_size c \<and> cells_is_empty c idx) [0..<cell_count]
           then Some si else None)"

definition seq_restored :: "nat \<Rightarrow> int \<Rightarrow> slot_info \<Rightarrow> llama_ubatch \<Rightarrow> nat \<Rightarrow> llama_kv_cache \<Rightarrow> bool" where
  "seq_restored strm dest si ub cell_count kv \<longleftrightarrow>
     (let c = v_cells kv ! strm
      in si_n_stream si = 1 \<and> length (si_idxs si ! 0) = cell_count \<and>
         list_all (\<lambda>i. let idx = si_idxs si ! 0 ! i
           in cells_pos_get c idx = ub_pos ub ! i \<and> cells_seq_has c idx (nat dest)) [0..<cell_count])"

definition read_meta_seq :: "nat \<Rightarrow> nat \<Rightarrow> int \<Rightarrow> slot_info option \<Rightarrow> slot_info option kv_io" where
  "read_meta_seq strm cell_count dest sinfo_in =
     bindS (liftS (kv_seq_rm dest (-1) (-1))) (\<lambda>_.
     bindS (getS kv_n_pos_per_embd) (\<lambda>n_pos.
     let (_, ub) = ubatch_reserve cell_count 1 (batch_allocr_new n_pos);
         ub = ub\<lparr>ub_seq_id_unq := (ub_seq_id_unq ub)[0 := nat dest]\<rparr>
     in bindS (read_tokens n_pos dest [0..<cell_count] ub) (\<lambda>r. case r of
          None \<Rightarrow> retS None
        | Some ub \<Rightarrow>
            bindS (case sinfo_in of
                Some si \<Rightarrow> getS (mirror_slot strm cell_count si)
              | None \<Rightarrow> liftS (\<lambda>kv. map_option (\<lambda>si. (kv, si)) (kv_find_slot ub False kv))) (\<lambda>found. case found of
              None \<Rightarrow> retS None
            | Some si \<Rightarrow>
                bindS (liftS (\<lambda>kv. map_option (\<lambda>kv. (kv, ())) (kv_apply_ubatch si ub kv))) (\<lambda>_.
                bindS (getS (seq_restored strm dest si ub cell_count)) (\<lambda>ok.
                assertS ok (retS (Some si))))))))"

text \<open>The whole cache: the cells are cells_filled from 0.\<close>

definition on_cells :: "nat \<Rightarrow> (llama_kv_cells \<Rightarrow> llama_kv_cells) \<Rightarrow> llama_kv_cache \<Rightarrow> llama_kv_cache" where
  "on_cells strm f kv = kv\<lparr>v_cells := (v_cells kv)[strm := f (v_cells kv ! strm)]\<rparr>"

definition read_seq_id :: "nat \<Rightarrow> nat \<Rightarrow> nat \<Rightarrow> nat \<Rightarrow> bool kv_io" where
  "read_seq_id n_seq_max strm i = (\<lambda>_.
     bindS io_read_i32 (\<lambda>seq_id. return_unless (\<not> (seq_id < 0 \<or> int n_seq_max \<le> seq_id)) False
     (bindS (modifyS (on_cells strm (cells_seq_add i (nat seq_id)))) (\<lambda>_. retS True))))"

definition read_cell :: "nat \<Rightarrow> nat \<Rightarrow> nat \<Rightarrow> nat \<Rightarrow> bool kv_io" where
  "read_cell n_pos n_seq_max strm i =
     bindS io_read_i32 (\<lambda>pos.
     bindS io_read_u32 (\<lambda>n_seq_id.
     bindS (modifyS (on_cells strm (cells_pos_set i pos))) (\<lambda>_.
     bindS (if n_pos > 1 then bindS io_read_ext (\<lambda>e. modifyS (on_cells strm (cells_ext_set i e))) else retS ()) (\<lambda>_.
     all_ok (read_seq_id n_seq_max strm i) [0..<n_seq_id]))))"

definition read_meta_whole :: "nat \<Rightarrow> nat \<Rightarrow> slot_info option \<Rightarrow> slot_info option kv_io" where
  "read_meta_whole strm cell_count sinfo_in =
     bindS (getS (\<lambda>kv. (kv_n_pos_per_embd kv, kv_n_seq_max kv, cells_size (v_cells kv ! strm)))) (\<lambda>(n_pos, n_seq_max, n_cells).
     return_unless (cell_count \<le> n_cells) None
     (return_unless (case sinfo_in of None \<Rightarrow> True | Some si \<Rightarrow> \<not> mirror_mismatch cell_count si) None
     (bindS (all_ok (read_cell n_pos n_seq_max strm) [0..<cell_count]) (\<lambda>ok. return_unless ok None
     (bindS (modifyS (\<lambda>kv. kv\<lparr>v_heads := (v_heads kv)[strm := 0]\<rparr>)) (\<lambda>_.
     retS (Some \<lparr>si_s0 = strm, si_s1 = strm, si_strm = [strm], si_idxs = [[0..<cell_count]]\<rparr>)))))))"

definition state_read_meta :: "nat \<Rightarrow> nat \<Rightarrow> int \<Rightarrow> slot_info option \<Rightarrow> slot_info option kv_io" where
  "state_read_meta strm cell_count dest sinfo_in =
     (if dest \<noteq> -1 then read_meta_seq strm cell_count dest sinfo_in
      else read_meta_whole strm cell_count sinfo_in)"

section \<open>Restoring\<close>

text \<open>
  The cache with the contents of its tensors. Only \<open>clear(true)\<close> changes these at once; the
  reads wait in the reader.
\<close>

type_synonym kv_memory = "llama_kv_cache \<times> kv_tensor tensors"
type_synonym 'a mem_io = "('a, kv_memory, kv_tensor) io_m"

definition on_cache :: "'a kv_io \<Rightarrow> 'a mem_io" where
  "on_cache m = (\<lambda>((kv, T), r). case m (kv, r) of (x, kv, r) \<Rightarrow> (x, (kv, T), r))"

definition clear_data :: "kv_memory \<Rightarrow> kv_memory" where
  "clear_data = (\<lambda>(kv, T). (kv_clear kv, \<lambda>t. replicate (length (T t)) 0))"

text \<open>
  One stream. An exception of \<open>state_read_data\<close> counts as a failure, one of
  \<open>state_read_meta\<close> leaves the function at once. The result is the layout of the stream.
\<close>

definition read_stream :: "kv_layer list \<Rightarrow> int \<Rightarrow> (nat \<Rightarrow> slot_info option) \<Rightarrow> nat \<Rightarrow> slot_info option mem_io" where
  "read_stream layers seq_id mirror s =
     bindS io_read_u32 (\<lambda>cell_count.
     if cell_count = 0 then
       (case mirror s of
          Some si \<Rightarrow> if si_idxs si \<noteq> [] then throwS MirrorNotEmpty else retS None
        | None \<Rightarrow> retS None)
     else
       bindS (getS (\<lambda>(kv, T). if seq_id = -1 then s else stream_of kv seq_id)) (\<lambda>strm.
       bindS (on_cache (state_read_meta strm cell_count seq_id (mirror s))) (\<lambda>r.
       bindS (case r of None \<Rightarrow> retS False | Some si \<Rightarrow> catchS (on_cache (kv_read_data layers strm cell_count si)) (retS False)) (\<lambda>ok.
       if ok then retS r
       else bindS (if seq_id = -1 then modifyS clear_data
                   else on_cache (bindS (liftS (kv_seq_rm seq_id (-1) (-1))) (\<lambda>_. retS ()))) (\<lambda>_. throwS RestoreFailed)))))"

fun read_streams :: "kv_layer list \<Rightarrow> int \<Rightarrow> (nat \<Rightarrow> slot_info option) \<Rightarrow> nat list \<Rightarrow> slot_info option list mem_io" where
  "read_streams layers seq_id mirror [] = retS []"
| "read_streams layers seq_id mirror (s # ss) =
     bindS (read_stream layers seq_id mirror s) (\<lambda>si.
     bindS (read_streams layers seq_id mirror ss) (\<lambda>sis. retS (si # sis)))"

text \<open>
  The result is \<open>sinfos_out\<close>: per stream the layout of the restored cells, \<open>None\<close> where there
  are none. \<open>sinfos_in\<close> is the layout of the cache that this one mirrors.
\<close>

definition state_read_sinfo :: "kv_layer list \<Rightarrow> int \<Rightarrow> slot_info list option \<Rightarrow> slot_info option list mem_io" where
  "state_read_sinfo layers seq_id sinfos_in = (\<lambda>((kv, T), r).
     if kv_other kv \<noteq> None then (Ret [], (kv, T), r)
     else assertS (seq_id = -1 \<or> kv_seq_ok kv seq_id)
      (if sinfos_in \<noteq> None \<and> length (the sinfos_in) \<noteq> kv_n_stream kv then throwS MirrorStreams
       else bindS io_read_u32 (\<lambda>n_stream_cur.
         if n_stream_cur \<noteq> kv_n_stream kv then throwS StreamMismatch
         else bindS (if seq_id = -1 then modifyS clear_data else retS ()) (\<lambda>_.
           read_streams layers seq_id (\<lambda>s. map_option (\<lambda>sis. sis ! s) sinfos_in) [0..<kv_n_stream kv])))
      ((kv, T), r))"

definition kv_state_read :: "kv_layer list \<Rightarrow> int \<Rightarrow> unit mem_io" where
  "kv_state_read layers seq_id = bindS (state_read_sinfo layers seq_id None) (\<lambda>_. retS ())"

section \<open>The context\<close>

text \<open>
  \<open>llama_context\<close> with this cache as its memory: the architecture name goes ahead of the cells.
  The sizes returned are 0 after an exception.
\<close>

definition ctx_write_data :: "octet list \<Rightarrow> llama_kv_cache \<Rightarrow> kv_layer list \<Rightarrow> kv_tensor io_op list option" where
  "ctx_write_data arch kv layers = map_option (\<lambda>ops. io_write_string arch @ ops) (kv_state_write kv layers (-1))"

definition ctx_read_data :: "octet list \<Rightarrow> kv_layer list \<Rightarrow> unit mem_io" where
  "ctx_read_data arch layers =
     bindS io_read_string (\<lambda>arch_str. if arch \<noteq> arch_str then throwS WrongArch else kv_state_read layers (-1))"

definition state_get_size :: "octet list \<Rightarrow> llama_kv_cache \<Rightarrow> kv_layer list \<Rightarrow> nat option" where
  "state_get_size arch kv layers = map_option io_size (ctx_write_data arch kv layers)"

definition state_get_data ::
  "octet list \<Rightarrow> llama_kv_cache \<Rightarrow> kv_layer list \<Rightarrow> kv_tensor tensors \<Rightarrow> octet list \<Rightarrow> (octet list \<times> nat) option" where
  "state_get_data arch kv layers T dst = map_option (\<lambda>ops. host_save T ops dst) (ctx_write_data arch kv layers)"

text \<open>The outcome of a restore: the size, the cache and the tensors; \<open>None\<close> is an abort.\<close>

definition host_load :: "unit mem_io \<Rightarrow> octet list \<Rightarrow> llama_kv_cache \<Rightarrow> kv_tensor tensors \<Rightarrow> (nat \<times> llama_kv_cache \<times> kv_tensor tensors) option" where
  "host_load m src kv T =
     (case m ((kv, T), host_reader_new src) of
        (Ret _, (kv, T), r) \<Rightarrow> Some (hr_size_read r, kv, host_reader_destroy r T)
      | (Throw _, (kv, T), r) \<Rightarrow> Some (0, kv, host_reader_destroy r T)
      | (Abort, _) \<Rightarrow> None)"

definition state_set_data ::
  "octet list \<Rightarrow> octet list \<Rightarrow> kv_layer list \<Rightarrow> llama_kv_cache \<Rightarrow> kv_tensor tensors \<Rightarrow> (nat \<times> llama_kv_cache \<times> kv_tensor tensors) option" where
  "state_set_data arch src layers kv T = host_load (ctx_read_data arch layers) src kv T"

text \<open>One sequence, over host buffers (without \<open>LLAMA_STATE_SEQ_FLAGS_ON_DEVICE\<close>).\<close>

definition io_magic :: nat where "io_magic = 0xaf143cd8"

definition seq_write_data :: "int \<Rightarrow> llama_kv_cache \<Rightarrow> kv_layer list \<Rightarrow> kv_tensor io_op list option" where
  "seq_write_data seq_id kv layers =
     map_option (\<lambda>ops. [Io_Write (u32_bytes io_magic), Io_Write (i32_bytes seq_id)] @ ops) (kv_state_write kv layers seq_id)"

definition state_seq_get_size :: "int \<Rightarrow> llama_kv_cache \<Rightarrow> kv_layer list \<Rightarrow> nat option" where
  "state_seq_get_size seq_id kv layers = map_option io_size (seq_write_data seq_id kv layers)"

definition state_seq_get_data ::
  "int \<Rightarrow> llama_kv_cache \<Rightarrow> kv_layer list \<Rightarrow> kv_tensor tensors \<Rightarrow> octet list \<Rightarrow> (octet list \<times> nat) option" where
  "state_seq_get_data seq_id kv layers T dst = map_option (\<lambda>ops. host_save T ops dst) (seq_write_data seq_id kv layers)"

definition seq_read_data :: "int \<Rightarrow> kv_layer list \<Rightarrow> unit mem_io" where
  "seq_read_data seq_id layers =
     bindS io_read_u32 (\<lambda>magic_read. if io_magic \<noteq> magic_read then throwS WrongMagic
     else bindS io_read_i32 (\<lambda>_. kv_state_read layers seq_id))"

definition state_seq_set_data ::
  "int \<Rightarrow> octet list \<Rightarrow> kv_layer list \<Rightarrow> llama_kv_cache \<Rightarrow> kv_tensor tensors \<Rightarrow> (nat \<times> llama_kv_cache \<times> kv_tensor tensors) option" where
  "state_seq_set_data seq_id src layers kv T = host_load (seq_read_data seq_id layers) src kv T"

end
