(* ===== verification/Kv_State_Data.thy ===== *)
theory Kv_State_Data
  imports Kv_State
begin

text \<open>
  The tensor part of a saved cache: the ranges cover the saved cells in order, what is written
  for a tensor is the rows of these cells, and \<open>state_read_data\<close> of another cache with the same
  layers reads them to the front of its tensors.
\<close>

section \<open>The ranges\<close>

definition range_cells :: "(nat \<times> nat) list \<Rightarrow> nat list" where
  "range_cells cr = concat (map (\<lambda>(a, b). [a..<b]) cr)"

lemma range_cells_simps [simp]:
  "range_cells [] = []" "range_cells ((a, b) # cr) = [a..<b] @ range_cells cr"
  "range_cells (cr @ cr') = range_cells cr @ range_cells cr'"
  by (simp_all add: range_cells_def)

lemma range_fold:
  assumes "k \<le> n" "fold (range_step n add_cell) [0..<k] (0, n, []) = (cnt, start, data)"
  shows "range_cells data @ (if start \<noteq> n then [start..<k] else []) = filter add_cell [0..<k] \<and>
    cnt = length (filter add_cell [0..<k]) \<and> (start \<noteq> n \<longrightarrow> start < k) \<and> list_all (\<lambda>(a, b). a < b \<and> b \<le> n) data"
  using assms
proof (induction k arbitrary: cnt start data)
  case (Suc k)
  obtain c s d where f: "fold (range_step n add_cell) [0..<k] (0, n, []) = (c, s, d)" by (metis prod_cases3)
  from Suc.IH [OF _ f] Suc.prems(1)
  have IH: "range_cells d @ (if s \<noteq> n then [s..<k] else []) = filter add_cell [0..<k]"
    "c = length (filter add_cell [0..<k])" "s \<noteq> n \<longrightarrow> s < k" "list_all (\<lambda>(a, b). a < b \<and> b \<le> n) d" by auto
  have st: "(cnt, start, data) = range_step n add_cell k (c, s, d)" using Suc.prems(2) by (simp add: f)
  show ?case
  proof (cases "add_cell k")
    case True
    then have e: "cnt = c + 1" "start = (if s = n then k else s)" "data = d"
      using st by (simp_all add: range_step_def)
    show ?thesis
    proof (cases "s = n")
      case t: True
      with IH have "range_cells d = filter add_cell [0..<k]" by simp
      then show ?thesis using t e True IH(2,4) Suc.prems(1) by simp
    next
      case s: False
      then have "range_cells d @ [s..<Suc k] = filter add_cell [0..<k] @ [k]" using IH(1,3) by simp
      then show ?thesis using s e True IH(2-4) by simp
    qed
  next
    case False
    show ?thesis
    proof (cases "s = n")
      case True
      then show ?thesis using st False IH by (simp add: range_step_def)
    next
      case s: False
      then have e: "cnt = c" "start = n" "data = d @ [(s, k)]" using st False by (simp_all add: range_step_def)
      show ?thesis using s IH False Suc.prems(1) by (simp add: e)
    qed
  qed
qed simp

lemma cell_ranges_exact:
  assumes "cell_ranges n add_cell = (cnt, cr)"
  shows "range_cells cr = filter add_cell [0..<n]" "cnt = length (filter add_cell [0..<n])"
    "sum_list (map (\<lambda>(a, b). b - a) cr) = cnt" "list_all (\<lambda>(a, b). a < b) cr"
proof -
  obtain c s d where f: "fold (range_step n add_cell) [0..<n] (0, n, []) = (c, s, d)" by (metis prod_cases3)
  have e: "cnt = c" "cr = (if s \<noteq> n then d @ [(s, n)] else d)" using assms by (simp_all add: cell_ranges_def f)
  show r: "range_cells cr = filter add_cell [0..<n]" "cnt = length (filter add_cell [0..<n])"
    using range_fold [OF order_refl f] by (simp_all add: e split: if_splits)
  show "list_all (\<lambda>(a, b). a < b) cr"
    using range_fold [OF order_refl f] by (auto simp: e list_all_iff)
  have "length (range_cells cr) = sum_list (map (\<lambda>(a, b). b - a) cr)" for cr
    by (induction cr) auto
  from this [of cr] show "sum_list (map (\<lambda>(a, b). b - a) cr) = cnt" using r by simp
qed

lemma over_ranges_cells: "over_ranges (\<lambda>(a, b). concat (map f [a..<b])) cr = concat (map f (range_cells cr))"
  by (induction cr) (auto simp: over_ranges_def)

section \<open>The rows written\<close>

lemma slice_rows: "slice t (base + a * row) (k * row) = concat (map (\<lambda>i. slice t (base + i * row) row) [a..<a + k])"
proof (induction k)
  case (Suc k)
  have "slice t (base + a * row) (Suc k * row) = slice t (base + a * row) (k * row) @ slice t (base + (a + k) * row) row"
    using slice_append [of t "base + a * row" "k * row" row] by (simp add: algebra_simps)
  then show ?case by (simp add: Suc)
qed (simp add: slice_def)

text \<open>A range written at offset \<open>base + a * row\<close> is its rows one after the other.\<close>

lemma io_bytes_ranges:
  assumes "list_all (\<lambda>(a, b). a < b \<and> offset a = base + a * row) cr"
  shows "io_bytes T (over_ranges (\<lambda>(a, b). [Io_Write_Tensor t (offset a) ((b - a) * row)]) cr) =
    concat (map (\<lambda>i. slice (T t) (base + i * row) row) (range_cells cr))"
  using assms
proof (induction cr)
  case (Cons p cr)
  obtain a b where p: "p = (a, b)" by (cases p)
  have "slice (T t) (base + a * row) ((b - a) * row) = concat (map (\<lambda>i. slice (T t) (base + i * row) row) [a..<b])"
    using slice_rows [of "T t" base a row "b - a"] Cons.prems by (simp add: p)
  with Cons show ?case by (simp add: over_ranges_def p)
qed (simp add: over_ranges_def)

definition rows_of :: "octet list \<Rightarrow> nat \<Rightarrow> nat \<Rightarrow> nat list \<Rightarrow> octet list" where
  "rows_of t base row is = concat (map (\<lambda>i. slice t (base + i * row) row) is)"

lemma length_rows_of: "(\<And>i. i \<in> set is \<Longrightarrow> base + i * row + row \<le> length t) \<Longrightarrow> length (rows_of t base row is) = length is * row"
  by (induction "is") (simp_all add: rows_of_def)

lemma slice_rows_of:
  assumes "\<And>i. i \<in> set is \<Longrightarrow> base + i * row + row \<le> length t" "k < length is"
  shows "slice (rows_of t base row is) (k * row) row = slice t (base + is ! k * row) row"
  using assms
proof (induction "is" arbitrary: k)
  case (Cons i "is")
  have l: "length (slice t (base + i * row) row) = row" using Cons.prems(1) [of i] by simp
  show ?case
  proof (cases k)
    case 0
    then show ?thesis using l by (simp add: rows_of_def slice_def [of "_ @ _"])
  next
    case (Suc k')
    then have "slice (rows_of t base row (i # is)) (k * row) row = slice (rows_of t base row is) (k' * row) row"
      using l by (simp add: rows_of_def slice_def [of "_ @ _"] slice_def [of "concat _"])
    with Suc Cons show ?thesis by simp
  qed
qed simp

section \<open>One layer\<close>

definition layer_ok :: "kv_layer \<Rightarrow> bool" where
  "layer_ok l \<longleftrightarrow> is_i32 (kl_k_type l) \<and> kl_k_size_row l < 2 ^ 64 \<and>
     (case kl_k_idx l of None \<Rightarrow> True | Some ki \<Rightarrow> is_i32 (ki_type ki) \<and> ki_size_row ki < 2 ^ 64 \<and> 0 < ki_nbytes ki) \<and>
     (case kl_v l of None \<Rightarrow> True | Some vi \<Rightarrow> is_i32 (vi_type vi) \<and> vi_size_row vi < 2 ^ 64 \<and>
        vi_size_el vi < 2 ^ 32 \<and> vi_n_embd_gqa vi < 2 ^ 32)"

text \<open>
  The reads of the rows \<open>bs\<close> into the cells \<open>ixs\<close> of a tensor: row \<open>i\<close> is at \<open>base + i * row\<close>.
\<close>

definition contiguous :: "nat list \<Rightarrow> bool" where
  "contiguous ixs \<longleftrightarrow> list_all (\<lambda>i. ixs ! i = ixs ! 0 + i) [0..<length ixs]"

definition slot_reads :: "nat list \<Rightarrow> kv_tensor \<Rightarrow> nat \<Rightarrow> nat \<Rightarrow> octet list \<Rightarrow> (kv_tensor \<times> nat \<times> octet list) list" where
  "slot_reads ixs t base row bs =
     (if contiguous ixs then [(t, base + ixs ! 0 * row, bs)]
      else map (\<lambda>k. (t, base + ixs ! k * row, slice bs (k * row) row)) [0..<length ixs])"

lemma consumes_each:
  assumes "length bs = length ixs * row"
  shows "consumes (read_each t off row ixs) bs s () s (map (\<lambda>k. (t, off (ixs ! k), slice bs (k * row) row)) [0..<length ixs])"
  using assms
proof (induction ixs arbitrary: bs)
  case (Cons i ixs)
  let ?r = "drop row bs"
  have l: "length (take row bs) = row" "length ?r = length ixs * row" using Cons.prems by simp_all
  have sl: "slice ?r (k * row) row = slice bs (Suc k * row) row" for k by (simp add: slice_def add.commute)
  have "consumes (read_each t off row (i # ixs)) (take row bs @ ?r) s () s
      ([(t, off i, take row bs)] @ map (\<lambda>k. (t, off (ixs ! k), slice ?r (k * row) row)) [0..<length ixs])"
    unfolding read_each.simps by (rule consumes_bind [OF consumes_tensor [OF l(1)] Cons.IH [OF l(2)]])
  moreover have "[(t, off i, take row bs)] @ map (\<lambda>k. (t, off (ixs ! k), slice ?r (k * row) row)) [0..<length ixs] =
      map (\<lambda>k. (t, off ((i # ixs) ! k), slice bs (k * row) row)) [0..<length (i # ixs)]"
  proof -
    have "[0..<length (i # ixs)] = 0 # map Suc [0..<length ixs]" by (simp add: upt_conv_Cons map_Suc_upt del: upt_Suc)
    moreover have "slice bs (0 * row) row = take row bs" by (simp add: slice_def)
    ultimately show ?thesis by (simp only: list.map map_map comp_def nth_Cons_0 nth_Cons_Suc sl append_Cons append_Nil)
  qed
  ultimately show ?case by (simp only: append_take_drop_id)
qed (simp add: consumes_ret)

lemma consumes_rows:
  assumes si: "si_idxs si = [ixs]" "length ixs = n" "0 < n" and bs: "length bs = n * row"
    and off: "\<And>i. i \<in> set ixs \<Longrightarrow> off i = base + i * row"
  shows "consumes (read_rows t off row n si) bs s True s (slot_reads ixs t base row bs)"
proof (cases "contiguous ixs")
  case True
  have c: "si_is_contiguous si" "si_head si = Some (ixs ! 0)"
    using True si by (auto simp: si_is_contiguous_def si_head_def contiguous_def)
  have h: "ixs ! 0 \<in> set ixs" using si by simp
  have "consumes (bindS (io_read_tensor t (off (ixs ! 0)) (n * row)) (\<lambda>_. retS True)) (bs @ []) s True s ([(t, off (ixs ! 0), bs)] @ [])"
    by (intro consumes_bind [OF consumes_tensor [OF bs] consumes_ret])
  then show ?thesis using True si(3) off [OF h] by (simp add: read_rows_def slot_reads_def c)
next
  case False
  have c: "\<not> si_is_contiguous si" using False si by (auto simp: si_is_contiguous_def contiguous_def)
  have bs': "length bs = length ixs * row" using bs si(2) by simp
  have m: "map (\<lambda>i. si_idxs si ! 0 ! i) [0..<n] = ixs" using si(1,2) map_nth [of ixs] by simp
  have "consumes (bindS (read_each t off row (map (\<lambda>i. si_idxs si ! 0 ! i) [0..<n])) (\<lambda>_. retS True)) (bs @ []) s True s
      (map (\<lambda>k. (t, off (ixs ! k), slice bs (k * row) row)) [0..<length ixs] @ [])"
    unfolding m by (rule consumes_bind [OF consumes_each [OF bs'] consumes_ret])
  moreover have "map (\<lambda>k. (t, off (ixs ! k), slice bs (k * row) row)) [0..<length ixs] =
      map (\<lambda>k. (t, base + ixs ! k * row, slice bs (k * row) row)) [0..<length ixs]"
    by (rule map_cong) (simp_all add: off)
  ultimately show ?thesis using False si(3) by (simp add: read_rows_def slot_reads_def c)
qed

text \<open>The tensors hold the rows of \<open>m\<close> cells.\<close>

definition layer_fits :: "bool \<Rightarrow> kv_tensor tensors \<Rightarrow> nat \<Rightarrow> nat \<Rightarrow> nat \<times> kv_layer \<Rightarrow> bool" where
  "layer_fits v_trans T m s = (\<lambda>(l, layer).
     m * kl_k_size_row layer \<le> length (T (K_Stream l s)) \<and>
     (case kl_k_idx layer of None \<Rightarrow> True | Some ki \<Rightarrow> m * ki_size_row ki \<le> length (T (K_Idx_Stream l s))) \<and>
     (case kl_v layer of None \<Rightarrow> True | Some vi \<Rightarrow>
        if v_trans then m * vi_n_embd_gqa vi * vi_size_el vi \<le> length (T (V_Stream l s))
        else m * vi_size_row vi \<le> length (T (V_Stream l s))))"

text \<open>The transposed elements are within reach of the 32-bit offsets.\<close>

definition v_reach :: "bool \<Rightarrow> nat \<Rightarrow> kv_layer \<Rightarrow> bool" where
  "v_reach v_trans m layer \<longleftrightarrow>
     (case kl_v layer of None \<Rightarrow> True | Some vi \<Rightarrow> v_trans \<longrightarrow> m * vi_n_embd_gqa vi * vi_size_el vi \<le> 2 ^ 32)"

lemma row_bound: "i < m \<Longrightarrow> m * row \<le> n \<Longrightarrow> i * row + row \<le> (n :: nat)"
proof -
  assume "i < m" "m * row \<le> n"
  from this(1) have "Suc i * row \<le> m * row" by (intro mult_right_mono) auto
  with \<open>m * row \<le> n\<close> show ?thesis by simp
qed

lemma trans_bound: "i < m \<Longrightarrow> j < k \<Longrightarrow> m * k * el \<le> n \<Longrightarrow> (i + j * m) * el + el \<le> (n :: nat)"
proof -
  assume a: "i < m" "j < k" "m * k * el \<le> n"
  have "i + j * m < m + j * m" using a(1) by simp
  also have "\<dots> = Suc j * m" by simp
  also have "\<dots> \<le> k * m" using a(2) by (intro mult_right_mono) auto
  finally have "i + j * m < m * k" by (simp add: mult.commute)
  from row_bound [OF this a(3)] show ?thesis .
qed

lemma consumes_k:
  assumes "layer_ok layer" "layer_fits vt T m s (l, layer)" "0 < length is" "\<And>i. i \<in> set is \<Longrightarrow> i < m"
    "range_cells cr = is" "list_all (\<lambda>(a, b). a < b) cr" and si: "si_idxs si = [ixs]" "length ixs = length is"
  shows "consumes (read_k s' (length is) si (l, layer)) (io_bytes T (write_k s cr (l, layer))) kv True kv
    (slot_reads ixs (K_Stream l s') 0 (kl_k_size_row layer) (rows_of (T (K_Stream l s)) 0 (kl_k_size_row layer) is))"
proof -
  let ?row = "kl_k_size_row layer" let ?t = "T (K_Stream l s)"
  have w: "io_bytes T (write_k s cr (l, layer)) = i32_bytes (kl_k_type layer) @ u64_bytes ?row @ rows_of ?t 0 ?row is"
    using io_bytes_ranges [of "\<lambda>a. a * ?row" 0 ?row cr T "K_Stream l s"] assms(6)
    by (simp add: write_k_def write_rows_def rows_of_def assms(5) list_all_iff split_beta)
  have l: "length (rows_of ?t 0 ?row is) = length is * ?row"
    using row_bound [OF assms(4)] assms(2) by (intro length_rows_of) (auto simp: layer_fits_def)
  have r: "kl_k_type layer = kl_k_type layer" ..
  have "consumes (read_k s' (length is) si (l, layer))
    (i32_bytes (kl_k_type layer) @ u64_bytes ?row @ rows_of ?t 0 ?row is) kv True kv
    ([] @ [] @ slot_reads ixs (K_Stream l s') 0 ?row (rows_of ?t 0 ?row is))"
    unfolding read_k_def case_prod_conv
    by (intro consumes_bind [OF consumes_i32] consumes_bind [OF consumes_u64] consumes_return_unless refl consumes_rows [OF si assms(3) l])
      (use assms(1) in \<open>simp_all add: layer_ok_def\<close>)
  then show ?thesis by (simp add: w)
qed

lemma consumes_k_idx:
  assumes "layer_ok layer" "layer_fits vt T m s (l, layer)" "0 < length is" "\<And>i. i \<in> set is \<Longrightarrow> i < m"
    "range_cells cr = is" "list_all (\<lambda>(a, b). a < b) cr" and si: "si_idxs si = [ixs]" "length ixs = length is"
  shows "consumes (read_k_idx s' (length is) si (l, layer)) (io_bytes T (write_k_idx s cr (l, layer))) kv True kv
    (case kl_k_idx layer of None \<Rightarrow> [] | Some ki \<Rightarrow> slot_reads ixs (K_Idx_Stream l s') 0 (ki_size_row ki) (rows_of (T (K_Idx_Stream l s)) 0 (ki_size_row ki) is))"
proof (cases "kl_k_idx layer")
  case None
  have "consumes (read_k_idx s' (length is) si (l, layer)) (u32_bytes 0 @ []) kv True kv ([] @ [])"
    unfolding read_k_idx_def case_prod_conv using None
    by (intro consumes_bind [OF consumes_u32] consumes_return_unless) (simp_all add: consumes_ret)
  then show ?thesis by (simp add: None write_k_idx_def)
next
  case (Some ki)
  let ?row = "ki_size_row ki" let ?t = "T (K_Idx_Stream l s)"
  have w: "io_bytes T (write_k_idx s cr (l, layer)) = u32_bytes 1 @ i32_bytes (ki_type ki) @ u64_bytes ?row @ rows_of ?t 0 ?row is"
    using io_bytes_ranges [of "\<lambda>a. a * ?row" 0 ?row cr T "K_Idx_Stream l s"] assms(6)
    by (simp add: write_k_idx_def write_rows_def rows_of_def assms(5) list_all_iff split_beta Some)
  have l: "length (rows_of ?t 0 ?row is) = length is * ?row"
    using row_bound [OF assms(4)] assms(2) by (intro length_rows_of) (auto simp: layer_fits_def Some)
  have "consumes (read_k_idx s' (length is) si (l, layer))
    (u32_bytes 1 @ i32_bytes (ki_type ki) @ u64_bytes ?row @ rows_of ?t 0 ?row is) kv True kv
    ([] @ [] @ [] @ slot_reads ixs (K_Idx_Stream l s') 0 ?row (rows_of ?t 0 ?row is))"
    unfolding read_k_idx_def case_prod_conv Some option.case
    by (intro consumes_bind [OF consumes_u32] consumes_bind [OF consumes_i32] consumes_bind [OF consumes_u64]
        consumes_return_unless refl consumes_rows [OF si assms(3) l])
      (use assms(1) Some in \<open>simp_all add: layer_ok_def\<close>)
  then show ?thesis by (simp add: w Some)
qed

lemma consumes_v:
  assumes "layer_ok layer" "layer_fits False T m s (l, layer)" "0 < length is" "\<And>i. i \<in> set is \<Longrightarrow> i < m"
    "range_cells cr = is" "list_all (\<lambda>(a, b). a < b) cr" and si: "si_idxs si = [ixs]" "length ixs = length is"
  shows "consumes (read_v s' (length is) si (l, layer)) (io_bytes T (write_v s cr (l, layer))) kv True kv
    (case kl_v layer of None \<Rightarrow> [] | Some vi \<Rightarrow> slot_reads ixs (V_Stream l s') 0 (vi_size_row vi) (rows_of (T (V_Stream l s)) 0 (vi_size_row vi) is))"
proof (cases "kl_v layer")
  case None
  then show ?thesis by (simp add: write_v_def read_v_def consumes_ret)
next
  case (Some vi)
  let ?row = "vi_size_row vi" let ?t = "T (V_Stream l s)"
  have w: "io_bytes T (write_v s cr (l, layer)) = i32_bytes (vi_type vi) @ u64_bytes ?row @ rows_of ?t 0 ?row is"
    using io_bytes_ranges [of "\<lambda>a. a * ?row" 0 ?row cr T "V_Stream l s"] assms(6)
    by (simp add: write_v_def write_rows_def rows_of_def assms(5) list_all_iff split_beta Some)
  have l: "length (rows_of ?t 0 ?row is) = length is * ?row"
    using row_bound [OF assms(4)] assms(2) by (intro length_rows_of) (auto simp: layer_fits_def Some)
  have "consumes (read_v s' (length is) si (l, layer))
    (i32_bytes (vi_type vi) @ u64_bytes ?row @ rows_of ?t 0 ?row is) kv True kv
    ([] @ [] @ slot_reads ixs (V_Stream l s') 0 ?row (rows_of ?t 0 ?row is))"
    unfolding read_v_def case_prod_conv Some option.case
    by (intro consumes_bind [OF consumes_i32] consumes_bind [OF consumes_u64]
        consumes_return_unless refl consumes_rows [OF si assms(3) l])
      (use assms(1) Some in \<open>simp_all add: layer_ok_def\<close>)
  then show ?thesis by (simp add: w Some)
qed

lemma consumes_all_ok_list:
  "(\<And>x. x \<in> set xs \<Longrightarrow> consumes (f x) (b x) s True s (r x)) \<Longrightarrow>
    consumes (all_ok f xs) (concat (map b xs)) s True s (concat (map r xs))"
proof (induction xs)
  case (Cons x xs)
  have "consumes (all_ok f (x # xs)) (b x @ concat (map b xs)) s True s (r x @ concat (map r xs))"
    unfolding all_ok.simps using Cons
    by (intro consumes_bind [of "f x" _ s True] consumes_return_unless) auto
  then show ?case by simp
qed (simp add: consumes_ret)

text \<open>Within reach, both offset computations are exact.\<close>

lemma v_src_exact: "a < m \<Longrightarrow> j < ne \<Longrightarrow> m * ne * el \<le> 2 ^ 32 \<Longrightarrow> v_src_offset m el j a = j * m * el + a * el"
proof -
  assume a: "a < m" "j < ne" "m * ne * el \<le> 2 ^ 32"
  from trans_bound [OF this] have "el = 0 \<or> (a + j * m) * el < 2 ^ 32" by linarith
  then show ?thesis by (auto simp: v_src_offset_def algebra_simps)
qed

lemma v_dst_exact: "i < m \<Longrightarrow> j < ne \<Longrightarrow> m * ne * el \<le> 2 ^ 32 \<Longrightarrow> v_dst_offset m el j i = j * m * el + i * el"
proof -
  assume a: "i < m" "j < ne" "m * ne * el \<le> 2 ^ 32"
  have "el = 0 \<or> i + j * m < 2 ^ 32"
  proof (cases "el = 0")
    case False
    from trans_bound [OF a] have "(i + j * m) * el + el \<le> 2 ^ 32" by simp
    moreover have "i + j * m \<le> (i + j * m) * el" using False by simp
    ultimately show ?thesis using False by linarith
  qed simp
  then show ?thesis by (auto simp: v_dst_offset_def algebra_simps)
qed

lemma consumes_v_trans:
  assumes "layer_ok layer" "layer_fits True T m s (l, layer)" "0 < length is" "\<And>i. i \<in> set is \<Longrightarrow> i < m"
    "range_cells cr = is" "list_all (\<lambda>(a, b). a < b) cr" and si: "si_idxs si = [ixs]" "length ixs = length is" and reach: "v_reach True m layer" "v_reach True m' layer" and ixs: "\<And>i. i \<in> set ixs \<Longrightarrow> i < m'"
  shows "consumes (read_v_trans m' s' (length is) si (l, layer)) (io_bytes T (write_v_trans m s cr (l, layer))) kv True kv
    (case kl_v layer of None \<Rightarrow> [] | Some vi \<Rightarrow>
      concat (map (\<lambda>j. slot_reads ixs (V_Stream l s') (j * m' * vi_size_el vi) (vi_size_el vi) (rows_of (T (V_Stream l s)) (j * m * vi_size_el vi) (vi_size_el vi) is)) [0..<vi_n_embd_gqa vi]))"
proof (cases "kl_v layer")
  case None
  then show ?thesis by (simp add: write_v_trans_def read_v_trans_def consumes_ret)
next
  case (Some vi)
  let ?el = "vi_size_el vi" let ?ne = "vi_n_embd_gqa vi" let ?t = "T (V_Stream l s)"
  let ?rows = "\<lambda>j. rows_of ?t (j * m * ?el) ?el is"
  have reach: "m * ?ne * ?el \<le> 2 ^ 32" "m' * ?ne * ?el \<le> 2 ^ 32" using assms(9,10) by (simp_all add: v_reach_def Some)
  have cr: "a < m" if "(a, b) \<in> set cr" for a b
  proof -
    have "a < b" using assms(6) that by (auto simp: list_all_iff)
    then have "a \<in> set (range_cells cr)" using that by (force simp: range_cells_def)
    then show ?thesis using assms(4,5) by simp
  qed
  have b: "io_bytes T (over_ranges (\<lambda>(a, b). [Io_Write_Tensor (V_Stream l s) (v_src_offset m ?el j a) ((b - a) * ?el)]) cr) = ?rows j"
    if "j < ?ne" for j
  proof -
    have "list_all (\<lambda>(a, b). a < b \<and> v_src_offset m ?el j a = j * m * ?el + a * ?el) cr"
      using assms(6) v_src_exact [OF cr that reach(1)] by (auto simp: list_all_iff)
    from io_bytes_ranges [OF this] show ?thesis by (simp add: rows_of_def assms(5))
  qed
  have w: "io_bytes T (write_v_trans m s cr (l, layer)) =
      i32_bytes (vi_type vi) @ u32_bytes ?el @ u32_bytes ?ne @ concat (map ?rows [0..<?ne])"
  proof -
    have "map (\<lambda>j. io_bytes T (over_ranges (\<lambda>(a, b). [Io_Write_Tensor (V_Stream l s) (v_src_offset m ?el j a) ((b - a) * ?el)]) cr)) [0..<?ne] =
        map ?rows [0..<?ne]"
      using b by (intro map_cong) auto
    note e = this
    show ?thesis unfolding write_v_trans_def case_prod_conv Some option.case io_bytes_simps io_bytes_concat e by simp
  qed
  have r: "consumes (read_rows (V_Stream l s') (v_dst_offset m' ?el j) ?el (length is) si) (?rows j) kv True kv
      (slot_reads ixs (V_Stream l s') (j * m' * ?el) ?el (?rows j))" if "j \<in> set [0..<?ne]" for j
  proof -
    have j: "j < ?ne" using that by simp
    have "length (?rows j) = length is * ?el"
      using trans_bound [OF assms(4) j, of _ ?el "length ?t"] assms(2)
      by (intro length_rows_of) (auto simp: layer_fits_def Some algebra_simps)
    from consumes_rows [OF si assms(3) this, of "v_dst_offset m' ?el j" "j * m' * ?el"] show ?thesis
      using v_dst_exact [OF ixs j reach(2)] by simp
  qed
  have "consumes (read_v_trans m' s' (length is) si (l, layer))
    (i32_bytes (vi_type vi) @ u32_bytes ?el @ u32_bytes ?ne @ concat (map ?rows [0..<?ne])) kv True kv
    ([] @ [] @ [] @ concat (map (\<lambda>j. slot_reads ixs (V_Stream l s') (j * m' * ?el) ?el (?rows j)) [0..<?ne]))"
    unfolding read_v_trans_def case_prod_conv Some option.case
    by (intro consumes_bind [OF consumes_u32] consumes_bind [OF consumes_i32] consumes_return_unless refl consumes_all_ok_list r)
      (use assms(1) Some in \<open>simp_all add: layer_ok_def\<close>)
  then show ?thesis by (simp add: w Some concat_map_singleton)
qed

section \<open>All layers\<close>

text \<open>
  The tensor reads of a restored stream: \<open>m\<close> cells per tensor in the saved cache, \<open>m'\<close> in
  the restored one.
\<close>

definition k_reads :: "kv_tensor tensors \<Rightarrow> nat \<Rightarrow> nat \<Rightarrow> nat list \<Rightarrow> nat list \<Rightarrow> nat \<times> kv_layer \<Rightarrow> (kv_tensor \<times> nat \<times> octet list) list" where
  "k_reads T s s' is ixs = (\<lambda>(l, layer).
     slot_reads ixs (K_Stream l s') 0 (kl_k_size_row layer) (rows_of (T (K_Stream l s)) 0 (kl_k_size_row layer) is))"

definition k_idx_reads :: "kv_tensor tensors \<Rightarrow> nat \<Rightarrow> nat \<Rightarrow> nat list \<Rightarrow> nat list \<Rightarrow> nat \<times> kv_layer \<Rightarrow> (kv_tensor \<times> nat \<times> octet list) list" where
  "k_idx_reads T s s' is ixs = (\<lambda>(l, layer).
     case kl_k_idx layer of
       None \<Rightarrow> []
     | Some ki \<Rightarrow> slot_reads ixs (K_Idx_Stream l s') 0 (ki_size_row ki) (rows_of (T (K_Idx_Stream l s)) 0 (ki_size_row ki) is))"

definition v_reads ::
  "bool \<Rightarrow> kv_tensor tensors \<Rightarrow> nat \<Rightarrow> nat \<Rightarrow> nat \<Rightarrow> nat \<Rightarrow> nat list \<Rightarrow> nat list \<Rightarrow> nat \<times> kv_layer \<Rightarrow> (kv_tensor \<times> nat \<times> octet list) list" where
  "v_reads vt T m m' s s' is ixs = (\<lambda>(l, layer).
     case kl_v layer of
       None \<Rightarrow> []
     | Some vi \<Rightarrow>
         if vt
         then concat (map (\<lambda>j. slot_reads ixs (V_Stream l s') (j * m' * vi_size_el vi) (vi_size_el vi)
                  (rows_of (T (V_Stream l s)) (j * m * vi_size_el vi) (vi_size_el vi) is)) [0..<vi_n_embd_gqa vi])
         else slot_reads ixs (V_Stream l s') 0 (vi_size_row vi) (rows_of (T (V_Stream l s)) 0 (vi_size_row vi) is))"

definition data_reads ::
  "bool \<Rightarrow> kv_layer list \<Rightarrow> kv_tensor tensors \<Rightarrow> nat \<Rightarrow> nat \<Rightarrow> nat \<Rightarrow> nat \<Rightarrow> nat list \<Rightarrow> nat list \<Rightarrow> (kv_tensor \<times> nat \<times> octet list) list" where
  "data_reads vt layers T m m' s s' is ixs =
     concat (map (k_reads T s s' is ixs) (numbered layers)) @
     concat (map (k_idx_reads T s s' is ixs) (numbered layers)) @
     concat (map (v_reads vt T m m' s s' is ixs) (numbered layers))"

lemma numbered_set: "(l, x) \<in> set (numbered xs) \<longleftrightarrow> l < length xs \<and> x = xs ! l"
  by (auto simp: numbered_def set_zip intro!: exI [of _ l])

lemma no_k_idx:
  assumes "\<not> 0 < size_k_idx_bytes layers" "\<forall>layer \<in> set layers. layer_ok layer" "layer \<in> set layers"
  shows "kl_k_idx layer = None"
proof -
  have mono: "n \<le> fold (\<lambda>l n. case kl_k_idx l of Some ki \<Rightarrow> n + ki_nbytes ki | None \<Rightarrow> n) ls n" for ls n
  proof (induction ls arbitrary: n)
    case (Cons l ls)
    show ?case using Cons [of "case kl_k_idx l of Some ki \<Rightarrow> n + ki_nbytes ki | None \<Rightarrow> n"]
      by (cases "kl_k_idx l") simp_all
  qed simp
  have "kl_k_idx layer = None" if "fold (\<lambda>l n. case kl_k_idx l of Some ki \<Rightarrow> n + ki_nbytes ki | None \<Rightarrow> n) ls n = 0"
    "\<forall>layer \<in> set ls. layer_ok layer" "layer \<in> set ls" for ls n
    using that
  proof (induction ls arbitrary: n)
    case (Cons l ls)
    have "(case kl_k_idx l of Some ki \<Rightarrow> n + ki_nbytes ki | None \<Rightarrow> n) = 0"
      using mono [of "case kl_k_idx l of Some ki \<Rightarrow> n + ki_nbytes ki | None \<Rightarrow> n" ls] Cons.prems(1) by simp
    moreover have "layer_ok l" using Cons.prems(2) by simp
    ultimately have "kl_k_idx l = None" by (cases "kl_k_idx l") (auto simp: layer_ok_def)
    then show ?case using Cons.prems Cons.IH [of n] by auto
  qed simp
  from this [of layers 0] assms show ?thesis by (simp add: size_k_idx_bytes_def)
qed

lemma consumes_data:
  assumes ok: "\<forall>layer \<in> set layers. layer_ok layer" "length layers < 2 ^ 32"
    and fits: "\<forall>x \<in> set (numbered layers). layer_fits (kv_v_trans kv) T (cells_size (v_cells kv ! s)) s x"
    and reach: "\<forall>layer \<in> set layers. v_reach (kv_v_trans kv) (cells_size (v_cells kv ! s)) layer"
      "\<forall>layer \<in> set layers. v_reach (kv_v_trans kv) (cells_size (v_cells kv' ! s')) layer"
    and ix: "0 < length is" "\<And>i. i \<in> set is \<Longrightarrow> i < cells_size (v_cells kv ! s)" "length is \<le> cells_size (v_cells kv' ! s')"
    and si: "si_idxs si = [ixs]" "length ixs = length is" "\<And>i. i \<in> set ixs \<Longrightarrow> i < cells_size (v_cells kv' ! s')"
    and cr: "range_cells cr = is" "list_all (\<lambda>(a, b). a < b) cr" and vt: "kv_v_trans kv' = kv_v_trans kv"
  shows "consumes (kv_read_data layers s' (length is) si) (io_bytes T (kv_write_data kv layers s cr)) kv' True kv'
    (data_reads (kv_v_trans kv) layers T (cells_size (v_cells kv ! s)) (cells_size (v_cells kv' ! s')) s s' is ixs)"
proof -
  let ?vt = "kv_v_trans kv" let ?n = "length is"
  let ?m = "cells_size (v_cells kv ! s)" let ?m' = "cells_size (v_cells kv' ! s')" let ?L = "numbered layers"
  have L: "layer_ok layer" "layer_fits ?vt T ?m s (l, layer)" "v_reach ?vt ?m layer" "v_reach ?vt ?m' layer" if "(l, layer) \<in> set ?L" for l layer
    using that ok(1) fits reach by (auto simp: numbered_set)
  have k: "consumes (all_ok (read_k s' ?n si) ?L) (io_bytes T (concat (map (write_k s cr) ?L))) kv' True kv' (concat (map (k_reads T s s' is ixs) ?L))"
    unfolding io_bytes_concat
  proof (rule consumes_all_ok_list)
    fix x assume x: "x \<in> set ?L"
    obtain l layer where e: "x = (l, layer)" by (cases x)
    show "consumes (read_k s' ?n si x) (io_bytes T (write_k s cr x)) kv' True kv' (k_reads T s s' is ixs x)"
      unfolding e k_reads_def case_prod_conv by (rule consumes_k [OF L(1,2) [OF x [unfolded e]] ix(1,2) cr si(1,2)])
  qed
  have ki: "consumes (all_ok (read_k_idx s' ?n si) ?L) (io_bytes T (concat (map (write_k_idx s cr) ?L))) kv' True kv' (concat (map (k_idx_reads T s s' is ixs) ?L))"
    unfolding io_bytes_concat
  proof (rule consumes_all_ok_list)
    fix x assume x: "x \<in> set ?L"
    obtain l layer where e: "x = (l, layer)" by (cases x)
    show "consumes (read_k_idx s' ?n si x) (io_bytes T (write_k_idx s cr x)) kv' True kv' (k_idx_reads T s s' is ixs x)"
      unfolding e k_idx_reads_def case_prod_conv by (rule consumes_k_idx [OF L(1,2) [OF x [unfolded e]] ix(1,2) cr si(1,2)])
  qed
  let ?ki_bytes = "if size_k_idx_bytes layers > 0 then io_bytes T (Io_Write (u32_bytes 1) # concat (map (write_k_idx s cr) ?L)) else []"
  have ki': "consumes (if size_k_idx_bytes layers > 0
        then bindS io_read_u32 (\<lambda>has. return_unless (has = 1) False (all_ok (read_k_idx s' ?n si) ?L)) else retS True)
      ?ki_bytes kv' True kv' (concat (map (k_idx_reads T s s' is ixs) ?L))"
  proof (cases "size_k_idx_bytes layers > 0")
    case True
    have "consumes (bindS io_read_u32 (\<lambda>has. return_unless (has = 1) False (all_ok (read_k_idx s' ?n si) ?L)))
      (u32_bytes 1 @ io_bytes T (concat (map (write_k_idx s cr) ?L))) kv' True kv' ([] @ concat (map (k_idx_reads T s s' is ixs) ?L))"
      by (intro consumes_bind [OF consumes_u32] consumes_return_unless ki) simp_all
    with True show ?thesis by simp
  next
    case False
    have "k_idx_reads T s s' is ixs x = []" if "x \<in> set ?L" for x
      using no_k_idx [OF False ok(1), of "snd x"] that by (cases x) (auto simp: k_idx_reads_def numbered_set)
    then have "concat (map (k_idx_reads T s s' is ixs) ?L) = []" by (simp add: concat_eq_Nil_conv)
    then show ?thesis unfolding \<open>concat (map (k_idx_reads T s s' is ixs) ?L) = []\<close> using False by (simp add: consumes_ret)
  qed
  let ?v_bytes = "io_bytes T (concat (map (if \<not> ?vt then write_v s cr else write_v_trans ?m s cr) ?L))"
  have v: "consumes (if \<not> ?vt then all_ok (read_v s' ?n si) ?L else all_ok (read_v_trans ?m' s' ?n si) ?L)
      ?v_bytes kv' True kv' (concat (map (v_reads ?vt T ?m ?m' s s' is ixs) ?L))"
  proof (cases ?vt)
    case True
    have "consumes (all_ok (read_v_trans ?m' s' ?n si) ?L) (concat (map (\<lambda>x. io_bytes T (write_v_trans ?m s cr x)) ?L)) kv' True kv'
        (concat (map (v_reads True T ?m ?m' s s' is ixs) ?L))"
    proof (rule consumes_all_ok_list)
      fix x assume x: "x \<in> set ?L"
      obtain l layer where e: "x = (l, layer)" by (cases x)
      have "kv_v_trans kv = True" using True by simp
      note L = L [OF x [unfolded e], unfolded this]
      show "consumes (read_v_trans ?m' s' ?n si x) (io_bytes T (write_v_trans ?m s cr x)) kv' True kv' (v_reads True T ?m ?m' s s' is ixs x)"
        unfolding e v_reads_def case_prod_conv if_True by (rule consumes_v_trans [OF L(1,2) ix(1,2) cr si(1,2) L(3,4) si(3)])
    qed
    then show ?thesis using True by (simp add: io_bytes_concat)
  next
    case False
    have "consumes (all_ok (read_v s' ?n si) ?L) (concat (map (\<lambda>x. io_bytes T (write_v s cr x)) ?L)) kv' True kv'
        (concat (map (v_reads False T ?m ?m' s s' is ixs) ?L))"
    proof (rule consumes_all_ok_list)
      fix x assume x: "x \<in> set ?L"
      obtain l layer where e: "x = (l, layer)" by (cases x)
      have "layer_ok layer" "layer_fits False T ?m s (l, layer)" using L [OF x [unfolded e]] False by auto
      from consumes_v [OF this ix(1,2) cr si(1,2)]
      show "consumes (read_v s' ?n si x) (io_bytes T (write_v s cr x)) kv' True kv' (v_reads False T ?m ?m' s s' is ixs x)"
        unfolding e v_reads_def case_prod_conv if_False .
    qed
    then show ?thesis using False by (simp add: io_bytes_concat)
  qed
  have "consumes (kv_read_data layers s' ?n si)
     (u32_bytes (if ?vt then 1 else 0) @ u32_bytes (length layers) @ io_bytes T (concat (map (write_k s cr) ?L)) @ ?ki_bytes @ ?v_bytes) kv' True kv'
     ([] @ [] @ concat (map (k_reads T s s' is ixs) ?L) @ concat (map (k_idx_reads T s s' is ixs) ?L) @ concat (map (v_reads ?vt T ?m ?m' s s' is ixs) ?L))"
    unfolding kv_read_data_def
    by (rule consumes_bind_silent [OF consumes_get], unfold case_prod_conv vt,
        intro consumes_bind [OF consumes_u32] consumes_return_unless refl consumes_bind [OF k] consumes_bind [OF ki'] v)
      (use ok(2) ix(3) in auto)
  moreover have "io_bytes T (kv_write_data kv layers s cr) =
      u32_bytes (if ?vt then 1 else 0) @ u32_bytes (length layers) @ io_bytes T (concat (map (write_k s cr) ?L)) @ ?ki_bytes @ ?v_bytes"
    by (simp add: kv_write_data_def)
  ultimately show ?thesis by (simp add: data_reads_def)
qed

end
