(* ===== verification/Kv_State_Cells.thy ===== *)
theory Kv_State_Cells
  imports Kv_State_Data Kv_Slots
begin

text \<open>
  The cells of a restored cache: \<open>state_read_meta\<close> consumes what \<open>state_write_meta\<close> wrote and
  fills the front of the stream, cell \<open>k\<close> with the position, sequences and extension of the
  \<open>k\<close>-th saved cell; the streams of a whole cache are restored one after the other.
\<close>

section \<open>The loops\<close>

lemma consumes_all_ok_fold:
  "(\<And>x s. x \<in> set xs \<Longrightarrow> consumes (f x) (b x) s True (g x s) (r x)) \<Longrightarrow>
    consumes (all_ok f xs) (concat (map b xs)) s True (fold g xs s) (concat (map r xs))"
proof (induction xs arbitrary: s)
  case (Cons x xs)
  have "consumes (all_ok f (x # xs)) (b x @ concat (map b xs)) s True (fold g xs (g x s)) (r x @ concat (map r xs))"
    unfolding all_ok.simps using Cons
    by (intro consumes_bind [of "f x" _ s True "g x s"] consumes_return_unless) auto
  then show ?case by simp
qed (simp add: consumes_ret)

lemma on_cells_on_cells:
  "s < length (v_cells kv) \<Longrightarrow> on_cells s f (on_cells s g kv) = on_cells s (\<lambda>c. f (g c)) kv"
  by (simp add: on_cells_def)

lemma on_cells_fields [simp]:
  "kv_n_pos_per_embd (on_cells s f kv) = kv_n_pos_per_embd kv" "kv_n_seq_max (on_cells s f kv) = kv_n_seq_max kv"
  "length (v_cells (on_cells s f kv)) = length (v_cells kv)" "v_heads (on_cells s f kv) = v_heads kv"
  "kv_n_stream (on_cells s f kv) = kv_n_stream kv" "kv_v_trans (on_cells s f kv) = kv_v_trans kv"
  by (simp_all add: on_cells_def)

lemma fold_on_cells:
  "s < length (v_cells kv) \<Longrightarrow> fold (\<lambda>x. on_cells s (f x)) xs kv = on_cells s (fold f xs) kv"
proof (induction xs arbitrary: kv)
  case (Cons x xs)
  then show ?case by (simp add: on_cells_on_cells)
qed (simp add: on_cells_def)

section \<open>One cell\<close>

definition cell_wire :: "llama_kv_cells \<Rightarrow> nat \<Rightarrow> bool" where
  "cell_wire c i \<longleftrightarrow> is_i32 (kc_pos c ! i) \<and> is_i32 (ext_x (kc_ext c ! i)) \<and> is_i32 (ext_y (kc_ext c ! i)) \<and>
     is_i32 (ext_tok (kc_ext c ! i))"

text \<open>Cell \<open>j\<close> of the restored stream becomes the saved cell \<open>i\<close>.\<close>

definition restore_cell :: "llama_kv_cache \<Rightarrow> llama_kv_cells \<Rightarrow> nat \<Rightarrow> nat \<Rightarrow> llama_kv_cells \<Rightarrow> llama_kv_cells" where
  "restore_cell kv c j i d =
     fold (cells_seq_add j) (cell_seq_ids kv c (-1) i)
       ((if kv_n_pos_per_embd kv > 1 then cells_ext_set j (cells_ext_get c i) else id) (cells_pos_set j (cells_pos_get c i) d))"

lemma consumes_ext: "cell_wire c i \<Longrightarrow> consumes io_read_ext (ext_bytes (kc_ext c ! i)) s (kc_ext c ! i) s []"
proof -
  assume w: "cell_wire c i"
  let ?e = "kc_ext c ! i"
  have "consumes io_read_ext (i32_bytes (ext_x ?e) @ i32_bytes (ext_y ?e) @ i32_bytes (ext_tok ?e) @ []) s
      \<lparr>ext_x = ext_x ?e, ext_y = ext_y ?e, ext_tok = ext_tok ?e\<rparr> s ([] @ [] @ [] @ [])"
    unfolding io_read_ext_def
    by (intro consumes_bind [OF consumes_i32] consumes_ret) (use w in \<open>simp_all add: cell_wire_def\<close>)
  moreover have "\<lparr>ext_x = ext_x ?e, ext_y = ext_y ?e, ext_tok = ext_tok ?e\<rparr> = ?e" by simp
  ultimately show ?thesis unfolding ext_bytes_def by (simp only: append_Nil append_Nil2)
qed

lemma consumes_seq_ids:
  assumes "\<And>s. s \<in> set ids \<Longrightarrow> s < n_seq_max" "n_seq_max \<le> 2 ^ 31" "length xs = length ids"
  shows "consumes (all_ok (read_seq_id n_seq_max strm i) xs) (concat (map (\<lambda>s. i32_bytes (int s)) ids)) kv True
    (fold (\<lambda>s. on_cells strm (cells_seq_add i s)) ids kv) []"
  using assms
proof (induction ids arbitrary: xs kv)
  case (Cons s ids)
  then obtain x xs' where x: "xs = x # xs'" "length xs' = length ids" by (cases xs) auto
  have s: "s < n_seq_max" "is_i32 (int s)" using Cons.prems(1) [of s] Cons.prems(2) by (auto simp: is_i32_def)
  have "consumes (read_seq_id n_seq_max strm i x) (i32_bytes (int s) @ ([] @ [])) kv True (on_cells strm (cells_seq_add i (nat (int s))) kv) ([] @ ([] @ []))"
    unfolding read_seq_id_def using s
    by (intro consumes_bind [OF consumes_i32] consumes_return_unless consumes_bind [OF consumes_modify consumes_ret]) simp_all
  moreover have "consumes (all_ok (read_seq_id n_seq_max strm i) xs') (concat (map (\<lambda>s. i32_bytes (int s)) ids))
      (on_cells strm (cells_seq_add i s) kv) True (fold (\<lambda>s. on_cells strm (cells_seq_add i s)) ids (on_cells strm (cells_seq_add i s) kv)) []"
    using Cons.prems x by (intro Cons.IH) auto
  ultimately have "consumes (all_ok (read_seq_id n_seq_max strm i) xs) (i32_bytes (int s) @ concat (map (\<lambda>s. i32_bytes (int s)) ids)) kv True
    (fold (\<lambda>s. on_cells strm (cells_seq_add i s)) ids (on_cells strm (cells_seq_add i s) kv)) ([] @ [])"
    unfolding x all_ok.simps by (intro consumes_bind consumes_return_unless) simp_all
  then show ?case by simp
qed (simp add: consumes_ret)

lemma consumes_cell:
  assumes w: "cell_wire c i" and n: "kv_n_seq_max kv \<le> 2 ^ 31" and s: "strm < length (v_cells dst)"
  shows "consumes (read_cell (kv_n_pos_per_embd kv) (kv_n_seq_max kv) strm j) (io_bytes T (write_cell_meta kv c (-1) i)) dst True
    (on_cells strm (restore_cell kv c j i) dst) []"
proof -
  let ?ids = "cell_seq_ids kv c (-1) i" let ?n_pos = "kv_n_pos_per_embd kv"
  let ?d1 = "on_cells strm (cells_pos_set j (cells_pos_get c i)) dst"
  let ?d2 = "if ?n_pos > 1 then on_cells strm (cells_ext_set j (cells_ext_get c i)) ?d1 else ?d1"
  have len: "length ?ids < 2 ^ 32"
  proof -
    have "length ?ids \<le> kv_n_seq_max kv"
      unfolding cell_seq_ids_def by (rule order_trans [OF length_filter_le]) simp
    with n show ?thesis by simp
  qed
  have e: "consumes (if ?n_pos > 1 then bindS io_read_ext (\<lambda>e. modifyS (on_cells strm (cells_ext_set j e))) else retS ())
      (if ?n_pos > 1 then ext_bytes (cells_ext_get c i) else []) ?d1 () ?d2 []"
  proof (cases "?n_pos > 1")
    case True
    have "consumes (bindS io_read_ext (\<lambda>e. modifyS (on_cells strm (cells_ext_set j e)))) (ext_bytes (kc_ext c ! i) @ []) ?d1 ()
      (on_cells strm (cells_ext_set j (kc_ext c ! i)) ?d1) ([] @ [])"
      by (intro consumes_bind [OF consumes_ext [OF w] consumes_modify])
    with True show ?thesis by (simp add: cells_ext_get_def)
  qed (simp add: consumes_ret)
  have "consumes (read_cell ?n_pos (kv_n_seq_max kv) strm j)
     (i32_bytes (cells_pos_get c i) @ u32_bytes (length ?ids) @ [] @ (if ?n_pos > 1 then ext_bytes (cells_ext_get c i) else []) @
      concat (map (\<lambda>s. i32_bytes (int s)) ?ids)) dst True (fold (\<lambda>s. on_cells strm (cells_seq_add j s)) ?ids ?d2) ([] @ [] @ [] @ [] @ [])"
    unfolding read_cell_def
    by (intro consumes_bind [OF consumes_i32] consumes_bind [OF consumes_u32] consumes_bind [OF consumes_modify] consumes_bind [OF e] consumes_seq_ids)
      (use w len n in \<open>auto simp: cell_wire_def cells_pos_get_def cell_seq_ids_def\<close>)
  moreover have "io_bytes T (write_cell_meta kv c (-1) i) = i32_bytes (cells_pos_get c i) @ u32_bytes (length ?ids) @ [] @
      (if ?n_pos > 1 then ext_bytes (cells_ext_get c i) else []) @ concat (map (\<lambda>s. i32_bytes (int s)) ?ids)"
  proof -
    have "io_bytes T (map (\<lambda>s. Io_Write (i32_bytes (int s))) xs) = concat (map (\<lambda>s. i32_bytes (int s)) xs)" for xs :: "nat list"
      by (induction xs) auto
    then show ?thesis by (simp add: write_cell_meta_def Let_def)
  qed
  moreover have "fold (\<lambda>s. on_cells strm (cells_seq_add j s)) ?ids ?d2 = on_cells strm (restore_cell kv c j i) dst"
    using s by (simp add: fold_on_cells on_cells_on_cells restore_cell_def [abs_def])
  ultimately show ?thesis by simp
qed

section \<open>The cells of a stream\<close>

definition fill_cells :: "llama_kv_cache \<Rightarrow> llama_kv_cells \<Rightarrow> nat list \<Rightarrow> llama_kv_cells \<Rightarrow> llama_kv_cells" where
  "fill_cells kv c is = fold (\<lambda>j. restore_cell kv c j (is ! j)) [0..<length is]"

lemma consumes_cells:
  assumes w: "\<And>i. i \<in> set is \<Longrightarrow> cell_wire c i" and n: "kv_n_seq_max kv \<le> 2 ^ 31" and s: "strm < length (v_cells dst)"
  shows "consumes (all_ok (read_cell (kv_n_pos_per_embd kv) (kv_n_seq_max kv) strm) [0..<length is])
    (io_bytes T (concat (map (write_cell_meta kv c (-1)) is))) dst True (on_cells strm (fill_cells kv c is) dst) []"
proof -
  have "consumes (all_ok (read_cell (kv_n_pos_per_embd kv) (kv_n_seq_max kv) strm) [0..<k])
    (concat (map (\<lambda>j. io_bytes T (write_cell_meta kv c (-1) (is ! j))) [0..<k])) dst True
    (on_cells strm (fold (\<lambda>j. restore_cell kv c j (is ! j)) [0..<k]) dst) []" if "k \<le> length is" for k
  proof -
    let ?st = "\<lambda>j. on_cells strm (fold (\<lambda>j. restore_cell kv c j (is ! j)) [0..<j]) dst"
    have "consumes (read_cell (kv_n_pos_per_embd kv) (kv_n_seq_max kv) strm ([0..<k] ! j))
      (io_bytes T (write_cell_meta kv c (-1) (is ! j))) (?st j) True (?st (Suc j)) []" if "j < length [0..<k]" for j
      using consumes_cell [OF w n, of "is ! j" strm "?st j" j T] s that \<open>k \<le> length is\<close>
      by (simp add: on_cells_on_cells comp_def)
    then have "consumes (all_ok (read_cell (kv_n_pos_per_embd kv) (kv_n_seq_max kv) strm) [0..<k])
      (concat (map (\<lambda>j. io_bytes T (write_cell_meta kv c (-1) (is ! j))) [0..<length [0..<k]])) (?st 0) True (?st (length [0..<k]))
      (concat (map (\<lambda>_. []) [0..<length [0..<k]]))"
      by (rule consumes_all_ok)
    moreover have "concat (map (\<lambda>_. []) xs) = ([] :: (kv_tensor \<times> nat \<times> octet list) list)" for xs :: "nat list" by (induction xs) auto
    ultimately show ?thesis by (simp add: on_cells_def)
  qed
  from this [of "length is"] have "consumes (all_ok (read_cell (kv_n_pos_per_embd kv) (kv_n_seq_max kv) strm) [0..<length is])
    (concat (map (\<lambda>j. io_bytes T (write_cell_meta kv c (-1) (is ! j))) [0..<length is])) dst True (on_cells strm (fill_cells kv c is) dst) []"
    by (simp add: fill_cells_def)
  moreover have "map (\<lambda>j. io_bytes T (write_cell_meta kv c (-1) (is ! j))) [0..<length is] = map (\<lambda>i. io_bytes T (write_cell_meta kv c (-1) i)) is"
    by (rule nth_equalityI) auto
  ultimately show ?thesis by (simp add: io_bytes_concat)
qed

text \<open>The restored cells, over an empty stream that is large enough.\<close>

definition cells_filled :: "llama_kv_cache \<Rightarrow> llama_kv_cells \<Rightarrow> nat list \<Rightarrow> llama_kv_cells \<Rightarrow> bool" where
  "cells_filled kv c is d \<longleftrightarrow> cells_ok d \<and> \<not> kc_has_shift d \<and> (\<forall>j < length (kc_pos d). kc_shift d ! j = 0) \<and>
     (\<forall>j < length (kc_pos d).
        if j < length is
        then kc_pos d ! j = kc_pos c ! (is ! j) \<and> kc_seq d ! j = kc_seq c ! (is ! j) \<inter> {..<kv_n_seq_max kv} \<and>
          kc_ext d ! j = (if kv_n_pos_per_embd kv > 1 then kc_ext c ! (is ! j) else ext_default)
        else kc_pos d ! j = -1 \<and> kc_seq d ! j = {} \<and> kc_ext d ! j = ext_default)"

lemma filled_step:
  assumes f: "cells_filled kv c is d" and i: "0 \<le> kc_pos c ! i" "kc_seq c ! i \<subseteq> {..<LLAMA_MAX_SEQ}" and l: "length is < length (kc_pos d)"
  shows "cells_filled kv c (is @ [i]) (restore_cell kv c (length is) i d)" "length (kc_pos (restore_cell kv c (length is) i d)) = length (kc_pos d)"
proof -
  let ?j = "length is" let ?ids = "cell_seq_ids kv c (-1) i"
  define d1 where "d1 = cells_pos_set ?j (kc_pos c ! i) d"
  define d2 where "d2 = (if kv_n_pos_per_embd kv > 1 then cells_ext_set ?j (kc_ext c ! i) d1 else d1)"
  have d: "cells_ok d" and e: "kc_pos d ! ?j = -1" "kc_seq d ! ?j = {}" "kc_ext d ! ?j = ext_default"
    using f l by (auto simp: cells_filled_def)
  note D = cells_okD [OF d]
  have "cells_ok d1" unfolding d1_def by (rule cells_ok_pos_set [OF d l e(1) i(1)])
  then have ok2: "cells_ok d2" by (simp add: d2_def cells_ok_ext_set)
  have f2: "kc_pos d2 = (kc_pos d)[?j := kc_pos c ! i]" "kc_seq d2 = kc_seq d" "kc_shift d2 = kc_shift d" "kc_has_shift d2 = kc_has_shift d"
    "kc_ext d2 = (if kv_n_pos_per_embd kv > 1 then (kc_ext d)[?j := kc_ext c ! i] else kc_ext d)"
    by (simp_all add: d2_def d1_def)
  have r: "restore_cell kv c ?j i d = fold (cells_seq_add ?j) ?ids d2"
    by (simp add: restore_cell_def d2_def d1_def cells_pos_get_def cells_ext_get_def)
  have ids: "set ?ids = kc_seq c ! i \<inter> {..<kv_n_seq_max kv}" "distinct ?ids"
    by (auto simp: cell_seq_ids_def cells_seq_has_def)
  have F: "cells_ok (fold (cells_seq_add ?j) ?ids d2) \<and>
    kc_seq (fold (cells_seq_add ?j) ?ids d2) = (kc_seq d2)[?j := set ?ids \<union> kc_seq d2 ! ?j] \<and>
    kc_pos (fold (cells_seq_add ?j) ?ids d2) = kc_pos d2 \<and> kc_ext (fold (cells_seq_add ?j) ?ids d2) = kc_ext d2 \<and>
    kc_shift (fold (cells_seq_add ?j) ?ids d2) = kc_shift d2 \<and> kc_has_shift (fold (cells_seq_add ?j) ?ids d2) = kc_has_shift d2"
    using ok2 f2 l i e ids by (intro fold_seq_add_cell) auto
  show len: "length (kc_pos (restore_cell kv c ?j i d)) = length (kc_pos d)" using F f2 by (simp add: r)
  have "kc_seq d2 ! ?j = {}" using f2 e by simp
  note F' = F [unfolded this ids Un_empty_right]
  show "cells_filled kv c (is @ [i]) (restore_cell kv c ?j i d)"
    unfolding cells_filled_def len
  proof (intro conjI allI impI)
    show "cells_ok (restore_cell kv c ?j i d)" "\<not> kc_has_shift (restore_cell kv c ?j i d)"
      using F f f2 by (simp_all add: r cells_filled_def)
    fix j assume j: "j < length (kc_pos d)"
    show "kc_shift (restore_cell kv c ?j i d) ! j = 0" using F f f2 j by (simp add: r cells_filled_def)
    show "if j < length (is @ [i])
        then kc_pos (restore_cell kv c ?j i d) ! j = kc_pos c ! ((is @ [i]) ! j) \<and>
          kc_seq (restore_cell kv c ?j i d) ! j = kc_seq c ! ((is @ [i]) ! j) \<inter> {..<kv_n_seq_max kv} \<and>
          kc_ext (restore_cell kv c ?j i d) ! j = (if kv_n_pos_per_embd kv > 1 then kc_ext c ! ((is @ [i]) ! j) else ext_default)
        else kc_pos (restore_cell kv c ?j i d) ! j = -1 \<and> kc_seq (restore_cell kv c ?j i d) ! j = {} \<and>
          kc_ext (restore_cell kv c ?j i d) ! j = ext_default"
    proof (cases "j = ?j")
      case True
      then show ?thesis using F' f2 e l D(1,3) by (simp add: r)
    next
      case False
      then show ?thesis using F' f2 f j by (auto simp: r cells_filled_def nth_append)
    qed
  qed
qed

lemma filled_cells:
  assumes "cells_filled kv c [] d" "\<And>i. i \<in> set is \<Longrightarrow> 0 \<le> kc_pos c ! i \<and> kc_seq c ! i \<subseteq> {..<LLAMA_MAX_SEQ}" "length is \<le> length (kc_pos d)"
  shows "cells_filled kv c is (fill_cells kv c is d) \<and> length (kc_pos (fill_cells kv c is d)) = length (kc_pos d)"
proof -
  have "cells_filled kv c (take k is) (fold (\<lambda>j. restore_cell kv c j (is ! j)) [0..<k] d) \<and>
    length (kc_pos (fold (\<lambda>j. restore_cell kv c j (is ! j)) [0..<k] d)) = length (kc_pos d)" if "k \<le> length is" for k
    using that
  proof (induction k)
    case (Suc k)
    let ?d = "fold (\<lambda>j. restore_cell kv c j (is ! j)) [0..<k] d"
    have IH: "cells_filled kv c (take k is) ?d" "length (kc_pos ?d) = length (kc_pos d)" using Suc by simp_all
    have k: "length (take k is) = k" "take (Suc k) is = take k is @ [is ! k]" using Suc.prems by (simp_all add: take_Suc_conv_app_nth)
    have "is ! k \<in> set is" using Suc.prems by simp
    with assms(2) have "0 \<le> kc_pos c ! (is ! k)" "kc_seq c ! (is ! k) \<subseteq> {..<LLAMA_MAX_SEQ}" by auto
    from filled_step [OF IH(1) this] IH(2) k Suc.prems assms(3) show ?case by simp
  qed (simp add: assms(1))
  from this [of "length is"] show ?thesis by (simp add: fill_cells_def)
qed

lemma filled_reset: "cells_ok c' \<Longrightarrow> cells_filled kv c [] (cells_reset c')"
proof -
  assume ok: "cells_ok c'"
  then have "cells_ok (cells_reset c')"
    using cells_okD(10) [OF ok] by (intro cells_ok_reset) (auto simp: cells_index_ok_def)
  then show ?thesis by (simp add: cells_filled_def cells_reset_def Let_def)
qed

text \<open>Whatever is filled in, the stream keeps its size.\<close>

lemma fill_cells_length: "length (kc_pos (fill_cells kv c is d)) = length (kc_pos d)"
proof -
  have a: "length (kc_pos (fold (cells_seq_add j) ids d)) = length (kc_pos d)" for j ids d
    by (induction ids arbitrary: d) simp_all
  have "length (kc_pos (restore_cell kv c j i d)) = length (kc_pos d)" for j i d
    by (simp add: restore_cell_def a)
  then have "length (kc_pos (fold (\<lambda>j. restore_cell kv c j (is ! j)) js d)) = length (kc_pos d)" for js
    by (induction js arbitrary: d) simp_all
  then show ?thesis by (simp add: fill_cells_def)
qed

end
