(* ===== verification/Kv_State_Rows.thy ===== *)
theory Kv_State_Rows
  imports Kv_State_Cells
begin

text \<open>
  What the tensor reads of a restored stream do: they stay inside the tensors, do not overlap,
  bring the row of every saved cell to its restored cell and leave all other rows alone.
\<close>

section \<open>The reads of one tensor\<close>

lemma contiguousD: "contiguous ixs \<Longrightarrow> i < length ixs \<Longrightarrow> ixs ! i = ixs ! 0 + i"
  by (simp add: contiguous_def list_all_iff)

lemma contiguous_set: "contiguous ixs \<Longrightarrow> set ixs = {ixs ! 0..<ixs ! 0 + length ixs}"
proof (rule set_eqI)
  fix x assume c: "contiguous ixs"
  show "x \<in> set ixs \<longleftrightarrow> x \<in> {ixs ! 0..<ixs ! 0 + length ixs}"
  proof
    assume "x \<in> {ixs ! 0..<ixs ! 0 + length ixs}"
    then have "x - ixs ! 0 < length ixs" "x = ixs ! 0 + (x - ixs ! 0)" by auto
    with contiguousD [OF c this(1)] show "x \<in> set ixs" by (metis nth_mem)
  qed (auto simp: in_set_conv_nth contiguousD [OF c])
qed

text \<open>Every read covers whole rows of restored cells.\<close>

lemma slot_reads_rows:
  assumes r: "(t', off, b) \<in> set (slot_reads ixs t base row bs)" and n: "0 < length ixs" and bs: "length bs = length ixs * row"
  shows "\<exists>i n. t' = t \<and> off = base + i * row \<and> length b = n * row \<and> 0 < n \<and> {i..<i + n} \<subseteq> set ixs"
proof (cases "contiguous ixs")
  case True
  then have "t' = t" "off = base + ixs ! 0 * row" "b = bs" using r by (simp_all add: slot_reads_def)
  with contiguous_set [OF True] n bs show ?thesis by (intro exI [of _ "ixs ! 0"] exI [of _ "length ixs"]) simp
next
  case False
  then obtain k where k: "k < length ixs" "t' = t" "off = base + ixs ! k * row" "b = slice bs (k * row) row"
    using r by (auto simp: slot_reads_def)
  have "length b = row" using row_bound [OF k(1), of row "length bs"] bs by (simp add: k(4))
  moreover have "{ixs ! k..<ixs ! k + 1} \<subseteq> set ixs" using k(1) by simp
  ultimately show ?thesis using k by (intro exI [of _ "ixs ! k"] exI [of _ 1]) simp
qed

lemma slot_reads_inside:
  assumes r: "(t', off, b) \<in> set (slot_reads ixs t base row bs)" and n: "0 < length ixs" and bs: "length bs = length ixs * row"
    and m: "\<And>i. i \<in> set ixs \<Longrightarrow> i < m"
  shows "t' = t" "base \<le> off" "off + length b \<le> base + m * row"
proof -
  from slot_reads_rows [OF r n bs] obtain i k where i: "t' = t" "off = base + i * row" "length b = k * row" "0 < k" "{i..<i + k} \<subseteq> set ixs" by blast
  show "t' = t" "base \<le> off" using i by simp_all
  have "i + k - 1 \<in> set ixs" using i(4,5) by auto
  from m [OF this] i(4) have "(i + k) * row \<le> m * row" by (intro mult_right_mono) auto
  then show "off + length b \<le> base + m * row" using i by (simp add: algebra_simps)
qed

lemma slot_reads_spare:
  assumes r: "(t', off, b) \<in> set (slot_reads ixs t base row bs)" and n: "0 < length ixs" and bs: "length bs = length ixs * row"
    and i: "i \<notin> set ixs"
  shows "off + length b \<le> base + i * row \<or> base + i * row + row \<le> off"
proof -
  from slot_reads_rows [OF r n bs] obtain j k where j: "off = base + j * row" "length b = k * row" "{j..<j + k} \<subseteq> set ixs" by blast
  then have "i < j \<or> j + k \<le> i" using i by (meson atLeastLessThan_iff not_le subsetD)
  then show ?thesis
  proof
    assume "i < j"
    then have "Suc i * row \<le> j * row" by (intro mult_right_mono) auto
    then show ?thesis using j by simp
  next
    assume "j + k \<le> i"
    then have "(j + k) * row \<le> i * row" by (rule mult_right_mono) simp
    then show ?thesis using j by (simp add: algebra_simps)
  qed
qed

lemma slot_reads_apart:
  assumes d: "distinct ixs" and bs: "length bs = length ixs * row"
  shows "sorted_wrt apart (slot_reads ixs t base row bs)"
proof (cases "contiguous ixs")
  case False
  have "apart (t, base + ixs ! i * row, slice bs (i * row) row) (t, base + ixs ! j * row, slice bs (j * row) row)"
    if "i < j" "j < length ixs" for i j
  proof -
    have l: "length (slice bs (k * row) row) = row" if "k < length ixs" for k
      using row_bound [OF that, of row "length bs"] bs by simp
    have "ixs ! i \<noteq> ixs ! j" using d that by (simp add: nth_eq_iff_index_eq)
    then have "Suc (ixs ! i) \<le> ixs ! j \<or> Suc (ixs ! j) \<le> ixs ! i" by linarith
    then have "Suc (ixs ! i) * row \<le> ixs ! j * row \<or> Suc (ixs ! j) * row \<le> ixs ! i * row"
      using mult_right_mono [of _ _ row] by blast
    then show ?thesis using l [of i] l [of j] that by (auto simp: apart_def)
  qed
  with False show ?thesis by (simp add: slot_reads_def sorted_wrt_map sorted_wrt_iff_nth_less)
qed (simp add: slot_reads_def)

text \<open>Once the reads are done, row \<open>k\<close> is in the \<open>k\<close>-th cell.\<close>

lemma slot_reads_landed:
  assumes land: "\<And>t' off b. (t', off, b) \<in> set (slot_reads ixs t base row bs) \<Longrightarrow> slice (U t') off (length b) = b"
    and bs: "length bs = length ixs * row" and k: "k < length ixs"
  shows "slice (U t) (base + ixs ! k * row) row = slice bs (k * row) row"
proof (cases "contiguous ixs")
  case True
  have "slice (U t) (base + ixs ! 0 * row) (length ixs * row) = bs"
    using land [of t "base + ixs ! 0 * row" bs] True bs by (simp add: slot_reads_def)
  moreover have "slice (slice (U t) (base + ixs ! 0 * row) (length ixs * row)) (k * row) row = slice (U t) (base + ixs ! 0 * row + k * row) row"
    using row_bound [OF k order_refl, of row] by (rule slice_slice)
  ultimately show ?thesis using contiguousD [OF True k] by (simp add: algebra_simps)
next
  case False
  have "length (slice bs (k * row) row) = row" using row_bound [OF k, of row "length bs"] bs by simp
  moreover have "(t, base + ixs ! k * row, slice bs (k * row) row) \<in> set (slot_reads ixs t base row bs)"
    using False k by (auto simp: slot_reads_def)
  ultimately show ?thesis using land by fastforce
qed

section \<open>All layers\<close>

lemma sorted_wrt_concat:
  assumes "\<forall>x \<in> set xs. sorted_wrt R (f x)" "sorted_wrt (\<lambda>x y. \<forall>a \<in> set (f x). \<forall>b \<in> set (f y). R a b) xs"
  shows "sorted_wrt R (concat (map f xs))"
  using assms by (induction xs) (auto simp: sorted_wrt_append)

fun tensor_stream :: "kv_tensor \<Rightarrow> nat" where
  "tensor_stream (K_Stream l s) = s" | "tensor_stream (K_Idx_Stream l s) = s" | "tensor_stream (V_Stream l s) = s"

lemma apart_tensors: "fst a \<noteq> fst b \<Longrightarrow> apart a b"
  by (cases a; cases b) (simp add: apart_def)

lemma numbered_sorted: "sorted_wrt (\<lambda>x y. fst x \<noteq> fst y) (numbered xs)"
proof -
  have "sorted_wrt (<) (map fst (numbered xs))" by (simp add: numbered_def)
  then have "sorted_wrt (\<lambda>x y. fst x < fst y) (numbered xs)" by (simp add: sorted_wrt_map)
  then show ?thesis by (rule sorted_wrt_mono_rel [rotated]) simp
qed

lemma numbered_apart:
  assumes "\<And>x. x \<in> set (numbered xs) \<Longrightarrow> sorted_wrt apart (f x)" "\<And>x r. x \<in> set (numbered xs) \<Longrightarrow> r \<in> set (f x) \<Longrightarrow> fst r = g (fst x)"
    "\<And>l l'. g l = g l' \<Longrightarrow> l = l'"
  shows "sorted_wrt apart (concat (map f (numbered xs)))"
proof (rule sorted_wrt_concat)
  have "\<forall>a \<in> set (f x). \<forall>b \<in> set (f y). apart a b" if "x \<in> set (numbered xs)" "y \<in> set (numbered xs)" "fst x \<noteq> fst y" for x y
  proof (intro ballI apart_tensors)
    fix a b assume "a \<in> set (f x)" "b \<in> set (f y)"
    with assms(2) [OF that(1)] assms(2) [OF that(2)] assms(3) that(3) show "fst a \<noteq> fst b" by metis
  qed
  with numbered_sorted [of xs] show "sorted_wrt (\<lambda>x y. \<forall>a \<in> set (f x). \<forall>b \<in> set (f y). apart a b) (numbered xs)"
    by (rule sorted_wrt_mono_rel [rotated]) blast
qed (simp add: assms(1))

text \<open>A saved stream \<open>s\<close> of \<open>m\<close> cells, read into the cells \<open>ixs\<close> of a stream of \<open>m'\<close> cells.\<close>

definition reads_ok ::
  "bool \<Rightarrow> kv_layer list \<Rightarrow> kv_tensor tensors \<Rightarrow> kv_tensor tensors \<Rightarrow> nat \<Rightarrow> nat \<Rightarrow> nat \<Rightarrow> nat \<Rightarrow> nat list \<Rightarrow> nat list \<Rightarrow> bool" where
  "reads_ok vt layers T T' m m' s s' is ixs \<longleftrightarrow> length ixs = length is \<and> 0 < length is \<and> distinct ixs \<and>
     (\<forall>i \<in> set is. i < m) \<and> (\<forall>i \<in> set ixs. i < m') \<and>
     (\<forall>x \<in> set (numbered layers). layer_fits vt T m s x \<and> layer_fits vt T' m' s' x)"

lemma rows_of_len: "(\<And>i. i \<in> set is \<Longrightarrow> i < m) \<Longrightarrow> m * row \<le> length t \<Longrightarrow> length (rows_of t 0 row is) = length is * row"
  using row_bound [of _ m row] by (intro length_rows_of) auto

lemma v_rows_length:
  assumes "\<And>i. i \<in> set is \<Longrightarrow> i < m" "j < ne" "m * ne * el \<le> length t"
  shows "length (rows_of t (j * m * el) el is) = length is * el"
  using trans_bound [OF assms(1) assms(2,3)] by (intro length_rows_of) (auto simp: algebra_simps)

text \<open>Every read of a layer is one of its tensors, with rows of the right number and size.\<close>

inductive layer_read ::
  "bool \<Rightarrow> kv_tensor tensors \<Rightarrow> nat \<Rightarrow> nat \<Rightarrow> nat \<Rightarrow> nat \<Rightarrow> nat list \<Rightarrow> nat \<times> kv_layer \<Rightarrow> kv_tensor \<Rightarrow> nat \<Rightarrow> nat \<Rightarrow> octet list \<Rightarrow> bool"
  for vt T m m' s s' "is" where
  read_K: "layer_read vt T m m' s s' is (l, layer) (K_Stream l s') 0 (kl_k_size_row layer)
    (rows_of (T (K_Stream l s)) 0 (kl_k_size_row layer) is)"
| read_I: "kl_k_idx layer = Some ki \<Longrightarrow> layer_read vt T m m' s s' is (l, layer) (K_Idx_Stream l s') 0 (ki_size_row ki)
    (rows_of (T (K_Idx_Stream l s)) 0 (ki_size_row ki) is)"
| read_V: "kl_v layer = Some vi \<Longrightarrow> \<not> vt \<Longrightarrow> layer_read vt T m m' s s' is (l, layer) (V_Stream l s') 0 (vi_size_row vi)
    (rows_of (T (V_Stream l s)) 0 (vi_size_row vi) is)"
| read_W: "kl_v layer = Some vi \<Longrightarrow> vt \<Longrightarrow> j < vi_n_embd_gqa vi \<Longrightarrow> layer_read vt T m m' s s' is (l, layer) (V_Stream l s')
    (j * m' * vi_size_el vi) (vi_size_el vi) (rows_of (T (V_Stream l s)) (j * m * vi_size_el vi) (vi_size_el vi) is)"

inductive_simps layer_read_K_iff: "layer_read vt T m m' s s' is x (K_Stream l u) base row bs"
inductive_simps layer_read_I_iff: "layer_read vt T m m' s s' is x (K_Idx_Stream l u) base row bs"
inductive_simps layer_read_V_iff: "layer_read vt T m m' s s' is x (V_Stream l u) base row bs"

lemma data_reads_layer:
  assumes "r \<in> set (data_reads vt layers T m m' s s' is ixs)"
  obtains x t base row bs where "x \<in> set (numbered layers)" "layer_read vt T m m' s s' is x t base row bs" "r \<in> set (slot_reads ixs t base row bs)"
proof -
  from assms obtain l layer where x: "(l, layer) \<in> set (numbered layers)"
    and r: "r \<in> set (k_reads T s s' is ixs (l, layer)) \<union> set (k_idx_reads T s s' is ixs (l, layer)) \<union> set (v_reads vt T m m' s s' is ixs (l, layer))"
    by (auto simp: data_reads_def)
  from r have "\<exists>t base row bs. layer_read vt T m m' s s' is (l, layer) t base row bs \<and> r \<in> set (slot_reads ixs t base row bs)"
  proof (elim UnE)
    assume "r \<in> set (k_reads T s s' is ixs (l, layer))"
    then show ?thesis unfolding k_reads_def case_prod_conv by (blast intro: read_K)
  next
    assume i: "r \<in> set (k_idx_reads T s s' is ixs (l, layer))"
    show ?thesis
    proof (cases "kl_k_idx layer")
      case (Some ki)
      from i read_I [OF Some] show ?thesis unfolding k_idx_reads_def Some case_prod_conv option.case by blast
    qed (use i in \<open>simp add: k_idx_reads_def\<close>)
  next
    assume v: "r \<in> set (v_reads vt T m m' s s' is ixs (l, layer))"
    show ?thesis
    proof (cases "kl_v layer")
      case (Some vi)
      show ?thesis
      proof (cases vt)
        case True
        with v obtain j where "j < vi_n_embd_gqa vi" "r \<in> set (slot_reads ixs (V_Stream l s') (j * m' * vi_size_el vi) (vi_size_el vi)
            (rows_of (T (V_Stream l s)) (j * m * vi_size_el vi) (vi_size_el vi) is))"
          by (auto simp: v_reads_def Some)
        with read_W [OF Some True this(1)] show ?thesis by blast
      next
        case False
        with v read_V [OF Some False] show ?thesis
          unfolding v_reads_def Some case_prod_conv option.case if_not_P [OF False] by blast
      qed
    qed (use v in \<open>simp add: v_reads_def\<close>)
  qed
  with x show ?thesis using that by blast
qed

lemma layer_read_data:
  assumes "layer_read vt T m m' s s' is x t base row bs" "x \<in> set (numbered layers)"
  shows "set (slot_reads ixs t base row bs) \<subseteq> set (data_reads vt layers T m m' s s' is ixs)"
proof -
  have "set (slot_reads ixs t base row bs) \<subseteq>
      set (k_reads T s s' is ixs x) \<union> set (k_idx_reads T s s' is ixs x) \<union> set (v_reads vt T m m' s s' is ixs x)"
    using assms(1) by cases (auto simp: k_reads_def k_idx_reads_def v_reads_def)
  with assms(2) show ?thesis by (auto simp: data_reads_def)
qed

lemma layer_read_fits:
  assumes ok: "reads_ok vt layers T T' m m' s s' is ixs" and x: "x \<in> set (numbered layers)" and r: "layer_read vt T m m' s s' is x t base row bs"
  shows "length bs = length ixs * row" "base + m' * row \<le> length (T' t)" "tensor_stream t = s'"
proof -
  have n: "length ixs = length is" and i: "\<And>i. i \<in> set is \<Longrightarrow> i < m" and f: "layer_fits vt T m s x" "layer_fits vt T' m' s' x"
    using ok x by (auto simp: reads_ok_def)
  from r f have "length bs = length ixs * row \<and> base + m' * row \<le> length (T' t) \<and> tensor_stream t = s'"
  proof cases
    case (read_W layer vi j l)
    let ?el = "vi_size_el vi"
    have "Suc j * m' \<le> vi_n_embd_gqa vi * m'" using read_W by (intro mult_right_mono) auto
    then have "Suc j * m' * ?el \<le> vi_n_embd_gqa vi * m' * ?el" by (rule mult_right_mono) simp
    then have "j * m' * ?el + m' * ?el \<le> m' * vi_n_embd_gqa vi * ?el" by (simp add: algebra_simps)
    then show ?thesis using read_W f n v_rows_length [OF i, of "is" j "vi_n_embd_gqa vi" ?el] by (simp add: layer_fits_def)
  qed (use n rows_of_len [OF i] in \<open>simp_all add: layer_fits_def\<close>)
  then show "length bs = length ixs * row" "base + m' * row \<le> length (T' t)" "tensor_stream t = s'" by simp_all
qed

text \<open>The reads stay inside the tensors of the stream and keep apart.\<close>

lemma data_reads_fit:
  assumes ok: "reads_ok vt layers T T' m m' s s' is ixs" and r: "r \<in> set (data_reads vt layers T m m' s s' is ixs)"
  shows "rfit T' r" "tensor_stream (fst r) = s'"
proof -
  obtain x t base row bs where l: "x \<in> set (numbered layers)" "layer_read vt T m m' s s' is x t base row bs" "r \<in> set (slot_reads ixs t base row bs)"
    using r by (rule data_reads_layer)
  obtain t' off b where e: "r = (t', off, b)" by (cases r) auto
  note f = layer_read_fits [OF ok l(1,2)]
  have n: "0 < length ixs" "\<And>i. i \<in> set ixs \<Longrightarrow> i < m'" using ok by (auto simp: reads_ok_def)
  from slot_reads_inside [OF l(3) [unfolded e] n(1) f(1) n(2)] f(2,3)
  show "rfit T' r" "tensor_stream (fst r) = s'" by (auto simp: e rfit_def)
qed

lemma k_reads_tensor: "r \<in> set (k_reads T s s' is ixs x) \<Longrightarrow> fst r = K_Stream (fst x) s'"
  by (cases x) (auto simp: k_reads_def slot_reads_def split: if_splits)

lemma k_idx_reads_tensor: "r \<in> set (k_idx_reads T s s' is ixs x) \<Longrightarrow> fst r = K_Idx_Stream (fst x) s'"
  by (cases x) (auto simp: k_idx_reads_def slot_reads_def split: option.splits if_splits)

lemma v_reads_tensor: "r \<in> set (v_reads vt T m m' s s' is ixs x) \<Longrightarrow> fst r = V_Stream (fst x) s'"
  by (cases x) (auto simp: v_reads_def slot_reads_def split: option.splits if_splits)

lemma data_reads_apart:
  assumes ok: "reads_ok vt layers T T' m m' s s' is ixs"
  shows "sorted_wrt apart (data_reads vt layers T m m' s s' is ixs)"
proof -
  let ?L = "numbered layers"
  have n: "0 < length ixs" "distinct ixs" "\<And>i. i \<in> set ixs \<Longrightarrow> i < m'" using ok by (auto simp: reads_ok_def)
  have one: "sorted_wrt apart (slot_reads ixs t base row bs)" if "x \<in> set ?L" "layer_read vt T m m' s s' is x t base row bs" for x t base row bs
    by (rule slot_reads_apart [OF n(2) layer_read_fits(1) [OF ok that]])
  have k: "sorted_wrt apart (concat (map (k_reads T s s' is ixs) ?L))"
  proof (rule numbered_apart [where g = "\<lambda>l. K_Stream l s'"])
    fix x assume "x \<in> set ?L"
    from one [OF this] show "sorted_wrt apart (k_reads T s s' is ixs x)" by (cases x) (simp add: k_reads_def read_K)
  qed (auto dest: k_reads_tensor)
  have ki: "sorted_wrt apart (concat (map (k_idx_reads T s s' is ixs) ?L))"
  proof (rule numbered_apart [where g = "\<lambda>l. K_Idx_Stream l s'"])
    fix x assume "x \<in> set ?L"
    from one [OF this] show "sorted_wrt apart (k_idx_reads T s s' is ixs x)"
      by (cases x) (simp add: k_idx_reads_def read_I split: option.split)
  qed (auto dest: k_idx_reads_tensor)
  have v: "sorted_wrt apart (concat (map (v_reads vt T m m' s s' is ixs) ?L))"
  proof (rule numbered_apart [where g = "\<lambda>l. V_Stream l s'"])
    fix x assume x: "x \<in> set ?L"
    obtain l layer where e: "x = (l, layer)" by (cases x)
    show "sorted_wrt apart (v_reads vt T m m' s s' is ixs x)"
    proof (cases "kl_v layer")
      case (Some vi)
      let ?el = "vi_size_el vi"
      let ?f = "\<lambda>j. slot_reads ixs (V_Stream l s') (j * m' * ?el) ?el (rows_of (T (V_Stream l s)) (j * m * ?el) ?el is)"
      have row: "layer_read vt T m m' s s' is x (V_Stream l s') (j * m' * ?el) ?el (rows_of (T (V_Stream l s)) (j * m * ?el) ?el is)"
        if "vt" "j < vi_n_embd_gqa vi" for j
        unfolding e using that by (intro read_W [OF Some])
      have "apart a b" if j: "vt" "i < j" "j < vi_n_embd_gqa vi" and ab: "a \<in> set (?f i)" "b \<in> set (?f j)" for i j a b
      proof -
        obtain t off u t' off' u' where ab': "a = (t, off, u)" "b = (t', off', u')" by (cases a; cases b) auto
        have "off + length u \<le> i * m' * ?el + m' * ?el"
          using slot_reads_inside(3) [OF ab(1) [unfolded ab'] n(1) layer_read_fits(1) [OF ok x row] n(3)] j by simp
        also have "\<dots> = Suc i * (m' * ?el)" by simp
        also have "\<dots> \<le> j * (m' * ?el)" using j(2) by (intro mult_right_mono) auto
        also have "\<dots> \<le> off'"
          using slot_reads_inside(2) [OF ab(2) [unfolded ab'] n(1) layer_read_fits(1) [OF ok x row] n(3)] j by (simp add: mult.assoc)
        finally show ?thesis by (simp add: apart_def ab')
      qed
      then have "sorted_wrt apart (concat (map ?f [0..<vi_n_embd_gqa vi]))" if "vt"
        using that one [OF x row] by (intro sorted_wrt_concat) (simp_all add: sorted_wrt_iff_nth_less)
      moreover have "sorted_wrt apart (v_reads vt T m m' s s' is ixs x)" if "\<not> vt"
        using that one [OF x, unfolded e, OF read_V [OF Some that]] by (simp add: v_reads_def e Some)
      ultimately show ?thesis by (cases vt) (simp_all add: v_reads_def e Some)
    qed (simp add: v_reads_def e)
  qed (auto dest: v_reads_tensor)
  have "apart a b" if "a \<in> set (concat (map (k_reads T s s' is ixs) ?L))"
    "b \<in> set (concat (map (k_idx_reads T s s' is ixs) ?L)) \<union> set (concat (map (v_reads vt T m m' s s' is ixs) ?L))" for a b
    using that by (intro apart_tensors) (auto dest!: k_reads_tensor k_idx_reads_tensor v_reads_tensor)
  moreover have "apart a b" if "a \<in> set (concat (map (k_idx_reads T s s' is ixs) ?L))" "b \<in> set (concat (map (v_reads vt T m m' s s' is ixs) ?L))" for a b
    using that by (intro apart_tensors) (auto dest!: k_idx_reads_tensor v_reads_tensor)
  ultimately show ?thesis using k ki v by (auto simp: data_reads_def sorted_wrt_append)
qed

section \<open>The rows of a cell\<close>

text \<open>The bytes a layer holds for cell \<open>i\<close> of stream \<open>s\<close>, the cells having \<open>m\<close> rows.\<close>

definition layer_rows :: "bool \<Rightarrow> kv_tensor tensors \<Rightarrow> nat \<Rightarrow> nat \<Rightarrow> nat \<Rightarrow> nat \<times> kv_layer \<Rightarrow> octet list list" where
  "layer_rows vt T m s i = (\<lambda>(l, layer).
     [slice (T (K_Stream l s)) (i * kl_k_size_row layer) (kl_k_size_row layer)] @
     (case kl_k_idx layer of None \<Rightarrow> [] | Some ki \<Rightarrow> [slice (T (K_Idx_Stream l s)) (i * ki_size_row ki) (ki_size_row ki)]) @
     (case kl_v layer of None \<Rightarrow> [] | Some vi \<Rightarrow>
        if vt then map (\<lambda>j. slice (T (V_Stream l s)) ((i + j * m) * vi_size_el vi) (vi_size_el vi)) [0..<vi_n_embd_gqa vi]
        else [slice (T (V_Stream l s)) (i * vi_size_row vi) (vi_size_row vi)]))"

lemma layer_rows_landed:
  assumes ok: "reads_ok vt layers T T' m m' s s' is ixs" and k: "k < length is" and x: "x \<in> set (numbered layers)"
    and land: "\<And>t off b. (t, off, b) \<in> set (data_reads vt layers T m m' s s' is ixs) \<Longrightarrow> slice (U t) off (length b) = b"
  shows "layer_rows vt U m' s' (ixs ! k) x = layer_rows vt T m s (is ! k) x"
proof -
  obtain l layer where e: "x = (l, layer)" by (cases x)
  have i: "\<And>i. i \<in> set is \<Longrightarrow> i < m" and n: "k < length ixs" and f: "layer_fits vt T m s (l, layer)" using ok k x by (auto simp: reads_ok_def e)
  have L: "slice (U t) (base + ixs ! k * row) row = slice bs (k * row) row" if r: "layer_read vt T m m' s s' is (l, layer) t base row bs" for t base row bs
    by (rule slot_reads_landed [OF land layer_read_fits(1) [OF ok x [unfolded e] r] n])
      (use layer_read_data [OF r x [unfolded e]] in auto)
  have R: "slice (rows_of t 0 row is) (k * row) row = slice t (is ! k * row) row" if "m * row \<le> length t" for t row
    using slice_rows_of [of "is" 0 row t k] row_bound [OF i that] k by simp
  have W: "slice (U (V_Stream l s')) ((ixs ! k + j * m') * vi_size_el vi) (vi_size_el vi) = slice (T (V_Stream l s)) ((is ! k + j * m) * vi_size_el vi) (vi_size_el vi)"
    if v: "kl_v layer = Some vi" "vt" "j < vi_n_embd_gqa vi" for vi j
  proof -
    have "j * m * vi_size_el vi + i * vi_size_el vi + vi_size_el vi \<le> length (T (V_Stream l s))" if "i \<in> set is" for i
      using trans_bound [OF i [OF that] v(3), of "vi_size_el vi" "length (T (V_Stream l s))"] f v by (simp add: layer_fits_def algebra_simps)
    from L [OF read_W [OF v]] slice_rows_of [OF this k] show ?thesis by (simp add: algebra_simps)
  qed
  show ?thesis
    using L [OF read_K] L [OF read_I] L [OF read_V] R W f
    by (auto simp: layer_rows_def layer_fits_def e split: option.splits)
qed

text \<open>The rows of all other cells of the stream stay as they are.\<close>

lemma numbered_inj: "(l, a) \<in> set (numbered xs) \<Longrightarrow> (l, b) \<in> set (numbered xs) \<Longrightarrow> a = b"
  by (simp add: numbered_set)

lemma layer_read_same:
  assumes r: "layer_read vt T m m' s s' is x t base row bs" "layer_read vt T m m' s s' is x' t base' row' bs'"
    and x: "x \<in> set (numbered layers)" "x' \<in> set (numbered layers)"
  shows "row' = row \<and> (base' = base \<or> base' + m' * row \<le> base \<or> base + m' * row \<le> base')"
proof -
  have j: "i * m' * el + m' * el \<le> j * m' * el" if "i < j" for i j el
  proof -
    have "Suc i * (m' * el) \<le> j * (m' * el)" using that by (intro mult_right_mono) auto
    then show ?thesis by (simp add: mult.assoc)
  qed
  show ?thesis
  proof (cases t)
    case (V_Stream l u)
    have "row' = row \<and> (\<exists>i. base = i * m' * row) \<and> (\<exists>j. base' = j * m' * row)" if "vt"
      using r x that by (auto simp: V_Stream layer_read_V_iff numbered_set)
    moreover have "base = 0 \<and> base' = 0 \<and> row' = row" if "\<not> vt"
      using r x that by (auto simp: V_Stream layer_read_V_iff numbered_set)
    ultimately show ?thesis using j by (cases vt) (metis linorder_neqE_nat, simp)
  qed (use r x in \<open>auto simp: layer_read_K_iff layer_read_I_iff numbered_set\<close>)
qed

lemma layer_read_other:
  assumes ok: "reads_ok vt layers T T' m m' s s' is ixs" and i: "i < m'" "i \<notin> set ixs"
    and x: "x \<in> set (numbered layers)" and r: "layer_read vt T m m' s s' is x t base row bs"
  shows "slice (fold tensor_set (data_reads vt layers T m m' s s' is ixs) T' t) (base + i * row) row = slice (T' t) (base + i * row) row"
proof -
  let ?R = "data_reads vt layers T m m' s s' is ixs"
  have n: "0 < length ixs" "\<And>i. i \<in> set ixs \<Longrightarrow> i < m'" using ok by (auto simp: reads_ok_def)
  have in_m: "i * row + row \<le> m' * row" using row_bound [OF i(1) order_refl] .
  have "apart q (t, base + i * row, replicate row 0)" if q: "q \<in> set ?R" for q
  proof -
    obtain x' t' base' row' bs' where l: "x' \<in> set (numbered layers)" "layer_read vt T m m' s s' is x' t' base' row' bs'" "q \<in> set (slot_reads ixs t' base' row' bs')"
      using q by (rule data_reads_layer)
    obtain u off b where e: "q = (u, off, b)" by (cases q) auto
    note len = layer_read_fits(1) [OF ok l(1,2)]
    note I = slot_reads_inside [OF l(3) [unfolded e] n(1) len n(2)] and S = slot_reads_spare [OF l(3) [unfolded e] n(1) len i(2)]
    show ?thesis
    proof (cases "t' = t")
      case True
      from layer_read_same [OF r l(2) [unfolded True] x l(1)] have row': "row' = row" and "base' = base \<or> base' + m' * row \<le> base \<or> base + m' * row \<le> base'" by simp_all
      from this(2) show ?thesis
      proof (elim disjE)
        assume "base' = base"
        with S show ?thesis by (auto simp: apart_def e row')
      next
        assume "base' + m' * row \<le> base"
        then have "off + length b \<le> base + i * row" using I(3) unfolding row' by linarith
        then show ?thesis by (simp add: apart_def e)
      next
        assume "base + m' * row \<le> base'"
        then have "base + i * row + row \<le> off" using I(2) in_m by linarith
        then show ?thesis by (simp add: apart_def e)
      qed
    qed (use I(1) in \<open>simp add: apart_def e\<close>)
  qed
  then have "slice (fold tensor_set ?R T' t) (base + i * row) (length (replicate row (0 :: octet))) = slice (T' t) (base + i * row) (length (replicate row (0 :: octet)))"
    using data_reads_fit(1) [OF ok] by (intro tensor_sets_other) auto
  then show ?thesis by simp
qed

lemma layer_rows_other:
  assumes ok: "reads_ok vt layers T T' m m' s s' is ixs" and i: "i < m'" "i \<notin> set ixs" and x: "x \<in> set (numbered layers)"
  shows "layer_rows vt (fold tensor_set (data_reads vt layers T m m' s s' is ixs) T') m' s' i x = layer_rows vt T' m' s' i x"
proof -
  obtain l layer where e: "x = (l, layer)" by (cases x)
  note L = layer_read_other [OF ok i x [unfolded e]]
  have W: "slice (fold tensor_set (data_reads vt layers T m m' s s' is ixs) T' (V_Stream l s')) ((i + j * m') * vi_size_el vi) (vi_size_el vi) =
      slice (T' (V_Stream l s')) ((i + j * m') * vi_size_el vi) (vi_size_el vi)" if "kl_v layer = Some vi" "vt" "j < vi_n_embd_gqa vi" for vi j
    using L [OF read_W [OF that]] by (simp add: algebra_simps)
  show ?thesis
    using L [OF read_K] L [OF read_I] L [OF read_V] W by (auto simp: layer_rows_def e split: option.splits)
qed

text \<open>So do the tensors of the other streams.\<close>

lemma tensor_sets_elsewhere: "\<forall>r \<in> set rs. fst r \<noteq> t \<Longrightarrow> fold tensor_set rs T t = T t"
  by (induction rs arbitrary: T) (auto simp: tensor_set_def split: prod.splits)

lemma layer_rows_elsewhere:
  assumes "\<forall>r \<in> set rs. tensor_stream (fst r) \<noteq> s"
  shows "layer_rows vt (fold tensor_set rs T) m s i x = layer_rows vt T m s i x"
proof -
  have "fold tensor_set rs T t = T t" if "tensor_stream t = s" for t
    using assms that by (intro tensor_sets_elsewhere) auto
  then show ?thesis by (cases x) (auto simp: layer_rows_def split: option.split)
qed

end
