(* ===== verification/Kv_State_Whole.thy ===== *)
theory Kv_State_Whole
  imports Kv_State_Rows
begin

text \<open>
  A whole cache saved and restored: what \<open>state_write\<close> writes for a stream, that
  \<open>state_read\<close> of another cache consumes it, and the cells and tensors this cache then has.
\<close>

section \<open>One stream\<close>

definition saved_cells :: "llama_kv_cache \<Rightarrow> nat \<Rightarrow> nat list" where
  "saved_cells kv s = filter (\<lambda>i. kc_pos (v_cells kv ! s) ! i \<noteq> -1) [0..<length (kc_pos (v_cells kv ! s))]"

lemma write_stream_ranges:
  "\<exists>cr. range_cells cr = filter (save_cell kv (v_cells kv ! s) q) [0..<cells_size (v_cells kv ! s)] \<and> list_all (\<lambda>(a, b). a < b) cr \<and>
    write_stream kv layers q s = Some (Io_Write (u32_bytes (length (range_cells cr))) #
      (if range_cells cr = [] then [] else state_write_meta kv s cr q @ kv_write_data kv layers s cr))"
proof -
  obtain n cr where c: "cell_ranges (cells_size (v_cells kv ! s)) (save_cell kv (v_cells kv ! s) q) = (n, cr)" by fastforce
  from cell_ranges_exact [OF c] show ?thesis
    by (intro exI [of _ cr]) (simp add: write_stream_def c Let_def)
qed

lemma saved_cells_eq: "filter (save_cell kv (v_cells kv ! s) (-1)) [0..<cells_size (v_cells kv ! s)] = saved_cells kv s"
  by (simp add: saved_cells_def save_cell_def [abs_def] cells_is_empty_def cells_size_def)

text \<open>What the format can carry, and the caches it can be restored into.\<close>

definition source_ok :: "llama_kv_cache \<Rightarrow> kv_layer list \<Rightarrow> kv_tensor tensors \<Rightarrow> bool" where
  "source_ok kv layers T \<longleftrightarrow> kv_ok kv \<and> kv_n_stream kv < 2 ^ 32 \<and> kv_n_seq_max kv \<le> 2 ^ 31 \<and> length layers < 2 ^ 32 \<and>
     (\<forall>layer \<in> set layers. layer_ok layer) \<and>
     (\<forall>s < kv_n_stream kv. let c = v_cells kv ! s in length (kc_pos c) < 2 ^ 32 \<and>
        (\<forall>i < length (kc_pos c). cell_wire c i \<and> kc_seq c ! i \<subseteq> {..<kv_n_seq_max kv}) \<and>
        (\<forall>x \<in> set (numbered layers). layer_fits (kv_v_trans kv) T (length (kc_pos c)) s x \<and>
           v_reach (kv_v_trans kv) (length (kc_pos c)) (snd x)))"

definition target_ok :: "llama_kv_cache \<Rightarrow> llama_kv_cache \<Rightarrow> kv_layer list \<Rightarrow> kv_tensor tensors \<Rightarrow> bool" where
  "target_ok kv dst layers T' \<longleftrightarrow> kv_n_stream dst = kv_n_stream kv \<and> kv_n_seq_max dst = kv_n_seq_max kv \<and>
     kv_n_pos_per_embd dst = kv_n_pos_per_embd kv \<and> kv_v_trans dst = kv_v_trans kv \<and>
     (\<forall>s < kv_n_stream kv. let n = length (kc_pos (v_cells dst ! s)) in length (saved_cells kv s) \<le> n \<and>
        (\<forall>x \<in> set (numbered layers). layer_fits (kv_v_trans kv) T' n s x \<and> v_reach (kv_v_trans kv) n (snd x)))"

text \<open>The layout of a restored stream: the first \<open>n\<close> cells.\<close>

definition front_slot :: "nat \<Rightarrow> nat \<Rightarrow> slot_info" where
  "front_slot strm n = \<lparr>si_s0 = strm, si_s1 = strm, si_strm = [strm], si_idxs = [[0..<n]]\<rparr>"

lemma front_slot_contiguous: "si_is_contiguous (front_slot strm n)" "0 < n \<Longrightarrow> si_head (front_slot strm n) = Some 0"
  by (simp_all add: front_slot_def si_is_contiguous_def si_head_def list_all_iff)

definition restored_stream :: "llama_kv_cache \<Rightarrow> nat \<Rightarrow> llama_kv_cache \<Rightarrow> llama_kv_cache" where
  "restored_stream kv s dst =
     (if saved_cells kv s = [] then dst
      else (on_cells s (fill_cells kv (v_cells kv ! s) (saved_cells kv s)) dst)\<lparr>v_heads := (v_heads dst)[s := 0]\<rparr>)"

definition stream_reads ::
  "llama_kv_cache \<Rightarrow> kv_layer list \<Rightarrow> kv_tensor tensors \<Rightarrow> llama_kv_cache \<Rightarrow> nat \<Rightarrow> (kv_tensor \<times> nat \<times> octet list) list" where
  "stream_reads kv layers T dst s =
     (if saved_cells kv s = [] then []
      else data_reads (kv_v_trans kv) layers T (length (kc_pos (v_cells kv ! s))) (length (kc_pos (v_cells dst ! s))) s s (saved_cells kv s) [0..<length (saved_cells kv s)])"

definition stream_slot :: "llama_kv_cache \<Rightarrow> nat \<Rightarrow> slot_info option" where
  "stream_slot kv s = (if saved_cells kv s = [] then None else Some (front_slot s (length (saved_cells kv s))))"

lemma restored_stream_fields:
  "kv_n_stream (restored_stream kv s dst) = kv_n_stream dst" "kv_n_seq_max (restored_stream kv s dst) = kv_n_seq_max dst"
  "kv_n_pos_per_embd (restored_stream kv s dst) = kv_n_pos_per_embd dst" "kv_v_trans (restored_stream kv s dst) = kv_v_trans dst"
  "length (v_cells (restored_stream kv s dst)) = length (v_cells dst)"
  by (simp_all add: restored_stream_def)

lemma restored_stream_size:
  "length (kc_pos (v_cells (restored_stream kv s dst) ! t)) = length (kc_pos (v_cells dst ! t))"
  by (cases "s < length (v_cells dst)"; cases "s = t") (simp_all add: restored_stream_def on_cells_def fill_cells_length list_update_beyond)

lemma target_ok_restored: "target_ok kv dst layers T' \<Longrightarrow> target_ok kv (restored_stream kv s dst) layers T'"
  by (simp add: target_ok_def restored_stream_fields restored_stream_size)

lemma saved_cells_mem: "i \<in> set (saved_cells kv s) \<longleftrightarrow> i < length (kc_pos (v_cells kv ! s)) \<and> kc_pos (v_cells kv ! s) ! i \<noteq> -1"
  by (auto simp: saved_cells_def)

lemma consumes_meta:
  assumes src: "source_ok kv layers T" and dst: "target_ok kv dst layers T'" and s: "s < kv_n_stream kv" "s < length (v_cells dst)"
    and cr: "range_cells cr = saved_cells kv s"
  shows "consumes (state_read_meta s (length (saved_cells kv s)) (-1) None) (io_bytes T (state_write_meta kv s cr (-1))) dst
    (Some (front_slot s (length (saved_cells kv s)))) ((on_cells s (fill_cells kv (v_cells kv ! s) (saved_cells kv s)) dst)\<lparr>v_heads := (v_heads dst)[s := 0]\<rparr>) []"
proof -
  let ?is = "saved_cells kv s" let ?d = "on_cells s (fill_cells kv (v_cells kv ! s) ?is) dst"
  have w: "cell_wire (v_cells kv ! s) i" if "i \<in> set ?is" for i
    using src s(1) that by (auto simp: source_ok_def saved_cells_mem Let_def)
  have n: "kv_n_seq_max kv \<le> 2 ^ 31" using src by (simp add: source_ok_def)
  have e: "kv_n_pos_per_embd dst = kv_n_pos_per_embd kv" "kv_n_seq_max dst = kv_n_seq_max kv" using dst by (simp_all add: target_ok_def)
  have size: "length ?is \<le> cells_size (v_cells dst ! s)" using dst s(1) by (simp add: target_ok_def cells_size_def Let_def)
  have "consumes (read_meta_whole s (length ?is) None)
     ([] @ io_bytes T (concat (map (write_cell_meta kv (v_cells kv ! s) (-1)) ?is)) @ [] @ []) dst (Some (front_slot s (length ?is)))
     (?d\<lparr>v_heads := (v_heads ?d)[s := 0]\<rparr>) ([] @ [] @ [] @ [])"
    unfolding read_meta_whole_def front_slot_def
    by (intro consumes_bind [OF consumes_get], unfold case_prod_conv e option.case,
        intro consumes_return_unless TrueI consumes_bind [OF consumes_cells [OF w n s(2)]] consumes_bind [OF consumes_modify] consumes_ret)
      (use size in simp_all)
  then show ?thesis
    by (simp add: state_read_meta_def state_write_meta_def over_ranges_cells cr)
qed

lemma consumes_on_cache: "consumes m bs kv x kv' rs \<Longrightarrow> consumes (on_cache m) bs (kv, U) x (kv', U) rs"
  by (simp add: consumes_def on_cache_def)

lemma consumes_stream:
  assumes src: "source_ok kv layers T" and dst: "target_ok kv dst layers T'" and s: "s < kv_n_stream kv" "s < length (v_cells dst)"
    and ops: "write_stream kv layers (-1) s = Some ops"
  shows "consumes (read_stream layers (-1) (\<lambda>_. None) s) (io_bytes T ops) (dst, U) (stream_slot kv s) (restored_stream kv s dst, U) (stream_reads kv layers T dst s)"
proof -
  let ?is = "saved_cells kv s" let ?n = "length ?is"
  obtain cr where cr: "range_cells cr = ?is" "list_all (\<lambda>(a, b). a < b) cr"
    "ops = Io_Write (u32_bytes ?n) # (if ?is = [] then [] else state_write_meta kv s cr (-1) @ kv_write_data kv layers s cr)"
    using write_stream_ranges [of kv s "-1" layers] ops by (auto simp: saved_cells_eq)
  have "?n \<le> length (kc_pos (v_cells kv ! s))"
    unfolding saved_cells_def by (rule order_trans [OF length_filter_le]) simp
  then have n: "?n < 2 ^ 32" using src s(1) by (auto simp: source_ok_def Let_def)
  show ?thesis
  proof (cases "?is = []")
    case True
    have "consumes (read_stream layers (-1) (\<lambda>_. None) s) (u32_bytes ?n @ []) (dst, U) None (dst, U) ([] @ [])"
      unfolding read_stream_def by (intro consumes_bind [OF consumes_u32 [OF n]]) (simp add: True consumes_ret)
    with True cr(3) show ?thesis by (simp add: stream_slot_def restored_stream_def stream_reads_def)
  next
    case False
    let ?d = "(on_cells s (fill_cells kv (v_cells kv ! s) ?is) dst)\<lparr>v_heads := (v_heads dst)[s := 0]\<rparr>"
    have sz: "cells_size (v_cells ?d ! s) = length (kc_pos (v_cells dst ! s))"
      using s(2) by (simp add: on_cells_def fill_cells_length cells_size_def)
    have meta: "consumes (state_read_meta s ?n (-1) None) (io_bytes T (state_write_meta kv s cr (-1))) dst (Some (front_slot s ?n)) ?d []"
      by (rule consumes_meta [OF src dst s cr(1)])
    have L: "\<forall>layer \<in> set layers. \<exists>x \<in> set (numbered layers). snd x = layer"
    proof
      fix layer assume "layer \<in> set layers"
      then obtain l where "l < length layers" "layer = layers ! l" by (auto simp: in_set_conv_nth)
      then show "\<exists>x \<in> set (numbered layers). snd x = layer" by (intro bexI [of _ "(l, layer)"]) (simp_all add: numbered_set)
    qed
    have data: "consumes (kv_read_data layers s ?n (front_slot s ?n)) (io_bytes T (kv_write_data kv layers s cr)) ?d True ?d
      (data_reads (kv_v_trans kv) layers T (cells_size (v_cells kv ! s)) (cells_size (v_cells ?d ! s)) s s ?is [0..<?n])"
    proof (rule consumes_data [OF _ _ _ _ _ _ _ _ _ _ _ cr(1,2)])
      show "\<forall>layer \<in> set layers. layer_ok layer" "length layers < 2 ^ 32"
        "\<forall>x \<in> set (numbered layers). layer_fits (kv_v_trans kv) T (cells_size (v_cells kv ! s)) s x"
        using src s(1) by (auto simp: source_ok_def Let_def cells_size_def)
      show "\<forall>layer \<in> set layers. v_reach (kv_v_trans kv) (cells_size (v_cells kv ! s)) layer"
        using src s(1) L by (fastforce simp: source_ok_def Let_def cells_size_def)
      show "\<forall>layer \<in> set layers. v_reach (kv_v_trans kv) (cells_size (v_cells ?d ! s)) layer"
        using dst s(1) L unfolding sz by (fastforce simp: target_ok_def Let_def)
      show "0 < ?n" using False by simp
      show "i < cells_size (v_cells kv ! s)" if "i \<in> set ?is" for i using that by (simp add: saved_cells_mem cells_size_def)
      show fit: "?n \<le> cells_size (v_cells ?d ! s)" unfolding sz using dst s(1) by (simp add: target_ok_def Let_def)
      show "si_idxs (front_slot s ?n) = [[0..<?n]]" "length [0..<?n] = ?n" by (simp_all add: front_slot_def)
      show "i < cells_size (v_cells ?d ! s)" if "i \<in> set [0..<?n]" for i using that fit by simp
      show "kv_v_trans ?d = kv_v_trans kv" using dst by (simp add: target_ok_def)
    qed
    let ?R = "data_reads (kv_v_trans kv) layers T (cells_size (v_cells kv ! s)) (cells_size (v_cells ?d ! s)) s s ?is [0..<?n]"
    have "consumes (read_stream layers (-1) (\<lambda>_. None) s)
      (u32_bytes ?n @ [] @ io_bytes T (state_write_meta kv s cr (-1)) @ io_bytes T (kv_write_data kv layers s cr) @ []) (dst, U)
      (Some (front_slot s ?n)) (?d, U) ([] @ [] @ [] @ ?R @ [])"
      unfolding read_stream_def
    proof (rule consumes_bind [OF consumes_u32 [OF n]], simp only: length_0_conv False if_False, rule consumes_bind [OF consumes_get],
        simp only: case_prod_conv refl if_True, rule consumes_bind [OF consumes_on_cache [OF meta]], rule consumes_bind)
      show "consumes (case Some (front_slot s ?n) of None \<Rightarrow> retS False | Some si \<Rightarrow> catchS (on_cache (kv_read_data layers s ?n si)) (retS False))
        (io_bytes T (kv_write_data kv layers s cr)) (?d, U) True (?d, U) ?R"
        using consumes_catch [OF consumes_on_cache [OF data]] by simp
    qed (simp add: consumes_ret)
    with False cr(3) sz show ?thesis
      by (simp add: stream_slot_def restored_stream_def stream_reads_def cells_size_def)
  qed
qed

section \<open>All streams\<close>

lemma consumes_streams:
  assumes "source_ok kv layers T" "target_ok kv dst layers T'" "\<And>s. s \<in> set ss \<Longrightarrow> s < kv_n_stream kv" "length (v_cells dst) = kv_n_stream kv"
    "all_some (map (write_stream kv layers (-1)) ss) = Some opss"
  shows "consumes (read_streams layers (-1) (\<lambda>_. None) ss) (io_bytes T (concat opss)) (dst, U) (map (stream_slot kv) ss)
    (fold (restored_stream kv) ss dst, U) (concat (map (stream_reads kv layers T dst) ss))"
  using assms
proof (induction ss arbitrary: dst opss)
  case (Cons s ss)
  obtain ops opss' where o: "write_stream kv layers (-1) s = Some ops" "all_some (map (write_stream kv layers (-1)) ss) = Some opss'"
    "opss = ops # opss'" using Cons.prems(5) by (auto split: option.splits)
  let ?d = "restored_stream kv s dst"
  have s: "s < kv_n_stream kv" "s < length (v_cells dst)" using Cons.prems(3,4) by auto
  have r: "stream_reads kv layers T ?d = stream_reads kv layers T dst"
    by (rule ext) (simp add: stream_reads_def restored_stream_size)
  have "consumes (read_streams layers (-1) (\<lambda>_. None) ss) (io_bytes T (concat opss')) (?d, U) (map (stream_slot kv) ss)
    (fold (restored_stream kv) ss ?d, U) (concat (map (stream_reads kv layers T ?d) ss))"
    using Cons.prems o by (intro Cons.IH target_ok_restored) (auto simp: restored_stream_fields)
  then have "consumes (read_streams layers (-1) (\<lambda>_. None) (s # ss)) (io_bytes T ops @ io_bytes T (concat opss') @ []) (dst, U)
    (stream_slot kv s # map (stream_slot kv) ss) (fold (restored_stream kv) ss ?d, U) (stream_reads kv layers T dst s @ concat (map (stream_reads kv layers T dst) ss) @ [])"
    unfolding read_streams.simps r
    by (intro consumes_bind [OF consumes_stream [OF Cons.prems(1,2) s o(1)]] consumes_bind) (assumption, rule consumes_ret)
  then show ?case by (simp add: o(3))
qed (simp add: consumes_ret)

lemma write_streams_some: "\<exists>opss. all_some (map (write_stream kv layers q) ss) = Some opss"
proof (induction ss)
  case (Cons s ss)
  obtain ops where "write_stream kv layers q s = Some ops" using write_stream_ranges [of kv s q layers] by blast
  with Cons show ?case by auto
qed simp

definition restored_cache :: "llama_kv_cache \<Rightarrow> llama_kv_cache \<Rightarrow> llama_kv_cache" where
  "restored_cache kv dst = fold (restored_stream kv) [0..<kv_n_stream kv] (kv_clear dst)"

definition cache_reads ::
  "llama_kv_cache \<Rightarrow> kv_layer list \<Rightarrow> kv_tensor tensors \<Rightarrow> llama_kv_cache \<Rightarrow> (kv_tensor \<times> nat \<times> octet list) list" where
  "cache_reads kv layers T dst = concat (map (stream_reads kv layers T dst) [0..<kv_n_stream kv])"

lemma kv_clear_eq:
  assumes "length (v_cells kv) = kv_n_stream kv" "length (v_heads kv) = kv_n_stream kv"
  shows "kv_clear kv = kv\<lparr>v_cells := map cells_reset (v_cells kv), v_heads := replicate (kv_n_stream kv) 0\<rparr>"
proof -
  let ?f = "\<lambda>s kv. kv\<lparr>v_cells := (v_cells kv)[s := cells_reset (v_cells kv ! s)], v_heads := (v_heads kv)[s := 0]\<rparr>"
  have "fold ?f [0..<k] kv = kv\<lparr>v_cells := map cells_reset (take k (v_cells kv)) @ drop k (v_cells kv),
      v_heads := replicate k 0 @ drop k (v_heads kv)\<rparr>" if "k \<le> kv_n_stream kv" for k
    using that
  proof (induction k)
    case (Suc k)
    have k: "k < length (v_cells kv)" "k < length (v_heads kv)" using Suc.prems assms by simp_all
    from Suc have "fold ?f [0..<k] kv = kv\<lparr>v_cells := map cells_reset (take k (v_cells kv)) @ drop k (v_cells kv),
      v_heads := replicate k 0 @ drop k (v_heads kv)\<rparr>" by simp
    then show ?case using k
      by (simp add: take_Suc_conv_app_nth Cons_nth_drop_Suc [symmetric] nth_append list_update_append replicate_app_Cons_same del: drop_Suc_Cons)
  qed simp
  from this [of "kv_n_stream kv"] show ?thesis using assms by (simp add: kv_clear_def)
qed

lemma consumes_whole:
  assumes src: "source_ok kv layers T" and dst: "kv_ok dst" "target_ok kv dst layers T'" and ops: "kv_state_write kv layers (-1) = Some ops"
  shows "consumes (kv_state_read layers (-1)) (io_bytes T ops) (dst, U) () (restored_cache kv dst, \<lambda>t. replicate (length (U t)) 0)
    (cache_reads kv layers T dst)"
proof -
  let ?Z = "\<lambda>t. replicate (length (U t)) (0 :: octet)"
  obtain opss where o: "all_some (map (write_stream kv layers (-1)) [0..<kv_n_stream kv]) = Some opss"
    using write_streams_some by blast
  have kv: "kv_ok kv" "kv_n_stream kv < 2 ^ 32" using src by (simp_all add: source_ok_def)
  have e: "ops = Io_Write (u32_bytes (kv_n_stream kv)) # concat opss"
    using ops o kv_okD(1) [OF kv(1)] by (simp add: kv_state_write_def)
  note D = kv_okD(1-3) [OF dst(1)]
  have n: "kv_n_stream dst = kv_n_stream kv" using dst(2) by (simp add: target_ok_def)
  have c: "kv_clear dst = dst\<lparr>v_cells := map cells_reset (v_cells dst), v_heads := replicate (kv_n_stream dst) 0\<rparr>"
    by (rule kv_clear_eq [OF D(2,3)])
  have len: "length (kc_pos (v_cells (kv_clear dst) ! s)) = length (kc_pos (v_cells dst ! s))" if "s < kv_n_stream kv" for s
    using that D n by (simp add: c cells_reset_def Let_def)
  have t: "target_ok kv (kv_clear dst) layers T'"
    using dst(2) len by (simp add: target_ok_def) (simp add: c)
  have r: "concat (map (stream_reads kv layers T (kv_clear dst)) [0..<kv_n_stream kv]) = cache_reads kv layers T dst"
    unfolding cache_reads_def by (intro arg_cong [of _ _ concat] map_cong) (simp_all add: stream_reads_def len)
  have st: "consumes (read_streams layers (-1) (\<lambda>_. None) [0..<kv_n_stream kv]) (io_bytes T (concat opss)) (clear_data (dst, U))
    (map (stream_slot kv) [0..<kv_n_stream kv]) (restored_cache kv dst, ?Z) (cache_reads kv layers T dst)"
    using consumes_streams [OF src t _ _ o] D n unfolding restored_cache_def r clear_data_def by (simp add: c)
  have inner: "consumes (bindS io_read_u32 (\<lambda>n_stream_cur.
         if n_stream_cur \<noteq> kv_n_stream dst then throwS StreamMismatch
         else bindS (if (-1 :: int) = -1 then modifyS clear_data else retS ()) (\<lambda>_.
           read_streams layers (-1) (\<lambda>s. map_option (\<lambda>sis. sis ! s) None) [0..<kv_n_stream dst])))
     (u32_bytes (kv_n_stream kv) @ [] @ io_bytes T (concat opss)) (dst, U) (map (stream_slot kv) [0..<kv_n_stream kv]) (restored_cache kv dst, ?Z)
     ([] @ [] @ cache_reads kv layers T dst)"
    by (rule consumes_bind [OF consumes_u32 [OF kv(2)]], simp only: n refl not_True_eq_False if_False if_True option.map(1),
        rule consumes_bind, rule consumes_modify, rule st)
  then have "consumes (state_read_sinfo layers (-1) None) (io_bytes T ops) (dst, U) (map (stream_slot kv) [0..<kv_n_stream kv]) (restored_cache kv dst, ?Z) (cache_reads kv layers T dst)"
    by (simp add: consumes_def state_read_sinfo_def assertS_def D e)
  from consumes_bind [OF this consumes_ret [of "()"]] show ?thesis by (simp add: kv_state_read_def)
qed

end
