(* ===== verification/Kv_State_Tokens.thy ===== *)
theory Kv_State_Tokens
  imports Kv_State_Whole
begin

text \<open>
  The cells of one sequence read back: they become a micro-batch of one token per cell, a slot is
  searched for it, and the tokens are placed there.
\<close>

section \<open>The tokens\<close>

lemma filter_one: "filter (\<lambda>i. i = k) [0..<n] = (if k < n then [k] else [])"
  by (induction n) auto

lemma cell_seq_ids_one: "0 \<le> q \<Longrightarrow> nat q \<in> kc_seq c ! i \<Longrightarrow> nat q < kv_n_seq_max kv \<Longrightarrow> cell_seq_ids kv c q i = [nat q]"
proof -
  assume a: "0 \<le> q" "nat q \<in> kc_seq c ! i" "nat q < kv_n_seq_max kv"
  have "(int k = q \<or> q = -1) \<and> cells_seq_has c i k \<longleftrightarrow> k = nat q" for k using a by (auto simp: cells_seq_has_def)
  with a(3) show ?thesis by (simp add: cell_seq_ids_def filter_one)
qed

text \<open>What \<open>read_token\<close> makes of saved cell \<open>i\<close>.\<close>

definition token_of_cell :: "nat \<Rightarrow> int \<Rightarrow> llama_kv_cells \<Rightarrow> nat \<Rightarrow> nat \<Rightarrow> llama_ubatch \<Rightarrow> llama_ubatch" where
  "token_of_cell n_pos dest c i k ub =
     (let e = kc_ext c ! i;
          ub = (if n_pos > 1 then ub\<lparr>ub_pos := (ub_pos ub)[k + ub_n_tokens ub := ext_y e, k + ub_n_tokens ub * 2 := ext_x e]\<rparr> else ub)
      in ub\<lparr>ub_pos := (ub_pos ub)[k := kc_pos c ! i], ub_n_seq_id := (ub_n_seq_id ub)[k := 1], ub_seq_id := (ub_seq_id ub)[k := [nat dest]]\<rparr>)"

lemma consumes_token:
  assumes w: "cell_wire c i" and q: "0 \<le> q" "q < 2 ^ 31" and c: "nat q \<in> kc_seq c ! i" "nat q < kv_n_seq_max kv"
  shows "consumes (read_token (kv_n_pos_per_embd kv) dest k ub) (io_bytes T (write_cell_meta kv c q i)) s
    (Some (token_of_cell (kv_n_pos_per_embd kv) dest c i k ub)) s []"
proof -
  let ?n_pos = "kv_n_pos_per_embd kv" let ?e = "kc_ext c ! i"
  let ?ub = "if ?n_pos > 1 then ub\<lparr>ub_pos := (ub_pos ub)[k + ub_n_tokens ub := ext_y ?e, k + ub_n_tokens ub * 2 := ext_x ?e]\<rparr> else ub"
  have e: "consumes (if ?n_pos > 1
        then bindS io_read_ext (\<lambda>e. retS (ub\<lparr>ub_pos := (ub_pos ub)[k + ub_n_tokens ub := ext_y e, k + ub_n_tokens ub * 2 := ext_x e]\<rparr>))
        else retS ub) (if ?n_pos > 1 then ext_bytes ?e else []) s ?ub s []"
  proof (cases "?n_pos > 1")
    case True
    have "consumes (bindS io_read_ext (\<lambda>e. retS (ub\<lparr>ub_pos := (ub_pos ub)[k + ub_n_tokens ub := ext_y e, k + ub_n_tokens ub * 2 := ext_x e]\<rparr>)))
      (ext_bytes ?e @ []) s (ub\<lparr>ub_pos := (ub_pos ub)[k + ub_n_tokens ub := ext_y ?e, k + ub_n_tokens ub * 2 := ext_x ?e]\<rparr>) s ([] @ [])"
      by (intro consumes_bind [OF consumes_ext [OF w] consumes_ret])
    with True show ?thesis by simp
  qed (simp add: consumes_ret)
  have "consumes (read_token ?n_pos dest k ub)
    (i32_bytes (kc_pos c ! i) @ u32_bytes 1 @ (if ?n_pos > 1 then ext_bytes ?e else []) @ i32_bytes q @ []) s
    (Some (?ub\<lparr>ub_pos := (ub_pos ?ub)[k := kc_pos c ! i], ub_n_seq_id := (ub_n_seq_id ?ub)[k := 1], ub_seq_id := (ub_seq_id ?ub)[k := [nat dest]]\<rparr>))
    s ([] @ [] @ [] @ [] @ [])"
    unfolding read_token_def
    by (intro consumes_bind [OF consumes_i32] consumes_bind [OF consumes_u32] consumes_return_unless refl consumes_bind [OF e] consumes_ret)
      (use w q in \<open>simp_all add: cell_wire_def is_i32_def\<close>)
  moreover have "io_bytes T (write_cell_meta kv c q i) =
      i32_bytes (kc_pos c ! i) @ u32_bytes 1 @ (if ?n_pos > 1 then ext_bytes ?e else []) @ i32_bytes q @ []"
    using q by (simp add: write_cell_meta_def cell_seq_ids_one [OF q(1) c] Let_def cells_pos_get_def cells_ext_get_def)
  ultimately show ?thesis by (simp add: token_of_cell_def Let_def)
qed

definition tokens_of_cells :: "nat \<Rightarrow> int \<Rightarrow> llama_kv_cells \<Rightarrow> nat list \<Rightarrow> llama_ubatch \<Rightarrow> llama_ubatch" where
  "tokens_of_cells n_pos dest c is = fold (\<lambda>k. token_of_cell n_pos dest c (is ! k) k) [0..<length is]"

lemma consumes_tokens:
  assumes w: "\<And>i. i \<in> set is \<Longrightarrow> cell_wire c i \<and> nat q \<in> kc_seq c ! i" and q: "0 \<le> q" "q < 2 ^ 31" "nat q < kv_n_seq_max kv"
  shows "consumes (read_tokens (kv_n_pos_per_embd kv) dest [0..<length is] ub) (io_bytes T (concat (map (write_cell_meta kv c q) is))) s
    (Some (tokens_of_cells (kv_n_pos_per_embd kv) dest c is ub)) s []"
proof -
  let ?n_pos = "kv_n_pos_per_embd kv"
  have "consumes (read_tokens ?n_pos dest ks ub) (concat (map (\<lambda>k. io_bytes T (write_cell_meta kv c q (is ! k))) ks)) s
    (Some (fold (\<lambda>k. token_of_cell ?n_pos dest c (is ! k) k) ks ub)) s []" if "\<forall>k \<in> set ks. k < length is" for ks
    using that
  proof (induction ks arbitrary: ub)
    case (Cons k ks)
    have k: "is ! k \<in> set is" using Cons.prems by simp
    have t: "consumes (read_token ?n_pos dest k ub) (io_bytes T (write_cell_meta kv c q (is ! k))) s
        (Some (token_of_cell ?n_pos dest c (is ! k) k ub)) s []"
      using w [OF k] q by (intro consumes_token) auto
    have IH: "consumes (read_tokens ?n_pos dest ks (token_of_cell ?n_pos dest c (is ! k) k ub))
        (concat (map (\<lambda>k. io_bytes T (write_cell_meta kv c q (is ! k))) ks)) s
        (Some (fold (\<lambda>k. token_of_cell ?n_pos dest c (is ! k) k) ks (token_of_cell ?n_pos dest c (is ! k) k ub))) s []"
      using Cons by simp
    show ?case using consumes_bind [OF t, of "\<lambda>r. case r of None \<Rightarrow> retS None | Some ub \<Rightarrow> read_tokens ?n_pos dest ks ub"] IH by simp
  qed (simp add: consumes_ret)
  from this [of "[0..<length is]"]
  have "consumes (read_tokens ?n_pos dest [0..<length is] ub) (concat (map (\<lambda>k. io_bytes T (write_cell_meta kv c q (is ! k))) [0..<length is])) s
    (Some (tokens_of_cells ?n_pos dest c is ub)) s []" by (simp add: tokens_of_cells_def)
  moreover have "map (\<lambda>k. io_bytes T (write_cell_meta kv c q (is ! k))) [0..<length is] = map (\<lambda>i. io_bytes T (write_cell_meta kv c q i)) is"
    by (rule nth_equalityI) auto
  ultimately show ?thesis by (simp add: io_bytes_concat)
qed

text \<open>The micro-batch holds the positions of the saved cells, each under the new sequence.\<close>

definition batch_of_cells :: "int \<Rightarrow> llama_kv_cells \<Rightarrow> nat list \<Rightarrow> nat \<Rightarrow> llama_ubatch \<Rightarrow> bool" where
  "batch_of_cells dest c is k ub \<longleftrightarrow> ub_n_tokens ub = length is \<and> ub_n_seqs_unq ub = 1 \<and> ub_seq_id_unq ub = [nat dest] \<and>
     length is \<le> length (ub_pos ub) \<and> length (ub_n_seq_id ub) = length is \<and> length (ub_seq_id ub) = length is \<and>
     (\<forall>j < k. ub_pos ub ! j = kc_pos c ! (is ! j) \<and> ub_n_seq_id ub ! j = 1 \<and> ub_seq_id ub ! j = [nat dest])"

lemma batch_of_cells_step:
  assumes "batch_of_cells dest c is k ub" "k < length is"
  shows "batch_of_cells dest c is (Suc k) (token_of_cell n_pos dest c (is ! k) k ub)"
  using assms by (auto simp: batch_of_cells_def token_of_cell_def Let_def less_Suc_eq nth_list_update')

lemma batch_of_cells_all:
  assumes "batch_of_cells dest c is 0 ub"
  shows "batch_of_cells dest c is (length is) (tokens_of_cells n_pos dest c is ub)"
proof -
  have "batch_of_cells dest c is k (fold (\<lambda>k. token_of_cell n_pos dest c (is ! k) k) [0..<k] ub)" if "k \<le> length is" for k
    using that assms by (induction k) (simp_all add: batch_of_cells_step)
  then show ?thesis by (simp add: tokens_of_cells_def)
qed

definition reserved_batch :: "nat \<Rightarrow> int \<Rightarrow> nat \<Rightarrow> llama_ubatch" where
  "reserved_batch n_pos dest n = (let ub = snd (ubatch_reserve n 1 (batch_allocr_new n_pos)) in ub\<lparr>ub_seq_id_unq := (ub_seq_id_unq ub)[0 := nat dest]\<rparr>)"

lemma reserved_batch_cells: "1 \<le> n_pos \<Longrightarrow> batch_of_cells dest c is 0 (reserved_batch n_pos dest (length is))"
  by (cases n_pos) (simp_all add: batch_of_cells_def reserved_batch_def ubatch_reserve_def batch_allocr_new_def Let_def)

section \<open>The slot\<close>

definition kv_free_cells :: "llama_kv_cache \<Rightarrow> nat \<Rightarrow> nat" where
  "kv_free_cells kv st = card {i. i < length (kc_pos (v_cells kv ! st)) \<and> kc_pos (v_cells kv ! st) ! i = -1}"

text \<open>A cache that a sequence can be placed into anywhere.\<close>

definition plain_cache :: "llama_kv_cache \<Rightarrow> bool" where
  "plain_cache kv \<longleftrightarrow> kv_ok kv \<and> \<not> kv_msa_strict_slots kv \<and> kv_swa_type kv = SWA_TYPE_NONE"

lemma free_usable: "plain_cache kv \<Longrightarrow> kv_free_cells kv st = card (usable kv (v_cells kv ! st))"
  by (simp add: kv_free_cells_def usable_def plain_cache_def can_use_no_swa cells_size_def)

lemma batch_of_cells_fits:
  assumes b: "batch_of_cells dest c is (length is) ub" and kv: "kv_ok kv" "kv_seq_ok kv dest" and ne: "is \<noteq> []"
    and p: "\<And>i. i \<in> set is \<Longrightarrow> 0 \<le> kc_pos c ! i"
  shows "ub_fits kv ub" "slot_streams kv ub = 1" "slot_tokens kv ub = length is" "ub_cells kv ub 0 = v_cells kv ! stream_of kv dest"
proof -
  note B = b [unfolded batch_of_cells_def]
  show n: "slot_streams kv ub = 1" "slot_tokens kv ub = length is" using B by (simp_all add: slot_streams_def slot_tokens_def)
  have d: "nat dest < length (seq_to_stream kv)" "nat dest < LLAMA_MAX_SEQ" using kv(2) kv_okD(10) [OF kv] by (simp_all add: kv_seq_ok_def)
  show "ub_cells kv ub 0 = v_cells kv ! stream_of kv dest" using B by (simp add: stream_of_def)
  have "tok_ok ub i" if "i < length is" for i using B that p d(2) by (simp add: tok_ok_def)
  moreover have "1 \<le> length is" using ne by (simp add: Suc_le_eq)
  ultimately show "ub_fits kv ub"
    using B ne d(1) n by (auto simp: ub_fits_def ub_streams_ok_def)
qed

lemma find_seq_slot:
  assumes kv: "plain_cache kv" "kv_seq_ok kv dest" and b: "batch_of_cells dest c is (length is) ub" and ne: "is \<noteq> []"
    and p: "\<And>i. i \<in> set is \<Longrightarrow> 0 \<le> kc_pos c ! i"
  shows "if length is \<le> kv_free_cells kv (stream_of kv dest)
    then \<exists>si ixs. kv_find_slot ub False kv = Some (Some si) \<and> empty_slot kv si \<and> si_strm si = [stream_of kv dest] \<and>
      si_idxs si = [ixs] \<and> length ixs = length is
    else kv_find_slot ub False kv = Some None"
proof -
  have k: "kv_ok kv" "\<not> kv_msa_strict_slots kv" "kv_swa_type kv = SWA_TYPE_NONE" using kv(1) by (simp_all add: plain_cache_def)
  note F = batch_of_cells_fits [OF b k(1) kv(2) ne p]
  have u: "1 \<le> slot_tokens kv ub" "ub_streams_ok kv ub (slot_tokens kv ub) [0..<slot_streams kv ub]"
    "kv_n_stream kv > 1 \<longrightarrow> ub_n_tokens ub mod ub_n_seqs_unq ub = 0" using F(1) by (simp_all add: ub_fits_def)
  note card = free_usable [OF kv(1), of "stream_of kv dest"]
  have s: "seq_to_stream kv ! (ub_seq_id_unq ub ! 0) = stream_of kv dest" using b by (simp add: batch_of_cells_def stream_of_def)
  from find_slot_exact [OF k(1,2) u] show ?thesis
  proof (elim disjE exE conjE)
    fix si assume si: "kv_find_slot ub False kv = Some (Some si)" "si_n_stream si = slot_streams kv ub" "length (si_idxs si) = slot_streams kv ub"
      "\<forall>s < slot_streams kv ub. si_strm si ! s = seq_to_stream kv ! (ub_seq_id_unq ub ! s) \<and>
          is_slot kv (ub_cells kv ub s) (slot_tokens kv ub) (si_idxs si ! s)"
    obtain ixs where ixs: "si_idxs si = [ixs]" using si(3) F(2) by (cases "si_idxs si") auto
    have sl: "is_slot kv (v_cells kv ! stream_of kv dest) (length is) ixs" using si(4) F by (simp add: ixs)
    have "length is \<le> kv_free_cells kv (stream_of kv dest)" using is_slot_card [OF sl] card by simp
    moreover have "si_strm si = [stream_of kv dest]" using si(2,4) F(2) s by (cases "si_strm si") (auto simp: si_n_stream_def)
    moreover have "empty_slot kv si" using find_slot_no_swa [OF k F(1)] si(1) by auto
    ultimately show ?thesis using si(1) ixs sl by (auto simp: is_slot_def)
  next
    fix s assume "kv_find_slot ub False kv = Some None" "s < slot_streams kv ub" "card (usable kv (ub_cells kv ub s)) < slot_tokens kv ub"
    then show ?thesis using F card by auto
  qed
qed

text \<open>The cells after the placement.\<close>

definition seq_placed :: "llama_kv_cache \<Rightarrow> nat \<Rightarrow> int \<Rightarrow> llama_kv_cells \<Rightarrow> nat list \<Rightarrow> nat list \<Rightarrow> llama_kv_cache \<Rightarrow> bool" where
  "seq_placed kv0 st dest c is ixs kv' \<longleftrightarrow> kv_ok kv' \<and> (\<exists>cs hs. kv' = kv0\<lparr>v_cells := cs, v_heads := hs\<rparr>) \<and>
     distinct ixs \<and> length ixs = length is \<and>
     (\<forall>k < length is. ixs ! k < length (kc_pos (v_cells kv0 ! st)) \<and> kc_pos (v_cells kv0 ! st) ! (ixs ! k) = -1 \<and>
        cell_view (v_cells kv' ! st) (ixs ! k) = (kc_pos c ! (is ! k), {nat dest})) \<and>
     (\<forall>t < kv_n_stream kv0. length (kc_pos (v_cells kv' ! t)) = length (kc_pos (v_cells kv0 ! t)) \<and>
        (\<forall>i < length (kc_pos (v_cells kv0 ! t)). \<not> (t = st \<and> i \<in> set ixs) \<longrightarrow> cell_view (v_cells kv' ! t) i = cell_view (v_cells kv0 ! t) i))"

lemma place_seq:
  assumes kv: "plain_cache kv" "kv_seq_ok kv dest" and b: "batch_of_cells dest c is (length is) ub" and ne: "is \<noteq> []"
    and p: "\<And>i. i \<in> set is \<Longrightarrow> 0 \<le> kc_pos c ! i"
    and si: "empty_slot kv si" "si_strm si = [stream_of kv dest]" "si_idxs si = [ixs]" "length ixs = length is"
  shows "\<exists>kv'. kv_apply_ubatch si ub kv = Some kv' \<and> seq_placed kv (stream_of kv dest) dest c is ixs kv'"
proof -
  let ?st = "stream_of kv dest"
  have k: "kv_ok kv" "\<not> kv_msa_strict_slots kv" using kv(1) by (simp_all add: plain_cache_def)
  note F = batch_of_cells_fits [OF b k(1) kv(2) ne p] and B = b [unfolded batch_of_cells_def]
  have sz: "si_size si = length is" "si_n_stream si = 1" using si by (simp_all add: si_size_def si_n_stream_def)
  have tok: "\<forall>i < si_n_stream si * si_size si. tok_ok ub i" using F(1) B by (simp add: sz ub_fits_def)
  have "1 \<le> si_size si" using ne by (simp add: sz Suc_le_eq)
  from apply_ubatch_empty [OF k si(1) this tok] obtain kv' where kv': "kv_apply_ubatch si ub kv = Some kv'" "kv_ok kv'"
    "\<exists>cs hs. kv' = kv\<lparr>v_cells := cs, v_heads := hs\<rparr>"
    "\<forall>st < kv_n_stream kv. only_cells (v_cells kv ! st) (v_cells kv' ! st) (written si (token_slots si) st)" "filled kv' si ub (token_slots si)" by blast
  have st: "?st < kv_n_stream kv" by (rule kv_okD(4) [OF k(1) kv(2)])
  have ix: "distinct ixs" "\<forall>j \<in> set ixs. j < length (kc_pos (v_cells kv ! ?st)) \<and> kc_pos (v_cells kv ! ?st) ! j = -1"
    using si(1) by (simp_all add: empty_slot_def sz si(2,3) cells_size_def)
  have W: "written si (token_slots si) t = (if t = ?st then set ixs else {})" for t
    using si(4) by (auto simp: written_def set_token_slots sz si(2,3) in_set_conv_nth)
  have "cell_view (v_cells kv' ! ?st) (ixs ! k) = (kc_pos c ! (is ! k), {nat dest})" if "k < length is" for k
  proof -
    have "(0, k) \<in> set (token_slots si)" using that by (simp add: set_token_slots sz)
    then have "kc_pos (v_cells kv' ! (si_strm si ! 0)) ! (si_idxs si ! 0 ! k) = ub_pos ub ! (0 * si_size si + k) \<and>
      kc_seq (v_cells kv' ! (si_strm si ! 0)) ! (si_idxs si ! 0 ! k) =
        set (take (ub_n_seq_id ub ! (0 * si_size si + k)) (ub_seq_id ub ! (0 * si_size si + k)))"
      using kv'(5) unfolding filled_def by blast
    then show ?thesis using B that by (simp add: si(2,3) cell_view_def)
  qed
  moreover have "length (kc_pos (v_cells kv' ! t)) = length (kc_pos (v_cells kv ! t)) \<and>
        (\<forall>i < length (kc_pos (v_cells kv ! t)). \<not> (t = ?st \<and> i \<in> set ixs) \<longrightarrow> cell_view (v_cells kv' ! t) i = cell_view (v_cells kv ! t) i)"
    if "t < kv_n_stream kv" for t
    using kv'(4) that by (auto simp: only_cells_def W cell_view_def split: if_splits)
  ultimately show ?thesis using kv'(1-3) ix si(4) unfolding seq_placed_def by (intro exI [of _ kv']) auto
qed

section \<open>The cells of a sequence\<close>

lemma consumes_lift: "f kv = Some (kv', x) \<Longrightarrow> consumes (liftS f) [] kv x kv' []"
  by (simp add: consumes_def liftS_def)

lemma consumes_meta_seq:
  assumes w: "\<And>i. i \<in> set is \<Longrightarrow> cell_wire c i \<and> nat q \<in> kc_seq c ! i \<and> 0 \<le> kc_pos c ! i" and q: "0 \<le> q" "q < 2 ^ 31" "nat q < kv_n_seq_max kv"
    and kv: "plain_cache kv0" "kv_seq_ok kv0 dest" "kv_n_pos_per_embd kv0 = kv_n_pos_per_embd kv" "1 \<le> kv_n_pos_per_embd kv"
    and rm: "kv_seq_rm dest (-1) (-1) dst = Some (kv0, True)" and ne: "is \<noteq> []"
  shows "if length is \<le> kv_free_cells kv0 (stream_of kv0 dest)
    then \<exists>si ixs kv'. consumes (read_meta_seq (stream_of kv0 dest) (length is) dest None) (io_bytes T (concat (map (write_cell_meta kv c q) is))) dst
        (Some si) kv' [] \<and> si_idxs si = [ixs] \<and> seq_placed kv0 (stream_of kv0 dest) dest c is ixs kv'
    else consumes (read_meta_seq (stream_of kv0 dest) (length is) dest None) (io_bytes T (concat (map (write_cell_meta kv c q) is))) dst None kv0 []"
proof -
  let ?n_pos = "kv_n_pos_per_embd kv" and ?st = "stream_of kv0 dest" and ?bs = "io_bytes T (concat (map (write_cell_meta kv c q) is))"
  let ?ub = "tokens_of_cells ?n_pos dest c is (reserved_batch ?n_pos dest (length is))"
  have b: "batch_of_cells dest c is (length is) ?ub" by (intro batch_of_cells_all reserved_batch_cells kv(4))
  have tok: "consumes (read_tokens ?n_pos dest [0..<length is] (reserved_batch ?n_pos dest (length is))) ?bs kv0 (Some ?ub) kv0 []"
    using w by (intro consumes_tokens q) auto
  have p: "\<And>i. i \<in> set is \<Longrightarrow> 0 \<le> kc_pos c ! i" using w by blast
  let ?place = "\<lambda>found. case found of
              None \<Rightarrow> retS None
            | Some si \<Rightarrow>
                bindS (liftS (\<lambda>kv. map_option (\<lambda>kv. (kv, ())) (kv_apply_ubatch si ?ub kv))) (\<lambda>_.
                bindS (getS (seq_restored ?st dest si ?ub (length is))) (\<lambda>ok. assertS ok (retS (Some si))))"
  have pre: "consumes (read_meta_seq ?st (length is) dest None) ?bs dst r kv' []"
    if found: "kv_find_slot ?ub False kv0 = Some found" and place: "consumes (?place found) [] kv0 r kv' []" for found r kv'
  proof -
    have "consumes (liftS (\<lambda>kv. map_option (\<lambda>si. (kv, si)) (kv_find_slot ?ub False kv))) [] kv0 found kv0 []"
      by (rule consumes_lift) (simp add: found)
    from consumes_bind_silent [where f = ?place, OF this place]
    have "consumes (bindS (read_tokens ?n_pos dest [0..<length is] (reserved_batch ?n_pos dest (length is))) (\<lambda>r. case r of
          None \<Rightarrow> retS None
        | Some ub \<Rightarrow>
            bindS (liftS (\<lambda>kv. map_option (\<lambda>si. (kv, si)) (kv_find_slot ub False kv))) (\<lambda>found. case found of
              None \<Rightarrow> retS None
            | Some si \<Rightarrow>
                bindS (liftS (\<lambda>kv. map_option (\<lambda>kv. (kv, ())) (kv_apply_ubatch si ub kv))) (\<lambda>_.
                bindS (getS (seq_restored ?st dest si ub (length is))) (\<lambda>ok. assertS ok (retS (Some si))))))) (?bs @ []) kv0 r kv' ([] @ [])"
      by (intro consumes_bind [OF tok]) simp
    then show ?thesis
      unfolding read_meta_seq_def
      by (intro consumes_bind_silent [OF consumes_lift [where f = "kv_seq_rm dest (-1) (-1)", OF rm]] consumes_bind_silent [OF consumes_get])
        (simp add: kv(3) reserved_batch_def Let_def split_beta)
  qed
  show ?thesis
  proof (cases "length is \<le> kv_free_cells kv0 ?st")
    case True
    with find_seq_slot [OF kv(1,2) b ne p] obtain si ixs where si: "kv_find_slot ?ub False kv0 = Some (Some si)" "empty_slot kv0 si"
      "si_strm si = [?st]" "si_idxs si = [ixs]" "length ixs = length is" by auto
    from place_seq [OF kv(1,2) b ne p si(2-5)] obtain kv' where kv': "kv_apply_ubatch si ?ub kv0 = Some kv'" "seq_placed kv0 ?st dest c is ixs kv'" by blast
    have "seq_restored ?st dest si ?ub (length is) kv'"
      using kv'(2) b si(3-5) by (auto simp: seq_restored_def seq_placed_def batch_of_cells_def list_all_iff si_n_stream_def cell_view_def cells_pos_get_def cells_seq_has_def)
    then have r: "consumes (bindS (getS (seq_restored ?st dest si ?ub (length is))) (\<lambda>ok. assertS ok (retS (Some si)))) [] kv' (Some si) kv' []"
      by (intro consumes_bind_silent [OF consumes_get] consumes_assert consumes_ret)
    have "consumes (liftS (\<lambda>kv. map_option (\<lambda>kv. (kv, ())) (kv_apply_ubatch si ?ub kv))) [] kv0 () kv' []"
      by (rule consumes_lift) (simp add: kv'(1))
    from consumes_bind_silent [OF this r] have "consumes (?place (Some si)) [] kv0 (Some si) kv' []" by simp
    from pre [OF si(1) this] True si(4) kv'(2) show ?thesis by auto
  next
    case False
    have "consumes (?place None) [] kv0 None kv0 []" by (simp add: consumes_ret)
    from pre [OF _ this] find_seq_slot [OF kv(1,2) b ne p] False show ?thesis by simp
  qed
qed

end
