(* ===== verification/Kv_State_Props.thy ===== *)
theory Kv_State_Props
  imports Kv_State_Whole
begin

text \<open>
  What a saved state is worth: the buffer of the announced size is filled exactly, a whole cache
  restored from it has the content of the saved one, cell by cell and byte by byte, and what
  happens to a cache whose restore fails.
\<close>

section \<open>The restored cells\<close>

lemma restored_fold:
  assumes "length (v_cells dst) = kv_n_stream kv" "v_heads dst = replicate (kv_n_stream kv) 0" "k \<le> kv_n_stream kv"
  shows "fold (restored_stream kv) [0..<k] dst = dst\<lparr>v_cells := map (\<lambda>s. if s < k
      then fill_cells kv (v_cells kv ! s) (saved_cells kv s) (v_cells dst ! s) else v_cells dst ! s) [0..<kv_n_stream kv]\<rparr>"
  using assms(3)
proof (induction k)
  case 0
  have "map (\<lambda>s. v_cells dst ! s) [0..<kv_n_stream kv] = v_cells dst"
    using assms(1) map_nth [of "v_cells dst"] by simp
  then show ?case by simp
next
  case (Suc k)
  let ?f = "\<lambda>k s. if s < k then fill_cells kv (v_cells kv ! s) (saved_cells kv s) (v_cells dst ! s) else v_cells dst ! s"
  have k: "k < kv_n_stream kv" using Suc.prems by simp
  have f: "(map (?f k) [0..<kv_n_stream kv])[k := fill_cells kv (v_cells kv ! k) (saved_cells kv k) (v_cells dst ! k)] =
      map (?f (Suc k)) [0..<kv_n_stream kv]"
    by (rule nth_equalityI) (auto simp: nth_list_update' less_Suc_eq)
  have e: "restored_stream kv k (dst\<lparr>v_cells := map (?f k) [0..<kv_n_stream kv]\<rparr>) =
      dst\<lparr>v_cells := (map (?f k) [0..<kv_n_stream kv])[k := fill_cells kv (v_cells kv ! k) (saved_cells kv k) (v_cells dst ! k)]\<rparr>"
  proof (cases "saved_cells kv k = []")
    case True
    have "fill_cells kv (v_cells kv ! k) [] (v_cells dst ! k) = v_cells dst ! k" by (simp add: fill_cells_def)
    then show ?thesis using True k list_update_id [of "map (?f k) [0..<kv_n_stream kv]" k]
      by (simp add: restored_stream_def)
  next
    case False
    have "(replicate (kv_n_stream kv) (0 :: nat))[k := 0] = replicate (kv_n_stream kv) 0"
      using k by (metis list_update_id nth_replicate)
    then show ?thesis using False k assms(2) by (simp add: restored_stream_def on_cells_def)
  qed
  show ?case using Suc by (simp add: e f)
qed

lemma restored_cache_eq:
  assumes "kv_ok dst" "kv_n_stream dst = kv_n_stream kv"
  shows "restored_cache kv dst = dst\<lparr>v_cells := map (\<lambda>s. fill_cells kv (v_cells kv ! s) (saved_cells kv s) (cells_reset (v_cells dst ! s)))
      [0..<kv_n_stream kv], v_heads := replicate (kv_n_stream kv) 0\<rparr>"
proof -
  note D = kv_okD(2,3) [OF assms(1)]
  let ?c = "dst\<lparr>v_cells := map cells_reset (v_cells dst), v_heads := replicate (kv_n_stream dst) 0\<rparr>"
  have "restored_cache kv dst = fold (restored_stream kv) [0..<kv_n_stream kv] ?c"
    by (simp add: restored_cache_def kv_clear_eq [OF D])
  also have "\<dots> = ?c\<lparr>v_cells := map (\<lambda>s. if s < kv_n_stream kv
      then fill_cells kv (v_cells kv ! s) (saved_cells kv s) (v_cells ?c ! s) else v_cells ?c ! s) [0..<kv_n_stream kv]\<rparr>"
    using D assms(2) by (intro restored_fold) simp_all
  also have "\<dots> = dst\<lparr>v_cells := map (\<lambda>s. fill_cells kv (v_cells kv ! s) (saved_cells kv s) (cells_reset (v_cells dst ! s)))
      [0..<kv_n_stream kv], v_heads := replicate (kv_n_stream kv) 0\<rparr>"
    using D assms(2) by simp
  finally show ?thesis .
qed

text \<open>The cells of a restored stream, the size of the stream, the cells in use.\<close>

lemma restored_filled:
  assumes src: "source_ok kv layers T" and dst: "kv_ok dst" "target_ok kv dst layers T'" and s: "s < kv_n_stream kv"
  shows "cells_filled kv (v_cells kv ! s) (saved_cells kv s) (v_cells (restored_cache kv dst) ! s)"
    "length (kc_pos (v_cells (restored_cache kv dst) ! s)) = length (kc_pos (v_cells dst ! s))"
proof -
  have n: "kv_n_stream dst = kv_n_stream kv" using dst(2) by (simp add: target_ok_def)
  have e: "v_cells (restored_cache kv dst) ! s = fill_cells kv (v_cells kv ! s) (saved_cells kv s) (cells_reset (v_cells dst ! s))"
    using s by (simp add: restored_cache_eq [OF dst(1) n])
  have kv: "kv_ok kv" using src by (simp add: source_ok_def)
  have ok: "cells_ok (v_cells kv ! s)" "cells_ok (v_cells dst ! s)" using kv_okD(5) [OF kv s] kv_okD(5) [OF dst(1)] s n by simp_all
  have "length (saved_cells kv s) \<le> length (kc_pos (cells_reset (v_cells dst ! s)))"
    using dst(2) s by (simp add: target_ok_def cells_reset_def Let_def)
  moreover have "0 \<le> kc_pos (v_cells kv ! s) ! i \<and> kc_seq (v_cells kv ! s) ! i \<subseteq> {..<LLAMA_MAX_SEQ}" if "i \<in> set (saved_cells kv s)" for i
    using cells_okD(4,6) [OF ok(1), of i] that by (auto simp: saved_cells_mem)
  ultimately have "cells_filled kv (v_cells kv ! s) (saved_cells kv s) (fill_cells kv (v_cells kv ! s) (saved_cells kv s) (cells_reset (v_cells dst ! s))) \<and>
     length (kc_pos (fill_cells kv (v_cells kv ! s) (saved_cells kv s) (cells_reset (v_cells dst ! s)))) = length (kc_pos (cells_reset (v_cells dst ! s)))"
    using filled_reset [OF ok(2)] by (intro filled_cells) auto
  then show "cells_filled kv (v_cells kv ! s) (saved_cells kv s) (v_cells (restored_cache kv dst) ! s)"
    "length (kc_pos (v_cells (restored_cache kv dst) ! s)) = length (kc_pos (v_cells dst ! s))"
    unfolding e by (simp_all add: cells_reset_def Let_def)
qed

lemma restored_ok:
  assumes src: "source_ok kv layers T" and dst: "kv_ok dst" "target_ok kv dst layers T'"
  shows "kv_ok (restored_cache kv dst)"
proof -
  have n: "kv_n_stream dst = kv_n_stream kv" using dst(2) by (simp add: target_ok_def)
  note e = restored_cache_eq [OF dst(1) n]
  obtain m where m: "\<forall>st < kv_n_stream kv. cells_size (v_cells dst ! st) = m" using dst(1) n by (auto simp: kv_ok_def)
  have "cells_ok (v_cells (restored_cache kv dst) ! s)" "cells_size (v_cells (restored_cache kv dst) ! s) = m" if "s < kv_n_stream kv" for s
    using restored_filled [OF src dst that] m that by (simp_all add: cells_filled_def cells_size_def)
  moreover have "kv_other (restored_cache kv dst) = None" "kv_n_stream (restored_cache kv dst) = kv_n_stream kv"
    "length (v_cells (restored_cache kv dst)) = kv_n_stream kv" "v_heads (restored_cache kv dst) = replicate (kv_n_stream kv) 0"
    "seq_to_stream (restored_cache kv dst) = seq_to_stream dst"
    using kv_okD(1) [OF dst(1)] n by (simp_all add: e)
  ultimately show ?thesis using dst(1) n by (auto simp: kv_ok_def)
qed

lemma filter_below: "k \<le> n \<Longrightarrow> filter (\<lambda>i. i < k) [0..<n] = [0..<k]"
proof -
  assume "k \<le> n"
  then have "[0..<n] = [0..<k] @ [k..<n]" by (metis add_0 le_add_diff_inverse upt_add_eq_append zero_le)
  then show ?thesis by (simp add: filter_empty_conv)
qed

lemma restored_saved:
  assumes src: "source_ok kv layers T" and dst: "kv_ok dst" "target_ok kv dst layers T'" and s: "s < kv_n_stream kv"
  shows "saved_cells (restored_cache kv dst) s = [0..<length (saved_cells kv s)]"
proof -
  note F = restored_filled [OF src dst s]
  let ?d = "v_cells (restored_cache kv dst) ! s"
  have le: "length (saved_cells kv s) \<le> length (kc_pos ?d)" using dst(2) s F(2) by (simp add: target_ok_def Let_def)
  have "kc_pos ?d ! j \<noteq> -1 \<longleftrightarrow> j < length (saved_cells kv s)" if "j < length (kc_pos ?d)" for j
  proof (cases "j < length (saved_cells kv s)")
    case True
    then have "saved_cells kv s ! j \<in> set (saved_cells kv s)" by simp
    then show ?thesis using F(1) that True by (simp add: cells_filled_def saved_cells_mem)
  qed (use F(1) that in \<open>simp add: cells_filled_def\<close>)
  then have "saved_cells (restored_cache kv dst) s = filter (\<lambda>i. i < length (saved_cells kv s)) [0..<length (kc_pos ?d)]"
    unfolding saved_cells_def [of "restored_cache kv dst"] by (intro filter_cong) auto
  then show ?thesis by (simp add: filter_below [OF le])
qed

section \<open>The restored tensors\<close>

lemma stream_reads_ok:
  assumes src: "source_ok kv layers T" and dst: "target_ok kv dst layers T'" and s: "s < kv_n_stream kv" and ne: "saved_cells kv s \<noteq> []"
  shows "reads_ok (kv_v_trans kv) layers T T' (length (kc_pos (v_cells kv ! s))) (length (kc_pos (v_cells dst ! s))) s s
    (saved_cells kv s) [0..<length (saved_cells kv s)]"
  using src dst s ne by (auto simp: reads_ok_def source_ok_def target_ok_def Let_def saved_cells_mem)

lemma cache_reads_ok:
  assumes src: "source_ok kv layers T" and dst: "target_ok kv dst layers T'"
  shows "sorted_wrt apart (cache_reads kv layers T dst)" "\<forall>r \<in> set (cache_reads kv layers T dst). rfit T' r"
proof -
  have s: "sorted_wrt apart (stream_reads kv layers T dst s) \<and> (\<forall>r \<in> set (stream_reads kv layers T dst s). rfit T' r \<and> tensor_stream (fst r) = s)"
    if s: "s < kv_n_stream kv" for s
    using data_reads_apart [OF stream_reads_ok [OF src dst s]] data_reads_fit [OF stream_reads_ok [OF src dst s]]
    by (cases "saved_cells kv s = []") (simp_all add: stream_reads_def)
  show "\<forall>r \<in> set (cache_reads kv layers T dst). rfit T' r" using s by (auto simp: cache_reads_def)
  show "sorted_wrt apart (cache_reads kv layers T dst)"
    unfolding cache_reads_def
  proof (rule sorted_wrt_concat)
    have "apart a b" if "i < j" "j < kv_n_stream kv" "a \<in> set (stream_reads kv layers T dst i)" "b \<in> set (stream_reads kv layers T dst j)" for i j a b
    proof -
      have "tensor_stream (fst a) = i" "tensor_stream (fst b) = j" using s [of i] s [of j] that by auto
      then show ?thesis using that(1) by (intro apart_tensors) auto
    qed
    then show "sorted_wrt (\<lambda>i j. \<forall>a \<in> set (stream_reads kv layers T dst i). \<forall>b \<in> set (stream_reads kv layers T dst j). apart a b) [0..<kv_n_stream kv]"
      by (simp add: sorted_wrt_iff_nth_less)
  qed (use s in simp)
qed

section \<open>The content of a cache\<close>

text \<open>
  What a stream holds: for every cell in use, in order, the position, the sequences, the
  extension where the model has one, and the bytes of all layers.
\<close>

definition kv_content ::
  "llama_kv_cache \<Rightarrow> kv_layer list \<Rightarrow> kv_tensor tensors \<Rightarrow> nat \<Rightarrow>
   (llama_pos \<times> nat set \<times> llama_kv_cell_ext option \<times> octet list list) list" where
  "kv_content kv layers T s =
     (let c = v_cells kv ! s
      in map (\<lambda>i. (kc_pos c ! i, kc_seq c ! i, if kv_n_pos_per_embd kv > 1 then Some (kc_ext c ! i) else None,
           concat (map (layer_rows (kv_v_trans kv) T (length (kc_pos c)) s i) (numbered layers)))) (saved_cells kv s))"

lemma restored_content:
  assumes src: "source_ok kv layers T" and dst: "kv_ok dst" "target_ok kv dst layers T'" and s: "s < kv_n_stream kv"
  shows "kv_content (restored_cache kv dst) layers (fold tensor_set (cache_reads kv layers T dst) T') s = kv_content kv layers T s"
    (is "kv_content ?kv layers ?U s = _")
proof -
  let ?is = "saved_cells kv s" let ?c = "v_cells kv ! s" let ?d = "v_cells ?kv ! s"
  note F = restored_filled [OF src dst s] and S = restored_saved [OF src dst s]
  have n: "kv_n_stream dst = kv_n_stream kv" using dst(2) by (simp add: target_ok_def)
  have e: "kv_n_pos_per_embd ?kv = kv_n_pos_per_embd kv" "kv_v_trans ?kv = kv_v_trans kv"
    using dst(2) by (simp_all add: restored_cache_eq [OF dst(1) n] target_ok_def)
  have le: "length ?is \<le> length (kc_pos ?d)" using dst(2) s F(2) by (simp add: target_ok_def Let_def)
  have land: "slice (?U t) off (length bs) = bs"
    if "(t, off, bs) \<in> set (data_reads (kv_v_trans kv) layers T (length (kc_pos ?c)) (length (kc_pos ?d)) s s ?is [0..<length ?is])" "?is \<noteq> []" for t off bs
  proof (rule tensor_sets_same [OF cache_reads_ok(2,1) [OF src dst(2)]])
    have "(t, off, bs) \<in> set (stream_reads kv layers T dst s)" using that by (simp add: stream_reads_def F(2))
    then show "(t, off, bs) \<in> set (cache_reads kv layers T dst)" using s unfolding cache_reads_def by auto
  qed
  have seqs: "kc_seq ?c ! i \<subseteq> {..<kv_n_seq_max kv}" if "i < length (kc_pos ?c)" for i
    using src s that by (simp add: source_ok_def Let_def)
  show ?thesis
  proof (rule nth_equalityI)
    fix k assume "k < length (kv_content ?kv layers ?U s)"
    then have k: "k < length ?is" by (simp add: kv_content_def S Let_def)
    then have i: "?is ! k < length (kc_pos ?c)" using saved_cells_mem nth_mem by blast
    have "kc_pos ?d ! k = kc_pos ?c ! (?is ! k)" "kc_seq ?d ! k = kc_seq ?c ! (?is ! k)"
      "kv_n_pos_per_embd kv > 1 \<Longrightarrow> kc_ext ?d ! k = kc_ext ?c ! (?is ! k)"
      using F(1) k le seqs [OF i] by (auto simp: cells_filled_def)
    moreover have "concat (map (layer_rows (kv_v_trans kv) ?U (length (kc_pos ?d)) s k) (numbered layers)) =
        concat (map (layer_rows (kv_v_trans kv) T (length (kc_pos ?c)) s (?is ! k)) (numbered layers))"
    proof (rule arg_cong [OF map_cong [OF refl]])
      fix x assume x: "x \<in> set (numbered layers)"
      have ne: "?is \<noteq> []" using k by auto
      show "layer_rows (kv_v_trans kv) ?U (length (kc_pos ?d)) s k x = layer_rows (kv_v_trans kv) T (length (kc_pos ?c)) s (?is ! k) x"
        using layer_rows_landed [OF stream_reads_ok [OF src dst(2) s ne, folded F(2)] k x land [OF _ ne]] k by simp
    qed
    ultimately show "kv_content ?kv layers ?U s ! k = kv_content kv layers T s ! k"
      using k by (simp add: kv_content_def S Let_def e)
  qed (simp add: kv_content_def S Let_def)
qed

lemma content_positions:
  assumes "cells_ok (v_cells kv ! s)"
  shows "seq_positions (v_cells kv ! s) q = {p. \<exists>S e rows. (p, S, e, rows) \<in> set (kv_content kv layers T s) \<and> q \<in> S}"
  using cells_okD(5) [OF assms]
  by (fastforce simp: seq_positions_def kv_content_def Let_def saved_cells_mem)

section \<open>The buffer\<close>

lemma range_last:
  assumes "(a, b) \<in> set cr" "list_all (\<lambda>(a, b). a < b) cr"
  shows "b - 1 \<in> set (range_cells cr)" "a < b"
proof -
  show "a < b" using assms by (auto simp: list_all_iff)
  then have "b - 1 \<in> set [a..<b]" by auto
  with assms(1) show "b - 1 \<in> set (range_cells cr)" by (force simp: range_cells_def)
qed

lemma op_in_ranges:
  assumes "\<And>i. i \<in> set (range_cells cr) \<Longrightarrow> base + i * row + row \<le> length (T t)" "list_all (\<lambda>(a, b). a < b) cr"
    "\<And>a. a \<in> set (range_cells cr) \<Longrightarrow> off a = base + a * row"
  shows "list_all (op_in T) (over_ranges (\<lambda>(a, b). [Io_Write_Tensor t (off a) ((b - a) * row)]) cr)"
proof -
  have "off a + (b - a) * row \<le> length (T t)" if ab: "(a, b) \<in> set cr" for a b
  proof -
    note l = range_last [OF ab assms(2)]
    have "a \<in> set (range_cells cr)" using ab l(2) by (force simp: range_cells_def)
    then have "off a + (b - a) * row = base + a * row + (b - a) * row" using assms(3) by simp
    also have "\<dots> = base + b * row" using l(2) by (metis add.assoc add_mult_distrib le_add_diff_inverse less_imp_le)
    also have "\<dots> = base + (b - 1) * row + row" using l(2) by (cases b) simp_all
    finally show ?thesis using assms(1) [OF l(1)] by simp
  qed
  then show ?thesis by (auto simp: over_ranges_def list_all_iff)
qed

lemma op_in_data:
  assumes fits: "\<forall>x \<in> set (numbered layers). layer_fits (kv_v_trans kv) T (cells_size (v_cells kv ! s)) s x \<and> v_reach (kv_v_trans kv) (cells_size (v_cells kv ! s)) (snd x)"
    and cr: "\<And>i. i \<in> set (range_cells cr) \<Longrightarrow> i < cells_size (v_cells kv ! s)" "list_all (\<lambda>(a, b). a < b) cr"
  shows "list_all (op_in T) (kv_write_data kv layers s cr)"
proof -
  let ?m = "cells_size (v_cells kv ! s)" let ?vt = "kv_v_trans kv"
  have rows: "list_all (op_in T) (write_rows t row cr)" if "?m * row \<le> length (T t)" for t row
    using op_in_ranges [of cr 0 row T t "\<lambda>a. a * row"] row_bound [OF cr(1) that] cr(2) by (simp add: write_rows_def)
  have F: "layer_fits ?vt T ?m s (l, layer)" "v_reach ?vt ?m layer" if "(l, layer) \<in> set (numbered layers)" for l layer
    using fits that by auto
  have "\<forall>x \<in> set (numbered layers). list_all (op_in T) (write_k s cr x)"
    using F(1) rows by (fastforce simp: write_k_def layer_fits_def)
  moreover have "\<forall>x \<in> set (numbered layers). list_all (op_in T) (write_k_idx s cr x)"
    using F(1) rows by (fastforce simp: write_k_idx_def layer_fits_def split: option.splits)
  moreover have "\<forall>x \<in> set (numbered layers). list_all (op_in T) (write_v s cr x)" if "\<not> ?vt"
    using F(1) rows that by (fastforce simp: write_v_def layer_fits_def split: option.splits)
  moreover have "list_all (op_in T) (write_v_trans ?m s cr (l, layer))" if vt: "?vt" and x: "(l, layer) \<in> set (numbered layers)" for l layer
  proof (cases "kl_v layer")
    case (Some vi)
    let ?el = "vi_size_el vi"
    have reach: "?m * vi_n_embd_gqa vi * ?el \<le> 2 ^ 32" and fit: "?m * vi_n_embd_gqa vi * ?el \<le> length (T (V_Stream l s))"
      using F [OF x] vt by (simp_all add: v_reach_def layer_fits_def Some)
    have "list_all (op_in T) (over_ranges (\<lambda>(a, b). [Io_Write_Tensor (V_Stream l s) (v_src_offset ?m ?el j a) ((b - a) * ?el)]) cr)"
      if j: "j < vi_n_embd_gqa vi" for j
      using op_in_ranges [of cr "j * ?m * ?el" ?el T "V_Stream l s" "v_src_offset ?m ?el j"] trans_bound [OF cr(1) j fit]
        v_src_exact [OF cr(1) j reach] cr(2) by (simp add: algebra_simps)
    then show ?thesis by (auto simp: write_v_trans_def Some list_all_iff)
  qed (simp add: write_v_trans_def)
  ultimately show ?thesis by (auto simp: kv_write_data_def list_all_iff)
qed

end
