(* ===== verification/Kv_State_Restore.thy ===== *)
theory Kv_State_Restore
  imports Kv_State_Props
begin

text \<open>
  The properties of a saved state: the announced size, the round trip of a whole cache, the
  reach of the 32-bit offsets of a transposed V, and the ways a restore can fail.
\<close>

section \<open>Every save\<close>

lemma write_stream_in:
  assumes src: "source_ok kv layers T" and s: "s < kv_n_stream kv" and ops: "write_stream kv layers q s = Some ops"
  shows "list_all (op_in T) ops"
proof -
  obtain cr where cr: "range_cells cr = filter (save_cell kv (v_cells kv ! s) q) [0..<cells_size (v_cells kv ! s)]" "list_all (\<lambda>(a, b). a < b) cr"
    "ops = Io_Write (u32_bytes (length (range_cells cr))) # (if range_cells cr = [] then [] else state_write_meta kv s cr q @ kv_write_data kv layers s cr)"
    using write_stream_ranges [of kv s q layers] ops by auto
  have "list_all (op_in T) (kv_write_data kv layers s cr)"
    using src s by (intro op_in_data cr(2)) (auto simp: source_ok_def Let_def cells_size_def cr(1))
  moreover have "list_all (op_in T) (state_write_meta kv s cr q)"
    unfolding state_write_meta_def over_ranges_cells
    by (auto simp: list_all_iff write_cell_meta_def Let_def)
  ultimately show ?thesis by (simp add: cr(3))
qed

lemma all_some_in: "all_some xs = Some ys \<Longrightarrow> (\<And>x y. x \<in> set xs \<Longrightarrow> x = Some y \<Longrightarrow> P y) \<Longrightarrow> \<forall>y \<in> set ys. P y"
  by (induction xs arbitrary: ys) (auto split: option.splits)

lemma state_write_in:
  assumes src: "source_ok kv layers T"
  shows "\<exists>ops. kv_state_write kv layers q = Some ops \<and> list_all (op_in T) ops"
proof -
  obtain opss where o: "all_some (map (write_stream kv layers q) [0..<kv_n_stream kv]) = Some opss" using write_streams_some by blast
  have "kv_other kv = None" using src kv_okD(1) by (auto simp: source_ok_def)
  moreover have "\<forall>ops \<in> set opss. list_all (op_in T) ops"
    by (rule all_some_in [OF o]) (auto intro: write_stream_in [OF src])
  ultimately show ?thesis using o by (auto simp: kv_state_write_def list_all_iff)
qed

text \<open>A save into a buffer, seen from outside.\<close>

definition save_exact :: "nat option \<Rightarrow> (octet list \<Rightarrow> (octet list \<times> nat) option) \<Rightarrow> bool" where
  "save_exact announced save \<longleftrightarrow>
     (case announced of
        None \<Rightarrow> False
      | Some n \<Rightarrow> \<exists>bytes. length bytes = n \<and>
          (\<forall>buf. if n \<le> length buf then save buf = Some (bytes @ drop n buf, n) else \<exists>buf'. save buf = Some (buf', 0)))"

lemma host_save_ops:
  assumes "list_all (op_in T) ops"
  shows "save_exact (Some (io_size ops)) (\<lambda>buf. Some (host_save T ops buf))"
proof -
  have "host_save T ops buf = (io_bytes T ops @ drop (io_size ops) buf, io_size ops)" if "io_size ops \<le> length buf" for buf
    using host_save_exact(1) [OF assms that] length_io_bytes [OF assms] by (simp add: put_def)
  moreover have "\<exists>buf'. host_save T ops buf = (buf', 0)" if "\<not> io_size ops \<le> length buf" for buf
    using host_save_exact(2) [OF assms, of buf] that by (metis not_le prod.collapse)
  ultimately show ?thesis
    using length_io_bytes [OF assms] by (auto simp: save_exact_def intro!: exI [of _ "io_bytes T ops"])
qed

text \<open>
  C20. The size that \<open>state_get_size\<close> announces is exactly the size of the saved state: no
  assertion of the save fails, every buffer of at least that size receives the same bytes and
  keeps what is behind them, and with a smaller buffer the save reports 0. The same holds for
  the state of one sequence.
\<close>

theorem state_size_exact:
  assumes "source_ok kv layers T"
  shows "save_exact (state_get_size arch kv layers) (state_get_data arch kv layers T) \<and>
    save_exact (state_seq_get_size q kv layers) (state_seq_get_data q kv layers T)"
proof -
  obtain w where w: "kv_state_write kv layers (-1) = Some w" "list_all (op_in T) w" using state_write_in [OF assms] by blast
  obtain u where u: "kv_state_write kv layers q = Some u" "list_all (op_in T) u" using state_write_in [OF assms] by blast
  have "list_all (op_in T) (io_write_string arch @ w)" "list_all (op_in T) ([Io_Write (u32_bytes io_magic), Io_Write (i32_bytes q)] @ u)"
    using w u by (simp_all add: io_write_string_def)
  from this [THEN host_save_ops] show ?thesis
    by (simp add: state_get_size_def state_get_data_def [abs_def] ctx_write_data_def state_seq_get_size_def state_seq_get_data_def [abs_def]
        seq_write_data_def w(1) u(1))
qed

definition demo_layer :: kv_layer where
  "demo_layer = \<lparr>kl_k_type = 1, kl_k_size_row = 2, kl_k_idx = None,
     kl_v = Some \<lparr>vi_type = 1, vi_size_row = 4, vi_size_el = 2, vi_n_embd_gqa = 2\<rparr>\<rparr>"

definition demo_bytes :: "kv_tensor tensors" where
  "demo_bytes t = (case t of K_Stream l s \<Rightarrow> map word_of_nat [0..<6] | _ \<Rightarrow> map word_of_nat [10..<22])"

lemma demo_ext: "kc_ext cells_demo = [ext_default, ext_default, ext_default]"
  by (simp add: cells_demo_def cells_resize_def cells_reset_def cells_new_def vec_resize_def Let_def numeral_eq_Suc)

lemma demo_cells:
  "\<forall>i < length (kc_pos cells_demo). cell_wire cells_demo i \<and> kc_seq cells_demo ! i \<subseteq> {..<3}" "length (kc_pos cells_demo) = 3"
  by (simp_all add: cells_demo_fields demo_ext cell_wire_def is_i32_def ext_default_def LLAMA_TOKEN_NULL_def All_less_Suc)

lemma demo_fields:
  "v_cells kv_demo = [cells_demo]" "kv_n_stream kv_demo = 1" "kv_n_seq_max kv_demo = 3" "kv_n_pos_per_embd kv_demo = 1"
  by (simp_all add: kv_demo_def)

lemma demo_layer_ok: "layer_ok demo_layer" "layer_fits vt demo_bytes 3 s (l, demo_layer)" "v_reach vt 3 demo_layer"
  by (simp_all add: demo_layer_def layer_ok_def layer_fits_def v_reach_def demo_bytes_def is_i32_def)

lemma demo_source: "source_ok (kv_demo\<lparr>kv_v_trans := vt\<rparr>) [demo_layer] demo_bytes"
proof -
  have "kv_ok (kv_demo\<lparr>kv_v_trans := vt\<rparr>)" using kv_demo_ok by (simp add: kv_ok_def)
  then show ?thesis
    using demo_cells(1) by (simp add: source_ok_def demo_fields demo_cells(2) demo_layer_ok numbered_def Let_def)
qed

theorem state_size_exact_witness:
  "save_exact (state_get_size [65] (kv_demo\<lparr>kv_v_trans := False\<rparr>) [demo_layer])
     (state_get_data [65] (kv_demo\<lparr>kv_v_trans := False\<rparr>) [demo_layer] demo_bytes) \<and>
   save_exact (state_seq_get_size 2 (kv_demo\<lparr>kv_v_trans := False\<rparr>) [demo_layer])
     (state_seq_get_data 2 (kv_demo\<lparr>kv_v_trans := False\<rparr>) [demo_layer] demo_bytes)"
  by (rule state_size_exact [OF demo_source])

section \<open>The round trip\<close>

lemma target_ok_lengths: "(\<And>t. length (T'' t) = length (T' t)) \<Longrightarrow> target_ok kv dst layers T' \<Longrightarrow> target_ok kv dst layers T''"
proof -
  assume l: "\<And>t. length (T'' t) = length (T' t)" and t: "target_ok kv dst layers T'"
  have "layer_fits vt T'' n s x = layer_fits vt T' n s x" for vt n s x
    unfolding layer_fits_def l ..
  with t show ?thesis by (simp add: target_ok_def)
qed

text \<open>The restored cache and tensors themselves.\<close>

lemma whole_restored:
  assumes src: "source_ok kv layers T" and dst: "kv_ok dst" "target_ok kv dst layers T'"
    and arch: "length arch < 2 ^ 32" and buf: "state_get_size arch kv layers = Some (length buf)"
  shows "\<exists>bytes. state_get_data arch kv layers T buf = Some (bytes, length buf) \<and>
    state_set_data arch bytes layers dst T' =
      Some (length buf, restored_cache kv dst, fold tensor_set (cache_reads kv layers T dst) (\<lambda>t. replicate (length (T' t)) 0))"
proof -
  obtain ops where w: "kv_state_write kv layers (-1) = Some ops" "list_all (op_in T) ops" using state_write_in [OF src] by blast
  let ?ops = "io_write_string arch @ ops"
  have size: "length buf = io_size ?ops" using buf by (simp add: state_get_size_def ctx_write_data_def w)
  have in_ops: "list_all (op_in T) ?ops" using w(2) by (simp add: io_write_string_def)
  let ?bytes = "io_bytes T ?ops"
  have "host_save T ?ops buf = (?bytes, length buf)"
    using host_save_exact(1) [OF in_ops, of buf] length_io_bytes [OF in_ops] size by (simp add: put_def)
  then have get: "state_get_data arch kv layers T buf = Some (?bytes, length buf)"
    by (simp add: state_get_data_def ctx_write_data_def w)
  let ?kv = "restored_cache kv dst" let ?Z = "\<lambda>t. replicate (length (T' t)) (0 :: octet)"
  let ?U = "fold tensor_set (cache_reads kv layers T dst) ?Z"
  have "consumes (ctx_read_data arch layers) ((u32_bytes (length arch) @ arch) @ io_bytes T ops) (dst, T') () (?kv, ?Z) ([] @ cache_reads kv layers T dst)"
    unfolding ctx_read_data_def
    by (rule consumes_bind [OF consumes_string [OF arch]]) (simp add: consumes_whole [OF src dst w(1)])
  then have c: "consumes (ctx_read_data arch layers) ?bytes (dst, T') () (?kv, ?Z) (cache_reads kv layers T dst)"
    by (simp add: io_write_string_def)
  have "ctx_read_data arch layers ((dst, T'), host_reader_new ?bytes) =
      (Ret (), (?kv, ?Z), \<lparr>hr_in = [], hr_rinfos = cache_reads kv layers T dst, hr_size_read = length ?bytes\<rparr>)"
    using c [unfolded consumes_def, rule_format, of "[]" "[]" 0] by (simp add: host_reader_new_def)
  then have set: "state_set_data arch ?bytes layers dst T' = Some (length buf, ?kv, ?U)"
    using length_io_bytes [OF in_ops] size by (simp add: state_set_data_def host_load_def host_reader_destroy_def)
  with get show ?thesis by blast
qed


lemma demo_saved: "saved_cells (kv_demo\<lparr>kv_v_trans := vt\<rparr>) 0 = [0, 1]"
  by (simp add: saved_cells_def demo_fields cells_demo_fields)

lemma demo_target:
  "target_ok (kv_demo\<lparr>kv_v_trans := True\<rparr>) (kv_demo\<lparr>kv_v_trans := True\<rparr>) [demo_layer] (\<lambda>_. replicate 12 0)"
  using demo_saved [of True]
  by (simp add: target_ok_def demo_fields demo_cells(2) layer_fits_def v_reach_def numbered_def demo_layer_def Let_def)


section \<open>The reach of a transposed V\<close>

lemma last_element: "0 < m \<Longrightarrow> 0 < ne \<Longrightarrow> (m - 1) + (ne - 1) * m = m * ne - (1 :: nat)"
  by (cases m; cases ne) (simp_all add: algebra_simps)

lemma element_le: "i < m \<Longrightarrow> j < ne \<Longrightarrow> i + j * m \<le> m * ne - (1 :: nat)"
proof -
  assume "i < m" "j < ne"
  then have "i + j * m \<le> (m - 1) + (ne - 1) * m" by (intro add_mono mult_right_mono) auto
  then show ?thesis using last_element [of m ne] \<open>i < m\<close> \<open>j < ne\<close> by simp
qed

text \<open>Element \<open>j\<close> of cell \<open>i\<close> of a transposed V of \<open>m\<close> cells is at byte \<open>(i + j * m) * el\<close>.\<close>

definition offsets_exact :: "(nat \<Rightarrow> nat \<Rightarrow> nat) \<Rightarrow> nat \<Rightarrow> nat \<Rightarrow> nat \<Rightarrow> bool" where
  "offsets_exact offset m ne el \<longleftrightarrow> (\<forall>j < ne. \<forall>i < m. offset j i = (i + j * m) * el)"

text \<open>
  The restore computes the offsets of a transposed V exactly as long as the number of its
  elements fits 32 bits, the save only as long as the last offset in bytes does: it multiplies by
  the element size before it widens.
\<close>

lemma v_trans_offsets:
  assumes "0 < m" "0 < ne" "0 < el"
  shows "(offsets_exact (v_dst_offset m el) m ne el \<longleftrightarrow> m * ne - 1 < 2 ^ 32) \<and>
    (offsets_exact (v_src_offset m el) m ne el \<longleftrightarrow> (m * ne - 1) * el < 2 ^ 32)"
  unfolding offsets_exact_def
proof (intro conjI iffI allI impI)
  let ?i = "m - 1" and ?j = "ne - 1"
  have ij: "?i < m" "?j < ne" using assms by auto
  note e = last_element [OF assms(1,2)]
  show "m * ne - 1 < 2 ^ 32" if "\<forall>j < ne. \<forall>i < m. v_dst_offset m el j i = (i + j * m) * el"
  proof -
    have "v_dst_offset m el ?j ?i = (?i + ?j * m) * el" using that ij by blast
    then have "(m * ne - 1) mod 2 ^ 32 * el = (m * ne - 1) * el" unfolding v_dst_offset_def e .
    then have "(m * ne - 1) mod 2 ^ 32 = m * ne - 1" using assms(3) by simp
    then show ?thesis by (metis mod_less_divisor zero_less_numeral zero_less_power)
  qed
  show "(m * ne - 1) * el < 2 ^ 32" if "\<forall>j < ne. \<forall>i < m. v_src_offset m el j i = (i + j * m) * el"
  proof -
    have "v_src_offset m el ?j ?i = (?i + ?j * m) * el" using that ij by blast
    then have "(m * ne - 1) * el mod 2 ^ 32 = (m * ne - 1) * el" unfolding v_src_offset_def e .
    then show ?thesis by (metis mod_less_divisor zero_less_numeral zero_less_power)
  qed
next
  fix j i assume "m * ne - 1 < 2 ^ 32" "j < ne" "i < m"
  with element_le [of i m j ne] show "v_dst_offset m el j i = (i + j * m) * el" by (simp add: v_dst_offset_def)
next
  fix j i assume b: "(m * ne - 1) * el < 2 ^ 32" and ij: "j < ne" "i < m"
  have "(i + j * m) * el \<le> (m * ne - 1) * el" using element_le [of i m j ne] ij by (intro mult_right_mono) auto
  then have "(i + j * m) * el < 2 ^ 32" using b by (rule le_less_trans)
  then show "v_src_offset m el j i = (i + j * m) * el" unfolding v_src_offset_def by (rule mod_less)
qed

lemma v_trans_offsets_witness:
  "offsets_exact (v_dst_offset 524288 2) 524288 8192 2 \<and> \<not> offsets_exact (v_src_offset 524288 2) 524288 8192 2"
  using v_trans_offsets [of 524288 8192 2] by simp

section \<open>Failed restores\<close>

text \<open>Triples: no abort, \<open>R\<close> of a result and the cache it leaves, \<open>Q\<close> of an exception.\<close>

definition triple ::
  "('s \<Rightarrow> bool) \<Rightarrow> ('a, 's, 't) io_m \<Rightarrow> ('a \<Rightarrow> 's \<Rightarrow> bool) \<Rightarrow> (exc \<Rightarrow> 's \<Rightarrow> bool) \<Rightarrow> bool" where
  "triple P m R Q \<longleftrightarrow>
     (\<forall>kv r. P kv \<longrightarrow> (case m (kv, r) of (Ret x, kv', _) \<Rightarrow> R x kv' | (Throw e, kv', _) \<Rightarrow> Q e kv' | (Abort, _) \<Rightarrow> False))"

named_theorems triple_intros \<open>triples of the composed computations\<close>

lemma triple_bind: "triple P m R' Q \<Longrightarrow> (\<And>x. triple (R' x) (f x) R Q) \<Longrightarrow> triple P (bindS m f) R Q"
  unfolding triple_def bindS_def by (fastforce split: outcome.splits prod.splits)

lemma triple_ret: "(\<And>kv. P kv \<Longrightarrow> R x kv) \<Longrightarrow> triple P (retS x) R Q"
  by (simp add: triple_def retS_def)

lemma triple_throw: "(\<And>kv. P kv \<Longrightarrow> Q e kv) \<Longrightarrow> triple P (throwS e) R Q"
  by (simp add: triple_def throwS_def)

lemma triple_catch: "triple P m R (\<lambda>_ _. True) \<Longrightarrow> triple (\<lambda>_. True) h R Q \<Longrightarrow> triple P (catchS m h) R Q"
  unfolding triple_def catchS_def by (fastforce split: outcome.splits prod.splits)

lemma triple_return_unless: "(\<And>kv. P kv \<Longrightarrow> R x kv) \<Longrightarrow> (b \<Longrightarrow> triple P m R Q) \<Longrightarrow> triple P (return_unless b x m) R Q"
  by (simp add: return_unless_def triple_ret)

lemma triple_get: "(\<And>kv. P kv \<Longrightarrow> R (f kv) kv) \<Longrightarrow> triple P (getS f) R Q"
  by (simp add: triple_def getS_def)

lemma triple_modify: "(\<And>kv. P kv \<Longrightarrow> R () (f kv)) \<Longrightarrow> triple P (modifyS f) R Q"
  by (simp add: triple_def modifyS_def)

lemma triple_read: "(\<And>kv. P kv \<Longrightarrow> Q EndOfBuffer kv) \<Longrightarrow> triple P (io_read n) (\<lambda>_. P) Q"
  by (simp add: triple_def io_read_def)

lemma triple_tensor: "(\<And>kv. P kv \<Longrightarrow> Q EndOfBuffer kv) \<Longrightarrow> triple P (io_read_tensor t off n) (\<lambda>_. P) Q"
  by (simp add: triple_def io_read_tensor_def)

lemma triple_read_int:
  assumes "\<And>kv. P kv \<Longrightarrow> Q EndOfBuffer kv"
  shows "triple P io_read_u32 (\<lambda>_. P) Q" "triple P io_read_u64 (\<lambda>_. P) Q" "triple P io_read_i32 (\<lambda>_. P) Q"
  unfolding io_read_u32_def io_read_u64_def io_read_i32_def
  by (rule triple_bind [OF triple_read], rule assms, assumption, rule triple_ret, assumption)+

text \<open>Where any cache will do, and running out of bytes is allowed, the loops are fine.\<close>

abbreviation any :: "'a \<Rightarrow> 's \<Rightarrow> bool" where "any \<equiv> \<lambda>_ _. True"

definition calm :: "('a, 's, 't) io_m \<Rightarrow> bool" where
  "calm m \<longleftrightarrow> triple (\<lambda>_. True) m any (\<lambda>e _. e = EndOfBuffer)"

lemma calm_intros [triple_intros]:
  "calm (retS x)" "calm (getS f)" "calm (modifyS g)" "calm (io_read n)" "calm (io_read_tensor t off n)"
  "calm io_read_u32" "calm io_read_u64" "calm io_read_i32"
  by (simp_all add: calm_def triple_ret triple_get triple_modify triple_read triple_tensor triple_read_int)

lemma calm_bind [triple_intros]: "calm m \<Longrightarrow> (\<And>x. calm (f x)) \<Longrightarrow> calm (bindS m f)"
  unfolding calm_def by (rule triple_bind)

lemma calm_unless [triple_intros]: "calm m \<Longrightarrow> calm (return_unless b x m)"
  unfolding calm_def by (rule triple_return_unless) auto

lemma calm_all_ok [triple_intros]: "(\<And>x. calm (f x)) \<Longrightarrow> calm (all_ok f xs)"
  by (induction xs) (simp_all add: triple_intros)

lemma calm_rows [triple_intros]: "calm (read_rows t off row n (front_slot s n))"
proof (cases "n = 0")
  case False
  then show ?thesis by (simp add: read_rows_def front_slot_contiguous triple_intros)
qed (simp add: read_rows_def triple_intros)

lemma calm_data: "calm (kv_read_data layers s n (front_slot s n))"
proof -
  have "calm (read_k s n (front_slot s n) x)" for x
    unfolding read_k_def by (cases x) (simp add: triple_intros)
  moreover have "calm (read_k_idx s n (front_slot s n) x)" for x
    unfolding read_k_idx_def by (cases x) (simp add: triple_intros split: option.split)
  moreover have "calm (read_v s n (front_slot s n) x)" for x
    unfolding read_v_def by (cases x) (simp add: triple_intros split: option.split)
  moreover have "calm (read_v_trans m s n (front_slot s n) x)" for m x
    unfolding read_v_trans_def by (cases x) (simp add: triple_intros split: option.split)
  ultimately show ?thesis
    unfolding kv_read_data_def by (auto intro!: triple_intros)
qed

lemma calm_cells: "calm (all_ok (read_cell n_pos n_seq_max s) xs)"
  unfolding read_cell_def read_seq_id_def io_read_ext_def by (intro triple_intros) (auto intro!: triple_intros)

definition kv_emptied :: "llama_kv_cache \<Rightarrow> bool" where
  "kv_emptied kv \<longleftrightarrow> (\<forall>s < length (v_cells kv). s < kv_n_stream kv \<longrightarrow> (\<forall>p \<in> set (kc_pos (v_cells kv ! s)). p = -1))"

lemma kv_clear_emptied: "kv_emptied (kv_clear kv)"
proof -
  let ?f = "\<lambda>s kv. kv\<lparr>v_cells := (v_cells kv)[s := cells_reset (v_cells kv ! s)], v_heads := (v_heads kv)[s := 0]\<rparr>"
  have "kv_n_stream (fold ?f [0..<k] kv) = kv_n_stream kv \<and>
    (\<forall>s < length (v_cells (fold ?f [0..<k] kv)). s < k \<longrightarrow> (\<forall>p \<in> set (kc_pos (v_cells (fold ?f [0..<k] kv) ! s)). p = -1))" for k
    by (induction k) (auto simp: less_Suc_eq nth_list_update' cells_reset_def Let_def)
  from this [of "kv_n_stream kv"] show ?thesis by (simp add: kv_emptied_def kv_clear_def)
qed

definition failed_ok :: "kv_memory \<Rightarrow> exc \<Rightarrow> kv_memory \<Rightarrow> bool" where
  "failed_ok mem0 e mem \<longleftrightarrow> e = EndOfBuffer \<or> (e = StreamMismatch \<and> mem = mem0) \<or> (e = RestoreFailed \<and> kv_emptied (fst mem))"

lemma calm_triple: "calm m \<Longrightarrow> (\<And>kv. Q EndOfBuffer kv) \<Longrightarrow> triple P m any Q"
  unfolding calm_def triple_def by (fastforce split: outcome.splits prod.splits)

lemma triple_on_cache: "triple (\<lambda>_. True) m (\<lambda>x _. R x) (\<lambda>e _. e = EndOfBuffer) \<Longrightarrow> triple P (on_cache m) (\<lambda>x _. R x) (failed_ok mem0)"
  unfolding triple_def on_cache_def failed_ok_def by (fastforce split: outcome.splits prod.splits)

lemma triple_meta: "triple P (state_read_meta s n (-1) None) (\<lambda>r _. r = None \<or> r = Some (front_slot s n)) (\<lambda>e _. e = EndOfBuffer)"
proof -
  have "triple any' (bindS (all_ok (read_cell n_pos n_seq_max s) [0..<n]) (\<lambda>ok. return_unless ok None
     (bindS (modifyS (\<lambda>kv. kv\<lparr>v_heads := (v_heads kv)[s := 0]\<rparr>)) (\<lambda>_. retS (Some (front_slot s n))))))
     (\<lambda>r _. r = None \<or> r = Some (front_slot s n)) (\<lambda>e _. e = EndOfBuffer)" for any' n_pos n_seq_max
    by (rule triple_bind [OF calm_triple [OF calm_cells]], simp, rule triple_return_unless, simp,
        rule triple_bind [OF triple_modify [where R = any]], simp, rule triple_ret, simp)
  then show ?thesis
    unfolding state_read_meta_def read_meta_whole_def front_slot_def [symmetric]
    by (auto intro!: triple_bind [OF triple_get [where R = any]] triple_return_unless split: prod.split)
qed

lemma triple_stream: "triple P (read_stream layers (-1) (\<lambda>_. None) s) any (failed_ok mem0)"
proof -
  have clear: "triple P (bindS (modifyS clear_data) (\<lambda>_. throwS RestoreFailed)) any (failed_ok mem0)" for P
    by (rule triple_bind [OF triple_modify [where R = "\<lambda>_ mem. kv_emptied (fst mem)"]], simp add: clear_data_def kv_clear_emptied split_beta, rule triple_throw, simp add: failed_ok_def)
  have data: "triple (\<lambda>_. r = None \<or> r = Some (front_slot s n))
      (case r of None \<Rightarrow> retS False | Some si \<Rightarrow> catchS (on_cache (kv_read_data layers s n si)) (retS False)) any (failed_ok mem0)" for r n
  proof (cases r)
    case (Some si)
    show ?thesis
    proof (cases "si = front_slot s n")
      case True
      have "triple P (on_cache (kv_read_data layers s n si)) any any" for P :: "kv_memory \<Rightarrow> bool"
        using triple_on_cache [OF calm_data [unfolded calm_def], of P layers s n undefined] unfolding True by (fastforce simp: triple_def split: outcome.splits prod.splits)
      then show ?thesis by (simp add: Some triple_catch triple_ret)
    qed (simp add: Some triple_def)
  qed (simp add: triple_ret)
  have rest: "triple P (bindS (on_cache (state_read_meta s n (-1) None)) (\<lambda>r.
       bindS (case r of None \<Rightarrow> retS False | Some si \<Rightarrow> catchS (on_cache (kv_read_data layers s n si)) (retS False)) (\<lambda>ok.
       if ok then retS r else bindS (modifyS clear_data) (\<lambda>_. throwS RestoreFailed)))) any (failed_ok mem0)" for n P
  proof (rule triple_bind [OF triple_on_cache [OF triple_meta]], rule triple_bind [OF data])
    fix r ok show "triple (\<lambda>_. True) (if ok then retS r else bindS (modifyS clear_data) (\<lambda>_. throwS RestoreFailed)) any (failed_ok mem0)"
      using clear by (cases ok) (simp_all add: triple_ret)
  qed
  have "triple P (if n = 0 then case None of Some si \<Rightarrow> if si_idxs si \<noteq> [] then throwS MirrorNotEmpty else retS None | None \<Rightarrow> retS None
    else bindS (getS (\<lambda>(kv, T). if (-1 :: int) = -1 then s else stream_of kv (-1))) (\<lambda>strm.
       bindS (on_cache (state_read_meta strm n (-1) None)) (\<lambda>r.
       bindS (case r of None \<Rightarrow> retS False | Some si \<Rightarrow> catchS (on_cache (kv_read_data layers strm n si)) (retS False)) (\<lambda>ok.
       if ok then retS r
       else bindS (if (-1 :: int) = -1 then modifyS clear_data
                   else on_cache (bindS (liftS (kv_seq_rm (-1) (-1) (-1))) (\<lambda>_. retS ()))) (\<lambda>_. throwS RestoreFailed))))) any (failed_ok mem0)" for n P
  proof (cases "n = 0")
    case False
    have "triple (\<lambda>_. strm = s) (bindS (on_cache (state_read_meta strm n (-1) None)) (\<lambda>r.
       bindS (case r of None \<Rightarrow> retS False | Some si \<Rightarrow> catchS (on_cache (kv_read_data layers strm n si)) (retS False)) (\<lambda>ok.
       if ok then retS r else bindS (modifyS clear_data) (\<lambda>_. throwS RestoreFailed)))) any (failed_ok mem0)" for strm
    proof (cases "strm = s")
      case True
      show ?thesis unfolding True by (rule rest)
    qed (simp add: triple_def)
    with False show ?thesis
      by (simp only: if_False case_prod_conv refl if_True) (rule triple_bind [OF triple_get [where R = "\<lambda>x _. x = s"]], simp_all)
  qed (simp add: triple_ret)
  note rest = this
  show ?thesis
    unfolding read_stream_def
  proof (rule triple_bind [OF triple_read_int(1)], simp add: failed_ok_def)
  qed (rule rest)
qed

lemma triple_streams: "triple P (read_streams layers (-1) (\<lambda>_. None) ss) any (failed_ok mem0)"
proof (induction ss arbitrary: P)
  case (Cons s ss)
  show ?case
    unfolding read_streams.simps
    by (rule triple_bind [OF triple_stream], rule triple_bind [OF Cons.IH], rule triple_ret, simp)
qed (simp add: triple_ret)

lemma triple_restore: "kv_other kv = None \<Longrightarrow> triple (\<lambda>mem. mem = (kv, T)) (kv_state_read layers (-1)) any (failed_ok (kv, T))"
proof -
  assume o: "kv_other kv = None"
  let ?m = "bindS io_read_u32 (\<lambda>n_stream_cur.
         if n_stream_cur \<noteq> kv_n_stream kv then throwS StreamMismatch
         else bindS (modifyS clear_data) (\<lambda>_. read_streams layers (-1) (\<lambda>_. None) [0..<kv_n_stream kv]))"
  have "triple (\<lambda>mem. mem = (kv, T)) ?m any (failed_ok (kv, T))"
  proof (rule triple_bind [OF triple_read_int(1)])
    fix n show "triple (\<lambda>mem. mem = (kv, T)) (if n \<noteq> kv_n_stream kv then throwS StreamMismatch
         else bindS (modifyS clear_data) (\<lambda>_. read_streams layers (-1) (\<lambda>_. None) [0..<kv_n_stream kv])) any (failed_ok (kv, T))"
      by (auto intro!: triple_throw triple_bind [OF triple_modify [where R = any] triple_streams] simp: failed_ok_def)
  qed (simp add: failed_ok_def)
  then have "triple (\<lambda>mem. mem = (kv, T)) (state_read_sinfo layers (-1) None) any (failed_ok (kv, T))"
    using o by (simp add: triple_def state_read_sinfo_def assertS_def cong: if_cong)
  then show ?thesis unfolding kv_state_read_def by (rule triple_bind) (rule triple_ret, simp)
qed

text \<open>
  C30. Whatever the bytes, restoring a whole cache never stops the process. If it fails, then
  because the data of a stream did not fit, and no cell is left in use; or because the
  number of streams differs, and cache and tensors are as they were; or because the bytes ran out.
\<close>

theorem kv_restore_failure:
  assumes "kv_other kv = None"
  shows "case kv_state_read layers (-1) ((kv, T), r) of
      (Abort, _) \<Rightarrow> False
    | (Throw e, (kv', T'), _) \<Rightarrow> (e = RestoreFailed \<and> kv_emptied kv') \<or> (e = StreamMismatch \<and> kv' = kv \<and> T' = T) \<or> e = EndOfBuffer
    | (Ret _, _) \<Rightarrow> True"
proof -
  have t: "case kv_state_read layers (-1) ((kv, T), r) of (Ret x, mem, _) \<Rightarrow> True | (Throw e, mem, _) \<Rightarrow> failed_ok (kv, T) e mem | (Abort, _) \<Rightarrow> False"
    using triple_restore [OF assms, of T layers] by (simp add: triple_def)
  obtain out kv' T' r' where e: "kv_state_read layers (-1) ((kv, T), r) = (out, (kv', T'), r')" by (metis prod_cases3 prod.collapse)
  show ?thesis using t unfolding e failed_ok_def by (cases out) auto
qed

theorem kv_restore_failure_witness:
  "\<exists>kv' T' r'. kv_state_read [demo_layer] (-1) ((kv_demo, demo_bytes), host_reader_new (u32_bytes 2)) = (Throw StreamMismatch, (kv', T'), r') \<and>
    kv' = kv_demo \<and> T' = demo_bytes"
proof -
  have o: "kv_other kv_demo = None" by (simp add: kv_demo_def)
  have n: "le_nat (u32_bytes 2) = 2" by (rule u32_roundtrip) simp
  obtain kv' T' r' where e: "kv_state_read [demo_layer] (-1) ((kv_demo, demo_bytes), host_reader_new (u32_bytes 2)) = (Throw StreamMismatch, (kv', T'), r')"
    by (simp add: kv_state_read_def state_read_sinfo_def o bindS_def io_read_u32_def io_read_def host_reader_new_def retS_def assertS_def
        throwS_def demo_fields n)
  with kv_restore_failure [where layers = "[demo_layer]" and T = demo_bytes and r = "host_reader_new (u32_bytes 2)", OF o] show ?thesis by auto
qed

subsection \<open>Bytes that run out\<close>

definition runs_out :: "('a, 's, 't) io_m \<Rightarrow> octet list \<Rightarrow> 's \<Rightarrow> 's \<Rightarrow> bool" where
  "runs_out m bs kv kv' \<longleftrightarrow>
     (\<forall>rs k. \<exists>r. m (kv, \<lparr>hr_in = bs, hr_rinfos = rs, hr_size_read = k\<rparr>) = (Throw EndOfBuffer, kv', r) \<and> hr_rinfos r = rs)"

lemma runs_out_now: "runs_out m bs kv kv' \<Longrightarrow> runs_out (bindS m f) bs kv kv'"
proof -
  assume m: "runs_out m bs kv kv'"
  show ?thesis
    unfolding runs_out_def
  proof (intro allI)
    fix rs k
    from m obtain r where "m (kv, \<lparr>hr_in = bs, hr_rinfos = rs, hr_size_read = k\<rparr>) = (Throw EndOfBuffer, kv', r)" "hr_rinfos r = rs"
      unfolding runs_out_def by blast
    then show "\<exists>r. bindS m f (kv, \<lparr>hr_in = bs, hr_rinfos = rs, hr_size_read = k\<rparr>) = (Throw EndOfBuffer, kv', r) \<and> hr_rinfos r = rs"
      by (simp add: bindS_def)
  qed
qed

lemma runs_out_later: "consumes m bs kv x kv1 [] \<Longrightarrow> runs_out (f x) bs' kv1 kv' \<Longrightarrow> runs_out (bindS m f) (bs @ bs') kv kv'"
  by (simp add: runs_out_def consumes_def bindS_def)

lemma runs_out_silent: "consumes m [] kv x kv1 [] \<Longrightarrow> runs_out (f x) bs kv1 kv' \<Longrightarrow> runs_out (bindS m f) bs kv kv'"
  using runs_out_later [of m "[]"] by simp

lemma runs_out_on_cache: "runs_out m bs kv kv' \<Longrightarrow> runs_out (on_cache m) bs (kv, U) (kv', U)"
  unfolding runs_out_def on_cache_def
  by (metis (no_types, lifting) case_prod_conv)

lemma runs_out_i32: "runs_out io_read_i32 [] kv kv"
  by (simp add: runs_out_def io_read_i32_def bindS_def io_read_def)

text \<open>
  C38. A state that is cut inside the cell information is not cleaned up: restoring one that ends
  where the first sequence id of the first cell should be returns 0 and zeroes the tensors, but
  leaves the first cell of the cache in use, with a position and without any sequence.
\<close>

theorem truncated_restore_leaks:
  assumes ok: "kv_ok dst" and d: "kv_n_pos_per_embd dst = 1" "0 < length (kc_pos (v_cells dst ! 0))" "kv_n_stream dst < 2 ^ 32"
    and arch: "length arch < 2 ^ 32" and p: "0 \<le> p" "p < 2 ^ 31"
  defines "bytes \<equiv> u32_bytes (length arch) @ arch @ u32_bytes (kv_n_stream dst) @ u32_bytes 1 @ i32_bytes p @ u32_bytes 1"
  shows "\<exists>kv'. state_set_data arch bytes layers dst T = Some (0, kv', \<lambda>t. replicate (length (T t)) 0) \<and>
    kc_pos (v_cells kv' ! 0) ! 0 = p \<and> 0 \<in> kc_used (v_cells kv' ! 0) \<and> (\<forall>q. \<not> cells_seq_has (v_cells kv' ! 0) 0 q)"
proof -
  note D = kv_okD(1-3,9) [OF ok]
  have c: "kv_clear dst = dst\<lparr>v_cells := map cells_reset (v_cells dst), v_heads := replicate (kv_n_stream dst) 0\<rparr>"
    by (rule kv_clear_eq [OF D(2,3)])
  let ?kv = "on_cells 0 (cells_pos_set 0 p) (kv_clear dst)" let ?Z = "\<lambda>t. replicate (length (T t)) (0 :: octet)"
  have seq: "runs_out (all_ok (read_seq_id n 0 0) [0..<1]) [] ?kv ?kv" for n
    by (simp add: read_seq_id_def upt_conv_Cons) (intro runs_out_now runs_out_i32)
  have cell: "runs_out (read_cell 1 n 0 0) (i32_bytes p @ u32_bytes 1 @ [] @ [] @ []) (kv_clear dst) ?kv" for n
    unfolding read_cell_def
    by (intro runs_out_later [OF consumes_i32] runs_out_later [OF consumes_u32] runs_out_later [OF consumes_modify])
      (use p seq in \<open>auto simp: is_i32_def intro!: runs_out_later [OF consumes_ret, simplified]\<close>)
  have meta: "runs_out (state_read_meta 0 1 (-1) None) (i32_bytes p @ u32_bytes 1) (kv_clear dst) ?kv"
  proof -
    have "runs_out (all_ok (read_cell 1 n 0) [0..<1]) (i32_bytes p @ u32_bytes 1) (kv_clear dst) ?kv" for n
      using cell [of n] by (simp add: upt_conv_Cons runs_out_now)
    moreover have "1 \<le> cells_size (v_cells (kv_clear dst) ! 0)" "kv_n_pos_per_embd (kv_clear dst) = 1"
      using d D by (simp_all add: c cells_size_def cells_reset_def Let_def Suc_le_eq)
    ultimately have "runs_out (read_meta_whole 0 1 None) ([] @ i32_bytes p @ u32_bytes 1) (kv_clear dst) ?kv"
      unfolding read_meta_whole_def
      by (intro runs_out_later [OF consumes_get]) (simp add: return_unless_def runs_out_now)
    then show ?thesis by (simp add: state_read_meta_def)
  qed
  have "runs_out (read_stream layers (-1) (\<lambda>_. None) 0) (u32_bytes 1 @ i32_bytes p @ u32_bytes 1) (kv_clear dst, ?Z) (?kv, ?Z)"
    unfolding read_stream_def
    by (rule runs_out_later [OF consumes_u32], simp, simp only: one_neq_zero if_False, rule runs_out_silent [OF consumes_get],
        simp only: case_prod_conv refl if_True, rule runs_out_now [OF runs_out_on_cache [OF meta]])
  then have streams: "runs_out (read_streams layers (-1) (\<lambda>_. None) [0..<kv_n_stream dst]) (u32_bytes 1 @ i32_bytes p @ u32_bytes 1) (kv_clear dst, ?Z) (?kv, ?Z)"
    using D(4) by (simp add: upt_conv_Cons runs_out_now)
  have inner: "runs_out (bindS io_read_u32 (\<lambda>n_stream_cur. if n_stream_cur \<noteq> kv_n_stream dst then throwS StreamMismatch
         else bindS (if (-1 :: int) = -1 then modifyS clear_data else retS ()) (\<lambda>_.
           read_streams layers (-1) (\<lambda>s. map_option (\<lambda>sis. sis ! s) None) [0..<kv_n_stream dst])))
      (u32_bytes (kv_n_stream dst) @ u32_bytes 1 @ i32_bytes p @ u32_bytes 1) (dst, T) (?kv, ?Z)"
    by (rule runs_out_later [OF consumes_u32 [OF d(3)]], simp only: refl not_True_eq_False if_False if_True option.map(1),
        rule runs_out_silent [OF consumes_modify], simp only: clear_data_def case_prod_conv, rule streams)
  then have "runs_out (state_read_sinfo layers (-1) None) (u32_bytes (kv_n_stream dst) @ u32_bytes 1 @ i32_bytes p @ u32_bytes 1) (dst, T) (?kv, ?Z)"
    using D(1) by (simp add: runs_out_def state_read_sinfo_def assertS_def)
  then have "runs_out (kv_state_read layers (-1)) (u32_bytes (kv_n_stream dst) @ u32_bytes 1 @ i32_bytes p @ u32_bytes 1) (dst, T) (?kv, ?Z)"
    unfolding kv_state_read_def by (rule runs_out_now)
  then have "runs_out (ctx_read_data arch layers) ((u32_bytes (length arch) @ arch) @ u32_bytes (kv_n_stream dst) @ u32_bytes 1 @ i32_bytes p @ u32_bytes 1) (dst, T) (?kv, ?Z)"
    unfolding ctx_read_data_def by (intro runs_out_later [OF consumes_string [OF arch]]) simp
  then have "\<exists>r. ctx_read_data arch layers ((dst, T), host_reader_new bytes) = (Throw EndOfBuffer, (?kv, ?Z), r) \<and> hr_rinfos r = []"
    unfolding runs_out_def host_reader_new_def bytes_def by simp
  then have "state_set_data arch bytes layers dst T = Some (0, ?kv, ?Z)"
    by (auto simp: state_set_data_def host_load_def host_reader_destroy_def)
  moreover have "v_cells ?kv ! 0 = cells_pos_set 0 p (cells_reset (v_cells dst ! 0))"
    using D by (simp add: on_cells_def c)
  moreover have "kc_seq (cells_reset (v_cells dst ! 0)) ! 0 = {}" "0 < length (kc_pos (cells_reset (v_cells dst ! 0)))"
    using d(2) by (simp_all add: cells_reset_def Let_def)
  ultimately show ?thesis by (intro exI [of _ ?kv]) (simp add: cells_seq_has_def)
qed

theorem truncated_restore_leaks_witness:
  "\<exists>bytes kv'. state_set_data [65] bytes [demo_layer] kv_demo demo_bytes = Some (0, kv', \<lambda>t. replicate (length (demo_bytes t)) 0) \<and>
    kc_pos (v_cells kv' ! 0) ! 0 = 9 \<and> 0 \<in> kc_used (v_cells kv' ! 0) \<and> (\<forall>q. \<not> cells_seq_has (v_cells kv' ! 0) 0 q)"
  using truncated_restore_leaks [OF kv_demo_ok, of "[65]" 9 "[demo_layer]" demo_bytes]
  by (auto simp: demo_fields cells_demo_fields)

end
