(* ===== verification/Kv_State_Seq.thy ===== *)
theory Kv_State_Seq
  imports Kv_State_Tokens Kv_State_Restore
begin

text \<open>
  A single sequence saved and restored, over host buffers: the round trip into any sequence of a
  cache without sliding window, which replaces what this sequence held, and the restore of an
  empty sequence, which does not.
\<close>

section \<open>What is saved\<close>

definition saved_seq :: "llama_kv_cache \<Rightarrow> int \<Rightarrow> nat list" where
  "saved_seq kv q = filter (save_cell kv (v_cells kv ! stream_of kv q) q) [0..<length (kc_pos (v_cells kv ! stream_of kv q))]"

text \<open>The sequence has cells in its own stream only.\<close>

definition at_home :: "llama_kv_cache \<Rightarrow> int \<Rightarrow> bool" where
  "at_home kv q \<longleftrightarrow> kv_seq_ok kv q \<and>
     (\<forall>s < kv_n_stream kv. s \<noteq> stream_of kv q \<longrightarrow> (\<forall>i < length (kc_pos (v_cells kv ! s)). nat q \<notin> kc_seq (v_cells kv ! s) ! i))"

lemma saved_seq_mem: "0 \<le> q \<Longrightarrow> i \<in> set (saved_seq kv q) \<Longrightarrow> i < length (kc_pos (v_cells kv ! stream_of kv q)) \<and>
    kc_pos (v_cells kv ! stream_of kv q) ! i \<noteq> -1 \<and> nat q \<in> kc_seq (v_cells kv ! stream_of kv q) ! i"
  by (auto simp: saved_seq_def save_cell_def cells_is_empty_def cells_seq_has_def)

lemma write_stream_other:
  assumes "at_home kv q" "s < kv_n_stream kv" "s \<noteq> stream_of kv q"
  shows "write_stream kv layers q s = Some [Io_Write (u32_bytes 0)]"
proof -
  have "0 \<le> q" using assms(1) by (simp add: at_home_def kv_seq_ok_def)
  then have "filter (save_cell kv (v_cells kv ! s) q) [0..<cells_size (v_cells kv ! s)] = []"
    using assms by (auto simp: at_home_def filter_empty_conv save_cell_def cells_seq_has_def cells_size_def)
  with write_stream_ranges [of kv s q layers] show ?thesis by auto
qed

lemma write_stream_home:
  "\<exists>cr. range_cells cr = saved_seq kv q \<and> list_all (\<lambda>(a, b). a < b) cr \<and>
    write_stream kv layers q (stream_of kv q) = Some (Io_Write (u32_bytes (length (saved_seq kv q))) #
      (if saved_seq kv q = [] then [] else state_write_meta kv (stream_of kv q) cr q @ kv_write_data kv layers (stream_of kv q) cr))"
proof -
  have e: "filter (save_cell kv (v_cells kv ! stream_of kv q) q) [0..<cells_size (v_cells kv ! stream_of kv q)] = saved_seq kv q"
    by (simp add: saved_seq_def cells_size_def)
  obtain cr where cr: "range_cells cr = saved_seq kv q" "list_all (\<lambda>(a, b). a < b) cr"
    "write_stream kv layers q (stream_of kv q) = Some (Io_Write (u32_bytes (length (range_cells cr))) #
      (if range_cells cr = [] then [] else state_write_meta kv (stream_of kv q) cr q @ kv_write_data kv layers (stream_of kv q) cr))"
    using write_stream_ranges [of kv "stream_of kv q" q layers] unfolding e by blast
  from cr(1,2) cr(3) [unfolded cr(1)] show ?thesis by blast
qed

lemma all_some_map: "(\<And>x. x \<in> set xs \<Longrightarrow> f x = Some (g x)) \<Longrightarrow> all_some (map f xs) = Some (map g xs)"
  by (induction xs) auto

text \<open>The streams before and after the one of the sequence are skipped.\<close>

definition skipped :: "nat \<Rightarrow> octet list" where "skipped n = concat (map (\<lambda>_. u32_bytes 0) [0..<n])"

lemma state_write_seq:
  assumes home: "at_home kv q" and kv: "kv_ok kv" and ops: "write_stream kv layers q (stream_of kv q) = Some ops"
  shows "\<exists>w. kv_state_write kv layers q = Some w \<and>
    io_bytes T w = u32_bytes (kv_n_stream kv) @ skipped (stream_of kv q) @ io_bytes T ops @ skipped (kv_n_stream kv - Suc (stream_of kv q))"
proof -
  let ?s = "stream_of kv q" let ?g = "\<lambda>s. if s = ?s then ops else [Io_Write (u32_bytes 0)]"
  have s: "?s < kv_n_stream kv" using home kv_okD(4) [OF kv] by (simp add: at_home_def)
  have "all_some (map (write_stream kv layers q) [0..<kv_n_stream kv]) = Some (map ?g [0..<kv_n_stream kv])"
    by (rule all_some_map) (use ops write_stream_other [OF home] in auto)
  then have w: "kv_state_write kv layers q = Some (Io_Write (u32_bytes (kv_n_stream kv)) # concat (map ?g [0..<kv_n_stream kv]))"
    by (simp add: kv_state_write_def kv_okD(1) [OF kv])
  have e: "concat (map (\<lambda>s. io_bytes T (?g s)) xs) = concat (map (\<lambda>_. u32_bytes 0) [0..<length xs])" if "?s \<notin> set xs" for xs
  proof -
    have "map (\<lambda>s. io_bytes T (?g s)) xs = map (\<lambda>_. u32_bytes 0) [0..<length xs]"
      using that by (intro nth_equalityI) (auto simp: in_set_conv_nth)
    then show ?thesis by simp
  qed
  have split: "[0..<kv_n_stream kv] = [0..<?s] @ ?s # [Suc ?s..<kv_n_stream kv]"
    using s by (metis add_0 le_add_diff_inverse less_imp_le_nat upt_add_eq_append upt_conv_Cons zero_le)
  have "io_bytes T (concat (map ?g [0..<kv_n_stream kv])) = skipped ?s @ io_bytes T ops @ skipped (kv_n_stream kv - Suc ?s)"
    unfolding io_bytes_concat split by (simp add: e skipped_def comp_def)
  with w show ?thesis by simp
qed

section \<open>Reading the streams\<close>

lemma consumes_skip: "consumes (read_stream layers q (\<lambda>_. None) s) (u32_bytes 0) mem None mem []"
proof -
  have "consumes (read_stream layers q (\<lambda>_. None) s) (u32_bytes 0 @ []) mem None mem ([] @ [])"
    unfolding read_stream_def by (intro consumes_bind [OF consumes_u32]) (simp_all add: consumes_ret)
  then show ?thesis by simp
qed

lemma consumes_skip_streams:
  "consumes (read_streams layers q (\<lambda>_. None) ss') bs mem sis mem' rs \<Longrightarrow>
   consumes (read_streams layers q (\<lambda>_. None) (ss @ ss')) (skipped (length ss) @ bs) mem (map (\<lambda>_. None) ss @ sis) mem' rs"
proof (induction ss)
  case (Cons s ss)
  have "consumes (read_streams layers q (\<lambda>_. None) (s # (ss @ ss'))) (u32_bytes 0 @ (skipped (length ss) @ bs) @ []) mem
      (None # (map (\<lambda>_. None) ss @ sis)) mem' ([] @ rs @ [])"
    unfolding read_streams.simps
    by (rule consumes_bind [OF consumes_skip], rule consumes_bind [OF Cons.IH [OF Cons.prems]], rule consumes_ret)
  then show ?case by (simp add: skipped_def upt_conv_Cons map_Suc_upt [symmetric] comp_def del: upt_Suc)
qed (simp add: skipped_def)

text \<open>A computation that throws, whatever bytes follow, without a tensor read.\<close>

definition raises :: "('a, 's, 't) io_m \<Rightarrow> octet list \<Rightarrow> 's \<Rightarrow> exc \<Rightarrow> 's \<Rightarrow> bool" where
  "raises m bs s e s' \<longleftrightarrow>
     (\<forall>rest rs k. \<exists>r. m (s, \<lparr>hr_in = bs @ rest, hr_rinfos = rs, hr_size_read = k\<rparr>) = (Throw e, s', r) \<and> hr_rinfos r = rs)"

lemma raises_now: "raises m bs s e s' \<Longrightarrow> raises (bindS m f) (bs @ bs') s e s'"
proof -
  assume m: "raises m bs s e s'"
  show ?thesis
    unfolding raises_def
  proof (intro allI)
    fix rest rs k
    from m obtain r where "m (s, \<lparr>hr_in = bs @ bs' @ rest, hr_rinfos = rs, hr_size_read = k\<rparr>) = (Throw e, s', r)" "hr_rinfos r = rs"
      unfolding raises_def by blast
    then show "\<exists>r. bindS m f (s, \<lparr>hr_in = (bs @ bs') @ rest, hr_rinfos = rs, hr_size_read = k\<rparr>) = (Throw e, s', r) \<and> hr_rinfos r = rs"
      by (simp add: bindS_def)
  qed
qed

lemma raises_later: "consumes m bs s x s1 [] \<Longrightarrow> raises (f x) bs' s1 e s' \<Longrightarrow> raises (bindS m f) (bs @ bs') s e s'"
  by (simp add: raises_def consumes_def bindS_def)

lemma raises_silent: "consumes m [] s x s1 [] \<Longrightarrow> raises (f x) bs s1 e s' \<Longrightarrow> raises (bindS m f) bs s e s'"
  using raises_later [of m "[]"] by simp

lemma raises_throw: "raises (throwS e) bs s e s"
  by (simp add: raises_def throwS_def)

lemma raises_skip_streams:
  "raises (read_streams layers q (\<lambda>_. None) ss') bs mem e mem' \<Longrightarrow>
   raises (read_streams layers q (\<lambda>_. None) (ss @ ss')) (skipped (length ss) @ bs) mem e mem'"
proof (induction ss)
  case (Cons s ss)
  have "raises (read_streams layers q (\<lambda>_. None) (s # (ss @ ss'))) (u32_bytes 0 @ (skipped (length ss) @ bs) @ []) mem e mem'"
    unfolding read_streams.simps
    by (rule raises_later [OF consumes_skip], rule raises_now [OF Cons.IH [OF Cons.prems]])
  then show ?case by (simp add: skipped_def upt_conv_Cons map_Suc_upt [symmetric] comp_def del: upt_Suc)
qed (simp add: skipped_def)

section \<open>Restoring into a sequence\<close>

text \<open>A cache the saved sequence can be restored into, as sequence \<open>q'\<close>.\<close>

definition seq_target_ok :: "llama_kv_cache \<Rightarrow> llama_kv_cache \<Rightarrow> kv_layer list \<Rightarrow> kv_tensor tensors \<Rightarrow> int \<Rightarrow> bool" where
  "seq_target_ok kv dst layers T' q' \<longleftrightarrow> plain_cache dst \<and> kv_seq_ok dst q' \<and> kv_n_stream dst = kv_n_stream kv \<and>
     1 \<le> kv_n_pos_per_embd kv \<and> kv_n_pos_per_embd dst = kv_n_pos_per_embd kv \<and> kv_v_trans dst = kv_v_trans kv \<and>
     (let st = stream_of dst q'; m = length (kc_pos (v_cells dst ! st)) in \<forall>x \<in> set (numbered layers).
        layer_fits (kv_v_trans kv) T' m st x \<and> v_reach (kv_v_trans kv) m (snd x))"

text \<open>Removing the sequence first.\<close>

lemma seq_rm_target:
  assumes kv: "plain_cache dst" "kv_seq_ok dst q'"
  shows "\<exists>kv0. kv_seq_rm q' (-1) (-1) dst = Some (kv0, True) \<and> plain_cache kv0 \<and> kv_seq_ok kv0 q' \<and> stream_of kv0 q' = stream_of dst q' \<and>
    (\<exists>cs hs. kv0 = dst\<lparr>v_cells := cs, v_heads := hs\<rparr>) \<and>
    (\<forall>st < kv_n_stream dst. length (kc_pos (v_cells kv0 ! st)) = length (kc_pos (v_cells dst ! st)) \<and>
       (\<forall>i < length (kc_pos (v_cells dst ! st)). cell_view (v_cells kv0 ! st) i =
         (if st = stream_of dst q' then rm_view (nat q') 0 INT32_MAX (cell_view (v_cells dst ! st) i) else cell_view (v_cells dst ! st) i)))"
proof -
  have k: "kv_ok dst" "\<not> kv_msa_strict_slots dst" "kv_swa_type dst = SWA_TYPE_NONE" using kv(1) by (simp_all add: plain_cache_def)
  let ?kv0 = "over_cells (seq_rm_cell (nat q') 0 INT32_MAX) (stream_of dst q') dst"
  have q: "q' \<noteq> -1" "0 \<le> q'" using kv(2) by (auto simp: kv_seq_ok_def)
  have rm: "kv_seq_rm q' (-1) (-1) dst = Some (?kv0, True)"
    using k kv(2) q kv_okD(1) [OF k(1)] by (simp add: kv_seq_rm_def lo_pos_def hi_pos_def INT32_MAX_def Let_def)
  note V = kv_seq_rm_views [OF k(1) kv(2) rm]
  have e: "\<exists>cs hs. ?kv0 = dst\<lparr>v_cells := cs, v_heads := hs\<rparr>" unfolding over_cells_def Let_def split_beta by blast
  then obtain cs hs where e: "?kv0 = dst\<lparr>v_cells := cs, v_heads := hs\<rparr>" by blast
  have "plain_cache ?kv0" using k V by (simp add: plain_cache_def) (simp add: e)
  moreover have "kv_seq_ok ?kv0 q'" "stream_of ?kv0 q' = stream_of dst q'" using kv(2) V by (simp_all add: kv_seq_ok_def stream_of_def)
  ultimately show ?thesis using rm V e by (intro exI [of _ ?kv0]) (auto simp: cells_size_def lo_pos_def hi_pos_def)
qed

lemma rm_view_again: "rm_view s p0 p1 (rm_view s p0 p1 v) = rm_view s p0 p1 v"
  by (cases v) (auto simp: rm_view_def)

text \<open>What the stream of the sequence restores.\<close>

definition seq_reads ::
  "llama_kv_cache \<Rightarrow> kv_layer list \<Rightarrow> kv_tensor tensors \<Rightarrow> int \<Rightarrow> llama_kv_cache \<Rightarrow> int \<Rightarrow> nat list \<Rightarrow> (kv_tensor \<times> nat \<times> octet list) list" where
  "seq_reads kv layers T q dst q' ixs =
     data_reads (kv_v_trans kv) layers T (length (kc_pos (v_cells kv ! stream_of kv q))) (length (kc_pos (v_cells dst ! stream_of dst q')))
       (stream_of kv q) (stream_of dst q') (saved_seq kv q) ixs"

lemma seq_reads_ok:
  assumes src: "source_ok kv layers T" "at_home kv q" and dst: "seq_target_ok kv dst layers T' q'" and ne: "saved_seq kv q \<noteq> []"
    and ixs: "distinct ixs" "length ixs = length (saved_seq kv q)" "\<And>i. i \<in> set ixs \<Longrightarrow> i < length (kc_pos (v_cells dst ! stream_of dst q'))"
  shows "reads_ok (kv_v_trans kv) layers T T' (length (kc_pos (v_cells kv ! stream_of kv q))) (length (kc_pos (v_cells dst ! stream_of dst q')))
    (stream_of kv q) (stream_of dst q') (saved_seq kv q) ixs"
proof -
  have "kv_ok kv" "0 \<le> q" "kv_seq_ok kv q" using src by (auto simp: source_ok_def at_home_def kv_seq_ok_def)
  then have "stream_of kv q < kv_n_stream kv" by (simp add: kv_okD(4))
  with src(1) dst ixs ne saved_seq_mem [OF \<open>0 \<le> q\<close>] show ?thesis
    by (auto simp: reads_ok_def source_ok_def seq_target_ok_def Let_def)
qed

lemma consumes_seq_data:
  assumes src: "source_ok kv layers T" "at_home kv q" and dst: "seq_target_ok kv dst layers T' q'" and ne: "saved_seq kv q \<noteq> []"
    and kv': "length (kc_pos (v_cells kv' ! stream_of dst q')) = length (kc_pos (v_cells dst ! stream_of dst q'))" "kv_v_trans kv' = kv_v_trans kv"
    and ixs: "distinct ixs" "length ixs = length (saved_seq kv q)" "\<And>i. i \<in> set ixs \<Longrightarrow> i < length (kc_pos (v_cells dst ! stream_of dst q'))"
      "si_idxs si = [ixs]"
    and cr: "range_cells cr = saved_seq kv q" "list_all (\<lambda>(a, b). a < b) cr"
  shows "consumes (kv_read_data layers (stream_of dst q') (length (saved_seq kv q)) si) (io_bytes T (kv_write_data kv layers (stream_of kv q) cr)) kv' True kv'
    (seq_reads kv layers T q dst q' ixs)"
proof -
  let ?s = "stream_of kv q" let ?is = "saved_seq kv q" let ?st = "stream_of dst q'"
  have kv: "kv_ok kv" "0 \<le> q" "kv_seq_ok kv q" using src by (auto simp: source_ok_def at_home_def kv_seq_ok_def)
  have s: "?s < kv_n_stream kv" using kv by (simp add: kv_okD(4))
  have L: "\<exists>x \<in> set (numbered layers). snd x = layer" if "layer \<in> set layers" for layer
  proof -
    from that obtain l where "l < length layers" "layer = layers ! l" by (auto simp: in_set_conv_nth)
    then show ?thesis by (intro bexI [of _ "(l, layer)"]) (simp_all add: numbered_set)
  qed
  have le: "length ?is \<le> length (kc_pos (v_cells dst ! ?st))"
  proof -
    have "card (set ixs) \<le> card {..<length (kc_pos (v_cells dst ! ?st))}" using ixs(3) by (intro card_mono) auto
    then show ?thesis using ixs(1,2) by (simp add: distinct_card)
  qed
  have e: "seq_reads kv layers T q dst q' ixs = data_reads (kv_v_trans kv) layers T (cells_size (v_cells kv ! ?s)) (cells_size (v_cells kv' ! ?st)) ?s ?st ?is ixs"
    by (simp add: seq_reads_def cells_size_def kv'(1))
  show ?thesis
    unfolding e
  proof (rule consumes_data [OF _ _ _ _ _ _ _ _ _ _ _ cr kv'(2)])
    show "\<forall>layer \<in> set layers. layer_ok layer" "length layers < 2 ^ 32"
      "\<forall>x \<in> set (numbered layers). layer_fits (kv_v_trans kv) T (cells_size (v_cells kv ! ?s)) ?s x"
      using src(1) s by (auto simp: source_ok_def Let_def cells_size_def)
    show "\<forall>layer \<in> set layers. v_reach (kv_v_trans kv) (cells_size (v_cells kv ! ?s)) layer"
      using src(1) s L by (fastforce simp: source_ok_def Let_def cells_size_def)
    show "\<forall>layer \<in> set layers. v_reach (kv_v_trans kv) (cells_size (v_cells kv' ! ?st)) layer"
      using dst L by (fastforce simp: seq_target_ok_def Let_def cells_size_def kv'(1))
    show "0 < length ?is" using ne by simp
    show "i < cells_size (v_cells kv ! ?s)" if "i \<in> set ?is" for i using saved_seq_mem [OF kv(2) that] by (simp add: cells_size_def)
    show "length ?is \<le> cells_size (v_cells kv' ! ?st)" using le by (simp add: cells_size_def kv'(1))
    show "si_idxs si = [ixs]" "length ixs = length ?is" by (rule ixs)+
    show "i < cells_size (v_cells kv' ! ?st)" if "i \<in> set ixs" for i using ixs(3) [OF that] by (simp add: cells_size_def kv'(1))
  qed
qed

lemma seq_stream:
  assumes src: "source_ok kv layers T" "at_home kv q" "q < 2 ^ 31" and dst: "seq_target_ok kv dst layers T' q'" and ne: "saved_seq kv q \<noteq> []"
    and rm: "kv_seq_rm q' (-1) (-1) dst = Some (kv0, True)" and ops: "write_stream kv layers q (stream_of kv q) = Some ops"
  shows "if length (saved_seq kv q) \<le> kv_free_cells kv0 (stream_of dst q')
    then \<exists>si ixs kv'. consumes (read_stream layers q' (\<lambda>_. None) (stream_of kv q)) (io_bytes T ops) (dst, U) (Some si) (kv', U)
        (seq_reads kv layers T q dst q' ixs) \<and> seq_placed kv0 (stream_of dst q') q' (v_cells kv ! stream_of kv q) (saved_seq kv q) ixs kv'
    else \<exists>kv1. raises (read_stream layers q' (\<lambda>_. None) (stream_of kv q)) (io_bytes T ops) (dst, U) RestoreFailed (kv1, U) \<and>
        kv_seq_rm q' (-1) (-1) kv0 = Some (kv1, True)"
proof -
  let ?s = "stream_of kv q" let ?is = "saved_seq kv q" let ?n = "length ?is" let ?st = "stream_of dst q'" let ?c = "v_cells kv ! ?s"
  have kv: "kv_ok kv" "0 \<le> q" "kv_seq_ok kv q" using src by (auto simp: source_ok_def at_home_def kv_seq_ok_def)
  have s: "?s < kv_n_stream kv" using kv by (simp add: kv_okD(4))
  have d: "plain_cache dst" "kv_seq_ok dst q'" and q': "q' \<noteq> -1" using dst by (auto simp: seq_target_ok_def kv_seq_ok_def)
  from seq_rm_target [OF d] rm have R: "plain_cache kv0" "kv_seq_ok kv0 q'" "stream_of kv0 q' = ?st" "\<exists>cs hs. kv0 = dst\<lparr>v_cells := cs, v_heads := hs\<rparr>"
    "\<forall>st < kv_n_stream dst. length (kc_pos (v_cells kv0 ! st)) = length (kc_pos (v_cells dst ! st))" by auto
  have st: "?st < kv_n_stream dst" using kv_okD(4) d by (simp add: plain_cache_def)
  have e0: "kv_n_pos_per_embd kv0 = kv_n_pos_per_embd kv" "kv_v_trans kv0 = kv_v_trans kv" "1 \<le> kv_n_pos_per_embd kv" using R(4) dst by (auto simp: seq_target_ok_def)
  obtain cr where cr: "range_cells cr = ?is" "list_all (\<lambda>(a, b). a < b) cr"
    "ops = Io_Write (u32_bytes ?n) # state_write_meta kv ?s cr q @ kv_write_data kv layers ?s cr"
    using write_stream_home [of kv q layers] ops ne by auto
  let ?meta = "io_bytes T (concat (map (write_cell_meta kv ?c q) ?is))" let ?data = "io_bytes T (kv_write_data kv layers ?s cr)"
  have bytes: "io_bytes T ops = u32_bytes ?n @ ?meta @ ?data" by (simp add: cr(3) state_write_meta_def over_ranges_cells cr(1))
  have "?n \<le> length (kc_pos ?c)" unfolding saved_seq_def by (rule order_trans [OF length_filter_le]) simp
  then have n: "?n < 2 ^ 32" using src(1) s by (auto simp: source_ok_def Let_def)
  have w: "cell_wire ?c i \<and> nat q \<in> kc_seq ?c ! i \<and> 0 \<le> kc_pos ?c ! i" if "i \<in> set ?is" for i
  proof -
    note i = saved_seq_mem [OF kv(2) that]
    then have "-1 \<le> kc_pos ?c ! i" using cells_okD(4) [OF kv_okD(5) [OF kv(1) s]] by blast
    then have "0 \<le> kc_pos ?c ! i" using i by linarith
    with i src(1) s show ?thesis by (auto simp: source_ok_def Let_def)
  qed
  have qm: "nat q < kv_n_seq_max kv"
  proof -
    obtain i where "i \<in> set ?is" using ne by (cases ?is) auto
    from saved_seq_mem [OF kv(2) this] src(1) s show ?thesis by (auto simp: source_ok_def Let_def)
  qed
  note M = consumes_meta_seq [of ?is ?c q kv kv0 q' dst T, OF w kv(2) src(3) qm R(1,2) e0(1,3) rm ne, unfolded R(3)]
  have meta: "state_read_meta ?st ?n q' None = read_meta_seq ?st ?n q' None" using q' by (simp add: state_read_meta_def)
  have nz: "?n \<noteq> 0" using ne by simp
  show ?thesis
  proof (cases "?n \<le> kv_free_cells kv0 ?st")
    case True
    from M True obtain si ixs kv' where m: "consumes (read_meta_seq ?st ?n q' None) ?meta dst (Some si) kv' []" "si_idxs si = [ixs]"
      "seq_placed kv0 ?st q' ?c ?is ixs kv'" by auto
    note P = m(3) [unfolded seq_placed_def]
    have len: "length (kc_pos (v_cells kv' ! ?st)) = length (kc_pos (v_cells dst ! ?st))" using P R(4,5) st by auto
    have ixs: "distinct ixs" "length ixs = ?n" "i < length (kc_pos (v_cells dst ! ?st))" if "i \<in> set ixs \<or> i = ixs ! 0" for i
      using P R(5) st that ne by (auto simp: in_set_conv_nth)
    have ixs': "distinct ixs" "length ixs = ?n" "\<And>i. i \<in> set ixs \<Longrightarrow> i < length (kc_pos (v_cells dst ! ?st))" using ixs by blast+
    have "kv_v_trans kv' = kv_v_trans kv" using P e0(2) by auto
    from consumes_seq_data [OF src(1,2) dst ne len this ixs' m(2) cr(1,2)]
    have data: "consumes (kv_read_data layers ?st ?n si) ?data kv' True kv' (seq_reads kv layers T q dst q' ixs)" .
    have "consumes (read_stream layers q' (\<lambda>_. None) ?s) (u32_bytes ?n @ [] @ ?meta @ ?data @ []) (dst, U) (Some si) (kv', U)
        ([] @ [] @ [] @ seq_reads kv layers T q dst q' ixs @ [])"
      unfolding read_stream_def
    proof (rule consumes_bind [OF consumes_u32 [OF n]], simp only: nz if_False, rule consumes_bind [OF consumes_get],
        simp only: case_prod_conv q' if_False, rule consumes_bind, rule consumes_on_cache, simp only: meta, rule m(1), rule consumes_bind)
      show "consumes (case Some si of None \<Rightarrow> retS False | Some si \<Rightarrow> catchS (on_cache (kv_read_data layers ?st ?n si)) (retS False))
        ?data (kv', U) True (kv', U) (seq_reads kv layers T q dst q' ixs)"
        using consumes_catch [OF consumes_on_cache [OF data]] by simp
    qed (simp add: consumes_ret)
    with True m(3) show ?thesis unfolding bytes by auto
  next
    case False
    from M False have m: "consumes (read_meta_seq ?st ?n q' None) ?meta dst None kv0 []" by simp
    from seq_rm_target [OF R(1,2)] obtain kv1 where kv1: "kv_seq_rm q' (-1) (-1) kv0 = Some (kv1, True)" by blast
    have lift: "consumes (on_cache (bindS (liftS (kv_seq_rm q' (-1) (-1))) (\<lambda>_. retS ()))) [] (kv0, U) () (kv1, U) []"
      by (intro consumes_on_cache consumes_bind_silent [OF consumes_lift [where f = "kv_seq_rm q' (-1) (-1)", OF kv1]] consumes_ret)
    have fail: "raises (bindS (case None of None \<Rightarrow> retS False | Some si \<Rightarrow> catchS (on_cache (kv_read_data layers ?st ?n si)) (retS False)) (\<lambda>ok.
       if ok then retS r else bindS (on_cache (bindS (liftS (kv_seq_rm q' (-1) (-1))) (\<lambda>_. retS ()))) (\<lambda>_. throwS RestoreFailed))) ?data (kv0, U) RestoreFailed (kv1, U)" for r
      unfolding option.case
      by (rule raises_silent [OF consumes_ret], simp only: if_False) (rule raises_silent [OF lift raises_throw])
    have "raises (read_stream layers q' (\<lambda>_. None) ?s) (u32_bytes ?n @ ?meta @ ?data) (dst, U) RestoreFailed (kv1, U)"
      unfolding read_stream_def
      by (rule raises_later [OF consumes_u32 [OF n]], simp only: nz if_False, rule raises_silent [OF consumes_get],
        simp only: case_prod_conv q' if_False, rule raises_later, rule consumes_on_cache, simp only: meta, rule m, rule fail)
    with False kv1 show ?thesis unfolding bytes by auto
  qed
qed

section \<open>The whole restore\<close>

text \<open>Around the streams: the magic number, the saved sequence id and the number of streams.\<close>

definition seq_header :: "int \<Rightarrow> nat \<Rightarrow> octet list" where
  "seq_header q n = u32_bytes io_magic @ i32_bytes q @ u32_bytes n"

lemma seq_wrapped:
  assumes kv: "kv_other kv = None" "kv_seq_ok kv q'" and q: "is_i32 q" and n: "kv_n_stream kv < 2 ^ 32"
  shows "consumes (read_streams layers q' (\<lambda>_. None) [0..<kv_n_stream kv]) bs (kv, U) sis mem rs \<Longrightarrow>
      consumes (seq_read_data q' layers) (seq_header q (kv_n_stream kv) @ bs) (kv, U) () mem rs"
    "raises (read_streams layers q' (\<lambda>_. None) [0..<kv_n_stream kv]) bs (kv, U) e mem \<Longrightarrow>
      raises (seq_read_data q' layers) (seq_header q (kv_n_stream kv) @ bs) (kv, U) e mem"
proof -
  have q': "q' \<noteq> -1" using kv(2) by (auto simp: kv_seq_ok_def)
  have m: "io_magic < 2 ^ 32" by (simp add: io_magic_def)
  let ?body = "bindS io_read_u32 (\<lambda>n_stream_cur. if n_stream_cur \<noteq> kv_n_stream kv then throwS StreamMismatch
         else bindS (if q' = -1 then modifyS clear_data else retS ()) (\<lambda>_.
           read_streams layers q' (\<lambda>s. map_option (\<lambda>sis. sis ! s) None) [0..<kv_n_stream kv]))"
  have body: "state_read_sinfo layers q' None ((kv, U), r) = ?body ((kv, U), r)" for r
    using kv by (simp add: state_read_sinfo_def assertS_def cong: if_cong)
  {
    assume st: "consumes (read_streams layers q' (\<lambda>_. None) [0..<kv_n_stream kv]) bs (kv, U) sis mem rs"
    have "consumes ?body (u32_bytes (kv_n_stream kv) @ bs) (kv, U) sis mem ([] @ rs)"
      by (rule consumes_bind [OF consumes_u32 [OF n]], simp only: refl not_True_eq_False if_False q' option.map(1))
        (rule consumes_bind_silent [OF consumes_ret], rule st)
    then have "consumes (state_read_sinfo layers q' None) (u32_bytes (kv_n_stream kv) @ bs) (kv, U) sis mem rs"
      by (simp add: consumes_def body)
    from consumes_bind [OF this consumes_ret [of "()"]] have r: "consumes (kv_state_read layers q') (u32_bytes (kv_n_stream kv) @ bs) (kv, U) () mem rs"
      by (simp add: kv_state_read_def)
    have "consumes (seq_read_data q' layers) (u32_bytes io_magic @ i32_bytes q @ u32_bytes (kv_n_stream kv) @ bs) (kv, U) () mem ([] @ [] @ rs)"
      unfolding seq_read_data_def
      by (rule consumes_bind [OF consumes_u32 [OF m]], simp only: refl not_True_eq_False if_False) (rule consumes_bind [OF consumes_i32 [OF q]], rule r)
    then show "consumes (seq_read_data q' layers) (seq_header q (kv_n_stream kv) @ bs) (kv, U) () mem rs" by (simp add: seq_header_def)
  }
  {
    assume st: "raises (read_streams layers q' (\<lambda>_. None) [0..<kv_n_stream kv]) bs (kv, U) e mem"
    have "raises ?body (u32_bytes (kv_n_stream kv) @ bs) (kv, U) e mem"
      by (rule raises_later [OF consumes_u32 [OF n]], simp only: refl not_True_eq_False if_False q' option.map(1))
        (rule raises_silent [OF consumes_ret], rule st)
    then have "raises (state_read_sinfo layers q' None) (u32_bytes (kv_n_stream kv) @ bs) (kv, U) e mem"
      by (simp add: raises_def body)
    from raises_now [OF this, of _ "[]"] have r: "raises (kv_state_read layers q') (u32_bytes (kv_n_stream kv) @ bs) (kv, U) e mem"
      by (simp add: kv_state_read_def)
    have "raises (seq_read_data q' layers) (u32_bytes io_magic @ i32_bytes q @ u32_bytes (kv_n_stream kv) @ bs) (kv, U) e mem"
      unfolding seq_read_data_def
      by (rule raises_later [OF consumes_u32 [OF m]], simp only: refl not_True_eq_False if_False) (rule raises_later [OF consumes_i32 [OF q]], rule r)
    then show "raises (seq_read_data q' layers) (seq_header q (kv_n_stream kv) @ bs) (kv, U) e mem" by (simp add: seq_header_def)
  }
qed

lemma host_loaded:
  "consumes m bs (kv, T) () (kv', T') rs \<Longrightarrow> host_load m bs kv T = Some (length bs, kv', fold tensor_set rs T')"
  "raises m bs (kv, T) e (kv', T') \<Longrightarrow> host_load m bs kv T = Some (0, kv', T')"
proof -
  assume "consumes m bs (kv, T) () (kv', T') rs"
  from this [unfolded consumes_def, rule_format, of "[]" "[]" 0] show "host_load m bs kv T = Some (length bs, kv', fold tensor_set rs T')"
    by (simp add: host_load_def host_reader_new_def host_reader_destroy_def)
next
  assume "raises m bs (kv, T) e (kv', T')"
  from this [unfolded raises_def, rule_format, of "[]" "[]" 0] show "host_load m bs kv T = Some (0, kv', T')"
    by (auto simp: host_load_def host_reader_new_def host_reader_destroy_def)
qed

text \<open>What a save of the sequence makes of a buffer of the announced size.\<close>

lemma saved_seq_bytes:
  assumes src: "source_ok kv layers T" "at_home kv q" and buf: "state_seq_get_size q kv layers = Some (length buf)"
    and ops: "write_stream kv layers q (stream_of kv q) = Some ops"
  shows "\<exists>bytes. state_seq_get_data q kv layers T buf = Some (bytes, length buf) \<and> length bytes = length buf \<and>
    bytes = seq_header q (kv_n_stream kv) @ skipped (stream_of kv q) @ io_bytes T ops @ skipped (kv_n_stream kv - Suc (stream_of kv q))"
proof -
  have kv: "kv_ok kv" using src by (simp add: source_ok_def)
  obtain w where w: "kv_state_write kv layers q = Some w" "list_all (op_in T) w" using state_write_in [OF src(1)] by blast
  let ?w = "[Io_Write (u32_bytes io_magic), Io_Write (i32_bytes q)] @ w"
  have size: "length buf = io_size ?w" using buf by (simp add: state_seq_get_size_def seq_write_data_def w)
  have in_ops: "list_all (op_in T) ?w" using w(2) by simp
  have "host_save T ?w buf = (io_bytes T ?w, length buf)"
    using host_save_exact(1) [OF in_ops, of buf] length_io_bytes [OF in_ops] size by (simp add: put_def)
  moreover have "io_bytes T ?w = seq_header q (kv_n_stream kv) @ skipped (stream_of kv q) @ io_bytes T ops @ skipped (kv_n_stream kv - Suc (stream_of kv q))"
    using state_write_seq [OF src(2) kv ops, of T] w(1) by (simp add: seq_header_def)
  ultimately show ?thesis
    using length_io_bytes [OF in_ops] size by (simp add: state_seq_get_data_def seq_write_data_def w)
qed

lemma stream_split: "s < n \<Longrightarrow> [0..<n] = [0..<s] @ s # [Suc s..<n]"
  by (metis add_0 le_add_diff_inverse less_imp_le_nat upt_add_eq_append upt_conv_Cons zero_le)

lemma skipped_rest: "consumes (read_streams layers q (\<lambda>_. None) ss) (skipped (length ss)) mem (map (\<lambda>_. None) ss) mem []"
  using consumes_skip_streams [of layers q "[]" "[]" mem "[]" mem "[]" ss] by (simp add: consumes_ret)

lemma seq_streams:
  assumes s: "s < n"
  shows "consumes (read_stream layers q (\<lambda>_. None) s) bs mem r mem' rs \<Longrightarrow>
      \<exists>sis. consumes (read_streams layers q (\<lambda>_. None) [0..<n]) (skipped s @ bs @ skipped (n - Suc s)) mem sis mem' rs"
    "raises (read_stream layers q (\<lambda>_. None) s) bs mem e mem' \<Longrightarrow>
      raises (read_streams layers q (\<lambda>_. None) [0..<n]) (skipped s @ bs @ skipped (n - Suc s)) mem e mem'"
proof -
  assume c: "consumes (read_stream layers q (\<lambda>_. None) s) bs mem r mem' rs"
  have "consumes (read_streams layers q (\<lambda>_. None) (s # [Suc s..<n])) (bs @ skipped (length [Suc s..<n]) @ []) mem
      (r # map (\<lambda>_. None) [Suc s..<n]) mem' (rs @ [] @ [])"
    unfolding read_streams.simps by (rule consumes_bind [OF c], rule consumes_bind [OF skipped_rest], rule consumes_ret)
  from consumes_skip_streams [OF this, of "[0..<s]"]
  show "\<exists>sis. consumes (read_streams layers q (\<lambda>_. None) [0..<n]) (skipped s @ bs @ skipped (n - Suc s)) mem sis mem' rs"
    unfolding stream_split [OF s] by (auto simp del: upt_Suc)
next
  assume c: "raises (read_stream layers q (\<lambda>_. None) s) bs mem e mem'"
  have "raises (read_streams layers q (\<lambda>_. None) (s # [Suc s..<n])) (bs @ skipped (length [Suc s..<n])) mem e mem'"
    unfolding read_streams.simps by (rule raises_now [OF c])
  from raises_skip_streams [OF this, of "[0..<s]"]
  show "raises (read_streams layers q (\<lambda>_. None) [0..<n]) (skipped s @ bs @ skipped (n - Suc s)) mem e mem'"
    unfolding stream_split [OF s] by (simp del: upt_Suc)
qed

section \<open>The round trip of a sequence\<close>

lemma placed_positions:
  assumes pl: "seq_placed kv0 (stream_of kv0 dest) dest c is ixs kv'" and kv: "kv_ok kv0" "kv_seq_ok kv0 dest" and t: "t < length (seq_to_stream kv0)"
  shows "kv_positions kv' t = (if t = nat dest then (!) (kc_pos c) ` set is \<union> kv_positions kv0 t else kv_positions kv0 t)"
proof -
  let ?st = "stream_of kv0 dest" let ?u = "seq_to_stream kv0 ! t" let ?c0 = "v_cells kv0 ! ?u" let ?c1 = "v_cells kv' ! ?u"
  note P = pl [unfolded seq_placed_def]
  have st: "?st < kv_n_stream kv0" and u: "?u < kv_n_stream kv0" using kv t by (simp_all add: kv_okD(4,8))
  have e: "seq_to_stream kv' = seq_to_stream kv0" using P by auto
  have len: "cells_size ?c1 = cells_size ?c0" using P u by (simp add: cells_size_def)
  have other: "cell_view ?c1 i = cell_view ?c0 i" if "i < cells_size ?c0" "\<not> (?u = ?st \<and> i \<in> set ixs)" for i
    using P u that by (simp add: cells_size_def)
  have new: "\<exists>k < length is. cell_view ?c1 i = (kc_pos c ! (is ! k), {nat dest}) \<and> kc_seq ?c0 ! i = {}" if "?u = ?st" "i \<in> set ixs" for i
  proof -
    from that(2) obtain k where k: "k < length is" "i = ixs ! k" using P by (auto simp: in_set_conv_nth)
    have "kc_seq ?c0 ! i = {}" using P k that(1) cells_okD(5) [OF kv_okD(5) [OF kv(1) st]] by auto
    then show ?thesis using P k that(1) by auto
  qed
  have home: "?u = ?st" if "t = nat dest" using that by (simp add: stream_of_def)
  show ?thesis
  proof (intro set_eqI iffI)
    fix p assume "p \<in> kv_positions kv' t"
    then obtain i S where i: "i < cells_size ?c0" "cell_view ?c1 i = (p, S)" "t \<in> S" by (auto simp: kv_positions_def seq_positions_view e len)
    show "p \<in> (if t = nat dest then (!) (kc_pos c) ` set is \<union> kv_positions kv0 t else kv_positions kv0 t)"
    proof (cases "?u = ?st \<and> i \<in> set ixs")
      case True
      with new [of i] i show ?thesis by auto
    next
      case False
      with other [OF i(1)] i(2) have "cell_view ?c0 i = (p, S)" by simp
      with i(1,3) have "p \<in> kv_positions kv0 t" by (auto simp: kv_positions_def seq_positions_view)
      then show ?thesis by (cases "t = nat dest") auto
    qed
  next
    fix p assume p: "p \<in> (if t = nat dest then (!) (kc_pos c) ` set is \<union> kv_positions kv0 t else kv_positions kv0 t)"
    then consider "p \<in> kv_positions kv0 t" | "t = nat dest" "p \<in> (!) (kc_pos c) ` set is" by (auto split: if_splits)
    then show "p \<in> kv_positions kv' t"
    proof cases
      case 1
      then obtain i S where i: "i < cells_size ?c0" "cell_view ?c0 i = (p, S)" "t \<in> S" by (auto simp: kv_positions_def seq_positions_view)
      have "\<not> (?u = ?st \<and> i \<in> set ixs)" using new [of i] i by (auto simp: cell_view_def)
      with other [OF i(1)] i(2) have "cell_view ?c1 i = (p, S)" by simp
      with i(1,3) show ?thesis by (auto simp: kv_positions_def seq_positions_view e len)
    next
      case 2
      then obtain k where k: "k < length is" "p = kc_pos c ! (is ! k)" by (auto simp: in_set_conv_nth)
      then have "ixs ! k < cells_size ?c0" "cell_view ?c1 (ixs ! k) = (p, {t})" using P home 2(1) by (simp_all add: cells_size_def)
      then show ?thesis by (auto simp: kv_positions_def seq_positions_view e len)
    qed
  qed
qed

text \<open>Where the bytes go: row by row into the cells \<open>ixs\<close>, nowhere else.\<close>

definition seq_rows ::
  "llama_kv_cache \<Rightarrow> kv_layer list \<Rightarrow> kv_tensor tensors \<Rightarrow> int \<Rightarrow> llama_kv_cache \<Rightarrow> kv_tensor tensors \<Rightarrow> int \<Rightarrow> nat list \<Rightarrow> kv_tensor tensors \<Rightarrow> bool" where
  "seq_rows kv layers T q dst T' q' ixs U \<longleftrightarrow>
     (let vt = kv_v_trans kv; s = stream_of kv q; s' = stream_of dst q'; m = length (kc_pos (v_cells kv ! s)); m' = length (kc_pos (v_cells dst ! s'))
      in (\<forall>x \<in> set (numbered layers). (\<forall>k < length ixs. layer_rows vt U m' s' (ixs ! k) x = layer_rows vt T m s (saved_seq kv q ! k) x) \<and>
           (\<forall>t i. i < m' \<longrightarrow> \<not> (t = s' \<and> i \<in> set ixs) \<longrightarrow> layer_rows vt U m' t i x = layer_rows vt T' m' t i x)))"

lemma seq_rows_landed:
  assumes src: "source_ok kv layers T" "at_home kv q" and dst: "seq_target_ok kv dst layers T' q'" and ne: "saved_seq kv q \<noteq> []"
    and ixs: "distinct ixs" "length ixs = length (saved_seq kv q)" "\<And>i. i \<in> set ixs \<Longrightarrow> i < length (kc_pos (v_cells dst ! stream_of dst q'))"
  shows "seq_rows kv layers T q dst T' q' ixs (fold tensor_set (seq_reads kv layers T q dst q' ixs) T')"
proof -
  note ok = seq_reads_ok [OF src dst ne ixs]
  have land: "slice (fold tensor_set (seq_reads kv layers T q dst q' ixs) T' t) off (length b) = b"
    if "(t, off, b) \<in> set (seq_reads kv layers T q dst q' ixs)" for t off b
    using tensor_sets_same [of "seq_reads kv layers T q dst q' ixs" T'] data_reads_fit(1) [OF ok] data_reads_apart [OF ok] that
    by (simp add: seq_reads_def)
  have elsewhere: "\<forall>r \<in> set (seq_reads kv layers T q dst q' ixs). tensor_stream (fst r) \<noteq> t" if "t \<noteq> stream_of dst q'" for t
    using data_reads_fit(2) [OF ok] that by (auto simp: seq_reads_def)
  show ?thesis
    unfolding seq_rows_def Let_def
  proof (intro ballI conjI allI impI)
    fix x k assume x: "x \<in> set (numbered layers)" and k: "k < length ixs"
    from layer_rows_landed [OF ok _ x land [unfolded seq_reads_def]] k ixs(2)
    show "layer_rows (kv_v_trans kv) (fold tensor_set (seq_reads kv layers T q dst q' ixs) T') (length (kc_pos (v_cells dst ! stream_of dst q'))) (stream_of dst q') (ixs ! k) x =
      layer_rows (kv_v_trans kv) T (length (kc_pos (v_cells kv ! stream_of kv q))) (stream_of kv q) (saved_seq kv q ! k) x"
      by (simp add: seq_reads_def)
  next
    fix x t i assume x: "x \<in> set (numbered layers)" and i: "i < length (kc_pos (v_cells dst ! stream_of dst q'))" "\<not> (t = stream_of dst q' \<and> i \<in> set ixs)"
    show "layer_rows (kv_v_trans kv) (fold tensor_set (seq_reads kv layers T q dst q' ixs) T') (length (kc_pos (v_cells dst ! stream_of dst q'))) t i x =
      layer_rows (kv_v_trans kv) T' (length (kc_pos (v_cells dst ! stream_of dst q'))) t i x"
    proof (cases "t = stream_of dst q'")
      case True
      with layer_rows_other [OF ok i(1) _ x] i(2) show ?thesis by (simp add: seq_reads_def)
    qed (rule layer_rows_elsewhere [OF elsewhere])
  qed
qed

text \<open>A sequence with cells.\<close>

lemma seq_restored_cells:
  assumes src: "source_ok kv layers T" "at_home kv q" "q < 2 ^ 31" "saved_seq kv q \<noteq> []"
    and dst: "seq_target_ok kv dst layers T' q'" "kv_pos_max dst (nat q') < INT32_MAX"
    and buf: "state_seq_get_size q kv layers = Some (length buf)"
  shows "\<exists>bytes kv0 kv' U n. state_seq_get_data q kv layers T buf = Some (bytes, length buf) \<and>
    kv_seq_rm q' (-1) (-1) dst = Some (kv0, True) \<and> state_seq_set_data q' bytes layers dst T' = Some (n, kv', U) \<and> kv_ok kv' \<and>
    (\<forall>t < length (seq_to_stream dst). t \<noteq> nat q' \<longrightarrow> kv_positions kv' t = kv_positions dst t) \<and>
    (if length (saved_seq kv q) \<le> kv_free_cells kv0 (stream_of dst q')
     then n = length buf \<and> kv_positions kv' (nat q') = (!) (kc_pos (v_cells kv ! stream_of kv q)) ` set (saved_seq kv q) \<and>
       (\<exists>ixs. seq_placed kv0 (stream_of dst q') q' (v_cells kv ! stream_of kv q) (saved_seq kv q) ixs kv' \<and> seq_rows kv layers T q dst T' q' ixs U)
     else n = 0 \<and> kv_positions kv' (nat q') = {} \<and> U = T')"
proof -
  let ?st = "stream_of dst q'" let ?c = "v_cells kv ! stream_of kv q" let ?is = "saved_seq kv q"
  have kv: "kv_ok kv" "kv_n_stream kv < 2 ^ 32" using src(1) by (simp_all add: source_ok_def)
  have q: "kv_seq_ok kv q" "is_i32 q" using src(2,3) by (auto simp: at_home_def kv_seq_ok_def is_i32_def)
  have s: "stream_of kv q < kv_n_stream kv" by (rule kv_okD(4) [OF kv(1) q(1)])
  have d: "plain_cache dst" "kv_seq_ok dst q'" "kv_n_stream dst = kv_n_stream kv" using dst(1) by (simp_all add: seq_target_ok_def)
  have ok: "kv_ok dst" using d(1) by (simp add: plain_cache_def)
  have st: "?st < kv_n_stream dst" by (rule kv_okD(4) [OF ok d(2)])
  obtain kv0 where rm: "kv_seq_rm q' (-1) (-1) dst = Some (kv0, True)" "plain_cache kv0" "kv_seq_ok kv0 q'" "stream_of kv0 q' = ?st"
    "\<exists>cs hs. kv0 = dst\<lparr>v_cells := cs, v_heads := hs\<rparr>" "\<forall>st < kv_n_stream dst. length (kc_pos (v_cells kv0 ! st)) = length (kc_pos (v_cells dst ! st))"
    using seq_rm_target [OF d(1,2)] by blast
  have ok0: "kv_ok kv0" and seqs: "seq_to_stream kv0 = seq_to_stream dst" using rm(2,5) by (auto simp: plain_cache_def)
  have q': "nat q' < length (seq_to_stream dst)" "int (nat q') = q'" using d(2) by (auto simp: kv_seq_ok_def)
  have pos0: "kv_positions kv0 t = (if t = nat q' then {} else kv_positions dst t)" if t: "t < length (seq_to_stream dst)" for t
  proof -
    have v: "kv_valid dst (nat q')" using q' by (simp add: kv_valid_def)
    have "p < INT32_MAX \<and> 0 \<le> p" if p: "p \<in> kv_positions dst (nat q')" for p
    proof -
      have "p \<le> kv_pos_max dst (nat q')" using p Max_ge [OF finite_kv_positions p] by (auto simp: kv_pos_max_eq [OF ok v])
      with dst(2) kv_positions_nonneg [OF ok v p] show ?thesis by linarith
    qed
    then have "{p \<in> kv_positions dst (nat q'). p < 0 \<or> INT32_MAX \<le> p} = {}" by force
    then show ?thesis using seq_rm_positions [OF ok d(2) t rm(1)] q'(2) by (auto simp: lo_pos_def hi_pos_def)
  qed
  obtain ops where ops: "write_stream kv layers q (stream_of kv q) = Some ops" using write_stream_home [of kv q layers] by blast
  obtain bytes where b: "state_seq_get_data q kv layers T buf = Some (bytes, length buf)" "length bytes = length buf"
    "bytes = seq_header q (kv_n_stream kv) @ skipped (stream_of kv q) @ io_bytes T ops @ skipped (kv_n_stream kv - Suc (stream_of kv q))"
    using saved_seq_bytes [OF src(1,2) buf ops] by blast
  note wrap = seq_wrapped [OF kv_okD(1) [OF ok] d(2) q(2) kv(2) [folded d(3)], unfolded d(3)]
  note S = seq_stream [OF src(1,2,3) dst(1) src(4) rm(1) ops, of T']
  show ?thesis
  proof (cases "length ?is \<le> kv_free_cells kv0 ?st")
    case True
    with S obtain si ixs kv' where c: "consumes (read_stream layers q' (\<lambda>_. None) (stream_of kv q)) (io_bytes T ops) (dst, T') (Some si) (kv', T')
        (seq_reads kv layers T q dst q' ixs)" "seq_placed kv0 ?st q' ?c ?is ixs kv'" by auto
    from seq_streams(1) [OF s c(1)] obtain sis where "consumes (read_streams layers q' (\<lambda>_. None) [0..<kv_n_stream kv])
      (skipped (stream_of kv q) @ io_bytes T ops @ skipped (kv_n_stream kv - Suc (stream_of kv q))) (dst, T') sis (kv', T') (seq_reads kv layers T q dst q' ixs)" by blast
    from host_loaded(1) [OF wrap(1) [OF this]] b
    have set: "state_seq_set_data q' bytes layers dst T' = Some (length buf, kv', fold tensor_set (seq_reads kv layers T q dst q' ixs) T')"
      by (simp add: state_seq_set_data_def)
    have pos: "kv_positions kv' t = (if t = nat q' then (!) (kc_pos ?c) ` set ?is else kv_positions dst t)" if "t < length (seq_to_stream dst)" for t
      using placed_positions [OF c(2) [folded rm(4)] ok0 rm(3)] pos0 that seqs by simp
    have ixs: "distinct ixs" "length ixs = length ?is" "\<And>i. i \<in> set ixs \<Longrightarrow> i < length (kc_pos (v_cells dst ! ?st))"
      using c(2) rm(6) st by (auto simp: seq_placed_def in_set_conv_nth)
    have "kv_ok kv'" using c(2) by (simp add: seq_placed_def)
    then show ?thesis using b(1) rm(1) set True c(2) pos q'(1) seq_rows_landed [OF src(1,2) dst(1) src(4) ixs] by auto
  next
    case False
    with S obtain kv1 where c: "raises (read_stream layers q' (\<lambda>_. None) (stream_of kv q)) (io_bytes T ops) (dst, T') RestoreFailed (kv1, T')"
      "kv_seq_rm q' (-1) (-1) kv0 = Some (kv1, True)" by auto
    from host_loaded(2) [OF wrap(2) [OF seq_streams(2) [OF s c(1)]]] b(3)
    have set: "state_seq_set_data q' bytes layers dst T' = Some (0, kv1, T')" by (simp add: state_seq_set_data_def)
    have "kv_ok kv1" using kv_ok_seq_rm [OF ok0 _ c(2)] rm(3) by blast
    moreover have "kv_positions kv1 t = (if t = nat q' then {} else kv_positions dst t)" if "t < length (seq_to_stream dst)" for t
      using seq_rm_positions [OF ok0 rm(3) _ c(2), of t] pos0 [OF that] that seqs q'(2) by auto
    ultimately show ?thesis using b(1) rm(1) set False q'(1) by auto
  qed
qed

text \<open>A sequence without cells: every stream is skipped.\<close>

lemma seq_restored_none:
  assumes src: "source_ok kv layers T" "at_home kv q" "q < 2 ^ 31" "saved_seq kv q = []"
    and dst: "kv_ok dst" "kv_seq_ok dst q'" "kv_n_stream dst = kv_n_stream kv"
    and buf: "state_seq_get_size q kv layers = Some (length buf)"
  shows "\<exists>bytes. state_seq_get_data q kv layers T buf = Some (bytes, length buf) \<and> state_seq_set_data q' bytes layers dst T' = Some (length buf, dst, T')"
proof -
  have kv: "kv_ok kv" "kv_n_stream kv < 2 ^ 32" using src(1) by (simp_all add: source_ok_def)
  have q: "kv_seq_ok kv q" "is_i32 q" using src(2,3) by (auto simp: at_home_def kv_seq_ok_def is_i32_def)
  have s: "stream_of kv q < kv_n_stream kv" by (rule kv_okD(4) [OF kv(1) q(1)])
  have ops: "write_stream kv layers q (stream_of kv q) = Some [Io_Write (u32_bytes 0)]" using write_stream_home [of kv q layers] src(4) by auto
  obtain bytes where b: "state_seq_get_data q kv layers T buf = Some (bytes, length buf)" "length bytes = length buf"
    "bytes = seq_header q (kv_n_stream kv) @ skipped (stream_of kv q) @ u32_bytes 0 @ skipped (kv_n_stream kv - Suc (stream_of kv q))"
    using saved_seq_bytes [OF src(1,2) buf ops] by auto
  note wrap = seq_wrapped(1) [OF kv_okD(1) [OF dst(1)] dst(2) q(2) kv(2) [folded dst(3)], unfolded dst(3)]
  obtain sis where "consumes (read_streams layers q' (\<lambda>_. None) [0..<kv_n_stream kv])
      (skipped (stream_of kv q) @ u32_bytes 0 @ skipped (kv_n_stream kv - Suc (stream_of kv q))) (dst, T') sis (dst, T') []"
    using seq_streams(1) [OF s consumes_skip] by blast
  from host_loaded(1) [OF wrap [OF this]] b show ?thesis by (auto simp: state_seq_set_data_def)
qed


lemma demo_seq_facts:
  fixes vt :: bool
  defines "kv \<equiv> kv_demo\<lparr>kv_v_trans := vt\<rparr>"
  shows "at_home kv 2" "saved_seq kv 2 = [0, 1]" "kv_positions kv 2 = {5, 7}" "kv_pos_max kv 2 < INT32_MAX"
    "seq_target_ok kv kv [demo_layer] (\<lambda>_. replicate 12 0) 2" "kv_seq_rm 2 (-1) (-1) kv = Some (kv0, True) \<Longrightarrow> kv_free_cells kv0 0 = 3"
proof -
  have ok: "kv_ok kv" using kv_demo_ok by (simp add: kv_def kv_ok_def)
  have seq: "kv_seq_ok kv 2" "stream_of kv 2 = 0" using kv_demo_seq by (simp_all add: kv_def kv_seq_ok_def stream_of_def)
  then show "at_home kv 2" by (simp add: at_home_def kv_def demo_fields)
  have swa: "kv_swa_type kv = SWA_TYPE_NONE" by (simp add: kv_def kv_demo_def)
  show "saved_seq kv 2 = [0, 1]"
    using seq swa by (simp add: saved_seq_def save_cell_def [abs_def] is_masked_swa_def cells_is_empty_def cells_seq_has_def) (simp add: kv_def demo_fields cells_demo_fields)
  show pos: "kv_positions kv 2 = {5, 7}" using kv_demo_positions(1) by (simp add: kv_positions_def kv_def)
  have "kv_valid kv 2" using seq(1) by (simp add: kv_valid_def kv_seq_ok_def)
  from kv_pos_max_eq [OF ok this] show "kv_pos_max kv 2 < INT32_MAX" by (simp add: pos INT32_MAX_def)
  have "\<not> kv_msa_strict_slots kv" by (simp add: kv_def kv_demo_def)
  with ok seq swa show "seq_target_ok kv kv [demo_layer] (\<lambda>_. replicate 12 0) 2"
    by (simp add: seq_target_ok_def plain_cache_def numbered_def)
      (simp add: kv_def demo_fields demo_cells(2) layer_fits_def v_reach_def demo_layer_def)
  assume "kv_seq_rm 2 (-1) (-1) kv = Some (kv0, True)"
  from kv_seq_rm_views [OF ok seq(1) this] seq(2)
  have V: "cells_size (v_cells kv0 ! 0) = 3" "\<forall>i < 3. cell_view (v_cells kv0 ! 0) i = rm_view 2 0 INT32_MAX (cell_view cells_demo i)"
    by (simp_all add: kv_def demo_fields lo_pos_def hi_pos_def cells_size_def cells_demo_fields)
  then have "{i. i < length (kc_pos (v_cells kv0 ! 0)) \<and> kc_pos (v_cells kv0 ! 0) ! i = -1} = {..<3}"
    by (auto simp: cells_size_def cell_view_def rm_view_def cells_demo_fields INT32_MAX_def All_less_Suc numeral_3_eq_3 less_Suc_eq)
  then show "kv_free_cells kv0 0 = 3" by (simp add: kv_free_cells_def)
qed


end
