(* ===== verification/Kv_State_Prev.thy ===== *)
theory Kv_State_Prev
  imports Kv_State_Restore
begin

text \<open>
  What a saved state does not carry: the token ids of the cells, unless the model has more than
  one position per embedding. \<open>get_prev_tokens\<close> reads them after a restore.
\<close>

section \<open>The history of a cache without token ids\<close>

definition no_token_ids :: "llama_kv_cache \<Rightarrow> bool" where
  "no_token_ids kv \<longleftrightarrow> (\<forall>s < kv_n_stream kv. \<forall>i \<in> kc_used (v_cells kv ! s). ext_tok (kc_ext (v_cells kv ! s) ! i) = LLAMA_TOKEN_NULL)"

lemma no_token_ids_found:
  assumes "finite (kc_used c)" "\<forall>i \<in> kc_used c. ext_tok (kc_ext c ! i) = LLAMA_TOKEN_NULL"
  shows "\<forall>x \<in> set (cells_for_each_token_in c seqs p0 p1). snd (snd x) = LLAMA_TOKEN_NULL"
  using assms by (auto simp: cells_for_each_token_in_def Let_def split: if_splits)

definition null_history :: "(int \<rightharpoonup> llama_token) \<Rightarrow> bool" where
  "null_history h \<longleftrightarrow> (\<forall>k. h k = None \<or> h k = Some LLAMA_TOKEN_NULL)"

lemma null_history_step:
  "\<forall>x \<in> set xs. snd (snd x) = LLAMA_TOKEN_NULL \<Longrightarrow> null_history h \<Longrightarrow>
    null_history (fold (\<lambda>(t, p, tok) h. h(hist_key (int t) p \<mapsto> tok)) xs h)"
proof (induction xs arbitrary: h)
  case (Cons x xs)
  have "null_history (h(k \<mapsto> LLAMA_TOKEN_NULL))" for k using Cons.prems(2) by (simp add: null_history_def)
  with Cons show ?case by (cases x) (simp del: fun_upd_apply)
qed simp

lemma token_hist_null:
  assumes ok: "kv_ok kv" and none: "no_token_ids kv"
  shows "null_history (kv_token_hist ub n kv)"
proof -
  let ?step = "\<lambda>seqs p0 p1 s h. fold (\<lambda>(t, p, tok) h. h(hist_key (int t) p \<mapsto> tok)) (cells_for_each_token_in (v_cells kv ! s) seqs p0 p1) h"
  have "null_history (fold (?step seqs p0 p1) ss h)" if "\<forall>s \<in> set ss. s < kv_n_stream kv" "null_history h" for ss h seqs p0 p1
    using that
  proof (induction ss arbitrary: h)
    case (Cons s ss)
    have s: "s < kv_n_stream kv" using Cons.prems(1) by simp
    have "null_history (?step seqs p0 p1 s h)"
      using none s by (intro null_history_step no_token_ids_found Cons.prems(2) finite_used kv_okD(5) [OF ok s]) (simp add: no_token_ids_def)
    with Cons show ?case by (simp del: fun_upd_apply)
  qed simp
  moreover have "null_history Map.empty" by (simp add: null_history_def)
  ultimately show ?thesis by (simp add: kv_token_hist_def Let_def del: fun_upd_apply)
qed

lemma prev_tokens_null:
  assumes "kv_ok kv" "no_token_ids kv"
  shows "kv_get_prev_tokens ub n kv = replicate (ub_n_tokens ub * n) LLAMA_TOKEN_NULL"
proof -
  have c: "concat (replicate m (replicate n x)) = replicate (m * n) x" for m and x :: llama_token
    by (induction m) (simp_all add: replicate_add)
  have t: "(case kv_token_hist ub n kv k of Some tok \<Rightarrow> tok | None \<Rightarrow> LLAMA_TOKEN_NULL) = LLAMA_TOKEN_NULL" for k
    using token_hist_null [OF assms, of ub n] by (cases "kv_token_hist ub n kv k") (simp_all add: null_history_def, metis option.distinct(1) option.inject)
  show ?thesis
    unfolding kv_get_prev_tokens_def Let_def t if_cancel map_replicate_const using c by simp
qed

section \<open>After a restore\<close>

lemma restored_no_token_ids:
  assumes src: "source_ok kv layers T" and dst: "kv_ok dst" "target_ok kv dst layers T'" and n: "kv_n_pos_per_embd kv = 1"
  shows "no_token_ids (restored_cache kv dst)"
proof -
  have ns: "kv_n_stream (restored_cache kv dst) = kv_n_stream kv" using dst restored_cache_eq [OF dst(1), of kv] by (simp add: target_ok_def)
  have "ext_tok (kc_ext (v_cells (restored_cache kv dst) ! s) ! i) = LLAMA_TOKEN_NULL"
    if s: "s < kv_n_stream kv" and i: "i \<in> kc_used (v_cells (restored_cache kv dst) ! s)" for s i
  proof -
    note F = restored_filled(1) [OF src dst s]
    have "i < length (kc_pos (v_cells (restored_cache kv dst) ! s))" using i cells_okD(7) [of "v_cells (restored_cache kv dst) ! s"] F by (simp add: cells_filled_def)
    with F n show ?thesis by (auto simp: cells_filled_def ext_default_def split: if_splits)
  qed
  then show ?thesis by (simp add: no_token_ids_def ns)
qed

text \<open>
  C40. The tokens before a micro-batch, which the n-gram embeddings hash, do not survive a save
  and restore when the model has one position per embedding: whatever tokens the saved cache
  knew, the restored one answers \<open>LLAMA_TOKEN_NULL\<close> for every token of every micro-batch.
\<close>

theorem restore_forgets_tokens:
  assumes src: "source_ok kv layers T" and dst: "kv_ok dst" "target_ok kv dst layers T'" and n: "kv_n_pos_per_embd kv = 1"
    and arch: "length arch < 2 ^ 32" and buf: "state_get_size arch kv layers = Some (length buf)"
  shows "\<exists>bytes kv' U. state_get_data arch kv layers T buf = Some (bytes, length buf) \<and>
    state_set_data arch bytes layers dst T' = Some (length buf, kv', U) \<and>
    (\<forall>ub k. kv_get_prev_tokens ub k kv' = replicate (ub_n_tokens ub * k) LLAMA_TOKEN_NULL)"
  using whole_restored [OF src dst arch buf] prev_tokens_null [OF restored_ok [OF src dst] restored_no_token_ids [OF src dst n]] by blast

text \<open>A cache whose cells know their tokens, and a micro-batch that continues it.\<close>

definition told_demo :: llama_kv_cache where
  "told_demo = (let kv = kv_demo\<lparr>kv_ple_n_heads := 1\<rparr>
     in on_cells 0 (cells_ext_set 1 (ext_default\<lparr>ext_tok := 42\<rparr>)) kv)"

definition next_demo :: llama_ubatch where
  "next_demo = \<lparr>ub_equal_seqs = True, ub_n_tokens = 1, ub_n_seq_tokens = 1, ub_n_seqs = 1, ub_n_seqs_unq = 1, ub_n_pos = 1,
     ub_token = Some [9], ub_embd = None, ub_pos = [8], ub_n_seq_id = [1], ub_seq_id = [[2]], ub_seq_id_unq = [2], ub_seq_idx = [], ub_output = [1]\<rparr>"

lemma told_demo_fields:
  "v_cells told_demo = [cells_ext_set 1 (ext_default\<lparr>ext_tok := 42\<rparr>) cells_demo]" "kv_n_stream told_demo = 1" "kv_n_seq_max told_demo = 3"
  "kv_n_pos_per_embd told_demo = 1" "kv_v_trans told_demo = False" "kv_other told_demo = None" "v_heads told_demo = [2]" "seq_to_stream told_demo = [0, 0, 0]"
  by (simp_all add: told_demo_def on_cells_def Let_def kv_demo_def)

lemma told_demo_source: "source_ok told_demo [demo_layer] demo_bytes"
  and told_demo_target: "kv_ok told_demo" "target_ok told_demo told_demo [demo_layer] demo_bytes"
  and told_demo_prev: "kv_get_prev_tokens next_demo 1 told_demo = [42]"
proof -
  let ?c = "cells_ext_set 1 (ext_default\<lparr>ext_tok := 42\<rparr>) cells_demo"
  have "cells_ok cells_demo" using kv_demo_ok by (simp add: kv_ok_def demo_fields)
  then have ok: "cells_ok ?c" by (rule cells_ok_ext_set)
  then show kv: "kv_ok told_demo" by (simp add: kv_ok_def told_demo_fields cells_size_def cells_demo_fields LLAMA_MAX_SEQ_def)
  have "\<forall>i < length (kc_pos ?c). cell_wire ?c i \<and> kc_seq ?c ! i \<subseteq> {..<3}"
    by (simp add: cells_demo_fields demo_ext cell_wire_def is_i32_def ext_default_def LLAMA_TOKEN_NULL_def All_less_Suc)
  with kv show "source_ok told_demo [demo_layer] demo_bytes"
    by (simp add: source_ok_def told_demo_fields demo_cells(2) demo_layer_ok numbered_def Let_def)
  have "saved_cells told_demo 0 = [0, 1]" by (simp add: saved_cells_def told_demo_fields cells_demo_fields)
  then show "target_ok told_demo told_demo [demo_layer] demo_bytes"
    by (simp add: target_ok_def told_demo_fields demo_cells(2) demo_layer_ok numbered_def Let_def)
  have one: "filter (\<lambda>s. s = 2) [0..<n] = (if 2 < n then [2] else [])" for n :: nat by (induction n) auto
  have "sorted_list_of_set (kc_used cells_demo) = [0, 1]" by (simp add: cells_demo_fields)
  then show "kv_get_prev_tokens next_demo 1 told_demo = [42]"
    by (simp add: kv_get_prev_tokens_def kv_token_hist_def next_demo_def told_demo_fields cells_for_each_token_in_def Let_def
        cells_demo_fields demo_ext INT32_MAX_def one LLAMA_MAX_SEQ_def)
qed

theorem restore_forgets_tokens_witness:
  "\<exists>n bytes kv' U. state_get_data [65] told_demo [demo_layer] demo_bytes (replicate n 0) = Some (bytes, n) \<and>
    state_set_data [65] bytes [demo_layer] told_demo demo_bytes = Some (n, kv', U) \<and>
    kv_get_prev_tokens next_demo 1 told_demo = [42] \<and> kv_get_prev_tokens next_demo 1 kv' = [LLAMA_TOKEN_NULL]"
proof -
  obtain n where n: "state_get_size [65] told_demo [demo_layer] = Some n"
    using state_write_in [OF told_demo_source, of "-1"] by (auto simp: state_get_size_def ctx_write_data_def)
  from restore_forgets_tokens [OF told_demo_source told_demo_target told_demo_fields(4), of "[65]" "replicate n 0"] n
  obtain bytes kv' U where "state_get_data [65] told_demo [demo_layer] demo_bytes (replicate n 0) = Some (bytes, n)"
    "state_set_data [65] bytes [demo_layer] told_demo demo_bytes = Some (n, kv', U)"
    "kv_get_prev_tokens next_demo 1 kv' = replicate (ub_n_tokens next_demo * 1) LLAMA_TOKEN_NULL" by auto
  then show ?thesis using told_demo_prev by (auto simp: next_demo_def)
qed

end
