(* ===== verification/Spec2Isabelle.thy ===== *)
theory Spec2Isabelle
  imports Expert_Placement Kq_Mask Kv_Batches Recurrent_Props Grammar_Text Moe_Props Reasoning_Props Trie_Check Kv_State_Seq Kv_State_Prev
begin

text \<open>
  A verification development for the host-side core of llama.cpp (src/src): the memory that holds
  the context of a model, the batches that feed it, and the placement of experts.

  How the parts interact. A caller hands tokens to \<open>llama_batch_allocr\<close> (src/src/llama-batch.cpp),
  which validates and completes the batch from the memory's last positions and cuts it into
  micro-batches. The memory, here the KV cache (src/src/llama-kv-cache.cpp), looks for cells for each
  micro-batch, places its tokens and computes the attention mask from the cells
  (src/src/llama-kv-cells.h). The expert placement (src/src/llama-expert-placement.cpp) distributes the
  experts of a mixture-of-experts model over the members of a split. The grammar engine masks the
  tokens the sampler may choose and follows the chosen ones. The cache of routed experts
  (src/src/llama-moe-cache.cpp) keeps some of the experts a model has in host memory in device slots.
  The reasoning budget (src/common/reasoning-budget.cpp) limits the tokens between the tags of a reasoning
  block, which it finds with an Aho-Corasick automaton (src/common/trie.cpp).

  Theories.
  \<^item> Prelude: result type and its simplification rules, bounds, \<open>write_all\<close> and list segments.
  \<^item> Expert_Placement: loader of the placement artifact with every error, the ownership tables and
    their audit; accepted artifacts are valid, the tables are a partition, the audit is exact.
  \<^item> Kv_Cells: one field of the record per member of \<open>llama_kv_cells\<close>, one definition per method;
    the invariant \<open>cells_ok\<close> with its preservation by every operation and the reachable states.
  \<^item> Batch: \<open>init\<close>, \<open>ubatch_add\<close> and the splits; Batch_Split and Batch_Props: what each split takes.
  \<^item> Seq_Memory: the contract of \<open>llama_memory_i\<close> as a locale, interpreted on the memories.
  \<^item> Kv_Cache: state and operations; Kv_Seq_Ops: the positions each sequence operation leaves;
    Kv_Slots: slot search, placement and dry run; Kv_Batches: \<open>init_batch\<close>; Kq_Mask: the mask.
  \<^item> State_Io: the streams a state is written to and read from (src/src/llama-io.h, src/src/llama-context.cpp).
    A save is the list of its writes, a restore a computation over the reader; \<open>consumes\<close> says that
    it takes exactly the bytes given. Kv_State: \<open>state_write\<close> and \<open>state_read\<close> of the KV cache.
    Kv_State_Data: the bytes of the tensors; Kv_State_Cells: the cells; Kv_State_Rows: where the tensor
    reads of a stream land; Kv_State_Whole: all streams; Kv_State_Props: content of a restored cache;
    Kv_State_Restore: the round trip of a whole cache, and failed restores. Kv_State_Tokens: the cells of
    one sequence as a micro-batch, its slot; Kv_State_Seq: the round trip of a sequence;
    Kv_State_Prev: the token ids a state does not carry.
  \<^item> Recurrent: the memory of recurrent models (src/src/llama-memory-recurrent.cpp), one cell per sequence;
    Recurrent_Ops: the agreement of cells and tails, kept by the sequence operations, and the contract
    of Seq_Memory; Recurrent_Slots, Recurrent_Find: each pass of \<open>find_slot\<close> and its result;
    Recurrent_Props: the properties.
  \<^item> Grammar_Utf8, Grammar, Grammar_Parser: the grammar engine (src/src/llama-grammar.cpp) from the text
    of a grammar to the masking of tokens. Grammar_Lang: the language of rules and stacks;
    Grammar_Advance: what advancing a stack computes and when it ends; Grammar_Left, Grammar_Ends: the
    check for left recursion, what it decides, where it suffices and where it does not;
    Grammar_Accept: the stacks after a text denote its completions; Grammar_Reject: the mask is exact;
    Grammar_Tokens: where mask and acceptance disagree; Grammar_Parse_Ok, Grammar_Parse_Props,
    Grammar_Text: the parser ends and its rules are well formed.
  \<^item> Moe_Cache: the cache of routed experts: creation, \<open>observe\<close>, \<open>step\<close>, the worker and the lanes of the
    graph, as a step relation of the main thread and the worker. Moe_Layer: the invariant of a layer;
    Moe_Inv: that of the cache, in every reachable state; Moe_Step: what a step keeps, publishes and
    schedules; Moe_Props: the properties.
  \<^item> Trie_Match: UTF-8 routines, trie, automaton and token matcher. Aho_Trie: the nodes of a trie are the
    prefixes of its words; Aho_Links: failure links lead to longest proper suffixes; Aho_Build: the
    breadth-first search ends and sets every link and match; Token_Matcher: what the matcher reports;
    Trie_Check: \<open>check_at\<close> and the UTF-8 round trip. Reasoning_Budget, Reasoning_Props: the sampler that
    counts, warns and forces, and its runs.

  Conventions. Positions are unbounded integers (\<open>llama_pos\<close> is \<open>int32_t\<close>; the overflow of a sum of
  positions is not modelled), sizes are naturals, the \<open>GGML_PAD\<close> macro is on 32-bit words. A failing
  \<open>GGML_ASSERT\<close>, \<open>GGML_ABORT\<close> or a null dereference is \<open>None\<close>; a \<open>false\<close> or an empty result of the
  code is a value. \<open>assert\<close> is absent, as in a release build.

  Fuel. \<open>find_loop\<close> of the slot search is given \<open>2 * size + 2\<close> rounds: each round tests a cell or
  wraps around once, and the search gives up after \<open>size\<close> cells, so the fuel is enough
  (\<open>find_loop_correct\<close>). The split loop of \<open>init_batch\<close> is given one round per token and one more
  (\<open>collect_simple\<close>). The loops of the grammar parser get one round per byte that is left and one
  more, nested groups one level per byte (\<open>parse_alternates_ok\<close>); the search for left recursion one
  level per rule and one more (\<open>detect_outcome\<close>); the rejection of candidates one level above the
  longest candidate (\<open>cands_below\<close>). The loop of \<open>advance_stack\<close> may run forever and is a
  \<open>partial_function\<close>: \<open>None\<close> is divergence. So are the walk along failure links and the breadth-first
  search of the automaton, which end on every trie (\<open>fail_walk_ok\<close>, \<open>ac_bfs_ok\<close>).

  The worker of the expert cache copies a slab in two transitions: any content of the slot while the copy
  runs, the expert when the backend has been synchronised. The mutex makes the hand over of jobs atomic.

  Not modelled: tensors, graphs, backends and the numerics on them; saving and restoring the state
  of the recurrent memory, and any state over device buffers; logging and debug printing; cloning
  and printing of grammars; regular expressions (the results of a match are arguments); tokenizers, sampling, model files, the server and the tools.
\<close>

end
